(* ===== verification/Prelude.thy ===== *)
theory Prelude
  imports Main "HOL-Library.Word" "HOL-Library.Monad_Syntax" "HOL-Library.While_Combinator"
begin

unbundle bit_operations_syntax

section \<open>Prelude: types, collections and lemmas the components share\<close>

text \<open>
  The fixed-width integers of the C sources, the rule collections of the development, the laws of a
  circular array (three files of the program keep one), the interface of a first-in first-out
  queue, and the drain loop \<open>while ((m = pop(q)) != NULL) f(m)\<close> that several components run.

  Conventions of the whole development. An operation of the program that may abort (a failing
  \<open>assert\<close>, a read outside an array, a read of memory that was allocated but never written) returns
  an \<open>option\<close>: \<open>None\<close> is the abort, so a theorem that the result is \<open>Some\<close> is the proof that the
  abort cannot happen. Error codes that the C function returns to its caller stay ordinary values.
\<close>

type_synonym u8 = "8 word"
type_synonym u16 = "16 word"
type_synonym u32 = "32 word"
type_synonym u64 = "64 word"
type_synonym bytes = "u8 list"

named_theorems ring_simps \<open>laws of the circular arrays\<close>
named_theorems mq_defs \<open>definitions of the message-queue operations\<close>

subsection \<open>Guards and array access\<close>

definition assert_opt :: "bool \<Rightarrow> unit option" where
  "assert_opt b = (if b then Some () else None)"

lemma assert_opt_simps [simp]:
  "assert_opt True = Some ()" "assert_opt False = None"
  by (simp_all add: assert_opt_def)

lemma assert_opt_Some [simp]: "assert_opt b = Some u \<longleftrightarrow> b"
  by (simp add: assert_opt_def)

lemma bind_assert_Some [simp]:
  "(Option.bind (assert_opt b) f = Some y) \<longleftrightarrow> b \<and> f () = Some y"
  by (simp add: assert_opt_def)

text \<open>Reading and writing a C array: outside its bounds the access is undefined.\<close>

definition array_get :: "'a list \<Rightarrow> nat \<Rightarrow> 'a option" where
  "array_get xs i = (if i < length xs then Some (xs ! i) else None)"

definition array_set :: "'a list \<Rightarrow> nat \<Rightarrow> 'a \<Rightarrow> 'a list option" where
  "array_set xs i x = (if i < length xs then Some (xs[i := x]) else None)"

lemma array_get_in [simp]: "i < length xs \<Longrightarrow> array_get xs i = Some (xs ! i)"
  by (simp add: array_get_def)

lemma array_set_in [simp]: "i < length xs \<Longrightarrow> array_set xs i x = Some (xs[i := x])"
  by (simp add: array_set_def)

lemma array_get_Some: "array_get xs i = Some x \<longleftrightarrow> i < length xs \<and> x = xs ! i"
  by (auto simp: array_get_def)

lemma array_set_Some: "array_set xs i x = Some ys \<longleftrightarrow> i < length xs \<and> ys = xs[i := x]"
  by (auto simp: array_set_def)

text \<open>Bytes copied into a block, inside of it.\<close>

definition put_bytes :: "nat \<Rightarrow> bytes \<Rightarrow> bytes \<Rightarrow> bytes option" where
  "put_bytes off bs dst =
     (if off + length bs \<le> length dst then Some (take off dst @ bs @ drop (off + length bs) dst) else None)"

lemma put_bytes_ok: "off + length bs \<le> length dst \<Longrightarrow> put_bytes off bs dst = Some (take off dst @ bs @ drop (off + length bs) dst)"
  by (simp add: put_bytes_def)

lemma take_length_append: "length xs = n \<Longrightarrow> take n (xs @ ys) = xs"
  by simp

lemma set_cells_eq:
  assumes "length ys = n" "\<And>c. f c < n"
    and "\<And>p c. p < n \<Longrightarrow> ys ! p = Some c \<longleftrightarrow> Some c \<in> set xs \<and> f c = p"
  shows "Some c \<in> set ys \<longleftrightarrow> Some c \<in> set xs"
  using assms by (simp add: in_set_conv_nth [where xs = ys]) blast

text \<open>The result of a function that Lua calls: its value, or the message of \<open>luaL_error\<close>.\<close>

datatype 'a lua_result = LuaOk 'a | LuaError string

subsection \<open>Words\<close>

lemma option_eqI: "(\<And>y. x = Some y \<longleftrightarrow> x' = Some y) \<Longrightarrow> x = x'"
  by (cases x; cases x') auto

lemma unat_drop_bit: "unat (drop_bit k w) = unat w div 2 ^ k"
  by (simp only: unat_drop_bit_eq drop_bit_eq_div [of k "unat w"])

lemma unat_and_mask: "unat (w AND mask k :: 'a::len word) = unat w mod 2 ^ k"
proof -
  have "w AND mask k = take_bit k w" by (simp only: take_bit_eq_mask)
  then show ?thesis by (simp only: unsigned_take_bit_eq) (simp only: take_bit_eq_mod)
qed

lemma byte_mask: "ucast (w AND 0xFF :: 'a::len word) = (ucast w :: u8)"
proof -
  have "w AND 0xFF = take_bit 8 w" by (simp add: take_bit_eq_mask mask_eq_exp_minus_1)
  then have "ucast (w AND 0xFF) = (ucast (take_bit 8 w) :: u8)" by (rule arg_cong)
  also have "\<dots> = ucast w" by (rule bit_word_eqI) (auto simp: bit_simps dest: bit_imp_le_length)
  finally show ?thesis .
qed

lemma word_of_bytes:
  "ucast (ucast w :: u8) OR push_bit 8 (ucast (ucast (drop_bit 8 w) :: u8)) OR push_bit 16 (ucast (ucast (drop_bit 16 w) :: u8))
     OR push_bit 24 (ucast (ucast (drop_bit 24 w) :: u8)) = (w :: u32)" (is "?l = w")
proof (rule bit_word_eqI)
  fix i assume "i < LENGTH(32)"
  then show "bit ?l i = bit w i"
    by (cases "i < 8"; cases "i < 16"; cases "i < 24") (auto simp: bit_simps)
qed

lemma pow2_dvd_pow2: "k \<le> n \<Longrightarrow> (2 :: nat) ^ k dvd 2 ^ n"
  by (rule le_imp_power_dvd)

subsection \<open>Circular arrays\<close>

text \<open>
  \<open>ring_slice xs h n\<close> reads \<open>n\<close> cells of the array \<open>xs\<close> from index \<open>h\<close>, wrapping at its end.
\<close>

definition ring_slice :: "'a list \<Rightarrow> nat \<Rightarrow> nat \<Rightarrow> 'a list" where
  "ring_slice xs h n = map (\<lambda>i. xs ! ((h + i) mod length xs)) [0..<n]"

lemma length_ring_slice [simp]: "length (ring_slice xs h n) = n"
  by (simp add: ring_slice_def)

lemma ring_slice_0 [simp]: "ring_slice xs h 0 = []"
  by (simp add: ring_slice_def)

lemma ring_slice_nth: "i < n \<Longrightarrow> ring_slice xs h n ! i = xs ! ((h + i) mod length xs)"
  by (simp add: ring_slice_def)

lemma ring_index_inj:
  fixes a b n h :: nat
  assumes "a < n" "b < n" "(h + a) mod n = (h + b) mod n"
  shows "a = b"
proof -
  have "int a mod int n = int b mod int n"
  proof -
    from assms(3) have "(int h + int a) mod int n = (int h + int b) mod int n"
      by (metis of_nat_add of_nat_mod)
    then have "((int h + int a) - int h) mod int n = ((int h + int b) - int h) mod int n"
      by (rule mod_diff_cong) simp
    then show ?thesis by simp
  qed
  with assms(1,2) show ?thesis by simp
qed

lemma ring_slice_push [ring_simps]:
  assumes "n < length xs"
  shows "ring_slice (xs[(h + n) mod length xs := x]) h (Suc n) = ring_slice xs h n @ [x]"
proof -
  have "(h + n) mod length xs \<noteq> (h + i) mod length xs" if "i < n" for i
    using ring_index_inj [of i "length xs" n h] that assms by fastforce
  moreover have "(h + n) mod length xs < length xs"
    using assms by (auto intro: mod_less_divisor)
  ultimately show ?thesis
    by (auto simp: ring_slice_def intro!: map_cong)
qed

lemma ring_slice_pop [ring_simps]:
  "ring_slice xs h (Suc n) = xs ! (h mod length xs) # ring_slice xs (Suc h mod length xs) n"
proof -
  have "[0..<Suc n] = 0 # map Suc [0..<n]"
    by (simp add: upt_conv_Cons map_Suc_upt del: upt_Suc)
  then show ?thesis
    by (simp add: ring_slice_def mod_add_left_eq del: upt_Suc)
qed

text \<open>Copying the slice to the front of a longer array leaves the same slice, now from index 0.\<close>

lemma ring_slice_copy [ring_simps]:
  assumes "length ys = n"
  shows "ring_slice (ys @ zs) 0 n = ys"
  using assms by (auto simp: ring_slice_def nth_append intro!: nth_equalityI)

lemma ring_slice_full: "ring_slice xs h (length xs) = rotate h xs"
  by (rule nth_equalityI) (simp_all add: ring_slice_nth nth_rotate)

text \<open>
  How many cells lie between \<open>head\<close> and \<open>tail\<close> of a circular array of size \<open>cap\<close> in which the two
  are equal only when nothing lies between them.
\<close>

definition ring_count :: "nat \<Rightarrow> nat \<Rightarrow> nat \<Rightarrow> nat" where
  "ring_count cap head tail = (if head \<le> tail then tail - head else tail + cap - head)"

lemma ring_count_less: "head < cap \<Longrightarrow> tail < cap \<Longrightarrow> ring_count cap head tail < cap"
  by (auto simp: ring_count_def)

lemma ring_count_tail:
  "head < cap \<Longrightarrow> tail < cap \<Longrightarrow> (head + ring_count cap head tail) mod cap = tail"
  by (auto simp: ring_count_def)

lemma ring_count_0: "head < cap \<Longrightarrow> ring_count cap head tail = 0 \<longleftrightarrow> head = tail"
  by (auto simp: ring_count_def)

lemma ring_count_push:
  assumes "head < cap" "tail < cap" "Suc tail mod cap \<noteq> head"
  shows "ring_count cap head (Suc tail mod cap) = Suc (ring_count cap head tail)"
  using assms by (cases "Suc tail = cap") (auto simp: ring_count_def)

lemma ring_count_full:
  assumes "head < cap" "tail < cap" "Suc tail mod cap = head"
  shows "ring_count cap head tail = cap - 1"
  using assms by (cases "Suc tail = cap") (auto simp: ring_count_def)

lemma ring_count_pop:
  assumes "head < cap" "tail < cap" "head \<noteq> tail"
  shows "ring_count cap head tail = Suc (ring_count cap (Suc head mod cap) tail)"
  using assms by (cases "Suc head = cap") (auto simp: ring_count_def)

text \<open>The signed computation of the count that the sources write.\<close>

lemma ring_count_int:
  "head < cap \<Longrightarrow> tail < cap \<Longrightarrow>
     (if tail < head then int tail - int head + int cap else int tail - int head)
     = int (ring_count cap head tail)"
  by (auto simp: ring_count_def)

text \<open>The two ways the sources advance an index: with \<open>%\<close>, and with a comparison and a reset.\<close>

lemma wrap_index: "i < cap \<Longrightarrow> (if cap \<le> Suc i then 0 else Suc i) = Suc i mod cap"
  by (cases "Suc i = cap") auto

subsection \<open>Effects folded over a list, and the drain loop\<close>

primrec fold_opt :: "('a \<Rightarrow> 's \<Rightarrow> 's option) \<Rightarrow> 'a list \<Rightarrow> 's \<Rightarrow> 's option" where
  "fold_opt f [] s = Some s"
| "fold_opt f (x # xs) s = do { s' \<leftarrow> f x s; fold_opt f xs s' }"

lemma fold_opt_append:
  "fold_opt f (xs @ ys) s = do { s' \<leftarrow> fold_opt f xs s; fold_opt f ys s' }"
  by (induction xs arbitrary: s) (simp_all split: Option.bind_split)

lemma fold_opt_total: "(\<And>x s. f x s = Some (g x s)) \<Longrightarrow> fold_opt f xs s = Some (fold g xs s)"
  by (induction xs arbitrary: s) auto

lemma fold_opt_invar:
  assumes "fold_opt f xs s = Some t" "I s"
    and step: "\<And>x s t. x \<in> set xs \<Longrightarrow> I s \<Longrightarrow> f x s = Some t \<Longrightarrow> I t"
  shows "I t"
  using assms(1,2) step
proof (induction xs arbitrary: s)
  case Nil
  then show ?case by simp
next
  case (Cons x xs)
  from Cons.prems(1) obtain s1 where s1: "f x s = Some s1" "fold_opt f xs s1 = Some t"
    by (auto split: bind_splits)
  from Cons.prems(3) [OF _ Cons.prems(2) s1(1)] have "I s1" by simp
  with s1(2) Cons.prems(3) show ?case by (meson Cons.IH list.set_intros(2))
qed

text \<open>
  \<open>while ((m = pop(q)) != NULL) act(m)\<close>. A loop that never stops is the value \<open>None\<close>, like an abort.
\<close>

partial_function (option) drain_loop ::
  "('q \<Rightarrow> ('a option \<times> 'q) option) \<Rightarrow> ('a \<Rightarrow> 's \<Rightarrow> 's option) \<Rightarrow> 'q \<Rightarrow> 's \<Rightarrow> ('q \<times> 's) option" where
  "drain_loop pop act q s =
     do { (r, q') \<leftarrow> pop q;
          (case r of
             None \<Rightarrow> Some (q', s)
           | Some m \<Rightarrow> do { s' \<leftarrow> act m s; drain_loop pop act q' s' }) }"

subsection \<open>The interface of a first-in first-out queue\<close>

text \<open>
  What the program's three circular buffers promise: the message queue of a service, the queue of
  messages that wait for a harbor, and the queue of complete network packages.
\<close>

locale fifo_queue =
  fixes invar :: "'q \<Rightarrow> bool"
    and contents :: "'q \<Rightarrow> 'a list"
    and push :: "'a \<Rightarrow> 'q \<Rightarrow> 'q option"
    and pop :: "'q \<Rightarrow> ('a option \<times> 'q) option"
  assumes push_law:
      "invar q \<Longrightarrow> \<exists>q'. push x q = Some q' \<and> invar q' \<and> contents q' = contents q @ [x]"
    and pop_empty_law:
      "invar q \<Longrightarrow> contents q = [] \<Longrightarrow> \<exists>q'. pop q = Some (None, q') \<and> invar q' \<and> contents q' = []"
    and pop_cons_law:
      "invar q \<Longrightarrow> contents q = x # xs \<Longrightarrow>
         \<exists>q'. pop q = Some (Some x, q') \<and> invar q' \<and> contents q' = xs"
begin

lemma push_all:
  "invar q \<Longrightarrow> \<exists>q'. fold_opt push xs q = Some q' \<and> invar q' \<and> contents q' = contents q @ xs"
proof (induction xs arbitrary: q)
  case Nil
  then show ?case by simp
next
  case (Cons x xs)
  from push_law [OF Cons.prems, of x] obtain q1 where
    q1: "push x q = Some q1" "invar q1" "contents q1 = contents q @ [x]" by blast
  from Cons.IH [OF q1(2)] q1 show ?case by auto
qed

text \<open>The drain loop stops, and applies its action to the contents in order.\<close>

lemma drain_contents:
  assumes "invar q" "fold_opt act (contents q) s = Some t"
  shows "\<exists>q'. drain_loop pop act q s = Some (q', t) \<and> invar q' \<and> contents q' = []"
  using assms
proof (induction "contents q" arbitrary: q s)
  case Nil
  then obtain q' where "pop q = Some (None, q')" "invar q'" "contents q' = []"
    using pop_empty_law [of q] by auto
  with Nil show ?case by (auto simp: drain_loop.simps [of pop act q])
next
  case (Cons x xs)
  then obtain q1 where q1: "pop q = Some (Some x, q1)" "invar q1" "contents q1 = xs"
    using pop_cons_law [of q x xs] by auto
  from Cons.prems(2) Cons.hyps(2) [symmetric] obtain s1 where
    s1: "act x s = Some s1" "fold_opt act xs s1 = Some t" by (auto split: bind_splits)
  from Cons.hyps(1) [of q1 s1] q1 s1 show ?case
    by (auto simp: drain_loop.simps [of pop act q])
qed

text \<open>Messages pushed are popped in the order they were pushed, after those already queued.\<close>

lemma drain_after_push_all:
  assumes "invar q"
  shows "\<exists>q1 q2. fold_opt push xs q = Some q1 \<and>
           drain_loop pop (\<lambda>m out. Some (out @ [m])) q1 [] = Some (q2, contents q @ xs) \<and>
           invar q2 \<and> contents q2 = []"
proof -
  from push_all [OF assms, of xs] obtain q1 where
    q1: "fold_opt push xs q = Some q1" "invar q1" "contents q1 = contents q @ xs" by blast
  have "fold (\<lambda>m out. out @ [m]) ms out = out @ ms" for ms out :: "'a list"
    by (induction ms arbitrary: out) auto
  then have "fold_opt (\<lambda>m out. Some (out @ [m])) (contents q1) [] = Some (contents q1)"
    by (simp add: fold_opt_total [where g = "\<lambda>m out. out @ [m]"])
  from drain_contents [OF q1(2) this] q1 show ?thesis by auto
qed

end

end
