(* ===== verification/Message_Queue.thy ===== *)
theory Message_Queue
  imports Prelude
begin

section \<open>Message queues and the global queue (\<open>skynet_mq.c\<close>)\<close>

text \<open>
  Every service has a \<open>message_queue\<close>, a circular array that doubles when it fills. The queues that
  have messages are linked through their \<open>next\<close> fields into the one global queue, from which the
  worker threads take them. The messages themselves are never inspected here, so their type is a
  parameter. An allocated but unwritten cell of the array is \<open>None\<close>.
  The links are real: a store maps the address of a queue to its fields, and pushing a queue to the
  global queue updates the \<open>next\<close> field of another queue of the store.
\<close>

subsection \<open>State\<close>

definition DEFAULT_QUEUE_SIZE :: nat where "DEFAULT_QUEUE_SIZE = 64"
definition MQ_IN_GLOBAL :: int where "MQ_IN_GLOBAL = 1"
definition MQ_OVERLOAD :: int where "MQ_OVERLOAD = 1024"

type_synonym mqid = nat

record 'm message_queue =
  mq_handle :: u32
  mq_cap :: nat
  mq_head :: nat
  mq_tail :: nat
  mq_release :: int
  mq_in_global :: int
  mq_overload :: int
  mq_overload_threshold :: int
  mq_queue :: "'m option list"
  mq_next :: "mqid option"

record 'm mq_store =
  mqs :: "mqid \<Rightarrow> 'm message_queue option"
  gq_head :: "mqid option"
  gq_tail :: "mqid option"

subsection \<open>One queue\<close>

definition skynet_mq_create :: "u32 \<Rightarrow> 'm message_queue" where
  "skynet_mq_create h =
     \<lparr>mq_handle = h, mq_cap = DEFAULT_QUEUE_SIZE, mq_head = 0, mq_tail = 0, mq_release = 0,
      mq_in_global = MQ_IN_GLOBAL, mq_overload = 0, mq_overload_threshold = MQ_OVERLOAD,
      mq_queue = replicate DEFAULT_QUEUE_SIZE None, mq_next = None\<rparr>"

definition skynet_mq_handle :: "'m message_queue \<Rightarrow> u32" where
  "skynet_mq_handle q = mq_handle q"

definition skynet_mq_length :: "'m message_queue \<Rightarrow> int" where
  "skynet_mq_length q =
     (if mq_head q \<le> mq_tail q then int (mq_tail q) - int (mq_head q)
      else int (mq_tail q) + int (mq_cap q) - int (mq_head q))"

definition skynet_mq_overload :: "'m message_queue \<Rightarrow> int \<times> 'm message_queue" where
  "skynet_mq_overload q =
     (if mq_overload q \<noteq> 0 then (mq_overload q, q\<lparr>mq_overload := 0\<rparr>) else (0, q))"

text \<open>The loop of \<open>skynet_mq_pop\<close> that raises the overload threshold above the length.\<close>

definition overload_loop :: "int \<Rightarrow> int \<Rightarrow> int \<Rightarrow> (int \<times> int) option" where
  "overload_loop len ov th =
     while_option (\<lambda>(ov, th). th < len) (\<lambda>(ov, th). (len, th * 2)) (ov, th)"

definition mq_pop_head :: "'m message_queue \<Rightarrow> ('m \<times> 'm message_queue) option" where
  "mq_pop_head q =
     do { cell \<leftarrow> array_get (mq_queue q) (mq_head q);
          m \<leftarrow> cell;
          let head = Suc (mq_head q);
          let head = (if mq_cap q \<le> head then 0 else head);
          let len = int (mq_tail q) - int head;
          let len = (if len < 0 then len + int (mq_cap q) else len);
          (ov, th) \<leftarrow> overload_loop len (mq_overload q) (mq_overload_threshold q);
          Some (m, q\<lparr>mq_head := head, mq_overload := ov, mq_overload_threshold := th\<rparr>) }"

text \<open>\<open>skynet_mq_pop\<close> returns 0 and a message, or 1 (here \<open>None\<close>) when the queue is empty.\<close>

definition skynet_mq_pop :: "'m message_queue \<Rightarrow> ('m option \<times> 'm message_queue) option" where
  "skynet_mq_pop q =
     (if mq_head q \<noteq> mq_tail q then do { (m, q') \<leftarrow> mq_pop_head q; Some (Some m, q') }
      else Some (None, q\<lparr>mq_overload_threshold := MQ_OVERLOAD, mq_in_global := 0\<rparr>))"

definition expand_queue :: "'m message_queue \<Rightarrow> 'm message_queue" where
  "expand_queue q =
     q\<lparr>mq_queue := map (\<lambda>i. mq_queue q ! ((mq_head q + i) mod mq_cap q)) [0..<mq_cap q]
                   @ replicate (mq_cap q) None,
       mq_head := 0, mq_tail := mq_cap q, mq_cap := mq_cap q * 2\<rparr>"

text \<open>The part of \<open>skynet_mq_push\<close> that stores the message, before it looks at \<open>in_global\<close>.\<close>

definition mq_store_message :: "'m \<Rightarrow> 'm message_queue \<Rightarrow> 'm message_queue option" where
  "mq_store_message m q =
     do { arr \<leftarrow> array_set (mq_queue q) (mq_tail q) (Some m);
          let tail = Suc (mq_tail q);
          let tail = (if mq_cap q \<le> tail then 0 else tail);
          let q = q\<lparr>mq_queue := arr, mq_tail := tail\<rparr>;
          Some (if mq_head q = mq_tail q then expand_queue q else q) }"

subsection \<open>The global queue\<close>

definition skynet_mq_init :: "'m mq_store" where
  "skynet_mq_init = \<lparr>mqs = (\<lambda>_. None), gq_head = None, gq_tail = None\<rparr>"

definition put_mq :: "mqid \<Rightarrow> 'm message_queue \<Rightarrow> 'm mq_store \<Rightarrow> 'm mq_store" where
  "put_mq i q st = st\<lparr>mqs := (mqs st)(i \<mapsto> q)\<rparr>"

definition skynet_globalmq_push :: "mqid \<Rightarrow> 'm mq_store \<Rightarrow> 'm mq_store option" where
  "skynet_globalmq_push i st =
     do { q \<leftarrow> mqs st i;
          assert_opt (mq_next q = None);
          (case gq_tail st of
             Some t \<Rightarrow>
               do { tq \<leftarrow> mqs st t;
                    Some ((put_mq t (tq\<lparr>mq_next := Some i\<rparr>) st)\<lparr>gq_tail := Some i\<rparr>) }
           | None \<Rightarrow> Some (st\<lparr>gq_head := Some i, gq_tail := Some i\<rparr>)) }"

definition skynet_globalmq_pop :: "'m mq_store \<Rightarrow> (mqid option \<times> 'm mq_store) option" where
  "skynet_globalmq_pop st =
     (case gq_head st of
        None \<Rightarrow> Some (None, st)
      | Some i \<Rightarrow>
          do { q \<leftarrow> mqs st i;
               let st1 = st\<lparr>gq_head := mq_next q\<rparr>;
               st2 \<leftarrow> (if mq_next q = None
                        then do { assert_opt (gq_tail st = Some i); Some (st1\<lparr>gq_tail := None\<rparr>) }
                        else Some st1);
               Some (Some i, put_mq i (q\<lparr>mq_next := None\<rparr>) st2) })"

definition skynet_mq_push :: "mqid \<Rightarrow> 'm \<Rightarrow> 'm mq_store \<Rightarrow> 'm mq_store option" where
  "skynet_mq_push i m st =
     do { q \<leftarrow> mqs st i;
          q1 \<leftarrow> mq_store_message m q;
          (if mq_in_global q1 = 0
           then skynet_globalmq_push i (put_mq i (q1\<lparr>mq_in_global := MQ_IN_GLOBAL\<rparr>) st)
           else Some (put_mq i q1 st)) }"

definition skynet_mq_mark_release :: "mqid \<Rightarrow> 'm mq_store \<Rightarrow> 'm mq_store option" where
  "skynet_mq_mark_release i st =
     do { q \<leftarrow> mqs st i;
          assert_opt (mq_release q = 0);
          let st = put_mq i (q\<lparr>mq_release := 1\<rparr>) st;
          (if mq_in_global q \<noteq> MQ_IN_GLOBAL then skynet_globalmq_push i st else Some st) }"

text \<open>\<open>_release\<close> frees the queue: its address leaves the store.\<close>

definition mq_free :: "mqid \<Rightarrow> 'm mq_store \<Rightarrow> 'm mq_store option" where
  "mq_free i st =
     do { q \<leftarrow> mqs st i;
          assert_opt (mq_next q = None);
          Some (st\<lparr>mqs := (mqs st)(i := None)\<rparr>) }"

text \<open>
  \<open>_drop_queue\<close> pops every message and hands it to \<open>drop_func\<close>, which may act on the whole world:
  here the store of queues beside whatever else \<open>drop_func\<close> touches.
\<close>

partial_function (option) drop_loop ::
  "('m \<Rightarrow> 'm mq_store \<times> 'u \<Rightarrow> ('m mq_store \<times> 'u) option) \<Rightarrow> mqid \<Rightarrow>
   'm mq_store \<times> 'u \<Rightarrow> ('m mq_store \<times> 'u) option" where
  "drop_loop drop_func i w =
     do { q \<leftarrow> mqs (fst w) i;
          (r, q') \<leftarrow> skynet_mq_pop q;
          (case r of
             None \<Rightarrow> Some (put_mq i q' (fst w), snd w)
           | Some m \<Rightarrow> do { w' \<leftarrow> drop_func m (put_mq i q' (fst w), snd w);
                             drop_loop drop_func i w' }) }"

definition drop_queue ::
  "('m \<Rightarrow> 'm mq_store \<times> 'u \<Rightarrow> ('m mq_store \<times> 'u) option) \<Rightarrow> mqid \<Rightarrow>
   'm mq_store \<times> 'u \<Rightarrow> ('m mq_store \<times> 'u) option" where
  "drop_queue drop_func i w =
     do { w' \<leftarrow> drop_loop drop_func i w;
          st \<leftarrow> mq_free i (fst w');
          Some (st, snd w') }"

definition skynet_mq_release ::
  "('m \<Rightarrow> 'm mq_store \<times> 'u \<Rightarrow> ('m mq_store \<times> 'u) option) \<Rightarrow> mqid \<Rightarrow>
   'm mq_store \<times> 'u \<Rightarrow> ('m mq_store \<times> 'u) option" where
  "skynet_mq_release drop_func i w =
     do { q \<leftarrow> mqs (fst w) i;
          (if mq_release q \<noteq> 0 then drop_queue drop_func i w
           else do { st \<leftarrow> skynet_globalmq_push i (fst w); Some (st, snd w) }) }"

subsection \<open>The circular buffer is a first-in first-out queue\<close>

definition mq_count :: "'m message_queue \<Rightarrow> nat" where
  "mq_count q = ring_count (mq_cap q) (mq_head q) (mq_tail q)"

definition mq_cells :: "'m message_queue \<Rightarrow> 'm option list" where
  "mq_cells q = ring_slice (mq_queue q) (mq_head q) (mq_count q)"

definition mq_contents :: "'m message_queue \<Rightarrow> 'm list" where
  "mq_contents q = map the (mq_cells q)"

definition mq_wf :: "'m message_queue \<Rightarrow> bool" where
  "mq_wf q \<longleftrightarrow> mq_head q < mq_cap q \<and> mq_tail q < mq_cap q \<and> length (mq_queue q) = mq_cap q
     \<and> 0 < mq_overload_threshold q \<and> None \<notin> set (mq_cells q)"

lemma overload_loop_result:
  assumes "0 < th"
  shows "\<exists>th'. overload_loop len ov th = Some (if th < len then len else ov, th') \<and>
           th \<le> th' \<and> len \<le> th' \<and> (th' = th \<or> th' < 2 * len)"
  using assms
proof (induction "nat (len - th)" arbitrary: ov th rule: less_induct)
  case less
  show ?case
  proof (cases "th < len")
    case False
    then show ?thesis by (auto simp: overload_loop_def while_option_unfold)
  next
    case True
    have step: "overload_loop len ov th = overload_loop len len (th * 2)"
      using True by (simp add: overload_loop_def while_option_unfold [of _ _ "(ov, th)"])
    from less.hyps [of "th * 2" len] True less.prems obtain th' where
      "overload_loop len len (th * 2) = Some (if th * 2 < len then len else len, th')"
      "th * 2 \<le> th'" "len \<le> th'" "th' = th * 2 \<or> th' < 2 * len"
      by (auto simp: nat_less_iff)
    with True less.prems step show ?thesis by auto
  qed
qed

lemma mq_length_count: "mq_wf q \<Longrightarrow> skynet_mq_length q = int (mq_count q)"
  by (auto simp: skynet_mq_length_def mq_count_def ring_count_def mq_wf_def)

lemma mq_contents_length: "length (mq_contents q) = mq_count q"
  by (simp add: mq_contents_def mq_cells_def)

lemma mq_create_wf: "mq_wf (skynet_mq_create h)" "mq_contents (skynet_mq_create h) = []"
  by (simp_all add: mq_wf_def skynet_mq_create_def mq_cells_def mq_contents_def mq_count_def
      ring_count_def DEFAULT_QUEUE_SIZE_def MQ_OVERLOAD_def)

lemma mq_pop_cells:
  assumes "mq_wf q" "mq_head q \<noteq> mq_tail q"
  shows "mq_cells q = mq_queue q ! mq_head q # mq_cells (q\<lparr>mq_head := Suc (mq_head q) mod mq_cap q\<rparr>)"
  using assms ring_count_pop [of "mq_head q" "mq_cap q" "mq_tail q"]
  by (simp add: mq_cells_def mq_count_def mq_wf_def ring_slice_pop)

lemma mq_pop_head_result:
  assumes "mq_wf q" "mq_head q \<noteq> mq_tail q"
  shows "\<exists>m q'. mq_pop_head q = Some (m, q') \<and> mq_wf q' \<and> mq_contents q = m # mq_contents q' \<and>
           mq_overload q' = (if mq_overload_threshold q < int (mq_count q')
                             then int (mq_count q') else mq_overload q) \<and>
           int (mq_count q') \<le> mq_overload_threshold q'"
proof -
  let ?h = "Suc (mq_head q) mod mq_cap q"
  let ?q1 = "q\<lparr>mq_head := ?h\<rparr>"
  note cells = mq_pop_cells [OF assms]
  have wf: "mq_head q < mq_cap q" "mq_tail q < mq_cap q" "length (mq_queue q) = mq_cap q"
    "0 < mq_overload_threshold q" "None \<notin> set (mq_cells q)"
    using assms(1) by (simp_all add: mq_wf_def)
  from cells wf(5) obtain m where m: "mq_queue q ! mq_head q = Some m"
    by (cases "mq_queue q ! mq_head q") auto
  have h: "?h < mq_cap q" using wf(1) by (auto intro: mod_less_divisor)
  have len: "(if mq_tail q < ?h then int (mq_tail q) - int ?h + int (mq_cap q)
              else int (mq_tail q) - int ?h) = int (mq_count ?q1)"
    using ring_count_int [OF h wf(2)] by (simp add: mq_count_def)
  from overload_loop_result [OF wf(4), of "int (mq_count ?q1)" "mq_overload q"] obtain th where
    th: "overload_loop (int (mq_count ?q1)) (mq_overload q) (mq_overload_threshold q) =
           Some (if mq_overload_threshold q < int (mq_count ?q1) then int (mq_count ?q1)
                 else mq_overload q, th)"
    "mq_overload_threshold q \<le> th" "int (mq_count ?q1) \<le> th" by blast
  let ?q2 = "?q1\<lparr>mq_overload := if mq_overload_threshold q < int (mq_count ?q1)
                   then int (mq_count ?q1) else mq_overload q, mq_overload_threshold := th\<rparr>"
  have "mq_pop_head q = Some (m, ?q2)"
    unfolding mq_pop_head_def Let_def wrap_index [OF wf(1)] using wf m by (simp add: len th(1))
  moreover have "mq_cells ?q2 = mq_cells ?q1" "mq_count ?q2 = mq_count ?q1"
    by (simp_all add: mq_cells_def mq_count_def)
  moreover have "mq_wf ?q2"
    using wf h th(2) cells \<open>mq_cells ?q2 = mq_cells ?q1\<close> by (simp add: mq_wf_def)
  ultimately show ?thesis
    using cells m th(3) by (auto simp: mq_contents_def)
qed

lemma mq_pop_nonempty:
  assumes "mq_wf q" "mq_contents q = m # ms"
  shows "\<exists>q'. skynet_mq_pop q = Some (Some m, q') \<and> mq_wf q' \<and> mq_contents q' = ms"
proof -
  from assms have "mq_head q \<noteq> mq_tail q"
    by (auto simp: mq_contents_def mq_cells_def mq_count_def ring_count_def)
  with mq_pop_head_result [OF assms(1) this] assms(2) show ?thesis
    by (auto simp: skynet_mq_pop_def)
qed

lemma mq_pop_empty:
  assumes "mq_wf q" "mq_contents q = []"
  shows "skynet_mq_pop q =
    Some (None, q\<lparr>mq_overload_threshold := MQ_OVERLOAD, mq_in_global := 0\<rparr>)"
proof -
  from assms have "mq_head q = mq_tail q"
    using mq_contents_length [of q] ring_count_0 [of "mq_head q" "mq_cap q" "mq_tail q"]
    by (simp add: mq_count_def mq_wf_def)
  then show ?thesis by (simp add: skynet_mq_pop_def)
qed

lemma mq_wf_empty_update:
  "mq_wf q \<Longrightarrow> mq_wf (q\<lparr>mq_overload_threshold := MQ_OVERLOAD, mq_in_global := 0\<rparr>)"
  "mq_contents (q\<lparr>mq_overload_threshold := MQ_OVERLOAD, mq_in_global := 0\<rparr>) = mq_contents q"
  by (simp_all add: mq_wf_def mq_contents_def mq_cells_def mq_count_def MQ_OVERLOAD_def)

lemma mq_wf_flags [simp]:
  "mq_wf (q\<lparr>mq_in_global := g\<rparr>) = mq_wf q" "mq_contents (q\<lparr>mq_in_global := g\<rparr>) = mq_contents q"
  "mq_wf (q\<lparr>mq_release := r\<rparr>) = mq_wf q" "mq_contents (q\<lparr>mq_release := r\<rparr>) = mq_contents q"
  "mq_wf (q\<lparr>mq_next := n\<rparr>) = mq_wf q" "mq_contents (q\<lparr>mq_next := n\<rparr>) = mq_contents q"
  "mq_wf (q\<lparr>mq_overload := n'\<rparr>) = mq_wf q" "mq_contents (q\<lparr>mq_overload := n'\<rparr>) = mq_contents q"
  by (simp_all add: mq_wf_def mq_contents_def mq_cells_def mq_count_def)

text \<open>Storing a message when a cell stays free, and when the array is full and doubles.\<close>

lemma mq_store_room:
  assumes "mq_wf q" "Suc (mq_tail q) mod mq_cap q \<noteq> mq_head q"
  shows "\<exists>q'. mq_store_message m q = Some q' \<and> mq_wf q' \<and> mq_contents q' = mq_contents q @ [m] \<and>
           mq_cap q' = mq_cap q"
proof -
  let ?q = "q\<lparr>mq_queue := (mq_queue q)[mq_tail q := Some m], mq_tail := Suc (mq_tail q) mod mq_cap q\<rparr>"
  have wf: "mq_head q < mq_cap q" "mq_tail q < mq_cap q" "length (mq_queue q) = mq_cap q"
    using assms(1) by (simp_all add: mq_wf_def)
  have "mq_store_message m q = Some ?q"
    using wf assms(2) by (auto simp: mq_store_message_def wrap_index Let_def)
  moreover have "mq_cells ?q = mq_cells q @ [Some m]"
    using ring_slice_push [of "mq_count q" "mq_queue q" "mq_head q" "Some m"]
      ring_count_push [OF wf(1,2) assms(2)] ring_count_tail [OF wf(1,2)] ring_count_less [OF wf(1,2)] wf(3)
    by (simp add: mq_cells_def mq_count_def)
  moreover have "Suc (mq_tail q) mod mq_cap q < mq_cap q"
    using wf(1) by (auto intro: mod_less_divisor)
  ultimately show ?thesis
    using assms(1) wf by (auto simp: mq_wf_def mq_contents_def)
qed

lemma mq_store_full:
  assumes "mq_wf q" "Suc (mq_tail q) mod mq_cap q = mq_head q"
  shows "\<exists>q'. mq_store_message m q = Some q' \<and> mq_wf q' \<and> mq_contents q' = mq_contents q @ [m] \<and>
           mq_cap q' = 2 * mq_cap q"
proof -
  let ?arr = "(mq_queue q)[mq_tail q := Some m]"
  let ?cells = "ring_slice ?arr (mq_head q) (mq_cap q)"
  let ?q = "q\<lparr>mq_queue := ?cells @ replicate (mq_cap q) None, mq_head := 0, mq_tail := mq_cap q,
              mq_cap := mq_cap q * 2\<rparr>"
  have wf: "mq_head q < mq_cap q" "mq_tail q < mq_cap q" "length (mq_queue q) = mq_cap q"
    using assms(1) by (simp_all add: mq_wf_def)
  have "mq_store_message m q = Some ?q"
    using wf assms(2)
    by (auto simp: mq_store_message_def wrap_index Let_def expand_queue_def ring_slice_def)
  moreover have full: "?cells = mq_cells q @ [Some m]"
    using ring_slice_push [of "mq_cap q - 1" "mq_queue q" "mq_head q" "Some m"]
      ring_count_full [OF wf(1,2) assms(2)] ring_count_tail [OF wf(1,2)] wf
    by (simp add: mq_cells_def mq_count_def)
  moreover have "mq_cells ?q = ?cells"
    using ring_slice_copy [of ?cells "mq_cap q" "replicate (mq_cap q) None"]
    by (simp add: mq_cells_def mq_count_def ring_count_def)
  moreover have "length (mq_cells q @ [Some m]) = mq_cap q"
    using full length_ring_slice by metis
  ultimately show ?thesis
    using assms(1) wf by (auto simp: mq_wf_def mq_contents_def)
qed

lemma mq_store_result:
  assumes "mq_wf q"
  shows "\<exists>q'. mq_store_message m q = Some q' \<and> mq_wf q' \<and> mq_contents q' = mq_contents q @ [m]"
  using mq_store_room [OF assms, of m] mq_store_full [OF assms, of m]
  by (cases "Suc (mq_tail q) mod mq_cap q = mq_head q") auto

interpretation mqf: fifo_queue mq_wf mq_contents mq_store_message skynet_mq_pop
proof
  fix q :: "'a message_queue" and x :: 'a and xs
  show "mq_wf q \<Longrightarrow> \<exists>q'. mq_store_message x q = Some q' \<and> mq_wf q' \<and> mq_contents q' = mq_contents q @ [x]"
    by (rule mq_store_result)
  show "mq_wf q \<Longrightarrow> mq_contents q = [] \<Longrightarrow>
      \<exists>q'. skynet_mq_pop q = Some (None, q') \<and> mq_wf q' \<and> mq_contents q' = []"
    using mq_pop_empty [of q] mq_wf_empty_update [of q] by simp
  show "mq_wf q \<Longrightarrow> mq_contents q = x # xs \<Longrightarrow>
      \<exists>q'. skynet_mq_pop q = Some (Some x, q') \<and> mq_wf q' \<and> mq_contents q' = xs"
    by (rule mq_pop_nonempty)
qed

text \<open>The fields that storing and popping a message leave alone.\<close>

lemma mq_store_frame:
  "mq_store_message m q = Some q' \<Longrightarrow>
     mq_handle q' = mq_handle q \<and> mq_release q' = mq_release q \<and> mq_in_global q' = mq_in_global q \<and>
     mq_next q' = mq_next q"
  by (auto simp: mq_store_message_def expand_queue_def array_set_Some Let_def split: bind_splits if_splits)

lemma mq_pop_frame:
  "skynet_mq_pop q = Some (r, q') \<Longrightarrow>
     mq_handle q' = mq_handle q \<and> mq_release q' = mq_release q \<and> mq_next q' = mq_next q \<and>
     mq_in_global q' = (if r = None then 0 else mq_in_global q)"
  by (auto simp: skynet_mq_pop_def mq_pop_head_def array_get_Some Let_def
      split: bind_splits if_splits prod.splits)

subsection \<open>The links of the global queue\<close>

fun mq_chain :: "(mqid \<Rightarrow> 'm message_queue option) \<Rightarrow> mqid option \<Rightarrow> mqid list \<Rightarrow> bool" where
  "mq_chain h p [] \<longleftrightarrow> p = None"
| "mq_chain h p (i # is) \<longleftrightarrow>
     p = Some i \<and> (case h i of None \<Rightarrow> False | Some q \<Rightarrow> mq_chain h (mq_next q) is)"

text \<open>The store represents the global queue \<open>xs\<close>: a queue outside \<open>xs\<close> has no \<open>next\<close>.\<close>

definition gq_rep :: "'m mq_store \<Rightarrow> mqid list \<Rightarrow> bool" where
  "gq_rep st xs \<longleftrightarrow>
     mq_chain (mqs st) (gq_head st) xs \<and> distinct xs \<and>
     gq_tail st = (if xs = [] then None else Some (last xs)) \<and>
     (\<forall>i q. mqs st i = Some q \<longrightarrow> i \<notin> set xs \<longrightarrow> mq_next q = None)"

text \<open>The store without its links, to say that linking changes nothing else.\<close>

definition mq_core :: "'m mq_store \<Rightarrow> mqid \<Rightarrow> 'm message_queue option" where
  "mq_core st i = map_option (\<lambda>q. q\<lparr>mq_next := None\<rparr>) (mqs st i)"

lemma mq_chain_alloc: "mq_chain h p xs \<Longrightarrow> i \<in> set xs \<Longrightarrow> \<exists>q. h i = Some q"
  by (induction xs arbitrary: p) (auto split: option.splits)

lemma mq_chain_cong:
  "(\<And>i. i \<in> set xs \<Longrightarrow> map_option mq_next (h' i) = map_option mq_next (h i)) \<Longrightarrow>
     mq_chain h' p xs = mq_chain h p xs"
proof (induction xs arbitrary: p)
  case (Cons i xs)
  from Cons.prems [of i] have "map_option mq_next (h' i) = map_option mq_next (h i)" by simp
  moreover have "mq_chain h' p' xs = mq_chain h p' xs" for p'
    using Cons.IH Cons.prems by simp
  ultimately show ?case by (cases "h' i"; cases "h i") simp_all
qed simp

lemma mq_chain_upd [simp]: "i \<notin> set xs \<Longrightarrow> mq_chain (h(i := v)) p xs = mq_chain h p xs"
  by (rule mq_chain_cong) auto

lemma mq_chain_snoc:
  assumes "mq_chain h p xs" "distinct xs" "xs \<noteq> []" "h (last xs) = Some tq" "i \<notin> set xs"
    "h i = Some q" "mq_next q = None"
  shows "mq_chain (h(last xs \<mapsto> tq\<lparr>mq_next := Some i\<rparr>)) p (xs @ [i])"
  using assms
proof (induction xs arbitrary: p)
  case (Cons j xs)
  show ?case
  proof (cases "xs = []")
    case True
    with Cons.prems show ?thesis by auto
  next
    case False
    from Cons.prems obtain jq where "h j = Some jq" "mq_chain h (mq_next jq) xs" "p = Some j"
      by (auto split: option.splits)
    with Cons False show ?thesis by auto
  qed
qed simp

lemma mq_chain_last:
  "mq_chain h p xs \<Longrightarrow> xs \<noteq> [] \<Longrightarrow> h (last xs) = Some q \<Longrightarrow> distinct xs \<Longrightarrow> mq_next q = None"
proof (induction xs arbitrary: p)
  case (Cons i xs)
  then show ?case by (cases "xs = []") (auto split: option.splits)
qed simp

lemma globalmq_push_result:
  assumes "gq_rep st xs" "i \<notin> set xs" "mqs st i = Some q"
  shows "\<exists>st'. skynet_globalmq_push i st = Some st' \<and> gq_rep st' (xs @ [i]) \<and> mq_core st' = mq_core st"
proof (cases "xs = []")
  case True
  with assms show ?thesis
    by (auto simp: skynet_globalmq_push_def gq_rep_def mq_core_def fun_eq_iff)
next
  case False
  from assms have chain: "mq_chain (mqs st) (gq_head st) xs" "distinct xs" "mq_next q = None"
    "gq_tail st = Some (last xs)"
    using False by (auto simp: gq_rep_def)
  from mq_chain_alloc [OF chain(1), of "last xs"] False obtain tq where
    tq: "mqs st (last xs) = Some tq" by auto
  let ?st = "(put_mq (last xs) (tq\<lparr>mq_next := Some i\<rparr>) st)\<lparr>gq_tail := Some i\<rparr>"
  have "skynet_globalmq_push i st = Some ?st"
    using assms(3) chain tq by (simp add: skynet_globalmq_push_def)
  moreover have "gq_rep ?st (xs @ [i])"
    using mq_chain_snoc [OF chain(1,2) False tq assms(2,3) chain(3)] assms False chain(2)
    by (auto simp: gq_rep_def put_mq_def)
  moreover have "mq_core ?st = mq_core st"
    using tq by (auto simp: mq_core_def put_mq_def fun_eq_iff)
  ultimately show ?thesis by blast
qed

lemma globalmq_pop_empty: "gq_rep st [] \<Longrightarrow> skynet_globalmq_pop st = Some (None, st)"
  by (simp add: gq_rep_def skynet_globalmq_pop_def)

lemma globalmq_pop_result:
  assumes "gq_rep st (i # xs)"
  shows "\<exists>st'. skynet_globalmq_pop st = Some (Some i, st') \<and> gq_rep st' xs \<and> mq_core st' = mq_core st"
proof -
  from assms obtain q where q: "mqs st i = Some q" "gq_head st = Some i"
    "mq_chain (mqs st) (mq_next q) xs" "distinct (i # xs)"
    by (auto simp: gq_rep_def split: option.splits)
  have nxt: "(mq_next q = None) = (xs = [])"
    using q(3) by (cases xs) auto
  let ?st = "put_mq i (q\<lparr>mq_next := None\<rparr>)
    (st\<lparr>gq_head := mq_next q, gq_tail := if xs = [] then None else gq_tail st\<rparr>)"
  have "skynet_globalmq_pop st = Some (Some i, ?st)"
    using q nxt assms by (auto simp: skynet_globalmq_pop_def gq_rep_def Let_def put_mq_def)
  moreover have "mq_chain (mqs ?st) (mq_next q) xs"
    using q(3,4) by (simp add: put_mq_def)
  then have "gq_rep ?st xs"
    using assms q by (auto simp: gq_rep_def put_mq_def)
  moreover have "mq_core ?st = mq_core st"
    using q(1) by (auto simp: mq_core_def put_mq_def fun_eq_iff)
  ultimately show ?thesis by blast
qed

end
