(* ===== verification/Queue_Protocol.thy ===== *)
theory Queue_Protocol
  imports Message_Queue
begin

section \<open>Who owns a message queue\<close>

text \<open>
  Worker threads, the timer thread and the socket thread interleave the operations of
  \<open>skynet_mq.c\<close>; each operation is atomic, since it runs under the spin lock of the queue (and of the
  global queue). This theory is the step relation of those interleavings over a store of queues and
  the set of queues that some thread holds: the creator of a service holds its queue until it hands
  it over (\<open>skynet_context_new\<close>), and a worker holds the queue it took from the global queue until it
  puts it back or finds it empty (\<open>skynet_context_message_dispatch\<close>).

  The invariant ties the \<open>in_global\<close> flag to ownership. Its consequences are the properties the
  scheduler lives on: no queue is dispatched by two workers at once, no queue with messages is
  forgotten, and none of the assertions of \<open>skynet_mq.c\<close> can fail.
\<close>

subsection \<open>The invariant\<close>

definition mq_ok :: "'m message_queue \<Rightarrow> bool \<Rightarrow> bool" where
  "mq_ok q owned \<longleftrightarrow> mq_wf q \<and>
     (if mq_release q = 0
      then mq_in_global q = (if owned then MQ_IN_GLOBAL else 0) \<and> (mq_contents q \<noteq> [] \<longrightarrow> owned)
      else owned)"

definition sched_inv :: "'m mq_store \<Rightarrow> mqid set \<Rightarrow> mqid list \<Rightarrow> bool" where
  "sched_inv st held xs \<longleftrightarrow>
     gq_rep st xs \<and> held \<inter> set xs = {} \<and> held \<subseteq> dom (mqs st) \<and>
     (\<forall>i q. mqs st i = Some q \<longrightarrow> mq_ok q (i \<in> held \<union> set xs))"

text \<open>
  The steps. A message is sent to, and received from, a queue only while the service that owns it
  is alive (\<open>release\<close> is 0), which the reference count of the service guarantees.
\<close>

inductive mq_step :: "'m mq_store \<times> mqid set \<Rightarrow> 'm mq_store \<times> mqid set \<Rightarrow> bool" where
  create: "mqs st i = None \<Longrightarrow> mq_step (st, held) (put_mq i (skynet_mq_create h) st, insert i held)"
| give: "i \<in> held \<Longrightarrow> skynet_globalmq_push i st = Some st' \<Longrightarrow> mq_step (st, held) (st', held - {i})"
| take: "skynet_globalmq_pop st = Some (Some i, st') \<Longrightarrow> mq_step (st, held) (st', insert i held)"
| send: "mqs st i = Some q \<Longrightarrow> mq_release q = 0 \<Longrightarrow> skynet_mq_push i m st = Some st' \<Longrightarrow>
    mq_step (st, held) (st', held)"
| recv: "i \<in> held \<Longrightarrow> mqs st i = Some q \<Longrightarrow> mq_release q = 0 \<Longrightarrow>
    skynet_mq_pop q = Some (Some m, q') \<Longrightarrow> mq_step (st, held) (put_mq i q' st, held)"
| idle: "i \<in> held \<Longrightarrow> mqs st i = Some q \<Longrightarrow> mq_release q = 0 \<Longrightarrow>
    skynet_mq_pop q = Some (None, q') \<Longrightarrow> mq_step (st, held) (put_mq i q' st, held - {i})"
| overload: "mqs st i = Some q \<Longrightarrow>
    mq_step (st, held) (put_mq i (snd (skynet_mq_overload q)) st, held)"
| retire: "skynet_mq_mark_release i st = Some st' \<Longrightarrow> mq_step (st, held) (st', held)"
| free: "i \<in> held \<Longrightarrow> mqs st i = Some q \<Longrightarrow> mq_release q \<noteq> 0 \<Longrightarrow>
    drop_queue (\<lambda>m w. Some w) i (st, ()) = Some (st', ()) \<Longrightarrow> mq_step (st, held) (st', held - {i})"

inductive mq_reach :: "'m mq_store \<times> mqid set \<Rightarrow> bool" where
  start: "mq_reach (skynet_mq_init, {})"
| step: "mq_reach s \<Longrightarrow> mq_step s t \<Longrightarrow> mq_reach t"

inductive_cases mq_stepE: "mq_step (st, held) t"

subsection \<open>Every operation keeps the invariant and does not abort\<close>

lemma mq_ok_next [simp]: "mq_ok (q\<lparr>mq_next := n\<rparr>) b = mq_ok q b"
  by (simp add: mq_ok_def)

lemma mq_core_lookup:
  assumes "mq_core st' = mq_core st" "mqs st' i = Some q'"
  shows "\<exists>q. mqs st i = Some q \<and> q' = q\<lparr>mq_next := mq_next q'\<rparr>"
proof -
  from assms(1) have "mq_core st' i = mq_core st i" by simp
  with assms(2) obtain q where q: "mqs st i = Some q" "q\<lparr>mq_next := None\<rparr> = q'\<lparr>mq_next := None\<rparr>"
    by (cases "mqs st i") (auto simp: mq_core_def dest: sym)
  have "q' = (q'\<lparr>mq_next := None\<rparr>)\<lparr>mq_next := mq_next q'\<rparr>" by simp
  also have "\<dots> = q\<lparr>mq_next := mq_next q'\<rparr>" unfolding q(2) [symmetric] by simp
  finally show ?thesis using q(1) by blast
qed

lemma mq_core_None: "mq_core st i = None \<longleftrightarrow> mqs st i = None"
  by (simp add: mq_core_def)

lemma mq_core_dom:
  assumes "mq_core st' = mq_core st"
  shows "dom (mqs st') = dom (mqs st)"
proof -
  have "mqs st' i = None \<longleftrightarrow> mqs st i = None" for i
    using mq_core_None [of st' i] mq_core_None [of st i] assms by simp
  then show ?thesis by (auto simp: dom_def)
qed

lemma sched_inv_core:
  assumes "sched_inv st held xs" "gq_rep st' xs'" "mq_core st' = mq_core st"
    "held' \<union> set xs' = held \<union> set xs" "held' \<inter> set xs' = {}" "held' \<subseteq> dom (mqs st)"
  shows "sched_inv st' held' xs'"
proof -
  have "mq_ok q' (i \<in> held' \<union> set xs')" if "mqs st' i = Some q'" for i q'
  proof -
    from mq_core_lookup [OF assms(3) that] obtain q where
      q: "mqs st i = Some q" "q' = q\<lparr>mq_next := mq_next q'\<rparr>" by blast
    from assms(1) q(1) have "mq_ok q (i \<in> held \<union> set xs)" by (simp add: sched_inv_def)
    with q(2) assms(4) show ?thesis by (metis mq_ok_next)
  qed
  with assms mq_core_dom [OF assms(3)] show ?thesis by (simp add: sched_inv_def)
qed

lemma gq_rep_put:
  "gq_rep st xs \<Longrightarrow> mqs st i = Some q \<Longrightarrow> mq_next q' = mq_next q \<Longrightarrow> gq_rep (put_mq i q' st) xs"
  by (auto simp: gq_rep_def put_mq_def
      intro: mq_chain_cong [THEN iffD1, of xs "mqs st" "(mqs st)(i \<mapsto> q')", rotated])

lemma sched_inv_put:
  assumes "sched_inv st held xs" "mqs st i = Some q" "mq_next q' = mq_next q"
    "held' \<subseteq> held" "held - held' \<subseteq> {i}" "mq_ok q' (i \<in> held' \<union> set xs)"
  shows "sched_inv (put_mq i q' st) held' xs"
proof -
  have "(j \<in> held' \<union> set xs) = (j \<in> held \<union> set xs)" if "j \<noteq> i" for j
    using assms(4,5) that by blast
  with assms gq_rep_put [of st xs i q q'] show ?thesis
    by (auto simp: sched_inv_def put_mq_def)
qed

lemma sched_give:
  assumes "sched_inv st held xs" "i \<in> held"
  shows "\<exists>st'. skynet_globalmq_push i st = Some st' \<and> sched_inv st' (held - {i}) (xs @ [i])"
proof -
  from assms have pre: "gq_rep st xs" "i \<notin> set xs" "i \<in> dom (mqs st)" "held \<inter> set xs = {}"
    "held \<subseteq> dom (mqs st)" by (auto simp: sched_inv_def)
  then obtain q where "mqs st i = Some q" by blast
  from globalmq_push_result [OF pre(1,2) this] obtain st' where
    "skynet_globalmq_push i st = Some st'" "gq_rep st' (xs @ [i])" "mq_core st' = mq_core st" by blast
  with sched_inv_core [OF assms(1), of st' "xs @ [i]" "held - {i}"] pre assms(2) show ?thesis
    by auto
qed

lemma sched_take:
  assumes "sched_inv st held xs"
  shows "skynet_globalmq_pop st = Some (None, st) \<and> xs = [] \<or>
    (\<exists>i ys st'. xs = i # ys \<and> skynet_globalmq_pop st = Some (Some i, st') \<and> i \<notin> held \<and>
       sched_inv st' (insert i held) ys)"
proof (cases xs)
  case Nil
  with assms globalmq_pop_empty [of st] show ?thesis by (simp add: sched_inv_def)
next
  case (Cons i ys)
  from assms have pre: "gq_rep st (i # ys)" "held \<inter> set (i # ys) = {}" "held \<subseteq> dom (mqs st)"
    by (simp_all add: sched_inv_def Cons)
  from globalmq_pop_result [OF pre(1)] obtain st' where
    st': "skynet_globalmq_pop st = Some (Some i, st')" "gq_rep st' ys" "mq_core st' = mq_core st" by blast
  from pre(1) have "i \<in> dom (mqs st)" "i \<notin> set ys"
    by (auto simp: gq_rep_def split: option.splits)
  with sched_inv_core [OF assms st'(2,3), of "insert i held"] pre have "sched_inv st' (insert i held) ys"
    by (auto simp: Cons)
  with st'(1) pre(2) Cons show ?thesis by auto
qed

text \<open>A queue nobody owns becomes owned by entering the global queue.\<close>

lemma sched_enter:
  assumes "sched_inv st held xs" "mqs st i = Some q" "i \<notin> held \<union> set xs"
    "mq_next q' = mq_next q" "mq_ok q' True"
  shows "\<exists>st'. skynet_globalmq_push i (put_mq i q' st) = Some st' \<and> sched_inv st' held (xs @ [i]) \<and>
    mq_core st' = mq_core (put_mq i q' st)"
proof -
  let ?st1 = "put_mq i q' st"
  from assms have "gq_rep ?st1 xs" by (auto simp: sched_inv_def intro: gq_rep_put)
  moreover have "i \<notin> set xs" "mqs ?st1 i = Some q'" using assms(3) by (simp_all add: put_mq_def)
  ultimately obtain st' where
    st': "skynet_globalmq_push i ?st1 = Some st'" "gq_rep st' (xs @ [i])" "mq_core st' = mq_core ?st1"
    using globalmq_push_result [of ?st1 xs i q'] by auto
  have okj: "mq_ok p (j \<in> held \<union> set (xs @ [i]))" if "mqs ?st1 j = Some p" for j p
    using that assms by (cases "j = i") (auto simp: put_mq_def sched_inv_def)
  have "mq_ok p (j \<in> held \<union> set (xs @ [i]))" if j: "mqs st' j = Some p" for j p
  proof -
    from mq_core_lookup [OF st'(3) j] obtain q0 where
      q0: "mqs ?st1 j = Some q0" "p = q0\<lparr>mq_next := mq_next p\<rparr>" by blast
    from okj [OF q0(1)] q0(2) show ?thesis by (metis mq_ok_next)
  qed
  moreover have "dom (mqs st') = insert i (dom (mqs st))"
    using mq_core_dom [OF st'(3)] by (simp add: put_mq_def)
  ultimately have "sched_inv st' held (xs @ [i])"
    using assms(1,3) st'(2) by (auto simp: sched_inv_def)
  with st' show ?thesis by blast
qed

lemma sched_send:
  assumes "sched_inv st held xs" "mqs st i = Some q" "mq_release q = 0"
  shows "\<exists>st' xs' q'. skynet_mq_push i m st = Some st' \<and> sched_inv st' held xs' \<and>
    mqs st' i = Some q' \<and> mq_contents q' = mq_contents q @ [m]"
proof -
  from assms have ok: "mq_ok q (i \<in> held \<union> set xs)" by (auto simp: sched_inv_def)
  then have "mq_wf q" by (simp add: mq_ok_def)
  from mq_store_result [OF this, of m] obtain q1 where
    q1: "mq_store_message m q = Some q1" "mq_wf q1" "mq_contents q1 = mq_contents q @ [m]" by blast
  note frame = mq_store_frame [OF q1(1)]
  have ok1: "mq_ok (q1\<lparr>mq_in_global := MQ_IN_GLOBAL\<rparr>) True"
    using q1(2) frame assms(3) by (simp add: mq_ok_def)
  show ?thesis
  proof (cases "i \<in> held \<union> set xs")
    case True
    with ok assms(3) frame have g: "mq_in_global q1 = MQ_IN_GLOBAL" by (simp add: mq_ok_def)
    then have "q1\<lparr>mq_in_global := MQ_IN_GLOBAL\<rparr> = q1" by simp
    with ok1 True have "mq_ok q1 (i \<in> held \<union> set xs)" by simp
    with sched_inv_put [OF assms(1,2), of q1 held] frame have "sched_inv (put_mq i q1 st) held xs"
      by simp
    moreover have "skynet_mq_push i m st = Some (put_mq i q1 st)"
      using assms(2) q1(1) g by (simp add: skynet_mq_push_def MQ_IN_GLOBAL_def)
    moreover have "mqs (put_mq i q1 st) i = Some q1" by (simp add: put_mq_def)
    ultimately show ?thesis using q1(3) by blast
  next
    case False
    let ?q2 = "q1\<lparr>mq_in_global := MQ_IN_GLOBAL\<rparr>"
    from False ok assms(3) frame have z: "mq_in_global q1 = 0" by (simp add: mq_ok_def)
    from sched_enter [OF assms(1,2) False _ ok1] frame obtain st' where
      st': "skynet_globalmq_push i (put_mq i ?q2 st) = Some st'" "sched_inv st' held (xs @ [i])"
      "mq_core st' = mq_core (put_mq i ?q2 st)" by auto
    then have "i \<in> dom (mqs st')" using mq_core_dom [OF st'(3)] by (simp add: put_mq_def)
    then obtain q' where q': "mqs st' i = Some q'" by blast
    from mq_core_lookup [OF st'(3) q'] have "q' = ?q2\<lparr>mq_next := mq_next q'\<rparr>" by (simp add: put_mq_def)
    then have "mq_contents q' = mq_contents q @ [m]" using q1(3) by (metis mq_wf_flags(2,6))
    moreover have "skynet_mq_push i m st = Some st'"
      using st'(1) z q1(1) assms(2) by (simp add: skynet_mq_push_def)
    ultimately show ?thesis using st'(2) q' by blast
  qed
qed

lemma sched_pop:
  assumes "sched_inv st held xs" "i \<in> held" "mqs st i = Some q" "mq_release q = 0"
  shows "(\<exists>m q'. skynet_mq_pop q = Some (Some m, q') \<and> sched_inv (put_mq i q' st) held xs) \<or>
    (\<exists>q'. skynet_mq_pop q = Some (None, q') \<and> sched_inv (put_mq i q' st) (held - {i}) xs)"
proof -
  from assms have ok: "mq_wf q" "mq_in_global q = MQ_IN_GLOBAL" "i \<notin> set xs"
    by (auto simp: sched_inv_def mq_ok_def)
  show ?thesis
  proof (cases "mq_contents q")
    case Nil
    let ?q = "q\<lparr>mq_overload_threshold := MQ_OVERLOAD, mq_in_global := 0\<rparr>"
    have "mq_ok ?q False"
      using ok(1) assms(4) Nil mq_wf_empty_update [of q] by (simp add: mq_ok_def)
    with sched_inv_put [OF assms(1,3), of ?q "held - {i}"] ok(3) mq_pop_empty [OF ok(1) Nil]
    show ?thesis by auto
  next
    case (Cons m ms)
    from mq_pop_nonempty [OF ok(1) Cons] obtain q' where
      q': "skynet_mq_pop q = Some (Some m, q')" "mq_wf q'" by blast
    with mq_pop_frame [OF q'(1)] ok assms have "mq_ok q' True" by (simp add: mq_ok_def)
    with sched_inv_put [OF assms(1,3), of q' held] mq_pop_frame [OF q'(1)] q' assms(2) show ?thesis
      by auto
  qed
qed

lemma sched_retire:
  assumes "sched_inv st held xs" "mqs st i = Some q" "mq_release q = 0"
  shows "\<exists>st' xs'. skynet_mq_mark_release i st = Some st' \<and> sched_inv st' held xs'"
proof -
  let ?q1 = "q\<lparr>mq_release := 1\<rparr>"
  from assms(1,2) have "mq_ok q (i \<in> held \<union> set xs)" by (simp add: sched_inv_def)
  with assms(3) have ok: "mq_wf q" "mq_in_global q = (if i \<in> held \<union> set xs then MQ_IN_GLOBAL else 0)"
    by (simp_all add: mq_ok_def)
  then have ok1: "mq_ok ?q1 True" by (simp add: mq_ok_def)
  show ?thesis
  proof (cases "i \<in> held \<union> set xs")
    case True
    with sched_inv_put [OF assms(1,2), of ?q1 held] ok1 have "sched_inv (put_mq i ?q1 st) held xs"
      by simp
    with True ok assms(2,3) show ?thesis by (auto simp: skynet_mq_mark_release_def)
  next
    case False
    from sched_enter [OF assms(1,2) False _ ok1] obtain st' where
      "skynet_globalmq_push i (put_mq i ?q1 st) = Some st'" "sched_inv st' held (xs @ [i])" by auto
    with False ok(2) assms(2,3) show ?thesis
      by (auto simp: skynet_mq_mark_release_def Let_def MQ_IN_GLOBAL_def)
  qed
qed

lemma sched_overload:
  assumes "sched_inv st held xs" "mqs st i = Some q"
  shows "sched_inv (put_mq i (snd (skynet_mq_overload q)) st) held xs"
proof (rule sched_inv_put [OF assms])
  from assms have "mq_ok q (i \<in> held \<union> set xs)" by (simp add: sched_inv_def)
  then show "mq_ok (snd (skynet_mq_overload q)) (i \<in> held \<union> set xs)"
    by (simp add: skynet_mq_overload_def mq_ok_def)
qed (simp_all add: skynet_mq_overload_def)

text \<open>
  Dropping a queue hands its messages to \<open>drop_func\<close>, once each and in order, and ends; the premise
  is that \<open>drop_func\<close> returns and leaves the queue that is being dropped alone.
\<close>

lemma drop_loop_result:
  assumes "mqs (fst w) i = Some q" "mq_wf q"
    and total: "\<And>m w. \<exists>w'. drop_func m w = Some w' \<and> mqs (fst w') i = mqs (fst w) i \<and>
                  snd w' = act m (snd w)"
  shows "\<exists>w' q'. drop_loop drop_func i w = Some w' \<and> snd w' = fold act (mq_contents q) (snd w) \<and>
           mqs (fst w') i = Some q' \<and> mq_next q' = mq_next q \<and> mq_contents q' = []"
  using assms(1,2)
proof (induction "mq_contents q" arbitrary: q w)
  case Nil
  let ?q = "q\<lparr>mq_overload_threshold := MQ_OVERLOAD, mq_in_global := 0\<rparr>"
  have "drop_loop drop_func i w = Some (put_mq i ?q (fst w), snd w)"
    using Nil mq_pop_empty [of q] by (simp add: drop_loop.simps [of drop_func i w])
  moreover have "mq_contents ?q = []" using mq_wf_empty_update [of q] Nil(1) by simp
  ultimately show ?case using Nil(1) [symmetric] by (auto simp: put_mq_def)
next
  case (Cons m ms)
  from mq_pop_nonempty [OF Cons.prems(2) Cons.hyps(2) [symmetric]] obtain q1 where
    q1: "skynet_mq_pop q = Some (Some m, q1)" "mq_wf q1" "mq_contents q1 = ms" by blast
  let ?w1 = "(put_mq i q1 (fst w), snd w)"
  from total [of m ?w1] obtain w2 where
    w2: "drop_func m ?w1 = Some w2" "mqs (fst w2) i = Some q1" "snd w2 = act m (snd w)"
    by (auto simp: put_mq_def)
  from Cons.hyps(1) [of q1 w2] q1 w2 obtain w' q' where
    w': "drop_loop drop_func i w2 = Some w'" "snd w' = fold act ms (snd w2)"
    "mqs (fst w') i = Some q'" "mq_next q' = mq_next q1" "mq_contents q' = []" by auto
  have "drop_loop drop_func i w = Some w'"
    using Cons.prems(1) q1(1) w2(1) w'(1) by (simp add: drop_loop.simps [of drop_func i w])
  with w' w2(3) mq_pop_frame [OF q1(1)] Cons.hyps(2) [symmetric] show ?case by auto
qed

lemma drop_queue_result:
  assumes "mqs (fst w) i = Some q" "mq_wf q" "mq_next q = None"
    and "\<And>m w. \<exists>w'. drop_func m w = Some w' \<and> mqs (fst w') i = mqs (fst w) i \<and>
           snd w' = act m (snd w)"
  shows "\<exists>w'. drop_queue drop_func i w = Some w' \<and> snd w' = fold act (mq_contents q) (snd w) \<and>
           mqs (fst w') i = None"
proof -
  have "\<exists>w' q'. drop_loop drop_func i w = Some w' \<and> snd w' = fold act (mq_contents q) (snd w) \<and>
          mqs (fst w') i = Some q' \<and> mq_next q' = mq_next q \<and> mq_contents q' = []"
    using assms(1,2) by (rule drop_loop_result) (rule assms(4))
  with assms(3) show ?thesis by (auto simp: drop_queue_def mq_free_def)
qed

text \<open>Without a \<open>drop_func\<close> that reports errors, the rest of the store is untouched.\<close>

lemma drop_loop_frame:
  assumes "mqs st i = Some q" "mq_wf q"
  shows "\<exists>q'. drop_loop (\<lambda>m w. Some w) i (st, u) = Some (put_mq i q' st, u) \<and>
    mq_next q' = mq_next q"
  using assms
proof (induction "mq_contents q" arbitrary: q st)
  case Nil
  then show ?case using mq_pop_empty [of q] by (auto simp: drop_loop.simps [of _ i])
next
  case (Cons m ms)
  from mq_pop_nonempty [OF Cons.prems(2) Cons.hyps(2) [symmetric]] obtain q1 where
    q1: "skynet_mq_pop q = Some (Some m, q1)" "mq_wf q1" "mq_contents q1 = ms" by blast
  from Cons.hyps(1) [of q1 "put_mq i q1 st"] q1 obtain q' where
    "drop_loop (\<lambda>m w. Some w) i (put_mq i q1 st, u) = Some (put_mq i q' (put_mq i q1 st), u)"
    "mq_next q' = mq_next q1" by (auto simp: put_mq_def)
  with Cons.prems(1) q1(1) mq_pop_frame [OF q1(1)] show ?case
    by (auto simp: drop_loop.simps [of _ i "(st, u)"] put_mq_def)
qed

lemma sched_free:
  assumes "sched_inv st held xs" "i \<in> held"
  shows "\<exists>st'. drop_queue (\<lambda>m w. Some w) i (st, u) = Some (st', u) \<and> sched_inv st' (held - {i}) xs \<and>
    st' = st\<lparr>mqs := (mqs st)(i := None)\<rparr>"
proof -
  from assms have "i \<in> dom (mqs st)" "i \<notin> set xs" by (auto simp: sched_inv_def)
  then obtain q where q: "mqs st i = Some q" "i \<notin> set xs" by blast
  from assms(1) q have ok: "mq_wf q" "mq_next q = None"
    by (auto simp: sched_inv_def mq_ok_def gq_rep_def)
  from drop_loop_frame [OF q(1) ok(1), of u] obtain q' where
    "drop_loop (\<lambda>m w. Some w) i (st, u) = Some (put_mq i q' st, u)" "mq_next q' = None"
    using ok(2) by auto
  then have "drop_queue (\<lambda>m w. Some w) i (st, u) = Some (st\<lparr>mqs := (mqs st)(i := None)\<rparr>, u)"
    by (simp add: drop_queue_def mq_free_def put_mq_def)
  moreover have "sched_inv (st\<lparr>mqs := (mqs st)(i := None)\<rparr>) (held - {i}) xs"
    using assms(1) q(2) by (auto simp: sched_inv_def gq_rep_def)
  ultimately show ?thesis by blast
qed

lemma sched_create:
  assumes "sched_inv st held xs" "mqs st i = None"
  shows "sched_inv (put_mq i (skynet_mq_create h) st) (insert i held) xs"
proof -
  from assms have i: "i \<notin> held" "i \<notin> set xs"
    by (auto simp: sched_inv_def gq_rep_def dest: mq_chain_alloc)
  have "gq_rep (put_mq i (skynet_mq_create h) st) xs"
    using assms i(2) by (auto simp: sched_inv_def gq_rep_def put_mq_def skynet_mq_create_def)
  moreover have "mq_ok (skynet_mq_create h) True"
    using mq_create_wf [of h] by (simp add: mq_ok_def skynet_mq_create_def)
  ultimately show ?thesis
    using assms i by (auto simp: sched_inv_def put_mq_def)
qed

lemma sched_init: "sched_inv skynet_mq_init {} []"
  by (simp add: sched_inv_def gq_rep_def skynet_mq_init_def)

lemma mq_step_inv:
  assumes "mq_step s t" "\<exists>xs. sched_inv (fst s) (snd s) xs"
  shows "\<exists>xs. sched_inv (fst t) (snd t) xs"
  using assms
proof (induction rule: mq_step.induct)
  case (create st i held h)
  then show ?case by (auto intro: sched_create)
next
  case (give i held st st')
  then show ?case using sched_give by fastforce
next
  case (take st i st' held)
  then show ?case using sched_take by fastforce
next
  case (send st i q m st' held)
  then show ?case using sched_send [of st held _ i q m] by auto
next
  case (recv i held st q m q')
  then show ?case using sched_pop [of st held _ i q] by auto
next
  case (idle i held st q q')
  then show ?case using sched_pop [of st held _ i q] by auto
next
  case (overload st i q held)
  then show ?case by (auto intro: sched_overload)
next
  case (retire i st st' held)
  then obtain q where "mqs st i = Some q" "mq_release q = 0"
    by (auto simp: skynet_mq_mark_release_def split: bind_splits)
  with retire show ?case using sched_retire [of st held _ i q] by auto
next
  case (free i held st q st')
  then show ?case using sched_free [of st held _ i "()"] by auto
qed

lemma mq_reach_inv: "mq_reach s \<Longrightarrow> \<exists>xs. sched_inv (fst s) (snd s) xs"
proof (induction rule: mq_reach.induct)
  case start
  show ?case using sched_init by auto
next
  case (step s t)
  then show ?case by (blast intro: mq_step_inv)
qed

subsection \<open>Properties\<close>

text \<open>C1. A queue that a worker takes from the global queue is held by no other thread, in every state
  that any interleaving of the queue operations can reach: a service is never dispatched by two
  workers at the same time.\<close>

theorem exclusive_dispatch:
  assumes "mq_reach (st, held)" "skynet_globalmq_pop st = Some (Some i, st')"
  shows "i \<notin> held"
proof -
  from mq_reach_inv [OF assms(1)] obtain xs where "sched_inv st held xs" by auto
  from sched_take [OF this] assms(2) show ?thesis by auto
qed

text \<open>C8. No message is forgotten: in every reachable state a queue that has messages and whose service
  is alive is held by a thread or linked in the global queue, where a worker will find it; and so is
  every queue that waits to be released.\<close>

theorem no_queue_forgotten:
  assumes "mq_reach (st, held)" "mqs st i = Some q" "mq_contents q \<noteq> [] \<or> mq_release q \<noteq> 0"
  shows "i \<in> held \<or> (\<exists>xs. gq_rep st xs \<and> i \<in> set xs)"
proof -
  from mq_reach_inv [OF assms(1)] obtain xs where "sched_inv st held xs" by auto
  with assms(2,3) have "mq_ok q (i \<in> held \<union> set xs)" "gq_rep st xs" by (auto simp: sched_inv_def)
  with assms(3) show ?thesis by (auto simp: mq_ok_def split: if_splits)
qed

text \<open>C34. No assertion of \<open>skynet_mq.c\<close> fails and no array access leaves its bounds: in every reachable
  state each queue operation, called by a thread that may call it, returns.\<close>

theorem queue_operations_return:
  assumes "mq_reach (st, held)"
  shows "(\<exists>r. skynet_globalmq_pop st = Some r) \<and>
    (\<forall>i \<in> held. (\<exists>st'. skynet_globalmq_push i st = Some st') \<and>
       (\<exists>st'. drop_queue (\<lambda>m w. Some w) i (st, ()) = Some (st', ()))) \<and>
    (\<forall>i q. mqs st i = Some q \<longrightarrow> (\<exists>r. skynet_mq_pop q = Some r)) \<and>
    (\<forall>i q m. mqs st i = Some q \<longrightarrow> mq_release q = 0 \<longrightarrow>
       (\<exists>st'. skynet_mq_push i m st = Some st') \<and> (\<exists>st'. skynet_mq_mark_release i st = Some st'))"
proof (intro conjI ballI allI impI)
  from mq_reach_inv [OF assms] obtain xs where inv: "sched_inv st held xs" by auto
  show "\<exists>r. skynet_globalmq_pop st = Some r" using sched_take [OF inv] by auto
  fix i q m
  show "\<exists>st'. skynet_globalmq_push i st = Some st'" if "i \<in> held" using sched_give [OF inv that] by auto
  show "\<exists>st'. drop_queue (\<lambda>m w. Some w) i (st, ()) = Some (st', ())" if "i \<in> held"
    using sched_free [OF inv that, of "()"] by auto
  assume q: "mqs st i = Some q"
  show "\<exists>st'. skynet_mq_push i m st = Some st'" if "mq_release q = 0"
    using sched_send [OF inv q that, of m] by auto
  show "\<exists>st'. skynet_mq_mark_release i st = Some st'" if "mq_release q = 0"
    using sched_retire [OF inv q that] by auto
  from q inv have "mq_wf q" by (auto simp: sched_inv_def mq_ok_def)
  then show "\<exists>r. skynet_mq_pop q = Some r"
    using mq_pop_empty [of q] mq_pop_nonempty [of q] by (cases "mq_contents q") auto
qed

text \<open>
  The run the witnesses use: two services are created, the queue of the second is handed over and
  receives a message, while the first is still held by its creator.
\<close>

definition demo_store1 :: "nat mq_store" where
  "demo_store1 = put_mq 8 (skynet_mq_create 2) (put_mq 7 (skynet_mq_create 1) skynet_mq_init)"

definition demo_store2 :: "nat mq_store" where
  "demo_store2 = demo_store1\<lparr>gq_head := Some 8, gq_tail := Some 8\<rparr>"

definition demo_store3 :: "nat mq_store" where
  "demo_store3 = put_mq 8 ((skynet_mq_create 2)\<lparr>mq_queue := (replicate 64 None)[0 := Some 42],
     mq_tail := 1\<rparr>) demo_store2"

lemmas demo_defs = demo_store1_def demo_store2_def demo_store3_def put_mq_def skynet_mq_init_def
  skynet_mq_create_def DEFAULT_QUEUE_SIZE_def MQ_IN_GLOBAL_def

lemma demo_reach1: "mq_reach (demo_store1, {7, 8})"
proof -
  have 1: "mq_step (skynet_mq_init :: nat mq_store, {}) (put_mq 7 (skynet_mq_create 1) skynet_mq_init, {7})"
    by (rule mq_step.create) (simp add: skynet_mq_init_def)
  have "mq_step (put_mq 7 (skynet_mq_create 1) skynet_mq_init, {7}) (demo_store1, insert 8 {7})"
    unfolding demo_store1_def by (rule mq_step.create) (simp add: demo_defs)
  from mq_reach.step [OF mq_reach.step [OF mq_reach.start 1] this] show ?thesis
    by (simp add: insert_commute)
qed

lemma demo_reach3: "mq_reach (demo_store3, {7})"
proof -
  have "skynet_globalmq_push 8 demo_store1 = Some demo_store2"
    by (simp add: skynet_globalmq_push_def demo_defs)
  from mq_reach.step [OF demo_reach1 mq_step.give [OF _ this]] have r2: "mq_reach (demo_store2, {7})"
    by (simp add: insert_Diff_if)
  have "skynet_mq_push 8 42 demo_store2 = Some demo_store3"
    by (simp add: skynet_mq_push_def mq_store_message_def array_set_def demo_defs)
  moreover have "mqs demo_store2 8 = Some (skynet_mq_create 2)" by (simp add: demo_defs)
  moreover have "mq_release (skynet_mq_create 2 :: nat message_queue) = 0" by (simp add: demo_defs)
  ultimately have "mq_step (demo_store2, {7}) (demo_store3, {7})" by (blast intro: mq_step.send)
  from mq_reach.step [OF r2 this] show ?thesis .
qed

lemma demo_lookup3: "\<exists>q. mqs demo_store3 8 = Some q \<and> mq_contents q = [42] \<and> mq_release q = 0"
  by (simp add: demo_defs mq_contents_def mq_cells_def mq_count_def ring_count_def ring_slice_def)

lemma demo_pop3: "\<exists>st'. skynet_globalmq_pop demo_store3 = Some (Some 8, st')"
  by (simp add: skynet_globalmq_pop_def demo_defs)

theorem exclusive_dispatch_witness:
  "\<exists>st'. mq_reach (demo_store3, {7}) \<and> skynet_globalmq_pop demo_store3 = Some (Some 8, st') \<and>
     8 \<notin> ({7} :: mqid set)"
proof -
  from demo_pop3 obtain st' where st': "skynet_globalmq_pop demo_store3 = Some (Some 8, st')" by blast
  from exclusive_dispatch [OF demo_reach3 st'] st' demo_reach3 show ?thesis by blast
qed

theorem no_queue_forgotten_witness:
  "\<exists>q. mqs demo_store3 8 = Some q \<and> mq_contents q = [42] \<and>
     (8 \<in> ({7} :: mqid set) \<or> (\<exists>xs. gq_rep demo_store3 xs \<and> 8 \<in> set xs))"
proof -
  from demo_lookup3 obtain q where q: "mqs demo_store3 8 = Some q" "mq_contents q = [42]" by blast
  then have "mq_contents q \<noteq> [] \<or> mq_release q \<noteq> 0" by simp
  from no_queue_forgotten [OF demo_reach3 q(1) this] q show ?thesis by blast
qed

theorem queue_operations_return_witness:
  "mq_reach (demo_store3, {7}) \<and> (\<exists>st'. skynet_globalmq_push 7 demo_store3 = Some st') \<and>
   (\<exists>st'. skynet_mq_push 8 (43::nat) demo_store3 = Some st')"
proof -
  from demo_lookup3 obtain q where "mqs demo_store3 8 = Some q" "mq_release q = 0" by blast
  with queue_operations_return [OF demo_reach3] demo_reach3 show ?thesis by blast
qed

text \<open>A message queue is first in, first out: messages pushed one after another come out in that order,
  after the messages that were queued before, however often the array doubles in between, and
  draining ends with the queue empty.\<close>

theorem mq_fifo:
  assumes "mq_wf q"
  shows "\<exists>q1 q2. fold_opt mq_store_message xs q = Some q1 \<and>
    drain_loop skynet_mq_pop (\<lambda>m out. Some (out @ [m])) q1 [] = Some (q2, mq_contents q @ xs) \<and>
    mq_wf q2 \<and> mq_contents q2 = []"
  using assms by (rule mqf.drain_after_push_all)

theorem mq_fifo_witness:
  "mq_wf (skynet_mq_create 1 :: nat message_queue) \<and>
   (\<exists>q1 q2. fold_opt mq_store_message [1, 2, 3 :: nat] (skynet_mq_create 1) = Some q1 \<and>
     drain_loop skynet_mq_pop (\<lambda>m out. Some (out @ [m])) q1 [] = Some (q2, [1, 2, 3]))"
  using mq_fifo [OF mq_create_wf(1), of "[1, 2, 3 :: nat]" 1] mq_create_wf by auto

text \<open>Popping from a queue that is not empty returns its oldest message, and records the remaining
  length in \<open>overload\<close> exactly when it exceeds the threshold, which is then raised to at least that
  length; popping from an empty queue takes the queue out of the global queue and resets the
  threshold to 1024.\<close>

theorem mq_pop_behaviour:
  assumes "mq_wf q"
  shows "case mq_contents q of
      [] \<Rightarrow> skynet_mq_pop q = Some (None, q\<lparr>mq_overload_threshold := 1024, mq_in_global := 0\<rparr>)
    | m # ms \<Rightarrow> \<exists>q'. skynet_mq_pop q = Some (Some m, q') \<and> mq_wf q' \<and> mq_contents q' = ms \<and>
        skynet_mq_length q' = int (length ms) \<and>
        mq_overload q' = (if mq_overload_threshold q < int (length ms) then int (length ms)
                          else mq_overload q) \<and>
        int (length ms) \<le> mq_overload_threshold q'"
proof (cases "mq_contents q")
  case Nil
  with mq_pop_empty [OF assms] show ?thesis by (simp add: MQ_OVERLOAD_def)
next
  case (Cons m ms)
  then have "mq_head q \<noteq> mq_tail q"
    by (auto simp: mq_contents_def mq_cells_def mq_count_def ring_count_def)
  from mq_pop_head_result [OF assms this] Cons obtain q' where
    q': "mq_pop_head q = Some (m, q')" "mq_wf q'" "mq_contents q' = ms"
    "mq_overload q' = (if mq_overload_threshold q < int (mq_count q') then int (mq_count q')
       else mq_overload q)" "int (mq_count q') \<le> mq_overload_threshold q'" by auto
  moreover have "mq_count q' = length ms" using mq_contents_length [of q'] q'(3) by simp
  moreover have "skynet_mq_length q' = int (mq_count q')" by (rule mq_length_count [OF q'(2)])
  moreover have "skynet_mq_pop q = Some (Some m, q')"
    using q'(1) \<open>mq_head q \<noteq> mq_tail q\<close> by (simp add: skynet_mq_pop_def)
  ultimately show ?thesis by (simp add: Cons)
qed

theorem mq_pop_behaviour_witness:
  "\<exists>q'. skynet_mq_pop ((skynet_mq_create 2)\<lparr>mq_queue := [Some 5, Some 6, Some (7::nat)] @ replicate 61 None,
         mq_tail := 3, mq_overload_threshold := 1\<rparr>) = Some (Some 5, q') \<and> mq_contents q' = [6, 7] \<and>
       mq_overload q' = 2"
proof -
  let ?q = "(skynet_mq_create 2)\<lparr>mq_queue := [Some 5, Some 6, Some (7::nat)] @ replicate 61 None,
         mq_tail := 3, mq_overload_threshold := 1\<rparr>"
  have q: "mq_wf ?q" "mq_contents ?q = [5, 6, 7]"
    by (simp_all add: demo_defs mq_wf_def mq_contents_def mq_cells_def mq_count_def ring_count_def
        ring_slice_def upt_rec)
  from mq_pop_behaviour [OF q(1)] show ?thesis unfolding q(2) by auto
qed

text \<open>Releasing the queue of a retired service hands each message left in it to the drop function, in
  order and exactly once, and frees the queue; a queue not yet marked for release goes back to the
  global queue instead.\<close>

theorem mq_release_behaviour:
  assumes "mqs (fst w) i = Some q" "mq_wf q" "mq_next q = None"
    and "\<And>m w. \<exists>w'. drop_func m w = Some w' \<and> mqs (fst w') i = mqs (fst w) i \<and> snd w' = act m (snd w)"
  shows "if mq_release q \<noteq> 0
    then \<exists>w'. skynet_mq_release drop_func i w = Some w' \<and>
           snd w' = fold act (mq_contents q) (snd w) \<and> mqs (fst w') i = None
    else skynet_mq_release drop_func i w =
           map_option (\<lambda>st. (st, snd w)) (skynet_globalmq_push i (fst w))"
proof -
  have "\<exists>w'. drop_queue drop_func i w = Some w' \<and> snd w' = fold act (mq_contents q) (snd w) \<and>
          mqs (fst w') i = None"
    using assms(1-3) by (rule drop_queue_result) (rule assms(4))
  with assms(1) show ?thesis
    by (auto simp: skynet_mq_release_def map_option_case split: option.splits bind_splits)
qed

theorem mq_release_behaviour_witness:
  "\<exists>w'. skynet_mq_release (\<lambda>m (st, n). Some (st, n + m)) 8
      (put_mq 8 ((skynet_mq_create 2)\<lparr>mq_queue := (replicate 64 None)[0 := Some 42],
         mq_tail := 1, mq_release := 1\<rparr>) (skynet_mq_init :: nat mq_store), 0) = Some w' \<and>
    snd w' = 42 \<and> mqs (fst w') 8 = None"
proof -
  let ?q = "(skynet_mq_create 2)\<lparr>mq_queue := (replicate 64 None)[0 := Some (42 :: nat)],
         mq_tail := 1, mq_release := 1\<rparr>"
  let ?w = "(put_mq 8 ?q skynet_mq_init, 0 :: nat)"
  have q: "mqs (fst ?w) 8 = Some ?q" "mq_wf ?q" "mq_next ?q = None" "mq_contents ?q = [42]"
    by (simp_all add: demo_defs mq_wf_def MQ_OVERLOAD_def mq_contents_def mq_cells_def mq_count_def
        ring_count_def ring_slice_def)
  have "if mq_release ?q \<noteq> 0
    then \<exists>w'. skynet_mq_release (\<lambda>m (st, n). Some (st, n + m)) 8 ?w = Some w' \<and>
           snd w' = fold (\<lambda>m n. n + m) (mq_contents ?q) (snd ?w) \<and> mqs (fst w') 8 = None
    else skynet_mq_release (\<lambda>m (st, n). Some (st, n + m)) 8 ?w =
           map_option (\<lambda>st. (st, snd ?w)) (skynet_globalmq_push 8 (fst ?w))"
    using q(1-3) by (rule mq_release_behaviour) (auto split: prod.splits)
  with q(4) show ?thesis by simp
qed

end
