(* ===== verification/Handle.thy ===== *)
theory Handle
  imports Prelude "HOL-Library.List_Lexorder" "HOL-Library.Char_ord"
begin

unbundle bit_operations_syntax

section \<open>Service handles and local names (\<open>skynet_handle.c\<close>)\<close>

text \<open>
  The handle storage is a table of service contexts indexed by the low bits of their handles, which
  doubles when every slot is taken, and a sorted array of names searched by bisection. A context is
  an address; its \<open>handle\<close> field lives in the context, so the operations that read it
  (\<open>skynet_context_handle\<close>) take it as a function \<open>hof\<close>.
\<close>

subsection \<open>State\<close>

definition HANDLE_MASK :: u32 where "HANDLE_MASK = 0xffffff"
definition HANDLE_REMOTE_SHIFT :: nat where "HANDLE_REMOTE_SHIFT = 24"
definition DEFAULT_SLOT_SIZE :: nat where "DEFAULT_SLOT_SIZE = 4"
definition MAX_SLOT_SIZE :: nat where "MAX_SLOT_SIZE = 0x40000000"

record handle_name =
  hn_name :: string
  hn_handle :: u32

record 'c handle_storage =
  hs_harbor :: u32
  hs_index :: u32
  hs_slot_size :: nat
  hs_slot :: "'c option list"
  hs_name_cap :: nat
  hs_name_count :: nat
  hs_name :: "handle_name option list"

definition skynet_handle_init :: "int \<Rightarrow> 'c handle_storage" where
  "skynet_handle_init harbor =
     \<lparr>hs_harbor = push_bit HANDLE_REMOTE_SHIFT (word_of_int harbor AND 0xff), hs_index = 1,
      hs_slot_size = DEFAULT_SLOT_SIZE, hs_slot = replicate DEFAULT_SLOT_SIZE None,
      hs_name_cap = 2, hs_name_count = 0, hs_name = replicate 2 None\<rparr>"

subsection \<open>The slots\<close>

definition slot_hash :: "nat \<Rightarrow> u32 \<Rightarrow> nat" where
  "slot_hash n h = unat (h AND (of_nat n - 1))"

definition probe_handle :: "'c handle_storage \<Rightarrow> nat \<Rightarrow> u32" where
  "probe_handle s i = (of_nat i + hs_index s) AND HANDLE_MASK"

text \<open>The inner loop of \<open>skynet_handle_register\<close>: the first probe whose slot is free.\<close>

definition find_free :: "'c handle_storage \<Rightarrow> nat option" where
  "find_free s =
     find (\<lambda>i. hs_slot s ! slot_hash (hs_slot_size s) (probe_handle s i) = None) [0..<hs_slot_size s]"

text \<open>Moving every context to its slot in the table of twice the size.\<close>

fun rehash :: "('c \<Rightarrow> u32) \<Rightarrow> nat \<Rightarrow> 'c option list \<Rightarrow> 'c option list \<Rightarrow> 'c option list option" where
  "rehash hof n [] new_slot = Some new_slot"
| "rehash hof n (cell # cells) new_slot =
     do { c \<leftarrow> cell;
          let hash = slot_hash n (hof c);
          old \<leftarrow> array_get new_slot hash;
          assert_opt (old = None);
          rehash hof n cells (new_slot[hash := Some c]) }"

definition grow_slots :: "('c \<Rightarrow> u32) \<Rightarrow> 'c handle_storage \<Rightarrow> 'c handle_storage option" where
  "grow_slots hof s =
     do { assert_opt (int (hs_slot_size s * 2) - 1 \<le> uint HANDLE_MASK);
          new_slot \<leftarrow> rehash hof (hs_slot_size s * 2) (hs_slot s) (replicate (hs_slot_size s * 2) None);
          Some (s\<lparr>hs_slot := new_slot, hs_slot_size := hs_slot_size s * 2\<rparr>) }"

partial_function (option) skynet_handle_register ::
  "('c \<Rightarrow> u32) \<Rightarrow> 'c \<Rightarrow> 'c handle_storage \<Rightarrow> (u32 \<times> 'c handle_storage) option" where
  "skynet_handle_register hof ctx s =
     (case find_free s of
        Some i \<Rightarrow>
          (let handle = probe_handle s i;
               hash = slot_hash (hs_slot_size s) handle
           in Some (handle OR hs_harbor s,
                    s\<lparr>hs_slot := (hs_slot s)[hash := Some ctx], hs_index := handle + 1\<rparr>))
      | None \<Rightarrow> do { s' \<leftarrow> grow_slots hof s; skynet_handle_register hof ctx s' })"

declare skynet_handle_register.simps [code]

text \<open>\<open>skynet_handle_grab\<close>, up to the reference count it increments on the context it finds.\<close>

definition handle_lookup :: "('c \<Rightarrow> u32) \<Rightarrow> 'c handle_storage \<Rightarrow> u32 \<Rightarrow> 'c option" where
  "handle_lookup hof s h =
     (case array_get (hs_slot s) (slot_hash (hs_slot_size s) h) of
        Some (Some c) \<Rightarrow> if hof c = h then Some c else None
      | _ \<Rightarrow> None)"

subsection \<open>The names\<close>

text \<open>
  The search loop shared by \<open>skynet_handle_findname\<close> and \<open>_insert_name\<close>: \<open>Inl\<close> the handle of the
  name when it is there, \<open>Inr\<close> the position where it belongs when it is not. The characters compare
  as \<open>strcmp\<close> compares them.
\<close>

function name_search :: "handle_name option list \<Rightarrow> string \<Rightarrow> int \<Rightarrow> int \<Rightarrow> (u32 + int) option" where
  "name_search names name b e =
     (if b \<le> e then
        do { let mid = (b + e) div 2;
             cell \<leftarrow> array_get names (nat mid);
             n \<leftarrow> cell;
             (if hn_name n = name then Some (Inl (hn_handle n))
              else if hn_name n < name then name_search names name (mid + 1) e
              else name_search names name b (mid - 1)) }
      else Some (Inr b))"
  by pat_completeness auto
termination
  by (relation "measure (\<lambda>(names, name, b, e). nat (e - b + 1))") auto

declare name_search.simps [simp del]

definition skynet_handle_findname :: "string \<Rightarrow> 'c handle_storage \<Rightarrow> u32 option" where
  "skynet_handle_findname name s =
     do { r \<leftarrow> name_search (hs_name s) name 0 (int (hs_name_count s) - 1);
          Some (case r of Inl h \<Rightarrow> h | Inr _ \<Rightarrow> 0) }"

text \<open>\<open>for (i=name_count;i>before;i--) name[i] = name[i-1];\<close>\<close>

fun shift_names :: "handle_name option list \<Rightarrow> nat \<Rightarrow> nat \<Rightarrow> handle_name option list option" where
  "shift_names names i before =
     (if before < i then
        do { x \<leftarrow> array_get names (i - 1);
             names' \<leftarrow> array_set names i x;
             shift_names names' (i - 1) before }
      else Some names)"

declare shift_names.simps [simp del]

definition insert_name_before ::
  "handle_name \<Rightarrow> nat \<Rightarrow> 'c handle_storage \<Rightarrow> 'c handle_storage option" where
  "insert_name_before hn before s =
     do { s1 \<leftarrow> (if hs_name_cap s \<le> hs_name_count s then
                  do { let cap = hs_name_cap s * 2;
                       assert_opt (cap \<le> MAX_SLOT_SIZE);
                       Some (s\<lparr>hs_name_cap := cap,
                         hs_name := take before (hs_name s) @ [None]
                           @ drop before (take (hs_name_count s) (hs_name s))
                           @ replicate (cap - Suc (hs_name_count s)) None\<rparr>) }
                else do { names \<leftarrow> shift_names (hs_name s) (hs_name_count s) before;
                          Some (s\<lparr>hs_name := names\<rparr>) });
          names \<leftarrow> array_set (hs_name s1) before (Some hn);
          Some (s1\<lparr>hs_name := names, hs_name_count := Suc (hs_name_count s1)\<rparr>) }"

text \<open>\<open>_insert_name\<close> and \<open>skynet_handle_namehandle\<close>: the name on success, \<open>NULL\<close> when it is taken.\<close>

definition skynet_handle_namehandle ::
  "u32 \<Rightarrow> string \<Rightarrow> 'c handle_storage \<Rightarrow> (string option \<times> 'c handle_storage) option" where
  "skynet_handle_namehandle handle name s =
     do { r \<leftarrow> name_search (hs_name s) name 0 (int (hs_name_count s) - 1);
          (case r of
             Inl _ \<Rightarrow> Some (None, s)
           | Inr b \<Rightarrow> do { s' \<leftarrow> insert_name_before \<lparr>hn_name = name, hn_handle = handle\<rparr> (nat b) s;
                            Some (Some name, s') }) }"

text \<open>The loop of \<open>skynet_handle_retire\<close> that removes the names of a handle in place.\<close>

function compact_names ::
  "u32 \<Rightarrow> nat \<Rightarrow> nat \<Rightarrow> nat \<Rightarrow> handle_name option list \<Rightarrow> (nat \<times> handle_name option list) option" where
  "compact_names handle n i j names =
     (if i < n then
        do { cell \<leftarrow> array_get names i;
             x \<leftarrow> cell;
             (if hn_handle x = handle then compact_names handle n (Suc i) j names
              else do { names' \<leftarrow> (if i \<noteq> j then array_set names j cell else Some names);
                        compact_names handle n (Suc i) (Suc j) names' }) }
      else Some (j, names))"
  by pat_completeness auto
termination
  by (relation "measure (\<lambda>(handle, n, i, j, names). n - i)") auto

declare compact_names.simps [simp del]

text \<open>
  \<open>skynet_handle_retire\<close> up to the release of the context: the result code, the context the caller
  releases after the lock, and the storage.
\<close>

definition handle_retire ::
  "('c \<Rightarrow> u32) \<Rightarrow> u32 \<Rightarrow> 'c handle_storage \<Rightarrow> (int \<times> 'c option \<times> 'c handle_storage) option" where
  "handle_retire hof handle s =
     do { cell \<leftarrow> array_get (hs_slot s) (slot_hash (hs_slot_size s) handle);
          (case cell of
             Some c \<Rightarrow>
               if hof c = handle then
                 do { (j, names) \<leftarrow> compact_names handle (hs_name_count s) 0 0 (hs_name s);
                      Some (1, Some c,
                        s\<lparr>hs_slot := (hs_slot s)[slot_hash (hs_slot_size s) handle := None],
                          hs_name := names, hs_name_count := j\<rparr>) }
               else Some (0, None, s)
           | None \<Rightarrow> Some (0, None, s)) }"

subsection \<open>The slots hold each context at the slot of its handle\<close>

definition hs_contexts :: "'c handle_storage \<Rightarrow> 'c set" where
  "hs_contexts s = {c. Some c \<in> set (hs_slot s)}"

definition slots_wf :: "('c \<Rightarrow> u32) \<Rightarrow> 'c handle_storage \<Rightarrow> bool" where
  "slots_wf hof s \<longleftrightarrow>
     (\<exists>k \<le> 24. hs_slot_size s = 2 ^ k) \<and> length (hs_slot s) = hs_slot_size s \<and>
     hs_harbor s AND HANDLE_MASK = 0 \<and>
     (\<forall>j < hs_slot_size s. \<forall>c. hs_slot s ! j = Some c \<longrightarrow> slot_hash (hs_slot_size s) (hof c) = j)"

lemma HANDLE_MASK_mask: "HANDLE_MASK = mask 24"
  by (simp add: HANDLE_MASK_def mask_eq_exp_minus_1)

lemma slot_hash_mod: "k \<le> 24 \<Longrightarrow> slot_hash (2 ^ k) h = unat h mod 2 ^ k"
  using unat_and_mask [of h k] by (simp add: slot_hash_def mask_eq_exp_minus_1)

lemma slot_hash_less: "k \<le> 24 \<Longrightarrow> slot_hash (2 ^ k) h < 2 ^ k"
  by (simp add: slot_hash_mod)

lemma slot_hash_harbor:
  assumes "k \<le> 24" "harbor AND HANDLE_MASK = 0"
  shows "slot_hash (2 ^ k) (h OR harbor) = slot_hash (2 ^ k) h"
proof -
  have "harbor AND mask k = 0"
  proof (rule bit_word_eqI)
    fix n
    from assms(2) have "bit (harbor AND mask 24) n = bit (0 :: u32) n" by (simp add: HANDLE_MASK_mask)
    with assms(1) show "bit (harbor AND mask k) n = bit (0 :: u32) n"
      by (auto simp: bit_simps)
  qed
  then have "(h OR harbor) AND mask k = h AND mask k"
    by (simp add: bit.conj_disj_distrib2)
  then show ?thesis
    by (simp add: slot_hash_def mask_eq_exp_minus_1)
qed

lemma slot_hash_probe:
  assumes "k \<le> 24"
  shows "slot_hash (2 ^ k) (probe_handle s i) = (i + unat (hs_index s)) mod 2 ^ k"
proof -
  have dvd: "(2 :: nat) ^ k dvd 2 ^ 24" "(2 :: nat) ^ k dvd 2 ^ 32"
    using assms pow2_dvd_pow2 [of k 24] pow2_dvd_pow2 [of k 32] by simp_all
  have "unat (of_nat i + hs_index s) = (i + unat (hs_index s)) mod 2 ^ 32"
    by (simp add: unat_word_ariths unat_of_nat mod_simps)
  then have "unat (of_nat i + hs_index s) mod 2 ^ k = (i + unat (hs_index s)) mod 2 ^ k"
    using dvd(2) by (simp only: mod_mod_cancel)
  moreover have "unat (probe_handle s i) = unat (of_nat i + hs_index s) mod 2 ^ 24"
    unfolding probe_handle_def HANDLE_MASK_mask by (rule unat_and_mask)
  ultimately show ?thesis
    using dvd(1) by (simp only: slot_hash_mod [OF assms] mod_mod_cancel)
qed

text \<open>The probes visit every slot, so a search that finds none free means that all are taken.\<close>

lemma find_free_None:
  assumes "slots_wf hof s" "find_free s = None" "j < hs_slot_size s"
  shows "hs_slot s ! j \<noteq> None"
proof -
  from assms(1) obtain k where k: "k \<le> 24" "hs_slot_size s = 2 ^ k" by (auto simp: slots_wf_def)
  let ?n = "(2 :: nat) ^ k" and ?a = "unat (hs_index s)"
  define i where "i = (j + (?n - ?a mod ?n)) mod ?n"
  have "(i + ?a) mod ?n = (j + (?n - ?a mod ?n) + ?a mod ?n) mod ?n"
    by (simp add: i_def mod_simps)
  also have "j + (?n - ?a mod ?n) + ?a mod ?n = j + ?n"
    using mod_le_divisor [of ?n ?a] by (simp only: add.assoc le_add_diff_inverse2 zero_less_power
        zero_less_numeral)
  also have "(j + ?n) mod ?n = j mod ?n" by simp
  finally have "(i + ?a) mod ?n = j" using assms(3) k(2) by simp
  moreover have "i < ?n" by (simp add: i_def)
  ultimately show ?thesis
    using assms(2) k slot_hash_probe [OF k(1), of s i] by (auto simp: find_free_def find_None_iff)
qed

lemma find_free_Some:
  assumes "find_free s = Some i"
  shows "i < hs_slot_size s" "hs_slot s ! slot_hash (hs_slot_size s) (probe_handle s i) = None"
  using assms by (auto simp: find_free_def find_Some_iff)

lemma handle_lookup_iff:
  assumes "slots_wf hof s"
  shows "handle_lookup hof s h = Some c \<longleftrightarrow> c \<in> hs_contexts s \<and> hof c = h"
proof -
  from assms obtain k where k: "k \<le> 24" "hs_slot_size s = 2 ^ k" "length (hs_slot s) = 2 ^ k"
    by (auto simp: slots_wf_def)
  have less: "slot_hash (2 ^ k) h < 2 ^ k" for h using slot_hash_less [OF k(1)] .
  have "handle_lookup hof s h = Some c" if c: "c \<in> hs_contexts s" "hof c = h"
  proof -
    from c k obtain j where j: "j < 2 ^ k" "hs_slot s ! j = Some c"
      by (auto simp: hs_contexts_def in_set_conv_nth)
    with assms k c(2) have "slot_hash (2 ^ k) h = j" by (auto simp: slots_wf_def)
    with j c(2) k show ?thesis by (simp add: handle_lookup_def)
  qed
  moreover have "c \<in> hs_contexts s \<and> hof c = h" if "handle_lookup hof s h = Some c"
    using that less [of h] k
    by (auto simp: handle_lookup_def hs_contexts_def in_set_conv_nth split: option.splits if_splits)
  ultimately show ?thesis by blast
qed

text \<open>Doubling the table: contexts of different slots stay apart, since the low bits still differ.\<close>

lemma rehash_result:
  assumes "length new_slot = n" "None \<notin> set cells"
    "\<And>h. slot_hash n h < n"
    "distinct (map (\<lambda>cell. slot_hash n (hof (the cell))) cells)"
    "\<And>c. Some c \<in> set cells \<Longrightarrow> new_slot ! slot_hash n (hof c) = None"
  shows "\<exists>new'. rehash hof n cells new_slot = Some new' \<and> length new' = n \<and>
    (\<forall>p < n. \<forall>c. new' ! p = Some c \<longleftrightarrow>
       (Some c \<in> set cells \<and> slot_hash n (hof c) = p) \<or> new_slot ! p = Some c)"
  using assms
proof (induction cells arbitrary: new_slot)
  case Nil
  then show ?case by simp
next
  case (Cons cell cells)
  then obtain c where c: "cell = Some c" by (cases cell) auto
  let ?h = "slot_hash n (hof c)"
  let ?new = "new_slot[?h := Some c]"
  have h: "?h < n" "new_slot ! ?h = None" using Cons.prems(3,5) c by auto
  have "\<exists>new'. rehash hof n cells ?new = Some new' \<and> length new' = n \<and>
    (\<forall>p < n. \<forall>c. new' ! p = Some c \<longleftrightarrow>
       (Some c \<in> set cells \<and> slot_hash n (hof c) = p) \<or> ?new ! p = Some c)"
  proof (rule Cons.IH)
    fix d assume "Some d \<in> set cells"
    moreover from this Cons.prems(4) c have "slot_hash n (hof d) \<noteq> ?h" by force
    ultimately show "?new ! slot_hash n (hof d) = None" using Cons.prems(5) by simp
  qed (use Cons.prems in auto)
  then obtain new' where new': "rehash hof n cells ?new = Some new'" "length new' = n"
    "\<forall>p < n. \<forall>d. new' ! p = Some d \<longleftrightarrow>
       (Some d \<in> set cells \<and> slot_hash n (hof d) = p) \<or> ?new ! p = Some d" by blast
  have "rehash hof n (cell # cells) new_slot = Some new'"
    using c h new'(1) Cons.prems(1) by simp
  moreover have "new' ! p = Some d \<longleftrightarrow>
      (Some d \<in> set (cell # cells) \<and> slot_hash n (hof d) = p) \<or> new_slot ! p = Some d" if "p < n" for p d
    using new'(3) that c h Cons.prems(1) by (cases "p = ?h") auto
  ultimately show ?case using new'(2) by blast
qed

lemma old_slot:
  assumes "slots_wf hof s" "hs_slot_size s = 2 ^ k" "k \<le> 23" "Some c \<in> set (hs_slot s)"
  shows "hs_slot s ! (slot_hash (2 ^ Suc k) (hof c) mod 2 ^ k) = Some c"
proof -
  from assms obtain j where j: "j < 2 ^ k" "hs_slot s ! j = Some c"
    by (auto simp: slots_wf_def in_set_conv_nth)
  with assms have "slot_hash (2 ^ k) (hof c) = j" by (simp add: slots_wf_def)
  with assms(3) have "unat (hof c) mod 2 ^ k = j" by (simp add: slot_hash_mod)
  moreover have "slot_hash (2 ^ Suc k) (hof c) mod 2 ^ k = unat (hof c) mod 2 ^ k"
    using assms(3) slot_hash_mod [of "Suc k" "hof c"] by (simp add: mod_mod_cancel)
  ultimately show ?thesis using j(2) by simp
qed

lemma grow_rehash:
  assumes "slots_wf hof s" "find_free s = None" "hs_slot_size s = 2 ^ k" "k \<le> 23"
  shows "\<exists>new'. rehash hof (2 ^ Suc k) (hs_slot s) (replicate (2 ^ Suc k) None) = Some new' \<and>
    length new' = 2 ^ Suc k \<and>
    (\<forall>p < 2 ^ Suc k. \<forall>c. new' ! p = Some c \<longleftrightarrow>
       Some c \<in> set (hs_slot s) \<and> slot_hash (2 ^ Suc k) (hof c) = p)"
proof -
  let ?n = "(2 :: nat) ^ Suc k"
  have len: "length (hs_slot s) = 2 ^ k" using assms(1,3) by (simp add: slots_wf_def)
  have full: "hs_slot s ! j \<noteq> None" if "j < 2 ^ k" for j
    using find_free_None [OF assms(1,2)] that assms(3) by simp
  have less: "slot_hash ?n h < ?n" for h using assms(4) by (intro slot_hash_less) simp
  let ?new0 = "replicate ?n (None :: 'a option)"
  have "distinct (map (\<lambda>cell. slot_hash ?n (hof (the cell))) (hs_slot s))"
    unfolding distinct_conv_nth
  proof (intro allI impI)
    fix i j assume "i < length (map (\<lambda>cell. slot_hash ?n (hof (the cell))) (hs_slot s))"
      "j < length (map (\<lambda>cell. slot_hash ?n (hof (the cell))) (hs_slot s))" "i \<noteq> j"
    then have ij: "i < 2 ^ k" "j < 2 ^ k" "i \<noteq> j" using len by simp_all
    with full obtain c d where cd: "hs_slot s ! i = Some c" "hs_slot s ! j = Some d" by blast
    with ij assms(1,3) have "slot_hash (2 ^ k) (hof c) = i" "slot_hash (2 ^ k) (hof d) = j"
      by (simp_all add: slots_wf_def)
    with ij(3) have "c \<noteq> d" by auto
    moreover have "Some c \<in> set (hs_slot s)" "Some d \<in> set (hs_slot s)"
      using cd ij len by (metis nth_mem)+
    ultimately have "slot_hash ?n (hof c) \<noteq> slot_hash ?n (hof d)"
      using old_slot [OF assms(1,3,4)] by (metis option.inject)
    with cd ij len show "map (\<lambda>cell. slot_hash ?n (hof (the cell))) (hs_slot s) ! i \<noteq>
      map (\<lambda>cell. slot_hash ?n (hof (the cell))) (hs_slot s) ! j" by simp
  qed
  moreover have "None \<notin> set (hs_slot s)" using full len by (metis in_set_conv_nth)
  ultimately show ?thesis
    using rehash_result [of ?new0 ?n "hs_slot s" hof] less by auto
qed

lemma grow_slots_result:
  assumes "slots_wf hof s" "find_free s = None" "hs_slot_size s \<le> 2 ^ 23"
  shows "\<exists>s' i. grow_slots hof s = Some s' \<and> slots_wf hof s' \<and> hs_contexts s' = hs_contexts s \<and>
    find_free s' = Some i \<and> s' = s\<lparr>hs_slot := hs_slot s', hs_slot_size := hs_slot_size s * 2\<rparr>"
proof -
  from assms(1) obtain k where k: "k \<le> 24" "hs_slot_size s = 2 ^ k" by (auto simp: slots_wf_def)
  have "(2 :: nat) ^ k \<le> 2 ^ 23" using assms(3) unfolding k(2) .
  then have k23: "k \<le> 23" by (rule power_le_imp_le_exp [rotated]) simp
  then have "(2 :: nat) ^ Suc k \<le> 2 ^ 24" by (intro power_increasing) simp_all
  then have "int (hs_slot_size s * 2) \<le> int (2 ^ 24)"
    unfolding of_nat_le_iff k(2) by simp
  then have ass: "int (hs_slot_size s * 2) - 1 \<le> uint HANDLE_MASK" by (simp add: HANDLE_MASK_def)
  have n2: "hs_slot_size s * 2 = 2 ^ Suc k" using k(2) by simp
  from grow_rehash [OF assms(1,2) k(2) k23] obtain new' where
    new': "rehash hof (2 ^ Suc k) (hs_slot s) (replicate (2 ^ Suc k) None) = Some new'"
    "length new' = 2 ^ Suc k"
    "\<And>p c. p < 2 ^ Suc k \<Longrightarrow> new' ! p = Some c \<longleftrightarrow>
       Some c \<in> set (hs_slot s) \<and> slot_hash (2 ^ Suc k) (hof c) = p" by blast
  let ?s = "s\<lparr>hs_slot := new', hs_slot_size := hs_slot_size s * 2\<rparr>"
  have "grow_slots hof s = Some ?s" 
    unfolding grow_slots_def n2 using ass [unfolded n2] new'(1) by simp
  moreover have wf: "slots_wf hof ?s"
    unfolding slots_wf_def using assms(1) new'(2,3) n2 k23
    by (auto simp: slots_wf_def mult.commute intro!: exI [of _ "Suc k"])
  moreover have "Some c \<in> set new' \<longleftrightarrow> Some c \<in> set (hs_slot s)" for c
    by (rule set_cells_eq [OF new'(2) _ new'(3)]) (use slot_hash_less [of "Suc k"] k23 in simp_all)
  then have "hs_contexts ?s = hs_contexts s" by (simp add: hs_contexts_def)
  moreover have "find_free ?s \<noteq> None"
  proof
    assume none: "find_free ?s = None"
    from find_free_None [OF wf none, of 0] find_free_None [OF wf none, of "2 ^ k"] n2 obtain d e where
      "new' ! 0 = Some d" "new' ! (2 ^ k) = Some e" by auto
    with new'(3) [of 0 d] new'(3) [of "2 ^ k" e] have
      de: "Some d \<in> set (hs_slot s)" "slot_hash (2 ^ Suc k) (hof d) = 0"
        "Some e \<in> set (hs_slot s)" "slot_hash (2 ^ Suc k) (hof e) = 2 ^ k" by auto
    from old_slot [OF assms(1) k(2) k23 de(1)] old_slot [OF assms(1) k(2) k23 de(3)] de(2,4)
    have "d = e" by simp
    with de(2,4) show False by simp
  qed
  ultimately show ?thesis by fastforce
qed

text \<open>Registering a context gives it a handle that no registered context has.\<close>

lemma register_free:
  assumes wf: "slots_wf hof s" and free: "find_free s = Some i" and new: "ctx \<notin> hs_contexts s"
  shows "\<exists>h s'. skynet_handle_register hof ctx s = Some (h, s') \<and>
    (\<forall>c \<in> hs_contexts s. hof c \<noteq> h) \<and> slots_wf (hof(ctx := h)) s' \<and>
    hs_contexts s' = insert ctx (hs_contexts s) \<and> h = probe_handle s i OR hs_harbor s"
proof -
  from wf obtain k where k: "k \<le> 24" "hs_slot_size s = 2 ^ k" "length (hs_slot s) = 2 ^ k"
    "hs_harbor s AND HANDLE_MASK = 0" by (auto simp: slots_wf_def)
  let ?p = "probe_handle s i"
  let ?h = "?p OR hs_harbor s"
  let ?j = "slot_hash (2 ^ k) ?p"
  let ?s = "s\<lparr>hs_slot := (hs_slot s)[?j := Some ctx], hs_index := ?p + 1\<rparr>"
  have j: "?j < 2 ^ k" "slot_hash (2 ^ k) ?h = ?j" "hs_slot s ! ?j = None"
    using slot_hash_less [OF k(1)] slot_hash_harbor [OF k(1,4)] find_free_Some [OF free] k(2) by auto
  have "skynet_handle_register hof ctx s = Some (?h, ?s)"
    using free k(2) by (simp add: skynet_handle_register.simps [of hof ctx s] Let_def)
  moreover have "hof c \<noteq> ?h" if "c \<in> hs_contexts s" for c
    using that handle_lookup_iff [OF wf, of ?h c] j k by (auto simp: handle_lookup_def)
  moreover have "slots_wf (hof(ctx := ?h)) ?s"
  proof -
    have "slot_hash (2 ^ k) ((hof(ctx := ?h)) c) = q"
      if q: "q < 2 ^ k" "((hs_slot s)[?j := Some ctx]) ! q = Some c" for q c
    proof (cases "q = ?j")
      case True
      with q j k(3) show ?thesis by simp
    next
      case False
      with q have "hs_slot s ! q = Some c" by simp
      moreover from this q k(3) have "c \<in> hs_contexts s" by (auto simp: hs_contexts_def in_set_conv_nth)
      with new have "c \<noteq> ctx" by blast
      ultimately show ?thesis using wf q k(2) by (simp add: slots_wf_def)
    qed
    with k show ?thesis by (auto simp: slots_wf_def)
  qed
  moreover have "hs_contexts ?s = insert ctx (hs_contexts s)"
  proof -
    have "set ((hs_slot s)[?j := Some ctx]) \<subseteq> insert (Some ctx) (set (hs_slot s))"
      by (rule set_update_subset_insert)
    moreover have "Some c \<in> set ((hs_slot s)[?j := Some ctx])" if "Some c \<in> set (hs_slot s)" for c
      using that j k(3) by (metis in_set_conv_nth length_list_update nth_list_update_neq option.distinct(1))
    moreover have "Some ctx \<in> set ((hs_slot s)[?j := Some ctx])"
      using j k(3) by (simp add: set_update_memI)
    ultimately show ?thesis by (auto simp: hs_contexts_def)
  qed
  ultimately show ?thesis by blast
qed

lemma register_result:
  assumes "slots_wf hof s" "ctx \<notin> hs_contexts s" "find_free s \<noteq> None \<or> hs_slot_size s \<le> 2 ^ 23"
  shows "\<exists>h s'. skynet_handle_register hof ctx s = Some (h, s') \<and>
    (\<forall>c \<in> hs_contexts s. hof c \<noteq> h) \<and> slots_wf (hof(ctx := h)) s' \<and>
    hs_contexts s' = insert ctx (hs_contexts s)"
proof (cases "find_free s")
  case (Some i)
  from register_free [OF assms(1) Some assms(2)] show ?thesis by blast
next
  case None
  with assms(3) have "hs_slot_size s \<le> 2 ^ 23" by simp
  from grow_slots_result [OF assms(1) None this] obtain s' i where
    s': "grow_slots hof s = Some s'" "slots_wf hof s'" "hs_contexts s' = hs_contexts s"
    "find_free s' = Some i" by blast
  have "skynet_handle_register hof ctx s = skynet_handle_register hof ctx s'"
    using s'(1) None by (simp add: skynet_handle_register.simps [of hof ctx s])
  with register_free [OF s'(2,4), of ctx] assms(2) s'(3) show ?thesis by auto
qed

lemma init_slots_wf:
  fixes hof :: "'c \<Rightarrow> u32"
  shows "slots_wf hof (skynet_handle_init harbor)"
proof -
  let ?s = "skynet_handle_init harbor :: 'c handle_storage"
  have "push_bit 24 w AND mask 24 = 0" for w :: u32
    by (rule bit_word_eqI) (auto simp: bit_simps)
  then have "hs_harbor ?s AND HANDLE_MASK = 0"
    by (simp only: skynet_handle_init_def handle_storage.select_convs HANDLE_MASK_mask
        HANDLE_REMOTE_SHIFT_def)
  moreover have "hs_slot_size ?s = 2 ^ 2" "(2 :: nat) \<le> 24"
    by (simp_all add: skynet_handle_init_def DEFAULT_SLOT_SIZE_def)
  moreover have "hs_slot ?s = replicate 4 None"
    by (simp add: skynet_handle_init_def DEFAULT_SLOT_SIZE_def)
  ultimately show ?thesis unfolding slots_wf_def by (auto intro: exI [of _ 2])
qed

lemma init_contexts: "hs_contexts (skynet_handle_init harbor) = {}"
  by (simp add: hs_contexts_def skynet_handle_init_def)

subsection \<open>The names are sorted, and searched by bisection\<close>

definition hs_names :: "'c handle_storage \<Rightarrow> handle_name list" where
  "hs_names s = map the (take (hs_name_count s) (hs_name s))"

definition names_wf :: "'c handle_storage \<Rightarrow> bool" where
  "names_wf s \<longleftrightarrow> hs_name_count s \<le> hs_name_cap s \<and> length (hs_name s) = hs_name_cap s \<and>
     0 < hs_name_cap s \<and> None \<notin> set (take (hs_name_count s) (hs_name s)) \<and>
     sorted_wrt (<) (map hn_name (hs_names s))"

definition name_table :: "'c handle_storage \<Rightarrow> string \<rightharpoonup> u32" where
  "name_table s = map_of (map (\<lambda>n. (hn_name n, hn_handle n)) (hs_names s))"

lemma names_cell:
  assumes "names_wf s" "i < hs_name_count s"
  shows "array_get (hs_name s) i = Some (Some (hs_names s ! i))"
proof -
  from assms have i: "i < length (hs_name s)" by (simp add: names_wf_def)
  then have "hs_name s ! i \<in> set (take (hs_name_count s) (hs_name s))"
    using assms(2) by (auto simp: in_set_conv_nth)
  with assms obtain n where "hs_name s ! i = Some n" by (cases "hs_name s ! i") (auto simp: names_wf_def)
  with i assms(2) show ?thesis by (simp add: hs_names_def)
qed

lemma length_hs_names: "names_wf s \<Longrightarrow> length (hs_names s) = hs_name_count s"
  by (simp add: hs_names_def names_wf_def)

lemma names_less:
  assumes "names_wf s" "i < j" "j < hs_name_count s"
  shows "hn_name (hs_names s ! i) < hn_name (hs_names s ! j)"
  using assms length_hs_names [OF assms(1)] sorted_wrt_nth_less [of "(<)" "map hn_name (hs_names s)" i j]
  by (simp add: names_wf_def)

text \<open>
  What the search loop returns: the entry of the name, or the place that separates the smaller names
  from the larger ones.
\<close>

lemma name_search_result:
  assumes wf: "names_wf s" and "0 \<le> b" "e < int (hs_name_count s)"
    and "\<And>i. i < hs_name_count s \<Longrightarrow> int i < b \<Longrightarrow> hn_name (hs_names s ! i) < name"
    and "\<And>i. i < hs_name_count s \<Longrightarrow> e < int i \<Longrightarrow> name < hn_name (hs_names s ! i)"
    and "b \<le> e + 1"
  shows "(\<exists>i < hs_name_count s. hn_name (hs_names s ! i) = name \<and>
            name_search (hs_name s) name b e = Some (Inl (hn_handle (hs_names s ! i)))) \<or>
         (\<exists>p \<le> hs_name_count s. name_search (hs_name s) name b e = Some (Inr (int p)) \<and>
            (\<forall>i < p. hn_name (hs_names s ! i) < name) \<and>
            (\<forall>i < hs_name_count s. p \<le> i \<longrightarrow> name < hn_name (hs_names s ! i)))"
  using assms(2-6)
proof (induction "hs_name s" name b e rule: name_search.induct)
  case (1 name b e)
  show ?case
  proof (cases "b \<le> e")
    case False
    then have e: "e = b - 1" using 1(7) by simp
    have "name_search (hs_name s) name b e = Some (Inr (int (nat b)))"
      using False 1(3) by (simp add: name_search.simps)
    moreover have "nat b \<le> hs_name_count s" using e 1(4) by linarith
    moreover have "hn_name (hs_names s ! i) < name" if "i < nat b" for i
      using that 1(5) [of i] e 1(4) by linarith
    moreover have "name < hn_name (hs_names s ! i)" if "i < hs_name_count s" "nat b \<le> i" for i
      using that 1(6) [of i] e by linarith
    ultimately show ?thesis by blast
  next
    case True
    let ?m = "(b + e) div 2"
    define mid where "mid = nat ?m"
    have m: "b \<le> ?m" "?m \<le> e" "0 \<le> ?m" using True 1(3) by auto
    then have mid: "mid < hs_name_count s" "int mid = ?m" using 1(4) by (auto simp: mid_def)
    let ?n = "hs_names s ! mid"
    have get: "array_get (hs_name s) (nat ?m) = Some (Some ?n)"
      using names_cell [OF wf mid(1)] by (simp add: mid_def)
    have step: "name_search (hs_name s) name b e =
       (if hn_name ?n = name then Some (Inl (hn_handle ?n))
        else if hn_name ?n < name then name_search (hs_name s) name (?m + 1) e
        else name_search (hs_name s) name b (?m - 1))"
      using True get by (simp add: name_search.simps [of _ name b e] Let_def)
    consider (eq) "hn_name ?n = name" | (less) "hn_name ?n < name" | (greater) "name < hn_name ?n"
      by fastforce
    then show ?thesis
    proof cases
      case eq
      with step mid show ?thesis by auto
    next
      case less
      have "hn_name (hs_names s ! i) < name" if "i < hs_name_count s" "int i < ?m + 1" for i
        using that names_less [OF wf, of i mid] mid less
        by (cases "i = mid") (auto intro: less_trans)
      with 1(1) [OF True refl get refl] less m 1(3-7) show ?thesis unfolding step by auto
    next
      case greater
      have "name < hn_name (hs_names s ! i)" if "i < hs_name_count s" "?m - 1 < int i" for i
        using that names_less [OF wf, of mid i] mid greater
        by (cases "i = mid") (auto intro: less_trans)
      with 1(2) [OF True refl get refl] greater m 1(3-7) show ?thesis unfolding step by auto
    qed
  qed
qed

lemma shift_names_result:
  "before \<le> i \<Longrightarrow> i < length names \<Longrightarrow>
     shift_names names i before =
       Some (take (Suc before) names @ drop before (take i names) @ drop (Suc i) names)"
proof (induction names i before rule: shift_names.induct)
  case (1 names i before)
  show ?case
  proof (cases "before < i")
    case False
    with 1(2,3) have "i = before" by simp
    with 1(3) show ?thesis by (simp add: shift_names.simps append_take_drop_id)
  next
    case True
    let ?x = "names ! (i - 1)"
    let ?names = "names[i := ?x]"
    obtain m where m: "i = Suc m" using True by (cases i) auto
    have "shift_names names i before = shift_names ?names m before"
      using True 1(3) m by (simp add: shift_names.simps [of names])
    also have "\<dots> = Some (take (Suc before) ?names @ drop before (take m ?names) @ drop (Suc m) ?names)"
      using 1(1) [OF True _ _, of ?x ?names] True 1(3) m by simp
    also have "take (Suc before) ?names = take (Suc before) names" using True m by simp
    also have "take m ?names = take m names" using m by simp
    also have "drop (Suc m) ?names = ?x # drop (Suc i) names"
      using m 1(3) by (simp add: Cons_nth_drop_Suc [symmetric] drop_update_swap)
    also have "drop before (take m names) @ ?x # drop (Suc i) names
        = drop before (take i names) @ drop (Suc i) names"
      using True m 1(3) by (simp add: take_Suc_conv_app_nth)
    finally show ?thesis .
  qed
qed

lemma insert_name_before_live:
  assumes wf: "hs_name_count s \<le> hs_name_cap s" "length (hs_name s) = hs_name_cap s"
    "p \<le> hs_name_count s" "0 < hs_name_cap s" and max: "hs_name_cap s * 2 \<le> MAX_SLOT_SIZE"
    and live: "live = take p (hs_name s) @ Some hn # drop p (take (hs_name_count s) (hs_name s))"
  shows "\<exists>rest. insert_name_before hn p s = Some (s\<lparr>hs_name_cap := length (live @ rest),
      hs_name := live @ rest, hs_name_count := Suc (hs_name_count s)\<rparr>)"
proof (cases "hs_name_cap s \<le> hs_name_count s")
  case True
  let ?rest = "replicate (hs_name_cap s * 2 - Suc (hs_name_count s)) None"
  have "length (live @ ?rest) = hs_name_cap s * 2" using wf True live by simp
  with True max wf live have "insert_name_before hn p s = Some (s\<lparr>hs_name_cap := length (live @ ?rest),
    hs_name := live @ ?rest, hs_name_count := Suc (hs_name_count s)\<rparr>)"
    by (simp add: insert_name_before_def Let_def list_update_append)
  then show ?thesis by blast
next
  case False
  let ?n = "hs_name_count s" and ?ns = "hs_name s"
  let ?rest = "drop (Suc ?n) ?ns"
  have "shift_names ?ns ?n p = Some (take (Suc p) ?ns @ drop p (take ?n ?ns) @ ?rest)"
    using shift_names_result [of p ?n ?ns] wf False by simp
  moreover have "(take (Suc p) ?ns @ drop p (take ?n ?ns) @ ?rest)[p := Some hn] = live @ ?rest"
    using wf False live by (simp add: take_Suc_conv_app_nth list_update_append)
  moreover have "length (live @ ?rest) = hs_name_cap s" using wf False live by simp
  ultimately have "insert_name_before hn p s = Some (s\<lparr>hs_name_cap := length (live @ ?rest),
    hs_name := live @ ?rest, hs_name_count := Suc ?n\<rparr>)"
    using False wf by (simp add: insert_name_before_def)
  then show ?thesis by blast
qed

lemma insert_name_before_result:
  assumes "names_wf s" "p \<le> hs_name_count s" "hs_name_cap s * 2 \<le> MAX_SLOT_SIZE"
  shows "\<exists>s'. insert_name_before hn p s = Some s' \<and>
    hs_names s' = take p (hs_names s) @ hn # drop p (hs_names s) \<and>
    hs_name_count s' \<le> hs_name_cap s' \<and> 0 < hs_name_cap s' \<and>
    length (hs_name s') = hs_name_cap s' \<and> None \<notin> set (take (hs_name_count s') (hs_name s')) \<and>
    s' = s\<lparr>hs_name := hs_name s', hs_name_cap := hs_name_cap s', hs_name_count := Suc (hs_name_count s)\<rparr>"
proof -
  let ?n = "hs_name_count s" and ?ns = "hs_name s"
  define live where "live = take p ?ns @ Some hn # drop p (take ?n ?ns)"
  from assms have wf: "?n \<le> hs_name_cap s" "length ?ns = hs_name_cap s" "p \<le> ?n"
    "0 < hs_name_cap s" "None \<notin> set (take ?n ?ns)" by (auto simp: names_wf_def)
  from insert_name_before_live [OF wf(1-4) assms(3) live_def] obtain rest where
    res: "insert_name_before hn p s = Some (s\<lparr>hs_name_cap := length (live @ rest),
      hs_name := live @ rest, hs_name_count := Suc ?n\<rparr>)" by blast
  have "length live = Suc ?n" using wf by (simp add: live_def)
  moreover from this have "take (Suc ?n) (live @ rest) = live" by (rule take_length_append)
  moreover have "set (take p ?ns) \<subseteq> set (take ?n ?ns)" using wf(3) by (rule set_take_subset_set_take)
  then have "None \<notin> set live" using wf(5) by (auto simp: live_def dest: in_set_dropD)
  moreover have "map the live = take p (hs_names s) @ hn # drop p (hs_names s)"
    using wf(3) by (simp add: live_def hs_names_def take_map drop_map min_def)
  ultimately show ?thesis using res by (auto simp: hs_names_def)
qed

lemma name_table_nth:
  assumes "names_wf s" "i < hs_name_count s"
  shows "name_table s (hn_name (hs_names s ! i)) = Some (hn_handle (hs_names s ! i))"
proof -
  have "distinct (map hn_name (hs_names s))"
    using assms(1) by (simp add: names_wf_def strict_sorted_iff)
  then have "distinct (map fst (map (\<lambda>n. (hn_name n, hn_handle n)) (hs_names s)))"
    by (simp add: comp_def)
  then show ?thesis
    unfolding name_table_def using assms length_hs_names [OF assms(1)] by (simp add: map_of_eq_Some_iff)
qed

lemma name_table_None:
  assumes "names_wf s" "\<And>i. i < hs_name_count s \<Longrightarrow> hn_name (hs_names s ! i) \<noteq> name"
  shows "name_table s name = None"
proof -
  have "hn_name n \<noteq> name" if "n \<in> set (hs_names s)" for n
    using that assms(2) length_hs_names [OF assms(1)] by (metis in_set_conv_nth)
  then show ?thesis by (fastforce simp: name_table_def map_of_eq_None_iff)
qed

lemma search_whole:
  assumes "names_wf s"
  shows "(\<exists>h. name_table s name = Some h \<and>
            name_search (hs_name s) name 0 (int (hs_name_count s) - 1) = Some (Inl h)) \<or>
         (\<exists>p \<le> hs_name_count s. name_table s name = None \<and>
            name_search (hs_name s) name 0 (int (hs_name_count s) - 1) = Some (Inr (int p)) \<and>
            (\<forall>i < p. hn_name (hs_names s ! i) < name) \<and>
            (\<forall>i < hs_name_count s. p \<le> i \<longrightarrow> name < hn_name (hs_names s ! i)))"
proof -
  let ?r = "name_search (hs_name s) name 0 (int (hs_name_count s) - 1)"
  consider (found) i where "i < hs_name_count s" "hn_name (hs_names s ! i) = name"
      "?r = Some (Inl (hn_handle (hs_names s ! i)))"
    | (place) p where "p \<le> hs_name_count s" "?r = Some (Inr (int p))"
      "\<And>i. i < p \<Longrightarrow> hn_name (hs_names s ! i) < name"
      "\<And>i. i < hs_name_count s \<Longrightarrow> p \<le> i \<Longrightarrow> name < hn_name (hs_names s ! i)"
    using name_search_result [OF assms, of 0 "int (hs_name_count s) - 1" name] by auto
  then show ?thesis
  proof cases
    case found
    with name_table_nth [OF assms found(1)] show ?thesis by auto
  next
    case place
    have "hn_name (hs_names s ! i) \<noteq> name" if "i < hs_name_count s" for i
      using place(3) [of i] place(4) [of i] that by (cases "i < p") auto
    with place name_table_None [OF assms] show ?thesis by blast
  qed
qed

lemma findname_result:
  "names_wf s \<Longrightarrow>
     skynet_handle_findname name s = Some (case name_table s name of Some h \<Rightarrow> h | None \<Rightarrow> 0)"
  using search_whole [of s name] by (auto simp: skynet_handle_findname_def)

lemma map_of_insert:
  "k \<notin> fst ` set xs \<Longrightarrow> map_of (xs @ (k, v) # ys) = (map_of (xs @ ys))(k \<mapsto> v)"
  by (induction xs) (auto simp: fun_eq_iff)

lemma names_insert:
  assumes wf: "names_wf s"
    and s': "hs_names s' = take p (hs_names s) @ \<lparr>hn_name = name, hn_handle = h\<rparr> # drop p (hs_names s)"
    and lo: "\<And>i. i < p \<Longrightarrow> hn_name (hs_names s ! i) < name"
    and hi: "\<And>i. i < hs_name_count s \<Longrightarrow> p \<le> i \<Longrightarrow> name < hn_name (hs_names s ! i)"
  shows "sorted_wrt (<) (map hn_name (hs_names s'))" "name_table s' = (name_table s)(name \<mapsto> h)"
proof -
  let ?xs = "take p (hs_names s)" and ?ys = "drop p (hs_names s)"
  let ?kv = "\<lambda>n. (hn_name n, hn_handle n)"
  have lo': "hn_name n < name" if "n \<in> set ?xs" for n using that lo by (auto simp: in_set_conv_nth)
  have hi': "name < hn_name n" if "n \<in> set ?ys" for n
    using that hi length_hs_names [OF wf] by (auto simp: in_set_conv_nth)
  have "map hn_name (hs_names s) = map hn_name ?xs @ map hn_name ?ys"
    by (simp only: map_append [symmetric] append_take_drop_id)
  with wf have "sorted_wrt (<) (map hn_name ?xs @ map hn_name ?ys)" by (simp only: names_wf_def)
  with lo' hi' show "sorted_wrt (<) (map hn_name (hs_names s'))"
    by (auto simp: s' sorted_wrt_append)
  have "name \<notin> fst ` set (map ?kv ?xs)" using lo' by fastforce
  from map_of_insert [OF this, of h "map ?kv ?ys"]
  have "name_table s' = (map_of (map ?kv ?xs @ map ?kv ?ys))(name \<mapsto> h)"
    by (simp add: name_table_def s')
  also have "map ?kv ?xs @ map ?kv ?ys = map ?kv (hs_names s)"
    by (simp only: map_append [symmetric] append_take_drop_id)
  finally show "name_table s' = (name_table s)(name \<mapsto> h)" by (simp only: name_table_def)
qed

lemma namehandle_result:
  assumes "names_wf s" "hs_name_cap s * 2 \<le> MAX_SLOT_SIZE"
  shows "case name_table s name of
      Some _ \<Rightarrow> skynet_handle_namehandle h name s = Some (None, s)
    | None \<Rightarrow> \<exists>s'. skynet_handle_namehandle h name s = Some (Some name, s') \<and> names_wf s' \<and>
        name_table s' = (name_table s)(name \<mapsto> h) \<and>
        s' = s\<lparr>hs_name := hs_name s', hs_name_cap := hs_name_cap s', hs_name_count := Suc (hs_name_count s)\<rparr>"
proof (cases "name_table s name")
  case (Some h')
  with search_whole [OF assms(1), of name] show ?thesis by (auto simp: skynet_handle_namehandle_def)
next
  case None
  let ?hn = "\<lparr>hn_name = name, hn_handle = h\<rparr>"
  from None search_whole [OF assms(1), of name] obtain p where
    p: "p \<le> hs_name_count s" "name_search (hs_name s) name 0 (int (hs_name_count s) - 1) = Some (Inr (int p))"
    "\<And>i. i < p \<Longrightarrow> hn_name (hs_names s ! i) < name"
    "\<And>i. i < hs_name_count s \<Longrightarrow> p \<le> i \<Longrightarrow> name < hn_name (hs_names s ! i)" by auto
  from insert_name_before_result [OF assms(1) p(1) assms(2), of ?hn] obtain s' where
    s': "insert_name_before ?hn p s = Some s'"
      "hs_names s' = take p (hs_names s) @ ?hn # drop p (hs_names s)"
      "hs_name_count s' \<le> hs_name_cap s'" "0 < hs_name_cap s'" "length (hs_name s') = hs_name_cap s'"
      "None \<notin> set (take (hs_name_count s') (hs_name s'))"
      "s' = s\<lparr>hs_name := hs_name s', hs_name_cap := hs_name_cap s', hs_name_count := Suc (hs_name_count s)\<rparr>"
    by blast
  from names_insert [OF assms(1) s'(2) p(3,4)] s' have "names_wf s'"
    "name_table s' = (name_table s)(name \<mapsto> h)" by (simp_all add: names_wf_def)
  moreover have "skynet_handle_namehandle h name s = Some (Some name, s')"
    using p(2) s'(1) by (simp add: skynet_handle_namehandle_def)
  ultimately show ?thesis using None s'(7) by simp
qed

text \<open>Removing the names of a handle keeps the others, in order.\<close>

lemma compact_names_result:
  assumes "j \<le> i" "i \<le> n" "n \<le> length names" "None \<notin> set (drop i (take n names))"
  shows "\<exists>names'. compact_names h n i j names =
      Some (j + length (filter (\<lambda>x. hn_handle (the x) \<noteq> h) (drop i (take n names))), names') \<and>
    length names' = length names \<and>
    take (j + length (filter (\<lambda>x. hn_handle (the x) \<noteq> h) (drop i (take n names)))) names' =
      take j names @ filter (\<lambda>x. hn_handle (the x) \<noteq> h) (drop i (take n names))"
  using assms
proof (induction "n - i" arbitrary: i j names)
  case 0
  then show ?case by (simp add: compact_names.simps)
next
  case (Suc d)
  then have i: "i < n" "i < length names" by simp_all
  have dropi: "drop i (take n names) = names ! i # drop (Suc i) (take n names)"
    using i by (simp add: Cons_nth_drop_Suc [symmetric])
  then obtain x where x: "names ! i = Some x" using Suc.prems(4) by (cases "names ! i") auto
  show ?case
  proof (cases "hn_handle x = h")
    case True
    with i x have "compact_names h n i j names = compact_names h n (Suc i) j names"
      by (simp add: compact_names.simps [of h n i])
    with Suc.hyps(1) [of "Suc i" j names] Suc.hyps(2) Suc.prems dropi x True show ?thesis by auto
  next
    case False
    let ?names = "names[j := Some x]"
    have "(if i \<noteq> j then array_set names j (Some x) else Some names) = Some ?names"
    proof (cases "i = j")
      case True
      with x have "?names = names" by (metis list_update_id)
      with True show ?thesis by simp
    next
      case False
      with Suc.prems(1) i show ?thesis by simp
    qed
    with i x False have "compact_names h n i j names = compact_names h n (Suc i) (Suc j) ?names"
      by (simp add: compact_names.simps [of h n i])
    moreover have "drop (Suc i) (take n ?names) = drop (Suc i) (take n names)"
      using Suc.prems(1) by (simp add: take_update_swap)
    moreover have "take (Suc j) ?names = take j names @ [Some x]"
      using Suc.prems(1) i by (simp add: take_Suc_conv_app_nth)
    ultimately show ?thesis
      using Suc.hyps(1) [of "Suc i" "Suc j" ?names] Suc.hyps(2) Suc.prems dropi x False i by auto
  qed
qed

lemma map_of_filter_values:
  "distinct (map fst xs) \<Longrightarrow>
     map_of (filter (\<lambda>kv. snd kv \<noteq> v) xs) = (\<lambda>k. if map_of xs k = Some v then None else map_of xs k)"
  by (induction xs) (auto simp: fun_eq_iff map_of_eq_None_iff image_iff)

lemma names_filter:
  assumes "names_wf s" "hs_names s' = filter (\<lambda>n. hn_handle n \<noteq> h) (hs_names s)"
  shows "sorted_wrt (<) (map hn_name (hs_names s'))"
    "name_table s' = (\<lambda>k. if name_table s k = Some h then None else name_table s k)"
proof -
  let ?kv = "\<lambda>n. (hn_name n, hn_handle n)"
  have sorted: "sorted_wrt (<) (map hn_name (hs_names s))" using assms(1) by (simp add: names_wf_def)
  then show "sorted_wrt (<) (map hn_name (hs_names s'))"
    unfolding assms(2) sorted_wrt_map by (rule sorted_wrt_filter)
  from sorted have "distinct (map fst (map ?kv (hs_names s)))"
    by (simp add: comp_def strict_sorted_iff)
  from map_of_filter_values [OF this, of h]
  show "name_table s' = (\<lambda>k. if name_table s k = Some h then None else name_table s k)"
    unfolding name_table_def assms(2) by (simp add: filter_map comp_def)
qed

lemma retire_names:
  assumes "names_wf s"
  shows "\<exists>j names'. compact_names h (hs_name_count s) 0 0 (hs_name s) = Some (j, names') \<and>
    j \<le> hs_name_cap s \<and> length names' = hs_name_cap s \<and> None \<notin> set (take j names') \<and>
    map the (take j names') = filter (\<lambda>n. hn_handle n \<noteq> h) (hs_names s)"
proof -
  from assms have wf: "hs_name_count s \<le> length (hs_name s)" "length (hs_name s) = hs_name_cap s"
    "None \<notin> set (take (hs_name_count s) (hs_name s))" by (simp_all add: names_wf_def)
  let ?live = "take (hs_name_count s) (hs_name s)"
  let ?kept = "filter (\<lambda>x. hn_handle (the x) \<noteq> h) ?live"
  have "length ?kept \<le> hs_name_cap s"
    using length_filter_le [of "\<lambda>x. hn_handle (the x) \<noteq> h" ?live] wf by simp
  moreover have "map the ?kept = filter (\<lambda>n. hn_handle n \<noteq> h) (hs_names s)"
    by (simp add: hs_names_def filter_map comp_def)
  moreover have "None \<notin> set ?kept" using wf(3) by simp
  ultimately show ?thesis
    using compact_names_result [of 0 0 "hs_name_count s" "hs_name s" h] wf by auto
qed

text \<open>Retiring a handle removes its context and every name of it, and nothing else.\<close>

lemma retire_slots:
  assumes wf: "slots_wf hof s" and c: "c \<in> hs_contexts s"
    and s': "hs_slot s' = (hs_slot s)[slot_hash (hs_slot_size s) (hof c) := None]"
      "hs_slot_size s' = hs_slot_size s" "hs_harbor s' = hs_harbor s"
  shows "slots_wf hof s'" "hs_contexts s' = hs_contexts s - {c}"
proof -
  let ?j = "slot_hash (hs_slot_size s) (hof c)"
  from c obtain i where i: "i < length (hs_slot s)" "hs_slot s ! i = Some c"
    by (auto simp: hs_contexts_def in_set_conv_nth)
  moreover from this wf have "?j = i" by (simp add: slots_wf_def)
  ultimately have j: "?j < length (hs_slot s)" "hs_slot s ! ?j = Some c" by simp_all
  have "hs_slot s ! p = Some d" if "((hs_slot s)[?j := None]) ! p = Some d" for p d
    using that j by (cases "p = ?j") simp_all
  with wf show "slots_wf hof s'" unfolding slots_wf_def s' length_list_update by blast
  have "p = ?j" if "p < length (hs_slot s)" "hs_slot s ! p = Some c" for p
    using wf that unfolding slots_wf_def by metis
  with j have "Some d \<in> set ((hs_slot s)[?j := None]) \<longleftrightarrow> Some d \<in> set (hs_slot s) \<and> d \<noteq> c" for d
    by (metis in_set_conv_nth length_list_update nth_list_update_eq nth_list_update_neq option.distinct(1)
        option.inject)
  then show "hs_contexts s' = hs_contexts s - {c}" by (auto simp: hs_contexts_def s')
qed

lemma retire_result:
  assumes "slots_wf hof s" "names_wf s"
  shows "case handle_lookup hof s h of
      None \<Rightarrow> handle_retire hof h s = Some (0, None, s)
    | Some c \<Rightarrow> \<exists>s'. handle_retire hof h s = Some (1, Some c, s') \<and> slots_wf hof s' \<and> names_wf s' \<and>
        hs_contexts s' = hs_contexts s - {c} \<and>
        name_table s' = (\<lambda>k. if name_table s k = Some h then None else name_table s k) \<and>
        hs_slot_size s' = hs_slot_size s"
proof -
  let ?j = "slot_hash (hs_slot_size s) h"
  from assms(1) obtain k where k: "k \<le> 24" "hs_slot_size s = 2 ^ k" "length (hs_slot s) = 2 ^ k"
    by (auto simp: slots_wf_def)
  have cell: "array_get (hs_slot s) ?j = Some (hs_slot s ! ?j)"
    using slot_hash_less [OF k(1), of h] k by simp
  show ?thesis
  proof (cases "handle_lookup hof s h")
    case None
    with cell show ?thesis
      by (auto simp: handle_retire_def handle_lookup_def split: option.splits if_splits)
  next
    case (Some c)
    with cell have c: "hs_slot s ! ?j = Some c" "hof c = h"
      by (auto simp: handle_lookup_def split: option.splits if_splits)
    from Some handle_lookup_iff [OF assms(1)] have mem: "c \<in> hs_contexts s" by blast
    from retire_names [OF assms(2), of h] obtain j names' where
      n: "compact_names h (hs_name_count s) 0 0 (hs_name s) = Some (j, names')" "j \<le> hs_name_cap s"
        "length names' = hs_name_cap s" "None \<notin> set (take j names')"
        "map the (take j names') = filter (\<lambda>n. hn_handle n \<noteq> h) (hs_names s)" by blast
    let ?s = "s\<lparr>hs_slot := (hs_slot s)[?j := None], hs_name := names', hs_name_count := j\<rparr>"
    have "handle_retire hof h s = Some (1, Some c, ?s)"
      using cell c n(1) by (simp add: handle_retire_def)
    moreover have "hs_names ?s = filter (\<lambda>n. hn_handle n \<noteq> h) (hs_names s)"
      using n(5) by (simp add: hs_names_def)
    note names_filter [OF assms(2) this]
    moreover have "names_wf ?s" unfolding names_wf_def
      using calculation(2) n(2-4) assms(2) by (simp add: names_wf_def)
    ultimately show ?thesis using retire_slots [OF assms(1) mem, of ?s] c(2) Some by auto
  qed
qed

subsection \<open>The interface of the registry\<close>

text \<open>
  What the rest of the system relies on: a handle resolves to the context it was given to until it is
  retired. The laws speak of the lookup function only. \<open>cap\<close> is the number of contexts the registry
  can hold.
\<close>

datatype 'c registry_cmd = Register 'c | Retire u32

fun registered :: "'c registry_cmd list \<Rightarrow> 'c list" where
  "registered [] = []"
| "registered (Register c # cmds) = c # registered cmds"
| "registered (Retire h # cmds) = registered cmds"

fun exec_cmd ::
  "('c \<Rightarrow> 's \<Rightarrow> (u32 \<times> 's) option) \<Rightarrow> (u32 \<Rightarrow> 's \<Rightarrow> 's option) \<Rightarrow> 'c registry_cmd \<Rightarrow> 's \<Rightarrow> 's option" where
  "exec_cmd register retire (Register c) s = map_option snd (register c s)"
| "exec_cmd register retire (Retire h) s = retire h s"

locale registry =
  fixes inv :: "'s \<Rightarrow> bool"
    and lookup :: "'s \<Rightarrow> u32 \<Rightarrow> 'c option"
    and register :: "'c \<Rightarrow> 's \<Rightarrow> (u32 \<times> 's) option"
    and retire :: "u32 \<Rightarrow> 's \<Rightarrow> 's option"
    and cap :: nat
  assumes finite_law: "inv s \<Longrightarrow> finite (dom (lookup s))"
    and register_law: "inv s \<Longrightarrow> c \<notin> ran (lookup s) \<Longrightarrow> card (dom (lookup s)) < cap \<Longrightarrow>
      \<exists>h s'. register c s = Some (h, s') \<and> inv s' \<and> lookup s h = None \<and> lookup s' = (lookup s)(h \<mapsto> c)"
    and retire_law: "inv s \<Longrightarrow> \<exists>s'. retire h s = Some s' \<and> inv s' \<and> lookup s' = (lookup s)(h := None)"
begin

lemma ran_fun_upd_subset: "ran (m(h := x)) \<subseteq> ran m \<union> set_option x"
  by (auto simp: ran_def)

lemma exec_result:
  assumes "inv s" "set (registered [cmd]) \<inter> ran (lookup s) = {}"
    "card (dom (lookup s)) + length (registered [cmd]) \<le> cap"
  shows "\<exists>s'. exec_cmd register retire cmd s = Some s' \<and> inv s' \<and> ran (lookup s') \<subseteq> ran (lookup s) \<union> set (registered [cmd]) \<and>
    card (dom (lookup s')) \<le> card (dom (lookup s)) + length (registered [cmd]) \<and>
    (\<forall>h c. cmd \<noteq> Retire h \<longrightarrow> lookup s h = Some c \<longrightarrow> lookup s' h = Some c)"
proof (cases cmd)
  case (Register c)
  with assms obtain h s' where s': "register c s = Some (h, s')" "inv s'" "lookup s h = None"
    "lookup s' = (lookup s)(h \<mapsto> c)" using register_law [of s c] by auto
  with Register finite_law [OF assms(1)] ran_fun_upd_subset [of "lookup s" h "Some c"] show ?thesis
    by (auto simp: card_insert_if)
next
  case (Retire h)
  with retire_law [OF assms(1), of h] obtain s' where s': "retire h s = Some s'" "inv s'"
    "lookup s' = (lookup s)(h := None)" by blast
  moreover have "card (dom (lookup s) - {h}) \<le> card (dom (lookup s))"
    using finite_law [OF assms(1)] by (intro card_mono) auto
  ultimately show ?thesis using Retire ran_fun_upd_subset [of "lookup s" h None] by auto
qed

text \<open>
  Any sequence of registrations and retirements within the capacity runs to its end, and a handle
  that it does not retire still resolves to the same context.
\<close>

lemma stable_handle:
  assumes "inv s" "distinct (registered cmds)" "set (registered cmds) \<inter> ran (lookup s) = {}"
    "card (dom (lookup s)) + length (registered cmds) \<le> cap"
  shows "\<exists>s'. fold_opt (exec_cmd register retire) cmds s = Some s' \<and> inv s' \<and>
    (\<forall>h c. Retire h \<notin> set cmds \<longrightarrow> lookup s h = Some c \<longrightarrow> lookup s' h = Some c)"
  using assms
proof (induction cmds arbitrary: s)
  case Nil
  then show ?case by simp
next
  case (Cons cmd cmds)
  have split: "registered (cmd # cmds) = registered [cmd] @ registered cmds" by (cases cmd) auto
  with Cons.prems have pre: "set (registered [cmd]) \<inter> ran (lookup s) = {}"
    "card (dom (lookup s)) + length (registered [cmd]) \<le> cap" by auto
  from exec_result [OF Cons.prems(1) pre] obtain s1 where
    s1: "exec_cmd register retire cmd s = Some s1" "inv s1" "ran (lookup s1) \<subseteq> ran (lookup s) \<union> set (registered [cmd])"
      "card (dom (lookup s1)) \<le> card (dom (lookup s)) + length (registered [cmd])"
      "\<forall>h c. cmd \<noteq> Retire h \<longrightarrow> lookup s h = Some c \<longrightarrow> lookup s1 h = Some c" by blast
  have "distinct (registered cmds)" "set (registered cmds) \<inter> ran (lookup s1) = {}"
    "card (dom (lookup s1)) + length (registered cmds) \<le> cap"
    using Cons.prems(2-4) s1(3,4) unfolding split by auto
  from Cons.IH [OF s1(2) this] s1(1,5) show ?case by auto
qed

end

text \<open>
  The storage together with the \<open>handle\<close> fields of the contexts: registering writes the handle into
  the context (\<open>ctx->handle = skynet_handle_register(ctx)\<close> in \<open>skynet_context_new\<close>).
\<close>

definition register_context ::
  "'c \<Rightarrow> ('c \<Rightarrow> u32) \<times> 'c handle_storage \<Rightarrow> (u32 \<times> ('c \<Rightarrow> u32) \<times> 'c handle_storage) option" where
  "register_context ctx = (\<lambda>(hof, s).
     do { (h, s') \<leftarrow> skynet_handle_register (hof(ctx := 0)) ctx s; Some (h, (hof(ctx := h), s')) })"

definition retire_context ::
  "u32 \<Rightarrow> ('c \<Rightarrow> u32) \<times> 'c handle_storage \<Rightarrow> (('c \<Rightarrow> u32) \<times> 'c handle_storage) option" where
  "retire_context h = (\<lambda>(hof, s). do { (ret, c, s') \<leftarrow> handle_retire hof h s; Some (hof, s') })"

text \<open>
  \<open>skynet_handle_retire\<close> and \<open>skynet_handle_retireall\<close>: the context is released after the lock is,
  and releasing it may call back into the storage, so \<open>release\<close> is a parameter.
\<close>

definition skynet_handle_retire ::
  "('c \<Rightarrow> ('c \<Rightarrow> u32) \<times> 'c handle_storage \<Rightarrow> (('c \<Rightarrow> u32) \<times> 'c handle_storage) option) \<Rightarrow> u32 \<Rightarrow>
     ('c \<Rightarrow> u32) \<times> 'c handle_storage \<Rightarrow> (int \<times> ('c \<Rightarrow> u32) \<times> 'c handle_storage) option" where
  "skynet_handle_retire release handle p =
     do { (ret, ctx, s') \<leftarrow> handle_retire (fst p) handle (snd p);
          p' \<leftarrow> (case ctx of Some c \<Rightarrow> release c (fst p, s') | None \<Rightarrow> Some (fst p, s'));
          Some (ret, p') }"

partial_function (option) retireall_pass ::
  "('c \<Rightarrow> ('c \<Rightarrow> u32) \<times> 'c handle_storage \<Rightarrow> (('c \<Rightarrow> u32) \<times> 'c handle_storage) option) \<Rightarrow> nat \<Rightarrow> nat \<Rightarrow>
     ('c \<Rightarrow> u32) \<times> 'c handle_storage \<Rightarrow> (nat \<times> ('c \<Rightarrow> u32) \<times> 'c handle_storage) option" where
  "retireall_pass release n i p =
     (if i < hs_slot_size (snd p) then
        do { cell \<leftarrow> array_get (hs_slot (snd p)) i;
             let handle = (case cell of Some c \<Rightarrow> fst p c | None \<Rightarrow> 0);
             (if handle \<noteq> 0 then
                do { (ret, p') \<leftarrow> skynet_handle_retire release handle p;
                     retireall_pass release (if ret \<noteq> 0 then Suc n else n) (Suc i) p' }
              else retireall_pass release n (Suc i) p) }
      else Some (n, p))"

partial_function (option) skynet_handle_retireall ::
  "('c \<Rightarrow> ('c \<Rightarrow> u32) \<times> 'c handle_storage \<Rightarrow> (('c \<Rightarrow> u32) \<times> 'c handle_storage) option) \<Rightarrow>
     ('c \<Rightarrow> u32) \<times> 'c handle_storage \<Rightarrow> (('c \<Rightarrow> u32) \<times> 'c handle_storage) option" where
  "skynet_handle_retireall release p =
     do { (n, p') \<leftarrow> retireall_pass release 0 0 p;
          (if n = 0 then Some p' else skynet_handle_retireall release p') }"

definition registry_wf :: "('c \<Rightarrow> u32) \<times> 'c handle_storage \<Rightarrow> bool" where
  "registry_wf = (\<lambda>(hof, s). slots_wf hof s \<and> names_wf s)"

lemma contexts_ran: "slots_wf hof s \<Longrightarrow> ran (handle_lookup hof s) = hs_contexts s"
  by (auto simp: ran_def handle_lookup_iff)

lemma contexts_inj:
  assumes "slots_wf hof s" "c \<in> hs_contexts s" "d \<in> hs_contexts s" "hof c = hof d"
  shows "c = d"
  using assms handle_lookup_iff [OF assms(1), of "hof c"] by (metis option.inject)

lemma lookup_dom: "slots_wf hof s \<Longrightarrow> dom (handle_lookup hof s) = hof ` hs_contexts s"
  by (auto simp: dom_def handle_lookup_iff)

lemma contexts_finite: "finite (hs_contexts s)"
proof -
  have "Some ` hs_contexts s \<subseteq> set (hs_slot s)" by (auto simp: hs_contexts_def)
  then have "finite (Some ` hs_contexts s)" by (rule finite_subset) simp
  then show ?thesis by (rule finite_imageD) simp
qed

lemma card_lookup:
  assumes "slots_wf hof s"
  shows "card (dom (handle_lookup hof s)) = card (hs_contexts s)"
  unfolding lookup_dom [OF assms] by (intro card_image inj_onI) (rule contexts_inj [OF assms])

text \<open>A full table holds one context per slot, so it can be doubled until it holds \<open>2 ^ 24\<close>.\<close>

lemma full_table:
  assumes "slots_wf hof s" "find_free s = None"
  shows "card (hs_contexts s) = hs_slot_size s"
proof -
  let ?f = "\<lambda>j. the (hs_slot s ! j)"
  have some: "hs_slot s ! j = Some (?f j)" if "j < hs_slot_size s" for j
    using find_free_None [OF assms that] by simp
  have len: "length (hs_slot s) = hs_slot_size s" using assms(1) by (simp add: slots_wf_def)
  have "hs_contexts s = ?f ` {..<hs_slot_size s}"
    using some len by (force simp: hs_contexts_def in_set_conv_nth)
  moreover have "inj_on ?f {..<hs_slot_size s}"
  proof (rule inj_onI)
    fix i j assume "i \<in> {..<hs_slot_size s}" "j \<in> {..<hs_slot_size s}" "?f i = ?f j"
    with some assms(1) have "slot_hash (hs_slot_size s) (hof (?f i)) = i"
      "slot_hash (hs_slot_size s) (hof (?f i)) = j" by (metis slots_wf_def lessThan_iff)+
    then show "i = j" by simp
  qed
  ultimately show ?thesis by (simp add: card_image)
qed

lemma has_room:
  assumes "slots_wf hof s" "card (hs_contexts s) < 2 ^ 24"
  shows "find_free s \<noteq> None \<or> hs_slot_size s \<le> 2 ^ 23"
proof (cases "find_free s")
  case None
  with full_table assms have less: "hs_slot_size s < 2 ^ 24" by metis
  from assms(1) obtain k where "hs_slot_size s = 2 ^ k" by (auto simp: slots_wf_def)
  moreover from this less have "k < 24" using power_less_imp_less_exp [of "2 :: nat" k 24] by simp
  then have "(2 :: nat) ^ k \<le> 2 ^ 23" by (intro power_increasing) simp_all
  ultimately show ?thesis by simp
qed simp

lemma register_names:
  assumes "skynet_handle_register hof ctx s = Some (h, s')" "slots_wf hof s"
    "find_free s \<noteq> None \<or> hs_slot_size s \<le> 2 ^ 23"
  shows "hs_name s' = hs_name s \<and> hs_name_count s' = hs_name_count s \<and> hs_name_cap s' = hs_name_cap s"
proof (cases "find_free s")
  case (Some i)
  with assms(1) show ?thesis by (auto simp: skynet_handle_register.simps [of hof ctx s] Let_def)
next
  case None
  with assms(3) have "hs_slot_size s \<le> 2 ^ 23" by simp
  from grow_slots_result [OF assms(2) None this] obtain s1 i where s1: "grow_slots hof s = Some s1"
    "find_free s1 = Some i" "s1 = s\<lparr>hs_slot := hs_slot s1, hs_slot_size := hs_slot_size s * 2\<rparr>" by blast
  then have "hs_name s1 = hs_name s" "hs_name_count s1 = hs_name_count s" "hs_name_cap s1 = hs_name_cap s"
    by (metis handle_storage.select_convs handle_storage.surjective handle_storage.update_convs(3,4))+
  with s1(1,2) None assms(1) show ?thesis
    by (auto simp: skynet_handle_register.simps [of hof ctx s] skynet_handle_register.simps [of hof ctx s1] Let_def)
qed

lemma names_wf_cong:
  "hs_name s' = hs_name s \<Longrightarrow> hs_name_count s' = hs_name_count s \<Longrightarrow> hs_name_cap s' = hs_name_cap s \<Longrightarrow>
     names_wf s' = names_wf s \<and> name_table s' = name_table s"
  by (simp add: names_wf_def hs_names_def name_table_def)

lemma slots_wf_other: "slots_wf hof s \<Longrightarrow> c \<notin> hs_contexts s \<Longrightarrow> slots_wf (hof(c := h)) s"
  unfolding slots_wf_def hs_contexts_def by (auto simp: in_set_conv_nth)

lemma lookup_other:
  "slots_wf hof s \<Longrightarrow> c \<notin> hs_contexts s \<Longrightarrow> handle_lookup (hof(c := h)) s = handle_lookup hof s"
  by (intro ext option_eqI) (auto simp: handle_lookup_iff slots_wf_other)

lemma register_context_result:
  assumes "registry_wf (hof, s)" "ctx \<notin> hs_contexts s" "card (hs_contexts s) < 2 ^ 24"
  shows "\<exists>h s'. register_context ctx (hof, s) = Some (h, (hof(ctx := h), s')) \<and>
    registry_wf (hof(ctx := h), s') \<and> handle_lookup hof s h = None \<and>
    handle_lookup (hof(ctx := h)) s' = (handle_lookup hof s)(h \<mapsto> ctx) \<and> name_table s' = name_table s"
proof -
  let ?hof = "hof(ctx := 0)"
  from assms(1) have wf: "slots_wf hof s" "names_wf s" by (simp_all add: registry_wf_def)
  have wf0: "slots_wf ?hof s" by (rule slots_wf_other [OF wf(1) assms(2)])
  note room = has_room [OF wf(1) assms(3)]
  from register_result [OF wf0 assms(2) room] obtain h s' where
    s': "skynet_handle_register ?hof ctx s = Some (h, s')" "\<forall>c \<in> hs_contexts s. ?hof c \<noteq> h"
      "slots_wf (hof(ctx := h)) s'" "hs_contexts s' = insert ctx (hs_contexts s)" by auto
  have names: "names_wf s'" "name_table s' = name_table s"
    using names_wf_cong [of s' s] register_names [OF s'(1) wf0 room] wf(2) by simp_all
  have fresh: "\<forall>c \<in> hs_contexts s. hof c \<noteq> h" using s'(2) assms(2) by (metis fun_upd_apply)
  then have "handle_lookup hof s h = None"
    using handle_lookup_iff [OF wf(1), of h] by (cases "handle_lookup hof s h") auto
  moreover have "handle_lookup (hof(ctx := h)) s' g = ((handle_lookup hof s)(h \<mapsto> ctx)) g" for g
    using handle_lookup_iff [OF s'(3), of g] handle_lookup_iff [OF wf(1), of g] s'(4) fresh assms(2)
    by (intro option_eqI) (auto split: if_splits)
  ultimately show ?thesis
    using s'(1,3) names by (auto simp: register_context_def registry_wf_def)
qed

lemma retire_context_result:
  assumes "registry_wf (hof, s)"
  shows "\<exists>s'. retire_context h (hof, s) = Some (hof, s') \<and> registry_wf (hof, s') \<and>
    handle_lookup hof s' = (handle_lookup hof s)(h := None)"
proof -
  from assms have wf: "slots_wf hof s" "names_wf s" by (simp_all add: registry_wf_def)
  show ?thesis
  proof (cases "handle_lookup hof s h")
    case None
    with retire_result [OF wf, of h] assms show ?thesis by (auto simp: retire_context_def fun_upd_idem)
  next
    case (Some c)
    with retire_result [OF wf, of h] obtain s' where
      s': "handle_retire hof h s = Some (1, Some c, s')" "slots_wf hof s'" "names_wf s'"
        "hs_contexts s' = hs_contexts s - {c}" by auto
    from Some have "c \<in> hs_contexts s" "hof c = h" using handle_lookup_iff [OF wf(1)] by auto
    then have "handle_lookup hof s' g = ((handle_lookup hof s)(h := None)) g" for g
      using handle_lookup_iff [OF s'(2), of g] handle_lookup_iff [OF wf(1), of g] s'(4)
        contexts_inj [OF wf(1)] by (intro option_eqI) (auto split: if_splits)
    with s' show ?thesis by (auto simp: retire_context_def registry_wf_def)
  qed
qed

interpretation skynet_registry: registry registry_wf "\<lambda>(hof, s). handle_lookup hof s"
  register_context retire_context "2 ^ 24"
proof unfold_locales
  fix p :: "('c \<Rightarrow> u32) \<times> 'c handle_storage" and c :: 'c and h :: u32
  obtain hof s where p: "p = (hof, s)" by (cases p)
  assume wf: "registry_wf p"
  then have slots: "slots_wf hof s" by (simp add: p registry_wf_def)
  show "finite (dom ((case p of (hof, s) \<Rightarrow> handle_lookup hof s)))"
    by (simp add: p lookup_dom [OF slots] contexts_finite)
  show "\<exists>p'. retire_context h p = Some p' \<and> registry_wf p' \<and>
      (case p' of (hof, s) \<Rightarrow> handle_lookup hof s) = ((case p of (hof, s) \<Rightarrow> handle_lookup hof s))(h := None)"
    using retire_context_result [of hof s h] wf by (auto simp: p)
  assume "c \<notin> ran ((case p of (hof, s) \<Rightarrow> handle_lookup hof s))"
    "card (dom ((case p of (hof, s) \<Rightarrow> handle_lookup hof s))) < 2 ^ 24"
  with register_context_result [of hof s c] wf
  show "\<exists>h p'. register_context c p = Some (h, p') \<and> registry_wf p' \<and>
      (case p of (hof, s) \<Rightarrow> handle_lookup hof s) h = None \<and>
      (case p' of (hof, s) \<Rightarrow> handle_lookup hof s) = ((case p of (hof, s) \<Rightarrow> handle_lookup hof s))(h \<mapsto> c)"
    by (auto simp: p card_lookup [OF slots] contexts_ran [OF slots])
qed

lemma init_registry_wf: "registry_wf (hof, skynet_handle_init harbor)"
  by (simp add: registry_wf_def init_slots_wf)
    (simp add: names_wf_def skynet_handle_init_def hs_names_def)

subsection \<open>Retiring every service\<close>

text \<open>
  What \<open>skynet_handle_retireall\<close> needs of the release of a context: it returns, and it may retire
  further contexts but registers none.
\<close>

definition release_ok ::
  "('c \<Rightarrow> ('c \<Rightarrow> u32) \<times> 'c handle_storage \<Rightarrow> (('c \<Rightarrow> u32) \<times> 'c handle_storage) option) \<Rightarrow> bool" where
  "release_ok release \<longleftrightarrow>
     (\<forall>c hof s. registry_wf (hof, s) \<longrightarrow>
        (\<exists>s'. release c (hof, s) = Some (hof, s') \<and> registry_wf (hof, s') \<and>
              hs_contexts s' \<subseteq> hs_contexts s \<and> hs_slot_size s' = hs_slot_size s))"

lemma retire_live:
  assumes "release_ok release" "registry_wf (hof, s)" "c \<in> hs_contexts s"
  shows "\<exists>s'. skynet_handle_retire release (hof c) (hof, s) = Some (1, hof, s') \<and> registry_wf (hof, s') \<and>
    hs_contexts s' \<subset> hs_contexts s \<and> hs_slot_size s' = hs_slot_size s"
proof -
  from assms(2) have wf: "slots_wf hof s" "names_wf s" by (simp_all add: registry_wf_def)
  have "handle_lookup hof s (hof c) = Some c" using handle_lookup_iff [OF wf(1)] assms(3) by blast
  with retire_result [OF wf, of "hof c"] obtain s1 where
    s1: "handle_retire hof (hof c) s = Some (1, Some c, s1)" "registry_wf (hof, s1)"
      "hs_contexts s1 = hs_contexts s - {c}" "hs_slot_size s1 = hs_slot_size s"
    by (auto simp: registry_wf_def)
  from assms(1) s1(2) obtain s2 where "release c (hof, s1) = Some (hof, s2)" "registry_wf (hof, s2)"
    "hs_contexts s2 \<subseteq> hs_contexts s1" "hs_slot_size s2 = hs_slot_size s1"
    unfolding release_ok_def by blast
  then show ?thesis using s1 assms(3) by (auto simp: skynet_handle_retire_def)
qed

lemma retireall_pass_result:
  assumes "release_ok release" "registry_wf (hof, s)"
  shows "\<exists>n' s'. retireall_pass release n i (hof, s) = Some (n', hof, s') \<and> registry_wf (hof, s') \<and>
    (if n' = n then s' = s \<and> (\<forall>j c. i \<le> j \<longrightarrow> j < hs_slot_size s \<longrightarrow> hs_slot s ! j = Some c \<longrightarrow> hof c = 0)
     else n < n' \<and> hs_contexts s' \<subset> hs_contexts s)"
  using assms(2)
proof (induction "hs_slot_size s - i" arbitrary: i n s)
  case 0
  then show ?case by (simp add: retireall_pass.simps)
next
  case (Suc d)
  then have i: "i < hs_slot_size s" "d = hs_slot_size s - Suc i" by simp_all
  moreover from Suc.prems have len: "length (hs_slot s) = hs_slot_size s"
    by (simp add: registry_wf_def slots_wf_def)
  ultimately have get: "array_get (hs_slot s) i = Some (hs_slot s ! i)" by simp
  note step = retireall_pass.simps [of release n i "(hof, s)"]
  show ?case
  proof (cases "\<exists>c. hs_slot s ! i = Some c \<and> hof c \<noteq> 0")
    case True
    then obtain c where c: "hs_slot s ! i = Some c" "hof c \<noteq> 0" by blast
    then have "c \<in> hs_contexts s" using i(1) len by (metis hs_contexts_def mem_Collect_eq nth_mem)
    from retire_live [OF assms(1) Suc.prems this] obtain s1 where
      s1: "skynet_handle_retire release (hof c) (hof, s) = Some (1, hof, s1)" "registry_wf (hof, s1)"
        "hs_contexts s1 \<subset> hs_contexts s" "hs_slot_size s1 = hs_slot_size s" by blast
    have "retireall_pass release n i (hof, s) = retireall_pass release (Suc n) (Suc i) (hof, s1)"
      using step i(1) get c s1(1) by simp
    moreover from Suc.hyps(1) [of s1 "Suc i" "Suc n"] s1 i(2) obtain n' s' where
      "retireall_pass release (Suc n) (Suc i) (hof, s1) = Some (n', hof, s')" "registry_wf (hof, s')"
      "Suc n \<le> n'" "hs_contexts s' \<subseteq> hs_contexts s1" by (fastforce split: if_splits)
    moreover from this s1(3) have "n < n'" "hs_contexts s' \<subset> hs_contexts s" by auto
    ultimately show ?thesis by auto
  next
    case False
    then have "(case hs_slot s ! i of Some x \<Rightarrow> fst (hof, s) x | None \<Rightarrow> 0) = 0"
      by (auto split: option.splits)
    then have "retireall_pass release n i (hof, s) = retireall_pass release n (Suc i) (hof, s)"
      using step i(1) get by (simp add: Let_def del: fst_conv)
    moreover from Suc.hyps(1) [of s "Suc i" n] Suc.prems i(2) obtain n' s' where
      r: "retireall_pass release n (Suc i) (hof, s) = Some (n', hof, s')" "registry_wf (hof, s')"
      "if n' = n then s' = s \<and> (\<forall>j c. Suc i \<le> j \<longrightarrow> j < hs_slot_size s \<longrightarrow> hs_slot s ! j = Some c \<longrightarrow> hof c = 0)
       else n < n' \<and> hs_contexts s' \<subset> hs_contexts s" by blast
    moreover have "hof c = 0" if "n' = n" "i \<le> j" "j < hs_slot_size s" "hs_slot s ! j = Some c" for j c
    proof (cases "j = i")
      case True
      with that False show ?thesis by auto
    next
      case False
      with that(2) have "Suc i \<le> j" by simp
      with that r(3) show ?thesis by auto
    qed
    ultimately show ?thesis by (intro exI [of _ n'] exI [of _ s']) (cases "n' = n", simp_all)
  qed
qed

lemma retireall_result:
  assumes "release_ok release" "registry_wf (hof, s)"
  shows "\<exists>s'. skynet_handle_retireall release (hof, s) = Some (hof, s') \<and> registry_wf (hof, s') \<and>
    (\<forall>c \<in> hs_contexts s'. hof c = 0)"
  using assms(2)
proof (induction "card (hs_contexts s)" arbitrary: s rule: less_induct)
  case less
  from retireall_pass_result [OF assms(1) less.prems, of 0 0] obtain n s1 where
    s1: "retireall_pass release 0 0 (hof, s) = Some (n, hof, s1)" "registry_wf (hof, s1)"
      "if n = 0 then s1 = s \<and> (\<forall>j c. 0 \<le> j \<longrightarrow> j < hs_slot_size s \<longrightarrow> hs_slot s ! j = Some c \<longrightarrow> hof c = 0)
       else 0 < n \<and> hs_contexts s1 \<subset> hs_contexts s" by blast
  note step = skynet_handle_retireall.simps [of release "(hof, s)"]
  show ?case
  proof (cases "n = 0")
    case True
    with s1(3) less.prems have "\<forall>c \<in> hs_contexts s. hof c = 0"
      by (auto simp: hs_contexts_def in_set_conv_nth registry_wf_def slots_wf_def)
    with True s1 step show ?thesis by auto
  next
    case False
    with s1(3) have "card (hs_contexts s1) < card (hs_contexts s)"
      by (simp add: psubset_card_mono contexts_finite)
    from less.hyps [OF this s1(2)] False s1(1) step show ?thesis by auto
  qed
qed

subsection \<open>Properties\<close>

text \<open>Registering a context while fewer than 2^24 are registered always succeeds, whether or not the
  table has to double: the handle is one that resolved to nothing, afterwards it resolves to the new
  context, every other handle resolves as before, and the names are untouched.\<close>

theorem register_fresh_handle:
  assumes "registry_wf (hof, s)" "ctx \<notin> hs_contexts s" "card (hs_contexts s) < 2 ^ 24"
  shows "\<exists>h s'. register_context ctx (hof, s) = Some (h, (hof(ctx := h), s')) \<and>
    registry_wf (hof(ctx := h), s') \<and> handle_lookup hof s h = None \<and>
    handle_lookup (hof(ctx := h)) s' = (handle_lookup hof s)(h \<mapsto> ctx) \<and> name_table s' = name_table s"
  by (rule register_context_result [OF assms])

definition small_storage :: "nat handle_storage" where
  "small_storage = \<lparr>hs_harbor = 0x1000000, hs_index = 5, hs_slot_size = 4,
     hs_slot = [Some 14, Some 11, Some 12, Some 13], hs_name_cap = 2, hs_name_count = 2,
     hs_name = [Some \<lparr>hn_name = ''db'', hn_handle = 0x1000002\<rparr>, Some \<lparr>hn_name = ''gate'', hn_handle = 0x1000003\<rparr>]\<rparr>"

definition small_hof :: "nat \<Rightarrow> u32" where
  "small_hof c = 0x1000000 + of_nat (c - 10)"

lemma small_registry_wf: "registry_wf (small_hof, small_storage)"
proof -
  have "slot_hash 4 (small_hof c) = j" if "j < 4" "hs_slot small_storage ! j = Some c" for j c
  proof -
    from that(1) consider "j = 0" | "j = 1" | "j = 2" | "j = 3" by linarith
    then show ?thesis using that(2) by cases (auto simp: small_storage_def slot_hash_def small_hof_def)
  qed
  moreover have "hs_slot_size small_storage = 2 ^ 2" "length (hs_slot small_storage) = 4"
    "hs_harbor small_storage AND HANDLE_MASK = 0" by (simp_all add: small_storage_def HANDLE_MASK_def)
  ultimately have "slots_wf small_hof small_storage" by (auto simp: slots_wf_def intro!: exI [of _ 2])
  moreover have "names_wf small_storage"
    by (simp add: names_wf_def small_storage_def hs_names_def)
  ultimately show ?thesis by (simp add: registry_wf_def)
qed

lemma small_contexts: "hs_contexts small_storage = {11, 12, 13, 14}"
  by (auto simp: hs_contexts_def small_storage_def)

theorem register_fresh_handle_witness:
  "\<exists>h s'. register_context 15 (small_hof, small_storage) = Some (h, (small_hof(15 := h), s')) \<and>
    registry_wf (small_hof(15 := h), s') \<and> handle_lookup small_hof small_storage h = None \<and>
    handle_lookup (small_hof(15 := h)) s' = (handle_lookup small_hof small_storage)(h \<mapsto> 15) \<and>
    name_table s' = name_table small_storage"
  by (rule register_fresh_handle) (simp_all add: small_registry_wf small_contexts)

text \<open>C13. Handles are stable. Any sequence of registrations of new contexts and of retirements runs to its
  end, and a handle that resolved to a context and is not retired by the sequence still resolves to
  that context, whatever else was registered, retired or moved by a doubling of the table.\<close>

theorem handle_stable:
  assumes "registry_wf (hof, s)" "distinct (registered cmds)"
    "set (registered cmds) \<inter> hs_contexts s = {}"
    "card (hs_contexts s) + length (registered cmds) \<le> 2 ^ 24"
  shows "\<exists>hof' s'. fold_opt (exec_cmd register_context retire_context) cmds (hof, s) = Some (hof', s') \<and>
    registry_wf (hof', s') \<and>
    (\<forall>h c. Retire h \<notin> set cmds \<longrightarrow> handle_lookup hof s h = Some c \<longrightarrow> handle_lookup hof' s' h = Some c)"
proof -
  from assms(1) have slots: "slots_wf hof s" by (simp add: registry_wf_def)
  from skynet_registry.stable_handle [of "(hof, s)" cmds] assms show ?thesis
    by (auto simp: card_lookup [OF slots] contexts_ran [OF slots])
qed

theorem handle_stable_witness:
  "\<exists>hof' s'. fold_opt (exec_cmd register_context retire_context)
       [Register 15, Retire 0x1000002, Register 16] (small_hof, small_storage) = Some (hof', s') \<and>
    registry_wf (hof', s') \<and> handle_lookup hof' s' 0x1000003 = Some 13"
proof -
  have "handle_lookup small_hof small_storage 0x1000003 = Some 13" by code_simp
  with handle_stable [OF small_registry_wf, of "[Register 15, Retire 0x1000002, Register 16]"]
  show ?thesis by (fastforce simp: small_contexts)
qed

text \<open>Retiring a handle: when it resolves to a context, that context alone leaves the table, exactly
  the names of that handle are removed, and the result is 1; otherwise nothing changes and the result
  is 0.\<close>

theorem retire_exact:
  assumes "registry_wf (hof, s)"
  shows "case handle_lookup hof s h of
      None \<Rightarrow> handle_retire hof h s = Some (0, None, s)
    | Some c \<Rightarrow> \<exists>s'. handle_retire hof h s = Some (1, Some c, s') \<and> registry_wf (hof, s') \<and>
        handle_lookup hof s' = (handle_lookup hof s)(h := None) \<and>
        name_table s' = (\<lambda>k. if name_table s k = Some h then None else name_table s k)"
  using retire_result [of hof s h] retire_context_result [OF assms, of h] assms
  by (auto simp: registry_wf_def retire_context_def split: option.splits)

theorem retire_exact_witness:
  "\<exists>s'. handle_retire small_hof 0x1000003 small_storage = Some (1, Some 13, s') \<and>
     name_table s' ''gate'' = None \<and> name_table s' ''db'' = Some 0x1000002"
proof -
  have "handle_lookup small_hof small_storage 0x1000003 = Some 13" "name_table small_storage ''gate'' = Some 0x1000003"
    "name_table small_storage ''db'' = Some 0x1000002" by code_simp+
  with retire_exact [OF small_registry_wf, of "0x1000003"] show ?thesis by auto
qed

text \<open>The name table. Naming a handle fails when the name is taken and leaves the storage as it was;
  otherwise it inserts the name, growing the array when it is full, and keeps the table sorted, so
  that looking any name up by bisection gives what the table as a finite map gives (0 for no entry).\<close>

theorem names_are_a_map:
  assumes "registry_wf (hof, s)" "hs_name_cap s * 2 \<le> MAX_SLOT_SIZE"
  shows "skynet_handle_findname key s = Some (case name_table s key of Some g \<Rightarrow> g | None \<Rightarrow> 0) \<and>
    (case name_table s name of
       Some _ \<Rightarrow> skynet_handle_namehandle h name s = Some (None, s)
     | None \<Rightarrow> \<exists>s'. skynet_handle_namehandle h name s = Some (Some name, s') \<and> registry_wf (hof, s') \<and>
         name_table s' = (name_table s)(name \<mapsto> h) \<and> handle_lookup hof s' = handle_lookup hof s \<and>
         skynet_handle_findname key s' =
           Some (if key = name then h else (case name_table s key of Some g \<Rightarrow> g | None \<Rightarrow> 0)))"
proof -
  from assms(1) have wf: "slots_wf hof s" "names_wf s" by (simp_all add: registry_wf_def)
  have slots: "slots_wf hof s' \<and> handle_lookup hof s' = handle_lookup hof s"
    if "s' = s\<lparr>hs_name := a, hs_name_cap := b, hs_name_count := d\<rparr>" for s' a b d
    using that wf(1) by (auto simp: slots_wf_def handle_lookup_def)
  note find = findname_result [OF wf(2), of key]
  show ?thesis
  proof (cases "name_table s name")
    case (Some g)
    with namehandle_result [OF wf(2) assms(2), where name = name and h = h] find show ?thesis by simp
  next
    case None
    with namehandle_result [OF wf(2) assms(2), where name = name and h = h] obtain s' where
      s': "skynet_handle_namehandle h name s = Some (Some name, s')" "names_wf s'"
        "name_table s' = (name_table s)(name \<mapsto> h)"
        "s' = s\<lparr>hs_name := hs_name s', hs_name_cap := hs_name_cap s', hs_name_count := Suc (hs_name_count s)\<rparr>"
      by auto
    have "registry_wf (hof, s')" "handle_lookup hof s' = handle_lookup hof s"
      using slots [OF s'(4)] s'(2) by (simp_all add: registry_wf_def)
    moreover have "skynet_handle_findname key s' =
        Some (if key = name then h else (case name_table s key of Some g \<Rightarrow> g | None \<Rightarrow> 0))"
      using findname_result [OF s'(2), of key] s'(3) by simp
    ultimately show ?thesis using None find s'(1,3) by auto
  qed
qed

theorem names_are_a_map_witness:
  "\<exists>s'. skynet_handle_namehandle 0x1000001 ''console'' small_storage = Some (Some ''console'', s') \<and>
     skynet_handle_findname ''console'' s' = Some 0x1000001"
proof -
  have "name_table small_storage ''console'' = None" by code_simp
  moreover have "hs_name_cap small_storage * 2 \<le> MAX_SLOT_SIZE" by (simp add: small_storage_def MAX_SLOT_SIZE_def)
  ultimately show ?thesis
    using names_are_a_map [OF small_registry_wf, where name = "''console''" and key = "''console''" and h = "0x1000001"] by auto
qed

text \<open>Shutting down: when releasing a context returns and registers no new one,
  \<open>skynet_handle_retireall\<close> terminates and leaves no context that has a non-zero handle.\<close>

theorem retireall_empties:
  assumes "release_ok release" "registry_wf (hof, s)"
  shows "\<exists>s'. skynet_handle_retireall release (hof, s) = Some (hof, s') \<and> registry_wf (hof, s') \<and>
    (\<forall>c \<in> hs_contexts s'. hof c = 0)"
  by (rule retireall_result [OF assms])

theorem retireall_empties_witness:
  "\<exists>s'. skynet_handle_retireall (\<lambda>c p. Some p) (small_hof, small_storage) = Some (small_hof, s') \<and>
    registry_wf (small_hof, s') \<and> (\<forall>c \<in> hs_contexts s'. small_hof c = 0)"
  by (rule retireall_empties [OF _ small_registry_wf]) (simp add: release_ok_def)


end
