(* ===== verification/Messages.thy ===== *)
theory Messages
  imports Prelude
begin

unbundle bit_operations_syntax

section \<open>Messages (\<open>skynet.h\<close>, \<open>skynet_mq.h\<close>, \<open>skynet_socket.h\<close>)\<close>

text \<open>
  The message that queues carry and the encoding of its type in the high byte of its size. The
  pointer \<open>data\<close> is \<open>None\<close> for \<open>NULL\<close> and otherwise the block it points to.
\<close>

record 'd skynet_message =
  msg_source :: u32
  msg_session :: int
  msg_data :: "'d option"
  msg_sz :: u64

definition MESSAGE_TYPE_MASK :: u64 where "MESSAGE_TYPE_MASK = drop_bit 8 (- 1)"
definition MESSAGE_TYPE_SHIFT :: nat where "MESSAGE_TYPE_SHIFT = 56"

definition PTYPE_TEXT :: nat where "PTYPE_TEXT = 0"
definition PTYPE_RESPONSE :: nat where "PTYPE_RESPONSE = 1"
definition PTYPE_CLIENT :: nat where "PTYPE_CLIENT = 3"
definition PTYPE_SYSTEM :: nat where "PTYPE_SYSTEM = 4"
definition PTYPE_HARBOR :: nat where "PTYPE_HARBOR = 5"
definition PTYPE_SOCKET :: nat where "PTYPE_SOCKET = 6"
definition PTYPE_ERROR :: nat where "PTYPE_ERROR = 7"
definition PTYPE_TAG_DONTCOPY :: nat where "PTYPE_TAG_DONTCOPY = 0x10000"
definition PTYPE_TAG_ALLOCSESSION :: nat where "PTYPE_TAG_ALLOCSESSION = 0x20000"

text \<open>
  What \<open>skynet_socket.c\<close> sends to the owner of a socket: the buffer is \<open>None\<close> for \<open>NULL\<close>, and \<open>sm_text\<close> is the
  text behind the structure.
\<close>

datatype socket_type =
    SKYNET_SOCKET_TYPE_DATA | SKYNET_SOCKET_TYPE_CONNECT | SKYNET_SOCKET_TYPE_CLOSE | SKYNET_SOCKET_TYPE_ACCEPT
  | SKYNET_SOCKET_TYPE_ERROR | SKYNET_SOCKET_TYPE_UDP | SKYNET_SOCKET_TYPE_WARNING

record skynet_socket_message =
  sm_type :: socket_type
  sm_id :: int
  sm_ud :: int
  sm_buffer :: "bytes option"
  sm_text :: string

text \<open>The two ways a size is packed with a type and read back.\<close>

definition pack_sz :: "nat \<Rightarrow> u64 \<Rightarrow> u64" where
  "pack_sz type sz = sz OR push_bit MESSAGE_TYPE_SHIFT (of_nat type)"

definition msg_type :: "'d skynet_message \<Rightarrow> nat" where
  "msg_type m = unat (drop_bit MESSAGE_TYPE_SHIFT (msg_sz m))"

definition msg_size :: "'d skynet_message \<Rightarrow> u64" where
  "msg_size m = msg_sz m AND MESSAGE_TYPE_MASK"

lemma TYPE_MASK_mask: "MESSAGE_TYPE_MASK = mask 56"
  by (simp add: MESSAGE_TYPE_MASK_def mask_eq_exp_minus_1)

lemma pack_sz_parts:
  assumes "sz AND MESSAGE_TYPE_MASK = sz" "type < 256"
  shows "pack_sz type sz AND MESSAGE_TYPE_MASK = sz" "drop_bit MESSAGE_TYPE_SHIFT (pack_sz type sz) = of_nat type"
proof -
  have hi: "\<not> bit sz n" if "56 \<le> n" for n
  proof -
    from assms(1) have "bit (sz AND mask 56) n = bit sz n" by (simp add: TYPE_MASK_mask)
    with that show ?thesis by (auto simp: bit_simps)
  qed
  show "pack_sz type sz AND MESSAGE_TYPE_MASK = sz"
  proof (rule bit_word_eqI)
    fix n assume "n < LENGTH(64)"
    then show "bit (pack_sz type sz AND MESSAGE_TYPE_MASK) n = bit sz n"
      using hi [of n] by (cases "56 \<le> n") (auto simp: pack_sz_def TYPE_MASK_mask MESSAGE_TYPE_SHIFT_def bit_simps)
  qed
  have small: "\<not> bit (of_nat type :: u64) n" if "8 \<le> n" for n
  proof -
    have "take_bit 8 type = type" using assms(2) by (simp add: take_bit_nat_eq_self)
    then have "bit (take_bit 8 type) n = bit type n" by simp
    with that show ?thesis by (auto simp: bit_simps)
  qed
  show "drop_bit MESSAGE_TYPE_SHIFT (pack_sz type sz) = of_nat type"
  proof (rule bit_word_eqI)
    fix n assume "n < LENGTH(64)"
    then show "bit (drop_bit MESSAGE_TYPE_SHIFT (pack_sz type sz)) n = bit (of_nat type :: u64) n"
      using hi [of "56 + n"] small [of n]
      by (cases "8 \<le> n") (auto simp: pack_sz_def MESSAGE_TYPE_SHIFT_def bit_simps)
  qed
qed

end
