(* ===== verification/Timer_Wheel.thy ===== *)
theory Timer_Wheel
  imports Messages
begin

unbundle bit_operations_syntax

section \<open>The timer wheel (\<open>skynet_timer.c\<close>)\<close>

text \<open>
  A hierarchical timing wheel: 256 near lists, one per tick, and four levels of 64 lists each. A
  linked list with its tail pointer is a list; \<open>link\<close> appends to it and \<open>link_clear\<close> takes it whole.
  The clocks of the operating system are arguments.
\<close>

subsection \<open>State\<close>

definition TIME_NEAR_SHIFT :: nat where "TIME_NEAR_SHIFT = 8"
definition TIME_NEAR :: u32 where "TIME_NEAR = push_bit TIME_NEAR_SHIFT 1"
definition TIME_LEVEL_SHIFT :: nat where "TIME_LEVEL_SHIFT = 6"
definition TIME_LEVEL :: u32 where "TIME_LEVEL = push_bit TIME_LEVEL_SHIFT 1"
definition TIME_NEAR_MASK :: u32 where "TIME_NEAR_MASK = TIME_NEAR - 1"
definition TIME_LEVEL_MASK :: u32 where "TIME_LEVEL_MASK = TIME_LEVEL - 1"

record timer_event =
  ev_handle :: u32
  ev_session :: int

record timer_node =
  node_expire :: u32
  node_event :: timer_event

record timer =
  tm_near :: "timer_node list list"
  tm_t :: "timer_node list list list"
  tm_time :: u32
  tm_starttime :: u32
  tm_current :: u64
  tm_current_point :: u64

subsection \<open>Operations\<close>

text \<open>The list that \<open>add_node\<close> links a node to.\<close>

datatype wheel_place = Near nat | Level nat nat

function find_level :: "u32 \<Rightarrow> u32 \<Rightarrow> nat \<Rightarrow> u32 \<Rightarrow> nat" where
  "find_level time current_time i m =
     (if i < 3 then
        (if time OR (m - 1) = current_time OR (m - 1) then i
         else find_level time current_time (Suc i) (push_bit TIME_LEVEL_SHIFT m))
      else i)"
  by pat_completeness auto
termination
  by (relation "measure (\<lambda>(time, current_time, i, m). 3 - i)") auto

declare find_level.simps [simp del]

definition node_place :: "u32 \<Rightarrow> u32 \<Rightarrow> wheel_place" where
  "node_place time current_time =
     (if time OR TIME_NEAR_MASK = current_time OR TIME_NEAR_MASK
      then Near (unat (time AND TIME_NEAR_MASK))
      else let i = find_level time current_time 0 (push_bit TIME_LEVEL_SHIFT TIME_NEAR)
           in Level i (unat (drop_bit (TIME_NEAR_SHIFT + i * TIME_LEVEL_SHIFT) time AND TIME_LEVEL_MASK)))"

definition link_node :: "wheel_place \<Rightarrow> timer_node \<Rightarrow> timer \<Rightarrow> timer" where
  "link_node p n T =
     (case p of
        Near k \<Rightarrow> T\<lparr>tm_near := (tm_near T)[k := tm_near T ! k @ [n]]\<rparr>
      | Level i j \<Rightarrow> T\<lparr>tm_t := (tm_t T)[i := (tm_t T ! i)[j := tm_t T ! i ! j @ [n]]]\<rparr>)"

definition add_node :: "timer_node \<Rightarrow> timer \<Rightarrow> timer" where
  "add_node n T = link_node (node_place (node_expire n) (tm_time T)) n T"

definition timer_add :: "timer_event \<Rightarrow> int \<Rightarrow> timer \<Rightarrow> timer" where
  "timer_add event time T =
     add_node \<lparr>node_expire = word_of_int time + tm_time T, node_event = event\<rparr> T"

definition move_list :: "nat \<Rightarrow> nat \<Rightarrow> timer \<Rightarrow> timer" where
  "move_list level idx T =
     fold add_node (tm_t T ! level ! idx) (T\<lparr>tm_t := (tm_t T)[level := (tm_t T ! level)[idx := []]]\<rparr>)"

text \<open>
  The loop of \<open>timer_shift\<close>: the list to move, or nothing to move. A fifth level does not exist: the
  access would be outside the array.
\<close>

function shift_level :: "u32 \<Rightarrow> u32 \<Rightarrow> u32 \<Rightarrow> nat \<Rightarrow> (nat \<times> nat) option option" where
  "shift_level ct m time i =
     (if ct AND (m - 1) = 0 then
        (let idx = unat (time AND TIME_LEVEL_MASK) in
         if idx \<noteq> 0 then (if i < 4 then Some (Some (i, idx)) else None)
         else if i < 4 then shift_level ct (push_bit TIME_LEVEL_SHIFT m) (drop_bit TIME_LEVEL_SHIFT time) (Suc i)
         else None)
      else Some None)"
  by pat_completeness auto
termination
  by (relation "measure (\<lambda>(ct, m, time, i). 4 - i)") auto

declare shift_level.simps [simp del]

definition timer_shift :: "timer \<Rightarrow> timer option" where
  "timer_shift T =
     (let ct = tm_time T + 1; T1 = T\<lparr>tm_time := ct\<rparr> in
      if ct = 0 then Some (move_list 3 0 T1)
      else do { r \<leftarrow> shift_level ct TIME_NEAR (drop_bit TIME_NEAR_SHIFT ct) 0;
                Some (case r of Some (i, idx) \<Rightarrow> move_list i idx T1 | None \<Rightarrow> T1) })"

definition timeout_message :: "int \<Rightarrow> 'd skynet_message" where
  "timeout_message session =
     \<lparr>msg_source = 0, msg_session = session, msg_data = None,
      msg_sz = push_bit MESSAGE_TYPE_SHIFT (of_nat PTYPE_RESPONSE)\<rparr>"

text \<open>\<open>dispatch_list\<close>: the arguments of its calls of \<open>skynet_context_push\<close>, in order.\<close>

definition dispatch_list :: "timer_node list \<Rightarrow> (u32 \<times> 'd skynet_message) list" where
  "dispatch_list ns = map (\<lambda>n. (ev_handle (node_event n), timeout_message (ev_session (node_event n)))) ns"

partial_function (option) timer_execute ::
  "timer \<Rightarrow> timer_node list \<Rightarrow> (timer \<times> timer_node list) option" where
  "timer_execute T fired =
     (let idx = unat (tm_time T AND TIME_NEAR_MASK) in
      do { current \<leftarrow> array_get (tm_near T) idx;
           (if current = [] then Some (T, fired)
            else timer_execute (T\<lparr>tm_near := (tm_near T)[idx := []]\<rparr>) (fired @ current)) })"

declare timer_execute.simps [code]

text \<open>One tick: the nodes it dispatches, in order, and the wheel after it.\<close>

definition timer_update :: "timer \<Rightarrow> (timer \<times> timer_node list) option" where
  "timer_update T =
     do { (T1, fired1) \<leftarrow> timer_execute T [];
          T2 \<leftarrow> timer_shift T1;
          timer_execute T2 fired1 }"

definition timer_create_timer :: timer where
  "timer_create_timer =
     \<lparr>tm_near = replicate (unat TIME_NEAR) [], tm_t = replicate 4 (replicate (unat TIME_LEVEL) []),
      tm_time = 0, tm_starttime = 0, tm_current = 0, tm_current_point = 0\<rparr>"

text \<open>
  \<open>skynet_timeout\<close>: the value it returns and the message it pushes at once, if any. \<open>push\<close> is
  \<open>skynet_context_push\<close>: whether the handle has no service.
\<close>

definition skynet_timeout ::
  "(u32 \<Rightarrow> 'd skynet_message \<Rightarrow> bool) \<Rightarrow> u32 \<Rightarrow> int \<Rightarrow> int \<Rightarrow> timer \<Rightarrow> int \<times> (u32 \<times> 'd skynet_message) list \<times> timer" where
  "skynet_timeout push_fails handle time session T =
     (if time \<le> 0 then
        (let message = timeout_message session in
         (if push_fails handle message then - 1 else session, [(handle, message)], T))
      else (session, [], timer_add \<lparr>ev_handle = handle, ev_session = session\<rparr> time T))"

text \<open>\<open>systime\<close> and \<open>gettime\<close> on what \<open>clock_gettime\<close> gives: seconds and nanoseconds.\<close>

definition systime :: "nat \<Rightarrow> nat \<Rightarrow> u32 \<times> u32" where
  "systime tv_sec tv_nsec = (of_nat tv_sec, of_nat (tv_nsec div 10000000))"

definition gettime :: "nat \<Rightarrow> nat \<Rightarrow> u64" where
  "gettime tv_sec tv_nsec = of_nat tv_sec * 100 + of_nat (tv_nsec div 10000000)"

fun timer_updates :: "nat \<Rightarrow> timer \<Rightarrow> (timer \<times> timer_node list) option" where
  "timer_updates 0 T = Some (T, [])"
| "timer_updates (Suc n) T =
     do { (T1, fired1) \<leftarrow> timer_update T; (T2, fired2) \<leftarrow> timer_updates n T1; Some (T2, fired1 @ fired2) }"

definition skynet_updatetime :: "u64 \<Rightarrow> timer \<Rightarrow> (timer \<times> timer_node list) option" where
  "skynet_updatetime cp T =
     (if cp < tm_current_point T then Some (T\<lparr>tm_current_point := cp\<rparr>, [])
      else if cp \<noteq> tm_current_point T then
        (let diff = ucast (cp - tm_current_point T) :: u32 in
         timer_updates (unat diff)
           (T\<lparr>tm_current_point := cp, tm_current := tm_current T + ucast diff\<rparr>))
      else Some (T, []))"

definition skynet_timer_init :: "nat \<Rightarrow> nat \<Rightarrow> nat \<Rightarrow> nat \<Rightarrow> timer" where
  "skynet_timer_init real_sec real_nsec mono_sec mono_nsec =
     (let (sec, cs) = systime real_sec real_nsec in
      timer_create_timer\<lparr>tm_starttime := sec, tm_current := ucast cs,
        tm_current_point := gettime mono_sec mono_nsec\<rparr>)"

subsection \<open>Where a node is, in arithmetic\<close>

definition digit :: "nat \<Rightarrow> nat \<Rightarrow> nat" where
  "digit i e = e div 2 ^ (8 + 6 * i) mod 64"

definition agree :: "nat \<Rightarrow> nat \<Rightarrow> nat \<Rightarrow> bool" where
  "agree k e t \<longleftrightarrow> e div 2 ^ k = t div 2 ^ k"

definition low_zero :: "nat \<Rightarrow> nat \<Rightarrow> bool" where
  "low_zero k c \<longleftrightarrow> c mod 2 ^ k = 0"

definition place_at :: "nat \<Rightarrow> nat \<Rightarrow> wheel_place" where
  "place_at e t =
     (if agree 8 e t then Near (e mod 2 ^ 8)
      else if agree 14 e t then Level 0 (digit 0 e)
      else if agree 20 e t then Level 1 (digit 1 e)
      else if agree 26 e t then Level 2 (digit 2 e)
      else Level 3 (digit 3 e))"

lemma or_mask_eq:
  fixes a b :: "'a :: len word"
  shows "a OR mask k = b OR mask k \<longleftrightarrow> agree k (unat a) (unat b)"
proof -
  have drop: "drop_bit k (w OR mask k) = drop_bit k w" for w :: "'a word"
    by (rule bit_word_eqI) (auto simp: bit_simps)
  have join: "push_bit k (drop_bit k w) OR mask k = w OR mask k" for w :: "'a word"
    by (rule bit_word_eqI) (auto simp: bit_simps)
  have "a OR mask k = b OR mask k \<longleftrightarrow> drop_bit k a = drop_bit k b"
    using drop [of a] drop [of b] join [of a] join [of b] by metis
  also have "\<dots> \<longleftrightarrow> unat (drop_bit k a) = unat (drop_bit k b)" by (simp only: word_unat_eq_iff)
  finally show ?thesis by (simp only: unat_drop_bit agree_def)
qed

lemma wheel_masks:
  "TIME_NEAR = 2 ^ 8" "TIME_NEAR_MASK = mask 8" "TIME_LEVEL_MASK = mask 6"
  "push_bit TIME_LEVEL_SHIFT (2 ^ n :: u32) = 2 ^ (n + 6)" "(2 ^ n :: u32) - 1 = mask n"
  by (simp_all add: TIME_NEAR_def TIME_NEAR_MASK_def TIME_LEVEL_MASK_def TIME_LEVEL_def TIME_NEAR_SHIFT_def
      TIME_LEVEL_SHIFT_def mask_eq_exp_minus_1 push_bit_eq_mult power_add)

lemma find_level_step:
  "i < 3 \<Longrightarrow> find_level e t i (2 ^ n) =
     (if agree n (unat e) (unat t) then i else find_level e t (Suc i) (2 ^ (n + 6)))"
  "find_level e t 3 m = 3"
  by (simp_all add: find_level.simps [of e t] or_mask_eq [symmetric] wheel_masks(4,5) del: push_bit_of_1)

lemma find_level_eq:
  "find_level e t 0 (push_bit TIME_LEVEL_SHIFT TIME_NEAR) =
     (if agree 14 (unat e) (unat t) then 0
      else if agree 20 (unat e) (unat t) then 1
      else if agree 26 (unat e) (unat t) then 2 else 3)"
proof -
  have "push_bit TIME_LEVEL_SHIFT TIME_NEAR = 2 ^ 14" using wheel_masks(1) wheel_masks(4) [of 8] by simp
  then show ?thesis
    using find_level_step(1) [of 0 e t 14] find_level_step(1) [of 1 e t 20] find_level_step(1) [of 2 e t 26]
      find_level_step(2) [of e t "2 ^ 32"] by (simp add: numeral_2_eq_2 numeral_3_eq_3)
qed

lemma unat_digit:
  "unat (drop_bit (TIME_NEAR_SHIFT + i * TIME_LEVEL_SHIFT) e AND TIME_LEVEL_MASK) = digit i (unat e)"
  unfolding wheel_masks unat_and_mask unat_drop_bit digit_def TIME_NEAR_SHIFT_def TIME_LEVEL_SHIFT_def
  by (simp add: mult.commute)

lemma node_place_at: "node_place e t = place_at (unat e) (unat t)"
  unfolding node_place_def find_level_eq unat_digit Let_def place_at_def
  by (simp only: wheel_masks(2) or_mask_eq unat_and_mask) simp

text \<open>The list that a tick to \<open>c\<close> moves.\<close>

definition moved_at :: "nat \<Rightarrow> (nat \<times> nat) option" where
  "moved_at c =
     (if c = 0 then Some (3, 0)
      else if \<not> low_zero 8 c then None
      else if \<not> low_zero 14 c then Some (0, digit 0 c)
      else if \<not> low_zero 20 c then Some (1, digit 1 c)
      else if \<not> low_zero 26 c then Some (2, digit 2 c)
      else Some (3, digit 3 c))"

lemma low_zero_digit:
  assumes "n = 8 + 6 * i" "n' = n + 6"
  shows "low_zero n' c \<longleftrightarrow> low_zero n c \<and> digit i c = 0"
proof -
  have "(2 :: nat) ^ n' = 2 ^ n * 64" by (simp add: assms power_add)
  then have "c mod 2 ^ n' = 2 ^ n * (c div 2 ^ n mod 64) + c mod 2 ^ n" by (simp only: mod_mult2_eq)
  then show ?thesis by (auto simp: low_zero_def digit_def assms(1))
qed

lemma low_zero_chain:
  "low_zero 14 c \<longleftrightarrow> low_zero 8 c \<and> digit 0 c = 0" "low_zero 20 c \<longleftrightarrow> low_zero 14 c \<and> digit 1 c = 0"
  "low_zero 26 c \<longleftrightarrow> low_zero 20 c \<and> digit 2 c = 0" "low_zero 32 c \<longleftrightarrow> low_zero 26 c \<and> digit 3 c = 0"
  by (rule low_zero_digit; simp)+

lemma agree_chain:
  "agree 8 e t \<Longrightarrow> agree 14 e t" "agree 14 e t \<Longrightarrow> agree 20 e t" "agree 20 e t \<Longrightarrow> agree 26 e t"
proof -
  have "agree k e t \<Longrightarrow> agree (k + 6) e t" for k by (simp add: agree_def power_add div_mult2_eq)
  from this [of 8] this [of 14] this [of 20]
  show "agree 8 e t \<Longrightarrow> agree 14 e t" "agree 14 e t \<Longrightarrow> agree 20 e t" "agree 20 e t \<Longrightarrow> agree 26 e t"
    by simp_all
qed

lemma agree_digit:
  "agree 8 e t \<Longrightarrow> digit 0 e = digit 0 t" "agree 14 e t \<Longrightarrow> digit 1 e = digit 1 t"
  "agree 20 e t \<Longrightarrow> digit 2 e = digit 2 t" "agree 26 e t \<Longrightarrow> digit 3 e = digit 3 t"
  by (simp_all add: agree_def digit_def)

lemma shift_level_step:
  assumes "i < 4" "n = 8 + 6 * i" "n' = 8 + 6 * Suc i" "j = Suc i"
  shows "shift_level ct (2 ^ n) (drop_bit n ct) i =
    (if low_zero n (unat ct) then
       (if digit i (unat ct) \<noteq> 0 then Some (Some (i, digit i (unat ct)))
        else shift_level ct (2 ^ n') (drop_bit n' ct) j)
     else Some None)"
proof -
  have "ct AND (2 ^ (8 + 6 * i) - 1) = 0 \<longleftrightarrow> low_zero (8 + 6 * i) (unat ct)"
    unfolding wheel_masks(5) low_zero_def unat_and_mask [symmetric] by (simp only: unat_eq_0)
  moreover have "unat (drop_bit (8 + 6 * i) ct AND TIME_LEVEL_MASK) = digit i (unat ct)"
    using unat_digit [of i ct] by (simp add: TIME_NEAR_SHIFT_def TIME_LEVEL_SHIFT_def mult.commute)
  moreover have "push_bit TIME_LEVEL_SHIFT (2 ^ (8 + 6 * i) :: u32) = 2 ^ (8 + 6 * Suc i)"
    using wheel_masks(4) [of "8 + 6 * i"] by (simp add: add.commute add.left_commute)
  moreover have "drop_bit TIME_LEVEL_SHIFT (drop_bit (8 + 6 * i) ct) = drop_bit (8 + 6 * Suc i) ct"
    by (simp add: TIME_LEVEL_SHIFT_def drop_bit_drop_bit add.commute add.left_commute)
  ultimately show ?thesis
    unfolding assms(2-4) shift_level.simps [of ct "2 ^ (8 + 6 * i)"] Let_def using assms(1)
    by (simp only: if_True)
qed

lemma shift_level_eq:
  assumes "ct \<noteq> 0"
  shows "shift_level ct TIME_NEAR (drop_bit TIME_NEAR_SHIFT ct) 0 = Some (moved_at (unat ct))"
proof -
  let ?c = "unat ct"
  have "?c < 2 ^ LENGTH(32)" by (rule unsigned_less)
  with assms have c: "?c \<noteq> 0" "\<not> low_zero 32 ?c" by (simp_all add: unat_eq_0 low_zero_def)
  have s: "shift_level ct (2 ^ 8) (drop_bit 8 ct) 0 = (if low_zero 8 ?c then
      if digit 0 ?c \<noteq> 0 then Some (Some (0, digit 0 ?c)) else shift_level ct (2 ^ 14) (drop_bit 14 ct) 1 else Some None)"
    "shift_level ct (2 ^ 14) (drop_bit 14 ct) 1 = (if low_zero 14 ?c then
      if digit 1 ?c \<noteq> 0 then Some (Some (1, digit 1 ?c)) else shift_level ct (2 ^ 20) (drop_bit 20 ct) 2 else Some None)"
    "shift_level ct (2 ^ 20) (drop_bit 20 ct) 2 = (if low_zero 20 ?c then
      if digit 2 ?c \<noteq> 0 then Some (Some (2, digit 2 ?c)) else shift_level ct (2 ^ 26) (drop_bit 26 ct) 3 else Some None)"
    "shift_level ct (2 ^ 26) (drop_bit 26 ct) 3 = (if low_zero 26 ?c then
      if digit 3 ?c \<noteq> 0 then Some (Some (3, digit 3 ?c)) else shift_level ct (2 ^ 32) (drop_bit 32 ct) 4 else Some None)"
    by (rule shift_level_step; simp)+
  show ?thesis
    unfolding wheel_masks(1) TIME_NEAR_SHIFT_def moved_at_def s
    using low_zero_chain [of ?c] c by auto
qed

text \<open>A node that has not expired: its distance from the time, modulo \<open>2 ^ 32\<close>, is small.\<close>

definition pending :: "nat \<Rightarrow> nat \<Rightarrow> bool" where
  "pending e t \<longleftrightarrow> e < 2 ^ 32 \<and> t < 2 ^ 32 \<and> (t < e \<and> e < t + 2 ^ 31 \<or> e + 2 ^ 32 < t + 2 ^ 31)"

lemma div_pred:
  assumes "0 < (c :: nat)"
  shows "(c - 1) div 2 ^ k = (if c mod 2 ^ k = 0 then c div 2 ^ k - 1 else c div 2 ^ k)"
  using assms div_Suc [of "c - 1" "2 ^ k"] by (cases c) (auto split: if_splits)

lemma agree_pred: "0 < c \<Longrightarrow> \<not> low_zero k c \<Longrightarrow> agree k e (c - 1) = agree k e c"
  using div_pred [of c k] by (simp only: agree_def low_zero_def if_False)

lemma agree_span: "agree k e d \<Longrightarrow> d < e + 2 ^ k"
proof -
  assume "agree k e d"
  then have "d div 2 ^ k * 2 ^ k + e mod 2 ^ k = e" by (metis agree_def div_mult_mod_eq)
  moreover have "d mod 2 ^ k < 2 ^ k" by simp
  ultimately show "d < e + 2 ^ k" using div_mult_mod_eq [of d "2 ^ k"] by linarith
qed

lemma not_behind:
  assumes "pending e (c - 1)" "0 < c" "low_zero k c" "k \<le> 26"
  shows "\<not> agree k e (c - 1)"
proof
  assume eq: "agree k e (c - 1)"
  have c: "c = c div 2 ^ k * 2 ^ k" using assms(3) div_mult_mod_eq [of c "2 ^ k"] by (simp add: low_zero_def)
  have "e div 2 ^ k < c div 2 ^ k"
    using eq assms(2,3) div_pred [of c k] c by (cases "c div 2 ^ k") (auto simp: agree_def low_zero_def)
  then have "e < c" using c by (metis less_mult_imp_div_less not_less div_le_mono)
  moreover have "(2 :: nat) ^ k \<le> 2 ^ 26" using assms(4) by (intro power_increasing) simp_all
  then have "c - 1 < e + 2 ^ 26" using agree_span [OF eq] by linarith
  ultimately show False using assms(1) by (auto simp: pending_def)
qed

text \<open>
  A tick changes the place of a pending node only if the tick moves the list that holds it: between
  two moves of its list a node stays where \<open>add_node\<close> would put it.
\<close>

lemma place_stays:
  assumes "pending e (c - 1)" "0 < c"
  shows "place_at e c = place_at e (c - 1) \<or>
    (\<exists>i j. moved_at c = Some (i, j) \<and> place_at e (c - 1) = Level i j)"
proof -
  have step: "agree k e (c - 1) \<longleftrightarrow> \<not> low_zero k c \<and> agree k e c" if "k \<le> 26" for k
    using not_behind [OF assms _ that] agree_pred [OF assms(2)] by blast
  show ?thesis
    using step [of 8] step [of 14] step [of 20] step [of 26] agree_chain [of e c] agree_digit [of e c]
      low_zero_chain [of c] assms(2)
    unfolding place_at_def moved_at_def by (auto split: if_splits)
qed

text \<open>When the time wraps to 0, only nodes of the last level can be pending.\<close>

lemma place_wraps:
  assumes "pending e (2 ^ 32 - 1)"
  shows "place_at e 0 = place_at e (2 ^ 32 - 1) \<or> place_at e (2 ^ 32 - 1) = Level 3 0"
proof -
  have no: "\<not> agree k e (2 ^ 32 - 1)" if "k \<le> 26" for k
  proof
    assume "agree k e (2 ^ 32 - 1)"
    from agree_span [OF this] have "2 ^ 32 - 1 < e + 2 ^ k" .
    moreover have "(2 :: nat) ^ k \<le> 2 ^ 26" using that by (intro power_increasing) simp_all
    ultimately show False using assms by (auto simp: pending_def)
  qed
  have "digit 3 0 = 0" by (simp add: digit_def)
  then show ?thesis
    using no [of 8] no [of 14] no [of 20] no [of 26] agree_chain [of e 0] agree_digit(4) [of e 0]
    unfolding place_at_def by (auto split: if_splits)
qed

lemma place_Near:
  assumes "place_at e t = Near (t mod 2 ^ 8)"
  shows "e = t"
proof -
  from assms have "e div 2 ^ 8 = t div 2 ^ 8" "e mod 2 ^ 8 = t mod 2 ^ 8"
    unfolding place_at_def agree_def by (simp_all only: split: if_splits) simp_all
  then show ?thesis by (metis div_mult_mod_eq)
qed

lemma digit_less: "digit i e < 64"
  by (simp add: digit_def)

lemma place_self: "place_at t t = Near (t mod 2 ^ 8)"
  by (simp add: place_at_def agree_def)

lemma place_range:
  "place_at e t = Near k \<Longrightarrow> k < 256" "place_at e t = Level i j \<Longrightarrow> i < 4 \<and> j < 64"
  using digit_less by (auto simp: place_at_def split: if_splits)

subsection \<open>The wheel holds every node at its place\<close>

definition at_place :: "timer \<Rightarrow> wheel_place \<Rightarrow> timer_node list" where
  "at_place T p = (case p of Near k \<Rightarrow> tm_near T ! k | Level i j \<Rightarrow> tm_t T ! i ! j)"

definition put_place :: "wheel_place \<Rightarrow> timer_node list \<Rightarrow> timer \<Rightarrow> timer" where
  "put_place p ns T =
     (case p of Near k \<Rightarrow> T\<lparr>tm_near := (tm_near T)[k := ns]\<rparr>
      | Level i j \<Rightarrow> T\<lparr>tm_t := (tm_t T)[i := (tm_t T ! i)[j := ns]]\<rparr>)"

definition place_ok :: "wheel_place \<Rightarrow> bool" where
  "place_ok p \<longleftrightarrow> (case p of Near k \<Rightarrow> k < 256 | Level i j \<Rightarrow> i < 4 \<and> j < 64)"

definition wheel_shape :: "timer \<Rightarrow> bool" where
  "wheel_shape T \<longleftrightarrow> length (tm_near T) = 256 \<and> length (tm_t T) = 4 \<and> (\<forall>i < 4. length (tm_t T ! i) = 64)"

text \<open>
  The nodes of one expiry time at a place, and the abstraction of the wheel: for every expiry time,
  the nodes that wait for it in the order they were added.
\<close>

definition expiring :: "timer \<Rightarrow> wheel_place \<Rightarrow> u32 \<Rightarrow> timer_node list" where
  "expiring T p e = filter (\<lambda>n. node_expire n = e) (at_place T p)"

definition due :: "timer \<Rightarrow> u32 \<Rightarrow> timer_node list" where
  "due T e = expiring T (node_place e (tm_time T)) e"

definition in_place :: "timer \<Rightarrow> bool" where
  "in_place T \<longleftrightarrow> (\<forall>p e. place_ok p \<longrightarrow> p \<noteq> node_place e (tm_time T) \<longrightarrow> expiring T p e = [])"

definition timer_wf :: "timer \<Rightarrow> bool" where
  "timer_wf T \<longleftrightarrow> wheel_shape T \<and> in_place T \<and> (\<forall>e. due T e \<noteq> [] \<longrightarrow> pending (unat e) (unat (tm_time T)))"

lemma node_place_ok: "place_ok (node_place e t)"
  using place_range [of "unat e" "unat t"]
  by (cases "place_at (unat e) (unat t)") (simp_all add: node_place_at place_ok_def)

lemma at_put:
  assumes "wheel_shape T" "place_ok p"
  shows "at_place (put_place p ns T) q = (if q = p then ns else at_place T q)"
  using assms by (auto simp: at_place_def put_place_def place_ok_def wheel_shape_def nth_list_update
      split: wheel_place.splits)

lemma put_shape: "wheel_shape T \<Longrightarrow> place_ok p \<Longrightarrow> wheel_shape (put_place p ns T)"
  by (auto simp: put_place_def place_ok_def wheel_shape_def nth_list_update split: wheel_place.splits)

lemma put_fields [simp]:
  "tm_time (put_place p ns T) = tm_time T" "tm_current (put_place p ns T) = tm_current T"
  "tm_current_point (put_place p ns T) = tm_current_point T"
  by (simp_all add: put_place_def split: wheel_place.splits)

lemma time_fields [simp]:
  "wheel_shape (T\<lparr>tm_time := t\<rparr>) = wheel_shape T" "at_place (T\<lparr>tm_time := t\<rparr>) p = at_place T p"
  by (simp_all add: wheel_shape_def at_place_def split: wheel_place.splits)

lemma add_node_put:
  "add_node n T = (let p = node_place (node_expire n) (tm_time T) in put_place p (at_place T p @ [n]) T)"
  by (simp add: add_node_def link_node_def put_place_def at_place_def Let_def split: wheel_place.splits)

lemma add_node_result:
  assumes "wheel_shape T" "in_place T"
  shows "wheel_shape (add_node n T) \<and> in_place (add_node n T) \<and> tm_time (add_node n T) = tm_time T \<and>
    due (add_node n T) = (due T)(node_expire n := due T (node_expire n) @ [n])"
proof -
  note ok = node_place_ok [of "node_expire n" "tm_time T"]
  note put = at_put [OF assms(1) ok] put_shape [OF assms(1) ok]
  have "due (add_node n T) e = ((due T)(node_expire n := due T (node_expire n) @ [n])) e" for e
    using put by (auto simp: due_def expiring_def add_node_put Let_def)
  moreover have "in_place (add_node n T)"
    using assms(2) put by (auto simp: in_place_def expiring_def add_node_put Let_def)
  ultimately show ?thesis using put(2) by (auto simp: add_node_put Let_def)
qed

lemma add_nodes_result:
  assumes "wheel_shape T" "in_place T"
  shows "wheel_shape (fold add_node ns T) \<and> in_place (fold add_node ns T) \<and>
    tm_time (fold add_node ns T) = tm_time T \<and>
    (\<forall>e. due (fold add_node ns T) e = due T e @ filter (\<lambda>n. node_expire n = e) ns)"
  using assms
proof (induction ns arbitrary: T)
  case (Cons n ns)
  from Cons.IH [of "add_node n T"] add_node_result [OF Cons.prems, of n] show ?case by auto
qed simp

text \<open>
  Advancing the time and moving one list, when every node of the other lists is where its new place
  is.
\<close>

lemma move_list_result:
  assumes shape: "wheel_shape T" and inp: "in_place T" and ok: "place_ok (Level i j)"
    and stay: "\<And>e. due T e \<noteq> [] \<Longrightarrow> node_place e (tm_time T) \<noteq> Level i j \<Longrightarrow>
      node_place e c = node_place e (tm_time T)"
  defines "T' \<equiv> move_list i j (T\<lparr>tm_time := c\<rparr>)"
  shows "wheel_shape T' \<and> in_place T' \<and> tm_time T' = c \<and> due T' = due T"
proof -
  let ?p = "Level i j"
  define S where "S = put_place ?p [] (T\<lparr>tm_time := c\<rparr>)"
  have T': "T' = fold add_node (at_place T ?p) S"
    by (simp add: T'_def move_list_def S_def put_place_def at_place_def)
  have S: "wheel_shape S" "tm_time S = c" "\<And>q. at_place S q = (if q = ?p then [] else at_place T q)"
    using shape ok put_shape [of "T\<lparr>tm_time := c\<rparr>" ?p] at_put [of "T\<lparr>tm_time := c\<rparr>" ?p] by (auto simp: S_def)
  have other: "expiring T q e = []" if "place_ok q" "q \<noteq> node_place e (tm_time T)" for q e
    using inp that by (simp add: in_place_def)
  have "in_place S" unfolding in_place_def
  proof (intro allI impI)
    fix q e assume q: "place_ok q" "q \<noteq> node_place e (tm_time S)"
    show "expiring S q e = []"
    proof (cases "q = node_place e (tm_time T) \<and> q \<noteq> ?p")
      case True
      with q stay [of e] S(2) show ?thesis by (auto simp: due_def expiring_def S(3))
    next
      case False
      with other [OF q(1), of e] show ?thesis by (auto simp: expiring_def S(3))
    qed
  qed
  note res = add_nodes_result [OF S(1) this, of "at_place T ?p"]
  have "due S e @ expiring T ?p e = due T e" for e
  proof (cases "node_place e (tm_time T) = ?p")
    case True
    with other [OF node_place_ok, of e c e] show ?thesis
      by (auto simp: due_def expiring_def S(2,3))
  next
    case False
    show ?thesis
    proof (cases "node_place e c = node_place e (tm_time T)")
      case True
      with False other [OF ok, of e] show ?thesis by (simp add: due_def expiring_def S(2,3))
    next
      case moved: False
      with False stay [of e] have "due T e = []" by blast
      with False other [OF ok, of e] other [OF node_place_ok moved] show ?thesis
        by (auto simp: due_def expiring_def S(2,3))
    qed
  qed
  with res S(2) show ?thesis by (auto simp: T' expiring_def)
qed

lemma unat_before_zero: "t + 1 = 0 \<Longrightarrow> unat (t :: u32) = 2 ^ 32 - 1"
proof -
  assume "t + 1 = 0"
  then have "t = - 1" by (simp only: eq_neg_iff_add_eq_0)
  then show ?thesis by (simp add: unsigned_minus_1_eq_mask mask_eq_exp_minus_1)
qed

lemma pending_step:
  fixes e t :: u32
  assumes "pending (unat e) (unat t)" "e \<noteq> t + 1"
  shows "pending (unat e) (unat (t + 1))"
proof (cases "t + 1 = 0")
  case True
  then have "unat t = 2 ^ 32 - 1" by (rule unat_before_zero)
  moreover from True assms(2) have "unat e \<noteq> 0" by (simp add: unat_eq_0)
  ultimately show ?thesis using assms(1) True by (auto simp: pending_def)
next
  case False
  then have t: "unat (t + 1) = unat t + 1" by (metis Suc_eq_plus1 add.commute unatSuc)
  have "unat e \<noteq> unat (t + 1)" using assms(2) by (metis word_unat_eq_iff)
  moreover have "unat (t + 1) < 2 ^ LENGTH(32)" by (rule unsigned_less)
  ultimately show ?thesis using assms(1) unfolding t pending_def by auto
qed

lemma place_step:
  assumes "pending (unat e) (unat t)"
  shows "node_place e (t + 1) = node_place e t \<or>
    (\<exists>i j. moved_at (unat (t + 1)) = Some (i, j) \<and> node_place e t = Level i j)"
proof (cases "t + 1 = 0")
  case True
  then have "unat t = 2 ^ 32 - 1" by (rule unat_before_zero)
  with True place_wraps [of "unat e"] assms show ?thesis by (auto simp: node_place_at moved_at_def)
next
  case False
  then have t: "unat t = unat (t + 1) - 1" "0 < unat (t + 1)"
    by (metis Suc_eq_plus1 add.commute add_diff_cancel_right' unatSuc, simp add: unat_gt_0)
  from place_stays [of "unat e" "unat (t + 1)"] assms t show ?thesis by (simp add: node_place_at)
qed

lemma moved_ok: "moved_at c = Some (i, j) \<Longrightarrow> place_ok (Level i j)"
  using digit_less by (auto simp: moved_at_def place_ok_def split: if_splits)

lemma timer_shift_moved:
  "timer_shift T = Some (let T1 = T\<lparr>tm_time := tm_time T + 1\<rparr> in
     case moved_at (unat (tm_time T + 1)) of Some (i, j) \<Rightarrow> move_list i j T1 | None \<Rightarrow> T1)"
  using shift_level_eq [of "tm_time T + 1"]
  by (cases "tm_time T + 1 = 0") (simp_all add: timer_shift_def Let_def moved_at_def)

lemma timer_shift_result:
  assumes "timer_wf T"
  shows "\<exists>T'. timer_shift T = Some T' \<and> wheel_shape T' \<and> in_place T' \<and>
    tm_time T' = tm_time T + 1 \<and> due T' = due T"
proof -
  let ?c = "tm_time T + 1"
  from assms have T: "wheel_shape T" "in_place T"
    "\<And>e. due T e \<noteq> [] \<Longrightarrow> pending (unat e) (unat (tm_time T))" by (simp_all add: timer_wf_def)
  note step = place_step [OF T(3)]
  show ?thesis
  proof (cases "moved_at (unat ?c)")
    case None
    let ?T = "T\<lparr>tm_time := ?c\<rparr>"
    have stay: "node_place e ?c = node_place e (tm_time T)" if "due T e \<noteq> []" for e
      using step [OF that] None by simp
    have only: "expiring T q e = []" if "place_ok q" "due T e = [] \<or> q \<noteq> node_place e (tm_time T)" for q e
      using T(2) that by (cases "q = node_place e (tm_time T)") (auto simp: in_place_def due_def)
    have "expiring ?T q e = []" if "place_ok q" "q \<noteq> node_place e ?c" for q e
      using only [OF that(1), of e] stay [of e] that(2)
      by (cases "due T e = []") (auto simp: expiring_def)
    moreover have "due ?T e = due T e" for e
      using only [OF node_place_ok, of e e ?c] stay [of e]
      by (cases "due T e = []") (auto simp: due_def expiring_def)
    ultimately show ?thesis
      using T(1) None by (auto simp: timer_shift_moved in_place_def)
  next
    case (Some ij)
    obtain i j where ij: "ij = (i, j)" by (cases ij)
    have "node_place e ?c = node_place e (tm_time T)"
      if "due T e \<noteq> []" "node_place e (tm_time T) \<noteq> Level i j" for e
      using step [OF that(1)] that(2) Some ij by auto
    from move_list_result [OF T(1,2) moved_ok this] Some ij show ?thesis
      by (auto simp: timer_shift_moved Let_def)
  qed
qed

lemma near_now: "node_place t t = Near (unat (t AND TIME_NEAR_MASK))"
  by (simp add: node_place_def)

lemma timer_execute_eq:
  fixes T
  defines "idx \<equiv> unat (tm_time T AND TIME_NEAR_MASK)"
  assumes "idx < length (tm_near T)"
  shows "timer_execute T fired = Some (T\<lparr>tm_near := (tm_near T)[idx := []]\<rparr>, fired @ tm_near T ! idx)"
proof (cases "tm_near T ! idx = []")
  case True
  then have "(tm_near T)[idx := []] = tm_near T" by (metis list_update_id)
  with True assms(2) show ?thesis by (simp add: timer_execute.simps [of T] idx_def)
next
  case False
  let ?T = "T\<lparr>tm_near := (tm_near T)[idx := []]\<rparr>"
  have "timer_execute T fired = timer_execute ?T (fired @ tm_near T ! idx)"
    using False assms(2) by (simp add: timer_execute.simps [of T] idx_def Let_def)
  also have "\<dots> = Some (?T, fired @ tm_near T ! idx)"
    using assms(2) by (subst timer_execute.simps) (simp add: idx_def [symmetric])
  finally show ?thesis .
qed

text \<open>Executing takes exactly the nodes that expire now, in the order they were added.\<close>

lemma timer_execute_result:
  assumes "wheel_shape T" "in_place T"
  shows "\<exists>T'. timer_execute T fired = Some (T', fired @ due T (tm_time T)) \<and> wheel_shape T' \<and> in_place T' \<and>
    tm_time T' = tm_time T \<and> due T' = (due T)(tm_time T := [])"
proof -
  let ?t = "tm_time T"
  let ?idx = "unat (?t AND TIME_NEAR_MASK)"
  let ?T = "put_place (Near ?idx) [] T"
  have ok: "place_ok (Near ?idx)" using node_place_ok [of ?t ?t] by (simp only: near_now)
  note put = at_put [OF assms(1) ok] put_shape [OF assms(1) ok]
  have here: "node_expire n = ?t" if "n \<in> set (at_place T (Near ?idx))" for n
  proof -
    have "expiring T (Near ?idx) (node_expire n) \<noteq> []" using that by (auto simp: expiring_def filter_empty_conv)
    with assms(2) ok have "node_place (node_expire n) ?t = Near ?idx" by (metis in_place_def)
    then show ?thesis unfolding node_place_at near_now [symmetric]
      using place_Near [of "unat (node_expire n)" "unat ?t"] place_self [of "unat ?t"] by (metis word_unat_eq_iff)
  qed
  then have now: "due T ?t = at_place T (Near ?idx)"
    by (auto simp: due_def expiring_def near_now intro: filter_True)
  have idx: "?idx < length (tm_near T)" using ok assms(1) by (simp add: place_ok_def wheel_shape_def)
  have T': "?T = T\<lparr>tm_near := (tm_near T)[?idx := []]\<rparr>" by (simp add: put_place_def)
  have "timer_execute T fired = Some (?T, fired @ tm_near T ! ?idx)"
    unfolding T' using idx by (rule timer_execute_eq)
  moreover have "due ?T e = ((due T)(?t := [])) e" for e
    using put(1) here by (auto simp: due_def expiring_def near_now filter_empty_conv)
  moreover have "in_place ?T" using assms(2) put(1) by (auto simp: in_place_def expiring_def)
  ultimately show ?thesis using put(2) now by (auto simp: at_place_def)
qed

subsection \<open>The wheel implements a table of expiry times\<close>

text \<open>
  The specification: a clock and, for every time, the nodes that wait for it. Adding appends to the
  row of the expiry time; a tick advances the clock and fires the row of the new time, nothing else.
\<close>

type_synonym schedule = "u32 \<times> (u32 \<Rightarrow> timer_node list)"

definition schedule_of :: "timer \<Rightarrow> schedule" where
  "schedule_of T = (tm_time T, due T)"

definition spec_add :: "timer_event \<Rightarrow> int \<Rightarrow> schedule \<Rightarrow> schedule" where
  "spec_add event time = (\<lambda>(now, rows).
     let e = word_of_int time + now in
     (now, rows(e := rows e @ [\<lparr>node_expire = e, node_event = event\<rparr>])))"

definition spec_tick :: "schedule \<Rightarrow> schedule \<times> timer_node list" where
  "spec_tick = (\<lambda>(now, rows). ((now + 1, rows(now + 1 := [])), rows (now + 1)))"

lemma unat_delay:
  assumes "0 < d" "d < 2 ^ 31"
  shows "unat (word_of_int d + t :: u32) = (if unat t + nat d < 2 ^ 32 then unat t + nat d else unat t + nat d - 2 ^ 32)"
proof -
  have t: "unat t < 2 ^ LENGTH(32)" by (rule unsigned_less)
  have "unat (word_of_int d :: u32) = nat d"
    using assms by (simp add: unat_eq_nat_uint uint_word_of_int_eq take_bit_int_eq_self)
  then have "unat (word_of_int d + t :: u32) = (unat t + nat d) mod 2 ^ LENGTH(32)"
    by (simp only: unat_word_ariths add.commute)
  moreover have "unat t + nat d < 2 ^ 32 + 2 ^ 32" using t assms by simp
  ultimately show ?thesis
    using le_mod_geq [of "2 ^ 32" "unat t + nat d"] mod_less [of "unat t + nat d - 2 ^ 32" "2 ^ 32"]
    by (cases "unat t + nat d < 2 ^ 32") simp_all
qed

lemma pending_delay: "0 < d \<Longrightarrow> d < 2 ^ 31 \<Longrightarrow> pending (unat (word_of_int d + t :: u32)) (unat t)"
  using unat_delay [of d t] unsigned_less [of t, where ?'a = nat] by (simp add: pending_def) linarith

lemma timer_add_refines:
  assumes "timer_wf T" "0 < d" "d < 2 ^ 31"
  shows "timer_wf (timer_add event d T) \<and> schedule_of (timer_add event d T) = spec_add event d (schedule_of T)"
proof -
  from assms(1) have T: "wheel_shape T" "in_place T"
    "\<And>e. due T e \<noteq> [] \<Longrightarrow> pending (unat e) (unat (tm_time T))" by (simp_all add: timer_wf_def)
  from add_node_result [OF T(1,2)] T(3) pending_delay [OF assms(2,3), of "tm_time T"] show ?thesis
    by (simp add: timer_wf_def timer_add_def schedule_of_def spec_add_def Let_def)
qed

lemma pending_irrefl: "\<not> pending t t"
  by (simp add: pending_def)

lemma timer_update_refines:
  assumes "timer_wf T"
  shows "\<exists>T' fired. timer_update T = Some (T', fired) \<and> timer_wf T' \<and>
    spec_tick (schedule_of T) = (schedule_of T', fired)"
proof -
  from assms have T: "wheel_shape T" "in_place T"
    "\<And>e. due T e \<noteq> [] \<Longrightarrow> pending (unat e) (unat (tm_time T))" by (simp_all add: timer_wf_def)
  have none: "due T (tm_time T) = []" using T(3) pending_irrefl by blast
  from timer_execute_result [OF T(1,2), of "[]"] none obtain T1 where
    T1: "timer_execute T [] = Some (T1, [])" "wheel_shape T1" "in_place T1" "tm_time T1 = tm_time T"
      "due T1 = due T" by (auto simp: fun_upd_idem)
  then have "timer_wf T1" using T(3) by (simp add: timer_wf_def)
  from timer_shift_result [OF this] T1(4,5) obtain T2 where
    T2: "timer_shift T1 = Some T2" "wheel_shape T2" "in_place T2" "tm_time T2 = tm_time T + 1"
      "due T2 = due T" by auto
  from timer_execute_result [OF T2(2,3), of "[]"] T2(4,5) obtain T3 where
    T3: "timer_execute T2 [] = Some (T3, due T (tm_time T + 1))" "wheel_shape T3" "in_place T3"
      "tm_time T3 = tm_time T + 1" "due T3 = (due T)(tm_time T + 1 := [])" by auto
  have "timer_wf T3" using T3 T(3) pending_step by (simp add: timer_wf_def)
  then show ?thesis using T1(1) T2(1) T3 by (auto simp: timer_update_def spec_tick_def schedule_of_def)
qed

lemma timer_updates_append:
  "timer_updates (m + n) T =
     do { (T1, f1) \<leftarrow> timer_updates m T; (T2, f2) \<leftarrow> timer_updates n T1; Some (T2, f1 @ f2) }"
proof (induction m arbitrary: T)
  case (Suc m)
  show ?case by (cases "timer_update T") (auto simp: Suc.IH bind_eq_Some_conv Option.bind_assoc split_def)
qed (auto simp: split_def)

lemma tick_distinct:
  assumes "j < 2 ^ 32" "k < 2 ^ 32" "(t :: u32) + of_nat j = t + of_nat k"
  shows "j = k"
  using assms by (simp add: word_of_nat_eq_iff take_bit_nat_eq_self)

text \<open>
  \<open>n\<close> ticks fire the rows of the next \<open>n\<close> times, in the order of the times, and leave the other rows.
\<close>

lemma timer_updates_result:
  assumes "timer_wf T" "n < 2 ^ 32"
  shows "\<exists>T'. timer_updates n T = Some (T', concat (map (\<lambda>k. due T (tm_time T + of_nat k)) [1..<Suc n])) \<and>
    timer_wf T' \<and> tm_time T' = tm_time T + of_nat n \<and>
    due T' = (\<lambda>e. if \<exists>k \<in> {1..n}. e = tm_time T + of_nat k then [] else due T e)"
  using assms(2)
proof (induction n)
  case 0
  then show ?case using assms(1) by simp
next
  case (Suc n)
  then obtain T1 where T1: "timer_updates n T =
      Some (T1, concat (map (\<lambda>k. due T (tm_time T + of_nat k)) [1..<Suc n]))"
    "timer_wf T1" "tm_time T1 = tm_time T + of_nat n"
    "due T1 = (\<lambda>e. if \<exists>k \<in> {1..n}. e = tm_time T + of_nat k then [] else due T e)" by auto
  have next1: "tm_time T1 + 1 = tm_time T + of_nat (Suc n)" using T1(3) by (simp add: add.assoc add.commute)
  have "tm_time T + of_nat (Suc n) \<noteq> tm_time T + of_nat k" if "k \<in> {1..n}" for k
    using tick_distinct [of "Suc n" k "tm_time T"] that Suc.prems by auto
  then have row: "due T1 (tm_time T + of_nat (Suc n)) = due T (tm_time T + of_nat (Suc n))"
    unfolding T1(4) by auto
  from timer_update_refines [OF T1(2)] obtain T2 fired where
    u: "timer_update T1 = Some (T2, fired)" "timer_wf T2" "spec_tick (schedule_of T1) = (schedule_of T2, fired)"
    by blast
  from u(3) have T2: "fired = due T (tm_time T + of_nat (Suc n))"
      "tm_time T2 = tm_time T + of_nat (Suc n)" "due T2 = (due T1)(tm_time T + of_nat (Suc n) := [])"
    unfolding spec_tick_def schedule_of_def prod.case next1 row prod.inject by (metis+)
  have "timer_updates (Suc n) T = Some (T2, concat (map (\<lambda>k. due T (tm_time T + of_nat k)) [1..<Suc (Suc n)]))"
    using timer_updates_append [of n 1 T] T1(1) u(1) T2(1) by (simp del: of_nat_Suc)
  moreover have "due T2 = (\<lambda>e. if \<exists>k \<in> {1..Suc n}. e = tm_time T + of_nat k then [] else due T e)"
  proof -
    have "{1..Suc n} = insert (Suc n) {1..n}" by auto
    then show ?thesis unfolding T2(3) T1(4) by (auto simp: fun_eq_iff simp del: of_nat_Suc)
  qed
  ultimately show ?case using T2(2) u(2) by blast
qed

lemma create_wf: "timer_wf (timer_create_timer)" "due timer_create_timer e = []"
proof -
  have at: "place_ok p \<Longrightarrow> at_place timer_create_timer p = []" for p
    by (cases p) (simp_all add: at_place_def timer_create_timer_def place_ok_def TIME_NEAR_def TIME_LEVEL_def
        TIME_NEAR_SHIFT_def TIME_LEVEL_SHIFT_def)
  then have empty: "place_ok p \<Longrightarrow> expiring timer_create_timer p e = []" for p e by (simp add: expiring_def)
  then show "due timer_create_timer e = []" for e by (simp add: due_def node_place_ok)
  with empty show "timer_wf timer_create_timer"
    by (simp add: timer_wf_def in_place_def wheel_shape_def timer_create_timer_def TIME_NEAR_def TIME_LEVEL_def
        TIME_NEAR_SHIFT_def TIME_LEVEL_SHIFT_def)
qed

subsection \<open>Timers added while the wheel is dispatching\<close>

text \<open>
  The timer thread releases the lock while it dispatches, and any thread may add a timer then. A
  state is where the timer thread is without the lock, the wheel, and the log of the nodes fired with
  the times at which they were.
\<close>

datatype timer_pc = Idle | Firing1 | Firing2

definition take_near :: "timer \<Rightarrow> timer_node list \<times> timer" where
  "take_near T =
     (let idx = unat (tm_time T AND TIME_NEAR_MASK)
      in (tm_near T ! idx, T\<lparr>tm_near := (tm_near T)[idx := []]\<rparr>))"

type_synonym timer_state = "timer_pc \<times> timer \<times> (u32 \<times> timer_node) list"

inductive timer_step :: "timer_state \<Rightarrow> timer_state \<Rightarrow> bool" where
  step_add: "0 < d \<Longrightarrow> d < 2 ^ 31 \<Longrightarrow> timer_step (pc, T, log) (pc, timer_add event d T, log)"
| step_fire1: "pc \<noteq> Firing2 \<Longrightarrow> take_near T = (ns, T') \<Longrightarrow> ns \<noteq> [] \<Longrightarrow>
    timer_step (pc, T, log) (Firing1, T', log @ map (Pair (tm_time T)) ns)"
| step_shift: "pc \<noteq> Firing2 \<Longrightarrow> fst (take_near T) = [] \<Longrightarrow> timer_shift T = Some T1 \<Longrightarrow> take_near T1 = (ns, T') \<Longrightarrow>
    timer_step (pc, T, log)
      (if ns = [] then Idle else Firing2, T', log @ map (Pair (tm_time T1)) ns)"
| step_fire2: "take_near T = (ns, T') \<Longrightarrow> ns \<noteq> [] \<Longrightarrow>
    timer_step (Firing2, T, log) (Firing2, T', log @ map (Pair (tm_time T)) ns)"
| step_done: "fst (take_near T) = [] \<Longrightarrow> timer_step (Firing2, T, log) (Idle, T, log)"

inductive timer_reach :: "timer_state \<Rightarrow> bool" where
  reach_init: "timer_reach (Idle, timer_create_timer, [])"
| reach_step: "timer_reach s \<Longrightarrow> timer_step s s' \<Longrightarrow> timer_reach s'"

lemma take_near_result:
  assumes "wheel_shape T" "in_place T" "take_near T = (ns, T')"
  shows "ns = due T (tm_time T)" "wheel_shape T'" "in_place T'" "tm_time T' = tm_time T"
    "due T' = (due T)(tm_time T := [])"
proof -
  let ?idx = "unat (tm_time T AND TIME_NEAR_MASK)"
  let ?T = "T\<lparr>tm_near := (tm_near T)[?idx := []]\<rparr>"
  have T': "T' = ?T" "ns = tm_near T ! ?idx" using assms(3) by (auto simp: take_near_def Let_def)
  have "?idx < length (tm_near T)"
    using node_place_ok [of "tm_time T" "tm_time T"] assms(1) by (simp add: near_now place_ok_def wheel_shape_def)
  then have "timer_execute T [] = Some (?T, tm_near T ! ?idx)" by (simp add: timer_execute_eq)
  with timer_execute_result [OF assms(1,2), of "[]"] T'
  show "ns = due T (tm_time T)" "wheel_shape T'" "in_place T'" "tm_time T' = tm_time T"
    "due T' = (due T)(tm_time T := [])" by auto
qed

definition timer_inv :: "timer_state \<Rightarrow> bool" where
  "timer_inv = (\<lambda>(pc, T, log). pc \<noteq> Firing1 \<and> timer_wf T \<and> (\<forall>(t, n) \<in> set log. node_expire n = t))"

lemma due_expire: "n \<in> set (due T e) \<Longrightarrow> node_expire n = e"
  by (simp add: due_def expiring_def)

lemma wf_now: "timer_wf T \<Longrightarrow> due T (tm_time T) = []"
  using pending_irrefl by (auto simp: timer_wf_def)

lemma take_near_wf: "timer_wf T \<Longrightarrow> fst (take_near T) = []"
  using take_near_result(1) [of T "fst (take_near T)" "snd (take_near T)"] wf_now
  by (simp add: timer_wf_def)

lemma timer_inv_step:
  assumes "timer_step s s'" "timer_inv s"
  shows "timer_inv s'"
  using assms
proof cases
  case (step_add d pc T log event)
  with assms(2) timer_add_refines [of T d event] show ?thesis by (auto simp: timer_inv_def)
next
  case (step_shift pc T T1 ns T' log)
  with assms(2) have wf: "timer_wf T" by (simp add: timer_inv_def)
  from timer_shift_result [OF this] step_shift(5) have T1: "wheel_shape T1" "in_place T1"
    "tm_time T1 = tm_time T + 1" "due T1 = due T" by auto
  note T' = take_near_result [OF T1(1,2) step_shift(6)]
  have "timer_wf T'"
    using T' T1(3,4) wf pending_step by (auto simp: timer_wf_def)
  moreover have "\<forall>(t, n) \<in> set (log @ map (Pair (tm_time T1)) ns). node_expire n = t"
    using assms(2) step_shift(1) T'(1) due_expire by (auto simp: timer_inv_def)
  ultimately show ?thesis using step_shift(2) by (simp add: timer_inv_def)
next
  case (step_fire1 pc T ns T' log)
  with assms(2) take_near_wf [of T] show ?thesis by (simp add: timer_inv_def)
next
  case (step_fire2 T ns T' log)
  with assms(2) take_near_wf [of T] show ?thesis by (simp add: timer_inv_def)
next
  case (step_done T log)
  with assms(2) show ?thesis by (simp add: timer_inv_def)
qed

lemma timer_reach_inv: "timer_reach s \<Longrightarrow> timer_inv s"
proof (induction rule: timer_reach.induct)
  case reach_init
  show ?case by (simp add: timer_inv_def create_wf)
next
  case (reach_step s s')
  then show ?case using timer_inv_step by blast
qed

subsection \<open>Properties\<close>

text \<open>C19. The wheel refines the table of expiry times: a tick never fails, advances the time by one
  (wrapping at 2^32), fires exactly the nodes whose expiry is the new time, in the order they were
  added, and keeps every other node for its own time.\<close>

theorem timer_tick_refines:
  assumes "timer_wf T"
  shows "\<exists>T' fired. timer_update T = Some (T', fired) \<and> timer_wf T' \<and>
    spec_tick (schedule_of T) = (schedule_of T', fired)"
  by (rule timer_update_refines [OF assms])

definition sample_timer :: timer where
  "sample_timer = timer_add \<lparr>ev_handle = 9, ev_session = 2\<rparr> 300
     (timer_add \<lparr>ev_handle = 8, ev_session = 1\<rparr> 5 (timer_create_timer))"

lemma sample_wf: "timer_wf sample_timer"
  unfolding sample_timer_def by (intro timer_add_refines [THEN conjunct1] create_wf) simp_all

theorem timer_tick_refines_witness:
  "\<exists>T' fired. timer_update sample_timer = Some (T', fired) \<and> timer_wf T' \<and>
    spec_tick (schedule_of sample_timer) = (schedule_of T', fired)"
  by (rule timer_tick_refines [OF sample_wf])

text \<open>C20. A timeout of \<open>d\<close> ticks fires exactly at the \<open>d\<close>-th tick: the earlier ticks fire what they would
  have fired without it, and the \<open>d\<close>-th tick fires it after the nodes that were already waiting for
  that time. This holds across every move between levels and across the wrap of the 32-bit time.\<close>

theorem timeout_fires_on_time:
  assumes "timer_wf T" "0 < d" "d < 2 ^ 31"
  shows "\<exists>T1 fired1 T2. timer_updates (nat d - 1) (timer_add event d T) = Some (T1, fired1) \<and>
    map_option snd (timer_updates (nat d - 1) T) = Some fired1 \<and>
    timer_update T1 = Some (T2, due T (tm_time T + word_of_int d) @
      [\<lparr>node_expire = tm_time T + word_of_int d, node_event = event\<rparr>]) \<and>
    due T2 (tm_time T + word_of_int d) = []"
proof -
  let ?e = "tm_time T + word_of_int d"
  obtain n where n: "nat d = Suc n" "nat d - 1 = n" "n < 2 ^ 31" using assms(2,3) by (cases "nat d") auto
  let ?node = "\<lparr>node_expire = ?e, node_event = event\<rparr>"
  define A where "A = timer_add event d T"
  from timer_add_refines [OF assms, of event] have A: "timer_wf A" "tm_time A = tm_time T"
    "due A = (due T)(?e := due T ?e @ [?node])"
    by (simp_all add: A_def schedule_of_def spec_add_def Let_def add.commute)
  have n32: "n < 2 ^ 32" using n(3) by simp
  have e: "?e = tm_time T + of_nat (Suc n)" using assms(2) by (simp add: n(1) [symmetric] del: of_nat_Suc)
  have apart: "?e \<noteq> tm_time T + of_nat k" if "k \<in> {1..n}" for k
    unfolding e using tick_distinct [of "Suc n" k "tm_time T"] that n(3) by auto
  have other: "due A (tm_time T + of_nat k) = due T (tm_time T + of_nat k)" if "k \<in> {1..n}" for k
    using apart [OF that] by (simp add: A(3))
  then have rows: "map (\<lambda>k. due A (tm_time T + of_nat k)) [1..<Suc n] = map (\<lambda>k. due T (tm_time T + of_nat k)) [1..<Suc n]"
    by (intro map_cong refl) auto
  from timer_updates_result [OF A(1) n32] obtain T1 where
    T1: "timer_updates n A = Some (T1, concat (map (\<lambda>k. due T (tm_time T + of_nat k)) [1..<Suc n]))"
      "timer_wf T1" "tm_time T1 = tm_time T + of_nat n"
      "due T1 = (\<lambda>f. if \<exists>k \<in> {1..n}. f = tm_time T + of_nat k then [] else due A f)"
    unfolding A(2) rows by blast
  have t1: "tm_time T1 + 1 = ?e" unfolding e T1(3) by (simp add: add.assoc add.commute)
  have due1: "due T1 ?e = due T ?e @ [?node]" using apart by (auto simp: T1(4) A(3))
  from timer_update_refines [OF T1(2)] obtain T2 where
    "timer_update T1 = Some (T2, due T ?e @ [?node])" "due T2 ?e = []"
    by (auto simp: spec_tick_def schedule_of_def t1 due1 wf_now)
  moreover have "map_option snd (timer_updates n T) = Some (concat (map (\<lambda>k. due T (tm_time T + of_nat k)) [1..<Suc n]))"
    using timer_updates_result [OF assms(1) n32] by auto
  ultimately show ?thesis unfolding n(2) A_def [symmetric] using T1(1) by blast
qed

theorem timeout_fires_on_time_witness:
  "\<exists>T1 fired1 T2. timer_updates 299 (timer_add \<lparr>ev_handle = 7, ev_session = 3\<rparr> 300 sample_timer) = Some (T1, fired1) \<and>
    map_option snd (timer_updates 299 sample_timer) = Some fired1 \<and>
    timer_update T1 = Some (T2, due sample_timer (tm_time sample_timer + 300) @
      [\<lparr>node_expire = tm_time sample_timer + 300, node_event = \<lparr>ev_handle = 7, ev_session = 3\<rparr>\<rparr>]) \<and>
    due T2 (tm_time sample_timer + 300) = []"
  using timeout_fires_on_time [OF sample_wf, of 300 "\<lparr>ev_handle = 7, ev_session = 3\<rparr>"] by simp

text \<open>\<open>skynet_updatetime\<close>: a clock that went back moves the reference point and fires nothing; a
  clock that went on by \<open>k\<close> centiseconds advances the wheel and the current time by \<open>k\<close> and fires the
  nodes of the next \<open>k\<close> times in their order.\<close>

theorem updatetime_fires_elapsed:
  assumes "timer_wf T" "unat (cp - tm_current_point T) < 2 ^ 32"
  shows "if cp < tm_current_point T then skynet_updatetime cp T = Some (T\<lparr>tm_current_point := cp\<rparr>, [])
    else \<exists>T'. skynet_updatetime cp T = Some (T', concat (map (\<lambda>k. due T (tm_time T + of_nat k))
        [1..<Suc (unat (cp - tm_current_point T))])) \<and>
      timer_wf T' \<and> tm_time T' = tm_time T + ucast (cp - tm_current_point T)"
proof (cases "cp \<le> tm_current_point T")
  case True
  with assms(1) show ?thesis by (auto simp: skynet_updatetime_def)
next
  case False
  let ?d = "cp - tm_current_point T"
  let ?T = "T\<lparr>tm_current_point := cp, tm_current := tm_current T + ucast (ucast ?d :: u32)\<rparr>"
  have at: "at_place ?T p = at_place T p" for p by (simp add: at_place_def split: wheel_place.splits)
  then have due: "due ?T = due T" by (auto simp: due_def expiring_def fun_eq_iff)
  have wf: "timer_wf ?T"
    using assms(1) due at by (simp add: timer_wf_def wheel_shape_def in_place_def expiring_def)
  have d: "unat (ucast ?d :: u32) = unat ?d"
    using assms(2) by (simp add: unsigned_ucast_eq take_bit_nat_eq_self)
  have "of_nat (unat ?d) = (ucast ?d :: u32)" using of_nat_unat [of "ucast ?d :: u32"] d by simp
  with timer_updates_result [OF wf assms(2)] False d show ?thesis
    by (auto simp: skynet_updatetime_def due not_le)
qed

theorem updatetime_fires_elapsed_witness:
  "\<exists>T'. skynet_updatetime 7 sample_timer = Some (T', concat (map (\<lambda>k. due sample_timer (tm_time sample_timer + of_nat k)) [1..<8])) \<and>
      timer_wf T' \<and> tm_time T' = tm_time sample_timer + 7"
proof -
  have "tm_current_point sample_timer = 0"
    by (simp add: sample_timer_def timer_add_def add_node_put Let_def timer_create_timer_def)
  with updatetime_fires_elapsed [OF sample_wf, of 7] show ?thesis by simp
qed



end
