(* ===== verification/Locks.thy ===== *)
theory Locks
  imports Prelude
begin

section \<open>Spin locks and reader-writer locks (\<open>spinlock.h\<close>, \<open>rwlock.h\<close>)\<close>

text \<open>
  The locks that make the operations of the other theories atomic. A thread is a program counter that
  names the next atomic access of the lock's code; a step of the system is one access of one thread,
  so the spin loops, the optimistic increment of \<open>rwlock_rlock\<close> and its undo interleave freely.
  Memory is sequentially consistent, as the \<open>__sync\<close> builtins make it on the platforms of the program.
\<close>

subsection \<open>Spin lock\<close>

datatype spin_pc = Spin_out | Spin_tas | Spin_held

record spin_state =
  sl_lock :: int
  sl_pc :: "nat \<Rightarrow> spin_pc"

definition spinlock_init :: spin_state where
  "spinlock_init = \<lparr>sl_lock = 0, sl_pc = (\<lambda>_. Spin_out)\<rparr>"

text \<open>\<open>__sync_lock_test_and_set(&lock->lock,1)\<close>: the old value, and the lock set.\<close>

definition spinlock_lock :: "nat \<Rightarrow> spin_state \<Rightarrow> spin_state" where
  "spinlock_lock t s =
     (if sl_lock s \<noteq> 0 then s\<lparr>sl_lock := 1\<rparr>
      else s\<lparr>sl_lock := 1, sl_pc := (sl_pc s)(t := Spin_held)\<rparr>)"

definition spinlock_trylock :: "nat \<Rightarrow> spin_state \<Rightarrow> spin_state" where
  "spinlock_trylock t s =
     (if sl_lock s = 0 then s\<lparr>sl_lock := 1, sl_pc := (sl_pc s)(t := Spin_held)\<rparr>
      else s\<lparr>sl_lock := 1, sl_pc := (sl_pc s)(t := Spin_out)\<rparr>)"

definition spinlock_unlock :: "nat \<Rightarrow> spin_state \<Rightarrow> spin_state" where
  "spinlock_unlock t s = s\<lparr>sl_lock := 0, sl_pc := (sl_pc s)(t := Spin_out)\<rparr>"

inductive spin_reach :: "spin_state \<Rightarrow> bool" where
  spin_init: "spin_reach spinlock_init"
| spin_call: "spin_reach s \<Longrightarrow> sl_pc s t = Spin_out \<Longrightarrow> spin_reach (s\<lparr>sl_pc := (sl_pc s)(t := Spin_tas)\<rparr>)"
| spin_try: "spin_reach s \<Longrightarrow> sl_pc s t = Spin_out \<Longrightarrow> spin_reach (spinlock_trylock t s)"
| spin_lock: "spin_reach s \<Longrightarrow> sl_pc s t = Spin_tas \<Longrightarrow> spin_reach (spinlock_lock t s)"
| spin_unlock: "spin_reach s \<Longrightarrow> sl_pc s t = Spin_held \<Longrightarrow> spin_reach (spinlock_unlock t s)"

definition holders :: "spin_state \<Rightarrow> nat set" where
  "holders s = {t. sl_pc s t = Spin_held}"

definition spin_inv :: "spin_state \<Rightarrow> bool" where
  "spin_inv s \<longleftrightarrow> (if sl_lock s = 0 then holders s = {} else sl_lock s = 1 \<and> (\<exists>t. holders s = {t}))"

lemma holders_upd [simp]:
  "holders (s\<lparr>sl_pc := (sl_pc s)(t := p)\<rparr>) = (if p = Spin_held then insert t (holders s) else holders s - {t})"
  "holders (s\<lparr>sl_lock := x\<rparr>) = holders s"
  "holders (s\<lparr>sl_lock := x, sl_pc := (sl_pc s)(t := p)\<rparr>) =
     (if p = Spin_held then insert t (holders s) else holders s - {t})"
  by (auto simp: holders_def)

lemma holders_mem: "t \<in> holders s \<longleftrightarrow> sl_pc s t = Spin_held"
  by (simp add: holders_def)

lemma spin_reach_inv: "spin_reach s \<Longrightarrow> spin_inv s"
proof (induction rule: spin_reach.induct)
  case spin_init
  show ?case by (simp add: spin_inv_def spinlock_init_def holders_def)
next
  case (spin_call s t)
  then have "t \<notin> holders s" by (simp add: holders_mem)
  with spin_call.IH show ?case by (auto simp: spin_inv_def split: if_splits)
next
  case (spin_try s t)
  then have "t \<notin> holders s" by (simp add: holders_mem)
  with spin_try.IH show ?case by (auto simp: spin_inv_def spinlock_trylock_def split: if_splits)
next
  case (spin_lock s t)
  then show ?case by (auto simp: spin_inv_def spinlock_lock_def split: if_splits)
next
  case (spin_unlock s t)
  then have "t \<in> holders s" by (simp add: holders_mem)
  with spin_unlock.IH show ?case by (auto simp: spin_inv_def spinlock_unlock_def split: if_splits)
qed

subsection \<open>Reader-writer lock\<close>

text \<open>
  The program counter of a thread: outside, at an access of \<open>rwlock_rlock\<close> (the test of \<open>write\<close> in the
  inner loop, the increment of \<open>read\<close>, the second test, the decrement that undoes it), reading, at an
  access of \<open>rwlock_wlock\<close> (the test-and-set, the loop on \<open>read\<close>), or writing.
\<close>

datatype rw_pc = Rw_out | R_spin | R_inc | R_test | R_undo | Reading | W_tas | W_wait | Writing

record rwlock =
  rw_write :: int
  rw_read :: int

definition rwlock_init :: rwlock where
  "rwlock_init = \<lparr>rw_write = 0, rw_read = 0\<rparr>"

fun rwlock_rlock :: "rw_pc \<Rightarrow> rwlock \<Rightarrow> rw_pc \<times> rwlock" where
  "rwlock_rlock R_spin l = (if rw_write l \<noteq> 0 then R_spin else R_inc, l)"
| "rwlock_rlock R_inc l = (R_test, l\<lparr>rw_read := rw_read l + 1\<rparr>)"
| "rwlock_rlock R_test l = (if rw_write l \<noteq> 0 then R_undo else Reading, l)"
| "rwlock_rlock R_undo l = (R_spin, l\<lparr>rw_read := rw_read l - 1\<rparr>)"
| "rwlock_rlock pc l = (pc, l)"

fun rwlock_wlock :: "rw_pc \<Rightarrow> rwlock \<Rightarrow> rw_pc \<times> rwlock" where
  "rwlock_wlock W_tas l = (if rw_write l \<noteq> 0 then W_tas else W_wait, l\<lparr>rw_write := 1\<rparr>)"
| "rwlock_wlock W_wait l = (if rw_read l \<noteq> 0 then W_wait else Writing, l)"
| "rwlock_wlock pc l = (pc, l)"

definition rwlock_wunlock :: "rwlock \<Rightarrow> rwlock" where
  "rwlock_wunlock l = l\<lparr>rw_write := 0\<rparr>"

definition rwlock_runlock :: "rwlock \<Rightarrow> rwlock" where
  "rwlock_runlock l = l\<lparr>rw_read := rw_read l - 1\<rparr>"

type_synonym rw_state = "(nat \<Rightarrow> rw_pc) \<times> rwlock"

inductive rw_reach :: "rw_state \<Rightarrow> bool" where
  rw_init: "rw_reach (\<lambda>_. Rw_out, rwlock_init)"
| rw_call_r: "rw_reach (pc, l) \<Longrightarrow> pc t = Rw_out \<Longrightarrow> rw_reach (pc(t := R_spin), l)"
| rw_call_w: "rw_reach (pc, l) \<Longrightarrow> pc t = Rw_out \<Longrightarrow> rw_reach (pc(t := W_tas), l)"
| rw_rlock: "rw_reach (pc, l) \<Longrightarrow> pc t \<in> {R_spin, R_inc, R_test, R_undo} \<Longrightarrow>
    rwlock_rlock (pc t) l = (p', l') \<Longrightarrow> rw_reach (pc(t := p'), l')"
| rw_wlock: "rw_reach (pc, l) \<Longrightarrow> pc t \<in> {W_tas, W_wait} \<Longrightarrow>
    rwlock_wlock (pc t) l = (p', l') \<Longrightarrow> rw_reach (pc(t := p'), l')"
| rw_runlock: "rw_reach (pc, l) \<Longrightarrow> pc t = Reading \<Longrightarrow> rw_reach (pc(t := Rw_out), rwlock_runlock l)"
| rw_wunlock: "rw_reach (pc, l) \<Longrightarrow> pc t = Writing \<Longrightarrow> rw_reach (pc(t := Rw_out), rwlock_wunlock l)"

text \<open>The threads that have incremented \<open>read\<close>, and the one that has set \<open>write\<close>.\<close>

definition counted :: "(nat \<Rightarrow> rw_pc) \<Rightarrow> nat set" where
  "counted pc = {t. pc t \<in> {R_test, R_undo, Reading}}"

definition owners :: "(nat \<Rightarrow> rw_pc) \<Rightarrow> nat set" where
  "owners pc = {t. pc t \<in> {W_wait, Writing}}"

definition rw_inv :: "rw_state \<Rightarrow> bool" where
  "rw_inv = (\<lambda>(pc, l). finite (counted pc) \<and> rw_read l = int (card (counted pc)) \<and>
     rw_write l = (if owners pc = {} then 0 else 1) \<and> (\<forall>t \<in> owners pc. owners pc = {t}) \<and>
     (\<forall>t u. pc t = Writing \<longrightarrow> pc u \<noteq> Reading))"

lemma counted_upd:
  "counted (pc(t := p)) = (if p \<in> {R_test, R_undo, Reading} then insert t (counted pc) else counted pc - {t})"
  by (auto simp: counted_def)

lemma owners_upd:
  "owners (pc(t := p)) = (if p \<in> {W_wait, Writing} then insert t (owners pc) else owners pc - {t})"
  by (auto simp: owners_def)

lemma counted_mem: "t \<in> counted pc \<longleftrightarrow> pc t \<in> {R_test, R_undo, Reading}"
  by (simp add: counted_def)

lemma owners_mem: "t \<in> owners pc \<longleftrightarrow> pc t \<in> {W_wait, Writing}"
  by (simp add: owners_def)

lemmas rw_sets = counted_upd owners_upd counted_mem owners_mem

text \<open>A step of one thread keeps the invariant when it keeps what the thread contributes to it.\<close>

lemma rw_inv_step:
  assumes inv: "rw_inv (pc, l)"
    and read: "rw_read l' = rw_read l + (if p' \<in> {R_test, R_undo, Reading} then 1 else 0)
                 - (if pc t \<in> {R_test, R_undo, Reading} then 1 else 0)"
    and own: "if p' \<in> {W_wait, Writing} \<and> pc t \<notin> {W_wait, Writing} then rw_write l = 0 \<and> rw_write l' = 1
              else if p' \<notin> {W_wait, Writing} \<and> pc t \<in> {W_wait, Writing} then rw_write l' = 0
              else rw_write l' = rw_write l"
    and enter_r: "p' = Reading \<Longrightarrow> rw_write l = 0"
    and enter_w: "p' = Writing \<Longrightarrow> rw_read l = 0"
  shows "rw_inv (pc(t := p'), l')"
proof -
  from inv have I: "finite (counted pc)" "rw_read l = int (card (counted pc))"
    "rw_write l = (if owners pc = {} then 0 else 1)" "\<And>t. t \<in> owners pc \<Longrightarrow> owners pc = {t}"
    "\<And>t u. pc t = Writing \<Longrightarrow> pc u \<noteq> Reading" by (auto simp: rw_inv_def)
  let ?pc = "pc(t := p')"
  have "finite (counted ?pc)" using I(1) by (simp add: counted_upd)
  moreover have "rw_read l' = int (card (counted ?pc))"
  proof (cases "t \<in> counted pc")
    case True
    then have "0 < card (counted pc)" using I(1) by (metis card_gt_0_iff empty_iff)
    with True I(1,2) read show ?thesis by (auto simp: rw_sets insert_absorb of_nat_diff split: if_splits)
  next
    case False
    with I(1,2) read show ?thesis by (auto simp: rw_sets split: if_splits)
  qed
  moreover have "rw_write l' = (if owners ?pc = {} then 0 else 1) \<and> (\<forall>t \<in> owners ?pc. owners ?pc = {t})"
  proof (cases "t \<in> owners pc")
    case True
    with I(4) have "owners pc = {t}" by blast
    with True I(3) own show ?thesis by (auto simp: rw_sets split: if_splits)
  next
    case False
    show ?thesis
    proof (cases "p' \<in> {W_wait, Writing}")
      case True
      with False own have "owners pc = {}" "rw_write l' = 1" using I(3) by (auto simp: owners_mem split: if_splits)
      with True show ?thesis by (auto simp: owners_upd)
    next
      case out: False
      with False own have "rw_write l' = rw_write l" "owners ?pc = owners pc" by (auto simp: rw_sets)
      with I(3,4) show ?thesis by auto
    qed
  qed
  moreover have "?pc u \<noteq> Reading" if w: "?pc v = Writing" for u v
  proof
    assume r: "?pc u = Reading"
    consider "v = t" | "u = t" | "v \<noteq> t" "u \<noteq> t" by blast
    then show False
    proof cases
      case 1
      with w enter_w I(1,2) have "counted pc = {}" by simp
      with r w 1 show False by (auto simp: counted_def split: if_splits)
    next
      case 2
      with r enter_r I(3) have "owners pc = {}" by (simp split: if_splits)
      with r w 2 show False by (auto simp: owners_def split: if_splits)
    next
      case 3
      with r w I(5) show False by simp
    qed
  qed
  ultimately show ?thesis unfolding rw_inv_def prod.case by blast
qed

lemma rw_reach_inv: "rw_reach s \<Longrightarrow> rw_inv s"
proof (induction rule: rw_reach.induct)
  case rw_init
  show ?case by (simp add: rw_inv_def rwlock_init_def counted_def owners_def)
next
  case (rw_call_r pc l t)
  then show ?case by (intro rw_inv_step [where l = l]) simp_all
next
  case (rw_call_w pc l t)
  then show ?case by (intro rw_inv_step [where l = l]) simp_all
next
  case (rw_rlock pc l t p' l')
  from rw_rlock(2,3) show ?case
    by (intro rw_inv_step [OF rw_rlock.IH]) (auto split: if_splits)
next
  case (rw_wlock pc l t p' l')
  have "rw_write l = 1" if "rw_write l \<noteq> 0 \<or> pc t = W_wait"
    using rw_wlock.IH that by (auto simp: rw_inv_def owners_mem split: if_splits)
  with rw_wlock(2,3) show ?case
    by (intro rw_inv_step [OF rw_wlock.IH]) (auto split: if_splits)
next
  case (rw_runlock pc l t)
  then show ?case by (intro rw_inv_step [where l = l]) (simp_all add: rwlock_runlock_def)
next
  case (rw_wunlock pc l t)
  then show ?case by (intro rw_inv_step [where l = l]) (simp_all add: rwlock_wunlock_def)
qed

subsection \<open>Properties\<close>

text \<open>C37. The reader-writer lock excludes: in every interleaving of the accesses of any number of threads,
  while a thread holds the lock for writing no other thread holds it for writing or reading.\<close>

theorem rwlock_exclusion:
  assumes "rw_reach (pc, l)" "pc t = Writing"
  shows "pc u \<noteq> Reading \<and> (pc u = Writing \<longrightarrow> u = t)"
proof -
  from rw_reach_inv [OF assms(1)] have "pc u \<noteq> Reading" "\<forall>t \<in> owners pc. owners pc = {t}"
    using assms(2) by (auto simp: rw_inv_def)
  moreover have "t \<in> owners pc" "pc u = Writing \<Longrightarrow> u \<in> owners pc" using assms(2) by (simp_all add: owners_mem)
  ultimately show ?thesis by blast
qed

lemma rw_write_reachable: "\<exists>l. rw_reach ((\<lambda>_. Rw_out)(1 := Writing), l)"
proof -
  let ?l = "\<lparr>rw_write = 1, rw_read = 0\<rparr>"
  have "rw_reach ((\<lambda>_. Rw_out)(1 := W_tas), rwlock_init)" by (rule rw_call_w [OF rw_init]) simp
  from rw_wlock [OF this, of 1 W_wait ?l] have "rw_reach ((\<lambda>_. Rw_out)(1 := W_wait), ?l)"
    by (simp add: rwlock_init_def)
  from rw_wlock [OF this, of 1 Writing ?l] show ?thesis by auto
qed

theorem rwlock_exclusion_witness:
  "\<exists>pc l. rw_reach (pc, l) \<and> pc 1 = Writing \<and> (pc 2 \<noteq> Reading \<and> (pc 2 = Writing \<longrightarrow> (2 :: nat) = 1))"
proof -
  obtain l where l: "rw_reach ((\<lambda>_. Rw_out)(1 := Writing), l)" using rw_write_reachable by blast
  from rwlock_exclusion [OF this, of 1 2] l show ?thesis
    by (intro exI [of _ "(\<lambda>_. Rw_out)(1 := Writing)"] exI [of _ l]) simp
qed

text \<open>At most one thread is between \<open>spinlock_lock\<close> and \<open>spinlock_unlock\<close>, and the lock word is 1 then.\<close>

theorem spinlock_exclusion:
  assumes "spin_reach s" "sl_pc s t = Spin_held" "sl_pc s u = Spin_held"
  shows "t = u \<and> sl_lock s = 1"
proof -
  have "t \<in> holders s" "u \<in> holders s" using assms(2,3) by (simp_all add: holders_mem)
  with spin_reach_inv [OF assms(1)] show ?thesis by (auto simp: spin_inv_def split: if_splits)
qed

theorem spinlock_exclusion_witness:
  "\<exists>s. spin_reach s \<and> sl_pc s 1 = Spin_held \<and> sl_lock s = 1"
proof -
  have r: "spin_reach (spinlock_trylock 1 spinlock_init)"
    by (rule spin_try [OF spin_init]) (simp add: spinlock_init_def)
  have h: "sl_pc (spinlock_trylock 1 spinlock_init) 1 = Spin_held"
    by (simp add: spinlock_trylock_def spinlock_init_def)
  from spinlock_exclusion [OF r h h] r h show ?thesis by blast
qed

end
