(* ===== verification/Databuffer.thy ===== *)
theory Databuffer
  imports Prelude "HOL-Library.Multiset"
begin

unbundle bit_operations_syntax

section \<open>Receive buffers (\<open>databuffer.h\<close>)\<close>

text \<open>
  A connection's receive buffer: the blocks that the socket layer delivered, in a linked list with an
  offset into the first, and the pool that the list nodes come from. A node is an address (its block
  of \<open>MESSAGEPOOL\<close> nodes and its index there); a list of the buffer carries each node with its bytes.
\<close>

subsection \<open>State\<close>

definition MESSAGEPOOL :: nat where "MESSAGEPOOL = 1023"

type_synonym node_addr = "nat \<times> nat"

record databuffer =
  db_header :: int
  db_offset :: nat
  db_size :: int
  db_list :: "(node_addr \<times> bytes) list"

record messagepool =
  mp_blocks :: nat
  mp_freelist :: "node_addr list"

definition empty_db :: databuffer where
  "empty_db = \<lparr>db_header = 0, db_offset = 0, db_size = 0, db_list = []\<rparr>"

definition empty_pool :: messagepool where
  "empty_pool = \<lparr>mp_blocks = 0, mp_freelist = []\<rparr>"

subsection \<open>Operations\<close>

definition messagepool_free :: "messagepool \<Rightarrow> messagepool" where
  "messagepool_free mp = mp\<lparr>mp_blocks := 0, mp_freelist := []\<rparr>"

text \<open>\<open>_return_message\<close>: the first node goes back to the free list; there must be one.\<close>

definition return_message :: "databuffer \<times> messagepool \<Rightarrow> (databuffer \<times> messagepool) option" where
  "return_message = (\<lambda>(db, mp).
     case db_list db of
       [] \<Rightarrow> None
     | (m, buffer) # rest \<Rightarrow> Some (db\<lparr>db_list := rest\<rparr>, mp\<lparr>mp_freelist := m # mp_freelist mp\<rparr>))"

partial_function (option) read_loop ::
  "nat \<Rightarrow> databuffer \<times> messagepool \<Rightarrow> (bytes \<times> databuffer \<times> messagepool) option" where
  "read_loop sz st =
     (case db_list (fst st) of
        [] \<Rightarrow> None
      | (m, buffer) # rest \<Rightarrow>
          (let bsz = int (length buffer) - int (db_offset (fst st));
               avail = drop (db_offset (fst st)) buffer in
           if int sz < bsz then
             Some (take sz avail, (fst st)\<lparr>db_offset := db_offset (fst st) + sz\<rparr>, snd st)
           else if bsz = int sz then
             do { st' \<leftarrow> return_message ((fst st)\<lparr>db_offset := 0\<rparr>, snd st); Some (avail, st') }
           else
             do { (db1, mp1) \<leftarrow> return_message st;
                  (out, st') \<leftarrow> read_loop (sz - nat bsz) (db1\<lparr>db_offset := 0\<rparr>, mp1);
                  Some (avail @ out, st') }))"

declare read_loop.simps [code]

definition databuffer_read ::
  "nat \<Rightarrow> databuffer \<times> messagepool \<Rightarrow> (bytes \<times> databuffer \<times> messagepool) option" where
  "databuffer_read sz = (\<lambda>(db, mp).
     do { assert_opt (int sz \<le> db_size db);
          read_loop sz (db\<lparr>db_size := db_size db - int sz\<rparr>, mp) })"

definition databuffer_push :: "bytes \<Rightarrow> databuffer \<times> messagepool \<Rightarrow> databuffer \<times> messagepool" where
  "databuffer_push data = (\<lambda>(db, mp).
     (case mp_freelist mp of
        m # free \<Rightarrow>
          (db\<lparr>db_size := db_size db + int (length data), db_list := db_list db @ [(m, data)]\<rparr>,
           mp\<lparr>mp_freelist := free\<rparr>)
      | [] \<Rightarrow>
          (db\<lparr>db_size := db_size db + int (length data),
              db_list := db_list db @ [((mp_blocks mp, 0), data)]\<rparr>,
           mp\<lparr>mp_freelist := map (Pair (mp_blocks mp)) [1..<MESSAGEPOOL],
              mp_blocks := Suc (mp_blocks mp)\<rparr>)))"

text \<open>The header, big-endian; four bytes overflow into the sign of the \<open>int\<close>.\<close>

definition header_of :: "nat \<Rightarrow> bytes \<Rightarrow> int" where
  "header_of header_size plen =
     (if header_size = 2 then uint (plen ! 0) * 256 + uint (plen ! 1)
      else sint (word_of_int (uint (plen ! 0) * 2 ^ 24 + uint (plen ! 1) * 2 ^ 16 +
                              uint (plen ! 2) * 2 ^ 8 + uint (plen ! 3)) :: u32))"

definition databuffer_readheader ::
  "nat \<Rightarrow> databuffer \<times> messagepool \<Rightarrow> (int \<times> databuffer \<times> messagepool) option" where
  "databuffer_readheader header_size st =
     (if db_header (fst st) = 0 \<and> db_size (fst st) < int header_size then Some (- 1, st)
      else
        do { (db, mp) \<leftarrow> (if db_header (fst st) = 0 then
                            do { (plen, db1, mp1) \<leftarrow> databuffer_read header_size st;
                                 Some (db1\<lparr>db_header := header_of header_size plen\<rparr>, mp1) }
                          else Some st);
             Some (if db_size db < db_header db then - 1 else db_header db, db, mp) })"

definition databuffer_reset :: "databuffer \<Rightarrow> databuffer" where
  "databuffer_reset db = db\<lparr>db_header := 0\<rparr>"

partial_function (option) return_all :: "databuffer \<times> messagepool \<Rightarrow> (databuffer \<times> messagepool) option" where
  "return_all st =
     (if db_list (fst st) = [] then Some st else do { st' \<leftarrow> return_message st; return_all st' })"

declare return_all.simps [code]

definition databuffer_clear :: "databuffer \<times> messagepool \<Rightarrow> (databuffer \<times> messagepool) option" where
  "databuffer_clear st = do { (db, mp) \<leftarrow> return_all st; Some (empty_db, mp) }"

subsection \<open>The bytes of a buffer\<close>

definition db_bytes :: "databuffer \<Rightarrow> bytes" where
  "db_bytes db = drop (db_offset db) (concat (map snd (db_list db)))"

definition db_wf :: "databuffer \<Rightarrow> bool" where
  "db_wf db \<longleftrightarrow> db_size db = int (length (db_bytes db)) \<and>
     (case db_list db of [] \<Rightarrow> db_offset db = 0 | (m, buffer) # _ \<Rightarrow> db_offset db \<le> length buffer)"

lemma db_header_simps [simp]:
  "db_bytes (db\<lparr>db_header := h\<rparr>) = db_bytes db" "db_wf (db\<lparr>db_header := h\<rparr>) = db_wf db"
  by (simp_all add: db_bytes_def db_wf_def split: list.split)

text \<open>The nodes in use and free: they are moved, never copied or lost.\<close>

definition nodes_of :: "databuffer \<times> messagepool \<Rightarrow> node_addr multiset" where
  "nodes_of st = mset (map fst (db_list (fst st))) + mset (mp_freelist (snd st))"

lemma read_loop_step:
  assumes l: "db_list db = (m, buffer) # rest" and off: "db_offset db \<le> length buffer"
    and avail: "avail = drop (db_offset db) buffer"
  shows "read_loop sz (db, mp) =
    (let mp' = mp\<lparr>mp_freelist := m # mp_freelist mp\<rparr>; db' = db\<lparr>db_offset := 0, db_list := rest\<rparr> in
     if sz < length avail then Some (take sz avail, db\<lparr>db_offset := db_offset db + sz\<rparr>, mp)
     else if length avail = sz then Some (avail, db', mp')
     else do { (out, st') \<leftarrow> read_loop (sz - length avail) (db\<lparr>db_list := rest, db_offset := 0\<rparr>, mp');
               Some (avail @ out, st') })"
proof -
  have bsz: "int (length buffer) - int (db_offset db) = int (length avail)" using off by (simp add: avail)
  show ?thesis
    unfolding read_loop.simps [of sz "(db, mp)"] fst_conv snd_conv l list.case prod.case Let_def bsz nat_int
      of_nat_less_iff of_nat_eq_iff avail [symmetric]
    by (simp add: return_message_def l)
qed

lemma read_loop_result:
  assumes "db_offset db = 0 \<or> db_offset db \<le> length (snd (hd (db_list db)))" "0 < sz"
    "sz \<le> length (db_bytes db)"
  shows "\<exists>db' mp'. read_loop sz (db, mp) = Some (take sz (db_bytes db), db', mp') \<and>
    db_bytes db' = drop sz (db_bytes db) \<and> db_header db' = db_header db \<and> db_size db' = db_size db \<and>
    (case db_list db' of [] \<Rightarrow> db_offset db' = 0 | (m, buffer) # _ \<Rightarrow> db_offset db' \<le> length buffer) \<and>
    nodes_of (db', mp') = nodes_of (db, mp) \<and> mp_blocks mp' = mp_blocks mp"
  using assms
proof (induction "db_list db" arbitrary: db mp sz)
  case Nil
  then show ?case by (simp add: db_bytes_def)
next
  case (Cons mb rest)
  obtain m buffer where mb: "mb = (m, buffer)" by (cases mb)
  note l = Cons.hyps(2) [symmetric, unfolded mb]
  have off: "db_offset db \<le> length buffer" using Cons.prems(1) l by auto
  let ?avail = "drop (db_offset db) buffer"
  have bytes: "db_bytes db = ?avail @ concat (map snd rest)" using l off by (simp add: db_bytes_def)
  note step = read_loop_step [OF l off refl, of sz mp]
  consider "sz < length ?avail" | "sz = length ?avail" | "length ?avail < sz" by linarith
  then show ?case
  proof cases
    case 1
    let ?db' = "db\<lparr>db_offset := db_offset db + sz\<rparr>"
    have "read_loop sz (db, mp) = Some (take sz ?avail, ?db', mp)" using step 1 by (simp add: Let_def)
    moreover have "db_bytes ?db' = drop sz (db_bytes db)" by (simp add: db_bytes_def add.commute)
    ultimately show ?thesis using 1 l bytes by (simp add: nodes_of_def)
  next
    case 2
    let ?db' = "db\<lparr>db_offset := 0, db_list := rest\<rparr>" and ?mp' = "mp\<lparr>mp_freelist := m # mp_freelist mp\<rparr>"
    have "read_loop sz (db, mp) = Some (?avail, ?db', ?mp')" using step 2 by (simp add: Let_def)
    moreover have "db_bytes ?db' = drop sz (db_bytes db)" using bytes 2 by (simp add: db_bytes_def)
    ultimately show ?thesis using 2 l bytes by (simp add: nodes_of_def split: list.splits)
  next
    case 3
    let ?db1 = "db\<lparr>db_list := rest, db_offset := 0\<rparr>"
    let ?mp1 = "mp\<lparr>mp_freelist := m # mp_freelist mp\<rparr>"
    have b1: "db_bytes ?db1 = concat (map snd rest)" by (simp add: db_bytes_def)
    have "read_loop sz (db, mp) = do { (out, st') \<leftarrow> read_loop (sz - length ?avail) (?db1, ?mp1); Some (?avail @ out, st') }"
      using step 3 by (simp add: Let_def)
    moreover have pre: "rest = db_list ?db1" "db_offset ?db1 = 0 \<or> db_offset ?db1 \<le> length (snd (hd (db_list ?db1)))"
      "0 < sz - length ?avail" "sz - length ?avail \<le> length (db_bytes ?db1)"
      using 3 Cons.prems(3) unfolding bytes b1 by simp_all
    from Cons.hyps(1) [OF pre, of ?mp1] obtain db' mp' where "read_loop (sz - length ?avail) (?db1, ?mp1) =
        Some (take (sz - length ?avail) (concat (map snd rest)), db', mp')"
      "db_bytes db' = drop (sz - length ?avail) (concat (map snd rest))"
      "db_header db' = db_header db" "db_size db' = db_size db"
      "case db_list db' of [] \<Rightarrow> db_offset db' = 0 | (m, buffer) # _ \<Rightarrow> db_offset db' \<le> length buffer"
      "nodes_of (db', mp') = nodes_of (?db1, ?mp1)" "mp_blocks mp' = mp_blocks mp" unfolding b1 by auto
    ultimately show ?thesis
      using 3 bytes l by (auto simp: nodes_of_def)
  qed
qed

lemma databuffer_read_result:
  assumes "db_wf db" "0 < sz" "sz \<le> length (db_bytes db)"
  shows "\<exists>db' mp'. databuffer_read sz (db, mp) = Some (take sz (db_bytes db), db', mp') \<and> db_wf db' \<and>
    db_bytes db' = drop sz (db_bytes db) \<and> db_header db' = db_header db \<and>
    nodes_of (db', mp') = nodes_of (db, mp) \<and> mp_blocks mp' = mp_blocks mp"
proof -
  let ?db = "db\<lparr>db_size := db_size db - int sz\<rparr>"
  have same: "db_bytes ?db = db_bytes db" "nodes_of (?db, mp) = nodes_of (db, mp)"
    by (simp_all add: db_bytes_def nodes_of_def)
  have "db_offset ?db = 0 \<or> db_offset ?db \<le> length (snd (hd (db_list ?db)))"
    using assms(1) by (auto simp: db_wf_def split: list.splits)
  from read_loop_result [OF this assms(2), of mp] assms(3) same obtain db' mp' where
    r: "read_loop sz (?db, mp) = Some (take sz (db_bytes db), db', mp')" "db_bytes db' = drop sz (db_bytes db)"
      "db_header db' = db_header db" "db_size db' = db_size db - int sz"
      "case db_list db' of [] \<Rightarrow> db_offset db' = 0 | (m, buffer) # _ \<Rightarrow> db_offset db' \<le> length buffer"
      "nodes_of (db', mp') = nodes_of (db, mp)" "mp_blocks mp' = mp_blocks mp" by auto
  have sz: "db_size db = int (length (db_bytes db))" using assms(1) by (simp add: db_wf_def)
  with r(2,4,5) assms(3) have "db_wf db'" by (simp add: db_wf_def of_nat_diff)
  with r sz assms(3) show ?thesis by (simp add: databuffer_read_def)
qed

lemma databuffer_push_result:
  assumes "db_wf db" "databuffer_push data (db, mp) = (db', mp')"
  shows "db_wf db'" "db_bytes db' = db_bytes db @ data" "db_header db' = db_header db"
proof -
  obtain m where l: "db_list db' = db_list db @ [(m, data)]" "db_offset db' = db_offset db"
    "db_size db' = db_size db + int (length data)" "db_header db' = db_header db"
    using assms(2) by (auto simp: databuffer_push_def split: list.splits)
  have "db_offset db \<le> length (concat (map snd (db_list db)))"
    using assms(1) by (auto simp: db_wf_def split: list.splits)
  then show bytes: "db_bytes db' = db_bytes db @ data" by (simp add: db_bytes_def l)
  show "db_wf db'" using assms(1) bytes l by (auto simp: db_wf_def split: list.splits)
  show "db_header db' = db_header db" by (rule l)
qed

text \<open>The pool never gives a node that is in use: new nodes come from a block of their own.\<close>

definition pool_wf :: "databuffer \<times> messagepool \<Rightarrow> bool" where
  "pool_wf st \<longleftrightarrow> (\<forall>a. count (nodes_of st) a \<le> 1) \<and> (\<forall>a \<in># nodes_of st. fst a < mp_blocks (snd st))"

lemma pool_wf_cong: "nodes_of st' = nodes_of st \<Longrightarrow> mp_blocks (snd st') = mp_blocks (snd st) \<Longrightarrow> pool_wf st \<Longrightarrow> pool_wf st'"
  by (simp add: pool_wf_def)

lemma pool_push:
  assumes "pool_wf (db, mp)"
  shows "pool_wf (databuffer_push data (db, mp))"
proof (cases "mp_freelist mp")
  case (Cons m free)
  then have "nodes_of (databuffer_push data (db, mp)) = nodes_of (db, mp)"
    by (simp add: databuffer_push_def nodes_of_def)
  moreover have "mp_blocks (snd (databuffer_push data (db, mp))) = mp_blocks mp"
    using Cons by (simp add: databuffer_push_def)
  ultimately show ?thesis using assms by (simp add: pool_wf_def)
next
  case Nil
  let ?b = "mp_blocks mp" and ?new = "mset (map (Pair (mp_blocks mp)) [0..<MESSAGEPOOL])"
  have cnt: "count ?new a \<le> 1" for a
  proof -
    have "distinct (map (Pair ?b) [0..<MESSAGEPOOL])" by (simp add: distinct_map inj_on_def)
    then have "count ?new a = (if a \<in> set (map (Pair ?b) [0..<MESSAGEPOOL]) then 1 else 0)"
      by (simp only: distinct_count_atmost_1)
    then show ?thesis by simp
  qed
  have split: "[0..<MESSAGEPOOL] = 0 # [1..<MESSAGEPOOL]" by (simp add: MESSAGEPOOL_def upt_rec [of 0])
  have nodes: "nodes_of (databuffer_push data (db, mp)) = nodes_of (db, mp) + ?new"
    unfolding split using Nil by (simp add: databuffer_push_def nodes_of_def)
  have "count (nodes_of (db, mp) + ?new) a \<le> 1" for a
  proof (cases "fst a = ?b")
    case True
    with assms have "a \<notin># nodes_of (db, mp)" by (auto simp: pool_wf_def)
    with cnt [of a] show ?thesis by (simp add: not_in_iff)
  next
    case False
    then have "a \<notin># ?new" by auto
    then have "count ?new a = 0" by (simp only: not_in_iff)
    moreover have "count (nodes_of (db, mp)) a \<le> 1" using assms unfolding pool_wf_def by blast
    ultimately show ?thesis by (simp only: count_union)
  qed
  moreover have "fst a < Suc ?b" if "a \<in># nodes_of (db, mp) + ?new" for a
    using that assms by (auto simp: pool_wf_def less_Suc_eq)
  moreover have "mp_blocks (snd (databuffer_push data (db, mp))) = Suc ?b"
    using Nil by (simp add: databuffer_push_def)
  ultimately show ?thesis unfolding pool_wf_def nodes by simp
qed

lemma return_all_result:
  "\<exists>db' mp'. return_all (db, mp) = Some (db', mp') \<and> db_list db' = [] \<and>
     mset (mp_freelist mp') = nodes_of (db, mp) \<and> mp_blocks mp' = mp_blocks mp"
proof (induction "db_list db" arbitrary: db mp)
  case Nil
  then show ?case by (simp add: return_all.simps nodes_of_def)
next
  case (Cons mb rest)
  obtain m buffer where mb: "mb = (m, buffer)" by (cases mb)
  note l = Cons.hyps(2) [symmetric, unfolded mb]
  let ?db = "db\<lparr>db_list := rest\<rparr>" and ?mp = "mp\<lparr>mp_freelist := m # mp_freelist mp\<rparr>"
  have "return_all (db, mp) = return_all (?db, ?mp)"
    using l by (simp add: return_all.simps [of "(db, mp)"] return_message_def)
  moreover have "nodes_of (?db, ?mp) = nodes_of (db, mp)" using l by (simp add: nodes_of_def)
  ultimately show ?case using Cons.hyps(1) [of ?db ?mp] by simp
qed

lemma databuffer_clear_result:
  "\<exists>mp'. databuffer_clear (db, mp) = Some (empty_db, mp') \<and> nodes_of (empty_db, mp') = nodes_of (db, mp) \<and>
     mp_blocks mp' = mp_blocks mp"
  using return_all_result [of db mp] by (auto simp: databuffer_clear_def nodes_of_def empty_db_def)

lemma empty_db_wf: "db_wf empty_db" "db_bytes empty_db = []" "pool_wf (empty_db, empty_pool)"
  by (simp_all add: empty_db_def empty_pool_def db_wf_def db_bytes_def pool_wf_def nodes_of_def)

end
