(* ===== verification/Hashid.thy ===== *)
theory Hashid
  imports Prelude
begin

unbundle bit_operations_syntax

section \<open>Connection numbers (\<open>hashid.h\<close>)\<close>

text \<open>
  The table that gives each socket id a slot of the gate's connection array: an array of nodes, and
  hash chains that link the nodes in use. A node pointer is the index of the node.
\<close>

subsection \<open>State and operations\<close>

record hashid_node =
  hn_id :: int
  hn_next :: "nat option"

record hashid =
  hi_hashmod :: int
  hi_cap :: nat
  hi_count :: int
  hi_id :: "hashid_node list"
  hi_hash :: "nat option list"

definition free_node :: hashid_node where
  "free_node = \<lparr>hn_id = - 1, hn_next = None\<rparr>"

function hash_cap :: "nat \<Rightarrow> nat \<Rightarrow> nat" where
  "hash_cap hashcap mx = (if 0 < hashcap \<and> hashcap < mx then hash_cap (hashcap * 2) mx else hashcap)"
  by pat_completeness auto
termination
  by (relation "measure (\<lambda>(hashcap, mx). mx - hashcap)") auto

declare hash_cap.simps [simp del]

definition hashid_init :: "nat \<Rightarrow> hashid" where
  "hashid_init mx =
     (let hashcap = hash_cap 16 mx in
      \<lparr>hi_hashmod = int hashcap - 1, hi_cap = mx, hi_count = 0,
       hi_id = replicate mx free_node, hi_hash = replicate hashcap None\<rparr>)"

definition hashid_clear :: "hashid \<Rightarrow> hashid" where
  "hashid_clear hi = \<lparr>hi_hashmod = 1, hi_cap = 0, hi_count = 0, hi_id = [], hi_hash = []\<rparr>"

definition hash_index :: "hashid \<Rightarrow> int \<Rightarrow> nat" where
  "hash_index hi sid = nat (sid AND hi_hashmod hi)"

partial_function (option) lookup_loop :: "hashid_node list \<Rightarrow> nat option \<Rightarrow> int \<Rightarrow> int option" where
  "lookup_loop nodes c sid =
     (case c of
        None \<Rightarrow> Some (- 1)
      | Some i \<Rightarrow> do { n \<leftarrow> array_get nodes i;
                        (if hn_id n = sid then Some (int i) else lookup_loop nodes (hn_next n) sid) })"

declare lookup_loop.simps [code]

definition hashid_lookup :: "int \<Rightarrow> hashid \<Rightarrow> int option" where
  "hashid_lookup sid hi =
     do { c \<leftarrow> array_get (hi_hash hi) (hash_index hi sid); lookup_loop (hi_id hi) c sid }"

text \<open>The label \<open>_clear\<close>: the node is unlinked; reset it and give its index.\<close>

definition clear_node :: "nat \<Rightarrow> hashid \<Rightarrow> int \<times> hashid" where
  "clear_node c hi = (int c, hi\<lparr>hi_id := (hi_id hi)[c := free_node], hi_count := hi_count hi - 1\<rparr>)"

partial_function (option) remove_loop :: "nat \<Rightarrow> int \<Rightarrow> hashid \<Rightarrow> (int \<times> hashid) option" where
  "remove_loop c sid hi =
     do { n \<leftarrow> array_get (hi_id hi) c;
          (case hn_next n of
             None \<Rightarrow> Some (- 1, hi)
           | Some d \<Rightarrow>
               do { m \<leftarrow> array_get (hi_id hi) d;
                    (if hn_id m = sid then
                       Some (clear_node d (hi\<lparr>hi_id := (hi_id hi)[c := n\<lparr>hn_next := hn_next m\<rparr>]\<rparr>))
                     else remove_loop d sid hi) }) }"

declare remove_loop.simps [code]

definition hashid_remove :: "int \<Rightarrow> hashid \<Rightarrow> (int \<times> hashid) option" where
  "hashid_remove sid hi =
     (let h = hash_index hi sid in
      do { c \<leftarrow> array_get (hi_hash hi) h;
           (case c of
              None \<Rightarrow> Some (- 1, hi)
            | Some i \<Rightarrow>
                do { n \<leftarrow> array_get (hi_id hi) i;
                     (if hn_id n = sid then
                        Some (clear_node i (hi\<lparr>hi_hash := (hi_hash hi)[h := hn_next n]\<rparr>))
                      else remove_loop i sid hi) }) })"

definition probe_slot :: "hashid \<Rightarrow> int \<Rightarrow> nat \<Rightarrow> nat" where
  "probe_slot hi sid i = nat ((int i + sid) mod int (hi_cap hi))"

definition hashid_insert :: "int \<Rightarrow> hashid \<Rightarrow> (nat \<times> hashid) option" where
  "hashid_insert sid hi =
     do { assert_opt (0 \<le> sid);
          i \<leftarrow> find (\<lambda>i. hn_id (hi_id hi ! probe_slot hi sid i) = - 1) [0..<hi_cap hi];
          let c = probe_slot hi sid i;
          n \<leftarrow> array_get (hi_id hi) c;
          assert_opt (hn_next n = None);
          let h = hash_index hi sid;
          old \<leftarrow> array_get (hi_hash hi) h;
          Some (c, hi\<lparr>hi_count := hi_count hi + 1,
                      hi_id := (hi_id hi)[c := \<lparr>hn_id = sid, hn_next = old\<rparr>],
                      hi_hash := (hi_hash hi)[h := Some c]\<rparr>) }"

definition hashid_full :: "hashid \<Rightarrow> bool" where
  "hashid_full hi \<longleftrightarrow> hi_count hi = int (hi_cap hi)"

subsection \<open>The chains\<close>

fun chain :: "hashid_node list \<Rightarrow> nat option \<Rightarrow> nat list \<Rightarrow> bool" where
  "chain nodes c [] \<longleftrightarrow> c = None"
| "chain nodes c (i # is) \<longleftrightarrow> c = Some i \<and> i < length nodes \<and> chain nodes (hn_next (nodes ! i)) is"

text \<open>
  The table with the chain of every hash bucket written out: the chains together hold every node in
  use once, each in the bucket of its id, and no two nodes have the same id.
\<close>

definition used :: "hashid_node list \<Rightarrow> nat \<Rightarrow> bool" where
  "used nodes i \<longleftrightarrow> i < length nodes \<and> hn_id (nodes ! i) \<noteq> - 1"

definition hash_shape :: "hashid \<Rightarrow> nat list list \<Rightarrow> bool" where
  "hash_shape hi cs \<longleftrightarrow> (\<exists>k. hi_hashmod hi = 2 ^ k - 1 \<and> length (hi_hash hi) = 2 ^ k) \<and>
     length cs = length (hi_hash hi) \<and> length (hi_id hi) = hi_cap hi"

definition chains_ok :: "hashid \<Rightarrow> nat list list \<Rightarrow> bool" where
  "chains_ok hi cs \<longleftrightarrow> (\<forall>h < length cs. chain (hi_id hi) (hi_hash hi ! h) (cs ! h) \<and> distinct (cs ! h) \<and>
     (\<forall>i. i \<in> set (cs ! h) \<longleftrightarrow> used (hi_id hi) i \<and> hash_index hi (hn_id (hi_id hi ! i)) = h))"

definition nodes_ok :: "hashid_node list \<Rightarrow> bool" where
  "nodes_ok nodes \<longleftrightarrow>
     (\<forall>i < length nodes. \<not> used nodes i \<longrightarrow> nodes ! i = free_node) \<and>
     inj_on (\<lambda>i. hn_id (nodes ! i)) (Collect (used nodes))"

definition hashid_rep :: "hashid \<Rightarrow> nat list list \<Rightarrow> bool" where
  "hashid_rep hi cs \<longleftrightarrow> hash_shape hi cs \<and> chains_ok hi cs \<and> nodes_ok (hi_id hi) \<and>
     hi_count hi = int (card (Collect (used (hi_id hi))))"

definition hashid_wf :: "hashid \<Rightarrow> bool" where
  "hashid_wf hi \<longleftrightarrow> (\<exists>cs. hashid_rep hi cs)"

text \<open>The table as a map from ids to slots.\<close>

definition slot_of :: "hashid \<Rightarrow> int \<Rightarrow> nat option" where
  "slot_of hi sid = find (\<lambda>i. used (hi_id hi) i \<and> hn_id (hi_id hi ! i) = sid) [0..<length (hi_id hi)]"

lemma slot_of_Some:
  assumes "nodes_ok (hi_id hi)"
  shows "slot_of hi sid = Some i \<longleftrightarrow> used (hi_id hi) i \<and> hn_id (hi_id hi ! i) = sid"
proof
  assume "slot_of hi sid = Some i"
  then show "used (hi_id hi) i \<and> hn_id (hi_id hi ! i) = sid" by (auto simp: slot_of_def find_Some_iff)
next
  assume i: "used (hi_id hi) i \<and> hn_id (hi_id hi ! i) = sid"
  then have "slot_of hi sid \<noteq> None" by (auto simp: slot_of_def find_None_iff used_def)
  then obtain j where j: "slot_of hi sid = Some j" by blast
  then have "used (hi_id hi) j" "hn_id (hi_id hi ! j) = sid" by (auto simp: slot_of_def find_Some_iff)
  with i assms have "j = i" by (auto simp: nodes_ok_def dest: inj_onD)
  with j show "slot_of hi sid = Some i" by simp
qed

lemma hash_index_mod:
  assumes "hi_hashmod hi = 2 ^ k - 1"
  shows "hash_index hi sid = nat (sid mod 2 ^ k)"
  by (simp add: hash_index_def assms mask_eq_exp_minus_1 [symmetric] take_bit_eq_mask [symmetric] take_bit_eq_mod)

lemma hash_index_less: "hash_shape hi cs \<Longrightarrow> hash_index hi sid < length (hi_hash hi)"
  by (auto simp: hash_shape_def hash_index_mod nat_less_iff)

lemma hash_index_cong: "hi_hashmod hi' = hi_hashmod hi \<Longrightarrow> hash_index hi' = hash_index hi"
  by (simp add: hash_index_def fun_eq_iff)

lemma chain_used: "chain nodes c is \<Longrightarrow> i \<in> set is \<Longrightarrow> i < length nodes"
  by (induction "is" arbitrary: c) auto

lemma chain_upd: "chain nodes c is \<Longrightarrow> i \<notin> set is \<Longrightarrow> chain (nodes[i := n]) c is"
  by (induction "is" arbitrary: c) auto

lemma chain_cong:
  "chain nodes c is \<Longrightarrow> length nodes' = length nodes \<Longrightarrow> (\<And>i. i \<in> set is \<Longrightarrow> nodes' ! i = nodes ! i) \<Longrightarrow>
     chain nodes' c is"
  by (induction "is" arbitrary: c) auto

lemma lookup_loop_chain:
  "chain nodes c is \<Longrightarrow>
     lookup_loop nodes c sid =
       Some (case find (\<lambda>i. hn_id (nodes ! i) = sid) is of Some i \<Rightarrow> int i | None \<Rightarrow> - 1)"
  by (induction "is" arbitrary: c) (auto simp: lookup_loop.simps)

lemma find_in_chain:
  assumes "hashid_rep hi cs"
  shows "find (\<lambda>i. hn_id (hi_id hi ! i) = sid) (cs ! hash_index hi sid) = slot_of hi sid"
proof (rule option_eqI)
  fix i
  let ?h = "hash_index hi sid"
  from assms have rep: "hash_shape hi cs" "chains_ok hi cs" "nodes_ok (hi_id hi)" by (simp_all add: hashid_rep_def)
  have h: "?h < length cs" using hash_index_less [OF rep(1)] rep(1) by (simp add: hash_shape_def)
  with rep(2) have ch: "\<And>i. i \<in> set (cs ! ?h) \<longleftrightarrow> used (hi_id hi) i \<and> hash_index hi (hn_id (hi_id hi ! i)) = ?h"
    by (simp add: chains_ok_def)
  show "find (\<lambda>i. hn_id (hi_id hi ! i) = sid) (cs ! ?h) = Some i \<longleftrightarrow> slot_of hi sid = Some i"
  proof
    assume "find (\<lambda>i. hn_id (hi_id hi ! i) = sid) (cs ! ?h) = Some i"
    then have "i \<in> set (cs ! ?h)" "hn_id (hi_id hi ! i) = sid" by (auto simp: find_Some_iff)
    with ch show "slot_of hi sid = Some i" by (simp add: slot_of_Some [OF rep(3)])
  next
    assume slot: "slot_of hi sid = Some i"
    then have i: "used (hi_id hi) i" "hn_id (hi_id hi ! i) = sid" by (simp_all add: slot_of_Some [OF rep(3)])
    with ch have "i \<in> set (cs ! ?h)" by simp
    then have "find (\<lambda>i. hn_id (hi_id hi ! i) = sid) (cs ! ?h) \<noteq> None" using i by (auto simp: find_None_iff)
    then obtain j where j: "find (\<lambda>i. hn_id (hi_id hi ! i) = sid) (cs ! ?h) = Some j" by blast
    then have "j \<in> set (cs ! ?h)" "hn_id (hi_id hi ! j) = sid" by (auto simp: find_Some_iff)
    with ch have "slot_of hi sid = Some j" by (simp add: slot_of_Some [OF rep(3)])
    with slot j show "find (\<lambda>i. hn_id (hi_id hi ! i) = sid) (cs ! ?h) = Some i" by simp
  qed
qed

text \<open>Looking an id up gives its slot, and \<open>- 1\<close> when it has none.\<close>

lemma hashid_lookup_result:
  assumes "hashid_rep hi cs"
  shows "hashid_lookup sid hi = Some (case slot_of hi sid of Some i \<Rightarrow> int i | None \<Rightarrow> - 1)"
proof -
  let ?h = "hash_index hi sid"
  from assms have rep: "hash_shape hi cs" "chains_ok hi cs" by (simp_all add: hashid_rep_def)
  have h: "?h < length (hi_hash hi)" "?h < length cs"
    using hash_index_less [OF rep(1)] rep(1) by (simp_all add: hash_shape_def)
  with rep(2) have "chain (hi_id hi) (hi_hash hi ! ?h) (cs ! ?h)" by (simp add: chains_ok_def)
  from lookup_loop_chain [OF this, of sid] find_in_chain [OF assms, of sid] h show ?thesis
    by (simp add: hashid_lookup_def)
qed

text \<open>The probe of \<open>hashid_insert\<close> visits every slot, so it finds one unless all are in use.\<close>

lemma probe_finds:
  assumes "0 < hi_cap hi" "j < hi_cap hi"
  shows "\<exists>i < hi_cap hi. probe_slot hi sid i = j"
proof -
  define i where "i = nat ((int j - sid) mod int (hi_cap hi))"
  have "int i = (int j - sid) mod int (hi_cap hi)" using assms(1) by (simp add: i_def)
  then have "(int i + sid) mod int (hi_cap hi) = int j mod int (hi_cap hi)" by (simp add: mod_simps)
  then have "probe_slot hi sid i = j" using assms(2) by (simp add: probe_slot_def)
  moreover have "i < hi_cap hi" using assms(1) by (simp add: i_def nat_less_iff)
  ultimately show ?thesis by blast
qed

lemma used_upd:
  "i < length nodes \<Longrightarrow> used (nodes[i := n]) j \<longleftrightarrow> (if j = i then hn_id n \<noteq> - 1 else used nodes j)"
  by (auto simp: used_def)

lemma free_slot:
  assumes "hashid_rep hi cs" "\<not> hashid_full hi"
  shows "\<exists>j < hi_cap hi. \<not> used (hi_id hi) j"
proof (rule ccontr)
  assume "\<not> ?thesis"
  then have "Collect (used (hi_id hi)) = {..<hi_cap hi}"
    using assms(1) by (auto simp: hashid_rep_def hash_shape_def used_def)
  with assms show False by (simp add: hashid_rep_def hashid_full_def)
qed

lemma insert_rep:
  assumes rep: "hashid_rep hi cs" and new: "slot_of hi sid = None" "0 \<le> sid"
    and c: "c < hi_cap hi" "\<not> used (hi_id hi) c"
  defines "h \<equiv> hash_index hi sid"
  defines "hi' \<equiv> hi\<lparr>hi_count := hi_count hi + 1, hi_id := (hi_id hi)[c := \<lparr>hn_id = sid, hn_next = hi_hash hi ! h\<rparr>],
    hi_hash := (hi_hash hi)[h := Some c]\<rparr>"
  shows "hashid_rep hi' (cs[h := c # cs ! h])" "slot_of hi' = (slot_of hi)(sid \<mapsto> c)"
proof -
  let ?nodes = "hi_id hi" and ?new = "\<lparr>hn_id = sid, hn_next = hi_hash hi ! h\<rparr>"
  from rep have R: "hash_shape hi cs" "chains_ok hi cs" "nodes_ok ?nodes"
    "hi_count hi = int (card (Collect (used ?nodes)))" by (simp_all add: hashid_rep_def)
  have len: "length ?nodes = hi_cap hi" "h < length (hi_hash hi)" "h < length cs"
    using hash_index_less [OF R(1)] R(1) by (simp_all add: hash_shape_def h_def)
  have c': "c < length ?nodes" using c(1) len(1) by simp
  have idx: "hash_index hi' = hash_index hi" by (rule hash_index_cong) (simp add: hi'_def)
  have used': "used (hi_id hi') j \<longleftrightarrow> j = c \<or> used ?nodes j" for j
    using used_upd [OF c', of ?new j] new(2) by (simp add: hi'_def)
  have ids': "hn_id (hi_id hi' ! j) = (if j = c then sid else hn_id (?nodes ! j))" for j
    using c' by (simp add: hi'_def)
  have fresh: "hn_id (?nodes ! j) \<noteq> sid" if "used ?nodes j" for j
    using new(1) slot_of_Some [OF R(3), of sid j] that by auto
  have notin: "c \<notin> set (cs ! g)" if "g < length cs" for g using R(2) c(2) that by (auto simp: chains_ok_def)
  have "chains_ok hi' (cs[h := c # cs ! h])" unfolding chains_ok_def
  proof (intro allI impI conjI)
    fix g assume "g < length (cs[h := c # cs ! h])"
    then have g: "g < length cs" by simp
    with R(2) have old: "chain ?nodes (hi_hash hi ! g) (cs ! g)" "distinct (cs ! g)"
      "\<And>i. i \<in> set (cs ! g) \<longleftrightarrow> used ?nodes i \<and> hash_index hi (hn_id (?nodes ! i)) = g" by (simp_all add: chains_ok_def)
    have upd: "chain (hi_id hi') (hi_hash hi ! g) (cs ! g)"
      using chain_upd [OF old(1) notin [OF g]] by (simp add: hi'_def)
    then show "chain (hi_id hi') (hi_hash hi' ! g) (cs[h := c # cs ! h] ! g)"
      using g len c' by (cases "g = h") (simp_all add: hi'_def)
    show "distinct (cs[h := c # cs ! h] ! g)" using old(2) notin [OF g] g by (cases "g = h") simp_all
    show "i \<in> set (cs[h := c # cs ! h] ! g) \<longleftrightarrow> used (hi_id hi') i \<and> hash_index hi' (hn_id (hi_id hi' ! i)) = g" for i
      unfolding used' ids' idx using old(3) [of i] c(2) g by (cases "g = h") (auto simp: h_def)
  qed
  moreover have "hash_shape hi' (cs[h := c # cs ! h])" using R(1) by (simp add: hash_shape_def hi'_def)
  moreover have nodes': "nodes_ok (hi_id hi')"
  proof -
    have "hi_id hi' ! i = free_node" if "i < length (hi_id hi')" "\<not> used (hi_id hi') i" for i
      using that R(3) used' by (auto simp: nodes_ok_def hi'_def)
    moreover have "inj_on (\<lambda>i. hn_id (hi_id hi' ! i)) (Collect (used (hi_id hi')))"
      using R(3) fresh c(2) unfolding used' ids' nodes_ok_def by (auto simp: inj_on_def)
    ultimately show ?thesis by (simp add: nodes_ok_def)
  qed
  moreover have "hi_count hi' = int (card (Collect (used (hi_id hi'))))"
  proof -
    have "Collect (used (hi_id hi')) = insert c (Collect (used ?nodes))" using used' by auto
    moreover have "finite (Collect (used ?nodes))" by (rule finite_subset [of _ "{..<length ?nodes}"]) (auto simp: used_def)
    ultimately show ?thesis using c(2) R(4) by (simp add: hi'_def)
  qed
  ultimately show "hashid_rep hi' (cs[h := c # cs ! h])" by (simp add: hashid_rep_def)
  show "slot_of hi' = (slot_of hi)(sid \<mapsto> c)"
  proof (rule ext, rule option_eqI)
    fix s i
    show "slot_of hi' s = Some i \<longleftrightarrow> ((slot_of hi)(sid \<mapsto> c)) s = Some i"
      unfolding slot_of_Some [OF nodes'] used' ids' using fresh c(2)
      by (auto simp: slot_of_Some [OF R(3)])
  qed
qed

lemma hashid_insert_result:
  assumes rep: "hashid_rep hi cs" and "slot_of hi sid = None" "0 \<le> sid" "\<not> hashid_full hi"
  shows "\<exists>c hi' cs'. hashid_insert sid hi = Some (c, hi') \<and> hashid_rep hi' cs' \<and> c < hi_cap hi \<and>
    hi_cap hi' = hi_cap hi \<and> c \<notin> ran (slot_of hi) \<and> slot_of hi' = (slot_of hi)(sid \<mapsto> c)"
proof -
  from rep have R: "hash_shape hi cs" "nodes_ok (hi_id hi)" by (simp_all add: hashid_rep_def)
  have len: "length (hi_id hi) = hi_cap hi" "hash_index hi sid < length (hi_hash hi)"
    using hash_index_less [OF R(1)] R(1) by (simp_all add: hash_shape_def)
  from free_slot [OF rep assms(4)] obtain j where j: "j < hi_cap hi" "\<not> used (hi_id hi) j" by blast
  moreover from j obtain i where "i < hi_cap hi" "probe_slot hi sid i = j" using probe_finds [of hi j sid] by auto
  ultimately have "find (\<lambda>i. hn_id (hi_id hi ! probe_slot hi sid i) = - 1) [0..<hi_cap hi] \<noteq> None"
    using len(1) by (auto simp: find_None_iff used_def)
  then obtain k where k: "find (\<lambda>i. hn_id (hi_id hi ! probe_slot hi sid i) = - 1) [0..<hi_cap hi] = Some k" by blast
  let ?c = "probe_slot hi sid k"
  have c: "?c < hi_cap hi" "\<not> used (hi_id hi) ?c"
    using k j(1) by (auto simp: find_Some_iff probe_slot_def used_def nat_less_iff)
  then have "hi_id hi ! ?c = free_node" using R(2) len(1) by (simp add: nodes_ok_def)
  then have "hashid_insert sid hi = Some (?c, hi\<lparr>hi_count := hi_count hi + 1,
      hi_id := (hi_id hi)[?c := \<lparr>hn_id = sid, hn_next = hi_hash hi ! hash_index hi sid\<rparr>],
      hi_hash := (hi_hash hi)[hash_index hi sid := Some ?c]\<rparr>)"
    using k c(1) len assms(3) by (simp add: hashid_insert_def free_node_def Let_def)
  moreover have "?c \<notin> ran (slot_of hi)" using c(2) by (auto simp: ran_def slot_of_Some [OF R(2)])
  ultimately show ?thesis using insert_rep [OF rep assms(2,3) c] c(1) by auto
qed

text \<open>Unlinking a node behind the first of a chain.\<close>

lemma remove_loop_chain:
  assumes "chain (hi_id hi) (Some c) (c # is)" "distinct (c # is)"
  shows "case find (\<lambda>i. hn_id (hi_id hi ! i) = sid) is of
      None \<Rightarrow> remove_loop c sid hi = Some (- 1, hi)
    | Some d \<Rightarrow> \<exists>nodes'. remove_loop c sid hi = Some (int d, hi\<lparr>hi_id := nodes', hi_count := hi_count hi - 1\<rparr>) \<and>
        length nodes' = length (hi_id hi) \<and> chain nodes' (Some c) (c # remove1 d is) \<and>
        (\<forall>j. j \<noteq> d \<longrightarrow> hn_id (nodes' ! j) = hn_id (hi_id hi ! j)) \<and> nodes' ! d = free_node \<and>
        (\<forall>j. j \<notin> set (c # is) \<longrightarrow> nodes' ! j = hi_id hi ! j)"
  using assms
proof (induction "is" arbitrary: c)
  case Nil
  then show ?case by (simp add: remove_loop.simps [of c])
next
  case (Cons d ds)
  let ?nodes = "hi_id hi"
  have c: "c < length ?nodes" "hn_next (?nodes ! c) = Some d" "d < length ?nodes"
    "chain ?nodes (hn_next (?nodes ! d)) ds" "c \<noteq> d" "c \<notin> set ds" "d \<notin> set ds"
    using Cons.prems by auto
  show ?case
  proof (cases "hn_id (?nodes ! d) = sid")
    case True
    let ?n1 = "?nodes[c := (?nodes ! c)\<lparr>hn_next := hn_next (?nodes ! d)\<rparr>]"
    let ?n2 = "?n1[d := free_node]"
    have "remove_loop c sid hi = Some (int d, hi\<lparr>hi_id := ?n2, hi_count := hi_count hi - 1\<rparr>)"
      using c True by (simp add: remove_loop.simps [of c] clear_node_def)
    moreover have "chain ?n2 (hn_next (?nodes ! d)) ds" using c by (intro chain_upd) auto
    moreover have "hn_id (?n2 ! j) = hn_id (?nodes ! j)" if "j \<noteq> d" for j
      using that c(1) by (cases "j = c") simp_all
    ultimately show ?thesis using True c by auto
  next
    case False
    then have "remove_loop c sid hi = remove_loop d sid hi" using c by (simp add: remove_loop.simps [of c])
    note eq = this
    have IH: "chain ?nodes (Some d) (d # ds)" "distinct (d # ds)" using c Cons.prems(2) by simp_all
    show ?thesis
    proof (cases "find (\<lambda>i. hn_id (?nodes ! i) = sid) ds")
      case None
      with False eq Cons.IH [OF IH] show ?thesis by simp
    next
      case (Some e)
      then have e: "e \<in> set ds" by (auto simp: find_Some_iff)
      from Some Cons.IH [OF IH] obtain nodes' where
        n: "remove_loop d sid hi = Some (int e, hi\<lparr>hi_id := nodes', hi_count := hi_count hi - 1\<rparr>)"
          "length nodes' = length ?nodes" "chain nodes' (Some d) (d # remove1 e ds)"
          "\<forall>j. j \<noteq> e \<longrightarrow> hn_id (nodes' ! j) = hn_id (?nodes ! j)" "nodes' ! e = free_node"
          "\<forall>j. j \<notin> set (d # ds) \<longrightarrow> nodes' ! j = ?nodes ! j" by auto
      have "nodes' ! c = ?nodes ! c" using n(6) c by simp
      then have "chain nodes' (Some c) (c # remove1 e (d # ds))" using c e n(2,3) by auto
      moreover have "\<forall>j. j \<notin> set (c # d # ds) \<longrightarrow> nodes' ! j = ?nodes ! j" using n(6) by simp
      moreover have "find (\<lambda>i. hn_id (?nodes ! i) = sid) (d # ds) = Some e" using False Some by simp
      ultimately show ?thesis unfolding eq using n(1,2,4,5)
        by (simp only: option.case) (intro exI [of _ nodes'] conjI; (assumption | rule refl))
    qed
  qed
qed

lemma remove_rep:
  assumes rep: "hashid_rep hi cs" and slot: "slot_of hi sid = Some d"
  defines "h \<equiv> hash_index hi sid"
  assumes nodes': "length nodes' = length (hi_id hi)" "nodes' ! d = free_node"
      "\<And>j. j \<noteq> d \<Longrightarrow> hn_id (nodes' ! j) = hn_id (hi_id hi ! j)"
      "\<And>j. j \<notin> set (cs ! h) \<Longrightarrow> nodes' ! j = hi_id hi ! j"
    and ch: "chain nodes' c' (remove1 d (cs ! h))"
  defines "hi' \<equiv> hi\<lparr>hi_hash := (hi_hash hi)[h := c'], hi_id := nodes', hi_count := hi_count hi - 1\<rparr>"
  shows "hashid_rep hi' (cs[h := remove1 d (cs ! h)]) \<and> slot_of hi' = (slot_of hi)(sid := None)"
proof -
  let ?nodes = "hi_id hi"
  from rep have R: "hash_shape hi cs" "chains_ok hi cs" "nodes_ok ?nodes"
    "hi_count hi = int (card (Collect (used ?nodes)))" by (simp_all add: hashid_rep_def)
  have len: "length ?nodes = hi_cap hi" "h < length (hi_hash hi)" "h < length cs"
    using hash_index_less [OF R(1)] R(1) by (simp_all add: hash_shape_def h_def)
  have d: "used ?nodes d" "hn_id (?nodes ! d) = sid" using slot slot_of_Some [OF R(3)] by auto
  have idx: "hash_index hi' = hash_index hi" by (rule hash_index_cong) (simp add: hi'_def)
  have used': "used nodes' j \<longleftrightarrow> j \<noteq> d \<and> used ?nodes j" for j
    using nodes'(1-3) by (cases "j = d") (auto simp: used_def free_node_def)
  have "chains_ok hi' (cs[h := remove1 d (cs ! h)])" unfolding chains_ok_def
  proof (intro allI impI conjI)
    fix g assume "g < length (cs[h := remove1 d (cs ! h)])"
    then have g: "g < length cs" by simp
    with R(2) have old: "chain ?nodes (hi_hash hi ! g) (cs ! g)" "distinct (cs ! g)"
      "\<And>i. i \<in> set (cs ! g) \<longleftrightarrow> used ?nodes i \<and> hash_index hi (hn_id (?nodes ! i)) = g" by (simp_all add: chains_ok_def)
    have mem: "i \<in> set (cs ! h) \<longleftrightarrow> used ?nodes i \<and> hash_index hi (hn_id (?nodes ! i)) = h" for i
      using R(2) len(3) by (simp add: chains_ok_def)
    show "chain (hi_id hi') (hi_hash hi' ! g) (cs[h := remove1 d (cs ! h)] ! g)"
    proof (cases "g = h")
      case True
      with ch len show ?thesis by (simp add: hi'_def)
    next
      case False
      with old(3) mem have "\<forall>i \<in> set (cs ! g). i \<notin> set (cs ! h)" by auto
      then have "\<And>i. i \<in> set (cs ! g) \<Longrightarrow> nodes' ! i = ?nodes ! i" using nodes'(4) by blast
      from chain_cong [OF old(1) nodes'(1) this] have "chain nodes' (hi_hash hi ! g) (cs ! g)" .
      with False show ?thesis by (simp add: hi'_def)
    qed
    show "distinct (cs[h := remove1 d (cs ! h)] ! g)" using old(2) g by (cases "g = h") simp_all
    show "i \<in> set (cs[h := remove1 d (cs ! h)] ! g) \<longleftrightarrow>
        used (hi_id hi') i \<and> hash_index hi' (hn_id (hi_id hi' ! i)) = g" for i
    proof (cases "i = d")
      case True
      have "d \<notin> set (cs ! g)" if "g \<noteq> h" using old(3) [of d] d that by (simp add: h_def)
      moreover have "d \<notin> set (remove1 d (cs ! h))" if "g = h" using old(2) that by simp
      ultimately show ?thesis using True used' [of d] len(3) by (cases "g = h") (simp_all add: hi'_def)
    next
      case False
      have "i \<in> set (cs[h := remove1 d (cs ! h)] ! g) \<longleftrightarrow> i \<in> set (cs ! g)"
        using False g by (cases "g = h") (simp_all add: in_set_remove1)
      then show ?thesis unfolding idx using False old(3) [of i] used' [of i] nodes'(3) [of i] by (simp add: hi'_def)
    qed
  qed
  moreover have "hash_shape hi' (cs[h := remove1 d (cs ! h)])" using R(1) nodes'(1) by (simp add: hash_shape_def hi'_def)
  moreover have ok: "nodes_ok (hi_id hi')"
  proof -
    have "nodes' ! i = free_node" if "i < length nodes'" "\<not> used nodes' i" for i
    proof (cases "i = d")
      case False
      with that nodes'(1) used' have i: "\<not> used ?nodes i" "i < length ?nodes" by auto
      moreover have "i \<notin> set (cs ! h)" using R(2) len(3) i(1) by (auto simp: chains_ok_def)
      ultimately show ?thesis using nodes'(4) R(3) by (simp add: nodes_ok_def)
    qed (simp add: nodes'(2))
    moreover have "inj_on (\<lambda>i. hn_id (nodes' ! i)) (Collect (used nodes'))"
      using R(3) nodes'(3) used' by (auto simp: nodes_ok_def inj_on_def)
    ultimately show ?thesis by (simp add: nodes_ok_def hi'_def)
  qed
  moreover have "hi_count hi' = int (card (Collect (used (hi_id hi'))))"
  proof -
    have "Collect (used nodes') = Collect (used ?nodes) - {d}" using used' by auto
    moreover have "finite (Collect (used ?nodes))" by (rule finite_subset [of _ "{..<length ?nodes}"]) (auto simp: used_def)
    moreover from this d(1) have "0 < card (Collect (used ?nodes))" by (auto simp: card_gt_0_iff)
    ultimately show ?thesis using d(1) R(4) by (simp add: hi'_def of_nat_diff)
  qed
  moreover have "slot_of hi' s = ((slot_of hi)(sid := None)) s" for s
  proof (rule option_eqI)
    fix i
    have "i = d" if "used ?nodes i" "hn_id (?nodes ! i) = sid" using that slot slot_of_Some [OF R(3), of sid i] by simp
    then show "slot_of hi' s = Some i \<longleftrightarrow> ((slot_of hi)(sid := None)) s = Some i"
      unfolding slot_of_Some [OF ok] using used' [of i] nodes'(3) [of i] d
      by (cases "i = d") (auto simp: hi'_def slot_of_Some [OF R(3)])
  qed
  ultimately show ?thesis by (auto simp: hashid_rep_def)
qed

lemma find_remove_head: "find P xs = Some d \<Longrightarrow> distinct xs \<Longrightarrow> xs = y # ys \<Longrightarrow> \<not> P y \<Longrightarrow> find P ys = Some d \<and> d \<noteq> y"
  by (auto simp: find_Some_iff)

lemma hashid_remove_result:
  assumes rep: "hashid_rep hi cs"
  shows "case slot_of hi sid of
      None \<Rightarrow> hashid_remove sid hi = Some (- 1, hi)
    | Some d \<Rightarrow> \<exists>hi' cs'. hashid_remove sid hi = Some (int d, hi') \<and> hashid_rep hi' cs' \<and>
        slot_of hi' = (slot_of hi)(sid := None) \<and> hi_cap hi' = hi_cap hi"
proof -
  define h where "h = hash_index hi sid"
  let ?find = "find (\<lambda>i. hn_id (hi_id hi ! i) = sid) (cs ! h)"
  from rep have R: "hash_shape hi cs" "chains_ok hi cs" "nodes_ok (hi_id hi)" by (simp_all add: hashid_rep_def)
  have h: "h < length (hi_hash hi)" "h < length cs"
    using hash_index_less [OF R(1)] R(1) by (simp_all add: hash_shape_def h_def)
  from R(2) h(2) have ch: "chain (hi_id hi) (hi_hash hi ! h) (cs ! h)" "distinct (cs ! h)" by (simp_all add: chains_ok_def)
  have f: "?find = slot_of hi sid" unfolding h_def by (rule find_in_chain [OF rep])
  show ?thesis
  proof (cases "cs ! h")
    case Nil
    with ch f h show ?thesis by (simp add: hashid_remove_def h_def [symmetric] Let_def)
  next
    case (Cons c tl)
    with ch have c: "hi_hash hi ! h = Some c" "c < length (hi_id hi)"
      "chain (hi_id hi) (Some c) (c # tl)" "distinct (c # tl)" "chain (hi_id hi) (hn_next (hi_id hi ! c)) tl" by auto
    show ?thesis
    proof (cases "hn_id (hi_id hi ! c) = sid")
      case True
      let ?nodes = "(hi_id hi)[c := free_node]"
      have slot: "slot_of hi sid = Some c" using f Cons True by simp
      have ch': "chain ?nodes (hn_next (hi_id hi ! c)) (remove1 c (cs ! h))"
        using Cons c(4,5) by (simp add: chain_upd)
      have "hashid_remove sid hi = Some (int c, hi\<lparr>hi_hash := (hi_hash hi)[h := hn_next (hi_id hi ! c)],
          hi_id := ?nodes, hi_count := hi_count hi - 1\<rparr>)"
        using h c True by (simp add: hashid_remove_def h_def [symmetric] Let_def clear_node_def)
      with slot remove_rep [OF rep slot _ _ _ _ ch' [unfolded h_def]] c Cons show ?thesis
        by (auto simp: h_def)
    next
      case False
      have rem: "hashid_remove sid hi = remove_loop c sid hi"
        using h c False by (simp add: hashid_remove_def h_def [symmetric] Let_def)
      note loop = remove_loop_chain [OF c(3,4), of sid]
      have find: "find (\<lambda>i. hn_id (hi_id hi ! i) = sid) tl = slot_of hi sid" using f Cons False by simp
      show ?thesis
      proof (cases "slot_of hi sid")
        case None
        with loop find rem show ?thesis by simp
      next
        case (Some d)
        then have d: "d \<in> set tl" using find by (metis find_Some_iff nth_mem)
        from Some loop find obtain nodes' where
          n: "remove_loop c sid hi = Some (int d, hi\<lparr>hi_id := nodes', hi_count := hi_count hi - 1\<rparr>)"
            "length nodes' = length (hi_id hi)" "chain nodes' (Some c) (c # remove1 d tl)"
            "\<And>j. j \<noteq> d \<Longrightarrow> hn_id (nodes' ! j) = hn_id (hi_id hi ! j)" "nodes' ! d = free_node"
            "\<And>j. j \<notin> set (c # tl) \<Longrightarrow> nodes' ! j = hi_id hi ! j" by auto
        have ch': "chain nodes' (Some c) (remove1 d (cs ! hash_index hi sid))"
          using n(3) d c(4) Cons by (auto simp: h_def)
        have "(hi_hash hi)[h := Some c] = hi_hash hi" using c(1) by (metis list_update_id)
        then have "hi\<lparr>hi_id := nodes', hi_count := hi_count hi - 1\<rparr> =
            hi\<lparr>hi_hash := (hi_hash hi)[h := Some c], hi_id := nodes', hi_count := hi_count hi - 1\<rparr>" by simp
        with n remove_rep [OF rep Some n(2,5,4) _ ch'] Cons rem Some show ?thesis by (auto simp: h_def)
      qed
    qed
  qed
qed

lemma hash_cap_pow: "\<exists>k. hash_cap (2 ^ j) mx = 2 ^ k \<and> mx \<le> 2 ^ k"
proof (induction "mx - 2 ^ j" arbitrary: j rule: less_induct)
  case less
  show ?case
  proof (cases "2 ^ j < mx")
    case True
    moreover have "(2 :: nat) ^ j < 2 ^ Suc j" by simp
    ultimately have "mx - 2 ^ Suc j < mx - 2 ^ j" by (intro diff_less_mono2)
    from less [OF this] True show ?thesis by (simp add: hash_cap.simps [of "2 ^ j"] mult.commute)
  next
    case False
    then show ?thesis by (simp add: hash_cap.simps [of "2 ^ j"] not_less)
  qed
qed

lemma hashid_init_rep: "\<exists>cs. hashid_rep (hashid_init mx) cs" "slot_of (hashid_init mx) sid = None"
proof -
  let ?hi = "hashid_init mx"
  obtain k where k: "hash_cap 16 mx = 2 ^ k" using hash_cap_pow [of 4 mx] by auto
  have none: "\<not> used (hi_id ?hi) i" for i by (auto simp: hashid_init_def used_def free_node_def Let_def)
  then show "slot_of ?hi sid = None" by (simp add: slot_of_def find_None_iff)
  have "hash_shape ?hi (replicate (2 ^ k) [])" by (auto simp: hash_shape_def hashid_init_def k Let_def)
  moreover have "chains_ok ?hi (replicate (2 ^ k) [])" using none by (auto simp: chains_ok_def hashid_init_def k Let_def)
  moreover have "nodes_ok (hi_id ?hi)" using none by (auto simp: nodes_ok_def hashid_init_def Let_def inj_on_def)
  moreover have "Collect (used (hi_id ?hi)) = {}" using none by auto
  then have "card (Collect (used (hi_id ?hi))) = 0" by (simp only: card.empty)
  then have "hi_count ?hi = int (card (Collect (used (hi_id ?hi))))" by (simp add: hashid_init_def Let_def)
  ultimately show "\<exists>cs. hashid_rep ?hi cs" unfolding hashid_rep_def by blast
qed

lemma full_dom:
  assumes "hashid_rep hi cs"
  shows "finite (dom (slot_of hi))" "hi_count hi = int (card (dom (slot_of hi)))"
proof -
  from assms have R: "nodes_ok (hi_id hi)" "hi_count hi = int (card (Collect (used (hi_id hi))))" by (simp_all add: hashid_rep_def)
  have "dom (slot_of hi) = (\<lambda>i. hn_id (hi_id hi ! i)) ` Collect (used (hi_id hi))"
    by (auto simp: dom_def slot_of_Some [OF R(1)])
  moreover have "finite (Collect (used (hi_id hi)))" by (rule finite_subset [of _ "{..<length (hi_id hi)}"]) (auto simp: used_def)
  ultimately show "finite (dom (slot_of hi))" "hi_count hi = int (card (dom (slot_of hi)))"
    using R by (simp_all add: nodes_ok_def card_image)
qed

subsection \<open>The interface of the table\<close>

text \<open>
  What the gate relies on: an id has at most one slot, different ids have different slots, and a slot
  is given out only while it is free.
\<close>

locale id_table =
  fixes inv :: "'s \<Rightarrow> bool"
    and slot :: "'s \<Rightarrow> int \<Rightarrow> nat option"
    and cap :: "'s \<Rightarrow> nat"
    and full :: "'s \<Rightarrow> bool"
    and lookup :: "int \<Rightarrow> 's \<Rightarrow> int option"
    and remove :: "int \<Rightarrow> 's \<Rightarrow> (int \<times> 's) option"
    and insert :: "int \<Rightarrow> 's \<Rightarrow> (nat \<times> 's) option"
  assumes range_law: "inv s \<Longrightarrow> slot s a = Some i \<Longrightarrow> i < cap s"
    and inj_law: "inv s \<Longrightarrow> slot s a = Some i \<Longrightarrow> slot s b = Some i \<Longrightarrow> a = b"
    and full_law: "inv s \<Longrightarrow> full s \<longleftrightarrow> card (dom (slot s)) = cap s"
    and lookup_law: "inv s \<Longrightarrow> lookup a s = Some (case slot s a of Some i \<Rightarrow> int i | None \<Rightarrow> - 1)"
    and remove_law: "inv s \<Longrightarrow> \<exists>s'. remove a s = Some (case slot s a of Some i \<Rightarrow> int i | None \<Rightarrow> - 1, s') \<and>
      inv s' \<and> slot s' = (slot s)(a := None) \<and> cap s' = cap s"
    and insert_law: "inv s \<Longrightarrow> slot s a = None \<Longrightarrow> 0 \<le> a \<Longrightarrow> \<not> full s \<Longrightarrow>
      \<exists>i s'. insert a s = Some (i, s') \<and> inv s' \<and> i \<notin> ran (slot s) \<and> slot s' = (slot s)(a \<mapsto> i) \<and> cap s' = cap s"
begin

text \<open>Inserting an id and removing it again frees exactly its slot.\<close>

lemma insert_remove:
  assumes "inv s" "slot s a = None" "0 \<le> a" "\<not> full s" "insert a s = Some (i, s1)"
  shows "\<exists>s2. remove a s1 = Some (int i, s2) \<and> inv s2 \<and> slot s2 = slot s \<and> i < cap s"
proof -
  from insert_law [OF assms(1-4)] assms(5) have s1: "inv s1" "slot s1 = (slot s)(a \<mapsto> i)" "cap s1 = cap s" by auto
  from remove_law [OF s1(1), of a] range_law [OF s1(1), of a i] s1 assms(2) show ?thesis
    by (auto simp: fun_upd_idem)
qed

lemma insert_lookup:
  assumes "inv s" "slot s a = None" "0 \<le> a" "\<not> full s" "insert a s = Some (i, s1)"
  shows "lookup b s1 = (if b = a then Some (int i) else lookup b s)"
proof -
  from insert_law [OF assms(1-4)] assms(5) have "inv s1" "slot s1 = (slot s)(a \<mapsto> i)" by auto
  then show ?thesis using lookup_law [OF assms(1)] lookup_law by simp
qed

end

lemma hashid_wf_rep: "hashid_wf hi \<Longrightarrow> \<exists>cs. hashid_rep hi cs"
  by (simp add: hashid_wf_def)

interpretation hids: id_table hashid_wf slot_of hi_cap hashid_full hashid_lookup hashid_remove hashid_insert
proof unfold_locales
  fix hi :: hashid and a b :: int and i :: nat
  assume wf: "hashid_wf hi"
  then obtain cs where rep: "hashid_rep hi cs" by (auto simp: hashid_wf_def)
  then have R: "nodes_ok (hi_id hi)" "length (hi_id hi) = hi_cap hi" by (simp_all add: hashid_rep_def hash_shape_def)
  show "hashid_full hi \<longleftrightarrow> card (dom (slot_of hi)) = hi_cap hi" using full_dom [OF rep] by (simp add: hashid_full_def)
  show "hashid_lookup a hi = Some (case slot_of hi a of Some i \<Rightarrow> int i | None \<Rightarrow> - 1)" by (rule hashid_lookup_result [OF rep])
  show "\<exists>hi'. hashid_remove a hi = Some (case slot_of hi a of Some i \<Rightarrow> int i | None \<Rightarrow> - 1, hi') \<and>
      hashid_wf hi' \<and> slot_of hi' = (slot_of hi)(a := None) \<and> hi_cap hi' = hi_cap hi"
    using hashid_remove_result [OF rep, of a] wf by (auto simp: hashid_wf_def fun_upd_idem split: option.splits)
  assume slot: "slot_of hi a = Some i"
  then have u: "used (hi_id hi) i" "hn_id (hi_id hi ! i) = a" by (simp_all add: slot_of_Some [OF R(1)])
  then show "i < hi_cap hi" using R(2) by (simp add: used_def)
  assume "slot_of hi b = Some i"
  with u show "a = b" by (simp add: slot_of_Some [OF R(1)])
next
  fix hi :: hashid and a :: int
  assume "hashid_wf hi" and new: "slot_of hi a = None" "0 \<le> a" "\<not> hashid_full hi"
  then obtain cs where "hashid_rep hi cs" by (auto simp: hashid_wf_def)
  from hashid_insert_result [OF this new] show "\<exists>i hi'. hashid_insert a hi = Some (i, hi') \<and> hashid_wf hi' \<and>
      i \<notin> ran (slot_of hi) \<and> slot_of hi' = (slot_of hi)(a \<mapsto> i) \<and> hi_cap hi' = hi_cap hi"
    by (auto simp: hashid_wf_def)
qed

subsection \<open>Properties\<close>

text \<open>The connection table as a finite injective map: inserting a new id gives it a free slot, after
  which looking it up gives that slot and every other id gives what it gave; removing it gives the
  slot back and restores the table's map.\<close>

theorem hashid_insert_lookup_remove:
  assumes "hashid_wf hi" "slot_of hi a = None" "0 \<le> a" "\<not> hashid_full hi"
  shows "\<exists>i hi1 hi2. hashid_insert a hi = Some (i, hi1) \<and> hashid_wf hi1 \<and> i < hi_cap hi \<and> i \<notin> ran (slot_of hi) \<and>
    hashid_lookup b hi1 = (if b = a then Some (int i) else hashid_lookup b hi) \<and>
    hashid_remove a hi1 = Some (int i, hi2) \<and> hashid_wf hi2 \<and> slot_of hi2 = slot_of hi"
proof -
  from hids.insert_law [OF assms] obtain i hi1 where
    i: "hashid_insert a hi = Some (i, hi1)" "hashid_wf hi1" "i \<notin> ran (slot_of hi)" by blast
  from hids.insert_remove [OF assms i(1)] hids.insert_lookup [OF assms i(1), of b] i show ?thesis by blast
qed

lemma hashid_init_wf: "hashid_wf (hashid_init mx)"
  using hashid_init_rep(1) by (simp add: hashid_wf_def)

theorem hashid_insert_lookup_remove_witness:
  "\<exists>i hi1 hi2. hashid_insert 7 (hashid_init 5) = Some (i, hi1) \<and> hashid_lookup 7 hi1 = Some (int i) \<and>
    hashid_remove 7 hi1 = Some (int i, hi2) \<and> slot_of hi2 = slot_of (hashid_init 5)"
proof -
  have "\<not> hashid_full (hashid_init 5)" by (simp add: hashid_full_def hashid_init_def Let_def)
  from hashid_insert_lookup_remove [OF hashid_init_wf hashid_init_rep(2) _ this, of 7 7] show ?thesis by auto
qed

end
