(* ===== verification/C_Strings.thy ===== *)
theory C_Strings
  imports Prelude
begin

section \<open>The C string functions the services call\<close>

text \<open>
  What the sources use of the C library on text: \<open>strtol\<close> and \<open>strtoul\<close> with their clamping and the
  truncation of their result to 32 bits, \<open>strsep\<close>, and the \<open>%d\<close>, \<open>%u\<close> and \<open>%x\<close> conversions of
  \<open>printf\<close>. A C string is the list of its characters before the terminating zero.
\<close>

definition c_isspace :: "char \<Rightarrow> bool" where
  "c_isspace c \<longleftrightarrow> c \<in> {CHR '' '', CHR 0x09, CHR 0x0A, CHR 0x0B, CHR 0x0C, CHR 0x0D}"

definition digit_val :: "char \<Rightarrow> nat option" where
  "digit_val c =
     (let k = of_char c :: nat in
      if 48 \<le> k \<and> k \<le> 57 then Some (k - 48)
      else if 97 \<le> k \<and> k \<le> 122 then Some (k - 87)
      else if 65 \<le> k \<and> k \<le> 90 then Some (k - 55) else None)"

fun parse_digits :: "nat \<Rightarrow> string \<Rightarrow> nat \<Rightarrow> nat" where
  "parse_digits base [] acc = acc"
| "parse_digits base (c # cs) acc =
     (case digit_val c of
        Some d \<Rightarrow> if d < base then parse_digits base cs (acc * base + d) else acc
      | None \<Rightarrow> acc)"

fun strip_sign :: "string \<Rightarrow> bool \<times> string" where
  "strip_sign (c # cs) = (if c = CHR ''-'' then (True, cs) else if c = CHR ''+'' then (False, cs) else (False, c # cs))"
| "strip_sign [] = (False, [])"

text \<open>In base 16 a \<open>0x\<close> before a digit is part of the number.\<close>

fun strip_0x :: "nat \<Rightarrow> string \<Rightarrow> string" where
  "strip_0x base (z # x # d # cs) =
     (if base = 16 \<and> z = CHR ''0'' \<and> x \<in> {CHR ''x'', CHR ''X''} \<and> (\<exists>v < 16. digit_val d = Some v)
      then d # cs else z # x # d # cs)"
| "strip_0x base cs = cs"

definition scan_number :: "nat \<Rightarrow> string \<Rightarrow> bool \<times> nat" where
  "scan_number base s =
     (let (neg, t) = strip_sign (dropWhile c_isspace s) in (neg, parse_digits base (strip_0x base t) 0))"

text \<open>\<open>(int) strtol(s, NULL, base)\<close> and \<open>(uint32_t) strtoul(s, NULL, base)\<close>.\<close>

definition strtol :: "nat \<Rightarrow> string \<Rightarrow> int" where
  "strtol base s =
     (let (neg, v) = scan_number base s;
          x = (if neg then max (- (2 ^ 63)) (- int v) else min (2 ^ 63 - 1) (int v))
      in sint (word_of_int x :: u32))"

definition strtoul :: "nat \<Rightarrow> string \<Rightarrow> u32" where
  "strtoul base s =
     (let (neg, v) = scan_number base s
      in if 2 ^ 64 \<le> v then - 1 else if neg then - of_nat v else of_nat v)"

text \<open>The \<open>%d\<close> and \<open>%u\<close> conversions of \<open>sscanf\<close>: the number and the rest of the text, unless there is no digit.\<close>

definition scan_int :: "string \<Rightarrow> (int \<times> string) option" where
  "scan_int s =
     (let (neg, t) = strip_sign (dropWhile c_isspace s);
          digits = takeWhile (\<lambda>c. \<exists>d < 10. digit_val c = Some d) t in
      if digits = [] then None
      else Some (strtol 10 ((if neg then ''-'' else []) @ digits), drop (length digits) t))"

definition scan_uint :: "string \<Rightarrow> (u32 \<times> string) option" where
  "scan_uint s =
     (let (neg, t) = strip_sign (dropWhile c_isspace s);
          digits = takeWhile (\<lambda>c. \<exists>d < 10. digit_val c = Some d) t in
      if digits = [] then None
      else Some (strtoul 10 ((if neg then ''-'' else []) @ digits), drop (length digits) t))"

text \<open>\<open>strsep\<close>: the token before the first delimiter, and what follows it if there is one.\<close>

definition strsep :: "char set \<Rightarrow> string \<Rightarrow> string \<times> string option" where
  "strsep delims s =
     (case dropWhile (\<lambda>c. c \<notin> delims) s of
        [] \<Rightarrow> (s, None)
      | d # rest \<Rightarrow> (takeWhile (\<lambda>c. c \<notin> delims) s, Some rest))"

definition digit_char :: "nat \<Rightarrow> char" where
  "digit_char d = (if d < 10 then char_of (48 + d) else char_of (87 + d))"

function show_base :: "nat \<Rightarrow> nat \<Rightarrow> string" where
  "show_base b n = (if n < b \<or> b \<le> 1 then [digit_char n] else show_base b (n div b) @ [digit_char (n mod b)])"
  by pat_completeness auto
termination
  by (relation "measure (\<lambda>(b, n). n)") (auto intro: div_less_dividend)

declare show_base.simps [simp del]

definition show_int :: "int \<Rightarrow> string" where
  "show_int i = (if i < 0 then CHR ''-'' # show_base 10 (nat (- i)) else show_base 10 (nat i))"

definition show_hex :: "u32 \<Rightarrow> string" where
  "show_hex w = show_base 16 (unat w)"

subsection \<open>Printed numbers read back\<close>

lemma digit_val_char: "d < 16 \<Longrightarrow> digit_val (digit_char d) = Some d"
  by (auto simp: digit_val_def digit_char_def Let_def)

lemma digit_val_mod: "1 < b \<Longrightarrow> b \<le> 16 \<Longrightarrow> digit_val (digit_char (n mod b)) = Some (n mod b)"
  by (rule digit_val_char) (use mod_less_divisor [of b n] in linarith)

definition all_digits :: "nat \<Rightarrow> string \<Rightarrow> bool" where
  "all_digits b s \<longleftrightarrow> (\<forall>c \<in> set s. \<exists>d < b. digit_val c = Some d)"

lemma parse_append: "all_digits b s \<Longrightarrow> parse_digits b (s @ t) acc = parse_digits b t (parse_digits b s acc)"
  by (induction s arbitrary: acc) (auto simp: all_digits_def)

lemma show_base_digits: "1 < b \<Longrightarrow> b \<le> 16 \<Longrightarrow> all_digits b (show_base b n)"
proof (induction b n rule: show_base.induct)
  case (1 b n)
  then show ?case
    by (cases "n < b") (auto simp: show_base.simps [of b n] all_digits_def digit_val_char digit_val_mod)
qed

lemma parse_show: "1 < b \<Longrightarrow> b \<le> 16 \<Longrightarrow> parse_digits b (show_base b n) 0 = n"
proof (induction b n rule: show_base.induct)
  case (1 b n)
  show ?case
  proof (cases "n < b")
    case True
    with 1 show ?thesis by (simp add: show_base.simps [of b n] digit_val_char)
  next
    case False
    with 1 have "parse_digits b (show_base b (n div b)) 0 = n div b" by simp
    with False 1 show_base_digits [of b "n div b"] show ?thesis
      by (simp add: show_base.simps [of b n] parse_append digit_val_mod)
  qed
qed

lemma show_base_nonempty: "show_base b n \<noteq> []"
  by (simp add: show_base.simps [of b n])

lemma digit_not_space: "digit_val c = Some d \<Longrightarrow> \<not> c_isspace c \<and> c \<noteq> CHR ''-'' \<and> c \<noteq> CHR ''+''"
  by (auto simp: digit_val_def c_isspace_def Let_def split: if_splits)

lemma digit_not_x: "digit_val c = Some d \<Longrightarrow> d < 16 \<Longrightarrow> c \<noteq> CHR ''x'' \<and> c \<noteq> CHR ''X''"
  by (auto simp: digit_val_def Let_def split: if_splits)

lemma strip_0x_digits: "all_digits b s \<Longrightarrow> b \<le> 16 \<Longrightarrow> strip_0x b s = s"
  using digit_not_x by (induction b s rule: strip_0x.induct) (fastforce simp: all_digits_def)+

lemma scan_digits:
  assumes "all_digits b s" "b \<le> 16" "s \<noteq> []"
  shows "scan_number b s = (False, parse_digits b s 0)"
proof -
  obtain c cs where s: "s = c # cs" using assms(3) by (cases s) auto
  with assms(1) digit_not_space [of c] have "\<not> c_isspace c" "c \<noteq> CHR ''-''" "c \<noteq> CHR ''+''"
    by (auto simp: all_digits_def)
  then show ?thesis using strip_0x_digits [OF assms(1,2)] by (simp add: scan_number_def s)
qed

lemma strtoul_show_hex: "strtoul 16 (show_hex w) = w"
proof -
  have "unat w < 2 ^ LENGTH(32)" by (rule unsigned_less)
  then have "unat w < 2 ^ 64" by simp
  moreover have "scan_number 16 (show_hex w) = (False, unat w)"
    unfolding show_hex_def by (subst scan_digits) (simp_all add: show_base_digits parse_show show_base_nonempty)
  ultimately show ?thesis by (simp add: strtoul_def)
qed

lemma strtol_show_int:
  assumes "0 \<le> i" "i < 2 ^ 31"
  shows "strtol 10 (show_int i) = i"
proof -
  have "scan_number 10 (show_int i) = (False, nat i)"
    unfolding show_int_def using assms(1)
    by (subst scan_digits) (simp_all add: show_base_digits parse_show show_base_nonempty scan_digits)
  moreover have "sint (word_of_int i :: u32) = i"
    using assms by (simp add: signed_of_int signed_take_bit_int_eq_self)
  ultimately show ?thesis using assms by (simp add: strtol_def min_def)
qed

end
