(* ===== verification/Gate.thy ===== *)
theory Gate
  imports Databuffer Hashid C_Strings Messages
begin

unbundle bit_operations_syntax

section \<open>The gate service (\<open>service_gate.c\<close>)\<close>

text \<open>
  The gate accepts connections, cuts each connection's byte stream into frames by a 2- or 4-byte
  big-endian length and forwards every frame to the broker, to the connection's agent or to the
  watchdog. Its calls of the socket layer and of \<open>skynet_send\<close> are recorded as actions, in order; the
  calls of \<open>skynet_error\<close> are not. \<open>skynet_queryname\<close> and \<open>skynet_socket_listen\<close> are parameters.
\<close>

subsection \<open>State\<close>

definition BACKLOG :: int where "BACKLOG = 32"

record connection =
  cn_id :: int
  cn_agent :: u32
  cn_client :: u32
  cn_remote_name :: string
  cn_buffer :: databuffer

record gate =
  gt_listen_id :: int
  gt_watchdog :: u32
  gt_broker :: u32
  gt_client_tag :: int
  gt_header_size :: nat
  gt_max_connection :: nat
  gt_hash :: hashid
  gt_conn :: "connection list"
  gt_mp :: messagepool

datatype gate_act =
    Send (act_source: u32) (act_dest: u32) (act_type: int) (act_session: int) (act_data: bytes)
  | SendText (act_source: u32) (act_dest: u32) (act_type: int) (act_session: int) (act_text: string)
  | SendMixed (act_source: u32) (act_dest: u32) (act_type: int) (act_session: int) (act_text: string) (act_data: bytes)
  | SocketClose int
  | SocketStart int
  | SocketSend int bytes

definition gate_create :: gate where
  "gate_create = \<lparr>gt_listen_id = - 1, gt_watchdog = 0, gt_broker = 0, gt_client_tag = 0, gt_header_size = 0,
     gt_max_connection = 0, gt_hash = \<lparr>hi_hashmod = 0, hi_cap = 0, hi_count = 0, hi_id = [], hi_hash = []\<rparr>,
     gt_conn = [], gt_mp = empty_pool\<rparr>"

definition gate_release :: "gate \<Rightarrow> gate_act list" where
  "gate_release g =
     map (SocketClose \<circ> cn_id) (filter (\<lambda>c. 0 \<le> cn_id c) (take (gt_max_connection g) (gt_conn g))) @
     (if 0 \<le> gt_listen_id g then [SocketClose (gt_listen_id g)] else [])"

subsection \<open>Commands\<close>

text \<open>\<open>_parm\<close>: what follows the command and its spaces.\<close>

definition parm :: "string \<Rightarrow> nat \<Rightarrow> string" where
  "parm msg command_sz = dropWhile (\<lambda>c. c = CHR '' '') (drop command_sz msg)"

definition forward_agent :: "int \<Rightarrow> u32 \<Rightarrow> u32 \<Rightarrow> gate \<Rightarrow> gate option" where
  "forward_agent fd agentaddr clientaddr g =
     do { i \<leftarrow> hashid_lookup fd (gt_hash g);
          (if 0 \<le> i then
             do { c \<leftarrow> array_get (gt_conn g) (nat i);
                  Some (g\<lparr>gt_conn := (gt_conn g)[nat i := c\<lparr>cn_agent := agentaddr, cn_client := clientaddr\<rparr>]\<rparr>) }
           else Some g) }"

text \<open>
  \<open>memcmp(command, lit, i) == 0\<close> on text without zero characters: the first \<open>i\<close> characters agree, and
  the literal has that many.
\<close>

definition memcmp_eq :: "string \<Rightarrow> string \<Rightarrow> nat \<Rightarrow> bool" where
  "memcmp_eq command lit i \<longleftrightarrow> i \<le> length lit \<and> take i command = take i lit"

definition ctrl_forward :: "string \<Rightarrow> gate \<Rightarrow> gate option" where
  "ctrl_forward arg g =
     (case strsep {CHR '' ''} arg of
        (idstr, None) \<Rightarrow> Some g
      | (idstr, Some client1) \<Rightarrow>
          (case strsep {CHR '' ''} client1 of
             (agent, None) \<Rightarrow> Some g
           | (agent, Some client) \<Rightarrow>
               do { assert_opt (client \<noteq> []);
                    forward_agent (strtol 10 idstr)
                      (strtoul 16 (if agent = [] then client else tl agent)) (strtoul 16 (tl client)) g }))"

definition ctrl :: "(string \<Rightarrow> u32) \<Rightarrow> string \<Rightarrow> gate \<Rightarrow> (gate_act list \<times> gate) option" where
  "ctrl queryname msg g =
     (if msg = [] then Some ([], g)
      else
        (let i = length (takeWhile (\<lambda>c. c \<noteq> CHR '' '') msg); arg = parm msg i in
         if memcmp_eq msg ''kick'' i then
           do { n \<leftarrow> hashid_lookup (strtol 10 arg) (gt_hash g);
                Some (if 0 \<le> n then [SocketClose (strtol 10 arg)] else [], g) }
         else if memcmp_eq msg ''forward'' i then do { g' \<leftarrow> ctrl_forward arg g; Some ([], g') }
         else if memcmp_eq msg ''broker'' i then Some ([], g\<lparr>gt_broker := queryname arg\<rparr>)
         else if memcmp_eq msg ''start'' i then
           do { n \<leftarrow> hashid_lookup (strtol 10 arg) (gt_hash g);
                Some (if 0 \<le> n then [SocketStart (strtol 10 arg)] else [], g) }
         else if memcmp_eq msg ''close'' i then
           Some (if 0 \<le> gt_listen_id g then [SocketClose (gt_listen_id g)] else [], g\<lparr>gt_listen_id := - 1\<rparr>)
         else Some ([], g)))"

definition report :: "gate \<Rightarrow> string \<Rightarrow> gate_act list" where
  "report g text =
     (if gt_watchdog g = 0 then []
      else [SendText 0 (gt_watchdog g) (int PTYPE_TEXT) 0 (take 1023 text)])"

subsection \<open>Frames\<close>

text \<open>\<open>_forward\<close>: one frame of \<open>sz\<close> bytes goes to the broker, the agent or the watchdog.\<close>

definition forward_act :: "gate \<Rightarrow> connection \<Rightarrow> bytes \<Rightarrow> gate_act" where
  "forward_act g c temp =
     (if gt_broker g \<noteq> 0 then
        Send 0 (gt_broker g) (gt_client_tag g OR int PTYPE_TAG_DONTCOPY) 1 temp
      else if cn_agent c \<noteq> 0 then
        Send (cn_client c) (cn_agent c) (gt_client_tag g OR int PTYPE_TAG_DONTCOPY) 1 temp
      else SendMixed 0 (gt_watchdog g) (int PTYPE_TEXT OR int PTYPE_TAG_DONTCOPY) 1
             (take 31 (show_int (cn_id c) @ '' data '')) temp)"

definition forward ::
  "gate \<Rightarrow> connection \<Rightarrow> nat \<Rightarrow> databuffer \<times> messagepool \<Rightarrow> (gate_act list \<times> databuffer \<times> messagepool) option" where
  "forward g c sz st =
     (if gt_broker g \<noteq> 0 \<or> cn_agent c \<noteq> 0 \<or> gt_watchdog g \<noteq> 0 then
        do { (temp, st') \<leftarrow> databuffer_read sz st; Some ([forward_act g c temp], st') }
      else Some ([], st))"

partial_function (option) dispatch_loop ::
  "gate \<Rightarrow> connection \<Rightarrow> int \<Rightarrow> databuffer \<times> messagepool \<Rightarrow> (gate_act list \<times> databuffer \<times> messagepool) option" where
  "dispatch_loop g c sid st =
     do { (sz, st1) \<leftarrow> databuffer_readheader (gt_header_size g) st;
          (if sz < 0 then Some ([], st1)
           else if sz > 0 then
             (if sz \<ge> 0x1000000 then
                do { st2 \<leftarrow> databuffer_clear st1; Some ([SocketClose sid], st2) }
              else
                do { (acts, db, mp) \<leftarrow> forward g c (nat sz) st1;
                     (acts', st') \<leftarrow> dispatch_loop g c sid (databuffer_reset db, mp);
                     Some (acts @ acts', st') })
           else dispatch_loop g c sid st1) }"

declare dispatch_loop.simps [code]

definition dispatch_message ::
  "nat \<Rightarrow> int \<Rightarrow> bytes \<Rightarrow> gate \<Rightarrow> (gate_act list \<times> gate) option" where
  "dispatch_message i sid data g =
     do { c \<leftarrow> array_get (gt_conn g) i;
          (acts, db, mp) \<leftarrow> dispatch_loop g c sid (databuffer_push data (cn_buffer c, gt_mp g));
          Some (acts, g\<lparr>gt_conn := (gt_conn g)[i := c\<lparr>cn_buffer := db\<rparr>], gt_mp := mp\<rparr>) }"

subsection \<open>Socket events\<close>

definition dispatch_socket_message :: "skynet_socket_message \<Rightarrow> gate \<Rightarrow> (gate_act list \<times> gate) option" where
  "dispatch_socket_message m g =
     (case sm_type m of
        SKYNET_SOCKET_TYPE_DATA \<Rightarrow>
          do { i \<leftarrow> hashid_lookup (sm_id m) (gt_hash g);
               (if 0 \<le> i then do { data \<leftarrow> sm_buffer m; dispatch_message (nat i) (sm_id m) data g }
                else Some ([SocketClose (sm_id m)], g)) }
      | SKYNET_SOCKET_TYPE_CONNECT \<Rightarrow>
          (if sm_id m = gt_listen_id g then Some ([], g)
           else do { i \<leftarrow> hashid_lookup (sm_id m) (gt_hash g);
                     Some (if i < 0 then [SocketClose (sm_id m)] else [], g) })
      | SKYNET_SOCKET_TYPE_ACCEPT \<Rightarrow>
          do { assert_opt (gt_listen_id g = sm_id m);
               (if hashid_full (gt_hash g) then Some ([SocketClose (sm_ud m)], g)
                else
                  do { (i, hash) \<leftarrow> hashid_insert (sm_ud m) (gt_hash g);
                       c \<leftarrow> array_get (gt_conn g) i;
                       let name = take 31 (sm_text m);
                       let c' = c\<lparr>cn_id := sm_ud m, cn_remote_name := name\<rparr>;
                       let g' = g\<lparr>gt_hash := hash, gt_conn := (gt_conn g)[i := c']\<rparr>;
                       Some (report g' (show_int (sm_ud m) @ '' open '' @ show_int (sm_ud m) @ '' '' @ name @ '':0''), g') }) }
      | SKYNET_SOCKET_TYPE_WARNING \<Rightarrow> Some ([], g)
      | SKYNET_SOCKET_TYPE_UDP \<Rightarrow> Some ([], g)
      | _ \<Rightarrow>
          do { (i, hash) \<leftarrow> hashid_remove (sm_id m) (gt_hash g);
               let g1 = g\<lparr>gt_hash := hash\<rparr>;
               (if 0 \<le> i then
                  do { c \<leftarrow> array_get (gt_conn g1) (nat i);
                       (db, mp) \<leftarrow> databuffer_clear (cn_buffer c, gt_mp g1);
                       let c' = \<lparr>cn_id = - 1, cn_agent = 0, cn_client = 0, cn_remote_name = [], cn_buffer = empty_db\<rparr>;
                       let g2 = g1\<lparr>gt_conn := (gt_conn g1)[nat i := c'], gt_mp := mp\<rparr>;
                       Some (report g2 (show_int (sm_id m) @ '' close''), g2) }
                else Some ([], g1)) })"

text \<open>
  \<open>_cb\<close>: the actions, whether the message block is kept (1: not freed), and the gate. A text message
  comes as text, a client message as bytes whose last four are the socket id, a socket event as such.
\<close>

datatype gate_msg = TextMsg string | ClientMsg bytes | SocketMsg skynet_socket_message | OtherMsg

definition le_u32 :: "bytes \<Rightarrow> u32" where
  "le_u32 b = ucast (b ! 0) OR push_bit 8 (ucast (b ! 1)) OR push_bit 16 (ucast (b ! 2)) OR push_bit 24 (ucast (b ! 3))"

definition gate_cb :: "(string \<Rightarrow> u32) \<Rightarrow> gate_msg \<Rightarrow> gate \<Rightarrow> (gate_act list \<times> int \<times> gate) option" where
  "gate_cb queryname msg g =
     (case msg of
        TextMsg t \<Rightarrow> do { (acts, g') \<leftarrow> ctrl queryname t g; Some (acts, 0, g') }
      | ClientMsg b \<Rightarrow>
          (if length b \<le> 4 then Some ([], 0, g)
           else
             (let uid = sint (le_u32 (drop (length b - 4) b)) in
              do { i \<leftarrow> hashid_lookup uid (gt_hash g);
                   Some (if 0 \<le> i then ([SocketSend uid (take (length b - 4) b)], 1, g) else ([], 0, g)) }))
      | SocketMsg m \<Rightarrow> do { (acts, g') \<leftarrow> dispatch_socket_message m g; Some (acts, 0, g') }
      | OtherMsg \<Rightarrow> Some ([], 0, g))"

subsection \<open>Starting\<close>

text \<open>\<open>listen\<close> is \<open>skynet_socket_listen\<close>: the id of the listening socket, negative when it fails.\<close>

definition start_listen :: "(string \<Rightarrow> int \<Rightarrow> int \<Rightarrow> int) \<Rightarrow> string \<Rightarrow> gate \<Rightarrow> int \<times> gate_act list \<times> gate" where
  "start_listen listen listen_addr g =
     (let (host, port) = (case strsep {CHR '':''} listen_addr of
                            (_, None) \<Rightarrow> ([], strtol 10 listen_addr)
                          | (h, Some portstr) \<Rightarrow> (h, strtol 10 portstr)) in
      if port \<le> 0 then (1, [], g)
      else
        (let l = listen host port BACKLOG; g' = g\<lparr>gt_listen_id := l\<rparr> in
         if l < 0 then (1, [], g') else (0, [SocketStart l], g')))"

text \<open>\<open>sscanf(parm, "%c %s %s %d %d", ...)\<close>: how many items it converts, and the items.\<close>

definition scan_word :: "string \<Rightarrow> (string \<times> string) option" where
  "scan_word s =
     (let t = dropWhile c_isspace s in
      if t = [] then None else Some (takeWhile (\<lambda>c. \<not> c_isspace c) t, dropWhile (\<lambda>c. \<not> c_isspace c) t))"

definition blank_connection :: connection where
  "blank_connection = \<lparr>cn_id = - 1, cn_agent = 0, cn_client = 0, cn_remote_name = [], cn_buffer = empty_db\<rparr>"

text \<open>\<open>gate_init\<close> after the parameters are scanned.\<close>

definition gate_configure ::
  "(string \<Rightarrow> u32) \<Rightarrow> (string \<Rightarrow> int \<Rightarrow> int \<Rightarrow> int) \<Rightarrow> char \<Rightarrow> string \<Rightarrow> string \<Rightarrow> int \<Rightarrow> int \<Rightarrow> gate \<Rightarrow>
     int \<times> gate_act list \<times> gate" where
  "gate_configure queryname listen header watchdog binding tag mx g =
     (if mx \<le> 0 then (1, [], g)
      else if header \<noteq> CHR ''S'' \<and> header \<noteq> CHR ''L'' then (1, [], g)
      else
        (let client_tag = (if tag = 0 then int PTYPE_CLIENT else tag);
             wd = (if hd watchdog = CHR ''!'' then 0 else queryname watchdog);
             g1 = g\<lparr>gt_watchdog := wd\<rparr> in
         if hd watchdog \<noteq> CHR ''!'' \<and> wd = 0 then (1, [], g1)
         else
           start_listen listen binding
             (g1\<lparr>gt_hash := hashid_init (nat mx), gt_conn := replicate (nat mx) blank_connection,
                 gt_max_connection := nat mx, gt_client_tag := client_tag,
                 gt_header_size := (if header = CHR ''S'' then 2 else 4)\<rparr>)))"

definition gate_init ::
  "(string \<Rightarrow> u32) \<Rightarrow> (string \<Rightarrow> int \<Rightarrow> int \<Rightarrow> int) \<Rightarrow> string option \<Rightarrow> gate \<Rightarrow> int \<times> gate_act list \<times> gate" where
  "gate_init queryname listen args g =
     (case args of
        None \<Rightarrow> (1, [], g)
      | Some [] \<Rightarrow> (1, [], g)
      | Some (header # rest0) \<Rightarrow>
          (case scan_word rest0 of
             None \<Rightarrow> (1, [], g)
           | Some (watchdog, rest1) \<Rightarrow>
          (case scan_word rest1 of
             None \<Rightarrow> (1, [], g)
           | Some (binding, rest2) \<Rightarrow>
          (case scan_int rest2 of
             None \<Rightarrow> (1, [], g)
           | Some (tag, rest3) \<Rightarrow>
               gate_configure queryname listen header watchdog binding tag
                 (case scan_int rest3 of Some (m, _) \<Rightarrow> m | None \<Rightarrow> 0) g))))"

subsection \<open>Cutting a stream into frames\<close>

text \<open>
  The specification of the loop: from a pending length \<open>h\<close> (0: none) and the bytes received, the
  complete frames, and the pending length and bytes that remain. \<open>None\<close> for a length that the gate
  does not accept.
\<close>

function parse_frames :: "nat \<Rightarrow> int \<Rightarrow> bytes \<Rightarrow> (bytes list \<times> int \<times> bytes) option" where
  "parse_frames hs h bs =
     (if h = 0 then
        (if length bs < hs \<or> hs = 0 then Some ([], 0, bs)
         else parse_frames hs (header_of hs (take hs bs)) (drop hs bs))
      else if h < 0 \<or> h \<ge> 0x1000000 then None
      else if int (length bs) < h then Some ([], h, bs)
      else map_option (\<lambda>(fs, st). (take (nat h) bs # fs, st)) (parse_frames hs 0 (drop (nat h) bs)))"
  by pat_completeness auto
termination
  by (relation "measure (\<lambda>(hs, h, bs). length bs)") auto

declare parse_frames.simps [simp del]

definition frame_header :: "nat \<Rightarrow> nat \<Rightarrow> bytes" where
  "frame_header hs n =
     (if hs = 2 then [of_nat (n div 2 ^ 8), of_nat n]
      else [of_nat (n div 2 ^ 24), of_nat (n div 2 ^ 16), of_nat (n div 2 ^ 8), of_nat n])"

definition encode_frame :: "nat \<Rightarrow> bytes \<Rightarrow> bytes" where
  "encode_frame hs p = frame_header hs (length p) @ p"

definition frame_limit :: "nat \<Rightarrow> nat" where
  "frame_limit hs = (if hs = 2 then 2 ^ 16 else 2 ^ 24)"

lemma uint_byte: "uint (of_nat n :: u8) = int (n mod 256)"
  by (simp add: unsigned_of_nat take_bit_eq_mod of_nat_mod)

lemma header_of_frame:
  assumes "hs = 2 \<or> hs = 4" "n < frame_limit hs"
  shows "header_of hs (frame_header hs n) = int n"
proof (cases "hs = 2")
  case True
  have "n div 2 ^ 8 mod 256 = n div 2 ^ 8" using assms(2) True by (simp add: frame_limit_def less_mult_imp_div_less)
  then have eq: "n div 2 ^ 8 mod 256 * 256 + n mod 256 = n" using div_mult_mod_eq [of n 256] by simp
  have "header_of hs (frame_header hs n) = int (n div 2 ^ 8 mod 256) * 256 + int (n mod 256)"
    using True uint_byte [of "n div 2 ^ 8"] uint_byte [of n]
    by (simp only: header_of_def frame_header_def simp_thms if_True nth_Cons_0 nth_Cons_Suc One_nat_def)
  also have "\<dots> = int (n div 2 ^ 8 mod 256 * 256 + n mod 256)" by (simp only: of_nat_add of_nat_mult of_nat_numeral)
  finally show ?thesis by (simp only: eq)
next
  case False
  have m: "n mod 2 ^ 24 = n" using assms(2) False by (simp add: frame_limit_def)
  have top: "int (n div 2 ^ 24 mod 256) * 2 ^ 24 = 0" using assms(2) False by (simp add: frame_limit_def)
  have "n div 2 ^ 16 mod 256 * 2 ^ 16 + n div 2 ^ 8 mod 256 * 2 ^ 8 + n mod 256 = n"
  proof -
    have "n mod (2 ^ 8 * 2 ^ 16) = 2 ^ 8 * (n div 2 ^ 8 mod 2 ^ 16) + n mod 2 ^ 8" by (rule mod_mult2_eq)
    moreover have "n div 2 ^ 8 mod (2 ^ 8 * 2 ^ 8) = 2 ^ 8 * (n div 2 ^ 8 div 2 ^ 8 mod 2 ^ 8) + n div 2 ^ 8 mod 2 ^ 8"
      by (rule mod_mult2_eq)
    moreover have "n div 2 ^ 8 div 2 ^ 8 = n div 2 ^ 16" by (simp add: div_mult2_eq [symmetric])
    ultimately show ?thesis using m by simp
  qed
  then have "int (n div 2 ^ 16 mod 256 * 2 ^ 16 + n div 2 ^ 8 mod 256 * 2 ^ 8 + n mod 256) = int n" by (rule arg_cong)
  then have "int (n div 2 ^ 16 mod 256) * 2 ^ 16 + int (n div 2 ^ 8 mod 256) * 2 ^ 8 + int (n mod 256) = int n"
    by (simp only: of_nat_add of_nat_mult of_nat_numeral of_nat_power)
  moreover have "header_of hs (frame_header hs n) = sint (word_of_int (int (n div 2 ^ 24 mod 256) * 2 ^ 24 +
      int (n div 2 ^ 16 mod 256) * 2 ^ 16 + int (n div 2 ^ 8 mod 256) * 2 ^ 8 + int (n mod 256)) :: u32)"
    using False by (simp only: header_of_def frame_header_def if_False nth_Cons_0 nth_Cons_Suc numeral_2_eq_2
        numeral_3_eq_3 One_nat_def uint_byte)
  ultimately have "header_of hs (frame_header hs n) = sint (word_of_int (int n) :: u32)"
    by (simp only: top add_0_left)
  moreover have "sint (word_of_int (int n) :: u32) = int n"
    unfolding signed_of_int using assms(2) False by (simp add: frame_limit_def signed_take_bit_int_eq_self)
  ultimately show ?thesis by simp
qed

lemma length_frame_header: "hs = 2 \<or> hs = 4 \<Longrightarrow> length (frame_header hs n) = hs"
  by (auto simp: frame_header_def)

text \<open>Encoded frames parse back; empty frames are skipped.\<close>

lemma parse_encode:
  assumes "hs = 2 \<or> hs = 4" "length p < frame_limit hs"
  shows "parse_frames hs 0 (encode_frame hs p @ rest) =
    (if p = [] then parse_frames hs 0 rest else map_option (\<lambda>(fs, st). (p # fs, st)) (parse_frames hs 0 rest))"
proof -
  note len = length_frame_header [OF assms(1), of "length p"]
  have "length p < 0x1000000" using assms(2) by (simp add: frame_limit_def split: if_splits)
  moreover have "parse_frames hs 0 (encode_frame hs p @ rest) = parse_frames hs (int (length p)) (p @ rest)"
    using assms(1) len header_of_frame [OF assms] by (auto simp: parse_frames.simps [of hs 0] encode_frame_def)
  ultimately show ?thesis
    by (cases "p = []") (simp_all add: parse_frames.simps [of hs "int (length p)" "p @ rest"])
qed

lemma parse_frames_encoded:
  assumes "hs = 2 \<or> hs = 4" "\<forall>p \<in> set ps. length p < frame_limit hs"
  shows "parse_frames hs 0 (concat (map (encode_frame hs) ps)) = Some (filter (\<lambda>p. p \<noteq> []) ps, 0, [])"
  using assms(2)
proof (induction ps)
  case Nil
  then show ?case using assms(1) by (simp add: parse_frames.simps)
next
  case (Cons p ps)
  then show ?case using parse_encode [OF assms(1), of p] by simp
qed

text \<open>More bytes never change the frames that were complete already.\<close>

lemma parse_frames_append:
  "parse_frames hs h bs = Some (fs, h1, bs1) \<Longrightarrow>
     parse_frames hs h (bs @ d) = map_option (\<lambda>(fs', st). (fs @ fs', st)) (parse_frames hs h1 (bs1 @ d))"
proof (induction hs h bs arbitrary: fs rule: parse_frames.induct)
  case (1 hs h bs)
  note step = parse_frames.simps [of hs h]
  consider (short) "h = 0" "length bs < hs \<or> hs = 0" | (header) "h = 0" "\<not> (length bs < hs \<or> hs = 0)"
    | (bad) "h \<noteq> 0" "h < 0 \<or> h \<ge> 0x1000000" | (wait) "h \<noteq> 0" "\<not> (h < 0 \<or> h \<ge> 0x1000000)" "int (length bs) < h"
    | (frame) "h \<noteq> 0" "\<not> (h < 0 \<or> h \<ge> 0x1000000)" "\<not> int (length bs) < h" by blast
  then show ?case
  proof cases
    case short
    with 1(3) step have "fs = [] \<and> h1 = h \<and> bs1 = bs" by auto
    then show ?thesis by (simp add: case_prod_unfold option.map_ident)
  next
    case header
    with 1(3) step have "parse_frames hs (header_of hs (take hs bs)) (drop hs bs) = Some (fs, h1, bs1)" by simp
    from 1(1) [OF header this] header show ?thesis by (simp add: parse_frames.simps [of hs 0 "bs @ d"])
  next
    case bad
    with 1(3) step show ?thesis by simp
  next
    case wait
    with 1(3) step have "fs = [] \<and> h1 = h \<and> bs1 = bs" by auto
    then show ?thesis by (simp add: case_prod_unfold option.map_ident)
  next
    case frame
    with 1(3) step obtain fs0 where f: "parse_frames hs 0 (drop (nat h) bs) = Some (fs0, h1, bs1)"
      "fs = take (nat h) bs # fs0" by auto
    from 1(2) [OF frame f(1)] f(2) frame show ?thesis
      by (simp add: step option.map_comp comp_def case_prod_unfold)
  qed
qed

lemma parse_frames_None_append: "parse_frames hs h bs = None \<Longrightarrow> parse_frames hs h (bs @ d) = None"
proof (induction hs h bs rule: parse_frames.induct)
  case (1 hs h bs)
  consider (header) "h = 0" "\<not> (length bs < hs \<or> hs = 0)" | (bad) "h \<noteq> 0" "h < 0 \<or> h \<ge> 0x1000000"
    | (frame) "h \<noteq> 0" "\<not> (h < 0 \<or> h \<ge> 0x1000000)" "\<not> int (length bs) < h"
    using 1(3) by (auto simp: parse_frames.simps [of hs h bs] split: if_splits)
  then show ?case
  proof cases
    case header
    with 1(3) have "parse_frames hs (header_of hs (take hs bs)) (drop hs bs) = None"
      by (simp add: parse_frames.simps [of hs 0 bs])
    from 1(1) [OF header this] header show ?thesis by (simp add: parse_frames.simps [of hs 0 "bs @ d"])
  next
    case bad
    then show ?thesis by (simp add: parse_frames.simps [of hs h])
  next
    case frame
    with 1(3) have "parse_frames hs 0 (drop (nat h) bs) = None" by (simp add: parse_frames.simps [of hs h bs])
    from 1(2) [OF frame this] frame show ?thesis by (simp add: parse_frames.simps [of hs h "bs @ d"])
  qed
qed

lemma parse_frames_stable: "parse_frames hs h bs = Some (fs, h1, bs1) \<Longrightarrow> parse_frames hs h1 bs1 = Some ([], h1, bs1)"
proof -
  assume p: "parse_frames hs h bs = Some (fs, h1, bs1)"
  with parse_frames_append [OF p, of "[]"] show ?thesis by (cases "parse_frames hs h1 bs1") auto
qed

subsection \<open>The dispatch loop implements the specification\<close>

definition has_target :: "gate \<Rightarrow> connection \<Rightarrow> bool" where
  "has_target g c \<longleftrightarrow> gt_broker g \<noteq> 0 \<or> cn_agent c \<noteq> 0 \<or> gt_watchdog g \<noteq> 0"

lemma readheader_result:
  assumes "db_wf db" "db_header db = 0" "0 < hs" "hs \<le> length (db_bytes db)"
  shows "\<exists>db1 mp1. databuffer_readheader hs (db, mp) =
      Some (if int (length (db_bytes db1)) < db_header db1 then - 1 else db_header db1, db1, mp1) \<and> db_wf db1 \<and>
    db_header db1 = header_of hs (take hs (db_bytes db)) \<and> db_bytes db1 = drop hs (db_bytes db)"
proof -
  from databuffer_read_result [OF assms(1,3,4), of mp] obtain db0 mp1 where
    r: "databuffer_read hs (db, mp) = Some (take hs (db_bytes db), db0, mp1)" "db_wf db0"
      "db_bytes db0 = drop hs (db_bytes db)" by blast
  let ?db1 = "db0\<lparr>db_header := header_of hs (take hs (db_bytes db))\<rparr>"
  have same: "db_bytes ?db1 = db_bytes db0" "db_wf ?db1" using r(2) by simp_all
  have "db_size db = int (length (db_bytes db))" "db_size db0 = int (length (db_bytes db0))"
    using assms(1) r(2) by (simp_all add: db_wf_def)
  then have "databuffer_readheader hs (db, mp) =
      Some (if int (length (db_bytes ?db1)) < db_header ?db1 then - 1 else db_header ?db1, ?db1, mp1)"
    using assms(2,4) r(1) same by (simp add: databuffer_readheader_def)
  with same r(3) show ?thesis by (intro exI [of _ ?db1] exI [of _ mp1]) simp
qed

lemma readheader_pending:
  assumes "db_wf db" "db_header db \<noteq> 0"
  shows "databuffer_readheader hs (db, mp) =
    Some (if int (length (db_bytes db)) < db_header db then - 1 else db_header db, db, mp)"
  using assms by (simp add: databuffer_readheader_def db_wf_def)

text \<open>Reading a header is a step of its own: the loop continues as if the header had been pending.\<close>

lemma dispatch_loop_header:
  assumes "db_wf db" "db_header db = 0" "0 < gt_header_size g" "gt_header_size g \<le> length (db_bytes db)"
  shows "\<exists>db1 mp1. dispatch_loop g c sid (db, mp) = dispatch_loop g c sid (db1, mp1) \<and> db_wf db1 \<and>
    db_header db1 = header_of (gt_header_size g) (take (gt_header_size g) (db_bytes db)) \<and>
    db_bytes db1 = drop (gt_header_size g) (db_bytes db)"
proof -
  from readheader_result [OF assms, of mp] obtain db1 mp1 where
    r: "databuffer_readheader (gt_header_size g) (db, mp) =
        Some (if int (length (db_bytes db1)) < db_header db1 then - 1 else db_header db1, db1, mp1)" "db_wf db1"
      "db_header db1 = header_of (gt_header_size g) (take (gt_header_size g) (db_bytes db))"
      "db_bytes db1 = drop (gt_header_size g) (db_bytes db)" by blast
  have "dispatch_loop g c sid (db, mp) = dispatch_loop g c sid (db1, mp1)"
  proof (cases "db_header db1 = 0")
    case True
    with r(1) show ?thesis by (simp add: dispatch_loop.simps [of g c sid "(db, mp)"])
  next
    case False
    then show ?thesis
      unfolding dispatch_loop.simps [of g c sid "(db, mp)"] dispatch_loop.simps [of g c sid "(db1, mp1)"]
        r(1) readheader_pending [OF r(2) False] by simp
  qed
  with r show ?thesis by blast
qed

lemma dispatch_loop_frame:
  assumes wf: "db_wf db" and h: "0 < db_header db" "db_header db < 0x1000000" "db_header db \<le> int (length (db_bytes db))"
    and target: "has_target g c"
  shows "\<exists>db1 mp1. dispatch_loop g c sid (db, mp) =
      do { (acts, st') \<leftarrow> dispatch_loop g c sid (db1, mp1);
           Some (forward_act g c (take (nat (db_header db)) (db_bytes db)) # acts, st') } \<and>
    db_wf db1 \<and> db_header db1 = 0 \<and> db_bytes db1 = drop (nat (db_header db)) (db_bytes db)"
proof -
  let ?n = "nat (db_header db)"
  have n: "0 < ?n" "?n \<le> length (db_bytes db)" using h by simp_all
  from databuffer_read_result [OF wf n, of mp] obtain db0 mp1 where
    r: "databuffer_read ?n (db, mp) = Some (take ?n (db_bytes db), db0, mp1)" "db_wf db0"
      "db_bytes db0 = drop ?n (db_bytes db)" by blast
  have "db_wf (databuffer_reset db0)" "db_bytes (databuffer_reset db0) = db_bytes db0" "db_header (databuffer_reset db0) = 0"
    using r(2) by (simp_all add: databuffer_reset_def)
  moreover have "dispatch_loop g c sid (db, mp) =
      do { (acts, st') \<leftarrow> dispatch_loop g c sid (databuffer_reset db0, mp1);
           Some (forward_act g c (take ?n (db_bytes db)) # acts, st') }"
    using h target r(1) readheader_pending [OF wf, of "gt_header_size g" mp]
    by (simp add: dispatch_loop.simps [of g c sid "(db, mp)"] forward_def has_target_def)
  ultimately show ?thesis using r(3) by (intro exI [of _ "databuffer_reset db0"] exI [of _ mp1]) simp
qed

lemma dispatch_loop_refines:
  assumes "has_target g c" "gt_header_size g = hs" "0 < hs"
    "db_wf db" "parse_frames hs (db_header db) (db_bytes db) = Some (fs, h', bs')"
  shows "\<exists>db' mp'. dispatch_loop g c sid (db, mp) = Some (map (forward_act g c) fs, db', mp') \<and> db_wf db' \<and>
    db_header db' = h' \<and> db_bytes db' = bs'"
  using assms
proof (induction hs "db_header db" "db_bytes db" arbitrary: db mp fs rule: parse_frames.induct)
  case (1 hs)
  let ?h = "db_header db" and ?bs = "db_bytes db"
  note step = parse_frames.simps [of hs ?h ?bs]
  have size: "db_size db = int (length ?bs)" using 1(6) by (simp add: db_wf_def)
  consider (short) "?h = 0" "length ?bs < hs" | (header) "?h = 0" "\<not> length ?bs < hs"
    | (wait) "0 < ?h" "?h < 0x1000000" "int (length ?bs) < ?h"
    | (frame) "0 < ?h" "?h < 0x1000000" "?h \<le> int (length ?bs)"
    using 1(7) by (auto simp: step split: if_splits)
  then show ?case
  proof cases
    case short
    with 1(4,5,7) step size have "fs = [] \<and> h' = 0 \<and> bs' = ?bs"
      "databuffer_readheader hs (db, mp) = Some (- 1, db, mp)" by (auto simp: databuffer_readheader_def)
    with short 1(4,6) show ?thesis by (simp add: dispatch_loop.simps [of g c sid "(db, mp)"])
  next
    case header
    with 1(5,7) step have p: "parse_frames hs (header_of hs (take hs ?bs)) (drop hs ?bs) = Some (fs, h', bs')" by simp
    from dispatch_loop_header [OF 1(6) header(1), of g c sid mp] 1(4,5) header obtain db1 mp1 where
      d: "dispatch_loop g c sid (db, mp) = dispatch_loop g c sid (db1, mp1)" "db_wf db1"
        "db_header db1 = header_of hs (take hs ?bs)" "db_bytes db1 = drop hs ?bs" by auto
    have "\<not> (length ?bs < hs \<or> hs = 0)" using header 1(5) by simp
    from 1(1) [OF header(1) this d(3,4) [symmetric] 1(3-5) d(2), of fs mp1] p d show ?thesis by simp
  next
    case wait
    with 1(7) step have "fs = [] \<and> h' = ?h \<and> bs' = ?bs" by auto
    with wait 1(6) readheader_pending [OF 1(6), of "gt_header_size g" mp] show ?thesis
      by (simp add: dispatch_loop.simps [of g c sid "(db, mp)"])
  next
    case frame
    with 1(7) step obtain fs0 where f: "parse_frames hs 0 (drop (nat ?h) ?bs) = Some (fs0, h', bs')"
      "fs = take (nat ?h) ?bs # fs0" by auto
    from dispatch_loop_frame [OF 1(6) frame 1(3), of sid mp] obtain db1 mp1 where
      d: "dispatch_loop g c sid (db, mp) = do { (acts, st') \<leftarrow> dispatch_loop g c sid (db1, mp1);
           Some (forward_act g c (take (nat ?h) ?bs) # acts, st') }"
        "db_wf db1" "db_header db1 = 0" "db_bytes db1 = drop (nat ?h) ?bs" by blast
    have "?h \<noteq> 0" "\<not> (?h < 0 \<or> ?h \<ge> 0x1000000)" "\<not> int (length ?bs) < ?h" using frame by simp_all
    from 1(2) [OF this d(3,4) [symmetric] 1(3-5) d(2), of fs0 mp1] d f show ?thesis by auto
  qed
qed

text \<open>The chunks that the socket layer delivers to one connection, in order.\<close>

fun dispatch_chunks :: "nat \<Rightarrow> int \<Rightarrow> bytes list \<Rightarrow> gate \<Rightarrow> (gate_act list \<times> gate) option" where
  "dispatch_chunks i sid [] g = Some ([], g)"
| "dispatch_chunks i sid (d # ds) g =
     do { (a, g1) \<leftarrow> dispatch_message i sid d g; (b, g2) \<leftarrow> dispatch_chunks i sid ds g1; Some (a @ b, g2) }"

lemma dispatch_message_refines:
  assumes i: "i < length (gt_conn g)" and c: "c = gt_conn g ! i" "has_target g c" "0 < gt_header_size g"
    and wf: "db_wf (cn_buffer c)"
    and parse: "parse_frames (gt_header_size g) (db_header (cn_buffer c)) (db_bytes (cn_buffer c) @ data) = Some (fs, h', bs')"
  shows "\<exists>db' mp'. dispatch_message i sid data g =
      Some (map (forward_act g c) fs, g\<lparr>gt_conn := (gt_conn g)[i := c\<lparr>cn_buffer := db'\<rparr>], gt_mp := mp'\<rparr>) \<and>
    db_wf db' \<and> db_header db' = h' \<and> db_bytes db' = bs'"
proof -
  obtain db mp where p: "databuffer_push data (cn_buffer c, gt_mp g) = (db, mp)" by fastforce
  note push = databuffer_push_result [OF wf p]
  from dispatch_loop_refines [OF c(2) refl c(3) push(1), of fs h' bs' sid mp] parse push obtain db' mp' where
    "dispatch_loop g c sid (db, mp) = Some (map (forward_act g c) fs, db', mp')" "db_wf db'"
    "db_header db' = h'" "db_bytes db' = bs'" by auto
  then show ?thesis using i c(1) p by (auto simp: dispatch_message_def)
qed

lemma forward_act_buffer:
  "forward_act (g\<lparr>gt_conn := cs, gt_mp := mp\<rparr>) (c\<lparr>cn_buffer := db\<rparr>) = forward_act g c"
  "has_target (g\<lparr>gt_conn := cs, gt_mp := mp\<rparr>) (c\<lparr>cn_buffer := db\<rparr>) = has_target g c"
  by (simp_all add: fun_eq_iff forward_act_def has_target_def)

text \<open>
  Between events no complete frame is left in a buffer. From there, the actions of any chunks are the
  frames of all their bytes: where the chunks are cut does not matter.
\<close>

lemma dispatch_chunks_refines:
  assumes "i < length (gt_conn g)" "c = gt_conn g ! i" "has_target g c" "0 < hs" "gt_header_size g = hs"
    "db_wf (cn_buffer c)" "db_header (cn_buffer c) = h" "db_bytes (cn_buffer c) = bs"
    "parse_frames hs h bs = Some ([], h, bs)" "parse_frames hs h (bs @ concat chunks) = Some (fs, h', bs')"
  shows "\<exists>g'. dispatch_chunks i sid chunks g = Some (map (forward_act g c) fs, g') \<and>
    db_wf (cn_buffer (gt_conn g' ! i)) \<and> db_header (cn_buffer (gt_conn g' ! i)) = h' \<and>
    db_bytes (cn_buffer (gt_conn g' ! i)) = bs'"
  using assms
proof (induction chunks arbitrary: g c fs h bs)
  case Nil
  then show ?case by simp
next
  case (Cons d ds)
  have "parse_frames hs h (bs @ d) \<noteq> None"
  proof
    assume "parse_frames hs h (bs @ d) = None"
    from parse_frames_None_append [OF this, of "concat ds"] Cons.prems(10) show False by simp
  qed
  then obtain fs1 h1 bs1 where p1: "parse_frames hs h (bs @ d) = Some (fs1, h1, bs1)"
    by (cases "parse_frames hs h (bs @ d)") auto
  from parse_frames_append [OF p1, of "concat ds"] Cons.prems(10) obtain fs2 where
    p2: "parse_frames hs h1 (bs1 @ concat ds) = Some (fs2, h', bs')" "fs = fs1 @ fs2" by auto
  from dispatch_message_refines [OF Cons.prems(1-3) _ Cons.prems(6), of d fs1 h1 bs1 sid] Cons.prems p1
  obtain db1 mp1 where d: "dispatch_message i sid d g =
      Some (map (forward_act g c) fs1, g\<lparr>gt_conn := (gt_conn g)[i := c\<lparr>cn_buffer := db1\<rparr>], gt_mp := mp1\<rparr>)"
    "db_wf db1" "db_header db1 = h1" "db_bytes db1 = bs1" by auto
  let ?g = "g\<lparr>gt_conn := (gt_conn g)[i := c\<lparr>cn_buffer := db1\<rparr>], gt_mp := mp1\<rparr>"
  have "\<exists>g'. dispatch_chunks i sid ds ?g = Some (map (forward_act ?g (c\<lparr>cn_buffer := db1\<rparr>)) fs2, g') \<and>
    db_wf (cn_buffer (gt_conn g' ! i)) \<and> db_header (cn_buffer (gt_conn g' ! i)) = h' \<and>
    db_bytes (cn_buffer (gt_conn g' ! i)) = bs'"
    by (rule Cons.IH [OF _ _ _ Cons.prems(4) _ _ _ _ parse_frames_stable [OF p1] p2(1)])
      (use Cons.prems(1,3,5) d in \<open>simp_all add: forward_act_buffer\<close>)
  with d(1) p2(2) show ?case by (auto simp: forward_act_buffer)
qed

text \<open>Whatever the bytes are, the loop ends.\<close>

lemma dispatch_loop_total:
  assumes "db_wf db" "0 < gt_header_size g"
  shows "\<exists>acts db' mp'. dispatch_loop g c sid (db, mp) = Some (acts, db', mp') \<and> db_wf db'"
  using assms(1)
proof (induction "2 * length (db_bytes db) + (if db_header db \<noteq> 0 then 1 else 0)" arbitrary: db mp rule: less_induct)
  case less
  let ?h = "db_header db" and ?bs = "db_bytes db" and ?hs = "gt_header_size g"
  note step = dispatch_loop.simps [of g c sid "(db, mp)"]
  have size: "db_size db = int (length ?bs)" using less.prems by (simp add: db_wf_def)
  consider (short) "?h = 0" "length ?bs < ?hs" | (header) "?h = 0" "?hs \<le> length ?bs"
    | (stop) "?h \<noteq> 0" "?h < 0 \<or> int (length ?bs) < ?h" | (big) "?h \<ge> 0x1000000" "?h \<le> int (length ?bs)"
    | (frame) "0 < ?h" "?h < 0x1000000" "?h \<le> int (length ?bs)" by linarith
  then show ?case
  proof cases
    case short
    then have "databuffer_readheader ?hs (db, mp) = Some (- 1, db, mp)" using size by (simp add: databuffer_readheader_def)
    with less.prems show ?thesis by (simp add: step)
  next
    case header
    from dispatch_loop_header [OF less.prems header(1) assms(2) header(2), of c sid mp] obtain db1 mp1 where
      d: "dispatch_loop g c sid (db, mp) = dispatch_loop g c sid (db1, mp1)" "db_wf db1" "db_bytes db1 = drop ?hs ?bs"
      by blast
    have "2 * length (db_bytes db1) + (if db_header db1 \<noteq> 0 then 1 else 0) < 2 * length ?bs + (if ?h \<noteq> 0 then 1 else 0)"
      using d(3) header assms(2) by auto
    from less.hyps [OF this d(2)] d(1) show ?thesis by simp
  next
    case stop
    with readheader_pending [OF less.prems, of ?hs mp] less.prems show ?thesis by (auto simp: step)
  next
    case big
    then have "?h \<noteq> 0" by simp
    from readheader_pending [OF less.prems this, of ?hs mp] big databuffer_clear_result [of db mp] empty_db_wf(1)
    show ?thesis by (auto simp: step)
  next
    case frame
    show ?thesis
    proof (cases "has_target g c")
      case True
      from dispatch_loop_frame [OF less.prems frame True, of sid mp] obtain db1 mp1 where
        d: "dispatch_loop g c sid (db, mp) = do { (acts, st') \<leftarrow> dispatch_loop g c sid (db1, mp1);
             Some (forward_act g c (take (nat ?h) ?bs) # acts, st') }"
          "db_wf db1" "db_header db1 = 0" "db_bytes db1 = drop (nat ?h) ?bs" by blast
      have "2 * length (db_bytes db1) + (if db_header db1 \<noteq> 0 then 1 else 0) < 2 * length ?bs + (if ?h \<noteq> 0 then 1 else 0)"
        using d(3,4) frame by simp
      from less.hyps [OF this d(2), of mp1] d(1) show ?thesis by auto
    next
      case False
      let ?db1 = "db\<lparr>db_header := 0\<rparr>"
      have "dispatch_loop g c sid (db, mp) = dispatch_loop g c sid (?db1, mp)"
        using False frame readheader_pending [OF less.prems, of ?hs mp]
        by (auto simp: step forward_def has_target_def databuffer_reset_def)
      moreover have "2 * length (db_bytes ?db1) + (if db_header ?db1 \<noteq> 0 then 1 else 0) < 2 * length ?bs + (if ?h \<noteq> 0 then 1 else 0)"
        using frame by simp
      moreover have "db_wf ?db1" using less.prems by simp
      ultimately show ?thesis using less.hyps [of ?db1 mp] by simp
    qed
  qed
qed

subsection \<open>The connections\<close>

text \<open>
  The invariant of the service: the connection table and the connection array agree, a free slot is
  blank, and every receive buffer is well formed.
\<close>

definition conn_ok :: "hashid \<Rightarrow> nat \<Rightarrow> connection \<Rightarrow> bool" where
  "conn_ok hash i c \<longleftrightarrow> db_wf (cn_buffer c) \<and>
     (if \<exists>a. slot_of hash a = Some i then slot_of hash (cn_id c) = Some i else c = blank_connection)"

definition gate_wf :: "gate \<Rightarrow> bool" where
  "gate_wf g \<longleftrightarrow> hashid_wf (gt_hash g) \<and> hi_cap (gt_hash g) = gt_max_connection g \<and>
     length (gt_conn g) = gt_max_connection g \<and> (gt_header_size g = 2 \<or> gt_header_size g = 4) \<and>
     (\<forall>i < length (gt_conn g). conn_ok (gt_hash g) i (gt_conn g ! i))"

lemma gate_lookup:
  assumes "gate_wf g"
  shows "\<exists>n. hashid_lookup a (gt_hash g) = Some n \<and> (n = - 1 \<and> slot_of (gt_hash g) a = None \<or>
    (\<exists>i. n = int i \<and> i < length (gt_conn g) \<and> slot_of (gt_hash g) a = Some i \<and> cn_id (gt_conn g ! i) = a))"
proof (cases "slot_of (gt_hash g) a")
  case None
  with assms hids.lookup_law [of "gt_hash g" a] show ?thesis by (simp add: gate_wf_def)
next
  case (Some i)
  from assms have wf: "hashid_wf (gt_hash g)" by (simp add: gate_wf_def)
  have i: "i < length (gt_conn g)" using hids.range_law [OF wf Some] assms by (simp add: gate_wf_def)
  with assms have "conn_ok (gt_hash g) i (gt_conn g ! i)" by (simp add: gate_wf_def)
  with Some have "slot_of (gt_hash g) (cn_id (gt_conn g ! i)) = Some i" unfolding conn_ok_def by metis
  from hids.inj_law [OF wf this Some] Some i hids.lookup_law [OF wf, of a] show ?thesis by simp
qed

lemma gate_conn_update:
  assumes "gate_wf g" "i < length (gt_conn g)" "conn_ok (gt_hash g) i c"
  shows "gate_wf (g\<lparr>gt_conn := (gt_conn g)[i := c], gt_mp := mp\<rparr>)" "gate_wf (g\<lparr>gt_conn := (gt_conn g)[i := c]\<rparr>)"
  using assms by (auto simp: gate_wf_def nth_list_update)

lemma conn_ok_upd:
  assumes "conn_ok hash i c" "slot_of hash a = Some i" "cn_id c' = cn_id c" "db_wf (cn_buffer c')"
  shows "conn_ok hash i c'"
  using assms unfolding conn_ok_def by metis

lemma gate_data:
  assumes "gate_wf g" "slot_of (gt_hash g) a = Some i"
  shows "\<exists>acts g'. dispatch_message i sid data g = Some (acts, g') \<and> gate_wf g' \<and> gt_hash g' = gt_hash g"
proof -
  from assms(1) have wf: "hashid_wf (gt_hash g)" by (simp add: gate_wf_def)
  have i: "i < length (gt_conn g)" using hids.range_law [OF wf assms(2)] assms(1) by (simp add: gate_wf_def)
  let ?c = "gt_conn g ! i"
  have ok: "conn_ok (gt_hash g) i ?c" using assms(1) i by (simp add: gate_wf_def)
  then have db: "db_wf (cn_buffer ?c)" by (simp add: conn_ok_def)
  obtain db mp where p: "databuffer_push data (cn_buffer ?c, gt_mp g) = (db, mp)" by fastforce
  have "0 < gt_header_size g" using assms(1) by (auto simp: gate_wf_def)
  from dispatch_loop_total [OF databuffer_push_result(1) [OF db p] this, of ?c sid mp] obtain acts db' mp' where
    d: "dispatch_loop g ?c sid (db, mp) = Some (acts, db', mp')" "db_wf db'" by blast
  have "conn_ok (gt_hash g) i (?c\<lparr>cn_buffer := db'\<rparr>)" using conn_ok_upd [OF ok assms(2)] d(2) by simp
  from gate_conn_update(1) [OF assms(1) i this, of mp'] d(1) p i show ?thesis by (simp add: dispatch_message_def)
qed

text \<open>What an event does to the table of connections.\<close>

definition event_ok :: "skynet_socket_message \<Rightarrow> gate \<Rightarrow> bool" where
  "event_ok m g \<longleftrightarrow> (sm_type m = SKYNET_SOCKET_TYPE_ACCEPT \<longrightarrow>
     gt_listen_id g = sm_id m \<and> 0 \<le> sm_ud m \<and> slot_of (gt_hash g) (sm_ud m) = None) \<and>
     (sm_type m = SKYNET_SOCKET_TYPE_DATA \<longrightarrow> sm_buffer m \<noteq> None)"

lemma gate_close:
  assumes wf: "gate_wf g" and m: "sm_type m = SKYNET_SOCKET_TYPE_CLOSE \<or> sm_type m = SKYNET_SOCKET_TYPE_ERROR"
  shows "\<exists>acts g'. dispatch_socket_message m g = Some (acts, g') \<and> gate_wf g' \<and>
    slot_of (gt_hash g') = (slot_of (gt_hash g))(sm_id m := None)"
proof -
  let ?hash = "gt_hash g"
  from wf have hwf: "hashid_wf ?hash" by (simp add: gate_wf_def)
  from hids.remove_law [OF hwf, of "sm_id m"] obtain hash where
    r: "hashid_remove (sm_id m) ?hash = Some (case slot_of ?hash (sm_id m) of Some i \<Rightarrow> int i | None \<Rightarrow> - 1, hash)"
      "hashid_wf hash" "slot_of hash = (slot_of ?hash)(sm_id m := None)" "hi_cap hash = hi_cap ?hash" by blast
  have other: "conn_ok hash j (gt_conn g ! j)" if "j < length (gt_conn g)" "slot_of ?hash (sm_id m) \<noteq> Some j" for j
  proof -
    have "conn_ok ?hash j (gt_conn g ! j)" using wf that(1) by (simp add: gate_wf_def)
    moreover have "slot_of hash a = Some j \<longleftrightarrow> slot_of ?hash a = Some j" for a using that(2) r(3) by auto
    ultimately show ?thesis by (simp add: conn_ok_def)
  qed
  show ?thesis
  proof (cases "slot_of ?hash (sm_id m)")
    case None
    then have "gate_wf (g\<lparr>gt_hash := hash\<rparr>)" using wf r(2,4) other by (simp add: gate_wf_def)
    with None m r(1,3) show ?thesis by (auto simp: dispatch_socket_message_def)
  next
    case (Some i)
    have i: "i < length (gt_conn g)" using hids.range_law [OF hwf Some] wf by (simp add: gate_wf_def)
    obtain mp where mp: "databuffer_clear (cn_buffer (gt_conn g ! i), gt_mp g) = Some (empty_db, mp)"
      using databuffer_clear_result by blast
    have "slot_of hash a \<noteq> Some i" for a using hids.inj_law [OF hwf Some, of a] r(3) by auto
    then have "conn_ok hash i blank_connection" by (simp add: conn_ok_def blank_connection_def empty_db_wf)
    with wf r(2,4) other Some i have
      "gate_wf (g\<lparr>gt_hash := hash, gt_conn := (gt_conn g)[i := blank_connection], gt_mp := mp\<rparr>)"
      by (auto simp: gate_wf_def nth_list_update)
    with Some m r(1,3) i mp show ?thesis
      by (auto simp: dispatch_socket_message_def Let_def blank_connection_def)
  qed
qed

lemma gate_accept:
  assumes wf: "gate_wf g" and m: "sm_type m = SKYNET_SOCKET_TYPE_ACCEPT" and ok: "event_ok m g"
  shows "\<exists>acts g'. dispatch_socket_message m g = Some (acts, g') \<and> gate_wf g' \<and>
    (if hashid_full (gt_hash g) then g' = g \<and> acts = [SocketClose (sm_ud m)]
     else \<exists>i. i \<notin> ran (slot_of (gt_hash g)) \<and> slot_of (gt_hash g') = (slot_of (gt_hash g))(sm_ud m \<mapsto> i))"
proof (cases "hashid_full (gt_hash g)")
  case True
  with wf m ok show ?thesis by (simp add: dispatch_socket_message_def event_ok_def)
next
  case False
  let ?hash = "gt_hash g"
  from wf have hwf: "hashid_wf ?hash" by (simp add: gate_wf_def)
  from ok m have a: "gt_listen_id g = sm_id m" "0 \<le> sm_ud m" "slot_of ?hash (sm_ud m) = None" by (simp_all add: event_ok_def)
  from hids.insert_law [OF hwf a(3,2) False] obtain i hash where
    r: "hashid_insert (sm_ud m) ?hash = Some (i, hash)" "hashid_wf hash" "i \<notin> ran (slot_of ?hash)"
      "slot_of hash = (slot_of ?hash)(sm_ud m \<mapsto> i)" "hi_cap hash = hi_cap ?hash" by blast
  have i: "i < length (gt_conn g)" using hids.range_law [OF r(2), of "sm_ud m" i] r(4,5) wf by (simp add: gate_wf_def)
  let ?c = "(gt_conn g ! i)\<lparr>cn_id := sm_ud m, cn_remote_name := take 31 (sm_text m)\<rparr>"
  have old: "conn_ok ?hash j (gt_conn g ! j)" if "j < length (gt_conn g)" for j using wf that by (simp add: gate_wf_def)
  have "conn_ok hash i ?c" using old [OF i] r(4) by (auto simp: conn_ok_def)
  moreover have "conn_ok hash j (gt_conn g ! j)" if "j < length (gt_conn g)" "j \<noteq> i" for j
  proof -
    have "slot_of hash b = Some j \<longleftrightarrow> slot_of ?hash b = Some j" for b using that(2) r(4) a(3) by auto
    with old [OF that(1)] show ?thesis by (simp add: conn_ok_def)
  qed
  ultimately have "gate_wf (g\<lparr>gt_hash := hash, gt_conn := (gt_conn g)[i := ?c]\<rparr>)"
    using wf r(2,5) i by (auto simp: gate_wf_def nth_list_update)
  then show ?thesis using False m a(1) r(1,3,4) i
    by (auto simp: dispatch_socket_message_def Let_def)
qed

subsection \<open>Properties\<close>

text \<open>Reassembly: when the peer sends frames (each a big-endian length and a payload within the limit of
  the header size) and the socket layer delivers the bytes in chunks cut anywhere, the gate forwards
  exactly the non-empty payloads, whole and in order, and its buffer ends empty.\<close>

theorem gate_reassembles_frames:
  assumes "gt_header_size g = hs" "hs = 2 \<or> hs = 4" "i < length (gt_conn g)" "has_target g (gt_conn g ! i)"
    "cn_buffer (gt_conn g ! i) = empty_db" "\<forall>p \<in> set payloads. length p < frame_limit hs"
    "concat chunks = concat (map (encode_frame hs) payloads)"
  shows "\<exists>g'. dispatch_chunks i sid chunks g =
      Some (map (forward_act g (gt_conn g ! i)) (filter (\<lambda>p. p \<noteq> []) payloads), g') \<and>
    db_bytes (cn_buffer (gt_conn g' ! i)) = [] \<and> db_header (cn_buffer (gt_conn g' ! i)) = 0"
proof -
  have "0 < hs" using assms(2) by auto
  have start: "db_wf (cn_buffer (gt_conn g ! i))" "db_header (cn_buffer (gt_conn g ! i)) = 0"
    "db_bytes (cn_buffer (gt_conn g ! i)) = []" using assms(5) empty_db_wf by (simp_all add: empty_db_def)
  have "parse_frames hs 0 [] = Some ([], 0, [])" using \<open>0 < hs\<close> by (simp add: parse_frames.simps)
  moreover have "parse_frames hs 0 ([] @ concat chunks) = Some (filter (\<lambda>p. p \<noteq> []) payloads, 0, [])"
    using parse_frames_encoded [OF assms(2,6)] assms(7) by simp
  ultimately show ?thesis
    using dispatch_chunks_refines [OF assms(3) refl assms(4) \<open>0 < hs\<close> assms(1) start] by blast
qed

definition demo_gate :: gate where
  "demo_gate = gate_create\<lparr>gt_listen_id := 1, gt_watchdog := 5, gt_header_size := 2, gt_max_connection := 4,
     gt_client_tag := 3, gt_hash := hashid_init 4, gt_conn := replicate 4 blank_connection\<rparr>"

theorem gate_reassembles_frames_witness:
  "\<exists>g'. dispatch_chunks 0 7 [[0], [2, 10], [11, 0, 0, 0], [1, 12]] demo_gate =
      Some (map (forward_act demo_gate (gt_conn demo_gate ! 0)) [[10, 11], [12]], g') \<and>
    db_bytes (cn_buffer (gt_conn g' ! 0)) = [] \<and> db_header (cn_buffer (gt_conn g' ! 0)) = 0"
proof -
  have "gt_header_size demo_gate = 2" "0 < length (gt_conn demo_gate)" "has_target demo_gate (gt_conn demo_gate ! 0)"
    "cn_buffer (gt_conn demo_gate ! 0) = empty_db" by (simp_all add: demo_gate_def has_target_def blank_connection_def)
  moreover have "concat [[0], [2, 10], [11, 0, 0, 0], [1, 12]] = concat (map (encode_frame 2) [[10, 11], [], [12]])"
    by (simp add: encode_frame_def frame_header_def)
  ultimately show ?thesis
    using gate_reassembles_frames [of demo_gate 2 0 "[[10, 11], [], [12]]" "[[0], [2, 10], [11, 0, 0, 0], [1, 12]]" 7]
    by (simp add: frame_limit_def)
qed

text \<open>Every socket event is handled to its end and keeps the invariant of the service, whatever bytes it
  carries: no assertion fails, no loop runs forever, data and connect events keep the table, an
  accepted connection gets a free slot or is closed when the table is full, and a closed one gives
  its slot back.\<close>

theorem gate_events_keep_invariant:
  assumes "gate_wf g" "event_ok m g"
  shows "\<exists>acts g'. dispatch_socket_message m g = Some (acts, g') \<and> gate_wf g' \<and>
    (case sm_type m of
       SKYNET_SOCKET_TYPE_ACCEPT \<Rightarrow>
         (if hashid_full (gt_hash g) then g' = g \<and> acts = [SocketClose (sm_ud m)]
          else \<exists>i. i \<notin> ran (slot_of (gt_hash g)) \<and> slot_of (gt_hash g') = (slot_of (gt_hash g))(sm_ud m \<mapsto> i))
     | SKYNET_SOCKET_TYPE_CLOSE \<Rightarrow> slot_of (gt_hash g') = (slot_of (gt_hash g))(sm_id m := None)
     | SKYNET_SOCKET_TYPE_ERROR \<Rightarrow> slot_of (gt_hash g') = (slot_of (gt_hash g))(sm_id m := None)
     | _ \<Rightarrow> gt_hash g' = gt_hash g)"
proof (cases "sm_type m")
  case SKYNET_SOCKET_TYPE_DATA
  obtain n where n: "hashid_lookup (sm_id m) (gt_hash g) = Some n"
    "n = - 1 \<or> (\<exists>i. n = int i \<and> slot_of (gt_hash g) (sm_id m) = Some i)"
    using gate_lookup [OF assms(1), of "sm_id m"] by blast
  moreover obtain data where "sm_buffer m = Some data" using assms(2) SKYNET_SOCKET_TYPE_DATA by (auto simp: event_ok_def)
  ultimately show ?thesis using SKYNET_SOCKET_TYPE_DATA gate_data [OF assms(1), of "sm_id m" _ "sm_id m" data] assms(1)
    by (auto simp: dispatch_socket_message_def)
next
  case SKYNET_SOCKET_TYPE_CONNECT
  with gate_lookup [OF assms(1), of "sm_id m"] assms(1) show ?thesis by (auto simp: dispatch_socket_message_def)
next
  case SKYNET_SOCKET_TYPE_CLOSE
  with gate_close [OF assms(1), of m] show ?thesis by simp
next
  case SKYNET_SOCKET_TYPE_ERROR
  with gate_close [OF assms(1), of m] show ?thesis by simp
next
  case SKYNET_SOCKET_TYPE_ACCEPT
  with gate_accept [OF assms(1) SKYNET_SOCKET_TYPE_ACCEPT assms(2)] show ?thesis by simp
next
  case SKYNET_SOCKET_TYPE_WARNING
  with assms(1) show ?thesis by (simp add: dispatch_socket_message_def)
next
  case SKYNET_SOCKET_TYPE_UDP
  with assms(1) show ?thesis by (simp add: dispatch_socket_message_def)
qed

lemma gate_init_conns:
  assumes "hashid_init mx = gt_hash g" "gt_conn g = replicate mx blank_connection" "gt_max_connection g = mx"
    "gt_header_size g = 2 \<or> gt_header_size g = 4"
  shows "gate_wf g"
proof -
  have "hi_cap (gt_hash g) = mx" unfolding assms(1) [symmetric] by (simp add: hashid_init_def Let_def)
  moreover have "slot_of (gt_hash g) a = None" for a using hashid_init_rep(2) [of mx a] assms(1) by simp
  ultimately show ?thesis using assms(2-4) hashid_init_wf [of mx] assms(1) empty_db_wf(1)
    by (auto simp: gate_wf_def conn_ok_def blank_connection_def)
qed

lemma demo_gate_wf: "gate_wf demo_gate"
  by (intro gate_init_conns [of 4]) (simp_all add: demo_gate_def)

theorem gate_events_keep_invariant_witness:
  "\<exists>acts g'. dispatch_socket_message
      \<lparr>sm_type = SKYNET_SOCKET_TYPE_ACCEPT, sm_id = 1, sm_ud = 9, sm_buffer = None, sm_text = ''10.0.0.1''\<rparr> demo_gate = Some (acts, g') \<and>
    gate_wf g'"
proof -
  have "gt_listen_id demo_gate = 1" "gt_hash demo_gate = hashid_init 4" by (simp_all add: demo_gate_def)
  then have "event_ok \<lparr>sm_type = SKYNET_SOCKET_TYPE_ACCEPT, sm_id = 1, sm_ud = 9, sm_buffer = None, sm_text = ''10.0.0.1''\<rparr> demo_gate"
    using hashid_init_rep(2) [of 4 9] by (simp add: event_ok_def)
  from gate_events_keep_invariant [OF demo_gate_wf this] show ?thesis by blast
qed

lemma start_listen_keeps:
  "start_listen listen addr g = (ret, acts, g') \<Longrightarrow> gate_wf (g\<lparr>gt_listen_id := gt_listen_id g'\<rparr>) = gate_wf g' \<and>
     g' = g\<lparr>gt_listen_id := gt_listen_id g'\<rparr>"
  by (auto simp: start_listen_def Let_def split: prod.splits option.splits if_splits)

text \<open>A gate that starts (\<open>gate_init\<close> returns 0) satisfies the invariant that its events keep.\<close>

lemma gate_init_establishes:
  assumes "gate_init queryname listen args gate_create = (0, acts, g)"
  shows "gate_wf g"
proof -
  let ?init = "\<lambda>mx header tag wd. gate_create\<lparr>gt_watchdog := wd, gt_hash := hashid_init (nat mx),
     gt_conn := replicate (nat mx) blank_connection, gt_max_connection := nat mx, gt_client_tag := tag,
     gt_header_size := (if header = CHR ''S'' then 2 else 4)\<rparr>"
  have "\<exists>header watchdog binding tag mx. gate_configure queryname listen header watchdog binding tag mx gate_create = (0, acts, g)"
    using assms unfolding gate_init_def by (simp split: option.splits list.splits prod.splits) blast+
  then have "\<exists>mx header tag wd binding. start_listen listen binding (?init mx header tag wd) = (0, acts, g)"
    unfolding gate_configure_def Let_def by (metis prod.inject zero_neq_one)
  then obtain mx header tag wd binding where
    s: "start_listen listen binding (?init mx header tag wd) = (0, acts, g)" by blast
  have "gate_wf ((?init mx header tag wd)\<lparr>gt_listen_id := gt_listen_id g\<rparr>)"
    by (rule gate_init_conns [of "nat mx"]) simp_all
  with start_listen_keeps [OF s] show ?thesis by simp
qed

lemma gate_init_establishes_witness:
  "\<exists>acts g. gate_init (\<lambda>_. 5) (\<lambda>_ _ _. 1) (Some ''S .wd 8888 0 4'') gate_create = (0, acts, g) \<and> gate_wf g"
proof -
  have w: "scan_word '' .wd 8888 0 4'' = Some (''.wd'', '' 8888 0 4'')" "scan_word '' 8888 0 4'' = Some (''8888'', '' 0 4'')"
    by (simp_all add: scan_word_def c_isspace_def)
  have i: "scan_int '' 0 4'' = Some (0, '' 4'')" "scan_int '' 4'' = Some (4, [])" "strtol 10 ''8888'' = 8888"
    "strsep {CHR '':''} ''8888'' = (''8888'', None)"
    by (simp_all add: scan_int_def c_isspace_def digit_val_def strtol_def scan_number_def Let_def strsep_def)
  have "\<exists>acts g. gate_init (\<lambda>_. 5) (\<lambda>_ _ _. 1) (Some ''S .wd 8888 0 4'') gate_create = (0, acts, g)"
    by (simp add: gate_init_def gate_configure_def w i start_listen_def Let_def)
  then obtain acts g where g: "gate_init (\<lambda>_. 5) (\<lambda>_ _ _. 1) (Some ''S .wd 8888 0 4'') gate_create = (0, acts, g)" by blast
  from gate_init_establishes [OF g] g show ?thesis by blast
qed

text \<open>A 4-byte header with its top bit set is read as a negative length, which the loop takes for an
  incomplete frame: nothing received later on that connection is ever forwarded.\<close>

theorem gate_negative_header_stalls:
  assumes "db_wf db" "db_header db < 0"
  shows "databuffer_push data (db, mp) = (db', mp') \<longrightarrow>
    dispatch_loop g c sid (db', mp') = Some ([], db', mp') \<and> db_wf db' \<and> db_header db' < 0 \<and>
    db_bytes db' = db_bytes db @ data"
proof
  assume p: "databuffer_push data (db, mp) = (db', mp')"
  note push = databuffer_push_result [OF assms(1) p]
  from push(3) assms(2) have h: "db_header db' < 0" "db_header db' \<noteq> 0" by simp_all
  from readheader_pending [OF push(1) h(2), of "gt_header_size g" mp'] h push(1,2)
  show "dispatch_loop g c sid (db', mp') = Some ([], db', mp') \<and> db_wf db' \<and> db_header db' < 0 \<and>
    db_bytes db' = db_bytes db @ data"
    by (simp add: dispatch_loop.simps [of g c sid "(db', mp')"])
qed

theorem gate_negative_header_stalls_witness:
  "\<exists>db mp db' mp'. databuffer_readheader 4 (databuffer_push [0x80, 0, 0, 1] (empty_db, empty_pool)) = Some (- 0x7FFFFFFF, db, mp) \<and>
     databuffer_push [1, 2, 3] (db, mp) = (db', mp') \<and>
     dispatch_loop demo_gate (gt_conn demo_gate ! 0) 7 (db', mp') = Some ([], db', mp')"
proof -
  let ?st0 = "databuffer_push [0x80, 0, 0, 1] (empty_db, empty_pool)"
  have push: "db_wf (fst ?st0)" using databuffer_push_result(1) [OF empty_db_wf(1), of "[0x80, 0, 0, 1]" empty_pool "fst ?st0" "snd ?st0"] by simp
  have "\<exists>db mp. databuffer_readheader 4 ?st0 = Some (- 0x7FFFFFFF, db, mp) \<and> db_wf db \<and> db_header db = - 0x7FFFFFFF"
    using readheader_result [OF push, of 4 "snd ?st0"]
    by (auto simp: databuffer_push_def empty_db_def empty_pool_def db_bytes_def header_of_def)
  then obtain db mp where d: "databuffer_readheader 4 ?st0 = Some (- 0x7FFFFFFF, db, mp)" "db_wf db" "db_header db = - 0x7FFFFFFF" by blast
  obtain db' mp' where p: "databuffer_push [1, 2, 3] (db, mp) = (db', mp')" by fastforce
  with gate_negative_header_stalls [OF d(2), of "[1, 2, 3]" mp db' mp' demo_gate "gt_conn demo_gate ! 0" 7] d show ?thesis
    by auto
qed

end
