(* ===== verification/Netpack.thy ===== *)
theory Netpack
  imports Prelude
begin

unbundle bit_operations_syntax

section \<open>Network packages (\<open>lua-netpack.c\<close>)\<close>

text \<open>
  The library cuts the streams of many sockets into packages with a 2-byte big-endian length. A
  package that is the whole of an event is handed over at once; further packages wait in a circular
  queue, and the incomplete tail of each stream waits in a hash table keyed by the socket.

  The userdata at stack index 1 is the state, \<open>None\<close> when it is \<open>nil\<close>. A block of memory is a list of
  cells, \<open>None\<close> where nothing was written yet, so that handing over an unwritten byte would show. The
  chains of the hash table are lists, and the values that a function pushes for Lua are its result.
\<close>

subsection \<open>State\<close>

definition QUEUESIZE :: nat where "QUEUESIZE = 1024"
definition HASHSIZE :: nat where "HASHSIZE = 4096"

type_synonym mem = "u8 option list"

record netpack =
  np_id :: int
  np_size :: nat
  np_buffer :: "mem option"

record uncomplete =
  uc_pack :: netpack
  uc_read :: int
  uc_header :: nat

record netqueue =
  nq_cap :: nat
  nq_head :: nat
  nq_tail :: nat
  nq_hash :: "uncomplete list list"
  nq_queue :: "netpack option list"

text \<open>\<open>memcpy\<close> into a block of memory, from bytes that exist.\<close>

definition mem_write :: "nat \<Rightarrow> bytes \<Rightarrow> mem \<Rightarrow> mem option" where
  "mem_write off src m =
     (if off + length src \<le> length m
      then Some (take off m @ map Some src @ drop (off + length src) m) else None)"

definition mem_alloc :: "nat \<Rightarrow> mem" where
  "mem_alloc n = replicate n None"

subsection \<open>The queue of complete packages\<close>

definition fresh_queue :: netqueue where
  "fresh_queue = \<lparr>nq_cap = QUEUESIZE, nq_head = 0, nq_tail = 0, nq_hash = replicate HASHSIZE [],
     nq_queue = replicate QUEUESIZE None\<rparr>"

definition get_queue :: "netqueue option \<Rightarrow> netqueue" where
  "get_queue u = (case u of Some q \<Rightarrow> q | None \<Rightarrow> fresh_queue)"

definition expand_netqueue :: "netqueue \<Rightarrow> netqueue" where
  "expand_netqueue q =
     \<lparr>nq_cap = nq_cap q + QUEUESIZE, nq_head = 0, nq_tail = nq_cap q, nq_hash = nq_hash q,
      nq_queue = map (\<lambda>i. nq_queue q ! ((nq_head q + i) mod nq_cap q)) [0..<nq_cap q] @ replicate QUEUESIZE None\<rparr>"

definition push_data :: "int \<Rightarrow> mem option \<Rightarrow> nat \<Rightarrow> bool \<Rightarrow> netqueue option \<Rightarrow> netqueue option" where
  "push_data fd buffer sz clone u =
     do { let buffer = (if clone then map_option (take sz) buffer else buffer);
          let q = get_queue u;
          arr \<leftarrow> array_set (nq_queue q) (nq_tail q) (Some \<lparr>np_id = fd, np_size = sz, np_buffer = buffer\<rparr>);
          let tail = Suc (nq_tail q);
          let tail = (if nq_cap q \<le> tail then tail - nq_cap q else tail);
          let q = q\<lparr>nq_tail := tail, nq_queue := arr\<rparr>;
          Some (if nq_head q = nq_tail q then expand_netqueue q else q) }"

definition lpop :: "netqueue option \<Rightarrow> (netpack option \<times> netqueue option) option" where
  "lpop u =
     (case u of
        None \<Rightarrow> Some (None, None)
      | Some q \<Rightarrow>
          (if nq_head q = nq_tail q then Some (None, Some q)
           else
             do { cell \<leftarrow> array_get (nq_queue q) (nq_head q);
                  np \<leftarrow> cell;
                  let head = Suc (nq_head q);
                  Some (Some np, Some (q\<lparr>nq_head := (if nq_cap q \<le> head then 0 else head)\<rparr>)) }))"

subsection \<open>The table of incomplete packages\<close>

text \<open>\<open>hash_fd\<close>: the shifts of the signed descriptor, then an unsigned 32-bit sum.\<close>

definition hash_fd :: "int \<Rightarrow> nat" where
  "hash_fd fd =
     (let a = word_of_int (fd div 2 ^ 24) :: u32; b = word_of_int (fd div 2 ^ 12) :: u32; c = word_of_int fd :: u32 in
      unat (a + b + c) mod HASHSIZE)"

fun take_chain :: "int \<Rightarrow> uncomplete list \<Rightarrow> uncomplete option \<times> uncomplete list" where
  "take_chain fd [] = (None, [])"
| "take_chain fd (uc # ucs) =
     (if np_id (uc_pack uc) = fd then (Some uc, ucs)
      else (let (r, rest) = take_chain fd ucs in (r, uc # rest)))"

definition find_uncomplete :: "int \<Rightarrow> netqueue option \<Rightarrow> (uncomplete option \<times> netqueue option) option" where
  "find_uncomplete fd u =
     (case u of
        None \<Rightarrow> Some (None, None)
      | Some q \<Rightarrow>
          do { chain \<leftarrow> array_get (nq_hash q) (hash_fd fd);
               let (r, rest) = take_chain fd chain;
               Some (r, Some (q\<lparr>nq_hash := (nq_hash q)[hash_fd fd := rest]\<rparr>)) })"

text \<open>Linking a node at the front of its chain, as \<open>save_uncomplete\<close> and \<open>filter_data_\<close> do.\<close>

definition link_uncomplete :: "uncomplete \<Rightarrow> netqueue \<Rightarrow> netqueue option" where
  "link_uncomplete uc q =
     do { let h = hash_fd (np_id (uc_pack uc));
          chain \<leftarrow> array_get (nq_hash q) h;
          Some (q\<lparr>nq_hash := (nq_hash q)[h := uc # chain]\<rparr>) }"

text \<open>\<open>save_uncomplete\<close> with the fields its callers fill in.\<close>

definition save_uncomplete :: "int \<Rightarrow> int \<Rightarrow> nat \<Rightarrow> nat \<Rightarrow> mem option \<Rightarrow> netqueue option \<Rightarrow> netqueue option" where
  "save_uncomplete fd rd header sz buffer u =
     link_uncomplete \<lparr>uc_pack = \<lparr>np_id = fd, np_size = sz, np_buffer = buffer\<rparr>, uc_read = rd, uc_header = header\<rparr>
       (get_queue u)"

definition close_uncomplete :: "int \<Rightarrow> netqueue option \<Rightarrow> netqueue option option" where
  "close_uncomplete fd u = do { (_, u') \<leftarrow> find_uncomplete fd u; Some u' }"

text \<open>\<open>lclear\<close>: the blocks it frees, and the emptied queue.\<close>

definition lclear :: "netqueue option \<Rightarrow> (mem option list \<times> netqueue option) option" where
  "lclear u =
     (case u of
        None \<Rightarrow> Some ([], None)
      | Some q \<Rightarrow>
          (let tail = (if nq_tail q < nq_head q then nq_tail q + nq_cap q else nq_tail q) in
           do { cells \<leftarrow> those (map (\<lambda>i. do { c \<leftarrow> array_get (nq_queue q) (i mod nq_cap q); c }) [nq_head q..<tail]);
                Some (map (np_buffer \<circ> uc_pack) (concat (nq_hash q)) @ map np_buffer cells,
                      Some (q\<lparr>nq_hash := map (\<lambda>_. []) (nq_hash q), nq_head := 0, nq_tail := 0\<rparr>)) }))"

subsection \<open>Cutting a stream\<close>

definition read_size :: "bytes \<Rightarrow> nat option" where
  "read_size buffer =
     do { b0 \<leftarrow> array_get buffer 0; b1 \<leftarrow> array_get buffer 1;
          Some (push_bit 8 (unat b0) OR unat b1) }"

text \<open>Keeping the incomplete package at the end of an event (both callers write it out).\<close>

definition keep_partial :: "int \<Rightarrow> nat \<Rightarrow> bytes \<Rightarrow> netqueue option \<Rightarrow> netqueue option" where
  "keep_partial fd pack_size body u =
     do { m \<leftarrow> mem_write 0 body (mem_alloc pack_size);
          save_uncomplete fd (int (length body)) 0 pack_size (Some m) u }"

function push_more :: "int \<Rightarrow> bytes \<Rightarrow> netqueue option \<Rightarrow> netqueue option" where
  "push_more fd buffer u =
     (if length buffer = 1 then save_uncomplete fd (- 1) (unat (hd buffer)) 0 None u
      else
        do { pack_size \<leftarrow> read_size buffer;
             let body = drop 2 buffer;
             (if length body < pack_size then keep_partial fd pack_size body u
              else
                do { q \<leftarrow> push_data fd (Some (map Some body)) pack_size True u;
                     let rest = drop pack_size body;
                     (if rest \<noteq> [] then push_more fd rest (Some q) else Some q) }) })"
  by pat_completeness auto
termination
  by (relation "measure (\<lambda>(fd, buffer, u). length buffer)") (auto simp: read_size_def array_get_Some split: bind_splits)

declare push_more.simps [simp del]

datatype net_result = NetNothing | NetData int mem nat | NetMore

text \<open>
  \<open>filter_data_\<close> with an incomplete package: the second byte of a length that was cut, then the bytes
  that the package needs, then what is left.
\<close>

definition fill_size :: "uncomplete \<Rightarrow> bytes \<Rightarrow> (uncomplete \<times> bytes) option" where
  "fill_size uc buffer =
     (if uc_read uc < 0 then
        do { assert_opt (uc_read uc = - 1);
             b \<leftarrow> array_get buffer 0;
             let pack_size = unat b OR push_bit 8 (uc_header uc);
             Some (uc\<lparr>uc_pack := (uc_pack uc)\<lparr>np_size := pack_size, np_buffer := Some (mem_alloc pack_size)\<rparr>,
                      uc_read := 0\<rparr>, drop 1 buffer) }
      else Some (uc, buffer))"

definition fill_body ::
  "int \<Rightarrow> uncomplete \<Rightarrow> bytes \<Rightarrow> netqueue option \<Rightarrow> (net_result \<times> netqueue option) option" where
  "fill_body fd uc buffer u =
     do { m \<leftarrow> np_buffer (uc_pack uc);
          let need = int (np_size (uc_pack uc)) - uc_read uc;
          (if int (length buffer) < need then
             do { m' \<leftarrow> mem_write (nat (uc_read uc)) buffer m;
                  q \<leftarrow> u;
                  q' \<leftarrow> link_uncomplete (uc\<lparr>uc_pack := (uc_pack uc)\<lparr>np_buffer := Some m'\<rparr>,
                                            uc_read := uc_read uc + int (length buffer)\<rparr>) q;
                  Some (NetNothing, Some q') }
           else
             do { m' \<leftarrow> mem_write (nat (uc_read uc)) (take (nat need) buffer) m;
                  let buffer = drop (nat need) buffer;
                  (if buffer = [] then Some (NetData fd m' (np_size (uc_pack uc)), u)
                   else
                     do { q \<leftarrow> push_data fd (Some m') (np_size (uc_pack uc)) False u;
                          q' \<leftarrow> push_more fd buffer (Some q);
                          Some (NetMore, Some q') }) }) }"

text \<open>\<open>filter_data_\<close> with no incomplete package.\<close>

definition filter_fresh :: "int \<Rightarrow> bytes \<Rightarrow> netqueue option \<Rightarrow> (net_result \<times> netqueue option) option" where
  "filter_fresh fd buffer u =
     (if length buffer = 1 then
        do { q \<leftarrow> save_uncomplete fd (- 1) (unat (hd buffer)) 0 None u; Some (NetNothing, Some q) }
      else
        do { pack_size \<leftarrow> read_size buffer;
             let body = drop 2 buffer;
             (if length body < pack_size then
                do { q \<leftarrow> keep_partial fd pack_size body u; Some (NetNothing, Some q) }
              else if length body = pack_size then Some (NetData fd (map Some body) pack_size, u)
              else
                do { q \<leftarrow> push_data fd (Some (map Some body)) pack_size True u;
                     q' \<leftarrow> push_more fd (drop pack_size body) (Some q);
                     Some (NetMore, Some q') }) })"

definition filter_data :: "int \<Rightarrow> bytes \<Rightarrow> netqueue option \<Rightarrow> (net_result \<times> netqueue option) option" where
  "filter_data fd buffer u =
     do { (r, u1) \<leftarrow> find_uncomplete fd u;
          (case r of Some uc \<Rightarrow> do { (uc', rest) \<leftarrow> fill_size uc buffer; fill_body fd uc' rest u1 } | None \<Rightarrow> filter_fresh fd buffer u1) }"

subsection \<open>Socket messages\<close>

datatype net_type = NET_DATA | NET_CONNECT | NET_CLOSE | NET_ACCEPT | NET_ERROR | NET_UDP | NET_WARNING

text \<open>
  A socket message: its buffer, when it has one, and the text that follows the structure (of the size
  passed to \<open>lfilter\<close> less the size of the structure) when it has none.
\<close>

record net_message =
  nm_type :: net_type
  nm_id :: int
  nm_ud :: int
  nm_buffer :: "bytes option"
  nm_padding :: bytes

datatype lua_event =
    EvNothing | EvData int mem nat | EvMore | EvError int bytes | EvOpen int bytes | EvClose int | EvWarning int int

fun event_of :: "net_result \<Rightarrow> lua_event" where
  "event_of NetNothing = EvNothing"
| "event_of (NetData fd m sz) = EvData fd m sz"
| "event_of NetMore = EvMore"

text \<open>\<open>pushstring\<close> of the padding; a buffer comes with the size -1, which \<open>lua_pushlstring\<close> cannot take.\<close>

definition padded_text :: "net_message \<Rightarrow> bytes option" where
  "padded_text m = (case nm_buffer m of None \<Rightarrow> Some (nm_padding m) | Some _ \<Rightarrow> None)"

definition lfilter :: "net_message \<Rightarrow> netqueue option \<Rightarrow> (lua_event \<times> netqueue option) option" where
  "lfilter m u =
     (case nm_type m of
        NET_DATA \<Rightarrow>
          do { buffer \<leftarrow> nm_buffer m;
               assert_opt (0 \<le> nm_ud m \<and> nat (nm_ud m) \<le> length buffer);
               (r, u') \<leftarrow> filter_data (nm_id m) (take (nat (nm_ud m)) buffer) u;
               Some (event_of r, u') }
      | NET_CONNECT \<Rightarrow> Some (EvNothing, u)
      | NET_CLOSE \<Rightarrow> do { u' \<leftarrow> close_uncomplete (nm_id m) u; Some (EvClose (nm_id m), u') }
      | NET_ACCEPT \<Rightarrow> do { t \<leftarrow> padded_text m; Some (EvOpen (nm_ud m) t, u) }
      | NET_ERROR \<Rightarrow>
          do { u' \<leftarrow> close_uncomplete (nm_id m) u; t \<leftarrow> padded_text m; Some (EvError (nm_id m) t, u') }
      | NET_UDP \<Rightarrow> Some (EvNothing, u)
      | NET_WARNING \<Rightarrow> Some (EvWarning (nm_id m) (nm_ud m), u))"

subsection \<open>Writing a package\<close>

definition write_size :: "nat \<Rightarrow> bytes" where
  "write_size len = [of_nat (drop_bit 8 len AND 0xFF), of_nat (len AND 0xFF)]"

text \<open>\<open>lpack\<close>: \<open>None\<close> is the Lua error for a message that is too long.\<close>

definition lpack :: "bytes \<Rightarrow> bytes option" where
  "lpack msg = (if length msg \<ge> 0x10000 then None else Some (write_size (length msg) @ msg))"

definition ltostring :: "mem option \<Rightarrow> nat \<Rightarrow> bytes option" where
  "ltostring p sz = (case p of None \<Rightarrow> Some [] | Some m \<Rightarrow> if sz \<le> length m then those (take sz m) else None)"

subsection \<open>The queue is first-in first-out\<close>

definition nq_count :: "netqueue \<Rightarrow> nat" where
  "nq_count q = ring_count (nq_cap q) (nq_head q) (nq_tail q)"

definition nq_cells :: "netqueue \<Rightarrow> netpack option list" where
  "nq_cells q = ring_slice (nq_queue q) (nq_head q) (nq_count q)"

fun nq_contents :: "netqueue option \<Rightarrow> netpack list" where
  "nq_contents None = []"
| "nq_contents (Some q) = map the (nq_cells q)"

definition nq_ring :: "netqueue \<Rightarrow> bool" where
  "nq_ring q \<longleftrightarrow> nq_head q < nq_cap q \<and> nq_tail q < nq_cap q \<and> length (nq_queue q) = nq_cap q \<and>
     None \<notin> set (nq_cells q)"

definition ring_ok :: "netqueue option \<Rightarrow> bool" where
  "ring_ok u \<longleftrightarrow> nq_ring (get_queue u)"

lemma fresh_queue_ring: "nq_ring fresh_queue" "nq_contents (Some fresh_queue) = []"
  by (simp_all add: nq_ring_def fresh_queue_def nq_cells_def nq_count_def ring_count_def QUEUESIZE_def)

lemma ring_ok_simps [simp]: "ring_ok None" "ring_ok (Some q) = nq_ring q"
  using fresh_queue_ring by (simp_all add: ring_ok_def get_queue_def)

lemma nq_contents_get_queue: "nq_contents (Some (get_queue u)) = nq_contents u"
  using fresh_queue_ring by (cases u) (simp_all add: get_queue_def)

lemma nq_hash_ring [simp]:
  "nq_ring (q\<lparr>nq_hash := h\<rparr>) = nq_ring q" "nq_contents (Some (q\<lparr>nq_hash := h\<rparr>)) = nq_contents (Some q)"
  "nq_cells (q\<lparr>nq_hash := h\<rparr>) = nq_cells q"
  by (simp_all add: nq_ring_def nq_cells_def nq_count_def)

lemma expand_hash: "nq_hash (expand_netqueue q) = nq_hash q"
  by (simp add: expand_netqueue_def)

text \<open>The two cases of storing a package: a cell stays free, or the array is full and grows.\<close>

lemma nq_store_room:
  fixes np :: netpack
  assumes "nq_ring q" "Suc (nq_tail q) mod nq_cap q \<noteq> nq_head q"
  defines "q' \<equiv> q\<lparr>nq_tail := Suc (nq_tail q) mod nq_cap q, nq_queue := (nq_queue q)[nq_tail q := Some np]\<rparr>"
  shows "nq_ring q' \<and> nq_contents (Some q') = nq_contents (Some q) @ [np]"
proof -
  have wf: "nq_head q < nq_cap q" "nq_tail q < nq_cap q" "length (nq_queue q) = nq_cap q"
    using assms(1) by (simp_all add: nq_ring_def)
  have "nq_cells q' = nq_cells q @ [Some np]"
    using ring_slice_push [of "nq_count q" "nq_queue q" "nq_head q" "Some np"]
      ring_count_push [OF wf(1,2) assms(2)] ring_count_tail [OF wf(1,2)] ring_count_less [OF wf(1,2)] wf(3)
    by (simp add: nq_cells_def nq_count_def q'_def)
  moreover have "Suc (nq_tail q) mod nq_cap q < nq_cap q" using wf(1) by (auto intro: mod_less_divisor)
  ultimately show ?thesis using assms(1) wf by (auto simp: nq_ring_def q'_def)
qed

lemma nq_store_full:
  fixes np :: netpack
  assumes "nq_ring q" "Suc (nq_tail q) mod nq_cap q = nq_head q"
  defines "q' \<equiv> expand_netqueue (q\<lparr>nq_tail := nq_head q, nq_queue := (nq_queue q)[nq_tail q := Some np]\<rparr>)"
  shows "nq_ring q' \<and> nq_contents (Some q') = nq_contents (Some q) @ [np]"
proof -
  let ?arr = "(nq_queue q)[nq_tail q := Some np]"
  have wf: "nq_head q < nq_cap q" "nq_tail q < nq_cap q" "length (nq_queue q) = nq_cap q"
    using assms(1) by (simp_all add: nq_ring_def)
  have count: "Suc (nq_count q) = nq_cap q" "nq_count q < length (nq_queue q)"
    "(nq_head q + nq_count q) mod length (nq_queue q) = nq_tail q"
    using ring_count_full [OF wf(1,2) assms(2)] ring_count_tail [OF wf(1,2)] wf(1,3) by (simp_all add: nq_count_def)
  have slice: "ring_slice ?arr (nq_head q) (nq_cap q) = nq_cells q @ [Some np]"
    using ring_slice_push [OF count(2), of "nq_head q" "Some np"] count by (simp add: nq_cells_def)
  have q': "nq_queue q' = ring_slice ?arr (nq_head q) (nq_cap q) @ replicate QUEUESIZE None"
    "nq_head q' = 0" "nq_tail q' = nq_cap q" "nq_cap q' = nq_cap q + QUEUESIZE"
    using wf(3) by (simp_all add: q'_def expand_netqueue_def ring_slice_def)
  then have cells: "nq_cells q' = nq_cells q @ [Some np]"
    using slice ring_slice_copy [OF length_ring_slice, of ?arr "nq_head q" "nq_cap q" "replicate QUEUESIZE None"]
    by (simp only: nq_cells_def [of q'] nq_count_def [of q']) (simp add: ring_count_def)
  then show ?thesis using assms(1) q' wf count by (simp add: nq_ring_def QUEUESIZE_def)
qed

lemma push_data_result:
  assumes "ring_ok u"
  shows "\<exists>q. push_data fd buffer sz clone u = Some q \<and> nq_ring q \<and> nq_hash q = nq_hash (get_queue u) \<and>
    nq_contents (Some q) = nq_contents u @
      [\<lparr>np_id = fd, np_size = sz, np_buffer = (if clone then map_option (take sz) buffer else buffer)\<rparr>]"
proof -
  let ?q = "get_queue u"
  let ?np = "\<lparr>np_id = fd, np_size = sz, np_buffer = (if clone then map_option (take sz) buffer else buffer)\<rparr>"
  have wf: "nq_ring ?q" using assms by (simp add: ring_ok_def)
  then have t: "nq_tail ?q < nq_cap ?q" "length (nq_queue ?q) = nq_cap ?q" by (simp_all add: nq_ring_def)
  have wrap: "(if nq_cap ?q \<le> Suc (nq_tail ?q) then Suc (nq_tail ?q) - nq_cap ?q else Suc (nq_tail ?q))
      = Suc (nq_tail ?q) mod nq_cap ?q"
    using wrap_index [OF t(1)] t(1) by (auto split: if_splits)
  show ?thesis
  proof (cases "Suc (nq_tail ?q) mod nq_cap ?q = nq_head ?q")
    case True
    from nq_store_full [OF wf True, of ?np] True t wrap show ?thesis
      by (simp add: push_data_def Let_def nq_contents_get_queue expand_hash del: nq_contents.simps)
  next
    case False
    from nq_store_room [OF wf False, of ?np] False t wrap show ?thesis
      by (auto simp: push_data_def Let_def nq_contents_get_queue simp del: nq_contents.simps)
  qed
qed

lemma lpop_result:
  assumes "ring_ok u"
  shows "nq_contents u = [] \<Longrightarrow> lpop u = Some (None, u)"
    and "nq_contents u = np # nps \<Longrightarrow> \<exists>q'. lpop u = Some (Some np, Some q') \<and> nq_ring q' \<and>
           nq_contents (Some q') = nps \<and> nq_hash q' = nq_hash (get_queue u)"
proof -
  show "lpop u = Some (None, u)" if "nq_contents u = []"
  proof (cases u)
    case (Some q)
    then have "nq_head q = nq_tail q" using assms that ring_count_0 [of "nq_head q" "nq_cap q" "nq_tail q"]
      by (simp add: nq_ring_def nq_cells_def nq_count_def ring_slice_def)
    then show ?thesis using Some by (simp add: lpop_def)
  qed (simp add: lpop_def)
  assume c: "nq_contents u = np # nps"
  then obtain q where u: "u = Some q" by (cases u) auto
  then have wf: "nq_head q < nq_cap q" "nq_tail q < nq_cap q" "length (nq_queue q) = nq_cap q" "None \<notin> set (nq_cells q)"
    using assms by (simp_all add: nq_ring_def)
  have ne: "nq_head q \<noteq> nq_tail q" using c u by (auto simp: nq_cells_def nq_count_def ring_count_def)
  let ?q = "q\<lparr>nq_head := Suc (nq_head q) mod nq_cap q\<rparr>"
  have cells: "nq_cells q = nq_queue q ! nq_head q # nq_cells ?q"
    using wf ring_count_pop [OF wf(1,2) ne] by (simp add: nq_cells_def nq_count_def ring_slice_pop)
  then have np: "nq_queue q ! nq_head q = Some np" using c u wf(4) by auto
  have "Suc (nq_head q) mod nq_cap q < nq_cap q" using wf(1) by (auto intro: mod_less_divisor)
  then have "nq_ring ?q" using wf cells by (simp add: nq_ring_def)
  then show "\<exists>q'. lpop u = Some (Some np, Some q') \<and> nq_ring q' \<and> nq_contents (Some q') = nps \<and>
      nq_hash q' = nq_hash (get_queue u)"
    using u ne wf np cells c unfolding lpop_def Let_def by (simp add: wrap_index get_queue_def)
qed

definition push_netpack :: "netpack \<Rightarrow> netqueue option \<Rightarrow> netqueue option option" where
  "push_netpack np u = map_option Some (push_data (np_id np) (np_buffer np) (np_size np) False u)"

subsection \<open>The table is a map from sockets to incomplete packages\<close>

definition pend :: "netqueue option \<Rightarrow> int \<Rightarrow> uncomplete option" where
  "pend u fd = fst (take_chain fd (nq_hash (get_queue u) ! hash_fd fd))"

definition uc_fd :: "uncomplete \<Rightarrow> int" where
  "uc_fd uc = np_id (uc_pack uc)"

definition table_ok :: "netqueue option \<Rightarrow> bool" where
  "table_ok u \<longleftrightarrow> length (nq_hash (get_queue u)) = HASHSIZE \<and>
     (\<forall>chain \<in> set (nq_hash (get_queue u)). distinct (map uc_fd chain))"

lemma hash_fd_less: "hash_fd fd < HASHSIZE"
  by (simp add: hash_fd_def Let_def HASHSIZE_def)

lemma take_chain_rest:
  "fst (take_chain fd chain) = Some uc \<Longrightarrow> uc \<in> set chain \<and> uc_fd uc = fd"
  "fst (take_chain fd chain) = None \<Longrightarrow> fd \<notin> uc_fd ` set chain"
  by (induction chain) (auto simp: uc_fd_def split: prod.splits option.splits if_splits)

lemma take_chain_other: "fd' \<noteq> fd \<Longrightarrow> fst (take_chain fd' (snd (take_chain fd chain))) = fst (take_chain fd' chain)"
  by (induction chain) (auto split: prod.splits)

lemma take_chain_distinct:
  "distinct (map uc_fd chain) \<Longrightarrow>
     distinct (map uc_fd (snd (take_chain fd chain))) \<and> fst (take_chain fd (snd (take_chain fd chain))) = None \<and>
     uc_fd ` set (snd (take_chain fd chain)) \<subseteq> uc_fd ` set chain - {fd}"
proof (induction chain)
  case (Cons uc chain)
  then have IH: "distinct (map uc_fd (snd (take_chain fd chain)))" "fst (take_chain fd (snd (take_chain fd chain))) = None"
    "uc_fd ` set (snd (take_chain fd chain)) \<subseteq> uc_fd ` set chain - {fd}" by auto
  show ?case
  proof (cases "uc_fd uc = fd")
    case True
    with Cons.prems have "fd \<notin> uc_fd ` set chain" by auto
    then have "fst (take_chain fd chain) = None"
      using take_chain_rest(1) [of fd chain] by (cases "fst (take_chain fd chain)") auto
    with True Cons.prems show ?thesis by (auto simp: uc_fd_def)
  next
    case False
    then have "take_chain fd (uc # chain) = (fst (take_chain fd chain), uc # snd (take_chain fd chain))"
      by (simp add: uc_fd_def case_prod_beta)
    moreover have "np_id (uc_pack uc) \<noteq> fd" using False by (simp add: uc_fd_def)
    ultimately show ?thesis using IH False Cons.prems by (auto simp: case_prod_beta)
  qed
qed simp

lemma find_uncomplete_result:
  assumes "table_ok u"
  shows "\<exists>u'. find_uncomplete fd u = Some (pend u fd, u') \<and> table_ok u' \<and> pend u' = (pend u)(fd := None) \<and>
    nq_contents u' = nq_contents u \<and> ring_ok u' = ring_ok u \<and> (pend u fd \<noteq> None \<longrightarrow> u' \<noteq> None)"
proof (cases u)
  case None
  have "pend None = (\<lambda>_. None)" by (auto simp: pend_def get_queue_def fresh_queue_def hash_fd_less)
  with None assms show ?thesis by (auto simp: find_uncomplete_def)
next
  case (Some q)
  let ?h = "hash_fd fd" let ?c = "nq_hash q ! ?h"
  let ?u = "Some (q\<lparr>nq_hash := (nq_hash q)[?h := snd (take_chain fd ?c)]\<rparr>)"
  have len: "length (nq_hash q) = HASHSIZE" "distinct (map uc_fd ?c)"
    using assms Some hash_fd_less [of fd] by (simp_all add: table_ok_def get_queue_def)
  have "find_uncomplete fd u = Some (pend u fd, ?u)"
    using Some len hash_fd_less [of fd] by (simp add: find_uncomplete_def pend_def get_queue_def case_prod_beta)
  moreover have "table_ok ?u"
    using assms Some take_chain_distinct [OF len(2), of fd]
    by (auto simp: table_ok_def get_queue_def dest!: subsetD [OF set_update_subset_insert])
  moreover have "pend ?u = (pend u)(fd := None)"
  proof
    fix fd'
    show "pend ?u fd' = ((pend u)(fd := None)) fd'"
      using Some len(1) hash_fd_less [of fd'] take_chain_distinct [OF len(2), of fd] take_chain_other [of fd' fd ?c]
      by (cases "fd' = fd"; cases "hash_fd fd' = ?h") (auto simp: pend_def get_queue_def nth_list_update)
  qed
  moreover have "nq_contents ?u = nq_contents u" "ring_ok ?u = ring_ok u" using Some by simp_all
  ultimately show ?thesis by blast
qed

lemma link_uncomplete_result:
  assumes "table_ok (Some q)" "pend (Some q) (uc_fd uc) = None"
  shows "\<exists>q'. link_uncomplete uc q = Some q' \<and> table_ok (Some q') \<and> pend (Some q') = (pend (Some q))(uc_fd uc \<mapsto> uc) \<and>
    nq_contents (Some q') = nq_contents (Some q) \<and> nq_ring q' = nq_ring q"
proof -
  let ?fd = "uc_fd uc" let ?h = "hash_fd ?fd" let ?c = "nq_hash q ! ?h"
  let ?q = "q\<lparr>nq_hash := (nq_hash q)[?h := uc # ?c]\<rparr>"
  have len: "length (nq_hash q) = HASHSIZE" "distinct (map uc_fd ?c)"
    using assms(1) hash_fd_less [of ?fd] by (simp_all add: table_ok_def get_queue_def)
  have "?fd \<notin> uc_fd ` set ?c" using assms(2) take_chain_rest(2) [of ?fd ?c] by (simp add: pend_def get_queue_def)
  then have "table_ok (Some ?q)"
    using assms(1) len by (auto simp: table_ok_def get_queue_def dest!: subsetD [OF set_update_subset_insert])
  moreover have "link_uncomplete uc q = Some ?q"
    using len hash_fd_less [of ?fd] by (simp add: link_uncomplete_def uc_fd_def Let_def)
  moreover have "pend (Some ?q) = (pend (Some q))(?fd \<mapsto> uc)"
  proof
    fix fd'
    show "pend (Some ?q) fd' = ((pend (Some q))(?fd \<mapsto> uc)) fd'"
      using len(1) hash_fd_less [of fd']
      by (cases "hash_fd fd' = ?h") (auto simp: pend_def get_queue_def nth_list_update uc_fd_def case_prod_beta)
  qed
  ultimately show ?thesis by simp
qed

subsection \<open>The streams\<close>

text \<open>
  The specification: the complete packages at the front of a stream, and the incomplete rest.
\<close>

definition size_of :: "bytes \<Rightarrow> nat" where
  "size_of bs = unat (bs ! 0) * 256 + unat (bs ! 1)"

function parse_packs :: "bytes \<Rightarrow> bytes list \<times> bytes" where
  "parse_packs bs =
     (if length bs < 2 \<or> length bs < 2 + size_of bs then ([], bs)
      else (let (ps, r) = parse_packs (drop (2 + size_of bs) bs) in (take (size_of bs) (drop 2 bs) # ps, r)))"
  by pat_completeness auto
termination
  by (relation "measure length") auto

declare parse_packs.simps [simp del]

definition mk_pack :: "int \<Rightarrow> bytes \<Rightarrow> netpack" where
  "mk_pack fd p = \<lparr>np_id = fd, np_size = length p, np_buffer = Some (map Some p)\<rparr>"

text \<open>What a node of the table holds: one byte of a length, or a length and a part of the package.\<close>

definition uc_body :: "uncomplete \<Rightarrow> nat \<Rightarrow> bytes \<Rightarrow> bool" where
  "uc_body uc n p \<longleftrightarrow> uc_read uc = int (length p) \<and> np_size (uc_pack uc) = n \<and>
     np_buffer (uc_pack uc) = Some (map Some p @ replicate (n - length p) None)"

definition uc_holds :: "uncomplete \<Rightarrow> bytes \<Rightarrow> bool" where
  "uc_holds uc bs \<longleftrightarrow>
     (if length bs = 1 then uc_read uc = - 1 \<and> uc_header uc = unat (hd bs)
      else 2 \<le> length bs \<and> length bs < 2 + size_of bs \<and> uc_body uc (size_of bs) (drop 2 bs))"

definition net_rel :: "(int \<Rightarrow> bytes) \<Rightarrow> netqueue option \<Rightarrow> bool" where
  "net_rel s u \<longleftrightarrow> ring_ok u \<and> table_ok u \<and>
     (\<forall>fd. case pend u fd of None \<Rightarrow> s fd = [] | Some uc \<Rightarrow> uc_fd uc = fd \<and> uc_holds uc (s fd))"

lemma or_push_bit_8: "a < 256 \<Longrightarrow> push_bit 8 (b::nat) OR a = b * 256 + a"
proof -
  assume "a < 256"
  then have a: "take_bit 8 a = a" by (simp add: take_bit_nat_eq_self_iff)
  have "\<not> bit (push_bit 8 b) n \<or> \<not> bit a n" for n
    using bit_take_bit_iff [of 8 a n] by (auto simp: a bit_push_bit_iff)
  then have "push_bit 8 b OR a = push_bit 8 b + a" by (simp add: disjunctive_add_eq_or bit_eq_iff bit_and_iff)
  then show ?thesis by (simp add: push_bit_eq_mult)
qed

lemma unat_byte_less: "unat (b :: u8) < 256"
  using unsigned_less [of b] by simp

lemma two_bytes: "2 \<le> length bs \<Longrightarrow> \<exists>a b r. bs = a # b # r"
  by (cases bs; cases "tl bs") auto

lemma size_of_Cons [simp]: "size_of (a # b # r) = unat a * 256 + unat b"
  by (simp add: size_of_def)

lemma read_size_Cons [simp]: "read_size (a # b # r) = Some (unat a * 256 + unat b)"
  using or_push_bit_8 [OF unat_byte_less, of "unat a" b] by (simp add: read_size_def)

lemma read_size_eq: "2 \<le> length bs \<Longrightarrow> read_size bs = Some (size_of bs)"
  using two_bytes [of bs] by auto

lemma size_of_append: "2 \<le> length bs \<Longrightarrow> size_of (bs @ cs) = size_of bs"
  using two_bytes [of bs] by auto

lemma net_relD:
  assumes "net_rel s u"
  shows "ring_ok u" "table_ok u" "pend u fd = None \<Longrightarrow> s fd = []"
    "pend u fd = Some uc \<Longrightarrow> uc_fd uc = fd \<and> uc_holds uc (s fd)" "s fd = [] \<Longrightarrow> pend u fd = None"
proof -
  show "ring_ok u" "table_ok u" using assms by (simp_all add: net_rel_def)
  have c: "case pend u fd of None \<Rightarrow> s fd = [] | Some uc \<Rightarrow> uc_fd uc = fd \<and> uc_holds uc (s fd)"
    using assms by (simp add: net_rel_def)
  show "pend u fd = None \<Longrightarrow> s fd = []" using c by simp
  show "pend u fd = Some uc \<Longrightarrow> uc_fd uc = fd \<and> uc_holds uc (s fd)" using c by simp
  show "s fd = [] \<Longrightarrow> pend u fd = None" using c by (cases "pend u fd") (auto simp: uc_holds_def)
qed

lemma net_relI:
  assumes "net_rel s u" "ring_ok u'" "table_ok u'" "pend u' = (pend u)(fd := uc)"
    "case uc of None \<Rightarrow> bs = [] | Some c \<Rightarrow> uc_fd c = fd \<and> uc_holds c bs"
  shows "net_rel (s(fd := bs)) u'"
proof -
  have old: "case pend u fd' of None \<Rightarrow> s fd' = [] | Some uc \<Rightarrow> uc_fd uc = fd' \<and> uc_holds uc (s fd')" for fd'
    using assms(1) by (simp add: net_rel_def)
  have "case pend u' fd' of None \<Rightarrow> (s(fd := bs)) fd' = [] | Some uc \<Rightarrow> uc_fd uc = fd' \<and> uc_holds uc ((s(fd := bs)) fd')" for fd'
    using old [of fd'] assms(4,5) by (cases "fd' = fd") (simp_all split: option.splits)
  with assms(2,3) show ?thesis by (simp add: net_rel_def)
qed

lemma net_rel_empty: "net_rel (\<lambda>_. []) None"
  by (auto simp: net_rel_def table_ok_def pend_def get_queue_def fresh_queue_def HASHSIZE_def
      hash_fd_less [unfolded HASHSIZE_def])

lemma pend_get_queue: "pend (Some (get_queue u)) = pend u" "table_ok (Some (get_queue u)) = table_ok u"
  by (simp_all add: pend_def [abs_def] table_ok_def get_queue_def)

lemma net_push_data:
  assumes "net_rel s u"
  shows "\<exists>q. push_data fd buffer sz clone u = Some q \<and> net_rel s (Some q) \<and> nq_contents (Some q) = nq_contents u @
      [\<lparr>np_id = fd, np_size = sz, np_buffer = (if clone then map_option (take sz) buffer else buffer)\<rparr>]"
proof -
  from push_data_result [OF net_relD(1) [OF assms], of fd buffer sz clone] obtain q where
    q: "push_data fd buffer sz clone u = Some q" "nq_ring q" "nq_hash q = nq_hash (get_queue u)"
    "nq_contents (Some q) = nq_contents u @
      [\<lparr>np_id = fd, np_size = sz, np_buffer = (if clone then map_option (take sz) buffer else buffer)\<rparr>]" by blast
  have "pend (Some q) = pend u" "table_ok (Some q) = table_ok u"
    using q(3) by (auto simp: pend_def table_ok_def get_queue_def)
  with q assms show ?thesis by (auto simp: net_rel_def simp del: nq_contents.simps)
qed

lemma net_link:
  assumes "net_rel s (Some q)" "s fd = []" "uc_fd uc = fd" "uc_holds uc bs"
  shows "\<exists>q'. link_uncomplete uc q = Some q' \<and> net_rel (s(fd := bs)) (Some q') \<and>
    nq_contents (Some q') = nq_contents (Some q)"
proof -
  have "pend (Some q) (uc_fd uc) = None" using net_relD(5) [OF assms(1,2)] assms(3) by simp
  from link_uncomplete_result [OF net_relD(2) [OF assms(1)] this] obtain q' where
    q': "link_uncomplete uc q = Some q'" "table_ok (Some q')" "pend (Some q') = (pend (Some q))(fd \<mapsto> uc)"
    "nq_contents (Some q') = nq_contents (Some q)" "nq_ring q' = nq_ring q" using assms(3) by auto
  have "net_rel (s(fd := bs)) (Some q')"
    using net_relI [OF assms(1) _ q'(2,3), of bs] q'(5) net_relD(1) [OF assms(1)] assms(3,4) by simp
  with q' show ?thesis by blast
qed

lemma net_rel_get_queue: "net_rel s u \<Longrightarrow> net_rel s (Some (get_queue u))"
  by (simp add: net_rel_def pend_get_queue ring_ok_def) (simp add: get_queue_def)

lemma net_find:
  assumes "net_rel s u"
  shows "\<exists>u'. find_uncomplete fd u = Some (pend u fd, u') \<and> net_rel (s(fd := [])) u' \<and> nq_contents u' = nq_contents u \<and>
    (pend u fd \<noteq> None \<longrightarrow> u' \<noteq> None)"
proof -
  from find_uncomplete_result [OF net_relD(2) [OF assms], of fd] obtain u' where
    u': "find_uncomplete fd u = Some (pend u fd, u')" "table_ok u'" "pend u' = (pend u)(fd := None)"
    "nq_contents u' = nq_contents u" "ring_ok u' = ring_ok u" "pend u fd \<noteq> None \<longrightarrow> u' \<noteq> None" by blast
  from net_relI [OF assms _ u'(2,3), of "[]"] u'(5) net_relD(1) [OF assms] u' show ?thesis by auto
qed

lemma parse_packs_short: "length bs < 2 \<Longrightarrow> parse_packs bs = ([], bs)"
  by (simp add: parse_packs.simps [of bs])

lemma parse_packs_cut: "length bs < 2 + size_of bs \<Longrightarrow> parse_packs bs = ([], bs)"
  by (simp add: parse_packs.simps [of bs])

lemma parse_packs_step:
  "2 \<le> length bs \<Longrightarrow> 2 + size_of bs \<le> length bs \<Longrightarrow>
     parse_packs bs = (take (size_of bs) (drop 2 bs) # fst (parse_packs (drop (2 + size_of bs) bs)),
                       snd (parse_packs (drop (2 + size_of bs) bs)))"
  by (simp add: parse_packs.simps [of bs] case_prod_beta)

lemma mem_write_front: "length b \<le> n \<Longrightarrow> mem_write 0 b (mem_alloc n) = Some (map Some b @ replicate (n - length b) None)"
  by (simp add: mem_write_def mem_alloc_def)

lemma mem_write_next:
  "length p + length b \<le> n \<Longrightarrow> mem_write (length p) b (map Some p @ replicate (n - length p) None) =
     Some (map Some (p @ b) @ replicate (n - length (p @ b)) None)"
  by (simp add: mem_write_def)

lemma keep_header:
  assumes "net_rel s u" "s fd = []"
  shows "\<exists>q. save_uncomplete fd (- 1) (unat b) 0 None u = Some q \<and> net_rel (s(fd := [b])) (Some q) \<and>
    nq_contents (Some q) = nq_contents u"
  using net_link [OF net_rel_get_queue [OF assms(1)] assms(2),
      of "\<lparr>uc_pack = \<lparr>np_id = fd, np_size = 0, np_buffer = None\<rparr>, uc_read = - 1, uc_header = unat b\<rparr>" "[b]"]
  by (simp add: save_uncomplete_def uc_fd_def uc_holds_def nq_contents_get_queue del: nq_contents.simps)

lemma keep_partial_result:
  assumes "net_rel s u" "s fd = []" "2 \<le> length bs" "length bs < 2 + size_of bs"
  shows "\<exists>q. keep_partial fd (size_of bs) (drop 2 bs) u = Some q \<and> net_rel (s(fd := bs)) (Some q) \<and>
    nq_contents (Some q) = nq_contents u"
proof -
  let ?p = "drop 2 bs" let ?n = "size_of bs"
  let ?uc = "\<lparr>uc_pack = \<lparr>np_id = fd, np_size = ?n, np_buffer = Some (map Some ?p @ replicate (?n - length ?p) None)\<rparr>,
     uc_read = int (length ?p), uc_header = 0\<rparr>"
  have "uc_holds ?uc bs" using assms(3,4) by (auto simp: uc_holds_def uc_body_def)
  from net_link [OF net_rel_get_queue [OF assms(1)] assms(2) _ this] show ?thesis
    using mem_write_front [of ?p ?n] assms(4)
    by (simp add: keep_partial_def save_uncomplete_def uc_fd_def nq_contents_get_queue del: nq_contents.simps)
qed

lemma push_first_pack:
  assumes "net_rel s u" "2 \<le> length bs" "2 + size_of bs \<le> length bs"
  shows "\<exists>q. push_data fd (Some (map Some (drop 2 bs))) (size_of bs) True u = Some q \<and> net_rel s (Some q) \<and>
    nq_contents (Some q) = nq_contents u @ [mk_pack fd (take (size_of bs) (drop 2 bs))]"
proof -
  have "length (take (size_of bs) (drop 2 bs)) = size_of bs" using assms(2,3) by simp
  with net_push_data [OF assms(1), of fd "Some (map Some (drop 2 bs))" "size_of bs" True] show ?thesis
    by (simp only: mk_pack_def if_True option.map take_map)
qed

lemma push_more_result:
  assumes "net_rel s u" "s fd = []" "bs \<noteq> []"
  shows "\<exists>q. push_more fd bs u = Some q \<and> net_rel (s(fd := snd (parse_packs bs))) (Some q) \<and>
    nq_contents (Some q) = nq_contents u @ map (mk_pack fd) (fst (parse_packs bs))"
  using assms
proof (induction "length bs" arbitrary: bs u rule: less_induct)
  case less
  consider (one) b where "bs = [b]" | (cut) "2 \<le> length bs" "length bs < 2 + size_of bs"
    | (whole) "2 \<le> length bs" "2 + size_of bs \<le> length bs"
    using less.prems(3) by (cases "length bs < 2 + size_of bs"; cases bs; cases "tl bs") (auto simp: not_less)
  then show ?case
  proof cases
    case one
    with keep_header [OF less.prems(1,2), of b] show ?thesis
      by (simp add: push_more.simps [of fd "[b]"] parse_packs_short del: nq_contents.simps)
  next
    case cut
    with keep_partial_result [OF less.prems(1,2) cut] show ?thesis
      by (simp add: push_more.simps [of fd bs] parse_packs_cut read_size_eq less_diff_conv2 del: nq_contents.simps)
  next
    case whole
    from push_first_pack [OF less.prems(1) whole, of fd] obtain q where
      q: "push_data fd (Some (map Some (drop 2 bs))) (size_of bs) True u = Some q" "net_rel s (Some q)"
      "nq_contents (Some q) = nq_contents u @ [mk_pack fd (take (size_of bs) (drop 2 bs))]" by blast
    let ?r = "drop (2 + size_of bs) bs"
    have more: "push_more fd bs u = (if ?r \<noteq> [] then push_more fd ?r (Some q) else Some q)"
      using whole q(1) by (auto simp: push_more.simps [of fd bs] read_size_eq add.commute Let_def)
    show ?thesis
    proof (cases "?r = []")
      case True
      then show ?thesis using more q less.prems(2) parse_packs_step [OF whole]
        by (simp add: parse_packs_short fun_upd_idem del: nq_contents.simps)
    next
      case False
      have "length ?r < length bs" using whole(1) by auto
      from less.hyps [OF this q(2) less.prems(2) False] obtain q' where
        "push_more fd ?r (Some q) = Some q'" "net_rel (s(fd := snd (parse_packs ?r))) (Some q')"
        "nq_contents (Some q') = nq_contents (Some q) @ map (mk_pack fd) (fst (parse_packs ?r))" by blast
      with False more q(3) parse_packs_step [OF whole] show ?thesis by (simp del: nq_contents.simps)
    qed
  qed
qed

text \<open>What an event hands over, when the stream so far contains the packages \<open>ps\<close>.\<close>

definition net_outcome :: "int \<Rightarrow> bytes list \<Rightarrow> netqueue option \<Rightarrow> net_result \<Rightarrow> netqueue option \<Rightarrow> bool" where
  "net_outcome fd ps u r u' \<longleftrightarrow>
     (case r of
        NetNothing \<Rightarrow> ps = [] \<and> nq_contents u' = nq_contents u
      | NetData fd' m sz \<Rightarrow> fd' = fd \<and> (\<exists>p. ps = [p] \<and> m = map Some p \<and> sz = length p) \<and> nq_contents u' = nq_contents u
      | NetMore \<Rightarrow> ps \<noteq> [] \<and> nq_contents u' = nq_contents u @ map (mk_pack fd) ps)"

lemma filter_fresh_result:
  assumes "net_rel s u" "s fd = []" "bs \<noteq> []"
  shows "\<exists>r u'. filter_fresh fd bs u = Some (r, u') \<and> net_rel (s(fd := snd (parse_packs bs))) u' \<and>
    net_outcome fd (fst (parse_packs bs)) u r u'"
proof -
  let ?r = "drop (2 + size_of bs) bs"
  consider (one) b where "bs = [b]" | (cut) "2 \<le> length bs" "length bs < 2 + size_of bs"
    | (whole) "2 \<le> length bs" "2 + size_of bs \<le> length bs" "?r = []"
    | (more) "2 \<le> length bs" "2 + size_of bs \<le> length bs" "?r \<noteq> []"
    using assms(3) by (cases "length bs < 2 + size_of bs"; cases "?r = []"; cases bs; cases "tl bs") (auto simp: not_less)
  then show ?thesis
  proof cases
    case one
    with keep_header [OF assms(1,2), of b] show ?thesis
      by (auto simp: filter_fresh_def net_outcome_def parse_packs_short simp del: nq_contents.simps)
  next
    case cut
    with keep_partial_result [OF assms(1,2) cut] show ?thesis
      by (auto simp: filter_fresh_def net_outcome_def parse_packs_cut read_size_eq less_diff_conv2 simp del: nq_contents.simps)
  next
    case whole
    then have "length (drop 2 bs) = size_of bs" by auto
    then have "filter_fresh fd bs u = Some (NetData fd (map Some (drop 2 bs)) (size_of bs), u)"
      using whole(1) by (simp add: filter_fresh_def read_size_eq)
    moreover have "parse_packs bs = ([drop 2 bs], [])"
      using parse_packs_step [OF whole(1,2)] whole(3) \<open>length (drop 2 bs) = size_of bs\<close> by (simp add: parse_packs_short)
    ultimately show ?thesis using assms(1,2) \<open>length (drop 2 bs) = size_of bs\<close>
      by (simp add: net_outcome_def fun_upd_idem)
  next
    case more
    from push_first_pack [OF assms(1) more(1,2), of fd] obtain q where
      q: "push_data fd (Some (map Some (drop 2 bs))) (size_of bs) True u = Some q" "net_rel s (Some q)"
      "nq_contents (Some q) = nq_contents u @ [mk_pack fd (take (size_of bs) (drop 2 bs))]" by blast
    from push_more_result [OF q(2) assms(2) more(3)] obtain q' where
      q': "push_more fd ?r (Some q) = Some q'" "net_rel (s(fd := snd (parse_packs ?r))) (Some q')"
      "nq_contents (Some q') = nq_contents (Some q) @ map (mk_pack fd) (fst (parse_packs ?r))" by blast
    have "filter_fresh fd bs u = Some (NetMore, Some q')"
      using more q(1) q'(1) by (auto simp: filter_fresh_def read_size_eq add.commute Let_def)
    with q q' parse_packs_step [OF more(1,2)] show ?thesis by (simp add: net_outcome_def del: nq_contents.simps)
  qed
qed

lemma fill_body_result:
  assumes "net_rel s (Some q)" "s fd = []" "uc_fd uc = fd" "uc_body uc n p" "length p \<le> n" "unat h0 * 256 + unat h1 = n"
  shows "\<exists>r u'. fill_body fd uc chunk (Some q) = Some (r, u') \<and>
    net_rel (s(fd := snd (parse_packs (h0 # h1 # p @ chunk)))) u' \<and>
    net_outcome fd (fst (parse_packs (h0 # h1 # p @ chunk))) (Some q) r u'"
proof -
  let ?bs = "h0 # h1 # p @ chunk"
  have uc: "uc_read uc = int (length p)" "np_size (uc_pack uc) = n"
    "np_buffer (uc_pack uc) = Some (map Some p @ replicate (n - length p) None)" using assms(4) by (simp_all add: uc_body_def)
  have n: "size_of ?bs = n" using assms(6) by simp
  show ?thesis
  proof (cases "length p + length chunk < n")
    case True
    let ?uc = "uc\<lparr>uc_pack := (uc_pack uc)\<lparr>np_buffer := Some (map Some (p @ chunk) @ replicate (n - length (p @ chunk)) None)\<rparr>,
      uc_read := uc_read uc + int (length chunk)\<rparr>"
    have "uc_holds ?uc ?bs" using True uc n by (simp add: uc_holds_def uc_body_def del: size_of_Cons)
    moreover have "uc_fd ?uc = fd" using assms(3) by (simp add: uc_fd_def)
    ultimately obtain q' where q': "link_uncomplete ?uc q = Some q'" "net_rel (s(fd := ?bs)) (Some q')"
      "nq_contents (Some q') = nq_contents (Some q)" using net_link [OF assms(1,2)] by blast
    have "fill_body fd uc chunk (Some q) = Some (NetNothing, Some q')"
      using True uc mem_write_next [of p chunk n] q'(1) by (simp add: fill_body_def)
    moreover have "parse_packs ?bs = ([], ?bs)" using True n by (intro parse_packs_cut) simp
    ultimately show ?thesis using q' by (simp add: net_outcome_def del: nq_contents.simps)
  next
    case False
    define need where "need = n - length p"
    let ?pk = "p @ take need chunk" let ?r = "drop need chunk"
    have need: "length ?pk = n" "nat (int n - int (length p)) = need" using False assms(5) by (auto simp: need_def)
    have m: "mem_write (length p) (take need chunk) (map Some p @ replicate (n - length p) None) = Some (map Some ?pk)"
      using mem_write_next [of p "take need chunk" n] need(1) by simp
    have parse: "parse_packs ?bs = (?pk # fst (parse_packs ?r), snd (parse_packs ?r))"
      using parse_packs_step [of ?bs] n False assms(5) by (simp add: need_def del: size_of_Cons)
    show ?thesis
    proof (cases "?r = []")
      case True
      then have "fill_body fd uc chunk (Some q) = Some (NetData fd (map Some ?pk) n, Some q)"
        using uc need(2) m False by (simp add: fill_body_def)
      with True parse need(1) assms(1,2) show ?thesis
        by (simp add: net_outcome_def parse_packs_short fun_upd_idem)
    next
      case r: False
      from net_push_data [OF assms(1), of fd "Some (map Some ?pk)" n False] obtain q1 where
        q1: "push_data fd (Some (map Some ?pk)) n False (Some q) = Some q1" "net_rel s (Some q1)"
        "nq_contents (Some q1) = nq_contents (Some q) @ [mk_pack fd ?pk]"
        using need(1) by (auto simp: mk_pack_def simp del: nq_contents.simps)
      from push_more_result [OF q1(2) assms(2) r] obtain q' where
        q': "push_more fd ?r (Some q1) = Some q'" "net_rel (s(fd := snd (parse_packs ?r))) (Some q')"
        "nq_contents (Some q') = nq_contents (Some q1) @ map (mk_pack fd) (fst (parse_packs ?r))" by blast
      have "fill_body fd uc chunk (Some q) = Some (NetMore, Some q')"
        using uc need(2) m False r q1(1) q'(1) by (simp add: fill_body_def)
      with q1 q' parse show ?thesis by (simp add: net_outcome_def del: nq_contents.simps)
    qed
  qed
qed

lemma filter_data_result:
  assumes "net_rel s u" "chunk \<noteq> []"
  shows "\<exists>r u'. filter_data fd chunk u = Some (r, u') \<and>
    net_rel (s(fd := snd (parse_packs (s fd @ chunk)))) u' \<and>
    net_outcome fd (fst (parse_packs (s fd @ chunk))) u r u'"
proof -
  from net_find [OF assms(1), of fd] obtain u1 where
    u1: "find_uncomplete fd u = Some (pend u fd, u1)" "net_rel (s(fd := [])) u1" "nq_contents u1 = nq_contents u"
    "pend u fd \<noteq> None \<longrightarrow> u1 \<noteq> None" by blast
  have out: "net_outcome fd ps u1 r u' = net_outcome fd ps u r u'" for ps r u'
    by (simp only: net_outcome_def u1(3))
  show ?thesis
  proof (cases "pend u fd")
    case None
    then have "s fd = []" using net_relD(3) [OF assms(1)] by simp
    with filter_fresh_result [OF u1(2) _ assms(2), of fd] None u1(1) show ?thesis
      by (simp add: filter_data_def out)
  next
    case (Some uc)
    with u1(4) obtain q where q: "u1 = Some q" by auto
    have uc: "uc_fd uc = fd" "uc_holds uc (s fd)" using net_relD(4) [OF assms(1) Some] by simp_all
    show ?thesis
    proof (cases "length (s fd) = 1")
      case True
      then obtain b where b: "s fd = [b]" by (auto simp: length_Suc_conv)
      from assms(2) obtain c cs where c: "chunk = c # cs" by (cases chunk) auto
      let ?n = "unat b * 256 + unat c"
      let ?uc = "uc\<lparr>uc_pack := (uc_pack uc)\<lparr>np_size := ?n, np_buffer := Some (mem_alloc ?n)\<rparr>, uc_read := 0\<rparr>"
      have "fill_size uc chunk = Some (?uc, cs)"
        using uc(2) b c or_push_bit_8 [OF unat_byte_less, of "unat b" c]
        by (simp add: uc_holds_def fill_size_def or.commute Let_def)
      moreover have "uc_fd ?uc = fd" "uc_body ?uc ?n []" using uc(1) by (simp_all add: uc_fd_def uc_body_def mem_alloc_def)
      ultimately show ?thesis
        using fill_body_result [OF u1(2) [unfolded q], of fd ?uc ?n "[]" b c cs] Some u1(1) q b c
        by (simp add: filter_data_def out [unfolded q] del: nq_contents.simps)
    next
      case False
      with uc(2) have h: "2 \<le> length (s fd)" "length (s fd) < 2 + size_of (s fd)"
        "uc_body uc (size_of (s fd)) (drop 2 (s fd))" by (simp_all add: uc_holds_def)
      then obtain h0 h1 p where p: "s fd = h0 # h1 # p" using two_bytes by blast
      then have "fill_size uc chunk = Some (uc, chunk)" using h(3) by (simp add: fill_size_def uc_body_def)
      moreover have "uc_body uc (unat h0 * 256 + unat h1) p" "length p \<le> unat h0 * 256 + unat h1" using h p by simp_all
      ultimately show ?thesis
        using fill_body_result [OF u1(2) [unfolded q] _ uc(1), of "unat h0 * 256 + unat h1" p h0 h1 chunk] Some u1(1) q p
        by (simp add: filter_data_def out [unfolded q] del: nq_contents.simps)
    qed
  qed
qed

text \<open>The queue of packages keeps the promise of a first-in first-out queue, whatever the table holds.\<close>

interpretation netq: fifo_queue "net_rel s" nq_contents push_netpack lpop for s
proof
  show "\<exists>q'. push_netpack x q = Some q' \<and> net_rel s q' \<and> nq_contents q' = nq_contents q @ [x]"
    if "net_rel s q" for q x
    using net_push_data [OF that, of "np_id x" "np_buffer x" "np_size x" False]
    by (auto simp: push_netpack_def simp del: nq_contents.simps)
  show "\<exists>q'. lpop q = Some (None, q') \<and> net_rel s q' \<and> nq_contents q' = []" if "net_rel s q" "nq_contents q = []" for q
    using lpop_result(1) [OF net_relD(1)] that by auto
  show "\<exists>q'. lpop q = Some (Some x, q') \<and> net_rel s q' \<and> nq_contents q' = xs"
    if q: "net_rel s q" "nq_contents q = x # xs" for q x xs
  proof -
    from lpop_result(2) [OF net_relD(1) [OF q(1)] q(2)] obtain q' where
      q': "lpop q = Some (Some x, Some q')" "nq_ring q'" "nq_contents (Some q') = xs" "nq_hash q' = nq_hash (get_queue q)" by blast
    have "pend (Some q') = pend q" "table_ok (Some q') = table_ok q"
      using q'(4) by (auto simp: pend_def table_ok_def get_queue_def)
    with q' q(1) show ?thesis by (auto simp: net_rel_def simp del: nq_contents.simps)
  qed
qed

subsection \<open>Delivery\<close>

text \<open>
  One data event as the Lua side handles it: a package comes with the event, or the event announces
  more and the queue is popped until it is empty.
\<close>

definition deliver_event :: "int \<times> bytes \<Rightarrow> netqueue option \<times> netpack list \<Rightarrow> (netqueue option \<times> netpack list) option" where
  "deliver_event ev st =
     do { (r, u) \<leftarrow> filter_data (fst ev) (snd ev) (fst st);
          (case r of
             NetNothing \<Rightarrow> Some (u, snd st)
           | NetData fd m sz \<Rightarrow> Some (u, snd st @ [\<lparr>np_id = fd, np_size = sz, np_buffer = Some m\<rparr>])
           | NetMore \<Rightarrow> drain_loop lpop (\<lambda>np out. Some (out @ [np])) u (snd st)) }"

definition stream_of :: "(int \<times> bytes) list \<Rightarrow> int \<Rightarrow> bytes" where
  "stream_of evs fd = concat (map snd (filter (\<lambda>ev. fst ev = fd) evs))"

lemma deliver_event_result:
  assumes "net_rel s u" "nq_contents u = []" "chunk \<noteq> []"
  shows "\<exists>u'. deliver_event (fd, chunk) (u, out) = Some (u', out @ map (mk_pack fd) (fst (parse_packs (s fd @ chunk)))) \<and>
    net_rel (s(fd := snd (parse_packs (s fd @ chunk)))) u' \<and> nq_contents u' = []"
proof -
  let ?ps = "fst (parse_packs (s fd @ chunk))" let ?s = "s(fd := snd (parse_packs (s fd @ chunk)))"
  from filter_data_result [OF assms(1,3), of fd] obtain r u1 where
    f: "filter_data fd chunk u = Some (r, u1)" "net_rel ?s u1" "net_outcome fd ?ps u r u1" by blast
  show ?thesis
  proof (cases r)
    case NetNothing
    with f assms(2) show ?thesis by (simp add: deliver_event_def net_outcome_def)
  next
    case (NetData fd' m sz)
    with f assms(2) show ?thesis by (auto simp: deliver_event_def net_outcome_def mk_pack_def)
  next
    case NetMore
    have all: "fold_opt (\<lambda>np out. Some (out @ [np])) xs out = Some (out @ xs)" for xs :: "netpack list" and out
      by (induction xs arbitrary: out) auto
    have c: "nq_contents u1 = map (mk_pack fd) ?ps" using f(3) NetMore assms(2) by (simp add: net_outcome_def)
    from netq.drain_contents [OF f(2) all, of out] NetMore f(1) c show ?thesis
      by (auto simp: deliver_event_def)
  qed
qed

lemma parse_packs_append:
  "parse_packs (a @ c) = (fst (parse_packs a) @ fst (parse_packs (snd (parse_packs a) @ c)),
                          snd (parse_packs (snd (parse_packs a) @ c)))"
proof (induction "length a" arbitrary: a rule: less_induct)
  case less
  show ?case
  proof (cases "length a < 2 \<or> length a < 2 + size_of a")
    case True
    then have "parse_packs a = ([], a)" by (simp add: parse_packs.simps [of a])
    then show ?thesis by simp
  next
    case False
    then have a: "2 \<le> length a" "2 + size_of a \<le> length a" by simp_all
    let ?r = "drop (2 + size_of a) a"
    have "parse_packs (a @ c) = (take (size_of a) (drop 2 a) # fst (parse_packs (?r @ c)), snd (parse_packs (?r @ c)))"
      using parse_packs_step [of "a @ c"] a by (simp add: size_of_append)
    moreover have "length ?r < length a" using a(1) by auto
    ultimately show ?thesis using less [of ?r] parse_packs_step [OF a] by simp
  qed
qed

lemma deliver_events_result:
  assumes "\<forall>ev \<in> set evs. snd ev \<noteq> []"
  shows "\<exists>u' out. fold_opt deliver_event evs (None, []) = Some (u', out) \<and> nq_contents u' = [] \<and>
    net_rel (\<lambda>fd. snd (parse_packs (stream_of evs fd))) u' \<and>
    (\<forall>fd. filter (\<lambda>np. np_id np = fd) out = map (mk_pack fd) (fst (parse_packs (stream_of evs fd))))"
  using assms
proof (induction evs rule: rev_induct)
  case Nil
  then show ?case using net_rel_empty by (simp add: stream_of_def parse_packs_short)
next
  case (snoc ev evs)
  obtain fd chunk where ev: "ev = (fd, chunk)" by (cases ev)
  let ?s = "\<lambda>fd. snd (parse_packs (stream_of evs fd))"
  from snoc obtain u out where IH: "fold_opt deliver_event evs (None, []) = Some (u, out)" "nq_contents u = []" "net_rel ?s u"
    "\<And>fd. filter (\<lambda>np. np_id np = fd) out = map (mk_pack fd) (fst (parse_packs (stream_of evs fd)))" by auto
  from deliver_event_result [OF IH(3,2), of chunk fd out] snoc.prems ev obtain u' where
    u': "deliver_event ev (u, out) = Some (u', out @ map (mk_pack fd) (fst (parse_packs (?s fd @ chunk))))"
    "net_rel (?s(fd := snd (parse_packs (?s fd @ chunk)))) u'" "nq_contents u' = []" by auto
  have stream: "stream_of (evs @ [ev]) fd' = stream_of evs fd' @ (if fd' = fd then chunk else [])" for fd'
    by (simp add: stream_of_def ev)
  have parse: "parse_packs (stream_of (evs @ [ev]) fd) = (fst (parse_packs (stream_of evs fd)) @ fst (parse_packs (?s fd @ chunk)),
      snd (parse_packs (?s fd @ chunk)))" using parse_packs_append [of "stream_of evs fd" chunk] by (simp add: stream)
  have "?s(fd := snd (parse_packs (?s fd @ chunk))) = (\<lambda>fd'. snd (parse_packs (stream_of (evs @ [ev]) fd')))"
    using parse by (auto simp: stream fun_eq_iff)
  moreover have "filter (\<lambda>np. np_id np = fd') (map (mk_pack fd) ps) = (if fd' = fd then map (mk_pack fd) ps else [])" for fd' ps
    by (auto simp: mk_pack_def filter_map comp_def)
  ultimately show ?case using IH u' parse by (auto simp: fold_opt_append stream)
qed

lemma size_of_write: "length p < 2 ^ 16 \<Longrightarrow> size_of (write_size (length p) @ p') = length p"
proof -
  assume "length p < 2 ^ 16"
  then have "drop_bit 8 (length p) < 256" "length p mod 256 + drop_bit 8 (length p) * 256 = length p"
    by (simp_all add: drop_bit_eq_div)
  moreover have "k AND 255 = k mod 256" for k :: nat using take_bit_eq_mask [of 8 k] by (simp add: take_bit_eq_mod mask_eq_exp_minus_1)
  ultimately show ?thesis by (simp add: write_size_def unsigned_of_nat take_bit_nat_eq_self_iff take_bit_eq_mod)
qed

lemma parse_packed:
  assumes "\<forall>p \<in> set ps. length p < 2 ^ 16"
  shows "parse_packs (concat (map (the \<circ> lpack) ps)) = (ps, [])"
  using assms
proof (induction ps)
  case Nil
  then show ?case by (simp add: parse_packs_short)
next
  case (Cons p ps)
  let ?rest = "concat (map (the \<circ> lpack) ps)" let ?bs = "write_size (length p) @ p @ ?rest"
  have "size_of ?bs = length p" using size_of_write [of p] Cons.prems by simp
  moreover have "length (write_size (length p)) = 2" by (simp add: write_size_def)
  ultimately have "parse_packs ?bs = (p # ps, [])" using parse_packs_step [of ?bs] Cons by (simp add: comp_def)
  moreover have "concat (map (the \<circ> lpack) (p # ps)) = ?bs" using Cons.prems by (simp add: lpack_def)
  ultimately show ?case by (simp only:)
qed

text \<open>C21. Delivery: when every peer sends packages made by \<open>lpack\<close> and the socket layer delivers the streams
  of all sockets interleaved and cut anywhere, each socket's packages are handed over whole, in order
  and exactly once, with every byte written, and the queue ends empty.\<close>

theorem netpack_delivers_packages:
  assumes "\<forall>ev \<in> set evs. snd ev \<noteq> []" "\<And>fd. \<forall>p \<in> set (sent fd). length p < 2 ^ 16"
    "\<And>fd. stream_of evs fd = concat (map (the \<circ> lpack) (sent fd))"
  shows "\<exists>u out. fold_opt deliver_event evs (None, []) = Some (u, out) \<and> nq_contents u = [] \<and>
    (\<forall>fd. filter (\<lambda>np. np_id np = fd) out = map (mk_pack fd) (sent fd))"
proof -
  have "fst (parse_packs (stream_of evs fd)) = sent fd" for fd
    using parse_packed [OF assms(2)] by (simp add: assms(3))
  with deliver_events_result [OF assms(1)] show ?thesis by auto
qed

theorem netpack_delivers_packages_witness:
  "\<exists>u out. fold_opt deliver_event [(1, [0]), (2, [0, 1, 9, 0, 0]), (1, [2, 7]), (1, [8, 0, 0])] (None, []) = Some (u, out) \<and>
     filter (\<lambda>np. np_id np = 1) out = map (mk_pack 1) [[7, 8], []] \<and>
     filter (\<lambda>np. np_id np = 2) out = map (mk_pack 2) [[9], []]"
proof -
  let ?evs = "[(1, [0]), (2, [0, 1, 9, 0, 0]), (1, [2, 7]), (1, [8, 0, 0])] :: (int \<times> bytes) list"
  let ?sent = "\<lambda>fd. if fd = 1 then [[7, 8], []] else if fd = 2 then [[9], []] else [] :: bytes list"
  have "stream_of ?evs fd = concat (map (the \<circ> lpack) (?sent fd))" for fd
    by (simp add: stream_of_def lpack_def write_size_def numeral_2_eq_2 [symmetric])
  moreover have "\<forall>p \<in> set (?sent fd). length p < 2 ^ 16" for fd by auto
  ultimately obtain u out where "fold_opt deliver_event ?evs (None, []) = Some (u, out)"
    "\<And>fd. filter (\<lambda>np. np_id np = fd) out = map (mk_pack fd) (?sent fd)"
    using netpack_delivers_packages [of ?evs ?sent] by auto
  from this(1) this(2) [of 1] this(2) [of 2] show ?thesis by (auto simp del: fold_opt.simps)
qed

text \<open>Closing a socket, by a close or an error event, drops its incomplete package and no other, and
  keeps the packages already queued; a later event of the same descriptor starts a new stream.\<close>

theorem netpack_close_forgets:
  assumes "net_rel s u" "nm_type m = NET_CLOSE \<or> nm_type m = NET_ERROR" "nm_buffer m = None"
  shows "\<exists>u'. lfilter m u = Some (if nm_type m = NET_CLOSE then EvClose (nm_id m) else EvError (nm_id m) (nm_padding m), u') \<and>
    net_rel (s(nm_id m := [])) u' \<and> nq_contents u' = nq_contents u"
proof -
  from net_find [OF assms(1), of "nm_id m"] obtain u' where
    "find_uncomplete (nm_id m) u = Some (pend u (nm_id m), u')" "net_rel (s(nm_id m := [])) u'" "nq_contents u' = nq_contents u" by blast
  with assms(2,3) show ?thesis by (auto simp: lfilter_def close_uncomplete_def padded_text_def)
qed

theorem netpack_close_forgets_witness:
  "\<exists>u u'. filter_data 5 [0, 3, 1] None = Some (NetNothing, u) \<and>
     lfilter \<lparr>nm_type = NET_CLOSE, nm_id = 5, nm_ud = 0, nm_buffer = None, nm_padding = []\<rparr> u = Some (EvClose 5, u') \<and>
     pend u' 5 = None"
proof -
  let ?m = "\<lparr>nm_type = NET_CLOSE, nm_id = 5, nm_ud = 0, nm_buffer = None, nm_padding = []\<rparr>"
  have "fst (parse_packs [0, 3, 1]) = []" by (simp add: parse_packs_cut)
  with filter_data_result [OF net_rel_empty, of "[0, 3, 1]" 5] obtain r u where
    r: "filter_data 5 [0, 3, 1] None = Some (r, u)" "net_rel ((\<lambda>_. [])(5 := snd (parse_packs [0, 3, 1]))) u"
    "net_outcome 5 [] None r u" by auto
  from r(3) have "r = NetNothing" by (cases r) (simp_all add: net_outcome_def)
  with r have u: "filter_data 5 [0, 3, 1] None = Some (NetNothing, u)"
    "net_rel ((\<lambda>_. [])(5 := snd (parse_packs [0, 3, 1]))) u" by simp_all
  from netpack_close_forgets [OF u(2), of ?m] obtain u' where
    "lfilter ?m u = Some (EvClose 5, u')" "net_rel ((\<lambda>_. [])(5 := [])) u'" by auto
  with u(1) net_relD(5) [OF this(2), of 5] show ?thesis by auto
qed

lemma those_map_the: "None \<notin> set xs \<Longrightarrow> those xs = Some (map the xs)"
proof (induction xs)
  case (Cons x xs)
  then show ?case by (cases x) simp_all
qed simp

text \<open>\<open>lclear\<close> frees the block of every incomplete package and of every queued package, each once, and
  leaves an empty queue and an empty table.\<close>

theorem netpack_clear_frees_all:
  assumes "net_rel s (Some q)"
  shows "\<exists>q'. lclear (Some q) =
      Some (map (np_buffer \<circ> uc_pack) (concat (nq_hash q)) @ map np_buffer (nq_contents (Some q)), Some q') \<and>
    nq_contents (Some q') = [] \<and> net_rel (\<lambda>_. []) (Some q')"
proof -
  let ?q = "q\<lparr>nq_hash := map (\<lambda>_. []) (nq_hash q), nq_head := 0, nq_tail := 0\<rparr>"
  have wf: "nq_head q < nq_cap q" "nq_tail q < nq_cap q" "length (nq_queue q) = nq_cap q" "None \<notin> set (nq_cells q)"
    "length (nq_hash q) = HASHSIZE"
    using net_relD(1,2) [OF assms] by (simp_all add: nq_ring_def table_ok_def get_queue_def)
  let ?tail = "if nq_tail q < nq_head q then nq_tail q + nq_cap q else nq_tail q"
  have "[nq_head q..<?tail] = map (\<lambda>i. nq_head q + i) [0..<nq_count q]"
    by (rule nth_equalityI) (auto simp: nq_count_def ring_count_def)
  moreover have "(do { c \<leftarrow> array_get (nq_queue q) (i mod nq_cap q); c }) = nq_queue q ! (i mod nq_cap q)" for i
    using wf(1,3) by simp
  ultimately have "map (\<lambda>i. do { c \<leftarrow> array_get (nq_queue q) (i mod nq_cap q); c }) [nq_head q..<?tail] = nq_cells q"
    using wf(3) by (simp add: nq_cells_def ring_slice_def comp_def)
  moreover have "those (nq_cells q) = Some (map the (nq_cells q))" using wf(4) by (rule those_map_the)
  ultimately have "lclear (Some q) = Some (map (np_buffer \<circ> uc_pack) (concat (nq_hash q)) @ map np_buffer (nq_contents (Some q)), Some ?q)"
    by (simp add: lclear_def Let_def)
  moreover have "nq_contents (Some ?q) = []" "nq_ring ?q"
    using wf by (simp_all add: nq_ring_def nq_cells_def nq_count_def ring_count_def)
  moreover have "pend (Some ?q) = (\<lambda>_. None)" "table_ok (Some ?q)"
    using wf(5) hash_fd_less by (auto simp: pend_def get_queue_def table_ok_def)
  ultimately show ?thesis by (auto simp: net_rel_def)
qed

theorem netpack_clear_frees_all_witness:
  "\<exists>q blocks u. filter_data 5 [0, 1, 9, 0, 3, 1] None = Some (NetMore, Some q) \<and>
     lclear (Some q) = Some (blocks @ [Some [Some 9]], u) \<and> nq_contents u = []"
proof -
  have p: "fst (parse_packs [0, 1, 9, 0, 3, 1]) = [[9]]"
    using parse_packs_step [of "[0, 1, 9, 0, 3, 1]"] by (simp add: parse_packs_cut)
  let ?s = "(\<lambda>_. [])(5 := snd (parse_packs [0, 1, 9, 0, 3, 1]))"
  have fresh: "filter_data 5 [0, 1, 9, 0, 3, 1] None = filter_fresh 5 [0, 1, 9, 0, 3, 1] None"
    by (simp add: filter_data_def find_uncomplete_def)
  have "\<exists>u. filter_fresh 5 [0, 1, 9, 0, 3, 1] None = Some (NetMore, Some u)"
    using filter_fresh_result [OF net_rel_empty refl, of "[0, 1, 9, 0, 3, 1]" 5]
    by (auto simp: filter_fresh_def split: bind_splits)
  then obtain q where q: "filter_data 5 [0, 1, 9, 0, 3, 1] None = Some (NetMore, Some q)" using fresh by auto
  then have rel: "net_rel ?s (Some q)" and c: "nq_contents (Some q) = [mk_pack 5 [9]]"
    using filter_data_result [OF net_rel_empty, of "[0, 1, 9, 0, 3, 1]" 5] p
    by (simp_all add: net_outcome_def del: nq_contents.simps(2))
  from netpack_clear_frees_all [OF rel] q c show ?thesis by (auto simp: mk_pack_def simp del: nq_contents.simps)
qed

end
