(* ===== verification/Des.thy ===== *)
theory Des
  imports Prelude
begin

unbundle bit_operations_syntax

section \<open>The block cipher of \<open>lua-crypt.c\<close>\<close>

text \<open>
  The tables, the key schedule and the block function of the cipher at 32-bit words, and the Lua
  functions \<open>desencode\<close> and \<open>desdecode\<close> with their padding. The rounds are a Feistel network, which
  the locale \<open>feistel\<close> states once: a round that undoes itself gives a network that undoes itself
  when its keys run backwards.
\<close>

subsection \<open>Tables\<close>

definition SB1 :: "u32 list" where
  "SB1 = [
    0x01010400, 0, 0x00010000, 0x01010404, 0x01010004, 0x00010404, 0x00000004, 0x00010000,
    0x00000400, 0x01010400, 0x01010404, 0x00000400, 0x01000404, 0x01010004, 0x01000000, 0x00000004,
    0x00000404, 0x01000400, 0x01000400, 0x00010400, 0x00010400, 0x01010000, 0x01010000, 0x01000404,
    0x00010004, 0x01000004, 0x01000004, 0x00010004, 0, 0x00000404, 0x00010404, 0x01000000,
    0x00010000, 0x01010404, 0x00000004, 0x01010000, 0x01010400, 0x01000000, 0x01000000, 0x00000400,
    0x01010004, 0x00010000, 0x00010400, 0x01000004, 0x00000400, 0x00000004, 0x01000404, 0x00010404,
    0x01010404, 0x00010004, 0x01010000, 0x01000404, 0x01000004, 0x00000404, 0x00010404, 0x01010400,
    0x00000404, 0x01000400, 0x01000400, 0, 0x00010004, 0x00010400, 0, 0x01010004]"

definition SB2 :: "u32 list" where
  "SB2 = [
    0x80108020, 0x80008000, 0x00008000, 0x00108020, 0x00100000, 0x00000020, 0x80100020, 0x80008020,
    0x80000020, 0x80108020, 0x80108000, 0x80000000, 0x80008000, 0x00100000, 0x00000020, 0x80100020,
    0x00108000, 0x00100020, 0x80008020, 0, 0x80000000, 0x00008000, 0x00108020, 0x80100000,
    0x00100020, 0x80000020, 0, 0x00108000, 0x00008020, 0x80108000, 0x80100000, 0x00008020,
    0, 0x00108020, 0x80100020, 0x00100000, 0x80008020, 0x80100000, 0x80108000, 0x00008000,
    0x80100000, 0x80008000, 0x00000020, 0x80108020, 0x00108020, 0x00000020, 0x00008000, 0x80000000,
    0x00008020, 0x80108000, 0x00100000, 0x80000020, 0x00100020, 0x80008020, 0x80000020, 0x00100020,
    0x00108000, 0, 0x80008000, 0x00008020, 0x80000000, 0x80100020, 0x80108020, 0x00108000]"

definition SB3 :: "u32 list" where
  "SB3 = [
    0x00000208, 0x08020200, 0, 0x08020008, 0x08000200, 0, 0x00020208, 0x08000200,
    0x00020008, 0x08000008, 0x08000008, 0x00020000, 0x08020208, 0x00020008, 0x08020000, 0x00000208,
    0x08000000, 0x00000008, 0x08020200, 0x00000200, 0x00020200, 0x08020000, 0x08020008, 0x00020208,
    0x08000208, 0x00020200, 0x00020000, 0x08000208, 0x00000008, 0x08020208, 0x00000200, 0x08000000,
    0x08020200, 0x08000000, 0x00020008, 0x00000208, 0x00020000, 0x08020200, 0x08000200, 0,
    0x00000200, 0x00020008, 0x08020208, 0x08000200, 0x08000008, 0x00000200, 0, 0x08020008,
    0x08000208, 0x00020000, 0x08000000, 0x08020208, 0x00000008, 0x00020208, 0x00020200, 0x08000008,
    0x08020000, 0x08000208, 0x00000208, 0x08020000, 0x00020208, 0x00000008, 0x08020008, 0x00020200]"

definition SB4 :: "u32 list" where
  "SB4 = [
    0x00802001, 0x00002081, 0x00002081, 0x00000080, 0x00802080, 0x00800081, 0x00800001, 0x00002001,
    0, 0x00802000, 0x00802000, 0x00802081, 0x00000081, 0, 0x00800080, 0x00800001,
    0x00000001, 0x00002000, 0x00800000, 0x00802001, 0x00000080, 0x00800000, 0x00002001, 0x00002080,
    0x00800081, 0x00000001, 0x00002080, 0x00800080, 0x00002000, 0x00802080, 0x00802081, 0x00000081,
    0x00800080, 0x00800001, 0x00802000, 0x00802081, 0x00000081, 0, 0, 0x00802000,
    0x00002080, 0x00800080, 0x00800081, 0x00000001, 0x00802001, 0x00002081, 0x00002081, 0x00000080,
    0x00802081, 0x00000081, 0x00000001, 0x00002000, 0x00800001, 0x00002001, 0x00802080, 0x00800081,
    0x00002001, 0x00002080, 0x00800000, 0x00802001, 0x00000080, 0x00800000, 0x00002000, 0x00802080]"

definition SB5 :: "u32 list" where
  "SB5 = [
    0x00000100, 0x02080100, 0x02080000, 0x42000100, 0x00080000, 0x00000100, 0x40000000, 0x02080000,
    0x40080100, 0x00080000, 0x02000100, 0x40080100, 0x42000100, 0x42080000, 0x00080100, 0x40000000,
    0x02000000, 0x40080000, 0x40080000, 0, 0x40000100, 0x42080100, 0x42080100, 0x02000100,
    0x42080000, 0x40000100, 0, 0x42000000, 0x02080100, 0x02000000, 0x42000000, 0x00080100,
    0x00080000, 0x42000100, 0x00000100, 0x02000000, 0x40000000, 0x02080000, 0x42000100, 0x40080100,
    0x02000100, 0x40000000, 0x42080000, 0x02080100, 0x40080100, 0x00000100, 0x02000000, 0x42080000,
    0x42080100, 0x00080100, 0x42000000, 0x42080100, 0x02080000, 0, 0x40080000, 0x42000000,
    0x00080100, 0x02000100, 0x40000100, 0x00080000, 0, 0x40080000, 0x02080100, 0x40000100]"

definition SB6 :: "u32 list" where
  "SB6 = [
    0x20000010, 0x20400000, 0x00004000, 0x20404010, 0x20400000, 0x00000010, 0x20404010, 0x00400000,
    0x20004000, 0x00404010, 0x00400000, 0x20000010, 0x00400010, 0x20004000, 0x20000000, 0x00004010,
    0, 0x00400010, 0x20004010, 0x00004000, 0x00404000, 0x20004010, 0x00000010, 0x20400010,
    0x20400010, 0, 0x00404010, 0x20404000, 0x00004010, 0x00404000, 0x20404000, 0x20000000,
    0x20004000, 0x00000010, 0x20400010, 0x00404000, 0x20404010, 0x00400000, 0x00004010, 0x20000010,
    0x00400000, 0x20004000, 0x20000000, 0x00004010, 0x20000010, 0x20404010, 0x00404000, 0x20400000,
    0x00404010, 0x20404000, 0, 0x20400010, 0x00000010, 0x00004000, 0x20400000, 0x00404010,
    0x00004000, 0x00400010, 0x20004010, 0, 0x20404000, 0x20000000, 0x00400010, 0x20004010]"

definition SB7 :: "u32 list" where
  "SB7 = [
    0x00200000, 0x04200002, 0x04000802, 0, 0x00000800, 0x04000802, 0x00200802, 0x04200800,
    0x04200802, 0x00200000, 0, 0x04000002, 0x00000002, 0x04000000, 0x04200002, 0x00000802,
    0x04000800, 0x00200802, 0x00200002, 0x04000800, 0x04000002, 0x04200000, 0x04200800, 0x00200002,
    0x04200000, 0x00000800, 0x00000802, 0x04200802, 0x00200800, 0x00000002, 0x04000000, 0x00200800,
    0x04000000, 0x00200800, 0x00200000, 0x04000802, 0x04000802, 0x04200002, 0x04200002, 0x00000002,
    0x00200002, 0x04000000, 0x04000800, 0x00200000, 0x04200800, 0x00000802, 0x00200802, 0x04200800,
    0x00000802, 0x04000002, 0x04200802, 0x04200000, 0x00200800, 0, 0x00000002, 0x04200802,
    0, 0x00200802, 0x04200000, 0x00000800, 0x04000002, 0x04000800, 0x00000800, 0x00200002]"

definition SB8 :: "u32 list" where
  "SB8 = [
    0x10001040, 0x00001000, 0x00040000, 0x10041040, 0x10000000, 0x10001040, 0x00000040, 0x10000000,
    0x00040040, 0x10040000, 0x10041040, 0x00041000, 0x10041000, 0x00041040, 0x00001000, 0x00000040,
    0x10040000, 0x10000040, 0x10001000, 0x00001040, 0x00041000, 0x00040040, 0x10040040, 0x10041000,
    0x00001040, 0, 0, 0x10040040, 0x10000040, 0x10001000, 0x00041040, 0x00040000,
    0x00041040, 0x00040000, 0x10041000, 0x00001000, 0x00000040, 0x10040040, 0x00001000, 0x00041040,
    0x10001000, 0x00000040, 0x10000040, 0x10040000, 0x10040040, 0x10000000, 0x00040000, 0x10001040,
    0, 0x10041040, 0x00040040, 0x10000040, 0x10040000, 0x10001000, 0x10001040, 0,
    0x10041040, 0x00041000, 0x00041000, 0x00001040, 0x00001040, 0x00040040, 0x10000000, 0x10041000]"

definition LHs :: "u32 list" where
  "LHs = [
    0, 0x00000001, 0x00000100, 0x00000101, 0x00010000, 0x00010001, 0x00010100, 0x00010101,
    0x01000000, 0x01000001, 0x01000100, 0x01000101, 0x01010000, 0x01010001, 0x01010100, 0x01010101]"

definition RHs :: "u32 list" where
  "RHs = [
    0, 0x01000000, 0x00010000, 0x01010000, 0x00000100, 0x01000100, 0x00010100, 0x01010100,
    0x00000001, 0x01000001, 0x00010001, 0x01010001, 0x00000101, 0x01000101, 0x00010101, 0x01010101]"

subsection \<open>Words and bytes\<close>

definition GET_UINT32 :: "bytes \<Rightarrow> nat \<Rightarrow> u32" where
  "GET_UINT32 b i =
     push_bit 24 (ucast (b ! i)) OR push_bit 16 (ucast (b ! (i + 1))) OR push_bit 8 (ucast (b ! (i + 2))) OR ucast (b ! (i + 3))"

definition PUT_UINT32 :: "u32 \<Rightarrow> bytes" where
  "PUT_UINT32 n = [ucast (drop_bit 24 n), ucast (drop_bit 16 n), ucast (drop_bit 8 n), ucast n]"

subsection \<open>Permutations and rounds\<close>

text \<open>The step \<open>T = ((X >> k) ^ Y) & m; Y ^= T; X ^= (T << k)\<close> that the permutations are made of.\<close>

definition swap_bits :: "nat \<Rightarrow> u32 \<Rightarrow> u32 \<times> u32 \<Rightarrow> u32 \<times> u32" where
  "swap_bits k m s = (case s of (X, Y) \<Rightarrow>
     (let T = (drop_bit k X XOR Y) AND m in (X XOR push_bit k T, Y XOR T)))"

definition swap_bits' :: "nat \<Rightarrow> u32 \<Rightarrow> u32 \<times> u32 \<Rightarrow> u32 \<times> u32" where
  "swap_bits' k m s = (case s of (X, Y) \<Rightarrow> (case swap_bits k m (Y, X) of (Y', X') \<Rightarrow> (X', Y')))"

definition rot_left :: "u32 \<Rightarrow> u32" where
  "rot_left X = (push_bit 1 X OR drop_bit 31 X) AND 0xFFFFFFFF"

definition rot_right :: "u32 \<Rightarrow> u32" where
  "rot_right X = (push_bit 31 X OR drop_bit 1 X) AND 0xFFFFFFFF"

definition DES_IP :: "u32 \<times> u32 \<Rightarrow> u32 \<times> u32" where
  "DES_IP s =
     (let s = swap_bits 4 0x0F0F0F0F s;
          s = swap_bits 16 0x0000FFFF s;
          s = swap_bits' 2 0x33333333 s;
          s = swap_bits' 8 0x00FF00FF s;
          s = apsnd rot_left s;
          s = swap_bits 0 0xAAAAAAAA s in
      apfst rot_left s)"

definition DES_FP :: "u32 \<times> u32 \<Rightarrow> u32 \<times> u32" where
  "DES_FP s =
     (let s = apfst rot_right s;
          s = swap_bits 0 0xAAAAAAAA s;
          s = apsnd rot_right s;
          s = swap_bits' 8 0x00FF00FF s;
          s = swap_bits' 2 0x33333333 s;
          s = swap_bits 16 0x0000FFFF s in
      swap_bits 4 0x0F0F0F0F s)"

definition sbox :: "u32 list \<Rightarrow> u32 \<Rightarrow> u32" where
  "sbox tab t = tab ! unat (t AND 0x3F)"

text \<open>\<open>DES_ROUND(X, Y)\<close> with two subkeys: the new \<open>Y\<close>.\<close>

definition DES_ROUND :: "u32 \<times> u32 \<Rightarrow> u32 \<Rightarrow> u32 \<Rightarrow> u32" where
  "DES_ROUND k X Y =
     (let T = fst k XOR X;
          Y = Y XOR (sbox SB8 T XOR sbox SB6 (drop_bit 8 T) XOR sbox SB4 (drop_bit 16 T) XOR sbox SB2 (drop_bit 24 T));
          T = snd k XOR (push_bit 28 X OR drop_bit 4 X) in
      Y XOR (sbox SB7 T XOR sbox SB5 (drop_bit 8 T) XOR sbox SB3 (drop_bit 16 T) XOR sbox SB1 (drop_bit 24 T)))"

subsection \<open>The key schedule\<close>

definition lhs :: "u32 \<Rightarrow> nat \<Rightarrow> u32" where
  "lhs X k = LHs ! unat (drop_bit k X AND 0xF)"

definition rhs :: "u32 \<Rightarrow> nat \<Rightarrow> u32" where
  "rhs Y k = RHs ! unat (drop_bit k Y AND 0xF)"

text \<open>Permuted choice 1.\<close>

definition permuted_choice_1 :: "bytes \<Rightarrow> u32 \<times> u32" where
  "permuted_choice_1 key =
     (let X = GET_UINT32 key 0; Y = GET_UINT32 key 4;
          T = (drop_bit 4 Y XOR X) AND 0x0F0F0F0F; X = X XOR T; Y = Y XOR push_bit 4 T;
          T = (Y XOR X) AND 0x10101010; X = X XOR T; Y = Y XOR T;
          X = push_bit 3 (lhs X 0) OR push_bit 2 (lhs X 8) OR push_bit 1 (lhs X 16) OR lhs X 24
              OR push_bit 7 (lhs X 5) OR push_bit 6 (lhs X 13) OR push_bit 5 (lhs X 21) OR push_bit 4 (lhs X 29);
          Y = push_bit 3 (rhs Y 1) OR push_bit 2 (rhs Y 9) OR push_bit 1 (rhs Y 17) OR rhs Y 25
              OR push_bit 7 (rhs Y 4) OR push_bit 6 (rhs Y 12) OR push_bit 5 (rhs Y 20) OR push_bit 4 (rhs Y 28) in
      (X AND 0x0FFFFFFF, Y AND 0x0FFFFFFF))"

definition shift_half :: "nat \<Rightarrow> u32 \<Rightarrow> u32" where
  "shift_half i X =
     (if i < 2 \<or> i = 8 \<or> i = 15 then (push_bit 1 X OR drop_bit 27 X) AND 0x0FFFFFFF
      else (push_bit 2 X OR drop_bit 26 X) AND 0x0FFFFFFF)"

definition subkey_pair :: "u32 \<Rightarrow> u32 \<Rightarrow> u32 \<times> u32" where
  "subkey_pair X Y =
     (   (push_bit 4 X AND 0x24000000) OR (push_bit 28 X AND 0x10000000) OR (push_bit 14 X AND 0x08000000) OR (push_bit 18 X AND 0x02080000)
          OR (push_bit 6 X AND 0x01000000) OR (push_bit 9 X AND 0x00200000) OR (drop_bit 1 X AND 0x00100000) OR (push_bit 10 X AND 0x00040000)
          OR (push_bit 2 X AND 0x00020000) OR (drop_bit 10 X AND 0x00010000) OR (drop_bit 13 Y AND 0x00002000) OR (drop_bit 4 Y AND 0x00001000)
          OR (push_bit 6 Y AND 0x00000800) OR (drop_bit 1 Y AND 0x00000400) OR (drop_bit 14 Y AND 0x00000200) OR (Y AND 0x00000100)
          OR (drop_bit 5 Y AND 0x00000020) OR (drop_bit 10 Y AND 0x00000010) OR (drop_bit 3 Y AND 0x00000008) OR (drop_bit 18 Y AND 0x00000004)
          OR (drop_bit 26 Y AND 0x00000002) OR (drop_bit 24 Y AND 0x00000001),
         (push_bit 15 X AND 0x20000000) OR (push_bit 17 X AND 0x10000000) OR (push_bit 10 X AND 0x08000000) OR (push_bit 22 X AND 0x04000000)
          OR (drop_bit 2 X AND 0x02000000) OR (push_bit 1 X AND 0x01000000) OR (push_bit 16 X AND 0x00200000) OR (push_bit 11 X AND 0x00100000)
          OR (push_bit 3 X AND 0x00080000) OR (drop_bit 6 X AND 0x00040000) OR (push_bit 15 X AND 0x00020000) OR (drop_bit 4 X AND 0x00010000)
          OR (drop_bit 2 Y AND 0x00002000) OR (push_bit 8 Y AND 0x00001000) OR (drop_bit 14 Y AND 0x00000808) OR (drop_bit 9 Y AND 0x00000400)
          OR (Y AND 0x00000200) OR (push_bit 7 Y AND 0x00000100) OR (drop_bit 7 Y AND 0x00000020) OR (drop_bit 3 Y AND 0x00000011)
          OR (push_bit 2 Y AND 0x00000004) OR (drop_bit 21 Y AND 0x00000002))"

fun subkeys :: "nat list \<Rightarrow> u32 \<Rightarrow> u32 \<Rightarrow> (u32 \<times> u32) list" where
  "subkeys [] X Y = []"
| "subkeys (i # is) X Y =
     (let X = shift_half i X; Y = shift_half i Y in subkey_pair X Y # subkeys is X Y)"

text \<open>\<open>des_main_ks\<close>: the 32 subkeys, as 16 pairs.\<close>

definition des_main_ks :: "bytes \<Rightarrow> (u32 \<times> u32) list" where
  "des_main_ks key = (case permuted_choice_1 key of (X, Y) \<Rightarrow> subkeys [0..<16] X Y)"

subsection \<open>One block\<close>

text \<open>The rounds alternate the two halves: after each one the halves change their roles.\<close>

fun des_rounds :: "(u32 \<times> u32) list \<Rightarrow> u32 \<times> u32 \<Rightarrow> u32 \<times> u32" where
  "des_rounds [] s = s"
| "des_rounds (k # ks) (X, Y) = des_rounds ks (Y, DES_ROUND k Y X)"

definition des_crypt :: "(u32 \<times> u32) list \<Rightarrow> bytes \<Rightarrow> bytes" where
  "des_crypt SK input =
     (let (X, Y) = DES_IP (GET_UINT32 input 0, GET_UINT32 input 4);
          (X, Y) = des_rounds SK (X, Y);
          (Y, X) = DES_FP (Y, X) in
      PUT_UINT32 Y @ PUT_UINT32 X)"

subsection \<open>Text of any length\<close>

definition des_key :: "bytes \<Rightarrow> (u32 \<times> u32) list lua_result" where
  "des_key key = (if length key \<noteq> 8 then LuaError ''Invalid key size, need 8 bytes'' else LuaOk (des_main_ks key))"

text \<open>The last block: what is left of the text, a byte 0x80, and zeros.\<close>

definition des_tail :: "bytes \<Rightarrow> bytes" where
  "des_tail rest = map (\<lambda>j. if j < length rest then rest ! j else if j = length rest then 0x80 else 0) [0..<8]"

text \<open>The loop of \<open>ldesencode\<close> over whole blocks, and the block after it.\<close>

function encode_blocks :: "(u32 \<times> u32) list \<Rightarrow> bytes \<Rightarrow> bytes" where
  "encode_blocks SK msg =
     (if 8 \<le> length msg then des_crypt SK (take 8 msg) @ encode_blocks SK (drop 8 msg)
      else des_crypt SK (des_tail msg))"
  by pat_completeness auto
termination
  by (relation "measure (\<lambda>(SK, msg). length msg)") auto

declare encode_blocks.simps [simp del]

definition ldesencode :: "bytes \<Rightarrow> bytes \<Rightarrow> bytes lua_result" where
  "ldesencode key msg =
     (case des_key key of LuaError e \<Rightarrow> LuaError e | LuaOk SK \<Rightarrow> LuaOk (encode_blocks SK msg))"

function decode_blocks :: "(u32 \<times> u32) list \<Rightarrow> bytes \<Rightarrow> bytes" where
  "decode_blocks SK msg =
     (if msg = [] then [] else des_crypt SK (take 8 msg) @ decode_blocks SK (drop 8 msg))"
  by pat_completeness auto
termination
  by (relation "measure (\<lambda>(SK, msg). length msg)") auto

declare decode_blocks.simps [simp del]

text \<open>
  The loop that strips the padding, from the last byte down. Its bound \<open>i >= textsz - 8\<close> compares the
  \<open>int\<close> \<open>i\<close> with a \<open>size_t\<close>, so it is a comparison modulo \<open>2^64\<close>: with \<open>textsz\<close> 8 it never fails, and a
  block of zeros lets the loop read \<open>buffer[-1]\<close>, where the model stops with \<open>None\<close>. \<open>Some\<close> gives the
  padding or the Lua error.
\<close>

function strip_padding :: "bytes \<Rightarrow> int \<Rightarrow> nat \<Rightarrow> nat lua_result option" where
  "strip_padding buffer i padding =
     (if (of_int i :: u64) \<ge> of_nat (length buffer) - 8 then
        (if i < 0 \<or> int (length buffer) \<le> i then None
         else if buffer ! nat i = 0 then strip_padding buffer (i - 1) (padding + 1)
         else if buffer ! nat i = 0x80 then Some (LuaOk padding)
         else Some (LuaError ''Invalid des crypt text''))
      else Some (LuaOk padding))"
  by pat_completeness auto
termination
  by (relation "measure (\<lambda>(buffer, i, padding). nat (i + 1))") auto

declare strip_padding.simps [simp del]

definition ldesdecode :: "bytes \<Rightarrow> bytes \<Rightarrow> bytes lua_result option" where
  "ldesdecode key msg =
     (case des_key key of
        LuaError e \<Rightarrow> Some (LuaError e)
      | LuaOk ESK \<Rightarrow>
          (if length msg mod 8 \<noteq> 0 \<or> msg = [] then Some (LuaError ''Invalid des crypt text length'')
           else
             (let buffer = decode_blocks (rev ESK) msg in
              do { r \<leftarrow> strip_padding buffer (int (length msg) - 1) 1;
                   (case r of
                      LuaError e \<Rightarrow> Some (LuaError e)
                    | LuaOk padding \<Rightarrow>
                        (if padding > 8 then Some (LuaError ''Invalid des crypt text'')
                         else Some (LuaOk (take (length msg - padding) buffer)))) })))"

subsection \<open>A Feistel network undoes itself\<close>

locale feistel =
  fixes rnd :: "'k \<Rightarrow> 'w \<Rightarrow> 'w \<Rightarrow> 'w"
  assumes rnd_undo: "rnd k y (rnd k y x) = x"
begin

primrec net :: "'k list \<Rightarrow> 'w \<times> 'w \<Rightarrow> 'w \<times> 'w" where
  "net [] s = s"
| "net (k # ks) s = net ks (snd s, rnd k (snd s) (fst s))"

lemma net_append: "net (ks @ ks') s = net ks' (net ks s)"
  by (induction ks arbitrary: s) simp_all

lemma net_undo: "net (rev ks) (prod.swap (net ks s)) = prod.swap s"
  by (induction ks arbitrary: s) (simp_all add: net_append rnd_undo prod.swap_def)

end

lemma DES_ROUND_xor: "DES_ROUND k X Y = Y XOR DES_ROUND k X 0"
  unfolding DES_ROUND_def Let_def by (simp only: xor.assoc xor.left_neutral)

lemma DES_ROUND_undo: "DES_ROUND k y (DES_ROUND k y x) = x"
  unfolding DES_ROUND_xor [of k y x] DES_ROUND_xor [of k y "x XOR w" for w] by (simp only: xor.assoc xor_self_eq xor.right_neutral)

interpretation des: feistel DES_ROUND
  by unfold_locales (rule DES_ROUND_undo)

lemma des_rounds_net: "des_rounds ks s = des.net ks s"
  by (induction ks s rule: des_rounds.induct) simp_all

text \<open>The two permutations are inverse to each other: each step undoes itself.\<close>

lemma swap_bits_undo:
  assumes "take_bit (32 - k) m = m"
  shows "swap_bits k m (swap_bits k m s) = s"
proof -
  obtain X Y where s: "s = (X, Y)" by (cases s)
  define T where "T = (drop_bit k X XOR Y) AND m"
  have mk: "bit m n \<Longrightarrow> n < 32 - k" for n
    using bit_take_bit_iff [of "32 - k" m n] assms by simp
  have "drop_bit k (push_bit k T) = T"
    by (rule bit_word_eqI) (auto simp: T_def bit_simps dest: mk)
  then have "(drop_bit k (X XOR push_bit k T) XOR (Y XOR T)) AND m = (drop_bit k X XOR Y XOR (T XOR T)) AND m"
    by (simp only: drop_bit_xor xor.assoc xor.left_commute)
  also have "\<dots> = T" by (simp add: T_def)
  finally show ?thesis
    by (simp only: s swap_bits_def Let_def prod.case T_def [symmetric]) (simp add: xor.assoc)
qed

lemma swap_bits'_undo: "take_bit (32 - k) m = m \<Longrightarrow> swap_bits' k m (swap_bits' k m s) = s"
proof -
  assume "take_bit (32 - k) m = m"
  note u = swap_bits_undo [OF this, of "prod.swap s"]
  obtain a b where "swap_bits k m (snd s, fst s) = (a, b)" by fastforce
  with u show ?thesis by (cases s) (simp add: swap_bits'_def)
qed

lemma rotl_shifts:
  assumes "0 < j" "j + k = 32" "0 < k"
  shows "push_bit j X OR drop_bit k X = word_rotl j (X :: u32)"
proof (rule bit_word_eqI)
  fix n assume "n < LENGTH(32)"
  then have n: "n < 32" by simp
  show "bit (push_bit j X OR drop_bit k X) n = bit (word_rotl j X) n"
  proof (cases "j \<le> n")
    case True
    then have "(n + (32 - j mod 32)) mod 32 = n - j" "\<not> bit X (k + n)"
      using assms n bit_imp_le_length [of X "k + n"] by (auto simp: mod_if)
    with True n show ?thesis by (simp add: bit_or_iff bit_push_bit_iff bit_drop_bit_eq bit_word_rotl_iff)
  next
    case False
    then have "(n + (32 - j mod 32)) mod 32 = k + n" using assms n by (auto simp: mod_if)
    with False n show ?thesis by (simp add: bit_or_iff bit_push_bit_iff bit_drop_bit_eq bit_word_rotl_iff)
  qed
qed

lemma rot_undo: "rot_left (rot_right X) = X" "rot_right (rot_left X) = X"
proof -
  have ones: "w AND 0xFFFFFFFF = w" for w :: u32
  proof -
    have "(0xFFFFFFFF :: u32) = - 1" by simp
    then show ?thesis by (simp only: and.right_neutral)
  qed
  have l: "rot_left X = word_rotl 1 X" for X unfolding rot_left_def ones by (rule rotl_shifts) simp_all
  have r: "rot_right X = word_rotl 31 X" for X unfolding rot_right_def ones by (rule rotl_shifts) simp_all
  have "word_rotl 31 X = word_rotr 1 X" for X :: u32 by (simp add: word_rotl_eq_word_rotr)
  with l r show "rot_left (rot_right X) = X" "rot_right (rot_left X) = X" by simp_all
qed

lemma masks_fit:
  "take_bit (32 - 4) (0x0F0F0F0F :: u32) = 0x0F0F0F0F" "take_bit (32 - 16) (0x0000FFFF :: u32) = 0x0000FFFF"
  "take_bit (32 - 2) (0x33333333 :: u32) = 0x33333333" "take_bit (32 - 8) (0x00FF00FF :: u32) = 0x00FF00FF"
  "take_bit (32 - 0) (0xAAAAAAAA :: u32) = 0xAAAAAAAA"
  by simp_all

lemma apfst_apsnd_undo:
  "apfst rot_left (apfst rot_right s) = s" "apfst rot_right (apfst rot_left s) = s"
  "apsnd rot_left (apsnd rot_right s) = s" "apsnd rot_right (apsnd rot_left s) = s"
  by (cases s; simp add: rot_undo)+

lemmas swaps_undo = masks_fit [THEN swap_bits_undo] masks_fit [THEN swap_bits'_undo] apfst_apsnd_undo

lemma DES_FP_IP: "DES_FP (DES_IP s) = s" "DES_IP (DES_FP s) = s"
  by (simp_all only: DES_FP_def DES_IP_def Let_def swaps_undo)

lemma bit_u8_high: "8 \<le> k \<Longrightarrow> \<not> bit (b :: u8) k"
  using bit_imp_le_length [of b k] by auto

lemma bytes_of_word:
  "PUT_UINT32 n = [b0, b1, b2, b3] \<longleftrightarrow> n = push_bit 24 (ucast b0) OR push_bit 16 (ucast b1) OR push_bit 8 (ucast b2) OR ucast b3"
proof
  assume "PUT_UINT32 n = [b0, b1, b2, b3]"
  then have b: "b0 = ucast (drop_bit 24 n)" "b1 = ucast (drop_bit 16 n)" "b2 = ucast (drop_bit 8 n)" "b3 = ucast n"
    by (simp_all add: PUT_UINT32_def)
  show "n = push_bit 24 (ucast b0) OR push_bit 16 (ucast b1) OR push_bit 8 (ucast b2) OR ucast b3"
  proof (rule bit_word_eqI)
    fix i assume "i < LENGTH(32)"
    then show "bit n i = bit (push_bit 24 (ucast b0) OR push_bit 16 (ucast b1) OR push_bit 8 (ucast b2) OR ucast b3 :: u32) i"
      unfolding b by (cases "i < 8"; cases "i < 16"; cases "i < 24") (auto simp: bit_simps)
  qed
next
  assume "n = push_bit 24 (ucast b0) OR push_bit 16 (ucast b1) OR push_bit 8 (ucast b2) OR ucast b3"
  then show "PUT_UINT32 n = [b0, b1, b2, b3]"
    unfolding PUT_UINT32_def by (auto intro!: bit_word_eqI simp: bit_simps bit_u8_high)
qed

lemma four_bytes: "length b = 4 \<Longrightarrow> PUT_UINT32 (GET_UINT32 b 0) = b"
proof -
  assume "length b = 4"
  then obtain b0 b1 b2 b3 where b: "b = [b0, b1, b2, b3]" by (auto simp: length_Suc_conv numeral_eq_Suc)
  show ?thesis unfolding b bytes_of_word by (simp add: GET_UINT32_def)
qed

lemma GET_PUT: "GET_UINT32 (PUT_UINT32 n @ bs) 0 = n"
proof -
  obtain b0 b1 b2 b3 where b: "PUT_UINT32 n = [b0, b1, b2, b3]" by (simp add: PUT_UINT32_def)
  then show ?thesis using bytes_of_word [of n b0 b1 b2 b3] by (simp add: GET_UINT32_def)
qed

lemma GET_UINT32_shift: "length a = 4 \<Longrightarrow> GET_UINT32 (a @ b) 4 = GET_UINT32 b 0"
  by (simp add: GET_UINT32_def nth_append numeral_2_eq_2)

lemma GET_UINT32_append: "length a = 4 \<Longrightarrow> GET_UINT32 (a @ b) 0 = GET_UINT32 a 0"
  by (auto simp: GET_UINT32_def nth_append)

lemma length_PUT [simp]: "length (PUT_UINT32 n) = 4"
  by (simp add: PUT_UINT32_def)

lemma length_des_crypt [simp]: "length (des_crypt SK b) = 8"
  by (simp add: des_crypt_def split: prod.splits)

lemma decode_blocks_Nil [simp]: "decode_blocks SK [] = []"
  by (simp add: decode_blocks.simps)

lemma decode_blocks_append: "length a = 8 \<Longrightarrow> decode_blocks SK (a @ b) = des_crypt SK a @ decode_blocks SK b"
  by (subst decode_blocks.simps) auto

lemma decode_blocks_one: "length a = 8 \<Longrightarrow> decode_blocks SK a = des_crypt SK a"
  using decode_blocks_append [of a SK "[]"] by simp

lemma des_crypt_undo:
  assumes "length b = 8"
  shows "des_crypt (rev SK) (des_crypt SK b) = b"
proof -
  obtain x y where b: "b = x @ y" "length x = 4" "length y = 4"
    using that [of "take 4 b" "drop 4 b"] assms by simp
  define p where "p = (GET_UINT32 x 0, GET_UINT32 y 0)"
  define s where "s = des_rounds SK (DES_IP p)"
  define q where "q = DES_FP (prod.swap s)"
  have crypt: "des_crypt K c = (let w = DES_FP (prod.swap (des_rounds K (DES_IP (GET_UINT32 c 0, GET_UINT32 c 4)))) in
      PUT_UINT32 (fst w) @ PUT_UINT32 (snd w))" for K c
    by (simp add: des_crypt_def Let_def case_prod_beta prod.swap_def)
  have "(GET_UINT32 b 0, GET_UINT32 b 4) = p" using b by (simp add: p_def GET_UINT32_shift GET_UINT32_append)
  then have c: "des_crypt SK b = PUT_UINT32 (fst q) @ PUT_UINT32 (snd q)" by (simp add: crypt Let_def q_def s_def)
  have "(GET_UINT32 (des_crypt SK b) 0, GET_UINT32 (des_crypt SK b) 4) = q"
    using GET_PUT [of "snd q" "[]"] by (simp add: c GET_PUT GET_UINT32_shift)
  then have "des_crypt (rev SK) (des_crypt SK b) =
      (let w = DES_FP (prod.swap (des_rounds (rev SK) (DES_IP q))) in PUT_UINT32 (fst w) @ PUT_UINT32 (snd w))"
    by (simp only: crypt [of "rev SK"])
  moreover have "DES_FP (prod.swap (des_rounds (rev SK) (DES_IP q))) = p"
    using des.net_undo [of SK "DES_IP p"] by (simp add: q_def s_def DES_FP_IP des_rounds_net)
  ultimately show ?thesis using b by (simp add: p_def four_bytes)
qed

lemma des_tail_eq:
  assumes "length r < 8"
  shows "des_tail r = r @ 0x80 # replicate (7 - length r) 0"
  using assms by (intro nth_equalityI) (auto simp: des_tail_def nth_append nth_Cons')

lemma decode_encode_blocks:
  "decode_blocks (rev SK) (encode_blocks SK msg) = msg @ 0x80 # replicate (7 - length msg mod 8) 0 \<and>
   length (encode_blocks SK msg) = length msg + 1 + (7 - length msg mod 8)"
proof (induction "length msg" arbitrary: msg rule: less_induct)
  case less
  show ?case
  proof (cases "8 \<le> length msg")
    case True
    let ?r = "drop 8 msg"
    from less [of ?r] True have IH: "decode_blocks (rev SK) (encode_blocks SK ?r) = ?r @ 0x80 # replicate (7 - length ?r mod 8) 0"
      "length (encode_blocks SK ?r) = length ?r + 1 + (7 - length ?r mod 8)" by simp_all
    have "length ?r mod 8 = length msg mod 8" using True by (simp add: le_mod_geq [symmetric])
    moreover have "decode_blocks (rev SK) (encode_blocks SK msg) = take 8 msg @ decode_blocks (rev SK) (encode_blocks SK ?r)"
      using True des_crypt_undo [of "take 8 msg" SK] by (simp add: encode_blocks.simps [of SK msg] decode_blocks_append)
    ultimately show ?thesis using IH True by (simp add: encode_blocks.simps [of SK msg])
  next
    case False
    have l: "length (des_tail msg) = 8" by (simp add: des_tail_def)
    have "decode_blocks (rev SK) (des_crypt SK (des_tail msg)) = des_tail msg"
      using des_crypt_undo [OF l, of SK] by (simp add: decode_blocks_one)
    with False show ?thesis by (simp add: encode_blocks.simps [of SK msg] des_tail_eq)
  qed
qed

lemma strip_padding_bound:
  assumes "8 \<le> n" "n < 2 ^ 64" "i < 2 ^ 64"
  shows "(of_nat i :: u64) \<ge> of_nat n - 8 \<longleftrightarrow> n \<le> i + 8"
proof -
  have n: "of_nat n - (8 :: u64) = of_nat (n - 8)" using assms(1) by (simp add: of_nat_diff)
  have "unat (of_nat k :: u64) = k" if "k < 2 ^ 64" for k using that by (simp add: unat_of_nat)
  from this [of i] this [of "n - 8"] show ?thesis using assms by (simp only: n word_le_nat_alt) auto
qed

lemma strip_padding_step:
  assumes "8 \<le> length b" "length b < 2 ^ 64" "i < length b" "length b \<le> i + 8"
  shows "strip_padding b (int i) p =
    (if b ! i = 0 then strip_padding b (int i - 1) (p + 1) else if b ! i = 0x80 then Some (LuaOk p)
     else Some (LuaError ''Invalid des crypt text''))"
  using strip_padding_bound [of "length b" i] assms by (subst strip_padding.simps) simp

lemma strip_padding_result:
  assumes "n \<le> 7" "length msg + 1 + n < 2 ^ 64" "8 dvd length msg + 1 + n" "j \<le> n"
  shows "strip_padding (msg @ 0x80 # replicate n 0) (int (length msg + j)) p = Some (LuaOk (p + j))"
  using assms(4)
proof (induction j arbitrary: p)
  let ?b = "msg @ 0x80 # replicate n (0 :: u8)"
  have b: "8 \<le> length ?b" "length ?b < 2 ^ 64" using assms(2,3) by (auto dest: dvd_imp_le)
  {
    case 0
    show ?case using strip_padding_step [OF b, of "length msg" p] assms(1) by (simp add: nth_append)
  next
    case (Suc j)
    have "?b ! (length msg + Suc j) = 0" using Suc.prems by (simp add: nth_append)
    moreover have e: "int (Suc (length msg + j)) - 1 = int (length msg + j)" by simp
    ultimately show ?case
      using strip_padding_step [OF b, of "length msg + Suc j" p] assms(1) Suc by (simp add: e del: of_nat_add of_nat_Suc)
  }
qed

text \<open>C36. Decryption undoes encryption: for every 8-byte key and every text (of a length that the \<open>int\<close> loop
  index of the code can count), decoding the encoded text gives the text back, padding removed.\<close>

theorem des_decode_encode:
  assumes "length key = 8" "length msg < 2 ^ 31 - 8"
  shows "\<exists>c. ldesencode key msg = LuaOk c \<and> ldesdecode key c = Some (LuaOk msg)"
proof -
  let ?SK = "des_main_ks key" let ?c = "encode_blocks ?SK msg" let ?n = "7 - length msg mod 8"
  note d = decode_encode_blocks [of ?SK msg]
  have len: "length ?c = length msg + 1 + ?n" "8 dvd length msg + 1 + ?n" "?n \<le> 7"
    using d by (simp, presburger, simp)
  have "length msg + 1 + ?n < 2 ^ 64" using assms(2) by simp
  from strip_padding_result [OF len(3) this len(2) order_refl, of 1]
  have "strip_padding (msg @ 0x80 # replicate ?n 0) (int (length msg + ?n)) 1 = Some (LuaOk (1 + ?n))" .
  moreover have "length ?c mod 8 = 0" "?c \<noteq> []" "int (length ?c) - 1 = int (length msg + ?n)" "length ?c - (1 + ?n) = length msg"
    using len(1,2) by (simp_all add: dvd_eq_mod_eq_0 flip: length_greater_0_conv)
  moreover have "decode_blocks (rev ?SK) ?c = msg @ 0x80 # replicate ?n 0" using d by blast
  ultimately have "ldesdecode key ?c = Some (LuaOk (take (length msg) (msg @ 0x80 # replicate ?n 0)))"
    using assms(1) len(3) by (simp add: ldesdecode_def des_key_def Let_def del: of_nat_add length_0_conv)
  then have "ldesdecode key ?c = Some (LuaOk msg)" by simp
  then show ?thesis using assms(1) by (simp add: ldesencode_def des_key_def)
qed

theorem des_decode_encode_witness:
  "\<exists>c. ldesencode [1, 2, 3, 4, 5, 6, 7, 8] [10, 20, 30] = LuaOk c \<and> ldesdecode [1, 2, 3, 4, 5, 6, 7, 8] c = Some (LuaOk [10, 20, 30])"
  using des_decode_encode [of "[1, 2, 3, 4, 5, 6, 7, 8]" "[10, 20, 30]"] by simp

text \<open>For every key there is an 8-byte text on which \<open>desdecode\<close> reads the byte before its buffer: the
  text that decrypts to eight zeros, because the bound of the padding loop is an unsigned zero.\<close>

theorem des_decode_zero_block:
  assumes "length key = 8"
  shows "\<exists>c. length c = 8 \<and> ldesdecode key c = None"
proof -
  let ?SK = "des_main_ks key" let ?z = "replicate 8 0 :: bytes" let ?c = "des_crypt ?SK ?z"
  have "decode_blocks (rev ?SK) ?c = ?z"
    using des_crypt_undo [of ?z ?SK] by (simp add: decode_blocks_one)
  moreover have "strip_padding ?z (int j - 1) p = None" if "j \<le> 8" for j p
    using that
  proof (induction j arbitrary: p)
    case (Suc j)
    have "?z ! j = 0" and e: "int (Suc j) - 1 = int j" using Suc.prems by simp_all
    then show ?case using strip_padding_step [of ?z j p] Suc by (simp add: e del: of_nat_Suc)
  qed (simp add: strip_padding.simps)
  from this [of 8 1] have "strip_padding ?z 7 1 = None" by simp
  ultimately have "ldesdecode key ?c = None"
    using assms length_des_crypt [of ?SK ?z] by (cases ?c) (simp_all add: ldesdecode_def des_key_def Let_def)
  then show ?thesis using length_des_crypt by blast
qed

theorem des_decode_zero_block_witness:
  "\<exists>c. length c = 8 \<and> ldesdecode [1, 2, 3, 4, 5, 6, 7, 8] c = None"
  using des_decode_zero_block [of "[1, 2, 3, 4, 5, 6, 7, 8]"] by simp

end
