(* ===== verification/Crypt.thy ===== *)
theory Crypt
  imports Prelude
begin

unbundle bit_operations_syntax

section \<open>Hashes, key exchange and text encodings (\<open>lua-crypt.c\<close>)\<close>

text \<open>
  The functions of the \<open>crypt\<close> module beside the block cipher: hexadecimal and base64 text, the 64-bit
  hashes, the Diffie-Hellman exchange modulo the largest 64-bit prime, and random keys. A Lua string
  is a list of bytes; a Lua error is the result \<open>LuaError\<close>. \<open>random()\<close> is a parameter.
\<close>

subsection \<open>Hexadecimal\<close>

definition hex_digits :: bytes where
  "hex_digits = map of_char ''0123456789abcdef''"

definition ltohex :: "bytes \<Rightarrow> bytes" where
  "ltohex str = concat (map (\<lambda>b. [hex_digits ! unat (drop_bit 4 b), hex_digits ! unat (b AND 0xF)]) str)"

text \<open>The macro \<open>HEX\<close>: the difference is stored in a \<open>uint8_t\<close>, so it wraps.\<close>

definition HEX :: "u8 \<Rightarrow> u8" where
  "HEX c = (if 48 \<le> c \<and> c \<le> 57 then c - 48 else c - 97 + 10)"

fun fromhex_loop :: "bytes \<Rightarrow> bytes \<Rightarrow> bytes lua_result" where
  "fromhex_loop out (h # l # rest) =
     (let hi = HEX h; low = HEX l in
      if hi > 16 \<or> low > 16 then LuaError ''Invalid hex text''
      else fromhex_loop (out @ [push_bit 4 hi OR low]) rest)"
| "fromhex_loop out _ = LuaOk out"

definition lfromhex :: "bytes \<Rightarrow> bytes lua_result" where
  "lfromhex str = (if odd (length str) then LuaError ''Invalid hex text size'' else fromhex_loop [] str)"

subsection \<open>64-bit hashes\<close>

definition djb_step :: "u8 \<Rightarrow> u32 \<Rightarrow> u32" where
  "djb_step c h = h + (push_bit 5 h + ucast c)"

definition js_step :: "u8 \<Rightarrow> u32 \<Rightarrow> u32" where
  "js_step c h = h XOR (push_bit 5 h + ucast c + drop_bit 2 h)"

text \<open>The eight bytes of two words, low byte first.\<close>

definition put_words :: "u32 \<times> u32 \<Rightarrow> bytes" where
  "put_words w =
     [ucast (fst w AND 0xFF), ucast (drop_bit 8 (fst w) AND 0xFF), ucast (drop_bit 16 (fst w) AND 0xFF), ucast (drop_bit 24 (fst w) AND 0xFF),
      ucast (snd w AND 0xFF), ucast (drop_bit 8 (snd w) AND 0xFF), ucast (drop_bit 16 (snd w) AND 0xFF), ucast (drop_bit 24 (snd w) AND 0xFF)]"

definition get_words :: "bytes \<Rightarrow> u32 \<times> u32" where
  "get_words x =
     (ucast (x ! 0) OR push_bit 8 (ucast (x ! 1)) OR push_bit 16 (ucast (x ! 2)) OR push_bit 24 (ucast (x ! 3)),
      ucast (x ! 4) OR push_bit 8 (ucast (x ! 5)) OR push_bit 16 (ucast (x ! 6)) OR push_bit 24 (ucast (x ! 7)))"

definition Hash :: "bytes \<Rightarrow> bytes" where
  "Hash str = put_words (fold djb_step str 5381, fold js_step str 1315423911)"

definition lhashkey :: "bytes \<Rightarrow> bytes" where
  "lhashkey key = Hash key"

definition hmac_k :: "u32 list" where
  "hmac_k = [
    0xd76aa478, 0xe8c7b756, 0x242070db, 0xc1bdceee, 0xf57c0faf, 0x4787c62a, 0xa8304613, 0xfd469501,
    0x698098d8, 0x8b44f7af, 0xffff5bb1, 0x895cd7be, 0x6b901122, 0xfd987193, 0xa679438e, 0x49b40821,
    0xf61e2562, 0xc040b340, 0x265e5a51, 0xe9b6c7aa, 0xd62f105d, 0x02441453, 0xd8a1e681, 0xe7d3fbc8,
    0x21e1cde6, 0xc33707d6, 0xf4d50d87, 0x455a14ed, 0xa9e3e905, 0xfcefa3f8, 0x676f02d9, 0x8d2a4c8a,
    0xfffa3942, 0x8771f681, 0x6d9d6122, 0xfde5380c, 0xa4beea44, 0x4bdecfa9, 0xf6bb4b60, 0xbebfbc70,
    0x289b7ec6, 0xeaa127fa, 0xd4ef3085, 0x04881d05, 0xd9d4d039, 0xe6db99e5, 0x1fa27cf8, 0xc4ac5665,
    0xf4292244, 0x432aff97, 0xab9423a7, 0xfc93a039, 0x655b59c3, 0x8f0ccc92, 0xffeff47d, 0x85845dd1,
    0x6fa87e4f, 0xfe2ce6e0, 0xa3014314, 0x4e0811a1, 0xf7537e82, 0xbd3af235, 0x2ad7d2bb, 0xeb86d391]"

definition hmac_r :: "nat list" where
  "hmac_r = [
    7, 12, 17, 22, 7, 12, 17, 22, 7, 12, 17, 22, 7, 12, 17, 22,
    5, 9, 14, 20, 5, 9, 14, 20, 5, 9, 14, 20, 5, 9, 14, 20,
    4, 11, 16, 23, 4, 11, 16, 23, 4, 11, 16, 23, 4, 11, 16, 23,
    6, 10, 15, 21, 6, 10, 15, 21, 6, 10, 15, 21, 6, 10, 15, 21]"

definition LEFTROTATE :: "u32 \<Rightarrow> nat \<Rightarrow> u32" where
  "LEFTROTATE x c = push_bit c x OR drop_bit (32 - c) x"

definition hmac_round :: "u32 list \<Rightarrow> nat \<Rightarrow> u32 \<times> u32 \<times> u32 \<times> u32 \<Rightarrow> u32 \<times> u32 \<times> u32 \<times> u32" where
  "hmac_round w i s = (case s of (a, b, c, d) \<Rightarrow>
     (let (f, g) =
            (if i < 16 then ((b AND c) OR (NOT b AND d), i)
             else if i < 32 then ((d AND b) OR (NOT d AND c), (5 * i + 1) mod 16)
             else if i < 48 then (b XOR c XOR d, (3 * i + 5) mod 16)
             else (c XOR (b OR NOT d), (7 * i) mod 16)) in
      (d, b + LEFTROTATE (a + f + hmac_k ! i + w ! g) (hmac_r ! i), b, c)))"

definition hmac :: "u32 \<times> u32 \<Rightarrow> u32 \<times> u32 \<Rightarrow> u32 \<times> u32" where
  "hmac x y =
     (let w = concat (replicate 4 [snd x, fst x, snd y, fst y]) in
      case fold (hmac_round w) [0..<64] (0x67452301, 0xefcdab89, 0x98badcfe, 0x10325476) of
        (a, b, c, d) \<Rightarrow> (c XOR d, a XOR b))"

definition read64 :: "bytes \<Rightarrow> bytes \<Rightarrow> ((u32 \<times> u32) \<times> (u32 \<times> u32)) lua_result" where
  "read64 x y =
     (if length x \<noteq> 8 then LuaError ''Invalid uint64 x''
      else if length y \<noteq> 8 then LuaError ''Invalid uint64 y''
      else LuaOk (get_words x, get_words y))"

definition pushqword :: "u32 \<times> u32 \<Rightarrow> bytes" where
  "pushqword result = put_words result"

definition lhmac64 :: "bytes \<Rightarrow> bytes \<Rightarrow> bytes lua_result" where
  "lhmac64 x y =
     (case read64 x y of LuaError e \<Rightarrow> LuaError e | LuaOk (xx, yy) \<Rightarrow> LuaOk (pushqword (hmac xx yy)))"

definition lhmac_hash :: "bytes \<Rightarrow> bytes \<Rightarrow> bytes lua_result" where
  "lhmac_hash x str =
     (if length x \<noteq> 8 then LuaError ''Invalid uint64 key''
      else (let key = get_words x; h = Hash str; htext = get_words h in LuaOk (pushqword (hmac htext key))))"

subsection \<open>Diffie-Hellman exchange\<close>

definition DH_P :: u64 where "DH_P = 0xffffffffffffffc5"
definition DH_G :: u64 where "DH_G = 5"

lemma drop_bit_1_less: "b \<noteq> 0 \<Longrightarrow> unat (drop_bit 1 (b :: u64)) < unat b"
proof -
  assume "b \<noteq> 0"
  then have "0 < unat b" using unat_gt_0 by blast
  then have "unat b div 2 ^ 1 < unat b" by simp
  then show ?thesis by (simp only: unat_drop_bit)
qed

function mul_loop :: "u64 \<Rightarrow> u64 \<Rightarrow> u64 \<Rightarrow> u64" where
  "mul_loop m a b =
     (if b = 0 then m
      else
        (let m = (if odd b then (let t = DH_P - a in if m \<ge> t then m - t else m + a) else m);
             a = (if a \<ge> DH_P - a then a * 2 - DH_P else a * 2) in
         mul_loop m a (drop_bit 1 b)))"
  by pat_completeness auto
termination
  by (relation "measure (\<lambda>(m, a, b). unat b)") (simp, simp only: in_measure prod.case drop_bit_1_less not_False_eq_True)

declare mul_loop.simps [simp del]

definition mul_mod_p :: "u64 \<Rightarrow> u64 \<Rightarrow> u64" where
  "mul_mod_p a b = mul_loop 0 a b"

text \<open>\<open>pow_mod_p\<close> recurses for ever when \<open>b\<close> is 0, which its callers exclude.\<close>

partial_function (option) pow_mod_p :: "u64 \<Rightarrow> u64 \<Rightarrow> u64 option" where
  "pow_mod_p a b =
     (if b = 1 then Some a
      else
        do { t \<leftarrow> pow_mod_p a (drop_bit 1 b);
             let t = mul_mod_p t t;
             Some (if odd b then mul_mod_p t a else t) })"

declare pow_mod_p.simps [code]

definition powmodp :: "u64 \<Rightarrow> u64 \<Rightarrow> u64 option" where
  "powmodp a b = pow_mod_p (if a > DH_P then a mod DH_P else a) b"

definition push64 :: "u64 \<Rightarrow> bytes" where
  "push64 r =
     [ucast (r AND 0xFF), ucast (drop_bit 8 r AND 0xFF), ucast (drop_bit 16 r AND 0xFF), ucast (drop_bit 24 r AND 0xFF),
      ucast (drop_bit 32 r AND 0xFF), ucast (drop_bit 40 r AND 0xFF), ucast (drop_bit 48 r AND 0xFF), ucast (drop_bit 56 r AND 0xFF)]"

definition join64 :: "u32 \<times> u32 \<Rightarrow> u64" where
  "join64 w = ucast (fst w) OR push_bit 32 (ucast (snd w))"

definition ldhsecret :: "bytes \<Rightarrow> bytes \<Rightarrow> bytes lua_result option" where
  "ldhsecret x y =
     (case read64 x y of
        LuaError e \<Rightarrow> Some (LuaError e)
      | LuaOk (x, y) \<Rightarrow>
          (let xx = join64 x; yy = join64 y in
           if xx = 0 \<or> yy = 0 then Some (LuaError ''Can't be 0'')
           else do { r \<leftarrow> powmodp xx yy; Some (LuaOk (push64 r)) }))"

definition ldhexchange :: "bytes \<Rightarrow> bytes lua_result option" where
  "ldhexchange x =
     (if length x \<noteq> 8 then Some (LuaError ''Invalid dh uint64 key'')
      else
        (let x64 = join64 (get_words x) in
         if x64 = 0 then Some (LuaError ''Can't be 0'')
         else do { r \<leftarrow> powmodp DH_G x64; Some (LuaOk (push64 r)) }))"

subsection \<open>Base64\<close>

definition b64_encoding :: bytes where
  "b64_encoding = map of_char ''ABCDEFGHIJKLMNOPQRSTUVWXYZabcdefghijklmnopqrstuvwxyz0123456789+/''"

definition enc :: "u32 \<Rightarrow> u8" where
  "enc v = b64_encoding ! unat v"

fun lb64encode :: "bytes \<Rightarrow> bytes" where
  "lb64encode (a # b # c # rest) =
     (let v = push_bit 16 (ucast a) OR push_bit 8 (ucast b) OR ucast c :: u32 in
      [enc (drop_bit 18 v), enc (drop_bit 12 v AND 0x3F), enc (drop_bit 6 v AND 0x3F), enc (v AND 0x3F)] @ lb64encode rest)"
| "lb64encode [a, b] =
     (let v = push_bit 8 (ucast a) OR ucast b :: u32 in
      [enc (drop_bit 10 v), enc (drop_bit 4 v AND 0x3F), enc (push_bit 2 (v AND 0xF)), 61])"
| "lb64encode [a] =
     (let v = ucast a :: u32 in [enc (drop_bit 2 v), enc (push_bit 4 (v AND 3)), 61, 61])"
| "lb64encode [] = []"

definition b64_decoding :: "int list" where
  "b64_decoding = [
    62, - 1, - 1, - 1, 63, 52, 53, 54, 55, 56, 57, 58, 59, 60, 61, - 1, - 1, - 1, - 2, - 1,
    - 1, - 1, 0, 1, 2, 3, 4, 5, 6, 7, 8, 9, 10, 11, 12, 13, 14, 15, 16, 17,
    18, 19, 20, 21, 22, 23, 24, 25, - 1, - 1, - 1, - 1, - 1, - 1, 26, 27, 28, 29, 30, 31,
    32, 33, 34, 35, 36, 37, 38, 39, 40, 41, 42, 43, 44, 45, 46, 47, 48, 49, 50, 51]"

definition b64index :: "u8 \<Rightarrow> int" where
  "b64index c =
     (if c < 43 then - 1
      else (let c = c - 43 in if unat c \<ge> length b64_decoding then - 1 else b64_decoding ! unat c))"

text \<open>The inner loop of \<open>lb64decode\<close>: the next \<open>n\<close> values of the text; other characters are skipped.\<close>

fun b64_group :: "nat \<Rightarrow> bytes \<Rightarrow> (int list \<times> bytes) option" where
  "b64_group 0 bs = Some ([], bs)"
| "b64_group (Suc n) [] = None"
| "b64_group (Suc n) (b # bs) =
     (let c = b64index b in
      if c = - 1 then b64_group (Suc n) bs
      else map_option (apfst ((#) c)) (b64_group n bs))"

text \<open>The switch on the number of padding characters; \<open>None\<close> is the Lua error.\<close>

definition b64_bytes :: "int list \<Rightarrow> bytes option" where
  "b64_bytes c =
     (let w = (\<lambda>j. word_of_int (c ! j) :: u32); padding = length (filter (\<lambda>x. x = - 2) c) in
      if padding = 0 then
        (let v = push_bit 18 (w 0) OR push_bit 12 (w 1) OR push_bit 6 (w 2) OR w 3 in
         Some [ucast (drop_bit 16 v), ucast (drop_bit 8 v AND 0xFF), ucast (v AND 0xFF)])
      else if padding = 1 then
        (if c ! 3 \<noteq> - 2 \<or> c ! 2 AND 3 \<noteq> 0 then None
         else (let v = push_bit 10 (w 0) OR push_bit 4 (w 1) OR word_of_int (drop_bit 2 (c ! 2)) in
               Some [ucast (drop_bit 8 v), ucast (v AND 0xFF)]))
      else if padding = 2 then
        (if c ! 3 \<noteq> - 2 \<or> c ! 2 \<noteq> - 2 \<or> c ! 1 AND 0xF \<noteq> 0 then None
         else (let v = push_bit 2 (w 0) OR word_of_int (drop_bit 4 (c ! 1)) in Some [ucast v]))
      else None)"

lemma b64_group_shorter: "b64_group n bs = Some (c, rest) \<Longrightarrow> length rest + n \<le> length bs"
proof (induction n bs arbitrary: c rest rule: b64_group.induct)
  case (3 n b bs)
  then show ?case by (cases "b64index b = - 1") (fastforce simp: Let_def)+
qed simp_all

function b64_loop :: "bytes \<Rightarrow> bytes \<Rightarrow> bytes lua_result" where
  "b64_loop out bs =
     (if bs = [] then LuaOk out
      else
        (case b64_group 4 bs of
           None \<Rightarrow> LuaError ''Invalid base64 text''
         | Some (c, rest) \<Rightarrow>
             (case b64_bytes c of
                None \<Rightarrow> LuaError ''Invalid base64 text''
              | Some b \<Rightarrow> b64_loop (out @ b) rest)))"
  by pat_completeness auto
termination
  by (relation "measure (\<lambda>(out, bs). length bs)") (auto dest: b64_group_shorter)

declare b64_loop.simps [simp del]

definition lb64decode :: "bytes \<Rightarrow> bytes lua_result" where
  "lb64decode str = b64_loop [] str"

subsection \<open>Masks and random keys\<close>

definition lxor_str :: "bytes \<Rightarrow> bytes \<Rightarrow> bytes lua_result" where
  "lxor_str s1 s2 =
     (if s2 = [] then LuaError ''Can't xor empty string''
      else LuaOk (map (\<lambda>i. s1 ! i XOR s2 ! (i mod length s2)) [0..<length s1]))"

text \<open>\<open>lrandomkey\<close> of the eight values that \<open>random()\<close> returns.\<close>

definition lrandomkey :: "u64 list \<Rightarrow> bytes" where
  "lrandomkey rs =
     (let tmp = map (\<lambda>i. ucast (rs ! i AND 0xFF)) [0..<8];
          x = fold (\<lambda>b x. x XOR b) tmp 0 in
      if x = 0 then tmp[0 := tmp ! 0 OR 1] else tmp)"

subsection \<open>The exchange computes powers modulo the prime\<close>

abbreviation PN :: nat where "PN \<equiv> unat DH_P"

lemma PN_eq: "PN = 18446744073709551557"
  by (simp add: DH_P_def)

lemma mul_loop_add:
  assumes "a < DH_P" "m < DH_P"
  defines "m' \<equiv> (let t = DH_P - a in if m \<ge> t then m - t else m + a)"
  shows "m' < DH_P \<and> unat m' = (unat m + unat a) mod PN"
proof -
  have ord: "unat a < PN" "unat m < PN" using assms(1,2) by (simp_all add: word_less_nat_alt)
  have t: "unat (DH_P - a) = PN - unat a" using assms(1) by (intro unat_sub) simp
  show ?thesis
  proof (cases "m \<ge> DH_P - a")
    case True
    then have "unat (m - (DH_P - a)) = unat m - (PN - unat a)" by (simp only: unat_sub t)
    moreover have "PN - unat a \<le> unat m" using True by (simp only: word_le_nat_alt t)
    ultimately have "unat m' = unat m + unat a - PN" "unat m + unat a \<ge> PN"
      using True ord by (simp_all add: m'_def Let_def)
    with ord show ?thesis by (simp add: word_less_nat_alt le_mod_geq)
  next
    case False
    then have s: "unat m + unat a < PN" using ord by (simp add: word_le_nat_alt t)
    then have "unat (m + a) = unat m + unat a" using PN_eq by (intro unat_add_lem [THEN iffD1]) simp
    with False s show ?thesis by (simp add: m'_def Let_def word_less_nat_alt)
  qed
qed

lemma mul_loop_double:
  assumes "a < DH_P"
  defines "a' \<equiv> (if a \<ge> DH_P - a then a * 2 - DH_P else a * 2)"
  shows "a' < DH_P \<and> unat a' = (2 * unat a) mod PN"
proof -
  have "a' = (let t = DH_P - a in if a \<ge> t then a - t else a + a)"
    by (simp add: a'_def Let_def algebra_simps mult_2)
  with mul_loop_add [OF assms(1) assms(1)] show ?thesis by (simp add: mult_2)
qed

lemma odd_unat: "odd (b :: u64) \<longleftrightarrow> odd (unat b)"
proof -
  have "bit (unat b) 0 \<longleftrightarrow> bit b 0" by (simp only: bit_unsigned_iff possible_bit_nat) simp
  then show ?thesis by (simp add: bit_0)
qed

lemma mod_mac: "(x mod n + (y mod n) * z) mod n = (x + y * z) mod (n :: nat)"
proof -
  have "(x mod n + y mod n * z) mod n = (x + y mod n * z mod n) mod n" by (simp only: mod_add_left_eq mod_add_right_eq)
  also have "\<dots> = (x + y * z) mod n" by (simp only: mod_mult_left_eq mod_add_right_eq)
  finally show ?thesis .
qed

lemma mul_loop_result:
  assumes "a < DH_P" "m < DH_P"
  shows "mul_loop m a b < DH_P \<and> unat (mul_loop m a b) = (unat m + unat a * unat b) mod PN"
  using assms
proof (induction "unat b" arbitrary: m a b rule: less_induct)
  case less
  show ?case
  proof (cases "b = 0")
    case True
    then have "mul_loop m a b = m" by (simp add: mul_loop.simps)
    with True less.prems show ?thesis by (simp add: word_less_nat_alt)
  next
    case False
    define m' where "m' = (if odd b then (let t = DH_P - a in if m \<ge> t then m - t else m + a) else m)"
    define a' where "a' = (if a \<ge> DH_P - a then a * 2 - DH_P else a * 2)"
    have m': "m' < DH_P" "unat m' = (unat m + unat a * (unat b mod 2)) mod PN"
      using mul_loop_add [OF less.prems] less.prems
      by (cases "odd b"; simp add: m'_def odd_unat mod_2_eq_odd word_less_nat_alt)+
    have a': "a' < DH_P" "unat a' = (2 * unat a) mod PN" using mul_loop_double [OF less.prems(1)] by (simp_all add: a'_def)
    have half: "unat (drop_bit 1 b) = unat b div 2" by (simp only: unat_drop_bit power_one_right)
    have step: "mul_loop m a b = mul_loop m' a' (drop_bit 1 b)"
      using mul_loop.simps [of m a b] False unfolding Let_def m'_def a'_def by (simp only: if_False)
    from less.hyps [OF drop_bit_1_less [OF False] a'(1) m'(1)]
    have IH: "mul_loop m' a' (drop_bit 1 b) < DH_P" "unat (mul_loop m' a' (drop_bit 1 b)) = (unat m' + unat a' * (unat b div 2)) mod PN"
      by (simp_all only: half)
    have "(unat m' + unat a' * (unat b div 2)) mod PN = (unat m + unat a * (unat b mod 2) + 2 * unat a * (unat b div 2)) mod PN"
      unfolding m'(2) a'(2) by (rule mod_mac)
    also have "unat m + unat a * (unat b mod 2) + 2 * unat a * (unat b div 2) = unat m + unat a * (unat b mod 2 + 2 * (unat b div 2))"
      by (simp only: distrib_left mult.assoc mult.left_commute [of 2] add.assoc)
    finally show ?thesis using IH step by (simp only: mod_mult_div_eq)
  qed
qed

lemma mul_mod_p_result:
  "a < DH_P \<Longrightarrow> mul_mod_p a b < DH_P \<and> unat (mul_mod_p a b) = (unat a * unat b) mod PN"
  using mul_loop_result [of a 0 b] by (simp add: mul_mod_p_def DH_P_def)

lemma pow_mod_p_result:
  assumes "a < DH_P" "b \<noteq> 0"
  shows "\<exists>r. pow_mod_p a b = Some r \<and> r < DH_P \<and> unat r = unat a ^ unat b mod PN"
  using assms(2)
proof (induction "unat b" arbitrary: b rule: less_induct)
  case less
  show ?case
  proof (cases "b = 1")
    case True
    then have "pow_mod_p a b = Some a" by (simp add: pow_mod_p.simps)
    with True assms(1) show ?thesis by (simp add: word_less_nat_alt)
  next
    case False
    let ?h = "drop_bit 1 b"
    have half: "unat ?h = unat b div 2" by (simp only: unat_drop_bit power_one_right)
    have "2 \<le> unat b" using less.prems False word_unat_eq_iff [of b 0] word_unat_eq_iff [of b 1] by (simp only: unat_0 unat_1)
    then have "?h \<noteq> 0" using half by (metis div_greater_zero_iff unat_gt_0 zero_less_numeral)
    from less.hyps [OF drop_bit_1_less [OF less.prems] this] obtain t where
      t: "pow_mod_p a ?h = Some t" "t < DH_P" "unat t = unat a ^ (unat b div 2) mod PN" unfolding half by blast
    let ?s = "mul_mod_p t t"
    have s: "?s < DH_P" "unat ?s = unat a ^ (unat b div 2 * 2) mod PN"
      using mul_mod_p_result [OF t(2), of t] t(3) by (simp_all add: power_mult power2_eq_square mod_mult_eq)
    have q: "mul_mod_p ?s a < DH_P" "unat (mul_mod_p ?s a) = unat a ^ (unat b div 2 * 2 + 1) mod PN"
      using mul_mod_p_result [OF s(1), of a] by (simp_all only: s(2) mod_mult_left_eq power_add power_one_right)
    have "pow_mod_p a b = Some (if odd b then mul_mod_p ?s a else ?s)"
      using False t(1) by (subst pow_mod_p.simps) simp
    moreover have "unat a ^ unat b = unat a ^ (if odd b then unat b div 2 * 2 + 1 else unat b div 2 * 2)"
      by (rule arg_cong [where f = "power (unat a)"]) (simp only: odd_unat, presburger)
    ultimately show ?thesis using s q by (cases "odd b") (simp_all only: if_True if_False not_True_eq_False not_False_eq_True, blast+)
  qed
qed

lemma powmodp_result:
  assumes "b \<noteq> 0" "unat a mod PN \<noteq> 0"
  shows "\<exists>r. powmodp a b = Some r \<and> r < DH_P \<and> unat r = unat a ^ unat b mod PN"
proof -
  let ?a = "if a > DH_P then a mod DH_P else a"
  have "a \<noteq> DH_P" using assms(2) by auto
  then have a: "?a < DH_P" "unat ?a = unat a mod PN"
    using unat_mod_distrib [of a DH_P] by (auto simp: word_less_nat_alt unat_mod mod_less PN_eq word_unat_eq_iff)
  from pow_mod_p_result [OF a(1) assms(1)] a(2) show ?thesis by (auto simp: powmodp_def power_mod)
qed

text \<open>Reading back the words and the 64-bit number that were written.\<close>

lemma get_put_words: "get_words (put_words w) = w"
  by (simp add: get_words_def put_words_def byte_mask word_of_bytes)

lemma push64_words: "push64 r = put_words (ucast r, ucast (drop_bit 32 r))"
proof -
  have "ucast (drop_bit k (ucast r :: u32)) = (ucast (drop_bit k r) :: u8)" if "k \<le> 24" for k
    using that by (intro bit_word_eqI) (auto simp: bit_simps)
  moreover have "ucast (drop_bit k (ucast (drop_bit 32 r) :: u32)) = (ucast (drop_bit (32 + k) r) :: u8)" if "k \<le> 24" for k
    using that by (intro bit_word_eqI) (auto simp: bit_simps ac_simps)
  moreover have "ucast (ucast x :: u32) = (ucast x :: u8)" for x :: u64 by (rule bit_word_eqI) (auto simp: bit_simps)
  ultimately show ?thesis by (simp add: push64_def put_words_def byte_mask)
qed

lemma join_push64: "join64 (get_words (push64 r)) = r"
  unfolding push64_words get_put_words join64_def
  by (rule bit_word_eqI) (auto simp: bit_simps)

lemma power_5_mod: "5 ^ n mod PN \<noteq> 0"
proof
  assume "5 ^ n mod PN = 0"
  then have d: "PN dvd 5 ^ n" by auto
  have "coprime PN 5"
  proof (rule coprimeI)
    fix c assume c: "c dvd PN" "c dvd 5"
    then have "c dvd PN - 5 * 3689348814741910311" by (intro dvd_diff_nat dvd_mult2)
    then have "c dvd 2" by (simp only: PN_eq) simp
    then have "c dvd 5 - 2 * 2" using c(2) by (intro dvd_diff_nat dvd_mult2)
    then show "is_unit c" by simp
  qed
  then have "coprime PN (5 ^ n)" by (rule coprime_power_right_iff [THEN iffD2, OF disjI1])
  with d have "PN = 1" by (metis coprime_common_divisor dvd_refl nat_dvd_1_iff_1)
  then show False by (simp only: PN_eq)
qed

lemma ldhexchange_result:
  assumes "length x = 8" "join64 (get_words x) \<noteq> 0"
  shows "\<exists>r. ldhexchange x = Some (LuaOk (push64 r)) \<and> unat r = 5 ^ unat (join64 (get_words x)) mod PN"
proof -
  have g: "unat DH_G = 5" by (simp add: DH_G_def)
  have "unat DH_G mod PN \<noteq> 0" using power_5_mod [of 1] by (simp add: g)
  from powmodp_result [OF assms(2) this] obtain r where
    "powmodp DH_G (join64 (get_words x)) = Some r" "unat r = 5 ^ unat (join64 (get_words x)) mod PN" by (auto simp: g)
  with assms show ?thesis by (auto simp: ldhexchange_def Let_def)
qed

lemma length_push64 [simp]: "length (push64 r) = 8"
  by (simp add: push64_def)

lemma ldhsecret_result:
  assumes "length y = 8" "join64 (get_words y) \<noteq> 0" "unat r = 5 ^ n mod PN"
  shows "\<exists>s. ldhsecret (push64 r) y = Some (LuaOk (push64 s)) \<and> unat s = 5 ^ (n * unat (join64 (get_words y))) mod PN"
proof -
  have r: "unat r mod PN \<noteq> 0" using assms(3) power_5_mod [of n] by simp
  then have "r \<noteq> 0" by auto
  from powmodp_result [OF assms(2) r] obtain s where
    "powmodp r (join64 (get_words y)) = Some s" "unat s = unat r ^ unat (join64 (get_words y)) mod PN" by auto
  with assms \<open>r \<noteq> 0\<close> show ?thesis
    by (auto simp: ldhsecret_def read64_def Let_def join_push64 power_mod power_mult)
qed

text \<open>Key exchange: two parties with non-zero 8-byte secrets that exchange the values of
  \<open>dhexchange\<close> compute the same \<open>dhsecret\<close>, which is \<open>5^(x y)\<close> modulo the prime; every call returns.\<close>

theorem dh_secret_agrees:
  assumes "length x = 8" "length y = 8" "join64 (get_words x) \<noteq> 0" "join64 (get_words y) \<noteq> 0"
  shows "\<exists>px py s. ldhexchange x = Some (LuaOk px) \<and> ldhexchange y = Some (LuaOk py) \<and>
    ldhsecret py x = Some (LuaOk s) \<and> ldhsecret px y = Some (LuaOk s) \<and>
    unat (join64 (get_words s)) = 5 ^ (unat (join64 (get_words x)) * unat (join64 (get_words y))) mod PN"
proof -
  let ?x = "unat (join64 (get_words x))" and ?y = "unat (join64 (get_words y))"
  from ldhexchange_result [OF assms(1,3)] obtain rx where
    x: "ldhexchange x = Some (LuaOk (push64 rx))" "unat rx = 5 ^ ?x mod PN" by blast
  from ldhexchange_result [OF assms(2,4)] obtain ry where
    y: "ldhexchange y = Some (LuaOk (push64 ry))" "unat ry = 5 ^ ?y mod PN" by blast
  from ldhsecret_result [OF assms(1,3) y(2)] obtain s where
    s: "ldhsecret (push64 ry) x = Some (LuaOk (push64 s))" "unat s = 5 ^ (?y * ?x) mod PN" by blast
  from ldhsecret_result [OF assms(2,4) x(2)] obtain t where
    t: "ldhsecret (push64 rx) y = Some (LuaOk (push64 t))" "unat t = 5 ^ (?x * ?y) mod PN" by blast
  have "s = t" using s(2) t(2) by (simp add: word_unat_eq_iff mult.commute)
  with x(1) y(1) s(1) t show ?thesis by (auto simp: join_push64)
qed

theorem dh_secret_agrees_witness:
  "\<exists>px py s. ldhexchange [1, 2, 3, 4, 5, 6, 7, 8] = Some (LuaOk px) \<and> ldhexchange [9, 0, 0, 0, 0, 0, 0, 0] = Some (LuaOk py) \<and>
    ldhsecret py [1, 2, 3, 4, 5, 6, 7, 8] = Some (LuaOk s) \<and> ldhsecret px [9, 0, 0, 0, 0, 0, 0, 0] = Some (LuaOk s)"
proof -
  have "join64 (get_words [1, 2, 3, 4, 5, 6, 7, 8]) \<noteq> 0" "join64 (get_words [9, 0, 0, 0, 0, 0, 0, 0]) \<noteq> 0"
    by (simp_all add: join64_def get_words_def)
  with dh_secret_agrees [of "[1, 2, 3, 4, 5, 6, 7, 8]" "[9, 0, 0, 0, 0, 0, 0, 0]"] show ?thesis by auto
qed

subsection \<open>Hashes and masks\<close>

lemma length_put_words [simp]: "length (put_words w) = 8"
  by (simp add: put_words_def)

text \<open>The two keyed hashes agree: \<open>hmac_hash\<close> of a key and a text is \<open>hmac64\<close> of the \<open>hashkey\<close> of the
  text and the key, and both refuse a key that is not 8 bytes long.\<close>

lemma hmac_hash_is_hmac64:
  "lhmac_hash key str =
     (if length key = 8 then lhmac64 (lhashkey str) key else LuaError ''Invalid uint64 key'')"
  by (simp add: lhmac_hash_def lhmac64_def lhashkey_def read64_def Hash_def Let_def)

text \<open>\<open>xor_str\<close> with the same non-empty key twice gives the text back.\<close>

lemma xor_str_involution:
  assumes "key \<noteq> []"
  shows "\<exists>c. lxor_str str key = LuaOk c \<and> lxor_str c key = LuaOk str"
  using assms by (auto simp: lxor_str_def xor.assoc intro!: nth_equalityI)

text \<open>\<open>randomkey\<close> never returns eight zero bytes, whatever \<open>random()\<close> returns.\<close>

lemma randomkey_not_zero: "length (lrandomkey rs) = 8 \<and> lrandomkey rs \<noteq> replicate 8 0"
proof -
  define tmp where "tmp = map (\<lambda>i. ucast (rs ! i AND 0xFF) :: u8) [0..<8]"
  have len: "length tmp = 8" by (simp add: tmp_def)
  have fz: "fold (\<lambda>b x. x XOR b) (replicate n 0) x = x" for n and x :: u8 by (induction n) simp_all
  show ?thesis
  proof (cases "fold (\<lambda>b x. x XOR b) tmp 0 = 0")
    case True
    then have e: "lrandomkey rs = tmp[0 := tmp ! 0 OR 1]" by (simp add: lrandomkey_def tmp_def Let_def)
    have "tmp ! 0 OR 1 \<noteq> 0" by (metis bit_0 bit_or_iff even_zero odd_one)
    then have "lrandomkey rs ! 0 \<noteq> replicate 8 0 ! 0" using len by (simp add: e)
    then have "lrandomkey rs \<noteq> replicate 8 0" by (rule contrapos_nn) (rule arg_cong)
    then show ?thesis using len e by simp
  next
    case False
    then have "lrandomkey rs = tmp" by (simp add: lrandomkey_def tmp_def Let_def)
    with False fz [of 8 0] len show ?thesis by auto
  qed
qed

subsection \<open>Text encodings\<close>

lemma hex_digit_back: "n < 16 \<Longrightarrow> HEX (hex_digits ! n) = of_nat n"
proof -
  have "list_all (\<lambda>n. HEX (hex_digits ! n) = of_nat n) [0..<16]" by code_simp
  then show "n < 16 \<Longrightarrow> ?thesis" by (simp add: list_all_iff del: upt_conv_Cons)
qed

lemma nibbles:
  fixes b :: u8
  shows "unat (drop_bit 4 b) < 16" "unat (b AND 0xF) < 16" "push_bit 4 (drop_bit 4 b) OR (b AND 0xF) = b"
proof -
  have m: "b AND 0xF = take_bit 4 b" by (simp add: take_bit_eq_mask mask_eq_exp_minus_1)
  have "unat b < 256" using unsigned_less [of b] by simp
  then show "unat (drop_bit 4 b) < 16" by (simp only: unat_drop_bit) simp
  have "unat (take_bit 4 b) = unat b mod 2 ^ 4" by (simp only: take_bit_eq_mask unat_and_mask)
  then show "unat (b AND 0xF) < 16" by (simp add: m)
  show "push_bit 4 (drop_bit 4 b) OR (b AND 0xF) = b" unfolding m by (rule bit_word_eqI) (auto simp: bit_simps)
qed

lemma fromhex_step:
  "fromhex_loop out (ltohex (b # bs)) = fromhex_loop (out @ [b]) (ltohex bs)"
proof -
  have h: "HEX (hex_digits ! unat (drop_bit 4 b)) = drop_bit 4 b" "HEX (hex_digits ! unat (b AND 0xF)) = b AND 0xF"
    using nibbles [of b] by (simp_all add: hex_digit_back)
  have "\<not> drop_bit 4 b > 16" "\<not> b AND 0xF > 16" using nibbles(1,2) [of b] by (simp_all add: word_less_nat_alt)
  with h nibbles(3) [of b] show ?thesis by (simp add: ltohex_def)
qed

text \<open>Hexadecimal text: decoding the encoded bytes gives them back, and the code is two characters per byte.\<close>

lemma hex_roundtrip: "lfromhex (ltohex bs) = LuaOk bs \<and> length (ltohex bs) = 2 * length bs"
proof -
  have "fromhex_loop out (ltohex bs) = LuaOk (out @ bs)" for out
    by (induction bs arbitrary: out) (simp_all add: fromhex_step, simp add: ltohex_def)
  moreover have "length (ltohex bs) = 2 * length bs" by (induction bs) (simp_all add: ltohex_def)
  ultimately show ?thesis by (simp add: lfromhex_def)
qed

lemma b64_index_back: "n < 64 \<Longrightarrow> b64index (b64_encoding ! n) = int n"
proof -
  have "list_all (\<lambda>n. b64index (b64_encoding ! n) = int n) [0..<64]" by code_simp
  then show "n < 64 \<Longrightarrow> ?thesis" by (simp add: list_all_iff del: upt_conv_Cons)
qed

lemma b64index_enc: "unat x < 64 \<Longrightarrow> b64index (enc x) = uint x"
  by (simp add: enc_def b64_index_back)

lemma b64index_pad: "b64index 61 = - 2"
  by code_simp

lemma six_bits: "v AND 0x3F = take_bit 6 (v :: u32)" "v AND 0xF = take_bit 4 v" "v AND 3 = take_bit 2 v" "v AND 0xFF = take_bit 8 v"
  by (simp_all add: take_bit_eq_mask mask_eq_exp_minus_1)

lemma six_bits_less: "unat (take_bit 6 (v :: u32)) < 64"
  by (simp only: take_bit_eq_mask unat_and_mask) simp

lemma bits_less: "(\<And>i. bit (v :: u32) i \<Longrightarrow> i < 6) \<Longrightarrow> unat v < 64"
proof -
  assume "\<And>i. bit v i \<Longrightarrow> i < 6"
  then have "take_bit 6 v = v" by (intro bit_word_eqI) (auto simp: bit_take_bit_iff)
  with six_bits_less [of v] show ?thesis by simp
qed

lemma b64_group_four:
  assumes "b64index a \<noteq> - 1" "b64index b \<noteq> - 1" "b64index c \<noteq> - 1" "b64index d \<noteq> - 1"
  shows "b64_group 4 (a # b # c # d # rest) = Some ([b64index a, b64index b, b64index c, b64index d], rest)"
  using assms by (simp add: numeral_eq_Suc)

lemma uint_not_neg: "uint x \<noteq> - 1" "uint x \<noteq> - 2" for x :: u32
  using uint_ge_0 [of x] by linarith+

lemma b64_bytes_words:
  fixes x0 x1 x2 x3 :: u32
  shows "b64_bytes [uint x0, uint x1, uint x2, uint x3] =
      (let v = push_bit 18 x0 OR push_bit 12 x1 OR push_bit 6 x2 OR x3 in
       Some [ucast (drop_bit 16 v), ucast (drop_bit 8 v AND 0xFF), ucast (v AND 0xFF)])"
    and "b64_bytes [uint x0, uint x1, uint x2, - 2] =
      (if x2 AND 3 \<noteq> 0 then None
       else (let v = push_bit 10 x0 OR push_bit 4 x1 OR drop_bit 2 x2 in Some [ucast (drop_bit 8 v), ucast (v AND 0xFF)]))"
    and "b64_bytes [uint x0, uint x1, - 2, - 2] =
      (if x1 AND 0xF \<noteq> 0 then None else (let v = push_bit 2 x0 OR drop_bit 4 x1 in Some [ucast v]))"
proof -
  have d: "word_of_int (drop_bit k (uint x)) = drop_bit k x" for k and x :: u32
    by (rule bit_word_eqI) (auto simp: bit_simps)
  have z: "uint x AND 3 = 0 \<longleftrightarrow> x AND 3 = 0" "uint x AND 15 = 0 \<longleftrightarrow> x AND 15 = 0" for x :: u32
  proof -
    have "uint (x AND 3) = uint x AND 3" "uint (x AND 15) = uint x AND 15" by (simp_all add: unsigned_and_eq)
    then show "uint x AND 3 = 0 \<longleftrightarrow> x AND 3 = 0" "uint x AND 15 = 0 \<longleftrightarrow> x AND 15 = 0" by (metis uint_0_iff)+
  qed
  show "b64_bytes [uint x0, uint x1, uint x2, uint x3] =
      (let v = push_bit 18 x0 OR push_bit 12 x1 OR push_bit 6 x2 OR x3 in
       Some [ucast (drop_bit 16 v), ucast (drop_bit 8 v AND 0xFF), ucast (v AND 0xFF)])"
    by (simp add: b64_bytes_def uint_not_neg Let_def)
  show "b64_bytes [uint x0, uint x1, uint x2, - 2] =
      (if x2 AND 3 \<noteq> 0 then None
       else (let v = push_bit 10 x0 OR push_bit 4 x1 OR drop_bit 2 x2 in Some [ucast (drop_bit 8 v), ucast (v AND 0xFF)]))"
    by (simp add: b64_bytes_def uint_not_neg Let_def d z)
  show "b64_bytes [uint x0, uint x1, - 2, - 2] =
      (if x1 AND 0xF \<noteq> 0 then None else (let v = push_bit 2 x0 OR drop_bit 4 x1 in Some [ucast v]))"
    by (simp add: b64_bytes_def uint_not_neg Let_def d z)
qed

lemma b64_three:
  fixes a b c :: u8
  defines "v \<equiv> push_bit 16 (ucast a) OR push_bit 8 (ucast b) OR ucast c :: u32"
  shows "b64_bytes [uint (drop_bit 18 v), uint (drop_bit 12 v AND 0x3F), uint (drop_bit 6 v AND 0x3F), uint (v AND 0x3F)] = Some [a, b, c]"
    and "unat (drop_bit 18 v) < 64"
proof -
  have "push_bit 18 (drop_bit 18 v) OR push_bit 12 (drop_bit 12 v AND 0x3F) OR push_bit 6 (drop_bit 6 v AND 0x3F) OR (v AND 0x3F) = v" (is "?l = v")
  proof (rule bit_word_eqI)
    fix i assume "i < LENGTH(32)"
    then show "bit ?l i = bit v i" unfolding six_bits
      by (cases "i < 6"; cases "i < 12"; cases "i < 18") (auto simp: bit_simps)
  qed
  moreover have "ucast (drop_bit 16 v) = a" "ucast (drop_bit 8 v AND 0xFF) = b" "ucast (v AND 0xFF) = c"
    unfolding six_bits v_def by (rule bit_word_eqI, auto simp: bit_simps dest: bit_imp_le_length)+
  ultimately show "b64_bytes [uint (drop_bit 18 v), uint (drop_bit 12 v AND 0x3F), uint (drop_bit 6 v AND 0x3F), uint (v AND 0x3F)] = Some [a, b, c]"
    by (simp only: b64_bytes_words Let_def)
  show "unat (drop_bit 18 v) < 64"
    by (rule bits_less) (auto simp: v_def bit_simps dest: bit_imp_le_length)
qed

lemma b64_two:
  fixes a b :: u8
  defines "v \<equiv> push_bit 8 (ucast a) OR ucast b :: u32"
  shows "b64_bytes [uint (drop_bit 10 v), uint (drop_bit 4 v AND 0x3F), uint (push_bit 2 (v AND 0xF)), - 2] = Some [a, b]"
    and "unat (drop_bit 10 v) < 64" and "unat (push_bit 2 (v AND 0xF)) < 64"
proof -
  have "push_bit 10 (drop_bit 10 v) OR push_bit 4 (drop_bit 4 v AND 0x3F) OR drop_bit 2 (push_bit 2 (v AND 0xF)) = v" (is "?l = v")
  proof (rule bit_word_eqI)
    fix i assume "i < LENGTH(32)"
    then show "bit ?l i = bit v i" unfolding six_bits by (cases "i < 4"; cases "i < 10") (auto simp: bit_simps)
  qed
  moreover have "push_bit 2 (v AND 0xF) AND 3 = 0" unfolding six_bits by (rule bit_word_eqI) (auto simp: bit_simps)
  moreover have "ucast (drop_bit 8 v) = a" "ucast (v AND 0xFF) = b"
    unfolding six_bits v_def by (rule bit_word_eqI, auto simp: bit_simps dest: bit_imp_le_length)+
  ultimately show "b64_bytes [uint (drop_bit 10 v), uint (drop_bit 4 v AND 0x3F), uint (push_bit 2 (v AND 0xF)), - 2] = Some [a, b]"
    by (simp only: b64_bytes_words Let_def if_False not_True_eq_False simp_thms)
  show "unat (drop_bit 10 v) < 64" by (rule bits_less) (auto simp: v_def bit_simps dest: bit_imp_le_length)
  show "unat (push_bit 2 (v AND 0xF)) < 64" unfolding six_bits by (rule bits_less) (auto simp: bit_simps)
qed

lemma b64_one:
  fixes a :: u8
  defines "v \<equiv> ucast a :: u32"
  shows "b64_bytes [uint (drop_bit 2 v), uint (push_bit 4 (v AND 3)), - 2, - 2] = Some [a]"
    and "unat (drop_bit 2 v) < 64" and "unat (push_bit 4 (v AND 3)) < 64"
proof -
  have "push_bit 2 (drop_bit 2 v) OR drop_bit 4 (push_bit 4 (v AND 3)) = v" (is "?l = v")
  proof (rule bit_word_eqI)
    fix i assume "i < LENGTH(32)"
    then show "bit ?l i = bit v i" unfolding six_bits
      using le_add_diff_inverse [of 2 i] by (cases "i < 2") (auto simp: bit_simps simp flip: numeral_2_eq_2)
  qed
  moreover have "push_bit 4 (v AND 3) AND 0xF = 0" unfolding six_bits by (rule bit_word_eqI) (auto simp: bit_simps)
  moreover have "ucast v = a" unfolding v_def by (rule bit_word_eqI) (auto simp: bit_simps)
  ultimately show "b64_bytes [uint (drop_bit 2 v), uint (push_bit 4 (v AND 3)), - 2, - 2] = Some [a]"
    by (simp only: b64_bytes_words Let_def if_False not_True_eq_False simp_thms)
  show "unat (drop_bit 2 v) < 64" unfolding v_def by (rule bits_less) (auto simp: bit_simps dest: bit_imp_le_length)
  show "unat (push_bit 4 (v AND 3)) < 64" unfolding six_bits by (rule bits_less) (auto simp: bit_simps)
qed

lemma b64_loop_four:
  assumes "b64index a \<noteq> - 1" "b64index b \<noteq> - 1" "b64index c \<noteq> - 1" "b64index d \<noteq> - 1"
    "b64_bytes [b64index a, b64index b, b64index c, b64index d] = Some bs"
  shows "b64_loop out (a # b # c # d # rest) = b64_loop (out @ bs) rest"
  using b64_group_four [OF assms(1-4), of rest] assms(5) by (subst b64_loop.simps) simp

lemma b64_loop_words:
  assumes "unat x0 < 64" "unat x1 < 64" "unat x2 < 64" "unat x3 < 64" "b64_bytes [uint x0, uint x1, uint x2, uint x3] = Some bs"
  shows "b64_loop out (enc x0 # enc x1 # enc x2 # enc x3 # rest) = b64_loop (out @ bs) rest"
  by (rule b64_loop_four) (simp_all add: assms b64index_enc uint_not_neg)

lemma b64_loop_words_pad:
  "unat x0 < 64 \<Longrightarrow> unat x1 < 64 \<Longrightarrow> unat x2 < 64 \<Longrightarrow> b64_bytes [uint x0, uint x1, uint x2, - 2] = Some bs \<Longrightarrow>
     b64_loop out [enc x0, enc x1, enc x2, 61] = b64_loop (out @ bs) []"
  "unat x0 < 64 \<Longrightarrow> unat x1 < 64 \<Longrightarrow> b64_bytes [uint x0, uint x1, - 2, - 2] = Some bs \<Longrightarrow>
     b64_loop out [enc x0, enc x1, 61, 61] = b64_loop (out @ bs) []"
  by (rule b64_loop_four; simp add: b64index_enc b64index_pad uint_not_neg)+

lemma and_3F_less: "unat ((v :: u32) AND 0x3F) < 64"
  by (simp only: six_bits six_bits_less)

lemma b64_loop_encode: "b64_loop out (lb64encode bs) = LuaOk (out @ bs)"
proof (induction bs arbitrary: out rule: lb64encode.induct)
  case (1 a b c rest)
  have "b64_loop out (lb64encode (a # b # c # rest)) = b64_loop (out @ [a, b, c]) (lb64encode rest)"
    unfolding lb64encode.simps Let_def append.simps
    by (rule b64_loop_words [OF b64_three(2) and_3F_less and_3F_less and_3F_less b64_three(1)])
  then show ?case using "1.IH" [OF refl] by simp
next
  case (2 a b)
  have "b64_loop out (lb64encode [a, b]) = b64_loop (out @ [a, b]) []"
    unfolding lb64encode.simps Let_def by (rule b64_loop_words_pad(1) [OF b64_two(2) and_3F_less b64_two(3) b64_two(1)])
  then show ?case by (simp add: b64_loop.simps)
next
  case (3 a)
  have "b64_loop out (lb64encode [a]) = b64_loop (out @ [a]) []"
    unfolding lb64encode.simps Let_def by (rule b64_loop_words_pad(2) [OF b64_one(2,3,1)])
  then show ?case by (simp add: b64_loop.simps)
qed (simp add: b64_loop.simps)

text \<open>Base64 text: decoding the encoded bytes gives them back, for every length and so for every padding.\<close>

theorem base64_roundtrip: "lb64decode (lb64encode bs) = LuaOk bs"
  using b64_loop_encode [of "[]" bs] by (simp add: lb64decode_def)

end
