(* ===== verification/Server.thy ===== *)
theory Server
  imports Queue_Protocol Handle Timer_Wheel C_Strings
begin

unbundle bit_operations_syntax

section \<open>Service contexts, sending and dispatching (\<open>skynet_server.c\<close>)\<close>

text \<open>
  A service is a context: its handle, its queue, its reference count and its callback. The contexts
  live in a store by address, so that a freed one is \<open>None\<close> and any use of it is an abort. The server
  state composes the handle registry, the message queues, the timer and the contexts.

  The code of the services is loaded at run time, so it is a parameter: \<open>modules\<close> holds the module
  functions and the callback, each free to act on the whole server. \<open>sv_freed\<close> records the message
  blocks that are given to \<open>skynet_free\<close>, in order.
\<close>

subsection \<open>State\<close>

type_synonym ctxid = nat

definition GLOBALNAME_LENGTH :: nat where "GLOBALNAME_LENGTH = 16"

record remote_message =
  rm_name :: string
  rm_handle :: u32
  rm_message :: "bytes option"
  rm_sz :: u64

datatype payload = Bytes bytes | Remote remote_message | Socket_message skynet_socket_message

record skynet_context =
  cx_mod :: string
  cx_cb :: bool
  cx_queue :: mqid
  cx_logfile :: bool
  cx_cpu_cost :: u64
  cx_cpu_start :: u64
  cx_result :: string
  cx_handle :: u32
  cx_session_id :: u32
  cx_ref :: int
  cx_message_count :: u32
  cx_init :: bool
  cx_endless :: bool
  cx_profile :: bool

record skynet_monitor =
  mn_version :: u32
  mn_check_version :: u32
  mn_source :: u32
  mn_destination :: u32

text \<open>What happens to the log file of the service with a given handle (\<open>skynet_log.c\<close>, \<open>fclose\<close>).\<close>

datatype log_action =
    LogOpen
  | LogOutput u32 nat int "payload option" u64
  | LogClose

record 'x server =
  sv_ctxs :: "ctxid \<Rightarrow> skynet_context option"
  sv_next :: ctxid
  sv_handles :: "ctxid handle_storage"
  sv_mq :: "payload skynet_message mq_store"
  sv_next_mq :: mqid
  sv_timer :: timer
  sv_total :: int
  sv_monitor_exit :: u32
  sv_profile :: bool
  sv_HARBOR :: u32
  sv_REMOTE :: "ctxid option"
  sv_logger :: u32
  sv_current :: u32
  sv_env :: "string \<rightharpoonup> string"
  sv_freed :: "payload list"
  sv_log :: "(u32 \<times> log_action) list"
  sv_ext :: 'x

text \<open>
  What a module provides. \<open>md_query\<close> and \<open>md_create\<close> say whether the library and its instance are
  there; \<open>md_time\<close> is \<open>skynet_thread_time\<close>; \<open>md_open\<close> says whether a log file could be opened.
\<close>

record 'x modules =
  md_query :: "string \<Rightarrow> bool"
  md_create :: "string \<Rightarrow> bool"
  md_init :: "string \<Rightarrow> ctxid \<Rightarrow> string option \<Rightarrow> 'x server \<Rightarrow> (int \<times> 'x server) option"
  md_release :: "string \<Rightarrow> ctxid \<Rightarrow> 'x server \<Rightarrow> 'x server option"
  md_signal :: "string \<Rightarrow> ctxid \<Rightarrow> int \<Rightarrow> 'x server \<Rightarrow> 'x server option"
  md_cb :: "ctxid \<Rightarrow> nat \<Rightarrow> int \<Rightarrow> u32 \<Rightarrow> payload option \<Rightarrow> u64 \<Rightarrow> 'x server \<Rightarrow> (int \<times> 'x server) option"
  md_time :: "'x server \<Rightarrow> u64"
  md_open :: "string \<Rightarrow> bool"

definition hof :: "'x server \<Rightarrow> ctxid \<Rightarrow> u32" where
  "hof s c = (case sv_ctxs s c of Some x \<Rightarrow> cx_handle x | None \<Rightarrow> 0)"

definition upd_ctx :: "ctxid \<Rightarrow> (skynet_context \<Rightarrow> skynet_context) \<Rightarrow> 'x server \<Rightarrow> 'x server option" where
  "upd_ctx c f s = do { x \<leftarrow> sv_ctxs s c; Some (s\<lparr>sv_ctxs := (sv_ctxs s)(c \<mapsto> f x)\<rparr>) }"

definition free_data :: "payload option \<Rightarrow> 'x server \<Rightarrow> 'x server" where
  "free_data d s = (case d of Some p \<Rightarrow> s\<lparr>sv_freed := sv_freed s @ [p]\<rparr> | None \<Rightarrow> s)"

definition skynet_context_total :: "'x server \<Rightarrow> int" where
  "skynet_context_total s = sv_total s"

definition context_inc :: "'x server \<Rightarrow> 'x server" where
  "context_inc s = s\<lparr>sv_total := sv_total s + 1\<rparr>"

definition context_dec :: "'x server \<Rightarrow> 'x server" where
  "context_dec s = s\<lparr>sv_total := sv_total s - 1\<rparr>"

definition log_act :: "u32 \<Rightarrow> log_action \<Rightarrow> 'x server \<Rightarrow> 'x server" where
  "log_act handle a s = s\<lparr>sv_log := sv_log s @ [(handle, a)]\<rparr>"

definition THREAD_WORKER :: int where "THREAD_WORKER = 0"
definition THREAD_MAIN :: int where "THREAD_MAIN = 1"

definition skynet_initthread :: "int \<Rightarrow> 'x server \<Rightarrow> 'x server" where
  "skynet_initthread m s = s\<lparr>sv_current := word_of_int (- m)\<rparr>"

definition skynet_globalinit :: "'x server \<Rightarrow> 'x server" where
  "skynet_globalinit s = skynet_initthread THREAD_MAIN (s\<lparr>sv_total := 0, sv_monitor_exit := 0\<rparr>)"

definition skynet_profile_enable :: "bool \<Rightarrow> 'x server \<Rightarrow> 'x server" where
  "skynet_profile_enable enable s = s\<lparr>sv_profile := enable\<rparr>"

definition skynet_harbor_init :: "int \<Rightarrow> 'x server \<Rightarrow> 'x server" where
  "skynet_harbor_init harbor s = s\<lparr>sv_HARBOR := push_bit HANDLE_REMOTE_SHIFT (word_of_int harbor)\<rparr>"

text \<open>The initialisations of \<open>skynet_start\<close> over the static data of the program, with an empty environment.\<close>

definition server_init :: "'x \<Rightarrow> int \<Rightarrow> bool \<Rightarrow> timer \<Rightarrow> 'x server" where
  "server_init x harbor profile T =
     skynet_profile_enable profile (skynet_harbor_init harbor (skynet_globalinit
     \<lparr>sv_ctxs = (\<lambda>_. None), sv_next = 0, sv_handles = skynet_handle_init harbor, sv_mq = skynet_mq_init,
      sv_next_mq = 0, sv_timer = T, sv_total = 0, sv_monitor_exit = 0, sv_profile = False,
      sv_HARBOR = - 1, sv_REMOTE = None, sv_logger = 0,
      sv_current = 0, sv_env = (\<lambda>_. None), sv_freed = [], sv_log = [], sv_ext = x\<rparr>))"

subsection \<open>References\<close>

definition skynet_context_grab :: "ctxid \<Rightarrow> 'x server \<Rightarrow> 'x server option" where
  "skynet_context_grab c s = upd_ctx c (\<lambda>x. x\<lparr>cx_ref := cx_ref x + 1\<rparr>) s"

definition skynet_context_reserve :: "ctxid \<Rightarrow> 'x server \<Rightarrow> 'x server option" where
  "skynet_context_reserve c s = do { s \<leftarrow> skynet_context_grab c s; Some (context_dec s) }"

definition skynet_handle_grab :: "u32 \<Rightarrow> 'x server \<Rightarrow> (ctxid option \<times> 'x server) option" where
  "skynet_handle_grab handle s =
     (case handle_lookup (hof s) (sv_handles s) handle of
        None \<Rightarrow> Some (None, s)
      | Some c \<Rightarrow> do { s' \<leftarrow> skynet_context_grab c s; Some (Some c, s') })"

definition delete_context :: "'x modules \<Rightarrow> ctxid \<Rightarrow> 'x server \<Rightarrow> 'x server option" where
  "delete_context M c s =
     do { x \<leftarrow> sv_ctxs s c;
          let s = (if cx_logfile x then log_act (cx_handle x) LogClose s else s);
          s \<leftarrow> md_release M (cx_mod x) c s;
          x \<leftarrow> sv_ctxs s c;
          mq \<leftarrow> skynet_mq_mark_release (cx_queue x) (sv_mq s);
          Some (context_dec (s\<lparr>sv_mq := mq, sv_ctxs := (sv_ctxs s)(c := None)\<rparr>)) }"

definition skynet_context_release :: "'x modules \<Rightarrow> ctxid \<Rightarrow> 'x server \<Rightarrow> (ctxid option \<times> 'x server) option" where
  "skynet_context_release M c s =
     do { s \<leftarrow> upd_ctx c (\<lambda>x. x\<lparr>cx_ref := cx_ref x - 1\<rparr>) s;
          x \<leftarrow> sv_ctxs s c;
          (if cx_ref x = 0 then do { s \<leftarrow> delete_context M c s; Some (None, s) }
           else Some (Some c, s)) }"

text \<open>\<open>skynet_handle_retire\<close>: the context leaves the registry, then the registry's reference is released.\<close>

definition server_retire :: "'x modules \<Rightarrow> u32 \<Rightarrow> 'x server \<Rightarrow> (int \<times> 'x server) option" where
  "server_retire M handle s =
     do { (ret, ctx, hs) \<leftarrow> handle_retire (hof s) handle (sv_handles s);
          let s = s\<lparr>sv_handles := hs\<rparr>;
          (case ctx of
             Some c \<Rightarrow> do { (_, s) \<leftarrow> skynet_context_release M c s; Some (ret, s) }
           | None \<Rightarrow> Some (ret, s)) }"

subsection \<open>Pushing a message\<close>

definition mq_push_ctx :: "ctxid \<Rightarrow> payload skynet_message \<Rightarrow> 'x server \<Rightarrow> 'x server option" where
  "mq_push_ctx c m s =
     do { x \<leftarrow> sv_ctxs s c; mq \<leftarrow> skynet_mq_push (cx_queue x) m (sv_mq s); Some (s\<lparr>sv_mq := mq\<rparr>) }"

definition skynet_context_push :: "'x modules \<Rightarrow> u32 \<Rightarrow> payload skynet_message \<Rightarrow> 'x server \<Rightarrow> (int \<times> 'x server) option" where
  "skynet_context_push M handle m s =
     do { (ctx, s) \<leftarrow> skynet_handle_grab handle s;
          (case ctx of
             None \<Rightarrow> Some (- 1, s)
           | Some c \<Rightarrow>
               do { s \<leftarrow> mq_push_ctx c m s;
                    (_, s) \<leftarrow> skynet_context_release M c s;
                    Some (0, s) }) }"

definition skynet_context_send ::
  "ctxid \<Rightarrow> payload \<Rightarrow> u64 \<Rightarrow> u32 \<Rightarrow> nat \<Rightarrow> int \<Rightarrow> 'x server \<Rightarrow> 'x server option" where
  "skynet_context_send c msg sz source type session s =
     mq_push_ctx c \<lparr>msg_source = source, msg_session = session, msg_data = Some msg, msg_sz = pack_sz type sz\<rparr> s"

definition skynet_context_endless :: "'x modules \<Rightarrow> u32 \<Rightarrow> 'x server \<Rightarrow> 'x server option" where
  "skynet_context_endless M handle s =
     do { (ctx, s) \<leftarrow> skynet_handle_grab handle s;
          (case ctx of
             None \<Rightarrow> Some s
           | Some c \<Rightarrow>
               do { s \<leftarrow> upd_ctx c (\<lambda>x. x\<lparr>cx_endless := True\<rparr>) s;
                    (_, s) \<leftarrow> skynet_context_release M c s;
                    Some s }) }"

text \<open>\<open>skynet_error\<close>: the text goes to the service named \<open>logger\<close>, whose handle is looked up once.\<close>

definition skynet_error :: "'x modules \<Rightarrow> ctxid option \<Rightarrow> string \<Rightarrow> 'x server \<Rightarrow> 'x server option" where
  "skynet_error M ctx text s =
     do { logger \<leftarrow> (if sv_logger s = 0 then skynet_handle_findname ''logger'' (sv_handles s) else Some (sv_logger s));
          let s = s\<lparr>sv_logger := logger\<rparr>;
          (if logger = 0 then Some s
           else
             do { source \<leftarrow> (case ctx of None \<Rightarrow> Some 0 | Some c \<Rightarrow> map_option cx_handle (sv_ctxs s c));
                  (_, s) \<leftarrow> skynet_context_push M logger
                    \<lparr>msg_source = source, msg_session = 0, msg_data = Some (Bytes (map of_char text)),
                     msg_sz = pack_sz PTYPE_TEXT (of_nat (length text))\<rparr> s;
                  Some s }) }"

subsection \<open>Harbors\<close>

definition skynet_harbor_message_isremote :: "u32 \<Rightarrow> 'x server \<Rightarrow> bool option" where
  "skynet_harbor_message_isremote handle s =
     do { assert_opt (sv_HARBOR s \<noteq> - 1);
          let h = handle AND NOT HANDLE_MASK;
          Some (h \<noteq> sv_HARBOR s \<and> h \<noteq> 0) }"

definition skynet_isremote :: "u32 \<Rightarrow> 'x server \<Rightarrow> (bool \<times> u32) option" where
  "skynet_isremote handle s =
     do { r \<leftarrow> skynet_harbor_message_isremote handle s; Some (r, drop_bit HANDLE_REMOTE_SHIFT handle) }"

definition REMOTE_MESSAGE_SIZE :: u64 where "REMOTE_MESSAGE_SIZE = 40"

definition skynet_harbor_send :: "remote_message \<Rightarrow> u32 \<Rightarrow> int \<Rightarrow> 'x server \<Rightarrow> 'x server option" where
  "skynet_harbor_send rmsg source session s =
     do { let type = unat (drop_bit MESSAGE_TYPE_SHIFT (rm_sz rmsg));
          let rmsg = rmsg\<lparr>rm_sz := rm_sz rmsg AND MESSAGE_TYPE_MASK\<rparr>;
          assert_opt (type \<noteq> PTYPE_SYSTEM \<and> type \<noteq> PTYPE_HARBOR);
          remote \<leftarrow> sv_REMOTE s;
          skynet_context_send remote (Remote rmsg) REMOTE_MESSAGE_SIZE source type session s }"

definition skynet_harbor_start :: "ctxid \<Rightarrow> 'x server \<Rightarrow> 'x server option" where
  "skynet_harbor_start c s = do { s \<leftarrow> skynet_context_reserve c s; Some (s\<lparr>sv_REMOTE := Some c\<rparr>) }"

definition skynet_harbor_exit :: "'x modules \<Rightarrow> 'x server \<Rightarrow> 'x server option" where
  "skynet_harbor_exit M s =
     (let ctx = sv_REMOTE s; s = s\<lparr>sv_REMOTE := None\<rparr> in
      case ctx of None \<Rightarrow> Some s | Some c \<Rightarrow> do { (_, s) \<leftarrow> skynet_context_release M c s; Some s })"

subsection \<open>Sending\<close>

text \<open>\<open>session_id\<close> is a signed int: the increment wraps, and a session that is not positive restarts at 1.\<close>

definition skynet_context_newsession :: "ctxid \<Rightarrow> 'x server \<Rightarrow> (int \<times> 'x server) option" where
  "skynet_context_newsession c s =
     do { x \<leftarrow> sv_ctxs s c;
          let session = cx_session_id x + 1;
          (if sint session \<le> 0
           then do { s \<leftarrow> upd_ctx c (\<lambda>x. x\<lparr>cx_session_id := 1\<rparr>) s; Some (1, s) }
           else do { s \<leftarrow> upd_ctx c (\<lambda>x. x\<lparr>cx_session_id := session\<rparr>) s; Some (sint session, s) }) }"

text \<open>\<open>_filter_args\<close>: the session, the data (copied unless the type says not to) and the packed size.\<close>

definition filter_args ::
  "ctxid option \<Rightarrow> nat \<Rightarrow> int \<Rightarrow> bytes option \<Rightarrow> u64 \<Rightarrow> 'x server \<Rightarrow> ((int \<times> bytes option \<times> u64) \<times> 'x server) option" where
  "filter_args ctx type session data sz s =
     do { (session, s) \<leftarrow>
            (if type AND PTYPE_TAG_ALLOCSESSION \<noteq> 0 then
               do { assert_opt (session = 0); c \<leftarrow> ctx; skynet_context_newsession c s }
             else Some (session, s));
          data \<leftarrow>
            (if type AND PTYPE_TAG_DONTCOPY = 0 then
               (case data of
                  Some b \<Rightarrow> do { assert_opt (unat sz \<le> length b); Some (Some (take (unat sz) b)) }
                | None \<Rightarrow> Some None)
             else Some data);
          Some ((session, data, pack_sz (type AND 0xFF) sz), s) }"

definition ctx_handle :: "ctxid option \<Rightarrow> 'x server \<Rightarrow> u32 option" where
  "ctx_handle ctx s = do { c \<leftarrow> ctx; x \<leftarrow> sv_ctxs s c; Some (cx_handle x) }"

definition skynet_send ::
  "'x modules \<Rightarrow> ctxid option \<Rightarrow> u32 \<Rightarrow> u32 \<Rightarrow> nat \<Rightarrow> int \<Rightarrow> bytes option \<Rightarrow> u64 \<Rightarrow> 'x server \<Rightarrow> (int \<times> 'x server) option" where
  "skynet_send M ctx source destination type session data sz s =
     (if sz AND MESSAGE_TYPE_MASK \<noteq> sz then
        do { s \<leftarrow> skynet_error M ctx (''The message to '' @ show_hex destination @ '' is too large'') s;
             Some (- 1, if type AND PTYPE_TAG_DONTCOPY \<noteq> 0 then free_data (map_option Bytes data) s else s) }
      else
        do { ((session, data, sz), s) \<leftarrow> filter_args ctx type session data sz s;
             source \<leftarrow> (if source = 0 then ctx_handle ctx s else Some source);
             (if destination = 0 then Some (session, s)
              else
                do { remote \<leftarrow> skynet_harbor_message_isremote destination s;
                     (if remote then
                        do { s \<leftarrow> skynet_harbor_send \<lparr>rm_name = [], rm_handle = destination, rm_message = data, rm_sz = sz\<rparr>
                                     source session s;
                             Some (session, s) }
                      else
                        do { (r, s) \<leftarrow> skynet_context_push M destination
                               \<lparr>msg_source = source, msg_session = session, msg_data = map_option Bytes data, msg_sz = sz\<rparr> s;
                             Some (if r \<noteq> 0 then (- 1, free_data (map_option Bytes data) s) else (session, s)) }) }) })"

text \<open>\<open>copy_name\<close>: at most 16 characters, the rest of the array is zero.\<close>

definition copy_name :: "string \<Rightarrow> string" where
  "copy_name addr = take GLOBALNAME_LENGTH addr"

definition skynet_sendname ::
  "'x modules \<Rightarrow> ctxid \<Rightarrow> u32 \<Rightarrow> string \<Rightarrow> nat \<Rightarrow> int \<Rightarrow> bytes option \<Rightarrow> u64 \<Rightarrow> 'x server \<Rightarrow> (int \<times> 'x server) option" where
  "skynet_sendname M ctx source addr type session data sz s =
     do { source \<leftarrow> (if source = 0 then ctx_handle (Some ctx) s else Some source);
          (case addr of
             CHR '':'' # rest \<Rightarrow> skynet_send M (Some ctx) source (strtoul 16 rest) type session data sz s
           | CHR ''.'' # rest \<Rightarrow>
               do { des \<leftarrow> skynet_handle_findname rest (sv_handles s);
                    (if des = 0 then
                       Some (- 1, if type AND PTYPE_TAG_DONTCOPY \<noteq> 0 then free_data (map_option Bytes data) s else s)
                     else skynet_send M (Some ctx) source des type session data sz s) }
           | _ \<Rightarrow>
               do { ((session, data, sz), s) \<leftarrow> filter_args (Some ctx) type session data sz s;
                    s \<leftarrow> skynet_harbor_send \<lparr>rm_name = copy_name addr, rm_handle = 0, rm_message = data, rm_sz = sz\<rparr>
                          source session s;
                    Some (session, s) }) }"

text \<open>\<open>drop_message\<close>: the data is freed and an error goes to the source of the message.\<close>

definition drop_message :: "'x modules \<Rightarrow> u32 \<Rightarrow> payload skynet_message \<Rightarrow> 'x server \<Rightarrow> 'x server option" where
  "drop_message M source msg s =
     do { let s = free_data (msg_data msg) s;
          assert_opt (source \<noteq> 0);
          (_, s) \<leftarrow> skynet_send M None source (msg_source msg) PTYPE_ERROR 0 None 0 s;
          Some s }"


definition server_mq_release :: "'x modules \<Rightarrow> u32 \<Rightarrow> mqid \<Rightarrow> 'x server \<Rightarrow> 'x server option" where
  "server_mq_release M handle i s =
     do { w \<leftarrow> skynet_mq_release
            (\<lambda>m w. do { s' \<leftarrow> drop_message M handle m ((snd w)\<lparr>sv_mq := fst w\<rparr>); Some (sv_mq s', s') }) i (sv_mq s, s);
          Some ((snd w)\<lparr>sv_mq := fst w\<rparr>) }"

subsection \<open>Starting a service\<close>

definition blank_context :: "string \<Rightarrow> bool \<Rightarrow> skynet_context" where
  "blank_context name profile =
     \<lparr>cx_mod = name, cx_cb = False, cx_queue = 0, cx_logfile = False, cx_cpu_cost = 0, cx_cpu_start = 0,
      cx_result = [], cx_handle = 0, cx_session_id = 0, cx_ref = 2, cx_message_count = 0, cx_init = False,
      cx_endless = False, cx_profile = profile\<rparr>"

text \<open>Up to the call of the module's \<open>init\<close>: the context is allocated, registered and gets its queue.\<close>

definition context_alloc :: "string \<Rightarrow> 'x server \<Rightarrow> (ctxid \<times> mqid \<times> 'x server) option" where
  "context_alloc name s =
     do { let c = sv_next s;
          let s = s\<lparr>sv_next := Suc c, sv_ctxs := (sv_ctxs s)(c \<mapsto> blank_context name (sv_profile s))\<rparr>;
          (h, hs) \<leftarrow> skynet_handle_register (hof s) c (sv_handles s);
          let s = s\<lparr>sv_handles := hs\<rparr>;
          let q = sv_next_mq s;
          s \<leftarrow> upd_ctx c (\<lambda>x. x\<lparr>cx_handle := h, cx_queue := q\<rparr>) s;
          let s = s\<lparr>sv_next_mq := Suc q, sv_mq := put_mq q (skynet_mq_create h) (sv_mq s)\<rparr>;
          Some (c, q, context_inc s) }"

definition context_started :: "'x modules \<Rightarrow> string \<Rightarrow> string option \<Rightarrow> ctxid \<Rightarrow> mqid \<Rightarrow> 'x server \<Rightarrow> (ctxid option \<times> 'x server) option" where
  "context_started M name param c q s =
     do { (ret, s) \<leftarrow> skynet_context_release M c s;
          s \<leftarrow> (if ret \<noteq> None then upd_ctx c (\<lambda>x. x\<lparr>cx_init := True\<rparr>) s else Some s);
          mq \<leftarrow> skynet_globalmq_push q (sv_mq s);
          let s = s\<lparr>sv_mq := mq\<rparr>;
          s \<leftarrow> (if ret \<noteq> None
                then skynet_error M ret (''LAUNCH '' @ name @ '' '' @ (case param of Some p \<Rightarrow> p | None \<Rightarrow> [])) s
                else Some s);
          Some (ret, s) }"

definition context_failed :: "'x modules \<Rightarrow> string \<Rightarrow> ctxid \<Rightarrow> mqid \<Rightarrow> 'x server \<Rightarrow> 'x server option" where
  "context_failed M name c q s =
     do { s \<leftarrow> skynet_error M (Some c) (''FAILED launch '' @ name) s;
          x \<leftarrow> sv_ctxs s c;
          (_, s) \<leftarrow> skynet_context_release M c s;
          (_, s) \<leftarrow> server_retire M (cx_handle x) s;
          server_mq_release M (cx_handle x) q s }"

definition skynet_context_new :: "'x modules \<Rightarrow> string \<Rightarrow> string option \<Rightarrow> 'x server \<Rightarrow> (ctxid option \<times> 'x server) option" where
  "skynet_context_new M name param s =
     (if \<not> md_query M name then Some (None, s)
      else if \<not> md_create M name then Some (None, s)
      else
        do { (c, q, s) \<leftarrow> context_alloc name s;
             (r, s) \<leftarrow> md_init M name c param s;
             (if r = 0 then context_started M name param c q s
              else do { s \<leftarrow> context_failed M name c q s; Some (None, s) }) })"

definition skynet_callback :: "ctxid \<Rightarrow> bool \<Rightarrow> 'x server \<Rightarrow> 'x server option" where
  "skynet_callback c cb s = upd_ctx c (\<lambda>x. x\<lparr>cx_cb := cb\<rparr>) s"

subsection \<open>Monitors (\<open>skynet_monitor.c\<close>)\<close>

definition skynet_monitor_new :: skynet_monitor where
  "skynet_monitor_new = \<lparr>mn_version = 0, mn_check_version = 0, mn_source = 0, mn_destination = 0\<rparr>"

definition skynet_monitor_trigger :: "u32 \<Rightarrow> u32 \<Rightarrow> skynet_monitor \<Rightarrow> skynet_monitor" where
  "skynet_monitor_trigger source destination sm =
     sm\<lparr>mn_source := source, mn_destination := destination, mn_version := mn_version sm + 1\<rparr>"

definition hex8 :: "u32 \<Rightarrow> string" where
  "hex8 w = (let t = show_hex w in replicate (8 - length t) (CHR ''0'') @ t)"

definition skynet_monitor_check :: "'x modules \<Rightarrow> skynet_monitor \<Rightarrow> 'x server \<Rightarrow> (skynet_monitor \<times> 'x server) option" where
  "skynet_monitor_check M sm s =
     (if mn_version sm = mn_check_version sm then
        (if mn_destination sm \<noteq> 0 then
           do { s \<leftarrow> skynet_context_endless M (mn_destination sm) s;
                s \<leftarrow> skynet_error M None (''A message from [ :'' @ hex8 (mn_source sm) @ '' ] to [ :'' @ hex8 (mn_destination sm)
                      @ '' ] maybe in an endless loop (version = '' @ show_int (sint (mn_version sm)) @ '')'') s;
                Some (sm, s) }
         else Some (sm, s))
      else Some (sm\<lparr>mn_check_version := mn_version sm\<rparr>, s))"

subsection \<open>Dispatching\<close>

definition server_dispatch :: "'x modules \<Rightarrow> ctxid \<Rightarrow> payload skynet_message \<Rightarrow> 'x server \<Rightarrow> 'x server option" where
  "server_dispatch M c msg s =
     do { x \<leftarrow> sv_ctxs s c;
          assert_opt (cx_init x);
          let s = s\<lparr>sv_current := cx_handle x\<rparr>;
          let s = (if cx_logfile x
                   then log_act (cx_handle x) (LogOutput (msg_source msg) (msg_type msg) (msg_session msg) (msg_data msg) (msg_size msg)) s
                   else s);
          s \<leftarrow> upd_ctx c (\<lambda>x. x\<lparr>cx_message_count := cx_message_count x + 1\<rparr>) s;
          (reserve, s) \<leftarrow>
            (if cx_profile x then
               do { s \<leftarrow> upd_ctx c (\<lambda>x. x\<lparr>cx_cpu_start := md_time M s\<rparr>) s;
                    (r, s) \<leftarrow> md_cb M c (msg_type msg) (msg_session msg) (msg_source msg) (msg_data msg) (msg_size msg) s;
                    s \<leftarrow> upd_ctx c (\<lambda>x. x\<lparr>cx_cpu_cost := cx_cpu_cost x + (md_time M s - cx_cpu_start x)\<rparr>) s;
                    Some (r, s) }
             else md_cb M c (msg_type msg) (msg_session msg) (msg_source msg) (msg_data msg) (msg_size msg) s);
          Some (if reserve = 0 then free_data (msg_data msg) s else s) }"

text \<open>\<open>skynet_mq_pop\<close>, \<open>skynet_mq_overload\<close> and \<open>skynet_mq_length\<close> on a queue of the store.\<close>

definition pop_queue :: "mqid \<Rightarrow> 'x server \<Rightarrow> (payload skynet_message option \<times> 'x server) option" where
  "pop_queue q s =
     do { mq \<leftarrow> mqs (sv_mq s) q;
          (r, mq) \<leftarrow> skynet_mq_pop mq;
          Some (r, s\<lparr>sv_mq := put_mq q mq (sv_mq s)\<rparr>) }"

definition overload_queue :: "mqid \<Rightarrow> 'x server \<Rightarrow> (int \<times> 'x server) option" where
  "overload_queue q s =
     do { mq \<leftarrow> mqs (sv_mq s) q;
          let (n, mq) = skynet_mq_overload mq;
          Some (n, s\<lparr>sv_mq := put_mq q mq (sv_mq s)\<rparr>) }"

definition global_pop :: "'x server \<Rightarrow> (mqid option \<times> 'x server) option" where
  "global_pop s = do { (r, mq) \<leftarrow> skynet_globalmq_pop (sv_mq s); Some (r, s\<lparr>sv_mq := mq\<rparr>) }"

partial_function (option) skynet_context_dispatchall :: "'x modules \<Rightarrow> ctxid \<Rightarrow> 'x server \<Rightarrow> 'x server option" where
  "skynet_context_dispatchall M c s =
     do { x \<leftarrow> sv_ctxs s c;
          (r, s) \<leftarrow> pop_queue (cx_queue x) s;
          (case r of
             None \<Rightarrow> Some s
           | Some msg \<Rightarrow> do { s \<leftarrow> server_dispatch M c msg s; skynet_context_dispatchall M c s }) }"

text \<open>One message of the dispatch loop: \<open>None\<close> as first result when the queue was empty.\<close>

definition dispatch_one ::
  "'x modules \<Rightarrow> ctxid \<Rightarrow> u32 \<Rightarrow> mqid \<Rightarrow> payload skynet_message \<Rightarrow> skynet_monitor \<times> 'x server \<Rightarrow> (skynet_monitor \<times> 'x server) option" where
  "dispatch_one M c handle q msg w =
     do { (overload, s) \<leftarrow> overload_queue q (snd w);
          s \<leftarrow> (if overload \<noteq> 0 then skynet_error M (Some c) (''May overload, message queue length = '' @ show_int overload) s
                else Some s);
          let sm = skynet_monitor_trigger (msg_source msg) handle (fst w);
          x \<leftarrow> sv_ctxs s c;
          s \<leftarrow> (if \<not> cx_cb x then Some (free_data (msg_data msg) s) else server_dispatch M c msg s);
          Some (skynet_monitor_trigger 0 0 sm, s) }"

text \<open>The loop after its first message, for the messages that are left of \<open>n\<close>; \<open>True\<close> when it found the queue empty.\<close>

fun dispatch_rest ::
  "'x modules \<Rightarrow> ctxid \<Rightarrow> u32 \<Rightarrow> mqid \<Rightarrow> nat \<Rightarrow> skynet_monitor \<times> 'x server \<Rightarrow> (bool \<times> skynet_monitor \<times> 'x server) option" where
  "dispatch_rest M c handle q 0 w = Some (False, w)"
| "dispatch_rest M c handle q (Suc n) w =
     do { (r, s) \<leftarrow> pop_queue q (snd w);
          (case r of
             None \<Rightarrow> Some (True, fst w, s)
           | Some msg \<Rightarrow>
               do { w \<leftarrow> dispatch_one M c handle q msg (fst w, s);
                    dispatch_rest M c handle q n w }) }"

text \<open>The whole loop: after the first message \<open>n\<close> becomes the length of the queue shifted by the weight.\<close>

definition dispatch_batch ::
  "'x modules \<Rightarrow> int \<Rightarrow> ctxid \<Rightarrow> u32 \<Rightarrow> mqid \<Rightarrow> skynet_monitor \<times> 'x server \<Rightarrow> (bool \<times> skynet_monitor \<times> 'x server) option" where
  "dispatch_batch M weight c handle q w =
     do { (r, s) \<leftarrow> pop_queue q (snd w);
          (case r of
             None \<Rightarrow> Some (True, fst w, s)
           | Some msg \<Rightarrow>
               do { mq \<leftarrow> mqs (sv_mq s) q;
                    let n = (if 0 \<le> weight then drop_bit (nat weight) (skynet_mq_length mq) else 1);
                    w \<leftarrow> dispatch_one M c handle q msg (fst w, s);
                    dispatch_rest M c handle q (nat (n - 1)) w }) }"

definition dispatch_queue ::
  "'x modules \<Rightarrow> mqid \<Rightarrow> int \<Rightarrow> skynet_monitor \<times> 'x server \<Rightarrow> (mqid option \<times> skynet_monitor \<times> 'x server) option" where
  "dispatch_queue M q weight w =
     do { mq \<leftarrow> mqs (sv_mq (snd w)) q;
          let handle = skynet_mq_handle mq;
          (ctx, s) \<leftarrow> skynet_handle_grab handle (snd w);
          (case ctx of
             None \<Rightarrow>
               do { s \<leftarrow> server_mq_release M handle q s;
                    (nq, s) \<leftarrow> global_pop s;
                    Some (nq, fst w, s) }
           | Some c \<Rightarrow>
               do { (empty, sm, s) \<leftarrow> dispatch_batch M weight c handle q (fst w, s);
                    (if empty then
                       do { (_, s) \<leftarrow> skynet_context_release M c s;
                            (nq, s) \<leftarrow> global_pop s;
                            Some (nq, sm, s) }
                     else
                       do { x \<leftarrow> sv_ctxs s c;
                            assert_opt (q = cx_queue x);
                            (nq, s) \<leftarrow> global_pop s;
                            s \<leftarrow> (if nq \<noteq> None then map_option (\<lambda>mq. s\<lparr>sv_mq := mq\<rparr>) (skynet_globalmq_push q (sv_mq s)) else Some s);
                            (_, s) \<leftarrow> skynet_context_release M c s;
                            Some (if nq \<noteq> None then nq else Some q, sm, s) }) }) }"

definition skynet_context_message_dispatch ::
  "'x modules \<Rightarrow> skynet_monitor \<Rightarrow> mqid option \<Rightarrow> int \<Rightarrow> 'x server \<Rightarrow> (mqid option \<times> skynet_monitor \<times> 'x server) option" where
  "skynet_context_message_dispatch M sm q weight s =
     (case q of
        Some q \<Rightarrow> dispatch_queue M q weight (sm, s)
      | None \<Rightarrow>
          do { (r, s) \<leftarrow> global_pop s;
               (case r of None \<Rightarrow> Some (None, sm, s) | Some q \<Rightarrow> dispatch_queue M q weight (sm, s)) })"

text \<open>Without a logger the error log does nothing.\<close>

lemma no_logger: "sv_logger s = 0 \<Longrightarrow> skynet_handle_findname ''logger'' (sv_handles s) = Some 0 \<Longrightarrow> skynet_error M ctx t s = Some s"
  by (simp add: skynet_error_def)

end
