(* ===== verification/Service_Lifetime.thy ===== *)
theory Service_Lifetime
  imports Server
begin

unbundle bit_operations_syntax

section \<open>The lifetime of a service, and what sending does\<close>

text \<open>
  The invariant of the composed server: the registry, the queues and the contexts agree, and the
  reference count of a context is the number of references that threads hold plus one while it is
  registered. Its consequences are that no thread ever touches a freed context, that a context is
  freed as soon as nobody can reach it, and that \<open>skynet_send\<close> puts exactly the message it was given
  into exactly the queue of its destination.
\<close>

subsection \<open>What the queue operations leave alone\<close>

definition mq_live :: "'m mq_store \<Rightarrow> mqid \<Rightarrow> bool" where
  "mq_live st i \<longleftrightarrow> (\<exists>q. mqs st i = Some q \<and> mq_release q = 0)"

definition mq_msgs :: "'m mq_store \<Rightarrow> mqid \<Rightarrow> 'm list option" where
  "mq_msgs st i = map_option mq_contents (mqs st i)"

lemma mq_live_core: "mq_live st i \<longleftrightarrow> (\<exists>q. mq_core st i = Some q \<and> mq_release q = 0)"
  by (auto simp: mq_live_def mq_core_def)

lemma mq_msgs_core: "mq_msgs st i = map_option mq_contents (mq_core st i)"
  by (auto simp: mq_msgs_def mq_core_def option.map_comp comp_def)

lemma core_same:
  assumes "mq_core st' i = mq_core st i"
  shows "mq_live st' i = mq_live st i" "mq_msgs st' i = mq_msgs st i" "(mqs st' i = None) = (mqs st i = None)"
  using assms mq_core_None [of st' i] mq_core_None [of st i] by (simp_all add: mq_live_core mq_msgs_core)

lemma globalmq_push_frame: "skynet_globalmq_push i st = Some st' \<Longrightarrow> mq_core st' = mq_core st"
  by (auto simp: skynet_globalmq_push_def mq_core_def put_mq_def fun_eq_iff split: bind_splits option.splits)

lemma put_mq_core: "mq_core (put_mq i q st) j = (if j = i then Some (q\<lparr>mq_next := None\<rparr>) else mq_core st j)"
  by (simp add: mq_core_def put_mq_def)

lemma mq_push_frame:
  assumes "skynet_mq_push i m st = Some st'"
  shows "mq_live st' j = mq_live st j" "(mqs st' j = None) = (mqs st j = None)" "j \<noteq> i \<Longrightarrow> mq_msgs st' j = mq_msgs st j"
proof -
  from assms obtain q q1 where q: "mqs st i = Some q" "mq_store_message m q = Some q1"
    by (auto simp: skynet_mq_push_def split: bind_splits)
  note frame = mq_store_frame [OF q(2)]
  from assms q have "\<exists>g. mq_core st' = mq_core (put_mq i (q1\<lparr>mq_in_global := g\<rparr>) st)"
  proof (cases "mq_in_global q1 = 0")
    case True
    with assms q globalmq_push_frame show ?thesis by (auto simp: skynet_mq_push_def)
  next
    case False
    then have "st' = put_mq i (q1\<lparr>mq_in_global := mq_in_global q1\<rparr>) st" using assms q by (auto simp: skynet_mq_push_def)
    then show ?thesis by blast
  qed
  then obtain g where core: "mq_core st' j = (if j = i then Some (q1\<lparr>mq_in_global := g, mq_next := None\<rparr>) else mq_core st j)"
    by (auto simp: put_mq_core)
  show "mq_live st' j = mq_live st j"
  proof (cases "j = i")
    case True
    then have "mq_live st' j \<longleftrightarrow> mq_release q1 = 0" using core by (simp add: mq_live_core)
    moreover have "mq_live st j \<longleftrightarrow> mq_release q = 0" using True q(1) by (simp add: mq_live_def)
    ultimately show ?thesis using frame by simp
  next
    case False
    then show ?thesis using core core_same(1) by simp
  qed
  show "(mqs st' j = None) = (mqs st j = None)"
    using core q(1) mq_core_None [of st' j] mq_core_None [of st j] by (cases "j = i") auto
  show "j \<noteq> i \<Longrightarrow> mq_msgs st' j = mq_msgs st j" using core core_same(2) by simp
qed

lemma mark_release_frame:
  assumes "skynet_mq_mark_release i st = Some st'"
  shows "j \<noteq> i \<Longrightarrow> mq_core st' j = mq_core st j" "(mqs st' j = None) = (mqs st j = None)"
proof -
  from assms obtain q where q: "mqs st i = Some q"
    "mq_core st' = mq_core (put_mq i (q\<lparr>mq_release := 1\<rparr>) st)"
    by (auto simp: skynet_mq_mark_release_def Let_def dest: globalmq_push_frame split: bind_splits if_splits)
  then have core: "mq_core st' j = (if j = i then Some (q\<lparr>mq_release := 1, mq_next := None\<rparr>) else mq_core st j)"
    by (simp add: put_mq_core)
  show "j \<noteq> i \<Longrightarrow> mq_core st' j = mq_core st j" using core by simp
  show "(mqs st' j = None) = (mqs st j = None)"
    using core q(1) mq_core_None [of st' j] mq_core_None [of st j] by (cases "j = i") auto
qed

subsection \<open>The invariant\<close>

definition registered_ctxs :: "'x server \<Rightarrow> ctxid set" where
  "registered_ctxs s = hs_contexts (sv_handles s)"

definition ctx_ok :: "(ctxid \<Rightarrow> nat) \<Rightarrow> 'x server \<Rightarrow> ctxid \<Rightarrow> bool" where
  "ctx_ok refs s c \<longleftrightarrow>
     (case sv_ctxs s c of
        None \<Rightarrow> refs c = 0 \<and> c \<notin> registered_ctxs s
      | Some x \<Rightarrow> cx_ref x = int (refs c) + (if c \<in> registered_ctxs s then 1 else 0) \<and> 0 < cx_ref x \<and>
                  mq_live (sv_mq s) (cx_queue x))"

definition queues_apart :: "'x server \<Rightarrow> bool" where
  "queues_apart s \<longleftrightarrow> (\<forall>c d x y. sv_ctxs s c = Some x \<longrightarrow> sv_ctxs s d = Some y \<longrightarrow> cx_queue x = cx_queue y \<longrightarrow> c = d)"

definition alloc_ok :: "'x server \<Rightarrow> bool" where
  "alloc_ok s \<longleftrightarrow> (\<forall>c \<ge> sv_next s. sv_ctxs s c = None) \<and> (\<forall>i \<ge> sv_next_mq s. mqs (sv_mq s) i = None)"

definition server_inv :: "(ctxid \<Rightarrow> nat) \<Rightarrow> mqid set \<Rightarrow> 'x server \<Rightarrow> bool" where
  "server_inv refs held s \<longleftrightarrow>
     registry_wf (hof s, sv_handles s) \<and> (\<exists>xs. sched_inv (sv_mq s) held xs) \<and> (\<forall>c. ctx_ok refs s c) \<and>
     queues_apart s \<and> alloc_ok s"

text \<open>The modules of the protocol: releasing an instance returns and leaves contexts, registry and queues alone.\<close>

definition quiet_release :: "'x modules \<Rightarrow> bool" where
  "quiet_release M \<longleftrightarrow> (\<forall>n c s. \<exists>s'. md_release M n c s = Some s' \<and> sv_ctxs s' = sv_ctxs s \<and> sv_next s' = sv_next s \<and>
     sv_handles s' = sv_handles s \<and> sv_mq s' = sv_mq s \<and> sv_next_mq s' = sv_next_mq s \<and> sv_total s' = sv_total s \<and>
     sv_HARBOR s' = sv_HARBOR s)"

lemma server_invD:
  assumes "server_inv refs held s"
  shows "registry_wf (hof s, sv_handles s)" "\<exists>xs. sched_inv (sv_mq s) held xs" "ctx_ok refs s c" "queues_apart s" "alloc_ok s"
  using assms by (auto simp: server_inv_def)

lemma hof_upd: "hof (s\<lparr>sv_ctxs := (sv_ctxs s)(c \<mapsto> x)\<rparr>) = (hof s)(c := cx_handle x)"
  by (auto simp: hof_def fun_eq_iff)

lemma hof_cong: "sv_ctxs s' = sv_ctxs s \<Longrightarrow> hof s' = hof s"
  by (simp add: hof_def fun_eq_iff)

text \<open>Changing the fields of a context that the registry and the queues do not look at.\<close>

lemma server_inv_ctx:
  assumes "server_inv refs held s" "sv_ctxs s c = Some x" "cx_handle x' = cx_handle x" "cx_queue x' = cx_queue x"
    "cx_ref x' = int (refs' c) + (if c \<in> registered_ctxs s then 1 else 0)" "0 < cx_ref x'" "\<And>d. d \<noteq> c \<Longrightarrow> refs' d = refs d"
  shows "server_inv refs' held (s\<lparr>sv_ctxs := (sv_ctxs s)(c \<mapsto> x')\<rparr>)"
proof -
  let ?s = "s\<lparr>sv_ctxs := (sv_ctxs s)(c \<mapsto> x')\<rparr>"
  have h: "hof ?s = hof s" using assms(2,3) by (auto simp: hof_def fun_eq_iff)
  have "ctx_ok refs' ?s d" for d
    using server_invD(3) [OF assms(1), of d] assms(2,4-7) by (cases "d = c"; cases "sv_ctxs s d") (auto simp: ctx_ok_def registered_ctxs_def)
  moreover have "queues_apart ?s" using server_invD(4) [OF assms(1)] assms(2,4) unfolding queues_apart_def
    by (auto split: if_splits)
  moreover have "alloc_ok ?s" using server_invD(5) [OF assms(1)] assms(2) by (auto simp: alloc_ok_def)
  ultimately show ?thesis using assms(1) h by (simp add: server_inv_def)
qed

lemma ctx_live:
  assumes "server_inv refs held s" "0 < refs c \<or> c \<in> registered_ctxs s"
  shows "\<exists>x. sv_ctxs s c = Some x \<and> cx_ref x = int (refs c) + (if c \<in> registered_ctxs s then 1 else 0) \<and> mq_live (sv_mq s) (cx_queue x)"
  using server_invD(3) [OF assms(1), of c] assms(2) by (cases "sv_ctxs s c") (auto simp: ctx_ok_def)

lemma lookup_registered:
  assumes "server_inv refs held s"
  shows "handle_lookup (hof s) (sv_handles s) h = Some c \<longleftrightarrow> c \<in> registered_ctxs s \<and> hof s c = h"
  using server_invD(1) [OF assms] handle_lookup_iff [of "hof s" "sv_handles s" h c]
  by (simp add: registry_wf_def registered_ctxs_def)

subsection \<open>Grabbing and releasing\<close>

lemma context_grab_inv:
  assumes "server_inv refs held s" "0 < refs c \<or> c \<in> registered_ctxs s"
  shows "\<exists>x. sv_ctxs s c = Some x \<and>
    skynet_context_grab c s = Some (s\<lparr>sv_ctxs := (sv_ctxs s)(c \<mapsto> x\<lparr>cx_ref := cx_ref x + 1\<rparr>)\<rparr>) \<and>
    server_inv (refs(c := Suc (refs c))) held (s\<lparr>sv_ctxs := (sv_ctxs s)(c \<mapsto> x\<lparr>cx_ref := cx_ref x + 1\<rparr>)\<rparr>)"
proof -
  from ctx_live [OF assms] obtain x where
    x: "sv_ctxs s c = Some x" "cx_ref x = int (refs c) + (if c \<in> registered_ctxs s then 1 else 0)" by blast
  have "server_inv (refs(c := Suc (refs c))) held (s\<lparr>sv_ctxs := (sv_ctxs s)(c \<mapsto> x\<lparr>cx_ref := cx_ref x + 1\<rparr>)\<rparr>)"
    by (rule server_inv_ctx [OF assms(1) x(1)]) (use x(2) in auto)
  with x(1) show ?thesis by (simp add: skynet_context_grab_def upd_ctx_def)
qed

lemma handle_grab_inv:
  assumes "server_inv refs held s"
  shows "case handle_lookup (hof s) (sv_handles s) h of
      None \<Rightarrow> skynet_handle_grab h s = Some (None, s)
    | Some c \<Rightarrow> \<exists>x. sv_ctxs s c = Some x \<and> cx_handle x = h \<and>
        skynet_handle_grab h s = Some (Some c, s\<lparr>sv_ctxs := (sv_ctxs s)(c \<mapsto> x\<lparr>cx_ref := cx_ref x + 1\<rparr>)\<rparr>) \<and>
        server_inv (refs(c := Suc (refs c))) held (s\<lparr>sv_ctxs := (sv_ctxs s)(c \<mapsto> x\<lparr>cx_ref := cx_ref x + 1\<rparr>)\<rparr>)"
proof (cases "handle_lookup (hof s) (sv_handles s) h")
  case None
  then show ?thesis by (simp add: skynet_handle_grab_def)
next
  case (Some c)
  then have c: "c \<in> registered_ctxs s" "hof s c = h" using lookup_registered [OF assms] by auto
  with context_grab_inv [OF assms, of c] Some show ?thesis by (auto simp: skynet_handle_grab_def hof_def)
qed

text \<open>Removing a reference: the context stays, or it was the last one and the context is deleted.\<close>

lemma delete_context_inv:
  assumes "server_inv refs held s0" "quiet_release M" "sv_ctxs s0 c = Some x" "refs c = 1" "c \<notin> registered_ctxs s0"
  defines "s \<equiv> s0\<lparr>sv_ctxs := (sv_ctxs s0)(c \<mapsto> x\<lparr>cx_ref := cx_ref x - 1\<rparr>)\<rparr>"
  shows "\<exists>s'. delete_context M c s = Some s' \<and> server_inv (refs(c := 0)) held s' \<and> sv_ctxs s' = (sv_ctxs s0)(c := None) \<and>
    sv_handles s' = sv_handles s0 \<and> sv_total s' = sv_total s0 - 1 \<and> sv_HARBOR s' = sv_HARBOR s0"
proof -
  let ?l = "if cx_logfile x then log_act (cx_handle x) LogClose s else s"
  from assms(2) obtain s1 where s1: "md_release M (cx_mod x) c ?l = Some s1" "sv_ctxs s1 = sv_ctxs ?l" "sv_next s1 = sv_next ?l"
    "sv_handles s1 = sv_handles ?l" "sv_mq s1 = sv_mq ?l" "sv_next_mq s1 = sv_next_mq ?l" "sv_total s1 = sv_total ?l" "sv_HARBOR s1 = sv_HARBOR ?l" unfolding quiet_release_def by blast
  have l: "sv_ctxs ?l = sv_ctxs s" "sv_next ?l = sv_next s" "sv_handles ?l = sv_handles s" "sv_mq ?l = sv_mq s"
    "sv_next_mq ?l = sv_next_mq s" "sv_total ?l = sv_total s" "sv_HARBOR ?l = sv_HARBOR s" by (simp_all add: log_act_def)
  from server_invD(3) [OF assms(1), of c] assms(3) obtain q where
    q: "mqs (sv_mq s0) (cx_queue x) = Some q" "mq_release q = 0" by (auto simp: ctx_ok_def mq_live_def)
  from server_invD(2) [OF assms(1)] obtain xs where xs: "sched_inv (sv_mq s0) held xs" by blast
  from sched_retire [OF xs q] obtain mq ys where
    mq: "skynet_mq_mark_release (cx_queue x) (sv_mq s0) = Some mq" "sched_inv mq held ys" by blast
  let ?s = "context_dec (s1\<lparr>sv_mq := mq, sv_ctxs := (sv_ctxs s1)(c := None)\<rparr>)"
  have del: "delete_context M c s = Some ?s"
    using s1 l mq(1) by (cases "cx_logfile x") (simp_all add: delete_context_def s_def)
  have f: "sv_ctxs ?s = (sv_ctxs s0)(c := None)" "sv_handles ?s = sv_handles s0" "sv_mq ?s = mq"
    "sv_next ?s = sv_next s0" "sv_next_mq ?s = sv_next_mq s0" "sv_total ?s = sv_total s0 - 1" "sv_HARBOR ?s = sv_HARBOR s0"
    using s1 l by (auto simp: context_dec_def s_def)
  have ok: "ctx_ok (refs(c := 0)) ?s d" for d
  proof (cases "d = c")
    case True
    then show ?thesis using f assms(5) by (simp add: ctx_ok_def registered_ctxs_def)
  next
    case False
    have "mq_live mq (cx_queue y) = mq_live (sv_mq s0) (cx_queue y)" if "sv_ctxs s0 d = Some y" for y
      using that server_invD(4) [OF assms(1)] assms(3) False mark_release_frame(1) [OF mq(1)] core_same(1)
      unfolding queues_apart_def by metis
    with server_invD(3) [OF assms(1), of d] False f show ?thesis
      by (cases "sv_ctxs s0 d") (simp_all add: ctx_ok_def registered_ctxs_def)
  qed
  have "registry_wf (hof ?s, sv_handles ?s)"
  proof -
    have "hof ?s = (hof s0)(c := 0)" using f(1) by (auto simp: hof_def fun_eq_iff)
    with server_invD(1) [OF assms(1)] slots_wf_other [of "hof s0" "sv_handles s0" c 0] assms(5) f(2) show ?thesis
      by (simp add: registry_wf_def registered_ctxs_def)
  qed
  moreover have "queues_apart ?s" using server_invD(4) [OF assms(1)] f(1) unfolding queues_apart_def by auto
  moreover have "alloc_ok ?s" using server_invD(5) [OF assms(1)] f mark_release_frame(2) [OF mq(1)] by (auto simp: alloc_ok_def)
  ultimately have "server_inv (refs(c := 0)) held ?s" using mq(2) ok f(3) unfolding server_inv_def by auto
  with del f show ?thesis by blast
qed

lemma context_release_inv:
  assumes "server_inv refs held s" "quiet_release M" "0 < refs c"
  shows "\<exists>x r s'. sv_ctxs s c = Some x \<and> skynet_context_release M c s = Some (r, s') \<and>
    server_inv (refs(c := refs c - 1)) held s' \<and> sv_handles s' = sv_handles s \<and>
    (if refs c = 1 \<and> c \<notin> registered_ctxs s then r = None \<and> sv_ctxs s' = (sv_ctxs s)(c := None) \<and> sv_total s' = sv_total s - 1 \<and> sv_HARBOR s' = sv_HARBOR s
     else r = Some c \<and> s' = s\<lparr>sv_ctxs := (sv_ctxs s)(c \<mapsto> x\<lparr>cx_ref := cx_ref x - 1\<rparr>)\<rparr>)"
proof -
  from ctx_live [OF assms(1)] assms(3) obtain x where
    x: "sv_ctxs s c = Some x" "cx_ref x = int (refs c) + (if c \<in> registered_ctxs s then 1 else 0)" by blast
  let ?s = "s\<lparr>sv_ctxs := (sv_ctxs s)(c \<mapsto> x\<lparr>cx_ref := cx_ref x - 1\<rparr>)\<rparr>"
  show ?thesis
  proof (cases "refs c = 1 \<and> c \<notin> registered_ctxs s")
    case True
    with delete_context_inv [OF assms(1,2) x(1)] obtain s' where
      s': "delete_context M c ?s = Some s'" "server_inv (refs(c := 0)) held s'" "sv_ctxs s' = (sv_ctxs s)(c := None)"
      "sv_handles s' = sv_handles s" "sv_total s' = sv_total s - 1" "sv_HARBOR s' = sv_HARBOR s" by blast
    have "skynet_context_release M c s = Some (None, s')"
      using True x s'(1) by (simp add: skynet_context_release_def upd_ctx_def)
    with s' x(1) True show ?thesis by (intro exI [of _ x] exI [of _ None] exI [of _ s']) simp
  next
    case False
    then have pos: "0 < cx_ref x - 1" using x(2) assms(3) by auto
    have "server_inv (refs(c := refs c - 1)) held ?s"
      by (rule server_inv_ctx [OF assms(1) x(1)]) (use x(2) pos assms(3) in auto)
    moreover have "skynet_context_release M c s = Some (Some c, ?s)"
      using x(1) pos by (simp add: skynet_context_release_def upd_ctx_def)
    ultimately show ?thesis using x(1) False by (intro exI [of _ x] exI [of _ "Some c"] exI [of _ ?s]) simp
  qed
qed

text \<open>Retiring a handle moves the registry's reference to the retiring thread, which then releases it.\<close>

lemma retire_inv:
  assumes "server_inv refs held s" "handle_retire (hof s) h (sv_handles s) = Some (ret, Some c, hs)"
  shows "server_inv (refs(c := Suc (refs c))) held (s\<lparr>sv_handles := hs\<rparr>)" "hs_contexts hs = registered_ctxs s - {c}"
    "handle_lookup (hof s) (sv_handles s) h = Some c"
proof -
  have wf: "slots_wf (hof s) (sv_handles s)" "names_wf (sv_handles s)"
    using server_invD(1) [OF assms(1)] by (simp_all add: registry_wf_def)
  from retire_result [OF wf, of h] assms(2) have
    r: "handle_lookup (hof s) (sv_handles s) h = Some c" "slots_wf (hof s) hs" "names_wf hs"
      "hs_contexts hs = hs_contexts (sv_handles s) - {c}"
    by (cases "handle_lookup (hof s) (sv_handles s) h"; auto)+
  then show "handle_lookup (hof s) (sv_handles s) h = Some c" "hs_contexts hs = registered_ctxs s - {c}"
    by (simp_all add: registered_ctxs_def)
  let ?s = "s\<lparr>sv_handles := hs\<rparr>"
  have c: "c \<in> hs_contexts (sv_handles s)" using handle_lookup_iff [OF wf(1)] r(1) by auto
  have "ctx_ok (refs(c := Suc (refs c))) ?s d" for d
    using server_invD(3) [OF assms(1), of d] c r(4)
    by (cases "d = c"; cases "sv_ctxs s d") (auto simp: ctx_ok_def registered_ctxs_def)
  moreover have "hof ?s = hof s" by (rule hof_cong) simp
  moreover have "queues_apart ?s" "alloc_ok ?s"
    using server_invD(4,5) [OF assms(1)] by (simp_all add: queues_apart_def alloc_ok_def)
  ultimately show "server_inv (refs(c := Suc (refs c))) held ?s"
    using server_invD(2) [OF assms(1)] r(2,3) by (simp add: server_inv_def registry_wf_def)
qed

subsection \<open>Creating a context, and the queue operations\<close>

lemma context_alloc_inv:
  assumes "server_inv refs held s" "card (registered_ctxs s) < 2 ^ 24"
  shows "\<exists>h s' x. context_alloc name s = Some (sv_next s, sv_next_mq s, s') \<and>
    server_inv (refs(sv_next s := 1)) (insert (sv_next_mq s) held) s' \<and>
    sv_ctxs s' (sv_next s) = Some x \<and> cx_handle x = h \<and> cx_queue x = sv_next_mq s \<and>
    handle_lookup (hof s) (sv_handles s) h = None \<and>
    handle_lookup (hof s') (sv_handles s') = (handle_lookup (hof s) (sv_handles s))(h \<mapsto> sv_next s)"
proof -
  let ?c = "sv_next s" let ?q = "sv_next_mq s"
  note D = server_invD [OF assms(1)]
  have none: "sv_ctxs s ?c = None" "mqs (sv_mq s) ?q = None" using D(5) by (simp_all add: alloc_ok_def)
  then have fresh: "?c \<notin> hs_contexts (sv_handles s)" "refs ?c = 0"
    using D(3) [of ?c] by (simp_all add: ctx_ok_def registered_ctxs_def)
  from register_context_result [OF D(1) fresh(1)] assms(2) obtain h hs where
    r: "register_context ?c (hof s, sv_handles s) = Some (h, ((hof s)(?c := h), hs))"
    "registry_wf ((hof s)(?c := h), hs)" "handle_lookup (hof s) (sv_handles s) h = None"
    "handle_lookup ((hof s)(?c := h)) hs = (handle_lookup (hof s) (sv_handles s))(h \<mapsto> ?c)"
    by (auto simp: registered_ctxs_def)
  from r(1) have reg: "skynet_handle_register ((hof s)(?c := 0)) ?c (sv_handles s) = Some (h, hs)"
    by (auto simp: register_context_def split: bind_splits)
  have "ran (handle_lookup ((hof s)(?c := h)) hs) = insert ?c (ran (handle_lookup (hof s) (sv_handles s)))"
    using r(3,4) by simp
  then have ctxs: "hs_contexts hs = insert ?c (hs_contexts (sv_handles s))"
    using r(2) D(1) contexts_ran [of "(hof s)(?c := h)" hs] contexts_ran [of "hof s" "sv_handles s"] by (simp add: registry_wf_def)
  let ?x = "(blank_context name (sv_profile s))\<lparr>cx_handle := h, cx_queue := ?q\<rparr>"
  let ?s = "context_inc (s\<lparr>sv_next := Suc ?c, sv_ctxs := (sv_ctxs s)(?c \<mapsto> ?x), sv_handles := hs,
     sv_next_mq := Suc ?q, sv_mq := put_mq ?q (skynet_mq_create h) (sv_mq s)\<rparr>)"
  have hof0: "hof (s\<lparr>sv_next := n, sv_ctxs := (sv_ctxs s)(?c \<mapsto> y)\<rparr>) = (hof s)(?c := cx_handle y)" for n y
    by (auto simp: hof_def fun_eq_iff)
  have alloc: "context_alloc name s = Some (?c, ?q, ?s)"
    using reg by (simp add: context_alloc_def Let_def hof0 upd_ctx_def blank_context_def context_inc_def)
  have f: "sv_ctxs ?s = (sv_ctxs s)(?c \<mapsto> ?x)" "sv_handles ?s = hs" "sv_mq ?s = put_mq ?q (skynet_mq_create h) (sv_mq s)"
    "sv_next ?s = Suc ?c" "sv_next_mq ?s = Suc ?q" by (simp_all add: context_inc_def)
  have live: "mq_live (sv_mq ?s) i = (i = ?q \<or> mq_live (sv_mq s) i)" for i
    using none(2) by (auto simp: mq_live_def put_mq_def context_inc_def skynet_mq_create_def)
  have hs: "hof ?s = (hof s)(?c := h)" using f(1) by (auto simp: hof_def fun_eq_iff)
  have ok: "ctx_ok (refs(?c := 1)) ?s d" for d
    using D(3) [of d] f ctxs live fresh
    by (cases "d = ?c"; cases "sv_ctxs s d") (auto simp: ctx_ok_def registered_ctxs_def blank_context_def)
  from D(2) obtain xs where xs: "sched_inv (sv_mq s) held xs" by blast
  from sched_create [OF xs none(2)] have "sched_inv (sv_mq ?s) (insert ?q held) xs" using f(3) by simp
  moreover have "queues_apart ?s"
  proof -
    have "cx_queue y \<noteq> ?q" if "sv_ctxs s d = Some y" for d y
      using D(3) [of d] that none(2) by (auto simp: ctx_ok_def mq_live_def)
    with D(4) show ?thesis unfolding queues_apart_def f(1) by (fastforce split: if_splits)
  qed
  moreover have "alloc_ok ?s" using D(5) f by (auto simp: alloc_ok_def put_mq_def)
  ultimately have "server_inv (refs(?c := 1)) (insert ?q held) ?s"
    using ok r(2) hs f(2) unfolding server_inv_def by auto
  moreover have "handle_lookup (hof ?s) (sv_handles ?s) = (handle_lookup (hof s) (sv_handles s))(h \<mapsto> ?c)"
    using r(4) hs f(2) by simp
  ultimately show ?thesis
    using alloc f(1) r(3) by (intro exI [of _ h] exI [of _ ?s] exI [of _ ?x]) simp
qed

lemma server_inv_mq:
  assumes "server_inv refs held s" "sched_inv mq held' xs" "\<And>i. mq_live (sv_mq s) i \<Longrightarrow> mq_live mq i"
    "\<And>i. mqs (sv_mq s) i = None \<Longrightarrow> mqs mq i = None"
  shows "server_inv refs held' (s\<lparr>sv_mq := mq\<rparr>)"
proof -
  let ?s = "s\<lparr>sv_mq := mq\<rparr>"
  have "ctx_ok refs ?s d" for d
    using server_invD(3) [OF assms(1), of d] assms(3) by (cases "sv_ctxs s d") (auto simp: ctx_ok_def registered_ctxs_def)
  moreover have "hof ?s = hof s" by (rule hof_cong) simp
  moreover have "queues_apart ?s" "alloc_ok ?s"
    using server_invD(4,5) [OF assms(1)] assms(4) by (simp_all add: queues_apart_def alloc_ok_def)
  ultimately show ?thesis using server_invD(1) [OF assms(1)] assms(2) by (auto simp: server_inv_def)
qed

lemma mq_push_ctx_inv:
  assumes "server_inv refs held s" "0 < refs c \<or> c \<in> registered_ctxs s"
  shows "\<exists>x mq ms. sv_ctxs s c = Some x \<and> mq_push_ctx c m s = Some (s\<lparr>sv_mq := mq\<rparr>) \<and> server_inv refs held (s\<lparr>sv_mq := mq\<rparr>) \<and>
    mq_msgs (sv_mq s) (cx_queue x) = Some ms \<and> mq_msgs mq = (mq_msgs (sv_mq s))(cx_queue x \<mapsto> ms @ [m])"
proof -
  from ctx_live [OF assms] obtain x where x: "sv_ctxs s c = Some x" "mq_live (sv_mq s) (cx_queue x)" by blast
  then obtain q where q: "mqs (sv_mq s) (cx_queue x) = Some q" "mq_release q = 0" by (auto simp: mq_live_def)
  from server_invD(2) [OF assms(1)] obtain xs where xs: "sched_inv (sv_mq s) held xs" by blast
  from sched_send [OF xs q] obtain mq ys q' where
    mq: "skynet_mq_push (cx_queue x) m (sv_mq s) = Some mq" "sched_inv mq held ys" "mqs mq (cx_queue x) = Some q'"
    "mq_contents q' = mq_contents q @ [m]" by blast
  note fr = mq_push_frame [OF mq(1)]
  have "server_inv refs held (s\<lparr>sv_mq := mq\<rparr>)" using fr(1,2) by (intro server_inv_mq [OF assms(1) mq(2)]) auto
  moreover have "mq_msgs mq = (mq_msgs (sv_mq s))(cx_queue x \<mapsto> mq_contents q @ [m])"
    using fr(3) mq(3,4) by (auto simp: fun_eq_iff mq_msgs_def)
  ultimately show ?thesis using x(1) q(1) mq(1) by (auto simp: mq_push_ctx_def mq_msgs_def)
qed


lemma put_mq_live: "mq_live (put_mq i q st) j = (if j = i then mq_release q = 0 else mq_live st j)"
  by (simp add: mq_live_def put_mq_def)

lemma put_mq_inv:
  assumes "server_inv refs held s" "mqs (sv_mq s) i = Some q" "mq_release q' = mq_release q" "sched_inv (put_mq i q' (sv_mq s)) held' xs"
  shows "server_inv refs held' (s\<lparr>sv_mq := put_mq i q' (sv_mq s)\<rparr>)"
  using assms(2,3) by (intro server_inv_mq [OF assms(1,4)]) (auto simp: put_mq_live mq_live_def put_mq_def split: if_splits)

lemma globalmq_inv:
  assumes "server_inv refs held s" "mq_core mq = mq_core (sv_mq s)" "sched_inv mq held' xs"
  shows "server_inv refs held' (s\<lparr>sv_mq := mq\<rparr>)"
  using core_same [of mq _ "sv_mq s"] assms(2) by (intro server_inv_mq [OF assms(1,3)]) auto

text \<open>The steps that leave the count, the harbor, the registry's harbor and the handles of the contexts alone.\<close>

definition same_frame :: "'x server \<Rightarrow> 'x server \<Rightarrow> bool" where
  "same_frame s s' \<longleftrightarrow> sv_total s' = sv_total s \<and> sv_HARBOR s' = sv_HARBOR s \<and>
     hs_harbor (sv_handles s') = hs_harbor (sv_handles s) \<and>
     map_option cx_handle \<circ> sv_ctxs s' = map_option cx_handle \<circ> sv_ctxs s"

lemma take_inv:
  assumes "server_inv refs held s" "global_pop s = Some (Some i, s')"
  shows "server_inv refs (insert i held) s' \<and> same_frame s s'"
proof -
  from assms(2) obtain mq where mq: "skynet_globalmq_pop (sv_mq s) = Some (Some i, mq)" "s' = s\<lparr>sv_mq := mq\<rparr>"
    by (auto simp: global_pop_def split: bind_splits)
  from server_invD(2) [OF assms(1)] obtain xs where xs: "sched_inv (sv_mq s) held xs" by blast
  from sched_take [OF xs] mq(1) obtain ys where ys: "xs = i # ys" "sched_inv mq (insert i held) ys" by auto
  moreover have "mq_core mq = mq_core (sv_mq s)"
    using globalmq_pop_result [of "sv_mq s" i ys] xs ys(1) mq(1) by (auto simp: sched_inv_def)
  ultimately show ?thesis using globalmq_inv [OF assms(1)] mq(2) by (simp add: same_frame_def)
qed

lemma pop_queue_inv:
  assumes "server_inv refs held s" "i \<in> held" "mq_live (sv_mq s) i" "pop_queue i s = Some (r, s')"
  shows "server_inv refs (if r = None then held - {i} else held) s' \<and> same_frame s s'"
proof -
  from assms(3,4) obtain q q' where q: "mqs (sv_mq s) i = Some q" "mq_release q = 0" "skynet_mq_pop q = Some (r, q')"
    "s' = s\<lparr>sv_mq := put_mq i q' (sv_mq s)\<rparr>"
    by (auto simp: pop_queue_def mq_live_def split: bind_splits)
  from server_invD(2) [OF assms(1)] obtain xs where xs: "sched_inv (sv_mq s) held xs" by blast
  from sched_pop [OF xs assms(2) q(1,2)] q(3)
  have "sched_inv (put_mq i q' (sv_mq s)) (if r = None then held - {i} else held) xs" by auto
  with put_mq_inv [OF assms(1) q(1)] mq_pop_frame [OF q(3)] q(4) show ?thesis by (simp add: same_frame_def)
qed

lemma overload_queue_inv:
  assumes "server_inv refs held s" "overload_queue i s = Some (n, s')"
  shows "server_inv refs held s' \<and> same_frame s s'"
proof -
  from assms(2) obtain q where q: "mqs (sv_mq s) i = Some q" "s' = s\<lparr>sv_mq := put_mq i (snd (skynet_mq_overload q)) (sv_mq s)\<rparr>"
    by (auto simp: overload_queue_def split: bind_splits prod.splits)
  from server_invD(2) [OF assms(1)] obtain xs where xs: "sched_inv (sv_mq s) held xs" by blast
  from put_mq_inv [OF assms(1) q(1) _ sched_overload [OF xs q(1)]] q(2) show ?thesis by (simp add: skynet_mq_overload_def same_frame_def)
qed

lemma free_inv:
  assumes "server_inv refs held s" "i \<in> held" "mqs (sv_mq s) i = Some q" "mq_release q \<noteq> 0"
    "drop_queue (\<lambda>m w. Some w) i (sv_mq s, ()) = Some (mq, ())"
  shows "server_inv refs (held - {i}) (s\<lparr>sv_mq := mq\<rparr>)"
proof -
  from server_invD(2) [OF assms(1)] obtain xs where xs: "sched_inv (sv_mq s) held xs" by blast
  from sched_free [OF xs assms(2), of "()"] assms(5) have
    mq: "sched_inv mq (held - {i}) xs" "mq = (sv_mq s)\<lparr>mqs := (mqs (sv_mq s))(i := None)\<rparr>" by auto
  show ?thesis using assms(3,4) mq(2) by (intro server_inv_mq [OF assms(1) mq(1)]) (auto simp: mq_live_def)
qed

subsection \<open>Interleavings of the threads\<close>

text \<open>
  A state of the protocol is the server, the references that threads hold (by context) and the
  queues that threads hold. The steps are the operations of \<open>skynet_server.c\<close> at the grain of its
  atomic operations and locks: a thread creates a context (and then holds a reference and its queue),
  grabs a context by handle, duplicates or releases a reference it holds, takes a context out of the
  registry, sends through a reference, and takes, serves and gives back a queue.
\<close>

type_synonym 'x life = "'x server \<times> (ctxid \<Rightarrow> nat) \<times> mqid set"

inductive life_step :: "'x modules \<Rightarrow> 'x life \<Rightarrow> 'x life \<Rightarrow> bool" for M :: "'x modules" where
  new: "card (registered_ctxs s) < 2 ^ 24 \<Longrightarrow> context_alloc name s = Some (c, q, s') \<Longrightarrow>
    life_step M (s, refs, held) (s', refs(c := 1), insert q held)"
| grab: "skynet_handle_grab h s = Some (Some c, s') \<Longrightarrow> life_step M (s, refs, held) (s', refs(c := Suc (refs c)), held)"
| dup: "0 < refs c \<Longrightarrow> skynet_context_grab c s = Some s' \<Longrightarrow> life_step M (s, refs, held) (s', refs(c := Suc (refs c)), held)"
| release: "0 < refs c \<Longrightarrow> skynet_context_release M c s = Some (r, s') \<Longrightarrow>
    life_step M (s, refs, held) (s', refs(c := refs c - 1), held)"
| retire: "handle_retire (hof s) h (sv_handles s) = Some (ret, Some c, hs) \<Longrightarrow>
    life_step M (s, refs, held) (s\<lparr>sv_handles := hs\<rparr>, refs(c := Suc (refs c)), held)"
| send: "0 < refs c \<Longrightarrow> mq_push_ctx c m s = Some s' \<Longrightarrow> life_step M (s, refs, held) (s', refs, held)"
| give: "i \<in> held \<Longrightarrow> skynet_globalmq_push i (sv_mq s) = Some mq \<Longrightarrow>
    life_step M (s, refs, held) (s\<lparr>sv_mq := mq\<rparr>, refs, held - {i})"
| take: "global_pop s = Some (Some i, s') \<Longrightarrow> life_step M (s, refs, held) (s', refs, insert i held)"
| recv: "i \<in> held \<Longrightarrow> mq_live (sv_mq s) i \<Longrightarrow> pop_queue i s = Some (Some m, s') \<Longrightarrow>
    life_step M (s, refs, held) (s', refs, held)"
| idle: "i \<in> held \<Longrightarrow> mq_live (sv_mq s) i \<Longrightarrow> pop_queue i s = Some (None, s') \<Longrightarrow>
    life_step M (s, refs, held) (s', refs, held - {i})"
| overload: "i \<in> held \<Longrightarrow> overload_queue i s = Some (n, s') \<Longrightarrow> life_step M (s, refs, held) (s', refs, held)"
| free: "i \<in> held \<Longrightarrow> mqs (sv_mq s) i = Some q \<Longrightarrow> mq_release q \<noteq> 0 \<Longrightarrow>
    drop_queue (\<lambda>m w. Some w) i (sv_mq s, ()) = Some (mq, ()) \<Longrightarrow>
    life_step M (s, refs, held) (s\<lparr>sv_mq := mq\<rparr>, refs, held - {i})"

inductive life_reach :: "'x modules \<Rightarrow> 'x life \<Rightarrow> bool" for M :: "'x modules" where
  start: "life_reach M (server_init x harbor profile T, \<lambda>_. 0, {})"
| step: "life_reach M a \<Longrightarrow> life_step M a b \<Longrightarrow> life_reach M b"

text \<open>The count of the node is the number of contexts, and every handle carries the node's harbor.\<close>

definition node_ok :: "'x server \<Rightarrow> bool" where
  "node_ok s \<longleftrightarrow> sv_total s = int (card (dom (sv_ctxs s))) \<and> sv_HARBOR s = hs_harbor (sv_handles s) \<and>
     (\<forall>c x. sv_ctxs s c = Some x \<longrightarrow> cx_handle x AND NOT HANDLE_MASK = sv_HARBOR s)"

definition life_inv :: "'x life \<Rightarrow> bool" where
  "life_inv a \<longleftrightarrow> (case a of (s, refs, held) \<Rightarrow> server_inv refs held s \<and> node_ok s)"

lemma node_ok_frame: "node_ok s \<Longrightarrow> same_frame s s' \<Longrightarrow> node_ok s'"
proof -
  assume n: "node_ok s" and f: "same_frame s s'"
  then have h: "map_option cx_handle (sv_ctxs s' c) = map_option cx_handle (sv_ctxs s c)" for c
    by (auto simp: same_frame_def fun_eq_iff)
  then have "dom (sv_ctxs s') = dom (sv_ctxs s)" by (auto simp: dom_def) (metis map_option_is_None option.exhaust)+
  moreover have "cx_handle x AND NOT HANDLE_MASK = sv_HARBOR s" if "sv_ctxs s' c = Some x" for c x
    using n h [of c] that by (cases "sv_ctxs s c") (auto simp: node_ok_def)
  ultimately show ?thesis using n f by (simp add: node_ok_def same_frame_def)
qed

lemma ctx_frame:
  "sv_ctxs s c = Some x \<Longrightarrow> cx_handle y = cx_handle x \<Longrightarrow> same_frame s (s\<lparr>sv_ctxs := (sv_ctxs s)(c \<mapsto> y)\<rparr>)"
  by (auto simp: same_frame_def fun_eq_iff)

lemma node_ok_ctx:
  "node_ok s \<Longrightarrow> sv_ctxs s c = Some x \<Longrightarrow> cx_handle y = cx_handle x \<Longrightarrow> node_ok (s\<lparr>sv_ctxs := (sv_ctxs s)(c \<mapsto> y)\<rparr>)"
  by (rule node_ok_frame [OF _ ctx_frame])

lemma mq_frame: "same_frame s (s\<lparr>sv_mq := mq\<rparr>)"
  by (simp add: same_frame_def)

lemma ctxs_finite: "server_inv refs held s \<Longrightarrow> finite (dom (sv_ctxs s))"
proof -
  assume "server_inv refs held s"
  then have "dom (sv_ctxs s) \<subseteq> {..< sv_next s}"
    by (fastforce simp: server_inv_def alloc_ok_def not_le [symmetric])
  then show ?thesis by (rule finite_subset) simp
qed

lemma delete_node:
  assumes "server_inv refs held s" "node_ok s" "sv_ctxs s c = Some x" "sv_ctxs s' = (sv_ctxs s)(c := None)"
    "sv_total s' = sv_total s - 1" "sv_HARBOR s' = sv_HARBOR s" "sv_handles s' = sv_handles s"
  shows "node_ok s'"
proof -
  have "dom (sv_ctxs s') = dom (sv_ctxs s) - {c}" "c \<in> dom (sv_ctxs s)" using assms(3,4) by auto
  with card.remove [OF ctxs_finite [OF assms(1)] this(2)] have "card (dom (sv_ctxs s)) = Suc (card (dom (sv_ctxs s')))"
    by (simp only:)
  with assms show ?thesis by (auto simp: node_ok_def split: if_splits)
qed

text \<open>Registering keeps the harbor of the registry, which the new handle carries.\<close>

lemma harbor_bits:
  fixes b :: u32
  assumes "b AND HANDLE_MASK = 0"
  shows "(p AND HANDLE_MASK OR b) AND NOT HANDLE_MASK = b"
proof (rule bit_word_eqI)
  fix n
  have "\<not> bit (b AND HANDLE_MASK) n" using assms by simp
  then show "bit ((p AND HANDLE_MASK OR b) AND NOT HANDLE_MASK) n = bit b n" if "n < LENGTH(32)" using that
    by (auto simp: bit_simps)
qed

lemma register_harbor:
  assumes "skynet_handle_register f c hs = Some (h, hs')" "hs_harbor hs AND HANDLE_MASK = 0"
  shows "hs_harbor hs' = hs_harbor hs \<and> h AND NOT HANDLE_MASK = hs_harbor hs"
proof -
  let ?P = "\<lambda>(f :: 'a \<Rightarrow> u32) (c :: 'a) hs (y :: u32 \<times> 'a handle_storage). hs_harbor hs AND HANDLE_MASK = 0 \<longrightarrow>
    hs_harbor (snd y) = hs_harbor hs \<and> fst y AND NOT HANDLE_MASK = hs_harbor hs"
  have "?P f c hs (h, hs')"
  proof (rule skynet_handle_register.raw_induct [of ?P, OF _ assms(1)])
    fix reg :: "('a \<Rightarrow> u32) \<Rightarrow> 'a \<Rightarrow> 'a handle_storage \<Rightarrow> (u32 \<times> 'a handle_storage) option" and f c hs y
    assume IH: "\<And>f c hs y. reg f c hs = Some y \<Longrightarrow> ?P f c hs y"
      and step: "(case find_free hs of
        Some i \<Rightarrow> let handle = probe_handle hs i; hash = slot_hash (hs_slot_size hs) handle
           in Some (handle OR hs_harbor hs, hs\<lparr>hs_slot := (hs_slot hs)[hash := Some c], hs_index := handle + 1\<rparr>)
      | None \<Rightarrow> do { s' \<leftarrow> grow_slots f hs; reg f c s' }) = Some y"
    show "?P f c hs y"
    proof (cases "find_free hs")
      case None
      then obtain hs1 where g: "grow_slots f hs = Some hs1" "reg f c hs1 = Some y" using step by (auto split: bind_splits)
      then have "hs_harbor hs1 = hs_harbor hs" by (auto simp: grow_slots_def split: bind_splits)
      with IH [OF g(2)] show ?thesis by simp
    next
      case (Some i)
      then show ?thesis using step harbor_bits [of "hs_harbor hs"] by (auto simp: Let_def probe_handle_def)
    qed
  qed
  with assms(2) show ?thesis by simp
qed

lemma context_alloc_node:
  assumes "context_alloc name s = Some (c, q, s')" "server_inv refs held s" "node_ok s"
  shows "node_ok s'"
proof -
  let ?f = "hof (s\<lparr>sv_next := Suc (sv_next s), sv_ctxs := (sv_ctxs s)(sv_next s \<mapsto> blank_context name (sv_profile s))\<rparr>)"
  from assms(1) obtain h hs where r: "skynet_handle_register ?f (sv_next s) (sv_handles s) = Some (h, hs)"
    "sv_handles s' = hs" "sv_HARBOR s' = sv_HARBOR s" "sv_total s' = sv_total s + 1"
    "sv_ctxs s' = (sv_ctxs s)(sv_next s \<mapsto> (blank_context name (sv_profile s))\<lparr>cx_handle := h, cx_queue := sv_next_mq s\<rparr>)"
    by (auto simp: context_alloc_def Let_def upd_ctx_def context_inc_def split: bind_splits)
  have "hs_harbor (sv_handles s) AND HANDLE_MASK = 0"
    using server_invD(1) [OF assms(2)] by (simp add: registry_wf_def slots_wf_def)
  note h = register_harbor [OF r(1) this]
  have "sv_ctxs s (sv_next s) = None" using server_invD(5) [OF assms(2)] by (simp add: alloc_ok_def)
  then have "sv_next s \<notin> dom (sv_ctxs s)" by auto
  then show ?thesis using r h assms(3) ctxs_finite [OF assms(2)] by (auto simp: node_ok_def)
qed

lemma retire_harbor: "handle_retire f h hs = Some (ret, r, hs') \<Longrightarrow> hs_harbor hs' = hs_harbor hs"
  by (auto simp: handle_retire_def Let_def split: bind_splits option.splits if_splits)

lemma life_step_inv:
  assumes "quiet_release M" "life_step M a b" "life_inv a"
  shows "life_inv b"
  using assms(2,3)
proof (induction rule: life_step.induct)
  case (new s name c q s' refs held)
  then show ?case using context_alloc_inv [of refs held s name] context_alloc_node [of name s c q s'] by (auto simp: life_inv_def)
next
  case (grab h s c s' refs held)
  then have inv: "server_inv refs held s" "node_ok s" by (simp_all add: life_inv_def)
  with handle_grab_inv [OF inv(1), of h] grab(1) show ?case
    by (auto simp: life_inv_def split: option.splits intro!: node_ok_ctx)
next
  case (dup refs c s s' held)
  then have inv: "server_inv refs held s" "node_ok s" by (simp_all add: life_inv_def)
  with context_grab_inv [OF inv(1), of c] dup(1,2) show ?case
    by (auto simp: life_inv_def intro!: node_ok_ctx)
next
  case (release refs c s r s' held)
  then have inv: "server_inv refs held s" "node_ok s" by (simp_all add: life_inv_def)
  from context_release_inv [OF inv(1) assms(1) release(1)] release(2) delete_node [OF inv, of c _ s'] show ?case
    by (auto simp: life_inv_def split: if_splits intro!: node_ok_ctx [OF inv(2)])
next
  case (retire s h ret c hs refs held)
  then have inv: "server_inv refs held s" "node_ok s" by (simp_all add: life_inv_def)
  have "same_frame s (s\<lparr>sv_handles := hs\<rparr>)" using retire_harbor [OF retire(1)] by (simp add: same_frame_def)
  with retire_inv(1) [OF inv(1) retire(1)] node_ok_frame [OF inv(2)] show ?case by (simp add: life_inv_def)
next
  case (send refs c m s s' held)
  then show ?case using mq_push_ctx_inv [of refs held s c m] by (auto simp: life_inv_def intro: node_ok_frame mq_frame)
next
  case (give i held s mq refs)
  then have inv: "server_inv refs held s" "node_ok s" by (simp_all add: life_inv_def)
  from server_invD(2) [OF inv(1)] sched_give [OF _ give(1)] give(2) obtain xs where "sched_inv mq (held - {i}) xs" by fastforce
  from globalmq_inv [OF inv(1) globalmq_push_frame [OF give(2)] this] inv(2) show ?case
    by (auto simp: life_inv_def intro: node_ok_frame mq_frame)
next
  case (take s i s' refs held)
  then show ?case using take_inv [of refs held s i s'] by (auto simp: life_inv_def intro: node_ok_frame)
next
  case (recv i held s m s' refs)
  then show ?case using pop_queue_inv [of refs held s i "Some m" s'] by (auto simp: life_inv_def intro: node_ok_frame)
next
  case (idle i held s s' refs)
  then show ?case using pop_queue_inv [of refs held s i None s'] by (auto simp: life_inv_def intro: node_ok_frame)
next
  case (overload i held s n s' refs)
  then show ?case using overload_queue_inv [of refs held s i n s'] by (auto simp: life_inv_def intro: node_ok_frame)
next
  case (free i held s q mq refs)
  then show ?case using free_inv [of refs held s i q mq] by (auto simp: life_inv_def intro: node_ok_frame mq_frame)
qed

lemma server_init_fields [simp]:
  "sv_ctxs (server_init x harbor profile T) = (\<lambda>_. None)" "sv_handles (server_init x harbor profile T) = skynet_handle_init harbor"
  "sv_mq (server_init x harbor profile T) = skynet_mq_init" "sv_total (server_init x harbor profile T) = 0"
  "sv_next (server_init x harbor profile T) = 0" "sv_next_mq (server_init x harbor profile T) = 0"
  "sv_HARBOR (server_init x harbor profile T) = push_bit HANDLE_REMOTE_SHIFT (word_of_int harbor)"
  by (simp_all add: server_init_def skynet_profile_enable_def skynet_harbor_init_def skynet_globalinit_def skynet_initthread_def)

lemma init_harbor: "push_bit HANDLE_REMOTE_SHIFT (word_of_int harbor) = hs_harbor (skynet_handle_init harbor)"
proof -
  have ff: "(0xff :: u32) = mask 8" by (simp add: mask_eq_exp_minus_1)
  have "push_bit 24 (word_of_int harbor) = push_bit 24 (word_of_int harbor AND (mask 8 :: u32))"
    by (rule bit_word_eqI) (auto simp: bit_simps)
  then show ?thesis by (simp only: skynet_handle_init_def handle_storage.select_convs HANDLE_REMOTE_SHIFT_def ff)
qed

lemma life_init: "life_inv (server_init x harbor profile T, \<lambda>_. 0, {})"
proof -
  let ?s = "server_init x harbor profile T"
  have "registry_wf (hof ?s, sv_handles ?s)" by (simp add: init_registry_wf)
  moreover have "registered_ctxs ?s = {}" by (simp add: registered_ctxs_def init_contexts)
  moreover have "\<exists>xs. sched_inv (sv_mq ?s) {} xs" using sched_init by auto
  moreover have "mqs (sv_mq ?s) = (\<lambda>_. None)" by (simp add: skynet_mq_init_def)
  ultimately show ?thesis
    by (simp add: life_inv_def server_inv_def ctx_ok_def queues_apart_def alloc_ok_def node_ok_def init_harbor)
qed

lemma life_reach_inv:
  assumes "quiet_release M" "life_reach M a"
  shows "life_inv a"
  using assms(2) by (induction rule: life_reach.induct) (auto intro: life_init life_step_inv [OF assms(1)])

subsection \<open>Sending\<close>

lemma context_push_result:
  assumes "server_inv refs held s" "quiet_release M" "handle_lookup (hof s) (sv_handles s) h = Some d"
  shows "\<exists>x mq ms. sv_ctxs s d = Some x \<and> cx_handle x = h \<and> skynet_context_push M h m s = Some (0, s\<lparr>sv_mq := mq\<rparr>) \<and>
    server_inv refs held (s\<lparr>sv_mq := mq\<rparr>) \<and>
    mq_msgs (sv_mq s) (cx_queue x) = Some ms \<and> mq_msgs mq = (mq_msgs (sv_mq s))(cx_queue x \<mapsto> ms @ [m])"
proof -
  from lookup_registered [OF assms(1)] assms(3) have reg: "d \<in> registered_ctxs s" by simp
  from handle_grab_inv [OF assms(1), of h] assms(3) obtain x where
    x: "sv_ctxs s d = Some x" "cx_handle x = h" by auto
  let ?x = "x\<lparr>cx_ref := cx_ref x + 1\<rparr>" let ?s = "s\<lparr>sv_ctxs := (sv_ctxs s)(d \<mapsto> ?x)\<rparr>" let ?refs = "refs(d := Suc (refs d))"
  from handle_grab_inv [OF assms(1), of h] assms(3) x have
    g: "skynet_handle_grab h s = Some (Some d, ?s)" "server_inv ?refs held ?s" by auto
  have "0 < ?refs d \<or> d \<in> registered_ctxs ?s" by simp
  from mq_push_ctx_inv [OF g(2) this, of m] obtain y mq ms where y: "sv_ctxs ?s d = Some y" and
    p: "mq_push_ctx d m ?s = Some (?s\<lparr>sv_mq := mq\<rparr>)" "server_inv ?refs held (?s\<lparr>sv_mq := mq\<rparr>)"
    "mq_msgs (sv_mq ?s) (cx_queue y) = Some ms" "mq_msgs mq = (mq_msgs (sv_mq ?s))(cx_queue y \<mapsto> ms @ [m])" by blast
  from y have y': "cx_queue y = cx_queue x" by auto
  have "(sv_ctxs s)(d \<mapsto> x) = sv_ctxs s" using x(1) by auto
  then have same: "?s\<lparr>sv_mq := mq, sv_ctxs := (sv_ctxs s)(d \<mapsto> x)\<rparr> = s\<lparr>sv_mq := mq\<rparr>" by simp
  from context_release_inv [OF p(2) assms(2), of d] reg same
  have "skynet_context_release M d (?s\<lparr>sv_mq := mq\<rparr>) = Some (Some d, s\<lparr>sv_mq := mq\<rparr>)" "server_inv refs held (s\<lparr>sv_mq := mq\<rparr>)"
    by (auto simp: registered_ctxs_def)
  with g(1) p(1,3,4) x y' show ?thesis by (auto simp: skynet_context_push_def)
qed

lemma context_push_gone:
  "handle_lookup (hof s) (sv_handles s) h = None \<Longrightarrow> skynet_context_push M h m s = Some (- 1, s)"
  by (simp add: skynet_context_push_def skynet_handle_grab_def)

text \<open>The harbor test of the node's own handles.\<close>

lemma local_handle:
  assumes "node_ok s" "server_inv refs held s" "sv_ctxs s c = Some x"
  shows "skynet_harbor_message_isremote (cx_handle x) s = Some False"
proof -
  have "hs_harbor (sv_handles s) AND HANDLE_MASK = 0"
    using server_invD(1) [OF assms(2)] by (simp add: registry_wf_def slots_wf_def)
  then have "sv_HARBOR s \<noteq> - 1" using assms(1) by (auto simp: node_ok_def HANDLE_MASK_def)
  with assms(1,3) show ?thesis by (auto simp: skynet_harbor_message_isremote_def node_ok_def)
qed

definition sent_message :: "u32 \<Rightarrow> nat \<Rightarrow> int \<Rightarrow> bytes option \<Rightarrow> u64 \<Rightarrow> payload skynet_message" where
  "sent_message source type session data sz =
     \<lparr>msg_source = source, msg_session = session,
      msg_data = map_option (\<lambda>b. Bytes (if type AND PTYPE_TAG_DONTCOPY = 0 then take (unat sz) b else b)) data,
      msg_sz = pack_sz (type AND 0xFF) sz\<rparr>"

lemma type_byte: "(type AND 0xFF) < (256 :: nat)"
proof -
  have "type AND 0xFF = take_bit 8 type" by (simp add: take_bit_eq_mask mask_eq_exp_minus_1)
  then show ?thesis using take_bit_nat_less_exp [of 8 type] by simp
qed

lemma sent_message_parts:
  "sz AND MESSAGE_TYPE_MASK = sz \<Longrightarrow> msg_type (sent_message source type session data sz) = type AND 0xFF"
  "sz AND MESSAGE_TYPE_MASK = sz \<Longrightarrow> msg_size (sent_message source type session data sz) = sz"
  using pack_sz_parts [OF _ type_byte, of sz type] type_byte [of type]
  by (simp_all add: msg_type_def msg_size_def sent_message_def unat_of_nat)

text \<open>A well-formed call of \<open>skynet_send\<close> with a session of the caller's.\<close>

definition send_args :: "nat \<Rightarrow> bytes option \<Rightarrow> u64 \<Rightarrow> bool" where
  "send_args type data sz \<longleftrightarrow> sz AND MESSAGE_TYPE_MASK = sz \<and> type AND PTYPE_TAG_ALLOCSESSION = 0 \<and>
     (\<forall>b. data = Some b \<longrightarrow> type AND PTYPE_TAG_DONTCOPY = 0 \<longrightarrow> unat sz \<le> length b)"

lemma send_unfold:
  assumes "send_args type data sz" "source \<noteq> 0" "destination \<noteq> 0" "skynet_harbor_message_isremote destination s = Some False"
  shows "skynet_send M ctx source destination type session data sz s =
    do { (r, s) \<leftarrow> skynet_context_push M destination (sent_message source type session data sz) s;
         Some (if r \<noteq> 0 then (- 1, free_data (msg_data (sent_message source type session data sz)) s) else (session, s)) }"
  using assms
  by (cases data) (auto simp: skynet_send_def filter_args_def send_args_def sent_message_def Let_def comp_def cong: if_cong)

subsection \<open>A node with one service\<close>

definition demo_modules :: "unit modules" where
  "demo_modules = \<lparr>md_query = (\<lambda>_. True), md_create = (\<lambda>_. True), md_init = (\<lambda>_ _ _ s. Some (0, s)),
     md_release = (\<lambda>_ _ s. Some s), md_signal = (\<lambda>_ _ _ s. Some s), md_cb = (\<lambda>_ _ _ _ _ _ s. Some (0, s)),
     md_time = (\<lambda>_. 0), md_open = (\<lambda>_. False)\<rparr>"

definition demo_node :: "unit server" where
  "demo_node = server_init () 1 False (skynet_timer_init 0 0 0 0)"

lemma demo_quiet: "quiet_release demo_modules"
  by (simp add: quiet_release_def demo_modules_def)

lemma demo_reach:
  "\<exists>s x. life_reach demo_modules (s, (\<lambda>_. 0)(0 := 1), {0}) \<and> sv_ctxs s 0 = Some x \<and>
     handle_lookup (hof s) (sv_handles s) (cx_handle x) = Some 0 \<and> cx_handle x \<noteq> 0"
proof -
  have start: "life_reach demo_modules (demo_node, \<lambda>_. 0, {})" unfolding demo_node_def by (rule life_reach.start)
  have inv: "server_inv (\<lambda>_. 0) {} demo_node" using life_reach_inv [OF demo_quiet start] by (simp add: life_inv_def)
  have room: "card (registered_ctxs demo_node) < 2 ^ 24" by (simp add: registered_ctxs_def demo_node_def init_contexts)
  from context_alloc_inv [OF inv room, of "''a''"] obtain s x where
    s: "context_alloc ''a'' demo_node = Some (0, 0, s)" "sv_ctxs s 0 = Some x"
    "handle_lookup (hof s) (sv_handles s) (cx_handle x) = Some 0" by (auto simp: demo_node_def)
  from life_reach.step [OF start life_step.new [OF room s(1)]] have
    r: "life_reach demo_modules (s, (\<lambda>_. 0)(0 := 1), {0})" by simp
  have "sv_HARBOR s = sv_HARBOR demo_node"
    using s(1) by (auto simp: context_alloc_def Let_def upd_ctx_def context_inc_def split: bind_splits)
  then have "sv_HARBOR s = 0x1000000" by (simp add: demo_node_def HANDLE_REMOTE_SHIFT_def)
  then have "cx_handle x AND NOT HANDLE_MASK = 0x1000000"
    using life_reach_inv [OF demo_quiet r] s(2) by (simp add: life_inv_def node_ok_def)
  then have "cx_handle x \<noteq> 0" by auto
  with r s show ?thesis by blast
qed

subsection \<open>Properties\<close>





text \<open>C11. Sending to a registered handle, in every reachable state: \<open>skynet_send\<close> returns the session, the queue of
  the service with that handle gets exactly one more message, at its end, whose source, session, type
  (the low byte), size and data (a copy of the given bytes, or the given block when it must not be
  copied) are those of the call, and nothing else in the server changes.\<close>

theorem send_delivers:
  fixes session :: int
  assumes "quiet_release M" "life_reach M (s, refs, held)" "handle_lookup (hof s) (sv_handles s) destination = Some d"
    "send_args type data sz" "source \<noteq> 0" "destination \<noteq> 0"
  defines "m \<equiv> sent_message source type session data sz"
  shows "\<exists>x mq ms. sv_ctxs s d = Some x \<and> cx_handle x = destination \<and>
    skynet_send M ctx source destination type session data sz s = Some (session, s\<lparr>sv_mq := mq\<rparr>) \<and>
    mq_msgs (sv_mq s) (cx_queue x) = Some ms \<and> mq_msgs mq = (mq_msgs (sv_mq s))(cx_queue x \<mapsto> ms @ [m]) \<and>
    msg_type m = type AND 0xFF \<and> msg_size m = sz"
proof -
  have inv: "server_inv refs held s" "node_ok s" using life_reach_inv [OF assms(1,2)] by (simp_all add: life_inv_def)
  from context_push_result [OF inv(1) assms(1,3), of m] obtain x mq ms where
    x: "sv_ctxs s d = Some x" "cx_handle x = destination" "skynet_context_push M destination m s = Some (0, s\<lparr>sv_mq := mq\<rparr>)"
    "mq_msgs (sv_mq s) (cx_queue x) = Some ms" "mq_msgs mq = (mq_msgs (sv_mq s))(cx_queue x \<mapsto> ms @ [m])" by blast
  from send_unfold [OF assms(4-6), of s M ctx session] local_handle [OF inv(2,1) x(1)] x(2,3)
  have "skynet_send M ctx source destination type session data sz s = Some (session, s\<lparr>sv_mq := mq\<rparr>)" by (simp add: m_def)
  moreover have "sz AND MESSAGE_TYPE_MASK = sz" using assms(4) by (simp add: send_args_def)
  ultimately show ?thesis using x sent_message_parts by (auto simp: m_def)
qed

theorem send_delivers_witness:
  "\<exists>s x mq ms. life_reach demo_modules (s, (\<lambda>_. 0)(0 := 1), {0}) \<and> sv_ctxs s 0 = Some x \<and>
     skynet_send demo_modules None 7 (cx_handle x) 3 5 (Some [1, 2]) 2 s = Some (5, s\<lparr>sv_mq := mq\<rparr>) \<and>
     mq_msgs mq (cx_queue x) = Some (ms @ [sent_message 7 3 5 (Some [1, 2]) 2])"
proof -
  from demo_reach obtain s x where s: "life_reach demo_modules (s, (\<lambda>_. 0)(0 := 1), {0})" "sv_ctxs s 0 = Some x"
    "handle_lookup (hof s) (sv_handles s) (cx_handle x) = Some 0" "cx_handle x \<noteq> 0" by blast
  have "send_args 3 (Some [1, 2]) 2"
    by (simp add: send_args_def MESSAGE_TYPE_MASK_def PTYPE_TAG_ALLOCSESSION_def mask_eq_exp_minus_1)
  from send_delivers [OF demo_quiet s(1,3) this _ s(4), where source = 7 and session = 5 and ctx = None] s(2) obtain mq ms where
    mq: "skynet_send demo_modules None 7 (cx_handle x) 3 5 (Some [1, 2]) 2 s = Some (5, s\<lparr>sv_mq := mq\<rparr>)"
    "mq_msgs mq = (mq_msgs (sv_mq s))(cx_queue x \<mapsto> ms @ [sent_message 7 3 5 (Some [1, 2]) 2])" by auto
  from mq(2) have "mq_msgs mq (cx_queue x) = Some (ms @ [sent_message 7 3 5 (Some [1, 2]) 2])" by simp
  with s(1,2) mq(1) show ?thesis by blast
qed

text \<open>Sending to a local handle that is not registered, in any state: \<open>skynet_send\<close> returns -1, frees the data
  it copied or was given, and changes nothing else.\<close>

theorem send_to_retired_handle:
  assumes "handle_lookup (hof s) (sv_handles s) destination = None" "skynet_harbor_message_isremote destination s = Some False"
    "send_args type data sz" "source \<noteq> 0" "destination \<noteq> 0"
  shows "skynet_send M ctx source destination type session data sz s =
    Some (- 1, free_data (msg_data (sent_message source type session data sz)) s)"
  using send_unfold [OF assms(3-5,2)] context_push_gone [OF assms(1)] by simp

theorem send_to_retired_handle_witness:
  "skynet_send demo_modules None 7 0x1000005 3 5 (Some [1, 2]) 2 demo_node = Some (- 1, demo_node\<lparr>sv_freed := [Bytes [1, 2]]\<rparr>)"
proof -
  have "handle_lookup (hof demo_node) (sv_handles demo_node) 0x1000005 = None"
    by (simp add: demo_node_def handle_lookup_def skynet_handle_init_def array_get_def split: option.splits)
  moreover have "skynet_harbor_message_isremote 0x1000005 demo_node = Some False"
    by (simp add: demo_node_def skynet_harbor_message_isremote_def HANDLE_REMOTE_SHIFT_def HANDLE_MASK_def)
  moreover have "send_args 3 (Some [1, 2]) 2"
    by (simp add: send_args_def MESSAGE_TYPE_MASK_def PTYPE_TAG_ALLOCSESSION_def mask_eq_exp_minus_1)
  ultimately show ?thesis
    using send_to_retired_handle [where s = demo_node and destination = "0x1000005" and type = 3 and data = "Some [1, 2]"
        and sz = 2 and source = 7 and M = demo_modules and ctx = None and session = 5]
    by (simp add: free_data_def sent_message_def PTYPE_TAG_DONTCOPY_def demo_node_def server_init_def skynet_profile_enable_def
        skynet_harbor_init_def skynet_globalinit_def skynet_initthread_def)
qed

end
