(* ===== verification/Commands.thy ===== *)
theory Commands
  imports Service_Lifetime
begin

unbundle bit_operations_syntax

section \<open>The text commands of a service and the start of the node\<close>

text \<open>
  \<open>skynet_command\<close> and the functions of its table (\<open>skynet_server.c\<close>), the environment they read and
  write (\<open>skynet_env.c\<close>), the log files they open and close (\<open>skynet_log.c\<close>) and the loops of the
  node's threads (\<open>skynet_start.c\<close>). A command takes the calling context and the parameter, which is
  \<open>None\<close> for a null pointer, and returns the text or \<open>None\<close> for \<open>NULL\<close>; a null parameter that a command
  reads is an abort.
\<close>

subsection \<open>Handles as text\<close>

definition id_to_hex :: "u32 \<Rightarrow> string" where
  "id_to_hex i =
     CHR '':'' # map (\<lambda>k. ''0123456789ABCDEF'' ! unat (drop_bit ((7 - k) * 4) i AND 0xf)) [0..<8]"

definition skynet_queryname :: "'x modules \<Rightarrow> ctxid \<Rightarrow> string \<Rightarrow> 'x server \<Rightarrow> (u32 \<times> 'x server) option" where
  "skynet_queryname M c name s =
     (case name of
        CHR '':'' # rest \<Rightarrow> Some (strtoul 16 rest, s)
      | CHR ''.'' # rest \<Rightarrow> do { h \<leftarrow> skynet_handle_findname rest (sv_handles s); Some (h, s) }
      | _ \<Rightarrow> do { s \<leftarrow> skynet_error M (Some c) (''Don't support query global name '' @ name) s; Some (0, s) })"

definition tohandle :: "'x modules \<Rightarrow> ctxid \<Rightarrow> string \<Rightarrow> 'x server \<Rightarrow> (u32 \<times> 'x server) option" where
  "tohandle M c param s =
     (case param of
        CHR '':'' # rest \<Rightarrow> Some (strtoul 16 rest, s)
      | CHR ''.'' # rest \<Rightarrow> do { h \<leftarrow> skynet_handle_findname rest (sv_handles s); Some (h, s) }
      | _ \<Rightarrow> do { s \<leftarrow> skynet_error M (Some c) (''Can't convert '' @ param @ '' to handle'') s; Some (0, s) })"

text \<open>\<open>sscanf\<close> with \<open>%s\<close>: the next word and what follows it; without a word the array keeps its old contents.\<close>

definition scan_word :: "string \<Rightarrow> string option \<times> string" where
  "scan_word t =
     (let u = dropWhile c_isspace t; w = takeWhile (\<lambda>c. \<not> c_isspace c) u
      in (if w = [] then None else Some w, drop (length w) u))"

definition scan_two_words :: "string \<Rightarrow> string option \<times> string option" where
  "scan_two_words t = (let (a, r) = scan_word t in (a, if a = None then None else fst (scan_word r)))"

text \<open>\<open>strtol\<close> with base 0 chooses the base by the prefix.\<close>

definition strtol0 :: "string \<Rightarrow> int" where
  "strtol0 t =
     (let (neg, u) = strip_sign (dropWhile c_isspace t);
          base = (if strip_0x 16 u \<noteq> u then 16 else case u of c # _ \<Rightarrow> if c = CHR ''0'' then 8 else 10 | [] \<Rightarrow> 10)
      in strtol base t)"

definition set_result :: "ctxid \<Rightarrow> string \<Rightarrow> 'x server \<Rightarrow> (string option \<times> 'x server) option" where
  "set_result c t s = do { s \<leftarrow> upd_ctx c (\<lambda>x. x\<lparr>cx_result := t\<rparr>) s; Some (Some t, s) }"

subsection \<open>Environment, log files and timeouts\<close>

definition skynet_getenv :: "string \<Rightarrow> 'x server \<Rightarrow> string option" where
  "skynet_getenv key s = sv_env s key"

definition skynet_setenv :: "string \<Rightarrow> string \<Rightarrow> 'x server \<Rightarrow> 'x server option" where
  "skynet_setenv key val s = do { assert_opt (sv_env s key = None); Some (s\<lparr>sv_env := (sv_env s)(key \<mapsto> val)\<rparr>) }"

definition skynet_log_open :: "'x modules \<Rightarrow> ctxid \<Rightarrow> u32 \<Rightarrow> 'x server \<Rightarrow> (bool \<times> 'x server) option" where
  "skynet_log_open M c handle s =
     (case skynet_getenv ''logpath'' s of
        None \<Rightarrow> Some (False, s)
      | Some logpath \<Rightarrow>
          (let tmp = logpath @ ''/'' @ hex8 handle @ ''.log'' in
           if md_open M tmp then
             do { s \<leftarrow> skynet_error M (Some c) (''Open log file '' @ tmp) s; Some (True, log_act handle LogOpen s) }
           else do { s \<leftarrow> skynet_error M (Some c) (''Open log file '' @ tmp @ '' fail'') s; Some (False, s) }))"

definition skynet_log_close :: "'x modules \<Rightarrow> ctxid \<Rightarrow> u32 \<Rightarrow> 'x server \<Rightarrow> 'x server option" where
  "skynet_log_close M c handle s =
     do { s \<leftarrow> skynet_error M (Some c) (''Close log file :'' @ hex8 handle) s; Some (log_act handle LogClose s) }"

text \<open>\<open>skynet_timeout\<close> on the server: a time that is not positive answers at once.\<close>

definition server_timeout :: "'x modules \<Rightarrow> u32 \<Rightarrow> int \<Rightarrow> int \<Rightarrow> 'x server \<Rightarrow> (int \<times> 'x server) option" where
  "server_timeout M handle time session s =
     (if time \<le> 0 then
        do { (r, s) \<leftarrow> skynet_context_push M handle (timeout_message session) s;
             Some (if r \<noteq> 0 then - 1 else session, s) }
      else Some (session, s\<lparr>sv_timer := timer_add \<lparr>ev_handle = handle, ev_session = session\<rparr> time (sv_timer s)\<rparr>))"

subsection \<open>Ending services\<close>

definition handle_exit :: "'x modules \<Rightarrow> ctxid \<Rightarrow> u32 \<Rightarrow> 'x server \<Rightarrow> 'x server option" where
  "handle_exit M c handle s =
     do { (handle, s) \<leftarrow>
            (if handle = 0 then
               do { h \<leftarrow> ctx_handle (Some c) s; s \<leftarrow> skynet_error M (Some c) ''KILL self'' s; Some (h, s) }
             else do { s \<leftarrow> skynet_error M (Some c) (''KILL :'' @ show_hex handle) s; Some (handle, s) });
          s \<leftarrow> (if sv_monitor_exit s \<noteq> 0 then
                  do { (_, s) \<leftarrow> skynet_send M (Some c) handle (sv_monitor_exit s) PTYPE_CLIENT 0 None 0 s; Some s }
                else Some s);
          (_, s) \<leftarrow> server_retire M handle s;
          Some s }"

text \<open>\<open>skynet_handle_retireall\<close> on the server: passes over the slots until one retires nothing.\<close>

partial_function (option) server_retireall_pass :: "'x modules \<Rightarrow> nat \<Rightarrow> nat \<Rightarrow> 'x server \<Rightarrow> (nat \<times> 'x server) option" where
  "server_retireall_pass M n i s =
     (if i < hs_slot_size (sv_handles s) then
        do { cell \<leftarrow> array_get (hs_slot (sv_handles s)) i;
             handle \<leftarrow> (case cell of None \<Rightarrow> Some 0 | Some c \<Rightarrow> map_option cx_handle (sv_ctxs s c));
             (if handle \<noteq> 0 then
                do { (r, s) \<leftarrow> server_retire M handle s;
                     server_retireall_pass M (if r \<noteq> 0 then Suc n else n) (Suc i) s }
              else server_retireall_pass M n (Suc i) s) }
      else Some (n, s))"

partial_function (option) server_retireall :: "'x modules \<Rightarrow> 'x server \<Rightarrow> 'x server option" where
  "server_retireall M s =
     do { (n, s) \<leftarrow> server_retireall_pass M 0 0 s;
          (if n = 0 then Some s else server_retireall M s) }"

declare server_retireall_pass.simps [code] server_retireall.simps [code]

subsection \<open>The commands\<close>

type_synonym 'x command = "ctxid \<Rightarrow> string option \<Rightarrow> 'x server \<Rightarrow> (string option \<times> 'x server) option"

definition cmd_timeout :: "'x modules \<Rightarrow> 'x command" where
  "cmd_timeout M c param s =
     do { param \<leftarrow> param;
          let ti = strtol 10 param;
          (session, s) \<leftarrow> skynet_context_newsession c s;
          handle \<leftarrow> ctx_handle (Some c) s;
          (_, s) \<leftarrow> server_timeout M handle ti session s;
          set_result c (show_int session) s }"

definition cmd_reg :: "'x modules \<Rightarrow> 'x command" where
  "cmd_reg M c param s =
     do { handle \<leftarrow> ctx_handle (Some c) s;
          (case param of
             None \<Rightarrow> set_result c (CHR '':'' # show_hex handle) s
           | Some [] \<Rightarrow> set_result c (CHR '':'' # show_hex handle) s
           | Some (CHR ''.'' # name) \<Rightarrow>
               do { (r, hs) \<leftarrow> skynet_handle_namehandle handle name (sv_handles s); Some (r, s\<lparr>sv_handles := hs\<rparr>) }
           | Some param \<Rightarrow>
               do { s \<leftarrow> skynet_error M (Some c) (''Can't register global name '' @ param @ '' in C'') s; Some (None, s) }) }"

definition cmd_query :: "'x modules \<Rightarrow> 'x command" where
  "cmd_query M c param s =
     do { param \<leftarrow> param;
          (case param of
             CHR ''.'' # name \<Rightarrow>
               do { handle \<leftarrow> skynet_handle_findname name (sv_handles s);
                    (if handle \<noteq> 0 then set_result c (CHR '':'' # show_hex handle) s else Some (None, s)) }
           | _ \<Rightarrow> Some (None, s)) }"

definition cmd_name :: "'x modules \<Rightarrow> 'x command" where
  "cmd_name M c param s =
     do { param \<leftarrow> param;
          let (name, handle) = scan_two_words param;
          handle \<leftarrow> handle;
          (if hd handle \<noteq> CHR '':'' then Some (None, s)
           else
             do { let handle_id = strtoul 16 (tl handle);
                  (if handle_id = 0 then Some (None, s)
                   else
                     do { name \<leftarrow> name;
                          (if hd name = CHR ''.'' then
                             do { (r, hs) \<leftarrow> skynet_handle_namehandle handle_id (tl name) (sv_handles s);
                                  Some (r, s\<lparr>sv_handles := hs\<rparr>) }
                           else
                             do { s \<leftarrow> skynet_error M (Some c) (''Can't set global name '' @ name @ '' in C'') s;
                                  Some (None, s) }) }) }) }"

definition cmd_exit :: "'x modules \<Rightarrow> 'x command" where
  "cmd_exit M c param s = do { s \<leftarrow> handle_exit M c 0 s; Some (None, s) }"

definition cmd_kill :: "'x modules \<Rightarrow> 'x command" where
  "cmd_kill M c param s =
     do { param \<leftarrow> param;
          (handle, s) \<leftarrow> tohandle M c param s;
          s \<leftarrow> (if handle \<noteq> 0 then handle_exit M c handle s else Some s);
          Some (None, s) }"

definition cmd_launch :: "'x modules \<Rightarrow> 'x command" where
  "cmd_launch M c param s =
     do { param \<leftarrow> param;
          let (modname, args) = strsep {CHR '' '', CHR 0x09, CHR 0x0D, CHR 0x0A} param;
          let args = map_option (\<lambda>a. fst (strsep {CHR 0x0D, CHR 0x0A} a)) args;
          (inst, s) \<leftarrow> skynet_context_new M modname args s;
          (case inst of
             None \<Rightarrow> Some (None, s)
           | Some i \<Rightarrow> do { handle \<leftarrow> ctx_handle (Some i) s; set_result c (id_to_hex handle) s }) }"

definition cmd_getenv :: "'x modules \<Rightarrow> 'x command" where
  "cmd_getenv M c param s = do { param \<leftarrow> param; Some (skynet_getenv param s, s) }"

definition cmd_setenv :: "'x modules \<Rightarrow> 'x command" where
  "cmd_setenv M c param s =
     do { param \<leftarrow> param;
          let key = takeWhile (\<lambda>x. x \<noteq> CHR '' '') param;
          (case drop (length key) param of
             [] \<Rightarrow> Some (None, s)
           | _ # val \<Rightarrow> do { s \<leftarrow> skynet_setenv key val s; Some (None, s) }) }"

definition cmd_starttime :: "'x modules \<Rightarrow> 'x command" where
  "cmd_starttime M c param s = set_result c (show_base 10 (unat (tm_starttime (sv_timer s)))) s"

definition cmd_abort :: "'x modules \<Rightarrow> 'x command" where
  "cmd_abort M c param s = do { s \<leftarrow> server_retireall M s; Some (None, s) }"

definition cmd_monitor :: "'x modules \<Rightarrow> 'x command" where
  "cmd_monitor M c param s =
     (if param = None \<or> param = Some [] then
        (if sv_monitor_exit s \<noteq> 0 then set_result c (CHR '':'' # show_hex (sv_monitor_exit s)) s else Some (None, s))
      else
        do { param \<leftarrow> param;
             (handle, s) \<leftarrow> tohandle M c param s;
             Some (None, s\<lparr>sv_monitor_exit := handle\<rparr>) })"

text \<open>
  \<open>%lf\<close> of a number of microseconds divided by 1000000.0: six decimals. The double quotient prints
  exactly below 2 to the 52 microseconds, more than a hundred years of processor time.
\<close>

definition show_seconds :: "u64 \<Rightarrow> string" where
  "show_seconds t =
     (let f = show_base 10 (unat t mod 1000000)
      in show_base 10 (unat t div 1000000) @ ''.'' @ replicate (6 - length f) (CHR ''0'') @ f)"

definition cmd_stat :: "'x modules \<Rightarrow> 'x command" where
  "cmd_stat M c param s =
     do { param \<leftarrow> param;
          x \<leftarrow> sv_ctxs s c;
          (if param = ''mqlen'' then
             do { q \<leftarrow> mqs (sv_mq s) (cx_queue x); set_result c (show_int (skynet_mq_length q)) s }
           else if param = ''endless'' then
             (if cx_endless x
              then do { s \<leftarrow> upd_ctx c (\<lambda>x. x\<lparr>cx_endless := False\<rparr>) s; set_result c ''1'' s }
              else set_result c ''0'' s)
           else if param = ''cpu'' then set_result c (show_seconds (cx_cpu_cost x)) s
           else if param = ''time'' then
             (if cx_profile x then set_result c (show_seconds (md_time M s - cx_cpu_start x)) s else set_result c ''0'' s)
           else if param = ''message'' then set_result c (show_int (sint (cx_message_count x))) s
           else set_result c [] s) }"

text \<open>\<open>LOGON\<close>, \<open>LOGOFF\<close> and \<open>SIGNAL\<close> act on a service while they hold a reference to it.\<close>

definition with_service ::
  "'x modules \<Rightarrow> ctxid \<Rightarrow> string \<Rightarrow> (u32 \<Rightarrow> ctxid \<Rightarrow> 'x server \<Rightarrow> 'x server option) \<Rightarrow> 'x server \<Rightarrow> (string option \<times> 'x server) option" where
  "with_service M c param act s =
     do { (handle, s) \<leftarrow> tohandle M c param s;
          (if handle = 0 then Some (None, s)
           else
             do { (ctx, s) \<leftarrow> skynet_handle_grab handle s;
                  (case ctx of
                     None \<Rightarrow> Some (None, s)
                   | Some d \<Rightarrow>
                       do { s \<leftarrow> act handle d s;
                            (_, s) \<leftarrow> skynet_context_release M d s;
                            Some (None, s) }) }) }"

definition cmd_logon :: "'x modules \<Rightarrow> 'x command" where
  "cmd_logon M c param s =
     do { param \<leftarrow> param;
          with_service M c param (\<lambda>handle d s.
            do { x \<leftarrow> sv_ctxs s d;
                 (if \<not> cx_logfile x then
                    do { (f, s) \<leftarrow> skynet_log_open M c handle s;
                         (if f then upd_ctx d (\<lambda>x. x\<lparr>cx_logfile := True\<rparr>) s else Some s) }
                  else Some s) }) s }"

definition cmd_logoff :: "'x modules \<Rightarrow> 'x command" where
  "cmd_logoff M c param s =
     do { param \<leftarrow> param;
          with_service M c param (\<lambda>handle d s.
            do { x \<leftarrow> sv_ctxs s d;
                 (if cx_logfile x then
                    do { s \<leftarrow> upd_ctx d (\<lambda>x. x\<lparr>cx_logfile := False\<rparr>) s; skynet_log_close M c handle s }
                  else Some s) }) s }"

definition cmd_signal :: "'x modules \<Rightarrow> 'x command" where
  "cmd_signal M c param s =
     do { param \<leftarrow> param;
          with_service M c param (\<lambda>handle d s.
            do { x \<leftarrow> sv_ctxs s d;
                 let sig = (case dropWhile (\<lambda>k. k \<noteq> CHR '' '') param of [] \<Rightarrow> 0 | t \<Rightarrow> strtol0 t);
                 md_signal M (cx_mod x) d sig s }) s }"

definition cmd_funcs :: "'x modules \<Rightarrow> (string \<times> 'x command) list" where
  "cmd_funcs M =
     [(''TIMEOUT'', cmd_timeout M), (''REG'', cmd_reg M), (''QUERY'', cmd_query M), (''NAME'', cmd_name M),
      (''EXIT'', cmd_exit M), (''KILL'', cmd_kill M), (''LAUNCH'', cmd_launch M), (''GETENV'', cmd_getenv M),
      (''SETENV'', cmd_setenv M), (''STARTTIME'', cmd_starttime M), (''ABORT'', cmd_abort M), (''MONITOR'', cmd_monitor M),
      (''STAT'', cmd_stat M), (''LOGON'', cmd_logon M), (''LOGOFF'', cmd_logoff M), (''SIGNAL'', cmd_signal M)]"

definition skynet_command :: "'x modules \<Rightarrow> ctxid \<Rightarrow> string \<Rightarrow> string option \<Rightarrow> 'x server \<Rightarrow> (string option \<times> 'x server) option" where
  "skynet_command M c cmd param s =
     (case find (\<lambda>method. fst method = cmd) (cmd_funcs M) of
        Some (_, func) \<Rightarrow> func c param s
      | None \<Rightarrow> Some (None, s))"

subsection \<open>The node's threads (\<open>skynet_start.c\<close>)\<close>

text \<open>
  The \<open>monitor\<close> structure that the threads share; a worker that waits on the condition counts in \<open>sleep\<close>.
\<close>

record node_monitor =
  nm_count :: int
  nm_m :: "skynet_monitor list"
  nm_sleep :: int
  nm_quit :: bool

definition node_monitor_new :: "nat \<Rightarrow> node_monitor" where
  "node_monitor_new thread =
     \<lparr>nm_count = int thread, nm_m = replicate thread skynet_monitor_new, nm_sleep = 0, nm_quit = False\<rparr>"

definition wakeup :: "int \<Rightarrow> node_monitor \<Rightarrow> bool" where
  "wakeup busy m \<longleftrightarrow> nm_count m - busy \<le> nm_sleep m"

definition weight_table :: "int list" where
  "weight_table = [- 1, - 1, - 1, - 1, 0, 0, 0, 0, 1, 1, 1, 1, 1, 1, 1, 1, 2, 2, 2, 2, 2, 2, 2, 2, 3, 3, 3, 3, 3, 3, 3, 3]"

definition worker_weight :: "nat \<Rightarrow> int" where
  "worker_weight i = (if i < length weight_table then weight_table ! i else 0)"

text \<open>One pass of \<open>thread_monitor\<close> over the monitors of the workers.\<close>

fun check_monitors :: "'x modules \<Rightarrow> skynet_monitor list \<Rightarrow> 'x server \<Rightarrow> (skynet_monitor list \<times> 'x server) option" where
  "check_monitors M [] s = Some ([], s)"
| "check_monitors M (sm # sms) s =
     do { (sm, s) \<leftarrow> skynet_monitor_check M sm s;
          (sms, s) \<leftarrow> check_monitors M sms s;
          Some (sm # sms, s) }"

text \<open>\<open>signal_hup\<close>: an empty system message asks the logger to reopen its file.\<close>

definition signal_hup :: "'x modules \<Rightarrow> 'x server \<Rightarrow> 'x server option" where
  "signal_hup M s =
     do { logger \<leftarrow> skynet_handle_findname ''logger'' (sv_handles s);
          (if logger \<noteq> 0 then
             do { (_, s) \<leftarrow> skynet_context_push M logger
                    \<lparr>msg_source = 0, msg_session = 0, msg_data = None, msg_sz = push_bit MESSAGE_TYPE_SHIFT (of_nat PTYPE_SYSTEM)\<rparr> s;
                  Some s }
           else Some s) }"

text \<open>
  \<open>bootstrap\<close> starts the first service; \<open>False\<close> is the exit with an error after the log is flushed. With
  one word on the command line the parameter array is read uninitialised.
\<close>

definition bootstrap :: "'x modules \<Rightarrow> ctxid \<Rightarrow> string \<Rightarrow> 'x server \<Rightarrow> (bool \<times> 'x server) option" where
  "bootstrap M logger cmdline s =
     do { let (name, args) = scan_two_words cmdline;
          name \<leftarrow> name;
          args \<leftarrow> args;
          (ctx, s) \<leftarrow> skynet_context_new M name (Some args) s;
          (if ctx = None then
             do { s \<leftarrow> skynet_error M None (''Bootstrap error : '' @ cmdline @ [CHR 0x0A]) s;
                  s \<leftarrow> skynet_context_dispatchall M logger s;
                  Some (False, s) }
           else Some (True, s)) }"

text \<open>\<open>skynet_start\<close> up to the threads: the logger, then the bootstrap service.\<close>

definition skynet_start_services ::
  "'x modules \<Rightarrow> string \<Rightarrow> string option \<Rightarrow> string \<Rightarrow> 'x server \<Rightarrow> (bool \<times> 'x server) option" where
  "skynet_start_services M logservice logger bootstrap_cmd s =
     do { (ctx, s) \<leftarrow> skynet_context_new M logservice logger s;
          (case ctx of
             None \<Rightarrow> Some (False, s)
           | Some c \<Rightarrow> bootstrap M c bootstrap_cmd s) }"

subsection \<open>What the commands do to the server\<close>

lemma server_inv_logger [simp]: "server_inv refs held (s\<lparr>sv_logger := l\<rparr>) = server_inv refs held s"
proof -
  have "hof (s\<lparr>sv_logger := l\<rparr>) = hof s" by (rule hof_cong) simp
  moreover have "ctx_ok refs (s\<lparr>sv_logger := l\<rparr>) c = ctx_ok refs s c" for c
    by (cases "sv_ctxs s c") (simp_all add: ctx_ok_def registered_ctxs_def)
  ultimately show ?thesis by (simp add: server_inv_def queues_apart_def alloc_ok_def)
qed

lemma server_inv_monitor: "server_inv refs held (s\<lparr>sv_monitor_exit := l\<rparr>) = server_inv refs held s"
proof -
  have "hof (s\<lparr>sv_monitor_exit := l\<rparr>) = hof s" by (rule hof_cong) simp
  moreover have "ctx_ok refs (s\<lparr>sv_monitor_exit := l\<rparr>) c = ctx_ok refs s c" for c
    by (cases "sv_ctxs s c") (simp_all add: ctx_ok_def registered_ctxs_def)
  ultimately show ?thesis by (simp add: server_inv_def queues_apart_def alloc_ok_def)
qed

lemma hof_fields [simp]: "hof (s\<lparr>sv_logger := l\<rparr>) = hof s" "hof (s\<lparr>sv_mq := mq\<rparr>) = hof s" "hof (s\<lparr>sv_handles := hs\<rparr>) = hof s"
  by (rule hof_cong, simp)+

lemma push_any:
  assumes "server_inv refs held s" "quiet_release M"
  shows "\<exists>r mq. skynet_context_push M h m s = Some (r, s\<lparr>sv_mq := mq\<rparr>) \<and> server_inv refs held (s\<lparr>sv_mq := mq\<rparr>)"
proof (cases "handle_lookup (hof s) (sv_handles s) h")
  case None
  have "s = s\<lparr>sv_mq := sv_mq s\<rparr>" by simp
  with context_push_gone [OF None] assms(1) show ?thesis by metis
next
  case (Some d)
  with context_push_result [OF assms Some] show ?thesis by blast
qed

lemma error_result:
  assumes "server_inv refs held s" "quiet_release M" "\<And>c. ctx = Some c \<Longrightarrow> sv_ctxs s c \<noteq> None"
  shows "\<exists>l mq. skynet_error M ctx t s = Some (s\<lparr>sv_logger := l, sv_mq := mq\<rparr>) \<and>
    server_inv refs held (s\<lparr>sv_logger := l, sv_mq := mq\<rparr>)"
proof -
  have "names_wf (sv_handles s)" using server_invD(1) [OF assms(1)] by (simp add: registry_wf_def)
  from findname_result [OF this, of "''logger''"] obtain l where l: "(if sv_logger s = 0 then skynet_handle_findname ''logger'' (sv_handles s) else Some (sv_logger s)) = Some l"
    by fastforce
  let ?s = "s\<lparr>sv_logger := l\<rparr>"
  obtain h where h: "(case ctx of None \<Rightarrow> Some 0 | Some c \<Rightarrow> map_option cx_handle (sv_ctxs ?s c)) = Some h"
    using assms(3) by (cases ctx) auto
  have inv: "server_inv refs held ?s" using assms(1) by simp
  show ?thesis
  proof (cases "l = 0")
    case True
    have "?s = s\<lparr>sv_logger := l, sv_mq := sv_mq s\<rparr>" by simp
    moreover have "skynet_error M ctx t s = Some ?s" using l True by (simp add: skynet_error_def)
    ultimately show ?thesis using inv by metis
  next
    case False
    from push_any [OF inv assms(2)] obtain r mq where
      "skynet_context_push M l \<lparr>msg_source = h, msg_session = 0, msg_data = Some (Bytes (map of_char t)),
         msg_sz = pack_sz PTYPE_TEXT (of_nat (length t))\<rparr> ?s = Some (r, ?s\<lparr>sv_mq := mq\<rparr>)"
      "server_inv refs held (?s\<lparr>sv_mq := mq\<rparr>)" by blast
    then have "skynet_error M ctx t s = Some (?s\<lparr>sv_mq := mq\<rparr>)" "server_inv refs held (?s\<lparr>sv_mq := mq\<rparr>)"
      using l h False by (simp_all add: skynet_error_def)
    then show ?thesis by blast
  qed
qed

lemma lookup_ext:
  assumes "server_inv refs held s" "server_inv refs' held' s'" "registered_ctxs s' = registered_ctxs s - D"
    "\<And>d. d \<notin> D \<Longrightarrow> hof s' d = hof s d"
  shows "handle_lookup (hof s') (sv_handles s') g = Some d \<longleftrightarrow> d \<notin> D \<and> handle_lookup (hof s) (sv_handles s) g = Some d"
  using lookup_registered [OF assms(1), of g d] lookup_registered [OF assms(2), of g d] assms(3,4) by auto

lemma context_release_frame:
  assumes "server_inv refs held s" "quiet_release M" "0 < refs c"
  shows "\<exists>r s'. skynet_context_release M c s = Some (r, s') \<and> server_inv (refs(c := refs c - 1)) held s' \<and>
    sv_handles s' = sv_handles s \<and> (\<forall>d. d \<noteq> c \<longrightarrow> sv_ctxs s' d = sv_ctxs s d)"
proof -
  from context_release_inv [OF assms] obtain x r s' where
    s': "skynet_context_release M c s = Some (r, s')" "server_inv (refs(c := refs c - 1)) held s'" "sv_handles s' = sv_handles s"
    and f: "if refs c = 1 \<and> c \<notin> registered_ctxs s then r = None \<and> sv_ctxs s' = (sv_ctxs s)(c := None) \<and>
        sv_total s' = sv_total s - 1 \<and> sv_HARBOR s' = sv_HARBOR s
      else r = Some c \<and> s' = s\<lparr>sv_ctxs := (sv_ctxs s)(c \<mapsto> x\<lparr>cx_ref := cx_ref x - 1\<rparr>)\<rparr>" by blast
  from f have "\<forall>d. d \<noteq> c \<longrightarrow> sv_ctxs s' d = sv_ctxs s d"
    by (cases "refs c = 1 \<and> c \<notin> registered_ctxs s") simp_all
  with s' show ?thesis by blast
qed

lemma server_retire_result:
  assumes "server_inv refs held s" "quiet_release M"
  shows "\<exists>ret s'. server_retire M h s = Some (ret, s') \<and> server_inv refs held s' \<and>
    handle_lookup (hof s') (sv_handles s') = (handle_lookup (hof s) (sv_handles s))(h := None)"
proof -
  have wf: "slots_wf (hof s) (sv_handles s)" "names_wf (sv_handles s)"
    using server_invD(1) [OF assms(1)] by (simp_all add: registry_wf_def)
  show ?thesis
  proof (cases "handle_lookup (hof s) (sv_handles s) h")
    case None
    with retire_result [OF wf, of h] have "server_retire M h s = Some (0, s)" by (simp add: server_retire_def)
    moreover have "(handle_lookup (hof s) (sv_handles s))(h := None) = handle_lookup (hof s) (sv_handles s)"
      using None by (simp add: fun_upd_idem)
    ultimately show ?thesis using assms(1) by auto
  next
    case (Some c)
    with retire_result [OF wf, of h] obtain hs where
      hs: "handle_retire (hof s) h (sv_handles s) = Some (1, Some c, hs)" by auto
    note r = retire_inv [OF assms(1) hs]
    let ?s = "s\<lparr>sv_handles := hs\<rparr>"
    let ?refs = "refs(c := Suc (refs c))"
    have held: "0 < ?refs c" and same: "?refs(c := ?refs c - 1) = refs" by simp_all
    from context_release_frame [OF r(1) assms(2) held, unfolded same] obtain q s' where
      s': "skynet_context_release M c ?s = Some (q, s')" "server_inv refs held s'" "sv_handles s' = hs"
      "\<And>d. d \<noteq> c \<Longrightarrow> sv_ctxs s' d = sv_ctxs s d" by auto
    have ret: "server_retire M h s = Some (1, s')" using hs s'(1) by (simp add: server_retire_def)
    have "hof s' d = hof s d" if "d \<noteq> c" for d using that s'(4) by (simp add: hof_def)
    then have look: "handle_lookup (hof s') (sv_handles s') g = Some d \<longleftrightarrow> d \<noteq> c \<and> handle_lookup (hof s) (sv_handles s) g = Some d"
      for g d using r(2) s'(3) lookup_ext [OF assms(1) s'(2), of "{c}"] by (simp add: registered_ctxs_def)
    have only: "handle_lookup (hof s) (sv_handles s) g = Some c \<longleftrightarrow> g = h" for g
      using Some lookup_registered [OF assms(1)] by auto
    have "handle_lookup (hof s') (sv_handles s') g = Some d \<longleftrightarrow> ((handle_lookup (hof s) (sv_handles s))(h := None)) g = Some d" for g d
      using look [of g d] only [of g] Some by (cases "g = h") auto
    then have "handle_lookup (hof s') (sv_handles s') = (handle_lookup (hof s) (sv_handles s))(h := None)" by (intro ext option_eqI)
    with ret s'(2) show ?thesis by blast
  qed
qed

text \<open>The report of an exit to a local monitor service changes the queues only.\<close>

lemma exit_report:
  assumes "server_inv refs held s" "quiet_release M" "h \<noteq> 0"
    "sv_monitor_exit s = 0 \<or> skynet_harbor_message_isremote (sv_monitor_exit s) s = Some False"
  shows "\<exists>mq. (if sv_monitor_exit s \<noteq> 0 then
      do { (_, s) \<leftarrow> skynet_send M (Some c) h (sv_monitor_exit s) PTYPE_CLIENT 0 None 0 s; Some s }
      else Some s) = Some (s\<lparr>sv_mq := mq\<rparr>) \<and> server_inv refs held (s\<lparr>sv_mq := mq\<rparr>)"
proof (cases "sv_monitor_exit s = 0")
  case True
  then show ?thesis using assms(1) by (intro exI [of _ "sv_mq s"]) simp
next
  case False
  have "send_args PTYPE_CLIENT None 0" by (simp add: send_args_def PTYPE_CLIENT_def PTYPE_TAG_ALLOCSESSION_def)
  note send = send_unfold [OF this assms(3) False, of s M "Some c" 0]
  from push_any [OF assms(1,2)] obtain r mq where
    "skynet_context_push M (sv_monitor_exit s) (sent_message h PTYPE_CLIENT 0 None 0) s = Some (r, s\<lparr>sv_mq := mq\<rparr>)"
    "server_inv refs held (s\<lparr>sv_mq := mq\<rparr>)" by blast
  with send False assms(4) show ?thesis by (intro exI [of _ mq]) (simp add: sent_message_def free_data_def)
qed

lemma handle_exit_result:
  assumes "server_inv refs held s" "quiet_release M" "sv_ctxs s c \<noteq> None" "h \<noteq> 0"
    "sv_monitor_exit s = 0 \<or> skynet_harbor_message_isremote (sv_monitor_exit s) s = Some False"
  shows "\<exists>s'. handle_exit M c h s = Some s' \<and> server_inv refs held s' \<and>
    handle_lookup (hof s') (sv_handles s') = (handle_lookup (hof s) (sv_handles s))(h := None)"
proof -
  from error_result [OF assms(1,2), of "Some c" "''KILL :'' @ show_hex h"] assms(3) obtain l mq where
    e: "skynet_error M (Some c) (''KILL :'' @ show_hex h) s = Some (s\<lparr>sv_logger := l, sv_mq := mq\<rparr>)"
    "server_inv refs held (s\<lparr>sv_logger := l, sv_mq := mq\<rparr>)" by auto
  let ?s = "s\<lparr>sv_logger := l, sv_mq := mq\<rparr>"
  have "sv_monitor_exit ?s = 0 \<or> skynet_harbor_message_isremote (sv_monitor_exit ?s) ?s = Some False"
    using assms(5) by (auto simp: skynet_harbor_message_isremote_def)
  from exit_report [OF e(2) assms(2,4) this, of c] obtain mq' where
    r: "(if sv_monitor_exit ?s \<noteq> 0 then
      do { (_, s) \<leftarrow> skynet_send M (Some c) h (sv_monitor_exit ?s) PTYPE_CLIENT 0 None 0 ?s; Some s }
      else Some ?s) = Some (?s\<lparr>sv_mq := mq'\<rparr>)" "server_inv refs held (?s\<lparr>sv_mq := mq'\<rparr>)" by blast
  from server_retire_result [OF r(2) assms(2), of h] obtain ret s' where
    s': "server_retire M h (?s\<lparr>sv_mq := mq'\<rparr>) = Some (ret, s')" "server_inv refs held s'"
    "handle_lookup (hof s') (sv_handles s') = (handle_lookup (hof s) (sv_handles s))(h := None)" by auto
  have "handle_exit M c h s = Some s'"
    using assms(4) e(1) r(1) s'(1) unfolding handle_exit_def by (simp add: Option.bind_assoc)
  with s'(2,3) show ?thesis by blast
qed

lemma triggers_version:
  "mn_version (fold (\<lambda>(source, destination). skynet_monitor_trigger source destination) ts sm) = mn_version sm + of_nat (length ts) \<and>
   mn_check_version (fold (\<lambda>(source, destination). skynet_monitor_trigger source destination) ts sm) = mn_check_version sm"
  by (induction ts arbitrary: sm) (auto simp: skynet_monitor_trigger_def)

lemma of_nat_inj_u32: "n < 2 ^ 32 \<Longrightarrow> (of_nat n :: u32) = 0 \<Longrightarrow> n = 0"
  by (auto simp: word_of_nat_eq_0_iff dest: nat_dvd_not_less)

lemma endless_result:
  assumes "server_inv refs held s" "quiet_release M"
  shows "\<exists>s'. skynet_context_endless M h s = Some s' \<and> server_inv refs held s' \<and>
    sv_ctxs s' = (case handle_lookup (hof s) (sv_handles s) h of
        None \<Rightarrow> sv_ctxs s
      | Some d \<Rightarrow> (sv_ctxs s)(d := map_option (\<lambda>x. x\<lparr>cx_endless := True\<rparr>) (sv_ctxs s d)))"
proof (cases "handle_lookup (hof s) (sv_handles s) h")
  case None
  then show ?thesis using assms(1) by (simp add: skynet_context_endless_def skynet_handle_grab_def)
next
  case (Some d)
  then have reg: "d \<in> registered_ctxs s" using lookup_registered [OF assms(1)] by simp
  let ?refs = "refs(d := Suc (refs d))"
  from handle_grab_inv [OF assms(1), of h] Some obtain x where x: "sv_ctxs s d = Some x" by auto
  let ?x = "x\<lparr>cx_ref := cx_ref x + 1\<rparr>" let ?s = "s\<lparr>sv_ctxs := (sv_ctxs s)(d \<mapsto> ?x)\<rparr>"
  from handle_grab_inv [OF assms(1), of h] Some x have
    g: "skynet_handle_grab h s = Some (Some d, ?s)" "server_inv ?refs held ?s" by auto
  let ?y = "?x\<lparr>cx_endless := True\<rparr>" let ?s2 = "s\<lparr>sv_ctxs := (sv_ctxs s)(d \<mapsto> ?y)\<rparr>"
  from ctx_live [OF g(2), of d] have "cx_ref ?x = int (?refs d) + (if d \<in> registered_ctxs ?s then 1 else 0)" by auto
  then have "server_inv ?refs held (?s\<lparr>sv_ctxs := (sv_ctxs ?s)(d \<mapsto> ?y)\<rparr>)"
    by (intro server_inv_ctx [OF g(2), where x = ?x]) (auto split: if_splits)
  then have inv: "server_inv ?refs held ?s2" by simp
  let ?s3 = "s\<lparr>sv_ctxs := (sv_ctxs s)(d \<mapsto> x\<lparr>cx_endless := True\<rparr>)\<rparr>"
  have reg2: "d \<in> registered_ctxs ?s2" using reg by (simp add: registered_ctxs_def)
  have r: "skynet_context_release M d ?s2 = Some (Some d, ?s3)" "server_inv refs held ?s3"
    using context_release_inv [OF inv assms(2), of d] reg2 by auto
  have "skynet_context_endless M h s = Some ?s3"
    using g(1) r(1) by (simp add: skynet_context_endless_def upd_ctx_def)
  with r(2) Some x show ?thesis by auto
qed

text \<open>Changing the names only.\<close>

lemma server_inv_names:
  assumes "server_inv refs held s" "names_wf hs" "hs = (sv_handles s)\<lparr>hs_name := a, hs_name_cap := b, hs_name_count := n\<rparr>"
  shows "server_inv refs held (s\<lparr>sv_handles := hs\<rparr>)"
proof -
  have "registry_wf (hof s, hs)" using server_invD(1) [OF assms(1)] assms(2,3) by (simp add: registry_wf_def slots_wf_def)
  moreover have "ctx_ok refs (s\<lparr>sv_handles := hs\<rparr>) c" for c
    using server_invD(3) [OF assms(1), of c] assms(3) by (cases "sv_ctxs s c") (auto simp: ctx_ok_def registered_ctxs_def hs_contexts_def)
  ultimately show ?thesis using server_invD(2,4,5) [OF assms(1)] by (simp add: server_inv_def queues_apart_def alloc_ok_def)
qed

text \<open>The node with one service again, evaluated: the first handle of harbor 1, and no names.\<close>

lemma demo_register:
  "skynet_handle_register f c (skynet_handle_init 1) =
     Some (0x1000001, (skynet_handle_init 1)\<lparr>hs_slot := [None, Some c, None, None], hs_index := 2\<rparr>)"
  by (simp add: skynet_handle_register.simps find_free_def skynet_handle_init_def DEFAULT_SLOT_SIZE_def probe_handle_def
      slot_hash_def HANDLE_MASK_def HANDLE_REMOTE_SHIFT_def upt_rec numeral_eq_Suc Let_def)

lemma demo_named:
  "\<exists>(s :: unit server) x. server_inv ((\<lambda>_. 0)(0 := 1)) {0} s \<and> sv_ctxs s 0 = Some x \<and> cx_handle x \<noteq> 0 \<and>
     name_table (sv_handles s) name = None \<and> hs_name_cap (sv_handles s) * 2 \<le> MAX_SLOT_SIZE"
proof -
  have start: "life_inv (demo_node, \<lambda>_. 0, {})" unfolding demo_node_def by (rule life_init)
  then have inv: "server_inv (\<lambda>_. 0) {} demo_node" by (simp add: life_inv_def)
  have room: "card (registered_ctxs demo_node) < 2 ^ 24" by (simp add: registered_ctxs_def demo_node_def init_contexts)
  from context_alloc_inv [OF inv room, of "''a''"] obtain s x where
    s: "context_alloc ''a'' demo_node = Some (0, 0, s)" "sv_ctxs s 0 = Some x" "server_inv ((\<lambda>_. 0)(0 := 1)) {0} s"
    by (auto simp: demo_node_def)
  from s(1) have "sv_handles s = (skynet_handle_init 1)\<lparr>hs_slot := [None, Some 0, None, None], hs_index := 2\<rparr>"
    "sv_ctxs s 0 = Some ((blank_context ''a'' (sv_profile demo_node))\<lparr>cx_handle := 0x1000001, cx_queue := 0\<rparr>)"
    by (auto simp: context_alloc_def Let_def upd_ctx_def context_inc_def demo_node_def demo_register split: bind_splits)
  with s(2,3) show ?thesis
    by (intro exI [of _ s] exI [of _ x]) (auto simp: skynet_handle_init_def name_table_def hs_names_def MAX_SLOT_SIZE_def)
qed

lemma sint_next: "sint ((w :: u32) + 1) = (if sint w = 2 ^ 31 - 1 then - (2 ^ 31) else sint w + 1)"
proof -
  have "sint (w + 1) = signed_take_bit 31 (sint w + 1)" by (simp add: sint_word_ariths(1))
  moreover have "- (2 ^ 31) \<le> sint w" "sint w < 2 ^ 31" using sint_greater_eq [of w] sint_less [of w] by simp_all
  ultimately show ?thesis
    using signed_take_bit_int_eq_self [of 31 "sint w + 1"] by (cases "sint w = 2 ^ 31 - 1") simp_all
qed

subsection \<open>Properties\<close>

text \<open>The command KILL with the text of a handle retires that handle: it returns, the handle resolves to
  nothing afterwards, every other handle resolves to what it did, and the server's invariant with the
  references that threads hold is kept, whether or not a logger or an exit monitor of this node gets a message.\<close>

theorem kill_retires:
  assumes "server_inv refs held s" "quiet_release M" "sv_ctxs s c \<noteq> None" "h \<noteq> 0"
    "sv_monitor_exit s = 0 \<or> skynet_harbor_message_isremote (sv_monitor_exit s) s = Some False"
  shows "\<exists>s'. skynet_command M c ''KILL'' (Some ('':'' @ show_hex h)) s = Some (None, s') \<and> server_inv refs held s' \<and>
    handle_lookup (hof s') (sv_handles s') = (handle_lookup (hof s) (sv_handles s))(h := None)"
proof -
  have "tohandle M c ('':'' @ show_hex h) s = Some (h, s)" by (simp add: tohandle_def strtoul_show_hex)
  then have "skynet_command M c ''KILL'' (Some ('':'' @ show_hex h)) s = do { s \<leftarrow> handle_exit M c h s; Some (None, s) }"
    using assms(4) by (simp add: skynet_command_def cmd_funcs_def cmd_kill_def)
  with handle_exit_result [OF assms] show ?thesis by auto
qed

theorem kill_retires_witness:
  "\<exists>s x s'. sv_ctxs s 0 = Some x \<and> handle_lookup (hof s) (sv_handles s) (cx_handle x) = Some 0 \<and>
     skynet_command demo_modules 0 ''KILL'' (Some ('':'' @ show_hex (cx_handle x))) (s\<lparr>sv_monitor_exit := 0\<rparr>) = Some (None, s') \<and>
     handle_lookup (hof s') (sv_handles s') (cx_handle x) = None"
proof -
  from demo_reach obtain s x where s: "life_reach demo_modules (s, (\<lambda>_. 0)(0 := 1), {0})" "sv_ctxs s 0 = Some x"
    "handle_lookup (hof s) (sv_handles s) (cx_handle x) = Some 0" "cx_handle x \<noteq> 0" by blast
  have inv: "server_inv ((\<lambda>_. 0)(0 := 1)) {0} s" using life_reach_inv [OF demo_quiet s(1)] by (simp add: life_inv_def)
  let ?s = "s\<lparr>sv_monitor_exit := 0\<rparr>"
  have "server_inv ((\<lambda>_. 0)(0 := 1)) {0} ?s" using inv by (simp add: server_inv_monitor)
  from kill_retires [OF this demo_quiet, of 0 "cx_handle x"] s obtain s' where
    s': "skynet_command demo_modules 0 ''KILL'' (Some ('':'' @ show_hex (cx_handle x))) ?s = Some (None, s')"
    "handle_lookup (hof s') (sv_handles s') (cx_handle x) = None" by auto
  with s(2,3) show ?thesis by blast
qed

text \<open>A session is always a positive 31-bit number: \<open>skynet_context_newsession\<close> returns the next number after
  the last session, and restarts at 1 when the counter wraps (or was ever out of range); it changes
  nothing but that counter, which is the session it returned.\<close>

theorem newsession_positive:
  assumes "sv_ctxs s c = Some x"
  shows "\<exists>n. skynet_context_newsession c s = Some (n, s\<lparr>sv_ctxs := (sv_ctxs s)(c \<mapsto> x\<lparr>cx_session_id := word_of_int n\<rparr>)\<rparr>) \<and>
    0 < n \<and> n < 2 ^ 31 \<and>
    n = (if 0 \<le> sint (cx_session_id x) \<and> sint (cx_session_id x) < 2 ^ 31 - 1 then sint (cx_session_id x) + 1 else 1)"
proof -
  let ?i = "sint (cx_session_id x)"
  have range: "- (2 ^ 31) \<le> ?i" "?i < 2 ^ 31"
    using sint_greater_eq [of "cx_session_id x"] sint_less [of "cx_session_id x"] by simp_all
  have next_id: "sint (cx_session_id x + 1) = (if ?i = 2 ^ 31 - 1 then - (2 ^ 31) else ?i + 1)"
    using sint_next [of "cx_session_id x"] .
  show ?thesis
  proof (cases "0 \<le> ?i \<and> ?i < 2 ^ 31 - 1")
    case True
    then have "sint (cx_session_id x + 1) = ?i + 1" using next_id by simp
    moreover from this have "word_of_int (?i + 1) = cx_session_id x + 1" by simp
    ultimately show ?thesis using True assms by (simp add: skynet_context_newsession_def upd_ctx_def)
  next
    case False
    then have "sint (cx_session_id x + 1) \<le> 0" using next_id range by (auto split: if_splits)
    then show ?thesis using False assms by (auto simp: skynet_context_newsession_def upd_ctx_def)
  qed
qed

theorem newsession_positive_witness:
  "\<exists>n. skynet_context_newsession 0 (demo_node\<lparr>sv_ctxs := [0 \<mapsto> (blank_context ''a'' False)\<lparr>cx_session_id := 0x7FFFFFFF\<rparr>]\<rparr>) =
     Some (n, demo_node\<lparr>sv_ctxs := [0 \<mapsto> (blank_context ''a'' False)\<lparr>cx_session_id := word_of_int n\<rparr>]\<rparr>) \<and> 0 < n \<and> n = 1"
  using newsession_positive [of "demo_node\<lparr>sv_ctxs := [0 \<mapsto> (blank_context ''a'' False)\<lparr>cx_session_id := 0x7FFFFFFF\<rparr>]\<rparr>" 0
      "(blank_context ''a'' False)\<lparr>cx_session_id := 0x7FFFFFFF\<rparr>"]
  by simp

text \<open>Watching for endless loops. When a monitor is checked again after fewer than 2 to the 32 triggers, the
  check marks the service that is being dispatched as endless exactly when there was no trigger in
  between, so that its callback has not returned; with a trigger in between, or with no dispatch going
  on, it changes nothing but the version it remembers.\<close>

theorem monitor_detects_endless:
  assumes "server_inv refs held s" "quiet_release M" "mn_check_version sm = mn_version sm" "length ts < 2 ^ 32"
  defines "sm' \<equiv> fold (\<lambda>(source, destination). skynet_monitor_trigger source destination) ts sm"
  shows "if ts = [] \<and> mn_destination sm \<noteq> 0
    then \<exists>s'. skynet_monitor_check M sm' s = Some (sm, s') \<and> server_inv refs held s' \<and>
      sv_ctxs s' = (case handle_lookup (hof s) (sv_handles s) (mn_destination sm) of
          None \<Rightarrow> sv_ctxs s
        | Some d \<Rightarrow> (sv_ctxs s)(d := map_option (\<lambda>x. x\<lparr>cx_endless := True\<rparr>) (sv_ctxs s d)))
    else skynet_monitor_check M sm' s = Some (sm'\<lparr>mn_check_version := mn_version sm'\<rparr>, s)"
proof (cases "ts = [] \<and> mn_destination sm \<noteq> 0")
  case True
  from endless_result [OF assms(1,2)] obtain s1 where
    s1: "skynet_context_endless M (mn_destination sm) s = Some s1" "server_inv refs held s1"
    "sv_ctxs s1 = (case handle_lookup (hof s) (sv_handles s) (mn_destination sm) of
          None \<Rightarrow> sv_ctxs s
        | Some d \<Rightarrow> (sv_ctxs s)(d := map_option (\<lambda>x. x\<lparr>cx_endless := True\<rparr>) (sv_ctxs s d)))" by blast
  from error_result [OF s1(2) assms(2), of None] obtain l mq where
    e: "skynet_error M None (''A message from [ :'' @ hex8 (mn_source sm) @ '' ] to [ :'' @ hex8 (mn_destination sm)
                      @ '' ] maybe in an endless loop (version = '' @ show_int (sint (mn_version sm)) @ '')'') s1 =
      Some (s1\<lparr>sv_logger := l, sv_mq := mq\<rparr>)" "server_inv refs held (s1\<lparr>sv_logger := l, sv_mq := mq\<rparr>)" by blast
  let ?s = "s1\<lparr>sv_logger := l, sv_mq := mq\<rparr>"
  have "skynet_monitor_check M sm' s = Some (sm, ?s)"
    using True assms(3) s1(1) e(1) by (simp add: skynet_monitor_check_def sm'_def)
  moreover have "sv_ctxs ?s = sv_ctxs s1" by simp
  ultimately show ?thesis using True e(2) s1(3) by metis
next
  case False
  note v = triggers_version [of ts sm, folded sm'_def]
  show ?thesis
  proof (cases "ts = []")
    case True
    then show ?thesis using False assms(3) by (simp add: skynet_monitor_check_def sm'_def)
  next
    case False
    then have "mn_version sm' \<noteq> mn_check_version sm'" using v assms(3,4) of_nat_inj_u32 [of "length ts"] by auto
    then show ?thesis using False by (simp add: skynet_monitor_check_def)
  qed
qed

theorem monitor_detects_endless_witness:
  "\<exists>s x s' y. sv_ctxs s 0 = Some x \<and> sv_ctxs s' 0 = Some y \<and> cx_endless y \<and>
     skynet_monitor_check demo_modules \<lparr>mn_version = 5, mn_check_version = 5, mn_source = 1, mn_destination = cx_handle x\<rparr> s =
     Some (\<lparr>mn_version = 5, mn_check_version = 5, mn_source = 1, mn_destination = cx_handle x\<rparr>, s')"
proof -
  from demo_reach obtain s x where s: "life_reach demo_modules (s, (\<lambda>_. 0)(0 := 1), {0})" "sv_ctxs s 0 = Some x"
    "handle_lookup (hof s) (sv_handles s) (cx_handle x) = Some 0" "cx_handle x \<noteq> 0" by blast
  have inv: "server_inv ((\<lambda>_. 0)(0 := 1)) {0} s" using life_reach_inv [OF demo_quiet s(1)] by (simp add: life_inv_def)
  let ?sm = "\<lparr>mn_version = 5, mn_check_version = 5, mn_source = 1, mn_destination = cx_handle x\<rparr>"
  from monitor_detects_endless [OF inv demo_quiet, of ?sm "[]"] s(2-4) obtain s' where
    s': "skynet_monitor_check demo_modules ?sm s = Some (?sm, s')"
    "sv_ctxs s' = (sv_ctxs s)(0 \<mapsto> x\<lparr>cx_endless := True\<rparr>)" by auto
  from s'(2) have "sv_ctxs s' 0 = Some (x\<lparr>cx_endless := True\<rparr>)" by simp
  with s(2) s'(1) show ?thesis by (intro exI conjI) (assumption | simp)+
qed

text \<open>Names and handles as text. After REG has registered a free local name for the calling service, QUERY by
  any service finds it: it answers with the colon form of the handle, and both that text and the
  dotted name convert back to exactly that handle. The invariant of the server is kept.\<close>

theorem reg_query_roundtrip:
  assumes "server_inv refs held s" "sv_ctxs s c = Some x" "sv_ctxs s d = Some y" "cx_handle x \<noteq> 0"
    "name_table (sv_handles s) name = None" "hs_name_cap (sv_handles s) * 2 \<le> MAX_SLOT_SIZE"
  shows "\<exists>s1 s2. skynet_command M c ''REG'' (Some (''.'' @ name)) s = Some (Some name, s1) \<and> server_inv refs held s1 \<and>
    skynet_command M d ''QUERY'' (Some (''.'' @ name)) s1 = Some (Some ('':'' @ show_hex (cx_handle x)), s2) \<and>
    tohandle M d ('':'' @ show_hex (cx_handle x)) s2 = Some (cx_handle x, s2) \<and>
    tohandle M d (''.'' @ name) s2 = Some (cx_handle x, s2)"
proof -
  have wf: "slots_wf (hof s) (sv_handles s)" "names_wf (sv_handles s)"
    using server_invD(1) [OF assms(1)] by (simp_all add: registry_wf_def)
  from namehandle_result [OF wf(2) assms(6), where name = name and h = "cx_handle x"] assms(5) obtain hs where
    hs: "skynet_handle_namehandle (cx_handle x) name (sv_handles s) = Some (Some name, hs)" "names_wf hs"
    "name_table hs = (name_table (sv_handles s))(name \<mapsto> cx_handle x)"
    "hs = (sv_handles s)\<lparr>hs_name := hs_name hs, hs_name_cap := hs_name_cap hs, hs_name_count := Suc (hs_name_count (sv_handles s))\<rparr>"
    by auto
  let ?s1 = "s\<lparr>sv_handles := hs\<rparr>"
  have reg: "skynet_command M c ''REG'' (Some (''.'' @ name)) s = Some (Some name, ?s1)"
    using hs(1) assms(2) by (simp add: skynet_command_def cmd_funcs_def cmd_reg_def ctx_handle_def)
  have inv: "server_inv refs held ?s1" by (rule server_inv_names [OF assms(1) hs(2,4)])
  have find: "skynet_handle_findname name hs = Some (cx_handle x)" using findname_result [OF hs(2), of name] hs(3) by simp
  let ?t = "'':'' @ show_hex (cx_handle x)"
  let ?s2 = "?s1\<lparr>sv_ctxs := (sv_ctxs s)(d \<mapsto> y\<lparr>cx_result := ?t\<rparr>)\<rparr>"
  have query: "skynet_command M d ''QUERY'' (Some (''.'' @ name)) ?s1 = Some (Some ?t, ?s2)"
    using find assms(3,4) by (simp add: skynet_command_def cmd_funcs_def cmd_query_def set_result_def upd_ctx_def)
  have "tohandle M d ?t ?s2 = Some (cx_handle x, ?s2)" "tohandle M d (''.'' @ name) ?s2 = Some (cx_handle x, ?s2)"
    using find by (simp_all add: tohandle_def strtoul_show_hex)
  with reg inv query show ?thesis by blast
qed

theorem reg_query_roundtrip_witness:
  "\<exists>s x s1 s2. sv_ctxs s 0 = Some x \<and> skynet_command demo_modules 0 ''REG'' (Some ''.db'') s = Some (Some ''db'', s1) \<and>
     skynet_command demo_modules 0 ''QUERY'' (Some ''.db'') s1 = Some (Some ('':'' @ show_hex (cx_handle x)), s2)"
proof -
  from demo_named [of "''db''"] obtain s :: "unit server" and x where s: "server_inv ((\<lambda>_. 0)(0 := 1)) {0} s" "sv_ctxs s 0 = Some x" "cx_handle x \<noteq> 0"
    "name_table (sv_handles s) ''db'' = None" "hs_name_cap (sv_handles s) * 2 \<le> MAX_SLOT_SIZE" by blast
  from reg_query_roundtrip [OF s(1) s(2) s(2) s(3-5), of demo_modules] s(2) show ?thesis by auto
qed

end
