(* ===== verification/Dispatch.thy ===== *)
theory Dispatch
  imports Commands
begin

unbundle bit_operations_syntax

section \<open>Dispatching the messages of a queue\<close>

text \<open>
  What one call of \<open>skynet_context_message_dispatch\<close> does with the queue a worker holds: how many messages
  it takes, in which order the callback gets them, what it frees, and which queue the worker goes on with.
\<close>

text \<open>A callback that acts on the module's own state only: whether it keeps the message, and what it does.\<close>

definition local_callback ::
  "'x modules \<Rightarrow> (payload skynet_message \<Rightarrow> bool) \<Rightarrow> (ctxid \<Rightarrow> payload skynet_message \<Rightarrow> 'x \<Rightarrow> 'x) \<Rightarrow> bool" where
  "local_callback M keep act \<longleftrightarrow>
     (\<forall>c m s. md_cb M c (msg_type m) (msg_session m) (msg_source m) (msg_data m) (msg_size m) s =
        Some (if keep m then 1 else 0, s\<lparr>sv_ext := act c m (sv_ext s)\<rparr>))"

definition serving :: "(ctxid \<Rightarrow> nat) \<Rightarrow> mqid set \<Rightarrow> ctxid \<Rightarrow> mqid \<Rightarrow> 'x server \<Rightarrow> bool" where
  "serving refs held c q s \<longleftrightarrow>
     server_inv refs held s \<and> 0 < refs c \<and> c \<in> registered_ctxs s \<and> q \<in> held \<and>
     (\<exists>x. sv_ctxs s c = Some x \<and> cx_init x \<and> cx_cb x \<and> cx_queue x = q) \<and>
     sv_logger s = 0 \<and> skynet_handle_findname ''logger'' (sv_handles s) = Some 0"

definition freed_by :: "(payload skynet_message \<Rightarrow> bool) \<Rightarrow> payload skynet_message list \<Rightarrow> payload list" where
  "freed_by keep ms = concat (map (\<lambda>m. if keep m then [] else case msg_data m of Some p \<Rightarrow> [p] | None \<Rightarrow> []) ms)"

lemma servingD:
  assumes "serving refs held c q s"
  shows "server_inv refs held s" "0 < refs c" "q \<in> held" "mq_live (sv_mq s) q"
    "sv_logger s = 0" "skynet_handle_findname ''logger'' (sv_handles s) = Some 0"
    "\<exists>x. sv_ctxs s c = Some x \<and> cx_init x \<and> cx_cb x \<and> cx_queue x = q" "c \<in> registered_ctxs s"
  using assms ctx_live [of refs held s c] by (auto simp: serving_def)

lemma serving_mq:
  "serving refs held c q s \<Longrightarrow> server_inv refs held (s\<lparr>sv_mq := mq\<rparr>) \<Longrightarrow> serving refs held c q (s\<lparr>sv_mq := mq\<rparr>)"
  by (simp add: serving_def registered_ctxs_def)

lemma mq_msgs_wf:
  assumes "server_inv refs held s" "mq_msgs (sv_mq s) q = Some ms"
  shows "\<exists>mq. mqs (sv_mq s) q = Some mq \<and> mq_contents mq = ms \<and> mq_wf mq \<and> skynet_mq_length mq = int (length ms)"
proof -
  from assms(2) obtain mq where mq: "mqs (sv_mq s) q = Some mq" "mq_contents mq = ms" by (auto simp: mq_msgs_def)
  with server_invD(2) [OF assms(1)] have "mq_wf mq" by (auto simp: sched_inv_def mq_ok_def)
  with mq mq_length_count mq_contents_length [of mq] show ?thesis by auto
qed

subsection \<open>One message\<close>

lemma serving_pop:
  assumes "serving refs held c q s" "mq_msgs (sv_mq s) q = Some (m # ms)"
  shows "\<exists>mq. pop_queue q s = Some (Some m, s\<lparr>sv_mq := mq\<rparr>) \<and> serving refs held c q (s\<lparr>sv_mq := mq\<rparr>) \<and>
    mq_msgs mq = (mq_msgs (sv_mq s))(q \<mapsto> ms)"
proof -
  note D = servingD [OF assms(1)]
  from mq_msgs_wf [OF D(1) assms(2)] obtain mq where
    mq: "mqs (sv_mq s) q = Some mq" "mq_contents mq = m # ms" "mq_wf mq" by auto
  from mq_pop_nonempty [OF mq(3,2)] obtain mq' where mq': "skynet_mq_pop mq = Some (Some m, mq')" "mq_contents mq' = ms" by blast
  let ?s = "s\<lparr>sv_mq := put_mq q mq' (sv_mq s)\<rparr>"
  have pop: "pop_queue q s = Some (Some m, ?s)" using mq(1) mq'(1) by (simp add: pop_queue_def)
  from pop_queue_inv [OF D(1,3,4) pop] have "server_inv refs held ?s" by simp
  moreover have "mq_msgs (put_mq q mq' (sv_mq s)) = (mq_msgs (sv_mq s))(q \<mapsto> ms)"
    using mq'(2) by (auto simp: mq_msgs_def put_mq_def fun_eq_iff)
  ultimately show ?thesis using pop serving_mq [OF assms(1)] by blast
qed

lemma serving_overload:
  assumes "serving refs held c q s" "mq_msgs (sv_mq s) q = Some ms"
  shows "\<exists>n mq. overload_queue q s = Some (n, s\<lparr>sv_mq := mq\<rparr>) \<and> serving refs held c q (s\<lparr>sv_mq := mq\<rparr>) \<and> mq_msgs mq = mq_msgs (sv_mq s)"
proof -
  note D = servingD [OF assms(1)]
  from mq_msgs_wf [OF D(1) assms(2)] obtain mq where mq: "mqs (sv_mq s) q = Some mq" by auto
  let ?mq = "put_mq q (snd (skynet_mq_overload mq)) (sv_mq s)"
  have o: "overload_queue q s = Some (fst (skynet_mq_overload mq), s\<lparr>sv_mq := ?mq\<rparr>)"
    using mq by (simp add: overload_queue_def split: prod.split)
  from overload_queue_inv [OF D(1) o] have "server_inv refs held (s\<lparr>sv_mq := ?mq\<rparr>)" by simp
  moreover have "mq_contents (snd (skynet_mq_overload mq)) = mq_contents mq"
    by (simp add: skynet_mq_overload_def mq_contents_def mq_cells_def mq_count_def)
  then have "mq_msgs ?mq = mq_msgs (sv_mq s)" using mq by (auto simp: mq_msgs_def put_mq_def fun_eq_iff)
  ultimately show ?thesis using o serving_mq [OF assms(1)] by blast
qed

text \<open>Changing what the invariant does not look at: the module's state, the freed blocks, the log, the current handle.\<close>

lemma server_inv_rest:
  assumes "server_inv refs held s" "sv_ctxs s' = sv_ctxs s" "sv_handles s' = sv_handles s" "sv_mq s' = sv_mq s"
    "sv_next s' = sv_next s" "sv_next_mq s' = sv_next_mq s"
  shows "server_inv refs held s'"
proof -
  have "ctx_ok refs s' d" for d
    using server_invD(3) [OF assms(1), of d] assms(2-4) by (cases "sv_ctxs s d") (simp_all add: ctx_ok_def registered_ctxs_def)
  then show ?thesis using assms hof_cong [OF assms(2)] by (simp add: server_inv_def queues_apart_def alloc_ok_def)
qed

lemma serving_rest:
  assumes "serving refs held c q s" "sv_ctxs s' = sv_ctxs s" "sv_handles s' = sv_handles s" "sv_mq s' = sv_mq s"
    "sv_next s' = sv_next s" "sv_next_mq s' = sv_next_mq s" "sv_logger s' = sv_logger s"
  shows "serving refs held c q s'"
  using assms server_inv_rest [OF servingD(1) [OF assms(1)] assms(2-6)] by (simp add: serving_def registered_ctxs_def)

lemma serving_ctx:
  assumes "serving refs held c q s" "sv_ctxs s c = Some x" "cx_handle y = cx_handle x" "cx_queue y = cx_queue x" "cx_ref y = cx_ref x"
    "cx_init y = cx_init x" "cx_cb y = cx_cb x"
  shows "serving refs held c q (s\<lparr>sv_ctxs := (sv_ctxs s)(c \<mapsto> y)\<rparr>)"
proof -
  note D = servingD [OF assms(1)]
  from ctx_live [OF D(1), of c] D(2) assms(2) have "cx_ref x = int (refs c) + (if c \<in> registered_ctxs s then 1 else 0)" by auto
  with D(2) have "server_inv refs held (s\<lparr>sv_ctxs := (sv_ctxs s)(c \<mapsto> y)\<rparr>)"
    by (intro server_inv_ctx [OF D(1) assms(2-4)]) (auto simp: assms(5))
  then show ?thesis using assms D by (auto simp: serving_def registered_ctxs_def)
qed

definition same_work :: "'x server \<Rightarrow> 'x server \<Rightarrow> bool" where
  "same_work s s' \<longleftrightarrow> sv_ext s' = sv_ext s \<and> sv_freed s' = sv_freed s \<and> sv_mq s' = sv_mq s"

lemma upd_serving:
  assumes "serving refs held c q s"
    "\<And>x. cx_handle (f x) = cx_handle x \<and> cx_queue (f x) = cx_queue x \<and> cx_ref (f x) = cx_ref x \<and> cx_init (f x) = cx_init x \<and>
       cx_cb (f x) = cx_cb x"
  shows "\<exists>s'. upd_ctx c f s = Some s' \<and> serving refs held c q s' \<and> same_work s s'"
proof -
  from servingD(7) [OF assms(1)] obtain x where x: "sv_ctxs s c = Some x" by blast
  from serving_ctx [OF assms(1) x, of "f x"] assms(2) x show ?thesis by (simp add: upd_ctx_def same_work_def)
qed

lemma callback_serving:
  assumes "serving refs held c q s" "local_callback M keep act"
  shows "\<exists>s'. md_cb M c (msg_type m) (msg_session m) (msg_source m) (msg_data m) (msg_size m) s = Some (if keep m then 1 else 0, s') \<and>
    serving refs held c q s' \<and> sv_ext s' = act c m (sv_ext s) \<and> sv_freed s' = sv_freed s \<and> sv_mq s' = sv_mq s"
  using assms(2) serving_rest [OF assms(1), of "s\<lparr>sv_ext := act c m (sv_ext s)\<rparr>"] by (simp add: local_callback_def)

lemma server_dispatch_result:
  assumes "serving refs held c q s" "local_callback M keep act"
  shows "\<exists>s'. server_dispatch M c m s = Some s' \<and> serving refs held c q s' \<and> sv_ext s' = act c m (sv_ext s) \<and>
    sv_freed s' = sv_freed s @ freed_by keep [m] \<and> sv_mq s' = sv_mq s"
proof -
  from servingD(7) [OF assms(1)] obtain x where x: "sv_ctxs s c = Some x" "cx_init x" by blast
  let ?s0 = "s\<lparr>sv_current := cx_handle x\<rparr>"
  let ?s1 = "if cx_logfile x
     then log_act (cx_handle x) (LogOutput (msg_source m) (msg_type m) (msg_session m) (msg_data m) (msg_size m)) ?s0 else ?s0"
  have s1: "serving refs held c q ?s1" "same_work s ?s1"
    using serving_rest [OF assms(1), of ?s1] by (simp_all add: log_act_def same_work_def)
  from upd_serving [OF s1(1), of "\<lambda>x. x\<lparr>cx_message_count := cx_message_count x + 1\<rparr>"] obtain s2 where
    s2: "upd_ctx c (\<lambda>x. x\<lparr>cx_message_count := cx_message_count x + 1\<rparr>) ?s1 = Some s2" "serving refs held c q s2" "same_work ?s1 s2"
    by auto
  let ?cb = "\<lambda>s. md_cb M c (msg_type m) (msg_session m) (msg_source m) (msg_data m) (msg_size m) s"
  let ?r = "if keep m then 1 else 0 :: int"
  have run: "\<exists>s3. (if cx_profile x then
       do { s \<leftarrow> upd_ctx c (\<lambda>x. x\<lparr>cx_cpu_start := md_time M s2\<rparr>) s2; (r, s) \<leftarrow> ?cb s;
            s \<leftarrow> upd_ctx c (\<lambda>x. x\<lparr>cx_cpu_cost := cx_cpu_cost x + (md_time M s - cx_cpu_start x)\<rparr>) s; Some (r, s) }
       else ?cb s2) = Some (?r, s3) \<and> serving refs held c q s3 \<and> sv_ext s3 = act c m (sv_ext s2) \<and> sv_freed s3 = sv_freed s2 \<and>
       sv_mq s3 = sv_mq s2"
  proof (cases "cx_profile x")
    case True
    from upd_serving [OF s2(2), of "\<lambda>x. x\<lparr>cx_cpu_start := md_time M s2\<rparr>"] obtain t1 where
      t1: "upd_ctx c (\<lambda>x. x\<lparr>cx_cpu_start := md_time M s2\<rparr>) s2 = Some t1" "serving refs held c q t1" "same_work s2 t1" by auto
    from callback_serving [OF t1(2) assms(2), of m] obtain t2 where
      t2: "?cb t1 = Some (?r, t2)" "serving refs held c q t2" "sv_ext t2 = act c m (sv_ext t1)" "sv_freed t2 = sv_freed t1"
      "sv_mq t2 = sv_mq t1" by blast
    from upd_serving [OF t2(2), of "\<lambda>x. x\<lparr>cx_cpu_cost := cx_cpu_cost x + (md_time M t2 - cx_cpu_start x)\<rparr>"] obtain t3 where
      t3: "upd_ctx c (\<lambda>x. x\<lparr>cx_cpu_cost := cx_cpu_cost x + (md_time M t2 - cx_cpu_start x)\<rparr>) t2 = Some t3"
      "serving refs held c q t3" "same_work t2 t3" by auto
    from True t1 t2 t3 show ?thesis by (intro exI [of _ t3]) (simp add: same_work_def)
  next
    case False
    with callback_serving [OF s2(2) assms(2), of m] show ?thesis by simp
  qed
  then obtain s3 where s3: "(if cx_profile x then
       do { s \<leftarrow> upd_ctx c (\<lambda>x. x\<lparr>cx_cpu_start := md_time M s2\<rparr>) s2; (r, s) \<leftarrow> ?cb s;
            s \<leftarrow> upd_ctx c (\<lambda>x. x\<lparr>cx_cpu_cost := cx_cpu_cost x + (md_time M s - cx_cpu_start x)\<rparr>) s; Some (r, s) }
       else ?cb s2) = Some (?r, s3)" "serving refs held c q s3" "sv_ext s3 = act c m (sv_ext s2)" "sv_freed s3 = sv_freed s2"
       "sv_mq s3 = sv_mq s2" by blast
  let ?s4 = "if ?r = 0 then free_data (msg_data m) s3 else s3"
  have "server_dispatch M c m s = Some ?s4"
    using x s2(1) s3(1) by (simp add: server_dispatch_def Let_def)
  moreover have "serving refs held c q ?s4" by (rule serving_rest [OF s3(2)]) (simp_all add: free_data_def split: option.split)
  moreover have "sv_ext ?s4 = act c m (sv_ext s)" "sv_mq ?s4 = sv_mq s" "sv_freed ?s4 = sv_freed s @ freed_by keep [m]"
    using s1(2) s2(3) s3(3-5) by (auto simp: same_work_def free_data_def freed_by_def split: option.split)
  ultimately show ?thesis by blast
qed

lemma dispatch_one_result:
  assumes "serving refs held c q s" "local_callback M keep act" "mq_msgs (sv_mq s) q = Some ms"
  shows "\<exists>sm' s'. dispatch_one M c h q m (sm, s) = Some (sm', s') \<and> serving refs held c q s' \<and> sv_ext s' = act c m (sv_ext s) \<and>
    sv_freed s' = sv_freed s @ freed_by keep [m] \<and> mq_msgs (sv_mq s') = mq_msgs (sv_mq s)"
proof -
  from serving_overload [OF assms(1,3)] obtain n mq where
    o: "overload_queue q s = Some (n, s\<lparr>sv_mq := mq\<rparr>)" "serving refs held c q (s\<lparr>sv_mq := mq\<rparr>)" "mq_msgs mq = mq_msgs (sv_mq s)"
    by blast
  let ?s = "s\<lparr>sv_mq := mq\<rparr>"
  have e: "skynet_error M (Some c) t ?s = Some ?s" for t by (rule no_logger) (use servingD(5,6) [OF o(2)] in auto)
  from servingD(7) [OF o(2)] obtain x where x: "sv_ctxs ?s c = Some x" "cx_cb x" by blast
  from server_dispatch_result [OF o(2) assms(2), of m] obtain s' where
    s': "server_dispatch M c m ?s = Some s'" "serving refs held c q s'" "sv_ext s' = act c m (sv_ext s)"
    "sv_freed s' = sv_freed s @ freed_by keep [m]" "sv_mq s' = mq" by auto
  have "dispatch_one M c h q m (sm, s) = Some (skynet_monitor_trigger 0 0 (skynet_monitor_trigger (msg_source m) h sm), s')"
    using o(1) e x s'(1) by (simp add: dispatch_one_def)
  with s' o(3) show ?thesis by auto
qed

subsection \<open>A batch\<close>

lemma freed_by_append: "freed_by keep (xs @ ys) = freed_by keep xs @ freed_by keep ys"
  by (simp add: freed_by_def)

lemma dispatch_rest_result:
  assumes "serving refs held c q s" "local_callback M keep act" "mq_msgs (sv_mq s) q = Some ms" "n \<le> length ms"
  shows "\<exists>sm' s'. dispatch_rest M c h q n (sm, s) = Some (False, sm', s') \<and> serving refs held c q s' \<and>
    sv_ext s' = fold (act c) (take n ms) (sv_ext s) \<and> sv_freed s' = sv_freed s @ freed_by keep (take n ms) \<and>
    mq_msgs (sv_mq s') = (mq_msgs (sv_mq s))(q \<mapsto> drop n ms)"
  using assms(1,3,4)
proof (induction n arbitrary: s sm ms)
  case 0
  then show ?case by (auto simp: freed_by_def)
next
  case (Suc n)
  then obtain m ms' where ms: "ms = m # ms'" by (cases ms) auto
  from serving_pop [OF Suc.prems(1)] Suc.prems(2) ms obtain mq where
    p: "pop_queue q s = Some (Some m, s\<lparr>sv_mq := mq\<rparr>)" "serving refs held c q (s\<lparr>sv_mq := mq\<rparr>)"
    "mq_msgs mq = (mq_msgs (sv_mq s))(q \<mapsto> ms')" by blast
  have here: "mq_msgs (sv_mq (s\<lparr>sv_mq := mq\<rparr>)) q = Some ms'" using p(3) by simp
  from dispatch_one_result [OF p(2) assms(2) here, of h m sm] obtain sm1 s1 where
    d: "dispatch_one M c h q m (sm, s\<lparr>sv_mq := mq\<rparr>) = Some (sm1, s1)" "serving refs held c q s1" "sv_ext s1 = act c m (sv_ext s)"
    "sv_freed s1 = sv_freed s @ freed_by keep [m]" "mq_msgs (sv_mq s1) = (mq_msgs (sv_mq s))(q \<mapsto> ms')" using p(3) by auto
  have "mq_msgs (sv_mq s1) q = Some ms'" "n \<le> length ms'" using d(5) Suc.prems(3) ms by simp_all
  from Suc.IH [OF d(2) this, of sm1] obtain sm2 s2 where
    r: "dispatch_rest M c h q n (sm1, s1) = Some (False, sm2, s2)" "serving refs held c q s2"
    "sv_ext s2 = fold (act c) (take n ms') (sv_ext s1)" "sv_freed s2 = sv_freed s1 @ freed_by keep (take n ms')"
    "mq_msgs (sv_mq s2) = (mq_msgs (sv_mq s1))(q \<mapsto> drop n ms')" by blast
  have "dispatch_rest M c h q (Suc n) (sm, s) = Some (False, sm2, s2)" using p(1) d(1) r(1) by simp
  moreover have "sv_freed s2 = sv_freed s @ freed_by keep (take (Suc n) ms)"
    using r(4) d(4) ms freed_by_append [of keep "[m]" "take n ms'"] by simp
  ultimately show ?case using r(2,3,5) d(3,5) ms by (intro exI [of _ sm2] exI [of _ s2]) auto
qed

text \<open>The size of a batch: one message for a negative weight, else the length after the first one divided by 2 to the weight.\<close>

definition batch_size :: "int \<Rightarrow> nat \<Rightarrow> nat" where
  "batch_size weight len = (if weight < 0 then 1 else max 1 (len div 2 ^ nat weight))"

lemma dispatch_batch_result:
  fixes weight :: int
  assumes "serving refs held c q s" "local_callback M keep act" "mq_msgs (sv_mq s) q = Some (m # ms)"
  defines "k \<equiv> batch_size weight (length ms)"
  shows "\<exists>sm' s'. dispatch_batch M weight c h q (sm, s) = Some (False, sm', s') \<and> serving refs held c q s' \<and>
    sv_ext s' = fold (act c) (take k (m # ms)) (sv_ext s) \<and> sv_freed s' = sv_freed s @ freed_by keep (take k (m # ms)) \<and>
    mq_msgs (sv_mq s') = (mq_msgs (sv_mq s))(q \<mapsto> drop k (m # ms))"
proof -
  from serving_pop [OF assms(1,3)] obtain mq where
    p: "pop_queue q s = Some (Some m, s\<lparr>sv_mq := mq\<rparr>)" "serving refs held c q (s\<lparr>sv_mq := mq\<rparr>)"
    "mq_msgs mq = (mq_msgs (sv_mq s))(q \<mapsto> ms)" by blast
  have here: "mq_msgs (sv_mq (s\<lparr>sv_mq := mq\<rparr>)) q = Some ms" using p(3) by simp
  from mq_msgs_wf [OF servingD(1) [OF p(2)] here] obtain mq1 where
    len: "mqs mq q = Some mq1" "skynet_mq_length mq1 = int (length ms)" by auto
  let ?n = "if 0 \<le> weight then drop_bit (nat weight) (skynet_mq_length mq1) else 1"
  have "drop_bit (nat weight) (int (length ms)) = int (length ms div 2 ^ nat weight)"
    by (simp add: drop_bit_eq_div zdiv_int)
  then have n: "nat (?n - 1) = k - 1" "k - 1 \<le> length ms" "0 < k"
    using div_le_dividend [of "length ms" "2 ^ nat weight"] by (auto simp: k_def batch_size_def len(2) simp del: div_le_dividend)
  from dispatch_one_result [OF p(2) assms(2) here, of h m sm] obtain sm1 s1 where
    d: "dispatch_one M c h q m (sm, s\<lparr>sv_mq := mq\<rparr>) = Some (sm1, s1)" "serving refs held c q s1" "sv_ext s1 = act c m (sv_ext s)"
    "sv_freed s1 = sv_freed s @ freed_by keep [m]" "mq_msgs (sv_mq s1) = (mq_msgs (sv_mq s))(q \<mapsto> ms)" using p(3) by auto
  have "mq_msgs (sv_mq s1) q = Some ms" using d(5) by simp
  from dispatch_rest_result [OF d(2) assms(2) this n(2), of h sm1] obtain sm2 s2 where
    r: "dispatch_rest M c h q (k - 1) (sm1, s1) = Some (False, sm2, s2)" "serving refs held c q s2"
    "sv_ext s2 = fold (act c) (take (k - 1) ms) (sv_ext s1)" "sv_freed s2 = sv_freed s1 @ freed_by keep (take (k - 1) ms)"
    "mq_msgs (sv_mq s2) = (mq_msgs (sv_mq s1))(q \<mapsto> drop (k - 1) ms)" by blast
  have "dispatch_batch M weight c h q (sm, s) = Some (False, sm2, s2)"
    using p(1) len(1) d(1) r(1) n(1) by (simp add: dispatch_batch_def Let_def)
  moreover have "take k (m # ms) = m # take (k - 1) ms" "drop k (m # ms) = drop (k - 1) ms" using n(3) by (cases k; simp)+
  moreover have "sv_freed s2 = sv_freed s @ freed_by keep (m # take (k - 1) ms)"
    using r(4) d(4) freed_by_append [of keep "[m]" "take (k - 1) ms"] by simp
  ultimately show ?thesis using r(2,3,5) d(3,5) by (intro exI [of _ sm2] exI [of _ s2]) auto
qed

subsection \<open>A call of the dispatcher\<close>

lemma global_pop_result:
  assumes "server_inv refs held s"
  shows "global_pop s = Some (None, s) \<or>
    (\<exists>i mq. global_pop s = Some (Some i, s\<lparr>sv_mq := mq\<rparr>) \<and> i \<notin> held \<and> server_inv refs (insert i held) (s\<lparr>sv_mq := mq\<rparr>) \<and>
       mq_msgs mq = mq_msgs (sv_mq s))"
proof -
  from server_invD(2) [OF assms] obtain xs where xs: "sched_inv (sv_mq s) held xs" by blast
  from sched_take [OF xs] show ?thesis
  proof
    assume "skynet_globalmq_pop (sv_mq s) = Some (None, sv_mq s) \<and> xs = []"
    then show ?thesis by (simp add: global_pop_def)
  next
    assume "\<exists>i ys st'. xs = i # ys \<and> skynet_globalmq_pop (sv_mq s) = Some (Some i, st') \<and> i \<notin> held \<and> sched_inv st' (insert i held) ys"
    then obtain i ys mq where i: "xs = i # ys" "skynet_globalmq_pop (sv_mq s) = Some (Some i, mq)" "i \<notin> held" by blast
    then have pop: "global_pop s = Some (Some i, s\<lparr>sv_mq := mq\<rparr>)" by (simp add: global_pop_def)
    have "mq_core mq = mq_core (sv_mq s)"
      using globalmq_pop_result [of "sv_mq s" i ys] xs i by (auto simp: sched_inv_def)
    then have "mq_msgs mq = mq_msgs (sv_mq s)" using core_same(2) [of mq _ "sv_mq s"] by (simp add: fun_eq_iff)
    with pop i(3) take_inv [OF assms pop] show ?thesis by blast
  qed
qed

lemma global_push_result:
  assumes "server_inv refs held s" "q \<in> held"
  shows "\<exists>mq. skynet_globalmq_push q (sv_mq s) = Some mq \<and> server_inv refs (held - {q}) (s\<lparr>sv_mq := mq\<rparr>) \<and> mq_msgs mq = mq_msgs (sv_mq s)"
proof -
  from server_invD(2) [OF assms(1)] obtain xs where xs: "sched_inv (sv_mq s) held xs" by blast
  from sched_give [OF xs assms(2)] obtain mq where
    mq: "skynet_globalmq_push q (sv_mq s) = Some mq" "sched_inv mq (held - {q}) (xs @ [q])" by blast
  note core = globalmq_push_frame [OF mq(1)]
  from core have "mq_msgs mq = mq_msgs (sv_mq s)" using core_same(2) [of mq _ "sv_mq s"] by (simp add: fun_eq_iff)
  with mq globalmq_inv [OF assms(1) core mq(2)] show ?thesis by blast
qed

text \<open>The end of the call: the worker takes the next queue and gives its own back, or keeps its own when there is none.\<close>

definition next_queue :: "mqid \<Rightarrow> 'x server \<Rightarrow> (mqid option \<times> 'x server) option" where
  "next_queue q s =
     do { (nq, s) \<leftarrow> global_pop s;
          s \<leftarrow> (if nq \<noteq> None then map_option (\<lambda>mq. s\<lparr>sv_mq := mq\<rparr>) (skynet_globalmq_push q (sv_mq s)) else Some s);
          Some (nq, s) }"

lemma next_queue_result:
  assumes "server_inv refs held s" "q \<in> held"
  shows "\<exists>nq mq held'. next_queue q s = Some (nq, s\<lparr>sv_mq := mq\<rparr>) \<and> server_inv refs held' (s\<lparr>sv_mq := mq\<rparr>) \<and>
    mq_msgs mq = mq_msgs (sv_mq s) \<and> (if nq \<noteq> None then the nq else q) \<in> held' \<and>
    (case nq of None \<Rightarrow> held' = held | Some i \<Rightarrow> i \<notin> held \<and> held' = insert i (held - {q}))"
  using global_pop_result [OF assms(1)]
proof
  assume "global_pop s = Some (None, s)"
  then have "next_queue q s = Some (None, s\<lparr>sv_mq := sv_mq s\<rparr>)" by (simp add: next_queue_def)
  with assms show ?thesis by (intro exI [of _ None] exI [of _ "sv_mq s"] exI [of _ held]) simp
next
  assume "\<exists>i mq. global_pop s = Some (Some i, s\<lparr>sv_mq := mq\<rparr>) \<and> i \<notin> held \<and> server_inv refs (insert i held) (s\<lparr>sv_mq := mq\<rparr>) \<and>
       mq_msgs mq = mq_msgs (sv_mq s)"
  then obtain i mq where i: "global_pop s = Some (Some i, s\<lparr>sv_mq := mq\<rparr>)" "i \<notin> held"
    "server_inv refs (insert i held) (s\<lparr>sv_mq := mq\<rparr>)" "mq_msgs mq = mq_msgs (sv_mq s)" by blast
  from global_push_result [OF i(3), of q] assms(2) obtain mq2 where
    mq2: "skynet_globalmq_push q mq = Some mq2" "server_inv refs (insert i held - {q}) (s\<lparr>sv_mq := mq2\<rparr>)" "mq_msgs mq2 = mq_msgs mq"
    by auto
  have "i \<noteq> q" using i(2) assms(2) by auto
  then have "insert i held - {q} = insert i (held - {q})" by auto
  moreover have "next_queue q s = Some (Some i, s\<lparr>sv_mq := mq2\<rparr>)" using i(1) mq2(1) by (simp add: next_queue_def)
  ultimately show ?thesis using i(2,4) mq2(2,3)
    by (intro exI [of _ "Some i"] exI [of _ mq2] exI [of _ "insert i (held - {q})"]) simp
qed

lemma release_same:
  assumes "server_inv (refs(c := Suc (refs c))) held s" "quiet_release M" "c \<in> registered_ctxs s"
  shows "\<exists>ctxs. skynet_context_release M c s = Some (Some c, s\<lparr>sv_ctxs := ctxs\<rparr>) \<and> server_inv refs held (s\<lparr>sv_ctxs := ctxs\<rparr>)"
proof -
  let ?refs = "refs(c := Suc (refs c))"
  have held: "0 < ?refs c" and same: "?refs(c := ?refs c - 1) = refs" by simp_all
  from context_release_inv [OF assms(1,2) held, unfolded same] assms(3) show ?thesis by auto
qed

definition ready :: "ctxid \<Rightarrow> mqid \<Rightarrow> 'x server \<Rightarrow> bool" where
  "ready c q s \<longleftrightarrow>
     (\<exists>mq x. mqs (sv_mq s) q = Some mq \<and> handle_lookup (hof s) (sv_handles s) (skynet_mq_handle mq) = Some c \<and>
        sv_ctxs s c = Some x \<and> cx_init x \<and> cx_cb x \<and> cx_queue x = q) \<and>
     sv_logger s = 0 \<and> skynet_handle_findname ''logger'' (sv_handles s) = Some 0"

lemma dispatch_queue_result:
  fixes weight :: int
  assumes "quiet_release M" "local_callback M keep act" "server_inv refs held s" "q \<in> held" "ready c q s"
    "mq_msgs (sv_mq s) q = Some (m # ms)"
  defines "k \<equiv> batch_size weight (length ms)"
  shows "\<exists>r sm' s' held'. dispatch_queue M q weight (sm, s) = Some (Some r, sm', s') \<and>
    server_inv refs held' s' \<and> r \<in> held' \<and> (held' = held \<and> r = q \<or> r \<notin> held \<and> held' = insert r (held - {q})) \<and>
    sv_ext s' = fold (act c) (take k (m # ms)) (sv_ext s) \<and> sv_freed s' = sv_freed s @ freed_by keep (take k (m # ms)) \<and>
    mq_msgs (sv_mq s') = (mq_msgs (sv_mq s))(q \<mapsto> drop k (m # ms))"
proof -
  let ?refs = "refs(c := Suc (refs c))"
  from assms(5) obtain mq x where mq: "mqs (sv_mq s) q = Some mq" and look: "handle_lookup (hof s) (sv_handles s) (skynet_mq_handle mq) = Some c"
    and x: "sv_ctxs s c = Some x" "cx_init x" "cx_cb x" "cx_queue x = q"
    and log: "sv_logger s = 0" "skynet_handle_findname ''logger'' (sv_handles s) = Some 0" by (auto simp: ready_def)
  let ?h = "skynet_mq_handle mq"
  let ?s1 = "s\<lparr>sv_ctxs := (sv_ctxs s)(c \<mapsto> x\<lparr>cx_ref := cx_ref x + 1\<rparr>)\<rparr>"
  from handle_grab_inv [OF assms(3), of ?h] look x(1) have
    g: "skynet_handle_grab ?h s = Some (Some c, ?s1)" "server_inv ?refs held ?s1" by auto
  have "c \<in> registered_ctxs s" using lookup_registered [OF assms(3)] look by simp
  then have serv: "serving ?refs held c q ?s1" using g(2) x log assms(4) by (simp add: serving_def registered_ctxs_def)
  from dispatch_batch_result [OF serv assms(2), of m ms weight ?h sm] assms(6) obtain sm2 s2 where
    b: "dispatch_batch M weight c ?h q (sm, ?s1) = Some (False, sm2, s2)" "serving ?refs held c q s2"
    "sv_ext s2 = fold (act c) (take k (m # ms)) (sv_ext s)" "sv_freed s2 = sv_freed s @ freed_by keep (take k (m # ms))"
    "mq_msgs (sv_mq s2) = (mq_msgs (sv_mq s))(q \<mapsto> drop k (m # ms))" by (auto simp: k_def)
  note D = servingD [OF b(2)]
  from D(7) obtain y where y: "sv_ctxs s2 c = Some y" "cx_queue y = q" by blast
  from next_queue_result [OF D(1,3)] obtain nq mq3 held' where
    n: "next_queue q s2 = Some (nq, s2\<lparr>sv_mq := mq3\<rparr>)" "server_inv ?refs held' (s2\<lparr>sv_mq := mq3\<rparr>)" "mq_msgs mq3 = mq_msgs (sv_mq s2)"
    "(if nq \<noteq> None then the nq else q) \<in> held'"
    "case nq of None \<Rightarrow> held' = held | Some i \<Rightarrow> i \<notin> held \<and> held' = insert i (held - {q})" by blast
  have "c \<in> registered_ctxs (s2\<lparr>sv_mq := mq3\<rparr>)" using D(8) by (simp add: registered_ctxs_def)
  from release_same [OF n(2) assms(1) this] obtain ctxs where
    r: "skynet_context_release M c (s2\<lparr>sv_mq := mq3\<rparr>) = Some (Some c, s2\<lparr>sv_mq := mq3, sv_ctxs := ctxs\<rparr>)"
    "server_inv refs held' (s2\<lparr>sv_mq := mq3, sv_ctxs := ctxs\<rparr>)" by blast
  have "dispatch_queue M q weight (sm, s) =
      do { (nq, s) \<leftarrow> next_queue q s2; (_, s) \<leftarrow> skynet_context_release M c s; Some (if nq \<noteq> None then nq else Some q, sm2, s) }"
    using mq g(1) b(1) y by (cases "global_pop s2") (auto simp: dispatch_queue_def next_queue_def Option.bind_assoc)
  then have "dispatch_queue M q weight (sm, s) = Some (Some (if nq \<noteq> None then the nq else q), sm2, s2\<lparr>sv_mq := mq3, sv_ctxs := ctxs\<rparr>)"
    using n(1) r(1) by auto
  moreover have "held' = held \<and> (if nq \<noteq> None then the nq else q) = q \<or>
      (if nq \<noteq> None then the nq else q) \<notin> held \<and> held' = insert (if nq \<noteq> None then the nq else q) (held - {q})"
    using n(5) by (cases nq) simp_all
  ultimately show ?thesis using r(2) n(3,4) b(3-5)
    by (intro exI [of _ "if nq \<noteq> None then the nq else q"] exI [of _ sm2] exI [of _ "s2\<lparr>sv_mq := mq3, sv_ctxs := ctxs\<rparr>"] exI [of _ held']) simp
qed

subsection \<open>Properties\<close>


subsection \<open>A service that records the types of its messages\<close>

definition echo_modules :: "nat list modules" where
  "echo_modules = \<lparr>md_query = (\<lambda>_. True), md_create = (\<lambda>_. True), md_init = (\<lambda>_ _ _ s. Some (0, s)),
     md_release = (\<lambda>_ _ s. Some s), md_signal = (\<lambda>_ _ _ s. Some s),
     md_cb = (\<lambda>_ type _ _ _ _ s. Some (0, s\<lparr>sv_ext := sv_ext s @ [type]\<rparr>)), md_time = (\<lambda>_. 0), md_open = (\<lambda>_. False)\<rparr>"

lemma echo_quiet: "quiet_release echo_modules"
  by (simp add: quiet_release_def echo_modules_def)

lemma echo_callback: "local_callback echo_modules (\<lambda>_. False) (\<lambda>_ m xs. xs @ [msg_type m])"
  by (simp add: local_callback_def echo_modules_def)

lemma mq_push_handle:
  assumes "skynet_mq_push i m st = Some st'" "mqs st i = Some q"
  shows "\<exists>q'. mqs st' i = Some q' \<and> mq_handle q' = mq_handle q"
proof -
  from assms obtain q1 where q1: "mq_store_message m q = Some q1" by (auto simp: skynet_mq_push_def split: bind_splits)
  have "\<exists>g. mq_core st' i = Some (q1\<lparr>mq_in_global := g, mq_next := None\<rparr>)"
  proof (cases "mq_in_global q1 = 0")
    case True
    with assms q1 have "skynet_globalmq_push i (put_mq i (q1\<lparr>mq_in_global := MQ_IN_GLOBAL\<rparr>) st) = Some st'"
      by (simp add: skynet_mq_push_def)
    from globalmq_push_frame [OF this] show ?thesis by (auto simp: put_mq_core)
  next
    case False
    then have "st' = put_mq i (q1\<lparr>mq_in_global := mq_in_global q1\<rparr>) st" using assms q1 by (simp add: skynet_mq_push_def)
    then show ?thesis by (intro exI [of _ "mq_in_global q1"]) (simp add: put_mq_core)
  qed
  then obtain g q' where q': "mqs st' i = Some q'" "q'\<lparr>mq_next := None\<rparr> = q1\<lparr>mq_in_global := g, mq_next := None\<rparr>"
    by (auto simp: mq_core_def)
  have "mq_handle q' = mq_handle (q'\<lparr>mq_next := None\<rparr>)" by simp
  also have "\<dots> = mq_handle q1" by (simp add: q'(2))
  finally show ?thesis using q'(1) mq_store_frame [OF q1] by simp
qed

lemma echo_ready:
  "\<exists>s. server_inv ((\<lambda>_. 0)(0 := 1)) {0} s \<and> ready 0 0 s \<and> mq_msgs (sv_mq s) 0 = Some [m] \<and> sv_ext s = ([] :: nat list)"
proof -
  let ?n = "server_init [] 1 False (skynet_timer_init 0 0 0 0) :: nat list server"
  have inv: "server_inv (\<lambda>_. 0) {} ?n" using life_init [of "[] :: nat list" 1 False] by (simp add: life_inv_def)
  have room: "card (registered_ctxs ?n) < 2 ^ 24" by (simp add: registered_ctxs_def init_contexts)
  from context_alloc_inv [OF inv room, of "''a''"] obtain s x where
    s: "context_alloc ''a'' ?n = Some (0, 0, s)" "sv_ctxs s 0 = Some x" "server_inv ((\<lambda>_. 0)(0 := 1)) {0} s"
    and look: "handle_lookup (hof s) (sv_handles s) (cx_handle x) = Some 0" by auto
  from s(1) have c: "sv_handles s = (skynet_handle_init 1)\<lparr>hs_slot := [None, Some 0, None, None], hs_index := 2\<rparr>"
    "sv_ctxs s 0 = Some ((blank_context ''a'' (sv_profile ?n))\<lparr>cx_handle := 0x1000001, cx_queue := 0\<rparr>)"
    "sv_mq s = put_mq 0 (skynet_mq_create 0x1000001) skynet_mq_init" "sv_ext s = sv_ext ?n" "sv_logger s = sv_logger ?n"
    by (auto simp: context_alloc_def Let_def upd_ctx_def context_inc_def demo_register split: bind_splits)
  have x: "x = (blank_context ''a'' (sv_profile ?n))\<lparr>cx_handle := 0x1000001, cx_queue := 0\<rparr>" using c(2) s(2) by simp
  let ?y = "x\<lparr>cx_init := True, cx_cb := True\<rparr>" let ?s = "s\<lparr>sv_ctxs := (sv_ctxs s)(0 \<mapsto> ?y)\<rparr>"
  from ctx_live [OF s(3), of 0] s(2) have "cx_ref x = 1 + (if 0 \<in> registered_ctxs s then 1 else 0)" by auto
  then have inv2: "server_inv ((\<lambda>_. 0)(0 := 1)) {0} ?s" by (intro server_inv_ctx [OF s(3,2)]) auto
  have "0 < ((\<lambda>_ :: ctxid. 0 :: nat)(0 := 1)) 0 \<or> 0 \<in> registered_ctxs ?s" by simp
  from mq_push_ctx_inv [OF inv2 this, of m] obtain y mq ms where
    p: "mq_push_ctx 0 m ?s = Some (?s\<lparr>sv_mq := mq\<rparr>)" "server_inv ((\<lambda>_. 0)(0 := 1)) {0} (?s\<lparr>sv_mq := mq\<rparr>)"
    "sv_ctxs ?s 0 = Some y" "mq_msgs (sv_mq ?s) (cx_queue y) = Some ms" "mq_msgs mq = (mq_msgs (sv_mq ?s))(cx_queue y \<mapsto> ms @ [m])"
    by blast
  have y: "cx_queue y = 0" using p(3) x by auto
  then have ms: "ms = []" using p(4) c(3) by (simp add: mq_msgs_def put_mq_def mq_create_wf)
  from p(1) x obtain mq' where push: "skynet_mq_push 0 m (sv_mq s) = Some mq'" "?s\<lparr>sv_mq := mq'\<rparr> = ?s\<lparr>sv_mq := mq\<rparr>"
    by (auto simp: mq_push_ctx_def split: bind_splits)
  from arg_cong [OF push(2), of sv_mq] push(1) have "skynet_mq_push 0 m (sv_mq s) = Some mq" by simp
  from mq_push_handle [OF this] c(3) obtain q where q: "mqs mq 0 = Some q" "mq_handle q = 0x1000001"
    by (auto simp: put_mq_def skynet_mq_create_def)
  let ?t = "?s\<lparr>sv_mq := mq\<rparr>"
  have "hof ?t = hof s" using s(2) by (auto simp: hof_def fun_eq_iff)
  then have "handle_lookup (hof ?t) (sv_handles ?t) (skynet_mq_handle q) = Some 0" using look q(2) x by (simp add: skynet_mq_handle_def)
  moreover have "skynet_handle_findname ''logger'' (sv_handles ?t) = Some 0"
    using c(1) by (simp add: skynet_handle_findname_def skynet_handle_init_def name_search.simps)
  ultimately have "ready 0 0 ?t"
    using q(1) c(5) x unfolding ready_def by (auto simp: server_init_def skynet_profile_enable_def skynet_harbor_init_def
        skynet_globalinit_def skynet_initthread_def)
  moreover have "mq_msgs (sv_mq ?t) 0 = Some [m]" using p(5) y ms by simp
  moreover have "sv_ext ?t = []" using c(4)
    by (simp add: server_init_def skynet_profile_enable_def skynet_harbor_init_def skynet_globalinit_def skynet_initthread_def)
  ultimately show ?thesis using p(2) by blast
qed


end
