(* ===== verification/Seri.thy ===== *)
theory Seri
  imports Prelude
begin

unbundle bit_operations_syntax

section \<open>The serialiser of Lua values (\<open>lua-seri.c\<close>)\<close>

text \<open>
  \<open>luaseri_pack\<close> writes Lua values into a chain of blocks and copies the chain into one buffer;
  \<open>luaseri_unpack\<close> reads the values back. A Lua value is a datatype: the bits of a double and of a pointer
  are words, a table is its entries in the order \<open>lua_next\<close> gives them, and a table with a \<open>__pairs\<close>
  metamethod is the sequence that its iterator yields. What belongs to the Lua library is a parameter:
  \<open>rawlen\<close>, the border that \<open>lua_rawlen\<close> chooses, and \<open>real_key\<close>, the key under which a table stores a
  double (an integer when it is integral, none for a NaN).
\<close>

subsection \<open>Values\<close>

datatype lua_val =
    LNil
  | LBool bool
  | LInt u64
  | LReal u64
  | LStr bytes
  | LPtr u64
  | LTable "(lua_val \<times> lua_val) list"
  | LPairs "(lua_val \<times> lua_val) list"
  | LOther string

definition TYPE_NIL :: int where "TYPE_NIL = 0"
definition TYPE_BOOLEAN :: int where "TYPE_BOOLEAN = 1"
definition TYPE_NUMBER :: int where "TYPE_NUMBER = 2"
definition TYPE_NUMBER_ZERO :: int where "TYPE_NUMBER_ZERO = 0"
definition TYPE_NUMBER_BYTE :: int where "TYPE_NUMBER_BYTE = 1"
definition TYPE_NUMBER_WORD :: int where "TYPE_NUMBER_WORD = 2"
definition TYPE_NUMBER_DWORD :: int where "TYPE_NUMBER_DWORD = 4"
definition TYPE_NUMBER_QWORD :: int where "TYPE_NUMBER_QWORD = 6"
definition TYPE_NUMBER_REAL :: int where "TYPE_NUMBER_REAL = 8"
definition TYPE_USERDATA :: int where "TYPE_USERDATA = 3"
definition TYPE_SHORT_STRING :: int where "TYPE_SHORT_STRING = 4"
definition TYPE_LONG_STRING :: int where "TYPE_LONG_STRING = 5"
definition TYPE_TABLE :: int where "TYPE_TABLE = 6"
definition MAX_COOKIE :: int where "MAX_COOKIE = 32"
definition BLOCK_SIZE :: nat where "BLOCK_SIZE = 128"
definition MAX_DEPTH :: nat where "MAX_DEPTH = 32"

definition COMBINE_TYPE :: "int \<Rightarrow> int \<Rightarrow> u8" where
  "COMBINE_TYPE t v = word_of_int (t OR push_bit 3 v)"

text \<open>The bytes of a number as the processor stores it, least significant first.\<close>

fun le_bytes :: "nat \<Rightarrow> nat \<Rightarrow> bytes" where
  "le_bytes 0 x = []"
| "le_bytes (Suc n) x = of_nat (x mod 256) # le_bytes n (x div 256)"

fun le_num :: "bytes \<Rightarrow> nat" where
  "le_num [] = 0"
| "le_num (b # bs) = unat b + 256 * le_num bs"

subsection \<open>Writing\<close>

text \<open>
  The chain of blocks from \<open>head\<close> to \<open>current\<close>, each with the bytes written to it; \<open>ptr\<close> is the number of
  bytes in the current block.
\<close>

record write_block =
  wb_blocks :: "bytes list"
  wb_current :: bytes
  wb_len :: nat

definition wb_init :: write_block where
  "wb_init = \<lparr>wb_blocks = [], wb_current = [], wb_len = 0\<rparr>"

text \<open>\<open>wb_push\<close>: from the label \<open>_again\<close> on a new block is current.\<close>

definition wb_room :: "write_block \<Rightarrow> write_block" where
  "wb_room b = (if length (wb_current b) = BLOCK_SIZE
     then b\<lparr>wb_blocks := wb_blocks b @ [wb_current b], wb_current := []\<rparr> else b)"

function wb_push :: "bytes \<Rightarrow> write_block \<Rightarrow> write_block" where
  "wb_push buf b =
     (let b = wb_room b in
      if length (wb_current b) + length buf \<le> BLOCK_SIZE
      then b\<lparr>wb_current := wb_current b @ buf, wb_len := wb_len b + length buf\<rparr>
      else (let copy = BLOCK_SIZE - length (wb_current b) in
            if copy = 0 then b
            else wb_push (drop copy buf) (b\<lparr>wb_current := wb_current b @ take copy buf, wb_len := wb_len b + copy\<rparr>)))"
  by pat_completeness auto
termination
  by (relation "measure (\<lambda>(buf, b). length buf)") auto

declare wb_push.simps [simp del]

definition wb_nil :: "write_block \<Rightarrow> write_block" where
  "wb_nil wb = wb_push [word_of_int TYPE_NIL] wb"

definition wb_boolean :: "bool \<Rightarrow> write_block \<Rightarrow> write_block" where
  "wb_boolean boolean wb = wb_push [COMBINE_TYPE TYPE_BOOLEAN (if boolean then 1 else 0)] wb"

definition wb_integer :: "u64 \<Rightarrow> write_block \<Rightarrow> write_block" where
  "wb_integer v wb =
     (let v32 = word_of_int (sint v) :: u32 in
      if v = 0 then wb_push [COMBINE_TYPE TYPE_NUMBER TYPE_NUMBER_ZERO] wb
      else if sint v \<noteq> sint v32 then
        wb_push (le_bytes 8 (unat v)) (wb_push [COMBINE_TYPE TYPE_NUMBER TYPE_NUMBER_QWORD] wb)
      else if sint v < 0 then
        wb_push (le_bytes 4 (unat v32)) (wb_push [COMBINE_TYPE TYPE_NUMBER TYPE_NUMBER_DWORD] wb)
      else if sint v < 0x100 then
        wb_push (le_bytes 1 (unat v)) (wb_push [COMBINE_TYPE TYPE_NUMBER TYPE_NUMBER_BYTE] wb)
      else if sint v < 0x10000 then
        wb_push (le_bytes 2 (unat v)) (wb_push [COMBINE_TYPE TYPE_NUMBER TYPE_NUMBER_WORD] wb)
      else wb_push (le_bytes 4 (unat v32)) (wb_push [COMBINE_TYPE TYPE_NUMBER TYPE_NUMBER_DWORD] wb))"

definition wb_real :: "u64 \<Rightarrow> write_block \<Rightarrow> write_block" where
  "wb_real v wb = wb_push (le_bytes 8 (unat v)) (wb_push [COMBINE_TYPE TYPE_NUMBER TYPE_NUMBER_REAL] wb)"

definition wb_pointer :: "u64 \<Rightarrow> write_block \<Rightarrow> write_block" where
  "wb_pointer v wb = wb_push (le_bytes 8 (unat v)) (wb_push [word_of_int TYPE_USERDATA] wb)"

text \<open>The length of the string becomes an \<open>int\<close>.\<close>

definition wb_string :: "bytes \<Rightarrow> write_block \<Rightarrow> write_block" where
  "wb_string str wb =
     (let len = sint (of_nat (length str) :: u32) in
      if len < MAX_COOKIE then
        (let wb = wb_push [COMBINE_TYPE TYPE_SHORT_STRING len] wb in if 0 < len then wb_push str wb else wb)
      else
        (let wb = (if len < 0x10000
                   then wb_push (le_bytes 2 (length str)) (wb_push [COMBINE_TYPE TYPE_LONG_STRING 2] wb)
                   else wb_push (le_bytes 4 (length str)) (wb_push [COMBINE_TYPE TYPE_LONG_STRING 4] wb))
         in wb_push str wb))"

text \<open>\<open>lua_rawgeti\<close> on the entries of a table.\<close>

definition rawgeti :: "(lua_val \<times> lua_val) list \<Rightarrow> nat \<Rightarrow> lua_val" where
  "rawgeti t i = (case map_of t (LInt (of_nat i)) of Some v \<Rightarrow> v | None \<Rightarrow> LNil)"

text \<open>The values that \<open>wb_table_array\<close> packs, and the header before them.\<close>

definition array_head :: "int \<Rightarrow> write_block \<Rightarrow> write_block" where
  "array_head array_size wb =
     (if MAX_COOKIE - 1 \<le> array_size
      then wb_integer (word_of_int array_size) (wb_push [COMBINE_TYPE TYPE_TABLE (MAX_COOKIE - 1)] wb)
      else wb_push [COMBINE_TYPE TYPE_TABLE array_size] wb)"

text \<open>The test of \<open>wb_table_hash\<close>: an integer key that the array part has packed.\<close>

definition in_array :: "int \<Rightarrow> lua_val \<Rightarrow> bool" where
  "in_array array_size k = (case k of LInt x \<Rightarrow> 0 < sint x \<and> sint x \<le> array_size | _ \<Rightarrow> False)"

text \<open>The pairs that an iterator yields before a nil key.\<close>

definition yielded :: "(lua_val \<times> lua_val) list \<Rightarrow> (lua_val \<times> lua_val) list" where
  "yielded kvs = takeWhile (\<lambda>kv. fst kv \<noteq> LNil) kvs"

definition flat :: "('a \<times> 'a) list \<Rightarrow> 'a list" where
  "flat kvs = concat (map (\<lambda>(k, v). [k, v]) kvs)"

text \<open>
  \<open>pack_one\<close> with \<open>wb_table\<close>, \<open>wb_table_array\<close>, \<open>wb_table_hash\<close> and \<open>wb_table_metapairs\<close>; \<open>pack_all\<close> packs the
  values of a table one after another at its depth. \<open>array_size\<close> is an \<open>int\<close>.
\<close>

function (sequential) pack_one :: "((lua_val \<times> lua_val) list \<Rightarrow> nat) \<Rightarrow> nat \<Rightarrow> lua_val \<Rightarrow> write_block \<Rightarrow> write_block lua_result"
  and pack_all :: "((lua_val \<times> lua_val) list \<Rightarrow> nat) \<Rightarrow> nat \<Rightarrow> lua_val list \<Rightarrow> write_block \<Rightarrow> write_block lua_result" where
  "pack_one rawlen depth v wb =
     (if MAX_DEPTH < depth then LuaError ''serialize can't pack too depth table''
      else
        (case v of
           LNil \<Rightarrow> LuaOk (wb_nil wb)
         | LInt x \<Rightarrow> LuaOk (wb_integer x wb)
         | LReal x \<Rightarrow> LuaOk (wb_real x wb)
         | LBool b \<Rightarrow> LuaOk (wb_boolean b wb)
         | LStr s \<Rightarrow> LuaOk (wb_string s wb)
         | LPtr p \<Rightarrow> LuaOk (wb_pointer p wb)
         | LPairs kvs \<Rightarrow>
             (case pack_all rawlen (Suc depth) (flat (yielded kvs)) (wb_push [COMBINE_TYPE TYPE_TABLE 0] wb) of
                LuaOk wb \<Rightarrow> LuaOk (wb_nil wb)
              | LuaError e \<Rightarrow> LuaError e)
         | LTable kvs \<Rightarrow>
             (let array_size = sint (of_nat (rawlen kvs) :: u32) in
              case pack_all rawlen (Suc depth)
                     (map (rawgeti kvs) [1..<Suc (nat array_size)] @ flat (filter (\<lambda>kv. \<not> in_array array_size (fst kv)) kvs))
                     (array_head array_size wb) of
                LuaOk wb \<Rightarrow> LuaOk (wb_nil wb)
              | LuaError e \<Rightarrow> LuaError e)
         | LOther t \<Rightarrow> LuaError (''Unsupport type '' @ t @ '' to serialize'')))"
| "pack_all rawlen depth [] wb = LuaOk wb"
| "pack_all rawlen depth (v # vs) wb =
     (case pack_one rawlen depth v wb of
        LuaOk wb \<Rightarrow> pack_all rawlen depth vs wb
      | LuaError e \<Rightarrow> LuaError e)"
  by pat_completeness auto
termination
  by (relation "inv_image (less_than <*lex*> less_than)
      (\<lambda>x. case x of Inl (r, d, v, wb) \<Rightarrow> (2 * (34 - d), 0) | Inr (r, d, vs, wb) \<Rightarrow> (Suc (2 * (34 - d)), length vs))")
    (auto simp: MAX_DEPTH_def)

declare pack_one.simps [simp del]

definition pack_from :: "((lua_val \<times> lua_val) list \<Rightarrow> nat) \<Rightarrow> lua_val list \<Rightarrow> write_block \<Rightarrow> write_block lua_result" where
  "pack_from rawlen vs wb = pack_all rawlen 0 vs wb"

text \<open>\<open>seri\<close> copies whole blocks while at least a block is left, then the rest; a null block or bytes that were not written abort.\<close>

function seri :: "bytes list \<Rightarrow> nat \<Rightarrow> bytes option" where
  "seri bs len =
     (if len = 0 then Some []
      else if BLOCK_SIZE \<le> len then
        (case bs of
           b # bs' \<Rightarrow> do { assert_opt (length b = BLOCK_SIZE); r \<leftarrow> seri bs' (len - BLOCK_SIZE); Some (b @ r) }
         | [] \<Rightarrow> None)
      else (case bs of b # bs' \<Rightarrow> do { assert_opt (len \<le> length b); Some (take len b) } | [] \<Rightarrow> None))"
  by pat_completeness auto
termination
  by (relation "measure (\<lambda>(bs, len). len)") (auto simp: BLOCK_SIZE_def)

declare seri.simps [simp del]

text \<open>The length is an \<open>int\<close>, whose sums must stay below 2 to the 31.\<close>

definition luaseri_pack :: "((lua_val \<times> lua_val) list \<Rightarrow> nat) \<Rightarrow> lua_val list \<Rightarrow> (bytes lua_result) option" where
  "luaseri_pack rawlen vs =
     (case pack_from rawlen vs wb_init of
        LuaOk wb \<Rightarrow> do { assert_opt (wb_len wb < 2 ^ 31); r \<leftarrow> seri (wb_blocks wb @ [wb_current wb]) (wb_len wb); Some (LuaOk r) }
      | LuaError e \<Rightarrow> Some (LuaError e))"

subsection \<open>Reading\<close>

text \<open>
  A read block is what is left to read. Reading gives a value and the rest, or a Lua error: an invalid stream,
  a NaN as a key, a null buffer, or a string that is too big. The last comes from a string length with its top
  bit set: it is a negative \<open>int\<close>, which passes the test of \<open>rb_read\<close>, and \<open>lua_pushlstring\<close> refuses it as a size.
\<close>

datatype seri_error = Invalid | NaN_key | Too_big | Null_pointer

datatype 'a reading = Got 'a bytes | Bad seri_error

definition rb_read :: "nat \<Rightarrow> bytes \<Rightarrow> (bytes \<times> bytes) option" where
  "rb_read sz rb = (if length rb < sz then None else Some (take sz rb, drop sz rb))"

definition read_num :: "nat \<Rightarrow> (nat \<Rightarrow> 'a) \<Rightarrow> bytes \<Rightarrow> 'a reading" where
  "read_num sz f rb = (case rb_read sz rb of Some (p, rb) \<Rightarrow> Got (f (le_num p)) rb | None \<Rightarrow> Bad Invalid)"

definition get_integer :: "int \<Rightarrow> bytes \<Rightarrow> u64 reading" where
  "get_integer cookie rb =
     (if cookie = TYPE_NUMBER_ZERO then Got 0 rb
      else if cookie = TYPE_NUMBER_BYTE then read_num 1 of_nat rb
      else if cookie = TYPE_NUMBER_WORD then read_num 2 of_nat rb
      else if cookie = TYPE_NUMBER_DWORD then read_num 4 (\<lambda>n. word_of_int (sint (of_nat n :: u32))) rb
      else if cookie = TYPE_NUMBER_QWORD then read_num 8 of_nat rb
      else Bad Invalid)"

definition get_real :: "bytes \<Rightarrow> u64 reading" where
  "get_real rb = read_num 8 of_nat rb"

definition get_pointer :: "bytes \<Rightarrow> u64 reading" where
  "get_pointer rb = read_num 8 of_nat rb"

definition get_buffer :: "int \<Rightarrow> bytes \<Rightarrow> lua_val reading" where
  "get_buffer len rb =
     (if int (length rb) < len then Bad Invalid
      else if len < 0 then Bad Too_big
      else Got (LStr (take (nat len) rb)) (drop (nat len) rb))"

definition get_long :: "int \<Rightarrow> bytes \<Rightarrow> lua_val reading" where
  "get_long cookie rb =
     (if cookie = 2 then
        (case rb_read 2 rb of Some (p, rb) \<Rightarrow> get_buffer (int (le_num p)) rb | None \<Rightarrow> Bad Invalid)
      else if cookie \<noteq> 4 then Bad Invalid
      else
        (case rb_read 4 rb of Some (p, rb) \<Rightarrow> get_buffer (sint (of_nat (le_num p) :: u32)) rb | None \<Rightarrow> Bad Invalid))"

text \<open>
  \<open>lua_rawset\<close>: a nil value removes the entry; a key that is a new table equals no other key; a double is
  stored under its \<open>real_key\<close>, and a NaN is an error.
\<close>

definition raw_key :: "(u64 \<Rightarrow> lua_val option) \<Rightarrow> lua_val \<Rightarrow> lua_val option" where
  "raw_key real_key k = (case k of LReal r \<Rightarrow> real_key r | _ \<Rightarrow> Some k)"

definition rawset :: "lua_val \<Rightarrow> lua_val \<Rightarrow> (lua_val \<times> lua_val) list \<Rightarrow> (lua_val \<times> lua_val) list" where
  "rawset k v t =
     (let t = (case k of LTable _ \<Rightarrow> t | _ \<Rightarrow> filter (\<lambda>kv. fst kv \<noteq> k) t) in if v = LNil then t else t @ [(k, v)])"

text \<open>Reading in sequence: anything but a value ends it.\<close>

definition then_read :: "'a reading \<Rightarrow> ('a \<Rightarrow> bytes \<Rightarrow> 'b reading) \<Rightarrow> 'b reading" where
  "then_read r g = (case r of Got v rb \<Rightarrow> g v rb | Bad e \<Rightarrow> Bad e)"

definition then_opt :: "'a reading option \<Rightarrow> ('a \<Rightarrow> bytes \<Rightarrow> 'b reading option) \<Rightarrow> 'b reading option" where
  "then_opt r g =
     do { r \<leftarrow> r;
          (case r of Got v rb \<Rightarrow> g v rb | Bad e \<Rightarrow> Some (Bad e)) }"

text \<open>The array size of \<open>unpack_table\<close>: an extended header is a number that is not a double, truncated to \<open>int\<close>.\<close>

definition table_size :: "int \<Rightarrow> bytes \<Rightarrow> int reading" where
  "table_size cookie rb =
     (if cookie = MAX_COOKIE - 1 then
        (case rb of
           [] \<Rightarrow> Bad Invalid
         | type # rb \<Rightarrow>
             (let c = uint (drop_bit 3 type) in
              if uint (type AND 7) \<noteq> TYPE_NUMBER \<or> c = TYPE_NUMBER_REAL then Bad Invalid
              else then_read (get_integer c rb) (\<lambda>n rb. Got (sint (ucast n :: u32)) rb)))
      else Got cookie rb)"

text \<open>\<open>push_value\<close> on every type but the table.\<close>

definition push_value :: "int \<Rightarrow> int \<Rightarrow> bytes \<Rightarrow> lua_val reading" where
  "push_value type cookie rb =
     (if type = TYPE_NIL then Got LNil rb
      else if type = TYPE_BOOLEAN then Got (LBool (cookie \<noteq> 0)) rb
      else if type = TYPE_NUMBER then
        (if cookie = TYPE_NUMBER_REAL then then_read (get_real rb) (\<lambda>n. Got (LReal n))
         else then_read (get_integer cookie rb) (\<lambda>n. Got (LInt n)))
      else if type = TYPE_USERDATA then then_read (get_pointer rb) (\<lambda>n. Got (LPtr n))
      else if type = TYPE_SHORT_STRING then get_buffer cookie rb
      else if type = TYPE_LONG_STRING then get_long cookie rb
      else Bad Invalid)"

text \<open>
  \<open>unpack_one\<close> with \<open>push_value\<close> and the two loops of \<open>unpack_table\<close>, on a bound for the nesting of the calls;
  \<open>None\<close> when the bound is too small. \<open>unpack_array\<close> has \<open>n\<close> values to read, the next of them at index \<open>i\<close>.
\<close>

function (sequential) unpack_one :: "(u64 \<Rightarrow> lua_val option) \<Rightarrow> nat \<Rightarrow> bytes \<Rightarrow> lua_val reading option"
  and unpack_array :: "(u64 \<Rightarrow> lua_val option) \<Rightarrow> nat \<Rightarrow> nat \<Rightarrow> nat \<Rightarrow> (lua_val \<times> lua_val) list \<Rightarrow> bytes \<Rightarrow> lua_val reading option"
  and unpack_hash :: "(u64 \<Rightarrow> lua_val option) \<Rightarrow> nat \<Rightarrow> (lua_val \<times> lua_val) list \<Rightarrow> bytes \<Rightarrow> lua_val reading option" where
  "unpack_one rk 0 rb = None"
| "unpack_one rk (Suc f) rb =
     (case rb of
        [] \<Rightarrow> Some (Bad Invalid)
      | b # rb \<Rightarrow>
          (if uint (b AND 7) = TYPE_TABLE
           then then_opt (Some (table_size (uint (drop_bit 3 b)) rb)) (\<lambda>n rb. unpack_array rk f (nat n) 1 [] rb)
           else Some (push_value (uint (b AND 7)) (uint (drop_bit 3 b)) rb)))"
| "unpack_array rk 0 n i t rb = None"
| "unpack_array rk (Suc f) n i t rb =
     (if n = 0 then unpack_hash rk f t rb
      else then_opt (unpack_one rk f rb) (\<lambda>v rb. unpack_array rk f (n - 1) (Suc i) (rawset (LInt (of_nat i)) v t) rb))"
| "unpack_hash rk 0 t rb = None"
| "unpack_hash rk (Suc f) t rb =
     then_opt (unpack_one rk f rb) (\<lambda>k rb.
       if k = LNil then Some (Got (LTable t) rb)
       else then_opt (unpack_one rk f rb) (\<lambda>v rb.
         case raw_key rk k of
           Some k \<Rightarrow> unpack_hash rk f (rawset k v t) rb
         | None \<Rightarrow> Some (Bad NaN_key)))"
  by pat_completeness auto
termination
  by (relation "measure (\<lambda>x. case x of Inl (rk, f, rb) \<Rightarrow> f | Inr (Inl (rk, f, n, i, t, rb)) \<Rightarrow> f | Inr (Inr (rk, f, t, rb)) \<Rightarrow> f)") auto

text \<open>The loop of \<open>luaseri_unpack\<close>: values until nothing is left.\<close>

fun unpack_all :: "(u64 \<Rightarrow> lua_val option) \<Rightarrow> nat \<Rightarrow> bytes \<Rightarrow> lua_val list reading option" where
  "unpack_all rk 0 rb = None"
| "unpack_all rk (Suc f) rb =
     (if rb = [] then Some (Got [] [])
      else then_opt (unpack_one rk f rb) (\<lambda>v rb. then_opt (unpack_all rk f rb) (\<lambda>vs rb. Some (Got (v # vs) rb))))"

declare unpack_one.simps [simp del] unpack_array.simps [simp del] unpack_hash.simps [simp del] unpack_all.simps [simp del]

definition unpack_bound :: "bytes \<Rightarrow> nat" where
  "unpack_bound rb = 3 * length rb + 5"

text \<open>
  \<open>unpack_buffer\<close> is \<open>luaseri_unpack\<close> from the test of the length on, for a pointer (\<open>None\<close> is null) and the length
  given for it; memory that ends before that length is outside the model. A negative length reads nothing.
\<close>

definition unpack_buffer :: "(u64 \<Rightarrow> lua_val option) \<Rightarrow> bytes option \<Rightarrow> int \<Rightarrow> lua_val list reading option" where
  "unpack_buffer rk buffer len =
     (if len = 0 then Some (Got [] [])
      else
        (case buffer of
           None \<Rightarrow> Some (Bad Null_pointer)
         | Some b \<Rightarrow> do { assert_opt (len \<le> int (length b)); unpack_all rk (unpack_bound (take (nat len) b)) (take (nat len) b) }))"

datatype seri_arg = Arg_nil | Arg_string bytes | Arg_pointer "bytes option" u64

definition luaseri_unpack :: "(u64 \<Rightarrow> lua_val option) \<Rightarrow> seri_arg \<Rightarrow> lua_val list reading option" where
  "luaseri_unpack rk arg =
     (case arg of
        Arg_nil \<Rightarrow> Some (Got [] [])
      | Arg_string s \<Rightarrow> unpack_buffer rk (Some s) (sint (of_nat (length s) :: u32))
      | Arg_pointer p len \<Rightarrow> unpack_buffer rk p (sint (ucast len :: u32)))"

subsection \<open>The blocks hold what was pushed\<close>

definition wb_bytes :: "write_block \<Rightarrow> bytes" where
  "wb_bytes wb = concat (wb_blocks wb) @ wb_current wb"

definition wb_ok :: "write_block \<Rightarrow> bool" where
  "wb_ok wb \<longleftrightarrow> (\<forall>b \<in> set (wb_blocks wb). length b = BLOCK_SIZE) \<and> length (wb_current wb) \<le> BLOCK_SIZE \<and> wb_len wb = length (wb_bytes wb)"

lemma wb_push_result: "wb_ok wb \<Longrightarrow> wb_ok (wb_push buf wb) \<and> wb_bytes (wb_push buf wb) = wb_bytes wb @ buf"
proof (induction buf wb rule: wb_push.induct)
  case (1 buf b)
  let ?b = "wb_room b"
  have b: "wb_ok ?b" "wb_bytes ?b = wb_bytes b" "length (wb_current ?b) < BLOCK_SIZE"
    using 1(2) by (auto simp: wb_ok_def wb_bytes_def BLOCK_SIZE_def wb_room_def)
  show ?case
  proof (cases "length (wb_current ?b) + length buf \<le> BLOCK_SIZE")
    case True
    then have "wb_push buf b = ?b\<lparr>wb_current := wb_current ?b @ buf, wb_len := wb_len ?b + length buf\<rparr>"
      by (simp add: wb_push.simps [of buf b] Let_def)
    then show ?thesis using b True by (auto simp: wb_ok_def wb_bytes_def)
  next
    case False
    let ?copy = "BLOCK_SIZE - length (wb_current ?b)"
    let ?b2 = "?b\<lparr>wb_current := wb_current ?b @ take ?copy buf, wb_len := wb_len ?b + ?copy\<rparr>"
    have copy: "?copy \<noteq> 0" "?copy \<le> length buf" using b(3) False by auto
    then have push: "wb_push buf b = wb_push (drop ?copy buf) ?b2"
      using False by (simp add: wb_push.simps [of buf b] Let_def)
    have ok: "wb_ok ?b2" "wb_bytes ?b2 = wb_bytes b @ take ?copy buf"
      using b copy(2) by (auto simp: wb_ok_def wb_bytes_def)
    from 1(1) [OF refl False refl copy(1) ok(1)] show ?thesis unfolding push by (simp add: ok(2))
  qed
qed

lemmas wb_push_ok [simp] = wb_push_result [THEN conjunct1] and wb_push_bytes [simp] = wb_push_result [THEN conjunct2]

lemma wb_init_ok: "wb_ok wb_init" "wb_bytes wb_init = []"
  by (simp_all add: wb_ok_def wb_init_def wb_bytes_def)

lemma seri_blocks:
  assumes "\<forall>b \<in> set bs. length b = BLOCK_SIZE" "length c \<le> BLOCK_SIZE"
  shows "seri (bs @ [c]) (length (concat bs @ c)) = Some (concat bs @ c)"
  using assms(1)
proof (induction bs)
  case Nil
  then show ?case using assms(2) by (auto simp: seri.simps [of "[c]"] seri.simps [of "[]"])
next
  case (Cons b bs)
  then have "seri (bs @ [c]) (length (concat bs @ c)) = Some (concat bs @ c)" "length b = BLOCK_SIZE" "0 < BLOCK_SIZE"
    by (auto simp: BLOCK_SIZE_def)
  then show ?case by (subst seri.simps) simp
qed

lemma seri_result: "wb_ok wb \<Longrightarrow> seri (wb_blocks wb @ [wb_current wb]) (wb_len wb) = Some (wb_bytes wb)"
  using seri_blocks [of "wb_blocks wb" "wb_current wb"] by (simp add: wb_ok_def wb_bytes_def)

subsection \<open>Numbers and type bytes read back\<close>

lemma length_le_bytes [simp]: "length (le_bytes n x) = n"
  by (induction n arbitrary: x) auto

lemma le_num_bytes: "le_num (le_bytes n x) = x mod 256 ^ n"
proof (induction n arbitrary: x)
  case (Suc n)
  have "unat (of_nat (x mod 256) :: u8) = x mod 256" by (simp add: unat_of_nat)
  then show ?case using Suc by (simp add: mod_mult2_eq)
qed simp

lemma rb_read_append: "length a = n \<Longrightarrow> rb_read n (a @ rest) = Some (a, rest)"
  by (auto simp: rb_read_def)

lemma read_num_le: "x < 256 ^ n \<Longrightarrow> read_num n f (le_bytes n x @ rest) = Got (f x) rest"
  by (simp add: read_num_def rb_read_append le_num_bytes)

lemma COMBINE_table:
  "list_all (\<lambda>t. list_all (\<lambda>c. uint (COMBINE_TYPE t c AND 7) = t \<and> uint (drop_bit 3 (COMBINE_TYPE t c)) = c) [0..31]) [0..7]"
  by code_simp

lemma COMBINE_parts:
  assumes "0 \<le> t" "t < 8" "0 \<le> c" "c < 32"
  shows "uint (COMBINE_TYPE t c AND 7) = t" "uint (drop_bit 3 (COMBINE_TYPE t c)) = c"
proof -
  have "t \<in> set [0..7]" "c \<in> set [0..31]" using assms by auto
  with COMBINE_table show "uint (COMBINE_TYPE t c AND 7) = t" "uint (drop_bit 3 (COMBINE_TYPE t c)) = c"
    by (auto simp: list_all_iff)
qed

text \<open>The cookie and the bytes of an integer.\<close>

definition int_head :: "u64 \<Rightarrow> int" where
  "int_head v =
     (if v = 0 then TYPE_NUMBER_ZERO else if sint v \<noteq> sint (word_of_int (sint v) :: u32) then TYPE_NUMBER_QWORD
      else if sint v < 0 then TYPE_NUMBER_DWORD else if sint v < 0x100 then TYPE_NUMBER_BYTE
      else if sint v < 0x10000 then TYPE_NUMBER_WORD else TYPE_NUMBER_DWORD)"

definition int_tail :: "u64 \<Rightarrow> bytes" where
  "int_tail v =
     (let v32 = word_of_int (sint v) :: u32 in
      if v = 0 then [] else if sint v \<noteq> sint v32 then le_bytes 8 (unat v)
      else if sint v < 0 then le_bytes 4 (unat v32) else if sint v < 0x100 then le_bytes 1 (unat v)
      else if sint v < 0x10000 then le_bytes 2 (unat v) else le_bytes 4 (unat v32))"

lemmas type_defs = TYPE_NIL_def TYPE_BOOLEAN_def TYPE_NUMBER_def TYPE_USERDATA_def TYPE_SHORT_STRING_def TYPE_LONG_STRING_def
  TYPE_TABLE_def MAX_COOKIE_def

lemmas number_defs = TYPE_NUMBER_ZERO_def TYPE_NUMBER_BYTE_def TYPE_NUMBER_WORD_def TYPE_NUMBER_DWORD_def TYPE_NUMBER_QWORD_def
  TYPE_NUMBER_REAL_def

lemma wb_integer_result:
  "wb_ok wb \<Longrightarrow> wb_ok (wb_integer v wb) \<and> wb_bytes (wb_integer v wb) = wb_bytes wb @ COMBINE_TYPE TYPE_NUMBER (int_head v) # int_tail v"
  by (simp add: wb_integer_def int_head_def int_tail_def Let_def)

lemma int_head_range: "0 \<le> int_head v" "int_head v < 8" "int_head v \<noteq> TYPE_NUMBER_REAL"
  by (auto simp: int_head_def number_defs)

lemma uint_nonneg:
  assumes "0 \<le> sint (v :: u64)"
  shows "uint v = sint v"
proof -
  have s: "sint v = signed_take_bit 63 (uint v)" by (simp add: sint_uint)
  with assms have b: "\<not> bit (uint v) 63" by (simp add: signed_take_bit_nonnegative_iff)
  have "take_bit 63 (uint v) = uint v"
  proof (rule bit_eqI)
    fix n
    have "bit (uint v) n \<Longrightarrow> n < 64" by (simp add: bit_uint_iff)
    then show "bit (take_bit 63 (uint v)) n = bit (uint v) n" using b by (cases "n < 63"; cases "n = 63") (auto simp: bit_take_bit_iff)
  qed
  with s b show ?thesis by (simp add: signed_take_bit_eq_if_positive)
qed

lemma read64_back: "read_num 8 of_nat (le_bytes 8 (unat (v :: u64)) @ rest) = Got v rest"
proof -
  have "unat v < 256 ^ 8" using unsigned_less [of v] by simp
  from read_num_le [OF this, of "of_nat :: nat \<Rightarrow> u64" rest] show ?thesis by simp
qed

lemma get_integer_back: "get_integer (int_head v) (int_tail v @ rest) = Got v rest"
proof -
  let ?v32 = "word_of_int (sint v) :: u32"
  have d: "unat ?v32 < 256 ^ 4" using unsigned_less [of ?v32] by simp
  have small: "unat v < n" if "0 \<le> sint v" "sint v < int n" for n using uint_nonneg [OF that(1)] that(2) by (metis of_nat_less_iff uint_nat)
  have same32: "word_of_int (sint ?v32) = v" if "sint v = sint ?v32" using that [symmetric] by simp
  have dword: "read_num 4 (\<lambda>n. word_of_int (sint (of_nat n :: u32))) (le_bytes 4 (unat ?v32) @ rest) = Got v rest" if "sint v = sint ?v32"
    using read_num_le [OF d, of "\<lambda>n. word_of_int (sint (of_nat n :: u32)) :: u64" rest] same32 [OF that] by simp
  consider "v = 0" | "v \<noteq> 0" "sint v \<noteq> sint ?v32" | "v \<noteq> 0" "sint v = sint ?v32" "sint v < 0"
    | "v \<noteq> 0" "sint v = sint ?v32" "0 \<le> sint v" "sint v < 0x100"
    | "v \<noteq> 0" "sint v = sint ?v32" "0x100 \<le> sint v" "sint v < 0x10000"
    | "v \<noteq> 0" "sint v = sint ?v32" "0x10000 \<le> sint v" by linarith
  then show ?thesis
  proof cases
    case 1
    then show ?thesis by (simp add: int_head_def int_tail_def get_integer_def)
  next
    case 2
    then show ?thesis using read64_back [of v rest] by (simp add: int_head_def int_tail_def get_integer_def number_defs Let_def)
  next
    case 3
    then show ?thesis using dword by (simp add: int_head_def int_tail_def get_integer_def number_defs Let_def)
  next
    case 4
    then have "unat v < 256 ^ 1" using small [of 256] by simp
    from read_num_le [OF this, of "of_nat :: nat \<Rightarrow> u64" rest] show ?thesis using 4 by (simp add: int_head_def int_tail_def get_integer_def number_defs Let_def)
  next
    case 5
    then have "unat v < 256 ^ 2" using small [of 65536] by simp
    from read_num_le [OF this, of "of_nat :: nat \<Rightarrow> u64" rest] show ?thesis using 5 by (simp add: int_head_def int_tail_def get_integer_def number_defs Let_def)
  next
    case 6
    then show ?thesis using dword by (simp add: int_head_def int_tail_def get_integer_def number_defs Let_def)
  qed
qed

subsection \<open>What a value becomes\<close>

text \<open>
  The same value: scalars are equal, and tables have the same keys with values that are the same. A value
  is \<open>plain\<close> to a depth when it can be sent: tables nest at most that deep, their keys are distinct scalars
  as Lua stores them, and strings are shorter than 2 to the 31.
\<close>

fun is_table :: "lua_val \<Rightarrow> bool" where
  "is_table (LTable t) = True"
| "is_table v = False"

inductive same_val :: "lua_val \<Rightarrow> lua_val \<Rightarrow> bool" where
  scalar: "\<not> is_table v \<Longrightarrow> same_val v v"
| table: "(\<And>k v. map_of t k = Some v \<Longrightarrow> \<exists>v'. map_of t' k = Some v' \<and> same_val v v') \<Longrightarrow>
    (\<And>k. map_of t k = None \<Longrightarrow> map_of t' k = None) \<Longrightarrow> same_val (LTable t) (LTable t')"

definition sendable :: "lua_val \<Rightarrow> bool" where
  "sendable v = (case v of LTable t \<Rightarrow> False | LPairs t \<Rightarrow> False | LOther t \<Rightarrow> False | LStr s \<Rightarrow> length s < 2 ^ 31 | _ \<Rightarrow> True)"

definition key_ok :: "(u64 \<Rightarrow> lua_val option) \<Rightarrow> lua_val \<Rightarrow> bool" where
  "key_ok rk k \<longleftrightarrow> sendable k \<and> k \<noteq> LNil \<and> raw_key rk k = Some k"

inductive plain :: "(u64 \<Rightarrow> lua_val option) \<Rightarrow> nat \<Rightarrow> lua_val \<Rightarrow> bool" for rk where
  scalar: "sendable v \<Longrightarrow> plain rk d v"
| table: "distinct (map fst t) \<Longrightarrow> (\<And>k v. (k, v) \<in> set t \<Longrightarrow> key_ok rk k \<and> v \<noteq> LNil \<and> plain rk d v) \<Longrightarrow>
    plain rk (Suc d) (LTable t)"

definition encodes :: "((lua_val \<times> lua_val) list \<Rightarrow> nat) \<Rightarrow> (u64 \<Rightarrow> lua_val option) \<Rightarrow> nat \<Rightarrow> lua_val \<Rightarrow> bytes \<Rightarrow> lua_val \<Rightarrow> bool" where
  "encodes rawlen rk d v E v' \<longleftrightarrow>
     (\<forall>depth wb. depth + d \<le> MAX_DEPTH \<longrightarrow> wb_ok wb \<longrightarrow>
        (\<exists>wb'. pack_one rawlen depth v wb = LuaOk wb' \<and> wb_ok wb' \<and> wb_bytes wb' = wb_bytes wb @ E)) \<and>
     0 < length E \<and>
     (\<forall>f rest. 3 * length E + 1 \<le> f \<longrightarrow> unpack_one rk f (E @ rest) = Some (Got v' rest)) \<and> same_val v v'"

lemma unpack_scalar:
  assumes "0 \<le> t" "t < 8" "t \<noteq> TYPE_TABLE" "0 \<le> c" "c < 32" "3 * n + 1 \<le> f"
  shows "unpack_one rk f (COMBINE_TYPE t c # rb) = Some (push_value t c rb)"
proof -
  obtain f' where f: "f = Suc f'" using assms(6) by (cases f) auto
  note C = COMBINE_parts [OF assms(1,2,4,5)]
  show ?thesis unfolding f unpack_one.simps list.case C using assms(3) by simp
qed

lemma encodes_scalar:
  assumes "\<And>depth wb. depth \<le> MAX_DEPTH \<Longrightarrow> wb_ok wb \<Longrightarrow>
      \<exists>wb'. pack_one rawlen depth v wb = LuaOk wb' \<and> wb_ok wb' \<and> wb_bytes wb' = wb_bytes wb @ COMBINE_TYPE t c # E"
    "0 \<le> t" "t < 8" "t \<noteq> TYPE_TABLE" "0 \<le> c" "c < 32" "\<And>rest. push_value t c (E @ rest) = Got v rest" "\<not> is_table v"
  shows "encodes rawlen rk d v (COMBINE_TYPE t c # E) v"
proof -
  have "unpack_one rk f (COMBINE_TYPE t c # E @ rest) = Some (Got v rest)" if "3 * length (COMBINE_TYPE t c # E) + 1 \<le> f" for f rest
    using unpack_scalar [OF assms(2-6) that, of rk "E @ rest"] assms(7) by simp
  then show ?thesis using assms(1,8) by (auto simp: encodes_def same_val.scalar)
qed

lemma pack_scalar:
  "depth \<le> MAX_DEPTH \<Longrightarrow> pack_one rawlen depth LNil wb = LuaOk (wb_nil wb)"
  "depth \<le> MAX_DEPTH \<Longrightarrow> pack_one rawlen depth (LBool b) wb = LuaOk (wb_boolean b wb)"
  "depth \<le> MAX_DEPTH \<Longrightarrow> pack_one rawlen depth (LInt x) wb = LuaOk (wb_integer x wb)"
  "depth \<le> MAX_DEPTH \<Longrightarrow> pack_one rawlen depth (LReal x) wb = LuaOk (wb_real x wb)"
  "depth \<le> MAX_DEPTH \<Longrightarrow> pack_one rawlen depth (LStr str) wb = LuaOk (wb_string str wb)"
  "depth \<le> MAX_DEPTH \<Longrightarrow> pack_one rawlen depth (LPtr p) wb = LuaOk (wb_pointer p wb)"
  by (simp_all add: pack_one.simps)

lemma combine_plain: "word_of_int TYPE_NIL = COMBINE_TYPE TYPE_NIL 0" "word_of_int TYPE_USERDATA = COMBINE_TYPE TYPE_USERDATA 0"
  by (simp_all add: COMBINE_TYPE_def type_defs)

lemma COMBINE_0: "COMBINE_TYPE 0 0 = 0" "COMBINE_TYPE 3 0 = 3"
  by (simp_all add: COMBINE_TYPE_def)

lemma encodes_nil: "encodes rawlen rk d LNil [COMBINE_TYPE TYPE_NIL 0] LNil"
  by (rule encodes_scalar [where E = "[]", simplified]) (auto simp: pack_scalar wb_nil_def COMBINE_0 push_value_def type_defs)

text \<open>The length of a string, and its bytes.\<close>

lemma string_len: "n < 2 ^ 31 \<Longrightarrow> sint (of_nat n :: u32) = int n"
  by (simp add: signed_of_nat signed_take_bit_int_eq_self)

lemma encodes_string:
  assumes "length str < 2 ^ 31"
  shows "\<exists>E. encodes rawlen rk d (LStr str) E (LStr str)"
proof -
  let ?n = "length str"
  note len = string_len [OF assms]
  consider "int ?n < MAX_COOKIE" | "MAX_COOKIE \<le> int ?n" "?n < 0x10000" | "0x10000 \<le> ?n" by linarith
  then show ?thesis
  proof cases
    case 1
    have "encodes rawlen rk d (LStr str) (COMBINE_TYPE TYPE_SHORT_STRING (int ?n) # str) (LStr str)"
      by (rule encodes_scalar) (use 1 len in \<open>auto simp: pack_scalar wb_string_def Let_def push_value_def get_buffer_def type_defs\<close>)
    then show ?thesis by blast
  next
    case 2
    have "encodes rawlen rk d (LStr str) (COMBINE_TYPE TYPE_LONG_STRING 2 # le_bytes 2 ?n @ str) (LStr str)"
      by (rule encodes_scalar)
        (use 2 len in \<open>auto simp: pack_scalar wb_string_def Let_def push_value_def get_buffer_def get_long_def rb_read_append le_num_bytes type_defs\<close>)
    then show ?thesis by blast
  next
    case 3
    have "encodes rawlen rk d (LStr str) (COMBINE_TYPE TYPE_LONG_STRING 4 # le_bytes 4 ?n @ str) (LStr str)"
      by (rule encodes_scalar)
        (use 3 len assms in \<open>auto simp: pack_scalar wb_string_def Let_def push_value_def get_buffer_def get_long_def rb_read_append le_num_bytes type_defs\<close>)
    then show ?thesis by blast
  qed
qed

lemma encodes_sendable:
  assumes "sendable v"
  shows "\<exists>E. encodes rawlen rk d v E v"
proof (cases v)
  case LNil
  then show ?thesis using encodes_nil by blast
next
  case (LBool b)
  have "encodes rawlen rk d v [COMBINE_TYPE TYPE_BOOLEAN (if b then 1 else 0)] v" unfolding LBool
    by (rule encodes_scalar [where E = "[]", simplified]) (auto simp: pack_scalar wb_boolean_def push_value_def type_defs)
  then show ?thesis by blast
next
  case (LInt x)
  have "encodes rawlen rk d v (COMBINE_TYPE TYPE_NUMBER (int_head x) # int_tail x) v" unfolding LInt
    by (rule encodes_scalar)
      (use int_head_range [of x] in \<open>auto simp: pack_scalar wb_integer_result push_value_def get_integer_back then_read_def type_defs\<close>)
  then show ?thesis by blast
next
  case (LReal x)
  have "encodes rawlen rk d v (COMBINE_TYPE TYPE_NUMBER TYPE_NUMBER_REAL # le_bytes 8 (unat x)) v" unfolding LReal
    by (rule encodes_scalar)
      (auto simp: pack_scalar wb_real_def push_value_def get_real_def read64_back then_read_def type_defs number_defs)
  then show ?thesis by blast
next
  case (LStr str)
  then show ?thesis using encodes_string assms by (simp add: sendable_def)
next
  case (LPtr x)
  have "encodes rawlen rk d v (COMBINE_TYPE TYPE_USERDATA 0 # le_bytes 8 (unat x)) v" unfolding LPtr
    by (rule encodes_scalar)
      (auto simp: pack_scalar wb_pointer_def COMBINE_0 push_value_def get_pointer_def read64_back then_read_def type_defs)
  then show ?thesis by blast
qed (use assms in \<open>simp_all add: sendable_def\<close>)

subsection \<open>Sequences of values\<close>

lemma encodesD:
  assumes "encodes rawlen rk d v E v'"
  shows "depth + d \<le> MAX_DEPTH \<Longrightarrow> wb_ok wb \<Longrightarrow>
      \<exists>wb'. pack_one rawlen depth v wb = LuaOk wb' \<and> wb_ok wb' \<and> wb_bytes wb' = wb_bytes wb @ E"
    "0 < length E" "3 * length E + 1 \<le> f \<Longrightarrow> unpack_one rk f (E @ rest) = Some (Got v' rest)" "same_val v v'"
  using assms by (auto simp: encodes_def)

lemma pack_all_result:
  assumes "\<And>v. v \<in> set vs \<Longrightarrow> encodes rawlen rk d v (enc v) (dec v)" "depth + d \<le> MAX_DEPTH" "wb_ok wb"
  shows "\<exists>wb'. pack_all rawlen depth vs wb = LuaOk wb' \<and> wb_ok wb' \<and> wb_bytes wb' = wb_bytes wb @ concat (map enc vs)"
  using assms(1,3)
proof (induction vs arbitrary: wb)
  case Nil
  then show ?case by simp
next
  case (Cons v vs)
  from encodesD(1) [OF Cons.prems(1) [of v] assms(2) Cons.prems(2)] obtain wb1 where
    wb1: "pack_one rawlen depth v wb = LuaOk wb1" "wb_ok wb1" "wb_bytes wb1 = wb_bytes wb @ enc v" by auto
  from Cons.IH [OF _ wb1(2)] Cons.prems(1) obtain wb2 where
    "pack_all rawlen depth vs wb1 = LuaOk wb2" "wb_ok wb2" "wb_bytes wb2 = wb_bytes wb1 @ concat (map enc vs)" by auto
  with wb1 show ?case by simp
qed

fun fill :: "(lua_val \<Rightarrow> lua_val) \<Rightarrow> nat \<Rightarrow> lua_val list \<Rightarrow> (lua_val \<times> lua_val) list \<Rightarrow> (lua_val \<times> lua_val) list" where
  "fill dec i [] t = t"
| "fill dec i (v # vs) t = fill dec (Suc i) vs (rawset (LInt (of_nat i)) (dec v) t)"

lemma unpack_array_result:
  assumes "\<And>v. v \<in> set vs \<Longrightarrow> encodes rawlen rk d v (enc v) (dec v)" "3 * (length (concat (map enc vs)) + r) + 3 \<le> f"
  shows "\<exists>f' \<ge> 3 * r + 2. unpack_array rk f (length vs) i t (concat (map enc vs) @ R) = unpack_hash rk f' (fill dec i vs t) R"
  using assms
proof (induction vs arbitrary: f i t)
  case Nil
  then obtain f' where f: "f = Suc f'" by (cases f) auto
  with Nil show ?case by (intro exI [of _ f']) (simp add: unpack_array.simps)
next
  case (Cons v vs)
  note e = encodesD [OF Cons.prems(1) [of v]]
  obtain f' where f: "f = Suc f'" using Cons.prems(2) by (cases f) auto
  have one: "unpack_one rk f' (enc v @ rest) = Some (Got (dec v) rest)" for rest
    using e(3) [of f' rest] Cons.prems(2) f by simp
  have "3 * (length (concat (map enc vs)) + r) + 3 \<le> f'" using e(2) Cons.prems(2) f by (simp del: length_greater_0_conv)
  from Cons.IH [OF _ this, of "Suc i" "rawset (LInt (of_nat i)) (dec v) t"] Cons.prems(1) obtain f'' where
    "3 * r + 2 \<le> f''" "unpack_array rk f' (length vs) (Suc i) (rawset (LInt (of_nat i)) (dec v) t) (concat (map enc vs) @ R) =
       unpack_hash rk f'' (fill dec i (v # vs) t) R" by auto
  with one show ?case by (intro exI [of _ f'']) (simp add: f unpack_array.simps then_opt_def)
qed

lemma unpack_hash_result:
  assumes "\<And>k v. (k, v) \<in> set kvs \<Longrightarrow> encodes rawlen rk d k (enc k) k \<and> encodes rawlen rk d v (enc v) (dec v) \<and>
      k \<noteq> LNil \<and> raw_key rk k = Some k"
    "3 * length (concat (map enc (flat kvs)) @ [COMBINE_TYPE TYPE_NIL 0]) + 2 \<le> f"
  shows "unpack_hash rk f t (concat (map enc (flat kvs)) @ COMBINE_TYPE TYPE_NIL 0 # rest) =
    Some (Got (LTable (fold (\<lambda>(k, v). rawset k (dec v)) kvs t)) rest)"
  using assms
proof (induction kvs arbitrary: f t)
  case Nil
  then obtain f' where f: "f = Suc f'" "4 \<le> f'" by (cases f) (auto simp: flat_def)
  from encodesD(3) [OF encodes_nil, of f' rk rest] f(2) have "unpack_one rk f' (COMBINE_TYPE TYPE_NIL 0 # rest) = Some (Got LNil rest)"
    by simp
  then show ?case by (simp add: f flat_def unpack_hash.simps then_opt_def)
next
  case (Cons kv kvs)
  obtain k v where kv: "kv = (k, v)" by (cases kv)
  from Cons.prems(1) [of k v] kv have e: "encodes rawlen rk d k (enc k) k" "encodes rawlen rk d v (enc v) (dec v)"
    "k \<noteq> LNil" "raw_key rk k = Some k" by auto
  obtain f' where f: "f = Suc f'" using Cons.prems(2) by (cases f) auto
  have flat: "concat (map enc (flat (kv # kvs))) = enc k @ enc v @ concat (map enc (flat kvs))" by (simp add: kv flat_def)
  note b = Cons.prems(2) [unfolded flat f]
  have one: "unpack_one rk f' (enc k @ rest) = Some (Got k rest)" "unpack_one rk f' (enc v @ rest) = Some (Got (dec v) rest)" for rest
    using encodesD(3) [OF e(1), of f' rest] encodesD(3) [OF e(2), of f' rest] b by simp_all
  have "3 * length (concat (map enc (flat kvs)) @ [COMBINE_TYPE TYPE_NIL 0]) + 2 \<le> f'"
    using b encodesD(2) [OF e(1)] by (simp del: length_greater_0_conv)
  from Cons.IH [OF _ this, of "rawset k (dec v) t"] Cons.prems(1) have
    "unpack_hash rk f' (rawset k (dec v) t) (concat (map enc (flat kvs)) @ COMBINE_TYPE TYPE_NIL 0 # rest) =
      Some (Got (LTable (fold (\<lambda>(k, v). rawset k (dec v)) kvs (rawset k (dec v) t))) rest)" by auto
  then show ?case using one e(3,4) unfolding flat f by (simp add: unpack_hash.simps then_opt_def kv)
qed

subsection \<open>Tables as maps\<close>

definition entry :: "lua_val \<Rightarrow> lua_val option" where
  "entry v = (if v = LNil then None else Some v)"

lemma map_of_filter_other: "map_of (filter (\<lambda>kv. fst kv \<noteq> k) t) j = (if j = k then None else map_of t j)"
  by (induction t) auto

lemma map_of_rawset: "\<not> is_table k \<Longrightarrow> map_of (rawset k v t) = (map_of t)(k := entry v)"
  by (cases k) (auto simp: rawset_def entry_def fun_eq_iff map_of_filter_other map_add_def split: option.splits)

lemma map_of_fill:
  assumes "i + length vs < 2 ^ 63"
  shows "map_of (fill dec i vs t) k =
    (case k of LInt x \<Rightarrow> if i \<le> unat x \<and> unat x < i + length vs then entry (dec (vs ! (unat x - i))) else map_of t k | _ \<Rightarrow> map_of t k)"
  using assms
proof (induction vs arbitrary: i t)
  case Nil
  then show ?case by (auto split: lua_val.split)
next
  case (Cons v vs)
  have "unat (of_nat i :: u64) = i" using Cons.prems by (simp add: unat_of_nat)
  then have "x = of_nat i \<longleftrightarrow> unat x = i" for x :: u64 by (metis unsigned_word_eqI word_nat_cases)
  with Cons show ?case
    by (auto simp: map_of_rawset nth_Cons' Suc_le_eq split: lua_val.split)
qed

lemma map_of_fold_rawset:
  assumes "distinct (map fst kvs)" "\<forall>kv \<in> set kvs. \<not> is_table (fst kv)"
  shows "map_of (fold (\<lambda>(k, v). rawset k (dec v)) kvs t) j =
    (case map_of kvs j of Some v \<Rightarrow> entry (dec v) | None \<Rightarrow> map_of t j)"
  using assms
proof (induction kvs arbitrary: t)
  case (Cons kv kvs)
  obtain k v where kv: "kv = (k, v)" by (cases kv)
  with Cons.prems have k: "\<not> is_table k" "map_of kvs k = None" by (auto simp: map_of_eq_None_iff)
  from Cons.IH [of "rawset k (dec v) t"] Cons.prems have
    "map_of (fold (\<lambda>(k, v). rawset k (dec v)) kvs (rawset k (dec v) t)) j =
      (case map_of kvs j of Some v \<Rightarrow> entry (dec v) | None \<Rightarrow> map_of (rawset k (dec v) t) j)" by simp
  then show ?case using k by (auto simp: kv map_of_rawset split: option.splits)
qed simp

lemma map_of_filter_keys: "map_of (filter (\<lambda>kv. P (fst kv)) t) k = (if P k then map_of t k else None)"
  by (induction t) auto

lemma in_array_unat:
  assumes "n < 2 ^ 31"
  shows "in_array (int n) (LInt x) \<longleftrightarrow> 1 \<le> unat x \<and> unat x \<le> n"
proof (cases "0 \<le> sint x")
  case True
  have h: "int (unat x) = sint x" using uint_nonneg [OF True] by simp
  have "0 < sint x \<longleftrightarrow> 1 \<le> unat x" "sint x \<le> int n \<longleftrightarrow> unat x \<le> n" unfolding h [symmetric] by linarith+
  then show ?thesis by (simp add: in_array_def)
next
  case False
  have "\<not> unat x \<le> n"
  proof
    assume "unat x \<le> n"
    then have u: "unat x < 2 ^ 31" using assms by linarith
    have "sint (of_nat m :: u64) = int m" if "m < 2 ^ 31" for m using that by (simp add: signed_of_nat signed_take_bit_int_eq_self)
    from this [OF u] have "sint x = uint x" by simp
    with False show False using uint_ge_0 [of x] by linarith
  qed
  with False show ?thesis by (simp add: in_array_def)
qed

text \<open>What the two loops of \<open>unpack_table\<close> leave, as a map.\<close>

lemma table_map:
  assumes "n < 2 ^ 31" "distinct (map fst t)" "\<forall>kv \<in> set t. \<not> is_table (fst kv)"
    "dec LNil = LNil" "\<And>k v. map_of t k = Some v \<Longrightarrow> dec v \<noteq> LNil"
  defines "vs \<equiv> map (rawgeti t) [1..<Suc n]"
    and "kvs \<equiv> filter (\<lambda>kv. \<not> in_array (int n) (fst kv)) t"
  shows "map_of (fold (\<lambda>(k, v). rawset k (dec v)) kvs (fill dec 1 vs [])) k = map_option dec (map_of t k)"
proof -
  have d: "distinct (map fst kvs)" "\<forall>kv \<in> set kvs. \<not> is_table (fst kv)"
    using assms(2,3) by (auto simp: kvs_def distinct_map_filter)
  have kvs: "map_of kvs k = (if in_array (int n) k then None else map_of t k)"
    using map_of_filter_keys [of "\<lambda>k. \<not> in_array (int n) k" t k] by (simp add: kvs_def)
  have dec: "entry (dec v) = Some (dec v)" if "map_of t k = Some v" for v using assms(5) [OF that] by (simp add: entry_def)
  have array: "map_of (fill dec 1 vs []) k = map_option dec (map_of t k)" if "in_array (int n) k"
  proof -
    from that obtain x where k: "k = LInt x" by (cases k) (auto simp: in_array_def)
    with that in_array_unat [OF assms(1), of x] have x: "1 \<le> unat x" "unat x \<le> n" by auto
    have "[1..<Suc n] ! (unat x - 1) = unat x" using nth_upt [of 1 "unat x - 1" "Suc n"] x by (simp del: upt_Suc)
    then have "vs ! (unat x - 1) = rawgeti t (unat x)" using x by (simp add: vs_def del: upt_Suc)
    then have "map_of (fill dec 1 vs []) k = entry (dec (rawgeti t (unat x)))"
      using map_of_fill [of 1 vs dec "[]" k] assms(1) x by (simp add: vs_def k)
    then show ?thesis using dec assms(4) by (auto simp: k rawgeti_def entry_def split: option.splits)
  qed
  have rest: "map_of (fill dec 1 vs []) k = None" if "\<not> in_array (int n) k"
  proof (cases k)
    case (LInt x)
    with that have "\<not> (1 \<le> unat x \<and> unat x \<le> n)" using in_array_unat [OF assms(1), of x] by simp
    then show ?thesis using map_of_fill [of 1 vs dec "[]" k] assms(1) by (auto simp: vs_def LInt)
  qed (use map_of_fill [of 1 vs dec "[]" k] assms(1) in \<open>simp_all add: vs_def\<close>)
  show ?thesis unfolding map_of_fold_rawset [OF d] kvs
    using array rest dec by (auto split: option.splits)
qed

subsection \<open>Tables\<close>

definition head_bytes :: "nat \<Rightarrow> bytes" where
  "head_bytes n = (if 31 \<le> n then COMBINE_TYPE TYPE_TABLE 31 # COMBINE_TYPE TYPE_NUMBER (int_head (of_nat n)) # int_tail (of_nat n)
     else [COMBINE_TYPE TYPE_TABLE (int n)])"

lemma array_head_result:
  "wb_ok wb \<Longrightarrow> wb_ok (array_head (int n) wb) \<and> wb_bytes (array_head (int n) wb) = wb_bytes wb @ head_bytes n"
  using wb_integer_result [of "wb_push [COMBINE_TYPE TYPE_TABLE 31] wb" "of_nat n"]
  by (simp add: array_head_def head_bytes_def MAX_COOKIE_def)

lemma unpack_head:
  assumes "n < 2 ^ 31"
  shows "unpack_one rk (Suc f) (head_bytes n @ R) = unpack_array rk f n 1 [] R"
proof (cases "31 \<le> n")
  case True
  note I = int_head_range [of "of_nat n"]
  have C: "uint (COMBINE_TYPE TYPE_TABLE 31 AND 7) = TYPE_TABLE" "uint (drop_bit 3 (COMBINE_TYPE TYPE_TABLE 31)) = 31"
    "uint (COMBINE_TYPE TYPE_NUMBER (int_head (of_nat n)) AND 7) = TYPE_NUMBER"
    "uint (drop_bit 3 (COMBINE_TYPE TYPE_NUMBER (int_head (of_nat n)))) = int_head (of_nat n)"
    using COMBINE_parts [of TYPE_TABLE 31] COMBINE_parts [of TYPE_NUMBER "int_head (of_nat n)"] I by (auto simp: type_defs)
  have u: "(ucast (of_nat n :: u64) :: u32) = of_nat n" by transfer simp
  have "table_size 31 (COMBINE_TYPE TYPE_NUMBER (int_head (of_nat n)) # int_tail (of_nat n) @ R) = Got (int n) R"
    unfolding table_size_def list.case Let_def C get_integer_back then_read_def reading.case u string_len [OF assms]
    using I(3) by (simp add: MAX_COOKIE_def)
  then show ?thesis using True by (simp add: head_bytes_def unpack_one.simps C then_opt_def)
next
  case False
  then have C: "uint (COMBINE_TYPE TYPE_TABLE (int n) AND 7) = TYPE_TABLE" "uint (drop_bit 3 (COMBINE_TYPE TYPE_TABLE (int n))) = int n"
    using COMBINE_parts [of TYPE_TABLE "int n"] by (auto simp: type_defs)
  then show ?thesis using False by (simp add: head_bytes_def unpack_one.simps table_size_def then_opt_def MAX_COOKIE_def)
qed

lemma same_val_nil: "same_val v v' \<Longrightarrow> v' = LNil \<longleftrightarrow> v = LNil"
  by (cases rule: same_val.cases) auto

lemma same_val_sendable: "same_val v v' \<Longrightarrow> sendable v \<Longrightarrow> v' = v"
  by (cases rule: same_val.cases) (auto simp: sendable_def)

lemma pack_table:
  "Suc depth \<le> MAX_DEPTH \<Longrightarrow> rawlen t < 2 ^ 31 \<Longrightarrow>
   pack_all rawlen (Suc depth)
     (map (rawgeti t) [1..<Suc (rawlen t)] @ flat (filter (\<lambda>kv. \<not> in_array (int (rawlen t)) (fst kv)) t))
     (array_head (int (rawlen t)) wb) = LuaOk wb1 \<Longrightarrow>
   pack_one rawlen depth (LTable t) wb = LuaOk (wb_nil wb1)"
  by (simp add: pack_one.simps string_len Let_def del: upt_Suc)

lemma unpack_table_result:
  assumes "\<And>v. v \<in> set vs \<Longrightarrow> encodes rawlen rk d v (enc v) (dec v)"
    "\<And>k v. (k, v) \<in> set kvs \<Longrightarrow> encodes rawlen rk d k (enc k) k \<and> encodes rawlen rk d v (enc v) (dec v) \<and>
      k \<noteq> LNil \<and> raw_key rk k = Some k"
    "length vs = n" "n < 2 ^ 31" "3 * length (head_bytes n @ concat (map enc (vs @ flat kvs)) @ [COMBINE_TYPE TYPE_NIL 0]) + 1 \<le> f"
  shows "unpack_one rk f (head_bytes n @ concat (map enc (vs @ flat kvs)) @ COMBINE_TYPE TYPE_NIL 0 # rest) =
    Some (Got (LTable (fold (\<lambda>(k, v). rawset k (dec v)) kvs (fill dec 1 vs []))) rest)"
proof -
  let ?a = "concat (map enc vs)" and ?h = "concat (map enc (flat kvs))"
  obtain f' where f: "f = Suc f'" using assms(5) by (cases f) auto
  have "3 * (length ?a + Suc (length ?h)) + 3 \<le> f'" using assms(5) f by (simp add: head_bytes_def split: if_splits)
  from unpack_array_result [OF assms(1) this, of 1 "[]" "?h @ COMBINE_TYPE TYPE_NIL 0 # rest"] obtain f'' where
    f'': "3 * Suc (length ?h) + 2 \<le> f''" "unpack_array rk f' n 1 [] (?a @ ?h @ COMBINE_TYPE TYPE_NIL 0 # rest) =
      unpack_hash rk f'' (fill dec 1 vs []) (?h @ COMBINE_TYPE TYPE_NIL 0 # rest)" using assms(3) by auto
  from f''(1) have "3 * length (?h @ [COMBINE_TYPE TYPE_NIL 0]) + 2 \<le> f''" by simp
  from unpack_hash_result [OF assms(2) this, of "fill dec 1 vs []" rest] f''(2)
  show ?thesis using unpack_head [OF assms(4), of rk f'] by (simp add: f)
qed

lemma encodes_table:
  assumes "\<forall>x \<in> X. encodes rawlen rk d x (enc x) (dec x)" "X = {LNil} \<union> set (flat t)"
    "distinct (map fst t)" "\<And>k v. (k, v) \<in> set t \<Longrightarrow> key_ok rk k \<and> v \<noteq> LNil" "rawlen t < 2 ^ 31"
  shows "\<exists>E v'. encodes rawlen rk (Suc d) (LTable t) E v'"
proof -
  let ?n = "rawlen t"
  define vs where "vs = map (rawgeti t) [1..<Suc ?n]"
  define kvs where "kvs = filter (\<lambda>kv. \<not> in_array (int ?n) (fst kv)) t"
  define t' where "t' = fold (\<lambda>(k, v). rawset k (dec v)) kvs (fill dec 1 vs [])"
  define B where "B = concat (map enc (vs @ flat kvs))"
  define E where "E = head_bytes ?n @ B @ [COMBINE_TYPE TYPE_NIL 0]"
  have X: "k \<in> X" "v \<in> X" if "(k, v) \<in> set t" for k v using that by (auto simp: assms(2) flat_def)
  have "rawgeti t i \<in> X" for i
  proof (cases "map_of t (LInt (of_nat i))")
    case (Some v)
    then show ?thesis using X(2) [OF map_of_SomeD [OF Some]] by (simp add: rawgeti_def)
  qed (simp add: rawgeti_def assms(2))
  then have evs: "encodes rawlen rk d v (enc v) (dec v)" if "v \<in> set vs" for v using that assms(1) by (auto simp: vs_def simp del: upt_Suc)
  have dec: "same_val x (dec x)" if "x \<in> X" for x using assms(1) that encodesD(4) by blast
  have ekvs: "encodes rawlen rk d k (enc k) k \<and> encodes rawlen rk d v (enc v) (dec v) \<and> k \<noteq> LNil \<and> raw_key rk k = Some k"
    if "(k, v) \<in> set kvs" for k v
  proof -
    from that have kv: "(k, v) \<in> set t" by (simp add: kvs_def)
    with assms(4) have k: "sendable k" "k \<noteq> LNil" "raw_key rk k = Some k" by (auto simp: key_ok_def)
    from same_val_sendable [OF dec [OF X(1) [OF kv]] k(1)] have "dec k = k" .
    with k X [OF kv] assms(1) show ?thesis by auto
  qed
  have all: "encodes rawlen rk d v (enc v) (dec v)" if "v \<in> set (vs @ flat kvs)" for v
    using that evs X assms(1) by (auto simp: flat_def kvs_def)
  have pack: "\<exists>wb'. pack_one rawlen depth (LTable t) wb = LuaOk wb' \<and> wb_ok wb' \<and> wb_bytes wb' = wb_bytes wb @ E"
    if "depth + Suc d \<le> MAX_DEPTH" "wb_ok wb" for depth wb
  proof -
    note h = array_head_result [OF that(2), of ?n]
    have d: "Suc depth + d \<le> MAX_DEPTH" using that(1) by simp
    from pack_all_result [where vs = "vs @ flat kvs", OF all d conjunct1 [OF h]] obtain wb1 where "pack_all rawlen (Suc depth) (vs @ flat kvs) (array_head (int ?n) wb) = LuaOk wb1" "wb_ok wb1"
      "wb_bytes wb1 = wb_bytes wb @ head_bytes ?n @ B"
      using h by (auto simp: B_def)
    with pack_table [of depth rawlen t wb wb1] that(1) assms(5) show ?thesis
      by (auto simp: vs_def kvs_def wb_nil_def combine_plain E_def)
  qed
  have unpack: "unpack_one rk f (E @ rest) = Some (Got (LTable t') rest)" if "3 * length E + 1 \<le> f" for f rest
    using unpack_table_result [where vs = vs and kvs = kvs and f = f and rest = rest, OF evs ekvs _ assms(5)] that by (simp add: E_def B_def t'_def vs_def del: upt_Suc)
  have "map_of t' k = map_option dec (map_of t k)" for k unfolding t'_def kvs_def vs_def
  proof (rule table_map [OF assms(5,3)])
    show "\<forall>kv \<in> set t. \<not> is_table (fst kv)"
    proof
      fix kv assume "kv \<in> set t"
      then have "sendable (fst kv)" using assms(4) [of "fst kv" "snd kv"] by (simp add: key_ok_def)
      then show "\<not> is_table (fst kv)" by (cases "fst kv") (auto simp: sendable_def)
    qed
    show "dec LNil = LNil" using same_val_nil [OF dec] assms(2) by auto
    show "dec v \<noteq> LNil" if "map_of t k = Some v" for k v
      using map_of_SomeD [OF that] same_val_nil [OF dec [OF X(2)]] assms(4) by blast
  qed
  moreover have "same_val v (dec v)" if "map_of t k = Some v" for k v using dec X(2) map_of_SomeD [OF that] by blast
  ultimately have "same_val (LTable t) (LTable t')" by (intro same_val.table) auto
  then have "encodes rawlen rk (Suc d) (LTable t) E (LTable t')"
    using pack unpack by (simp add: encodes_def E_def head_bytes_def)
  then show ?thesis by blast
qed

lemma encodes_plain:
  assumes "\<And>t. rawlen t < 2 ^ 31"
  shows "plain rk d v \<Longrightarrow> \<exists>E v'. encodes rawlen rk d v E v'"
proof (induction rule: plain.induct)
  case (scalar v d)
  then show ?case using encodes_sendable by blast
next
  case (table t d)
  let ?X = "{LNil} \<union> set (flat t)"
  have "\<forall>x \<in> ?X. \<exists>E v'. encodes rawlen rk d x E v'"
    using table.IH encodes_nil encodes_sendable by (auto simp: flat_def key_ok_def) blast+
  then obtain enc dec where "\<forall>x \<in> ?X. encodes rawlen rk d x (enc x) (dec x)" by metis
  from encodes_table [OF this refl table.hyps _ assms] table.IH show ?case by blast
qed

subsection \<open>Reading ends\<close>

text \<open>A reading ends, and leaves less than so much of the buffer.\<close>

definition leaves :: "nat \<Rightarrow> 'a reading option \<Rightarrow> bool" where
  "leaves n r \<longleftrightarrow> r \<noteq> None \<and> (\<forall>v rb. r = Some (Got v rb) \<longrightarrow> length rb < n)"

lemma leaves_mono: "leaves n r \<Longrightarrow> n \<le> m \<Longrightarrow> leaves m r"
  by (fastforce simp: leaves_def)

lemma leaves_then: "leaves n r \<Longrightarrow> (\<And>v rb. length rb < n \<Longrightarrow> leaves m (g v rb)) \<Longrightarrow> leaves m (then_opt r g)"
  by (cases r) (auto simp: leaves_def then_opt_def split: reading.split)

lemma leaves_got: "length rb < n \<Longrightarrow> leaves n (Some (Got v rb))" "leaves n (Some (Bad e))"
  by (simp_all add: leaves_def)

lemma leaves_num: "length rb < n \<Longrightarrow> leaves n (Some (read_num sz f rb))"
  by (auto simp: leaves_def read_num_def rb_read_def split: if_splits)

lemma leaves_integer: "length rb < n \<Longrightarrow> leaves n (Some (get_integer c rb))"
  by (auto simp: get_integer_def intro: leaves_num leaves_got)

lemma leaves_then_read: "leaves n (Some r) \<Longrightarrow> (\<And>v rb. length rb < n \<Longrightarrow> leaves n (Some (g v rb))) \<Longrightarrow> leaves n (Some (then_read r g))"
  by (cases r) (auto simp: leaves_def then_read_def)

lemma leaves_buffer: "length rb < n \<Longrightarrow> leaves n (Some (get_buffer len rb))"
  by (auto simp: leaves_def get_buffer_def split: if_splits)

lemma leaves_push_value: "length rb < n \<Longrightarrow> leaves n (Some (push_value t c rb))"
  by (auto simp: push_value_def get_long_def rb_read_def get_real_def get_pointer_def
      intro!: leaves_got leaves_then_read leaves_num leaves_integer leaves_buffer)

lemma leaves_table_size: "length rb < n \<Longrightarrow> leaves n (Some (table_size c rb))"
  by (cases rb) (auto simp: table_size_def Let_def intro!: leaves_got leaves_then_read leaves_integer)

lemma unpack_ends:
  "3 * length rb + 1 \<le> f \<Longrightarrow> leaves (length rb) (unpack_one rk f rb)"
  "3 * length rb + 3 \<le> f \<Longrightarrow> leaves (length rb) (unpack_array rk f n i t rb)"
  "3 * length rb + 2 \<le> f \<Longrightarrow> leaves (length rb) (unpack_hash rk f t rb)"
proof (induction f arbitrary: rb n i t)
  case (Suc f)
  have IH: "3 * length rb + 1 \<le> f \<Longrightarrow> length rb \<le> m \<Longrightarrow> leaves m (unpack_one rk f rb)"
    "3 * length rb + 3 \<le> f \<Longrightarrow> length rb \<le> m \<Longrightarrow> leaves m (unpack_array rk f n i t rb)"
    "3 * length rb + 2 \<le> f \<Longrightarrow> length rb \<le> m \<Longrightarrow> leaves m (unpack_hash rk f t rb)" for rb n i t m
    using Suc.IH leaves_mono by blast+
  { case 1
    show ?case
    proof (cases rb)
      case (Cons b bs)
      have "leaves (length rb) (then_opt (Some (table_size c bs)) (\<lambda>n rb. unpack_array rk f (nat n) 1 [] rb))" for c
        by (rule leaves_then [OF leaves_table_size [where n = "length rb"]]) (use 1 Cons in \<open>auto intro: IH(2)\<close>)
      then show ?thesis using leaves_push_value [of bs "length rb"] Cons by (auto simp: unpack_one.simps)
    qed (simp add: unpack_one.simps leaves_def)
  next
    case 2
    have "leaves (length rb) (then_opt (unpack_one rk f rb) (\<lambda>v rb. unpack_array rk f (n - 1) (Suc i) (rawset (LInt (of_nat i)) v t) rb))"
      by (rule leaves_then [OF IH(1) [where m = "length rb"]]) (use 2 in \<open>auto intro: IH(2)\<close>)
    then show ?case using IH(3) [of rb "length rb" t] 2 by (simp add: unpack_array.simps)
  next
    case 3
    show ?case unfolding unpack_hash.simps
    proof (rule leaves_then [OF IH(1) [where m = "length rb"]])
      fix k and rb1 :: bytes
      assume rb1: "length rb1 < length rb"
      have "leaves (length rb) (then_opt (unpack_one rk f rb1) (\<lambda>v rb. case raw_key rk k of
          Some k \<Rightarrow> unpack_hash rk f (rawset k v t) rb | None \<Rightarrow> Some (Bad NaN_key)))"
        by (rule leaves_then [OF IH(1) [where m = "length rb1"]]) (use 3 rb1 in \<open>auto intro!: IH(3) leaves_got split: option.split\<close>)
      then show "leaves (length rb) (if k = LNil then Some (Got (LTable t) rb1) else then_opt (unpack_one rk f rb1) (\<lambda>v rb. case raw_key rk k of
          Some k \<Rightarrow> unpack_hash rk f (rawset k v t) rb | None \<Rightarrow> Some (Bad NaN_key)))"
        using rb1 by (simp add: leaves_got)
    qed (use 3 in auto)
  }
qed simp_all

lemma unpack_all_ends: "3 * length rb + 2 \<le> f \<Longrightarrow> leaves 1 (unpack_all rk f rb)"
proof (induction f arbitrary: rb)
  case (Suc f)
  have "leaves 1 (then_opt (unpack_one rk f rb) (\<lambda>v rb. then_opt (unpack_all rk f rb) (\<lambda>vs rb. Some (Got (v # vs) rb))))" if "rb \<noteq> []"
    by (rule leaves_then [OF unpack_ends(1)]) (use Suc in \<open>auto intro!: leaves_then [OF Suc.IH] leaves_got\<close>)
  then show ?case by (simp add: unpack_all.simps leaves_def)
qed simp

text \<open>What \<open>pack_from\<close> wrote for values reads back as the values.\<close>

lemma unpack_all_result:
  assumes "\<And>v. v \<in> set vs \<Longrightarrow> encodes rawlen rk d v (enc v) (dec v)" "3 * length (concat (map enc vs)) + 2 \<le> f"
  shows "unpack_all rk f (concat (map enc vs)) = Some (Got (map dec vs) [])"
  using assms
proof (induction vs arbitrary: f)
  case Nil
  then show ?case by (cases f) (auto simp: unpack_all.simps)
next
  case (Cons v vs)
  note e = encodesD [OF Cons.prems(1) [of v]]
  obtain f' where f: "f = Suc f'" using Cons.prems(2) by (cases f) auto
  have one: "unpack_one rk f' (enc v @ concat (map enc vs)) = Some (Got (dec v) (concat (map enc vs)))"
    using e(3) [of f'] Cons.prems(2) f by simp
  have "3 * length (concat (map enc vs)) + 2 \<le> f'" "enc v \<noteq> []" using e(2) Cons.prems(2) f by (auto simp del: length_greater_0_conv)
  with Cons.IH [of f'] Cons.prems(1) have "unpack_all rk f' (concat (map enc vs)) = Some (Got (map dec vs) [])" "enc v \<noteq> []" by auto
  with one show ?case by (simp add: f unpack_all.simps then_opt_def)
qed

lemma unpack_buffer_all: "unpack_buffer rk (Some b) (int (length b)) = unpack_all rk (unpack_bound b) b"
  by (auto simp: unpack_buffer_def unpack_bound_def unpack_all.simps numeral_eq_Suc assert_opt_def)

lemma pack_unpack:
  assumes "\<And>t. rawlen t < 2 ^ 31" "\<forall>v \<in> set vs. plain rk MAX_DEPTH v"
  shows "\<exists>wb vs'. pack_from rawlen vs wb_init = LuaOk wb \<and> wb_ok wb \<and>
    unpack_all rk (unpack_bound (wb_bytes wb)) (wb_bytes wb) = Some (Got vs' []) \<and> list_all2 same_val vs vs'"
proof -
  have "\<forall>v \<in> set vs. \<exists>E v'. encodes rawlen rk MAX_DEPTH v E v'" using encodes_plain [of rawlen, OF assms(1)] assms(2) by blast
  then obtain enc dec where e: "\<forall>v \<in> set vs. encodes rawlen rk MAX_DEPTH v (enc v) (dec v)" by metis
  then have e': "v \<in> set vs \<Longrightarrow> encodes rawlen rk MAX_DEPTH v (enc v) (dec v)" for v by blast
  from pack_all_result [OF e' _ wb_init_ok(1), of vs 0] obtain wb where
    wb: "pack_from rawlen vs wb_init = LuaOk wb" "wb_ok wb" "wb_bytes wb = concat (map enc vs)"
    by (auto simp: pack_from_def wb_init_ok(2))
  have "unpack_all rk (unpack_bound (wb_bytes wb)) (wb_bytes wb) = Some (Got (map dec vs) [])"
    unfolding wb(3) by (rule unpack_all_result [OF e']) (auto simp: unpack_bound_def)
  moreover have "list_all2 same_val vs (map dec vs)" using e encodesD(4) by (auto simp: list_all2_map2 list.rel_refl_strong intro!: list.rel_refl_strong)
  ultimately show ?thesis using wb by blast
qed

subsection \<open>The serialiser\<close>

text \<open>C22. Values that can be sent (nil, booleans, numbers, strings below 2 GiB, pointers, and tables of them that
  nest no deeper than \<open>MAX_DEPTH\<close>, with scalar keys) are packed without an error, and unless the stream reaches 2 GiB
  the buffer that \<open>luaseri_pack\<close> returns is read back by \<open>luaseri_unpack\<close> as the same values, whatever border
  \<open>lua_rawlen\<close> reports for the tables.\<close>

theorem seri_roundtrip:
  assumes "\<forall>t. rawlen t < 2 ^ 31" "\<forall>v \<in> set vs. plain rk MAX_DEPTH v"
  shows "\<exists>wb vs'. pack_from rawlen vs wb_init = LuaOk wb \<and> list_all2 same_val vs vs' \<and>
    (wb_len wb < 2 ^ 31 \<longrightarrow>
       luaseri_pack rawlen vs = Some (LuaOk (wb_bytes wb)) \<and>
       luaseri_unpack rk (Arg_pointer (Some (wb_bytes wb)) (of_nat (wb_len wb))) = Some (Got vs' []))"
proof -
  from pack_unpack [of rawlen vs rk] assms obtain wb vs' where
    wb: "pack_from rawlen vs wb_init = LuaOk wb" "wb_ok wb" "list_all2 same_val vs vs'"
      "unpack_all rk (unpack_bound (wb_bytes wb)) (wb_bytes wb) = Some (Got vs' [])" by blast
  then have len: "wb_len wb = length (wb_bytes wb)" by (simp add: wb_ok_def)
  have u: "(ucast (of_nat (wb_len wb) :: u64) :: u32) = of_nat (wb_len wb)" by transfer simp
  have "luaseri_pack rawlen vs = Some (LuaOk (wb_bytes wb))"
    "luaseri_unpack rk (Arg_pointer (Some (wb_bytes wb)) (of_nat (wb_len wb))) = Some (Got vs' [])" if "wb_len wb < 2 ^ 31"
    using that string_len [OF that] wb seri_result [OF wb(2)] unpack_buffer_all [of rk "wb_bytes wb"]
    unfolding luaseri_unpack_def luaseri_pack_def seri_arg.case u by (simp_all add: len assert_opt_def)
  with wb(1,3) show ?thesis by blast
qed

lemma plain_example: "plain (\<lambda>r. None) MAX_DEPTH (LTable [(LInt 1, LBool True), (LStr [0x61], LTable [(LInt 7, LReal 3)])])"
proof -
  have "plain (\<lambda>r. None) (Suc 30) (LTable [(LInt 7, LReal 3)])"
    by (rule plain.table) (auto simp: key_ok_def sendable_def raw_key_def intro: plain.scalar)
  then have "plain (\<lambda>r. None) (Suc (Suc 30)) (LTable [(LInt 1, LBool True), (LStr [0x61], LTable [(LInt 7, LReal 3)])])"
    by (intro plain.table) (auto simp: key_ok_def sendable_def raw_key_def intro: plain.scalar)
  then show ?thesis by (simp add: MAX_DEPTH_def)
qed

theorem seri_roundtrip_witness:
  "\<exists>wb vs'. pack_from (\<lambda>t. 1) [LInt 300, LTable [(LInt 1, LBool True), (LStr [0x61], LTable [(LInt 7, LReal 3)])]] wb_init = LuaOk wb \<and>
    list_all2 same_val [LInt 300, LTable [(LInt 1, LBool True), (LStr [0x61], LTable [(LInt 7, LReal 3)])]] vs'"
  using seri_roundtrip [of "\<lambda>t. 1" "[LInt 300, LTable [(LInt 1, LBool True), (LStr [0x61], LTable [(LInt 7, LReal 3)])]]" "\<lambda>r. None"]
    plain_example plain.scalar [of "LInt 300"] by (auto simp: sendable_def)


end
