(* ===== verification/Harbor_Service.thy ===== *)
theory Harbor_Service
  imports Server
begin

unbundle bit_operations_syntax

section \<open>The harbor service (\<open>service_harbor.c\<close>)\<close>

text \<open>
  The harbor service connects the nodes of a network. Messages for another node wait in the queue of that
  node until its connection is up, messages for a global name wait under the name until its handle is known;
  then they are framed and written to the socket, and the frames that arrive are cut out of the byte stream
  and sent to the local services. The service works on its own state and on the server, through
  \<open>skynet_send\<close> and \<open>skynet_error\<close> of the theory \<open>Server\<close>; its calls of the socket layer are recorded in order.
\<close>

subsection \<open>State\<close>

definition HASH_SIZE :: nat where "HASH_SIZE = 4096"
definition HARBOR_QUEUE_SIZE :: nat where "HARBOR_QUEUE_SIZE = 1024"
definition HEADER_COOKIE_LENGTH :: nat where "HEADER_COOKIE_LENGTH = 12"
definition REMOTE_MAX :: nat where "REMOTE_MAX = 256"

record remote_message_header =
  rh_source :: u32
  rh_destination :: u32
  rh_session :: u32

record harbor_msg =
  hm_header :: remote_message_header
  hm_buffer :: "bytes option"
  hm_size :: u64

record harbor_msg_queue =
  hq_size :: nat
  hq_head :: nat
  hq_tail :: nat
  hq_data :: "harbor_msg option list"

record keyvalue =
  kv_key :: bytes
  kv_hash :: u32
  kv_value :: u32
  kv_queue :: "harbor_msg_queue option"

datatype slave_status = STATUS_WAIT | STATUS_HANDSHAKE | STATUS_HEADER | STATUS_CONTENT | STATUS_DOWN

text \<open>
  \<open>sl_part\<close> is what has arrived of the length (status header) or of the message (status content): the first
  \<open>read\<close> bytes of the array \<open>size\<close> or of \<open>recv_buffer\<close>.
\<close>

record slave =
  sl_fd :: int
  sl_queue :: "harbor_msg_queue option"
  sl_status :: slave_status
  sl_length :: nat
  sl_part :: bytes

datatype socket_call = Sock_send int bytes | Sock_close int | Sock_start int

text \<open>The nodes of a bucket of the hash map are a list, the newest first.\<close>

record harbor =
  hb_ctx :: ctxid
  hb_id :: int
  hb_slave :: u32
  hb_map :: "nat \<Rightarrow> keyvalue list"
  hb_s :: "slave list"
  hb_sock :: "socket_call list"

subsection \<open>Queues\<close>

definition expand_harbor_queue :: "harbor_msg_queue \<Rightarrow> harbor_msg_queue" where
  "expand_harbor_queue q =
     q\<lparr>hq_data := map (\<lambda>i. hq_data q ! ((i + hq_head q) mod hq_size q)) [0..<hq_size q - 1]
                   @ replicate (hq_size q + 1) None,
       hq_head := 0, hq_tail := hq_size q - 1, hq_size := hq_size q * 2\<rparr>"

definition push_queue_msg :: "harbor_msg \<Rightarrow> harbor_msg_queue \<Rightarrow> harbor_msg_queue option" where
  "push_queue_msg m q =
     do { let q = (if Suc (hq_tail q) mod hq_size q = hq_head q then expand_harbor_queue q else q);
          data \<leftarrow> array_set (hq_data q) (hq_tail q) (Some m);
          Some (q\<lparr>hq_data := data, hq_tail := Suc (hq_tail q) mod hq_size q\<rparr>) }"

definition push_queue ::
  "bytes option \<Rightarrow> u64 \<Rightarrow> remote_message_header \<Rightarrow> harbor_msg_queue \<Rightarrow> harbor_msg_queue option" where
  "push_queue buffer sz header q = push_queue_msg \<lparr>hm_header = header, hm_buffer = buffer, hm_size = sz\<rparr> q"

definition harbor_pop_queue :: "harbor_msg_queue \<Rightarrow> (harbor_msg option \<times> harbor_msg_queue) option" where
  "harbor_pop_queue q =
     (if hq_head q = hq_tail q then Some (None, q)
      else do { c \<leftarrow> array_get (hq_data q) (hq_head q);
                m \<leftarrow> c;
                Some (Some m, q\<lparr>hq_head := Suc (hq_head q) mod hq_size q\<rparr>) })"

definition new_queue :: harbor_msg_queue where
  "new_queue = \<lparr>hq_size = HARBOR_QUEUE_SIZE, hq_head = 0, hq_tail = 0, hq_data = replicate HARBOR_QUEUE_SIZE None\<rparr>"

definition free_msg :: "harbor_msg \<Rightarrow> 'x server \<Rightarrow> 'x server" where
  "free_msg m s = free_data (map_option Bytes (hm_buffer m)) s"

definition release_queue :: "harbor_msg_queue option \<Rightarrow> 'x server \<Rightarrow> 'x server option" where
  "release_queue queue s =
     (case queue of
        None \<Rightarrow> Some s
      | Some q \<Rightarrow> do { (_, s) \<leftarrow> drain_loop harbor_pop_queue (\<lambda>m s. Some (free_msg m s)) q s; Some s })"

subsection \<open>The hash map of global names\<close>

text \<open>A name is an array of 16 bytes; \<open>hash_name\<close> reads it as four words of the machine.\<close>

definition le_word :: "bytes \<Rightarrow> u32" where
  "le_word b = ucast (b ! 0) OR push_bit 8 (ucast (b ! 1)) OR push_bit 16 (ucast (b ! 2)) OR push_bit 24 (ucast (b ! 3))"

definition hash_name :: "bytes \<Rightarrow> u32" where
  "hash_name name = le_word name XOR le_word (drop 4 name) XOR le_word (drop 8 name) XOR le_word (drop 12 name)"

definition bucket :: "bytes \<Rightarrow> nat" where
  "bucket name = unat (hash_name name) mod HASH_SIZE"

definition same_name :: "bytes \<Rightarrow> keyvalue \<Rightarrow> bool" where
  "same_name name node \<longleftrightarrow> kv_hash node = hash_name name \<and>
     takeWhile (\<lambda>b. b \<noteq> 0) (take GLOBALNAME_LENGTH (kv_key node)) = takeWhile (\<lambda>b. b \<noteq> 0) (take GLOBALNAME_LENGTH name)"

definition hash_search :: "(nat \<Rightarrow> keyvalue list) \<Rightarrow> bytes \<Rightarrow> keyvalue option" where
  "hash_search hash name = List.find (same_name name) (hash (bucket name))"

definition hash_insert :: "(nat \<Rightarrow> keyvalue list) \<Rightarrow> bytes \<Rightarrow> keyvalue \<times> (nat \<Rightarrow> keyvalue list)" where
  "hash_insert hash name =
     (let node = \<lparr>kv_key = take GLOBALNAME_LENGTH name, kv_hash = hash_name name, kv_value = 0, kv_queue = None\<rparr>
      in (node, hash(bucket name := node # hash (bucket name))))"

text \<open>An assignment through the pointer that \<open>hash_search\<close> or \<open>hash_insert\<close> gave.\<close>

fun replace_first :: "('a \<Rightarrow> bool) \<Rightarrow> 'a \<Rightarrow> 'a list \<Rightarrow> 'a list" where
  "replace_first p y [] = []"
| "replace_first p y (x # xs) = (if p x then y # xs else x # replace_first p y xs)"

definition put_node :: "bytes \<Rightarrow> keyvalue \<Rightarrow> harbor \<Rightarrow> harbor" where
  "put_node name node h =
     h\<lparr>hb_map := (hb_map h)(bucket name := replace_first (same_name name) node (hb_map h (bucket name)))\<rparr>"

definition hash_new :: "nat \<Rightarrow> keyvalue list" where
  "hash_new = (\<lambda>_. [])"

definition hash_delete :: "(nat \<Rightarrow> keyvalue list) \<Rightarrow> 'x server \<Rightarrow> 'x server option" where
  "hash_delete hash s = fold_opt (\<lambda>node s. release_queue (kv_queue node) s) (concat (map hash [0..<HASH_SIZE])) s"

subsection \<open>Slaves\<close>

definition put_slave :: "nat \<Rightarrow> slave \<Rightarrow> harbor \<Rightarrow> harbor" where
  "put_slave i sl h = h\<lparr>hb_s := (hb_s h)[i := sl]\<rparr>"

definition sock :: "socket_call \<Rightarrow> harbor \<Rightarrow> harbor" where
  "sock c h = h\<lparr>hb_sock := hb_sock h @ [c]\<rparr>"

definition close_harbor :: "nat \<Rightarrow> harbor \<Rightarrow> 'x server \<Rightarrow> (harbor \<times> 'x server) option" where
  "close_harbor i h s =
     do { sl \<leftarrow> array_get (hb_s h) i;
          let h = (if sl_fd sl \<noteq> 0 then sock (Sock_close (sl_fd sl)) h else h);
          s \<leftarrow> release_queue (sl_queue sl) s;
          Some (put_slave i (sl\<lparr>sl_status := STATUS_DOWN, sl_queue := None\<rparr>) h, s) }"

definition chars :: "string \<Rightarrow> bytes" where
  "chars t = map of_char t"

text \<open>Text as \<open>%s\<close> prints it.\<close>

definition c_text :: "bytes \<Rightarrow> string" where
  "c_text b = map (\<lambda>x. char_of (unat x)) (takeWhile (\<lambda>x. x \<noteq> 0) b)"

definition report_harbor_down :: "'x modules \<Rightarrow> harbor \<Rightarrow> nat \<Rightarrow> 'x server \<Rightarrow> 'x server option" where
  "report_harbor_down M h i s =
     do { let down = chars (''D '' @ show_int (int i));
          (_, s) \<leftarrow> skynet_send M (Some (hb_ctx h)) 0 (hb_slave h) PTYPE_TEXT 0 (Some down) (of_nat (length down)) s;
          Some s }"

definition blank_slave :: slave where
  "blank_slave = \<lparr>sl_fd = 0, sl_queue = None, sl_status = STATUS_WAIT, sl_length = 0, sl_part = []\<rparr>"

definition harbor_create :: harbor where
  "harbor_create = \<lparr>hb_ctx = 0, hb_id = 0, hb_slave = 0, hb_map = hash_new, hb_s = replicate REMOTE_MAX blank_slave, hb_sock = []\<rparr>"

definition harbor_release :: "harbor \<Rightarrow> 'x server \<Rightarrow> (harbor \<times> 'x server) option" where
  "harbor_release h s =
     do { (h, s) \<leftarrow> fold_opt (\<lambda>i (h, s).
            do { sl \<leftarrow> array_get (hb_s h) i;
                 (if sl_fd sl \<noteq> 0 \<and> sl_status sl \<noteq> STATUS_DOWN then close_harbor i h s else Some (h, s)) })
            [1..<REMOTE_MAX] (h, s);
          s \<leftarrow> hash_delete (hb_map h) s;
          Some (h, s) }"

subsection \<open>Frames\<close>

definition to_bigendian :: "u32 \<Rightarrow> bytes" where
  "to_bigendian n = [ucast (drop_bit 24 n), ucast (drop_bit 16 n), ucast (drop_bit 8 n), ucast n]"

definition header_to_message :: "remote_message_header \<Rightarrow> bytes" where
  "header_to_message header = to_bigendian (rh_source header) @ to_bigendian (rh_destination header) @ to_bigendian (rh_session header)"

definition from_bigendian :: "bytes \<Rightarrow> u32" where
  "from_bigendian b = push_bit 24 (ucast (b ! 0)) OR push_bit 16 (ucast (b ! 1)) OR push_bit 8 (ucast (b ! 2)) OR ucast (b ! 3)"

definition message_to_header :: "bytes \<Rightarrow> remote_message_header" where
  "message_to_header message =
     \<lparr>rh_source = from_bigendian message, rh_destination = from_bigendian (drop 4 message),
      rh_session = from_bigendian (drop 8 message)\<rparr>"

text \<open>
  \<open>forward_local_messsage\<close>: \<open>deliver\<close> is what it does with a message whose header is read. A message shorter
  than its header is read outside the buffer.
\<close>

definition deliver ::
  "'x modules \<Rightarrow> harbor \<Rightarrow> u32 \<Rightarrow> u32 \<Rightarrow> nat \<Rightarrow> int \<Rightarrow> bytes \<Rightarrow> nat \<Rightarrow> 'x server \<Rightarrow> 'x server option" where
  "deliver M h source destination type session msg sz s =
     do { (r, s) \<leftarrow> skynet_send M (Some (hb_ctx h)) source destination (type OR PTYPE_TAG_DONTCOPY) session (Some msg) (of_nat sz) s;
          (if r < 0 then
             do { s \<leftarrow> (if type \<noteq> PTYPE_ERROR then
                          do { (_, s) \<leftarrow> skynet_send M (Some (hb_ctx h)) destination source PTYPE_ERROR session None 0 s; Some s }
                        else Some s);
                  skynet_error M (Some (hb_ctx h)) (''Unknown destination :'' @ show_hex destination @ '' from :''
                    @ show_hex source @ '' type('' @ show_int (int type) @ '')'') s }
           else Some s) }"

definition forward_local_messsage :: "'x modules \<Rightarrow> harbor \<Rightarrow> bytes \<Rightarrow> 'x server \<Rightarrow> 'x server option" where
  "forward_local_messsage M h msg s =
     do { assert_opt (HEADER_COOKIE_LENGTH \<le> length msg);
          let sz = length msg - HEADER_COOKIE_LENGTH;
          let header = message_to_header (drop sz msg);
          deliver M h (rh_source header)
            ((rh_destination header AND HANDLE_MASK) OR push_bit HANDLE_REMOTE_SHIFT (word_of_int (hb_id h)))
            (unat (drop_bit HANDLE_REMOTE_SHIFT (rh_destination header))) (sint (rh_session header)) msg sz s }"

text \<open>The \<open>sz\<close> bytes at \<open>buffer\<close>.\<close>

definition read_bytes :: "bytes option \<Rightarrow> u64 \<Rightarrow> bytes option" where
  "read_bytes buffer sz =
     (let b = (case buffer of Some b \<Rightarrow> b | None \<Rightarrow> []) in
      do { assert_opt (unat sz \<le> length b); Some (take (unat sz) b) })"

definition send_remote ::
  "'x modules \<Rightarrow> int \<Rightarrow> bytes option \<Rightarrow> u64 \<Rightarrow> remote_message_header \<Rightarrow> harbor \<Rightarrow> 'x server \<Rightarrow> (harbor \<times> 'x server) option" where
  "send_remote M fd buffer sz cookie h s =
     (let sz_header = sz + of_nat HEADER_COOKIE_LENGTH in
      if sz_header > 0xFFFFFFFF then
        do { s \<leftarrow> skynet_error M (Some (hb_ctx h)) (''remote message from :'' @ hex8 (rh_source cookie) @ '' to :''
                    @ hex8 (rh_destination cookie) @ '' is too large.'') s;
             Some (h, s) }
      else
        do { b \<leftarrow> read_bytes buffer sz;
             Some (sock (Sock_send fd (to_bigendian (ucast sz_header) @ b @ header_to_message cookie)) h, s) })"

definition send_and_free :: "'x modules \<Rightarrow> int \<Rightarrow> harbor_msg \<Rightarrow> harbor \<times> 'x server \<Rightarrow> (harbor \<times> 'x server) option" where
  "send_and_free M fd m w =
     do { (h, s) \<leftarrow> send_remote M fd (hm_buffer m) (hm_size m) (hm_header m) (fst w) (snd w); Some (h, free_msg m s) }"

text \<open>The branch of \<open>dispatch_name_queue\<close> for a name of the own node: the messages go to the local service.\<close>

definition send_to_local :: "'x modules \<Rightarrow> harbor \<Rightarrow> u32 \<Rightarrow> harbor_msg \<Rightarrow> 'x server \<Rightarrow> 'x server option" where
  "send_to_local M h handle m s =
     do { let type = unat (drop_bit HANDLE_REMOTE_SHIFT (rh_destination (hm_header m)));
          (_, s) \<leftarrow> skynet_send M (Some (hb_ctx h)) (rh_source (hm_header m)) handle (type OR PTYPE_TAG_DONTCOPY)
                     (sint (rh_session (hm_header m))) (hm_buffer m) (hm_size m) s;
          Some s }"

text \<open>
  \<open>dispatch_name_queue\<close> on a node that has a queue; the first result is the queue the node has after it.
\<close>

definition dispatch_name_queue ::
  "'x modules \<Rightarrow> keyvalue \<Rightarrow> harbor_msg_queue \<Rightarrow> harbor \<Rightarrow> 'x server \<Rightarrow> (harbor_msg_queue option \<times> harbor \<times> 'x server) option" where
  "dispatch_name_queue M node queue h s =
     do { let handle = kv_value node;
          let harbor_id = unat (drop_bit HANDLE_REMOTE_SHIFT handle);
          sl \<leftarrow> array_get (hb_s h) harbor_id;
          (if sl_fd sl = 0 then
             (if sl_status sl = STATUS_DOWN then
                do { s \<leftarrow> skynet_error M (Some (hb_ctx h)) (''Drop message to '' @ c_text (kv_key node)
                            @ '' (in harbor '' @ show_int (int harbor_id) @ '')'') s;
                     Some (Some queue, h, s) }
              else
                do { (queue, squeue) \<leftarrow>
                       (case sl_queue sl of
                          None \<Rightarrow> Some (None, queue)
                        | Some sq \<Rightarrow> do { (q, sq) \<leftarrow> drain_loop harbor_pop_queue push_queue_msg queue sq; Some (Some q, sq) });
                     (squeue, s) \<leftarrow>
                       (if drop_bit HANDLE_REMOTE_SHIFT handle = drop_bit HANDLE_REMOTE_SHIFT (hb_slave h) then
                          do { (q, s) \<leftarrow> drain_loop harbor_pop_queue (send_to_local M h handle) squeue s;
                               s \<leftarrow> release_queue (Some q) s;
                               Some (None, s) }
                        else Some (Some squeue, s));
                     Some (queue, put_slave harbor_id (sl\<lparr>sl_queue := squeue\<rparr>) h, s) })
           else
             do { (q, h, s) \<leftarrow> drain_loop harbor_pop_queue (\<lambda>m w.
                      send_and_free M (sl_fd sl)
                        (m\<lparr>hm_header := (hm_header m)\<lparr>rh_destination := rh_destination (hm_header m) OR (handle AND HANDLE_MASK)\<rparr>\<rparr>) w)
                    queue (h, s);
                  Some (Some q, h, s) }) }"

definition harbor_dispatch_queue :: "'x modules \<Rightarrow> nat \<Rightarrow> harbor \<Rightarrow> 'x server \<Rightarrow> (harbor \<times> 'x server) option" where
  "harbor_dispatch_queue M i h s =
     do { sl \<leftarrow> array_get (hb_s h) i;
          assert_opt (sl_fd sl \<noteq> 0);
          (case sl_queue sl of
             None \<Rightarrow> Some (h, s)
           | Some queue \<Rightarrow>
               do { (q, h, s) \<leftarrow> drain_loop harbor_pop_queue (send_and_free M (sl_fd sl)) queue (h, s);
                    s \<leftarrow> release_queue (Some q) s;
                    sl \<leftarrow> array_get (hb_s h) i;
                    Some (put_slave i (sl\<lparr>sl_queue := None\<rparr>) h, s) }) }"

subsection \<open>Data from a harbor\<close>

text \<open>
  One pass of the loop of \<open>push_socket_data\<close> for the status the slave has; the first result is what is left of
  the data when the loop goes on. A case that falls through goes on with the status it has just set, which
  selects the case below it; a \<open>break\<close> and an empty rest are told apart as in the code.
\<close>

definition push_handshake :: "'x modules \<Rightarrow> nat \<Rightarrow> slave \<Rightarrow> bytes \<Rightarrow> harbor \<Rightarrow> 'x server \<Rightarrow> (bytes option \<times> harbor \<times> 'x server) option" where
  "push_handshake M i sl buffer h s =
     (case buffer of
        [] \<Rightarrow> None
      | remote_id # rest \<Rightarrow>
          (if unat remote_id \<noteq> i then
             do { s \<leftarrow> skynet_error M (Some (hb_ctx h)) (''Invalid shakehand id ('' @ show_int (int i) @ '') from fd = ''
                        @ show_int (sl_fd sl) @ '' , harbor = '' @ show_int (uint remote_id)) s;
                  (h, s) \<leftarrow> close_harbor i h s;
                  Some (None, h, s) }
           else
             do { (h, s) \<leftarrow> harbor_dispatch_queue M i (put_slave i (sl\<lparr>sl_status := STATUS_HEADER\<rparr>) h) s;
                  Some (Some rest, h, s) }))"

definition push_header :: "'x modules \<Rightarrow> nat \<Rightarrow> slave \<Rightarrow> bytes \<Rightarrow> harbor \<Rightarrow> 'x server \<Rightarrow> (bytes option \<times> harbor \<times> 'x server) option" where
  "push_header M i sl buffer h s =
     (let need = 4 - length (sl_part sl) in
      if length buffer < need then Some (None, put_slave i (sl\<lparr>sl_part := sl_part sl @ buffer\<rparr>) h, s)
      else
        (let size = sl_part sl @ take need buffer; rest = drop need buffer in
         if size ! 0 \<noteq> 0 then
           do { s \<leftarrow> skynet_error M (Some (hb_ctx h)) (''Message is too long from harbor '' @ show_int (int i)) s;
                (h, s) \<leftarrow> close_harbor i h s;
                Some (None, h, s) }
         else
           Some (if rest = [] then None else Some rest,
                 put_slave i (sl\<lparr>sl_length := unat (size ! 1) * 65536 + unat (size ! 2) * 256 + unat (size ! 3),
                                   sl_part := [], sl_status := STATUS_CONTENT\<rparr>) h, s)))"

definition push_content :: "'x modules \<Rightarrow> nat \<Rightarrow> slave \<Rightarrow> bytes \<Rightarrow> harbor \<Rightarrow> 'x server \<Rightarrow> (bytes option \<times> harbor \<times> 'x server) option" where
  "push_content M i sl buffer h s =
     (let need = sl_length sl - length (sl_part sl) in
      if length buffer < need then Some (None, put_slave i (sl\<lparr>sl_part := sl_part sl @ buffer\<rparr>) h, s)
      else
        do { s \<leftarrow> forward_local_messsage M h (sl_part sl @ take need buffer) s;
             let rest = drop need buffer;
             Some (if rest = [] then None else Some rest,
                   put_slave i (sl\<lparr>sl_length := 0, sl_part := [], sl_status := STATUS_HEADER\<rparr>) h, s) })"

definition push_step :: "'x modules \<Rightarrow> nat \<Rightarrow> bytes \<Rightarrow> harbor \<Rightarrow> 'x server \<Rightarrow> (bytes option \<times> harbor \<times> 'x server) option" where
  "push_step M i buffer h s =
     do { sl \<leftarrow> array_get (hb_s h) i;
          (case sl_status sl of
             STATUS_HANDSHAKE \<Rightarrow> push_handshake M i sl buffer h s
           | STATUS_HEADER \<Rightarrow> push_header M i sl buffer h s
           | STATUS_CONTENT \<Rightarrow> push_content M i sl buffer h s
           | _ \<Rightarrow> Some (None, h, s)) }"

partial_function (option) push_loop :: "'x modules \<Rightarrow> nat \<Rightarrow> bytes \<Rightarrow> harbor \<Rightarrow> 'x server \<Rightarrow> (harbor \<times> 'x server) option" where
  "push_loop M i buffer h s =
     do { (r, h, s) \<leftarrow> push_step M i buffer h s;
          (case r of None \<Rightarrow> Some (h, s) | Some rest \<Rightarrow> push_loop M i rest h s) }"

text \<open>\<open>harbor_id\<close>: the number of the slave with a connection, 0 if there is none; the loop of \<open>push_socket_data\<close> is the same search.\<close>

definition harbor_id :: "harbor \<Rightarrow> int \<Rightarrow> nat" where
  "harbor_id h fd =
     (case List.find (\<lambda>i. sl_fd (hb_s h ! i) = fd) [1..<REMOTE_MAX] of Some i \<Rightarrow> i | None \<Rightarrow> 0)"

definition push_socket_data :: "'x modules \<Rightarrow> int \<Rightarrow> bytes \<Rightarrow> harbor \<Rightarrow> 'x server \<Rightarrow> (harbor \<times> 'x server) option" where
  "push_socket_data M fd buffer h s =
     (let i = harbor_id h fd in
      if i = 0 then
        do { let s = free_data (Some (Bytes buffer)) s;
             s \<leftarrow> skynet_error M (Some (hb_ctx h)) (''Invalid socket fd ('' @ show_int fd @ '') data'') s;
             Some (h, s) }
      else push_loop M i buffer h s)"

subsection \<open>Names and messages to other nodes\<close>

definition find_or_insert :: "bytes \<Rightarrow> harbor \<Rightarrow> keyvalue \<times> harbor" where
  "find_or_insert name h =
     (case hash_search (hb_map h) name of
        Some node \<Rightarrow> (node, h)
      | None \<Rightarrow> (let (node, hash) = hash_insert (hb_map h) name in (node, h\<lparr>hb_map := hash\<rparr>)))"

definition update_name :: "'x modules \<Rightarrow> bytes \<Rightarrow> u32 \<Rightarrow> harbor \<Rightarrow> 'x server \<Rightarrow> (harbor \<times> 'x server) option" where
  "update_name M name handle h s =
     do { let (node, h) = find_or_insert name h;
          let node = node\<lparr>kv_value := handle\<rparr>;
          (case kv_queue node of
             None \<Rightarrow> Some (put_node name node h, s)
           | Some queue \<Rightarrow>
               do { (q, h, s) \<leftarrow> dispatch_name_queue M node queue h s;
                    s \<leftarrow> release_queue q s;
                    Some (put_node name (node\<lparr>kv_queue := None\<rparr>) h, s) }) }"

text \<open>The result says whether the message block is kept (1) or the caller frees it (0).\<close>

definition remote_send_handle ::
  "'x modules \<Rightarrow> u32 \<Rightarrow> u32 \<Rightarrow> nat \<Rightarrow> int \<Rightarrow> bytes option \<Rightarrow> u64 \<Rightarrow> harbor \<Rightarrow> 'x server \<Rightarrow> (int \<times> harbor \<times> 'x server) option" where
  "remote_send_handle M source destination type session msg sz h s =
     (let harbor_id = unat (drop_bit HANDLE_REMOTE_SHIFT destination) in
      if int harbor_id = hb_id h then
        do { (_, s) \<leftarrow> skynet_send M (Some (hb_ctx h)) source destination (type OR PTYPE_TAG_DONTCOPY) session msg sz s;
             Some (1, h, s) }
      else
        do { sl \<leftarrow> array_get (hb_s h) harbor_id;
             let cookie = \<lparr>rh_source = source,
                  rh_destination = push_bit HANDLE_REMOTE_SHIFT (of_nat type) OR (destination AND HANDLE_MASK),
                  rh_session = word_of_int session\<rparr>;
             (if sl_fd sl = 0 \<or> sl_status sl = STATUS_HANDSHAKE then
                (if sl_status sl = STATUS_DOWN then
                   do { (_, s) \<leftarrow> skynet_send M (Some (hb_ctx h)) destination source PTYPE_ERROR 0 None 0 s;
                        s \<leftarrow> skynet_error M (Some (hb_ctx h)) (''Drop message to harbor '' @ show_int (int harbor_id) @ '' from ''
                              @ show_hex source @ '' to '' @ show_hex destination @ '' (session = '' @ show_int session
                              @ '', msgsz = '' @ show_int (sint (ucast sz :: u32)) @ '')'') s;
                        Some (0, h, s) }
                 else
                   do { q \<leftarrow> push_queue msg sz cookie (case sl_queue sl of Some q \<Rightarrow> q | None \<Rightarrow> new_queue);
                        Some (1, put_slave harbor_id (sl\<lparr>sl_queue := Some q\<rparr>) h, s) })
              else
                do { (h, s) \<leftarrow> send_remote M (sl_fd sl) msg sz cookie h s;
                     Some (0, h, s) }) })"

definition remote_send_name ::
  "'x modules \<Rightarrow> u32 \<Rightarrow> bytes \<Rightarrow> nat \<Rightarrow> int \<Rightarrow> bytes option \<Rightarrow> u64 \<Rightarrow> harbor \<Rightarrow> 'x server \<Rightarrow> (int \<times> harbor \<times> 'x server) option" where
  "remote_send_name M source name type session msg sz h s =
     do { let (node, h) = find_or_insert name h;
          (if kv_value node = 0 then
             do { q \<leftarrow> push_queue msg sz
                    \<lparr>rh_source = source, rh_destination = push_bit HANDLE_REMOTE_SHIFT (of_nat type), rh_session = word_of_int session\<rparr>
                    (case kv_queue node of Some q \<Rightarrow> q | None \<Rightarrow> new_queue);
                  let h = put_node name (node\<lparr>kv_queue := Some q\<rparr>) h;
                  let query = chars ''Q '' @ takeWhile (\<lambda>b. b \<noteq> 0) (take GLOBALNAME_LENGTH name);
                  (_, s) \<leftarrow> skynet_send M (Some (hb_ctx h)) 0 (hb_slave h) PTYPE_TEXT 0 (Some query) (of_nat (length query)) s;
                  Some (1, h, s) }
           else remote_send_handle M source (kv_value node) type session msg sz h s) }"

subsection \<open>Commands and the main loop\<close>

definition handshake :: "nat \<Rightarrow> harbor \<Rightarrow> harbor option" where
  "handshake i h = do { sl \<leftarrow> array_get (hb_s h) i; Some (sock (Sock_send (sl_fd sl) [word_of_int (hb_id h)]) h) }"

text \<open>
  The argument of a command starts at its third byte. A message that was sent is followed by a zero byte; a
  command of one byte has its argument outside the message.
\<close>

definition name_array :: "bytes \<Rightarrow> bytes" where
  "name_array b = take GLOBALNAME_LENGTH (b @ replicate GLOBALNAME_LENGTH 0)"

definition command_name :: "'x modules \<Rightarrow> bytes \<Rightarrow> u32 \<Rightarrow> harbor \<Rightarrow> 'x server \<Rightarrow> (harbor \<times> 'x server) option" where
  "command_name M name source h s =
     (if name = [] \<or> GLOBALNAME_LENGTH \<le> length name then
        do { s \<leftarrow> skynet_error M (Some (hb_ctx h)) (''Invalid global name '' @ c_text name) s; Some (h, s) }
      else update_name M (name_array name) source h s)"

definition command_connect :: "'x modules \<Rightarrow> char \<Rightarrow> bytes \<Rightarrow> harbor \<Rightarrow> 'x server \<Rightarrow> (harbor \<times> 'x server) option" where
  "command_connect M cmd name h s =
     (let buffer = c_text name;
          (fd, n) = (case scan_int buffer of
                       None \<Rightarrow> (0, 0)
                     | Some (fd, t) \<Rightarrow> (fd, case scan_int t of None \<Rightarrow> 0 | Some (n, _) \<Rightarrow> n)) in
      if fd = 0 \<or> n \<le> 0 \<or> int REMOTE_MAX \<le> n then
        do { s \<leftarrow> skynet_error M (Some (hb_ctx h)) (''Invalid command '' @ [cmd] @ '' '' @ buffer) s; Some (h, s) }
      else
        do { sl \<leftarrow> array_get (hb_s h) (nat n);
             (if sl_fd sl \<noteq> 0 then
                do { s \<leftarrow> skynet_error M (Some (hb_ctx h)) (''Harbor '' @ show_int n @ '' alreay exist'') s; Some (h, s) }
              else
                do { let h = sock (Sock_start fd) (put_slave (nat n) (sl\<lparr>sl_fd := fd\<rparr>) h);
                     h \<leftarrow> handshake (nat n) h;
                     (if cmd = CHR ''S''
                      then Some (put_slave (nat n) (sl\<lparr>sl_fd := fd, sl_status := STATUS_HANDSHAKE\<rparr>) h, s)
                      else harbor_dispatch_queue M (nat n) (put_slave (nat n) (sl\<lparr>sl_fd := fd, sl_status := STATUS_HEADER\<rparr>) h) s) }) })"

definition harbor_command :: "'x modules \<Rightarrow> bytes \<Rightarrow> u32 \<Rightarrow> harbor \<Rightarrow> 'x server \<Rightarrow> (harbor \<times> 'x server) option" where
  "harbor_command M msg source h s =
     (let cmd = (case msg of [] \<Rightarrow> CHR 0x00 | b # _ \<Rightarrow> char_of (unat b)) in
      if cmd = CHR ''N'' then do { assert_opt (2 \<le> length msg); command_name M (drop 2 msg) source h s }
      else if cmd = CHR ''S'' \<or> cmd = CHR ''A'' then do { assert_opt (2 \<le> length msg); command_connect M cmd (drop 2 msg) h s }
      else do { s \<leftarrow> skynet_error M (Some (hb_ctx h)) (''Unknown command '' @ c_text msg) s; Some (h, s) })"

datatype harbor_event =
    Socket_data int bytes
  | Socket_closed int
  | Socket_connected int
  | Socket_warning int int
  | Socket_other
  | Harbor_text bytes
  | Remote_out nat remote_message

definition free_data_buffer :: "bytes \<Rightarrow> 'x server \<Rightarrow> 'x server" where
  "free_data_buffer b s = free_data (Some (Bytes b)) s"

definition mainloop :: "'x modules \<Rightarrow> harbor_event \<Rightarrow> int \<Rightarrow> u32 \<Rightarrow> harbor \<Rightarrow> 'x server \<Rightarrow> (harbor \<times> 'x server) option" where
  "mainloop M ev session source h s =
     (case ev of
        Socket_data fd b \<Rightarrow> do { (h, s) \<leftarrow> push_socket_data M fd b h s; Some (h, free_data_buffer b s) }
      | Socket_closed fd \<Rightarrow>
          (let i = harbor_id h fd in
           do { s \<leftarrow> (if i \<noteq> 0 then report_harbor_down M h i s
                      else skynet_error M (Some (hb_ctx h)) (''Unkown fd ('' @ show_int fd @ '') closed'') s);
                Some (h, s) })
      | Socket_connected fd \<Rightarrow> Some (h, s)
      | Socket_warning fd ud \<Rightarrow>
          (let i = harbor_id h fd in
           do { s \<leftarrow> (if i \<noteq> 0 then skynet_error M (Some (hb_ctx h)) (''message havn't send to Harbor ('' @ show_int (int i)
                                @ '') reach '' @ show_int ud @ '' K'') s
                      else Some s);
                Some (h, s) })
      | Socket_other \<Rightarrow>
          do { s \<leftarrow> skynet_error M (Some (hb_ctx h)) (''recv invalid socket message type '' @ show_int (int PTYPE_SOCKET)) s; Some (h, s) }
      | Harbor_text b \<Rightarrow> harbor_command M b source h s
      | Remote_out type m \<Rightarrow>
          do { (r, h, s) \<leftarrow>
                 (if rm_handle m = 0
                  then remote_send_name M source (name_array (chars (rm_name m))) type session (rm_message m) (rm_sz m) h s
                  else remote_send_handle M source (rm_handle m) type session (rm_message m) (rm_sz m) h s);
               Some (h, if r \<noteq> 0 then s else free_data (map_option Bytes (rm_message m)) s) })"

definition harbor_init :: "ctxid \<Rightarrow> string \<Rightarrow> harbor \<Rightarrow> 'x server \<Rightarrow> (int \<times> harbor \<times> 'x server) option" where
  "harbor_init ctx args h s =
     (let (n, slave) = (case scan_int args of
                          None \<Rightarrow> (0, 0)
                        | Some (n, t) \<Rightarrow> (n, case scan_uint t of None \<Rightarrow> 0 | Some (u, _) \<Rightarrow> u));
          h = h\<lparr>hb_ctx := ctx\<rparr> in
      if slave = 0 then Some (1, h, s)
      else
        do { s \<leftarrow> skynet_callback ctx True s;
             s \<leftarrow> skynet_harbor_start ctx s;
             Some (0, h\<lparr>hb_id := n, hb_slave := slave\<rparr>, s) })"

subsection \<open>The queues are first-in first-out\<close>

definition hq_count :: "harbor_msg_queue \<Rightarrow> nat" where
  "hq_count q = ring_count (hq_size q) (hq_head q) (hq_tail q)"

definition hq_cells :: "harbor_msg_queue \<Rightarrow> harbor_msg option list" where
  "hq_cells q = ring_slice (hq_data q) (hq_head q) (hq_count q)"

definition hq_contents :: "harbor_msg_queue \<Rightarrow> harbor_msg list" where
  "hq_contents q = map the (hq_cells q)"

definition hq_wf :: "harbor_msg_queue \<Rightarrow> bool" where
  "hq_wf q \<longleftrightarrow> hq_head q < hq_size q \<and> hq_tail q < hq_size q \<and> length (hq_data q) = hq_size q \<and> None \<notin> set (hq_cells q)"

lemma new_queue_wf: "hq_wf new_queue" "hq_contents new_queue = []"
  by (simp_all add: hq_wf_def new_queue_def hq_cells_def hq_contents_def hq_count_def ring_count_def HARBOR_QUEUE_SIZE_def)

lemma hq_expand:
  assumes "hq_wf q" "Suc (hq_tail q) mod hq_size q = hq_head q"
  defines "e \<equiv> expand_harbor_queue q"
  shows "hq_wf e" "hq_contents e = hq_contents q" "Suc (hq_tail e) mod hq_size e \<noteq> hq_head e"
proof -
  let ?n = "hq_size q"
  have wf: "hq_head q < ?n" "hq_tail q < ?n" "length (hq_data q) = ?n" "None \<notin> set (hq_cells q)"
    using assms(1) by (simp_all add: hq_wf_def)
  have data: "map (\<lambda>i. hq_data q ! ((i + hq_head q) mod ?n)) [0..<?n - 1] = hq_cells q"
    using ring_count_full [OF wf(1,2) assms(2)] wf(3) by (simp add: hq_cells_def hq_count_def ring_slice_def add.commute)
  have len: "length (hq_cells q) = ?n - 1"
    using ring_count_full [OF wf(1,2) assms(2)] by (simp add: hq_cells_def hq_count_def)
  have "hq_count e = ?n - 1" by (simp add: e_def expand_harbor_queue_def hq_count_def ring_count_def)
  then have cells: "hq_cells e = hq_cells q"
    using len data by (simp add: e_def expand_harbor_queue_def hq_cells_def [of "q\<lparr>hq_data := _, hq_head := _, hq_tail := _, hq_size := _\<rparr>"]
        ring_slice_copy)
  then show "hq_contents e = hq_contents q" by (simp add: hq_contents_def)
  show "Suc (hq_tail e) mod hq_size e \<noteq> hq_head e" using wf(1) by (simp add: e_def expand_harbor_queue_def)
  show "hq_wf e" using wf cells len by (simp add: hq_wf_def) (auto simp: e_def expand_harbor_queue_def)
qed

lemma hq_store_room:
  assumes "hq_wf q" "Suc (hq_tail q) mod hq_size q \<noteq> hq_head q"
  shows "\<exists>q'. push_queue_msg m q = Some q' \<and> hq_wf q' \<and> hq_contents q' = hq_contents q @ [m]"
proof -
  let ?q = "q\<lparr>hq_data := (hq_data q)[hq_tail q := Some m], hq_tail := Suc (hq_tail q) mod hq_size q\<rparr>"
  have wf: "hq_head q < hq_size q" "hq_tail q < hq_size q" "length (hq_data q) = hq_size q"
    using assms(1) by (simp_all add: hq_wf_def)
  have "push_queue_msg m q = Some ?q" using wf assms(2) by (simp add: push_queue_msg_def)
  moreover have "hq_cells ?q = hq_cells q @ [Some m]"
    using ring_slice_push [of "hq_count q" "hq_data q" "hq_head q" "Some m"] ring_count_push [OF wf(1,2) assms(2)]
      ring_count_tail [OF wf(1,2)] ring_count_less [OF wf(1,2)] wf(3) by (simp add: hq_cells_def hq_count_def)
  moreover have "Suc (hq_tail q) mod hq_size q < hq_size q" using wf(1) by (auto intro: mod_less_divisor)
  ultimately show ?thesis using assms(1) wf by (auto simp: hq_wf_def hq_contents_def)
qed

lemma hq_push:
  assumes "hq_wf q"
  shows "\<exists>q'. push_queue_msg m q = Some q' \<and> hq_wf q' \<and> hq_contents q' = hq_contents q @ [m]"
proof (cases "Suc (hq_tail q) mod hq_size q = hq_head q")
  case True
  note e = hq_expand [OF assms True]
  have "push_queue_msg m q = push_queue_msg m (expand_harbor_queue q)"
    using True e(3) by (simp add: push_queue_msg_def)
  with hq_store_room [OF e(1,3), of m] e(2) show ?thesis by simp
qed (rule hq_store_room [OF assms])

lemma hq_pop:
  assumes "hq_wf q" "hq_contents q = m # ms"
  shows "\<exists>q'. harbor_pop_queue q = Some (Some m, q') \<and> hq_wf q' \<and> hq_contents q' = ms"
proof -
  let ?q = "q\<lparr>hq_head := Suc (hq_head q) mod hq_size q\<rparr>"
  have wf: "hq_head q < hq_size q" "hq_tail q < hq_size q" "length (hq_data q) = hq_size q" "None \<notin> set (hq_cells q)"
    using assms(1) by (simp_all add: hq_wf_def)
  have ne: "hq_head q \<noteq> hq_tail q" using assms(2) by (auto simp: hq_contents_def hq_cells_def hq_count_def ring_count_def)
  have cells: "hq_cells q = hq_data q ! hq_head q # hq_cells ?q"
    using wf(1,3) ring_count_pop [OF wf(1,2) ne] by (simp add: hq_cells_def hq_count_def ring_slice_pop)
  with wf(4) obtain m' where m': "hq_data q ! hq_head q = Some m'" by (cases "hq_data q ! hq_head q") auto
  have "Suc (hq_head q) mod hq_size q < hq_size q" using wf(1) by (auto intro: mod_less_divisor)
  then show ?thesis using wf ne cells m' assms(2) by (auto simp: harbor_pop_queue_def hq_wf_def hq_contents_def)
qed

lemma hq_pop_empty: "hq_wf q \<Longrightarrow> hq_contents q = [] \<Longrightarrow> harbor_pop_queue q = Some (None, q)"
  using ring_count_0 [of "hq_head q" "hq_size q" "hq_tail q"]
  by (auto simp: harbor_pop_queue_def hq_contents_def hq_cells_def hq_count_def hq_wf_def ring_slice_def)

interpretation hq: fifo_queue hq_wf hq_contents push_queue_msg harbor_pop_queue
  by unfold_locales (use hq_push hq_pop hq_pop_empty in blast)+

lemma release_queue_result:
  assumes "\<forall>q. queue = Some q \<longrightarrow> hq_wf q"
  shows "release_queue queue s = Some (fold free_msg (case queue of Some q \<Rightarrow> hq_contents q | None \<Rightarrow> []) s)"
proof (cases queue)
  case (Some q)
  from hq.drain_contents [of q "\<lambda>m s. Some (free_msg m s)" s "fold free_msg (hq_contents q) s"] assms Some obtain q' where
    "drain_loop harbor_pop_queue (\<lambda>m s. Some (free_msg m s)) q s = Some (q', fold free_msg (hq_contents q) s)"
    by (auto simp: fold_opt_total [where g = free_msg])
  then show ?thesis by (simp add: release_queue_def Some)
qed (simp add: release_queue_def)

end
