(* ===== verification/Harbor_Protocol.thy ===== *)
theory Harbor_Protocol
  imports Harbor_Service Service_Lifetime
begin

unbundle bit_operations_syntax

section \<open>What the harbor service does with messages between nodes\<close>

text \<open>
  Two connected harbors deliver what is sent, whatever the chunks of the stream; messages for a node or a name
  wait in order; and what happens to the messages for a name that becomes known too early and to those for a
  node that went down.
\<close>

subsection \<open>The stream of a connection is cut into its frames\<close>

definition frame :: "bytes \<Rightarrow> bytes" where
  "frame b = to_bigendian (of_nat (length b)) @ b"

definition body_ok :: "bytes \<Rightarrow> bool" where
  "body_ok b \<longleftrightarrow> HEADER_COOKIE_LENGTH \<le> length b \<and> length b < 2 ^ 24"

lemma length_to_bigendian [simp]: "length (to_bigendian n) = 4"
  by (simp add: to_bigendian_def)

lemma bigendian_length:
  assumes "n < 2 ^ 24"
  shows "to_bigendian (of_nat n) ! 0 = 0"
    "unat (to_bigendian (of_nat n) ! 1) * 65536 + unat (to_bigendian (of_nat n) ! 2) * 256 + unat (to_bigendian (of_nat n) ! 3) = n"
proof -
  have u: "unat (of_nat n :: u32) = n" using assms by (simp add: unat_of_nat)
  have c: "unat (ucast (drop_bit k (of_nat n :: u32)) :: u8) = n div 2 ^ k mod 256" for k
    using u by (simp add: unsigned_ucast_eq unat_drop_bit take_bit_eq_mod)
  show "to_bigendian (of_nat n) ! 0 = 0"
    using c [of 24] assms by (simp add: to_bigendian_def unat_eq_0 [symmetric] del: unat_eq_0)
  show "unat (to_bigendian (of_nat n) ! 1) * 65536 + unat (to_bigendian (of_nat n) ! 2) * 256 + unat (to_bigendian (of_nat n) ! 3) = n"
  proof -
    have n: "n div 256 * 256 + n mod 256 = n" "n div 256 div 256 * 256 + n div 256 mod 256 = n div 256" by (rule div_mult_mod_eq)+
    have n2: "n div 256 div 256 = n div 65536" by (simp add: div_mult2_eq [symmetric])
    have "n div 65536 mod 256 = n div 65536" using assms by (intro mod_less less_mult_imp_div_less) simp
    moreover have "n div 65536 * 65536 + n div 256 mod 256 * 256 + n mod 256 = n" using n [unfolded n2] by linarith
    ultimately show ?thesis using c [of 16] c [of 8] c [of 0] by (simp add: to_bigendian_def)
  qed
qed

text \<open>What the slave still expects: the bytes that have not arrived, and the messages they complete.\<close>

definition expects :: "slave \<Rightarrow> bytes \<Rightarrow> bytes list \<Rightarrow> bool" where
  "expects sl F ms \<longleftrightarrow> (\<forall>m \<in> set ms. body_ok m) \<and>
     (case sl_status sl of
        STATUS_HEADER \<Rightarrow> length (sl_part sl) < 4 \<and> sl_part sl @ F = concat (map frame ms)
      | STATUS_CONTENT \<Rightarrow> (\<exists>m ms'. ms = m # ms' \<and> sl_length sl = length m \<and> length (sl_part sl) < length m \<and>
          sl_part sl @ F = m @ concat (map frame ms'))
      | _ \<Rightarrow> False)"

lemma hb_put [simp]: "hb_ctx (put_slave i sl h) = hb_ctx h" "hb_id (put_slave i sl h) = hb_id h"
  "hb_slave (put_slave i sl h) = hb_slave h" "hb_map (put_slave i sl h) = hb_map h" "hb_sock (put_slave i sl h) = hb_sock h"
  by (simp_all add: put_slave_def)

lemma hb_sock_call [simp]: "hb_ctx (sock c h) = hb_ctx h" "hb_id (sock c h) = hb_id h"
  "hb_slave (sock c h) = hb_slave h" "hb_map (sock c h) = hb_map h" "hb_s (sock c h) = hb_s h" "hb_sock (sock c h) = hb_sock h @ [c]"
  by (simp_all add: sock_def)

lemma deliver_put [simp]: "deliver M (put_slave i sl h) = deliver M h"
  by (intro ext) (simp only: deliver_def hb_put)

lemma forward_put [simp]: "forward_local_messsage M (put_slave i sl h) = forward_local_messsage M h"
  by (intro ext) (simp only: forward_local_messsage_def hb_put deliver_put)

lemma put_put [simp]: "put_slave i a (put_slave i b h) = put_slave i a h"
  by (simp add: put_slave_def)

lemma get_put [simp]: "i < length (hb_s h) \<Longrightarrow> array_get (hb_s (put_slave i sl h)) i = Some sl"
  "length (hb_s (put_slave i sl h)) = length (hb_s h)"
  by (simp_all add: put_slave_def)

lemma expects_header:
  assumes "expects sl (c @ F) ms" "sl_status sl = STATUS_HEADER" "4 - length (sl_part sl) \<le> length c"
  defines "need \<equiv> 4 - length (sl_part sl)"
  obtains m ms' where "ms = m # ms'" "sl_part sl @ take need c = to_bigendian (of_nat (length m))"
    "drop need c @ F = m @ concat (map frame ms')" "body_ok m"
proof -
  from assms(1,2) have e: "length (sl_part sl) < 4" "sl_part sl @ c @ F = concat (map frame ms)" "\<forall>m \<in> set ms. body_ok m"
    by (auto simp: expects_def)
  have "c \<noteq> []" using assms(3) e(1) by auto
  then obtain m ms' where ms: "ms = m # ms'" using e(2) by (cases ms) auto
  have cF: "take need c @ drop need c @ F = c @ F" by (simp only: append_assoc [symmetric] append_take_drop_id)
  have "(sl_part sl @ take need c) @ drop need c @ F = to_bigendian (of_nat (length m)) @ m @ concat (map frame ms')"
    using e(2) by (simp add: ms frame_def cF)
  moreover have "length (sl_part sl @ take need c) = length (to_bigendian (of_nat (length m)))"
    using assms(3) e(1) by (simp add: need_def)
  ultimately have "sl_part sl @ take need c = to_bigendian (of_nat (length m))" "drop need c @ F = m @ concat (map frame ms')"
    by (metis append_eq_append_conv)+
  with ms e(3) show thesis using that by simp
qed

text \<open>One pass of the loop completes at most one message.\<close>

definition reads :: "'x modules \<Rightarrow> nat \<Rightarrow> bytes \<Rightarrow> bytes \<Rightarrow> slave \<Rightarrow> bytes list \<Rightarrow> harbor \<Rightarrow> 'x server \<Rightarrow>
    (bytes option \<times> harbor \<times> 'x server) option \<Rightarrow> bool" where
  "reads M i c F sl ms h s res \<longleftrightarrow>
     (\<exists>done ms' sl' r. ms = done @ ms' \<and> sl_fd sl' = sl_fd sl \<and> sl_queue sl' = sl_queue sl \<and>
        expects sl' ((case r of None \<Rightarrow> [] | Some rest \<Rightarrow> rest) @ F) ms' \<and> (\<forall>rest. r = Some rest \<longrightarrow> length rest < length c) \<and>
        res = map_option (\<lambda>s'. (r, put_slave i sl' h, s')) (fold_opt (forward_local_messsage M h) done s))"

lemma readsI:
  "ms = done @ ms' \<Longrightarrow> sl_fd sl' = sl_fd sl \<Longrightarrow> sl_queue sl' = sl_queue sl \<Longrightarrow>
   expects sl' ((case r of None \<Rightarrow> [] | Some rest \<Rightarrow> rest) @ F) ms' \<Longrightarrow> (\<And>rest. r = Some rest \<Longrightarrow> length rest < length c) \<Longrightarrow>
   res = map_option (\<lambda>s'. (r, put_slave i sl' h, s')) (fold_opt (forward_local_messsage M h) done s) \<Longrightarrow> reads M i c F sl ms h s res"
  unfolding reads_def by blast

lemma push_header_reads:
  assumes "expects sl (c @ F) ms" "sl_status sl = STATUS_HEADER"
  shows "reads M i c F sl ms h s (push_header M i sl c h s)"
proof (cases "length c < 4 - length (sl_part sl)")
  case True
  then show ?thesis
    by (intro readsI [of _ "[]" ms "sl\<lparr>sl_part := sl_part sl @ c\<rparr>" _ None]) (use assms in \<open>auto simp: push_header_def expects_def\<close>)
next
  case False
  let ?need = "4 - length (sl_part sl)"
  let ?size = "sl_part sl @ take ?need c" and ?rest = "drop ?need c"
  from False have le: "?need \<le> length c" by simp
  from expects_header [OF assms le] obtain m ms' where
    m: "ms = m # ms'" "?size = to_bigendian (of_nat (length m))" "?rest @ F = m @ concat (map frame ms')" "body_ok m" .
  let ?sl = "sl\<lparr>sl_length := length m, sl_part := [], sl_status := STATUS_CONTENT\<rparr>" and ?r = "if ?rest = [] then None else Some ?rest"
  from bigendian_length [of "length m"] m(4) have size: "?size ! 0 = 0"
    "unat (?size ! 1) * 65536 + unat (?size ! 2) * 256 + unat (?size ! 3) = length m"
    unfolding m(2) by (auto simp: body_ok_def)
  show ?thesis
  proof (rule readsI [of ms "[]" ms ?sl sl ?r])
    show "expects ?sl ((case ?r of None \<Rightarrow> [] | Some rest \<Rightarrow> rest) @ F) ms"
      using m assms(1) by (auto simp: expects_def body_ok_def HEADER_COOKIE_LENGTH_def)
    show "push_header M i sl c h s = map_option (\<lambda>s'. (?r, put_slave i ?sl h, s')) (fold_opt (forward_local_messsage M h) [] s)"
      unfolding push_header_def Let_def using False size by simp
    show "length rest < length c" if "?r = Some rest" for rest
      using that assms by (auto simp: expects_def split: if_splits)
  qed simp_all
qed

lemma push_content_reads:
  assumes "expects sl (c @ F) ms" "sl_status sl = STATUS_CONTENT"
  shows "reads M i c F sl ms h s (push_content M i sl c h s)"
proof -
  let ?need = "sl_length sl - length (sl_part sl)"
  from assms obtain m ms' where m: "ms = m # ms'" "sl_length sl = length m" "length (sl_part sl) < length m"
    "sl_part sl @ c @ F = m @ concat (map frame ms')" "\<forall>m \<in> set ms. body_ok m" by (auto simp: expects_def)
  show ?thesis
  proof (cases "length c < ?need")
    case True
    then show ?thesis
      by (intro readsI [of _ "[]" ms "sl\<lparr>sl_part := sl_part sl @ c\<rparr>" _ None]) (use assms m in \<open>auto simp: push_content_def expects_def\<close>)
  next
    case False
    let ?sl = "sl\<lparr>sl_length := 0, sl_part := [], sl_status := STATUS_HEADER\<rparr>" and ?rest = "drop ?need c"
    let ?r = "if ?rest = [] then None else Some ?rest"
    have cF: "take ?need c @ ?rest @ F = c @ F" by (simp only: append_assoc [symmetric] append_take_drop_id)
    have "(sl_part sl @ take ?need c) @ ?rest @ F = m @ concat (map frame ms')" using m(4) by (simp add: cF)
    moreover have "length (sl_part sl @ take ?need c) = length m" using False m(2,3) by simp
    ultimately have body: "sl_part sl @ take ?need c = m" "?rest @ F = concat (map frame ms')" by (metis append_eq_append_conv)+
    show ?thesis
    proof (rule readsI [of ms "[m]" ms' ?sl sl ?r])
      show "expects ?sl ((case ?r of None \<Rightarrow> [] | Some rest \<Rightarrow> rest) @ F) ms'" using body(2) m(1,5) by (auto simp: expects_def)
      show "push_content M i sl c h s = map_option (\<lambda>s'. (?r, put_slave i ?sl h, s')) (fold_opt (forward_local_messsage M h) [m] s)"
        unfolding push_content_def Let_def body(1) using False by (cases "forward_local_messsage M h m s") simp_all
      show "length rest < length c" if "?r = Some rest" for rest
        using that m(2,3) by (auto split: if_splits)
    qed (use m(1) in simp_all)
  qed
qed

lemma push_step_reads:
  assumes "expects sl (c @ F) ms" "hb_s h ! i = sl" "i < length (hb_s h)"
  shows "reads M i c F sl ms h s (push_step M i c h s)"
proof (cases "sl_status sl")
  case STATUS_HEADER
  with push_header_reads [OF assms(1)] assms(2,3) show ?thesis by (simp add: push_step_def)
next
  case STATUS_CONTENT
  with push_content_reads [OF assms(1)] assms(2,3) show ?thesis by (simp add: push_step_def)
qed (use assms(1) in \<open>simp_all add: expects_def\<close>)

lemma push_loop_frames:
  assumes "expects sl (c @ F) ms" "hb_s h ! i = sl" "i < length (hb_s h)"
  shows "\<exists>done ms' sl'. ms = done @ ms' \<and> expects sl' F ms' \<and> sl_fd sl' = sl_fd sl \<and> sl_queue sl' = sl_queue sl \<and>
    push_loop M i c h s = map_option (\<lambda>s'. (put_slave i sl' h, s')) (fold_opt (forward_local_messsage M h) done s)"
  using assms
proof (induction "length c" arbitrary: c sl ms h s rule: less_induct)
  case less
  from push_step_reads [OF less.prems, of M s] obtain d ms1 sl1 r where step: "ms = d @ ms1" "sl_fd sl1 = sl_fd sl"
    "sl_queue sl1 = sl_queue sl" "expects sl1 ((case r of None \<Rightarrow> [] | Some rest \<Rightarrow> rest) @ F) ms1"
    "\<And>rest. r = Some rest \<Longrightarrow> length rest < length c"
    "push_step M i c h s = map_option (\<lambda>s'. (r, put_slave i sl1 h, s')) (fold_opt (forward_local_messsage M h) d s)"
    unfolding reads_def by blast
  let ?h = "put_slave i sl1 h"
  show ?case
  proof (cases r)
    case None
    have "push_loop M i c h s = map_option (\<lambda>s'. (?h, s')) (fold_opt (forward_local_messsage M h) d s)"
      unfolding push_loop.simps [of M i c] step(6) None by (cases "fold_opt (forward_local_messsage M h) d s") simp_all
    then show ?thesis using step None by (intro exI [of _ d] exI [of _ ms1] exI [of _ sl1]) simp
  next
    case (Some rest)
    have loop: "push_loop M i c h s = do { s' \<leftarrow> fold_opt (forward_local_messsage M h) d s; push_loop M i rest ?h s' }"
      unfolding push_loop.simps [of M i c] step(6) Some by (cases "fold_opt (forward_local_messsage M h) d s") simp_all
    have h: "hb_s ?h ! i = sl1" "i < length (hb_s ?h)" using less.prems(3) by (simp_all add: put_slave_def)
    have ex: "expects sl1 (rest @ F) ms1" using step(4) Some by simp
    define s1 where "s1 = (case fold_opt (forward_local_messsage M h) d s of Some s' \<Rightarrow> s' | None \<Rightarrow> s)"
    from less.hyps [OF step(5) [OF Some] ex h, of s1] obtain d2 ms2 sl2 where
      IH: "ms1 = d2 @ ms2" "expects sl2 F ms2" "sl_fd sl2 = sl_fd sl1" "sl_queue sl2 = sl_queue sl1"
        "push_loop M i rest ?h s1 = map_option (\<lambda>s'. (put_slave i sl2 h, s')) (fold_opt (forward_local_messsage M h) d2 s1)" by auto
    have "push_loop M i c h s = map_option (\<lambda>s'. (put_slave i sl2 h, s')) (fold_opt (forward_local_messsage M h) (d @ d2) s)"
      unfolding loop fold_opt_append using IH(5) s1_def by (cases "fold_opt (forward_local_messsage M h) d s") simp_all
    then show ?thesis using step IH by (intro exI [of _ "d @ d2"] exI [of _ ms2] exI [of _ sl2]) simp
  qed
qed

subsection \<open>Headers\<close>

lemma from_to_bigendian: "from_bigendian (to_bigendian n @ r) = n"
proof (rule bit_word_eqI)
  fix k assume "k < LENGTH(32)"
  then consider "k < 8" | "8 \<le> k" "k < 16" | "16 \<le> k" "k < 24" | "24 \<le> k" "k < 32" by fastforce
  then show "bit (from_bigendian (to_bigendian n @ r)) k = bit n k"
    by cases (auto simp: from_bigendian_def to_bigendian_def bit_simps)
qed

lemma message_header: "message_to_header (header_to_message hdr) = hdr"
  using from_to_bigendian [of _ "[]"] from_to_bigendian
  by (simp add: message_to_header_def header_to_message_def)

lemma length_header [simp]: "length (header_to_message hdr) = HEADER_COOKIE_LENGTH"
  by (simp add: header_to_message_def HEADER_COOKIE_LENGTH_def)

text \<open>A message as the sending node sees it, and what it writes.\<close>

record outgoing =
  og_source :: u32
  og_destination :: u32
  og_type :: nat
  og_session :: int
  og_data :: bytes

definition og_header :: "outgoing \<Rightarrow> remote_message_header" where
  "og_header m = \<lparr>rh_source = og_source m,
     rh_destination = push_bit HANDLE_REMOTE_SHIFT (of_nat (og_type m)) OR (og_destination m AND HANDLE_MASK),
     rh_session = word_of_int (og_session m)\<rparr>"

definition og_body :: "outgoing \<Rightarrow> bytes" where
  "og_body m = og_data m @ header_to_message (og_header m)"

definition og_ok :: "nat \<Rightarrow> outgoing \<Rightarrow> bool" where
  "og_ok n m \<longleftrightarrow> unat (drop_bit HANDLE_REMOTE_SHIFT (og_destination m)) = n \<and> og_type m < 256 \<and>
     - (2 ^ 31) \<le> og_session m \<and> og_session m < 2 ^ 31 \<and> length (og_data m) + HEADER_COOKIE_LENGTH < 2 ^ 24"

lemma og_body_ok: "og_ok n m \<Longrightarrow> body_ok (og_body m)"
  by (simp add: og_ok_def body_ok_def og_body_def)

lemma og_destination_parts:
  assumes "og_ok n m" "word_of_int (hb_id h) = (of_nat n :: u32)"
  shows "unat (drop_bit HANDLE_REMOTE_SHIFT (rh_destination (og_header m))) = og_type m"
    "(rh_destination (og_header m) AND HANDLE_MASK) OR push_bit HANDLE_REMOTE_SHIFT (word_of_int (hb_id h)) = og_destination m"
proof -
  let ?d = "og_destination m"
  have small: "\<not> bit (of_nat (og_type m) :: u32) k" if "8 \<le> k" for k
  proof -
    have "take_bit 8 (og_type m) = og_type m" using assms(1) by (simp add: take_bit_nat_eq_self og_ok_def)
    then have "bit (take_bit 8 (og_type m)) k = bit (og_type m) k" by simp
    with that show ?thesis by (auto simp: bit_simps)
  qed
  have "drop_bit HANDLE_REMOTE_SHIFT (rh_destination (og_header m)) = of_nat (og_type m)"
  proof (rule bit_word_eqI)
    fix k assume "k < LENGTH(32)"
    then show "bit (drop_bit HANDLE_REMOTE_SHIFT (rh_destination (og_header m))) k = bit (of_nat (og_type m) :: u32) k"
      using small [of k] by (cases "8 \<le> k") (auto simp: og_header_def HANDLE_REMOTE_SHIFT_def HANDLE_MASK_mask bit_simps)
  qed
  then show "unat (drop_bit HANDLE_REMOTE_SHIFT (rh_destination (og_header m))) = og_type m"
    using assms(1) by (simp add: unat_of_nat og_ok_def)
  have "of_nat n = drop_bit HANDLE_REMOTE_SHIFT ?d" using assms(1) by (auto simp: og_ok_def)
  then show "(rh_destination (og_header m) AND HANDLE_MASK) OR push_bit HANDLE_REMOTE_SHIFT (word_of_int (hb_id h)) = ?d"
    unfolding assms(2)
  proof (intro bit_word_eqI)
    fix k assume "of_nat n = drop_bit HANDLE_REMOTE_SHIFT ?d" "k < LENGTH(32)"
    then show "bit ((rh_destination (og_header m) AND HANDLE_MASK) OR push_bit HANDLE_REMOTE_SHIFT (of_nat n)) k = bit ?d k"
      by (cases "24 \<le> k") (simp_all add: og_header_def HANDLE_REMOTE_SHIFT_def HANDLE_MASK_mask bit_simps)
  qed
qed

definition deliver_out :: "'x modules \<Rightarrow> harbor \<Rightarrow> outgoing \<Rightarrow> 'x server \<Rightarrow> 'x server option" where
  "deliver_out M h m s = deliver M h (og_source m) (og_destination m) (og_type m) (og_session m) (og_body m) (length (og_data m)) s"

lemma forward_out:
  assumes "og_ok n m" "word_of_int (hb_id h) = (of_nat n :: u32)"
  shows "forward_local_messsage M h (og_body m) s = deliver_out M h m s"
proof -
  have "sint (word_of_int (og_session m) :: u32) = og_session m"
    using assms(1) by (simp add: og_ok_def signed_take_bit_int_eq_self signed_of_int)
  then have "sint (rh_session (og_header m)) = og_session m" "rh_source (og_header m) = og_source m" by (simp_all add: og_header_def)
  then show ?thesis using og_destination_parts [OF assms]
    by (simp add: forward_local_messsage_def deliver_out_def og_body_def message_header)
qed

lemma send_remote_frame:
  assumes "length b + HEADER_COOKIE_LENGTH < 2 ^ 24"
  shows "send_remote M fd (Some b) (of_nat (length b)) hdr h s = Some (sock (Sock_send fd (frame (b @ header_to_message hdr))) h, s)"
proof -
  let ?n = "length b + HEADER_COOKIE_LENGTH"
  have sz: "of_nat (length b) + of_nat HEADER_COOKIE_LENGTH = (of_nat ?n :: u64)" by simp
  have u: "unat (of_nat (length b) :: u64) = length b" "unat (of_nat ?n :: u64) = ?n"
    using assms by (simp_all add: unat_of_nat del: of_nat_add)
  have "\<not> (0xFFFFFFFF :: u64) < of_nat ?n" using u(2) assms by (simp add: word_less_nat_alt del: of_nat_add)
  moreover have "(ucast (of_nat ?n :: u64) :: u32) = of_nat ?n" by transfer simp
  ultimately show ?thesis unfolding send_remote_def sz Let_def using u(1)
    by (simp add: read_bytes_def frame_def del: of_nat_add)
qed

definition send_out :: "'x modules \<Rightarrow> outgoing \<Rightarrow> harbor \<times> 'x server \<Rightarrow> (harbor \<times> 'x server) option" where
  "send_out M m w =
     do { (r, w) \<leftarrow> remote_send_handle M (og_source m) (og_destination m) (og_type m) (og_session m) (Some (og_data m))
                       (of_nat (length (og_data m))) (fst w) (snd w); Some w }"

lemma send_out_connected:
  assumes "og_ok n m" "hb_id h \<noteq> int n" "n < length (hb_s h)" "sl_fd (hb_s h ! n) \<noteq> 0" "sl_status (hb_s h ! n) \<noteq> STATUS_HANDSHAKE"
  shows "send_out M m (h, s) = Some (sock (Sock_send (sl_fd (hb_s h ! n)) (frame (og_body m))) h, s)"
proof -
  have n: "unat (drop_bit HANDLE_REMOTE_SHIFT (og_destination m)) = n" "length (og_data m) + HEADER_COOKIE_LENGTH < 2 ^ 24"
    using assms(1) by (auto simp: og_ok_def)
  have "send_remote M (sl_fd (hb_s h ! n)) (Some (og_data m)) (of_nat (length (og_data m))) (og_header m) h s =
      Some (sock (Sock_send (sl_fd (hb_s h ! n)) (frame (og_body m))) h, s)"
    using send_remote_frame [OF n(2)] by (simp add: og_body_def)
  then show ?thesis unfolding send_out_def remote_send_handle_def Let_def n(1) fst_conv snd_conv og_header_def
    using assms(2-5) by simp
qed

lemma send_out_all:
  assumes "\<forall>m \<in> set ms. og_ok n m" "hb_id h \<noteq> int n" "n < length (hb_s h)" "sl_fd (hb_s h ! n) = fd" "fd \<noteq> 0"
    "sl_status (hb_s h ! n) \<noteq> STATUS_HANDSHAKE"
  shows "fold_opt (send_out M) ms (h, s) = Some (h\<lparr>hb_sock := hb_sock h @ map (\<lambda>m. Sock_send fd (frame (og_body m))) ms\<rparr>, s)"
  using assms
proof (induction ms arbitrary: h)
  case (Cons m ms)
  let ?h = "sock (Sock_send fd (frame (og_body m))) h"
  have "send_out M m (h, s) = Some (?h, s)" using send_out_connected [of n m h M s] Cons.prems by simp
  moreover have "fold_opt (send_out M) ms (?h, s) = Some (?h\<lparr>hb_sock := hb_sock ?h @ map (\<lambda>m. Sock_send fd (frame (og_body m))) ms\<rparr>, s)"
    by (rule Cons.IH) (use Cons.prems in \<open>simp_all add: sock_def\<close>)
  ultimately show ?case by (simp add: sock_def)
qed simp

subsection \<open>Chunks of a stream\<close>

definition receive :: "'x modules \<Rightarrow> int \<Rightarrow> bytes \<Rightarrow> harbor \<times> 'x server \<Rightarrow> (harbor \<times> 'x server) option" where
  "receive M fd c w = push_socket_data M fd c (fst w) (snd w)"

lemma harbor_id_put:
  assumes "i < length (hb_s h)" "sl_fd sl = sl_fd (hb_s h ! i)"
  shows "harbor_id (put_slave i sl h) = harbor_id h"
proof (rule ext)
  fix fd
  have "sl_fd ((hb_s h)[i := sl] ! j) = sl_fd (hb_s h ! j)" for j using assms by (cases "j = i") simp_all
  then show "harbor_id (put_slave i sl h) fd = harbor_id h fd" by (simp add: harbor_id_def put_slave_def)
qed

lemma receive_chunks:
  assumes "expects (hb_s h ! i) (concat cs @ F) ms" "i < length (hb_s h)" "harbor_id h fd = i" "i \<noteq> 0"
  shows "\<exists>done ms' sl'. ms = done @ ms' \<and> expects sl' F ms' \<and> sl_fd sl' = sl_fd (hb_s h ! i) \<and> sl_queue sl' = sl_queue (hb_s h ! i) \<and>
    fold_opt (receive M fd) cs (h, s) = map_option (\<lambda>s'. (put_slave i sl' h, s')) (fold_opt (forward_local_messsage M h) done s)"
  using assms
proof (induction cs arbitrary: h ms s)
  case Nil
  then show ?case by (intro exI [of _ "[]"] exI [of _ ms] exI [of _ "hb_s h ! i"]) (simp add: put_slave_def)
next
  case (Cons c cs)
  have ex: "expects (hb_s h ! i) (c @ concat cs @ F) ms" using Cons.prems(1) by simp
  from push_loop_frames [OF ex refl Cons.prems(2), of M s] obtain d ms1 sl1 where
    p: "ms = d @ ms1" "expects sl1 (concat cs @ F) ms1" "sl_fd sl1 = sl_fd (hb_s h ! i)" "sl_queue sl1 = sl_queue (hb_s h ! i)"
      "push_loop M i c h s = map_option (\<lambda>s'. (put_slave i sl1 h, s')) (fold_opt (forward_local_messsage M h) d s)" by blast
  let ?h = "put_slave i sl1 h"
  have h: "hb_s ?h ! i = sl1" "i < length (hb_s ?h)" "harbor_id ?h fd = i"
    using Cons.prems(2,3) harbor_id_put [OF Cons.prems(2) p(3)] by (simp_all add: put_slave_def)
  define s1 where "s1 = (case fold_opt (forward_local_messsage M h) d s of Some s' \<Rightarrow> s' | None \<Rightarrow> s)"
  from Cons.IH [of ?h ms1 s1] p(2) h Cons.prems(4) obtain d2 ms2 sl2 where
    IH: "ms1 = d2 @ ms2" "expects sl2 F ms2" "sl_fd sl2 = sl_fd sl1" "sl_queue sl2 = sl_queue sl1"
      "fold_opt (receive M fd) cs (?h, s1) = map_option (\<lambda>s'. (put_slave i sl2 h, s')) (fold_opt (forward_local_messsage M h) d2 s1)"
    by auto
  have "receive M fd c (h, s) = push_loop M i c h s" using Cons.prems(3,4) by (simp add: receive_def push_socket_data_def)
  then have "fold_opt (receive M fd) (c # cs) (h, s) = map_option (\<lambda>s'. (put_slave i sl2 h, s')) (fold_opt (forward_local_messsage M h) (d @ d2) s)"
    unfolding fold_opt_append using IH(5) p(5) s1_def by (cases "fold_opt (forward_local_messsage M h) d s") simp_all
  then show ?case using p IH by (intro exI [of _ "d @ d2"] exI [of _ ms2] exI [of _ sl2]) simp
qed

lemma expects_end:
  assumes "expects sl [] ms"
  shows "ms = []" "sl_status sl = STATUS_HEADER" "sl_part sl = []"
proof -
  have "ms = [] \<and> sl_status sl = STATUS_HEADER \<and> sl_part sl = []"
  proof (cases "sl_status sl")
    case STATUS_HEADER
    with assms have e: "length (sl_part sl) < 4" "sl_part sl = concat (map frame ms)" by (auto simp: expects_def)
    have "ms = []"
    proof (rule ccontr)
      assume "ms \<noteq> []"
      then have "4 \<le> length (concat (map frame ms))" by (cases ms) (auto simp: frame_def)
      with e show False by simp
    qed
    with e STATUS_HEADER show ?thesis by simp
  next
    case STATUS_CONTENT
    with assms show ?thesis by (auto simp: expects_def)
  qed (use assms in \<open>simp_all add: expects_def\<close>)
  then show "ms = []" "sl_status sl = STATUS_HEADER" "sl_part sl = []" by auto
qed

lemma fold_forward_out:
  "\<forall>m \<in> set ms. og_ok n m \<Longrightarrow> word_of_int (hb_id h) = (of_nat n :: u32) \<Longrightarrow>
   fold_opt (forward_local_messsage M h) (map og_body ms) s = fold_opt (deliver_out M h) ms s"
  using forward_out [of n _ h M] by (induction ms arbitrary: s) simp_all


subsection \<open>Messages that wait for a connection\<close>

definition msg_ok :: "harbor_msg \<Rightarrow> bool" where
  "msg_ok m \<longleftrightarrow> (\<exists>b. hm_buffer m = Some b \<and> hm_size m = of_nat (length b) \<and> length b + HEADER_COOKIE_LENGTH < 2 ^ 24)"

definition msg_frame :: "harbor_msg \<Rightarrow> bytes" where
  "msg_frame m = frame (the (hm_buffer m) @ header_to_message (hm_header m))"

lemma send_and_free_all:
  "\<forall>m \<in> set xs. msg_ok m \<Longrightarrow>
   fold_opt (send_and_free M fd) xs (h, s) = Some (h\<lparr>hb_sock := hb_sock h @ map (\<lambda>m. Sock_send fd (msg_frame m)) xs\<rparr>, fold free_msg xs s)"
proof (induction xs arbitrary: h s)
  case (Cons m xs)
  then obtain b where b: "hm_buffer m = Some b" "hm_size m = of_nat (length b)" "length b + HEADER_COOKIE_LENGTH < 2 ^ 24"
    by (auto simp: msg_ok_def)
  have "send_and_free M fd m (h, s) = Some (sock (Sock_send fd (msg_frame m)) h, free_msg m s)"
    using send_remote_frame [OF b(3), of M fd "hm_header m" h s] by (simp add: send_and_free_def b msg_frame_def)
  with Cons show ?case by (simp add: sock_def)
qed simp

lemma harbor_dispatch_queue_result:
  assumes "n < length (hb_s h)" "hb_s h ! n = sl" "sl_fd sl \<noteq> 0" "sl_queue sl = Some q" "hq_wf q" "\<forall>m \<in> set (hq_contents q). msg_ok m"
  shows "harbor_dispatch_queue M n h s =
    Some (put_slave n (sl\<lparr>sl_queue := None\<rparr>) (h\<lparr>hb_sock := hb_sock h @ map (\<lambda>m. Sock_send (sl_fd sl) (msg_frame m)) (hq_contents q)\<rparr>),
      fold free_msg (hq_contents q) s)"
proof -
  from hq.drain_contents [OF assms(5) send_and_free_all [OF assms(6)], of M "sl_fd sl" h s] obtain q' where
    q': "drain_loop harbor_pop_queue (send_and_free M (sl_fd sl)) q (h, s) =
        Some (q', h\<lparr>hb_sock := hb_sock h @ map (\<lambda>m. Sock_send (sl_fd sl) (msg_frame m)) (hq_contents q)\<rparr>, fold free_msg (hq_contents q) s)"
      "hq_wf q'" "hq_contents q' = []" by blast
  then have "release_queue (Some q') s = Some s" for s :: "'a server" using release_queue_result [of "Some q'" s] by simp
  with q'(1) assms(1-4) show ?thesis by (simp add: harbor_dispatch_queue_def)
qed

text \<open>A node whose connection is not up, and the messages that wait for it.\<close>

definition hm_of :: "outgoing \<Rightarrow> harbor_msg" where
  "hm_of m = \<lparr>hm_header = og_header m, hm_buffer = Some (og_data m), hm_size = of_nat (length (og_data m))\<rparr>"

lemma hm_of_ok: "og_ok n m \<Longrightarrow> msg_ok (hm_of m)" "msg_frame (hm_of m) = frame (og_body m)"
  by (simp_all add: og_ok_def msg_ok_def hm_of_def msg_frame_def og_body_def)

definition waits :: "nat \<Rightarrow> harbor_msg list \<Rightarrow> harbor \<Rightarrow> bool" where
  "waits n xs h \<longleftrightarrow> n < length (hb_s h) \<and> sl_fd (hb_s h ! n) = 0 \<and> sl_status (hb_s h ! n) = STATUS_WAIT \<and>
     (case sl_queue (hb_s h ! n) of None \<Rightarrow> xs = [] | Some q \<Rightarrow> hq_wf q \<and> hq_contents q = xs)"

lemma send_out_waiting:
  assumes "og_ok n m" "hb_id h \<noteq> int n" "waits n xs h"
  shows "\<exists>h'. send_out M m (h, s) = Some (h', s) \<and> waits n (xs @ [hm_of m]) h' \<and> hb_sock h' = hb_sock h \<and> hb_id h' = hb_id h"
proof -
  let ?sl = "hb_s h ! n" and ?q = "case sl_queue (hb_s h ! n) of Some q \<Rightarrow> q | None \<Rightarrow> new_queue"
  have w: "n < length (hb_s h)" "sl_fd ?sl = 0" "sl_status ?sl = STATUS_WAIT" "hq_wf ?q" "hq_contents ?q = xs"
    using assms(3) new_queue_wf by (auto simp: waits_def split: option.splits)
  have n: "unat (drop_bit HANDLE_REMOTE_SHIFT (og_destination m)) = n" using assms(1) by (simp add: og_ok_def)
  from hq_push [OF w(4), of "hm_of m"] w(5) obtain q where
    q: "push_queue_msg (hm_of m) ?q = Some q" "hq_wf q" "hq_contents q = xs @ [hm_of m]" by auto
  have "push_queue (Some (og_data m)) (of_nat (length (og_data m))) (og_header m) ?q = Some q"
    using q(1) by (simp add: push_queue_def hm_of_def)
  then have "send_out M m (h, s) = Some (put_slave n (?sl\<lparr>sl_queue := Some q\<rparr>) h, s)"
    unfolding send_out_def remote_send_handle_def Let_def n fst_conv snd_conv og_header_def using assms(2) w(1-3) by simp
  moreover have "waits n (xs @ [hm_of m]) (put_slave n (?sl\<lparr>sl_queue := Some q\<rparr>) h)"
    using w(1-3) q(2,3) by (simp add: waits_def put_slave_def)
  ultimately show ?thesis by auto
qed

lemma send_out_waiting_all:
  assumes "\<forall>m \<in> set ms. og_ok n m" "hb_id h \<noteq> int n" "waits n xs h"
  shows "\<exists>h'. fold_opt (send_out M) ms (h, s) = Some (h', s) \<and> waits n (xs @ map hm_of ms) h' \<and> hb_sock h' = hb_sock h \<and> hb_id h' = hb_id h"
  using assms
proof (induction ms arbitrary: h xs)
  case (Cons m ms)
  from send_out_waiting [of n m h xs M s] Cons.prems obtain h1 where
    h1: "send_out M m (h, s) = Some (h1, s)" "waits n (xs @ [hm_of m]) h1" "hb_sock h1 = hb_sock h" "hb_id h1 = hb_id h" by auto
  from Cons.IH [OF _ _ h1(2)] Cons.prems(1,2) h1(4) obtain h2 where
    "fold_opt (send_out M) ms (h1, s) = Some (h2, s)" "waits n (xs @ hm_of m # map hm_of ms) h2" "hb_sock h2 = hb_sock h1" "hb_id h2 = hb_id h1" by auto
  with h1 show ?case by auto
qed auto

text \<open>The command that a connection was accepted, \<open>A fd id\<close>.\<close>

definition accept_text :: "bytes \<Rightarrow> int \<Rightarrow> nat \<Rightarrow> bool" where
  "accept_text msg fd n \<longleftrightarrow> (\<exists>rest t u. msg = of_char (CHR ''A'') # rest \<and> rest \<noteq> [] \<and>
     scan_int (c_text (tl rest)) = Some (fd, t) \<and> scan_int t = Some (int n, u))"

lemma harbor_accept:
  assumes "accept_text msg fd n" "fd \<noteq> 0" "0 < n" "n < REMOTE_MAX" "waits n xs h" "\<forall>m \<in> set xs. msg_ok m"
  shows "\<exists>h'. harbor_command M msg source h s = Some (h', fold free_msg xs s) \<and>
    hb_sock h' = hb_sock h @ [Sock_start fd, Sock_send fd [word_of_int (hb_id h)]] @ map (\<lambda>m. Sock_send fd (msg_frame m)) xs"
proof -
  let ?sl = "hb_s h ! n"
  let ?h0 = "sock (Sock_start fd) (put_slave n (?sl\<lparr>sl_fd := fd\<rparr>) h)"
  let ?h1 = "sock (Sock_send fd [word_of_int (hb_id h)]) ?h0"
  let ?h2 = "put_slave n (?sl\<lparr>sl_fd := fd, sl_status := STATUS_HEADER\<rparr>) ?h1"
  from assms(1) obtain rest t u where m: "msg = of_char (CHR ''A'') # rest" "rest \<noteq> []"
    "scan_int (c_text (tl rest)) = Some (fd, t)" "scan_int t = Some (int n, u)" by (auto simp: accept_text_def)
  have w: "n < length (hb_s h)" "sl_fd ?sl = 0" "\<not> n \<ge> REMOTE_MAX" using assms(4,5) by (auto simp: waits_def)
  have A: "char_of (unat (of_char (CHR ''A'') :: u8)) = CHR ''A''" by code_simp
  have d: "drop 2 msg = tl rest" "2 \<le> length msg" using m(1,2) by (cases rest; simp)+
  have "handshake n ?h0 = Some ?h1" using w(1) by (simp add: handshake_def sock_def put_slave_def)
  then have cmd: "harbor_command M msg source h s = harbor_dispatch_queue M n ?h2 s"
    unfolding harbor_command_def d(1) using m w A d(2) assms(2,3) by (simp add: command_connect_def)
  have h2: "n < length (hb_s ?h2)" "hb_s ?h2 ! n = ?sl\<lparr>sl_fd := fd, sl_status := STATUS_HEADER\<rparr>"
    "hb_sock ?h2 = hb_sock h @ [Sock_start fd, Sock_send fd [word_of_int (hb_id h)]]"
    using w(1) by (simp_all add: put_slave_def sock_def)
  show ?thesis
  proof (cases "sl_queue ?sl")
    case None
    then have "xs = []" using assms(5) by (simp add: waits_def)
    moreover have "harbor_dispatch_queue M n ?h2 s = Some (?h2, s)"
      using h2(1,2) None assms(2) by (simp add: harbor_dispatch_queue_def)
    ultimately show ?thesis using cmd h2(3) by simp
  next
    case (Some q)
    then have q: "hq_wf q" "hq_contents q = xs" using assms(5) by (auto simp: waits_def)
    from harbor_dispatch_queue_result [OF h2(1,2), of q M s] Some assms(2,6) q show ?thesis
      unfolding cmd by (simp add: h2(3))
  qed
qed

lemma fold_free_of: "fold free_msg (map hm_of ms) s = fold (\<lambda>m. free_data_buffer (og_data m)) ms s"
  by (induction ms arbitrary: s) (simp_all add: free_msg_def hm_of_def free_data_buffer_def)

text \<open>C25. Messages to a node whose connection is not up yet are kept. When the connection is accepted, the harbor
  introduces itself and then writes all of them, in the order in which they were sent and complete, and frees
  them.\<close>

theorem harbor_waits_in_order:
  assumes "\<forall>m \<in> set ms. og_ok n m" "hb_id h \<noteq> int n" "0 < n" "n < REMOTE_MAX" "waits n [] h" "accept_text msg fd n" "fd \<noteq> 0"
  shows "\<exists>h1 h2. fold_opt (send_out M) ms (h, s) = Some (h1, s) \<and> hb_sock h1 = hb_sock h \<and>
    harbor_command M msg source h1 s = Some (h2, fold (\<lambda>m. free_data_buffer (og_data m)) ms s) \<and>
    hb_sock h2 = hb_sock h @ [Sock_start fd, Sock_send fd [word_of_int (hb_id h)]] @ map (\<lambda>m. Sock_send fd (frame (og_body m))) ms"
proof -
  from send_out_waiting_all [OF assms(1,2,5), of M s] obtain h1 where
    h1: "fold_opt (send_out M) ms (h, s) = Some (h1, s)" "waits n (map hm_of ms) h1" "hb_sock h1 = hb_sock h" "hb_id h1 = hb_id h" by auto
  have "\<forall>m \<in> set (map hm_of ms). msg_ok m" using assms(1) hm_of_ok(1) by auto
  from harbor_accept [OF assms(6,7,3,4) h1(2) this, of M source s] h1 show ?thesis
    by (auto simp: fold_free_of hm_of_ok(2) comp_def)
qed

lemma accept_example: "accept_text (chars ''A 7 2'') 7 2"
proof -
  have m: "chars ''A 7 2'' = of_char (CHR ''A'') # chars '' 7 2''" "chars '' 7 2'' \<noteq> []" by (simp_all add: chars_def)
  have t: "c_text (tl (chars '' 7 2'')) = ''7 2''" by code_simp
  have i: "scan_int ''7 2'' = Some (7, '' 2'')" "scan_int '' 2'' = Some (int 2, [])"
    by (simp_all add: scan_int_def c_isspace_def digit_val_def strtol_def scan_number_def Let_def)
  show ?thesis unfolding accept_text_def using m t i by (intro exI [of _ "chars '' 7 2''"] exI [of _ "'' 2''"] exI [of _ "[]"]) simp
qed

definition example_out :: outgoing where
  "example_out = \<lparr>og_source = 0x01000005, og_destination = 0x02000009, og_type = 3, og_session = 4, og_data = [1, 2]\<rparr>"

lemma example_out_ok: "og_ok 2 example_out"
  by (simp add: og_ok_def example_out_def HANDLE_REMOTE_SHIFT_def HEADER_COOKIE_LENGTH_def)

theorem harbor_waits_in_order_witness:
  "\<forall>(M :: unit modules) s. \<exists>h1 h2.
    fold_opt (send_out M) [example_out] (harbor_create\<lparr>hb_id := 1\<rparr>, s) = Some (h1, s) \<and>
    harbor_command M (chars ''A 7 2'') 0 h1 s = Some (h2, free_data_buffer [1, 2] s) \<and>
    hb_sock h2 = [Sock_start 7, Sock_send 7 [1], Sock_send 7 (frame (og_body example_out))]"
proof (intro allI)
  fix M :: "unit modules" and s
  let ?h = "harbor_create\<lparr>hb_id := 1\<rparr>"
  have h: "waits 2 [] ?h" "hb_id ?h \<noteq> int 2" "hb_sock ?h = []" by (simp_all add: waits_def harbor_create_def blank_slave_def REMOTE_MAX_def)
  have "og_data example_out = [1, 2]" by (simp add: example_out_def)
  with harbor_waits_in_order [of "[example_out]" 2 ?h "chars ''A 7 2''" 7 M s 0] example_out_ok accept_example h
  show "\<exists>h1 h2. fold_opt (send_out M) [example_out] (?h, s) = Some (h1, s) \<and>
    harbor_command M (chars ''A 7 2'') 0 h1 s = Some (h2, free_data_buffer [1, 2] s) \<and>
    hb_sock h2 = [Sock_start 7, Sock_send 7 [1], Sock_send 7 (frame (og_body example_out))]"
    by (simp add: REMOTE_MAX_def) blast
qed


subsection \<open>Messages that wait for a name\<close>

lemma dispatch_name_queue_waiting:
  assumes "hq_wf q" "kv_value node = handle" "unat (drop_bit HANDLE_REMOTE_SHIFT handle) = n" "waits n xs h"
    "drop_bit HANDLE_REMOTE_SHIFT handle \<noteq> drop_bit HANDLE_REMOTE_SHIFT (hb_slave h)"
  shows "\<exists>q' h'. dispatch_name_queue M node q h s = Some (q', h', s) \<and> release_queue q' s = Some s \<and>
    waits n (xs @ hq_contents q) h' \<and> hb_sock h' = hb_sock h \<and> hb_id h' = hb_id h"
proof (cases "sl_queue (hb_s h ! n)")
  case None
  then have w: "xs = []" "n < length (hb_s h)" "sl_fd (hb_s h ! n) = 0" "sl_status (hb_s h ! n) = STATUS_WAIT"
    using assms(4) by (simp_all add: waits_def)
  let ?h = "put_slave n ((hb_s h ! n)\<lparr>sl_queue := Some q\<rparr>) h"
  have "dispatch_name_queue M node q h s = Some (None, ?h, s)"
    using w None assms(2,3,5) by (simp add: dispatch_name_queue_def)
  moreover have "waits n (xs @ hq_contents q) ?h" using w assms(1) by (simp add: waits_def put_slave_def)
  ultimately show ?thesis by (auto simp: release_queue_def)
next
  case (Some sq)
  then have w: "hq_wf sq" "hq_contents sq = xs" "n < length (hb_s h)" "sl_fd (hb_s h ! n) = 0" "sl_status (hb_s h ! n) = STATUS_WAIT"
    using assms(4) by (auto simp: waits_def)
  from hq.push_all [OF w(1), of "hq_contents q"] obtain sq' where
    sq': "fold_opt push_queue_msg (hq_contents q) sq = Some sq'" "hq_wf sq'" "hq_contents sq' = xs @ hq_contents q" using w(2) by auto
  from hq.drain_contents [OF assms(1) sq'(1)] obtain q' where
    q': "drain_loop harbor_pop_queue push_queue_msg q sq = Some (q', sq')" "hq_wf q'" "hq_contents q' = []" by blast
  let ?h = "put_slave n ((hb_s h ! n)\<lparr>sl_queue := Some sq'\<rparr>) h"
  have "dispatch_name_queue M node q h s = Some (Some q', ?h, s)"
    using w Some assms(2,3,5) q'(1) by (simp add: dispatch_name_queue_def)
  moreover have "waits n (xs @ hq_contents q) ?h" using w sq' by (simp add: waits_def put_slave_def)
  moreover have "release_queue (Some q') s = Some s" using release_queue_result [of "Some q'" s] q'(2,3) by simp
  ultimately show ?thesis by auto
qed

text \<open>Messages for a global name are queued with no handle in their destination. If the name becomes known while the
  connection to its node is not up, they move to the queue of that node unchanged, and when the connection comes
  up they are written as they are: the handle of the name is never put into them.\<close>

theorem harbor_name_queue_keeps_headers:
  assumes "hash_search (hb_map h) name = Some node" "kv_queue node = Some q" "hq_wf q" "\<forall>m \<in> set (hq_contents q). msg_ok m"
    "unat (drop_bit HANDLE_REMOTE_SHIFT handle) = n" "drop_bit HANDLE_REMOTE_SHIFT handle \<noteq> drop_bit HANDLE_REMOTE_SHIFT (hb_slave h)"
    "waits n [] h" "0 < n" "n < REMOTE_MAX" "accept_text msg fd n" "fd \<noteq> 0"
  shows "\<exists>h1 h2. update_name M name handle h s = Some (h1, s) \<and>
    harbor_command M msg source h1 s = Some (h2, fold free_msg (hq_contents q) s) \<and>
    hb_sock h2 = hb_sock h @ [Sock_start fd, Sock_send fd [word_of_int (hb_id h)]] @ map (\<lambda>m. Sock_send fd (msg_frame m)) (hq_contents q)"
proof -
  let ?node = "node\<lparr>kv_value := handle\<rparr>"
  from dispatch_name_queue_waiting [OF assms(3) _ assms(5,7,6), of ?node M s] obtain q' h0 where
    d: "dispatch_name_queue M ?node q h s = Some (q', h0, s)" "release_queue q' s = Some s" "waits n (hq_contents q) h0"
      "hb_sock h0 = hb_sock h" "hb_id h0 = hb_id h" by auto
  let ?h1 = "put_node name (?node\<lparr>kv_queue := None\<rparr>) h0"
  have "update_name M name handle h s = Some (?h1, s)"
    using assms(1,2) d(1,2) by (simp add: update_name_def find_or_insert_def)
  moreover have "waits n (hq_contents q) ?h1" "hb_sock ?h1 = hb_sock h" "hb_id ?h1 = hb_id h" using d(3-5) by (simp_all add: put_node_def waits_def)
  ultimately show ?thesis using harbor_accept [OF assms(10,11,8,9) _ assms(4), of ?h1 M source s] by auto
qed

theorem harbor_name_queue_keeps_headers_witness:
  "\<exists>(h :: harbor) q m. hq_contents q = [m] \<and> rh_destination (hm_header m) AND HANDLE_MASK = 0 \<and>
    (\<forall>(M :: unit modules) s. \<exists>h1 h2. update_name M (name_array (chars ''n'')) 0x02000009 h s = Some (h1, s) \<and>
      harbor_command M (chars ''A 7 2'') 0 h1 s = Some (h2, free_msg m s) \<and>
      hb_sock h2 = [Sock_start 7, Sock_send 7 [1], Sock_send 7 (msg_frame m)])"
proof -
  let ?nm = "name_array (chars ''n'')"
  let ?m = "\<lparr>hm_header = \<lparr>rh_source = 5, rh_destination = 0x03000000, rh_session = 4\<rparr>, hm_buffer = Some [1, 2], hm_size = 2\<rparr>"
  from hq_push [OF new_queue_wf(1), of ?m] new_queue_wf(2) obtain q where q: "hq_wf q" "hq_contents q = [?m]" by auto
  let ?node = "\<lparr>kv_key = take GLOBALNAME_LENGTH ?nm, kv_hash = hash_name ?nm, kv_value = 0, kv_queue = Some q\<rparr>"
  let ?h = "harbor_create\<lparr>hb_id := 1, hb_slave := 0x01000003, hb_map := hash_new(bucket ?nm := [?node])\<rparr>"
  have s: "hash_search (hb_map ?h) ?nm = Some ?node" by (simp add: hash_search_def same_name_def)
  have w: "waits 2 [] ?h" "hb_sock ?h = []" by (simp_all add: waits_def harbor_create_def blank_slave_def REMOTE_MAX_def)
  have ok: "\<forall>m \<in> set (hq_contents q). msg_ok m" using q(2) by (simp add: msg_ok_def HEADER_COOKIE_LENGTH_def)
  have n: "unat (drop_bit HANDLE_REMOTE_SHIFT (0x02000009 :: u32)) = 2"
    "drop_bit HANDLE_REMOTE_SHIFT (0x02000009 :: u32) \<noteq> drop_bit HANDLE_REMOTE_SHIFT (hb_slave ?h)" by (simp_all add: HANDLE_REMOTE_SHIFT_def)
  have "\<exists>h1 h2. update_name M ?nm 0x02000009 ?h s = Some (h1, s) \<and>
      harbor_command M (chars ''A 7 2'') 0 h1 s = Some (h2, free_msg ?m s) \<and>
      hb_sock h2 = [Sock_start 7, Sock_send 7 [1], Sock_send 7 (msg_frame ?m)]" for M :: "unit modules" and s
    using harbor_name_queue_keeps_headers [OF s _ q(1) ok n w(1) _ _ accept_example, of M s 0] q(2) w(2) by (simp add: REMOTE_MAX_def)
  then show ?thesis using q(2) by (intro exI [of _ ?h] exI [of _ q] exI [of _ ?m]) (simp add: HANDLE_MASK_def)
qed

subsection \<open>Connections that went down\<close>

text \<open>A node that is down keeps the number of its connection.\<close>

definition down_ok :: "slave list \<Rightarrow> bool" where
  "down_ok sls \<longleftrightarrow> (\<forall>sl \<in> set sls. sl_status sl = STATUS_DOWN \<longrightarrow> sl_fd sl \<noteq> 0)"

lemma down_ok_update: "down_ok sls \<Longrightarrow> (sl_status sl = STATUS_DOWN \<Longrightarrow> sl_fd sl \<noteq> 0) \<Longrightarrow> down_ok (sls[i := sl])"
  using set_update_subset_insert [of sls i sl] by (auto simp: down_ok_def)

lemma down_ok_nth: "down_ok sls \<Longrightarrow> i < length sls \<Longrightarrow> sl_status (sls ! i) = STATUS_DOWN \<Longrightarrow> sl_fd (sls ! i) \<noteq> 0"
  by (simp add: down_ok_def)

lemma drain_loop_keeps_all:
  assumes "drain_loop pop act q w = Some r"
  shows "(\<forall>m w w'. act m w = Some w' \<longrightarrow> I w \<longrightarrow> I w') \<longrightarrow> I w \<longrightarrow> I (snd r)"
proof (rule drain_loop.raw_induct [where P = "\<lambda>pop act q w r. (\<forall>m w w'. act m w = Some w' \<longrightarrow> I w \<longrightarrow> I w') \<longrightarrow> I w \<longrightarrow> I (snd r)", OF _ assms])
  fix loop pop act q w r
  assume IH: "\<And>pop act q w r. loop pop act q w = Some r \<Longrightarrow> (\<forall>m w w'. act m w = Some w' \<longrightarrow> I w \<longrightarrow> I w') \<longrightarrow> I w \<longrightarrow> I (snd r)"
    and body: "(pop q \<bind> (\<lambda>(c, q'). case c of None \<Rightarrow> Some (q', w) | Some m \<Rightarrow> act m w \<bind> loop pop act q')) = Some r"
  then obtain c q1 where pop: "pop q = Some (c, q1)" by (auto split: bind_splits)
  show "(\<forall>m w w'. act m w = Some w' \<longrightarrow> I w \<longrightarrow> I w') \<longrightarrow> I w \<longrightarrow> I (snd r)"
  proof (cases c)
    case None
    then show ?thesis using body pop by auto
  next
    case (Some m)
    with body pop obtain w1 where "act m w = Some w1" "loop pop act q1 w1 = Some r" by (auto split: bind_splits)
    with IH show ?thesis by blast
  qed
qed

lemma drain_loop_keeps:
  "drain_loop pop act q w = Some (q', w') \<Longrightarrow> (\<And>m w w'. act m w = Some w' \<Longrightarrow> I w \<Longrightarrow> I w') \<Longrightarrow> I w \<Longrightarrow> I w'"
  using drain_loop_keeps_all [of pop act q w "(q', w')" I] by auto

lemma send_remote_slaves: "send_remote M fd b sz c h s = Some (h', s') \<Longrightarrow> hb_s h' = hb_s h"
  by (auto simp: send_remote_def Let_def split: if_splits bind_splits)

lemma drain_send_slaves:
  assumes "drain_loop harbor_pop_queue (\<lambda>m. send_and_free M fd (f m)) q (h, s) = Some (q', h', s')"
  shows "hb_s h' = hb_s h"
proof -
  have "hb_s (fst w') = hb_s h" if "send_and_free M fd (f m) w = Some w'" "hb_s (fst w) = hb_s h" for m w w'
    using that by (auto simp: send_and_free_def dest!: send_remote_slaves split: bind_splits)
  from drain_loop_keeps [OF assms, of "\<lambda>w. hb_s (fst w) = hb_s h", OF this] show ?thesis by simp
qed

lemma dispatch_queue_down:
  assumes "harbor_dispatch_queue M i h s = Some (h', s')" "down_ok (hb_s h)"
  shows "down_ok (hb_s h')" "length (hb_s h') = length (hb_s h)" "sl_fd (hb_s h' ! i) = sl_fd (hb_s h ! i)"
proof -
  from assms(1) have i: "i < length (hb_s h)" by (auto simp: harbor_dispatch_queue_def array_get_Some split: bind_splits)
  have "hb_s h' = hb_s h \<or> hb_s h' = (hb_s h)[i := (hb_s h ! i)\<lparr>sl_queue := None\<rparr>]"
  proof (cases "sl_queue (hb_s h ! i)")
    case None
    then show ?thesis using assms(1) i by (auto simp: harbor_dispatch_queue_def split: bind_splits)
  next
    case (Some q)
    with assms(1) i obtain q1 h1 s1 s2 where
      d: "drain_loop harbor_pop_queue (send_and_free M (sl_fd (hb_s h ! i))) q (h, s) = Some (q1, h1, s1)"
        "array_get (hb_s h1) i \<bind> (\<lambda>sl. Some (put_slave i (sl\<lparr>sl_queue := None\<rparr>) h1, s2)) = Some (h', s')"
      by (auto simp: harbor_dispatch_queue_def split: bind_splits)
    from drain_send_slaves [of M _ "\<lambda>m. m", OF d(1)] d(2) i show ?thesis by (auto simp: put_slave_def)
  qed
  then show "down_ok (hb_s h')" "length (hb_s h') = length (hb_s h)" "sl_fd (hb_s h' ! i) = sl_fd (hb_s h ! i)"
    using assms(2) i down_ok_nth [OF assms(2) i] down_ok_update [OF assms(2), of "(hb_s h ! i)\<lparr>sl_queue := None\<rparr>" i] by auto
qed

lemma close_harbor_down:
  assumes "close_harbor i h s = Some (h', s')" "down_ok (hb_s h)" "sl_fd (hb_s h ! i) \<noteq> 0"
  shows "down_ok (hb_s h')"
  using assms by (auto simp: close_harbor_def Let_def array_get_Some put_slave_def intro!: down_ok_update split: bind_splits if_splits)

text \<open>The loop that reads data keeps this, and the number of the connection it reads from.\<close>

definition reading_ok :: "nat \<Rightarrow> harbor \<Rightarrow> bool" where
  "reading_ok i h \<longleftrightarrow> i < REMOTE_MAX \<and> length (hb_s h) = REMOTE_MAX \<and> down_ok (hb_s h) \<and> sl_fd (hb_s h ! i) \<noteq> 0"

lemma reading_ok_put: "reading_ok i h \<Longrightarrow> sl_fd sl \<noteq> 0 \<Longrightarrow> reading_ok i (put_slave i sl h)"
  by (auto simp: reading_ok_def put_slave_def intro: down_ok_update)

lemma reading_ok_close: "reading_ok i h \<Longrightarrow> close_harbor i h s = Some (h', s') \<Longrightarrow> reading_ok i h'"
  by (auto simp: reading_ok_def close_harbor_def Let_def array_get_Some put_slave_def intro!: down_ok_update split: bind_splits if_splits)

lemma reading_ok_dispatch: "reading_ok i h \<Longrightarrow> harbor_dispatch_queue M i h s = Some (h', s') \<Longrightarrow> reading_ok i h'"
  using dispatch_queue_down [of M i h s h' s'] by (auto simp: reading_ok_def)

lemma push_step_down:
  assumes "push_step M i c h s = Some (r, h', s')" "reading_ok i h"
  shows "reading_ok i h'"
proof -
  let ?sl = "hb_s h ! i"
  have i: "array_get (hb_s h) i = Some ?sl" "sl_fd ?sl \<noteq> 0" using assms(2) by (simp_all add: reading_ok_def)
  note put = reading_ok_put [OF assms(2)]
  show ?thesis
  proof (cases "sl_status ?sl")
    case STATUS_HANDSHAKE
    with assms(1) i obtain b rest where c: "c = b # rest" "push_handshake M i ?sl (b # rest) h s = Some (r, h', s')"
      by (cases c) (auto simp: push_step_def push_handshake_def)
    show ?thesis
    proof (cases "unat b = i")
      case True
      with c(2) have "harbor_dispatch_queue M i (put_slave i (?sl\<lparr>sl_status := STATUS_HEADER\<rparr>) h) s = Some (h', s')"
        by (auto simp: push_handshake_def split: bind_splits)
      then show ?thesis using reading_ok_dispatch [OF put, of "?sl\<lparr>sl_status := STATUS_HEADER\<rparr>" M s h' s'] i(2) by simp
    next
      case False
      with c(2) obtain s1 where "close_harbor i h s1 = Some (h', s')" by (auto simp: push_handshake_def split: bind_splits)
      then show ?thesis by (rule reading_ok_close [OF assms(2)])
    qed
  next
    case STATUS_HEADER
    then have "push_header M i ?sl c h s = Some (r, h', s')" using assms(1) i by (simp add: push_step_def)
    then consider (put) sl where "h' = put_slave i sl h" "sl_fd sl = sl_fd ?sl" | (close) s1 where "close_harbor i h s1 = Some (h', s')"
      by (auto simp: push_header_def Let_def split: bind_splits if_splits)
    then show ?thesis
    proof cases
      case (put sl)
      then show ?thesis using \<open>\<And>sl. sl_fd sl \<noteq> 0 \<Longrightarrow> reading_ok i (put_slave i sl h)\<close> i(2) by simp
    qed (rule reading_ok_close [OF assms(2)])
  next
    case STATUS_CONTENT
    then show ?thesis using assms i put
      by (auto simp: push_step_def push_content_def Let_def split: bind_splits if_splits)
  qed (use assms i in \<open>simp_all add: push_step_def\<close>)
qed

lemma push_loop_keeps:
  assumes "push_loop M i c h s = Some w"
  shows "reading_ok i h \<longrightarrow> reading_ok i (fst w)"
proof (rule push_loop.raw_induct [where P = "\<lambda>M i c h s w. reading_ok i h \<longrightarrow> reading_ok i (fst w)", OF _ assms])
  fix loop and M :: "'a modules" and i c h s w
  assume IH: "\<And>M i c h s w. loop M i c h s = Some w \<Longrightarrow> reading_ok i h \<longrightarrow> reading_ok i (fst w)"
    and body: "(push_step M i c h s \<bind> (\<lambda>(r, h, s). case r of None \<Rightarrow> Some (h, s) | Some rest \<Rightarrow> loop M i rest h s)) = Some w"
  then obtain r h1 s1 where step: "push_step M i c h s = Some (r, h1, s1)" by (auto split: bind_splits)
  show "reading_ok i h \<longrightarrow> reading_ok i (fst w)"
    using push_step_down [OF step] body step IH by (cases r) auto
qed

lemma push_loop_down: "push_loop M i c h s = Some (h', s') \<Longrightarrow> reading_ok i h \<Longrightarrow> reading_ok i h'"
  using push_loop_keeps [of M i c h s "(h', s')"] by simp

text \<open>Operations that only change the queue of one node.\<close>

definition same_slaves :: "slave list \<Rightarrow> slave list \<Rightarrow> bool" where
  "same_slaves a b \<longleftrightarrow> a = b \<or> (\<exists>i q. i < length b \<and> a = b[i := (b ! i)\<lparr>sl_queue := q\<rparr>])"

lemma same_slaves_put: "array_get (hb_s h) i = Some sl \<Longrightarrow> same_slaves (hb_s (put_slave i (sl\<lparr>sl_queue := q\<rparr>) h)) (hb_s h)"
  by (auto simp: same_slaves_def put_slave_def array_get_Some)

lemma same_slaves_refl: "same_slaves a a"
  by (simp add: same_slaves_def)

lemma same_slaves_down:
  assumes "same_slaves a b" "down_ok b"
  shows "down_ok a \<and> length a = length b"
proof (cases "a = b")
  case False
  with assms(1) obtain i q where i: "i < length b" "a = b[i := (b ! i)\<lparr>sl_queue := q\<rparr>]" by (auto simp: same_slaves_def)
  have "down_ok (b[i := (b ! i)\<lparr>sl_queue := q\<rparr>])"
    by (rule down_ok_update [OF assms(2)]) (use down_ok_nth [OF assms(2) i(1)] in simp)
  with i(2) show ?thesis by simp
qed (use assms in simp)

lemma dispatch_name_slaves:
  assumes "dispatch_name_queue M node q h s = Some (q', h', s')"
  shows "same_slaves (hb_s h') (hb_s h)"
proof -
  let ?n = "unat (drop_bit HANDLE_REMOTE_SHIFT (kv_value node))"
  from assms obtain sl where sl: "array_get (hb_s h) ?n = Some sl" by (auto simp: dispatch_name_queue_def Let_def split: bind_splits)
  show ?thesis
  proof (cases "sl_fd sl = 0")
    case True
    then show ?thesis using assms sl
      by (auto simp: dispatch_name_queue_def Let_def bind_eq_Some_conv same_slaves_refl split: if_splits
          intro: same_slaves_put)
  next
    case False
    then show ?thesis using assms sl drain_send_slaves [of M "sl_fd sl"
          "\<lambda>m. m\<lparr>hm_header := (hm_header m)\<lparr>rh_destination := rh_destination (hm_header m) OR (kv_value node AND HANDLE_MASK)\<rparr>\<rparr>"]
      by (auto simp: dispatch_name_queue_def Let_def same_slaves_refl split: bind_splits)
  qed
qed

lemma find_or_insert_slaves: "find_or_insert name h = (node, h1) \<Longrightarrow> hb_s h1 = hb_s h"
  by (auto simp: find_or_insert_def hash_insert_def Let_def split: option.splits)

lemma update_name_slaves:
  assumes "update_name M name handle h s = Some (h', s')"
  shows "same_slaves (hb_s h') (hb_s h)"
proof -
  obtain node h1 where f: "find_or_insert name h = (node, h1)" by fastforce
  show ?thesis
  proof (cases "kv_queue node")
    case None
    then show ?thesis using assms f find_or_insert_slaves [OF f] by (auto simp: update_name_def put_node_def same_slaves_refl)
  next
    case (Some q)
    with assms f obtain q' h2 s2 where "dispatch_name_queue M (node\<lparr>kv_value := handle\<rparr>) q h1 s = Some (q', h2, s2)" "hb_s h' = hb_s h2"
      by (auto simp: update_name_def put_node_def Let_def split: bind_splits)
    then show ?thesis using dispatch_name_slaves find_or_insert_slaves [OF f] by metis
  qed
qed

lemma remote_send_handle_slaves:
  "remote_send_handle M source dest type session msg sz h s = Some (r, h', s') \<Longrightarrow> same_slaves (hb_s h') (hb_s h)"
  using same_slaves_put [of h]
  by (auto simp: remote_send_handle_def Let_def same_slaves_refl dest: send_remote_slaves split: bind_splits if_splits)

lemma remote_send_name_slaves:
  assumes "remote_send_name M source name type session msg sz h s = Some (r, h', s')"
  shows "same_slaves (hb_s h') (hb_s h)"
proof -
  obtain node h1 where f: "find_or_insert name h = (node, h1)" by fastforce
  from find_or_insert_slaves [OF f] show ?thesis using assms f remote_send_handle_slaves [of M source "kv_value node" type session msg sz h1 s r h' s']
    by (auto simp: remote_send_name_def put_node_def same_slaves_refl Let_def split: bind_splits if_splits)
qed

lemma command_connect_down:
  assumes "command_connect M cmd name h s = Some (h', s')" "down_ok (hb_s h)"
  shows "down_ok (hb_s h') \<and> length (hb_s h') = length (hb_s h)"
proof -
  obtain fd n where fn: "(case scan_int (c_text name) of None \<Rightarrow> (0, 0) | Some (fd, t) \<Rightarrow> (fd, case scan_int t of None \<Rightarrow> 0 | Some (n, _) \<Rightarrow> n)) = (fd, n)"
    by fastforce
  note cmd = assms(1) [unfolded command_connect_def Let_def fn prod.case]
  show ?thesis
  proof (cases "fd = 0 \<or> n \<le> 0 \<or> int REMOTE_MAX \<le> n")
    case True
    then have "h' = h" using cmd by (auto simp: bind_eq_Some_conv)
    with assms(2) show ?thesis by simp
  next
    case False
    with cmd obtain sl where sl: "array_get (hb_s h) (nat n) = Some sl" by (auto simp: bind_eq_Some_conv)
    show ?thesis
    proof (cases "sl_fd sl = 0")
      case f: False
      then have "h' = h" using cmd False sl by (auto simp: bind_eq_Some_conv)
      with assms(2) show ?thesis by simp
    next
      case True
      let ?new = "\<lambda>st. (hb_s h)[nat n := sl\<lparr>sl_fd := fd, sl_status := st\<rparr>]"
      have new: "down_ok (?new st)" "length (?new st) = length (hb_s h)" for st
        using False by (auto intro: down_ok_update [OF assms(2)])
      from cmd False sl True obtain h2 where h2: "handshake (nat n) (sock (Sock_start fd) (put_slave (nat n) (sl\<lparr>sl_fd := fd\<rparr>) h)) = Some h2"
        "(if cmd = CHR ''S'' then Some (put_slave (nat n) (sl\<lparr>sl_fd := fd, sl_status := STATUS_HANDSHAKE\<rparr>) h2, s)
          else harbor_dispatch_queue M (nat n) (put_slave (nat n) (sl\<lparr>sl_fd := fd, sl_status := STATUS_HEADER\<rparr>) h2) s) = Some (h', s')"
        by (auto simp: bind_eq_Some_conv)
      then have "hb_s (put_slave (nat n) (sl\<lparr>sl_fd := fd, sl_status := st\<rparr>) h2) = ?new st" for st
        by (auto simp: handshake_def bind_eq_Some_conv put_slave_def)
      with new h2(2) show ?thesis
        using dispatch_queue_down(1,2) [of M "nat n" "put_slave (nat n) (sl\<lparr>sl_fd := fd, sl_status := STATUS_HEADER\<rparr>) h2" s h' s']
        by (auto split: if_splits)
    qed
  qed
qed

lemma harbor_command_down:
  assumes "harbor_command M msg source h s = Some (h', s')" "down_ok (hb_s h)"
  shows "down_ok (hb_s h') \<and> length (hb_s h') = length (hb_s h)"
proof -
  consider "h' = h" | cmd where "command_connect M cmd (drop 2 msg) h s = Some (h', s')"
    | name where "update_name M name source h s = Some (h', s')"
    using assms(1) by (auto simp: harbor_command_def command_name_def Let_def bind_eq_Some_conv split: if_splits)
  then show ?thesis
  proof cases
    case 1
    with assms(2) show ?thesis by simp
  next
    case 2
    with command_connect_down assms(2) show ?thesis by blast
  next
    case 3
    from same_slaves_down [OF update_name_slaves [OF this] assms(2)] show ?thesis .
  qed
qed

lemma push_socket_data_down:
  assumes "push_socket_data M fd b h s = Some (h', s')" "down_ok (hb_s h)" "length (hb_s h) = REMOTE_MAX" "fd \<noteq> 0"
  shows "down_ok (hb_s h') \<and> length (hb_s h') = REMOTE_MAX"
proof (cases "harbor_id h fd = 0")
  case True
  then have "h' = h" using assms(1) by (auto simp: push_socket_data_def Let_def bind_eq_Some_conv)
  with assms(2,3) show ?thesis by simp
next
  case False
  let ?i = "harbor_id h fd"
  from False have "List.find (\<lambda>i. sl_fd (hb_s h ! i) = fd) [1..<REMOTE_MAX] = Some ?i" by (auto simp: harbor_id_def split: option.splits)
  then have "?i < REMOTE_MAX" "sl_fd (hb_s h ! ?i) = fd" by (auto simp: find_Some_iff)
  with assms(2-4) have "reading_ok ?i h" by (simp add: reading_ok_def)
  moreover have "push_loop M ?i b h s = Some (h', s')" using False assms(1) by (simp add: push_socket_data_def Let_def)
  ultimately have "reading_ok ?i h'" using push_loop_down by blast
  then show ?thesis by (simp add: reading_ok_def)
qed

text \<open>A socket has a positive number; every other event is unrestricted.\<close>

definition event_ok :: "harbor_event \<Rightarrow> bool" where
  "event_ok ev = (case ev of Socket_data fd b \<Rightarrow> fd \<noteq> 0 | _ \<Rightarrow> True)"

lemma mainloop_down:
  assumes "mainloop M ev session source h s = Some (h', s')" "down_ok (hb_s h) \<and> length (hb_s h) = REMOTE_MAX" "event_ok ev"
  shows "down_ok (hb_s h') \<and> length (hb_s h') = REMOTE_MAX"
proof (cases ev)
  case (Socket_data fd b)
  with assms(1) obtain s1 where "push_socket_data M fd b h s = Some (h', s1)" by (auto simp: mainloop_def bind_eq_Some_conv)
  from push_socket_data_down [OF this] assms(2,3) Socket_data show ?thesis by (simp add: event_ok_def)
next
  case (Harbor_text b)
  then show ?thesis using harbor_command_down [of M b source h s h' s'] assms(1,2) by (simp add: mainloop_def)
next
  case (Remote_out type m)
  with assms(1) obtain r s1 where "remote_send_name M source (name_array (chars (rm_name m))) type session (rm_message m) (rm_sz m) h s = Some (r, h', s1)
      \<or> remote_send_handle M source (rm_handle m) type session (rm_message m) (rm_sz m) h s = Some (r, h', s1)"
    by (auto simp: mainloop_def bind_eq_Some_conv split: if_splits)
  then have "same_slaves (hb_s h') (hb_s h)" by (elim disjE) (rule remote_send_name_slaves remote_send_handle_slaves, assumption)+
  with same_slaves_down assms(2) show ?thesis by metis
qed (use assms in \<open>auto simp: mainloop_def Let_def bind_eq_Some_conv\<close>)

text \<open>
  The harbors that the service can have: after \<open>harbor_init\<close>, whatever events come and whatever the rest of the
  server does between them.
\<close>

inductive harbor_reach :: "'x modules \<Rightarrow> harbor \<Rightarrow> bool" for M where
  init: "harbor_init ctx args harbor_create (s :: 'x server) = Some (0, h, s') \<Longrightarrow> harbor_reach M h"
| event: "harbor_reach M h \<Longrightarrow> event_ok ev \<Longrightarrow> mainloop M ev session source h s = Some (h', s') \<Longrightarrow> harbor_reach M h'"

lemma harbor_reach_down: "harbor_reach M h \<Longrightarrow> down_ok (hb_s h) \<and> length (hb_s h) = REMOTE_MAX"
proof (induction rule: harbor_reach.induct)
  case (init ctx args s h s')
  then have "hb_s h = hb_s harbor_create"
    by (auto simp: harbor_init_def Let_def bind_eq_Some_conv split: if_splits prod.splits)
  then show ?case by (simp add: harbor_create_def down_ok_def blank_slave_def)
next
  case (event h ev session source s h' s')
  then show ?case using mainloop_down by blast
qed

text \<open>C38. After the connection of a node went down, a message to a handle of that node is still written to the
  old connection, whatever has happened to the harbor so far: the branch of \<open>remote_send_handle\<close> that answers
  the source with an error is never taken, because a node that is down keeps the number of its connection.\<close>

theorem harbor_down_never_reported:
  assumes "harbor_reach M h" "n < REMOTE_MAX" "sl_status (hb_s h ! n) = STATUS_DOWN" "hb_id h \<noteq> int n" "og_ok n m"
  shows "sl_fd (hb_s h ! n) \<noteq> 0 \<and>
    send_out M m (h, s) = Some (h\<lparr>hb_sock := hb_sock h @ [Sock_send (sl_fd (hb_s h ! n)) (frame (og_body m))]\<rparr>, s)"
proof -
  from harbor_reach_down [OF assms(1)] have h: "down_ok (hb_s h)" "n < length (hb_s h)" using assms(2) by auto
  from down_ok_nth [OF h assms(3)] send_out_connected [OF assms(5,4) h(2)] assms(3) show ?thesis by (simp add: sock_def)
qed

text \<open>A harbor whose node 2 answered the handshake with another number.\<close>

definition down_harbor :: "harbor \<Rightarrow> harbor" where
  "down_harbor h = put_slave 2 (blank_slave\<lparr>sl_fd := 7, sl_status := STATUS_DOWN\<rparr>)
     (sock (Sock_close 7) (sock (Sock_send 7 [word_of_int (hb_id h)]) (sock (Sock_start 7) h)))"

lemma down_example:
  assumes "hb_s h = replicate REMOTE_MAX blank_slave" "sv_logger s = 0" "skynet_handle_findname ''logger'' (sv_handles s) = Some 0"
  shows "\<exists>h1 s'. mainloop M (Harbor_text (chars ''S 7 2'')) 0 0 h s = Some (h1, s) \<and>
    mainloop M (Socket_data 7 [3]) 0 0 h1 s = Some (down_harbor h, s')"
proof -
  let ?sl = "blank_slave\<lparr>sl_fd := 7, sl_status := STATUS_HANDSHAKE\<rparr>"
  let ?h1 = "sock (Sock_send 7 [word_of_int (hb_id h)]) (sock (Sock_start 7) (put_slave 2 ?sl h))"
  have m: "drop 2 (chars ''S 7 2'') = chars ''7 2''" "2 \<le> length (chars ''S 7 2'')" "chars ''S 7 2'' = of_char (CHR ''S'') # chars '' 7 2''"
    by (simp_all add: chars_def)
  have S: "char_of (unat (of_char (CHR ''S'') :: u8)) = CHR ''S''" by code_simp
  have c: "(case chars ''S 7 2'' of [] \<Rightarrow> CHR 0x00 | b # _ \<Rightarrow> char_of (unat b)) = CHR ''S''" unfolding m(3) list.case by (rule S)
  have t: "c_text (chars ''7 2'') = ''7 2''" by code_simp
  have i: "scan_int ''7 2'' = Some (7, '' 2'')" "scan_int '' 2'' = Some (2, [])"
    by (simp_all add: scan_int_def c_isspace_def digit_val_def strtol_def scan_number_def Let_def)
  have s2: "array_get (hb_s h) 2 = Some blank_slave" "2 < length (hb_s h)" using assms(1) by (simp_all add: REMOTE_MAX_def)
  have "command_connect M (CHR ''S'') (chars ''7 2'') h s = Some (?h1, s)"
    using s2 by (simp add: command_connect_def t i Let_def blank_slave_def handshake_def put_slave_def sock_def REMOTE_MAX_def)
  then have one: "mainloop M (Harbor_text (chars ''S 7 2'')) 0 0 h s = Some (?h1, s)"
    unfolding mainloop_def harbor_event.case harbor_command_def c Let_def m(1) using m(2) by simp
  have u: "[1..<REMOTE_MAX] = 1 # 2 # [3..<REMOTE_MAX]" by (simp add: REMOTE_MAX_def upt_conv_Cons)
  have "hb_s ?h1 ! 1 = blank_slave" "hb_s ?h1 ! 2 = ?sl" using assms(1) by (simp_all add: put_slave_def REMOTE_MAX_def)
  then have hid: "harbor_id ?h1 7 = 2" unfolding harbor_id_def u by (simp add: blank_slave_def)
  have err: "skynet_error M c t s = Some s" for c t using no_logger assms(2,3) by blast
  have "push_step M 2 [3] ?h1 s = Some (None, down_harbor h, s)"
    using s2(2) by (simp add: push_step_def put_slave_def push_handshake_def err close_harbor_def blank_slave_def release_queue_def
        down_harbor_def sock_def)
  then have "push_loop M 2 [3] ?h1 s = Some (down_harbor h, s)" by (simp add: push_loop.simps [of M 2 "[3]"])
  then have "mainloop M (Socket_data 7 [3]) 0 0 ?h1 s = Some (down_harbor h, free_data_buffer [3] s)"
    by (simp add: mainloop_def push_socket_data_def hid)
  with one show ?thesis by blast
qed

lemma demo_no_logger: "sv_logger demo_node = 0" "skynet_handle_findname ''logger'' (sv_handles demo_node) = Some 0"
  by (simp_all add: demo_node_def server_init_def skynet_globalinit_def skynet_initthread_def skynet_harbor_init_def
      skynet_profile_enable_def skynet_handle_findname_def skynet_handle_init_def name_search.simps)

lemma harbor_init_example:
  "\<exists>s'. harbor_init 0 ''1 16777219'' harbor_create (demo_node\<lparr>sv_ctxs := [0 \<mapsto> blank_context ''harbor'' False]\<rparr>) =
    Some (0, harbor_create\<lparr>hb_ctx := 0, hb_id := 1, hb_slave := 0x1000003\<rparr>, s')"
proof -
  have "scan_int ''1 16777219'' = Some (1, '' 16777219'')" "scan_uint '' 16777219'' = Some (0x1000003, [])"
    by (simp_all add: scan_int_def scan_uint_def c_isspace_def digit_val_def strtol_def strtoul_def scan_number_def Let_def)
  then show ?thesis
    by (simp add: harbor_init_def skynet_callback_def skynet_harbor_start_def skynet_context_reserve_def skynet_context_grab_def upd_ctx_def)
qed

theorem harbor_down_never_reported_witness:
  "\<exists>(h :: harbor). harbor_reach demo_modules h \<and> sl_status (hb_s h ! 2) = STATUS_DOWN \<and>
    send_out demo_modules example_out (h, demo_node) =
      Some (h\<lparr>hb_sock := [Sock_start 7, Sock_send 7 [1], Sock_close 7, Sock_send 7 (frame (og_body example_out))]\<rparr>, demo_node)"
proof -
  let ?start = "harbor_create\<lparr>hb_ctx := 0, hb_id := 1, hb_slave := 0x1000003\<rparr>"
  let ?h = "down_harbor ?start"
  have "hb_s ?start = replicate REMOTE_MAX blank_slave" by (simp add: harbor_create_def)
  from down_example [OF this demo_no_logger, of demo_modules] obtain h1 s' where
    e: "mainloop demo_modules (Harbor_text (chars ''S 7 2'')) 0 0 ?start demo_node = Some (h1, demo_node)"
      "mainloop demo_modules (Socket_data 7 [3]) 0 0 h1 demo_node = Some (?h, s')" by blast
  have "harbor_reach demo_modules ?start" using harbor_init_example by (blast intro: harbor_reach.init)
  from harbor_reach.event [OF this _ e(1)] have "harbor_reach demo_modules h1" by (simp add: event_ok_def)
  from harbor_reach.event [OF this _ e(2)] have reach: "harbor_reach demo_modules ?h" by (simp add: event_ok_def)
  have sl: "hb_s ?h ! 2 = blank_slave\<lparr>sl_fd := 7, sl_status := STATUS_DOWN\<rparr>" "hb_id ?h = 1"
    "hb_sock ?h = [Sock_start 7, Sock_send 7 [1], Sock_close 7]"
    by (simp_all add: down_harbor_def put_slave_def sock_def harbor_create_def REMOTE_MAX_def)
  with harbor_down_never_reported [OF reach, of 2 example_out demo_node] example_out_ok reach show ?thesis
    by (intro exI [of _ ?h]) (simp add: REMOTE_MAX_def)
qed

text \<open>Data from a socket that no node has is freed twice: by \<open>push_socket_data\<close> and by \<open>mainloop\<close>. (No logger
  is running here, so that the error message leaves the server alone.)\<close>

theorem harbor_unknown_socket_double_free:
  assumes "harbor_id h fd = 0" "sv_logger s = 0" "skynet_handle_findname ''logger'' (sv_handles s) = Some 0"
  shows "mainloop M (Socket_data fd b) session source h s = Some (h, s\<lparr>sv_freed := sv_freed s @ [Bytes b, Bytes b]\<rparr>)"
proof -
  let ?s = "free_data (Some (Bytes b)) s"
  have "skynet_error M c t ?s = Some ?s" for c t using no_logger [of ?s] assms(2,3) by (simp add: free_data_def)
  then show ?thesis using assms(1) by (simp add: mainloop_def push_socket_data_def free_data_buffer_def) (simp add: free_data_def)
qed

theorem harbor_unknown_socket_double_free_witness:
  "mainloop demo_modules (Socket_data 9 [1, 2]) 0 0 harbor_create demo_node =
    Some (harbor_create, demo_node\<lparr>sv_freed := sv_freed demo_node @ [Bytes [1, 2], Bytes [1, 2]]\<rparr>)"
proof -
  have "List.find (\<lambda>i. sl_fd (hb_s harbor_create ! i) = 9) [1..<REMOTE_MAX] = None"
    by (simp add: find_None_iff harbor_create_def blank_slave_def)
  then have "harbor_id harbor_create 9 = 0" by (simp add: harbor_id_def)
  from harbor_unknown_socket_double_free [OF this demo_no_logger] show ?thesis .
qed

end
