(* ===== verification/Socket_Server.thy ===== *)
theory Socket_Server
  imports C_Strings
begin

unbundle bit_operations_syntax

section \<open>The socket server (\<open>socket_server.c\<close>)\<close>

text \<open>
  One thread owns the sockets. The other threads reserve identifiers and write requests to a pipe; the socket
  thread reads the requests, waits for events, reads and writes the sockets and reports what happened. The
  operating system is a parameter of the model: \<open>kernel\<close> has one function for each system call whose answer the
  program looks at, and \<open>'w\<close> is the state of the world that the calls read and change. Calls whose answer is
  not used are recorded in \<open>ss_calls\<close> with the bytes that \<open>write\<close> and \<open>sendto\<close> took, in order, so that
  the properties can speak of the stream that leaves a socket. \<open>ss_freed\<close> records the buffers given back, with
  the flag that says whether \<open>soi.free\<close> or \<open>skynet_free\<close> took them.
\<close>

subsection \<open>Constants, sockets and requests\<close>

definition MAX_INFO :: nat where "MAX_INFO = 128"
definition MAX_SOCKET :: int where "MAX_SOCKET = 65536"
definition MAX_EVENT :: nat where "MAX_EVENT = 64"
definition MIN_READ_BUFFER :: int where "MIN_READ_BUFFER = 64"
definition UDP_ADDRESS_SIZE :: nat where "UDP_ADDRESS_SIZE = 19"
definition WARNING_SIZE :: int where "WARNING_SIZE = 1024 * 1024"

datatype socket_status =
    SOCKET_TYPE_INVALID | SOCKET_TYPE_RESERVE | SOCKET_TYPE_PLISTEN | SOCKET_TYPE_LISTEN
  | SOCKET_TYPE_CONNECTING | SOCKET_TYPE_CONNECTED | SOCKET_TYPE_HALFCLOSE | SOCKET_TYPE_PACCEPT | SOCKET_TYPE_BIND

datatype priority = PRIORITY_HIGH | PRIORITY_LOW

datatype protocol = PROTOCOL_TCP | PROTOCOL_UDP | PROTOCOL_UDPv6

text \<open>What an operation reports; \<open>SOCKET_NOTHING\<close> is the return value \<open>-1\<close>.\<close>

datatype poll_code =
    SOCKET_NOTHING | SOCKET_DATA | SOCKET_CLOSE | SOCKET_OPEN | SOCKET_ACCEPT | SOCKET_ERR | SOCKET_EXIT
  | SOCKET_UDP | SOCKET_WARNING

definition HASH_ID :: "int \<Rightarrow> nat" where "HASH_ID i = nat (i mod MAX_SOCKET)"

fun protocol_byte :: "protocol \<Rightarrow> u8" where
  "protocol_byte PROTOCOL_TCP = 0"
| "protocol_byte PROTOCOL_UDP = 1"
| "protocol_byte PROTOCOL_UDPv6 = 2"

text \<open>A block of memory is its address and its content.\<close>

record mblock =
  blk_addr :: u64
  blk_bytes :: bytes

record socket_object_interface =
  soi_buffer :: "mblock \<Rightarrow> mblock"
  soi_size :: "mblock \<Rightarrow> int"

text \<open>
  \<open>wb_rest\<close> holds the \<open>sz\<close> bytes at \<open>ptr\<close>. The links of the list are the order of a HOL list, so the head and
  the tail of a \<open>wb_list\<close> are its first and its last element.
\<close>

record write_buffer =
  wb_buffer :: mblock
  wb_ptr :: u64
  wb_rest :: bytes
  wb_userobject :: bool
  wb_udp_address :: bytes

text \<open>The union \<open>p\<close> of a socket: reading the member that was not written is undefined.\<close>

datatype socket_p = P_size int | P_udp_address bytes

record socket =
  sk_opaque :: u64
  sk_high :: "write_buffer list"
  sk_low :: "write_buffer list"
  sk_wb_size :: int
  sk_fd :: int
  sk_id :: int
  sk_protocol :: protocol
  sk_type :: socket_status
  sk_warn_size :: int
  sk_p :: socket_p

record event =
  ev_s :: "nat option"
  ev_read :: bool
  ev_write :: bool

datatype message_data = Data_null | Data_bytes bytes | Data_text string

record poll_message =
  pm_id :: int
  pm_opaque :: u64
  pm_ud :: int
  pm_data :: message_data

record request_send =
  rs_id :: int
  rs_sz :: int
  rs_buffer :: mblock

datatype request =
    Req_open int int u64 string
  | Req_send priority request_send
  | Req_send_udp request_send bytes
  | Req_setudp int bytes
  | Req_close int bool u64
  | Req_listen int int u64
  | Req_bind int int u64
  | Req_start int u64
  | Req_setopt int int int
  | Req_udp int int bool u64
  | Req_exit

text \<open>The byte that names a request in the pipe, and the size of its \<open>struct\<close> as it is sent.\<close>

fun request_type :: "request \<Rightarrow> char" where
  "request_type (Req_open _ _ _ _) = CHR ''O''"
| "request_type (Req_send PRIORITY_HIGH _) = CHR ''D''"
| "request_type (Req_send PRIORITY_LOW _) = CHR ''P''"
| "request_type (Req_send_udp _ _) = CHR ''A''"
| "request_type (Req_setudp _ _) = CHR ''C''"
| "request_type (Req_close _ _ _) = CHR ''K''"
| "request_type (Req_listen _ _ _) = CHR ''L''"
| "request_type (Req_bind _ _ _) = CHR ''B''"
| "request_type (Req_start _ _) = CHR ''S''"
| "request_type (Req_setopt _ _ _) = CHR ''T''"
| "request_type (Req_udp _ _ _ _) = CHR ''U''"
| "request_type Req_exit = CHR ''X''"

fun request_size :: "request \<Rightarrow> nat" where
  "request_size (Req_open _ _ _ host) = 24 + length host"
| "request_size (Req_send _ _) = 16"
| "request_size (Req_send_udp _ address) = 16 + length address"
| "request_size (Req_setudp _ address) = 24 - UDP_ADDRESS_SIZE + length address"
| "request_size (Req_close _ _ _) = 16"
| "request_size (Req_listen _ _ _) = 24"
| "request_size (Req_bind _ _ _) = 16"
| "request_size (Req_start _ _) = 16"
| "request_size (Req_setopt _ _ _) = 12"
| "request_size (Req_udp _ _ _ _) = 24"
| "request_size Req_exit = 0"

subsection \<open>The operating system\<close>

datatype 'a io_result = IO_ok 'a | IO_EINTR | IO_EAGAIN | IO_error nat

text \<open>A socket address: family, port and address as the bytes in memory, which are in network order.\<close>

datatype sockaddr_all = Sockaddr_in bytes bytes | Sockaddr_in6 bytes bytes

datatype accept_result = Accepted int sockaddr_all | Accept_limit nat | Accept_failed

datatype connect_result = Connect_ok | Connect_inprogress | Connect_failed

record 'w kernel =
  k_write :: "'w \<Rightarrow> int \<Rightarrow> bytes \<Rightarrow> nat io_result \<times> 'w"
  k_sendto :: "'w \<Rightarrow> int \<Rightarrow> bytes \<Rightarrow> sockaddr_all option \<Rightarrow> nat io_result \<times> 'w"
  k_read :: "'w \<Rightarrow> int \<Rightarrow> int \<Rightarrow> bytes io_result \<times> 'w"
  k_recvfrom :: "'w \<Rightarrow> int \<Rightarrow> (bytes \<times> sockaddr_all) io_result \<times> 'w"
  k_accept :: "'w \<Rightarrow> int \<Rightarrow> accept_result \<times> 'w"
  k_so_error :: "'w \<Rightarrow> int \<Rightarrow> (nat + nat) \<times> 'w"
  k_getpeername :: "'w \<Rightarrow> int \<Rightarrow> sockaddr_all option \<times> 'w"
  k_epoll_add :: "'w \<Rightarrow> int \<Rightarrow> bool \<times> 'w"
  k_epoll_wait :: "'w \<Rightarrow> event list \<times> bool \<times> 'w"
  k_select :: "'w \<Rightarrow> bool \<times> 'w"
  k_getaddrinfo :: "'w \<Rightarrow> string \<Rightarrow> int \<Rightarrow> bool \<Rightarrow> (int + sockaddr_all list) \<times> 'w"
  k_socket :: "'w \<Rightarrow> bool \<Rightarrow> bool \<Rightarrow> int \<times> 'w"
  k_connect :: "'w \<Rightarrow> int \<Rightarrow> sockaddr_all \<Rightarrow> connect_result \<times> 'w"
  k_reuseaddr :: "'w \<Rightarrow> int \<Rightarrow> bool \<times> 'w"
  k_bind :: "'w \<Rightarrow> int \<Rightarrow> sockaddr_all \<Rightarrow> bool \<times> 'w"
  k_listen :: "'w \<Rightarrow> int \<Rightarrow> int \<Rightarrow> bool \<times> 'w"
  k_inet_ntop :: "sockaddr_all \<Rightarrow> string option"
  k_strerror :: "nat \<Rightarrow> string"
  k_gai_strerror :: "int \<Rightarrow> string"
  k_errno :: "'w \<Rightarrow> nat"

datatype sys_call =
    Sys_write int bytes
  | Sys_sendto int bytes "sockaddr_all option"
  | Sys_close int
  | Sp_add int
  | Sp_del int
  | Sp_write int bool
  | Sp_nonblocking int
  | Sys_keepalive int
  | Sys_setsockopt int int int
  | Sys_stderr string

record 'w socket_server =
  ss_recvctrl_fd :: int
  ss_sendctrl_fd :: int
  ss_event_fd :: int
  ss_checkctrl :: bool
  ss_alloc_id :: int
  ss_event_index :: nat
  ss_ev :: "event list"
  ss_soi :: "socket_object_interface option"
  ss_slot :: "nat \<Rightarrow> socket"
  ss_pipe :: "(char \<times> u8 \<times> request) list"
  ss_result :: poll_message
  ss_freed :: "(bool \<times> mblock) list"
  ss_calls :: "sys_call list"
  ss_world :: 'w

text \<open>Access to a slot, to the message under construction and to the world.\<close>

definition upd_sock :: "nat \<Rightarrow> (socket \<Rightarrow> socket) \<Rightarrow> 'w socket_server \<Rightarrow> 'w socket_server" where
  "upd_sock i f ss = ss\<lparr>ss_slot := (ss_slot ss)(i := f (ss_slot ss i))\<rparr>"

definition set_type :: "nat \<Rightarrow> socket_status \<Rightarrow> 'w socket_server \<Rightarrow> 'w socket_server" where
  "set_type i t ss = upd_sock i (\<lambda>s. s\<lparr>sk_type := t\<rparr>) ss"

definition put_result :: "int \<Rightarrow> u64 \<Rightarrow> int \<Rightarrow> message_data \<Rightarrow> 'w socket_server \<Rightarrow> 'w socket_server" where
  "put_result i opaque ud data ss = ss\<lparr>ss_result := \<lparr>pm_id = i, pm_opaque = opaque, pm_ud = ud, pm_data = data\<rparr>\<rparr>"

definition set_data :: "message_data \<Rightarrow> 'w socket_server \<Rightarrow> 'w socket_server" where
  "set_data data ss = ss\<lparr>ss_result := (ss_result ss)\<lparr>pm_data := data\<rparr>\<rparr>"

definition sys_do :: "sys_call \<Rightarrow> 'w socket_server \<Rightarrow> 'w socket_server" where
  "sys_do c ss = ss\<lparr>ss_calls := ss_calls ss @ [c]\<rparr>"

definition sys_ask :: "('w \<Rightarrow> 'a \<times> 'w) \<Rightarrow> 'w socket_server \<Rightarrow> 'a \<times> 'w socket_server" where
  "sys_ask f ss = (let (r, w) = f (ss_world ss) in (r, ss\<lparr>ss_world := w\<rparr>))"

definition sys_write :: "'w kernel \<Rightarrow> int \<Rightarrow> bytes \<Rightarrow> 'w socket_server \<Rightarrow> nat io_result \<times> 'w socket_server" where
  "sys_write K fd data ss =
     (let (r, ss) = sys_ask (\<lambda>w. k_write K w fd data) ss
      in (r, case r of IO_ok n \<Rightarrow> sys_do (Sys_write fd (take n data)) ss | _ \<Rightarrow> ss))"

definition sys_sendto ::
  "'w kernel \<Rightarrow> int \<Rightarrow> bytes \<Rightarrow> sockaddr_all option \<Rightarrow> 'w socket_server \<Rightarrow> nat io_result \<times> 'w socket_server" where
  "sys_sendto K fd data sa ss =
     (let (r, ss) = sys_ask (\<lambda>w. k_sendto K w fd data sa) ss
      in (r, case r of IO_ok n \<Rightarrow> sys_do (Sys_sendto fd data sa) ss | _ \<Rightarrow> ss))"

text \<open>\<open>sp_add\<close> answers true when the descriptor could not be added.\<close>

definition sp_add :: "'w kernel \<Rightarrow> int \<Rightarrow> 'w socket_server \<Rightarrow> bool \<times> 'w socket_server" where
  "sp_add K fd ss = sys_ask (\<lambda>w. k_epoll_add K w fd) (sys_do (Sp_add fd) ss)"

definition sp_del :: "int \<Rightarrow> 'w socket_server \<Rightarrow> 'w socket_server" where
  "sp_del fd ss = sys_do (Sp_del fd) ss"

definition sp_write :: "int \<Rightarrow> bool \<Rightarrow> 'w socket_server \<Rightarrow> 'w socket_server" where
  "sp_write fd enable ss = sys_do (Sp_write fd enable) ss"

definition sp_wait :: "'w kernel \<Rightarrow> 'w socket_server \<Rightarrow> (event list \<times> bool) \<times> 'w socket_server" where
  "sp_wait K ss = sys_ask (\<lambda>w. case k_epoll_wait K w of (e, eintr, w) \<Rightarrow> ((e, eintr), w)) ss"

definition sp_nonblocking :: "int \<Rightarrow> 'w socket_server \<Rightarrow> 'w socket_server" where
  "sp_nonblocking fd ss = sys_do (Sp_nonblocking fd) ss"

definition socket_keepalive :: "int \<Rightarrow> 'w socket_server \<Rightarrow> 'w socket_server" where
  "socket_keepalive fd ss = sys_do (Sys_keepalive fd) ss"

definition close_fd :: "int \<Rightarrow> 'w socket_server \<Rightarrow> 'w socket_server" where
  "close_fd fd ss = sys_do (Sys_close fd) ss"

definition print_error :: "string \<Rightarrow> 'w socket_server \<Rightarrow> 'w socket_server" where
  "print_error t ss = sys_do (Sys_stderr t) ss"

subsection \<open>Buffers, identifiers and slots\<close>

record send_object =
  so_buffer :: mblock
  so_sz :: int
  so_userobject :: bool

text \<open>\<open>ss_soi\<close> is \<open>None\<close> while the interface is zeroed: calling its functions is then undefined.\<close>

definition send_object_init :: "mblock \<Rightarrow> int \<Rightarrow> 'w socket_server \<Rightarrow> send_object option" where
  "send_object_init object sz ss =
     (if sz < 0
      then do { soi \<leftarrow> ss_soi ss;
                Some \<lparr>so_buffer = soi_buffer soi object, so_sz = soi_size soi object, so_userobject = True\<rparr> }
      else Some \<lparr>so_buffer = object, so_sz = sz, so_userobject = False\<rparr>)"

text \<open>The \<open>so.sz\<close> bytes at \<open>so.buffer\<close>, which are all in the block or the read is undefined.\<close>

definition so_data :: "send_object \<Rightarrow> bytes option" where
  "so_data so = (if 0 \<le> so_sz so \<and> nat (so_sz so) \<le> length (blk_bytes (so_buffer so))
                 then Some (take (nat (so_sz so)) (blk_bytes (so_buffer so))) else None)"

definition so_free :: "bool \<Rightarrow> mblock \<Rightarrow> 'w socket_server \<Rightarrow> 'w socket_server" where
  "so_free userobject buffer ss = ss\<lparr>ss_freed := ss_freed ss @ [(userobject, buffer)]\<rparr>"

definition write_buffer_free :: "write_buffer \<Rightarrow> 'w socket_server \<Rightarrow> 'w socket_server" where
  "write_buffer_free wb ss = so_free (wb_userobject wb) (wb_buffer wb) ss"

text \<open>\<open>ATOM_INC\<close> on an \<open>int\<close>, which wraps, and one probe for each value of the loop counter.\<close>

definition atom_inc :: "int \<Rightarrow> int" where
  "atom_inc i = (if i + 1 = 2 ^ 31 then - (2 ^ 31) else i + 1)"

definition next_id :: "int \<Rightarrow> int" where
  "next_id i = (let j = atom_inc i in if j < 0 then j AND 0x7fffffff else j)"

fun reserve_loop :: "nat \<Rightarrow> 'w socket_server \<Rightarrow> int \<times> 'w socket_server" where
  "reserve_loop 0 ss = (- 1, ss)"
| "reserve_loop (Suc n) ss =
     (let i = next_id (ss_alloc_id ss); ss = ss\<lparr>ss_alloc_id := i\<rparr>
      in if sk_type (ss_slot ss (HASH_ID i)) = SOCKET_TYPE_INVALID
         then (i, upd_sock (HASH_ID i) (\<lambda>s. s\<lparr>sk_type := SOCKET_TYPE_RESERVE, sk_id := i, sk_fd := - 1\<rparr>) ss)
         else reserve_loop n ss)"

definition reserve_id :: "'w socket_server \<Rightarrow> int \<times> 'w socket_server" where
  "reserve_id ss = reserve_loop (nat MAX_SOCKET) ss"

definition get_list :: "priority \<Rightarrow> socket \<Rightarrow> write_buffer list" where
  "get_list p s = (case p of PRIORITY_HIGH \<Rightarrow> sk_high s | PRIORITY_LOW \<Rightarrow> sk_low s)"

definition set_list :: "priority \<Rightarrow> write_buffer list \<Rightarrow> socket \<Rightarrow> socket" where
  "set_list p l s = (case p of PRIORITY_HIGH \<Rightarrow> s\<lparr>sk_high := l\<rparr> | PRIORITY_LOW \<Rightarrow> s\<lparr>sk_low := l\<rparr>)"

definition clear_wb_list :: "priority \<Rightarrow> socket \<Rightarrow> socket" where
  "clear_wb_list p s = set_list p [] s"

definition free_wb_list :: "nat \<Rightarrow> priority \<Rightarrow> 'w socket_server \<Rightarrow> 'w socket_server" where
  "free_wb_list i p ss =
     upd_sock i (set_list p []) (fold write_buffer_free (get_list p (ss_slot ss i)) ss)"

definition force_close :: "nat \<Rightarrow> 'w socket_server \<Rightarrow> 'w socket_server option" where
  "force_close i ss =
     (let s = ss_slot ss i; ss = put_result (sk_id s) (sk_opaque s) 0 Data_null ss
      in if sk_type s = SOCKET_TYPE_INVALID then Some ss
         else do { assert_opt (sk_type s \<noteq> SOCKET_TYPE_RESERVE);
                   let ss = free_wb_list i PRIORITY_HIGH ss;
                   let ss = free_wb_list i PRIORITY_LOW ss;
                   let ss = (if sk_type s \<noteq> SOCKET_TYPE_PACCEPT \<and> sk_type s \<noteq> SOCKET_TYPE_PLISTEN
                             then sp_del (sk_fd s) ss else ss);
                   let ss = (if sk_type s \<noteq> SOCKET_TYPE_BIND then close_fd (sk_fd s) ss else ss);
                   Some (set_type i SOCKET_TYPE_INVALID ss) })"

definition blank_socket :: socket where
  "blank_socket = \<lparr>sk_opaque = 0, sk_high = [], sk_low = [], sk_wb_size = 0, sk_fd = 0, sk_id = 0,
     sk_protocol = PROTOCOL_TCP, sk_type = SOCKET_TYPE_INVALID, sk_warn_size = 0, sk_p = P_size 0\<rparr>"

text \<open>
  \<open>socket_server_create\<close>: \<open>efd\<close> is what \<open>sp_create\<close> returned, \<open>fd\<close> the two ends of the pipe unless \<open>pipe\<close>
  failed, \<open>add\<close> what \<open>sp_add\<close> returned. The result is the calls made and the server, or \<open>None\<close> for \<open>NULL\<close>.
  The fields of a slot that the C code leaves unwritten are zero here; all are written before they decide
  anything, because the type is looked at first.
\<close>

definition FD_SETSIZE :: int where "FD_SETSIZE = 1024"

definition socket_server_create ::
  "int \<Rightarrow> (int \<times> int) option \<Rightarrow> bool \<Rightarrow> 'w \<Rightarrow> (sys_call list \<times> 'w socket_server option) option" where
  "socket_server_create efd fd add w =
     (if efd = - 1 then Some ([Sys_stderr ''socket-server: create event pool failed.''], None)
      else case fd of
        None \<Rightarrow> Some ([Sys_close efd, Sys_stderr ''socket-server: create socket pair failed.''], None)
      | Some (rfd, wfd) \<Rightarrow>
          if add
          then Some ([Sp_add rfd, Sys_stderr ''socket-server: can't add server fd to event pool.'',
                      Sys_close rfd, Sys_close wfd, Sys_close efd], None)
          else do { assert_opt (rfd < FD_SETSIZE);
                    Some ([Sp_add rfd],
                      Some \<lparr>ss_recvctrl_fd = rfd, ss_sendctrl_fd = wfd, ss_event_fd = efd, ss_checkctrl = True,
                        ss_alloc_id = 0, ss_event_index = 0, ss_ev = [], ss_soi = None,
                        ss_slot = (\<lambda>i. clear_wb_list PRIORITY_LOW (clear_wb_list PRIORITY_HIGH
                                            (blank_socket\<lparr>sk_type := SOCKET_TYPE_INVALID\<rparr>))),
                        ss_pipe = [], ss_result = \<lparr>pm_id = 0, pm_opaque = 0, pm_ud = 0, pm_data = Data_null\<rparr>,
                        ss_freed = [], ss_calls = [Sp_add rfd], ss_world = w\<rparr>) })"

definition release_slot :: "nat \<Rightarrow> 'w socket_server \<Rightarrow> 'w socket_server option" where
  "release_slot i ss =
     (if sk_type (ss_slot ss i) \<noteq> SOCKET_TYPE_RESERVE then force_close i ss else Some ss)"

fun release_slots :: "nat list \<Rightarrow> 'w socket_server \<Rightarrow> 'w socket_server option" where
  "release_slots [] ss = Some ss"
| "release_slots (i # is) ss = do { ss \<leftarrow> release_slot i ss; release_slots is ss }"

definition socket_server_release :: "'w socket_server \<Rightarrow> 'w socket_server option" where
  "socket_server_release ss =
     do { ss \<leftarrow> release_slots [0..<nat MAX_SOCKET] ss;
          Some (close_fd (ss_event_fd ss) (close_fd (ss_recvctrl_fd ss) (close_fd (ss_sendctrl_fd ss) ss))) }"

definition check_wb_list :: "write_buffer list \<Rightarrow> unit option" where
  "check_wb_list l = assert_opt (l = [])"

text \<open>The result is true when the C function returns the socket and false when it returns \<open>NULL\<close>.\<close>

definition new_fd ::
  "'w kernel \<Rightarrow> int \<Rightarrow> int \<Rightarrow> protocol \<Rightarrow> u64 \<Rightarrow> bool \<Rightarrow> 'w socket_server \<Rightarrow> (bool \<times> 'w socket_server) option" where
  "new_fd K i fd protocol opaque add ss =
     (let k = HASH_ID i
      in do { assert_opt (sk_type (ss_slot ss k) = SOCKET_TYPE_RESERVE);
              let (failed, ss) = (if add then sp_add K fd ss else (False, ss));
              if failed then Some (False, set_type k SOCKET_TYPE_INVALID ss)
              else do { let ss = upd_sock k (\<lambda>s. s\<lparr>sk_id := i, sk_fd := fd, sk_protocol := protocol,
                          sk_p := P_size MIN_READ_BUFFER, sk_opaque := opaque, sk_wb_size := 0, sk_warn_size := 0\<rparr>) ss;
                        check_wb_list (sk_high (ss_slot ss k));
                        check_wb_list (sk_low (ss_slot ss k));
                        Some (True, ss) } })"

subsection \<open>Opening a connection\<close>

definition is_v6 :: "sockaddr_all \<Rightarrow> bool" where
  "is_v6 sa = (case sa of Sockaddr_in _ _ \<Rightarrow> False | Sockaddr_in6 _ _ \<Rightarrow> True)"

text \<open>The loop over the addresses: the descriptor that is connected or connecting, and the address it goes to.\<close>

fun connect_loop ::
  "'w kernel \<Rightarrow> sockaddr_all list \<Rightarrow> 'w socket_server \<Rightarrow> (int \<times> bool \<times> sockaddr_all) option \<times> 'w socket_server" where
  "connect_loop K [] ss = (None, ss)"
| "connect_loop K (ai # ais) ss =
     (let (sock, ss) = sys_ask (\<lambda>w. k_socket K w (is_v6 ai) True) ss
      in if sock < 0 then connect_loop K ais ss
         else let ss = sp_nonblocking sock (socket_keepalive sock ss);
                  (r, ss) = sys_ask (\<lambda>w. k_connect K w sock ai) ss
              in case r of
                   Connect_failed \<Rightarrow> connect_loop K ais (close_fd sock ss)
                 | Connect_ok \<Rightarrow> (Some (sock, True, ai), ss)
                 | Connect_inprogress \<Rightarrow> (Some (sock, False, ai), ss))"

definition open_failed :: "int \<Rightarrow> 'w socket_server \<Rightarrow> poll_code \<times> 'w socket_server" where
  "open_failed i ss = (SOCKET_ERR, set_type (HASH_ID i) SOCKET_TYPE_INVALID ss)"

definition number_limit :: message_data where
  "number_limit = Data_text ''reach skynet socket number limit''"

definition open_socket ::
  "'w kernel \<Rightarrow> int \<Rightarrow> int \<Rightarrow> u64 \<Rightarrow> string \<Rightarrow> 'w socket_server \<Rightarrow> (poll_code \<times> 'w socket_server) option" where
  "open_socket K i port opaque host ss =
     (let ss = put_result i opaque 0 Data_null ss;
          (ai, ss) = sys_ask (\<lambda>w. k_getaddrinfo K w host port True) ss
      in case ai of
           Inl status \<Rightarrow> Some (open_failed i (set_data (Data_text (k_gai_strerror K status)) ss))
         | Inr ai_list \<Rightarrow>
             (case connect_loop K ai_list ss of
                (None, ss) \<Rightarrow> Some (open_failed i (set_data (Data_text (k_strerror K (k_errno K (ss_world ss)))) ss))
              | (Some (sock, connected, ai_ptr), ss) \<Rightarrow>
                  do { (ns, ss) \<leftarrow> new_fd K i sock PROTOCOL_TCP opaque True ss;
                       if \<not> ns then Some (open_failed i (set_data number_limit (close_fd sock ss)))
                       else if connected
                       then do { let ss = set_type (HASH_ID i) SOCKET_TYPE_CONNECTED ss;
                                 Some (SOCKET_OPEN,
                                       case k_inet_ntop K ai_ptr of
                                         Some t \<Rightarrow> set_data (Data_text t) ss | None \<Rightarrow> ss) }
                       else do { let ss = set_type (HASH_ID i) SOCKET_TYPE_CONNECTING ss;
                                 Some (SOCKET_NOTHING, sp_write (sk_fd (ss_slot ss (HASH_ID i))) True ss) } }))"

subsection \<open>Sending what is pending\<close>

definition sub_wb_size :: "nat \<Rightarrow> int \<Rightarrow> 'w socket_server \<Rightarrow> 'w socket_server" where
  "sub_wb_size i n ss = upd_sock i (\<lambda>s. s\<lparr>sk_wb_size := sk_wb_size s - n\<rparr>) ss"

definition wb_sz :: "write_buffer \<Rightarrow> int" where "wb_sz wb = int (length (wb_rest wb))"

definition wb_advance :: "nat \<Rightarrow> write_buffer \<Rightarrow> write_buffer" where
  "wb_advance n wb = wb\<lparr>wb_ptr := wb_ptr wb + of_nat n, wb_rest := drop n (wb_rest wb)\<rparr>"

text \<open>Both loops of \<open>send_list_tcp\<close>: a \<open>write\<close> that was interrupted is repeated, for as long as that happens.\<close>

partial_function (option) send_list_tcp ::
  "'w kernel \<Rightarrow> nat \<Rightarrow> priority \<Rightarrow> 'w socket_server \<Rightarrow> (poll_code \<times> 'w socket_server) option" where
  "send_list_tcp K i p ss =
     (case get_list p (ss_slot ss i) of
        [] \<Rightarrow> Some (SOCKET_NOTHING, ss)
      | tmp # rest \<Rightarrow>
          (case sys_write K (sk_fd (ss_slot ss i)) (wb_rest tmp) ss of (r, ss) \<Rightarrow>
             (case r of
                IO_EINTR \<Rightarrow> send_list_tcp K i p ss
              | IO_EAGAIN \<Rightarrow> Some (SOCKET_NOTHING, ss)
              | IO_error e \<Rightarrow> do { ss \<leftarrow> force_close i ss; Some (SOCKET_CLOSE, ss) }
              | IO_ok n \<Rightarrow>
                  if int n \<noteq> wb_sz tmp
                  then Some (SOCKET_NOTHING, upd_sock i (set_list p (wb_advance n tmp # rest)) (sub_wb_size i (int n) ss))
                  else send_list_tcp K i p
                         (write_buffer_free tmp (upd_sock i (set_list p rest) (sub_wb_size i (int n) ss))))))"

text \<open>A UDP address: a byte for the protocol, the port, then the 4 or 16 bytes of the address.\<close>

definition udp_socket_address :: "socket \<Rightarrow> bytes \<Rightarrow> sockaddr_all option" where
  "udp_socket_address s udp_address =
     (if udp_address ! 0 \<noteq> protocol_byte (sk_protocol s) then None
      else case sk_protocol s of
        PROTOCOL_UDP \<Rightarrow> Some (Sockaddr_in (take 2 (drop 1 udp_address)) (take 4 (drop 3 udp_address)))
      | PROTOCOL_UDPv6 \<Rightarrow> Some (Sockaddr_in6 (take 2 (drop 1 udp_address)) (take 16 (drop 3 udp_address)))
      | PROTOCOL_TCP \<Rightarrow> None)"

text \<open>The list is an argument of the loop, so that the recursion is on it.\<close>

fun send_list_udp_loop ::
  "'w kernel \<Rightarrow> nat \<Rightarrow> priority \<Rightarrow> write_buffer list \<Rightarrow> 'w socket_server \<Rightarrow> poll_code \<times> 'w socket_server" where
  "send_list_udp_loop K i p [] ss = (SOCKET_NOTHING, ss)"
| "send_list_udp_loop K i p (tmp # rest) ss =
     (let s = ss_slot ss i;
          (r, ss) = sys_sendto K (sk_fd s) (wb_rest tmp) (udp_socket_address s (wb_udp_address tmp)) ss
      in case r of
           IO_EINTR \<Rightarrow> (SOCKET_NOTHING, ss)
         | IO_EAGAIN \<Rightarrow> (SOCKET_NOTHING, ss)
         | IO_error e \<Rightarrow> (SOCKET_NOTHING, print_error (''socket-server : udp ('' @ show_int (sk_id s) @ '') sendto error '' @ k_strerror K e) ss)
         | IO_ok n \<Rightarrow> send_list_udp_loop K i p rest
                        (write_buffer_free tmp (upd_sock i (set_list p rest) (sub_wb_size i (wb_sz tmp) ss))))"

definition send_list_udp :: "'w kernel \<Rightarrow> nat \<Rightarrow> priority \<Rightarrow> 'w socket_server \<Rightarrow> poll_code \<times> 'w socket_server" where
  "send_list_udp K i p ss = send_list_udp_loop K i p (get_list p (ss_slot ss i)) ss"

definition send_list :: "'w kernel \<Rightarrow> nat \<Rightarrow> priority \<Rightarrow> 'w socket_server \<Rightarrow> (poll_code \<times> 'w socket_server) option" where
  "send_list K i p ss =
     (if sk_protocol (ss_slot ss i) = PROTOCOL_TCP then send_list_tcp K i p ss else Some (send_list_udp K i p ss))"

definition list_uncomplete :: "write_buffer list \<Rightarrow> bool" where
  "list_uncomplete l = (case l of [] \<Rightarrow> False | wb # _ \<Rightarrow> wb_ptr wb \<noteq> blk_addr (wb_buffer wb))"

definition raise_uncomplete :: "nat \<Rightarrow> 'w socket_server \<Rightarrow> 'w socket_server option" where
  "raise_uncomplete i ss =
     (case sk_low (ss_slot ss i) of
        [] \<Rightarrow> None
      | tmp # rest \<Rightarrow>
          do { assert_opt (sk_high (ss_slot ss i) = []);
               Some (upd_sock i (\<lambda>s. s\<lparr>sk_low := rest, sk_high := [tmp]\<rparr>) ss) })"

definition send_buffer_empty :: "socket \<Rightarrow> bool" where
  "send_buffer_empty s \<longleftrightarrow> sk_high s = [] \<and> sk_low s = []"

text \<open>Step 4 of \<open>send_buffer\<close>, which both branches of step 2 reach.\<close>

definition send_buffer_done :: "nat \<Rightarrow> 'w socket_server \<Rightarrow> (poll_code \<times> 'w socket_server) option" where
  "send_buffer_done i ss =
     do { let s = ss_slot ss i;
          assert_opt (send_buffer_empty s \<and> sk_wb_size s = 0);
          let ss = sp_write (sk_fd s) False ss;
          if sk_type s = SOCKET_TYPE_HALFCLOSE then do { ss \<leftarrow> force_close i ss; Some (SOCKET_CLOSE, ss) }
          else if 0 < sk_warn_size s
          then Some (SOCKET_WARNING, put_result (sk_id s) (sk_opaque s) 0 Data_null
                                       (upd_sock i (\<lambda>s. s\<lparr>sk_warn_size := 0\<rparr>) ss))
          else Some (SOCKET_NOTHING, ss) }"

text \<open>Steps 2 to 4 with a low list that is not empty, then the whole of \<open>send_buffer\<close>.\<close>

definition send_low :: "'w kernel \<Rightarrow> nat \<Rightarrow> 'w socket_server \<Rightarrow> (poll_code \<times> 'w socket_server) option" where
  "send_low K i ss =
     do { (r, ss) \<leftarrow> send_list K i PRIORITY_LOW ss;
          if r = SOCKET_CLOSE then Some (SOCKET_CLOSE, ss)
          else if list_uncomplete (sk_low (ss_slot ss i))
          then do { ss \<leftarrow> raise_uncomplete i ss; Some (SOCKET_NOTHING, ss) }
          else send_buffer_done i ss }"

definition send_buffer :: "'w kernel \<Rightarrow> nat \<Rightarrow> 'w socket_server \<Rightarrow> (poll_code \<times> 'w socket_server) option" where
  "send_buffer K i ss =
     do { assert_opt (\<not> list_uncomplete (sk_low (ss_slot ss i)));
          (r, ss) \<leftarrow> send_list K i PRIORITY_HIGH ss;
          if r = SOCKET_CLOSE then Some (SOCKET_CLOSE, ss)
          else if sk_high (ss_slot ss i) \<noteq> [] then Some (SOCKET_NOTHING, ss)
          else if sk_low (ss_slot ss i) = [] then send_buffer_done i ss
          else send_low K i ss }"

text \<open>
  \<open>append_sendbuffer_\<close> and its three callers: the buffer, of which \<open>n\<close> bytes were already written, goes to the
  end of the list.
\<close>

definition append_buffer ::
  "nat \<Rightarrow> priority \<Rightarrow> request_send \<Rightarrow> nat \<Rightarrow> bytes \<Rightarrow> 'w socket_server \<Rightarrow> 'w socket_server option" where
  "append_buffer i p request n udp_address ss =
     do { so \<leftarrow> send_object_init (rs_buffer request) (rs_sz request) ss;
          data \<leftarrow> so_data so;
          let buf = \<lparr>wb_buffer = rs_buffer request, wb_ptr = blk_addr (so_buffer so) + of_nat n,
                     wb_rest = drop n data, wb_userobject = so_userobject so, wb_udp_address = udp_address\<rparr>;
          Some (upd_sock i (\<lambda>s. (set_list p (get_list p s @ [buf]) s)\<lparr>sk_wb_size := sk_wb_size s + wb_sz buf\<rparr>) ss) }"

definition append_sendbuffer_udp :: "nat \<Rightarrow> priority \<Rightarrow> request_send \<Rightarrow> bytes \<Rightarrow> 'w socket_server \<Rightarrow> 'w socket_server option" where
  "append_sendbuffer_udp i p request udp_address ss =
     append_buffer i p request 0 (take UDP_ADDRESS_SIZE udp_address) ss"

definition append_sendbuffer :: "nat \<Rightarrow> request_send \<Rightarrow> nat \<Rightarrow> 'w socket_server \<Rightarrow> 'w socket_server option" where
  "append_sendbuffer i request n ss = append_buffer i PRIORITY_HIGH request n [] ss"

definition append_sendbuffer_low :: "nat \<Rightarrow> request_send \<Rightarrow> 'w socket_server \<Rightarrow> 'w socket_server option" where
  "append_sendbuffer_low i request ss = append_buffer i PRIORITY_LOW request 0 [] ss"

text \<open>The default address of a UDP socket, unless the request has one.\<close>

definition udp_target :: "bytes option \<Rightarrow> socket \<Rightarrow> bytes option" where
  "udp_target udp_address s =
     (case udp_address of Some a \<Rightarrow> Some a
      | None \<Rightarrow> (case sk_p s of P_udp_address a \<Rightarrow> Some a | P_size _ \<Rightarrow> None))"

text \<open>The end of \<open>send_socket\<close>: a warning when more than a megabyte waits, and each time that amount has doubled.\<close>

definition send_warning :: "nat \<Rightarrow> 'w socket_server \<Rightarrow> poll_code \<times> 'w socket_server" where
  "send_warning i ss =
     (let s = ss_slot ss i
      in if WARNING_SIZE \<le> sk_wb_size s \<and> sk_warn_size s \<le> sk_wb_size s
         then (SOCKET_WARNING,
               put_result (sk_id s) (sk_opaque s)
                 (if sk_wb_size s mod 1024 = 0 then sk_wb_size s div 1024 else sk_wb_size s div 1024 + 1) Data_null
                 (upd_sock i (\<lambda>s. s\<lparr>sk_warn_size := (if sk_warn_size s = 0 then WARNING_SIZE * 2 else sk_warn_size s * 2)\<rparr>) ss))
         else (SOCKET_NOTHING, ss))"

text \<open>
  The branch of \<open>send_socket\<close> for an empty buffer of a connected socket: the packet is written at once, and what
  the kernel did not take is queued. \<open>Inl\<close> is a \<open>return\<close>, \<open>Inr\<close> goes on to the warning.
\<close>

definition send_direct ::
  "'w kernel \<Rightarrow> nat \<Rightarrow> request_send \<Rightarrow> send_object \<Rightarrow> priority \<Rightarrow> bytes option \<Rightarrow> 'w socket_server \<Rightarrow>
     ((poll_code \<times> 'w socket_server) + 'w socket_server) option" where
  "send_direct K i request so p udp_address ss =
     (let s = ss_slot ss i
      in if sk_protocol s = PROTOCOL_TCP
         then do { data \<leftarrow> so_data so;
                   let (r, ss) = sys_write K (sk_fd s) data ss;
                   (case r of
                      IO_error e \<Rightarrow>
                        do { ss \<leftarrow> force_close i (print_error (''socket-server: write to '' @ show_int (rs_id request)
                                    @ '' (fd='' @ show_int (sk_fd s) @ '') error :'' @ k_strerror K e) ss);
                             Some (Inl (SOCKET_CLOSE, so_free (so_userobject so) (rs_buffer request) ss)) }
                    | _ \<Rightarrow>
                        do { let n = (case r of IO_ok n \<Rightarrow> n | _ \<Rightarrow> 0);
                             if int n = so_sz so
                             then Some (Inl (SOCKET_NOTHING, so_free (so_userobject so) (rs_buffer request) ss))
                             else do { ss \<leftarrow> append_sendbuffer i request n ss;
                                       Some (Inr (sp_write (sk_fd s) True ss)) } }) }
         else do { data \<leftarrow> so_data so;
                   a \<leftarrow> udp_target udp_address s;
                   let (r, ss) = sys_sendto K (sk_fd s) data (udp_socket_address s a) ss;
                   (if (case r of IO_ok n \<Rightarrow> int n \<noteq> so_sz so | _ \<Rightarrow> True)
                    then do { ss \<leftarrow> append_sendbuffer_udp i p request a ss;
                              Some (Inr (sp_write (sk_fd s) True ss)) }
                    else Some (Inl (SOCKET_NOTHING, so_free (so_userobject so) (rs_buffer request) ss))) })"

definition send_queued ::
  "nat \<Rightarrow> request_send \<Rightarrow> priority \<Rightarrow> bytes option \<Rightarrow> 'w socket_server \<Rightarrow> 'w socket_server option" where
  "send_queued i request p udp_address ss =
     (if sk_protocol (ss_slot ss i) = PROTOCOL_TCP
      then (case p of PRIORITY_LOW \<Rightarrow> append_sendbuffer_low i request ss
                    | PRIORITY_HIGH \<Rightarrow> append_sendbuffer i request 0 ss)
      else do { a \<leftarrow> udp_target udp_address (ss_slot ss i); append_sendbuffer_udp i p request a ss })"

definition send_socket ::
  "'w kernel \<Rightarrow> request_send \<Rightarrow> priority \<Rightarrow> bytes option \<Rightarrow> 'w socket_server \<Rightarrow> (poll_code \<times> 'w socket_server) option" where
  "send_socket K request p udp_address ss =
     do { let i = HASH_ID (rs_id request);
          let s = ss_slot ss i;
          so \<leftarrow> send_object_init (rs_buffer request) (rs_sz request) ss;
          if sk_type s = SOCKET_TYPE_INVALID \<or> sk_id s \<noteq> rs_id request \<or> sk_type s = SOCKET_TYPE_HALFCLOSE
             \<or> sk_type s = SOCKET_TYPE_PACCEPT
          then Some (SOCKET_NOTHING, so_free (so_userobject so) (rs_buffer request) ss)
          else if sk_type s = SOCKET_TYPE_PLISTEN \<or> sk_type s = SOCKET_TYPE_LISTEN
          then Some (SOCKET_NOTHING, so_free (so_userobject so) (rs_buffer request)
                 (print_error (''socket-server: write to listen fd '' @ show_int (rs_id request) @ ''.'') ss))
          else if send_buffer_empty s \<and> sk_type s = SOCKET_TYPE_CONNECTED
          then do { r \<leftarrow> send_direct K i request so p udp_address ss;
                    (case r of Inl ret \<Rightarrow> Some ret | Inr ss \<Rightarrow> Some (send_warning i ss)) }
          else do { ss \<leftarrow> send_queued i request p udp_address ss; Some (send_warning i ss) } }"

subsection \<open>The requests of the pipe\<close>

definition listen_socket :: "'w kernel \<Rightarrow> int \<Rightarrow> int \<Rightarrow> u64 \<Rightarrow> 'w socket_server \<Rightarrow> (poll_code \<times> 'w socket_server) option" where
  "listen_socket K i listen_fd opaque ss =
     do { (s, ss) \<leftarrow> new_fd K i listen_fd PROTOCOL_TCP opaque False ss;
          if s then Some (SOCKET_NOTHING, set_type (HASH_ID i) SOCKET_TYPE_PLISTEN ss)
          else Some (SOCKET_ERR, set_type (HASH_ID i) SOCKET_TYPE_INVALID
                                   (put_result i opaque 0 number_limit (close_fd listen_fd ss))) }"

definition close_socket :: "'w kernel \<Rightarrow> int \<Rightarrow> bool \<Rightarrow> u64 \<Rightarrow> 'w socket_server \<Rightarrow> (poll_code \<times> 'w socket_server) option" where
  "close_socket K i shutdown opaque ss =
     (let k = HASH_ID i; s = ss_slot ss k
      in if sk_type s = SOCKET_TYPE_INVALID \<or> sk_id s \<noteq> i
         then Some (SOCKET_CLOSE, put_result i opaque 0 Data_null ss)
         else do { (r, ss) \<leftarrow> (if send_buffer_empty s then Some (SOCKET_NOTHING, ss) else send_buffer K k ss);
                   if r \<noteq> SOCKET_NOTHING \<and> r \<noteq> SOCKET_WARNING then Some (r, ss)
                   else if shutdown \<or> send_buffer_empty (ss_slot ss k)
                   then do { ss \<leftarrow> force_close k ss;
                             Some (SOCKET_CLOSE, ss\<lparr>ss_result := (ss_result ss)\<lparr>pm_id := i, pm_opaque := opaque\<rparr>\<rparr>) }
                   else Some (SOCKET_NOTHING, set_type k SOCKET_TYPE_HALFCLOSE ss) })"

definition bind_socket :: "'w kernel \<Rightarrow> int \<Rightarrow> int \<Rightarrow> u64 \<Rightarrow> 'w socket_server \<Rightarrow> (poll_code \<times> 'w socket_server) option" where
  "bind_socket K i fd opaque ss =
     do { (s, ss) \<leftarrow> new_fd K i fd PROTOCOL_TCP opaque True ss;
          if \<not> s then Some (SOCKET_ERR, put_result i opaque 0 number_limit ss)
          else Some (SOCKET_OPEN, put_result i opaque 0 (Data_text ''binding'')
                                    (set_type (HASH_ID i) SOCKET_TYPE_BIND (sp_nonblocking fd ss))) }"

definition start_socket :: "'w kernel \<Rightarrow> int \<Rightarrow> u64 \<Rightarrow> 'w socket_server \<Rightarrow> (poll_code \<times> 'w socket_server) option" where
  "start_socket K i opaque ss =
     (let k = HASH_ID i; s = ss_slot ss k; ss = put_result i opaque 0 Data_null ss
      in if sk_type s = SOCKET_TYPE_INVALID \<or> sk_id s \<noteq> i
         then Some (SOCKET_ERR, set_data (Data_text ''invalid socket'') ss)
         else if sk_type s = SOCKET_TYPE_PACCEPT \<or> sk_type s = SOCKET_TYPE_PLISTEN
         then (case sp_add K (sk_fd s) ss of (failed, ss) \<Rightarrow>
                 if failed
                 then do { ss \<leftarrow> force_close k ss;
                           Some (SOCKET_ERR, set_data (Data_text (k_strerror K (k_errno K (ss_world ss)))) ss) }
                 else Some (SOCKET_OPEN, set_data (Data_text ''start'')
                        (upd_sock k (\<lambda>s. s\<lparr>sk_type := (if sk_type s = SOCKET_TYPE_PACCEPT then SOCKET_TYPE_CONNECTED
                                                         else SOCKET_TYPE_LISTEN), sk_opaque := opaque\<rparr>) ss)))
         else if sk_type s = SOCKET_TYPE_CONNECTED
         then Some (SOCKET_OPEN, set_data (Data_text ''transfer'') (upd_sock k (\<lambda>s. s\<lparr>sk_opaque := opaque\<rparr>) ss))
         else Some (SOCKET_NOTHING, ss))"

definition setopt_socket :: "int \<Rightarrow> int \<Rightarrow> int \<Rightarrow> 'w socket_server \<Rightarrow> 'w socket_server" where
  "setopt_socket i what v ss =
     (let s = ss_slot ss (HASH_ID i)
      in if sk_type s = SOCKET_TYPE_INVALID \<or> sk_id s \<noteq> i then ss
         else sys_do (Sys_setsockopt (sk_fd s) what v) ss)"

definition has_cmd :: "'w kernel \<Rightarrow> 'w socket_server \<Rightarrow> bool \<times> 'w socket_server" where
  "has_cmd K ss = (let (ok, ss) = sys_ask (k_select K) ss in (ok \<and> ss_pipe ss \<noteq> [], ss))"

definition add_udp_socket :: "'w kernel \<Rightarrow> int \<Rightarrow> int \<Rightarrow> bool \<Rightarrow> u64 \<Rightarrow> 'w socket_server \<Rightarrow> 'w socket_server option" where
  "add_udp_socket K i fd v6 opaque ss =
     do { (ns, ss) \<leftarrow> new_fd K i fd (if v6 then PROTOCOL_UDPv6 else PROTOCOL_UDP) opaque True ss;
          if \<not> ns then Some (set_type (HASH_ID i) SOCKET_TYPE_INVALID (close_fd fd ss))
          else Some (upd_sock (HASH_ID i) (\<lambda>s. s\<lparr>sk_type := SOCKET_TYPE_CONNECTED,
                       sk_p := P_udp_address (replicate UDP_ADDRESS_SIZE 0)\<rparr>) ss) }"

text \<open>The copy overwrites the first 7 or 19 bytes of the member \<open>udp_address\<close> of the union.\<close>

definition overwrite :: "bytes \<Rightarrow> bytes \<Rightarrow> bytes" where
  "overwrite new old = new @ drop (length new) old"

definition set_udp_address :: "int \<Rightarrow> bytes \<Rightarrow> 'w socket_server \<Rightarrow> (poll_code \<times> 'w socket_server) option" where
  "set_udp_address i address ss =
     (let k = HASH_ID i; s = ss_slot ss k
      in if sk_type s = SOCKET_TYPE_INVALID \<or> sk_id s \<noteq> i then Some (SOCKET_NOTHING, ss)
         else if address ! 0 \<noteq> protocol_byte (sk_protocol s)
         then Some (SOCKET_ERR, put_result (sk_id s) (sk_opaque s) 0 (Data_text ''protocol mismatch'') ss)
         else case sk_p s of
           P_size _ \<Rightarrow> None
         | P_udp_address old \<Rightarrow>
             Some (SOCKET_NOTHING,
               upd_sock k (\<lambda>s. s\<lparr>sk_p := P_udp_address (overwrite (take (if address ! 0 = 1 then 7 else 19) address) old)\<rparr>) ss))"

text \<open>
  \<open>ctrl_cmd\<close> reads a header and as many bytes as it says; a length that is not that of the request would leave
  part of it behind, which is undefined.
\<close>

definition ctrl_cmd :: "'w kernel \<Rightarrow> 'w socket_server \<Rightarrow> (poll_code \<times> 'w socket_server) option" where
  "ctrl_cmd K ss =
     (case ss_pipe ss of
        [] \<Rightarrow> None
      | (type, len, request) # rest \<Rightarrow>
          do { let ss = ss\<lparr>ss_pipe := rest\<rparr>;
               assert_opt (type = request_type request \<and> unat len = request_size request);
               (case request of
                  Req_start i opaque \<Rightarrow> start_socket K i opaque ss
                | Req_bind i fd opaque \<Rightarrow> bind_socket K i fd opaque ss
                | Req_listen i fd opaque \<Rightarrow> listen_socket K i fd opaque ss
                | Req_close i shutdown opaque \<Rightarrow> close_socket K i shutdown opaque ss
                | Req_open i port opaque host \<Rightarrow> open_socket K i port opaque host ss
                | Req_exit \<Rightarrow> Some (SOCKET_EXIT, put_result 0 0 0 Data_null ss)
                | Req_send p rs \<Rightarrow> send_socket K rs p None ss
                | Req_send_udp rs address \<Rightarrow> send_socket K rs PRIORITY_HIGH (Some address) ss
                | Req_setudp i address \<Rightarrow> set_udp_address i address ss
                | Req_setopt i what v \<Rightarrow> Some (SOCKET_NOTHING, setopt_socket i what v ss)
                | Req_udp i fd v6 opaque \<Rightarrow>
                    do { ss \<leftarrow> add_udp_socket K i fd v6 opaque ss; Some (SOCKET_NOTHING, ss) }) })"

subsection \<open>Events\<close>

text \<open>The size of the next read, doubled after a full one and halved after one that filled less than half.\<close>

definition next_read_size :: "int \<Rightarrow> int \<Rightarrow> int option" where
  "next_read_size sz n =
     (if n = sz then do { assert_opt (sz * 2 < 2 ^ 31); Some (sz * 2) }
      else Some (if MIN_READ_BUFFER < sz \<and> n * 2 < sz then sz div 2 else sz))"

definition forward_message_tcp :: "'w kernel \<Rightarrow> nat \<Rightarrow> 'w socket_server \<Rightarrow> (poll_code \<times> 'w socket_server) option" where
  "forward_message_tcp K i ss =
     (let s = ss_slot ss i
      in case sk_p s of
           P_udp_address _ \<Rightarrow> None
         | P_size sz \<Rightarrow>
             (case sys_ask (\<lambda>w. k_read K w (sk_fd s) sz) ss of (r, ss) \<Rightarrow>
                (case r of
                   IO_EINTR \<Rightarrow> Some (SOCKET_NOTHING, ss)
                 | IO_EAGAIN \<Rightarrow> Some (SOCKET_NOTHING, print_error ''socket-server: EAGAIN capture.'' ss)
                 | IO_error e \<Rightarrow>
                     do { ss \<leftarrow> force_close i ss;
                          Some (SOCKET_ERR, set_data (Data_text (k_strerror K e)) ss) }
                 | IO_ok buffer \<Rightarrow>
                     if buffer = [] then do { ss \<leftarrow> force_close i ss; Some (SOCKET_CLOSE, ss) }
                     else if sk_type s = SOCKET_TYPE_HALFCLOSE then Some (SOCKET_NOTHING, ss)
                     else do { sz' \<leftarrow> next_read_size sz (int (length buffer));
                               Some (SOCKET_DATA, put_result (sk_id s) (sk_opaque s) (int (length buffer)) (Data_bytes buffer)
                                 (upd_sock i (\<lambda>s. s\<lparr>sk_p := P_size sz'\<rparr>) ss)) })))"

fun gen_udp_address :: "protocol \<Rightarrow> sockaddr_all \<Rightarrow> bytes" where
  "gen_udp_address protocol (Sockaddr_in port addr) = protocol_byte protocol # port @ addr"
| "gen_udp_address protocol (Sockaddr_in6 port addr) = protocol_byte protocol # port @ addr"

definition forward_message_udp :: "'w kernel \<Rightarrow> nat \<Rightarrow> 'w socket_server \<Rightarrow> (poll_code \<times> 'w socket_server) option" where
  "forward_message_udp K i ss =
     (let s = ss_slot ss i
      in case sys_ask (\<lambda>w. k_recvfrom K w (sk_fd s)) ss of (r, ss) \<Rightarrow>
           (case r of
              IO_EINTR \<Rightarrow> Some (SOCKET_NOTHING, ss)
            | IO_EAGAIN \<Rightarrow> Some (SOCKET_NOTHING, ss)
            | IO_error e \<Rightarrow>
                do { ss \<leftarrow> force_close i ss; Some (SOCKET_ERR, set_data (Data_text (k_strerror K e)) ss) }
            | IO_ok (buffer, sa) \<Rightarrow>
                (let protocol = (if is_v6 sa then PROTOCOL_UDPv6 else PROTOCOL_UDP)
                 in if sk_protocol s \<noteq> protocol then Some (SOCKET_NOTHING, ss)
                    else Some (SOCKET_UDP, put_result (sk_id s) (sk_opaque s) (int (length buffer))
                                 (Data_bytes (buffer @ gen_udp_address protocol sa)) ss))))"

definition report_connect :: "'w kernel \<Rightarrow> nat \<Rightarrow> 'w socket_server \<Rightarrow> (poll_code \<times> 'w socket_server) option" where
  "report_connect K i ss =
     (let s = ss_slot ss i
      in case sys_ask (\<lambda>w. k_so_error K w (sk_fd s)) ss of (r, ss) \<Rightarrow>
           if r \<noteq> Inr 0
           then do { ss \<leftarrow> force_close i ss;
                     Some (SOCKET_ERR, set_data (Data_text (k_strerror K (case r of Inl e \<Rightarrow> e | Inr e \<Rightarrow> e))) ss) }
           else do { let ss = set_type i SOCKET_TYPE_CONNECTED ss;
                     let ss = (if send_buffer_empty s then sp_write (sk_fd s) False ss else ss);
                     let (u, ss) = sys_ask (\<lambda>w. k_getpeername K w (sk_fd s)) ss;
                     Some (SOCKET_OPEN, put_result (sk_id s) (sk_opaque s) 0
                       (case u of
                          Some sa \<Rightarrow> (case k_inet_ntop K sa of Some t \<Rightarrow> Data_text t | None \<Rightarrow> Data_null)
                        | None \<Rightarrow> Data_null) ss) })"

text \<open>\<open>ntohs\<close> reads the two bytes of a port in network order.\<close>

definition sa_port :: "sockaddr_all \<Rightarrow> int" where
  "sa_port sa = (let p = (case sa of Sockaddr_in p _ \<Rightarrow> p | Sockaddr_in6 p _ \<Rightarrow> p)
                 in int (unat (p ! 0) * 256 + unat (p ! 1)))"

datatype accept_code = Accept_ok | Accept_retry | Accept_filelimit

definition report_accept :: "'w kernel \<Rightarrow> nat \<Rightarrow> 'w socket_server \<Rightarrow> (accept_code \<times> 'w socket_server) option" where
  "report_accept K i ss =
     (let s = ss_slot ss i
      in case sys_ask (\<lambda>w. k_accept K w (sk_fd s)) ss of (r, ss) \<Rightarrow>
           (case r of
              Accept_limit e \<Rightarrow>
                Some (Accept_filelimit, put_result (sk_id s) (sk_opaque s) 0 (Data_text (k_strerror K e)) ss)
            | Accept_failed \<Rightarrow> Some (Accept_retry, ss)
            | Accepted client_fd u \<Rightarrow>
                (case reserve_id ss of (j, ss) \<Rightarrow>
                   if j < 0 then Some (Accept_retry, close_fd client_fd ss)
                   else do { let ss = sp_nonblocking client_fd (socket_keepalive client_fd ss);
                             (ns, ss) \<leftarrow> new_fd K j client_fd PROTOCOL_TCP (sk_opaque s) False ss;
                             if \<not> ns then Some (Accept_retry, close_fd client_fd ss)
                             else Some (Accept_ok, put_result (sk_id s) (sk_opaque s) j
                               (case k_inet_ntop K u of
                                  Some t \<Rightarrow> Data_text (take (MAX_INFO - 1) (t @ '':'' @ show_int (sa_port u)))
                                | None \<Rightarrow> Data_null)
                               (set_type (HASH_ID j) SOCKET_TYPE_PACCEPT ss)) })))"

text \<open>The loop of \<open>clear_closed_event\<close> over the events from \<open>event_index\<close>, which ends at the first one it clears.\<close>

fun clear_event :: "(nat \<Rightarrow> socket) \<Rightarrow> int \<Rightarrow> event list \<Rightarrow> event list" where
  "clear_event slot i [] = []"
| "clear_event slot i (e # es) =
     (case ev_s e of
        Some k \<Rightarrow> if sk_type (slot k) = SOCKET_TYPE_INVALID \<and> sk_id (slot k) = i
                  then e\<lparr>ev_s := None\<rparr> # es else e # clear_event slot i es
      | None \<Rightarrow> e # clear_event slot i es)"

definition clear_closed_event :: "poll_code \<Rightarrow> 'w socket_server \<Rightarrow> 'w socket_server" where
  "clear_closed_event type ss =
     (if type = SOCKET_CLOSE \<or> type = SOCKET_ERR
      then ss\<lparr>ss_ev := take (ss_event_index ss) (ss_ev ss) @
                clear_event (ss_slot ss) (pm_id (ss_result ss)) (drop (ss_event_index ss) (ss_ev ss))\<rparr>
      else ss)"

text \<open>
  The body of the loop of \<open>socket_server_poll\<close> for one event of a socket: \<open>SOCKET_NOTHING\<close> goes on with the loop.
  \<open>k\<close> is the index of the event, which the caller has already stepped over.
\<close>

definition poll_socket :: "'w kernel \<Rightarrow> nat \<Rightarrow> event \<Rightarrow> nat \<Rightarrow> 'w socket_server \<Rightarrow> (poll_code \<times> 'w socket_server) option" where
  "poll_socket K k e i ss =
     (let s = ss_slot ss i
      in case sk_type s of
           SOCKET_TYPE_CONNECTING \<Rightarrow> report_connect K i ss
         | SOCKET_TYPE_LISTEN \<Rightarrow>
             do { (ok, ss) \<leftarrow> report_accept K i ss;
                  Some (case ok of Accept_ok \<Rightarrow> SOCKET_ACCEPT | Accept_filelimit \<Rightarrow> SOCKET_ERR | Accept_retry \<Rightarrow> SOCKET_NOTHING, ss) }
         | SOCKET_TYPE_INVALID \<Rightarrow> Some (SOCKET_NOTHING, print_error ''socket-server: invalid socket'' ss)
         | _ \<Rightarrow>
             if ev_read e
             then do { (r, ss) \<leftarrow> (if sk_protocol s = PROTOCOL_TCP then forward_message_tcp K i ss
                                   else forward_message_udp K i ss);
                       if sk_protocol s \<noteq> PROTOCOL_TCP \<and> r = SOCKET_UDP
                       then Some (SOCKET_UDP, ss\<lparr>ss_event_index := k\<rparr>)
                       else if ev_write e \<and> r \<noteq> SOCKET_CLOSE \<and> r \<noteq> SOCKET_ERR
                       then Some (r, ss\<lparr>ss_ev := (ss_ev ss)[k := e\<lparr>ev_read := False\<rparr>], ss_event_index := k\<rparr>)
                       else Some (r, ss) }
             else if ev_write e then send_buffer K i ss
             else Some (SOCKET_NOTHING, ss))"

text \<open>One round of the loop: \<open>Inl\<close> goes round again, \<open>Inr\<close> returns; first its part for the next event.\<close>

definition poll_event ::
  "'w kernel \<Rightarrow> bool \<Rightarrow> 'w socket_server \<Rightarrow> ((bool \<times> 'w socket_server) + (poll_code \<times> bool \<times> 'w socket_server)) option" where
  "poll_event K pend ss =
     do { let k = ss_event_index ss;
          e \<leftarrow> array_get (ss_ev ss) k;
          let ss = ss\<lparr>ss_event_index := Suc k\<rparr>;
          (case ev_s e of
             None \<Rightarrow> Some (Inl (pend, ss))
           | Some i \<Rightarrow>
               do { (type, ss) \<leftarrow> poll_socket K k e i ss;
                    Some (if type = SOCKET_NOTHING then Inl (pend, ss) else Inr (type, pend, ss)) }) }"

definition poll_round ::
  "'w kernel \<Rightarrow> bool \<Rightarrow> 'w socket_server \<Rightarrow> ((bool \<times> 'w socket_server) + (poll_code \<times> bool \<times> 'w socket_server)) option" where
  "poll_round K pend ss =
     (case (if ss_checkctrl ss then has_cmd K ss else (False, ss)) of (cmd, ss) \<Rightarrow>
        if cmd
        then do { (type, ss) \<leftarrow> ctrl_cmd K ss;
                  if type \<noteq> SOCKET_NOTHING then Some (Inr (type, pend, clear_closed_event type ss))
                  else Some (Inl (pend, ss)) }
        else do { let ss = ss\<lparr>ss_checkctrl := False\<rparr>;
                  if ss_event_index ss \<noteq> length (ss_ev ss) then poll_event K pend ss
                  else (case sp_wait K ss of ((ev, eintr), ss) \<Rightarrow>
                          let ss = ss\<lparr>ss_ev := ev, ss_checkctrl := True, ss_event_index := 0\<rparr>
                          in if ev = [] then Some (if eintr then Inl (False, ss) else Inr (SOCKET_NOTHING, False, ss))
                             else poll_event K False ss) })"

partial_function (option) socket_server_poll ::
  "'w kernel \<Rightarrow> bool \<Rightarrow> 'w socket_server \<Rightarrow> (poll_code \<times> bool \<times> 'w socket_server) option" where
  "socket_server_poll K pend ss =
     Option.bind (poll_round K pend ss)
       (\<lambda>r. case r of Inl (pend, ss) \<Rightarrow> socket_server_poll K pend ss | Inr ret \<Rightarrow> Some ret)"

subsection \<open>What the other threads call\<close>

text \<open>The length is one byte of the header. The write to the pipe is repeated until it succeeds.\<close>

definition send_request :: "request \<Rightarrow> 'w socket_server \<Rightarrow> 'w socket_server" where
  "send_request r ss = ss\<lparr>ss_pipe := ss_pipe ss @ [(request_type r, of_nat (request_size r), r)]\<rparr>"

definition open_request ::
  "u64 \<Rightarrow> string \<Rightarrow> int \<Rightarrow> 'w socket_server \<Rightarrow> request option \<times> int \<times> 'w socket_server" where
  "open_request opaque addr port ss =
     (if 256 \<le> length addr + 24 then (None, - 1, print_error (''socket-server : Invalid addr '' @ addr @ ''.'') ss)
      else case reserve_id ss of (i, ss) \<Rightarrow>
        if i < 0 then (None, - 1, ss) else (Some (Req_open i port opaque addr), i, ss))"

definition socket_server_connect :: "u64 \<Rightarrow> string \<Rightarrow> int \<Rightarrow> 'w socket_server \<Rightarrow> int \<times> 'w socket_server" where
  "socket_server_connect opaque addr port ss =
     (case open_request opaque addr port ss of
        (None, _, ss) \<Rightarrow> (- 1, ss)
      | (Some r, i, ss) \<Rightarrow> (i, send_request r ss))"

definition free_buffer :: "mblock \<Rightarrow> int \<Rightarrow> 'w socket_server \<Rightarrow> 'w socket_server option" where
  "free_buffer buffer sz ss =
     do { so \<leftarrow> send_object_init buffer sz ss; Some (so_free (so_userobject so) buffer ss) }"

definition server_send :: "priority \<Rightarrow> int \<Rightarrow> mblock \<Rightarrow> int \<Rightarrow> 'w socket_server \<Rightarrow> (int \<times> 'w socket_server) option" where
  "server_send p i buffer sz ss =
     (let s = ss_slot ss (HASH_ID i)
      in if sk_id s \<noteq> i \<or> sk_type s = SOCKET_TYPE_INVALID
         then do { ss \<leftarrow> free_buffer buffer sz ss; Some (- 1, ss) }
         else Some (0, send_request (Req_send p \<lparr>rs_id = i, rs_sz = sz, rs_buffer = buffer\<rparr>) ss))"

definition socket_server_send :: "int \<Rightarrow> mblock \<Rightarrow> int \<Rightarrow> 'w socket_server \<Rightarrow> (int \<times> 'w socket_server) option" where
  "socket_server_send i buffer sz ss = server_send PRIORITY_HIGH i buffer sz ss"

definition socket_server_send_lowpriority :: "int \<Rightarrow> mblock \<Rightarrow> int \<Rightarrow> 'w socket_server \<Rightarrow> (int \<times> 'w socket_server) option" where
  "socket_server_send_lowpriority i buffer sz ss = server_send PRIORITY_LOW i buffer sz ss"

definition socket_server_exit :: "'w socket_server \<Rightarrow> 'w socket_server" where
  "socket_server_exit ss = send_request Req_exit ss"

definition socket_server_close :: "u64 \<Rightarrow> int \<Rightarrow> 'w socket_server \<Rightarrow> 'w socket_server" where
  "socket_server_close opaque i ss = send_request (Req_close i False opaque) ss"

definition socket_server_shutdown :: "u64 \<Rightarrow> int \<Rightarrow> 'w socket_server \<Rightarrow> 'w socket_server" where
  "socket_server_shutdown opaque i ss = send_request (Req_close i True opaque) ss"

text \<open>The descriptor that is bound, or \<open>-1\<close>, and whether its family is IPv6; \<open>host\<close> is \<open>None\<close> for \<open>NULL\<close>.\<close>

definition do_bind ::
  "'w kernel \<Rightarrow> string option \<Rightarrow> int \<Rightarrow> bool \<Rightarrow> 'w socket_server \<Rightarrow> (int \<times> bool \<times> 'w socket_server) option" where
  "do_bind K host port tcp ss =
     (let host = (case host of None \<Rightarrow> ''0.0.0.0'' | Some h \<Rightarrow> if h = [] then ''0.0.0.0'' else h);
          (ai, ss) = sys_ask (\<lambda>w. k_getaddrinfo K w host port tcp) ss
      in case ai of
           Inl _ \<Rightarrow> Some (- 1, False, ss)
         | Inr [] \<Rightarrow> None
         | Inr (ai # _) \<Rightarrow>
             (case sys_ask (\<lambda>w. k_socket K w (is_v6 ai) tcp) ss of (fd, ss) \<Rightarrow>
                if fd < 0 then Some (- 1, is_v6 ai, ss)
                else case sys_ask (\<lambda>w. k_reuseaddr K w fd) ss of (ok, ss) \<Rightarrow>
                  if \<not> ok then Some (- 1, is_v6 ai, close_fd fd ss)
                  else case sys_ask (\<lambda>w. k_bind K w fd ai) ss of (ok, ss) \<Rightarrow>
                    if \<not> ok then Some (- 1, is_v6 ai, close_fd fd ss) else Some (fd, is_v6 ai, ss)))"

definition do_listen ::
  "'w kernel \<Rightarrow> string option \<Rightarrow> int \<Rightarrow> int \<Rightarrow> 'w socket_server \<Rightarrow> (int \<times> 'w socket_server) option" where
  "do_listen K host port backlog ss =
     do { (listen_fd, _, ss) \<leftarrow> do_bind K host port True ss;
          if listen_fd < 0 then Some (- 1, ss)
          else (case sys_ask (\<lambda>w. k_listen K w listen_fd backlog) ss of (ok, ss) \<Rightarrow>
                  Some (if ok then (listen_fd, ss) else (- 1, close_fd listen_fd ss))) }"

definition socket_server_listen ::
  "'w kernel \<Rightarrow> u64 \<Rightarrow> string option \<Rightarrow> int \<Rightarrow> int \<Rightarrow> 'w socket_server \<Rightarrow> (int \<times> 'w socket_server) option" where
  "socket_server_listen K opaque addr port backlog ss =
     do { (fd, ss) \<leftarrow> do_listen K addr port backlog ss;
          if fd < 0 then Some (- 1, ss)
          else (case reserve_id ss of (i, ss) \<Rightarrow>
                  Some (if i < 0 then (i, close_fd fd ss) else (i, send_request (Req_listen i fd opaque) ss))) }"

definition socket_server_bind :: "u64 \<Rightarrow> int \<Rightarrow> 'w socket_server \<Rightarrow> int \<times> 'w socket_server" where
  "socket_server_bind opaque fd ss =
     (case reserve_id ss of (i, ss) \<Rightarrow>
        if i < 0 then (- 1, ss) else (i, send_request (Req_bind i fd opaque) ss))"

definition socket_server_start :: "u64 \<Rightarrow> int \<Rightarrow> 'w socket_server \<Rightarrow> 'w socket_server" where
  "socket_server_start opaque i ss = send_request (Req_start i opaque) ss"

definition TCP_NODELAY :: int where "TCP_NODELAY = 1"

definition socket_server_nodelay :: "int \<Rightarrow> 'w socket_server \<Rightarrow> 'w socket_server" where
  "socket_server_nodelay i ss = send_request (Req_setopt i TCP_NODELAY 1) ss"

definition socket_server_userobject :: "socket_object_interface \<Rightarrow> 'w socket_server \<Rightarrow> 'w socket_server" where
  "socket_server_userobject soi ss = ss\<lparr>ss_soi := Some soi\<rparr>"

text \<open>The descriptor of a new UDP socket and whether it is IPv6.\<close>

definition udp_fd ::
  "'w kernel \<Rightarrow> string option \<Rightarrow> int \<Rightarrow> 'w socket_server \<Rightarrow> (int \<times> bool \<times> 'w socket_server) option" where
  "udp_fd K addr port ss =
     (if port \<noteq> 0 \<or> addr \<noteq> None then do_bind K addr port False ss
      else case sys_ask (\<lambda>w. k_socket K w False False) ss of (fd, ss) \<Rightarrow> Some (fd, False, ss))"

definition socket_server_udp ::
  "'w kernel \<Rightarrow> u64 \<Rightarrow> string option \<Rightarrow> int \<Rightarrow> 'w socket_server \<Rightarrow> (int \<times> 'w socket_server) option" where
  "socket_server_udp K opaque addr port ss =
     do { (fd, v6, ss) \<leftarrow> udp_fd K addr port ss;
          if fd < 0 then Some (- 1, ss)
          else (case reserve_id (sp_nonblocking fd ss) of (i, ss) \<Rightarrow>
                  Some (if i < 0 then (- 1, close_fd fd ss) else (i, send_request (Req_udp i fd v6 opaque) ss))) }"

text \<open>The size of an address by its first byte; other values are no address.\<close>

definition udp_address_size :: "u8 \<Rightarrow> nat option" where
  "udp_address_size b = (if b = 1 then Some 7 else if b = 2 then Some 19 else None)"

definition socket_server_udp_send ::
  "int \<Rightarrow> bytes \<Rightarrow> mblock \<Rightarrow> int \<Rightarrow> 'w socket_server \<Rightarrow> (int \<times> 'w socket_server) option" where
  "socket_server_udp_send i addr buffer sz ss =
     (let s = ss_slot ss (HASH_ID i)
      in if sk_id s \<noteq> i \<or> sk_type s = SOCKET_TYPE_INVALID
         then do { ss \<leftarrow> free_buffer buffer sz ss; Some (- 1, ss) }
         else case udp_address_size (addr ! 0) of
           None \<Rightarrow> do { ss \<leftarrow> free_buffer buffer sz ss; Some (- 1, ss) }
         | Some addrsz \<Rightarrow>
             do { assert_opt (addrsz \<le> length addr);
                  Some (0, send_request (Req_send_udp \<lparr>rs_id = i, rs_sz = sz, rs_buffer = buffer\<rparr> (take addrsz addr)) ss) })"

definition socket_server_udp_connect ::
  "'w kernel \<Rightarrow> int \<Rightarrow> string \<Rightarrow> int \<Rightarrow> 'w socket_server \<Rightarrow> (int \<times> 'w socket_server) option" where
  "socket_server_udp_connect K i addr port ss =
     (case sys_ask (\<lambda>w. k_getaddrinfo K w addr port False) ss of (ai, ss) \<Rightarrow>
        (case ai of
           Inl _ \<Rightarrow> Some (- 1, ss)
         | Inr [] \<Rightarrow> None
         | Inr (sa # _) \<Rightarrow>
             Some (0, send_request (Req_setudp i (gen_udp_address (if is_v6 sa then PROTOCOL_UDPv6 else PROTOCOL_UDP) sa)) ss)))"

text \<open>The address behind the \<open>ud\<close> bytes of a UDP message.\<close>

definition socket_server_udp_address :: "bytes \<Rightarrow> int \<Rightarrow> bytes option option" where
  "socket_server_udp_address data ud =
     do { address \<leftarrow> (if nat ud < length data then Some (drop (nat ud) data) else None);
          Some (case udp_address_size (address ! 0) of None \<Rightarrow> None | Some addrsz \<Rightarrow> Some (take addrsz address)) }"

end
