(* ===== verification/Socket_Stream.thy ===== *)
theory Socket_Stream
  imports Socket_Server
begin

section \<open>What leaves a socket\<close>

named_theorems ss_defs \<open>accessors of the socket server\<close>

lemmas [ss_defs] = upd_sock_def set_type_def put_result_def set_data_def sys_do_def sys_ask_def so_free_def
  write_buffer_free_def sub_wb_size_def sp_write_def sp_del_def close_fd_def print_error_def

subsection \<open>The loops that send\<close>

text \<open>The documented behaviour of \<open>write\<close>: it takes at most as many bytes as it is given.\<close>

definition write_bounded :: "'w kernel \<Rightarrow> bool" where
  "write_bounded K \<longleftrightarrow> (\<forall>w fd data n w'. k_write K w fd data = (IO_ok n, w') \<longrightarrow> n \<le> length data)"

definition wb_key :: "write_buffer \<Rightarrow> bool \<times> mblock" where
  "wb_key wb = (wb_userobject wb, wb_buffer wb)"

definition wire :: "int \<Rightarrow> sys_call list \<Rightarrow> bytes" where
  "wire fd cs = concat (map (\<lambda>c. case c of Sys_write f b \<Rightarrow> if f = fd then b else [] | _ \<Rightarrow> []) cs)"

lemma wire_simps [simp]:
  "wire fd [] = []"
  "wire fd (Sys_write f b # cs) = (if f = fd then b else []) @ wire fd cs"
  "wire fd (Sys_close f # cs) = wire fd cs" "wire fd (Sp_del f # cs) = wire fd cs"
  "wire fd (Sp_write f e # cs) = wire fd cs" "wire fd (Sys_stderr t # cs) = wire fd cs"
  "wire fd (Sp_add f # cs) = wire fd cs"
  "wire fd (cs @ ds) = wire fd cs @ wire fd ds"
  by (simp_all add: wire_def)

lemma set_list_twice [simp]: "set_list p l (set_list p m s) = set_list p l s"
  by (cases p) (simp_all add: set_list_def)

lemma get_set_list [simp]: "get_list p (set_list p l s) = l"
  by (cases p) (simp_all add: get_list_def set_list_def)

lemma set_list_same [simp]: "set_list p (get_list p s) s = s"
  by (cases p) (simp_all add: get_list_def set_list_def)

lemma set_list_same_eq: "get_list p s = l \<Longrightarrow> set_list p l s = s"
  by auto

lemma set_list_fields [simp]:
  "sk_fd (set_list p l s) = sk_fd s" "sk_id (set_list p l s) = sk_id s" "sk_type (set_list p l s) = sk_type s"
  "sk_opaque (set_list p l s) = sk_opaque s" "sk_protocol (set_list p l s) = sk_protocol s"
  "sk_wb_size (set_list p l s) = sk_wb_size s" "sk_warn_size (set_list p l s) = sk_warn_size s"
  "sk_p (set_list p l s) = sk_p s"
  by (cases p; simp add: set_list_def)+

lemma set_list_wb_size [simp]:
  "set_list p l (s\<lparr>sk_wb_size := n\<rparr>) = (set_list p l s)\<lparr>sk_wb_size := n\<rparr>"
  "get_list p (s\<lparr>sk_wb_size := n\<rparr>) = get_list p s"
  by (cases p; simp add: set_list_def get_list_def)+

lemma set_list_other [simp]:
  "sk_high (set_list PRIORITY_LOW l s) = sk_high s" "sk_low (set_list PRIORITY_HIGH l s) = sk_low s"
  "sk_high (set_list PRIORITY_HIGH l s) = l" "sk_low (set_list PRIORITY_LOW l s) = l"
  by (simp_all add: set_list_def)

text \<open>
  The state after part of a list has been sent: the list is \<open>l\<close>, \<open>n\<close> bytes fewer wait, \<open>fr\<close> was freed, \<open>cs\<close>
  are the calls made.
\<close>

definition sent_state ::
  "nat \<Rightarrow> priority \<Rightarrow> write_buffer list \<Rightarrow> nat \<Rightarrow> (bool \<times> mblock) list \<Rightarrow> sys_call list \<Rightarrow> 'w \<Rightarrow> 'w socket_server \<Rightarrow> 'w socket_server" where
  "sent_state i p l n fr cs w ss =
     ss\<lparr>ss_slot := (ss_slot ss)(i := (set_list p l (ss_slot ss i))\<lparr>sk_wb_size := sk_wb_size (ss_slot ss i) - int n\<rparr>),
        ss_freed := ss_freed ss @ fr, ss_calls := ss_calls ss @ cs, ss_world := w\<rparr>"

lemma sent_state_slot [simp]:
  "ss_slot (sent_state i p l n fr cs w ss) =
     (ss_slot ss)(i := (set_list p l (ss_slot ss i))\<lparr>sk_wb_size := sk_wb_size (ss_slot ss i) - int n\<rparr>)"
  "ss_freed (sent_state i p l n fr cs w ss) = ss_freed ss @ fr"
  "ss_calls (sent_state i p l n fr cs w ss) = ss_calls ss @ cs"
  "ss_world (sent_state i p l n fr cs w ss) = w"
  "ss_pipe (sent_state i p l n fr cs w ss) = ss_pipe ss"
  "ss_result (sent_state i p l n fr cs w ss) = ss_result ss"
  "ss_ev (sent_state i p l n fr cs w ss) = ss_ev ss"
  "ss_event_index (sent_state i p l n fr cs w ss) = ss_event_index ss"
  "ss_soi (sent_state i p l n fr cs w ss) = ss_soi ss"
  "ss_alloc_id (sent_state i p l n fr cs w ss) = ss_alloc_id ss"
  "ss_checkctrl (sent_state i p l n fr cs w ss) = ss_checkctrl ss"
  by (simp_all add: sent_state_def)

lemma sent_state_0: "sent_state i p (get_list p (ss_slot ss i)) 0 [] [] (ss_world ss) ss = ss"
  by (simp add: sent_state_def)

lemma sent_state_trans:
  "sent_state i p l2 m fr2 cs2 w2 (sent_state i p l1 n fr1 cs1 w1 ss) =
   sent_state i p l2 (n + m) (fr1 @ fr2) (cs1 @ cs2) w2 ss"
  by (simp add: sent_state_def algebra_simps)

definition advance_head :: "nat \<Rightarrow> write_buffer list \<Rightarrow> write_buffer list" where
  "advance_head n l = (case l of [] \<Rightarrow> [] | wb # t \<Rightarrow> wb_advance n wb # t)"

lemma advance_head_simps [simp]: "advance_head n [] = []" "advance_head n (wb # t) = wb_advance n wb # t"
  "wb_advance 0 wb = wb" "advance_head 0 l = l" "advance_head n l = [] \<longleftrightarrow> l = []"
  by (auto simp: advance_head_def wb_advance_def split: list.splits)

definition rest_bytes :: "write_buffer list \<Rightarrow> bytes" where
  "rest_bytes l = concat (map wb_rest l)"

lemma rest_bytes_simps [simp]: "rest_bytes [] = []" "rest_bytes (wb # l) = wb_rest wb @ rest_bytes l"
  "rest_bytes (l @ m) = rest_bytes l @ rest_bytes m"
  by (simp_all add: rest_bytes_def)

definition head_bytes :: "write_buffer list \<Rightarrow> bytes" where
  "head_bytes l = (case l of [] \<Rightarrow> [] | wb # _ \<Rightarrow> wb_rest wb)"

lemma head_bytes_simps [simp]: "head_bytes [] = []" "head_bytes (wb # l) = wb_rest wb"
  by (simp_all add: head_bytes_def)

text \<open>
  How far a list was sent: the buffers \<open>sent\<close> left whole and were freed, of the head of \<open>left\<close> the first \<open>n\<close>
  bytes left, and \<open>cs\<close> writes those bytes to the descriptor of the socket and nothing else.
\<close>

definition sent_upto ::
  "nat \<Rightarrow> priority \<Rightarrow> write_buffer list \<Rightarrow> write_buffer list \<Rightarrow> nat \<Rightarrow> sys_call list \<Rightarrow> 'w socket_server \<Rightarrow> bool" where
  "sent_upto i p sent left n cs ss \<longleftrightarrow>
     get_list p (ss_slot ss i) = sent @ left \<and> (left = [] \<longrightarrow> n = 0) \<and> n \<le> length (head_bytes left) \<and>
     (\<forall>c \<in> set cs. \<exists>b. c = Sys_write (sk_fd (ss_slot ss i)) b) \<and>
     wire (sk_fd (ss_slot ss i)) cs = rest_bytes sent @ take n (head_bytes left)"

abbreviation sent_to where
  "sent_to i p sent left n cs w ss \<equiv>
     sent_state i p (advance_head n left) (length (rest_bytes sent) + n) (map wb_key sent) cs w ss"

lemma send_list_tcp_spec:
  assumes "send_list_tcp K i p ss = Some (r, ss')" "write_bounded K"
  shows "\<exists>sent left n cs w. sent_upto i p sent left n cs ss \<and>
           (r = SOCKET_NOTHING \<and> ss' = sent_to i p sent left n cs w ss \<or>
            r = SOCKET_CLOSE \<and> left \<noteq> [] \<and> n = 0 \<and> force_close i (sent_to i p sent left 0 cs w ss) = Some ss')"
proof -
  let ?P = "\<lambda>K i p ss y. write_bounded K \<longrightarrow> (\<exists>sent left n cs w. sent_upto i p sent left n cs ss \<and>
           (fst y = SOCKET_NOTHING \<and> snd y = sent_to i p sent left n cs w ss \<or>
            fst y = SOCKET_CLOSE \<and> left \<noteq> [] \<and> n = 0 \<and> force_close i (sent_to i p sent left 0 cs w ss) = Some (snd y)))"
  have "?P K i p ss (r, ss')"
  proof (rule send_list_tcp.raw_induct [where P = ?P, OF _ assms(1)], rule impI)
    fix f and K :: "'a kernel" and i p and ss :: "'a socket_server" and y
    assume IH: "\<And>K i p ss y. f K i p ss = Some y \<Longrightarrow> ?P K i p ss y"
      and run: "(case get_list p (ss_slot ss i) of
        [] \<Rightarrow> Some (SOCKET_NOTHING, ss)
      | tmp # rest \<Rightarrow>
          (case sys_write K (sk_fd (ss_slot ss i)) (wb_rest tmp) ss of (r, ss) \<Rightarrow>
             (case r of
                IO_EINTR \<Rightarrow> f K i p ss
              | IO_EAGAIN \<Rightarrow> Some (SOCKET_NOTHING, ss)
              | IO_error e \<Rightarrow> do { ss \<leftarrow> force_close i ss; Some (SOCKET_CLOSE, ss) }
              | IO_ok n \<Rightarrow>
                  if int n \<noteq> wb_sz tmp
                  then Some (SOCKET_NOTHING, upd_sock i (set_list p (wb_advance n tmp # rest)) (sub_wb_size i (int n) ss))
                  else f K i p
                         (write_buffer_free tmp (upd_sock i (set_list p rest) (sub_wb_size i (int n) ss)))))) = Some y"
      and K: "write_bounded K"
    show "\<exists>sent left n cs w. sent_upto i p sent left n cs ss \<and>
           (fst y = SOCKET_NOTHING \<and> snd y = sent_to i p sent left n cs w ss \<or>
            fst y = SOCKET_CLOSE \<and> left \<noteq> [] \<and> n = 0 \<and> force_close i (sent_to i p sent left 0 cs w ss) = Some (snd y))"
    proof (cases "get_list p (ss_slot ss i)")
      case Nil
      with run have "sent_upto i p [] [] 0 [] ss" "fst y = SOCKET_NOTHING" "snd y = sent_to i p [] [] 0 [] (ss_world ss) ss"
        using sent_state_0 [of i p ss] by (auto simp: sent_upto_def)
      then show ?thesis by blast
    next
      case (Cons tmp rest)
      obtain q w where q: "k_write K (ss_world ss) (sk_fd (ss_slot ss i)) (wb_rest tmp) = (q, w)" by fastforce
      show ?thesis
      proof (cases q)
        case (IO_ok n)
        with K q have n: "n \<le> length (wb_rest tmp)" unfolding write_bounded_def by blast
        let ?c = "Sys_write (sk_fd (ss_slot ss i)) (take n (wb_rest tmp))"
        show ?thesis
        proof (cases "n = length (wb_rest tmp)")
          case False
          with run Cons q IO_ok have "fst y = SOCKET_NOTHING" "snd y = sent_to i p [] (tmp # rest) n [?c] w ss"
            by (auto simp: sys_write_def wb_sz_def ss_defs sent_state_def)
          moreover have "sent_upto i p [] (tmp # rest) n [?c] ss"
            using Cons n by (simp add: sent_upto_def)
          ultimately show ?thesis by blast
        next
          case True
          let ?c = "Sys_write (sk_fd (ss_slot ss i)) (wb_rest tmp)"
          let ?s1 = "sent_to i p [tmp] rest 0 [?c] w ss"
          have e: "write_buffer_free tmp (upd_sock i (set_list p rest) (sub_wb_size i (int n) (sys_do ?c (ss\<lparr>ss_world := w\<rparr>)))) = ?s1"
            using True by (simp add: ss_defs sent_state_def wb_key_def)
          have "f K i p ?s1 = Some y"
            using run by (simp add: Cons sys_write_def sys_ask_def q IO_ok wb_sz_def e flip: True)
          from IH [OF this] K obtain sent left m cs w' where
            up: "sent_upto i p sent left m cs ?s1" and
            y: "fst y = SOCKET_NOTHING \<and> snd y = sent_to i p sent left m cs w' ?s1 \<or>
                fst y = SOCKET_CLOSE \<and> left \<noteq> [] \<and> m = 0 \<and> force_close i (sent_to i p sent left 0 cs w' ?s1) = Some (snd y)"
            by blast
          have tr: "sent_to i p sent left k cs w' ?s1 = sent_to i p (tmp # sent) left k (?c # cs) w' ss" for k
            by (simp add: sent_state_trans add.assoc)
          have "sent_upto i p (tmp # sent) left m (?c # cs) ss"
            using up True Cons by (auto simp: sent_upto_def)
          with y [unfolded tr] show ?thesis by blast
        qed
      next
        case IO_EINTR
        let ?s1 = "ss\<lparr>ss_world := w\<rparr>"
        have "f K i p ?s1 = Some y"
          using run Cons q IO_EINTR by (auto simp: sys_write_def sys_ask_def)
        from IH [OF this] K obtain sent left m cs w' where
          up: "sent_upto i p sent left m cs ?s1" and
          y: "fst y = SOCKET_NOTHING \<and> snd y = sent_to i p sent left m cs w' ?s1 \<or>
              fst y = SOCKET_CLOSE \<and> left \<noteq> [] \<and> m = 0 \<and> force_close i (sent_to i p sent left 0 cs w' ?s1) = Some (snd y)"
          by blast
        have tr: "sent_to i p sent left k cs w' ?s1 = sent_to i p sent left k cs w' ss" for k
          by (simp add: sent_state_def)
        have "sent_upto i p sent left m cs ss" using up by (simp add: sent_upto_def)
        with y [unfolded tr] show ?thesis by blast
      next
        case IO_EAGAIN
        have e: "ss\<lparr>ss_world := w\<rparr> = sent_to i p [] (tmp # rest) 0 [] w ss"
          by (simp add: sent_state_def set_list_same_eq [OF Cons])
        note e
        moreover have "fst y = SOCKET_NOTHING" "snd y = ss\<lparr>ss_world := w\<rparr>"
          using run Cons q IO_EAGAIN by (auto simp: sys_write_def ss_defs)
        moreover have "sent_upto i p [] (tmp # rest) 0 [] ss" using Cons by (simp add: sent_upto_def)
        ultimately show ?thesis by (metis list.distinct(1))
      next
        case (IO_error err)
        have e: "ss\<lparr>ss_world := w\<rparr> = sent_to i p [] (tmp # rest) 0 [] w ss"
          by (simp add: sent_state_def set_list_same_eq [OF Cons])
        note e
        moreover have "fst y = SOCKET_CLOSE" "force_close i (ss\<lparr>ss_world := w\<rparr>) = Some (snd y)"
          using run Cons q IO_error by (auto simp: sys_write_def ss_defs bind_eq_Some_conv)
        moreover have "sent_upto i p [] (tmp # rest) 0 [] ss" using Cons by (simp add: sent_upto_def)
        ultimately show ?thesis by (metis list.distinct(1))
      qed
    qed
  qed
  with assms(2) show ?thesis by simp
qed

lemma send_list_udp_spec:
  "\<exists>sent left cs w. get_list p (ss_slot ss i) = sent @ left \<and> send_list_udp K i p ss = (SOCKET_NOTHING, sent_to i p sent left 0 cs w ss)"
proof -
  have "\<exists>sent left cs w. l = sent @ left \<and> send_list_udp_loop K i p l ss = (SOCKET_NOTHING, sent_to i p sent left 0 cs w ss)"
    if "l = get_list p (ss_slot ss i)" for l
    using that
  proof (induction l arbitrary: ss)
    case Nil
    have "sent_to i p [] [] 0 [] (ss_world ss) ss = ss"
      using sent_state_0 [of i p ss] Nil [symmetric] by simp
    then show ?case by (metis append_Nil send_list_udp_loop.simps(1))
  next
    case (Cons tmp rest)
    let ?fd = "sk_fd (ss_slot ss i)" and ?sa = "udp_socket_address (ss_slot ss i) (wb_udp_address tmp)"
    obtain q w where q: "k_sendto K (ss_world ss) ?fd (wb_rest tmp) ?sa = (q, w)" by fastforce
    have same: "ss\<lparr>ss_world := w\<rparr> = sent_to i p [] (tmp # rest) 0 [] w ss"
      by (simp add: sent_state_def set_list_same_eq [OF Cons.prems [symmetric]])
    show ?case
    proof (cases q)
      case (IO_ok n)
      let ?s1 = "sent_to i p [tmp] rest 0 [Sys_sendto ?fd (wb_rest tmp) ?sa] w ss"
      have e: "write_buffer_free tmp (upd_sock i (set_list p rest) (sub_wb_size i (wb_sz tmp)
                 (sys_do (Sys_sendto ?fd (wb_rest tmp) ?sa) (ss\<lparr>ss_world := w\<rparr>)))) = ?s1"
        by (simp add: ss_defs sent_state_def wb_key_def wb_sz_def)
      from Cons.IH [of ?s1] obtain sent left cs w' where r: "rest = sent @ left"
        "send_list_udp_loop K i p rest ?s1 = (SOCKET_NOTHING, sent_to i p sent left 0 cs w' ?s1)" by auto
      have "send_list_udp_loop K i p (tmp # rest) ss = send_list_udp_loop K i p rest ?s1"
        by (simp add: sys_sendto_def sys_ask_def q IO_ok e Let_def)
      moreover have "sent_to i p sent left 0 cs w' ?s1 =
          sent_to i p (tmp # sent) left 0 (Sys_sendto ?fd (wb_rest tmp) ?sa # cs) w' ss"
        by (simp add: sent_state_trans)
      ultimately show ?thesis using r by (metis append_Cons)
    next
      case IO_EINTR
      then have "send_list_udp_loop K i p (tmp # rest) ss = (SOCKET_NOTHING, ss\<lparr>ss_world := w\<rparr>)"
        by (simp add: sys_sendto_def sys_ask_def q Let_def)
      then show ?thesis using same by (metis append_Nil)
    next
      case IO_EAGAIN
      then have "send_list_udp_loop K i p (tmp # rest) ss = (SOCKET_NOTHING, ss\<lparr>ss_world := w\<rparr>)"
        by (simp add: sys_sendto_def sys_ask_def q Let_def)
      then show ?thesis using same by (metis append_Nil)
    next
      case (IO_error e)
      then obtain t where "send_list_udp_loop K i p (tmp # rest) ss = (SOCKET_NOTHING, print_error t (ss\<lparr>ss_world := w\<rparr>))"
        by (simp add: sys_sendto_def sys_ask_def q Let_def)
      moreover have "print_error t (ss\<lparr>ss_world := w\<rparr>) = sent_to i p [] (tmp # rest) 0 [Sys_stderr t] w ss"
        by (simp add: same) (simp add: print_error_def sys_do_def sent_state_def)
      ultimately show ?thesis by (metis append_Nil)
    qed
  qed
  then show ?thesis by (simp add: send_list_udp_def)
qed

subsection \<open>Closing a socket\<close>

lemma fold_write_buffer_free: "fold write_buffer_free l ss = ss\<lparr>ss_freed := ss_freed ss @ map wb_key l\<rparr>"
  by (induction l arbitrary: ss) (simp_all add: ss_defs wb_key_def)

definition close_calls :: "socket \<Rightarrow> sys_call list" where
  "close_calls s =
     (if sk_type s \<noteq> SOCKET_TYPE_PACCEPT \<and> sk_type s \<noteq> SOCKET_TYPE_PLISTEN then [Sp_del (sk_fd s)] else []) @
     (if sk_type s \<noteq> SOCKET_TYPE_BIND then [Sys_close (sk_fd s)] else [])"

lemma wire_close_calls [simp]: "wire fd (close_calls s) = []"
  by (simp add: close_calls_def)

definition closed_state :: "nat \<Rightarrow> 'w socket_server \<Rightarrow> 'w socket_server" where
  "closed_state i ss =
     (let s = ss_slot ss i
      in ss\<lparr>ss_slot := (ss_slot ss)(i := s\<lparr>sk_high := [], sk_low := [], sk_type := SOCKET_TYPE_INVALID\<rparr>),
            ss_result := \<lparr>pm_id = sk_id s, pm_opaque = sk_opaque s, pm_ud = 0, pm_data = Data_null\<rparr>,
            ss_freed := ss_freed ss @ map wb_key (sk_high s @ sk_low s),
            ss_calls := ss_calls ss @ close_calls s\<rparr>)"

lemma force_close_open:
  assumes "sk_type (ss_slot ss i) \<noteq> SOCKET_TYPE_INVALID" "sk_type (ss_slot ss i) \<noteq> SOCKET_TYPE_RESERVE"
  shows "force_close i ss = Some (closed_state i ss)"
  using assms by (simp add: force_close_def closed_state_def free_wb_list_def fold_write_buffer_free ss_defs Let_def
      set_list_def get_list_def close_calls_def)

lemma closed_state_simps [simp]:
  "ss_slot (closed_state i ss) = (ss_slot ss)(i := (ss_slot ss i)\<lparr>sk_high := [], sk_low := [], sk_type := SOCKET_TYPE_INVALID\<rparr>)"
  "ss_freed (closed_state i ss) = ss_freed ss @ map wb_key (sk_high (ss_slot ss i) @ sk_low (ss_slot ss i))"
  "ss_calls (closed_state i ss) = ss_calls ss @ close_calls (ss_slot ss i)"
  "ss_pipe (closed_state i ss) = ss_pipe ss" "ss_ev (closed_state i ss) = ss_ev ss"
  "ss_event_index (closed_state i ss) = ss_event_index ss" "ss_alloc_id (closed_state i ss) = ss_alloc_id ss"
  "ss_world (closed_state i ss) = ss_world ss" "ss_soi (closed_state i ss) = ss_soi ss"
  "ss_checkctrl (closed_state i ss) = ss_checkctrl ss"
  "pm_id (ss_result (closed_state i ss)) = sk_id (ss_slot ss i)"
  by (simp_all add: closed_state_def Let_def)

subsection \<open>The stream is an interleaving of whole packets\<close>

lemma shuffles_snoc: "xs \<in> shuffles a b \<Longrightarrow> xs @ [x] \<in> shuffles (a @ [x]) b"
proof (induction a b arbitrary: xs rule: shuffles.induct)
  case (1 ys)
  then show ?case by (induction ys arbitrary: xs) (auto simp: Cons_in_shuffles_iff)
next
  case (2 xs)
  then show ?case by simp
next
  case (3 x' xs' y' ys')
  from "3.prems" show ?case by (auto dest: "3.IH")
qed

lemma shuffles_append_left: "xs \<in> shuffles a b \<Longrightarrow> xs @ zs \<in> shuffles (a @ zs) b"
proof (induction zs arbitrary: xs a)
  case (Cons z zs)
  from Cons.IH [OF shuffles_snoc [OF Cons.prems], of z] show ?case by simp
qed simp

lemma shuffles_append_right: "xs \<in> shuffles a b \<Longrightarrow> xs @ zs \<in> shuffles a (b @ zs)"
  using shuffles_append_left [of xs b a zs] by (simp add: shuffles_commutes)

definition full_packets :: "bytes \<Rightarrow> write_buffer list \<Rightarrow> bytes list" where
  "full_packets al l = (case l of [] \<Rightarrow> [] | wb # t \<Rightarrow> (al @ wb_rest wb) # map wb_rest t)"

text \<open>
  \<open>stream_of hs ls wr s\<close>: what was written is the packets \<open>done\<close> and the first bytes \<open>al\<close> of the head of the
  high list; the packets that are done or in the high list are an interleaving of all of \<open>hs\<close>, in order, with
  the first of \<open>ls\<close>, in order; the others of \<open>ls\<close> are in the low list.
\<close>

definition stream_of :: "bytes list \<Rightarrow> bytes list \<Rightarrow> bytes \<Rightarrow> socket \<Rightarrow> bool" where
  "stream_of hs ls wr s \<longleftrightarrow> (\<exists>dn al l1. wr = concat dn @ al \<and> (sk_high s = [] \<longrightarrow> al = []) \<and>
     dn @ full_packets al (sk_high s) \<in> shuffles hs l1 \<and> ls = l1 @ map wb_rest (sk_low s))"

lemma full_packets_simps [simp]:
  "full_packets al [] = []" "full_packets al (wb # t) = (al @ wb_rest wb) # map wb_rest t"
  "full_packets [] l = map wb_rest l"
  "l \<noteq> [] \<Longrightarrow> full_packets al (l @ [wb]) = full_packets al l @ [wb_rest wb]"
  by (auto simp: full_packets_def split: list.splits)

lemma full_packets_advance:
  "left \<noteq> [] \<Longrightarrow> full_packets (al @ take n (head_bytes left)) (advance_head n left) = full_packets al left"
  by (cases left) (simp_all add: wb_advance_def)

lemma stream_sent_high:
  assumes "stream_of hs ls wr s" "sk_high s = sent @ left" "left = [] \<longrightarrow> n = 0"
    "sk_high s' = advance_head n left" "sk_low s' = sk_low s"
  shows "stream_of hs ls (wr @ rest_bytes sent @ take n (head_bytes left)) s'"
proof -
  from assms(1) obtain dn al l1 where s: "wr = concat dn @ al" "sk_high s = [] \<longrightarrow> al = []"
    "dn @ full_packets al (sk_high s) \<in> shuffles hs l1" "ls = l1 @ map wb_rest (sk_low s)"
    by (auto simp: stream_of_def)
  let ?al = "take n (head_bytes left)"
  show ?thesis
  proof (cases sent)
    case Nil
    have "wr @ rest_bytes sent @ ?al = concat dn @ (al @ ?al)"
      "sk_high s' = [] \<longrightarrow> al @ ?al = []" "dn @ full_packets (al @ ?al) (sk_high s') \<in> shuffles hs l1"
      using full_packets_advance [of left al n] s assms Nil by (cases "left = []"; simp)+
    with s assms show ?thesis unfolding stream_of_def by metis
  next
    case (Cons wb t)
    let ?dn = "dn @ (al @ wb_rest wb) # map wb_rest t"
    have "full_packets ?al (advance_head n left) = map wb_rest left"
      using full_packets_advance [of left "[]" n] by (cases "left = []") simp_all
    with Cons s assms have "wr @ rest_bytes sent @ ?al = concat ?dn @ ?al" "sk_high s' = [] \<longrightarrow> ?al = []"
      "?dn @ full_packets ?al (sk_high s') \<in> shuffles hs l1"
      by (auto simp: rest_bytes_def)
    with s assms show ?thesis unfolding stream_of_def by metis
  qed
qed

lemma stream_sent_low:
  assumes "stream_of hs ls wr s" "sk_high s = []" "sk_low s = sent @ left" "left = [] \<longrightarrow> n = 0"
    "sk_high s' = advance_head n (take 1 left)" "sk_low s' = drop 1 left"
  shows "stream_of hs ls (wr @ rest_bytes sent @ take n (head_bytes left)) s'"
proof -
  from assms(1,2) obtain dn l1 where s: "wr = concat dn" "dn \<in> shuffles hs l1" "ls = l1 @ map wb_rest (sk_low s)"
    by (auto simp: stream_of_def)
  let ?al = "take n (head_bytes left)" and ?dn = "dn @ map wb_rest sent"
    and ?l1 = "l1 @ map wb_rest sent @ map wb_rest (take 1 left)"
  have "full_packets ?al (advance_head n (take 1 left)) = map wb_rest (take 1 left)"
    by (cases left) (simp_all add: wb_advance_def)
  then have "wr @ rest_bytes sent @ ?al = concat ?dn @ ?al" "sk_high s' = [] \<longrightarrow> ?al = []"
    "?dn @ full_packets ?al (sk_high s') \<in> shuffles hs ?l1"
    using s assms shuffles_append_right [OF s(2), of "map wb_rest sent @ map wb_rest (take 1 left)"]
    by (auto simp: rest_bytes_def)
  moreover have "ls = ?l1 @ map wb_rest (sk_low s')"
    using s assms by (simp flip: map_append)
  ultimately show ?thesis unfolding stream_of_def by metis
qed

text \<open>A packet joins the stream: at the end of the high list, at the end of the low list, or written in part.\<close>

lemma stream_join:
  assumes "stream_of hs ls wr s"
  shows "\<lbrakk>sk_high s' = sk_high s @ [wb]; sk_low s' = sk_low s\<rbrakk>
         \<Longrightarrow> stream_of (hs @ [wb_rest wb]) ls wr s'"
    and "\<lbrakk>sk_high s' = sk_high s; sk_low s' = sk_low s @ [wb]\<rbrakk> \<Longrightarrow> stream_of hs (ls @ [wb_rest wb]) wr s'"
proof -
  from assms obtain dn al l1 where s: "wr = concat dn @ al" "sk_high s = [] \<longrightarrow> al = []"
    "dn @ full_packets al (sk_high s) \<in> shuffles hs l1" "ls = l1 @ map wb_rest (sk_low s)"
    by (auto simp: stream_of_def)
  { assume "sk_high s' = sk_high s @ [wb]" "sk_low s' = sk_low s"
    moreover from this s have "dn @ full_packets al (sk_high s') \<in> shuffles (hs @ [wb_rest wb]) l1"
      using shuffles_snoc [OF s(3), of "wb_rest wb"] by (cases "sk_high s = []") simp_all
    ultimately show "stream_of (hs @ [wb_rest wb]) ls wr s'" using s unfolding stream_of_def by auto }
  { assume "sk_high s' = sk_high s" "sk_low s' = sk_low s @ [wb]"
    with s show "stream_of hs (ls @ [wb_rest wb]) wr s'" unfolding stream_of_def by force }
qed

text \<open>The stream of the socket in slot \<open>i\<close>, whose descriptor had written \<open>w0\<close> before.\<close>

definition stream_at :: "nat \<Rightarrow> bytes \<Rightarrow> bytes list \<Rightarrow> bytes list \<Rightarrow> 'w socket_server \<Rightarrow> bool" where
  "stream_at i w0 hs ls ss \<longleftrightarrow>
     (\<exists>wr. wire (sk_fd (ss_slot ss i)) (ss_calls ss) = w0 @ wr \<and> stream_of hs ls wr (ss_slot ss i))"

definition same_conn :: "socket \<Rightarrow> socket \<Rightarrow> bool" where
  "same_conn s s' \<longleftrightarrow> sk_fd s' = sk_fd s \<and> sk_id s' = sk_id s \<and> sk_protocol s' = sk_protocol s \<and> sk_type s' = sk_type s"

lemma stream_of_fields [simp]:
  "stream_of hs ls wr (s\<lparr>sk_warn_size := n\<rparr>) = stream_of hs ls wr s"
  "stream_of hs ls wr (s\<lparr>sk_wb_size := n\<rparr>) = stream_of hs ls wr s"
  by (simp_all add: stream_of_def)

lemma send_buffer_done_stream:
  assumes "send_buffer_done i ss = Some (r, ss')" "r \<noteq> SOCKET_CLOSE" "stream_at i w0 hs ls ss"
  shows "stream_at i w0 hs ls ss' \<and> same_conn (ss_slot ss i) (ss_slot ss' i)"
  using assms
  by (auto simp: send_buffer_done_def stream_at_def same_conn_def ss_defs Let_def bind_eq_Some_conv
      split: if_splits)

lemma same_conn_trans: "same_conn s s1 \<Longrightarrow> same_conn s1 s2 \<Longrightarrow> same_conn s s2"
  by (simp add: same_conn_def)

lemma send_low_stream:
  assumes run: "send_low K i ss = Some (r, ss')" "r \<noteq> SOCKET_CLOSE" and K: "write_bounded K"
    and tcp: "sk_protocol (ss_slot ss i) = PROTOCOL_TCP" and st: "stream_at i w0 hs ls ss"
    and high: "sk_high (ss_slot ss i) = []"
  shows "stream_at i w0 hs ls ss' \<and> same_conn (ss_slot ss i) (ss_slot ss' i)"
proof -
  let ?fd = "sk_fd (ss_slot ss i)"
  from run tcp obtain r2 s2 where l2: "send_list_tcp K i PRIORITY_LOW ss = Some (r2, s2)"
    by (auto simp: send_low_def send_list_def bind_eq_Some_conv)
  with run tcp have r2: "r2 \<noteq> SOCKET_CLOSE" by (auto simp: send_low_def send_list_def)
  with send_list_tcp_spec [OF l2 K] obtain sent left n cs w where
    up: "sent_upto i PRIORITY_LOW sent left n cs ss" and s2: "s2 = sent_to i PRIORITY_LOW sent left n cs w ss"
    by auto
  from st obtain wr where wr: "wire ?fd (ss_calls ss) = w0 @ wr" "stream_of hs ls wr (ss_slot ss i)"
    by (auto simp: stream_at_def)
  let ?wr = "wr @ rest_bytes sent @ take n (head_bytes left)"
  have w2: "wire ?fd (ss_calls s2) = w0 @ ?wr" using wr(1) up by (simp add: s2 sent_upto_def)
  have c2: "same_conn (ss_slot ss i) (ss_slot s2 i)" by (simp add: s2 same_conn_def)
  have lists: "sk_high (ss_slot s2 i) = []" "sk_low (ss_slot s2 i) = advance_head n left"
    using high by (simp_all add: s2)
  have low: "sk_low (ss_slot ss i) = sent @ left" "left = [] \<longrightarrow> n = 0"
    using up by (auto simp: sent_upto_def get_list_def)
  show ?thesis
  proof (cases "list_uncomplete (sk_low (ss_slot s2 i))")
    case True
    then obtain tmp t where left: "left = tmp # t" using lists by (cases left) (auto simp: list_uncomplete_def)
    have ss': "ss' = upd_sock i (\<lambda>s. s\<lparr>sk_low := t, sk_high := [wb_advance n tmp]\<rparr>) s2"
      using run(1) r2 l2 True lists left
      by (auto simp: send_low_def send_list_def tcp raise_uncomplete_def bind_eq_Some_conv)
    have "stream_of hs ls ?wr (ss_slot ss' i)"
      by (rule stream_sent_low [OF wr(2), of sent left n]) (use high low in \<open>auto simp: ss' upd_sock_def left\<close>)
    moreover have "same_conn (ss_slot ss i) (ss_slot ss' i)" "wire ?fd (ss_calls ss') = w0 @ ?wr"
      using c2 w2 by (simp_all add: ss' upd_sock_def same_conn_def)
    ultimately show ?thesis by (auto simp: stream_at_def same_conn_def)
  next
    case False
    with run(1) r2 l2 have d: "send_buffer_done i s2 = Some (r, ss')"
      by (auto simp: send_low_def send_list_def tcp)
    then have "left = []" using lists by (auto simp: send_buffer_done_def send_buffer_empty_def Let_def)
    then have "stream_of hs ls ?wr (ss_slot s2 i)"
      by (intro stream_sent_low [OF wr(2), of sent left n]) (use high low lists in auto)
    with w2 c2 have "stream_at i w0 hs ls s2" by (auto simp: stream_at_def same_conn_def)
    from send_buffer_done_stream [OF d run(2) this] same_conn_trans [OF c2] show ?thesis by blast
  qed
qed

lemma send_buffer_stream:
  assumes run: "send_buffer K i ss = Some (r, ss')" "r \<noteq> SOCKET_CLOSE" and K: "write_bounded K"
    and tcp: "sk_protocol (ss_slot ss i) = PROTOCOL_TCP" and st: "stream_at i w0 hs ls ss"
  shows "stream_at i w0 hs ls ss' \<and> same_conn (ss_slot ss i) (ss_slot ss' i)"
proof -
  let ?fd = "sk_fd (ss_slot ss i)"
  from run tcp obtain r1 s1 where l1: "send_list_tcp K i PRIORITY_HIGH ss = Some (r1, s1)"
    by (auto simp: send_buffer_def send_list_def bind_eq_Some_conv)
  with run tcp have r1: "r1 \<noteq> SOCKET_CLOSE" by (auto simp: send_buffer_def send_list_def)
  with send_list_tcp_spec [OF l1 K] obtain sent left n cs w where
    up: "sent_upto i PRIORITY_HIGH sent left n cs ss" and s1: "s1 = sent_to i PRIORITY_HIGH sent left n cs w ss"
    by auto
  from st obtain wr where wr: "wire ?fd (ss_calls ss) = w0 @ wr" "stream_of hs ls wr (ss_slot ss i)"
    by (auto simp: stream_at_def)
  have "stream_of hs ls (wr @ rest_bytes sent @ take n (head_bytes left)) (ss_slot s1 i)"
    using wr(2) up by (intro stream_sent_high) (auto simp: sent_upto_def get_list_def s1)
  moreover have c1: "same_conn (ss_slot ss i) (ss_slot s1 i)" by (simp add: s1 same_conn_def)
  ultimately have at1: "stream_at i w0 hs ls s1"
    using wr(1) up by (auto simp: stream_at_def s1 sent_upto_def)
  have tcp1: "sk_protocol (ss_slot s1 i) = PROTOCOL_TCP" using c1 tcp by (simp add: same_conn_def)
  have "(if sk_high (ss_slot s1 i) \<noteq> [] then Some (SOCKET_NOTHING, s1)
          else if sk_low (ss_slot s1 i) = [] then send_buffer_done i s1 else send_low K i s1) = Some (r, ss')"
    using run(1) tcp l1 r1 by (simp add: send_buffer_def send_list_def bind_eq_Some_conv split: if_splits)
  then have "stream_at i w0 hs ls ss' \<and> same_conn (ss_slot s1 i) (ss_slot ss' i)"
    using send_buffer_done_stream [OF _ run(2) at1] send_low_stream [OF _ run(2) K tcp1 at1] at1
    by (auto simp: same_conn_def split: if_splits)
  with same_conn_trans [OF c1] show ?thesis by blast
qed

text \<open>A request to send the whole of a block that \<open>skynet_malloc\<close> gave.\<close>

definition raw_request :: "int \<Rightarrow> mblock \<Rightarrow> request_send" where
  "raw_request i b = \<lparr>rs_id = i, rs_sz = int (length (blk_bytes b)), rs_buffer = b\<rparr>"

lemma raw_request_init [simp]:
  "rs_id (raw_request i b) = i" "rs_buffer (raw_request i b) = b"
  "send_object_init b (rs_sz (raw_request i b)) ss = Some \<lparr>so_buffer = b, so_sz = int (length (blk_bytes b)), so_userobject = False\<rparr>"
  "so_data \<lparr>so_buffer = b, so_sz = int (length (blk_bytes b)), so_userobject = False\<rparr> = Some (blk_bytes b)"
  by (simp_all add: raw_request_def send_object_init_def so_data_def)

definition raw_buffer :: "mblock \<Rightarrow> nat \<Rightarrow> bytes \<Rightarrow> write_buffer" where
  "raw_buffer b n a = \<lparr>wb_buffer = b, wb_ptr = blk_addr b + of_nat n, wb_rest = drop n (blk_bytes b),
     wb_userobject = False, wb_udp_address = a\<rparr>"

lemma append_raw:
  "append_buffer i p (raw_request j b) n a ss =
     Some (upd_sock i (\<lambda>s. (set_list p (get_list p s @ [raw_buffer b n a]) s)
             \<lparr>sk_wb_size := sk_wb_size s + int (length (blk_bytes b) - n)\<rparr>) ss)"
  by (simp add: append_buffer_def raw_buffer_def wb_sz_def)

definition sub :: "priority \<Rightarrow> priority \<Rightarrow> mblock \<Rightarrow> bytes list" where
  "sub q p b = (if p = q then [blk_bytes b] else [])"

lemma send_warning_stream:
  "send_warning i ss = (r, ss') \<Longrightarrow> r \<noteq> SOCKET_CLOSE \<and> (stream_at i w0 hs ls ss' \<longleftrightarrow> stream_at i w0 hs ls ss) \<and>
     same_conn (ss_slot ss i) (ss_slot ss' i)"
  by (auto simp: send_warning_def Let_def ss_defs stream_at_def same_conn_def split: if_splits)

lemma shuffles_sub:
  "xs \<in> shuffles a b \<Longrightarrow> xs @ [blk_bytes m] \<in> shuffles (a @ sub PRIORITY_HIGH p m) (b @ sub PRIORITY_LOW p m)"
  by (cases p) (simp_all add: sub_def shuffles_append_left shuffles_append_right)

lemma stream_direct:
  assumes "stream_of hs ls wr s" "sk_high s = []" "sk_low s = []" "sk_low s' = []"
    and "n = length (blk_bytes b) \<and> sk_high s' = [] \<or> sk_high s' = [wb] \<and> wb_rest wb = drop n (blk_bytes b)"
  shows "stream_of (hs @ sub PRIORITY_HIGH p b) (ls @ sub PRIORITY_LOW p b) (wr @ take n (blk_bytes b)) s'"
proof -
  from assms(1-3) obtain dn where d: "wr = concat dn" "dn \<in> shuffles hs ls" by (auto simp: stream_of_def)
  let ?H = "hs @ sub PRIORITY_HIGH p b" and ?L = "ls @ sub PRIORITY_LOW p b"
  have sh: "dn @ [blk_bytes b] \<in> shuffles ?H ?L" by (rule shuffles_sub [OF d(2)])
  from assms(5) show ?thesis
  proof (elim disjE conjE)
    assume "n = length (blk_bytes b)" "sk_high s' = []"
    with sh d assms(4) have "wr @ take n (blk_bytes b) = concat (dn @ [blk_bytes b]) @ []"
      "(dn @ [blk_bytes b]) @ full_packets [] (sk_high s') \<in> shuffles ?H ?L" "?L = ?L @ map wb_rest (sk_low s')"
      by simp_all
    then show ?thesis unfolding stream_of_def by blast
  next
    assume "sk_high s' = [wb]" "wb_rest wb = drop n (blk_bytes b)"
    with sh d assms(4) have "wr @ take n (blk_bytes b) = concat dn @ take n (blk_bytes b)"
      "dn @ full_packets (take n (blk_bytes b)) (sk_high s') \<in> shuffles ?H ?L" "?L = ?L @ map wb_rest (sk_low s')"
      "sk_high s' \<noteq> []"
      by simp_all
    then show ?thesis unfolding stream_of_def by blast
  qed
qed

definition open_stream :: "int \<Rightarrow> socket \<Rightarrow> bool" where
  "open_stream j s \<longleftrightarrow> sk_id s = j \<and> sk_protocol s = PROTOCOL_TCP \<and>
     sk_type s \<in> {SOCKET_TYPE_CONNECTING, SOCKET_TYPE_CONNECTED, SOCKET_TYPE_BIND}"

lemma send_direct_stream:
  assumes run: "send_direct K i (raw_request j b) so p None ss = Some q"
    and so: "so = \<lparr>so_buffer = b, so_sz = int (length (blk_bytes b)), so_userobject = False\<rparr>"
    and s: "open_stream j (ss_slot ss i)" "send_buffer_empty (ss_slot ss i)" and st: "stream_at i w0 hs ls ss"
    and q: "q = Inl (r, ss') \<and> r \<noteq> SOCKET_CLOSE \<or> q = Inr ss'"
  shows "stream_at i w0 (hs @ sub PRIORITY_HIGH p b) (ls @ sub PRIORITY_LOW p b) ss' \<and>
    same_conn (ss_slot ss i) (ss_slot ss' i)"
proof -
  let ?s = "ss_slot ss i"
  obtain a w where k: "k_write K (ss_world ss) (sk_fd ?s) (blk_bytes b) = (a, w)" by fastforce
  from st obtain wr where wr: "wire (sk_fd ?s) (ss_calls ss) = w0 @ wr" "stream_of hs ls wr ?s"
    by (auto simp: stream_at_def)
  define n where "n = (case a of IO_ok n \<Rightarrow> n | _ \<Rightarrow> 0)"
  have a: "\<nexists>e. a = IO_error e"
    using run q s(1) k unfolding so by (auto simp: send_direct_def open_stream_def sys_write_def sys_ask_def bind_eq_Some_conv)
  define s1 where "s1 = (let s0 = ss\<lparr>ss_world := w\<rparr>
      in case a of IO_ok m \<Rightarrow> sys_do (Sys_write (sk_fd ?s) (take m (blk_bytes b))) s0 | _ \<Rightarrow> s0)"
  have s1: "ss_slot s1 = ss_slot ss" "wire (sk_fd ?s) (ss_calls s1) = wire (sk_fd ?s) (ss_calls ss) @ take n (blk_bytes b)"
    by (cases a; simp add: s1_def n_def sys_do_def Let_def)+
  have "q = (if n = length (blk_bytes b) then Inl (SOCKET_NOTHING, so_free False b s1)
      else Inr (sp_write (sk_fd ?s) True (upd_sock i (\<lambda>s. (set_list PRIORITY_HIGH (get_list PRIORITY_HIGH s @ [raw_buffer b n []]) s)
             \<lparr>sk_wb_size := sk_wb_size s + int (length (blk_bytes b) - n)\<rparr>) s1)))"
    using run s(1) a unfolding so
    by (cases a) (simp_all add: send_direct_def open_stream_def sys_write_def sys_ask_def k s1_def n_def
        append_sendbuffer_def append_raw Let_def split: if_splits)
  then have c: "same_conn ?s (ss_slot ss' i)" "sk_low (ss_slot ss' i) = []"
      "wire (sk_fd ?s) (ss_calls ss') = wire (sk_fd ?s) (ss_calls ss) @ take n (blk_bytes b)"
      "n = length (blk_bytes b) \<and> sk_high (ss_slot ss' i) = [] \<or> sk_high (ss_slot ss' i) = [raw_buffer b n []]"
    using q s(2) s1 by (auto simp: send_buffer_empty_def same_conn_def get_list_def so_free_def sp_write_def sys_do_def
        upd_sock_def split: if_splits)
  have "stream_of (hs @ sub PRIORITY_HIGH p b) (ls @ sub PRIORITY_LOW p b) (wr @ take n (blk_bytes b)) (ss_slot ss' i)"
    by (rule stream_direct [OF wr(2), where wb = "raw_buffer b n []"])
      (use c s(2) in \<open>auto simp: send_buffer_empty_def raw_buffer_def\<close>)
  with c wr(1) show ?thesis by (auto simp: stream_at_def same_conn_def)
qed

lemma send_queued_stream:
  assumes "send_queued i (raw_request j b) p None ss = Some ss'" "open_stream j (ss_slot ss i)" "stream_at i w0 hs ls ss"
  shows "stream_at i w0 (hs @ sub PRIORITY_HIGH p b) (ls @ sub PRIORITY_LOW p b) ss' \<and>
    same_conn (ss_slot ss i) (ss_slot ss' i)"
proof -
  let ?wb = "raw_buffer b 0 []"
  from assms(3) obtain wr where wr: "wire (sk_fd (ss_slot ss i)) (ss_calls ss) = w0 @ wr" "stream_of hs ls wr (ss_slot ss i)"
    by (auto simp: stream_at_def)
  have rest: "wb_rest ?wb = blk_bytes b" by (simp add: raw_buffer_def)
  show ?thesis
  proof (cases p)
    case PRIORITY_HIGH
    with assms stream_join(1) [OF wr(2), of "ss_slot ss' i" ?wb] wr(1) show ?thesis
      by (auto simp: send_queued_def open_stream_def append_sendbuffer_def append_raw ss_defs get_list_def stream_at_def
          same_conn_def sub_def rest)
  next
    case PRIORITY_LOW
    with assms stream_join(2) [OF wr(2), of "ss_slot ss' i" ?wb] wr(1) show ?thesis
      by (auto simp: send_queued_def open_stream_def append_sendbuffer_low_def append_raw ss_defs get_list_def stream_at_def
          same_conn_def sub_def rest)
  qed
qed

lemma send_socket_stream:
  assumes run: "send_socket K (raw_request j b) p None ss = Some (r, ss')" "r \<noteq> SOCKET_CLOSE"
    and s: "open_stream j (ss_slot ss (HASH_ID j))" and st: "stream_at (HASH_ID j) w0 hs ls ss"
  shows "stream_at (HASH_ID j) w0 (hs @ sub PRIORITY_HIGH p b) (ls @ sub PRIORITY_LOW p b) ss' \<and>
    same_conn (ss_slot ss (HASH_ID j)) (ss_slot ss' (HASH_ID j))"
proof -
  let ?i = "HASH_ID j" and ?so = "\<lparr>so_buffer = b, so_sz = int (length (blk_bytes b)), so_userobject = False\<rparr>"
  show ?thesis
  proof (cases "send_buffer_empty (ss_slot ss ?i) \<and> sk_type (ss_slot ss ?i) = SOCKET_TYPE_CONNECTED")
    case True
    with run s obtain q where d: "send_direct K ?i (raw_request j b) ?so p None ss = Some q"
      "(case q of Inl ret \<Rightarrow> Some ret | Inr ss \<Rightarrow> Some (send_warning ?i ss)) = Some (r, ss')"
      by (auto simp: send_socket_def open_stream_def bind_eq_Some_conv Let_def)
    note D = send_direct_stream [OF d(1) refl s conjunct1 [OF True] st]
    show ?thesis
    proof (cases q)
      case (Inl x)
      with d(2) run(2) D [of r ss'] show ?thesis by auto
    next
      case (Inr s1)
      with d(2) send_warning_stream [of ?i s1 r ss'] D [of r s1] same_conn_trans show ?thesis by fastforce
    qed
  next
    case False
    with run s obtain s1 where d: "send_queued ?i (raw_request j b) p None ss = Some s1" "send_warning ?i s1 = (r, ss')"
      by (auto simp: send_socket_def open_stream_def bind_eq_Some_conv Let_def)
    from send_queued_stream [OF d(1) s st] send_warning_stream [OF d(2)] same_conn_trans show ?thesis by blast
  qed
qed

text \<open>
  A history of one connection: its packets are submitted, its buffer is flushed when the kernel has room, and
  anything else happens that leaves its two lists and the bytes written to its descriptor alone.
\<close>

definition other_step :: "int \<Rightarrow> 'w socket_server \<Rightarrow> 'w socket_server \<Rightarrow> bool" where
  "other_step j ss ss' \<longleftrightarrow>
     (let s = ss_slot ss (HASH_ID j); s' = ss_slot ss' (HASH_ID j)
      in open_stream j s' \<and> sk_fd s' = sk_fd s \<and> sk_high s' = sk_high s \<and> sk_low s' = sk_low s \<and>
         wire (sk_fd s) (ss_calls ss') = wire (sk_fd s) (ss_calls ss))"

inductive stream_run ::
  "'w kernel \<Rightarrow> int \<Rightarrow> 'w socket_server \<Rightarrow> bytes list \<Rightarrow> bytes list \<Rightarrow> 'w socket_server \<Rightarrow> bool" for K j ss0 where
  run_start: "stream_run K j ss0 [] [] ss0"
| run_send: "\<lbrakk>stream_run K j ss0 hs ls ss; send_socket K (raw_request j b) p None ss = Some (r, ss'); r \<noteq> SOCKET_CLOSE\<rbrakk>
    \<Longrightarrow> stream_run K j ss0 (hs @ sub PRIORITY_HIGH p b) (ls @ sub PRIORITY_LOW p b) ss'"
| run_flush: "\<lbrakk>stream_run K j ss0 hs ls ss; send_buffer K (HASH_ID j) ss = Some (r, ss'); r \<noteq> SOCKET_CLOSE\<rbrakk>
    \<Longrightarrow> stream_run K j ss0 hs ls ss'"
| run_other: "\<lbrakk>stream_run K j ss0 hs ls ss; other_step j ss ss'\<rbrakk> \<Longrightarrow> stream_run K j ss0 hs ls ss'"

lemma stream_run_at:
  assumes "stream_run K j ss0 hs ls ss" "write_bounded K"
    "open_stream j (ss_slot ss0 (HASH_ID j))" "send_buffer_empty (ss_slot ss0 (HASH_ID j))"
  shows "stream_at (HASH_ID j) (wire (sk_fd (ss_slot ss0 (HASH_ID j))) (ss_calls ss0)) hs ls ss \<and>
    open_stream j (ss_slot ss (HASH_ID j)) \<and> sk_fd (ss_slot ss (HASH_ID j)) = sk_fd (ss_slot ss0 (HASH_ID j))"
  using assms
proof (induction rule: stream_run.induct)
  case run_start
  then show ?case by (auto simp: stream_at_def stream_of_def send_buffer_empty_def)
next
  case (run_send hs ls ss b p r ss')
  note IH = run_send.IH [OF run_send.prems]
  from send_socket_stream [OF run_send.hyps(2,3) conjunct1 [OF conjunct2 [OF IH]] conjunct1 [OF IH]] IH
  show ?case by (simp add: same_conn_def open_stream_def)
next
  case (run_flush hs ls ss r ss')
  note IH = run_flush.IH [OF run_flush.prems]
  then have "sk_protocol (ss_slot ss (HASH_ID j)) = PROTOCOL_TCP" by (simp add: open_stream_def)
  from send_buffer_stream [OF run_flush.hyps(2,3) run_flush.prems(1) this conjunct1 [OF IH]] IH
  show ?case by (simp add: same_conn_def open_stream_def)
next
  case (run_other hs ls ss ss')
  note IH = run_other.IH [OF run_other.prems]
  from run_other.hyps(2) have "stream_of hs ls wr (ss_slot ss' (HASH_ID j)) = stream_of hs ls wr (ss_slot ss (HASH_ID j))" for wr
    by (simp add: stream_of_def other_step_def Let_def)
  with IH run_other.hyps(2) show ?case by (auto simp: other_step_def Let_def stream_at_def)
qed

text \<open>C2. Packets never mix: from the moment its buffer is empty, the bytes a TCP connection has written are whole
  packets and the first bytes of at most one more, the head of the high list; the packets written and those in the
  high list are an interleaving of all high-priority packets with the low-priority packets that have left the low
  list, each kind in the order it was submitted. A packet that was written in part is finished before any other
  starts.\<close>

theorem socket_stream_whole_packets:
  assumes "stream_run K j ss0 hs ls ss" "write_bounded K"
    "open_stream j (ss_slot ss0 (HASH_ID j))" "send_buffer_empty (ss_slot ss0 (HASH_ID j))"
  defines "s \<equiv> ss_slot ss (HASH_ID j)"
  shows "\<exists>dn al l1.
    wire (sk_fd s) (ss_calls ss) = wire (sk_fd s) (ss_calls ss0) @ concat dn @ al \<and>
    (sk_high s = [] \<longrightarrow> al = []) \<and>
    dn @ full_packets al (sk_high s) \<in> shuffles hs l1 \<and>
    ls = l1 @ map wb_rest (sk_low s)"
  using stream_run_at [OF assms(1-4)] unfolding s_def stream_at_def stream_of_def by metis

text \<open>A kernel of which only \<open>write\<close> and \<open>sendto\<close> matter, one that answers them from a list, and a server with
  a connected socket of identifier 1.\<close>

definition plain_kernel :: "('w \<Rightarrow> bytes \<Rightarrow> nat io_result \<times> 'w) \<Rightarrow> 'w kernel" where
  "plain_kernel f =
     \<lparr>k_write = (\<lambda>w fd data. f w data), k_sendto = (\<lambda>w fd data sa. f w data),
      k_read = (\<lambda>w fd sz. (IO_EAGAIN, w)), k_recvfrom = (\<lambda>w fd. (IO_EAGAIN, w)), k_accept = (\<lambda>w fd. (Accept_failed, w)),
      k_so_error = (\<lambda>w fd. (Inr 0, w)), k_getpeername = (\<lambda>w fd. (None, w)), k_epoll_add = (\<lambda>w fd. (False, w)),
      k_epoll_wait = (\<lambda>w. ([], False, w)), k_select = (\<lambda>w. (True, w)), k_getaddrinfo = (\<lambda>w h p t. (Inl 0, w)),
      k_socket = (\<lambda>w v6 t. (- 1, w)), k_connect = (\<lambda>w fd sa. (Connect_failed, w)), k_reuseaddr = (\<lambda>w fd. (True, w)),
      k_bind = (\<lambda>w fd sa. (True, w)), k_listen = (\<lambda>w fd b. (True, w)), k_inet_ntop = (\<lambda>sa. None),
      k_strerror = (\<lambda>e. []), k_gai_strerror = (\<lambda>e. []), k_errno = (\<lambda>w. 0)\<rparr>"

definition tape_write :: "nat io_result list \<Rightarrow> bytes \<Rightarrow> nat io_result \<times> nat io_result list" where
  "tape_write w data = (case w of [] \<Rightarrow> (IO_EAGAIN, []) | IO_ok n # t \<Rightarrow> (IO_ok (min n (length data)), t) | r # t \<Rightarrow> (r, t))"

definition tape_kernel :: "nat io_result list kernel" where
  "tape_kernel = plain_kernel tape_write"

lemma tape_kernel_bounded: "write_bounded tape_kernel"
  by (auto simp: write_bounded_def tape_kernel_def plain_kernel_def tape_write_def split: list.splits io_result.splits)

definition demo_server :: "'w \<Rightarrow> 'w socket_server" where
  "demo_server w =
     (case socket_server_create 3 (Some (4, 5)) False w of
        Some (_, Some ss) \<Rightarrow>
          upd_sock 1 (\<lambda>s. s\<lparr>sk_type := SOCKET_TYPE_CONNECTED, sk_id := 1, sk_fd := 9, sk_p := P_size 64\<rparr>) ss)"

definition demo_block :: "u64 \<Rightarrow> bytes \<Rightarrow> mblock" where
  "demo_block a b = \<lparr>blk_addr = a, blk_bytes = b\<rparr>"

datatype stream_op = Op_send priority mblock | Op_flush

fun run_ops :: "'w kernel \<Rightarrow> int \<Rightarrow> stream_op list \<Rightarrow> 'w socket_server \<Rightarrow> 'w socket_server option" where
  "run_ops K j [] ss = Some ss"
| "run_ops K j (op # ops) ss =
     do { (r, ss) \<leftarrow> (case op of Op_send p b \<Rightarrow> send_socket K (raw_request j b) p None ss
                      | Op_flush \<Rightarrow> send_buffer K (HASH_ID j) ss);
          assert_opt (r \<noteq> SOCKET_CLOSE);
          run_ops K j ops ss }"

definition op_sub :: "priority \<Rightarrow> stream_op \<Rightarrow> bytes list" where
  "op_sub q op = (case op of Op_send p b \<Rightarrow> sub q p b | Op_flush \<Rightarrow> [])"

lemma run_ops_stream:
  "run_ops K j ops ss = Some ss' \<Longrightarrow> stream_run K j ss0 hs ls ss \<Longrightarrow>
     stream_run K j ss0 (hs @ concat (map (op_sub PRIORITY_HIGH) ops)) (ls @ concat (map (op_sub PRIORITY_LOW) ops)) ss'"
proof (induction ops arbitrary: ss hs ls)
  case (Cons op ops)
  then obtain r s1 where s1: "(case op of Op_send p b \<Rightarrow> send_socket K (raw_request j b) p None ss
      | Op_flush \<Rightarrow> send_buffer K (HASH_ID j) ss) = Some (r, s1)" "r \<noteq> SOCKET_CLOSE" "run_ops K j ops s1 = Some ss'"
    by (auto simp: bind_eq_Some_conv)
  have "stream_run K j ss0 (hs @ op_sub PRIORITY_HIGH op) (ls @ op_sub PRIORITY_LOW op) s1"
    using s1(1,2) Cons.prems(2) by (cases op) (auto simp: op_sub_def intro: run_send run_flush)
  from Cons.IH [OF s1(3) this] show ?case by simp
qed simp

text \<open>
  A packet of two bytes of which one is written; a second one behind it and a low-priority one; then the kernel
  takes both and one byte of the third.
\<close>

definition demo_ops :: "stream_op list" where
  "demo_ops = [Op_send PRIORITY_HIGH (demo_block 100 [1, 2]), Op_send PRIORITY_LOW (demo_block 300 [4, 5]),
     Op_send PRIORITY_HIGH (demo_block 200 [3]), Op_flush]"

definition demo_start :: "nat io_result list socket_server" where
  "demo_start = demo_server [IO_ok 1, IO_ok 9, IO_EINTR, IO_ok 9, IO_ok 1]"

declare send_list_tcp.simps [code]

lemma demo_run:
  "map_option (\<lambda>ss. (wire 9 (ss_calls ss), map wb_rest (sk_high (ss_slot ss 1)), sk_fd (ss_slot ss 1)))
     (run_ops tape_kernel 1 demo_ops demo_start) = Some ([1, 2, 3, 4], [[5]], 9)"
  by code_simp

lemma demo_start_open: "open_stream 1 (ss_slot demo_start (HASH_ID 1))" "send_buffer_empty (ss_slot demo_start (HASH_ID 1))"
  by code_simp+

lemma HASH_1: "HASH_ID 1 = 1"
  by (simp add: HASH_ID_def MAX_SOCKET_def)

lemma demo_subs:
  "concat (map (op_sub PRIORITY_HIGH) demo_ops) = [[1, 2], [3]]" "concat (map (op_sub PRIORITY_LOW) demo_ops) = [[4, 5]]"
  by (simp_all add: demo_ops_def op_sub_def sub_def demo_block_def)

theorem socket_stream_whole_packets_witness:
  "\<exists>ss :: nat io_result list socket_server. wire 9 (ss_calls ss) = [1, 2, 3, 4] \<and> sk_fd (ss_slot ss 1) = 9 \<and>
     (\<exists>dn al l1. [1, 2, 3, 4] = wire 9 (ss_calls demo_start) @ concat dn @ al \<and>
       dn @ full_packets al (sk_high (ss_slot ss 1)) \<in> shuffles [[1, 2], [3]] l1 \<and>
       [[4, 5]] = l1 @ map wb_rest (sk_low (ss_slot ss 1)))"
proof -
  from demo_run obtain ss where ss: "run_ops tape_kernel 1 demo_ops demo_start = Some ss"
    "wire 9 (ss_calls ss) = [1, 2, 3, 4]" "sk_fd (ss_slot ss 1) = 9" by auto
  have "stream_run tape_kernel 1 demo_start [[1, 2], [3]] [[4, 5]] ss"
    using run_ops_stream [OF ss(1) run_start] by (simp add: demo_subs)
  from socket_stream_whole_packets [OF this tape_kernel_bounded demo_start_open] ss(2,3) show ?thesis
    unfolding HASH_1 by (intro exI [of _ ss]) auto
qed

end
