(* ===== verification/Socket_Protocol.thy ===== *)
theory Socket_Protocol
  imports Socket_Stream
begin

section \<open>The life of the sockets\<close>

subsection \<open>Flushing moves buffers, it loses none\<close>

definition pending :: "socket \<Rightarrow> write_buffer list" where
  "pending s = sk_high s @ sk_low s"

definition frame_kept :: "'w socket_server \<Rightarrow> 'w socket_server \<Rightarrow> bool" where
  "frame_kept ss ss' \<longleftrightarrow> ss_pipe ss' = ss_pipe ss \<and> ss_ev ss' = ss_ev ss \<and> ss_event_index ss' = ss_event_index ss \<and>
     ss_alloc_id ss' = ss_alloc_id ss \<and> ss_soi ss' = ss_soi ss \<and> ss_checkctrl ss' = ss_checkctrl ss"

lemma frame_kept_refl [simp]: "frame_kept ss ss"
  by (simp add: frame_kept_def)

text \<open>The bytes that \<open>wb_size\<close> counts beyond those that wait.\<close>

definition size_error :: "socket \<Rightarrow> int" where
  "size_error s = sk_wb_size s - int (length (rest_bytes (pending s)))"

definition flushed :: "nat \<Rightarrow> 'w socket_server \<Rightarrow> 'w socket_server \<Rightarrow> bool" where
  "flushed i ss ss' \<longleftrightarrow>
     (let s = ss_slot ss i; s' = ss_slot ss' i
      in ss_freed ss' @ map wb_key (pending s') = ss_freed ss @ map wb_key (pending s) \<and>
         size_error s' = size_error s \<and> same_conn s s' \<and> sk_opaque s' = sk_opaque s \<and> sk_p s' = sk_p s \<and>
         (\<forall>k. k \<noteq> i \<longrightarrow> ss_slot ss' k = ss_slot ss k) \<and> frame_kept ss ss' \<and>
         (sk_protocol s = PROTOCOL_TCP \<longrightarrow>
            wire (sk_fd s) (ss_calls ss') @ rest_bytes (pending s') = wire (sk_fd s) (ss_calls ss) @ rest_bytes (pending s)))"

lemma flushed_refl [simp]: "flushed i ss ss"
  by (simp add: flushed_def same_conn_def)

lemma flushed_trans: "flushed i ss s1 \<Longrightarrow> flushed i s1 s2 \<Longrightarrow> flushed i ss s2"
  by (simp add: flushed_def Let_def same_conn_def frame_kept_def)

lemma flushed_conn: "flushed i ss s1 \<Longrightarrow> same_conn (ss_slot ss i) (ss_slot s1 i)"
  by (simp add: flushed_def Let_def)

lemma advance_head_rest: "n \<le> length (head_bytes l) \<Longrightarrow> take n (head_bytes l) @ rest_bytes (advance_head n l) = rest_bytes l"
  "map wb_key (advance_head n l) = map wb_key l"
  "n \<le> length (head_bytes l) \<Longrightarrow> length (rest_bytes (advance_head n l)) = length (rest_bytes l) - n"
  by (cases l; simp add: wb_advance_def wb_key_def)+

lemma pending_list:
  assumes "p = PRIORITY_HIGH \<or> sk_high s = []" "get_list p s = sent @ left"
  shows "\<exists>t. pending s = sent @ left @ t \<and> (\<forall>l n. pending ((set_list p l s)\<lparr>sk_wb_size := n\<rparr>) = l @ t)"
  using assms by (cases p) (auto simp: pending_def get_list_def set_list_def)

lemma flushed_sent:
  assumes "p = PRIORITY_HIGH \<or> sk_high (ss_slot ss i) = []" "get_list p (ss_slot ss i) = sent @ left"
    "n \<le> length (head_bytes left)"
    "sk_protocol (ss_slot ss i) = PROTOCOL_TCP \<Longrightarrow>
       wire (sk_fd (ss_slot ss i)) cs = rest_bytes sent @ take n (head_bytes left)"
  shows "flushed i ss (sent_to i p sent left n cs w ss)"
proof -
  from pending_list [OF assms(1,2)] obtain t where t: "pending (ss_slot ss i) = sent @ left @ t"
    "\<And>l m. pending ((set_list p l (ss_slot ss i))\<lparr>sk_wb_size := m\<rparr>) = l @ t" by blast
  have "n \<le> length (rest_bytes left)" using assms(3) by (cases left) auto
  then show ?thesis
    using assms(3,4) advance_head_rest [of n left]
    by (simp add: flushed_def Let_def t size_error_def same_conn_def frame_kept_def)
qed

text \<open>A list is sent, whatever the protocol: it is flushed, and the socket may be closed at the first error.\<close>

lemma send_list_flushes:
  assumes "send_list K i p ss = Some (r, ss')" "write_bounded K" "p = PRIORITY_HIGH \<or> sk_high (ss_slot ss i) = []"
    "sk_type (ss_slot ss i) \<noteq> SOCKET_TYPE_INVALID" "sk_type (ss_slot ss i) \<noteq> SOCKET_TYPE_RESERVE"
  shows "\<exists>mid. flushed i ss mid \<and> get_list (if p = PRIORITY_HIGH then PRIORITY_LOW else PRIORITY_HIGH) (ss_slot mid i) =
      get_list (if p = PRIORITY_HIGH then PRIORITY_LOW else PRIORITY_HIGH) (ss_slot ss i) \<and>
    (\<exists>sent left n. get_list p (ss_slot ss i) = sent @ left \<and> get_list p (ss_slot mid i) = advance_head n left) \<and>
    (r = SOCKET_NOTHING \<and> ss' = mid \<or> r = SOCKET_CLOSE \<and> ss' = closed_state i mid)"
proof (cases "sk_protocol (ss_slot ss i) = PROTOCOL_TCP")
  case True
  with assms(1) have "send_list_tcp K i p ss = Some (r, ss')" by (simp add: send_list_def)
  from send_list_tcp_spec [OF this assms(2)] obtain sent left n cs w where up: "sent_upto i p sent left n cs ss" and
    r: "r = SOCKET_NOTHING \<and> ss' = sent_to i p sent left n cs w ss \<or>
        r = SOCKET_CLOSE \<and> n = 0 \<and> force_close i (sent_to i p sent left 0 cs w ss) = Some ss'" by blast
  let ?mid = "sent_to i p sent left n cs w ss"
  have "flushed i ss ?mid"
    using up assms(3) by (intro flushed_sent) (auto simp: sent_upto_def)
  moreover have "r = SOCKET_NOTHING \<and> ss' = ?mid \<or> r = SOCKET_CLOSE \<and> ss' = closed_state i ?mid"
    using r assms(4,5) force_close_open [of ?mid i] by (auto simp: closed_state_def)
  moreover have "get_list p (ss_slot ss i) = sent @ left" "get_list p (ss_slot ?mid i) = advance_head n left"
    using up by (simp_all add: sent_upto_def)
  ultimately show ?thesis
    by (intro exI [of _ ?mid]) (cases p; auto simp: get_list_def)
next
  case False
  from send_list_udp_spec [of p ss i K] obtain sent left cs w where
    u: "get_list p (ss_slot ss i) = sent @ left" "send_list_udp K i p ss = (SOCKET_NOTHING, sent_to i p sent left 0 cs w ss)"
    by blast
  let ?mid = "sent_to i p sent left 0 cs w ss"
  have "flushed i ss ?mid" using u(1) assms(3) False by (intro flushed_sent) auto
  moreover have "get_list p (ss_slot ?mid i) = advance_head 0 left" "r = SOCKET_NOTHING" "ss' = ?mid"
    using u(2) assms(1) False by (auto simp: send_list_def)
  moreover have "get_list (if p = PRIORITY_HIGH then PRIORITY_LOW else PRIORITY_HIGH) (ss_slot ?mid i) =
      get_list (if p = PRIORITY_HIGH then PRIORITY_LOW else PRIORITY_HIGH) (ss_slot ss i)"
    by (cases p) (simp_all add: get_list_def)
  ultimately show ?thesis using u(1) by metis
qed

lemma flushed_pending:
  assumes "flushed i ss s1" "pending (ss_slot s2 i) = pending (ss_slot s1 i)" "ss_freed s2 = ss_freed s1"
    "sk_wb_size (ss_slot s2 i) = sk_wb_size (ss_slot s1 i)" "same_conn (ss_slot s1 i) (ss_slot s2 i)"
    "sk_opaque (ss_slot s2 i) = sk_opaque (ss_slot s1 i)" "sk_p (ss_slot s2 i) = sk_p (ss_slot s1 i)"
    "\<And>k. k \<noteq> i \<Longrightarrow> ss_slot s2 k = ss_slot s1 k" "frame_kept s1 s2" "\<And>fd. wire fd (ss_calls s2) = wire fd (ss_calls s1)"
  shows "flushed i ss s2"
  using assms by (simp add: flushed_def Let_def size_error_def same_conn_def frame_kept_def)

lemma send_buffer_done_flushes:
  assumes "send_buffer_done i s1 = Some (r, ss')" "flushed i ss s1"
    "sk_type (ss_slot ss i) \<noteq> SOCKET_TYPE_INVALID" "sk_type (ss_slot ss i) \<noteq> SOCKET_TYPE_RESERVE"
  shows "pending (ss_slot s1 i) = [] \<and> sk_wb_size (ss_slot s1 i) = 0 \<and>
    (r = SOCKET_CLOSE \<and> sk_type (ss_slot ss i) = SOCKET_TYPE_HALFCLOSE \<and>
       (\<exists>mid. flushed i ss mid \<and> pending (ss_slot mid i) = [] \<and> ss' = closed_state i mid) \<or>
     (r = SOCKET_NOTHING \<or> r = SOCKET_WARNING) \<and> flushed i ss ss' \<and> pending (ss_slot ss' i) = [])"
proof -
  let ?s = "ss_slot s1 i" and ?s2 = "sp_write (sk_fd (ss_slot s1 i)) False s1"
  have e: "pending ?s = []" "sk_wb_size ?s = 0"
    using assms(1) by (auto simp: send_buffer_done_def send_buffer_empty_def pending_def Let_def)
  have ty: "sk_type ?s = sk_type (ss_slot ss i)" using flushed_conn [OF assms(2)] by (simp add: same_conn_def)
  have f2: "flushed i ss ?s2"
    by (rule flushed_pending [OF assms(2)]) (simp_all add: sp_write_def sys_do_def same_conn_def frame_kept_def)
  show ?thesis
  proof (cases "sk_type ?s = SOCKET_TYPE_HALFCLOSE")
    case True
    have "force_close i ?s2 = Some (closed_state i ?s2)"
      using True by (intro force_close_open) (simp_all add: sp_write_def sys_do_def)
    with assms(1) True have "r = SOCKET_CLOSE" "ss' = closed_state i ?s2"
      by (auto simp: send_buffer_done_def Let_def)
    moreover have "pending (ss_slot ?s2 i) = []" using e by (simp add: sp_write_def sys_do_def)
    ultimately show ?thesis using e f2 ty True by metis
  next
    case False
    show ?thesis
    proof (cases "0 < sk_warn_size ?s")
      case True
      with assms(1) False have r: "r = SOCKET_WARNING"
        "ss' = put_result (sk_id ?s) (sk_opaque ?s) 0 Data_null (upd_sock i (\<lambda>s. s\<lparr>sk_warn_size := 0\<rparr>) ?s2)"
        by (auto simp: send_buffer_done_def Let_def)
      have "flushed i ss ss'"
        by (rule flushed_pending [OF f2]) (simp_all add: r ss_defs same_conn_def frame_kept_def pending_def)
      with r e show ?thesis by (simp add: ss_defs pending_def)
    next
      case F: False
      with assms(1) False have "r = SOCKET_NOTHING" "ss' = ?s2" by (auto simp: send_buffer_done_def Let_def)
      with f2 e show ?thesis by (simp add: sp_write_def sys_do_def)
    qed
  qed
qed

lemma raise_flushes:
  "raise_uncomplete i s1 = Some s2 \<Longrightarrow> flushed i s1 s2"
  by (intro flushed_pending [OF flushed_refl])
    (auto simp: raise_uncomplete_def upd_sock_def pending_def same_conn_def frame_kept_def split: list.splits)

text \<open>
  \<open>send_buffer\<close> flushes; it closes the socket at an error of the kernel, or once nothing waits in a half-closed
  one. Closing frees what still waits.
\<close>

lemma send_buffer_flushes:
  assumes run: "send_buffer K i ss = Some (r, ss')" and K: "write_bounded K"
    and ty: "sk_type (ss_slot ss i) \<noteq> SOCKET_TYPE_INVALID" "sk_type (ss_slot ss i) \<noteq> SOCKET_TYPE_RESERVE"
  shows "r = SOCKET_CLOSE \<and> (\<exists>mid. flushed i ss mid \<and> ss' = closed_state i mid) \<or>
    (r = SOCKET_NOTHING \<or> r = SOCKET_WARNING) \<and> flushed i ss ss' \<and> (r = SOCKET_WARNING \<longrightarrow> pending (ss_slot ss' i) = []) \<and>
       set (sk_low (ss_slot ss' i)) \<subseteq> set (sk_low (ss_slot ss i))"
proof -
  from run obtain r1 s1 where l1: "send_list K i PRIORITY_HIGH ss = Some (r1, s1)"
    and rest: "(if r1 = SOCKET_CLOSE then Some (SOCKET_CLOSE, s1)
          else if sk_high (ss_slot s1 i) \<noteq> [] then Some (SOCKET_NOTHING, s1)
          else if sk_low (ss_slot s1 i) = [] then send_buffer_done i s1 else send_low K i s1) = Some (r, ss')"
    by (auto simp: send_buffer_def bind_eq_Some_conv)
  from send_list_flushes [OF l1 K _ ty] obtain mid where mid: "flushed i ss mid" and low: "sk_low (ss_slot mid i) = sk_low (ss_slot ss i)"
    and r1: "r1 = SOCKET_NOTHING \<and> s1 = mid \<or> r1 = SOCKET_CLOSE \<and> s1 = closed_state i mid" by (auto simp: get_list_def)
  show ?thesis
  proof (cases "r1 = SOCKET_CLOSE \<or> sk_high (ss_slot s1 i) \<noteq> [] \<or> sk_low (ss_slot s1 i) = []")
    case True
    with mid low r1 rest send_buffer_done_flushes [of i s1 r ss' ss] ty show ?thesis
      by (auto simp: pending_def split: if_splits)
  next
    case False
    with r1 have s1: "s1 = mid" "sk_high (ss_slot s1 i) = []" by auto
    have ty1: "sk_type (ss_slot s1 i) \<noteq> SOCKET_TYPE_INVALID" "sk_type (ss_slot s1 i) \<noteq> SOCKET_TYPE_RESERVE"
      using ty flushed_conn [OF mid] by (simp_all add: s1 same_conn_def)
    from rest False obtain r2 s2 where l2: "send_list K i PRIORITY_LOW s1 = Some (r2, s2)"
      and rest2: "(if r2 = SOCKET_CLOSE then Some (SOCKET_CLOSE, s2)
          else if list_uncomplete (sk_low (ss_slot s2 i))
          then do { ss \<leftarrow> raise_uncomplete i s2; Some (SOCKET_NOTHING, ss) }
          else send_buffer_done i s2) = Some (r, ss')"
      by (auto simp: send_low_def bind_eq_Some_conv)
    from send_list_flushes [OF l2 K _ ty1] s1(2) obtain mid2 sent left n where mid2: "flushed i s1 mid2"
      and low2: "sk_low (ss_slot s1 i) = sent @ left" "sk_low (ss_slot mid2 i) = advance_head n left"
      and r2: "r2 = SOCKET_NOTHING \<and> s2 = mid2 \<or> r2 = SOCKET_CLOSE \<and> s2 = closed_state i mid2"
      by (auto simp: get_list_def)
    have f2: "flushed i ss mid2" using flushed_trans mid mid2 s1(1) by blast
    show ?thesis
    proof (cases "r2 = SOCKET_CLOSE")
      case True
      with r2 rest2 f2 show ?thesis by auto
    next
      case F: False
      with r2 have s2: "s2 = mid2" by simp
      show ?thesis
      proof (cases "list_uncomplete (sk_low (ss_slot s2 i))")
        case True
        then obtain wb l where l: "left = wb # l" using low2 s2 by (cases left) (auto simp: list_uncomplete_def)
        from True rest2 F have r: "raise_uncomplete i s2 = Some ss'" "r = SOCKET_NOTHING"
          by (auto simp: bind_eq_Some_conv)
        then have "sk_low (ss_slot ss' i) = l" using low2 l s2 by (auto simp: raise_uncomplete_def upd_sock_def)
        moreover have "set l \<subseteq> set (sk_low (ss_slot ss i))" using low low2 l s1 by auto
        ultimately show ?thesis using r raise_flushes [OF r(1)] f2 s2 flushed_trans by blast
      next
        case G: False
        with rest2 F have "send_buffer_done i s2 = Some (r, ss')" by simp
        from send_buffer_done_flushes [OF this _ ty] f2 s2 show ?thesis by (auto simp: pending_def)
      qed
    qed
  qed
qed

subsection \<open>The loops return\<close>

text \<open>A call of \<open>write\<close> is not interrupted for ever.\<close>

definition interrupts_end :: "'w kernel \<Rightarrow> bool" where
  "interrupts_end K \<longleftrightarrow> wf {(w', w). \<exists>fd data. k_write K w fd data = (IO_EINTR, w')}"

lemma send_list_tcp_returns:
  assumes K: "interrupts_end K"
    and "sk_type (ss_slot ss i) \<noteq> SOCKET_TYPE_INVALID" "sk_type (ss_slot ss i) \<noteq> SOCKET_TYPE_RESERVE"
  shows "\<exists>y. send_list_tcp K i p ss = Some y"
  using assms(2,3)
proof (induction "get_list p (ss_slot ss i)" arbitrary: ss)
  case Nil
  then show ?case by (simp add: send_list_tcp.simps [of K i p ss] flip: Nil(1))
next
  case (Cons tmp rest)
  note outer = Cons.hyps(1) and list = Cons.hyps(2) and prems = Cons.prems
  have "tmp # rest = get_list p (ss_slot x i) \<longrightarrow> sk_type (ss_slot x i) \<noteq> SOCKET_TYPE_INVALID \<longrightarrow>
      sk_type (ss_slot x i) \<noteq> SOCKET_TYPE_RESERVE \<longrightarrow> (\<exists>y. send_list_tcp K i p x = Some y)"
    if "ss_world x = w" for w and x :: "'a socket_server"
    using K [unfolded interrupts_end_def] that
  proof (induction w arbitrary: x rule: wf_induct_rule)
    case (less w)
    let ?fd = "sk_fd (ss_slot x i)"
    obtain q w' where q: "k_write K (ss_world x) ?fd (wb_rest tmp) = (q, w')" by fastforce
    show ?case
    proof (intro impI)
      assume x: "tmp # rest = get_list p (ss_slot x i)" "sk_type (ss_slot x i) \<noteq> SOCKET_TYPE_INVALID"
        "sk_type (ss_slot x i) \<noteq> SOCKET_TYPE_RESERVE"
      note unf = send_list_tcp.simps [of K i p x, folded x(1), simplified]
      show "\<exists>y. send_list_tcp K i p x = Some y"
      proof (cases q)
        case IO_EINTR
        then have "(w', w) \<in> {(w', w). \<exists>fd data. k_write K w fd data = (IO_EINTR, w')}"
          using q less.prems by auto
        from less.IH [OF this, of "x\<lparr>ss_world := w'\<rparr>"] x IO_EINTR show ?thesis
          by (simp add: unf sys_write_def sys_ask_def q)
      next
        case (IO_ok n)
        let ?x1 = "write_buffer_free tmp (upd_sock i (set_list p rest) (sub_wb_size i (int n)
            (sys_do (Sys_write ?fd (take n (wb_rest tmp))) (x\<lparr>ss_world := w'\<rparr>))))"
        have "\<exists>y. send_list_tcp K i p ?x1 = Some y"
          by (rule outer) (use x in \<open>simp_all add: ss_defs\<close>)
        then show ?thesis using IO_ok by (cases "int n = wb_sz tmp") (simp_all add: unf sys_write_def sys_ask_def q)
      next
        case (IO_error e)
        then show ?thesis using x force_close_open [of "x\<lparr>ss_world := w'\<rparr>" i] by (simp add: unf sys_write_def sys_ask_def q)
      qed (simp add: unf sys_write_def sys_ask_def q)
    qed
  qed
  from this [OF refl, of ss] list prems show ?case by blast
qed

text \<open>From the worlds \<open>W\<close> on, the kernel takes all bytes written to \<open>fd\<close>.\<close>

definition takes_all :: "'w kernel \<Rightarrow> int \<Rightarrow> 'w set \<Rightarrow> bool" where
  "takes_all K fd W \<longleftrightarrow> (\<forall>w \<in> W. \<forall>data. \<exists>w' \<in> W. k_write K w fd data = (IO_ok (length data), w'))"

lemma send_list_tcp_all:
  assumes "takes_all K (sk_fd (ss_slot ss i)) W" "ss_world ss \<in> W"
  shows "\<exists>cs. \<exists>w \<in> W. send_list_tcp K i p ss =
    Some (SOCKET_NOTHING, sent_to i p (get_list p (ss_slot ss i)) [] 0 cs w ss)"
  using assms
proof (induction "get_list p (ss_slot ss i)" arbitrary: ss)
  case Nil
  have "sent_to i p [] [] 0 [] (ss_world ss) ss = ss" using sent_state_0 [of i p ss] Nil(1) [symmetric] by simp
  then show ?case using Nil(1) [symmetric] Nil.prems
    by (intro exI [of _ "[]"] bexI [of _ "ss_world ss"]) (simp_all add: send_list_tcp.simps [of K i p ss])
next
  case (Cons tmp rest)
  let ?fd = "sk_fd (ss_slot ss i)"
  from Cons.prems obtain w' where w': "k_write K (ss_world ss) ?fd (wb_rest tmp) = (IO_ok (length (wb_rest tmp)), w')" "w' \<in> W"
    by (force simp: takes_all_def)
  let ?c = "Sys_write ?fd (wb_rest tmp)" and ?s1 = "sent_to i p [tmp] rest 0 [Sys_write ?fd (wb_rest tmp)] w' ss"
  have e: "write_buffer_free tmp (upd_sock i (set_list p rest) (sub_wb_size i (int (length (wb_rest tmp)))
      (sys_do ?c (ss\<lparr>ss_world := w'\<rparr>)))) = ?s1"
    by (simp add: ss_defs sent_state_def wb_key_def)
  have "send_list_tcp K i p ss = send_list_tcp K i p ?s1"
    by (subst send_list_tcp.simps) (simp add: sys_write_def sys_ask_def w' wb_sz_def e flip: Cons(2))
  moreover from Cons(1) [of ?s1] Cons.prems w'(2) obtain cs w where "w \<in> W"
    "send_list_tcp K i p ?s1 = Some (SOCKET_NOTHING, sent_to i p rest [] 0 cs w ?s1)" by auto
  ultimately show ?case
    by (intro exI [of _ "?c # cs"] bexI [of _ w]) (simp_all add: sent_state_trans flip: Cons(2))
qed

subsection \<open>A graceful close\<close>

text \<open>No buffer of the low list was written in part, and \<open>wb_size\<close> counts what waits.\<close>

definition buffers_ok :: "socket \<Rightarrow> bool" where
  "buffers_ok s \<longleftrightarrow> (\<forall>wb \<in> set (sk_low s). wb_ptr wb = blk_addr (wb_buffer wb)) \<and> size_error s = 0"

lemma buffers_ok_complete: "buffers_ok s \<Longrightarrow> \<not> list_uncomplete (sk_low s)"
  by (auto simp: buffers_ok_def list_uncomplete_def split: list.splits)

lemma send_buffer_keeps_ok:
  assumes "send_buffer K i ss = Some (r, ss')" "write_bounded K" "r \<noteq> SOCKET_CLOSE" "buffers_ok (ss_slot ss i)"
    "sk_type (ss_slot ss i) \<noteq> SOCKET_TYPE_INVALID" "sk_type (ss_slot ss i) \<noteq> SOCKET_TYPE_RESERVE"
  shows "flushed i ss ss' \<and> buffers_ok (ss_slot ss' i)"
  using send_buffer_flushes [OF assms(1,2,5,6)] assms(3,4) by (auto simp: buffers_ok_def flushed_def Let_def)

lemma half_closed_drains:
  assumes "sk_protocol (ss_slot ss i) = PROTOCOL_TCP" "sk_type (ss_slot ss i) = SOCKET_TYPE_HALFCLOSE"
    and ok: "buffers_ok (ss_slot ss i)" and W: "takes_all K (sk_fd (ss_slot ss i)) W" "ss_world ss \<in> W"
    and K: "write_bounded K"
  shows "\<exists>mid. send_buffer K i ss = Some (SOCKET_CLOSE, closed_state i mid) \<and> flushed i ss mid \<and> pending (ss_slot mid i) = []"
proof -
  from send_list_tcp_all [OF W, of PRIORITY_HIGH] obtain cs w where w: "w \<in> W"
    and l1: "send_list_tcp K i PRIORITY_HIGH ss =
      Some (SOCKET_NOTHING, sent_to i PRIORITY_HIGH (sk_high (ss_slot ss i)) [] 0 cs w ss)"
    by (auto simp: get_list_def)
  let ?s1 = "sent_to i PRIORITY_HIGH (sk_high (ss_slot ss i)) [] 0 cs w ss"
  have l1': "send_list K i PRIORITY_HIGH ss = Some (SOCKET_NOTHING, ?s1)" using assms(1) l1 by (simp add: send_list_def)
  have f1: "flushed i ss ?s1" using send_list_flushes [OF l1' K] assms(2) by auto
  have h1: "sk_high (ss_slot ?s1 i) = []" "sk_low (ss_slot ?s1 i) = sk_low (ss_slot ss i)" by simp_all
  have "\<exists>s2. flushed i ss s2 \<and> pending (ss_slot s2 i) = [] \<and> send_buffer K i ss = send_buffer_done i s2"
  proof (cases "sk_low (ss_slot ss i) = []")
    case True
    then show ?thesis using f1 l1' ok [THEN buffers_ok_complete]
      by (intro exI [of _ ?s1]) (simp add: send_buffer_def pending_def)
  next
    case False
    from W send_list_tcp_all [of K ?s1 i W PRIORITY_LOW] w obtain cs2 w2 where
      l2: "send_list_tcp K i PRIORITY_LOW ?s1 = Some (SOCKET_NOTHING, sent_to i PRIORITY_LOW (sk_low (ss_slot ss i)) [] 0 cs2 w2 ?s1)"
      by (auto simp: get_list_def)
    let ?s2 = "sent_to i PRIORITY_LOW (sk_low (ss_slot ss i)) [] 0 cs2 w2 ?s1"
    have l2': "send_list K i PRIORITY_LOW ?s1 = Some (SOCKET_NOTHING, ?s2)" using assms(1) l2 by (simp add: send_list_def)
    have "flushed i ?s1 ?s2" using send_list_flushes [OF l2' K] assms(2) h1 by auto
    with f1 have "flushed i ss ?s2" by (rule flushed_trans)
    moreover have "send_buffer K i ss = send_buffer_done i ?s2"
      using False l1' l2' ok [THEN buffers_ok_complete] by (simp add: send_buffer_def send_low_def list_uncomplete_def)
    ultimately show ?thesis by (intro exI [of _ ?s2]) (simp add: pending_def)
  qed
  then obtain s2 where s2: "flushed i ss s2" "pending (ss_slot s2 i) = []" "send_buffer K i ss = send_buffer_done i s2"
    by blast
  then have "send_buffer_empty (ss_slot s2 i)" "sk_wb_size (ss_slot s2 i) = 0" "sk_type (ss_slot s2 i) = SOCKET_TYPE_HALFCLOSE"
    using ok assms(2)
    by (auto simp: flushed_def Let_def buffers_ok_def size_error_def send_buffer_empty_def pending_def same_conn_def)
  then have "send_buffer_done i s2 = Some (SOCKET_CLOSE, closed_state i (sp_write (sk_fd (ss_slot s2 i)) False s2))"
    using force_close_open [of "sp_write (sk_fd (ss_slot s2 i)) False s2" i]
    by (simp add: send_buffer_done_def Let_def sp_write_def sys_do_def)
  moreover have "flushed i ss (sp_write (sk_fd (ss_slot s2 i)) False s2)"
    by (rule flushed_pending [OF s2(1)]) (simp_all add: sp_write_def sys_do_def same_conn_def frame_kept_def)
  ultimately show ?thesis using s2(2,3) by (intro exI [of _ "sp_write (sk_fd (ss_slot s2 i)) False s2"])
      (simp add: sp_write_def sys_do_def)
qed

lemma close_half:
  assumes "close_socket K j False opaque ss = Some (SOCKET_NOTHING, ss1)" "write_bounded K" "buffers_ok (ss_slot ss (HASH_ID j))"
    and "sk_id (ss_slot ss (HASH_ID j)) = j" "sk_type (ss_slot ss (HASH_ID j)) \<in> {SOCKET_TYPE_CONNECTED, SOCKET_TYPE_HALFCLOSE}"
  obtains s1 where "flushed (HASH_ID j) ss s1" "buffers_ok (ss_slot s1 (HASH_ID j))" "ss1 = set_type (HASH_ID j) SOCKET_TYPE_HALFCLOSE s1"
proof -
  let ?i = "HASH_ID j"
  have ty: "sk_type (ss_slot ss ?i) \<noteq> SOCKET_TYPE_INVALID" "sk_type (ss_slot ss ?i) \<noteq> SOCKET_TYPE_RESERVE"
    using assms(5) by auto
  from assms(1) ty assms(4) obtain r s1 where
    "(if send_buffer_empty (ss_slot ss ?i) then Some (SOCKET_NOTHING, ss) else send_buffer K ?i ss) = Some (r, s1)"
    "r \<noteq> SOCKET_CLOSE" "\<not> send_buffer_empty (ss_slot s1 ?i)" "ss1 = set_type ?i SOCKET_TYPE_HALFCLOSE s1"
    by (auto simp: close_socket_def Let_def bind_eq_Some_conv split: if_splits)
  then have s1: "send_buffer K ?i ss = Some (r, s1)" "r \<noteq> SOCKET_CLOSE" "ss1 = set_type ?i SOCKET_TYPE_HALFCLOSE s1"
    by (auto split: if_splits)
  from send_buffer_keeps_ok [OF s1(1) assms(2) s1(2) assms(3) ty] s1(3) show ?thesis using that by blast
qed

text \<open>C24. A close loses nothing: when a TCP connection is closed while bytes wait and the kernel does not take
  them all at once, the socket becomes half closed; packets sent to it from then on are freed without being written;
  and once the kernel takes what it is given, the next event writes exactly the bytes that were waiting at the time
  of the close, in order, frees each of their buffers once, closes the descriptor and reports the close.\<close>

theorem close_delivers_pending:
  assumes "close_socket K j False opaque ss = Some (SOCKET_NOTHING, ss1)" "write_bounded K" "buffers_ok (ss_slot ss (HASH_ID j))"
    and "sk_id (ss_slot ss (HASH_ID j)) = j" "sk_type (ss_slot ss (HASH_ID j)) \<in> {SOCKET_TYPE_CONNECTED, SOCKET_TYPE_HALFCLOSE}"
    and "sk_protocol (ss_slot ss (HASH_ID j)) = PROTOCOL_TCP"
    and "takes_all K (sk_fd (ss_slot ss (HASH_ID j))) W" "ss_world ss2 \<in> W"
    and "ss_slot ss2 (HASH_ID j) = ss_slot ss1 (HASH_ID j)"
    and "wire (sk_fd (ss_slot ss (HASH_ID j))) (ss_calls ss2) = wire (sk_fd (ss_slot ss (HASH_ID j))) (ss_calls ss1)"
  defines "s \<equiv> ss_slot ss (HASH_ID j)"
  shows "sk_type (ss_slot ss1 (HASH_ID j)) = SOCKET_TYPE_HALFCLOSE \<and>
    send_socket K (raw_request j b) p ua ss2 = Some (SOCKET_NOTHING, ss2\<lparr>ss_freed := ss_freed ss2 @ [(False, b)]\<rparr>) \<and>
    (\<exists>ss3. send_buffer K (HASH_ID j) ss2 = Some (SOCKET_CLOSE, ss3) \<and>
       wire (sk_fd s) (ss_calls ss3) = wire (sk_fd s) (ss_calls ss) @ rest_bytes (sk_high s @ sk_low s) \<and>
       ss_freed ss3 = ss_freed ss2 @ map wb_key (pending (ss_slot ss1 (HASH_ID j))) \<and>
       ss_freed ss1 @ map wb_key (pending (ss_slot ss1 (HASH_ID j))) = ss_freed ss @ map wb_key (sk_high s @ sk_low s) \<and>
       last (ss_calls ss3) = Sys_close (sk_fd s) \<and> sk_type (ss_slot ss3 (HASH_ID j)) = SOCKET_TYPE_INVALID)"
proof -
  let ?i = "HASH_ID j"
  from close_half [OF assms(1-5)] obtain s1 where f: "flushed ?i ss s1" "buffers_ok (ss_slot s1 ?i)"
    and s1: "ss1 = set_type ?i SOCKET_TYPE_HALFCLOSE s1" by blast
  have s2: "ss_slot ss2 ?i = (ss_slot s1 ?i)\<lparr>sk_type := SOCKET_TYPE_HALFCLOSE\<rparr>"
    using assms(9) by (simp add: s1 set_type_def upd_sock_def)
  then have s2': "sk_fd (ss_slot ss2 ?i) = sk_fd s" "sk_id (ss_slot ss2 ?i) = j" "sk_protocol (ss_slot ss2 ?i) = PROTOCOL_TCP"
    "buffers_ok (ss_slot ss2 ?i)" "sk_type (ss_slot ss2 ?i) = SOCKET_TYPE_HALFCLOSE"
    using f assms(4,6)
    by (simp_all add: flushed_def Let_def same_conn_def s_def buffers_ok_def size_error_def pending_def)
  from half_closed_drains [of ss2 ?i K W] s2' assms(2,7,8) obtain mid where
    mid: "send_buffer K ?i ss2 = Some (SOCKET_CLOSE, closed_state ?i mid)" "flushed ?i ss2 mid" "pending (ss_slot mid ?i) = []"
    by (auto simp: s_def)
  have p: "pending (ss_slot ss2 ?i) = pending (ss_slot s1 ?i)" "pending (ss_slot ss1 ?i) = pending (ss_slot s1 ?i)"
    "ss_freed ss1 = ss_freed s1" "wire (sk_fd s) (ss_calls ss2) = wire (sk_fd s) (ss_calls s1)" "pending s = sk_high s @ sk_low s"
    using assms(10) by (simp_all add: s1 s2 set_type_def upd_sock_def pending_def s_def)
  have c: "close_calls (ss_slot mid ?i) = [Sp_del (sk_fd s), Sys_close (sk_fd s)]"
    "map wb_key (sk_high (ss_slot mid ?i) @ sk_low (ss_slot mid ?i)) = []"
    using mid(2,3) s2' by (simp_all add: flushed_def Let_def same_conn_def close_calls_def pending_def)
  have w: "wire (sk_fd s) (ss_calls mid) = wire (sk_fd s) (ss_calls ss) @ rest_bytes (pending s)"
    using mid(2,3) f(1) s2' p assms(6) by (simp add: flushed_def Let_def same_conn_def s_def)
  have "ss_freed (closed_state ?i mid) = ss_freed ss2 @ map wb_key (pending (ss_slot ss1 ?i))"
    "ss_freed ss1 @ map wb_key (pending (ss_slot ss1 ?i)) = ss_freed ss @ map wb_key (pending s)"
    using mid(2,3) f(1) p c(2) by (simp_all add: flushed_def Let_def s_def)
  then have "wire (sk_fd s) (ss_calls (closed_state ?i mid)) = wire (sk_fd s) (ss_calls ss) @ rest_bytes (sk_high s @ sk_low s) \<and>
      ss_freed (closed_state ?i mid) = ss_freed ss2 @ map wb_key (pending (ss_slot ss1 ?i)) \<and>
      ss_freed ss1 @ map wb_key (pending (ss_slot ss1 ?i)) = ss_freed ss @ map wb_key (sk_high s @ sk_low s) \<and>
      last (ss_calls (closed_state ?i mid)) = Sys_close (sk_fd s) \<and>
      sk_type (ss_slot (closed_state ?i mid) ?i) = SOCKET_TYPE_INVALID"
    using w c(1) unfolding p(5) by simp
  moreover have "send_socket K (raw_request j b) p ua ss2 = Some (SOCKET_NOTHING, ss2\<lparr>ss_freed := ss_freed ss2 @ [(False, b)]\<rparr>)"
    using s2' by (simp add: send_socket_def so_free_def Let_def)
  ultimately show ?thesis using mid(1) by (auto simp: s1 set_type_def upd_sock_def)
qed

text \<open>A kernel that refuses the first two writes and then takes all.\<close>

definition late_write :: "nat \<Rightarrow> bytes \<Rightarrow> nat io_result \<times> nat" where
  "late_write n data = (if n = 0 then (IO_ok (length data), 0) else (IO_EAGAIN, n - 1))"

definition late_kernel :: "nat kernel" where
  "late_kernel = plain_kernel late_write"

definition demo_pending :: "nat socket_server" where
  "demo_pending = the (map_option snd (send_socket late_kernel (raw_request 1 (demo_block 100 [1, 2])) PRIORITY_HIGH None (demo_server 2)))"

definition demo_half :: "nat socket_server" where
  "demo_half = the (map_option snd (close_socket late_kernel 1 False 7 demo_pending))"

lemma demo_half_close: "close_socket late_kernel 1 False 7 demo_pending = Some (SOCKET_NOTHING, demo_half)"
proof -
  have "map_option fst (close_socket late_kernel 1 False 7 demo_pending) = Some SOCKET_NOTHING" by code_simp
  then show ?thesis by (auto simp: demo_half_def)
qed

lemma demo_half_facts:
  "sk_id (ss_slot demo_pending 1) = 1" "sk_type (ss_slot demo_pending 1) = SOCKET_TYPE_CONNECTED"
  "sk_protocol (ss_slot demo_pending 1) = PROTOCOL_TCP" "sk_fd (ss_slot demo_pending 1) = 9"
  "buffers_ok (ss_slot demo_pending 1)" "ss_world demo_half = 0"
  "wire 9 (ss_calls demo_pending) = []" "rest_bytes (sk_high (ss_slot demo_pending 1) @ sk_low (ss_slot demo_pending 1)) = [1, 2]"
  by code_simp+

theorem close_delivers_pending_witness:
  "sk_type (ss_slot demo_half 1) = SOCKET_TYPE_HALFCLOSE \<and>
   (\<exists>ss3. send_buffer late_kernel 1 demo_half = Some (SOCKET_CLOSE, ss3) \<and> wire 9 (ss_calls ss3) = [1, 2] \<and>
      sk_type (ss_slot ss3 1) = SOCKET_TYPE_INVALID)"
proof -
  have "write_bounded late_kernel" "takes_all late_kernel 9 {0}"
    by (auto simp: write_bounded_def takes_all_def late_kernel_def plain_kernel_def late_write_def split: if_splits)
  with close_delivers_pending [OF demo_half_close, where W = "{0}" and ?ss2.0 = demo_half and b = "demo_block 1 []" and p = PRIORITY_HIGH and ua = None, unfolded HASH_1] demo_half_facts
  show ?thesis by auto
qed

subsection \<open>Where sending goes wrong\<close>

text \<open>C28. A full kernel buffer aborts the process: when the high list has just been emptied and the kernel takes no
  byte of the first low-priority packet, the head of the low list is not partly sent, step 3 of \<open>send_buffer\<close> is
  skipped and the assertion of step 4, that both lists are empty, fails.\<close>

theorem low_refused_aborts:
  assumes "send_list_tcp K i PRIORITY_HIGH ss = Some (SOCKET_NOTHING, s1)" "sk_high (ss_slot s1 i) = []"
    and "sk_protocol (ss_slot ss i) = PROTOCOL_TCP" "sk_protocol (ss_slot s1 i) = PROTOCOL_TCP"
    and "sk_low (ss_slot s1 i) = wb # rest" "wb_ptr wb = blk_addr (wb_buffer wb)"
    and "k_write K (ss_world s1) (sk_fd (ss_slot s1 i)) (wb_rest wb) = (IO_EAGAIN, w)"
  shows "send_buffer K i ss = None"
proof -
  have "send_list_tcp K i PRIORITY_LOW s1 = Some (SOCKET_NOTHING, s1\<lparr>ss_world := w\<rparr>)"
    using assms(5,7) by (subst send_list_tcp.simps) (simp add: get_list_def sys_write_def sys_ask_def)
  then have "send_low K i s1 = None"
    using assms(4-6) by (simp add: send_low_def send_list_def list_uncomplete_def send_buffer_done_def send_buffer_empty_def Let_def)
  with assms show ?thesis by (simp add: send_buffer_def send_list_def bind_eq_None_conv)
qed

definition demo_low :: "nat io_result list socket_server" where
  "demo_low = the (run_ops tape_kernel 1 [Op_send PRIORITY_HIGH (demo_block 100 [1]), Op_send PRIORITY_LOW (demo_block 200 [2])]
     (demo_server [IO_EAGAIN, IO_ok 1, IO_EAGAIN]))"

theorem low_refused_aborts_witness:
  "send_buffer tape_kernel 1 demo_low = None"
proof -
  let ?s1 = "the (map_option snd (send_list_tcp tape_kernel 1 PRIORITY_HIGH demo_low))"
  have f: "map_option fst (send_list_tcp tape_kernel 1 PRIORITY_HIGH demo_low) = Some SOCKET_NOTHING" by code_simp
  then have s1: "send_list_tcp tape_kernel 1 PRIORITY_HIGH demo_low = Some (SOCKET_NOTHING, ?s1)"
    by (cases "send_list_tcp tape_kernel 1 PRIORITY_HIGH demo_low") auto
  have l: "sk_high (ss_slot ?s1 1) = []" "sk_protocol (ss_slot demo_low 1) = PROTOCOL_TCP"
    "sk_protocol (ss_slot ?s1 1) = PROTOCOL_TCP" "sk_low (ss_slot ?s1 1) = [raw_buffer (demo_block 200 [2]) 0 []]"
    "wb_ptr (raw_buffer (demo_block 200 [2]) 0 []) = blk_addr (wb_buffer (raw_buffer (demo_block 200 [2]) 0 []))"
    "k_write tape_kernel (ss_world ?s1) (sk_fd (ss_slot ?s1 1)) (wb_rest (raw_buffer (demo_block 200 [2]) 0 [])) = (IO_EAGAIN, [])"
    by code_simp+
  show ?thesis
    by (rule low_refused_aborts [OF s1 l])
qed

text \<open>One undeliverable datagram blocks a UDP socket for ever: while \<open>sendto\<close> answers the packet at the head of
  the high list with an error other than \<open>EAGAIN\<close>, flushing leaves both lists as they are and sends nothing, and a
  new packet only joins a list behind it. (The comment says that an error of \<open>sendto\<close> is ignored.)\<close>

theorem udp_error_blocks_socket:
  assumes "sk_protocol (ss_slot ss (HASH_ID j)) \<noteq> PROTOCOL_TCP" "sk_id (ss_slot ss (HASH_ID j)) = j"
    and "sk_type (ss_slot ss (HASH_ID j)) = SOCKET_TYPE_CONNECTED" "\<not> list_uncomplete (sk_low (ss_slot ss (HASH_ID j)))"
    and "sk_high (ss_slot ss (HASH_ID j)) = wb # rest"
    and "\<And>w. \<exists>e w'. k_sendto K w (sk_fd (ss_slot ss (HASH_ID j))) (wb_rest wb)
               (udp_socket_address (ss_slot ss (HASH_ID j)) (wb_udp_address wb)) = (IO_error e, w')"
  shows "(\<exists>ss'. send_buffer K (HASH_ID j) ss = Some (SOCKET_NOTHING, ss') \<and> ss_slot ss' = ss_slot ss \<and>
            (\<exists>t. ss_calls ss' = ss_calls ss @ [Sys_stderr t])) \<and>
    (\<forall>b p a r ss'. send_socket K (raw_request j b) p (Some a) ss = Some (r, ss') \<longrightarrow>
       ss_calls ss' = ss_calls ss \<and> (\<exists>t. sk_high (ss_slot ss' (HASH_ID j)) = wb # rest @ t))"
proof (intro conjI allI impI)
  from assms(6) [of "ss_world ss"] obtain e w where e: "k_sendto K (ss_world ss) (sk_fd (ss_slot ss (HASH_ID j))) (wb_rest wb)
    (udp_socket_address (ss_slot ss (HASH_ID j)) (wb_udp_address wb)) = (IO_error e, w)" by blast
  have "\<exists>t. send_list_udp K (HASH_ID j) PRIORITY_HIGH ss = (SOCKET_NOTHING, print_error t (ss\<lparr>ss_world := w\<rparr>))"
    using assms(5) e by (simp add: send_list_udp_def get_list_def sys_sendto_def sys_ask_def Let_def) (rule exI, rule refl)
  then obtain t where "send_list_udp K (HASH_ID j) PRIORITY_HIGH ss = (SOCKET_NOTHING, print_error t (ss\<lparr>ss_world := w\<rparr>))" ..
  with assms(1,4,5) show "\<exists>ss'. send_buffer K (HASH_ID j) ss = Some (SOCKET_NOTHING, ss') \<and> ss_slot ss' = ss_slot ss \<and>
      (\<exists>t. ss_calls ss' = ss_calls ss @ [Sys_stderr t])"
    by (simp add: send_buffer_def send_list_def print_error_def sys_do_def)
next
  fix b p a r ss'
  assume "send_socket K (raw_request j b) p (Some a) ss = Some (r, ss')"
  then obtain s1 where s1: "append_sendbuffer_udp (HASH_ID j) p (raw_request j b) a ss = Some s1" "send_warning (HASH_ID j) s1 = (r, ss')"
    using assms(1-3,5) by (auto simp: send_socket_def Let_def send_buffer_empty_def send_queued_def udp_target_def bind_eq_Some_conv)
  then have a: "ss_calls s1 = ss_calls ss" "\<exists>t. sk_high (ss_slot s1 (HASH_ID j)) = wb # rest @ t"
    using assms(5) by (cases p; auto simp: append_sendbuffer_udp_def append_raw upd_sock_def get_list_def)+
  then show "ss_calls ss' = ss_calls ss" "\<exists>t. sk_high (ss_slot ss' (HASH_ID j)) = wb # rest @ t"
    using s1(2) by (auto simp: send_warning_def Let_def ss_defs split: if_splits)
qed

definition stuck_kernel :: "unit kernel" where
  "stuck_kernel = plain_kernel (\<lambda>w data. (IO_error 90, w))"

definition demo_udp :: "unit socket_server" where
  "demo_udp = upd_sock 1 (\<lambda>s. s\<lparr>sk_protocol := PROTOCOL_UDP, sk_p := P_udp_address (replicate 19 0),
     sk_high := [raw_buffer (demo_block 100 [1]) 0 [1, 0, 80, 10, 0, 0, 1]], sk_wb_size := 1\<rparr>) (demo_server ())"

theorem udp_error_blocks_socket_witness:
  "\<exists>ss'. send_buffer stuck_kernel 1 demo_udp = Some (SOCKET_NOTHING, ss') \<and> ss_slot ss' = ss_slot demo_udp"
proof -
  have f: "sk_protocol (ss_slot demo_udp 1) = PROTOCOL_UDP" "sk_id (ss_slot demo_udp 1) = 1"
    "sk_type (ss_slot demo_udp 1) = SOCKET_TYPE_CONNECTED" "\<not> list_uncomplete (sk_low (ss_slot demo_udp 1))"
    "sk_high (ss_slot demo_udp 1) = [raw_buffer (demo_block 100 [1]) 0 [1, 0, 80, 10, 0, 0, 1]]"
    by code_simp+
  have "\<exists>e w'. k_sendto stuck_kernel w fd data sa = (IO_error e, w')" for w fd data sa
    by (simp add: stuck_kernel_def plain_kernel_def)
  with udp_error_blocks_socket [of demo_udp 1, where K = stuck_kernel, unfolded HASH_1, OF _ f(2-5)] f(1) show ?thesis by auto
qed

text \<open>What is sent to a bound descriptor stays in memory: a packet for a socket in state \<open>BIND\<close> joins a list, but
  nothing is written and the event for writing is not asked for (binding registers the descriptor for reading only).\<close>

theorem bind_packets_wait:
  assumes "sk_type (ss_slot ss (HASH_ID j)) = SOCKET_TYPE_BIND" "sk_id (ss_slot ss (HASH_ID j)) = j"
    and "sk_protocol (ss_slot ss (HASH_ID j)) = PROTOCOL_TCP"
    and "send_socket K (raw_request j b) p None ss = Some (r, ss')"
  shows "ss_calls ss' = ss_calls ss \<and> ss_world ss' = ss_world ss \<and>
    pending (ss_slot ss' (HASH_ID j)) \<noteq> [] \<and> sk_type (ss_slot ss' (HASH_ID j)) = SOCKET_TYPE_BIND"
proof -
  from assms obtain s1 where s1: "append_buffer (HASH_ID j) p (raw_request j b) 0 [] ss = Some s1" "send_warning (HASH_ID j) s1 = (r, ss')"
    by (cases p) (auto simp: send_socket_def Let_def send_queued_def append_sendbuffer_def append_sendbuffer_low_def bind_eq_Some_conv)
  then have "ss_calls s1 = ss_calls ss" "ss_world s1 = ss_world ss" "pending (ss_slot s1 (HASH_ID j)) \<noteq> []"
    "sk_type (ss_slot s1 (HASH_ID j)) = SOCKET_TYPE_BIND"
    using assms(1) by (cases p; auto simp: append_raw upd_sock_def pending_def set_list_def)+
  with s1(2) show ?thesis by (auto simp: send_warning_def Let_def ss_defs pending_def split: if_splits)
qed

definition demo_bind :: "nat socket_server" where
  "demo_bind = upd_sock 1 (\<lambda>s. s\<lparr>sk_type := SOCKET_TYPE_BIND\<rparr>) (demo_server 0)"

theorem bind_packets_wait_witness:
  "\<exists>ss'. send_socket late_kernel (raw_request 1 (demo_block 100 [1, 2])) PRIORITY_HIGH None demo_bind = Some (SOCKET_NOTHING, ss') \<and>
     ss_calls ss' = [Sp_add 4] \<and> pending (ss_slot ss' 1) \<noteq> []"
proof -
  have f: "sk_type (ss_slot demo_bind 1) = SOCKET_TYPE_BIND" "sk_id (ss_slot demo_bind 1) = 1"
    "sk_protocol (ss_slot demo_bind 1) = PROTOCOL_TCP" "ss_calls demo_bind = [Sp_add 4]"
    by code_simp+
  have "map_option fst (send_socket late_kernel (raw_request 1 (demo_block 100 [1, 2])) PRIORITY_HIGH None demo_bind) = Some SOCKET_NOTHING"
    by code_simp
  then obtain ss' where s: "send_socket late_kernel (raw_request 1 (demo_block 100 [1, 2])) PRIORITY_HIGH None demo_bind = Some (SOCKET_NOTHING, ss')"
    by auto
  with bind_packets_wait [of demo_bind 1, unfolded HASH_1, OF f(1-3)] f(4) show ?thesis by auto
qed

end
