(* ===== verification/Socket_Safety.thy ===== *)
theory Socket_Safety
  imports Socket_Protocol "HOL-Library.Multiset"
begin

section \<open>The socket server never aborts\<close>

subsection \<open>Reserving an identifier\<close>

lemma next_id_eq: "0 \<le> a \<Longrightarrow> a < 2 ^ 31 \<Longrightarrow> next_id a = (a + 1) mod 2 ^ 31"
proof -
  have w: "(- 2147483648 :: int) AND 2147483647 = 0" by code_simp
  assume a: "0 \<le> a" "a < 2 ^ 31"
  show ?thesis
  proof (cases "a + 1 = 2 ^ 31")
    case True
    then show ?thesis using w by (simp add: next_id_def atom_inc_def)
  next
    case False
    with a show ?thesis by (simp add: next_id_def atom_inc_def)
  qed
qed

lemma HASH_ID_mod: "HASH_ID (x mod 2 ^ 31) = HASH_ID x"
  unfolding HASH_ID_def MAX_SOCKET_def by (subst mod_mod_cancel) simp_all

lemma HASH_ID_less: "HASH_ID x < nat MAX_SOCKET"
  by (simp add: HASH_ID_def MAX_SOCKET_def nat_less_iff)

lemma HASH_ID_onto:
  assumes "m < nat MAX_SOCKET"
  shows "\<exists>k < nat MAX_SOCKET. HASH_ID (a + 1 + int k) = m"
proof -
  let ?k = "(int m - a - 1) mod MAX_SOCKET"
  have k: "0 \<le> ?k" "?k < MAX_SOCKET" by (simp_all add: MAX_SOCKET_def)
  have "(a + 1 + ?k) mod MAX_SOCKET = (a + 1 + (int m - a - 1)) mod MAX_SOCKET" by (rule mod_add_right_eq)
  also have "\<dots> = int m" using assms by (simp add: MAX_SOCKET_def)
  finally have "HASH_ID (a + 1 + int (nat ?k)) = m" using k by (simp add: HASH_ID_def)
  moreover have "nat ?k < nat MAX_SOCKET" using k by (simp add: MAX_SOCKET_def)
  ultimately show ?thesis by blast
qed

definition reserved :: "int \<Rightarrow> 'w socket_server \<Rightarrow> 'w socket_server" where
  "reserved j ss = upd_sock (HASH_ID j) (\<lambda>s. s\<lparr>sk_type := SOCKET_TYPE_RESERVE, sk_id := j, sk_fd := - 1\<rparr>) (ss\<lparr>ss_alloc_id := j\<rparr>)"

lemma reserve_loop_cases:
  assumes "0 \<le> ss_alloc_id ss" "ss_alloc_id ss < 2 ^ 31" "reserve_loop n ss = (j, ss')"
  shows "(\<exists>k < n. j = (ss_alloc_id ss + 1 + int k) mod 2 ^ 31 \<and>
            sk_type (ss_slot ss (HASH_ID j)) = SOCKET_TYPE_INVALID \<and> ss' = reserved j ss) \<or>
         j = - 1 \<and> (\<forall>k < n. sk_type (ss_slot ss (HASH_ID (ss_alloc_id ss + 1 + int k))) \<noteq> SOCKET_TYPE_INVALID) \<and>
            ss' = ss\<lparr>ss_alloc_id := (ss_alloc_id ss + int n) mod 2 ^ 31\<rparr>"
  using assms
proof (induction n arbitrary: ss)
  case 0
  then show ?case by simp
next
  case (Suc n)
  let ?a = "ss_alloc_id ss" and ?i = "(ss_alloc_id ss + 1) mod 2 ^ 31"
  have i: "next_id ?a = ?i" using Suc.prems by (simp only: next_id_eq)
  show ?case
  proof (cases "sk_type (ss_slot ss (HASH_ID ?i)) = SOCKET_TYPE_INVALID")
    case True
    with Suc.prems(3) have "j = ?i" "ss' = reserved j ss" by (auto simp: Let_def i reserved_def)
    with True show ?thesis by (intro disjI1 exI [of _ 0]) simp
  next
    case False
    let ?s1 = "ss\<lparr>ss_alloc_id := ?i\<rparr>"
    have run: "reserve_loop n ?s1 = (j, ss')" using Suc.prems(3) False by (simp add: Let_def i)
    have shift: "(?i + 1 + int k) mod 2 ^ 31 = (?a + 1 + int (Suc k)) mod 2 ^ 31" for k
      by (simp only: of_nat_Suc add.assoc mod_add_left_eq)
    have hash: "HASH_ID (?i + 1 + int k) = HASH_ID (?a + 1 + int (Suc k))" for k
      by (metis HASH_ID_mod shift)
    have hash0: "HASH_ID ?i = HASH_ID (?a + 1)" by (rule HASH_ID_mod)
    from Suc.IH [of ?s1, OF _ _ run] consider
      (found) k where "k < n" "j = (?i + 1 + int k) mod 2 ^ 31" "sk_type (ss_slot ss (HASH_ID j)) = SOCKET_TYPE_INVALID" "ss' = reserved j ?s1"
    | (full) "j = - 1" "\<forall>k < n. sk_type (ss_slot ss (HASH_ID (?i + 1 + int k))) \<noteq> SOCKET_TYPE_INVALID"
        "ss' = ?s1\<lparr>ss_alloc_id := (?i + int n) mod 2 ^ 31\<rparr>"
      by (auto simp: reserved_def)
    then show ?thesis
    proof cases
      case found
      then show ?thesis
        by (intro disjI1 exI [of _ "Suc k"]) (simp add: shift [simplified] reserved_def upd_sock_def)
    next
      case full
      have "sk_type (ss_slot ss (HASH_ID (?a + 1 + int k))) \<noteq> SOCKET_TYPE_INVALID" if "k < Suc n" for k
        using that False hash0 hash full(2) by (cases k) (auto simp del: of_nat_Suc)
      moreover have "(?i + int n) mod 2 ^ 31 = (?a + int (Suc n)) mod 2 ^ 31"
        by (simp only: of_nat_Suc add.assoc mod_add_left_eq)
      ultimately show ?thesis using full(1,3) by simp
    qed
  qed
qed

text \<open>C27. \<open>reserve_id\<close> finds a free slot whenever there is one, also across the wrap of the counter: it answers
  \<open>-1\<close> only when all 65536 slots are taken, and otherwise a non-negative identifier whose slot was free, which is
  then reserved under that identifier while no other slot changes.\<close>

theorem reserve_id_finds_free:
  assumes "0 \<le> ss_alloc_id ss" "ss_alloc_id ss < 2 ^ 31" "reserve_id ss = (j, ss')"
  shows "if \<forall>m < nat MAX_SOCKET. sk_type (ss_slot ss m) \<noteq> SOCKET_TYPE_INVALID
    then j = - 1 \<and> ss_slot ss' = ss_slot ss
    else 0 \<le> j \<and> j < 2 ^ 31 \<and> sk_type (ss_slot ss (HASH_ID j)) = SOCKET_TYPE_INVALID \<and>
         ss_slot ss' = (ss_slot ss)(HASH_ID j := (ss_slot ss (HASH_ID j))\<lparr>sk_type := SOCKET_TYPE_RESERVE, sk_id := j, sk_fd := - 1\<rparr>) \<and>
         ss_alloc_id ss' = j"
proof -
  note cases = reserve_loop_cases [OF assms(1,2) assms(3) [unfolded reserve_id_def]]
  show ?thesis
  proof (cases "j = - 1")
    case True
    then have "j \<noteq> (ss_alloc_id ss + 1 + int k) mod 2 ^ 31" for k
      using pos_mod_sign [of "2 ^ 31 :: int" "ss_alloc_id ss + 1 + int k"] by simp
    with cases have "\<forall>k < nat MAX_SOCKET. sk_type (ss_slot ss (HASH_ID (ss_alloc_id ss + 1 + int k))) \<noteq> SOCKET_TYPE_INVALID"
      "ss_slot ss' = ss_slot ss" by auto
    with HASH_ID_onto [of _ "ss_alloc_id ss"] True show ?thesis by metis
  next
    case False
    with cases obtain k where j: "j = (ss_alloc_id ss + 1 + int k) mod 2 ^ 31"
      "sk_type (ss_slot ss (HASH_ID j)) = SOCKET_TYPE_INVALID" "ss' = reserved j ss" by auto
    have "0 \<le> j" "j < 2 ^ 31" unfolding j(1) by simp_all
    with j(2,3) HASH_ID_less [of j] show ?thesis by (auto simp: reserved_def upd_sock_def)
  qed
qed

definition demo_init :: "nat io_result list socket_server" where
  "demo_init = the (Option.bind (socket_server_create 3 (Some (4, 5)) False [IO_ok 1]) snd)"

lemma demo_reserve: "reserve_id demo_init = (1, reserved 1 demo_init)"
proof -
  have "nat MAX_SOCKET = Suc 65535" by (simp add: MAX_SOCKET_def)
  then show ?thesis
    by (simp only: reserve_id_def reserve_loop.simps)
      (simp add: demo_init_def socket_server_create_def FD_SETSIZE_def next_id_def atom_inc_def clear_wb_list_def set_list_def
        blank_socket_def reserved_def)
qed

theorem reserve_id_finds_free_witness:
  "0 \<le> fst (reserve_id demo_init) \<and> sk_type (ss_slot (snd (reserve_id demo_init)) (HASH_ID (fst (reserve_id demo_init)))) = SOCKET_TYPE_RESERVE"
proof -
  have "sk_type (ss_slot demo_init 0) = SOCKET_TYPE_INVALID" "ss_alloc_id demo_init = 0" "0 < nat MAX_SOCKET"
    by (simp_all add: demo_init_def socket_server_create_def FD_SETSIZE_def MAX_SOCKET_def clear_wb_list_def set_list_def blank_socket_def)
  with reserve_id_finds_free [of demo_init, OF _ _ surjective_pairing] show ?thesis by (auto split: if_splits)
qed

subsection \<open>The invariant of a slot\<close>

definition active :: "socket \<Rightarrow> bool" where
  "active s \<longleftrightarrow> sk_type s \<noteq> SOCKET_TYPE_INVALID \<and> sk_type s \<noteq> SOCKET_TYPE_RESERVE"

text \<open>The union holds the read size of a TCP socket, a power of two from 64 to \<open>2 ^ 30\<close>, or a UDP address.\<close>

definition p_ok :: "socket \<Rightarrow> bool" where
  "p_ok s \<longleftrightarrow> (case sk_p s of
       P_size n \<Rightarrow> sk_protocol s = PROTOCOL_TCP \<and> (\<exists>k. 6 \<le> k \<and> k \<le> 30 \<and> n = 2 ^ k)
     | P_udp_address a \<Rightarrow> sk_protocol s \<noteq> PROTOCOL_TCP \<and> length a = UDP_ADDRESS_SIZE)"

definition slot_ok :: "int \<Rightarrow> nat \<Rightarrow> socket \<Rightarrow> bool" where
  "slot_ok a k s \<longleftrightarrow>
     (\<not> active s \<longrightarrow> sk_high s = [] \<and> sk_low s = []) \<and>
     (sk_type s \<noteq> SOCKET_TYPE_INVALID \<longrightarrow> HASH_ID (sk_id s) = k \<and> sk_id s \<le> a) \<and>
     (active s \<longrightarrow> sk_low s = [] \<and> size_error s = 0 \<and> p_ok s)"

text \<open>
  What the treatment of a request or event for the identifier \<open>j\<close> does: it works on the slot of \<open>j\<close> only, and not
  even on that one when another socket has it; buffers are only moved, \<open>X\<close> being those it brought; the slot does not
  stay reserved for \<open>j\<close>; and a socket that ceases to be active is reported.
\<close>

definition handled ::
  "int \<Rightarrow> (bool \<times> mblock) multiset \<Rightarrow> poll_code \<Rightarrow> 'w socket_server \<Rightarrow> 'w socket_server \<Rightarrow> bool" where
  "handled j X r ss ss' \<longleftrightarrow>
     (let k = HASH_ID j; s = ss_slot ss k; s' = ss_slot ss' k
      in (\<forall>m. m \<noteq> k \<longrightarrow> ss_slot ss' m = ss_slot ss m) \<and> frame_kept ss ss' \<and>
         mset (ss_freed ss') + mset (map wb_key (pending s')) = mset (ss_freed ss) + mset (map wb_key (pending s)) + X \<and>
         slot_ok (ss_alloc_id ss) k s' \<and> (sk_id s \<noteq> j \<longrightarrow> s' = s) \<and> (sk_id s = j \<longrightarrow> sk_type s' \<noteq> SOCKET_TYPE_RESERVE) \<and>
         (active s \<and> \<not> active s' \<longrightarrow> r \<in> {SOCKET_CLOSE, SOCKET_ERR} \<and> pm_id (ss_result ss') = sk_id s'))"

text \<open>Slot \<open>k\<close> is not reserved for the very identifier that a request names.\<close>

definition not_reserved :: "int \<Rightarrow> 'w socket_server \<Rightarrow> bool" where
  "not_reserved j ss \<longleftrightarrow> \<not> (sk_type (ss_slot ss (HASH_ID j)) = SOCKET_TYPE_RESERVE \<and> sk_id (ss_slot ss (HASH_ID j)) = j)"

lemma active_not_reserved: "active (ss_slot ss (HASH_ID j)) \<Longrightarrow> not_reserved j ss"
  by (simp add: active_def not_reserved_def)

lemma handled_same:
  assumes "not_reserved j ss" and "slot_ok (ss_alloc_id ss) (HASH_ID j) (ss_slot ss (HASH_ID j))" "ss_slot ss' = ss_slot ss" "frame_kept ss ss'"
    "mset (ss_freed ss') = mset (ss_freed ss) + X"
  shows "handled j X r ss ss'"
  using assms by (auto simp: handled_def Let_def not_reserved_def)

lemma p_ok_cong: "sk_p s' = sk_p s \<Longrightarrow> sk_protocol s' = sk_protocol s \<Longrightarrow> p_ok s' = p_ok s"
  by (simp add: p_ok_def split: socket_p.split)

lemma flushed_mset:
  assumes "flushed i ss ss'"
  shows "mset (ss_freed ss') + mset (map wb_key (pending (ss_slot ss' i))) =
    mset (ss_freed ss) + mset (map wb_key (pending (ss_slot ss i)))"
proof -
  from assms have "mset (ss_freed ss' @ map wb_key (pending (ss_slot ss' i))) = mset (ss_freed ss @ map wb_key (pending (ss_slot ss i)))"
    by (simp add: flushed_def Let_def)
  then show ?thesis by (simp only: mset_append)
qed

lemma handled_closed:
  assumes "flushed (HASH_ID j) ss mid" "active (ss_slot ss (HASH_ID j))" "sk_id (ss_slot ss (HASH_ID j)) = j"
    and "r \<in> {SOCKET_CLOSE, SOCKET_ERR}"
  shows "handled j {#} r ss (closed_state (HASH_ID j) mid)"
  using assms flushed_mset [OF assms(1)]
  by (auto simp: handled_def Let_def flushed_def slot_ok_def active_def pending_def frame_kept_def)

lemma handled_flushed:
  assumes "flushed (HASH_ID j) ss ss'" "active (ss_slot ss (HASH_ID j))" "sk_id (ss_slot ss (HASH_ID j)) = j"
    "slot_ok (ss_alloc_id ss) (HASH_ID j) (ss_slot ss (HASH_ID j))" "sk_low (ss_slot ss' (HASH_ID j)) = []"
  shows "handled j {#} r ss ss'"
proof -
  let ?s = "ss_slot ss (HASH_ID j)" and ?s' = "ss_slot ss' (HASH_ID j)"
  have s: "same_conn ?s ?s'" "p_ok ?s' = p_ok ?s" "size_error ?s' = size_error ?s" "frame_kept ss ss'"
    "\<And>m. m \<noteq> HASH_ID j \<Longrightarrow> ss_slot ss' m = ss_slot ss m"
    using assms(1) p_ok_cong [of ?s' ?s] by (simp_all add: flushed_def Let_def same_conn_def)
  with assms(2-5) have "slot_ok (ss_alloc_id ss) (HASH_ID j) ?s'" "active ?s'"
    by (simp_all add: slot_ok_def active_def same_conn_def)
  with s assms(2,3) flushed_mset [OF assms(1)] show ?thesis
    by (simp add: handled_def Let_def active_def)
qed

text \<open>The message under construction, the calls and the world do not matter, but for the identifier reported.\<close>

lemma handled_cong:
  assumes "handled j X r ss s1" "ss_slot s2 = ss_slot s1" "ss_freed s2 = ss_freed s1" "frame_kept s1 s2"
    "pm_id (ss_result s2) = pm_id (ss_result s1) \<or> active (ss_slot s1 (HASH_ID j)) \<or> \<not> active (ss_slot ss (HASH_ID j)) \<or>
       pm_id (ss_result s2) = sk_id (ss_slot s1 (HASH_ID j))"
  shows "handled j X r ss s2"
  using assms by (auto simp: handled_def Let_def frame_kept_def)

lemma handled_start:
  assumes "handled j X r s0 s1" "ss_slot s0 = ss_slot ss" "ss_freed s0 = ss_freed ss" "frame_kept ss s0"
  shows "handled j X r ss s1"
  using assms by (simp add: handled_def Let_def frame_kept_def)

subsection \<open>Flushing and closing\<close>

definition kernel_ok :: "'w kernel \<Rightarrow> bool" where
  "kernel_ok K \<longleftrightarrow> write_bounded K \<and> interrupts_end K \<and>
     (\<forall>w fd n b w'. k_read K w fd n = (IO_ok b, w') \<longrightarrow> int (length b) \<le> n \<and> length b < 2 ^ 30) \<and>
     (\<forall>w host port tcp sas w'. k_getaddrinfo K w host port tcp = (Inr sas, w') \<longrightarrow>
        (\<forall>sa \<in> set sas. case sa of Sockaddr_in p a \<Rightarrow> length p = 2 \<and> length a = 4
                                  | Sockaddr_in6 p a \<Rightarrow> length p = 2 \<and> length a = 16))"

lemma force_close_active: "active (ss_slot ss i) \<Longrightarrow> force_close i ss = Some (closed_state i ss)"
  by (rule force_close_open) (simp_all add: active_def)

lemma send_list_returns:
  assumes "interrupts_end K" "active (ss_slot ss i)"
  shows "\<exists>r ss'. send_list K i p ss = Some (r, ss')"
  using send_list_tcp_returns [OF assms(1), of ss i p] assms(2)
  by (cases "send_list_udp K i p ss") (auto simp: send_list_def active_def)

lemma send_buffer_returns:
  assumes K: "kernel_ok K" and act: "active (ss_slot ss i)" and ok: "slot_ok a i (ss_slot ss i)"
  shows "\<exists>r ss'. send_buffer K i ss = Some (r, ss')"
proof -
  have K': "write_bounded K" "interrupts_end K" using K by (simp_all add: kernel_ok_def)
  have ty: "sk_type (ss_slot ss i) \<noteq> SOCKET_TYPE_INVALID" "sk_type (ss_slot ss i) \<noteq> SOCKET_TYPE_RESERVE"
    using act by (simp_all add: active_def)
  have low: "sk_low (ss_slot ss i) = []" "size_error (ss_slot ss i) = 0" using ok act by (simp_all add: slot_ok_def)
  from send_list_returns [OF K'(2) act] obtain r s1 where l: "send_list K i PRIORITY_HIGH ss = Some (r, s1)" by blast
  from send_list_flushes [OF l K'(1) _ ty] obtain mid where mid: "flushed i ss mid"
    "sk_low (ss_slot mid i) = sk_low (ss_slot ss i)" "r = SOCKET_NOTHING \<and> s1 = mid \<or> r = SOCKET_CLOSE \<and> s1 = closed_state i mid"
    by (auto simp: get_list_def)
  have se: "size_error (ss_slot mid i) = 0" "sk_type (ss_slot mid i) = sk_type (ss_slot ss i)"
    using mid(1) low by (simp_all add: flushed_def Let_def same_conn_def)
  have "\<exists>r ss'. send_buffer_done i s1 = Some (r, ss')" if "r \<noteq> SOCKET_CLOSE" "sk_high (ss_slot s1 i) = []"
  proof -
    let ?s2 = "sp_write (sk_fd (ss_slot s1 i)) False s1"
    have s1: "s1 = mid" using mid(3) that(1) by simp
    have "send_buffer_empty (ss_slot s1 i)" "sk_wb_size (ss_slot s1 i) = 0"
      using that(2) mid(2) low se by (simp_all add: s1 send_buffer_empty_def size_error_def pending_def)
    moreover have "force_close i ?s2 = Some (closed_state i ?s2)"
      using act se(2) by (intro force_close_active) (simp add: active_def s1 sp_write_def sys_do_def)
    ultimately show ?thesis by (simp add: send_buffer_done_def Let_def)
  qed
  then show ?thesis using l mid low by (auto simp: send_buffer_def list_uncomplete_def)
qed

lemma send_buffer_handled:
  assumes K: "kernel_ok K" and act: "active (ss_slot ss (HASH_ID j))" and id: "sk_id (ss_slot ss (HASH_ID j)) = j"
    and ok: "slot_ok (ss_alloc_id ss) (HASH_ID j) (ss_slot ss (HASH_ID j))"
  shows "\<exists>r ss'. send_buffer K (HASH_ID j) ss = Some (r, ss') \<and> handled j {#} r ss ss' \<and>
    (r = SOCKET_CLOSE \<or> (r = SOCKET_NOTHING \<or> r = SOCKET_WARNING) \<and> flushed (HASH_ID j) ss ss')"
proof -
  from send_buffer_returns [OF K act ok] obtain r ss' where run: "send_buffer K (HASH_ID j) ss = Some (r, ss')" by blast
  have "sk_low (ss_slot ss (HASH_ID j)) = []" using ok act by (simp add: slot_ok_def)
  with send_buffer_flushes [OF run] K act have
    "r = SOCKET_CLOSE \<and> (\<exists>mid. flushed (HASH_ID j) ss mid \<and> ss' = closed_state (HASH_ID j) mid) \<or>
     (r = SOCKET_NOTHING \<or> r = SOCKET_WARNING) \<and> flushed (HASH_ID j) ss ss' \<and> sk_low (ss_slot ss' (HASH_ID j)) = []"
    by (auto simp: kernel_ok_def active_def)
  then show ?thesis
    using run handled_closed [OF _ act id, of _ r] handled_flushed [OF _ act id ok, of ss' r] by auto
qed

subsection \<open>Sending\<close>

text \<open>A request to send bytes that are in the block; the user-object interface is not used.\<close>

definition valid_send :: "request_send \<Rightarrow> bool" where
  "valid_send rs \<longleftrightarrow> 0 \<le> rs_sz rs \<and> nat (rs_sz rs) \<le> length (blk_bytes (rs_buffer rs))"

definition send_data :: "request_send \<Rightarrow> bytes" where
  "send_data rs = take (nat (rs_sz rs)) (blk_bytes (rs_buffer rs))"

lemma valid_send_init:
  assumes "valid_send rs"
  shows "send_object_init (rs_buffer rs) (rs_sz rs) ss = Some \<lparr>so_buffer = rs_buffer rs, so_sz = rs_sz rs, so_userobject = False\<rparr>"
    and "so_data \<lparr>so_buffer = rs_buffer rs, so_sz = rs_sz rs, so_userobject = False\<rparr> = Some (send_data rs)"
  using assms by (simp_all add: valid_send_def send_object_init_def so_data_def send_data_def)

definition sent_buffer :: "request_send \<Rightarrow> nat \<Rightarrow> bytes \<Rightarrow> write_buffer" where
  "sent_buffer rs n a = \<lparr>wb_buffer = rs_buffer rs, wb_ptr = blk_addr (rs_buffer rs) + of_nat n,
     wb_rest = drop n (send_data rs), wb_userobject = False, wb_udp_address = a\<rparr>"

definition queued_state :: "nat \<Rightarrow> write_buffer \<Rightarrow> 'w socket_server \<Rightarrow> 'w socket_server" where
  "queued_state i wb ss =
     upd_sock i (\<lambda>s. (set_list PRIORITY_HIGH (get_list PRIORITY_HIGH s @ [wb]) s)\<lparr>sk_wb_size := sk_wb_size s + wb_sz wb\<rparr>) ss"

lemma append_valid: "valid_send rs \<Longrightarrow> append_buffer i PRIORITY_HIGH rs n a ss = Some (queued_state i (sent_buffer rs n a) ss)"
  by (simp add: append_buffer_def valid_send_init queued_state_def sent_buffer_def Let_def)

lemma handled_queued:
  assumes "slot_ok (ss_alloc_id ss) (HASH_ID j) (ss_slot ss (HASH_ID j))" "active (ss_slot ss (HASH_ID j))"
    "sk_id (ss_slot ss (HASH_ID j)) = j" "ss_slot s1 = ss_slot ss" "ss_freed s1 = ss_freed ss" "frame_kept ss s1"
    "wb_key wb = (False, b)"
  shows "handled j {#(False, b)#} r ss (queued_state (HASH_ID j) wb s1)"
proof -
  let ?s = "ss_slot ss (HASH_ID j)"
  have e: "ss_slot (queued_state (HASH_ID j) wb s1) = (ss_slot ss)(HASH_ID j := ?s\<lparr>sk_high := sk_high ?s @ [wb], sk_wb_size := sk_wb_size ?s + wb_sz wb\<rparr>)"
    "ss_freed (queued_state (HASH_ID j) wb s1) = ss_freed ss" "frame_kept ss (queued_state (HASH_ID j) wb s1)"
    using assms(4-6) by (simp_all add: queued_state_def upd_sock_def set_list_def get_list_def frame_kept_def)
  have "p_ok (?s\<lparr>sk_high := sk_high ?s @ [wb], sk_wb_size := sk_wb_size ?s + wb_sz wb\<rparr>) = p_ok ?s"
    by (rule p_ok_cong) simp_all
  then show ?thesis
    using assms(1-3,7) e by (simp add: handled_def Let_def slot_ok_def active_def size_error_def pending_def wb_sz_def)
qed

lemma handled_warning:
  assumes "handled j X SOCKET_NOTHING ss s1" "active (ss_slot s1 (HASH_ID j))" "sk_id (ss_slot ss (HASH_ID j)) = j"
    "send_warning (HASH_ID j) s1 = (r, ss')"
  shows "handled j X r ss ss'"
proof -
  let ?s = "ss_slot s1 (HASH_ID j)"
  have e: "ss_slot ss' = ss_slot s1 \<or> (\<exists>n. ss_slot ss' = (ss_slot s1)(HASH_ID j := ?s\<lparr>sk_warn_size := n\<rparr>))"
    "ss_freed ss' = ss_freed s1" "frame_kept s1 ss'"
    using assms(4) by (auto simp: send_warning_def Let_def ss_defs frame_kept_def split: if_splits)
  have p: "p_ok (?s\<lparr>sk_warn_size := n\<rparr>) = p_ok ?s" for n by (rule p_ok_cong) simp_all
  have "active (ss_slot ss' (HASH_ID j))" using e(1) assms(2) by (auto simp: active_def)
  moreover have "slot_ok a k (?s\<lparr>sk_warn_size := n\<rparr>) = slot_ok a k ?s" for a k n
    by (simp add: slot_ok_def active_def size_error_def pending_def p)
  ultimately show ?thesis
    using assms(1-3) e by (auto simp: handled_def Let_def frame_kept_def pending_def active_def)
qed

lemma send_queued_handled:
  assumes "valid_send rs" "j = rs_id rs" "slot_ok (ss_alloc_id ss) (HASH_ID j) (ss_slot ss (HASH_ID j))"
    "active (ss_slot ss (HASH_ID j))" "sk_id (ss_slot ss (HASH_ID j)) = j"
  shows "\<exists>s1. send_queued (HASH_ID j) rs PRIORITY_HIGH ua ss = Some s1 \<and> handled j {#(False, rs_buffer rs)#} SOCKET_NOTHING ss s1 \<and>
    active (ss_slot s1 (HASH_ID j))"
proof -
  have "\<exists>a. send_queued (HASH_ID j) rs PRIORITY_HIGH ua ss = Some (queued_state (HASH_ID j) (sent_buffer rs 0 a) ss)"
    using assms(3,4)
    by (auto simp: append_valid [OF assms(1)] send_queued_def append_sendbuffer_def append_sendbuffer_udp_def udp_target_def slot_ok_def p_ok_def
        split: option.splits socket_p.splits)
  then obtain a where a: "send_queued (HASH_ID j) rs PRIORITY_HIGH ua ss = Some (queued_state (HASH_ID j) (sent_buffer rs 0 a) ss)" ..
  moreover have "handled j {#(False, rs_buffer rs)#} SOCKET_NOTHING ss (queued_state (HASH_ID j) (sent_buffer rs 0 a) ss)"
    by (rule handled_queued [OF assms(3-5)]) (simp_all add: sent_buffer_def wb_key_def)
  moreover have "active (ss_slot (queued_state (HASH_ID j) (sent_buffer rs 0 a) ss) (HASH_ID j))"
    using assms(4) by (simp add: queued_state_def upd_sock_def active_def)
  ultimately show ?thesis by blast
qed

text \<open>The bytes of a packet that the kernel refused are queued, or the packet is freed.\<close>

lemma direct_rest_handled:
  assumes "valid_send rs" "j = rs_id rs" "slot_ok (ss_alloc_id ss) (HASH_ID j) (ss_slot ss (HASH_ID j))"
    "active (ss_slot ss (HASH_ID j))" "sk_id (ss_slot ss (HASH_ID j)) = j"
    "ss_slot s1 = ss_slot ss" "ss_freed s1 = ss_freed ss" "frame_kept ss s1"
  shows "\<exists>s2. append_buffer (HASH_ID j) PRIORITY_HIGH rs n a s1 = Some s2 \<and>
      handled j {#(False, rs_buffer rs)#} SOCKET_NOTHING ss (sp_write fd True s2) \<and> active (ss_slot (sp_write fd True s2) (HASH_ID j))"
    and "handled j {#(False, rs_buffer rs)#} SOCKET_NOTHING ss (so_free False (rs_buffer rs) s1)"
proof -
  let ?s2 = "queued_state (HASH_ID j) (sent_buffer rs n a) s1"
  have "handled j {#(False, rs_buffer rs)#} SOCKET_NOTHING ss ?s2"
    by (rule handled_queued [OF assms(3-8)]) (simp add: sent_buffer_def wb_key_def)
  moreover have "active (ss_slot ?s2 (HASH_ID j))"
    using assms(4,6) by (simp add: queued_state_def upd_sock_def active_def)
  ultimately show "\<exists>s2. append_buffer (HASH_ID j) PRIORITY_HIGH rs n a s1 = Some s2 \<and>
      handled j {#(False, rs_buffer rs)#} SOCKET_NOTHING ss (sp_write fd True s2) \<and> active (ss_slot (sp_write fd True s2) (HASH_ID j))"
    using append_valid [OF assms(1), of "HASH_ID j" n a s1]
    by (auto simp: sp_write_def sys_do_def frame_kept_def intro: handled_cong)
  show "handled j {#(False, rs_buffer rs)#} SOCKET_NOTHING ss (so_free False (rs_buffer rs) s1)"
    using assms(3,6-8) active_not_reserved [OF assms(4)] by (intro handled_same) (simp_all add: so_free_def frame_kept_def)
qed

lemma handled_free: "handled j {#} r ss s1 \<Longrightarrow> handled j {#(u, b)#} r ss (so_free u b s1)"
  by (auto simp: handled_def Let_def so_free_def frame_kept_def)

lemma flushed_quiet:
  "ss_slot s1 = ss_slot ss \<Longrightarrow> ss_freed s1 = ss_freed ss \<Longrightarrow> frame_kept ss s1 \<Longrightarrow> (\<And>fd. wire fd (ss_calls s1) = wire fd (ss_calls ss)) \<Longrightarrow>
     flushed i ss s1"
  by (rule flushed_pending [OF flushed_refl]) (simp_all add: same_conn_def)

lemma send_direct_handled:
  assumes "valid_send rs" "j = rs_id rs" "slot_ok (ss_alloc_id ss) (HASH_ID j) (ss_slot ss (HASH_ID j))"
    "active (ss_slot ss (HASH_ID j))" "sk_id (ss_slot ss (HASH_ID j)) = j"
  defines "so \<equiv> \<lparr>so_buffer = rs_buffer rs, so_sz = rs_sz rs, so_userobject = False\<rparr>" and "X \<equiv> {#(False, rs_buffer rs)#}"
  shows "\<exists>q. send_direct K (HASH_ID j) rs so PRIORITY_HIGH ua ss = Some q \<and>
    (case q of Inl (r, s1) \<Rightarrow> handled j X r ss s1
             | Inr s1 \<Rightarrow> handled j X SOCKET_NOTHING ss s1 \<and> active (ss_slot s1 (HASH_ID j)))"
proof -
  let ?k = "HASH_ID j" and ?s = "ss_slot ss (HASH_ID j)"
  note init = valid_send_init [OF assms(1)]
  note rest = direct_rest_handled [OF assms(1-5)]
  show ?thesis
  proof (cases "sk_protocol ?s = PROTOCOL_TCP")
    case True
    obtain a w where k: "k_write K (ss_world ss) (sk_fd ?s) (send_data rs) = (a, w)" by fastforce
    define s1 where "s1 = (case a of IO_ok n \<Rightarrow> sys_do (Sys_write (sk_fd ?s) (take n (send_data rs))) (ss\<lparr>ss_world := w\<rparr>)
      | _ \<Rightarrow> ss\<lparr>ss_world := w\<rparr>)"
    have wr: "sys_write K (sk_fd ?s) (send_data rs) ss = (a, s1)"
      by (simp add: sys_write_def sys_ask_def k s1_def split: io_result.split)
    have s1: "ss_slot s1 = ss_slot ss" "ss_freed s1 = ss_freed ss" "frame_kept ss s1"
      by (simp_all add: s1_def sys_do_def frame_kept_def split: io_result.split)
    show ?thesis
    proof (cases "\<exists>e. a = IO_error e")
      case False
      define n where "n = (case a of IO_ok n \<Rightarrow> n | _ \<Rightarrow> 0)"
      have "send_direct K ?k rs so PRIORITY_HIGH ua ss =
          (if int n = so_sz so then Some (Inl (SOCKET_NOTHING, so_free False (rs_buffer rs) s1))
           else do { ss \<leftarrow> append_sendbuffer ?k rs n s1; Some (Inr (sp_write (sk_fd ?s) True ss)) })"
        using True False by (cases a) (simp_all add: send_direct_def so_def init wr n_def Let_def)
      then show ?thesis
        using rest(2) [OF s1] rest(1) [OF s1, of n "[]" "sk_fd ?s"]
        by (auto simp: append_sendbuffer_def X_def)
    next
      case True': True
      then obtain e where e: "a = IO_error e" ..
      obtain t where d: "send_direct K ?k rs so PRIORITY_HIGH ua ss =
          do { ss \<leftarrow> force_close ?k (print_error t s1); Some (Inl (SOCKET_CLOSE, so_free False (rs_buffer rs) ss)) }"
        using True e by (simp add: send_direct_def so_def init wr Let_def)
      have "flushed ?k ss (print_error t s1)"
        by (rule flushed_quiet) (use s1 e in \<open>simp_all add: print_error_def sys_do_def s1_def frame_kept_def\<close>)
      from handled_free [OF handled_closed [OF this assms(4,5)], of SOCKET_CLOSE] d assms(4) s1(1)
      show ?thesis by (auto simp: X_def force_close_active print_error_def sys_do_def)
    qed
  next
    case False
    then obtain ad where ad: "udp_target ua ?s = Some ad"
      using assms(3,4) by (cases ua) (auto simp: slot_ok_def p_ok_def udp_target_def split: socket_p.splits)
    let ?sa = "udp_socket_address ?s ad"
    obtain a w where k: "k_sendto K (ss_world ss) (sk_fd ?s) (send_data rs) ?sa = (a, w)" by fastforce
    define s1 where "s1 = (case a of IO_ok n \<Rightarrow> sys_do (Sys_sendto (sk_fd ?s) (send_data rs) ?sa) (ss\<lparr>ss_world := w\<rparr>)
      | _ \<Rightarrow> ss\<lparr>ss_world := w\<rparr>)"
    have wr: "sys_sendto K (sk_fd ?s) (send_data rs) ?sa ss = (a, s1)"
      by (simp add: sys_sendto_def sys_ask_def k s1_def split: io_result.split)
    have s1: "ss_slot s1 = ss_slot ss" "ss_freed s1 = ss_freed ss" "frame_kept ss s1"
      by (simp_all add: s1_def sys_do_def frame_kept_def split: io_result.split)
    have "send_direct K ?k rs so PRIORITY_HIGH ua ss =
        (if (case a of IO_ok n \<Rightarrow> int n \<noteq> so_sz so | _ \<Rightarrow> True)
         then do { ss \<leftarrow> append_sendbuffer_udp ?k PRIORITY_HIGH rs ad s1; Some (Inr (sp_write (sk_fd ?s) True ss)) }
         else Some (Inl (SOCKET_NOTHING, so_free False (rs_buffer rs) s1)))"
      using False by (cases a) (simp_all add: send_direct_def so_def init wr ad Let_def)
    then show ?thesis
      using rest(2) [OF s1] rest(1) [OF s1, of 0 "take UDP_ADDRESS_SIZE ad" "sk_fd ?s"]
      by (auto simp: append_sendbuffer_udp_def X_def)
  qed
qed

lemma send_socket_handled:
  assumes "valid_send rs" "slot_ok (ss_alloc_id ss) (HASH_ID (rs_id rs)) (ss_slot ss (HASH_ID (rs_id rs)))"
    "not_reserved (rs_id rs) ss"
  shows "\<exists>r ss'. send_socket K rs PRIORITY_HIGH ua ss = Some (r, ss') \<and> handled (rs_id rs) {#(False, rs_buffer rs)#} r ss ss'"
proof -
  let ?j = "rs_id rs" and ?k = "HASH_ID (rs_id rs)"
  let ?s = "ss_slot ss ?k" and ?so = "\<lparr>so_buffer = rs_buffer rs, so_sz = rs_sz rs, so_userobject = False\<rparr>"
  have drop: "handled ?j {#(False, rs_buffer rs)#} r ss (so_free False (rs_buffer rs) s1)"
    if "ss_slot s1 = ss_slot ss" "ss_freed s1 = ss_freed ss" "frame_kept ss s1" for r s1
    using assms(2,3) that by (intro handled_same) (simp_all add: so_free_def frame_kept_def)
  note init = valid_send_init [OF assms(1)]
  consider (gone) "sk_type ?s = SOCKET_TYPE_INVALID \<or> sk_id ?s \<noteq> ?j \<or> sk_type ?s = SOCKET_TYPE_HALFCLOSE \<or> sk_type ?s = SOCKET_TYPE_PACCEPT"
    | (listen) "active ?s" "sk_id ?s = ?j" "sk_type ?s = SOCKET_TYPE_PLISTEN \<or> sk_type ?s = SOCKET_TYPE_LISTEN"
    | (open_) "active ?s" "sk_id ?s = ?j" "sk_type ?s \<in> {SOCKET_TYPE_CONNECTING, SOCKET_TYPE_CONNECTED, SOCKET_TYPE_BIND}"
    using assms(3) by (cases "sk_type ?s") (auto simp: active_def not_reserved_def)
  then show ?thesis
  proof cases
    case gone
    then show ?thesis using drop [of ss] by (simp add: send_socket_def init Let_def)
  next
    case listen
    let ?s1 = "print_error (''socket-server: write to listen fd '' @ show_int ?j @ ''.'') ss"
    have "send_socket K rs PRIORITY_HIGH ua ss = Some (SOCKET_NOTHING, so_free False (rs_buffer rs) ?s1)"
      using listen by (auto simp: send_socket_def init Let_def)
    then show ?thesis using drop [of ?s1] by (simp add: print_error_def sys_do_def frame_kept_def)
  next
    case open_
    show ?thesis
    proof (cases "send_buffer_empty ?s \<and> sk_type ?s = SOCKET_TYPE_CONNECTED")
      case True
      from send_direct_handled [OF assms(1) refl assms(2) open_(1,2), of K ua] obtain q where
        q: "send_direct K ?k rs ?so PRIORITY_HIGH ua ss = Some q"
        "case q of Inl (r, s1) \<Rightarrow> handled ?j {#(False, rs_buffer rs)#} r ss s1
          | Inr s1 \<Rightarrow> handled ?j {#(False, rs_buffer rs)#} SOCKET_NOTHING ss s1 \<and> active (ss_slot s1 ?k)" by auto
      have "send_socket K rs PRIORITY_HIGH ua ss = (case q of Inl ret \<Rightarrow> Some ret | Inr s1 \<Rightarrow> Some (send_warning ?k s1))"
        using True open_ by (simp add: send_socket_def init q(1) Let_def)
      with q(2) handled_warning [where j = ?j and ss = ss] open_(2) show ?thesis
        by (cases q; cases "send_warning ?k (projr q)") auto
    next
      case False
      from send_queued_handled [OF assms(1) refl assms(2) open_(1,2), of ua] obtain s1 where
        s1: "send_queued ?k rs PRIORITY_HIGH ua ss = Some s1" "handled ?j {#(False, rs_buffer rs)#} SOCKET_NOTHING ss s1"
        "active (ss_slot s1 ?k)" by blast
      have "send_socket K rs PRIORITY_HIGH ua ss = Some (send_warning ?k s1)"
        using False open_ by (auto simp: send_socket_def init s1(1) Let_def)
      with s1 handled_warning [where j = ?j and ss = ss] open_(2) show ?thesis
        by (cases "send_warning ?k s1") auto
    qed
  qed
qed

subsection \<open>Opening\<close>

definition quiet :: "'w socket_server \<Rightarrow> 'w socket_server \<Rightarrow> bool" where
  "quiet ss ss' \<longleftrightarrow> ss_slot ss' = ss_slot ss \<and> ss_freed ss' = ss_freed ss \<and> frame_kept ss ss'"

lemma quiet_simps [simp]:
  "quiet ss ss" "quiet ss (sys_do c s1) = quiet ss s1" "quiet ss (put_result i a b d s1) = quiet ss s1"
  "quiet ss (set_data d s1) = quiet ss s1" "quiet ss (s1\<lparr>ss_world := w\<rparr>) = quiet ss s1"
  "quiet ss (close_fd fd s1) = quiet ss s1" "quiet ss (sp_nonblocking fd s1) = quiet ss s1"
  "quiet ss (socket_keepalive fd s1) = quiet ss s1" "quiet ss (print_error m s1) = quiet ss s1"
  "quiet ss (sp_write fd e s1) = quiet ss s1"
  by (auto simp: quiet_def ss_defs frame_kept_def sp_nonblocking_def socket_keepalive_def)

lemma quiet_trans: "quiet ss s1 \<Longrightarrow> quiet s1 s2 \<Longrightarrow> quiet ss s2"
  by (simp add: quiet_def frame_kept_def)

lemma quiet_ask: "sys_ask f s1 = (r, s2) \<Longrightarrow> quiet s1 s2"
  by (auto simp: sys_ask_def split: prod.splits)

lemma handled_quiet:
  "quiet ss ss' \<Longrightarrow> not_reserved j ss \<Longrightarrow> slot_ok (ss_alloc_id ss) (HASH_ID j) (ss_slot ss (HASH_ID j)) \<Longrightarrow> handled j {#} r ss ss'"
  by (intro handled_same) (simp_all add: quiet_def)

lemma handled_made:
  assumes "sk_type (ss_slot ss (HASH_ID j)) = SOCKET_TYPE_RESERVE" "sk_id (ss_slot ss (HASH_ID j)) = j"
    "slot_ok (ss_alloc_id ss) (HASH_ID j) (ss_slot ss (HASH_ID j))"
    "quiet (ss\<lparr>ss_slot := (ss_slot ss)(HASH_ID j := s')\<rparr>) ss'"
    "sk_high s' = []" "sk_low s' = []" "sk_id s' = j" "sk_type s' \<noteq> SOCKET_TYPE_RESERVE"
    "sk_type s' = SOCKET_TYPE_INVALID \<or> sk_wb_size s' = 0 \<and> p_ok s'"
  shows "handled j {#} r ss ss'"
  using assms by (auto simp: handled_def Let_def quiet_def slot_ok_def active_def pending_def size_error_def frame_kept_def)

definition fresh_socket :: "int \<Rightarrow> int \<Rightarrow> protocol \<Rightarrow> u64 \<Rightarrow> socket \<Rightarrow> socket" where
  "fresh_socket j fd protocol opaque s =
     s\<lparr>sk_id := j, sk_fd := fd, sk_protocol := protocol, sk_p := P_size MIN_READ_BUFFER, sk_opaque := opaque,
       sk_wb_size := 0, sk_warn_size := 0\<rparr>"

lemma new_fd_reserved:
  assumes "sk_type (ss_slot ss (HASH_ID j)) = SOCKET_TYPE_RESERVE"
    "slot_ok a (HASH_ID j) (ss_slot ss (HASH_ID j))"
  shows "\<exists>b s1. new_fd K j fd protocol opaque add ss = Some (b, s1) \<and> (\<not> add \<longrightarrow> b) \<and>
    quiet (ss\<lparr>ss_slot := (ss_slot ss)(HASH_ID j := (if b then fresh_socket j fd protocol opaque (ss_slot ss (HASH_ID j))
             else (ss_slot ss (HASH_ID j))\<lparr>sk_type := SOCKET_TYPE_INVALID\<rparr>))\<rparr>) s1"
proof -
  obtain b w where k: "k_epoll_add K (ss_world ss) fd = (b, w)" by fastforce
  have l: "sk_high (ss_slot ss (HASH_ID j)) = []" "sk_low (ss_slot ss (HASH_ID j)) = []"
    using assms by (simp_all add: slot_ok_def active_def)
  show ?thesis
    using assms(1) l k
    by (cases add; cases b; simp add: new_fd_def Let_def sp_add_def sys_ask_def sys_do_def check_wb_list_def set_type_def upd_sock_def
        fresh_socket_def quiet_def frame_kept_def; blast)
qed

lemma fresh_simps [simp]:
  "sk_high (fresh_socket j fd pr o' s) = sk_high s" "sk_low (fresh_socket j fd pr o' s) = sk_low s"
  "sk_id (fresh_socket j fd pr o' s) = j" "sk_wb_size (fresh_socket j fd pr o' s) = 0"
  "sk_fd (fresh_socket j fd pr o' s) = fd"
  by (simp_all add: fresh_socket_def)

lemma fresh_p_ok: "p_ok (fresh_socket j fd PROTOCOL_TCP o' s\<lparr>sk_type := t\<rparr>)"
  "pr \<noteq> PROTOCOL_TCP \<Longrightarrow> p_ok (fresh_socket j fd pr o' s\<lparr>sk_type := t, sk_p := P_udp_address (replicate UDP_ADDRESS_SIZE 0)\<rparr>)"
  by (auto simp: fresh_socket_def p_ok_def MIN_READ_BUFFER_def intro: exI [of _ 6])

lemma quiet_slots: "quiet ss ss' \<Longrightarrow> ss_slot ss' = ss_slot ss" "quiet ss ss' \<Longrightarrow> ss_alloc_id ss' = ss_alloc_id ss"
  by (simp_all add: quiet_def frame_kept_def)

lemma quiet_upd: "quiet ss s1 \<Longrightarrow> quiet (ss\<lparr>ss_slot := (ss_slot ss)(k := f (ss_slot ss k))\<rparr>) (upd_sock k f s1)"
  by (simp add: quiet_def upd_sock_def frame_kept_def)

lemma quiet_fun_upd:
  "quiet (ss\<lparr>ss_slot := (ss_slot ss)(k := s)\<rparr>) s1 \<Longrightarrow> quiet (ss\<lparr>ss_slot := (ss_slot ss)(k := f s)\<rparr>) (upd_sock k f s1)"
  by (simp add: quiet_def upd_sock_def frame_kept_def)

lemma creator_handled:
  assumes res: "sk_type (ss_slot ss (HASH_ID j)) = SOCKET_TYPE_RESERVE" "sk_id (ss_slot ss (HASH_ID j)) = j"
    and ok: "slot_ok (ss_alloc_id ss) (HASH_ID j) (ss_slot ss (HASH_ID j))"
  shows "\<exists>r s1. listen_socket K j fd opaque ss = Some (r, s1) \<and> handled j {#} r ss s1"
    and "\<exists>r s1. bind_socket K j fd opaque ss = Some (r, s1) \<and> handled j {#} r ss s1"
    and "\<exists>s1. add_udp_socket K j fd v6 opaque ss = Some s1 \<and> handled j {#} SOCKET_NOTHING ss s1"
proof -
  let ?k = "HASH_ID j" and ?s = "ss_slot ss (HASH_ID j)"
  have l: "sk_high ?s = []" "sk_low ?s = []" using ok res by (simp_all add: slot_ok_def active_def)
  note made = handled_made [OF res ok]
  from new_fd_reserved [OF res(1) ok, of K fd PROTOCOL_TCP opaque False] obtain s1 where
    n: "new_fd K j fd PROTOCOL_TCP opaque False ss = Some (True, s1)"
    "quiet (ss\<lparr>ss_slot := (ss_slot ss)(?k := fresh_socket j fd PROTOCOL_TCP opaque ?s)\<rparr>) s1" by auto
  have "handled j {#} SOCKET_NOTHING ss (set_type ?k SOCKET_TYPE_PLISTEN s1)"
    unfolding set_type_def by (rule made [OF quiet_fun_upd [OF n(2)]]) (simp_all add: l fresh_p_ok)
  with n(1) show "\<exists>r s1. listen_socket K j fd opaque ss = Some (r, s1) \<and> handled j {#} r ss s1"
    by (simp add: listen_socket_def)
  from new_fd_reserved [OF res(1) ok, of K fd PROTOCOL_TCP opaque True] obtain b s1 where
    n: "new_fd K j fd PROTOCOL_TCP opaque True ss = Some (b, s1)"
    "quiet (ss\<lparr>ss_slot := (ss_slot ss)(?k := (if b then fresh_socket j fd PROTOCOL_TCP opaque ?s else ?s\<lparr>sk_type := SOCKET_TYPE_INVALID\<rparr>))\<rparr>) s1"
    by auto
  show "\<exists>r s1. bind_socket K j fd opaque ss = Some (r, s1) \<and> handled j {#} r ss s1"
  proof (cases b)
    case True
    have "quiet (ss\<lparr>ss_slot := (ss_slot ss)(?k := (fresh_socket j fd PROTOCOL_TCP opaque ?s)\<lparr>sk_type := SOCKET_TYPE_BIND\<rparr>)\<rparr>)
        (put_result j opaque 0 (Data_text ''binding'') (set_type ?k SOCKET_TYPE_BIND (sp_nonblocking fd s1)))"
      using n(2) True quiet_fun_upd [of ss ?k "fresh_socket j fd PROTOCOL_TCP opaque ?s" "sp_nonblocking fd s1" "\<lambda>s. s\<lparr>sk_type := SOCKET_TYPE_BIND\<rparr>"]
      by (simp add: set_type_def)
    from made [OF this] n(1) True l show ?thesis by (simp add: bind_socket_def fresh_p_ok)
  next
    case False
    have "handled j {#} SOCKET_ERR ss (put_result j opaque 0 number_limit s1)"
      by (rule made [where s' = "?s\<lparr>sk_type := SOCKET_TYPE_INVALID\<rparr>"]) (use n(2) False l res in simp_all)
    with n(1) False show ?thesis by (simp add: bind_socket_def)
  qed
  let ?pr = "if v6 then PROTOCOL_UDPv6 else PROTOCOL_UDP"
  from new_fd_reserved [OF res(1) ok, of K fd ?pr opaque True] obtain b s1 where
    n: "new_fd K j fd ?pr opaque True ss = Some (b, s1)"
    "quiet (ss\<lparr>ss_slot := (ss_slot ss)(?k := (if b then fresh_socket j fd ?pr opaque ?s else ?s\<lparr>sk_type := SOCKET_TYPE_INVALID\<rparr>))\<rparr>) s1"
    by auto
  show "\<exists>s1. add_udp_socket K j fd v6 opaque ss = Some s1 \<and> handled j {#} SOCKET_NOTHING ss s1"
  proof (cases b)
    case True
    let ?f = "\<lambda>s. s\<lparr>sk_type := SOCKET_TYPE_CONNECTED, sk_p := P_udp_address (replicate UDP_ADDRESS_SIZE 0)\<rparr>"
    have "handled j {#} SOCKET_NOTHING ss (upd_sock ?k ?f s1)"
      by (rule made [OF quiet_fun_upd [of _ _ "fresh_socket j fd ?pr opaque ?s"]]) (use n(2) True l in \<open>simp_all add: fresh_p_ok\<close>)
    with n(1) True show ?thesis by (simp add: add_udp_socket_def)
  next
    case False
    let ?f = "\<lambda>s. s\<lparr>sk_type := SOCKET_TYPE_INVALID\<rparr>"
    have "handled j {#} SOCKET_NOTHING ss (set_type ?k SOCKET_TYPE_INVALID (close_fd fd s1))"
      unfolding set_type_def
      by (rule made [OF quiet_fun_upd [of _ _ "?s\<lparr>sk_type := SOCKET_TYPE_INVALID\<rparr>"]]) (use n(2) False l res in simp_all)
    with n(1) False show ?thesis by (simp add: add_udp_socket_def)
  qed
qed

lemma connect_loop_quiet: "connect_loop K ais s1 = (r, s2) \<Longrightarrow> quiet ss s1 \<Longrightarrow> quiet ss s2"
proof (induction ais arbitrary: s1)
  case (Cons ai ais)
  obtain sock s where s: "sys_ask (\<lambda>w. k_socket K w (is_v6 ai) True) s1 = (sock, s)" by fastforce
  have q: "quiet ss s" by (rule quiet_trans [OF Cons.prems(2) quiet_ask [OF s]])
  show ?case
  proof (cases "sock < 0")
    case True
    with Cons.prems(1) s q Cons.IH show ?thesis by simp
  next
    case False
    let ?s3 = "sp_nonblocking sock (socket_keepalive sock s)"
    obtain c s4 where c: "sys_ask (\<lambda>w. k_connect K w sock ai) ?s3 = (c, s4)" by fastforce
    have q4: "quiet ss s4" using quiet_trans [OF _ quiet_ask [OF c]] q by simp
    with Cons.prems(1) s c False Cons.IH [of "close_fd sock s4"] show ?thesis by (cases c) auto
  qed
qed simp

lemma open_failed_handled:
  assumes "sk_type (ss_slot ss (HASH_ID j)) = SOCKET_TYPE_RESERVE" "sk_id (ss_slot ss (HASH_ID j)) = j"
    "slot_ok (ss_alloc_id ss) (HASH_ID j) (ss_slot ss (HASH_ID j))"
    "quiet (ss\<lparr>ss_slot := (ss_slot ss)(HASH_ID j := s)\<rparr>) s1" "sk_high s = []" "sk_low s = []" "sk_id s = j"
  shows "\<exists>r s2. open_failed j s1 = (r, s2) \<and> handled j {#} r ss s2"
proof -
  have q: "quiet (ss\<lparr>ss_slot := (ss_slot ss)(HASH_ID j := s\<lparr>sk_type := SOCKET_TYPE_INVALID\<rparr>)\<rparr>) (set_type (HASH_ID j) SOCKET_TYPE_INVALID s1)"
    unfolding set_type_def by (rule quiet_fun_upd [OF assms(4)])
  have "handled j {#} SOCKET_ERR ss (set_type (HASH_ID j) SOCKET_TYPE_INVALID s1)"
    by (rule handled_made [OF assms(1-3) q]) (simp_all add: assms(5-7))
  then show ?thesis by (simp add: open_failed_def)
qed

lemma open_socket_handled:
  assumes res: "sk_type (ss_slot ss (HASH_ID j)) = SOCKET_TYPE_RESERVE" "sk_id (ss_slot ss (HASH_ID j)) = j"
    and ok: "slot_ok (ss_alloc_id ss) (HASH_ID j) (ss_slot ss (HASH_ID j))"
  shows "\<exists>r s1. open_socket K j port opaque host ss = Some (r, s1) \<and> handled j {#} r ss s1"
proof -
  let ?k = "HASH_ID j" and ?s = "ss_slot ss (HASH_ID j)"
  have l: "sk_high ?s = []" "sk_low ?s = []" using ok res by (simp_all add: slot_ok_def active_def)
  note failed = open_failed_handled [OF res ok]
  obtain ai s1 where a: "sys_ask (\<lambda>w. k_getaddrinfo K w host port True) (put_result j opaque 0 Data_null ss) = (ai, s1)" by fastforce
  have q1: "quiet ss s1" using quiet_trans [OF _ quiet_ask [OF a]] by simp
  have same: "ss\<lparr>ss_slot := (ss_slot ss)(?k := ?s)\<rparr> = ss" by simp
  show ?thesis
  proof (cases ai)
    case (Inl status)
    with a q1 l res failed [of ?s "set_data (Data_text (k_gai_strerror K status)) s1"] show ?thesis
      by (auto simp: open_socket_def Let_def same)
  next
    case (Inr ais)
    obtain c s2 where c: "connect_loop K ais s1 = (c, s2)" by fastforce
    have q2: "quiet ss s2" by (rule connect_loop_quiet [OF c q1])
    show ?thesis
    proof (cases c)
      case None
      with a c q2 l res Inr failed [of ?s "set_data (Data_text (k_strerror K (k_errno K (ss_world s2)))) s2"] show ?thesis
        by (auto simp: open_socket_def Let_def same)
    next
      case (Some x)
      obtain sock conn sa where x: "x = (sock, conn, sa)" by (cases x) auto
      have res2: "sk_type (ss_slot s2 ?k) = SOCKET_TYPE_RESERVE" "slot_ok (ss_alloc_id ss) ?k (ss_slot s2 ?k)"
        using q2 res ok by (simp_all add: quiet_def)
      from new_fd_reserved [OF res2, of K sock PROTOCOL_TCP opaque True] obtain b s3 where
        n: "new_fd K j sock PROTOCOL_TCP opaque True s2 = Some (b, s3)" and
        q: "quiet (s2\<lparr>ss_slot := (ss_slot s2)(?k := (if b then fresh_socket j sock PROTOCOL_TCP opaque (ss_slot s2 ?k)
             else (ss_slot s2 ?k)\<lparr>sk_type := SOCKET_TYPE_INVALID\<rparr>))\<rparr>) s3"
        by auto
      have q3: "quiet (ss\<lparr>ss_slot := (ss_slot ss)(?k := (if b then fresh_socket j sock PROTOCOL_TCP opaque ?s
             else ?s\<lparr>sk_type := SOCKET_TYPE_INVALID\<rparr>))\<rparr>) s3"
        using q q2 by (simp add: quiet_def frame_kept_def)
      have made: "quiet (ss\<lparr>ss_slot := (ss_slot ss)(?k := (fresh_socket j sock PROTOCOL_TCP opaque ?s)\<lparr>sk_type := t\<rparr>)\<rparr>) (set_type ?k t s3)"
        if b for t unfolding set_type_def by (rule quiet_fun_upd) (use q3 that in simp)
      have ok': "handled j {#} r ss s4" if b "quiet (set_type ?k t s3) s4" "t \<noteq> SOCKET_TYPE_RESERVE" for r s4 t
        by (rule handled_made [OF res ok quiet_trans [OF made [OF that(1)] that(2)]]) (simp_all add: l that(3) fresh_p_ok)
      show ?thesis
      proof (cases b)
        case False
        with a c n x Some Inr q3 l res failed [of "?s\<lparr>sk_type := SOCKET_TYPE_INVALID\<rparr>" "set_data number_limit (close_fd sock s3)"]
        show ?thesis by (auto simp: open_socket_def Let_def)
      next
        case True
        show ?thesis
        proof (cases conn)
          case True': True
          let ?s4 = "set_type ?k SOCKET_TYPE_CONNECTED s3"
          have "quiet ?s4 (case k_inet_ntop K sa of Some t \<Rightarrow> set_data (Data_text t) ?s4 | None \<Rightarrow> ?s4)"
            by (simp split: option.split)
          from ok' [OF True this] a c n x Some Inr True True' show ?thesis by (simp add: open_socket_def Let_def)
        next
          case False
          let ?s4 = "set_type ?k SOCKET_TYPE_CONNECTING s3"
          have "quiet ?s4 (sp_write fd True ?s4)" for fd by simp
          from ok' [OF True this] a c n x Some Inr True False show ?thesis by (simp add: open_socket_def Let_def)
        qed
      qed
    qed
  qed
qed

subsection \<open>Closing, starting and options\<close>

lemma handled_then_quiet:
  "handled j X r ss s1 \<Longrightarrow> quiet s1 s2 \<Longrightarrow> pm_id (ss_result s2) = sk_id (ss_slot s1 (HASH_ID j)) \<or> active (ss_slot s1 (HASH_ID j)) \<Longrightarrow>
     handled j X r ss s2"
  by (rule handled_cong) (auto simp: quiet_def)

lemma quiet_flushed:
  assumes "quiet ss s1" "\<And>fd. wire fd (ss_calls s1) = wire fd (ss_calls ss)"
  shows "flushed i ss s1"
  using assms by (intro flushed_quiet) (simp_all add: quiet_def)

lemma force_close_handled:
  assumes "active (ss_slot ss (HASH_ID j))" "sk_id (ss_slot ss (HASH_ID j)) = j" "flushed (HASH_ID j) ss s1"
    "r \<in> {SOCKET_CLOSE, SOCKET_ERR}"
  shows "force_close (HASH_ID j) s1 = Some (closed_state (HASH_ID j) s1) \<and> handled j {#} r ss (closed_state (HASH_ID j) s1) \<and>
    sk_id (ss_slot (closed_state (HASH_ID j) s1) (HASH_ID j)) = j"
proof -
  have "active (ss_slot s1 (HASH_ID j))" "sk_id (ss_slot s1 (HASH_ID j)) = j"
    using assms(1,2) flushed_conn [OF assms(3)] by (simp_all add: active_def same_conn_def)
  with assms show ?thesis using handled_closed [OF assms(3)] by (simp add: force_close_active)
qed

lemma close_socket_handled:
  assumes K: "kernel_ok K" and ok: "slot_ok (ss_alloc_id ss) (HASH_ID j) (ss_slot ss (HASH_ID j))" and nr: "not_reserved j ss"
  shows "\<exists>r ss'. close_socket K j shutdown opaque ss = Some (r, ss') \<and> handled j {#} r ss ss'"
proof (cases "sk_type (ss_slot ss (HASH_ID j)) = SOCKET_TYPE_INVALID \<or> sk_id (ss_slot ss (HASH_ID j)) \<noteq> j")
  case True
  then show ?thesis using ok nr by (auto simp: close_socket_def Let_def intro: handled_quiet)
next
  case False
  let ?k = "HASH_ID j" and ?s = "ss_slot ss (HASH_ID j)"
  have act: "active ?s" "sk_id ?s = j" using False nr by (auto simp: active_def not_reserved_def)
  have low: "sk_low ?s = []" using ok act by (simp add: slot_ok_def)
  have "\<exists>r s1. (if send_buffer_empty ?s then Some (SOCKET_NOTHING, ss) else send_buffer K ?k ss) = Some (r, s1) \<and>
      (r = SOCKET_CLOSE \<and> handled j {#} r ss s1 \<or>
       (r = SOCKET_NOTHING \<or> r = SOCKET_WARNING) \<and> flushed ?k ss s1 \<and> sk_low (ss_slot s1 ?k) = [])"
  proof (cases "send_buffer_empty ?s")
    case True
    then show ?thesis using low by simp
  next
    case False
    from send_buffer_handled [OF K act ok] obtain r s1 where s1: "send_buffer K ?k ss = Some (r, s1)" "handled j {#} r ss s1"
      "r = SOCKET_CLOSE \<or> (r = SOCKET_NOTHING \<or> r = SOCKET_WARNING) \<and> flushed ?k ss s1" by blast
    have "r \<noteq> SOCKET_CLOSE \<Longrightarrow> sk_low (ss_slot s1 ?k) = []"
      using s1(2,3) act by (auto simp: handled_def Let_def slot_ok_def active_def flushed_def same_conn_def)
    with s1 False show ?thesis by auto
  qed
  then obtain r s1 where run: "(if send_buffer_empty ?s then Some (SOCKET_NOTHING, ss) else send_buffer K ?k ss) = Some (r, s1)"
    and res: "r = SOCKET_CLOSE \<and> handled j {#} r ss s1 \<or>
       (r = SOCKET_NOTHING \<or> r = SOCKET_WARNING) \<and> flushed ?k ss s1 \<and> sk_low (ss_slot s1 ?k) = []" by blast
  note unf = close_socket_def Let_def run
  show ?thesis
  proof (cases "r = SOCKET_CLOSE")
    case True
    with res False show ?thesis by (auto simp: unf)
  next
    case F: False
    with res have f: "flushed ?k ss s1" "sk_low (ss_slot s1 ?k) = []" "r = SOCKET_NOTHING \<or> r = SOCKET_WARNING" by auto
    show ?thesis
    proof (cases "shutdown \<or> send_buffer_empty (ss_slot s1 ?k)")
      case True
      let ?c = "closed_state ?k s1"
      let ?s2 = "?c\<lparr>ss_result := (ss_result ?c)\<lparr>pm_id := j, pm_opaque := opaque\<rparr>\<rparr>"
      note c = force_close_handled [OF act f(1), of SOCKET_CLOSE]
      have "handled j {#} SOCKET_CLOSE ss ?s2"
        by (rule handled_then_quiet [of _ _ _ _ ?c]) (use c in \<open>simp_all add: quiet_def frame_kept_def\<close>)
      moreover have "close_socket K j shutdown opaque ss = Some (SOCKET_CLOSE, ?s2)"
        using True f(3) False c run by (auto simp: close_socket_def Let_def)
      ultimately show ?thesis by blast
    next
      case G: False
      have "handled j {#} SOCKET_NOTHING ss s1" by (rule handled_flushed [OF f(1) act ok f(2)])
      moreover have "slot_ok a ?k (s\<lparr>sk_type := SOCKET_TYPE_HALFCLOSE\<rparr>) = slot_ok a ?k s" if "active s" for s a
        using that p_ok_cong [of "s\<lparr>sk_type := SOCKET_TYPE_HALFCLOSE\<rparr>" s]
        by (simp add: slot_ok_def active_def size_error_def pending_def)
      moreover have "active (ss_slot s1 ?k)" using act flushed_conn [OF f(1)] by (simp add: active_def same_conn_def)
      ultimately have "handled j {#} SOCKET_NOTHING ss (set_type ?k SOCKET_TYPE_HALFCLOSE s1)"
        using act by (simp add: handled_def Let_def set_type_def upd_sock_def frame_kept_def pending_def active_def)
      moreover have "close_socket K j shutdown opaque ss = Some (SOCKET_NOTHING, set_type ?k SOCKET_TYPE_HALFCLOSE s1)"
        using G f(3) False run by (auto simp: close_socket_def Let_def)
      ultimately show ?thesis by blast
    qed
  qed
qed

lemma start_socket_handled:
  assumes ok: "slot_ok (ss_alloc_id ss) (HASH_ID j) (ss_slot ss (HASH_ID j))" and nr: "not_reserved j ss"
  shows "\<exists>r ss'. start_socket K j opaque ss = Some (r, ss') \<and> handled j {#} r ss ss'"
proof -
  let ?k = "HASH_ID j" and ?s = "ss_slot ss (HASH_ID j)" and ?init = "put_result j opaque 0 Data_null ss"
  have keep: "\<exists>r ss'. start_socket K j opaque ss = Some (r, ss') \<and> handled j {#} r ss ss'"
    if "start_socket K j opaque ss = Some (r, s1)" "quiet ss s1" for r s1
    using that handled_quiet [OF that(2) nr ok] by blast
  have change: "handled j {#} r ss (set_data d (upd_sock ?k f s1))"
    if "quiet ss s1" "active ?s" "sk_id ?s = j" "active (f ?s)" "pending (f ?s) = pending ?s" "sk_wb_size (f ?s) = sk_wb_size ?s"
      "sk_id (f ?s) = j" "sk_p (f ?s) = sk_p ?s" "sk_protocol (f ?s) = sk_protocol ?s" "sk_low (f ?s) = sk_low ?s" for r d f s1
    using ok that p_ok_cong [OF that(8,9)]
    by (simp add: handled_def Let_def quiet_def set_data_def upd_sock_def frame_kept_def slot_ok_def size_error_def active_def)
  consider (other) "sk_type ?s = SOCKET_TYPE_INVALID \<or> sk_id ?s \<noteq> j"
    | (paccept) "active ?s" "sk_id ?s = j" "sk_type ?s = SOCKET_TYPE_PACCEPT \<or> sk_type ?s = SOCKET_TYPE_PLISTEN"
    | (conn) "active ?s" "sk_id ?s = j" "sk_type ?s = SOCKET_TYPE_CONNECTED"
    | (rest) "active ?s" "sk_id ?s = j" "sk_type ?s \<notin> {SOCKET_TYPE_PACCEPT, SOCKET_TYPE_PLISTEN, SOCKET_TYPE_CONNECTED}"
    using nr by (cases "sk_type ?s") (auto simp: active_def not_reserved_def)
  then show ?thesis
  proof cases
    case other
    then show ?thesis by (intro keep [of SOCKET_ERR "set_data (Data_text ''invalid socket'') ?init"]) (auto simp: start_socket_def Let_def)
  next
    case paccept
    obtain b s1 where b: "sp_add K (sk_fd ?s) ?init = (b, s1)" by fastforce
    have q: "quiet ss s1" using quiet_trans [OF _ quiet_ask [OF b [unfolded sp_add_def]]] by simp
    have w: "wire fd (ss_calls s1) = wire fd (ss_calls ss)" for fd
      using b by (auto simp: sp_add_def sys_ask_def sys_do_def put_result_def split: prod.splits)
    show ?thesis
    proof (cases b)
      case True
      note c = force_close_handled [OF paccept(1,2) quiet_flushed [OF q w], of SOCKET_ERR]
      let ?c = "closed_state ?k s1"
      let ?s2 = "set_data (Data_text (k_strerror K (k_errno K (ss_world ?c)))) ?c"
      have "handled j {#} SOCKET_ERR ss ?s2"
        by (rule handled_then_quiet [of _ _ _ _ ?c])
          (use c q paccept(2) in \<open>simp_all add: set_data_def quiet_def frame_kept_def\<close>)
      moreover have "start_socket K j opaque ss = Some (SOCKET_ERR, ?s2)"
        using True b c paccept by (auto simp: start_socket_def Let_def active_def)
      ultimately show ?thesis by blast
    next
      case False
      let ?f = "\<lambda>s. s\<lparr>sk_type := (if sk_type s = SOCKET_TYPE_PACCEPT then SOCKET_TYPE_CONNECTED else SOCKET_TYPE_LISTEN), sk_opaque := opaque\<rparr>"
      have "start_socket K j opaque ss = Some (SOCKET_OPEN, set_data (Data_text ''start'') (upd_sock ?k ?f s1))"
        using False b paccept by (auto simp: start_socket_def Let_def active_def)
      moreover have "handled j {#} SOCKET_OPEN ss (set_data (Data_text ''start'') (upd_sock ?k ?f s1))"
        using paccept by (intro change [OF q]) (simp_all add: active_def pending_def)
      ultimately show ?thesis by blast
    qed
  next
    case conn
    have "start_socket K j opaque ss = Some (SOCKET_OPEN, set_data (Data_text ''transfer'') (upd_sock ?k (\<lambda>s. s\<lparr>sk_opaque := opaque\<rparr>) ?init))"
      using conn by (simp add: start_socket_def Let_def)
    moreover have "handled j {#} SOCKET_OPEN ss (set_data (Data_text ''transfer'') (upd_sock ?k (\<lambda>s. s\<lparr>sk_opaque := opaque\<rparr>) ?init))"
      using conn by (intro change) (simp_all add: active_def pending_def)
    ultimately show ?thesis by blast
  next
    case rest
    then show ?thesis by (intro keep [of SOCKET_NOTHING ?init]) (auto simp: start_socket_def Let_def active_def)
  qed
qed

lemma set_udp_address_handled:
  assumes ok: "slot_ok (ss_alloc_id ss) (HASH_ID j) (ss_slot ss (HASH_ID j))" and nr: "not_reserved j ss"
    and udp: "address ! 0 \<noteq> protocol_byte PROTOCOL_TCP"
  shows "\<exists>r ss'. set_udp_address j address ss = Some (r, ss') \<and> handled j {#} r ss ss'"
proof -
  let ?k = "HASH_ID j" and ?s = "ss_slot ss (HASH_ID j)"
  have keep: "\<exists>r ss'. set_udp_address j address ss = Some (r, ss') \<and> handled j {#} r ss ss'"
    if "set_udp_address j address ss = Some (r, s1)" "quiet ss s1" for r s1
    using that handled_quiet [OF that(2) nr ok] by blast
  consider (other) "sk_type ?s = SOCKET_TYPE_INVALID \<or> sk_id ?s \<noteq> j"
    | (mismatch) "sk_type ?s \<noteq> SOCKET_TYPE_INVALID" "sk_id ?s = j" "address ! 0 \<noteq> protocol_byte (sk_protocol ?s)"
    | (set) "active ?s" "sk_id ?s = j" "address ! 0 = protocol_byte (sk_protocol ?s)"
    using nr by (auto simp: active_def not_reserved_def)
  then show ?thesis
  proof cases
    case other
    then show ?thesis by (intro keep [of SOCKET_NOTHING ss]) (auto simp: set_udp_address_def Let_def)
  next
    case mismatch
    then show ?thesis
      by (intro keep [of SOCKET_ERR "put_result (sk_id ?s) (sk_opaque ?s) 0 (Data_text ''protocol mismatch'') ss"])
        (auto simp: set_udp_address_def Let_def)
  next
    case set
    then obtain old where p: "sk_p ?s = P_udp_address old" "length old = UDP_ADDRESS_SIZE" "sk_protocol ?s \<noteq> PROTOCOL_TCP"
      using ok udp by (auto simp: slot_ok_def p_ok_def split: socket_p.splits)
    let ?a = "overwrite (take (if address ! 0 = 1 then 7 else 19) address) old"
    have "length ?a = UDP_ADDRESS_SIZE" using p(2) by (simp add: overwrite_def UDP_ADDRESS_SIZE_def)
    then have "handled j {#} SOCKET_NOTHING ss (upd_sock ?k (\<lambda>s. s\<lparr>sk_p := P_udp_address ?a\<rparr>) ss)"
      using ok set(1,2) p(3)
      by (simp add: handled_def Let_def upd_sock_def frame_kept_def slot_ok_def size_error_def active_def pending_def p_ok_def)
    with set p(1) show ?thesis by (auto simp: set_udp_address_def Let_def active_def)
  qed
qed

subsection \<open>The pipe\<close>

fun request_id :: "request \<Rightarrow> int option" where
  "request_id (Req_open i _ _ _) = Some i"
| "request_id (Req_send _ rs) = Some (rs_id rs)"
| "request_id (Req_send_udp rs _) = Some (rs_id rs)"
| "request_id (Req_setudp i _) = Some i"
| "request_id (Req_close i _ _) = Some i"
| "request_id (Req_listen i _ _) = Some i"
| "request_id (Req_bind i _ _) = Some i"
| "request_id (Req_start i _) = Some i"
| "request_id (Req_setopt i _ _) = Some i"
| "request_id (Req_udp i _ _ _) = Some i"
| "request_id Req_exit = None"

fun creates :: "request \<Rightarrow> bool" where
  "creates (Req_open _ _ _ _) = True"
| "creates (Req_listen _ _ _) = True"
| "creates (Req_bind _ _ _) = True"
| "creates (Req_udp _ _ _ _) = True"
| "creates _ = False"

fun request_ok :: "request \<Rightarrow> bool" where
  "request_ok (Req_send p rs) = (p = PRIORITY_HIGH \<and> valid_send rs)"
| "request_ok (Req_send_udp rs _) = valid_send rs"
| "request_ok (Req_setudp _ address) = (address ! 0 \<noteq> protocol_byte PROTOCOL_TCP)"
| "request_ok _ = True"

fun request_buffers :: "request \<Rightarrow> (bool \<times> mblock) multiset" where
  "request_buffers (Req_send _ rs) = {#(False, rs_buffer rs)#}"
| "request_buffers (Req_send_udp rs _) = {#(False, rs_buffer rs)#}"
| "request_buffers _ = {#}"

text \<open>
  In the order of the pipe, a request that creates a socket comes when its identifier is reserved, and any other
  request when it is not; at the end nothing is reserved. \<open>R\<close> says which identifiers are reserved now.
\<close>

fun pipe_ok :: "(int \<Rightarrow> bool) \<Rightarrow> request list \<Rightarrow> bool" where
  "pipe_ok R [] = (\<forall>j. \<not> R j)"
| "pipe_ok R (r # rs) =
     (case request_id r of None \<Rightarrow> pipe_ok R rs | Some j \<Rightarrow> (creates r \<longleftrightarrow> R j) \<and> pipe_ok (R(j := False)) rs)"

lemma pipe_ok_append:
  "pipe_ok R rs \<Longrightarrow> \<not> creates r \<Longrightarrow> pipe_ok R (rs @ [r])"
  by (induction R rs rule: pipe_ok.induct) (auto split: option.splits)

lemma pipe_ok_create:
  "pipe_ok R rs \<Longrightarrow> creates r \<Longrightarrow> request_id r = Some j \<Longrightarrow> \<forall>q \<in> set rs. request_id q \<noteq> Some j \<Longrightarrow> pipe_ok (R(j := True)) (rs @ [r])"
proof (induction R rs rule: pipe_ok.induct)
  case (1 R)
  then show ?case by (auto simp: fun_upd_def)
next
  case (2 R q rs)
  show ?case
  proof (cases "request_id q")
    case None
    with 2 show ?thesis by simp
  next
    case (Some i)
    with "2.prems" have ij: "i \<noteq> j" by auto
    have "pipe_ok ((R(i := False))(j := True)) (rs @ [r])"
      using "2.IH"(2) [OF Some] "2.prems" Some by (simp add: fun_upd_def)
    then have "pipe_ok ((R(j := True))(i := False)) (rs @ [r])" by (subst fun_upd_twist) (use ij in simp_all)
    moreover have "creates q = (R(j := True)) i" using "2.prems"(1) Some ij by simp
    ultimately show ?thesis unfolding append_Cons pipe_ok.simps(2) Some option.case by (rule conjI [rotated])
  qed
qed

definition reserved_for :: "'w socket_server \<Rightarrow> int \<Rightarrow> bool" where
  "reserved_for ss j \<longleftrightarrow> \<not> not_reserved j ss"

lemma handled_reserved:
  assumes "handled j X r ss ss'"
  shows "reserved_for ss' = (reserved_for ss)(j := False)"
proof
  fix i
  show "reserved_for ss' i = ((reserved_for ss)(j := False)) i"
    using assms by (cases "HASH_ID i = HASH_ID j") (auto simp: handled_def Let_def reserved_for_def not_reserved_def)
qed

definition entry_ok :: "int \<Rightarrow> char \<times> u8 \<times> request \<Rightarrow> bool" where
  "entry_ok a x \<longleftrightarrow> (case x of (t, len, r) \<Rightarrow>
     t = request_type r \<and> unat len = request_size r \<and> request_ok r \<and> (\<forall>j. request_id r = Some j \<longrightarrow> j \<le> a))"

definition requests :: "'w socket_server \<Rightarrow> request list" where
  "requests ss = map (\<lambda>(_, _, r). r) (ss_pipe ss)"

definition live :: "event list \<Rightarrow> nat list" where
  "live es = List.map_filter ev_s es"

definition socket_inv :: "'w socket_server \<Rightarrow> bool" where
  "socket_inv ss \<longleftrightarrow> 0 \<le> ss_alloc_id ss \<and> ss_alloc_id ss < 2 ^ 31 \<and>
     (\<forall>k. slot_ok (ss_alloc_id ss) k (ss_slot ss k)) \<and>
     (\<forall>x \<in> set (ss_pipe ss). entry_ok (ss_alloc_id ss) x) \<and> pipe_ok (reserved_for ss) (requests ss) \<and>
     ss_event_index ss \<le> length (ss_ev ss) \<and> distinct (live (drop (ss_event_index ss) (ss_ev ss))) \<and>
     (\<forall>k \<in> set (live (drop (ss_event_index ss) (ss_ev ss))). active (ss_slot ss k))"

text \<open>The first request of the pipe is treated without an abort.\<close>

lemma request_handled:
  assumes K: "kernel_ok K" and pipe: "ss_pipe ss = (t, len, q) # rest" and e: "entry_ok a (t, len, q)"
    and ok: "\<And>k. slot_ok (ss_alloc_id ss) k (ss_slot ss k)" and j: "request_id q = Some j" "creates q \<longleftrightarrow> reserved_for ss j"
  shows "\<exists>r ss'. ctrl_cmd K ss = Some (r, ss') \<and> handled j (request_buffers q) r (ss\<lparr>ss_pipe := rest\<rparr>) ss'"
proof -
  let ?ss = "ss\<lparr>ss_pipe := rest\<rparr>"
  have ok': "slot_ok (ss_alloc_id ?ss) (HASH_ID j) (ss_slot ?ss (HASH_ID j))" using ok by simp
  have nr: "not_reserved j ?ss" if "\<not> creates q" using that j by (simp add: reserved_for_def not_reserved_def)
  have res: "sk_type (ss_slot ?ss (HASH_ID j)) = SOCKET_TYPE_RESERVE" "sk_id (ss_slot ?ss (HASH_ID j)) = j" if "creates q"
    using that j by (simp_all add: reserved_for_def not_reserved_def)
  have hd: "t = request_type q" "unat len = request_size q" "request_ok q" using e by (simp_all add: entry_ok_def)
  note unf = ctrl_cmd_def pipe hd(1,2)
  show ?thesis
  proof (cases q)
    case (Req_open i port opaque host)
    with open_socket_handled [OF res ok', of K port opaque host] j show ?thesis by (auto simp: unf)
  next
    case (Req_send p rs)
    with send_socket_handled [of rs ?ss K None] ok' nr hd(3) j show ?thesis by (auto simp: unf)
  next
    case (Req_send_udp rs address)
    with send_socket_handled [of rs ?ss K "Some address"] ok' nr hd(3) j show ?thesis by (auto simp: unf)
  next
    case (Req_setudp i address)
    with set_udp_address_handled [OF ok' nr, of address] hd(3) j show ?thesis by (auto simp: unf)
  next
    case (Req_close i shutdown opaque)
    with close_socket_handled [OF K ok' nr, of shutdown opaque] j show ?thesis by (auto simp: unf)
  next
    case (Req_listen i fd opaque)
    with creator_handled(1) [OF res ok', of K fd opaque] j show ?thesis by (auto simp: unf)
  next
    case (Req_bind i fd opaque)
    with creator_handled(2) [OF res ok', of K fd opaque] j show ?thesis by (auto simp: unf)
  next
    case (Req_start i opaque)
    with start_socket_handled [OF ok' nr, of K opaque] j show ?thesis by (auto simp: unf)
  next
    case (Req_setopt i what v)
    have "quiet ?ss (setopt_socket i what v ?ss)" by (simp add: setopt_socket_def Let_def)
    from handled_quiet [OF this nr ok', of SOCKET_NOTHING] Req_setopt j show ?thesis by (auto simp: unf)
  next
    case (Req_udp i fd v6 opaque)
    with creator_handled(3) [OF res ok', of K fd v6 opaque] j show ?thesis by (auto simp: unf)
  next
    case Req_exit
    with j show ?thesis by simp
  qed
qed

end
