(* ===== verification/Socket_Invariant.thy ===== *)
theory Socket_Invariant
  imports Socket_Safety
begin

section \<open>The invariant of the socket server\<close>

subsection \<open>Requests\<close>

lemma live_simps [simp]:
  "live [] = []" "live (e # es) = (case ev_s e of None \<Rightarrow> live es | Some k \<Rightarrow> k # live es)"
  by (simp_all add: live_def List.map_filter_def split: option.split)

text \<open>Clearing the event of a closed socket: the others stay, the closed one goes.\<close>

lemma clear_event_live:
  assumes "\<forall>m \<in> set (live es). m \<noteq> k \<longrightarrow> sk_type (slot m) \<noteq> SOCKET_TYPE_INVALID"
    and "k \<in> set (live es) \<longrightarrow> sk_type (slot k) = SOCKET_TYPE_INVALID \<and> sk_id (slot k) = i"
  shows "live (clear_event slot i es) = remove1 k (live es)"
  using assms by (induction es) (auto split: option.splits)

lemma clear_event_length [simp]: "length (clear_event slot i es) = length es"
  by (induction es) (auto split: option.splits)

lemma clear_event_none:
  assumes "\<forall>m \<in> set (live es). sk_type (slot m) \<noteq> SOCKET_TYPE_INVALID"
  shows "clear_event slot i es = es"
  using assms by (induction es) (auto split: option.splits)

lemma handled_slot_ok:
  assumes "handled j X r ss ss'" "\<And>k. slot_ok (ss_alloc_id ss) k (ss_slot ss k)"
  shows "slot_ok (ss_alloc_id ss') k (ss_slot ss' k)"
  using assms by (cases "k = HASH_ID j") (auto simp: handled_def Let_def frame_kept_def)

lemma handled_active:
  assumes "handled j X r ss ss'" "active (ss_slot ss m)"
  shows "active (ss_slot ss' m) \<or> m = HASH_ID j \<and> r \<in> {SOCKET_CLOSE, SOCKET_ERR} \<and> sk_type (ss_slot ss' m) = SOCKET_TYPE_INVALID \<and>
    pm_id (ss_result ss') = sk_id (ss_slot ss' m)"
proof (cases "m = HASH_ID j")
  case True
  with assms show ?thesis by (auto simp: handled_def Let_def active_def)
next
  case False
  with assms show ?thesis by (simp add: handled_def Let_def)
qed

text \<open>After a request was handled, the events that are left are again of active sockets.\<close>

lemma handled_events:
  assumes h: "handled j X r ss ss'" and es: "distinct (live es)" "\<forall>k \<in> set (live es). active (ss_slot ss k)"
  defines "es' \<equiv> (if r = SOCKET_CLOSE \<or> r = SOCKET_ERR then clear_event (ss_slot ss') (pm_id (ss_result ss')) es else es)"
  shows "distinct (live es') \<and> (\<forall>k \<in> set (live es'). active (ss_slot ss' k)) \<and> length es' = length es"
proof (cases "\<forall>k \<in> set (live es). active (ss_slot ss' k)")
  case True
  then have "clear_event (ss_slot ss') (pm_id (ss_result ss')) es = es" by (intro clear_event_none) (auto simp: active_def)
  with True es show ?thesis by (simp add: es'_def)
next
  case False
  then obtain k where k: "k \<in> set (live es)" "\<not> active (ss_slot ss' k)" by blast
  with handled_active [OF h, of k] es(2) have c: "k = HASH_ID j" "r = SOCKET_CLOSE \<or> r = SOCKET_ERR"
    "sk_type (ss_slot ss' k) = SOCKET_TYPE_INVALID" "pm_id (ss_result ss') = sk_id (ss_slot ss' k)" by auto
  have others: "active (ss_slot ss' m)" if "m \<in> set (live es)" "m \<noteq> k" for m
    using handled_active [OF h, of m] es(2) that c(1) by auto
  then have "live es' = remove1 k (live es) \<and> length es' = length es"
    unfolding es'_def using c(2,3,4) by (simp add: clear_event_live [of es k] active_def)
  then show ?thesis using es(1) others by auto
qed

lemma requests_Cons: "ss_pipe ss = (t, len, q) # rest \<Longrightarrow> requests ss = q # map (\<lambda>(_, _, r). r) rest"
  by (simp add: requests_def)

text \<open>Every buffer the server was given is freed, waits in a socket or waits in the pipe.\<close>

definition slot_buffers :: "(nat \<Rightarrow> socket) \<Rightarrow> (bool \<times> mblock) multiset" where
  "slot_buffers slot = (\<Sum>k < nat MAX_SOCKET. mset (map wb_key (pending (slot k))))"

definition all_buffers :: "'w socket_server \<Rightarrow> (bool \<times> mblock) multiset" where
  "all_buffers ss = mset (ss_freed ss) + slot_buffers (ss_slot ss) + sum_list (map request_buffers (requests ss))"

lemma slot_buffers_upd:
  assumes "\<And>m. m \<noteq> k \<Longrightarrow> slot' m = slot m" "k < nat MAX_SOCKET"
  shows "slot_buffers slot' + mset (map wb_key (pending (slot k))) = slot_buffers slot + mset (map wb_key (pending (slot' k)))"
proof -
  let ?f = "\<lambda>s k. mset (map wb_key (pending (s k)))"
  have k: "k \<in> {..<nat MAX_SOCKET}" "finite {..<nat MAX_SOCKET}" using assms(2) by simp_all
  have "sum (?f slot') ({..<nat MAX_SOCKET} - {k}) = sum (?f slot) ({..<nat MAX_SOCKET} - {k})"
    by (rule sum.cong) (use assms(1) in auto)
  with sum.remove [OF k(2,1), of "?f slot"] sum.remove [OF k(2,1), of "?f slot'"] show ?thesis
    by (simp add: slot_buffers_def ac_simps)
qed

lemma handled_buffers:
  assumes "handled j X r ss ss'"
  shows "mset (ss_freed ss') + slot_buffers (ss_slot ss') = mset (ss_freed ss) + slot_buffers (ss_slot ss) + X"
proof -
  let ?k = "HASH_ID j"
  have h: "\<And>m. m \<noteq> ?k \<Longrightarrow> ss_slot ss' m = ss_slot ss m"
    "mset (ss_freed ss') + mset (map wb_key (pending (ss_slot ss' ?k))) = mset (ss_freed ss) + mset (map wb_key (pending (ss_slot ss ?k))) + X"
    using assms by (simp_all add: handled_def Let_def)
  let ?a = "mset (map wb_key (pending (ss_slot ss ?k)))" and ?b = "mset (map wb_key (pending (ss_slot ss' ?k)))"
  have u: "slot_buffers (ss_slot ss') + ?a = slot_buffers (ss_slot ss) + ?b"
    by (rule slot_buffers_upd) (use h(1) HASH_ID_less in auto)
  have "(mset (ss_freed ss') + ?b) + (slot_buffers (ss_slot ss') + ?a) =
      (mset (ss_freed ss) + ?a + X) + (slot_buffers (ss_slot ss) + ?b)"
    by (simp only: h(2) u)
  then have "(mset (ss_freed ss') + slot_buffers (ss_slot ss')) + (?a + ?b) =
      (mset (ss_freed ss) + slot_buffers (ss_slot ss) + X) + (?a + ?b)"
    by (simp only: ac_simps)
  then show ?thesis by (simp only: add_right_cancel)
qed

lemma ctrl_cmd_inv:
  assumes inv: "socket_inv ss" and K: "kernel_ok K" and pipe: "ss_pipe ss \<noteq> []"
  shows "\<exists>r ss'. ctrl_cmd K ss = Some (r, ss') \<and> socket_inv (clear_closed_event r ss') \<and>
    all_buffers (clear_closed_event r ss') = all_buffers ss"
proof -
  from pipe obtain t len q rest where p: "ss_pipe ss = (t, len, q) # rest" by (cases "ss_pipe ss") auto
  let ?ss = "ss\<lparr>ss_pipe := rest\<rparr>"
  let ?es = "drop (ss_event_index ss) (ss_ev ss)"
  have e: "entry_ok (ss_alloc_id ss) (t, len, q)" using inv p by (simp add: socket_inv_def)
  have slots: "\<And>k. slot_ok (ss_alloc_id ss) k (ss_slot ss k)" using inv by (simp add: socket_inv_def)
  have pk: "pipe_ok (reserved_for ss) (q # map (\<lambda>(_, _, r). r) rest)"
    using inv by (simp add: socket_inv_def requests_Cons [OF p])
  have res: "reserved_for ?ss = reserved_for ss" by (simp add: fun_eq_iff reserved_for_def not_reserved_def)
  show ?thesis
  proof (cases "request_id q")
    case None
    then have q: "q = Req_exit" by (cases q) auto
    then have "ctrl_cmd K ss = Some (SOCKET_EXIT, put_result 0 0 0 Data_null ?ss)"
      using e by (simp add: ctrl_cmd_def p entry_ok_def)
    moreover have "socket_inv (put_result 0 0 0 Data_null ?ss)"
      using inv pk p q by (simp add: socket_inv_def put_result_def requests_def reserved_for_def [abs_def] not_reserved_def)
    moreover have "all_buffers (put_result 0 0 0 Data_null ?ss) = all_buffers ss"
      using p q by (simp add: all_buffers_def put_result_def requests_def)
    ultimately show ?thesis by (simp add: clear_closed_event_def)
  next
    case (Some j)
    then have pk': "creates q \<longleftrightarrow> reserved_for ss j" "pipe_ok ((reserved_for ss)(j := False)) (map (\<lambda>(_, _, r). r) rest)"
      using pk by simp_all
    from request_handled [OF K p e slots Some pk'(1)] obtain r ss' where
      run: "ctrl_cmd K ss = Some (r, ss')" and h: "handled j (request_buffers q) r ?ss ss'" by blast
    have fr: "ss_pipe ss' = rest" "ss_ev ss' = ss_ev ss" "ss_event_index ss' = ss_event_index ss" "ss_alloc_id ss' = ss_alloc_id ss"
      using h by (simp_all add: handled_def Let_def frame_kept_def)
    have r': "reserved_for ss' = (reserved_for ss)(j := False)" using handled_reserved [OF h] by (simp add: res)
    have sl: "\<And>k. slot_ok (ss_alloc_id ss') k (ss_slot ss' k)" using handled_slot_ok [OF h] slots by simp
    have ev: "distinct (live ?es)" "\<forall>k \<in> set (live ?es). active (ss_slot ?ss k)" "ss_event_index ss \<le> length (ss_ev ss)"
      using inv by (simp_all add: socket_inv_def)
    note he = handled_events [OF h ev(1,2)]
    let ?c = "clear_closed_event r ss'"
    have c: "ss_slot ?c = ss_slot ss'" "ss_pipe ?c = rest" "ss_alloc_id ?c = ss_alloc_id ss" "ss_event_index ?c = ss_event_index ss"
      "requests ?c = map (\<lambda>(_, _, r). r) rest" "reserved_for ?c = reserved_for ss'"
      using fr by (auto simp: clear_closed_event_def requests_def fun_eq_iff reserved_for_def not_reserved_def)
    have "ss_event_index ss \<le> length (ss_ev ?c)" "drop (ss_event_index ss) (ss_ev ?c) =
        (if r = SOCKET_CLOSE \<or> r = SOCKET_ERR then clear_event (ss_slot ss') (pm_id (ss_result ss')) ?es else ?es)"
      using he ev(3) fr by (auto simp: clear_closed_event_def)
    with he sl c r' pk'(2) inv p fr have "socket_inv ?c" by (simp add: socket_inv_def)
    moreover have "all_buffers ?c = all_buffers ss"
      using handled_buffers [OF h] c(5) requests_Cons [OF p]
      by (simp add: all_buffers_def clear_closed_event_def ac_simps)
    ultimately show ?thesis using run by blast
  qed
qed

subsection \<open>Events\<close>

lemma next_read_size_ok:
  assumes "6 \<le> k" "k \<le> 30" "0 < n" "n \<le> 2 ^ k" "n < 2 ^ 30"
  shows "\<exists>m. 6 \<le> m \<and> m \<le> 30 \<and> next_read_size (2 ^ k) n = Some (2 ^ m)"
proof -
  consider "n = 2 ^ k" | "n \<noteq> 2 ^ k" "MIN_READ_BUFFER < 2 ^ k \<and> n * 2 < 2 ^ k" | "n \<noteq> 2 ^ k" "\<not> (MIN_READ_BUFFER < 2 ^ k \<and> n * 2 < 2 ^ k)"
    by blast
  then show ?thesis
  proof cases
    case 1
    with assms(5) have "k < 30" using power_strict_increasing_iff [of "2 :: int" k 30] by simp
    moreover have "(2 :: int) ^ (k + 1) \<le> 2 ^ 30" using calculation by (intro power_increasing) auto
    ultimately show ?thesis using 1 assms(1) by (intro exI [of _ "k + 1"]) (simp add: next_read_size_def)
  next
    case 2
    then have "(2 :: int) ^ 6 < 2 ^ k" by (simp add: MIN_READ_BUFFER_def)
    then have "6 < k" using power_strict_increasing_iff [of "2 :: int" 6 k] by simp
    then obtain m where "k = Suc m" by (cases k) auto
    with 2 assms \<open>6 < k\<close> show ?thesis by (intro exI [of _ m]) (simp add: next_read_size_def)
  next
    case 3
    with assms show ?thesis by (intro exI [of _ k]) (auto simp: next_read_size_def)
  qed
qed

lemma read_error_handled:
  assumes act: "active (ss_slot ss (HASH_ID j))" "sk_id (ss_slot ss (HASH_ID j)) = j" and q: "quiet ss s1"
    and w: "\<And>fd. wire fd (ss_calls s1) = wire fd (ss_calls ss)"
  shows "\<exists>s2. force_close (HASH_ID j) s1 = Some s2 \<and> handled j {#} SOCKET_CLOSE ss s2 \<and> (\<forall>d. handled j {#} SOCKET_ERR ss (set_data d s2))"
proof -
  note c = force_close_handled [OF act quiet_flushed [OF q w]]
  have "handled j {#} SOCKET_ERR ss (set_data d (closed_state (HASH_ID j) s1))" for d
    by (rule handled_then_quiet [of _ _ _ _ "closed_state (HASH_ID j) s1"])
      (use c [of SOCKET_ERR] q act(2) in \<open>simp_all add: set_data_def quiet_def frame_kept_def\<close>)
  with c [of SOCKET_CLOSE] show ?thesis by blast
qed

lemma forward_tcp_handled:
  assumes K: "kernel_ok K" and act: "active (ss_slot ss (HASH_ID j))" "sk_id (ss_slot ss (HASH_ID j)) = j"
    and ok: "slot_ok (ss_alloc_id ss) (HASH_ID j) (ss_slot ss (HASH_ID j))" and tcp: "sk_protocol (ss_slot ss (HASH_ID j)) = PROTOCOL_TCP"
  shows "\<exists>r ss'. forward_message_tcp K (HASH_ID j) ss = Some (r, ss') \<and> handled j {#} r ss ss'"
proof -
  let ?k = "HASH_ID j" and ?s = "ss_slot ss (HASH_ID j)"
  obtain m where m: "sk_p ?s = P_size (2 ^ m)" "6 \<le> m" "m \<le> 30"
    using ok act tcp by (auto simp: slot_ok_def p_ok_def split: socket_p.splits)
  obtain a w where k: "k_read K (ss_world ss) (sk_fd ?s) (2 ^ m) = (a, w)" by fastforce
  let ?s1 = "ss\<lparr>ss_world := w\<rparr>"
  have keep: "handled j {#} r ss s1" if "quiet ss s1" for r s1
    by (rule handled_quiet [OF that active_not_reserved [OF act(1)] ok])
  note unf = forward_message_tcp_def Let_def m(1) sys_ask_def k
  from read_error_handled [OF act, of ?s1] obtain s2 where s2: "force_close ?k ?s1 = Some s2" "handled j {#} SOCKET_CLOSE ss s2"
    "\<And>d. handled j {#} SOCKET_ERR ss (set_data d s2)" by auto
  show ?thesis
  proof (cases a)
    case (IO_ok b)
    show ?thesis
    proof (cases "b = [] \<or> sk_type ?s = SOCKET_TYPE_HALFCLOSE")
      case True
      with IO_ok s2 keep [of ?s1] show ?thesis by (auto simp: unf)
    next
      case False
      have "int (length b) \<le> 2 ^ m" "length b < 2 ^ 30" using K k IO_ok unfolding kernel_ok_def by blast+
      with next_read_size_ok [OF m(2,3), of "int (length b)"] False obtain n where
        n: "6 \<le> n" "n \<le> 30" "next_read_size (2 ^ m) (int (length b)) = Some (2 ^ n)" by auto
      let ?s2 = "put_result (sk_id ?s) (sk_opaque ?s) (int (length b)) (Data_bytes b) (upd_sock ?k (\<lambda>s. s\<lparr>sk_p := P_size (2 ^ n)\<rparr>) ?s1)"
      have "handled j {#} SOCKET_DATA ss ?s2"
        using act ok tcp n(1,2)
        by (auto simp: handled_def Let_def put_result_def upd_sock_def frame_kept_def slot_ok_def size_error_def active_def pending_def p_ok_def)
      with False IO_ok n(3) show ?thesis by (simp add: unf)
    qed
  qed (use s2(1,3) keep [of ?s1] keep [of "print_error ''socket-server: EAGAIN capture.'' ?s1"] in \<open>simp_all add: unf\<close>)
qed

lemma forward_udp_handled:
  assumes act: "active (ss_slot ss (HASH_ID j))" "sk_id (ss_slot ss (HASH_ID j)) = j"
    and ok: "slot_ok (ss_alloc_id ss) (HASH_ID j) (ss_slot ss (HASH_ID j))"
  shows "\<exists>r ss'. forward_message_udp K (HASH_ID j) ss = Some (r, ss') \<and> handled j {#} r ss ss'"
proof -
  let ?k = "HASH_ID j" and ?s = "ss_slot ss (HASH_ID j)"
  obtain a w where k: "k_recvfrom K (ss_world ss) (sk_fd ?s) = (a, w)" by fastforce
  let ?s1 = "ss\<lparr>ss_world := w\<rparr>"
  have keep: "handled j {#} r ss s1" if "quiet ss s1" for r s1
    by (rule handled_quiet [OF that active_not_reserved [OF act(1)] ok])
  from read_error_handled [OF act, of ?s1] obtain s2 where s2: "force_close ?k ?s1 = Some s2"
    "\<And>d. handled j {#} SOCKET_ERR ss (set_data d s2)" by auto
  note unf = forward_message_udp_def Let_def sys_ask_def k
  show ?thesis
  proof (cases a)
    case (IO_ok x)
    obtain b sa where x: "x = (b, sa)" by fastforce
    have "\<exists>r s3. forward_message_udp K ?k ss = Some (r, s3) \<and> quiet ss s3"
      using IO_ok x by (simp add: unf)
    then show ?thesis using keep by blast
  qed (use s2 keep [of ?s1] in \<open>simp_all add: unf\<close>)
qed

lemma report_connect_handled:
  assumes act: "active (ss_slot ss (HASH_ID j))" "sk_id (ss_slot ss (HASH_ID j)) = j"
    and ok: "slot_ok (ss_alloc_id ss) (HASH_ID j) (ss_slot ss (HASH_ID j))"
  shows "\<exists>r ss'. report_connect K (HASH_ID j) ss = Some (r, ss') \<and> handled j {#} r ss ss'"
proof -
  let ?k = "HASH_ID j" and ?s = "ss_slot ss (HASH_ID j)"
  obtain a w where k: "k_so_error K (ss_world ss) (sk_fd ?s) = (a, w)" by fastforce
  let ?s1 = "ss\<lparr>ss_world := w\<rparr>"
  show ?thesis
  proof (cases "a = Inr 0")
    case False
    from read_error_handled [OF act, of ?s1] obtain s2 where "force_close ?k ?s1 = Some s2"
      "\<And>d. handled j {#} SOCKET_ERR ss (set_data d s2)" by auto
    with False show ?thesis by (simp add: report_connect_def Let_def sys_ask_def k)
  next
    case True
    let ?s2 = "set_type ?k SOCKET_TYPE_CONNECTED ?s1"
    have h: "handled j {#} SOCKET_OPEN ss ?s2"
      using act ok p_ok_cong [of "?s\<lparr>sk_type := SOCKET_TYPE_CONNECTED\<rparr>" ?s]
      by (simp add: handled_def Let_def set_type_def upd_sock_def frame_kept_def slot_ok_def size_error_def active_def pending_def)
    have a2: "active (ss_slot ?s2 ?k)" by (simp add: active_def set_type_def upd_sock_def)
    let ?s3 = "if send_buffer_empty ?s then sp_write (sk_fd ?s) False ?s2 else ?s2"
    obtain u s4 where u: "sys_ask (\<lambda>w. k_getpeername K w (sk_fd ?s)) ?s3 = (u, s4)" by fastforce
    have "quiet ?s2 s4" by (rule quiet_trans [OF _ quiet_ask [OF u]]) simp
    then have "quiet ?s2 (put_result (sk_id ?s) (sk_opaque ?s) 0 d s4)" for d by simp
    from handled_then_quiet [OF h this disjI2 [OF a2]] True u show ?thesis
      by (simp add: report_connect_def Let_def k sys_ask_def [of "\<lambda>w. k_so_error K w (sk_fd (ss_slot ss (HASH_ID j)))"])
  qed
qed

lemma slot_ok_mono: "slot_ok a k s \<Longrightarrow> a \<le> b \<Longrightarrow> slot_ok b k s"
  by (auto simp: slot_ok_def)

lemma entry_ok_mono: "entry_ok a x \<Longrightarrow> a \<le> b \<Longrightarrow> entry_ok b x"
  by (force simp: entry_ok_def)

text \<open>Identifiers are still far from the wrap of the counter.\<close>

definition room :: "'w socket_server \<Rightarrow> bool" where
  "room ss \<longleftrightarrow> ss_alloc_id ss + MAX_SOCKET < 2 ^ 31"

lemma reserve_id_room:
  assumes "0 \<le> ss_alloc_id ss" "room ss" "reserve_id ss = (j, ss')"
  shows "ss_alloc_id ss \<le> ss_alloc_id ss' \<and> ss_alloc_id ss' < 2 ^ 31 \<and>
    (j = - 1 \<and> ss' = ss\<lparr>ss_alloc_id := ss_alloc_id ss'\<rparr> \<or>
     ss_alloc_id ss < j \<and> sk_type (ss_slot ss (HASH_ID j)) = SOCKET_TYPE_INVALID \<and> ss' = reserved j ss)"
proof -
  have a: "ss_alloc_id ss < 2 ^ 31" using assms(2) by (simp add: room_def MAX_SOCKET_def)
  have m: "(ss_alloc_id ss + 1 + int k) mod 2 ^ 31 = ss_alloc_id ss + 1 + int k" if "k < nat MAX_SOCKET" for k
    by (rule mod_pos_pos_trivial) (use that assms(1,2) in \<open>simp_all add: room_def MAX_SOCKET_def\<close>)
  have m': "(ss_alloc_id ss + int (nat MAX_SOCKET)) mod 2 ^ 31 = ss_alloc_id ss + MAX_SOCKET"
    using assms(1,2) by (simp add: room_def MAX_SOCKET_def)
  from reserve_loop_cases [OF assms(1) a assms(3) [unfolded reserve_id_def]] show ?thesis
  proof (elim disjE exE conjE)
    fix k assume k: "k < nat MAX_SOCKET" "j = (ss_alloc_id ss + 1 + int k) mod 2 ^ 31"
      "sk_type (ss_slot ss (HASH_ID j)) = SOCKET_TYPE_INVALID" "ss' = reserved j ss"
    then have j: "j = ss_alloc_id ss + 1 + int k" using m by simp
    moreover have "j < 2 ^ 31" unfolding k(2) by simp
    ultimately show ?thesis using k by (simp add: reserved_def upd_sock_def)
  next
    assume "j = - 1" "ss' = ss\<lparr>ss_alloc_id := (ss_alloc_id ss + int (nat MAX_SOCKET)) mod 2 ^ 31\<rparr>"
    then show ?thesis using m' assms(2) by (simp add: room_def MAX_SOCKET_def)
  qed
qed

text \<open>A change of the server that keeps the pipe and the events, and the sockets but for a new one.\<close>

lemma inv_quiet:
  assumes "socket_inv ss" "quiet (ss\<lparr>ss_alloc_id := a\<rparr>) ss'" "ss_alloc_id ss \<le> a" "a < 2 ^ 31"
  shows "socket_inv ss' \<and> all_buffers ss' = all_buffers ss"
proof -
  have e: "ss_slot ss' = ss_slot ss" "ss_pipe ss' = ss_pipe ss" "ss_ev ss' = ss_ev ss" "ss_event_index ss' = ss_event_index ss"
    "ss_alloc_id ss' = a" "ss_freed ss' = ss_freed ss" "requests ss' = requests ss"
    using assms(2) by (simp_all add: quiet_def frame_kept_def requests_def)
  then have "reserved_for ss' = reserved_for ss" by (simp add: fun_eq_iff reserved_for_def not_reserved_def)
  with e assms slot_ok_mono entry_ok_mono show ?thesis
    by (simp add: socket_inv_def all_buffers_def) blast
qed

lemma inv_new_socket:
  assumes inv: "socket_inv ss" and j: "ss_alloc_id ss < j" "j < 2 ^ 31" and free: "sk_type (ss_slot ss (HASH_ID j)) = SOCKET_TYPE_INVALID"
    and q: "quiet (ss\<lparr>ss_alloc_id := j, ss_slot := (ss_slot ss)(HASH_ID j := s)\<rparr>) ss'"
    and s: "slot_ok j (HASH_ID j) s" "active s" "pending s = []"
  shows "socket_inv ss' \<and> all_buffers ss' = all_buffers ss"
proof -
  let ?k = "HASH_ID j"
  have e: "ss_slot ss' = (ss_slot ss)(?k := s)" "ss_pipe ss' = ss_pipe ss" "ss_ev ss' = ss_ev ss" "ss_event_index ss' = ss_event_index ss"
    "ss_alloc_id ss' = j" "ss_freed ss' = ss_freed ss" "requests ss' = requests ss"
    using q by (simp_all add: quiet_def frame_kept_def requests_def)
  have r: "reserved_for ss' = reserved_for ss"
    using free s(2) by (auto simp: fun_eq_iff reserved_for_def not_reserved_def e(1) active_def)
  have ok: "slot_ok j k (ss_slot ss' k)" for k
    using inv slot_ok_mono [of "ss_alloc_id ss" k "ss_slot ss k" j] j(1) s(1) by (auto simp: e(1) socket_inv_def)
  have pipe: "\<forall>x \<in> set (ss_pipe ss). entry_ok j x" using inv j(1) entry_ok_mono by (fastforce simp: socket_inv_def)
  have "pending (ss_slot ss ?k) = []"
    using inv free by (simp add: socket_inv_def slot_ok_def active_def pending_def)
  then have "slot_buffers (ss_slot ss') = slot_buffers (ss_slot ss)"
    using slot_buffers_upd [of ?k "ss_slot ss'" "ss_slot ss"] s(3) by (simp add: e(1) HASH_ID_less)
  then have "all_buffers ss' = all_buffers ss" by (simp add: all_buffers_def e)
  moreover have "socket_inv ss'"
    using inv j ok pipe r s(2) by (auto simp: socket_inv_def e)
  ultimately show ?thesis by blast
qed

lemma report_accept_inv:
  assumes inv: "socket_inv ss" and room: "room ss"
  shows "\<exists>r ss'. report_accept K i ss = Some (r, ss') \<and> socket_inv ss' \<and> all_buffers ss' = all_buffers ss"
proof -
  let ?s = "ss_slot ss i"
  obtain a w where k: "k_accept K (ss_world ss) (sk_fd ?s) = (a, w)" by fastforce
  let ?s1 = "ss\<lparr>ss_world := w\<rparr>"
  have id: "ss\<lparr>ss_alloc_id := ss_alloc_id ss\<rparr> = ss" by simp
  have keep: "socket_inv s \<and> all_buffers s = all_buffers ss" if "quiet ss s" for s
    using inv_quiet [OF inv, of "ss_alloc_id ss" s] that inv by (simp add: id socket_inv_def)
  show ?thesis
  proof (cases a)
    case (Accepted fd u)
    obtain j s2 where r: "reserve_id ?s1 = (j, s2)" by fastforce
    have nonneg: "0 \<le> ss_alloc_id ss" using inv by (simp add: socket_inv_def)
    have rr: "ss_alloc_id ss \<le> ss_alloc_id s2 \<and> ss_alloc_id s2 < 2 ^ 31 \<and>
        (j = - 1 \<and> s2 = ?s1\<lparr>ss_alloc_id := ss_alloc_id s2\<rparr> \<or>
         ss_alloc_id ss < j \<and> sk_type (ss_slot ss (HASH_ID j)) = SOCKET_TYPE_INVALID \<and> s2 = reserved j ?s1)"
      using reserve_id_room [OF _ _ r] nonneg room by (simp add: room_def)
    show ?thesis
    proof (cases "j < 0")
      case True
      define b where "b = ss_alloc_id s2"
      have s2: "s2 = ?s1\<lparr>ss_alloc_id := b\<rparr>" using rr nonneg True unfolding b_def by linarith
      have b: "ss_alloc_id ss \<le> b" "b < 2 ^ 31" using rr by (simp_all add: b_def)
      have "quiet (ss\<lparr>ss_alloc_id := b\<rparr>) (close_fd fd s2)"
        unfolding s2 by (simp add: quiet_def close_fd_def sys_do_def frame_kept_def)
      from inv_quiet [OF inv this b] True Accepted r k show ?thesis
        by (simp add: report_accept_def Let_def sys_ask_def)
    next
      case False
      with rr have j: "ss_alloc_id ss < j" "j < 2 ^ 31" "sk_type (ss_slot ss (HASH_ID j)) = SOCKET_TYPE_INVALID" "s2 = reserved j ?s1"
        by (auto simp: reserved_def upd_sock_def)
      let ?k = "HASH_ID j" and ?s3 = "sp_nonblocking fd (socket_keepalive fd s2)"
      let ?r = "(ss_slot ss ?k)\<lparr>sk_type := SOCKET_TYPE_RESERVE, sk_id := j, sk_fd := - 1\<rparr>"
      let ?f = "(fresh_socket j fd PROTOCOL_TCP (sk_opaque ?s) ?r)\<lparr>sk_type := SOCKET_TYPE_PACCEPT\<rparr>"
      have lists: "sk_high (ss_slot ss ?k) = []" "sk_low (ss_slot ss ?k) = []"
        using inv j(3) by (simp_all add: socket_inv_def slot_ok_def active_def)
      have q3: "quiet (ss\<lparr>ss_alloc_id := j, ss_slot := (ss_slot ss)(?k := ?r)\<rparr>) ?s3"
        unfolding j(4) quiet_simps by (simp add: reserved_def upd_sock_def quiet_def frame_kept_def)
      have r3: "ss_slot ?s3 ?k = ?r" using q3 by (simp add: quiet_def)
      have "sk_type (ss_slot ?s3 ?k) = SOCKET_TYPE_RESERVE" "slot_ok j ?k (ss_slot ?s3 ?k)"
        unfolding r3 using lists by (simp_all add: slot_ok_def active_def)
      from new_fd_reserved [OF this, of K fd PROTOCOL_TCP "sk_opaque ?s" False] obtain s4 where
        n: "new_fd K j fd PROTOCOL_TCP (sk_opaque ?s) False ?s3 = Some (True, s4)" and
        q4: "quiet (?s3\<lparr>ss_slot := (ss_slot ?s3)(?k := fresh_socket j fd PROTOCOL_TCP (sk_opaque ?s) ?r)\<rparr>) s4"
        unfolding r3 by auto
      have q5: "quiet (ss\<lparr>ss_alloc_id := j, ss_slot := (ss_slot ss)(?k := ?f)\<rparr>) (put_result x y z d (set_type ?k SOCKET_TYPE_PACCEPT s4))" for x y z d
        using q3 q4 by (simp add: quiet_def set_type_def put_result_def upd_sock_def frame_kept_def)
      have "slot_ok j ?k ?f" "active ?f" "pending ?f = []"
        using lists by (simp_all add: slot_ok_def active_def size_error_def pending_def fresh_p_ok)
      from inv_new_socket [OF inv j(1,2,3) q5 this] n False Accepted r k show ?thesis
        by (simp add: report_accept_def Let_def sys_ask_def)
    qed
  next
    case (Accept_limit e)
    have "quiet ss (put_result (sk_id ?s) (sk_opaque ?s) 0 (Data_text (k_strerror K e)) ?s1)" by simp
    from keep [OF this] Accept_limit show ?thesis by (simp add: report_accept_def Let_def sys_ask_def k)
  next
    case Accept_failed
    have "quiet ss ?s1" by simp
    from keep [OF this] Accept_failed show ?thesis by (simp add: report_accept_def Let_def sys_ask_def k)
  qed
qed

lemma event_inv:
  assumes inv: "socket_inv ss" and h: "handled j {#} r ss ss'" and act: "active (ss_slot ss (HASH_ID j))"
    and other: "HASH_ID j \<notin> set (live (drop (ss_event_index ss) (ss_ev ss)))"
  shows "socket_inv ss' \<and> all_buffers ss' = all_buffers ss"
proof -
  have fr: "ss_pipe ss' = ss_pipe ss" "ss_ev ss' = ss_ev ss" "ss_event_index ss' = ss_event_index ss" "ss_alloc_id ss' = ss_alloc_id ss"
    "requests ss' = requests ss"
    using h by (simp_all add: handled_def Let_def frame_kept_def requests_def)
  have "reserved_for ss' = reserved_for ss"
    using handled_reserved [OF h] active_not_reserved [OF act] by (auto simp: fun_eq_iff reserved_for_def)
  moreover have "slot_ok (ss_alloc_id ss') k (ss_slot ss' k)" for k
    using handled_slot_ok [OF h] inv by (simp add: socket_inv_def)
  moreover have "active (ss_slot ss' k)" if "k \<in> set (live (drop (ss_event_index ss) (ss_ev ss)))" for k
    using handled_active [OF h, of k] that other inv by (auto simp: socket_inv_def)
  ultimately have "socket_inv ss'" using inv by (simp add: socket_inv_def fr)
  with handled_buffers [OF h] show ?thesis by (simp add: all_buffers_def fr)
qed

lemma event_again_inv:
  assumes inv: "socket_inv ss" and k: "ss_event_index ss = Suc k" and e: "ev_s e = Some i" "active (ss_slot ss i)"
    "i \<notin> set (live (drop (Suc k) (ss_ev ss)))"
  shows "socket_inv (ss\<lparr>ss_ev := (ss_ev ss)[k := e], ss_event_index := k\<rparr>)"
proof -
  have "k < length (ss_ev ss)" using inv k by (simp add: socket_inv_def)
  then have "drop k ((ss_ev ss)[k := e]) = e # drop (Suc k) (ss_ev ss)"
    by (simp add: Cons_nth_drop_Suc [symmetric])
  then show ?thesis
    using inv k e by (simp add: socket_inv_def requests_def reserved_for_def [abs_def] not_reserved_def)
qed

lemma forward_handled:
  assumes "kernel_ok K" "active (ss_slot ss (HASH_ID j))" "sk_id (ss_slot ss (HASH_ID j)) = j"
    and "slot_ok (ss_alloc_id ss) (HASH_ID j) (ss_slot ss (HASH_ID j))"
  shows "\<exists>r ss'. (if sk_protocol (ss_slot ss (HASH_ID j)) = PROTOCOL_TCP then forward_message_tcp K (HASH_ID j) ss
                 else forward_message_udp K (HASH_ID j) ss) = Some (r, ss') \<and> handled j {#} r ss ss'"
  using forward_tcp_handled [OF assms] forward_udp_handled [OF assms(2-4), of K] by simp

lemma poll_socket_inv:
  assumes inv: "socket_inv ss" and K: "kernel_ok K" and room: "room ss" and k: "ss_event_index ss = Suc k"
    and e: "ev_s e = Some i" "active (ss_slot ss i)" "i \<notin> set (live (drop (Suc k) (ss_ev ss)))"
    "ss_ev ss ! k = e"
  shows "\<exists>r ss'. poll_socket K k e i ss = Some (r, ss') \<and> socket_inv ss' \<and> all_buffers ss' = all_buffers ss"
proof -
  define j where "j = sk_id (ss_slot ss i)"
  have slot: "slot_ok (ss_alloc_id ss) i (ss_slot ss i)" using inv by (simp add: socket_inv_def)
  then have i: "HASH_ID j = i" using e(2) by (simp add: slot_ok_def active_def j_def)
  have act: "active (ss_slot ss (HASH_ID j))" "sk_id (ss_slot ss (HASH_ID j)) = j" using e(2) unfolding i by (simp_all add: j_def)
  have ok: "slot_ok (ss_alloc_id ss) (HASH_ID j) (ss_slot ss (HASH_ID j))" using slot unfolding i .
  have step: "socket_inv s' \<and> all_buffers s' = all_buffers ss" if "handled j {#} r ss s'" for r s'
    by (rule event_inv [OF inv that act(1)]) (use e(3) k i in simp)
  consider "sk_type (ss_slot ss i) = SOCKET_TYPE_CONNECTING" | "sk_type (ss_slot ss i) = SOCKET_TYPE_LISTEN"
    | (data) "sk_type (ss_slot ss i) \<notin> {SOCKET_TYPE_CONNECTING, SOCKET_TYPE_LISTEN, SOCKET_TYPE_INVALID}"
    using e(2) by (auto simp: active_def)
  then show ?thesis
  proof cases
    case 1
    with report_connect_handled [OF act ok, of K] step show ?thesis unfolding i by (fastforce simp: poll_socket_def Let_def)
  next
    case 2
    with report_accept_inv [OF inv room, of K i] show ?thesis by (auto simp: poll_socket_def Let_def)
  next
    case data
    show ?thesis
    proof (cases "ev_read e")
      case False
      have "poll_socket K k e i ss = (if ev_write e then send_buffer K i ss else Some (SOCKET_NOTHING, ss))"
        using data False by (cases "sk_type (ss_slot ss i)") (simp_all add: poll_socket_def Let_def)
      with send_buffer_handled [OF K act ok] step inv show ?thesis unfolding i by (cases "ev_write e") auto
    next
      case True
      let ?fwd = "if sk_protocol (ss_slot ss i) = PROTOCOL_TCP then forward_message_tcp K i ss else forward_message_udp K i ss"
      from forward_handled [OF K act ok] obtain r s1 where f: "?fwd = Some (r, s1)" and h: "handled j {#} r ss s1"
        unfolding i by blast
      note s1 = step [OF h]
      have fr: "ss_ev s1 = ss_ev ss" "ss_event_index s1 = Suc k" using h k by (simp_all add: handled_def Let_def frame_kept_def)
      have again: "socket_inv (s1\<lparr>ss_ev := (ss_ev s1)[k := e'], ss_event_index := k\<rparr>)"
        if "r \<notin> {SOCKET_CLOSE, SOCKET_ERR}" "ev_s e' = Some i" for e'
        using handled_active [OF h e(2)] that e(3) fr s1 by (intro event_again_inv) auto
      have nth: "(ss_ev s1)[k := e] = ss_ev s1" using e(4) fr(1) list_update_id [of "ss_ev ss" k] by simp
      define out where "out = (if sk_protocol (ss_slot ss i) \<noteq> PROTOCOL_TCP \<and> r = SOCKET_UDP
           then Some (SOCKET_UDP, s1\<lparr>ss_event_index := k\<rparr>)
           else if ev_write e \<and> r \<noteq> SOCKET_CLOSE \<and> r \<noteq> SOCKET_ERR
           then Some (r, s1\<lparr>ss_ev := (ss_ev s1)[k := e\<lparr>ev_read := False\<rparr>], ss_event_index := k\<rparr>)
           else Some (r, s1))"
      have "poll_socket K k e i ss = out"
        using data True f by (cases "sk_type (ss_slot ss i)") (simp_all add: poll_socket_def Let_def out_def cong: if_cong)
      moreover have "\<exists>r s2. out = Some (r, s2) \<and> socket_inv s2 \<and> all_buffers s2 = all_buffers ss"
        using again [OF _ e(1)] again [of "e\<lparr>ev_read := False\<rparr>"] s1 nth e(1)
        by (auto simp: out_def all_buffers_def requests_def)
      ultimately show ?thesis by simp
    qed
  qed
qed

subsection \<open>A round of the loop\<close>

text \<open>The world in which a round that waits asks the kernel for events.\<close>

definition wait_world :: "'w kernel \<Rightarrow> 'w socket_server \<Rightarrow> 'w" where
  "wait_world K ss = (if ss_checkctrl ss then snd (k_select K (ss_world ss)) else ss_world ss)"

text \<open>The documented behaviour of \<open>epoll_wait\<close>: one event for a descriptor, and only for those that are registered.\<close>

definition events_ok :: "'w kernel \<Rightarrow> 'w socket_server \<Rightarrow> bool" where
  "events_ok K ss \<longleftrightarrow> (case k_epoll_wait K (wait_world K ss) of (es, _, _) \<Rightarrow>
     distinct (live es) \<and> (\<forall>k \<in> set (live es). active (ss_slot ss k)))"

definition round_state :: "(bool \<times> 'w socket_server) + (poll_code \<times> bool \<times> 'w socket_server) \<Rightarrow> 'w socket_server" where
  "round_state y = (case y of Inl (m, ss) \<Rightarrow> ss | Inr (c, m, ss) \<Rightarrow> ss)"

lemma inv_frame:
  assumes "socket_inv ss" "ss_slot s1 = ss_slot ss" "ss_pipe s1 = ss_pipe ss" "ss_alloc_id s1 = ss_alloc_id ss" "ss_freed s1 = ss_freed ss"
    and "ss_event_index s1 \<le> length (ss_ev s1)" "distinct (live (drop (ss_event_index s1) (ss_ev s1)))"
    and "\<forall>k \<in> set (live (drop (ss_event_index s1) (ss_ev s1))). active (ss_slot ss k)"
  shows "socket_inv s1 \<and> all_buffers s1 = all_buffers ss"
proof -
  have r: "reserved_for s1 = reserved_for ss" "requests s1 = requests ss"
    using assms(2,3) by (simp_all add: fun_eq_iff reserved_for_def not_reserved_def requests_def)
  show ?thesis using assms by (simp add: socket_inv_def r all_buffers_def)
qed

text \<open>The second half of a round: the next event.\<close>

lemma next_event_inv:
  assumes inv: "socket_inv ss" and K: "kernel_ok K" and room: "room ss" and k: "ss_event_index ss < length (ss_ev ss)"
  defines "i \<equiv> ss_event_index ss" and "s1 \<equiv> ss\<lparr>ss_event_index := Suc (ss_event_index ss)\<rparr>"
  shows "case ev_s (ss_ev ss ! i) of None \<Rightarrow> socket_inv s1 \<and> all_buffers s1 = all_buffers ss
    | Some m \<Rightarrow> \<exists>r ss'. poll_socket K i (ss_ev ss ! i) m s1 = Some (r, ss') \<and> socket_inv ss' \<and> all_buffers ss' = all_buffers ss"
proof -
  let ?e = "ss_ev ss ! i"
  have d: "drop i (ss_ev ss) = ?e # drop (Suc i) (ss_ev ss)" using k by (simp add: i_def Cons_nth_drop_Suc)
  have "distinct (live (drop i (ss_ev ss)))" "\<forall>m \<in> set (live (drop i (ss_ev ss))). active (ss_slot ss m)"
    using inv by (simp_all add: socket_inv_def i_def)
  note live = this [unfolded d]
  have s1: "socket_inv s1 \<and> all_buffers s1 = all_buffers ss"
    using live k by (intro inv_frame [OF inv]) (auto simp: s1_def i_def split: option.splits)
  show ?thesis
  proof (cases "ev_s ?e")
    case None
    with s1 show ?thesis by simp
  next
    case (Some m)
    have "socket_inv s1" "room s1" "ss_event_index s1 = Suc i" "active (ss_slot s1 m)" "m \<notin> set (live (drop (Suc i) (ss_ev s1)))"
      "ss_ev s1 ! i = ?e"
      using s1 room Some live by (simp_all add: s1_def i_def room_def)
    from poll_socket_inv [OF this(1) K this(2,3) Some this(4,5,6)] s1 Some show ?thesis by simp
  qed
qed

lemma poll_round_inv:
  assumes inv: "socket_inv ss" and K: "kernel_ok K" and room: "room ss" and ev: "events_ok K ss"
  shows "\<exists>y. poll_round K p ss = Some y \<and> socket_inv (round_state y) \<and> all_buffers (round_state y) = all_buffers ss"
proof -
  obtain cmd s1 where c: "(if ss_checkctrl ss then has_cmd K ss else (False, ss)) = (cmd, s1)" by fastforce
  have s1: "quiet ss s1" "ss_world s1 = wait_world K ss" "cmd \<longrightarrow> ss_pipe ss \<noteq> []"
    using c by (auto simp: has_cmd_def sys_ask_def wait_world_def quiet_def frame_kept_def split: if_splits prod.splits)
  have id: "ss\<lparr>ss_alloc_id := ss_alloc_id ss\<rparr> = ss" by simp
  have inv1: "socket_inv s1 \<and> all_buffers s1 = all_buffers ss"
    using inv_quiet [OF inv, of "ss_alloc_id ss" s1] s1(1) inv by (simp add: id socket_inv_def)
  show ?thesis
  proof (cases cmd)
    case True
    with s1 have "ss_pipe s1 \<noteq> []" by (simp add: quiet_def frame_kept_def)
    with ctrl_cmd_inv [of s1 K] inv1 K obtain r s2 where r: "ctrl_cmd K s1 = Some (r, s2)"
      "socket_inv (clear_closed_event r s2)" "all_buffers (clear_closed_event r s2) = all_buffers s1" by blast
    show ?thesis
    proof (cases "r = SOCKET_NOTHING")
      case N: True
      then have "clear_closed_event r s2 = s2" by (simp add: clear_closed_event_def)
      with N r inv1 c True show ?thesis by (simp add: poll_round_def round_state_def)
    next
      case False
      with r inv1 c True show ?thesis by (simp add: poll_round_def round_state_def)
    qed
  next
    case False
    let ?s2 = "s1\<lparr>ss_checkctrl := False\<rparr>"
    have inv2: "socket_inv ?s2 \<and> all_buffers ?s2 = all_buffers ss"
      using inv_frame [OF conjunct1 [OF inv1], of ?s2] inv1 by (simp add: socket_inv_def)
    have tail: "\<exists>y. poll_event K m s = Some y \<and> socket_inv (round_state y) \<and> all_buffers (round_state y) = all_buffers ss"
      if "socket_inv s" "all_buffers s = all_buffers ss" "room s" "ss_event_index s < length (ss_ev s)" for s m
      using next_event_inv [OF that(1) K that(3,4)] that(2,4)
      by (cases "ev_s (ss_ev s ! ss_event_index s)") (auto simp: poll_event_def Let_def round_state_def)
    show ?thesis
    proof (cases "ss_event_index ?s2 = length (ss_ev ?s2)")
      case W: True
      obtain es eintr w where e: "k_epoll_wait K (wait_world K ss) = (es, eintr, w)" by (cases "k_epoll_wait K (wait_world K ss)") auto
      let ?s3 = "?s2\<lparr>ss_world := w, ss_ev := es, ss_checkctrl := True, ss_event_index := 0\<rparr>"
      have inv3: "socket_inv ?s3 \<and> all_buffers ?s3 = all_buffers ?s2"
        by (rule inv_frame [OF conjunct1 [OF inv2]]) (use ev e s1(1) in \<open>simp_all add: events_ok_def quiet_def\<close>)
      have sw: "sp_wait K ?s2 = ((es, eintr), ?s2\<lparr>ss_world := w\<rparr>)" using e s1(2) by (simp add: sp_wait_def sys_ask_def)
      show ?thesis
      proof (cases "es = []")
        case True
        with W inv3 inv2 c False sw show ?thesis by (auto simp: poll_round_def round_state_def Let_def)
      next
        case N: False
        have "room ?s3" using room s1(1) by (simp add: room_def quiet_def frame_kept_def)
        from tail [of ?s3 False] inv3 inv2 N this W c False sw show ?thesis by (simp add: poll_round_def Let_def)
      qed
    next
      case W: False
      have "ss_event_index ?s2 < length (ss_ev ?s2)" using W inv2 by (simp add: socket_inv_def)
      moreover have "room ?s2" using room s1(1) by (simp add: room_def quiet_def frame_kept_def)
      ultimately show ?thesis using tail [of ?s2 p] inv2 W c False by (simp add: poll_round_def Let_def)
    qed
  qed
qed

subsection \<open>Calls from the other threads\<close>

lemma push_inv:
  assumes inv: "socket_inv ss" and q: "\<not> creates q" "request_ok q" "request_size q < 256" "\<forall>j. request_id q = Some j \<longrightarrow> j \<le> ss_alloc_id ss"
  shows "socket_inv (send_request q ss) \<and> all_buffers (send_request q ss) = all_buffers ss + request_buffers q"
proof -
  have "entry_ok (ss_alloc_id ss) (request_type q, of_nat (request_size q), q)"
    using q by (simp add: entry_ok_def unat_of_nat)
  moreover have "reserved_for (send_request q ss) = reserved_for ss"
    by (simp add: fun_eq_iff reserved_for_def not_reserved_def send_request_def)
  moreover have "requests (send_request q ss) = requests ss @ [q]" by (simp add: requests_def send_request_def)
  ultimately show ?thesis
    using inv pipe_ok_append [OF _ q(1)] by (simp add: socket_inv_def all_buffers_def send_request_def ac_simps)
qed

lemma quiet_inv: "socket_inv ss \<Longrightarrow> quiet ss ss' \<Longrightarrow> socket_inv ss' \<and> all_buffers ss' = all_buffers ss"
  using inv_quiet [of ss "ss_alloc_id ss" ss'] by (simp add: socket_inv_def)

text \<open>An identifier is reserved and the request that creates its socket goes into the pipe.\<close>

lemma create_inv:
  assumes inv: "socket_inv ss" and room: "room ss" and r: "reserve_id ss = (j, s1)"
    and q: "creates q" "request_id q = Some j" "request_ok q" "request_size q < 256" "request_buffers q = {#}"
  shows "if j < 0 then socket_inv s1 \<and> all_buffers s1 = all_buffers ss
    else socket_inv (send_request q s1) \<and> all_buffers (send_request q s1) = all_buffers ss"
proof -
  have nonneg: "0 \<le> ss_alloc_id ss" using inv by (simp add: socket_inv_def)
  note rr = reserve_id_room [OF nonneg room r]
  show ?thesis
  proof (cases "j < 0")
    case True
    define b where "b = ss_alloc_id s1"
    have b: "ss_alloc_id ss \<le> b" "b < 2 ^ 31" "s1 = ss\<lparr>ss_alloc_id := b\<rparr>" using rr True nonneg unfolding b_def by auto
    with inv_quiet [OF inv _ b(1,2), of s1] True show ?thesis by simp
  next
    case False
    with rr have j: "ss_alloc_id ss < j" "j < 2 ^ 31" "sk_type (ss_slot ss (HASH_ID j)) = SOCKET_TYPE_INVALID" "s1 = reserved j ss"
      by (auto simp: reserved_def upd_sock_def)
    let ?k = "HASH_ID j" and ?s2 = "send_request q s1"
    have lists: "sk_high (ss_slot ss ?k) = []" "sk_low (ss_slot ss ?k) = []"
      using inv j(3) by (simp_all add: socket_inv_def slot_ok_def active_def)
    have e: "ss_slot ?s2 = (ss_slot ss)(?k := (ss_slot ss ?k)\<lparr>sk_type := SOCKET_TYPE_RESERVE, sk_id := j, sk_fd := - 1\<rparr>)"
      "ss_pipe ?s2 = ss_pipe ss @ [(request_type q, of_nat (request_size q), q)]" "ss_alloc_id ?s2 = j" "ss_freed ?s2 = ss_freed ss"
      "ss_ev ?s2 = ss_ev ss" "ss_event_index ?s2 = ss_event_index ss" "requests ?s2 = requests ss @ [q]"
      by (simp_all add: j(4) reserved_def upd_sock_def send_request_def requests_def)
    have res: "reserved_for ?s2 = (reserved_for ss)(j := True)"
    proof
      fix i show "reserved_for ?s2 i = ((reserved_for ss)(j := True)) i"
        using j(3) by (cases "HASH_ID i = ?k") (auto simp: reserved_for_def not_reserved_def e(1))
    qed
    have "request_id x \<noteq> Some j" if "x \<in> set (requests ss)" for x
      using inv that j(1) by (force simp: socket_inv_def requests_def entry_ok_def)
    then have pipe: "pipe_ok (reserved_for ?s2) (requests ?s2)"
      unfolding res e(7) using inv by (intro pipe_ok_create q) (auto simp: socket_inv_def)
    have "slot_ok j k (ss_slot ?s2 k)" for k
      using inv j(1) lists slot_ok_mono [of "ss_alloc_id ss" k "ss_slot ss k" j]
      by (auto simp: e(1) socket_inv_def) (simp add: slot_ok_def active_def)
    moreover have "\<forall>x \<in> set (ss_pipe ?s2). entry_ok j x"
      using inv j(1) q entry_ok_mono [of "ss_alloc_id ss" _ j] by (auto simp: e(2) socket_inv_def entry_ok_def unat_of_nat)
    moreover have "active (ss_slot ?s2 k)" if "active (ss_slot ss k)" for k
      using that j(3) by (auto simp: e(1) active_def)
    ultimately have "socket_inv ?s2" using inv j(1,2) pipe by (simp add: socket_inv_def e(3,5,6))
    moreover have "slot_buffers (ss_slot ?s2) = slot_buffers (ss_slot ss)"
      using slot_buffers_upd [of ?k "ss_slot ?s2" "ss_slot ss"] lists by (simp add: e(1) HASH_ID_less pending_def)
    ultimately show ?thesis using False q(5) by (simp add: all_buffers_def e(4,7))
  qed
qed

lemma do_bind_quiet: "do_bind K host port tcp ss = Some (fd, v6, ss') \<Longrightarrow> quiet ss ss'"
  unfolding do_bind_def Let_def
  by (auto simp: quiet_def frame_kept_def sys_ask_def close_fd_def sys_do_def split: prod.splits sum.splits list.splits if_splits)

lemma do_listen_quiet:
  assumes "do_listen K host port backlog ss = Some (fd, ss')" shows "quiet ss ss'"
proof -
  from assms obtain f v s1 where s1: "do_bind K host port True ss = Some (f, v, s1)"
    "(if f < 0 then Some (- 1, s1) else (case sys_ask (\<lambda>w. k_listen K w f backlog) s1 of (ok, ss) \<Rightarrow>
        Some (if ok then (f, ss) else (- 1, close_fd f ss)))) = Some (fd, ss')"
    by (auto simp: do_listen_def bind_eq_Some_conv)
  have "quiet s1 ss'"
    using s1(2) by (auto simp: quiet_def frame_kept_def sys_ask_def close_fd_def sys_do_def split: prod.splits if_splits)
  with do_bind_quiet [OF s1(1)] show ?thesis by (rule quiet_trans)
qed

lemma udp_fd_quiet: "udp_fd K addr port ss = Some (fd, v6, ss') \<Longrightarrow> quiet ss ss'"
  by (auto simp: udp_fd_def sys_ask_def quiet_def frame_kept_def split: if_splits prod.splits dest!: do_bind_quiet)

lemma room_quiet: "quiet ss ss' \<Longrightarrow> room ss \<Longrightarrow> room ss'"
  by (simp add: room_def quiet_def frame_kept_def)

text \<open>
  The calls the other threads make, with the buffers they hand over. An identifier they name was given out before;
  a buffer they send holds the bytes they send. Packets are sent with high priority.
\<close>

inductive api_step :: "'w kernel \<Rightarrow> (bool \<times> mblock) multiset \<Rightarrow> 'w socket_server \<Rightarrow> 'w socket_server \<Rightarrow> bool" for K where
  api_connect: "room ss \<Longrightarrow> socket_server_connect opaque addr port ss = (j, ss') \<Longrightarrow> api_step K {#} ss ss'"
| api_listen: "room ss \<Longrightarrow> socket_server_listen K opaque host port backlog ss = Some (j, ss') \<Longrightarrow> api_step K {#} ss ss'"
| api_bind: "room ss \<Longrightarrow> socket_server_bind opaque fd ss = (j, ss') \<Longrightarrow> api_step K {#} ss ss'"
| api_udp: "room ss \<Longrightarrow> socket_server_udp K opaque host port ss = Some (j, ss') \<Longrightarrow> api_step K {#} ss ss'"
| api_send: "j \<le> ss_alloc_id ss \<Longrightarrow> 0 \<le> sz \<Longrightarrow> nat sz \<le> length (blk_bytes b) \<Longrightarrow>
    socket_server_send j b sz ss = Some (r, ss') \<Longrightarrow> api_step K {#(False, b)#} ss ss'"
| api_udp_send: "j \<le> ss_alloc_id ss \<Longrightarrow> 0 \<le> sz \<Longrightarrow> nat sz \<le> length (blk_bytes b) \<Longrightarrow>
    socket_server_udp_send j addr b sz ss = Some (r, ss') \<Longrightarrow> api_step K {#(False, b)#} ss ss'"
| api_udp_connect: "j \<le> ss_alloc_id ss \<Longrightarrow> socket_server_udp_connect K j addr port ss = Some (r, ss') \<Longrightarrow> api_step K {#} ss ss'"
| api_close: "j \<le> ss_alloc_id ss \<Longrightarrow> api_step K {#} ss (socket_server_close opaque j ss)"
| api_shutdown: "j \<le> ss_alloc_id ss \<Longrightarrow> api_step K {#} ss (socket_server_shutdown opaque j ss)"
| api_start: "j \<le> ss_alloc_id ss \<Longrightarrow> api_step K {#} ss (socket_server_start opaque j ss)"
| api_nodelay: "j \<le> ss_alloc_id ss \<Longrightarrow> api_step K {#} ss (socket_server_nodelay j ss)"
| api_exit: "api_step K {#} ss (socket_server_exit ss)"

lemma free_valid:
  assumes "socket_inv ss" "0 \<le> sz" "free_buffer b sz ss = Some ss'"
  shows "socket_inv ss' \<and> all_buffers ss' = all_buffers ss + {#(False, b)#}"
proof -
  have e: "ss' = so_free False b ss" using assms(2,3) by (auto simp: free_buffer_def send_object_init_def)
  have "reserved_for ss' = reserved_for ss" by (simp add: fun_eq_iff reserved_for_def not_reserved_def e so_free_def)
  with assms(1) show ?thesis by (simp add: socket_inv_def all_buffers_def e so_free_def requests_def ac_simps)
qed

lemma create_cases:
  assumes "socket_inv ss" "quiet ss s1" "room ss" "reserve_id s1 = (j, s2)"
    "creates q" "request_id q = Some j" "request_ok q" "request_size q < 256" "request_buffers q = {#}"
    "ss' = send_request q s2 \<and> 0 \<le> j \<or> j < 0 \<and> quiet s2 ss'"
  shows "socket_inv ss' \<and> all_buffers ss' = all_buffers ss"
proof -
  have q1: "socket_inv s1" "all_buffers s1 = all_buffers ss" "room s1"
    using quiet_inv [OF assms(1,2)] room_quiet [OF assms(2,3)] by simp_all
  from create_inv [OF q1(1,3) assms(4-9)] assms(10) q1(2) quiet_inv [of s2 ss'] show ?thesis by auto
qed

lemma api_step_inv:
  assumes "api_step K X ss ss'" "socket_inv ss" "kernel_ok K"
  shows "socket_inv ss' \<and> all_buffers ss' = all_buffers ss + X"
  using assms
proof (induction rule: api_step.induct)
  case (api_connect ss opaque addr port j ss')
  show ?case
  proof (cases "256 \<le> length addr + 24")
    case True
    with api_connect have "quiet ss ss'" by (auto simp: socket_server_connect_def open_request_def)
    with quiet_inv api_connect(3) show ?thesis by simp
  next
    case False
    obtain i s1 where r: "reserve_id ss = (i, s1)" by fastforce
    have "ss' = send_request (Req_open i port opaque addr) s1 \<and> 0 \<le> i \<or> i < 0 \<and> quiet s1 ss'"
      using api_connect(2) False r by (auto simp: socket_server_connect_def open_request_def split: if_splits)
    with create_cases [OF api_connect(3) _ api_connect(1) r, of "Req_open i port opaque addr" ss'] False show ?thesis by simp
  qed
next
  case (api_listen ss opaque host port backlog j ss')
  from api_listen(2) obtain fd s1 where l: "do_listen K host port backlog ss = Some (fd, s1)"
    and rest: "(if fd < 0 then Some (- 1, s1) else (case reserve_id s1 of (i, ss) \<Rightarrow>
        Some (if i < 0 then (i, close_fd fd ss) else (i, send_request (Req_listen i fd opaque) ss)))) = Some (j, ss')"
    by (auto simp: socket_server_listen_def bind_eq_Some_conv)
  note q = do_listen_quiet [OF l]
  show ?case
  proof (cases "fd < 0")
    case True
    with rest quiet_inv [OF api_listen(3) q] show ?thesis by simp
  next
    case False
    obtain i s2 where r: "reserve_id s1 = (i, s2)" by fastforce
    have "ss' = send_request (Req_listen i fd opaque) s2 \<and> 0 \<le> i \<or> i < 0 \<and> quiet s2 ss'"
      using rest False r by (auto split: if_splits)
    with create_cases [OF api_listen(3) q api_listen(1) r, of "Req_listen i fd opaque" ss'] show ?thesis by simp
  qed
next
  case (api_bind ss opaque fd j ss')
  obtain i s1 where r: "reserve_id ss = (i, s1)" by fastforce
  have "ss' = send_request (Req_bind i fd opaque) s1 \<and> 0 \<le> i \<or> i < 0 \<and> quiet s1 ss'"
    using api_bind(2) r by (auto simp: socket_server_bind_def split: if_splits)
  with create_cases [OF api_bind(3) _ api_bind(1) r, of "Req_bind i fd opaque" ss'] show ?case by simp
next
  case (api_udp ss opaque host port j ss')
  from api_udp(2) obtain fd v6 s1 where l: "udp_fd K host port ss = Some (fd, v6, s1)"
    and rest: "(if fd < 0 then Some (- 1, s1) else (case reserve_id (sp_nonblocking fd s1) of (i, ss) \<Rightarrow>
        Some (if i < 0 then (- 1, close_fd fd ss) else (i, send_request (Req_udp i fd v6 opaque) ss)))) = Some (j, ss')"
    by (auto simp: socket_server_udp_def bind_eq_Some_conv)
  note q = udp_fd_quiet [OF l]
  show ?case
  proof (cases "fd < 0")
    case True
    with rest quiet_inv [OF api_udp(3) q] show ?thesis by simp
  next
    case False
    obtain i s2 where r: "reserve_id (sp_nonblocking fd s1) = (i, s2)" by fastforce
    have "ss' = send_request (Req_udp i fd v6 opaque) s2 \<and> 0 \<le> i \<or> i < 0 \<and> quiet s2 ss'"
      using rest False r by (auto split: if_splits)
    with create_cases [OF api_udp(3) _ api_udp(1) r, of "Req_udp i fd v6 opaque" ss'] q show ?thesis by simp
  qed
next
  case (api_send j ss sz b r ss')
  let ?q = "Req_send PRIORITY_HIGH \<lparr>rs_id = j, rs_sz = sz, rs_buffer = b\<rparr>"
  from api_send(4) consider "ss' = send_request ?q ss" | "free_buffer b sz ss = Some ss'"
    by (auto simp: socket_server_send_def server_send_def Let_def bind_eq_Some_conv split: if_splits)
  then show ?case
    by cases (use push_inv [OF api_send(5), of ?q] free_valid [OF api_send(5,2)] api_send(1-3) in \<open>auto simp: valid_send_def\<close>)
next
  case (api_udp_send j ss sz b addr r ss')
  let ?rs = "\<lparr>rs_id = j, rs_sz = sz, rs_buffer = b\<rparr>"
  from api_udp_send(4) consider (send) n where "ss' = send_request (Req_send_udp ?rs (take n addr)) ss" "n \<le> 19" | (free) "free_buffer b sz ss = Some ss'"
    by (auto simp: socket_server_udp_send_def udp_address_size_def Let_def bind_eq_Some_conv split: if_splits)
  then show ?case
  proof cases
    case (send n)
    have "request_size (Req_send_udp ?rs (take n addr)) < 256" using send(2) by simp
    with push_inv [OF api_udp_send(5), of "Req_send_udp ?rs (take n addr)"] send(1) api_udp_send(1-3) show ?thesis
      by (simp add: valid_send_def)
  next
    case free
    from free_valid [OF api_udp_send(5,2) this] show ?thesis .
  qed
next
  case (api_udp_connect j ss addr port r ss')
  obtain ai s1 where a: "sys_ask (\<lambda>w. k_getaddrinfo K w addr port False) ss = (ai, s1)" by fastforce
  note q = quiet_ask [OF a]
  note inv1 = quiet_inv [OF api_udp_connect(3) q]
  have j: "j \<le> ss_alloc_id s1" using q api_udp_connect(1) by (simp add: quiet_def frame_kept_def)
  show ?case
  proof (cases ai)
    case (Inl x)
    with api_udp_connect(2) a inv1 show ?thesis by (simp add: socket_server_udp_connect_def)
  next
    case (Inr l)
    with api_udp_connect(2) a obtain sa l' where l: "l = sa # l'" by (cases l) (auto simp: socket_server_udp_connect_def)
    let ?q = "Req_setudp j (gen_udp_address (if is_v6 sa then PROTOCOL_UDPv6 else PROTOCOL_UDP) sa)"
    have ss': "ss' = send_request ?q s1" using api_udp_connect(2) a Inr l by (simp add: socket_server_udp_connect_def)
    have "k_getaddrinfo K (ss_world ss) addr port False = (Inr (sa # l'), ss_world s1)"
      using a Inr l by (auto simp: sys_ask_def split: prod.splits)
    with api_udp_connect(4) have len: "case sa of Sockaddr_in p a \<Rightarrow> length p = 2 \<and> length a = 4 | Sockaddr_in6 p a \<Rightarrow> length p = 2 \<and> length a = 16"
      unfolding kernel_ok_def by (metis list.set_intros(1))
    have "request_ok ?q" "request_size ?q < 256"
      using len by (cases sa; simp add: is_v6_def UDP_ADDRESS_SIZE_def)+
    with push_inv [OF conjunct1 [OF inv1], of ?q] inv1 j show ?thesis by (simp add: ss')
  qed
next
  case (api_close j ss opaque)
  then show ?case using push_inv [of ss "Req_close j False opaque"] by (simp add: socket_server_close_def)
next
  case (api_shutdown j ss opaque)
  then show ?case using push_inv [of ss "Req_close j True opaque"] by (simp add: socket_server_shutdown_def)
next
  case (api_start j ss opaque)
  then show ?case using push_inv [of ss "Req_start j opaque"] by (simp add: socket_server_start_def)
next
  case (api_nodelay j ss)
  then show ?case using push_inv [of ss "Req_setopt j TCP_NODELAY 1"] by (simp add: socket_server_nodelay_def)
next
  case (api_exit ss)
  then show ?case using push_inv [of ss Req_exit] by (simp add: socket_server_exit_def)
qed

subsection \<open>Runs\<close>

text \<open>
  From its creation on, the socket server is called by the other threads and makes rounds of its loop, in any
  order; \<open>X\<close> collects the buffers it was given.
\<close>

inductive server_run :: "'w kernel \<Rightarrow> (bool \<times> mblock) multiset \<Rightarrow> 'w socket_server \<Rightarrow> bool" for K where
  run_create: "socket_server_create efd fd add w = Some (cs, Some ss) \<Longrightarrow> server_run K {#} ss"
| run_call: "server_run K X ss \<Longrightarrow> api_step K Y ss ss' \<Longrightarrow> server_run K (X + Y) ss'"
| run_poll: "server_run K X ss \<Longrightarrow> room ss \<Longrightarrow> events_ok K ss \<Longrightarrow> poll_round K pend ss = Some y \<Longrightarrow> server_run K X (round_state y)"

lemma server_run_inv:
  assumes "server_run K X ss" "kernel_ok K"
  shows "socket_inv ss \<and> all_buffers ss = X"
  using assms
proof (induction rule: server_run.induct)
  case (run_create efd fd add w cs ss)
  then obtain s where s: "ss_slot ss = (\<lambda>i. s)" "sk_type s = SOCKET_TYPE_INVALID" "sk_high s = []" "sk_low s = []"
    "ss_pipe ss = []" "ss_ev ss = []" "ss_alloc_id ss = 0" "ss_event_index ss = 0" "ss_freed ss = []"
    by (auto simp: socket_server_create_def blank_socket_def clear_wb_list_def set_list_def split: if_splits option.splits)
  have "\<not> reserved_for ss j" for j by (simp add: reserved_for_def not_reserved_def s(1,2))
  with s show ?case
    by (simp add: socket_inv_def slot_ok_def active_def requests_def all_buffers_def slot_buffers_def pending_def)
next
  case (run_call X ss Y ss')
  then show ?case using api_step_inv by blast
next
  case (run_poll X ss pend y)
  then show ?case using poll_round_inv [of ss K pend] by auto
qed




text \<open>A run: a descriptor is bound, a packet is sent to it, a round is made.\<close>

lemma tape_interrupt: "tape_write w data = (IO_EINTR, w') \<Longrightarrow> length w' < length w"
  by (cases w; cases "hd w") (auto simp: tape_write_def)

lemma tape_kernel_ok: "kernel_ok tape_kernel"
proof -
  have "{(w', w). \<exists>fd data. k_write tape_kernel w fd data = (IO_EINTR, w')} \<subseteq> measure length"
    using tape_interrupt by (auto simp: tape_kernel_def plain_kernel_def)
  then have "interrupts_end tape_kernel" unfolding interrupts_end_def by (rule wf_subset [OF wf_measure])
  then show ?thesis using tape_kernel_bounded by (auto simp: kernel_ok_def tape_kernel_def plain_kernel_def)
qed

lemma tape_events_ok: "events_ok tape_kernel ss"
  by (simp add: events_ok_def tape_kernel_def plain_kernel_def)

definition demo_bound :: "nat io_result list socket_server" where
  "demo_bound = snd (socket_server_bind 7 6 demo_init)"

definition demo_sent :: "nat io_result list socket_server" where
  "demo_sent = snd (the (socket_server_send 1 (demo_block 100 [1, 2]) 2 demo_bound))"

lemma demo_sent_eq:
  "demo_bound = send_request (Req_bind 1 6 7) (reserved 1 demo_init)"
  "socket_server_bind 7 6 demo_init = (1, demo_bound)"
  "socket_server_send 1 (demo_block 100 [1, 2]) 2 demo_bound = Some (0, demo_sent)"
  "demo_sent = send_request (Req_send PRIORITY_HIGH \<lparr>rs_id = 1, rs_sz = 2, rs_buffer = demo_block 100 [1, 2]\<rparr>) demo_bound"
proof -
  show b: "demo_bound = send_request (Req_bind 1 6 7) (reserved 1 demo_init)" "socket_server_bind 7 6 demo_init = (1, demo_bound)"
    by (simp_all add: demo_bound_def socket_server_bind_def demo_reserve)
  have "socket_server_send 1 (demo_block 100 [1, 2]) 2 demo_bound =
      Some (0, send_request (Req_send PRIORITY_HIGH \<lparr>rs_id = 1, rs_sz = 2, rs_buffer = demo_block 100 [1, 2]\<rparr>) demo_bound)"
    by (simp add: b(1) socket_server_send_def server_send_def Let_def send_request_def reserved_def upd_sock_def)
  then show "socket_server_send 1 (demo_block 100 [1, 2]) 2 demo_bound = Some (0, demo_sent)"
    "demo_sent = send_request (Req_send PRIORITY_HIGH \<lparr>rs_id = 1, rs_sz = 2, rs_buffer = demo_block 100 [1, 2]\<rparr>) demo_bound"
    by (simp_all add: demo_sent_def)
qed

lemma demo_sent_run: "server_run tape_kernel {#(False, demo_block 100 [1, 2])#} demo_sent"
proof -
  have "\<exists>cs. socket_server_create 3 (Some (4, 5)) False [IO_ok 1] = Some (cs, Some demo_init)"
    by (simp add: demo_init_def socket_server_create_def FD_SETSIZE_def)
  then have run0: "server_run tape_kernel {#} demo_init" by (auto intro: run_create)
  have room0: "room demo_init" by (simp add: room_def MAX_SOCKET_def demo_init_def socket_server_create_def FD_SETSIZE_def)
  have run1: "server_run tape_kernel {#} demo_bound"
    using run_call [OF run0 api_bind [OF room0 demo_sent_eq(2)]] by simp
  have "server_run tape_kernel ({#} + {#(False, demo_block 100 [1, 2])#}) demo_sent"
    by (rule run_call [OF run1 api_send [OF _ _ _ demo_sent_eq(3)]])
      (simp_all add: demo_block_def demo_sent_eq(1) send_request_def reserved_def upd_sock_def)
  then show ?thesis by simp
qed

lemma demo_sent_room: "room demo_sent"
  by (simp add: room_def MAX_SOCKET_def demo_sent_eq(1,4) send_request_def reserved_def upd_sock_def)




end
