(* ===== verification/Skynet_Socket.thy ===== *)
theory Skynet_Socket
  imports Socket_Invariant Service_Lifetime Gate
begin

unbundle bit_operations_syntax

section \<open>From sockets to services (\<open>skynet_socket.c\<close>)\<close>

text \<open>
  What the socket server reports becomes a message to the service that owns the socket: the \<open>opaque\<close> of a socket
  is the handle of its owner. The socket server and the services are the two halves of the state. The server may
  be asked by any thread; \<open>skynet_socket_poll\<close> is called by the socket thread alone.
\<close>

subsection \<open>Forwarding\<close>

definition SOCKET_MESSAGE_SIZE :: u64 where "SOCKET_MESSAGE_SIZE = 24"

text \<open>
  The message block: with \<open>padding\<close> the text is copied behind the structure, at most 128 characters of it, and
  otherwise the block owns the buffer. A text that is taken for a buffer, or a buffer that is taken for a text,
  would be freed or read out of bounds: both are undefined.
\<close>

definition socket_block :: "socket_type \<Rightarrow> bool \<Rightarrow> poll_message \<Rightarrow> skynet_socket_message option" where
  "socket_block type padding result =
     (let block = \<lparr>sm_type = type, sm_id = pm_id result, sm_ud = pm_ud result, sm_buffer = None, sm_text = []\<rparr>
      in if padding
         then (case pm_data result of
                 Data_null \<Rightarrow> Some block
               | Data_text t \<Rightarrow> Some (block\<lparr>sm_text := take (if 128 < length t then 128 else length t) t\<rparr>)
               | Data_bytes _ \<Rightarrow> None)
         else (case pm_data result of
                 Data_null \<Rightarrow> Some block
               | Data_bytes b \<Rightarrow> Some (block\<lparr>sm_buffer := Some b\<rparr>)
               | Data_text _ \<Rightarrow> None))"

definition socket_push :: "skynet_socket_message \<Rightarrow> payload skynet_message" where
  "socket_push sm =
     \<lparr>msg_source = 0, msg_session = 0, msg_data = Some (Socket_message sm),
      msg_sz = pack_sz PTYPE_SOCKET (SOCKET_MESSAGE_SIZE + of_nat (length (sm_text sm)))\<rparr>"

definition forward_message ::
  "'x modules \<Rightarrow> socket_type \<Rightarrow> bool \<Rightarrow> poll_message \<Rightarrow> 'x server \<Rightarrow> 'x server option" where
  "forward_message M type padding result s =
     do { sm \<leftarrow> socket_block type padding result;
          (r, s) \<leftarrow> skynet_context_push M (ucast (pm_opaque result)) (socket_push sm) s;
          Some (if r \<noteq> 0 then free_data (Some (Socket_message sm)) (free_data (map_option Bytes (sm_buffer sm)) s)
                else s) }"

text \<open>The type of the message for each code, and whether the data is a text.\<close>

definition forward_type :: "poll_code \<Rightarrow> (socket_type \<times> bool) option" where
  "forward_type type =
     (case type of
        SOCKET_DATA \<Rightarrow> Some (SKYNET_SOCKET_TYPE_DATA, False)
      | SOCKET_CLOSE \<Rightarrow> Some (SKYNET_SOCKET_TYPE_CLOSE, False)
      | SOCKET_OPEN \<Rightarrow> Some (SKYNET_SOCKET_TYPE_CONNECT, True)
      | SOCKET_ERR \<Rightarrow> Some (SKYNET_SOCKET_TYPE_ERROR, True)
      | SOCKET_ACCEPT \<Rightarrow> Some (SKYNET_SOCKET_TYPE_ACCEPT, True)
      | SOCKET_UDP \<Rightarrow> Some (SKYNET_SOCKET_TYPE_UDP, False)
      | SOCKET_WARNING \<Rightarrow> Some (SKYNET_SOCKET_TYPE_WARNING, False)
      | _ \<Rightarrow> None)"

text \<open>The return value: 0 on exit, negative when there is more to do, positive when the thread has just waited.\<close>

definition forward_poll ::
  "'x modules \<Rightarrow> poll_code \<Rightarrow> bool \<Rightarrow> poll_message \<Rightarrow> 'x server \<Rightarrow> (int \<times> 'x server) option" where
  "forward_poll M type pend result s =
     (if type = SOCKET_EXIT then Some (0, s)
      else case forward_type type of
        Some (t, padding) \<Rightarrow>
          do { s \<leftarrow> forward_message M t padding result s; Some (if pend then (- 1, s) else (1, s)) }
      | None \<Rightarrow> do { s \<leftarrow> skynet_error M None ''Unknown socket message type -1.'' s; Some (- 1, s) })"

definition skynet_socket_poll ::
  "'w kernel \<Rightarrow> 'x modules \<Rightarrow> 'w socket_server \<times> 'x server \<Rightarrow> (int \<times> 'w socket_server \<times> 'x server) option" where
  "skynet_socket_poll K M = (\<lambda>(ss, s).
     do { (type, pend, ss) \<leftarrow> socket_server_poll K True ss;
          (r, s) \<leftarrow> forward_poll M type pend (ss_result ss) s;
          Some (r, ss, s) })"

subsection \<open>What services call\<close>

definition skynet_socket_exit :: "'w socket_server \<Rightarrow> 'w socket_server" where
  "skynet_socket_exit ss = socket_server_exit ss"

definition skynet_socket_send :: "int \<Rightarrow> mblock \<Rightarrow> int \<Rightarrow> 'w socket_server \<Rightarrow> (int \<times> 'w socket_server) option" where
  "skynet_socket_send i buffer sz ss = socket_server_send i buffer sz ss"

definition skynet_socket_send_lowpriority :: "int \<Rightarrow> mblock \<Rightarrow> int \<Rightarrow> 'w socket_server \<Rightarrow> (int \<times> 'w socket_server) option" where
  "skynet_socket_send_lowpriority i buffer sz ss = socket_server_send_lowpriority i buffer sz ss"

definition skynet_socket_listen ::
  "'w kernel \<Rightarrow> skynet_context \<Rightarrow> string option \<Rightarrow> int \<Rightarrow> int \<Rightarrow> 'w socket_server \<Rightarrow> (int \<times> 'w socket_server) option" where
  "skynet_socket_listen K ctx host port backlog ss = socket_server_listen K (ucast (cx_handle ctx)) host port backlog ss"

definition skynet_socket_connect :: "skynet_context \<Rightarrow> string \<Rightarrow> int \<Rightarrow> 'w socket_server \<Rightarrow> int \<times> 'w socket_server" where
  "skynet_socket_connect ctx host port ss = socket_server_connect (ucast (cx_handle ctx)) host port ss"

definition skynet_socket_bind :: "skynet_context \<Rightarrow> int \<Rightarrow> 'w socket_server \<Rightarrow> int \<times> 'w socket_server" where
  "skynet_socket_bind ctx fd ss = socket_server_bind (ucast (cx_handle ctx)) fd ss"

definition skynet_socket_close :: "skynet_context \<Rightarrow> int \<Rightarrow> 'w socket_server \<Rightarrow> 'w socket_server" where
  "skynet_socket_close ctx i ss = socket_server_close (ucast (cx_handle ctx)) i ss"

definition skynet_socket_shutdown :: "skynet_context \<Rightarrow> int \<Rightarrow> 'w socket_server \<Rightarrow> 'w socket_server" where
  "skynet_socket_shutdown ctx i ss = socket_server_shutdown (ucast (cx_handle ctx)) i ss"

definition skynet_socket_start :: "skynet_context \<Rightarrow> int \<Rightarrow> 'w socket_server \<Rightarrow> 'w socket_server" where
  "skynet_socket_start ctx i ss = socket_server_start (ucast (cx_handle ctx)) i ss"

definition skynet_socket_nodelay :: "int \<Rightarrow> 'w socket_server \<Rightarrow> 'w socket_server" where
  "skynet_socket_nodelay i ss = socket_server_nodelay i ss"

definition skynet_socket_udp ::
  "'w kernel \<Rightarrow> skynet_context \<Rightarrow> string option \<Rightarrow> int \<Rightarrow> 'w socket_server \<Rightarrow> (int \<times> 'w socket_server) option" where
  "skynet_socket_udp K ctx addr port ss = socket_server_udp K (ucast (cx_handle ctx)) addr port ss"

definition skynet_socket_udp_connect ::
  "'w kernel \<Rightarrow> int \<Rightarrow> string \<Rightarrow> int \<Rightarrow> 'w socket_server \<Rightarrow> (int \<times> 'w socket_server) option" where
  "skynet_socket_udp_connect K i addr port ss = socket_server_udp_connect K i addr port ss"

definition skynet_socket_udp_send ::
  "int \<Rightarrow> bytes \<Rightarrow> mblock \<Rightarrow> int \<Rightarrow> 'w socket_server \<Rightarrow> (int \<times> 'w socket_server) option" where
  "skynet_socket_udp_send i address buffer sz ss = socket_server_udp_send i address buffer sz ss"

text \<open>The address of a UDP message, or \<open>None\<close> inside for \<open>NULL\<close>.\<close>

definition skynet_socket_udp_address :: "skynet_socket_message \<Rightarrow> bytes option option" where
  "skynet_socket_udp_address msg =
     (if sm_type msg \<noteq> SKYNET_SOCKET_TYPE_UDP then Some None
      else do { data \<leftarrow> sm_buffer msg; socket_server_udp_address data (sm_ud msg) })"

subsection \<open>What the socket server reports\<close>

text \<open>The data of a report is of the kind that its code announces, so that no text is freed and no buffer is
  measured as a text.\<close>

definition fits :: "poll_code \<Rightarrow> 'w socket_server \<Rightarrow> bool" where
  "fits r ss \<longleftrightarrow> (let d = pm_data (ss_result ss)
     in (r \<in> {SOCKET_DATA, SOCKET_UDP} \<longrightarrow> (\<exists>b. d = Data_bytes b)) \<and> (r \<in> {SOCKET_CLOSE, SOCKET_WARNING} \<longrightarrow> d = Data_null) \<and>
        (r \<in> {SOCKET_OPEN, SOCKET_ERR, SOCKET_ACCEPT} \<longrightarrow> (\<forall>b. d \<noteq> Data_bytes b)))"

named_theorems fit_rules \<open>operations and the kind of data they report\<close>

lemma fits_nothing [simp]: "fits SOCKET_NOTHING ss" "fits SOCKET_EXIT ss"
  by (simp_all add: fits_def)

lemma fits_frame: "ss_result s1 = ss_result s2 \<Longrightarrow> fits r s1 = fits r s2"
  by (simp add: fits_def)

lemma fits_result [simp]:
  "fits r (put_result j opaque ud data ss) = fits r (set_data data ss)"
  "fits r (ss\<lparr>ss_world := w\<rparr>) = fits r ss" "fits r (ss\<lparr>ss_ev := es\<rparr>) = fits r ss" "fits r (ss\<lparr>ss_event_index := k\<rparr>) = fits r ss"
  "fits r (upd_sock i f ss) = fits r ss" "fits r (set_type i t ss) = fits r ss" "fits r (so_free u b ss) = fits r ss"
  "fits r (sys_do c ss) = fits r ss" "fits r (print_error m ss) = fits r ss" "fits r (sp_write fd e ss) = fits r ss"
  "fits r (close_fd fd ss) = fits r ss" "fits r (clear_closed_event q ss) = fits r ss"
  by (simp_all add: fits_def ss_defs clear_closed_event_def)

lemma fits_data [simp]:
  "fits r (set_data Data_null ss) \<longleftrightarrow> r \<notin> {SOCKET_DATA, SOCKET_UDP}"
  "fits r (set_data (Data_text m) ss) \<longleftrightarrow> r \<notin> {SOCKET_DATA, SOCKET_UDP, SOCKET_CLOSE, SOCKET_WARNING}"
  "fits r (set_data (Data_bytes b) ss) \<longleftrightarrow> r \<notin> {SOCKET_CLOSE, SOCKET_WARNING, SOCKET_OPEN, SOCKET_ERR, SOCKET_ACCEPT}"
  by (auto simp: fits_def set_data_def)

lemma force_close_fits: "force_close i ss = Some ss' \<Longrightarrow> pm_data (ss_result ss') = Data_null"
  by (auto simp: force_close_def Let_def free_wb_list_def fold_write_buffer_free ss_defs split: if_splits)

lemma force_close_fit: "force_close i ss = Some ss' \<Longrightarrow> fits SOCKET_CLOSE ss'"
  by (drule force_close_fits) (simp add: fits_def)

lemma send_list_fits:
  assumes "send_list K i p ss = Some (r, ss')" "write_bounded K"
  shows "r = SOCKET_NOTHING \<or> r = SOCKET_CLOSE \<and> fits r ss'"
proof (cases "sk_protocol (ss_slot ss i) = PROTOCOL_TCP")
  case True
  with assms have "send_list_tcp K i p ss = Some (r, ss')" by (simp add: send_list_def)
  from send_list_tcp_spec [OF this assms(2)] force_close_fit show ?thesis by blast
next
  case False
  have "fst (send_list_udp_loop K i p l ss) = SOCKET_NOTHING" for l and ss :: "'a socket_server"
    by (induction l arbitrary: ss) (auto simp: Let_def split: prod.split io_result.split)
  with assms False show ?thesis by (metis send_list_def send_list_udp_def fst_conv option.inject)
qed

lemma send_buffer_fits: 
  assumes "send_buffer K i ss = Some (r, ss')" "write_bounded K"
  shows "r \<in> {SOCKET_NOTHING, SOCKET_CLOSE, SOCKET_WARNING} \<and> fits r ss'"
  using assms(1) send_list_fits [OF _ assms(2)] force_close_fit
  by (auto simp: send_buffer_def send_low_def send_buffer_done_def Let_def bind_eq_Some_conv split: if_splits)
    (fastforce simp: fits_def ss_defs dest!: force_close_fits)+

lemma send_warning_fits: "send_warning i ss = (r, ss') \<Longrightarrow> fits r ss'"
  by (auto simp: send_warning_def Let_def split: if_splits)

lemma send_direct_fits:
  assumes "send_direct K i q so p a ss = Some (Inl (r, ss'))"
  shows "fits r ss'"
proof (cases "sk_protocol (ss_slot ss i) = PROTOCOL_TCP")
  case True
  with assms obtain data where d: "so_data so = Some data" by (auto simp: send_direct_def Let_def bind_eq_Some_conv)
  obtain x s1 where w: "sys_write K (sk_fd (ss_slot ss i)) data ss = (x, s1)" by fastforce
  from assms True d w force_close_fit show ?thesis
    by (cases x) (auto simp: send_direct_def Let_def bind_eq_Some_conv split: if_splits)
next
  case False
  with assms obtain data ua where d: "so_data so = Some data" "udp_target a (ss_slot ss i) = Some ua"
    by (auto simp: send_direct_def Let_def bind_eq_Some_conv)
  obtain x s1 where w: "sys_sendto K (sk_fd (ss_slot ss i)) data (udp_socket_address (ss_slot ss i) ua) ss = (x, s1)" by fastforce
  from assms False d w show ?thesis
    by (cases x) (auto simp: send_direct_def Let_def bind_eq_Some_conv split: if_splits)
qed

lemma send_socket_fits:
  assumes "send_socket K q p a ss = Some (r, ss')"
  shows "fits r ss'"
proof -
  let ?s = "ss_slot ss (HASH_ID (rs_id q))"
  from assms obtain so where so: "send_object_init (rs_buffer q) (rs_sz q) ss = Some so"
    by (auto simp: send_socket_def Let_def bind_eq_Some_conv)
  show ?thesis
  proof (cases "send_direct K (HASH_ID (rs_id q)) q so p a ss")
    case None
    with assms so send_warning_fits show ?thesis by (auto simp: send_socket_def Let_def bind_eq_Some_conv split: if_splits)
  next
    case (Some y)
    with assms so send_warning_fits send_direct_fits show ?thesis
      by (cases y) (auto simp: send_socket_def Let_def bind_eq_Some_conv split: if_splits)
  qed
qed

lemma close_socket_fits:
  assumes "close_socket K j sd opaque ss = Some (r, ss')" "write_bounded K"
  shows "fits r ss'"
proof (rule ccontr)
  assume no: "\<not> fits r ss'"
  have data: "fits SOCKET_CLOSE (s1\<lparr>ss_result := (ss_result s1)\<lparr>pm_id := j, pm_opaque := opaque\<rparr>\<rparr>)"
    if "force_close i s0 = Some s1" for i s0 s1
    using force_close_fits [OF that] by (simp add: fits_def)
  from assms(1) no data show False
    using send_buffer_fits [OF _ assms(2)]
    by (auto simp: close_socket_def Let_def bind_eq_Some_conv split: if_splits)
qed

lemma new_fd_result: "new_fd K i fd pr q b s1 = Some (x, s2) \<Longrightarrow> ss_result s2 = ss_result s1"
  by (auto simp: new_fd_def Let_def sp_add_def ss_defs bind_eq_Some_conv split: prod.splits if_splits)

lemma open_socket_fits:
  assumes "open_socket K j port opaque host ss = Some (r, ss')"
  shows "fits r ss'"
proof -
  have loop: "ss_result s2 = ss_result s1" if "connect_loop K ais s1 = (x, s2)" for ais x s1 s2
    using that
  proof (induction ais arbitrary: s1)
    case (Cons ai ais)
    then show ?case by (auto simp: Let_def ss_defs sp_nonblocking_def socket_keepalive_def split: prod.splits if_splits connect_result.splits)
  qed simp
  have keep: "fits SOCKET_OPEN s3" if "connect_loop K ais s1 = (x, s2)" "new_fd K i fd pr q b s2 = Some (y, s3)"
    "sys_ask f (put_result j opaque 0 Data_null ss) = (z, s1)" for ais x s1 s2 i fd pr q b y s3 f z
  proof -
    have "ss_result s1 = ss_result (put_result j opaque 0 Data_null ss)" using that(3) by (auto simp: sys_ask_def split: prod.splits)
    with loop [OF that(1)] new_fd_result [OF that(2)] have "ss_result s3 = ss_result (put_result j opaque 0 Data_null ss)" by simp
    from fits_frame [OF this, of SOCKET_OPEN] show ?thesis by simp
  qed
  show ?thesis
    using assms keep
    by (auto simp: open_socket_def open_failed_def number_limit_def Let_def bind_eq_Some_conv
        split: sum.splits prod.splits option.splits if_splits)
qed

lemma ctrl_cmd_fits:
  assumes "ctrl_cmd K ss = Some (r, ss')" "write_bounded K"
  shows "fits r ss'"
proof -
  from assms(1) obtain type len q rest where q: "ss_pipe ss = (type, len, q) # rest" by (auto simp: ctrl_cmd_def split: list.splits)
  let ?s = "ss\<lparr>ss_pipe := rest\<rparr>"
  have listen: "fits r s'" if "listen_socket K i fd opaque s = Some (r, s')" for i fd opaque s s'
    using that by (auto simp: listen_socket_def number_limit_def bind_eq_Some_conv split: if_splits)
  have bnd: "fits r s'" if "bind_socket K i fd opaque s = Some (r, s')" for i fd opaque s s'
    using that by (auto simp: bind_socket_def number_limit_def bind_eq_Some_conv split: if_splits)
  have start: "fits r s'" if "start_socket K i opaque s = Some (r, s')" for i opaque s s'
    using that by (auto simp: start_socket_def Let_def bind_eq_Some_conv split: if_splits prod.splits)
  have setudp: "fits r s'" if "set_udp_address i a s = Some (r, s')" for i a s s'
    using that by (auto simp: set_udp_address_def Let_def split: if_splits socket_p.splits)
  from assms(1) q show ?thesis
    using listen bnd start setudp send_socket_fits close_socket_fits [OF _ assms(2)] open_socket_fits
    by (cases q) (auto simp: ctrl_cmd_def Let_def bind_eq_Some_conv split: if_splits)
qed

lemma poll_socket_fits:
  assumes "poll_socket K k e i ss = Some (r, ss')" "write_bounded K"
  shows "fits r ss'"
proof -
  have tcp: "fits r s'" if "forward_message_tcp K j s = Some (r, s')" for j s r s'
    using that force_close_fit by (auto simp: forward_message_tcp_def Let_def bind_eq_Some_conv
        split: if_splits prod.splits socket_p.splits io_result.splits)
  have udp: "fits r s'" if "forward_message_udp K j s = Some (r, s')" for j s r s'
    using that by (auto simp: forward_message_udp_def Let_def bind_eq_Some_conv split: if_splits prod.splits io_result.splits)
  have connect: "fits r s'" if "report_connect K j s = Some (r, s')" for j s r s'
    using that by (auto simp: report_connect_def Let_def bind_eq_Some_conv split: if_splits prod.splits option.splits)
  have accept: "fits (case ok of Accept_ok \<Rightarrow> SOCKET_ACCEPT | Accept_filelimit \<Rightarrow> SOCKET_ERR | Accept_retry \<Rightarrow> SOCKET_NOTHING) s'"
    if "report_accept K j s = Some (ok, s')" for j s ok s'
    using that by (auto simp: report_accept_def Let_def bind_eq_Some_conv split: if_splits prod.splits option.splits accept_result.splits)
  let ?fwd = "if sk_protocol (ss_slot ss i) = PROTOCOL_TCP then forward_message_tcp K i ss else forward_message_udp K i ss"
  have fwd: "fits x s'" if "?fwd = Some (x, s')" for x s' using that tcp udp by (auto split: if_splits)
  have data: "fits r ss'" if "(if ev_read e
             then do { (r, ss1) \<leftarrow> ?fwd;
                       if sk_protocol (ss_slot ss i) \<noteq> PROTOCOL_TCP \<and> r = SOCKET_UDP
                       then Some (SOCKET_UDP, ss1\<lparr>ss_event_index := k\<rparr>)
                       else if ev_write e \<and> r \<noteq> SOCKET_CLOSE \<and> r \<noteq> SOCKET_ERR
                       then Some (r, ss1\<lparr>ss_ev := (ss_ev ss1)[k := e\<lparr>ev_read := False\<rparr>], ss_event_index := k\<rparr>)
                       else Some (r, ss1) }
             else if ev_write e then send_buffer K i ss
             else Some (SOCKET_NOTHING, ss)) = Some (r, ss')"
    using that fwd send_buffer_fits [OF _ assms(2)] by (auto simp: bind_eq_Some_conv split: if_splits)
  show ?thesis
    using assms(1) connect accept data
    by (cases "sk_type (ss_slot ss i)") (auto simp: poll_socket_def Let_def bind_eq_Some_conv cong: if_cong)
qed

end
