(* ===== verification/Socket_Delivery.thy ===== *)
theory Socket_Delivery
  imports Skynet_Socket
begin

unbundle bit_operations_syntax

section \<open>What arrives at the services\<close>

text \<open>
  The socket server, the message queues and the gate together: every report of the socket server becomes one
  message of its owner, the bytes of a connection reach the gate as the frames that the peer wrote, and the
  address of a datagram leads the answer back to its sender.
\<close>

subsection \<open>One report, one message\<close>

lemma poll_round_fits:
  assumes "poll_round K pend ss = Some (Inr (type, m, ss'))" "write_bounded K"
  shows "fits type ss'"
proof -
  have ev: "fits type ss'" if "poll_event K b s = Some (Inr (type, m, ss'))" for b s
    using that poll_socket_fits [OF _ assms(2)]
    by (auto simp: poll_event_def Let_def bind_eq_Some_conv split: option.splits if_splits)
  show ?thesis
    using assms(1) ev ctrl_cmd_fits [OF _ assms(2)]
    by (auto simp: poll_round_def Let_def bind_eq_Some_conv split: if_splits prod.splits)
qed

lemma socket_server_poll_fits:
  assumes "socket_server_poll K pend ss = Some (type, m, ss')" "write_bounded K"
  shows "fits type ss'"
proof -
  let ?P = "\<lambda>K pend ss y. write_bounded K \<longrightarrow> (case y of (type, m, ss') \<Rightarrow> fits type ss')"
  have "?P K pend ss (type, m, ss')"
  proof (rule socket_server_poll.raw_induct [where P = ?P, OF _ assms(1)], rule impI)
    fix f and K :: "'a kernel" and pend and ss :: "'a socket_server" and y
    assume IH: "\<And>K pend ss y. f K pend ss = Some y \<Longrightarrow> ?P K pend ss y"
      and run: "poll_round K pend ss \<bind> (\<lambda>r. case r of Inl (pend, ss) \<Rightarrow> f K pend ss | Inr ret \<Rightarrow> Some ret) = Some y"
      and K: "write_bounded K"
    from run obtain r where r: "poll_round K pend ss = Some r" "(case r of Inl (pend, ss) \<Rightarrow> f K pend ss | Inr ret \<Rightarrow> Some ret) = Some y"
      by (auto simp: bind_eq_Some_conv)
    show "case y of (type, m, ss') \<Rightarrow> fits type ss'"
    proof (cases r)
      case (Inl a)
      with r(2) IH K show ?thesis by (cases a) auto
    next
      case (Inr a)
      with r poll_round_fits [OF _ K] show ?thesis by (cases a) auto
    qed
  qed
  with assms(2) show ?thesis by simp
qed

lemma fits_block:
  assumes "fits type ss" "forward_type type = Some (t, padding)"
  shows "\<exists>sm. socket_block t padding (ss_result ss) = Some sm"
  using assms by (cases type; cases "pm_data (ss_result ss)")
    (auto simp: forward_type_def fits_def socket_block_def Let_def)

text \<open>C5. Every report reaches the owner of the socket, or is freed: when the loop of the socket server returns with a
  report, its data is of the kind that the report announces; if the owner is registered its queue gets exactly one
  more message, at its end, with the type, identifier, number and data of the report, and nothing else changes;
  if it is not, the buffer and the block are freed and nothing else changes.\<close>

theorem socket_report_delivered:
  assumes "quiet_release M" "life_reach M (s, refs, held)" "write_bounded K"
    "socket_server_poll K True ss = Some (type, pend, ss')" "forward_type type = Some (t, padding)"
  defines "owner \<equiv> ucast (pm_opaque (ss_result ss')) :: u32" and "r \<equiv> if pend then - 1 else 1 :: int"
  shows "\<exists>sm. socket_block t padding (ss_result ss') = Some sm \<and>
    (case handle_lookup (hof s) (sv_handles s) owner of
       Some d \<Rightarrow> \<exists>x mq ms. sv_ctxs s d = Some x \<and> cx_handle x = owner \<and>
         skynet_socket_poll K M (ss, s) = Some (r, ss', s\<lparr>sv_mq := mq\<rparr>) \<and>
         mq_msgs (sv_mq s) (cx_queue x) = Some ms \<and> mq_msgs mq = (mq_msgs (sv_mq s))(cx_queue x \<mapsto> ms @ [socket_push sm])
     | None \<Rightarrow> skynet_socket_poll K M (ss, s) =
         Some (r, ss', s\<lparr>sv_freed := sv_freed s @ (case sm_buffer sm of Some b \<Rightarrow> [Bytes b] | None \<Rightarrow> []) @ [Socket_message sm]\<rparr>))"
proof -
  from fits_block [OF socket_server_poll_fits [OF assms(4,3)] assms(5)]
  obtain sm where sm: "socket_block t padding (ss_result ss') = Some sm" by blast
  have inv: "server_inv refs held s" using life_reach_inv [OF assms(1,2)] by (simp add: life_inv_def)
  have ne: "type \<noteq> SOCKET_EXIT" using assms(5) by (auto simp: forward_type_def)
  have poll: "skynet_socket_poll K M (ss, s) =
      map_option (\<lambda>(x, s'). (r, ss', if x \<noteq> 0 then free_data (Some (Socket_message sm)) (free_data (map_option Bytes (sm_buffer sm)) s') else s'))
        (skynet_context_push M owner (socket_push sm) s)"
    using assms(4,5) ne sm
    by (simp add: skynet_socket_poll_def forward_poll_def forward_message_def owner_def r_def
        split: option.split prod.split bind_splits)
  show ?thesis
  proof (cases "handle_lookup (hof s) (sv_handles s) owner")
    case None
    with sm poll context_push_gone [OF None] show ?thesis by (auto simp: free_data_def split: option.split)
  next
    case (Some d)
    from context_push_result [OF inv assms(1) Some, of "socket_push sm"] obtain x mq ms where
      "sv_ctxs s d = Some x" "cx_handle x = owner" "skynet_context_push M owner (socket_push sm) s = Some (0, s\<lparr>sv_mq := mq\<rparr>)"
      "mq_msgs (sv_mq s) (cx_queue x) = Some ms" "mq_msgs mq = (mq_msgs (sv_mq s))(cx_queue x \<mapsto> ms @ [socket_push sm])" by blast
    with sm poll Some show ?thesis by auto
  qed
qed

text \<open>A request to start a socket that does not exist is answered with an error to the service that asked.\<close>

definition demo_start_unknown :: "u64 \<Rightarrow> nat io_result list socket_server" where
  "demo_start_unknown opaque = socket_server_start opaque 5 (demo_server [])"

lemma demo_start_unknown_poll:
  "\<exists>ss'. socket_server_poll tape_kernel True (demo_start_unknown opaque) = Some (SOCKET_ERR, True, ss') \<and>
     ss_result ss' = \<lparr>pm_id = 5, pm_opaque = opaque, pm_ud = 0, pm_data = Data_text ''invalid socket''\<rparr>"
proof -
  let ?d = "demo_server [] :: nat io_result list socket_server"
  have "sk_type (ss_slot ?d 5) = SOCKET_TYPE_INVALID" "HASH_ID 5 = 5" "ss_pipe ?d = []" "ss_checkctrl ?d = True"
    by (simp_all add: HASH_ID_def MAX_SOCKET_def demo_server_def socket_server_create_def FD_SETSIZE_def upd_sock_def
        clear_wb_list_def set_list_def blank_socket_def)
  then show ?thesis
    by (subst socket_server_poll.simps)
      (simp add: poll_round_def has_cmd_def sys_ask_def tape_kernel_def plain_kernel_def demo_start_unknown_def socket_server_start_def
        send_request_def ctrl_cmd_def start_socket_def Let_def ss_defs clear_closed_event_def)
qed

theorem socket_report_delivered_witness:
  "\<exists>s x mq ms ss'. life_reach demo_modules (s, (\<lambda>_. 0)(0 := 1), {0}) \<and> sv_ctxs s 0 = Some x \<and>
     skynet_socket_poll tape_kernel demo_modules (demo_start_unknown (ucast (cx_handle x)), s) = Some (- 1, ss', s\<lparr>sv_mq := mq\<rparr>) \<and>
     mq_msgs mq (cx_queue x) = Some (ms @ [socket_push
       \<lparr>sm_type = SKYNET_SOCKET_TYPE_ERROR, sm_id = 5, sm_ud = 0, sm_buffer = None, sm_text = ''invalid socket''\<rparr>])"
proof -
  from demo_reach obtain s x where s: "life_reach demo_modules (s, (\<lambda>_. 0)(0 := 1), {0})" "sv_ctxs s 0 = Some x"
    "handle_lookup (hof s) (sv_handles s) (cx_handle x) = Some 0" by blast
  from demo_start_unknown_poll [of "ucast (cx_handle x)"] obtain ss' where
    p: "socket_server_poll tape_kernel True (demo_start_unknown (ucast (cx_handle x))) = Some (SOCKET_ERR, True, ss')"
      "ss_result ss' = \<lparr>pm_id = 5, pm_opaque = ucast (cx_handle x), pm_ud = 0, pm_data = Data_text ''invalid socket''\<rparr>" by blast
  have "ucast (ucast (cx_handle x) :: u64) = cx_handle x" by (rule bit_word_eqI) (simp add: bit_simps)
  with socket_report_delivered [OF demo_quiet s(1) tape_kernel_bounded p(1), of SKYNET_SOCKET_TYPE_ERROR True] p(2) s(2,3)
  obtain mq ms where "skynet_socket_poll tape_kernel demo_modules (demo_start_unknown (ucast (cx_handle x)), s) = Some (- 1, ss', s\<lparr>sv_mq := mq\<rparr>)"
    "mq_msgs mq = (mq_msgs (sv_mq s))(cx_queue x \<mapsto> ms @ [socket_push
       \<lparr>sm_type = SKYNET_SOCKET_TYPE_ERROR, sm_id = 5, sm_ud = 0, sm_buffer = None, sm_text = ''invalid socket''\<rparr>])"
    by (auto simp: forward_type_def socket_block_def)
  with s(1,2) show ?thesis by (intro exI [of _ s] exI [of _ x] exI [of _ mq] exI [of _ ms] exI [of _ ss']) simp
qed

subsection \<open>From the peer to the gate\<close>

text \<open>
  The documented behaviour of \<open>read\<close> on a connection that is up: the bytes that have not been read yet are a
  function of the world, and a read takes some of them from the front or answers that it has to be repeated.
\<close>

definition stream_up :: "'w kernel \<Rightarrow> int \<Rightarrow> ('w \<Rightarrow> bytes) \<Rightarrow> bool" where
  "stream_up K fd rest \<longleftrightarrow> (\<forall>w n r w'. k_read K w fd n = (r, w') \<longrightarrow>
     (case r of IO_ok b \<Rightarrow> b \<noteq> [] \<and> rest w = b @ rest w' | IO_error e \<Rightarrow> False | _ \<Rightarrow> rest w' = rest w))"

text \<open>\<open>n\<close> read events of a socket and what they report.\<close>

fun read_events :: "'w kernel \<Rightarrow> nat \<Rightarrow> nat \<Rightarrow> 'w socket_server \<Rightarrow> (poll_message list \<times> 'w socket_server) option" where
  "read_events K i 0 ss = Some ([], ss)"
| "read_events K i (Suc n) ss =
     do { (r, ss) \<leftarrow> forward_message_tcp K i ss;
          let m = ss_result ss;
          (ms, ss) \<leftarrow> read_events K i n ss;
          Some (if r = SOCKET_DATA then (m # ms, ss) else (ms, ss)) }"

text \<open>The messages that the gate is given for these reports, one after the other.\<close>

fun gate_receives :: "(string \<Rightarrow> u32) \<Rightarrow> poll_message list \<Rightarrow> gate \<Rightarrow> (gate_act list \<times> gate) option" where
  "gate_receives Q [] g = Some ([], g)"
| "gate_receives Q (m # ms) g =
     do { sm \<leftarrow> socket_block SKYNET_SOCKET_TYPE_DATA False m;
          (a, _, g) \<leftarrow> gate_cb Q (SocketMsg sm) g;
          (b, g) \<leftarrow> gate_receives Q ms g;
          Some (a @ b, g) }"

definition data_report :: "int \<Rightarrow> bytes \<Rightarrow> poll_message \<Rightarrow> bool" where
  "data_report j b m \<longleftrightarrow> pm_id m = j \<and> pm_data m = Data_bytes b"

lemma read_event_up:
  assumes "forward_message_tcp K i ss = Some (r, ss')" "sk_type (ss_slot ss i) = SOCKET_TYPE_CONNECTED"
    "stream_up K (sk_fd (ss_slot ss i)) rest"
  shows "sk_type (ss_slot ss' i) = SOCKET_TYPE_CONNECTED \<and> sk_fd (ss_slot ss' i) = sk_fd (ss_slot ss i) \<and>
    sk_id (ss_slot ss' i) = sk_id (ss_slot ss i) \<and>
    (if r = SOCKET_DATA then \<exists>b. data_report (sk_id (ss_slot ss i)) b (ss_result ss') \<and> rest (ss_world ss) = b @ rest (ss_world ss')
     else rest (ss_world ss') = rest (ss_world ss))"
proof -
  from assms(1) obtain sz where sz: "sk_p (ss_slot ss i) = P_size sz"
    by (auto simp: forward_message_tcp_def Let_def split: socket_p.splits)
  obtain x w where x: "k_read K (ss_world ss) (sk_fd (ss_slot ss i)) sz = (x, w)" by fastforce
  with assms(3) have up: "case x of IO_ok b \<Rightarrow> b \<noteq> [] \<and> rest (ss_world ss) = b @ rest w | IO_error e \<Rightarrow> False | _ \<Rightarrow> rest w = rest (ss_world ss)"
    by (auto simp: stream_up_def)
  from assms(1,2) sz x up show ?thesis
    by (cases x) (auto simp: forward_message_tcp_def Let_def ss_defs bind_eq_Some_conv data_report_def)
qed

lemma read_events_up:
  assumes "read_events K i n ss = Some (ms, ss')" "sk_type (ss_slot ss i) = SOCKET_TYPE_CONNECTED"
    "stream_up K (sk_fd (ss_slot ss i)) rest"
  shows "\<exists>bs. list_all2 (data_report (sk_id (ss_slot ss i))) bs ms \<and> rest (ss_world ss) = concat bs @ rest (ss_world ss')"
  using assms
proof (induction n arbitrary: ss ms)
  case (Suc n)
  then obtain r s1 ms1 where s: "forward_message_tcp K i ss = Some (r, s1)" "read_events K i n s1 = Some (ms1, ss')"
    "ms = (if r = SOCKET_DATA then ss_result s1 # ms1 else ms1)" by (auto simp: Let_def bind_eq_Some_conv split: if_splits)
  note e = read_event_up [OF s(1) Suc.prems(2,3)]
  from e Suc.IH [OF s(2)] Suc.prems(3) obtain bs where
    bs: "list_all2 (data_report (sk_id (ss_slot ss i))) bs ms1" "rest (ss_world s1) = concat bs @ rest (ss_world ss')" by auto
  show ?case
  proof (cases "r = SOCKET_DATA")
    case True
    with e obtain b where "data_report (sk_id (ss_slot ss i)) b (ss_result s1)" "rest (ss_world ss) = b @ rest (ss_world s1)" by auto
    with bs s(3) True show ?thesis by (intro exI [of _ "b # bs"]) simp
  next
    case False
    with e bs s(3) show ?thesis by (intro exI [of _ bs]) simp
  qed
qed simp

lemma dispatch_message_hash: "dispatch_message i sid data g = Some (a, g') \<Longrightarrow> gt_hash g' = gt_hash g"
  by (auto simp: dispatch_message_def Let_def bind_eq_Some_conv)

lemma gate_receives_chunks:
  assumes "list_all2 (data_report j) bs ms" "hashid_lookup j (gt_hash g) = Some (int c)"
  shows "gate_receives Q ms g = dispatch_chunks c j bs g"
  using assms
proof (induction arbitrary: g rule: list_all2_induct)
  case (Cons b bs m ms)
  let ?sm = "\<lparr>sm_type = SKYNET_SOCKET_TYPE_DATA, sm_id = j, sm_ud = pm_ud m, sm_buffer = Some b, sm_text = []\<rparr>"
  have sm: "socket_block SKYNET_SOCKET_TYPE_DATA False m = Some ?sm"
    using Cons.hyps(1) by (simp add: socket_block_def Let_def data_report_def)
  have cb: "gate_cb Q (SocketMsg ?sm) g = map_option (\<lambda>(a, g). (a, 0, g)) (dispatch_message c j b g)"
    using Cons.prems by (simp add: gate_cb_def dispatch_socket_message_def split: bind_splits)
  show ?case
  proof (cases "dispatch_message c j b g")
    case None
    then show ?thesis by (simp add: sm cb)
  next
    case (Some y)
    obtain a g1 where y: "y = (a, g1)" by (cases y)
    with Some dispatch_message_hash Cons.prems have "hashid_lookup j (gt_hash g1) = Some (int c)" by metis
    with Cons.IH [OF this] Some y show ?thesis by (simp add: sm cb)
  qed
qed simp

text \<open>C6. End to end: while a connection is up, whatever pieces the kernel hands to the reads of the socket thread
  (with interrupted reads in between), the gate forwards exactly the non-empty packets that the peer wrote as
  frames, whole and in order, once all bytes were read.\<close>

theorem gate_receives_stream:
  assumes "sk_type (ss_slot ss i) = SOCKET_TYPE_CONNECTED" "sk_id (ss_slot ss i) = j" "stream_up K (sk_fd (ss_slot ss i)) rest"
    and "read_events K i n ss = Some (ms, ss')" "rest (ss_world ss') = []"
    and "gt_header_size g = hs" "hs = 2 \<or> hs = 4" "\<forall>p \<in> set payloads. length p < frame_limit hs"
    and "rest (ss_world ss) = concat (map (encode_frame hs) payloads)"
    and "hashid_lookup j (gt_hash g) = Some (int c)" "c < length (gt_conn g)" "has_target g (gt_conn g ! c)"
    and "cn_buffer (gt_conn g ! c) = empty_db"
  shows "\<exists>g'. gate_receives Q ms g = Some (map (forward_act g (gt_conn g ! c)) (filter (\<lambda>p. p \<noteq> []) payloads), g')"
proof -
  from read_events_up [OF assms(4,1,3)] assms(2,5,9) obtain bs where
    bs: "list_all2 (data_report j) bs ms" "concat bs = concat (map (encode_frame hs) payloads)" by auto
  have "0 < hs" using assms(7) by auto
  have start: "db_wf (cn_buffer (gt_conn g ! c))" "db_header (cn_buffer (gt_conn g ! c)) = 0"
    "db_bytes (cn_buffer (gt_conn g ! c)) = []" using assms(13) empty_db_wf by (simp_all add: empty_db_def)
  have "parse_frames hs 0 [] = Some ([], 0, [])" using \<open>0 < hs\<close> by (simp add: parse_frames.simps)
  moreover have "parse_frames hs 0 ([] @ concat bs) = Some (filter (\<lambda>p. p \<noteq> []) payloads, 0, [])"
    using parse_frames_encoded [OF assms(7,8)] bs(2) by simp
  ultimately show ?thesis
    using dispatch_chunks_refines [OF assms(11) refl assms(12) \<open>0 < hs\<close> assms(6) start] gate_receives_chunks [OF bs(1) assms(10)]
    by fastforce
qed

definition chunk_kernel :: "bytes list kernel" where
  "chunk_kernel = (plain_kernel (\<lambda>w data. (IO_EAGAIN, w)))
     \<lparr>k_read := (\<lambda>w fd n. case w of [] \<Rightarrow> (IO_EAGAIN, []) | b # t \<Rightarrow> if b = [] then (IO_EINTR, t) else (IO_ok b, t))\<rparr>"

definition stream_gate :: gate where
  "stream_gate = demo_gate\<lparr>gt_hash := snd (the (hashid_insert 1 (hashid_init 4)))\<rparr>"

definition demo_chunks :: "bytes list" where
  "demo_chunks = [[0], [2, 10], [], [11, 0, 0, 0], [1, 12]]"

theorem gate_receives_stream_witness:
  "\<exists>ms ss' g'. read_events chunk_kernel 1 5 (demo_server demo_chunks) = Some (ms, ss') \<and> ss_world ss' = [] \<and>
     gate_receives (\<lambda>_. 0) ms stream_gate = Some (map (forward_act stream_gate (gt_conn stream_gate ! 1)) [[10, 11], [12]], g')"
proof -
  let ?ss = "demo_server demo_chunks"
  have "stream_up chunk_kernel fd concat" for fd
    by (auto simp: stream_up_def chunk_kernel_def plain_kernel_def split: list.splits if_splits)
  moreover have "map_option (ss_world \<circ> snd) (read_events chunk_kernel 1 5 ?ss) = Some []" by code_simp
  then obtain ms ss' where r: "read_events chunk_kernel 1 5 ?ss = Some (ms, ss')" "ss_world ss' = []" by auto
  moreover have "sk_type (ss_slot ?ss 1) = SOCKET_TYPE_CONNECTED" "sk_id (ss_slot ?ss 1) = 1" "ss_world ?ss = demo_chunks" by code_simp+
  moreover have "concat demo_chunks = concat (map (encode_frame 2) [[10, 11], [], [12]])"
    by (simp add: demo_chunks_def encode_frame_def frame_header_def)
  moreover have "hashid_lookup 1 (gt_hash stream_gate) = Some (int 1)" by code_simp
  moreover have "gt_header_size stream_gate = 2" "1 < length (gt_conn stream_gate)" "has_target stream_gate (gt_conn stream_gate ! 1)"
    "cn_buffer (gt_conn stream_gate ! 1) = empty_db"
    by (simp_all add: stream_gate_def demo_gate_def has_target_def blank_connection_def)
  ultimately show ?thesis
    using gate_receives_stream [of ?ss 1 1 chunk_kernel concat 5 ms ss' stream_gate 2 "[[10, 11], [], [12]]" 1 "\<lambda>_. 0"]
    by (simp add: frame_limit_def)
qed

subsection \<open>Datagrams\<close>

text \<open>The bytes of a socket address as the kernel hands them out.\<close>

definition sockaddr_ok :: "sockaddr_all \<Rightarrow> bool" where
  "sockaddr_ok sa \<longleftrightarrow> (case sa of Sockaddr_in p a \<Rightarrow> length p = 2 \<and> length a = 4
                             | Sockaddr_in6 p a \<Rightarrow> length p = 2 \<and> length a = 16)"

definition sa_protocol :: "sockaddr_all \<Rightarrow> protocol" where
  "sa_protocol sa = (if is_v6 sa then PROTOCOL_UDPv6 else PROTOCOL_UDP)"

lemma gen_udp_address_parts:
  assumes "sockaddr_ok sa"
  defines "a \<equiv> gen_udp_address (sa_protocol sa) sa"
  shows "a ! 0 = protocol_byte (sa_protocol sa)" "udp_address_size (a ! 0) = Some (length a)" "length a \<le> UDP_ADDRESS_SIZE"
    "sk_protocol s = sa_protocol sa \<Longrightarrow> udp_socket_address s a = Some sa"
    "sk_protocol s = sa_protocol sa \<Longrightarrow> udp_socket_address s (a @ t) = Some sa"
  using assms(1)
  by (cases sa; simp add: a_def sa_protocol_def is_v6_def sockaddr_ok_def udp_address_size_def udp_socket_address_def UDP_ADDRESS_SIZE_def)+

text \<open>C31. An answer to a datagram goes to its sender: the address that \<open>skynet_socket_udp_address\<close> finds behind the
  bytes of a UDP message, given to \<open>skynet_socket_udp_send\<close>, makes the socket server send to the address the datagram
  came from, and as the default address of \<open>set_udp_address\<close> it does so for every later packet without address.\<close>

theorem udp_answer_reaches_sender:
  fixes ss :: "'w socket_server" and b :: mblock
  assumes "sk_type (ss_slot ss (HASH_ID j)) = SOCKET_TYPE_CONNECTED" "sk_id (ss_slot ss (HASH_ID j)) = j"
    and "sk_protocol (ss_slot ss (HASH_ID j)) = sa_protocol sa" "sockaddr_ok sa" "send_buffer_empty (ss_slot ss (HASH_ID j))"
    and "k_recvfrom K (ss_world ss) (sk_fd (ss_slot ss (HASH_ID j))) = (IO_ok (data, sa), w)"
    and "sk_p (ss_slot ss (HASH_ID j)) = P_udp_address old" "length old = UDP_ADDRESS_SIZE"
    and "\<And>w. \<exists>w'. k_sendto K w (sk_fd (ss_slot ss (HASH_ID j))) (blk_bytes b) (Some sa) = (IO_ok (length (blk_bytes b)), w')"
  shows "\<exists>ss1 sm a. forward_message_udp K (HASH_ID j) ss = Some (SOCKET_UDP, ss1) \<and>
    socket_block SKYNET_SOCKET_TYPE_UDP False (ss_result ss1) = Some sm \<and> skynet_socket_udp_address sm = Some (Some a) \<and>
    (\<exists>ss2. skynet_socket_udp_send j a b (int (length (blk_bytes b))) ss1 =
         Some (0, send_request (Req_send_udp (raw_request j b) a) ss1) \<and>
       send_socket K (raw_request j b) PRIORITY_HIGH (Some a) ss1 = Some (SOCKET_NOTHING, ss2) \<and>
       ss_calls ss2 = ss_calls ss1 @ [Sys_sendto (sk_fd (ss_slot ss (HASH_ID j))) (blk_bytes b) (Some sa)]) \<and>
    (\<exists>ss2 ss3. set_udp_address j a ss1 = Some (SOCKET_NOTHING, ss2) \<and>
       send_socket K (raw_request j b) PRIORITY_HIGH None ss2 = Some (SOCKET_NOTHING, ss3) \<and>
       ss_calls ss3 = ss_calls ss2 @ [Sys_sendto (sk_fd (ss_slot ss (HASH_ID j))) (blk_bytes b) (Some sa)])"
proof -
  let ?s = "ss_slot ss (HASH_ID j)" let ?a = "gen_udp_address (sa_protocol sa) sa"
  note a = gen_udp_address_parts [OF assms(4)]
  define ss1 where "ss1 = put_result j (sk_opaque ?s) (int (length data)) (Data_bytes (data @ ?a)) (ss\<lparr>ss_world := w\<rparr>)"
  have fwd: "forward_message_udp K (HASH_ID j) ss = Some (SOCKET_UDP, ss1)"
    using assms(2,3,6) by (simp add: forward_message_udp_def Let_def sys_ask_def ss1_def sa_protocol_def)
  define sm where "sm = \<lparr>sm_type = SKYNET_SOCKET_TYPE_UDP, sm_id = j, sm_ud = int (length data), sm_buffer = Some (data @ ?a), sm_text = []\<rparr>"
  have block: "socket_block SKYNET_SOCKET_TYPE_UDP False (ss_result ss1) = Some sm"
    by (simp add: socket_block_def ss1_def put_result_def sm_def)
  have ne: "?a \<noteq> []" by (cases sa) simp_all
  have addr: "skynet_socket_udp_address sm = Some (Some ?a)"
    using ne a(2) by (simp add: skynet_socket_udp_address_def socket_server_udp_address_def sm_def)
  have tcp: "sk_protocol ?s \<noteq> PROTOCOL_TCP" using assms(3) by (simp add: sa_protocol_def)
  have send: "\<exists>ss2. send_socket K (raw_request j b) PRIORITY_HIGH t s = Some (SOCKET_NOTHING, ss2) \<and>
       ss_calls ss2 = ss_calls s @ [Sys_sendto (sk_fd ?s) (blk_bytes b) (Some sa)]"
    if s: "sk_type (ss_slot s (HASH_ID j)) = SOCKET_TYPE_CONNECTED" "sk_id (ss_slot s (HASH_ID j)) = j" "sk_fd (ss_slot s (HASH_ID j)) = sk_fd ?s"
      "sk_protocol (ss_slot s (HASH_ID j)) = sa_protocol sa" "send_buffer_empty (ss_slot s (HASH_ID j))"
      "udp_target t (ss_slot s (HASH_ID j)) = Some u" "udp_socket_address (ss_slot s (HASH_ID j)) u = Some sa" for s :: "'w socket_server" and t u
  proof -
    from assms(9) [of "ss_world s"] obtain w' where w': "k_sendto K (ss_world s) (sk_fd ?s) (blk_bytes b) (Some sa) = (IO_ok (length (blk_bytes b)), w')" by blast
    have "sa_protocol sa \<noteq> PROTOCOL_TCP" by (simp add: sa_protocol_def)
    with s w' show ?thesis
      by (simp add: send_socket_def raw_request_def send_object_init_def send_direct_def so_data_def sys_sendto_def sys_ask_def Let_def ss_defs)
  qed
  have slot1: "ss_slot ss1 = ss_slot ss" by (simp add: ss1_def put_result_def)
  have req: "skynet_socket_udp_send j ?a b (int (length (blk_bytes b))) ss1 = Some (0, send_request (Req_send_udp (raw_request j b) ?a) ss1)"
    using assms(1,2) a(2) by (simp add: skynet_socket_udp_send_def socket_server_udp_send_def slot1 raw_request_def)
  have s1: "\<exists>ss2. send_socket K (raw_request j b) PRIORITY_HIGH (Some ?a) ss1 = Some (SOCKET_NOTHING, ss2) \<and>
       ss_calls ss2 = ss_calls ss1 @ [Sys_sendto (sk_fd ?s) (blk_bytes b) (Some sa)]"
    by (rule send) (use assms(1-3,5) a(4) in \<open>simp_all add: slot1 udp_target_def\<close>)
  let ?old = "overwrite ?a old"
  define ss2 where "ss2 = upd_sock (HASH_ID j) (\<lambda>s. s\<lparr>sk_p := P_udp_address ?old\<rparr>) ss1"
  have set: "set_udp_address j ?a ss1 = Some (SOCKET_NOTHING, ss2)"
    using assms(1-4,7) by (cases sa) (simp_all add: set_udp_address_def Let_def slot1 ss2_def sa_protocol_def is_v6_def sockaddr_ok_def)
  have s2: "\<exists>ss3. send_socket K (raw_request j b) PRIORITY_HIGH None ss2 = Some (SOCKET_NOTHING, ss3) \<and>
       ss_calls ss3 = ss_calls ss2 @ [Sys_sendto (sk_fd ?s) (blk_bytes b) (Some sa)]"
    by (rule send [where u = ?old]) (use assms(1-3,5) a(5) in
      \<open>simp_all add: ss2_def slot1 upd_sock_def udp_target_def overwrite_def send_buffer_empty_def\<close>)
  from fwd block addr req s1 set s2 show ?thesis by blast
qed

definition dgram_kernel :: "unit kernel" where
  "dgram_kernel = (plain_kernel (\<lambda>w data. (IO_ok (length data), w)))
     \<lparr>k_recvfrom := (\<lambda>w fd. (IO_ok ([5, 6], Sockaddr_in [0, 80] [10, 0, 0, 1]), w))\<rparr>"

definition demo_dgram :: "unit socket_server" where
  "demo_dgram = upd_sock 1 (\<lambda>s. s\<lparr>sk_protocol := PROTOCOL_UDP, sk_p := P_udp_address (replicate UDP_ADDRESS_SIZE 0)\<rparr>) (demo_server ())"

theorem udp_answer_reaches_sender_witness:
  "\<exists>ss1 sm a ss2. forward_message_udp dgram_kernel 1 demo_dgram = Some (SOCKET_UDP, ss1) \<and>
     socket_block SKYNET_SOCKET_TYPE_UDP False (ss_result ss1) = Some sm \<and> skynet_socket_udp_address sm = Some (Some a) \<and>
     send_socket dgram_kernel (raw_request 1 (demo_block 100 [7])) PRIORITY_HIGH (Some a) ss1 = Some (SOCKET_NOTHING, ss2) \<and>
     ss_calls ss2 = ss_calls ss1 @ [Sys_sendto 9 [7] (Some (Sockaddr_in [0, 80] [10, 0, 0, 1]))]"
proof -
  have f: "sk_type (ss_slot demo_dgram 1) = SOCKET_TYPE_CONNECTED" "sk_id (ss_slot demo_dgram 1) = 1"
    "sk_protocol (ss_slot demo_dgram 1) = sa_protocol (Sockaddr_in [0, 80] [10, 0, 0, 1])"
    "sockaddr_ok (Sockaddr_in [0, 80] [10, 0, 0, 1])" "send_buffer_empty (ss_slot demo_dgram 1)" "sk_fd (ss_slot demo_dgram 1) = 9"
    "sk_p (ss_slot demo_dgram 1) = P_udp_address (replicate UDP_ADDRESS_SIZE 0)"
    by code_simp+
  have k: "k_recvfrom dgram_kernel w fd = (IO_ok ([5, 6], Sockaddr_in [0, 80] [10, 0, 0, 1]), w)"
    "\<exists>w'. k_sendto dgram_kernel w fd data sa = (IO_ok (length data), w')" for w fd data sa
    by (simp_all add: dgram_kernel_def plain_kernel_def)
  from udp_answer_reaches_sender [of demo_dgram 1 _ dgram_kernel _ _ _ "demo_block 100 [7]", unfolded HASH_1, OF f(1-5) k(1) f(7) _ k(2)] f(6)
  show ?thesis by (auto simp: demo_block_def)
qed

end
