(* ===== verification/Socket_Pipe.thy ===== *)
theory Socket_Pipe
  imports Skynet_Socket
begin

section \<open>The pipe of the socket server\<close>

text \<open>
  Requests wait in the pipe until the socket thread reads them: the operations of the socket thread leave the pipe
  alone, a round takes at most its first request, and the calls of the other threads only add to its end. An exit
  request therefore stays until the round that reads it.
\<close>

subsection \<open>What leaves the pipe alone\<close>

lemma pipe_simps [simp]:
  "ss_pipe (put_result j opaque ud data ss) = ss_pipe ss" "ss_pipe (set_data data ss) = ss_pipe ss"
  "ss_pipe (upd_sock i f ss) = ss_pipe ss" "ss_pipe (set_type i t ss) = ss_pipe ss" "ss_pipe (so_free u b ss) = ss_pipe ss"
  "ss_pipe (sys_do c ss) = ss_pipe ss" "ss_pipe (print_error m ss) = ss_pipe ss" "ss_pipe (sp_write fd e ss) = ss_pipe ss"
  "ss_pipe (close_fd fd ss) = ss_pipe ss" "ss_pipe (clear_closed_event q ss) = ss_pipe ss" "ss_pipe (sp_nonblocking fd ss) = ss_pipe ss"
  "ss_pipe (socket_keepalive fd ss) = ss_pipe ss" "ss_pipe (sub_wb_size i k ss) = ss_pipe ss"
  by (simp_all add: ss_defs clear_closed_event_def sp_nonblocking_def socket_keepalive_def)

lemma sys_ask_pipe: "sys_ask f ss = (r, ss') \<Longrightarrow> ss_pipe ss' = ss_pipe ss"
  by (auto simp: sys_ask_def split: prod.splits)

lemma sys_write_pipe: "sys_write K fd b ss = (r, ss') \<Longrightarrow> ss_pipe ss' = ss_pipe ss"
  by (auto simp: sys_write_def Let_def split: prod.splits io_result.splits dest: sys_ask_pipe)

lemma sys_sendto_pipe: "sys_sendto K fd b sa ss = (r, ss') \<Longrightarrow> ss_pipe ss' = ss_pipe ss"
  by (auto simp: sys_sendto_def Let_def split: prod.splits io_result.splits dest: sys_ask_pipe)

lemma force_close_pipe: "force_close i ss = Some ss' \<Longrightarrow> ss_pipe ss' = ss_pipe ss"
  by (auto simp: force_close_def Let_def free_wb_list_def fold_write_buffer_free ss_defs split: if_splits)

lemma new_fd_pipe: "new_fd K i fd pr q b ss = Some (x, ss') \<Longrightarrow> ss_pipe ss' = ss_pipe ss"
  by (auto simp: new_fd_def Let_def sp_add_def bind_eq_Some_conv split: prod.splits if_splits dest!: sys_ask_pipe)

lemma reserve_pipe: "reserve_id ss = (j, ss') \<Longrightarrow> ss_pipe ss' = ss_pipe ss"
proof -
  have "reserve_loop n ss = (j, ss') \<Longrightarrow> ss_pipe ss' = ss_pipe ss" for n and ss :: "'a socket_server"
    by (induction n arbitrary: ss) (auto simp: Let_def split: if_splits)
  then show "reserve_id ss = (j, ss') \<Longrightarrow> ss_pipe ss' = ss_pipe ss" by (simp add: reserve_id_def)
qed

lemma connect_loop_pipe: "connect_loop K ais ss = (x, ss') \<Longrightarrow> ss_pipe ss' = ss_pipe ss"
proof (induction ais arbitrary: ss)
  case (Cons ai ais)
  then show ?case
    by (auto simp: Let_def split: prod.splits if_splits connect_result.splits dest!: sys_ask_pipe)
qed simp

lemma send_list_pipe:
  assumes "send_list K i p ss = Some (r, ss')" "write_bounded K"
  shows "ss_pipe ss' = ss_pipe ss"
proof (cases "sk_protocol (ss_slot ss i) = PROTOCOL_TCP")
  case True
  with assms have "send_list_tcp K i p ss = Some (r, ss')" by (simp add: send_list_def)
  from send_list_tcp_spec [OF this assms(2)] force_close_pipe show ?thesis by (fastforce simp: sent_state_def)
next
  case False
  have "ss_pipe (snd (send_list_udp_loop K i p l ss)) = ss_pipe ss" for l and ss :: "'a socket_server"
    by (induction l arbitrary: ss)
      (auto simp: Let_def write_buffer_free_def split: prod.split io_result.split dest: sys_sendto_pipe)
  with assms False show ?thesis by (metis send_list_def send_list_udp_def snd_conv option.inject)
qed

lemma send_buffer_pipe: "send_buffer K i ss = Some (r, ss') \<Longrightarrow> write_bounded K \<Longrightarrow> ss_pipe ss' = ss_pipe ss"
  by (auto simp: send_buffer_def send_low_def send_buffer_done_def raise_uncomplete_def Let_def bind_eq_Some_conv
      split: if_splits list.splits dest!: force_close_pipe send_list_pipe)

lemma append_buffer_pipe: "append_buffer i p q n ua ss = Some ss' \<Longrightarrow> ss_pipe ss' = ss_pipe ss"
  by (auto simp: append_buffer_def Let_def bind_eq_Some_conv)

lemma append_pipe:
  "append_sendbuffer i q n ss = Some ss' \<Longrightarrow> ss_pipe ss' = ss_pipe ss"
  "append_sendbuffer_low i q ss = Some ss' \<Longrightarrow> ss_pipe ss' = ss_pipe ss"
  "append_sendbuffer_udp i p q ua ss = Some ss' \<Longrightarrow> ss_pipe ss' = ss_pipe ss"
  by (simp_all add: append_sendbuffer_def append_sendbuffer_low_def append_sendbuffer_udp_def append_buffer_pipe)

lemma send_warning_pipe: "send_warning i ss = (r, ss') \<Longrightarrow> ss_pipe ss' = ss_pipe ss"
  by (auto simp: send_warning_def Let_def split: if_splits)

lemma send_direct_pipe:
  assumes "send_direct K i q so p a ss = Some y"
  shows "case y of Inl (r, ss') \<Rightarrow> ss_pipe ss' = ss_pipe ss | Inr ss' \<Rightarrow> ss_pipe ss' = ss_pipe ss"
proof (cases "sk_protocol (ss_slot ss i) = PROTOCOL_TCP")
  case True
  with assms obtain data where d: "so_data so = Some data" by (auto simp: send_direct_def Let_def bind_eq_Some_conv)
  obtain x s1 where w: "sys_write K (sk_fd (ss_slot ss i)) data ss = (x, s1)" by fastforce
  from assms True d w sys_write_pipe [OF w] show ?thesis
    by (cases x) (auto simp: send_direct_def Let_def bind_eq_Some_conv split: if_splits dest!: force_close_pipe append_pipe)
next
  case False
  with assms obtain data ua where d: "so_data so = Some data" "udp_target a (ss_slot ss i) = Some ua"
    by (auto simp: send_direct_def Let_def bind_eq_Some_conv)
  obtain x s1 where w: "sys_sendto K (sk_fd (ss_slot ss i)) data (udp_socket_address (ss_slot ss i) ua) ss = (x, s1)" by fastforce
  from assms False d w sys_sendto_pipe [OF w] show ?thesis
    by (cases x) (auto simp: send_direct_def Let_def bind_eq_Some_conv split: if_splits dest!: append_pipe)
qed

lemma send_socket_pipe:
  assumes "send_socket K q p a ss = Some (r, ss')"
  shows "ss_pipe ss' = ss_pipe ss"
proof -
  let ?i = "HASH_ID (rs_id q)"
  have queued: "ss_pipe s1 = ss_pipe ss" if "send_queued ?i q p a ss = Some s1" for s1
    using that by (auto simp: send_queued_def bind_eq_Some_conv split: if_splits priority.splits dest!: append_pipe)
  from assms obtain so where so: "send_object_init (rs_buffer q) (rs_sz q) ss = Some so"
    by (auto simp: send_socket_def Let_def bind_eq_Some_conv)
  show ?thesis
  proof (cases "send_direct K ?i q so p a ss")
    case None
    with assms so queued show ?thesis
      by (auto simp: send_socket_def Let_def bind_eq_Some_conv split: if_splits dest!: send_warning_pipe)
  next
    case (Some y)
    with assms so queued send_direct_pipe [OF Some] show ?thesis
      by (cases y) (auto simp: send_socket_def Let_def bind_eq_Some_conv split: if_splits dest!: send_warning_pipe)
  qed
qed

lemma close_socket_pipe: "close_socket K j sd opaque ss = Some (r, ss') \<Longrightarrow> write_bounded K \<Longrightarrow> ss_pipe ss' = ss_pipe ss"
  by (auto simp: close_socket_def Let_def bind_eq_Some_conv split: if_splits dest!: send_buffer_pipe force_close_pipe)

lemma open_socket_pipe: "open_socket K j port opaque host ss = Some (r, ss') \<Longrightarrow> ss_pipe ss' = ss_pipe ss"
  by (auto simp: open_socket_def open_failed_def number_limit_def Let_def bind_eq_Some_conv
        split: sum.splits prod.splits option.splits if_splits dest!: sys_ask_pipe connect_loop_pipe new_fd_pipe)

lemma ctrl_cmd_pipe:
  assumes "ctrl_cmd K ss = Some (r, ss')" "write_bounded K"
  shows "\<exists>type len q rest. ss_pipe ss = (type, len, q) # rest \<and> ss_pipe ss' = rest \<and> (q = Req_exit \<longrightarrow> r = SOCKET_EXIT)"
proof -
  from assms(1) obtain type len q rest where q: "ss_pipe ss = (type, len, q) # rest" by (auto simp: ctrl_cmd_def split: list.splits)
  have listen: "ss_pipe s' = ss_pipe s" if "listen_socket K i fd opaque s = Some (r, s')" for i fd opaque s s'
    using that by (auto simp: listen_socket_def bind_eq_Some_conv split: if_splits dest!: new_fd_pipe)
  have bnd: "ss_pipe s' = ss_pipe s" if "bind_socket K i fd opaque s = Some (r, s')" for i fd opaque s s'
    using that by (auto simp: bind_socket_def bind_eq_Some_conv split: if_splits dest!: new_fd_pipe)
  have start: "ss_pipe s' = ss_pipe s" if "start_socket K i opaque s = Some (r, s')" for i opaque s s'
    using that by (auto simp: start_socket_def sp_add_def Let_def bind_eq_Some_conv split: if_splits prod.splits
        dest!: sys_ask_pipe force_close_pipe)
  have setudp: "ss_pipe s' = ss_pipe s" if "set_udp_address i a s = Some (r, s')" for i a s s'
    using that by (auto simp: set_udp_address_def Let_def split: if_splits socket_p.splits)
  have udp: "ss_pipe s' = ss_pipe s" if "add_udp_socket K i fd v6 opaque s = Some s'" for i fd v6 opaque s s'
    using that by (auto simp: add_udp_socket_def bind_eq_Some_conv split: if_splits dest!: new_fd_pipe)
  have opt: "ss_pipe (setopt_socket i what v s) = ss_pipe s" for i what v s by (simp add: setopt_socket_def Let_def)
  from assms(1) q show ?thesis
    by (cases q) (auto simp: ctrl_cmd_def Let_def bind_eq_Some_conv opt split: if_splits
        dest!: listen bnd start setudp udp send_socket_pipe close_socket_pipe [OF _ assms(2)] open_socket_pipe)
qed

lemma poll_socket_pipe:
  assumes "poll_socket K k e i ss = Some (r, ss')" "write_bounded K"
  shows "ss_pipe ss' = ss_pipe ss"
proof -
  have tcp: "ss_pipe s' = ss_pipe s" if "forward_message_tcp K j s = Some (r, s')" for j s r s'
    using that by (auto simp: forward_message_tcp_def Let_def bind_eq_Some_conv
        split: if_splits prod.splits socket_p.splits io_result.splits dest!: sys_ask_pipe force_close_pipe)
  have udp: "ss_pipe s' = ss_pipe s" if "forward_message_udp K j s = Some (r, s')" for j s r s'
    using that by (auto simp: forward_message_udp_def Let_def bind_eq_Some_conv split: if_splits prod.splits io_result.splits
        dest!: sys_ask_pipe force_close_pipe)
  have connect: "ss_pipe s' = ss_pipe s" if "report_connect K j s = Some (r, s')" for j s r s'
    using that by (auto simp: report_connect_def Let_def bind_eq_Some_conv split: if_splits prod.splits option.splits
        dest!: sys_ask_pipe force_close_pipe)
  have accept: "ss_pipe s' = ss_pipe s" if "report_accept K j s = Some (ok, s')" for j s ok s'
    using that by (auto simp: report_accept_def Let_def bind_eq_Some_conv split: if_splits prod.splits option.splits accept_result.splits
        dest!: sys_ask_pipe new_fd_pipe reserve_pipe)
  have data: "ss_pipe ss' = ss_pipe ss" if "(if ev_read e
             then do { (r, ss1) \<leftarrow> (if sk_protocol (ss_slot ss i) = PROTOCOL_TCP then forward_message_tcp K i ss
                                    else forward_message_udp K i ss);
                       if sk_protocol (ss_slot ss i) \<noteq> PROTOCOL_TCP \<and> r = SOCKET_UDP
                       then Some (SOCKET_UDP, ss1\<lparr>ss_event_index := k\<rparr>)
                       else if ev_write e \<and> r \<noteq> SOCKET_CLOSE \<and> r \<noteq> SOCKET_ERR
                       then Some (r, ss1\<lparr>ss_ev := (ss_ev ss1)[k := e\<lparr>ev_read := False\<rparr>], ss_event_index := k\<rparr>)
                       else Some (r, ss1) }
             else if ev_write e then send_buffer K i ss
             else Some (SOCKET_NOTHING, ss)) = Some (r, ss')"
    using that tcp udp send_buffer_pipe [OF _ assms(2)] by (auto simp: bind_eq_Some_conv split: if_splits)
  show ?thesis
    using assms(1) connect accept data
    by (cases "sk_type (ss_slot ss i)") (auto simp: poll_socket_def Let_def bind_eq_Some_conv cong: if_cong)
qed

subsection \<open>The exit request\<close>

text \<open>Once the exit request is in the pipe, a poll reads it or leaves it there.\<close>

definition told :: "'w socket_server \<Rightarrow> bool" where
  "told ss \<longleftrightarrow> Req_exit \<in> set (requests ss)"

lemma poll_round_told:
  assumes "poll_round K pend ss = Some y" "told ss" "write_bounded K"
  shows "told (round_state y) \<or> (\<exists>m ss'. y = Inr (SOCKET_EXIT, m, ss'))"
proof -
  have keep: "told s' = told s" if "ss_pipe s' = ss_pipe s" for s s' :: "'a socket_server"
    using that by (simp add: told_def requests_def)
  have event: "told (round_state z)" if "poll_event K b s = Some z" "told s" for b s z
  proof -
    from that(1) poll_socket_pipe [OF _ assms(3)] have "ss_pipe (round_state z) = ss_pipe s"
      by (fastforce simp: poll_event_def Let_def bind_eq_Some_conv round_state_def split: option.splits if_splits)
    with keep that(2) show ?thesis by blast
  qed
  obtain cmd s1 where c: "(if ss_checkctrl ss then has_cmd K ss else (False, ss)) = (cmd, s1)" by fastforce
  have "ss_pipe s1 = ss_pipe ss" using c by (auto simp: has_cmd_def Let_def split: if_splits prod.splits dest!: sys_ask_pipe)
  with keep assms(2) have s1: "told s1" by blast
  show ?thesis
  proof (cases cmd)
    case True
    with assms(1) c obtain r s2 where r: "ctrl_cmd K s1 = Some (r, s2)"
      "y = (if r \<noteq> SOCKET_NOTHING then Inr (r, pend, clear_closed_event r s2) else Inl (pend, s2))"
      by (auto simp: poll_round_def bind_eq_Some_conv split: if_splits)
    from ctrl_cmd_pipe [OF r(1) assms(3)] obtain q where "requests s1 = q # requests s2" "q = Req_exit \<longrightarrow> r = SOCKET_EXIT"
      by (auto simp: requests_def)
    with s1 have "told s2 \<or> r = SOCKET_EXIT" by (auto simp: told_def)
    with r(2) keep [of "clear_closed_event r s2" s2] show ?thesis by (auto simp: round_state_def)
  next
    case False
    let ?s2 = "s1\<lparr>ss_checkctrl := False\<rparr>"
    have "told ?s2" using s1 by (simp add: told_def requests_def)
    obtain ev eintr s3 where w: "sp_wait K ?s2 = ((ev, eintr), s3)" by (metis surj_pair)
    have "ss_pipe s3 = ss_pipe ?s2" using w unfolding sp_wait_def by (rule sys_ask_pipe)
    then have "told (s3\<lparr>ss_ev := ev, ss_checkctrl := True, ss_event_index := 0\<rparr>)"
      using \<open>told ?s2\<close> by (simp add: told_def requests_def)
    with \<open>told ?s2\<close> assms(1) c False w event show ?thesis
      by (fastforce simp: poll_round_def Let_def round_state_def split: if_splits)
  qed
qed

lemma socket_server_poll_told:
  assumes "socket_server_poll K pend ss = Some (type, m, ss')" "told ss" "write_bounded K"
  shows "told ss' \<or> type = SOCKET_EXIT"
proof -
  let ?P = "\<lambda>K pend ss y. write_bounded K \<and> told ss \<longrightarrow> (case y of (type, m, ss') \<Rightarrow> told ss' \<or> type = SOCKET_EXIT)"
  have "?P K pend ss (type, m, ss')"
  proof (rule socket_server_poll.raw_induct [where P = ?P, OF _ assms(1)], rule impI)
    fix f and K :: "'a kernel" and pend and ss :: "'a socket_server" and y
    assume IH: "\<And>K pend ss y. f K pend ss = Some y \<Longrightarrow> ?P K pend ss y"
      and run: "poll_round K pend ss \<bind> (\<lambda>r. case r of Inl (pend, ss) \<Rightarrow> f K pend ss | Inr ret \<Rightarrow> Some ret) = Some y"
      and K: "write_bounded K \<and> told ss"
    from run obtain r where r: "poll_round K pend ss = Some r" "(case r of Inl (pend, ss) \<Rightarrow> f K pend ss | Inr ret \<Rightarrow> Some ret) = Some y"
      by (auto simp: bind_eq_Some_conv)
    from poll_round_told [OF r(1)] K have t: "told (round_state r) \<or> (\<exists>m ss'. r = Inr (SOCKET_EXIT, m, ss'))" by blast
    show "case y of (type, m, ss') \<Rightarrow> told ss' \<or> type = SOCKET_EXIT"
    proof (cases r)
      case (Inl a)
      with r(2) IH [of K "fst a" "snd a" y] K t show ?thesis by (cases a) (auto simp: round_state_def)
    next
      case (Inr a)
      with r t show ?thesis by (cases a) (auto simp: round_state_def)
    qed
  qed
  with assms(2,3) show ?thesis by simp
qed

lemma told_frame: "ss_pipe s1 = ss_pipe s2 \<Longrightarrow> told s1 = told s2"
  by (simp add: told_def requests_def)

lemma told_simps [simp]:
  "told (send_request q ss) \<longleftrightarrow> told ss \<or> q = Req_exit" "told (so_free u b ss) = told ss" "told (print_error m ss) = told ss"
  "told (close_fd fd ss) = told ss" "told (sp_nonblocking fd ss) = told ss" "told (ss\<lparr>ss_world := w\<rparr>) = told ss"
  by (auto simp: told_def requests_def send_request_def)

lemma quiet_told: "quiet ss ss' \<Longrightarrow> told ss \<Longrightarrow> told ss'"
  using told_frame [of ss ss'] by (simp add: quiet_def frame_kept_def)

lemma reserve_told: "reserve_id ss = (j, ss') \<Longrightarrow> told ss \<Longrightarrow> told ss'"
  using reserve_pipe told_frame by blast

lemma free_told: "free_buffer b sz ss = Some ss' \<Longrightarrow> told ss \<Longrightarrow> told ss'"
  by (auto simp: free_buffer_def bind_eq_Some_conv)

lemma api_step_told:
  assumes "api_step K X ss ss'" "told ss"
  shows "told ss'"
  using assms(1)
proof (cases rule: api_step.cases)
  case (api_connect opaque addr port j)
  obtain i s1 where r: "reserve_id ss = (i, s1)" by fastforce
  with api_connect reserve_told [OF r assms(2)] assms(2) show ?thesis
    by (auto simp: socket_server_connect_def open_request_def split: if_splits)
next
  case (api_listen opaque host port backlog j)
  then obtain lfd s1 where l: "do_listen K host port backlog ss = Some (lfd, s1)" by (auto simp: socket_server_listen_def bind_eq_Some_conv)
  note s1 = quiet_told [OF do_listen_quiet [OF l] assms(2)]
  obtain i s2 where r: "reserve_id s1 = (i, s2)" by fastforce
  with api_listen l s1 reserve_told [OF r s1] show ?thesis
    by (auto simp: socket_server_listen_def split: if_splits)
next
  case (api_bind opaque fd j)
  obtain i s1 where r: "reserve_id ss = (i, s1)" by fastforce
  with api_bind reserve_told [OF r assms(2)] show ?thesis by (auto simp: socket_server_bind_def split: if_splits)
next
  case (api_udp opaque host port j)
  then obtain ufd v6 s1 where l: "udp_fd K host port ss = Some (ufd, v6, s1)" by (auto simp: socket_server_udp_def bind_eq_Some_conv)
  note s1 = quiet_told [OF udp_fd_quiet [OF l] assms(2)]
  obtain i s2 where r: "reserve_id (sp_nonblocking ufd s1) = (i, s2)" by fastforce
  with api_udp l s1 reserve_told [OF r] show ?thesis
    by (auto simp: socket_server_udp_def split: if_splits)
next
  case (api_udp_connect j addr port r)
  then show ?thesis using assms(2)
    by (auto simp: socket_server_udp_connect_def sys_ask_def split: prod.splits sum.splits list.splits)
next
  case (api_send j sz b r)
  then show ?thesis using assms(2) free_told
    by (auto simp: socket_server_send_def server_send_def Let_def bind_eq_Some_conv split: if_splits)
next
  case (api_udp_send j sz b addr r)
  then show ?thesis using assms(2) free_told
    by (auto simp: socket_server_udp_send_def Let_def bind_eq_Some_conv split: if_splits option.splits)
qed (use assms(2) in \<open>simp_all add: socket_server_close_def socket_server_shutdown_def socket_server_start_def
     socket_server_nodelay_def socket_server_exit_def\<close>)

end
