(* ===== verification/Node_Threads.thy ===== *)
theory Node_Threads
  imports Commands Socket_Pipe
begin

section \<open>The threads of a node (\<open>skynet_start.c\<close>)\<close>

text \<open>
  A node runs a thread for the timer, one for the sockets, one that watches the workers, and the workers. The step
  relation interleaves them at every access to what they share: the services, the sockets, the count of sleeping
  workers, the flag \<open>quit\<close> and the mutex of the condition variable. One dispatch, one poll of the sockets, one
  update of the timer and one check of the monitors are single steps (their own interleavings are the subject of
  the theories of the queues, contexts, timers and locks). The program counter of a thread names the statement it
  is about to run. \<open>pthread_cond_wait\<close> may return without a signal.
\<close>

subsection \<open>The timer's messages\<close>

text \<open>\<open>skynet_updatetime\<close> on the services: what the wheel fires is pushed, and a service that is gone is skipped.\<close>

fun push_timeouts :: "'x modules \<Rightarrow> (u32 \<times> payload skynet_message) list \<Rightarrow> 'x server \<Rightarrow> 'x server option" where
  "push_timeouts M [] s = Some s"
| "push_timeouts M ((handle, message) # ms) s =
     do { (_, s) \<leftarrow> skynet_context_push M handle message s; push_timeouts M ms s }"

definition server_updatetime :: "'x modules \<Rightarrow> u64 \<Rightarrow> 'x server \<Rightarrow> 'x server option" where
  "server_updatetime M cp s =
     do { s \<leftarrow> (if cp < tm_current_point (sv_timer s)
                then skynet_error M None (''time diff error: change from '' @ show_int (sint cp) @ '' to '' @
                       show_int (sint (tm_current_point (sv_timer s)))) s
                else Some s);
          (T, fired) \<leftarrow> skynet_updatetime cp (sv_timer s);
          push_timeouts M (dispatch_list fired) (s\<lparr>sv_timer := T\<rparr>) }"

subsection \<open>The threads and what they share\<close>

datatype worker_pc =
    W_loop "mqid option" | W_dispatch "mqid option" | W_lock | W_count | W_check | W_wait | W_woken | W_uncount | W_unlock | W_done

datatype timer_pc =
    T_update | T_check | T_wakeup | T_sleep | T_exit | T_lock | T_quit | T_broadcast | T_unlock | T_done

datatype socket_pc = S_poll | S_check | S_wakeup | S_done

datatype watch_pc = M_turn | M_checks | M_nap nat | M_done

datatype thread = Timer | Worker nat

record ('w, 'x) node =
  nd_server :: "'x server"
  nd_sockets :: "'w socket_server"
  nd_monitor :: node_monitor
  nd_SIG :: bool
  nd_mutex :: "thread option"
  nd_workers :: "worker_pc list"
  nd_timer :: timer_pc
  nd_socket :: socket_pc
  nd_watch :: watch_pc

text \<open>\<open>start\<close>: the monitors of the workers, and every thread at its first statement.\<close>

definition node_start :: "nat \<Rightarrow> 'x server \<Rightarrow> 'w socket_server \<Rightarrow> ('w, 'x) node" where
  "node_start thread s ss =
     \<lparr>nd_server = s, nd_sockets = ss, nd_monitor = node_monitor_new thread, nd_SIG = False, nd_mutex = None,
      nd_workers = replicate thread (W_loop None), nd_timer = T_update, nd_socket = S_poll, nd_watch = M_turn\<rparr>"

definition check_abort :: "('w, 'x) node \<Rightarrow> bool" where
  "check_abort n \<longleftrightarrow> skynet_context_total (nd_server n) = 0"

definition set_worker :: "nat \<Rightarrow> worker_pc \<Rightarrow> ('w, 'x) node \<Rightarrow> ('w, 'x) node" where
  "set_worker i p n = n\<lparr>nd_workers := (nd_workers n)[i := p]\<rparr>"

definition set_sleep :: "int \<Rightarrow> ('w, 'x) node \<Rightarrow> ('w, 'x) node" where
  "set_sleep k n = n\<lparr>nd_monitor := (nd_monitor n)\<lparr>nm_sleep := k\<rparr>\<rparr>"

subsection \<open>Steps\<close>

text \<open>\<open>pthread_cond_signal\<close> wakes one of the waiting workers, \<open>pthread_cond_broadcast\<close> all.\<close>

inductive cond_signal :: "('w, 'x) node \<Rightarrow> ('w, 'x) node \<Rightarrow> bool" where
  signal_none: "W_wait \<notin> set (nd_workers n) \<Longrightarrow> cond_signal n n"
| signal_one: "i < length (nd_workers n) \<Longrightarrow> nd_workers n ! i = W_wait \<Longrightarrow> cond_signal n (set_worker i W_woken n)"

definition cond_broadcast :: "('w, 'x) node \<Rightarrow> ('w, 'x) node" where
  "cond_broadcast n = n\<lparr>nd_workers := map (\<lambda>p. if p = W_wait then W_woken else p) (nd_workers n)\<rparr>"

definition wake_step :: "int \<Rightarrow> ('w, 'x) node \<Rightarrow> ('w, 'x) node \<Rightarrow> bool" where
  "wake_step busy n n' \<longleftrightarrow> (if wakeup busy (nd_monitor n) then cond_signal n n' else n' = n)"

text \<open>\<open>thread_worker\<close>; \<open>i\<close> is the number of the worker.\<close>

inductive worker_step :: "'x modules \<Rightarrow> nat \<Rightarrow> ('w, 'x) node \<Rightarrow> ('w, 'x) node \<Rightarrow> bool" for M i where
  w_loop: "i < length (nd_workers n) \<Longrightarrow> nd_workers n ! i = W_loop q \<Longrightarrow>
    worker_step M i n (set_worker i (if nm_quit (nd_monitor n) then W_done else W_dispatch q) n)"
| w_dispatch: "i < length (nd_workers n) \<Longrightarrow> nd_workers n ! i = W_dispatch q \<Longrightarrow> array_get (nm_m (nd_monitor n)) i = Some sm \<Longrightarrow>
    skynet_context_message_dispatch M sm q (worker_weight i) (nd_server n) = Some (q', sm', s) \<Longrightarrow>
    worker_step M i n (set_worker i (if q' = None then W_lock else W_loop q')
      (n\<lparr>nd_server := s, nd_monitor := (nd_monitor n)\<lparr>nm_m := (nm_m (nd_monitor n))[i := sm']\<rparr>\<rparr>))"
| w_lock: "i < length (nd_workers n) \<Longrightarrow> nd_workers n ! i = W_lock \<Longrightarrow> nd_mutex n = None \<Longrightarrow>
    worker_step M i n (set_worker i W_count (n\<lparr>nd_mutex := Some (Worker i)\<rparr>))"
| w_count: "i < length (nd_workers n) \<Longrightarrow> nd_workers n ! i = W_count \<Longrightarrow>
    worker_step M i n (set_worker i W_check (set_sleep (nm_sleep (nd_monitor n) + 1) n))"
| w_check: "i < length (nd_workers n) \<Longrightarrow> nd_workers n ! i = W_check \<Longrightarrow>
    worker_step M i n (if nm_quit (nd_monitor n) then set_worker i W_uncount n
                       else set_worker i W_wait (n\<lparr>nd_mutex := None\<rparr>))"
| w_spurious: "i < length (nd_workers n) \<Longrightarrow> nd_workers n ! i = W_wait \<Longrightarrow> worker_step M i n (set_worker i W_woken n)"
| w_relock: "i < length (nd_workers n) \<Longrightarrow> nd_workers n ! i = W_woken \<Longrightarrow> nd_mutex n = None \<Longrightarrow>
    worker_step M i n (set_worker i W_uncount (n\<lparr>nd_mutex := Some (Worker i)\<rparr>))"
| w_uncount: "i < length (nd_workers n) \<Longrightarrow> nd_workers n ! i = W_uncount \<Longrightarrow>
    worker_step M i n (set_worker i W_unlock (set_sleep (nm_sleep (nd_monitor n) - 1) n))"
| w_unlock: "i < length (nd_workers n) \<Longrightarrow> nd_workers n ! i = W_unlock \<Longrightarrow>
    worker_step M i n (set_worker i (W_loop None) (n\<lparr>nd_mutex := None\<rparr>))"

text \<open>\<open>thread_timer\<close>; the clock is read in its first step.\<close>

inductive thread_timer_step :: "'x modules \<Rightarrow> ('w, 'x) node \<Rightarrow> ('w, 'x) node \<Rightarrow> bool" for M where
  t_update: "nd_timer n = T_update \<Longrightarrow> server_updatetime M cp (nd_server n) = Some s \<Longrightarrow>
    thread_timer_step M n (n\<lparr>nd_server := s, nd_timer := T_check\<rparr>)"
| t_check: "nd_timer n = T_check \<Longrightarrow> thread_timer_step M n (n\<lparr>nd_timer := (if check_abort n then T_exit else T_wakeup)\<rparr>)"
| t_wakeup: "nd_timer n = T_wakeup \<Longrightarrow> wake_step (nm_count (nd_monitor n) - 1) n n' \<Longrightarrow> thread_timer_step M n (n'\<lparr>nd_timer := T_sleep\<rparr>)"
| t_sleep: "nd_timer n = T_sleep \<Longrightarrow> (if nd_SIG n then signal_hup M (nd_server n) else Some (nd_server n)) = Some s \<Longrightarrow>
    thread_timer_step M n (n\<lparr>nd_server := s, nd_SIG := False, nd_timer := T_update\<rparr>)"
| t_exit: "nd_timer n = T_exit \<Longrightarrow> thread_timer_step M n (n\<lparr>nd_sockets := skynet_socket_exit (nd_sockets n), nd_timer := T_lock\<rparr>)"
| t_lock: "nd_timer n = T_lock \<Longrightarrow> nd_mutex n = None \<Longrightarrow> thread_timer_step M n (n\<lparr>nd_mutex := Some Timer, nd_timer := T_quit\<rparr>)"
| t_quit: "nd_timer n = T_quit \<Longrightarrow>
    thread_timer_step M n (n\<lparr>nd_monitor := (nd_monitor n)\<lparr>nm_quit := True\<rparr>, nd_timer := T_broadcast\<rparr>)"
| t_broadcast: "nd_timer n = T_broadcast \<Longrightarrow> thread_timer_step M n ((cond_broadcast n)\<lparr>nd_timer := T_unlock\<rparr>)"
| t_unlock: "nd_timer n = T_unlock \<Longrightarrow> thread_timer_step M n (n\<lparr>nd_mutex := None, nd_timer := T_done\<rparr>)"

text \<open>\<open>thread_socket\<close>.\<close>

inductive socket_step :: "'w kernel \<Rightarrow> 'x modules \<Rightarrow> ('w, 'x) node \<Rightarrow> ('w, 'x) node \<Rightarrow> bool" for K M where
  s_poll: "nd_socket n = S_poll \<Longrightarrow> skynet_socket_poll K M (nd_sockets n, nd_server n) = Some (r, ss, s) \<Longrightarrow>
    socket_step K M n (n\<lparr>nd_sockets := ss, nd_server := s,
      nd_socket := (if r = 0 then S_done else if r < 0 then S_check else S_wakeup)\<rparr>)"
| s_check: "nd_socket n = S_check \<Longrightarrow> socket_step K M n (n\<lparr>nd_socket := (if check_abort n then S_done else S_poll)\<rparr>)"
| s_wakeup: "nd_socket n = S_wakeup \<Longrightarrow> wake_step 0 n n' \<Longrightarrow> socket_step K M n (n'\<lparr>nd_socket := S_poll\<rparr>)"

text \<open>\<open>thread_monitor\<close>; \<open>M_nap k\<close> is before the test of the loop that sleeps \<open>k\<close> times more.\<close>

inductive watch_step :: "'x modules \<Rightarrow> ('w, 'x) node \<Rightarrow> ('w, 'x) node \<Rightarrow> bool" for M where
  m_turn: "nd_watch n = M_turn \<Longrightarrow> watch_step M n (n\<lparr>nd_watch := (if check_abort n then M_done else M_checks)\<rparr>)"
| m_checks: "nd_watch n = M_checks \<Longrightarrow> check_monitors M (nm_m (nd_monitor n)) (nd_server n) = Some (sms, s) \<Longrightarrow>
    watch_step M n (n\<lparr>nd_server := s, nd_monitor := (nd_monitor n)\<lparr>nm_m := sms\<rparr>, nd_watch := M_nap 5\<rparr>)"
| m_nap: "nd_watch n = M_nap k \<Longrightarrow>
    watch_step M n (n\<lparr>nd_watch := (if k = 0 then M_turn else if check_abort n then M_done else M_nap (k - 1))\<rparr>)"

text \<open>
  A step of the node: of one of its threads, a call of the socket layer by a service, or the signal handler
  \<open>handle_hup\<close>.
\<close>

inductive node_step :: "'w kernel \<Rightarrow> 'x modules \<Rightarrow> ('w, 'x) node \<Rightarrow> ('w, 'x) node \<Rightarrow> bool" for K M where
  n_worker: "worker_step M i n n' \<Longrightarrow> node_step K M n n'"
| n_timer: "thread_timer_step M n n' \<Longrightarrow> node_step K M n n'"
| n_socket: "socket_step K M n n' \<Longrightarrow> node_step K M n n'"
| n_watch: "watch_step M n n' \<Longrightarrow> node_step K M n n'"
| n_call: "api_step K X (nd_sockets n) ss \<Longrightarrow> node_step K M n (n\<lparr>nd_sockets := ss\<rparr>)"
| n_hup: "node_step K M n (n\<lparr>nd_SIG := True\<rparr>)"

inductive node_run :: "'w kernel \<Rightarrow> 'x modules \<Rightarrow> nat \<Rightarrow> ('w, 'x) node \<Rightarrow> bool" for K M thread where
  node_init: "node_run K M thread (node_start thread s ss)"
| node_next: "node_run K M thread n \<Longrightarrow> node_step K M n n' \<Longrightarrow> node_run K M thread n'"

subsection \<open>The invariant of the sleeping workers\<close>

definition counted :: "worker_pc \<Rightarrow> nat" where
  "counted p = (if p \<in> {W_check, W_wait, W_woken, W_uncount} then 1 else 0)"

definition holds :: "worker_pc \<Rightarrow> bool" where
  "holds p \<longleftrightarrow> p \<in> {W_count, W_check, W_uncount, W_unlock}"

definition sleep_inv :: "('w, 'x) node \<Rightarrow> bool" where
  "sleep_inv n \<longleftrightarrow> nm_sleep (nd_monitor n) = int (sum_list (map counted (nd_workers n))) \<and>
     nm_count (nd_monitor n) = int (length (nd_workers n)) \<and>
     (\<forall>i < length (nd_workers n). holds (nd_workers n ! i) \<longleftrightarrow> nd_mutex n = Some (Worker i)) \<and>
     (\<forall>i. nd_mutex n = Some (Worker i) \<longrightarrow> i < length (nd_workers n)) \<and>
     (nd_timer n \<in> {T_quit, T_broadcast, T_unlock} \<longleftrightarrow> nd_mutex n = Some Timer) \<and>
     (nm_quit (nd_monitor n) \<longleftrightarrow> nd_timer n \<in> {T_broadcast, T_unlock, T_done}) \<and>
     (nd_timer n \<in> {T_unlock, T_done} \<longrightarrow> W_wait \<notin> set (nd_workers n))"

lemma worker_sum_update:
  assumes "i < length ws"
  shows "int (sum_list (map f (ws[i := p]))) = int (sum_list (map f ws)) + int (f p) - int (f (ws ! i :: worker_pc))"
proof -
  have "sum_list (map f (ws[i := p])) + f (ws ! i) = sum_list (map f ws) + f p" for f :: "worker_pc \<Rightarrow> nat"
    using assms
  proof (induction ws arbitrary: i)
    case (Cons a ws)
    then show ?case by (cases i) auto
  qed simp
  then show ?thesis by (metis add_diff_cancel_right' of_nat_add)
qed

text \<open>A worker goes on: what the invariant asks of its new statement and of what it changed.\<close>

lemma sleep_inv_worker:
  assumes "sleep_inv n" "i < length (nd_workers n)" "nd_workers n' = (nd_workers n)[i := p]" "nd_timer n' = nd_timer n"
    "nm_quit (nd_monitor n') = nm_quit (nd_monitor n)" "nm_count (nd_monitor n') = nm_count (nd_monitor n)"
    "nm_sleep (nd_monitor n') = nm_sleep (nd_monitor n) + int (counted p) - int (counted (nd_workers n ! i))"
    "nd_mutex n' = (if holds p then Some (Worker i) else if holds (nd_workers n ! i) then None else nd_mutex n)"
    "holds p \<longrightarrow> holds (nd_workers n ! i) \<or> nd_mutex n = None" "p = W_wait \<longrightarrow> \<not> nm_quit (nd_monitor n)"
  shows "sleep_inv n'"
proof -
  have own: "holds (nd_workers n ! k) \<longleftrightarrow> nd_mutex n = Some (Worker k)" if "k < length (nd_workers n)" for k
    using assms(1) that by (simp add: sleep_inv_def)
  have m: "nd_mutex n = Some (Worker i) \<or> nd_mutex n = None" if "holds p"
    using that assms(9) own [OF assms(2)] by auto
  have "\<forall>k < length (nd_workers n'). holds (nd_workers n' ! k) \<longleftrightarrow> nd_mutex n' = Some (Worker k)"
    using own own [OF assms(2)] assms(2,3,8) m by (auto simp: nth_list_update)
  moreover have "\<forall>k. nd_mutex n' = Some (Worker k) \<longrightarrow> k < length (nd_workers n')"
    using assms(1-3,8) by (auto simp: sleep_inv_def)
  moreover have "nd_timer n' \<in> {T_quit, T_broadcast, T_unlock} \<longleftrightarrow> nd_mutex n' = Some Timer"
  proof -
    have "nd_mutex n' = Some Timer \<longleftrightarrow> nd_mutex n = Some Timer"
      using assms(8) m own [OF assms(2)] by auto
    with assms(1,4) show ?thesis by (simp add: sleep_inv_def)
  qed
  moreover have "nd_timer n' \<in> {T_unlock, T_done} \<longrightarrow> W_wait \<notin> set (nd_workers n')"
    using assms(1,3,4,10) set_update_subset_insert [of "nd_workers n" i p] by (auto simp: sleep_inv_def)
  ultimately show ?thesis
    using assms(1-7) by (simp add: sleep_inv_def worker_sum_update)
qed

lemma sleep_inv_frame:
  assumes "sleep_inv n" "nd_workers n' = nd_workers n" "nd_timer n' = t" "nd_mutex n' = nd_mutex n"
    "nm_quit (nd_monitor n') = nm_quit (nd_monitor n)" "nm_count (nd_monitor n') = nm_count (nd_monitor n)"
    "nm_sleep (nd_monitor n') = nm_sleep (nd_monitor n)" "t = nd_timer n \<or> {t, nd_timer n} \<subseteq> {T_update, T_check, T_wakeup, T_sleep, T_exit, T_lock}"
  shows "sleep_inv n'"
proof -
  have "t \<in> {T_quit, T_broadcast, T_unlock} \<longleftrightarrow> nd_timer n \<in> {T_quit, T_broadcast, T_unlock}"
    "t \<in> {T_broadcast, T_unlock, T_done} \<longleftrightarrow> nd_timer n \<in> {T_broadcast, T_unlock, T_done}"
    "t \<in> {T_unlock, T_done} \<longleftrightarrow> nd_timer n \<in> {T_unlock, T_done}" using assms(8) by auto
  with assms(1-7) show ?thesis unfolding sleep_inv_def by simp
qed

lemma sleep_inv_owner: "sleep_inv n \<Longrightarrow> i < length (nd_workers n) \<Longrightarrow> holds (nd_workers n ! i) \<Longrightarrow> nd_mutex n = Some (Worker i)"
  by (simp add: sleep_inv_def)

lemma worker_step_inv:
  assumes "worker_step M i n n'" "sleep_inv n"
  shows "sleep_inv n'"
  using assms(1)
  by (cases rule: worker_step.cases)
    (use sleep_inv_owner [OF assms(2), of i] in
      \<open>auto intro!: sleep_inv_worker [OF assms(2), of i] simp: set_worker_def set_sleep_def counted_def holds_def\<close>)

lemma cond_signal_inv:
  assumes "cond_signal n n'" "sleep_inv n"
  shows "sleep_inv n' \<and> nd_timer n' = nd_timer n"
  using assms
proof (cases rule: cond_signal.cases)
  case (signal_one i)
  then have "sleep_inv n'"
    by (intro sleep_inv_worker [OF assms(2), of i n' W_woken]) (simp_all add: set_worker_def counted_def holds_def)
  with signal_one show ?thesis by (simp add: set_worker_def)
qed simp

lemma wake_step_inv:
  assumes "wake_step k n n'" "sleep_inv n"
  shows "sleep_inv n' \<and> nd_timer n' = nd_timer n"
  using assms cond_signal_inv by (auto simp: wake_step_def split: if_splits)

lemma timer_step_inv:
  assumes "thread_timer_step M n n'" "sleep_inv n"
  shows "sleep_inv n'"
  using assms(1)
proof (cases rule: thread_timer_step.cases)
  case (t_wakeup n1)
  with wake_step_inv [OF t_wakeup(3) assms(2)] show ?thesis by (auto intro: sleep_inv_frame)
next
  case t_lock
  with assms(2) show ?thesis by (auto simp: sleep_inv_def)
next
  case t_quit
  with assms(2) show ?thesis by (auto simp: sleep_inv_def)
next
  case t_broadcast
  have "map counted (map (\<lambda>p. if p = W_wait then W_woken else p) ws) = map counted ws"
    "holds (map (\<lambda>p. if p = W_wait then W_woken else p) ws ! i) = holds (ws ! i)" if "i < length ws" for ws i
    using that by (auto simp: counted_def holds_def)
  moreover have "map counted (map (\<lambda>p. if p = W_wait then W_woken else p) ws) = map counted ws" for ws
    by (auto simp: counted_def)
  moreover have "W_wait \<notin> set (map (\<lambda>p. if p = W_wait then W_woken else p) ws)" for ws by auto
  ultimately show ?thesis using t_broadcast assms(2) unfolding sleep_inv_def cond_broadcast_def
    by (simp del: map_map set_map nth_map)
next
  case t_unlock
  with assms(2) show ?thesis by (auto simp: sleep_inv_def)
qed (use assms(2) in \<open>auto intro!: sleep_inv_frame [OF assms(2)]\<close>)

lemma node_step_inv:
  assumes "node_step K M n n'" "sleep_inv n"
  shows "sleep_inv n'"
  using assms(1)
proof (cases rule: node_step.cases)
  case (n_worker i)
  with worker_step_inv assms(2) show ?thesis by blast
next
  case n_timer
  with timer_step_inv assms(2) show ?thesis by blast
next
  case n_socket
  then show ?thesis
  proof (cases rule: socket_step.cases)
    case (s_wakeup n1)
    with wake_step_inv [OF s_wakeup(3) assms(2)] show ?thesis by (auto intro: sleep_inv_frame)
  qed (auto intro!: sleep_inv_frame [OF assms(2)])
next
  case n_watch
  then show ?thesis by (cases rule: watch_step.cases) (auto intro!: sleep_inv_frame [OF assms(2)])
qed (auto intro!: sleep_inv_frame [OF assms(2)])

lemma node_run_inv:
  assumes "node_run K M thread n"
  shows "sleep_inv n"
  using assms
proof (induction rule: node_run.induct)
  case (node_init s ss)
  show ?case
    by (simp add: sleep_inv_def node_start_def node_monitor_new_def counted_def holds_def sum_list_replicate)
next
  case (node_next n n')
  then show ?case using node_step_inv by blast
qed

subsection \<open>The exit request\<close>

definition told_inv :: "('w, 'x) node \<Rightarrow> bool" where
  "told_inv n \<longleftrightarrow> (nd_timer n \<in> {T_lock, T_quit, T_broadcast, T_unlock, T_done} \<longrightarrow> nd_socket n = S_done \<or> told (nd_sockets n))"

lemma cond_signal_frame: "cond_signal n n' \<Longrightarrow> nd_timer n' = nd_timer n \<and> nd_socket n' = nd_socket n \<and> nd_sockets n' = nd_sockets n"
  by (auto simp: cond_signal.simps set_worker_def)

lemma wake_step_frame: "wake_step k n n' \<Longrightarrow> nd_timer n' = nd_timer n \<and> nd_socket n' = nd_socket n \<and> nd_sockets n' = nd_sockets n"
  using cond_signal_frame by (auto simp: wake_step_def split: if_splits)

lemma skynet_socket_poll_told:
  assumes "skynet_socket_poll K M (ss, s) = Some (r, ss', s')" "told ss" "write_bounded K"
  shows "told ss' \<or> r = 0"
  using assms socket_server_poll_told [OF _ assms(2,3)]
  by (fastforce simp: skynet_socket_poll_def forward_poll_def bind_eq_Some_conv)

lemma node_step_told:
  assumes "node_step K M n n'" "told_inv n" "write_bounded K"
  shows "told_inv n'"
  using assms(1)
proof (cases rule: node_step.cases)
  case (n_worker i)
  then have "nd_timer n' = nd_timer n \<and> nd_socket n' = nd_socket n \<and> nd_sockets n' = nd_sockets n"
    by (cases rule: worker_step.cases) (simp_all add: set_worker_def set_sleep_def)
  with assms(2) show ?thesis by (simp add: told_inv_def)
next
  case n_timer
  then show ?thesis
  proof (cases rule: thread_timer_step.cases)
    case (t_wakeup n1)
    with wake_step_frame [OF t_wakeup(3)] show ?thesis by (simp add: told_inv_def)
  next
    case t_exit
    then show ?thesis by (simp add: told_inv_def skynet_socket_exit_def socket_server_exit_def)
  qed (use assms(2) in \<open>simp_all add: told_inv_def cond_broadcast_def\<close>)
next
  case n_socket
  then show ?thesis
  proof (cases rule: socket_step.cases)
    case (s_poll r ss s)
    with assms(2) skynet_socket_poll_told [OF s_poll(3) _ assms(3)] show ?thesis by (auto simp: told_inv_def)
  next
    case s_check
    with assms(2) show ?thesis by (simp add: told_inv_def)
  next
    case (s_wakeup n1)
    with assms(2) wake_step_frame [OF s_wakeup(3)] show ?thesis by (simp add: told_inv_def)
  qed
next
  case n_watch
  then show ?thesis using assms(2) by (cases rule: watch_step.cases) (simp_all add: told_inv_def)
next
  case (n_call X ss)
  with assms(2) api_step_told show ?thesis by (auto simp: told_inv_def)
next
  case n_hup
  with assms(2) show ?thesis by (simp add: told_inv_def)
qed

lemma node_run_told: "node_run K M thread n \<Longrightarrow> write_bounded K \<Longrightarrow> told_inv n"
proof (induction rule: node_run.induct)
  case (node_init s ss)
  show ?case by (simp add: told_inv_def node_start_def)
next
  case (node_next n n')
  then show ?case using node_step_told by blast
qed

subsection \<open>Properties\<close>

text \<open>How many steps a worker has left once \<open>quit\<close> is set.\<close>

fun steps_left :: "worker_pc \<Rightarrow> nat" where
  "steps_left W_done = 0" | "steps_left (W_loop q) = 1" | "steps_left W_unlock = 2" | "steps_left W_uncount = 3"
| "steps_left W_check = 4" | "steps_left W_woken = 4" | "steps_left W_wait = 5" | "steps_left W_count = 5"
| "steps_left W_lock = 6" | "steps_left (W_dispatch q) = 7"

definition work_left :: "('w, 'x) node \<Rightarrow> nat" where
  "work_left n = sum_list (map steps_left (nd_workers n))"

definition dispatch_returns :: "'x modules \<Rightarrow> ('w, 'x) node \<Rightarrow> bool" where
  "dispatch_returns M n \<longleftrightarrow> (\<forall>i q. i < length (nd_workers n) \<and> nd_workers n ! i = W_dispatch q \<longrightarrow>
     (\<exists>sm r. array_get (nm_m (nd_monitor n)) i = Some sm \<and>
        skynet_context_message_dispatch M sm q (worker_weight i) (nd_server n) = Some r))"

lemma work_left_update:
  "i < length (nd_workers n) \<Longrightarrow> nd_workers n' = (nd_workers n)[i := p] \<Longrightarrow>
   int (work_left n') = int (work_left n) + int (steps_left p) - int (steps_left (nd_workers n ! i))"
  by (simp add: work_left_def worker_sum_update)

lemma worker_step_left:
  assumes "worker_step M i n n'" "nm_quit (nd_monitor n)"
  shows "work_left n' < work_left n \<and> nd_timer n' = nd_timer n"
proof -
  from assms obtain p where "i < length (nd_workers n)" "nd_workers n' = (nd_workers n)[i := p]" "nd_timer n' = nd_timer n"
    "steps_left p < steps_left (nd_workers n ! i)"
    by (cases rule: worker_step.cases) (auto simp: set_worker_def set_sleep_def)
  with work_left_update [of i n n' p] show ?thesis by linarith
qed

lemma wake_step_quiet: "wake_step k n n' \<Longrightarrow> W_wait \<notin> set (nd_workers n) \<Longrightarrow> n' = n"
  by (auto simp: wake_step_def cond_signal.simps split: if_splits dest: nth_mem)

lemma other_step_left:
  assumes "node_step K M n n'" "nd_timer n = T_done" "W_wait \<notin> set (nd_workers n)" "\<not> (\<exists>i. worker_step M i n n')"
  shows "nd_workers n' = nd_workers n \<and> nd_timer n' = T_done"
  using assms(1)
proof (cases rule: node_step.cases)
  case n_timer
  then show ?thesis using assms(2) by (cases rule: thread_timer_step.cases) simp_all
next
  case n_socket
  then show ?thesis using assms(2) wake_step_quiet [OF _ assms(3)] by (cases rule: socket_step.cases) auto
next
  case n_watch
  then show ?thesis using assms(2) by (cases rule: watch_step.cases) simp_all
qed (use assms(2,4) in auto)

lemma worker_can_step:
  assumes "sleep_inv n" "nd_timer n = T_done" "dispatch_returns M n" "i < length (nd_workers n)" "nd_workers n ! i \<noteq> W_done"
  shows "\<exists>i n'. worker_step M i n n'"
proof -
  have nowait: "W_wait \<notin> set (nd_workers n)" "nd_mutex n \<noteq> Some Timer" using assms(1,2) by (simp_all add: sleep_inv_def)
  have step: "\<exists>n'. worker_step M k n n'" if k: "k < length (nd_workers n)" "nd_workers n ! k \<noteq> W_done"
    "holds (nd_workers n ! k) \<or> nd_mutex n = None" for k
  proof (cases "nd_workers n ! k")
    case (W_dispatch q)
    with assms(3) k(1) obtain sm r where "array_get (nm_m (nd_monitor n)) k = Some sm"
      "skynet_context_message_dispatch M sm q (worker_weight k) (nd_server n) = Some r" unfolding dispatch_returns_def by blast
    with worker_step.w_dispatch [OF k(1) W_dispatch] show ?thesis by (cases r) blast
  next
    case W_wait
    with nowait k(1) show ?thesis by (metis nth_mem)
  next
    case W_lock
    with k worker_step.w_lock [OF k(1)] show ?thesis by (auto simp: holds_def)
  next
    case W_woken
    with k worker_step.w_relock [OF k(1)] show ?thesis by (auto simp: holds_def)
  next
    case W_done
    with k(2) show ?thesis by blast
  next
    case (W_loop q)
    from worker_step.w_loop [OF k(1) this] show ?thesis by blast
  next
    case W_count
    from worker_step.w_count [OF k(1) this] show ?thesis by blast
  next
    case W_check
    from worker_step.w_check [OF k(1) this] show ?thesis by blast
  next
    case W_uncount
    from worker_step.w_uncount [OF k(1) this] show ?thesis by blast
  next
    case W_unlock
    from worker_step.w_unlock [OF k(1) this] show ?thesis by blast
  qed
  show ?thesis
  proof (cases "nd_mutex n")
    case None
    with step assms(4,5) show ?thesis by blast
  next
    case (Some t)
    with nowait obtain j where j: "nd_mutex n = Some (Worker j)" by (cases t) auto
    with assms(1) have "j < length (nd_workers n)" "holds (nd_workers n ! j)" by (auto simp: sleep_inv_def)
    with step [of j] show ?thesis by (auto simp: holds_def)
  qed
qed


text \<open>A worker does not sleep while the timer turns: \<open>sleep\<close> counts the workers between the two updates of it, so
  whenever a worker waits the test of \<open>wakeup\<close> in the timer thread succeeds and wakes one of them.\<close>

theorem timer_wakes_sleeper:
  assumes "node_run K M thread n" "nd_timer n = T_wakeup" "W_wait \<in> set (nd_workers n)" "thread_timer_step M n n'"
  shows "\<exists>i < length (nd_workers n). nd_workers n ! i = W_wait \<and> nd_workers n' = (nd_workers n)[i := W_woken]"
proof -
  have inv: "sleep_inv n" using node_run_inv [OF assms(1)] .
  have "1 \<le> sum_list (map counted (nd_workers n))"
    using assms(3) member_le_sum_list [of "counted W_wait" "map counted (nd_workers n)"] by (auto simp: counted_def)
  with inv have "wakeup (nm_count (nd_monitor n) - 1) (nd_monitor n)" by (simp add: wakeup_def sleep_inv_def)
  with assms(2-4) show ?thesis
    by (auto simp: thread_timer_step.simps wake_step_def cond_signal.simps set_worker_def)
qed

text \<open>C32. The socket thread hears of the end: from the moment the timer thread has asked for it, the socket thread has
  ended or the exit request is in the pipe, whatever requests the services add; and the poll that reads it ends the
  thread.\<close>

theorem socket_thread_told:
  assumes "node_run K M thread n" "write_bounded K" "nd_timer n \<in> {T_lock, T_quit, T_broadcast, T_unlock, T_done}"
  shows "(nd_socket n = S_done \<or> Req_exit \<in> set (requests (nd_sockets n))) \<and>
    (\<forall>n'. nd_socket n = S_poll \<longrightarrow> socket_step K M n n' \<longrightarrow> nd_socket n' = S_done \<or> Req_exit \<in> set (requests (nd_sockets n')))"
proof -
  have now: "nd_socket n = S_done \<or> told (nd_sockets n)"
    using node_run_told [OF assms(1,2)] assms(3) unfolding told_inv_def by (rule mp)
  have "nd_socket n' = S_done \<or> told (nd_sockets n')" if "nd_socket n = S_poll" "socket_step K M n n'" for n'
    using that(2)
  proof (cases rule: socket_step.cases)
    case (s_poll r ss s)
    with now skynet_socket_poll_told [OF s_poll(3) _ assms(2)] show ?thesis by auto
  qed (use that(1) in simp_all)
  with now show ?thesis by (simp add: told_def)
qed

subsection \<open>Timeouts\<close>

text \<open>What a list of pushed messages adds to the queues of the services.\<close>

lemma push_timeouts_result:
  assumes "quiet_release M" "server_inv refs held s"
  shows "\<exists>mq. push_timeouts M ms s = Some (s\<lparr>sv_mq := mq\<rparr>) \<and>
    (\<forall>c x old. sv_ctxs s c = Some x \<longrightarrow> handle_lookup (hof s) (sv_handles s) (cx_handle x) = Some c \<longrightarrow>
       mq_msgs (sv_mq s) (cx_queue x) = Some old \<longrightarrow>
       mq_msgs mq (cx_queue x) = Some (old @ map snd (filter (\<lambda>m. fst m = cx_handle x) ms)))"
  using assms(2)
proof (induction ms arbitrary: s)
  case Nil
  then show ?case by (intro exI [of _ "sv_mq s"]) simp
next
  case (Cons m ms)
  obtain h msg where m: "m = (h, msg)" by (cases m)
  have apart: "cx_queue x = cx_queue y \<longleftrightarrow> c = d" if "sv_ctxs s c = Some x" "sv_ctxs s d = Some y" for c d x y
    using that Cons.prems unfolding server_inv_def queues_apart_def by (metis option.inject)
  show ?case
  proof (cases "handle_lookup (hof s) (sv_handles s) h")
    case None
    from Cons.IH [OF Cons.prems] obtain mq where mq: "push_timeouts M ms s = Some (s\<lparr>sv_mq := mq\<rparr>)"
      "\<forall>c x old. sv_ctxs s c = Some x \<longrightarrow> handle_lookup (hof s) (sv_handles s) (cx_handle x) = Some c \<longrightarrow>
         mq_msgs (sv_mq s) (cx_queue x) = Some old \<longrightarrow>
         mq_msgs mq (cx_queue x) = Some (old @ map snd (filter (\<lambda>m. fst m = cx_handle x) ms))" by blast
    with None m show ?thesis by (intro exI [of _ mq]) (auto simp: context_push_gone)
  next
    case (Some d)
    from context_push_result [OF Cons.prems assms(1) Some, of msg] obtain y mq1 ms1 where
      y: "sv_ctxs s d = Some y" "cx_handle y = h" "skynet_context_push M h msg s = Some (0, s\<lparr>sv_mq := mq1\<rparr>)"
        "server_inv refs held (s\<lparr>sv_mq := mq1\<rparr>)" "mq_msgs (sv_mq s) (cx_queue y) = Some ms1"
        "mq_msgs mq1 = (mq_msgs (sv_mq s))(cx_queue y \<mapsto> ms1 @ [msg])" by blast
    have hof: "hof (s\<lparr>sv_mq := mq1\<rparr>) = hof s" by (simp add: hof_def fun_eq_iff)
    from Cons.IH [OF y(4)] obtain mq where mq: "push_timeouts M ms (s\<lparr>sv_mq := mq1\<rparr>) = Some (s\<lparr>sv_mq := mq\<rparr>)"
      "\<And>c x old. sv_ctxs s c = Some x \<Longrightarrow> handle_lookup (hof s) (sv_handles s) (cx_handle x) = Some c \<Longrightarrow>
         mq_msgs mq1 (cx_queue x) = Some old \<Longrightarrow>
         mq_msgs mq (cx_queue x) = Some (old @ map snd (filter (\<lambda>m. fst m = cx_handle x) ms))" by (auto simp: hof)
    have "mq_msgs mq (cx_queue x) = Some (old @ map snd (filter (\<lambda>m. fst m = cx_handle x) (m # ms)))"
      if x: "sv_ctxs s c = Some x" "handle_lookup (hof s) (sv_handles s) (cx_handle x) = Some c"
        "mq_msgs (sv_mq s) (cx_queue x) = Some old" for c x old
    proof (cases "c = d")
      case True
      with x y mq(2) [of c x "ms1 @ [msg]"] m show ?thesis by auto
    next
      case False
      then have "cx_queue x \<noteq> cx_queue y" "cx_handle x \<noteq> h" using apart [OF x(1) y(1)] x(2) Some by auto
      with mq(2) [OF x(1,2), of old] x(3) y(6) m show ?thesis by auto
    qed
    moreover have "push_timeouts M (m # ms) s = Some (s\<lparr>sv_mq := mq\<rparr>)" using m y(3) mq(1) by simp
    ultimately show ?thesis by blast
  qed
qed

text \<open>C30. Timeouts reach their services: when the clock went on by \<open>k\<close> centiseconds, the update of the timer thread adds to
  the queue of every registered service the response messages of exactly the timers that it set for the next \<open>k\<close> times,
  in the order of their times and at equal times in the order they were set, and changes nothing else but the wheel.\<close>

theorem timeouts_reach_services:
  assumes "quiet_release M" "life_reach M (s, refs, held)" "timer_wf (sv_timer s)"
    "tm_current_point (sv_timer s) \<le> cp" "unat (cp - tm_current_point (sv_timer s)) < 2 ^ 32"
  defines "fired \<equiv> concat (map (\<lambda>k. due (sv_timer s) (tm_time (sv_timer s) + of_nat k))
      [1..<Suc (unat (cp - tm_current_point (sv_timer s)))])"
  shows "\<exists>T mq. server_updatetime M cp s = Some (s\<lparr>sv_timer := T, sv_mq := mq\<rparr>) \<and> timer_wf T \<and>
    (\<forall>c x old. sv_ctxs s c = Some x \<longrightarrow> handle_lookup (hof s) (sv_handles s) (cx_handle x) = Some c \<longrightarrow>
       mq_msgs (sv_mq s) (cx_queue x) = Some old \<longrightarrow>
       mq_msgs mq (cx_queue x) = Some (old @ map (\<lambda>n. timeout_message (ev_session (node_event n)))
         (filter (\<lambda>n. ev_handle (node_event n) = cx_handle x) fired)))"
proof -
  from updatetime_fires_elapsed [OF assms(3,5)] assms(4) obtain T where
    T: "skynet_updatetime cp (sv_timer s) = Some (T, fired)" "timer_wf T" unfolding fired_def by (auto split: if_splits)
  have inv: "server_inv refs held (s\<lparr>sv_timer := T\<rparr>)"
  proof -
    have same: "hof (s\<lparr>sv_timer := T\<rparr>) = hof s" "registered_ctxs (s\<lparr>sv_timer := T\<rparr>) = registered_ctxs s"
      by (simp_all add: hof_def fun_eq_iff registered_ctxs_def)
    have "ctx_ok refs (s\<lparr>sv_timer := T\<rparr>) = ctx_ok refs s" by (simp add: fun_eq_iff ctx_ok_def same cong: option.case_cong)
    with same show ?thesis using life_reach_inv [OF assms(1,2)]
      by (simp add: life_inv_def server_inv_def queues_apart_def alloc_ok_def)
  qed
  have hof: "hof (s\<lparr>sv_timer := T\<rparr>) = hof s" by (simp add: hof_def fun_eq_iff)
  have msgs: "map snd (filter (\<lambda>m. fst m = h) (dispatch_list ns)) =
      map (\<lambda>n. timeout_message (ev_session (node_event n))) (filter (\<lambda>n. ev_handle (node_event n) = h) ns)" for h ns
    by (induction ns) (simp_all add: dispatch_list_def)
  from push_timeouts_result [OF assms(1) inv, of "dispatch_list fired"] obtain mq where
    mq: "push_timeouts M (dispatch_list fired) (s\<lparr>sv_timer := T\<rparr>) = Some (s\<lparr>sv_timer := T, sv_mq := mq\<rparr>)"
      "\<forall>c x old. sv_ctxs s c = Some x \<longrightarrow> handle_lookup (hof s) (sv_handles s) (cx_handle x) = Some c \<longrightarrow>
         mq_msgs (sv_mq s) (cx_queue x) = Some old \<longrightarrow>
         mq_msgs mq (cx_queue x) = Some (old @ map (\<lambda>n. timeout_message (ev_session (node_event n)))
           (filter (\<lambda>n. ev_handle (node_event n) = cx_handle x) fired))" by (auto simp: hof msgs)
  have "server_updatetime M cp s = Some (s\<lparr>sv_timer := T, sv_mq := mq\<rparr>)"
    using T(1) mq(1) assms(4) by (simp add: server_updatetime_def not_less [symmetric])
  with T(2) mq(2) show ?thesis by blast
qed

subsection \<open>Witnesses\<close>

text \<open>A node without services stops, and a worker that finds no work goes to sleep.\<close>

lemma demo_updatetime: "server_updatetime M 0 (demo_node\<lparr>sv_total := k\<rparr>) = Some (demo_node\<lparr>sv_total := k\<rparr>)"
proof -
  have "tm_current_point (sv_timer demo_node) = 0"
    by (simp add: demo_node_def server_init_def skynet_profile_enable_def skynet_harbor_init_def skynet_globalinit_def
        skynet_initthread_def skynet_timer_init_def systime_def gettime_def Let_def)
  then show ?thesis by (simp add: server_updatetime_def skynet_updatetime_def dispatch_list_def)
qed

lemma demo_shutdown:
  fixes ss :: "'w socket_server" and K :: "'w kernel"
  shows "\<exists>n. node_run K demo_modules 1 n \<and> nd_timer n = T_done \<and> nd_workers n = [W_loop None] \<and> nm_quit (nd_monitor n) \<and>
     nd_socket n = S_poll"
proof -
  let ?s = "demo_node\<lparr>sv_total := 0\<rparr>" and ?start = "node_start 1 (demo_node\<lparr>sv_total := 0\<rparr>) ss"
  note start = node_start_def node_monitor_new_def check_abort_def skynet_context_total_def cond_broadcast_def
  have step: "node_run K demo_modules 1 n2" if "node_run K demo_modules 1 n" "thread_timer_step demo_modules n n1" "n1 = n2"
    for n n1 n2 using that node_next [OF _ n_timer] by blast
  have "node_run K demo_modules 1 (?start\<lparr>nd_server := ?s, nd_timer := T_check\<rparr>)"
    by (rule step [OF node_init [of _ _ _ ?s ss] t_update [where cp = 0 and s = ?s]]) (simp_all add: start demo_updatetime)
  from step [OF this t_check] have
    "node_run K demo_modules 1 (?start\<lparr>nd_timer := T_exit\<rparr>)" by (simp add: start)
  from step [OF this t_exit] have
    "node_run K demo_modules 1 (?start\<lparr>nd_sockets := skynet_socket_exit ss, nd_timer := T_lock\<rparr>)" by (simp add: start)
  from step [OF this t_lock] have
    "node_run K demo_modules 1 (?start\<lparr>nd_sockets := skynet_socket_exit ss, nd_mutex := Some Timer, nd_timer := T_quit\<rparr>)" by (simp add: start)
  from step [OF this t_quit] have
    "node_run K demo_modules 1 (?start\<lparr>nd_sockets := skynet_socket_exit ss,
      nd_monitor := (node_monitor_new 1)\<lparr>nm_quit := True\<rparr>, nd_mutex := Some Timer, nd_timer := T_broadcast\<rparr>)" by (simp add: start)
  from step [OF this t_broadcast] have
    "node_run K demo_modules 1 (?start\<lparr>nd_sockets := skynet_socket_exit ss,
      nd_monitor := (node_monitor_new 1)\<lparr>nm_quit := True\<rparr>, nd_mutex := Some Timer, nd_timer := T_unlock\<rparr>)" by (simp add: start)
  from step [OF this t_unlock, OF _ refl] have "node_run K demo_modules 1 (?start\<lparr>nd_sockets := skynet_socket_exit ss,
      nd_monitor := (node_monitor_new 1)\<lparr>nm_quit := True\<rparr>, nd_mutex := None, nd_timer := T_done\<rparr>)"
    by (simp add: start)
  then show ?thesis by (intro exI conjI, assumption) (simp_all add: start)
qed


theorem socket_thread_told_witness:
  "\<exists>n. node_run tape_kernel demo_modules 1 n \<and> nd_timer n = T_done \<and> Req_exit \<in> set (requests (nd_sockets n))"
proof -
  from demo_shutdown obtain n where n: "node_run tape_kernel demo_modules 1 n" "nd_timer n = T_done" "nd_socket n = S_poll" by blast
  with socket_thread_told [OF n(1) tape_kernel_bounded] show ?thesis by auto
qed

lemma demo_asleep:
  fixes ss :: "'w socket_server" and K :: "'w kernel"
  shows "\<exists>n. node_run K demo_modules 1 n \<and> nd_timer n = T_wakeup \<and> nd_workers n = [W_wait] \<and> nm_count (nd_monitor n) = 1 \<and>
     nm_sleep (nd_monitor n) = 1"
proof -
  let ?s = "demo_node\<lparr>sv_total := 1\<rparr>" and ?start = "node_start 1 (demo_node\<lparr>sv_total := 1\<rparr>) ss"
  note start = node_start_def node_monitor_new_def check_abort_def skynet_context_total_def set_worker_def set_sleep_def
  have step: "node_run K demo_modules 1 n2" if "node_run K demo_modules 1 n" "thread_timer_step demo_modules n n1" "n1 = n2"
    for n n1 n2 using that node_next [OF _ n_timer] by blast
  have turn: "node_run K demo_modules 1 n2" if "node_run K demo_modules 1 n" "worker_step demo_modules 0 n n1" "n1 = n2"
    for n n1 n2 using that node_next [OF _ n_worker] by blast
  have idle: "skynet_context_message_dispatch demo_modules sm None w ?s = Some (None, sm, ?s)" for sm w
    by (simp add: skynet_context_message_dispatch_def global_pop_def skynet_globalmq_pop_def demo_node_def server_init_def
        skynet_profile_enable_def skynet_harbor_init_def skynet_globalinit_def skynet_initthread_def skynet_mq_init_def)
  have "node_run K demo_modules 1 (?start\<lparr>nd_server := ?s, nd_timer := T_check\<rparr>)"
    by (rule step [OF node_init [of _ _ _ ?s ss] t_update [where cp = 0 and s = ?s]]) (simp_all add: start demo_updatetime)
  from step [OF this t_check] have "node_run K demo_modules 1 (?start\<lparr>nd_timer := T_wakeup\<rparr>)" by (simp add: start)
  from turn [OF this w_loop] have "node_run K demo_modules 1 (?start\<lparr>nd_workers := [W_dispatch None], nd_timer := T_wakeup\<rparr>)"
    by (simp add: start)
  then have "node_run K demo_modules 1 (?start\<lparr>nd_workers := [W_lock], nd_timer := T_wakeup\<rparr>)"
    by (rule turn [OF _ w_dispatch [where q = None and q' = None and s = ?s and sm = skynet_monitor_new and sm' = skynet_monitor_new]])
      (simp_all add: start idle)
  from turn [OF this w_lock] have
    "node_run K demo_modules 1 (?start\<lparr>nd_mutex := Some (Worker 0), nd_workers := [W_count], nd_timer := T_wakeup\<rparr>)" by (simp add: start)
  from turn [OF this w_count] have "node_run K demo_modules 1 (?start\<lparr>nd_monitor := (node_monitor_new 1)\<lparr>nm_sleep := 1\<rparr>,
      nd_mutex := Some (Worker 0), nd_workers := [W_check], nd_timer := T_wakeup\<rparr>)" by (simp add: start)
  from turn [OF this w_check] have "node_run K demo_modules 1 (?start\<lparr>nd_monitor := (node_monitor_new 1)\<lparr>nm_sleep := 1\<rparr>,
      nd_mutex := None, nd_workers := [W_wait], nd_timer := T_wakeup\<rparr>)" by (simp add: start)
  then show ?thesis by (intro exI conjI, assumption) (simp_all add: start)
qed

theorem timer_wakes_sleeper_witness:
  "\<exists>n n'. node_run tape_kernel demo_modules 1 n \<and> nd_workers n = [W_wait] \<and> thread_timer_step demo_modules n n' \<and> nd_workers n' = [W_woken]"
proof -
  from demo_asleep obtain n where n: "node_run tape_kernel demo_modules 1 n" "nd_timer n = T_wakeup" "nd_workers n = [W_wait]"
    "nm_count (nd_monitor n) = 1" "nm_sleep (nd_monitor n) = 1" by blast
  have "wake_step (nm_count (nd_monitor n) - 1) n (set_worker 0 W_woken n)"
    using n signal_one [of 0 n] by (simp add: wake_step_def wakeup_def)
  from t_wakeup [OF n(2) this, of demo_modules] obtain n' where n': "thread_timer_step demo_modules n n'" by blast
  with timer_wakes_sleeper [OF n(1,2) _ n'] n(3) have "nd_workers n' = [W_woken]" by auto
  with n n' show ?thesis by blast
qed

text \<open>A service with a timeout of three centiseconds.\<close>

definition demo_timer :: timer where
  "demo_timer = timer_add \<lparr>ev_handle = 0x1000001, ev_session = 4\<rparr> 3 timer_create_timer"

lemma demo_timer_due:
  "timer_wf demo_timer \<and> tm_current_point demo_timer = 0 \<and> tm_time demo_timer = 0 \<and>
   concat (map (\<lambda>k. due demo_timer (of_nat k)) [1..<4]) =
     [\<lparr>node_expire = 3, node_event = \<lparr>ev_handle = 0x1000001, ev_session = 4\<rparr>\<rparr>]"
proof -
  have T: "timer_wf demo_timer" "schedule_of demo_timer = spec_add \<lparr>ev_handle = 0x1000001, ev_session = 4\<rparr> 3 (schedule_of timer_create_timer)"
    using timer_add_refines [OF create_wf(1), of 3 "\<lparr>ev_handle = 0x1000001, ev_session = 4\<rparr>"] by (simp_all add: demo_timer_def)
  have c: "tm_time timer_create_timer = 0" by (simp add: timer_create_timer_def)
  have d: "tm_time demo_timer = 0" "due demo_timer = (\<lambda>e. [])(3 := [\<lparr>node_expire = 3, node_event = \<lparr>ev_handle = 0x1000001, ev_session = 4\<rparr>\<rparr>])"
    using T(2) by (auto simp: schedule_of_def spec_add_def Let_def c create_wf(2) fun_eq_iff)
  have "tm_current_point demo_timer = 0" by (simp add: demo_timer_def timer_add_def add_node_put Let_def timer_create_timer_def)
  moreover have "[1..<4] = [1, 2, 3 :: nat]" by (simp add: upt_rec)
  ultimately show ?thesis using T(1) d by simp
qed

lemma demo_service:
  "\<exists>s x. life_reach demo_modules (s, (\<lambda>_. 0)(0 := 1), {0}) \<and> sv_ctxs s 0 = Some x \<and> sv_timer s = demo_timer \<and>
     handle_lookup (hof s) (sv_handles s) (cx_handle x) = Some 0 \<and> cx_handle x = 0x1000001 \<and> mq_msgs (sv_mq s) (cx_queue x) = Some []"
proof -
  let ?n = "server_init () 1 False demo_timer"
  have start: "life_reach demo_modules (?n, \<lambda>_. 0, {})" by (rule life_reach.start)
  have inv: "server_inv (\<lambda>_. 0) {} ?n" using life_reach_inv [OF demo_quiet start] by (simp add: life_inv_def)
  have room: "card (registered_ctxs ?n) < 2 ^ 24" by (simp add: registered_ctxs_def init_contexts)
  from context_alloc_inv [OF inv room, of "''a''"] obtain s x where
    s: "context_alloc ''a'' ?n = Some (0, 0, s)" "sv_ctxs s 0 = Some x"
      "handle_lookup (hof s) (sv_handles s) (cx_handle x) = Some 0" by auto
  from life_reach.step [OF start life_step.new [OF room s(1)]] have
    r: "life_reach demo_modules (s, (\<lambda>_. 0)(0 := 1), {0})" by simp
  have "map_option fst (skynet_handle_register f (0 :: nat) (skynet_handle_init 1)) = Some 0x1000001" for f by code_simp
  then have reg: "skynet_handle_register f (0 :: nat) (skynet_handle_init 1) = Some (h, hs) \<Longrightarrow> h = 0x1000001" for f h hs
    by (metis fst_conv option.inject option.simps(9))
  have "sv_timer s = demo_timer \<and> cx_handle x = 0x1000001 \<and> mq_msgs (sv_mq s) (cx_queue x) = Some []"
    using s(1,2) mq_create_wf by (auto simp: context_alloc_def Let_def upd_ctx_def context_inc_def server_init_def skynet_profile_enable_def
        skynet_harbor_init_def skynet_globalinit_def skynet_initthread_def mq_msgs_def put_mq_def split: bind_splits dest!: reg)
  with r s show ?thesis by blast
qed

theorem timeouts_reach_services_witness:
  "\<exists>s x T mq. life_reach demo_modules (s, (\<lambda>_. 0)(0 := 1), {0}) \<and> sv_ctxs s 0 = Some x \<and>
     server_updatetime demo_modules 3 s = Some (s\<lparr>sv_timer := T, sv_mq := mq\<rparr>) \<and> mq_msgs mq (cx_queue x) = Some [timeout_message 4]"
proof -
  from demo_service obtain s x where s: "life_reach demo_modules (s, (\<lambda>_. 0)(0 := 1), {0})" "sv_ctxs s 0 = Some x" "sv_timer s = demo_timer"
    "handle_lookup (hof s) (sv_handles s) (cx_handle x) = Some 0" "cx_handle x = 0x1000001" "mq_msgs (sv_mq s) (cx_queue x) = Some []" by blast
  from timeouts_reach_services [OF demo_quiet s(1), of 3] demo_timer_due s(3) obtain T mq where
    "server_updatetime demo_modules 3 s = Some (s\<lparr>sv_timer := T, sv_mq := mq\<rparr>)"
    "\<forall>c x old. sv_ctxs s c = Some x \<longrightarrow> handle_lookup (hof s) (sv_handles s) (cx_handle x) = Some c \<longrightarrow>
       mq_msgs (sv_mq s) (cx_queue x) = Some old \<longrightarrow>
       mq_msgs mq (cx_queue x) = Some (old @ map (\<lambda>n. timeout_message (ev_session (node_event n)))
         (filter (\<lambda>n. ev_handle (node_event n) = cx_handle x) (concat (map (\<lambda>k. due demo_timer (of_nat k)) [1..<4]))))"
    by auto
  with demo_timer_due s show ?thesis by (intro exI [of _ s] exI [of _ x] exI [of _ T] exI [of _ mq]) auto
qed

end
