(* ===== verification/Cluster.thy ===== *)
theory Cluster
  imports Netpack
begin

unbundle bit_operations_syntax

section \<open>Messages between the nodes of a cluster (\<open>lua-cluster.c\<close>)\<close>

text \<open>
  The packages that one node sends to another, and the service \<open>clusterd\<close> that receives them. A message
  of 32K or more travels as a head, which has its size, and parts of at most 32K each.

  The values that a C function takes from the Lua stack are arguments and the values it pushes are its
  result; a block of memory is the list of its bytes, \<open>None\<close> for \<open>NULL\<close>, and reading past its end is
  undefined. Next to the result stands whether the block was freed.
\<close>

subsection \<open>Packing\<close>

definition TEMP_LENGTH :: nat where "TEMP_LENGTH = 0x8200"
definition MULTI_PART :: nat where "MULTI_PART = 0x8000"

definition fill_uint32 :: "u32 \<Rightarrow> bytes" where
  "fill_uint32 n = [ucast (n AND 0xff), ucast (drop_bit 8 n AND 0xff), ucast (drop_bit 16 n AND 0xff), ucast (drop_bit 24 n AND 0xff)]"

definition fill_header :: "nat \<Rightarrow> bytes option" where
  "fill_header sz = do { assert_opt (sz < 0x10000); Some [of_nat (drop_bit 8 sz AND 0xff), of_nat (sz AND 0xff)] }"

text \<open>\<open>memcpy\<close> of the first bytes of a block.\<close>

definition block_read :: "bytes \<Rightarrow> nat \<Rightarrow> bytes option" where
  "block_read p n = (if n \<le> length p then Some (take n p) else None)"

text \<open>A package is built in a buffer of \<open>TEMP_LENGTH\<close> bytes.\<close>

definition temp_buf :: "bytes list \<Rightarrow> bytes option" where
  "temp_buf pieces = (let bs = concat pieces in if length bs \<le> TEMP_LENGTH then Some bs else None)"

definition part_count :: "nat \<Rightarrow> nat" where
  "part_count sz = (sz - 1) div MULTI_PART + 1"

text \<open>The address of a service, as it stands on the Lua stack and as a package has it.\<close>

datatype addr_arg = Arg_number int | Arg_string bytes | Arg_other

datatype cluster_addr = Addr_id u32 | Addr_name bytes

text \<open>The results of \<open>packreq_number\<close> and \<open>packreq_string\<close>: the first package, and the number of parts
  that follow it.\<close>

definition packreq_number :: "u32 \<Rightarrow> u32 \<Rightarrow> bytes \<Rightarrow> nat \<Rightarrow> bool \<Rightarrow> (bytes \<times> nat) option" where
  "packreq_number addr session msg sz is_push =
     (if sz < MULTI_PART
      then do { h \<leftarrow> fill_header (sz + 9); m \<leftarrow> block_read msg sz;
                buf \<leftarrow> temp_buf [h, [0], fill_uint32 addr, fill_uint32 (if is_push then 0 else session), m];
                Some (buf, 0) }
      else do { h \<leftarrow> fill_header 13;
                buf \<leftarrow> temp_buf [h, [if is_push then 0x41 else 1], fill_uint32 addr, fill_uint32 session, fill_uint32 (of_nat sz)];
                Some (buf, part_count sz) })"

definition packreq_string :: "bytes \<Rightarrow> u32 \<Rightarrow> bytes \<Rightarrow> nat \<Rightarrow> bool \<Rightarrow> (bytes \<times> nat) option" where
  "packreq_string name session msg sz is_push =
     (let namelen = length name in
      if sz < MULTI_PART
      then do { h \<leftarrow> fill_header (sz + 6 + namelen); m \<leftarrow> block_read msg sz;
                buf \<leftarrow> temp_buf [h, [0x80], [of_nat namelen], name, fill_uint32 (if is_push then 0 else session), m];
                Some (buf, 0) }
      else do { h \<leftarrow> fill_header (10 + namelen);
                buf \<leftarrow> temp_buf [h, [if is_push then 0xc1 else 0x81], [of_nat namelen], name, fill_uint32 session,
                                 fill_uint32 (of_nat sz)];
                Some (buf, part_count sz) })"

primrec packreq_multi :: "nat \<Rightarrow> u32 \<Rightarrow> bytes \<Rightarrow> nat \<Rightarrow> bytes list option" where
  "packreq_multi 0 session ptr sz = Some []"
| "packreq_multi (Suc n) session ptr sz =
     (let s = (if sz > MULTI_PART then MULTI_PART else sz); tag = (if sz > MULTI_PART then 2 else 3) in
      do { h \<leftarrow> fill_header (s + 5); m \<leftarrow> block_read ptr s;
           buf \<leftarrow> temp_buf [h, [tag], fill_uint32 session, m];
           rest \<leftarrow> packreq_multi n session (drop s ptr) (sz - s);
           Some (buf # rest) })"

text \<open>\<open>packrequest\<close> for \<open>lpackrequest\<close> and \<open>lpackpush\<close>: the package, the next session, and the parts if
  there are any.\<close>

record packed_request =
  pk_request :: bytes
  pk_session :: u32
  pk_parts :: "bytes list option"

definition next_session :: "u32 \<Rightarrow> u32" where
  "next_session session = (if sint (session + 1) < 0 then 1 else session + 1)"

definition packrequest ::
  "bool \<Rightarrow> addr_arg \<Rightarrow> int \<Rightarrow> bytes option \<Rightarrow> int \<Rightarrow> (packed_request lua_result \<times> bool) option" where
  "packrequest is_push addr session_arg msg_arg sz_arg =
     (case msg_arg of None \<Rightarrow> Some (LuaError ''Invalid request message'', False)
      | Some msg \<Rightarrow>
        (let sz = unat (word_of_int sz_arg :: u32); session = word_of_int session_arg :: u32;
             finish = (\<lambda>(buf, multipak).
               if multipak \<noteq> 0
               then do { parts \<leftarrow> packreq_multi (part_count sz) session msg sz;
                         Some (LuaOk \<lparr>pk_request = buf, pk_session = next_session session, pk_parts = Some parts\<rparr>, True) }
               else Some (LuaOk \<lparr>pk_request = buf, pk_session = next_session session, pk_parts = None\<rparr>, True))
         in if sint session \<le> 0 then Some (LuaError ''Invalid request session'', True)
            else (case addr of
                    Arg_number n \<Rightarrow> Option.bind (packreq_number (word_of_int n) session msg sz is_push) finish
                  | Arg_string name \<Rightarrow>
                      if length name < 1 \<or> length name > 255 then Some (LuaError ''name is too long'', True)
                      else Option.bind (packreq_string name session msg sz is_push) finish
                  | Arg_other \<Rightarrow> Some (LuaError ''name is too long'', True))))"

subsection \<open>Unpacking\<close>

definition unpack_uint32 :: "bytes \<Rightarrow> nat \<Rightarrow> u32 option" where
  "unpack_uint32 buf i =
     do { a \<leftarrow> array_get buf i; b \<leftarrow> array_get buf (i + 1); c \<leftarrow> array_get buf (i + 2); d \<leftarrow> array_get buf (i + 3);
          Some (ucast a OR push_bit 8 (ucast b) OR push_bit 16 (ucast c) OR push_bit 24 (ucast d)) }"

text \<open>What \<open>lunpackrequest\<close> pushes: address, session and message, with the mark of a push; address, session,
  size and the marks of a head; or session, message and padding of a part.\<close>

datatype unpacked =
    Unpack_request cluster_addr u32 bytes bool
  | Unpack_multi cluster_addr u32 u32 bool
  | Unpack_part u32 bytes bool

definition unpackreq_number :: "bytes \<Rightarrow> unpacked lua_result option" where
  "unpackreq_number buf =
     (if length buf < 9 then Some (LuaError ''Invalid cluster message'')
      else do { address \<leftarrow> unpack_uint32 buf 1; session \<leftarrow> unpack_uint32 buf 5;
                Some (LuaOk (Unpack_request (Addr_id address) session (drop 9 buf) (session = 0))) })"

definition unpackmreq_number :: "bytes \<Rightarrow> bool \<Rightarrow> unpacked lua_result option" where
  "unpackmreq_number buf is_push =
     (if length buf \<noteq> 13 then Some (LuaError ''Invalid cluster message size'')
      else do { address \<leftarrow> unpack_uint32 buf 1; session \<leftarrow> unpack_uint32 buf 5; sz \<leftarrow> unpack_uint32 buf 9;
                Some (LuaOk (Unpack_multi (Addr_id address) session sz is_push)) })"

definition unpackmreq_part :: "bytes \<Rightarrow> unpacked lua_result option" where
  "unpackmreq_part buf =
     (if length buf < 5 then Some (LuaError ''Invalid cluster multi part message'')
      else do { t \<leftarrow> array_get buf 0; session \<leftarrow> unpack_uint32 buf 1;
                Some (LuaOk (Unpack_part session (drop 5 buf) (t = 2))) })"

definition unpackreq_string :: "bytes \<Rightarrow> unpacked lua_result option" where
  "unpackreq_string buf =
     (if length buf < 2 then Some (LuaError ''Invalid cluster message'')
      else do { b \<leftarrow> array_get buf 1;
                let namesz = unat b;
                (if length buf < namesz + 6 then Some (LuaError ''Invalid cluster message'')
                 else do { session \<leftarrow> unpack_uint32 buf (namesz + 2);
                           Some (LuaOk (Unpack_request (Addr_name (take namesz (drop 2 buf))) session
                                          (drop (2 + namesz + 4) buf) (session = 0))) }) })"

definition unpackmreq_string :: "bytes \<Rightarrow> bool \<Rightarrow> unpacked lua_result option" where
  "unpackmreq_string buf is_push =
     (if length buf < 2 then Some (LuaError ''Invalid cluster message'')
      else do { b \<leftarrow> array_get buf 1;
                let namesz = unat b;
                (if length buf < namesz + 10 then Some (LuaError ''Invalid cluster message'')
                 else do { session \<leftarrow> unpack_uint32 buf (namesz + 2); sz \<leftarrow> unpack_uint32 buf (namesz + 6);
                           Some (LuaOk (Unpack_multi (Addr_name (take namesz (drop 2 buf))) session sz is_push)) }) })"

text \<open>A Lua string ends with a zero, which is what \<open>msg[0]\<close> reads when the string is empty.\<close>

definition lunpackrequest :: "bytes \<Rightarrow> unpacked lua_result option" where
  "lunpackrequest msg =
     (let t = (case msg of [] \<Rightarrow> 0 | b # _ \<Rightarrow> b) in
      if t = 0 then unpackreq_number msg
      else if t = 1 then unpackmreq_number msg False
      else if t = 0x41 then unpackmreq_number msg True
      else if t = 2 \<or> t = 3 then unpackmreq_part msg
      else if t = 0x80 then unpackreq_string msg
      else if t = 0x81 then unpackmreq_string msg False
      else if t = 0xc1 then unpackmreq_string msg True
      else Some (LuaError ''Invalid req package type''))"

subsection \<open>Responses\<close>

text \<open>The message of a response is a Lua string, or a block with its size; the result is one package or a
  table of packages.\<close>

datatype response_arg = Resp_string bytes | Resp_block bytes int

datatype packed_response = One_package bytes | Packages "bytes list"

primrec packresponse_parts :: "nat \<Rightarrow> u32 \<Rightarrow> bytes \<Rightarrow> nat \<Rightarrow> bytes list option" where
  "packresponse_parts 0 session ptr sz = Some []"
| "packresponse_parts (Suc n) session ptr sz =
     (let s = (if sz > MULTI_PART then MULTI_PART else sz); tag = (if sz > MULTI_PART then 3 else 4) in
      do { h \<leftarrow> fill_header (s + 5); m \<leftarrow> block_read ptr s;
           buf \<leftarrow> temp_buf [h, fill_uint32 session, [tag], m];
           rest \<leftarrow> packresponse_parts n session (drop s ptr) (sz - s);
           Some (buf # rest) })"

definition lpackresponse :: "int \<Rightarrow> bool \<Rightarrow> response_arg \<Rightarrow> packed_response option" where
  "lpackresponse session_arg ok arg =
     (let session = word_of_int session_arg :: u32;
          msg = (case arg of Resp_string s \<Rightarrow> s | Resp_block p n \<Rightarrow> p);
          sz = (case arg of Resp_string s \<Rightarrow> length s | Resp_block p n \<Rightarrow> unat (word_of_int n :: u64))
      in if ok \<and> sz > MULTI_PART
         then do { h \<leftarrow> fill_header 9;
                   buf \<leftarrow> temp_buf [h, fill_uint32 session, [2], fill_uint32 (of_nat sz)];
                   parts \<leftarrow> packresponse_parts (nat (sint (of_nat (part_count sz) :: u32))) session msg sz;
                   Some (Packages (buf # parts)) }
         else let sz = (if \<not> ok \<and> sz > MULTI_PART then MULTI_PART else sz) in
              do { h \<leftarrow> fill_header (sz + 5); m \<leftarrow> block_read msg sz;
                   buf \<leftarrow> temp_buf [h, fill_uint32 session, [if ok then 1 else 0], m];
                   Some (One_package buf) })"

text \<open>A Lua value of the tables that gather the parts of a message. \<open>lunpackresponse\<close> returns nothing for a
  package it does not understand, or the session, the success, a value and the padding.\<close>

datatype part_val = Part_int int | Part_str bytes

datatype unpacked_response = Resp_nothing | Resp_values u32 bool part_val bool

definition lunpackresponse :: "bytes \<Rightarrow> unpacked_response option" where
  "lunpackresponse buf =
     (if length buf < 5 then Some Resp_nothing
      else do { session \<leftarrow> unpack_uint32 buf 0; t \<leftarrow> array_get buf 4;
                (if t = 0 then Some (Resp_values session False (Part_str (drop 5 buf)) False)
                 else if t = 1 \<or> t = 4 then Some (Resp_values session True (Part_str (drop 5 buf)) False)
                 else if t = 2
                 then (if length buf \<noteq> 9 then Some Resp_nothing
                       else do { sz \<leftarrow> unpack_uint32 buf 5; Some (Resp_values session True (Part_int (uint sz)) True) })
                 else if t = 3 then Some (Resp_values session True (Part_str (drop 5 buf)) True)
                 else Some Resp_nothing) })"

subsection \<open>Joining the parts\<close>

text \<open>\<open>lconcat\<close> on the table of a size and strings: the block and its size, or nothing. The size is cut to
  an \<open>int\<close>, and an allocation of a negative size aborts the process.\<close>

primrec concat_loop :: "part_val list \<Rightarrow> nat \<Rightarrow> bytes \<Rightarrow> bytes option" where
  "concat_loop [] sz buff = (if length buff = sz then Some buff else None)"
| "concat_loop (v # vs) sz buff =
     (case v of Part_int _ \<Rightarrow> if length buff = sz then Some buff else None
      | Part_str str \<Rightarrow> if length str + length buff > sz then None else concat_loop vs sz (buff @ str))"

definition lconcat :: "part_val list \<Rightarrow> bytes option option" where
  "lconcat vals =
     (case vals of
        Part_int n # vs \<Rightarrow>
          (let sz = sint (word_of_int n :: u32) in
           do { assert_opt (0 \<le> sz); Some (concat_loop vs (nat sz) []) })
      | _ \<Rightarrow> Some None)"

subsection \<open>Receiving requests (\<open>clusterd\<close>)\<close>

text \<open>
  The sub-command \<open>data\<close> of \<open>command.socket\<close> in \<open>clusterd.lua\<close>, which the gate calls with every package
  of a connection. The table \<open>large_request\<close> gathers the parts of a message by session. The outcome is
  that the service waits for more, that it hands the message over, or that it answers with an error; an
  error of \<open>lunpackrequest\<close> ends the call and changes nothing.
\<close>

record large_request =
  lr_addr :: "cluster_addr option"
  lr_push :: bool
  lr_vals :: "part_val list"

type_synonym large_requests = "u32 \<Rightarrow> large_request option"

datatype cluster_event =
    Cl_wait u32
  | Cl_dispatch u32 "cluster_addr option" bytes bool
  | Cl_invalid u32
  | Cl_error string

definition gather :: "u32 \<Rightarrow> cluster_addr option \<Rightarrow> bool \<Rightarrow> part_val \<Rightarrow> large_requests \<Rightarrow> large_requests" where
  "gather session addr is_push v lr =
     (let req = (case lr session of Some req \<Rightarrow> req | None \<Rightarrow> \<lparr>lr_addr = addr, lr_push = is_push, lr_vals = []\<rparr>)
      in lr(session \<mapsto> req\<lparr>lr_vals := lr_vals req @ [v]\<rparr>))"

definition settle :: "u32 \<Rightarrow> cluster_addr option \<Rightarrow> bool \<Rightarrow> bytes \<Rightarrow> large_requests \<Rightarrow> (cluster_event \<times> large_requests) option" where
  "settle session addr is_push msg lr =
     (case lr session of
        None \<Rightarrow> Some (Cl_dispatch session addr msg is_push, lr)
      | Some req \<Rightarrow>
          do { r \<leftarrow> lconcat (lr_vals req @ [Part_str msg]);
               Some (case r of
                       None \<Rightarrow> (Cl_invalid session, lr(session := None))
                     | Some m \<Rightarrow> (Cl_dispatch session (lr_addr req) m (lr_push req), lr(session := None))) })"

definition socket_data :: "bytes \<Rightarrow> large_requests \<Rightarrow> (cluster_event \<times> large_requests) option" where
  "socket_data body lr =
     do { u \<leftarrow> lunpackrequest body;
          (case u of
             LuaError e \<Rightarrow> Some (Cl_error e, lr)
           | LuaOk (Unpack_request addr session msg is_push) \<Rightarrow> settle session (Some addr) is_push msg lr
           | LuaOk (Unpack_multi addr session sz is_push) \<Rightarrow>
               Some (Cl_wait session, gather session (Some addr) is_push (Part_int (uint sz)) lr)
           | LuaOk (Unpack_part session msg padding) \<Rightarrow>
               (if padding then Some (Cl_wait session, gather session None False (Part_str msg) lr)
                else settle session None False msg lr)) }"

primrec receive_all :: "bytes list \<Rightarrow> large_requests \<Rightarrow> (cluster_event list \<times> large_requests) option" where
  "receive_all [] lr = Some ([], lr)"
| "receive_all (body # bodies) lr =
     do { (ev, lr) \<leftarrow> socket_data body lr; (evs, lr) \<leftarrow> receive_all bodies lr; Some (ev # evs, lr) }"

subsection \<open>Receiving responses\<close>

text \<open>
  One turn of \<open>dispatch_by_session\<close> in \<open>socketchannel.lua\<close>: the sessions with a waiting coroutine, and the
  values gathered for them. The coroutine is woken with the success and with one value or a table. A
  package without a session closes the channel.
\<close>

record channel =
  ch_thread :: "u32 set"
  ch_data :: "u32 \<Rightarrow> part_val list option"

datatype result_data = Single part_val | Table "part_val list"

datatype channel_event = Ch_gather u32 | Ch_wake u32 bool result_data | Ch_unknown u32 | Ch_close

definition dispatch_response :: "bytes \<Rightarrow> channel \<Rightarrow> (channel_event \<times> channel) option" where
  "dispatch_response body ch =
     do { r \<leftarrow> lunpackresponse body;
          Some (case r of
             Resp_nothing \<Rightarrow> (Ch_close, ch)
           | Resp_values session ok v padding \<Rightarrow>
               if session \<notin> ch_thread ch then (Ch_unknown session, ch)
               else if padding \<and> ok
               then (Ch_gather session,
                     ch\<lparr>ch_data := (ch_data ch)(session \<mapsto> (case ch_data ch session of Some vs \<Rightarrow> vs | None \<Rightarrow> []) @ [v])\<rparr>)
               else (Ch_wake session ok (case ch_data ch session of
                                           Some vs \<Rightarrow> if ok then Table (vs @ [v]) else Single v
                                         | None \<Rightarrow> Single v),
                     ch\<lparr>ch_thread := ch_thread ch - {session}, ch_data := (ch_data ch)(session := None)\<rparr>)) }"

text \<open>\<open>command.req\<close>: the message of a response, from the table or the single value.\<close>

definition response_message :: "result_data \<Rightarrow> part_val option option" where
  "response_message d =
     (case d of Single v \<Rightarrow> Some (Some v) | Table vs \<Rightarrow> do { r \<leftarrow> lconcat vs; Some (map_option Part_str r) })"

subsection \<open>Packages and their fields\<close>

lemma length_fill_uint32 [simp]: "length (fill_uint32 n) = 4"
  by (simp add: fill_uint32_def)

lemma unpack_fill: "unpack_uint32 (a @ fill_uint32 n @ b) (length a) = Some n"
  by (simp add: unpack_uint32_def fill_uint32_def array_get_def nth_append byte_mask word_of_bytes)

lemma fill_header_frame:
  assumes "length body = sz" "sz < 0x10000" "fill_header sz = Some h"
  shows "h @ body = the (lpack body)"
  using assms by (simp add: fill_header_def lpack_def write_size_def)

lemma fill_header_ok: "sz < 0x10000 \<Longrightarrow> fill_header sz = Some [of_nat (drop_bit 8 sz AND 0xff), of_nat (sz AND 0xff)]"
  by (simp add: fill_header_def)

lemma block_read_prefix [simp]: "block_read (m @ r) (length m) = Some m"
  by (simp add: block_read_def)

text \<open>A package that is built with its own length in front is what \<open>lpack\<close> makes of its body.\<close>

lemma temp_frame:
  assumes "length (concat pieces) + 2 \<le> TEMP_LENGTH" "length (concat pieces) = sz"
  shows "do { h \<leftarrow> fill_header sz; buf \<leftarrow> temp_buf (h # pieces); f buf } = f (the (lpack (concat pieces)))"
  using assms by (simp add: fill_header_def temp_buf_def lpack_def write_size_def TEMP_LENGTH_def)

text \<open>The parts of a message, each with the mark that more follow.\<close>

function pieces :: "bytes \<Rightarrow> (bool \<times> bytes) list" where
  "pieces m = (if length m \<le> MULTI_PART then [(False, m)] else (True, take MULTI_PART m) # pieces (drop MULTI_PART m))"
  by pat_completeness auto
termination by (relation "measure length") (auto simp: MULTI_PART_def)

declare pieces.simps [simp del]

lemma pieces_last [simp]: "length m \<le> MULTI_PART \<Longrightarrow> pieces m = [(False, m)]"
  by (subst pieces.simps) simp

lemma pieces_more [simp]: "length m > MULTI_PART \<Longrightarrow> pieces m = (True, take MULTI_PART m) # pieces (drop MULTI_PART m)"
  by (subst pieces.simps) simp

lemma pieces_induct [case_names small large]:
  assumes "\<And>m :: bytes. length m \<le> MULTI_PART \<Longrightarrow> P m"
    "\<And>m. length m > MULTI_PART \<Longrightarrow> P (drop MULTI_PART m) \<Longrightarrow> P m"
  shows "P m"
  by (induction m rule: pieces.induct) (meson assms not_le)

lemma concat_pieces: "concat (map snd (pieces m)) = m"
  by (induction m rule: pieces_induct) auto

lemma pieces_small: "(b, p) \<in> set (pieces m) \<Longrightarrow> length p \<le> MULTI_PART"
  by (induction m rule: pieces_induct) auto

definition part_body :: "u8 \<Rightarrow> u8 \<Rightarrow> u32 \<Rightarrow> bool \<times> bytes \<Rightarrow> bytes" where
  "part_body mid fin session p = (if fst p then mid else fin) # fill_uint32 session @ snd p"

definition response_part :: "u32 \<Rightarrow> bool \<times> bytes \<Rightarrow> bytes" where
  "response_part session p = fill_uint32 session @ (if fst p then 3 else 4) # snd p"

lemma part_count_step: "n > MULTI_PART \<Longrightarrow> part_count n = Suc (part_count (n - MULTI_PART))"
proof -
  assume n: "n > MULTI_PART"
  then have "(n - 1) div MULTI_PART = ((n - MULTI_PART - 1) + MULTI_PART) div MULTI_PART" by simp
  also have "\<dots> = (n - MULTI_PART - 1) div MULTI_PART + 1" by (rule div_add_self2) (simp add: MULTI_PART_def)
  finally show ?thesis by (simp add: part_count_def)
qed

lemma part_count_last: "n \<le> MULTI_PART \<Longrightarrow> part_count n = 1"
  by (simp add: part_count_def MULTI_PART_def)

lemma drop_read: "length m > MULTI_PART \<Longrightarrow> block_read (m @ r) MULTI_PART = Some (take MULTI_PART m)"
  by (simp add: block_read_def)

text \<open>One part: the package is the frame of its body.\<close>

lemma packreq_multi_pieces:
  "m \<noteq> [] \<Longrightarrow> packreq_multi (part_count (length m)) session (m @ r) (length m) =
     Some (map (the \<circ> lpack \<circ> part_body 2 3 session) (pieces m))"
proof (induction m rule: pieces_induct)
  case (small m)
  from small(1) have "do { h \<leftarrow> fill_header (length m + 5); buf \<leftarrow> temp_buf (h # [[3], fill_uint32 session, m]); Some [buf] } =
      Some [the (lpack (concat [[3], fill_uint32 session, m]))]"
    by (intro temp_frame) (simp_all add: TEMP_LENGTH_def MULTI_PART_def)
  with small(1) show ?case by (simp add: part_count_last part_body_def bind_eq_Some_conv)
next
  case (large m)
  let ?t = "take MULTI_PART m"
  from large have d: "drop MULTI_PART m \<noteq> []" "length ?t = MULTI_PART" by simp_all
  have "do { h \<leftarrow> fill_header (MULTI_PART + 5); buf \<leftarrow> temp_buf (h # [[2], fill_uint32 session, ?t]); Some buf } =
      Some (the (lpack (concat [[2], fill_uint32 session, ?t])))"
    using d by (intro temp_frame) (simp_all add: TEMP_LENGTH_def MULTI_PART_def)
  with large.IH [OF d(1)] large(1) show ?case
    by (simp add: part_count_step drop_read part_body_def bind_eq_Some_conv)
qed

lemma packresponse_parts_pieces:
  "m \<noteq> [] \<Longrightarrow> packresponse_parts (part_count (length m)) session (m @ r) (length m) =
     Some (map (the \<circ> lpack \<circ> response_part session) (pieces m))"
proof (induction m rule: pieces_induct)
  case (small m)
  from small(1) have "do { h \<leftarrow> fill_header (length m + 5); buf \<leftarrow> temp_buf (h # [fill_uint32 session, [4], m]); Some [buf] } =
      Some [the (lpack (concat [fill_uint32 session, [4], m]))]"
    by (intro temp_frame) (simp_all add: TEMP_LENGTH_def MULTI_PART_def)
  with small(1) show ?case by (simp add: part_count_last response_part_def bind_eq_Some_conv)
next
  case (large m)
  let ?t = "take MULTI_PART m"
  from large have d: "drop MULTI_PART m \<noteq> []" "length ?t = MULTI_PART" by simp_all
  have "do { h \<leftarrow> fill_header (MULTI_PART + 5); buf \<leftarrow> temp_buf (h # [fill_uint32 session, [3], ?t]); Some buf } =
      Some (the (lpack (concat [fill_uint32 session, [3], ?t])))"
    using d by (intro temp_frame) (simp_all add: TEMP_LENGTH_def MULTI_PART_def)
  with large.IH [OF d(1)] large(1) show ?case
    by (simp add: part_count_step drop_read response_part_def bind_eq_Some_conv)
qed

text \<open>The first package of a request, and the bodies of all its packages.\<close>

fun head_body :: "bool \<Rightarrow> cluster_addr \<Rightarrow> u32 \<Rightarrow> bytes \<Rightarrow> bytes" where
  "head_body is_push (Addr_id a) session m =
     (if length m < MULTI_PART then 0 # fill_uint32 a @ fill_uint32 (if is_push then 0 else session) @ m
      else (if is_push then 0x41 else 1) # fill_uint32 a @ fill_uint32 session @ fill_uint32 (of_nat (length m)))"
| "head_body is_push (Addr_name name) session m =
     (if length m < MULTI_PART
      then 0x80 # of_nat (length name) # name @ fill_uint32 (if is_push then 0 else session) @ m
      else (if is_push then 0xc1 else 0x81) # of_nat (length name) # name @ fill_uint32 session @ fill_uint32 (of_nat (length m)))"

definition request_bodies :: "bool \<Rightarrow> cluster_addr \<Rightarrow> u32 \<Rightarrow> bytes \<Rightarrow> bytes list" where
  "request_bodies is_push addr session m =
     head_body is_push addr session m # (if length m < MULTI_PART then [] else map (part_body 2 3 session) (pieces m))"

fun addr_of :: "addr_arg \<Rightarrow> cluster_addr option" where
  "addr_of (Arg_number n) = Some (Addr_id (word_of_int n))"
| "addr_of (Arg_string name) = (if length name < 1 \<or> length name > 255 then None else Some (Addr_name name))"
| "addr_of Arg_other = None"

lemma packreq_number_body:
  "packreq_number a session (m @ r) (length m) p =
     Some (the (lpack (head_body p (Addr_id a) session m)), if length m < MULTI_PART then 0 else part_count (length m))"
proof (cases "length m < MULTI_PART")
  case True
  then have "do { h \<leftarrow> fill_header (length m + 9);
      buf \<leftarrow> temp_buf (h # [[0], fill_uint32 a, fill_uint32 (if p then 0 else session), m]); Some (buf, 0 :: nat) } =
    Some (the (lpack (concat [[0], fill_uint32 a, fill_uint32 (if p then 0 else session), m])), 0)"
    by (intro temp_frame) (simp_all add: TEMP_LENGTH_def MULTI_PART_def)
  with True show ?thesis by (simp add: packreq_number_def bind_eq_Some_conv)
next
  case False
  have "do { h \<leftarrow> fill_header 13; buf \<leftarrow> temp_buf (h # [[if p then 0x41 else 1], fill_uint32 a, fill_uint32 session,
        fill_uint32 (of_nat (length m))]); Some (buf, part_count (length m)) } =
    Some (the (lpack (concat [[if p then 0x41 else 1], fill_uint32 a, fill_uint32 session, fill_uint32 (of_nat (length m))])),
      part_count (length m))"
    by (intro temp_frame) (simp_all add: TEMP_LENGTH_def)
  with False show ?thesis by (simp add: packreq_number_def bind_eq_Some_conv)
qed

lemma packreq_string_body:
  assumes "length name \<le> 255"
  shows "packreq_string name session (m @ r) (length m) p =
     Some (the (lpack (head_body p (Addr_name name) session m)), if length m < MULTI_PART then 0 else part_count (length m))"
proof (cases "length m < MULTI_PART")
  case True
  with assms have "do { h \<leftarrow> fill_header (length m + 6 + length name);
      buf \<leftarrow> temp_buf (h # [[0x80], [of_nat (length name)], name, fill_uint32 (if p then 0 else session), m]); Some (buf, 0 :: nat) } =
    Some (the (lpack (concat [[0x80], [of_nat (length name)], name, fill_uint32 (if p then 0 else session), m])), 0)"
    by (intro temp_frame) (simp_all add: TEMP_LENGTH_def MULTI_PART_def)
  with True show ?thesis by (simp add: packreq_string_def Let_def bind_eq_Some_conv)
next
  case False
  from assms have "do { h \<leftarrow> fill_header (10 + length name);
      buf \<leftarrow> temp_buf (h # [[if p then 0xc1 else 0x81], [of_nat (length name)], name, fill_uint32 session,
        fill_uint32 (of_nat (length m))]); Some (buf, part_count (length m)) } =
    Some (the (lpack (concat [[if p then 0xc1 else 0x81], [of_nat (length name)], name, fill_uint32 session, fill_uint32 (of_nat (length m))])),
      part_count (length m))"
    by (intro temp_frame) (simp_all add: TEMP_LENGTH_def)
  with False show ?thesis by (simp add: packreq_string_def Let_def bind_eq_Some_conv)
qed

text \<open>What \<open>packrequest\<close> makes of a good request: the frames of its bodies, and the block freed.\<close>

lemma packrequest_bodies:
  fixes session :: u32
  assumes "addr_of arg = Some addr" "0 < sint session" "length m < 2 ^ 32"
  shows "packrequest p arg (sint session) (Some (m @ r)) (int (length m)) = Some (LuaOk
     \<lparr>pk_request = the (lpack (head_body p addr session m)), pk_session = next_session session,
      pk_parts = (if length m < MULTI_PART then None else Some (map (the \<circ> lpack \<circ> part_body 2 3 session) (pieces m)))\<rparr>, True)"
proof -
  have sz: "unat (word_of_int (int (length m)) :: u32) = length m"
    using assms(3) by (simp add: unsigned_of_nat take_bit_nat_eq_self_iff)
  have s: "word_of_int (sint session) = session" "\<not> sint session \<le> 0" using assms(2) by simp_all
  have m: "m \<noteq> []" if "\<not> length m < MULTI_PART" using that by (auto simp: MULTI_PART_def)
  have pc: "part_count (length m) \<noteq> 0" by (simp add: part_count_def)
  show ?thesis
  proof (cases arg)
    case (Arg_number n)
    with assms(1) have a: "addr = Addr_id (word_of_int n)" by simp
    show ?thesis unfolding packrequest_def Arg_number sz s a
      using s(2) m pc by (cases "length m < MULTI_PART") (simp_all add: sz packreq_number_body packreq_multi_pieces del: head_body.simps of_int_of_nat_eq)
  next
    case (Arg_string name)
    with assms(1) have a: "addr = Addr_name name" "\<not> (length name < 1 \<or> length name > 255)" by (simp_all split: if_splits)
    then show ?thesis unfolding packrequest_def Arg_string sz s a
      using s(2) m pc by (cases "length m < MULTI_PART") (simp_all add: sz packreq_string_body packreq_multi_pieces del: head_body.simps of_int_of_nat_eq)
  next
    case Arg_other
    with assms(1) show ?thesis by simp
  qed
qed

subsection \<open>What the receiver makes of the bodies\<close>

definition wire_session :: "bool \<Rightarrow> u32 \<Rightarrow> bytes \<Rightarrow> u32" where
  "wire_session is_push session m = (if is_push \<and> length m < MULTI_PART then 0 else session)"

fun valid_addr :: "cluster_addr \<Rightarrow> bool" where
  "valid_addr (Addr_id a) = True"
| "valid_addr (Addr_name name) = (0 < length name \<and> length name \<le> 255)"

lemma unpack_at:
  "buf = a @ fill_uint32 n @ b \<Longrightarrow> i = length a \<Longrightarrow> unpack_uint32 buf i = Some n"
  by (simp add: unpack_fill)

lemma unpack_packed_head:
  assumes "valid_addr addr" "session \<noteq> 0"
  shows "lunpackrequest (head_body p addr session m) = Some (LuaOk
    (if length m < MULTI_PART then Unpack_request addr (wire_session p session m) m p
     else Unpack_multi addr session (of_nat (length m)) p))"
proof (cases addr)
  case (Addr_id a)
  have u: "unpack_uint32 (t # fill_uint32 a @ fill_uint32 x @ y) (Suc 0) = Some a"
    "unpack_uint32 (t # fill_uint32 a @ fill_uint32 x @ y) 5 = Some x" for t x y
    using unpack_at [of "t # fill_uint32 a @ fill_uint32 x @ y" "[t]"] unpack_at [of "t # fill_uint32 a @ fill_uint32 x @ y" "t # fill_uint32 a"]
    by simp_all
  have u9: "unpack_uint32 (t # fill_uint32 a @ fill_uint32 x @ fill_uint32 y) 9 = Some y" for t x y
    by (rule unpack_at [of _ "t # fill_uint32 a @ fill_uint32 x" _ "[]"]) simp_all
  show ?thesis using assms(2)
    by (simp add: Addr_id lunpackrequest_def unpackreq_number_def unpackmreq_number_def wire_session_def u u9)
next
  case (Addr_name name)
  then have n: "unat (of_nat (length name) :: u8) = length name" using assms(1) by (simp add: unsigned_of_nat take_bit_nat_eq_self_iff)
  have u: "unpack_uint32 (t # l # name @ fill_uint32 x @ y) (Suc (Suc (length name))) = Some x" for t l x y
    by (rule unpack_at [of _ "t # l # name" _ y]) simp_all
  have u6: "unpack_uint32 (t # l # name @ fill_uint32 x @ fill_uint32 y) (length name + 6) = Some y" for t l x y
    by (rule unpack_at [of _ "t # l # name @ fill_uint32 x" _ "[]"]) simp_all
  have d: "drop (6 + length name) (t # l # name @ fill_uint32 x @ m) = m" for t l x
    by (simp add: eval_nat_numeral)
  show ?thesis using assms(2)
    by (simp add: Addr_name d lunpackrequest_def unpackreq_string_def unpackmreq_string_def wire_session_def u u6 n Let_def)
qed

lemma unpack_part: "lunpackrequest (part_body 2 3 session p) = Some (LuaOk (Unpack_part session (snd p) (fst p)))"
proof -
  have u: "unpack_uint32 (t # fill_uint32 session @ y) (Suc 0) = Some session" for t y
    by (rule unpack_at [of _ "[t]" _ y]) simp_all
  show ?thesis by (simp add: lunpackrequest_def unpackmreq_part_def part_body_def u)
qed

text \<open>Reading never leaves the package.\<close>

lemma unpack_in_range: "i + 4 \<le> length buf \<Longrightarrow> \<exists>n. unpack_uint32 buf i = Some n"
  by (simp add: unpack_uint32_def array_get_def)

lemma lunpackrequest_total: "\<exists>u. lunpackrequest body = Some u"
proof -
  have 1: "\<exists>u. unpackreq_number body = Some u"
    using unpack_in_range [of 1 body] unpack_in_range [of 5 body] by (fastforce simp: unpackreq_number_def)
  have 2: "\<exists>u. unpackmreq_number body p = Some u" for p
    using unpack_in_range [of 1 body] unpack_in_range [of 5 body] unpack_in_range [of 9 body] by (fastforce simp: unpackmreq_number_def)
  have 3: "\<exists>u. unpackmreq_part body = Some u"
    using unpack_in_range [of 1 body] by (fastforce simp: unpackmreq_part_def array_get_def)
  have 4: "\<exists>u. unpackreq_string body = Some u"
    using unpack_in_range [of "unat (body ! 1) + 2" body] by (auto simp: unpackreq_string_def array_get_def Let_def)
  have 5: "\<exists>u. unpackmreq_string body p = Some u" for p
    using unpack_in_range [of "unat (body ! 1) + 2" body] unpack_in_range [of "unat (body ! 1) + 6" body]
    by (auto simp: unpackmreq_string_def array_get_def Let_def)
  show ?thesis using 1 2 3 4 5 by (simp add: lunpackrequest_def Let_def)
qed

subsection \<open>Requests cross the link\<close>

fun unpacked_session :: "unpacked \<Rightarrow> u32" where
  "unpacked_session (Unpack_request a s m p) = s"
| "unpacked_session (Unpack_multi a s n p) = s"
| "unpacked_session (Unpack_part s m p) = s"

definition body_session :: "bytes \<Rightarrow> u32 option" where
  "body_session body = (case lunpackrequest body of Some (LuaOk u) \<Rightarrow> Some (unpacked_session u) | _ \<Rightarrow> None)"

fun event_session :: "cluster_event \<Rightarrow> u32 option" where
  "event_session (Cl_wait s) = Some s"
| "event_session (Cl_dispatch s a m p) = Some s"
| "event_session (Cl_invalid s) = Some s"
| "event_session (Cl_error e) = None"

text \<open>A head announces a size that does not fit an \<open>int\<close>.\<close>

definition oversized :: "bytes \<Rightarrow> bool" where
  "oversized body = (case lunpackrequest body of Some (LuaOk (Unpack_multi a s sz p)) \<Rightarrow> sint sz < 0 | _ \<Rightarrow> False)"

text \<open>The gathered tables start with such a size or with a string, so joining them cannot abort.\<close>

definition vals_ok :: "part_val list \<Rightarrow> bool" where
  "vals_ok vs = (case vs of Part_int n # _ \<Rightarrow> 0 \<le> sint (word_of_int n :: u32) | Part_str _ # _ \<Rightarrow> True | [] \<Rightarrow> False)"

definition large_ok :: "large_requests \<Rightarrow> bool" where
  "large_ok lr = (\<forall>s req. lr s = Some req \<longrightarrow> vals_ok (lr_vals req))"

lemma lconcat_ok: "vals_ok vs \<Longrightarrow> \<exists>r. lconcat (vs @ ws) = Some r"
  by (auto simp: vals_ok_def lconcat_def split: list.splits part_val.splits)

lemma vals_ok_append: "vals_ok vs \<Longrightarrow> vals_ok (vs @ ws)"
  by (auto simp: vals_ok_def split: list.splits part_val.splits)

lemma settle_ok:
  assumes "large_ok lr"
  shows "\<exists>ev lr'. settle s a p m lr = Some (ev, lr') \<and> large_ok lr' \<and> event_session ev = Some s \<and> (\<forall>s'. s' \<noteq> s \<longrightarrow> lr' s' = lr s')"
proof (cases "lr s")
  case None
  with assms show ?thesis by (auto simp: settle_def)
next
  case (Some req)
  with assms lconcat_ok [of "lr_vals req" "[Part_str m]"] show ?thesis
    by (force simp: settle_def large_ok_def split: option.splits)
qed

lemma gather_ok:
  "large_ok lr \<Longrightarrow> vals_ok [v] \<Longrightarrow> large_ok (gather s a p v lr)"
  by (auto simp: large_ok_def gather_def Let_def split: option.splits if_splits intro: vals_ok_append)

lemma socket_data_ok:
  assumes "large_ok lr" "\<not> oversized body"
  shows "\<exists>ev lr'. socket_data body lr = Some (ev, lr') \<and> large_ok lr' \<and> event_session ev = body_session body \<and>
    (\<forall>s. body_session body \<noteq> Some s \<longrightarrow> lr' s = lr s)"
proof -
  from lunpackrequest_total obtain r where r: "lunpackrequest body = Some r" by blast
  show ?thesis
  proof (cases r)
    case (LuaError e)
    with r assms(1) show ?thesis by (simp add: socket_data_def body_session_def)
  next
    case (LuaOk u)
    show ?thesis
    proof (cases u)
      case (Unpack_request a s m p)
      with r LuaOk settle_ok [OF assms(1), of s "Some a" p m] show ?thesis by (auto simp: socket_data_def body_session_def)
    next
      case (Unpack_multi a s sz p)
      with r LuaOk assms(2) have "vals_ok [Part_int (uint sz)]" by (simp add: oversized_def vals_ok_def)
      with r LuaOk Unpack_multi gather_ok [OF assms(1)] show ?thesis by (simp add: socket_data_def body_session_def gather_def Let_def)
    next
      case (Unpack_part s m pad)
      have "vals_ok [Part_str m]" by (simp add: vals_ok_def)
      with r LuaOk Unpack_part settle_ok [OF assms(1), of s None False m] gather_ok [OF assms(1)] show ?thesis
        by (auto simp: socket_data_def body_session_def gather_def Let_def)
    qed
  qed
qed

text \<open>What happens to a session depends only on its own packages and its own entry.\<close>

lemma settle_local:
  assumes "lr0 s = lr s" "settle s a p m lr = Some (ev, lr')"
  shows "\<exists>lr0'. settle s a p m lr0 = Some (ev, lr0') \<and> lr0' s = lr' s"
proof (cases "lr s")
  case None
  with assms show ?thesis by (auto simp: settle_def)
next
  case (Some req)
  with assms(2) obtain r where "lconcat (lr_vals req @ [Part_str m]) = Some r" by (auto simp: settle_def bind_eq_Some_conv)
  with Some assms show ?thesis by (cases r) (auto simp: settle_def)
qed

lemma socket_data_local:
  assumes "body_session body = Some s" "lr0 s = lr s" "socket_data body lr = Some (ev, lr')"
  shows "\<exists>lr0'. socket_data body lr0 = Some (ev, lr0') \<and> lr0' s = lr' s"
proof -
  from assms(1) obtain u where u: "lunpackrequest body = Some (LuaOk u)" "unpacked_session u = s"
    by (auto simp: body_session_def split: option.splits lua_result.splits)
  with assms(2,3) settle_local [of lr0 s lr, OF assms(2)] show ?thesis
    by (cases u) (auto simp: socket_data_def gather_def Let_def split: if_splits)
qed

lemma receive_all_ok:
  assumes "large_ok lr" "\<forall>b \<in> set bodies. \<not> oversized b"
  shows "\<exists>evs lr'. receive_all bodies lr = Some (evs, lr') \<and> large_ok lr'"
  using assms
proof (induction bodies arbitrary: lr)
  case (Cons b bs)
  from socket_data_ok [of lr b] Cons.prems obtain ev lr1 where 1: "socket_data b lr = Some (ev, lr1)" "large_ok lr1" by auto
  with Cons.IH [of lr1] Cons.prems show ?case by auto
qed simp

lemma receive_project:
  assumes "large_ok lr" "\<forall>b \<in> set bodies. \<not> oversized b" "receive_all bodies lr = Some (evs, lr')" "lr0 s = lr s"
  shows "\<exists>lr0'. receive_all (filter (\<lambda>b. body_session b = Some s) bodies) lr0 =
      Some (filter (\<lambda>ev. event_session ev = Some s) evs, lr0') \<and> lr0' s = lr' s"
  using assms
proof (induction bodies arbitrary: lr lr0 evs)
  case (Cons b bs)
  from socket_data_ok [of lr b] Cons.prems(1,2) obtain ev lr1 where 1: "socket_data b lr = Some (ev, lr1)" "large_ok lr1"
    "event_session ev = body_session b" "\<forall>s. body_session b \<noteq> Some s \<longrightarrow> lr1 s = lr s" by auto
  with Cons.prems(3) obtain evs1 where 2: "receive_all bs lr1 = Some (evs1, lr')" "evs = ev # evs1"
    by (auto simp: bind_eq_Some_conv)
  show ?case
  proof (cases "body_session b = Some s")
    case True
    from socket_data_local [of b s lr0 lr, OF True Cons.prems(4) 1(1)] obtain lr01 where l: "socket_data b lr0 = Some (ev, lr01)" "lr01 s = lr1 s" by blast
    with Cons.IH [OF 1(2) _ 2(1), of lr01] l(2) Cons.prems(2) 2(2) True 1(3) show ?thesis by auto
  next
    case False
    then have "lr0 s = lr1 s" using 1(4) Cons.prems(4) by simp
    with Cons.IH [OF 1(2) _ 2(1), of lr0] Cons.prems(2) 2(2) False 1(3) show ?thesis by simp
  qed
qed simp

text \<open>The packages of one request, alone: the service waits for each but the last, and then hands over the
  message.\<close>

lemma concat_loop_strings:
  "length (buff @ concat ws) = sz \<Longrightarrow> concat_loop (map Part_str ws) sz buff = Some (buff @ concat ws)"
  by (induction ws arbitrary: buff) auto

lemma receive_parts:
  assumes "lr s = Some req" "lconcat (lr_vals req @ map (Part_str \<circ> snd) (pieces m)) = Some (Some r)"
  shows "\<exists>evs lr'. receive_all (map (part_body 2 3 s) (pieces m)) lr = Some (evs, lr') \<and> lr' s = None \<and>
    filter (\<lambda>ev. ev \<noteq> Cl_wait s) evs = [Cl_dispatch s (lr_addr req) r (lr_push req)]"
  using assms
proof (induction m arbitrary: lr req rule: pieces_induct)
  case (small m)
  then show ?case by (simp add: socket_data_def unpack_part settle_def)
next
  case (large m)
  let ?req = "req\<lparr>lr_vals := lr_vals req @ [Part_str (take MULTI_PART m)]\<rparr>"
  let ?lr = "lr(s \<mapsto> ?req)"
  have "socket_data (part_body 2 3 s (True, take MULTI_PART m)) lr = Some (Cl_wait s, ?lr)"
    using large.prems(1) by (simp add: socket_data_def unpack_part gather_def)
  moreover from large.IH [of ?lr ?req] large.prems large(1) obtain evs lr' where
    "receive_all (map (part_body 2 3 s) (pieces (drop MULTI_PART m))) ?lr = Some (evs, lr')" "lr' s = None"
    "filter (\<lambda>ev. ev \<noteq> Cl_wait s) evs = [Cl_dispatch s (lr_addr req) r (lr_push req)]"
    by (auto simp del: fun_upd_apply) (auto simp: comp_def)
  ultimately show ?case using large(1) by (simp del: fun_upd_apply)
qed

lemma receive_request:
  assumes "valid_addr addr" "session \<noteq> 0" "length m < 2 ^ 31" "lr (wire_session p session m) = None"
  shows "\<exists>evs lr'. receive_all (request_bodies p addr session m) lr = Some (evs, lr') \<and> lr' (wire_session p session m) = None \<and>
    filter (\<lambda>ev. ev \<noteq> Cl_wait (wire_session p session m)) evs = [Cl_dispatch (wire_session p session m) (Some addr) m p]"
proof (cases "length m < MULTI_PART")
  case True
  with assms show ?thesis
    by (simp add: request_bodies_def socket_data_def unpack_packed_head settle_def del: head_body.simps)
next
  case False
  then have ws: "wire_session p session m = session" by (simp add: wire_session_def)
  let ?n = "of_nat (length m) :: u32"
  let ?req = "\<lparr>lr_addr = Some addr, lr_push = p, lr_vals = [Part_int (uint ?n)]\<rparr>"
  have n: "sint ?n = int (length m)" using assms(3) by (simp add: signed_of_nat signed_take_bit_int_eq_self)
  have "lconcat (Part_int (uint ?n) # map (Part_str \<circ> snd) (pieces m)) = Some (Some m)"
    using concat_loop_strings [of "[]" "map snd (pieces m)" "length m"] by (simp add: lconcat_def n concat_pieces comp_def)
  then have c: "lconcat (lr_vals ?req @ map (Part_str \<circ> snd) (pieces m)) = Some (Some m)" by simp
  have "socket_data (head_body p addr session m) lr = Some (Cl_wait session, lr(session \<mapsto> ?req))"
    using False assms ws by (simp add: socket_data_def unpack_packed_head gather_def del: head_body.simps)
  moreover from receive_parts [of "lr(session \<mapsto> ?req)" session ?req, OF _ c] obtain evs lr' where
    "receive_all (map (part_body 2 3 session) (pieces m)) (lr(session \<mapsto> ?req)) = Some (evs, lr')" "lr' session = None"
    "filter (\<lambda>ev. ev \<noteq> Cl_wait session) evs = [Cl_dispatch session (Some addr) m p]" by auto
  ultimately show ?thesis using False ws by (simp add: request_bodies_def del: head_body.simps fun_upd_apply)
qed

lemma valid_addr_of: "addr_of arg = Some addr \<Longrightarrow> valid_addr addr"
  by (cases arg) (auto split: if_splits)

lemma length_head: "valid_addr addr \<Longrightarrow> length (head_body p addr session m) < 2 ^ 16"
  by (cases addr) (auto simp: MULTI_PART_def)

lemma length_part: "bp \<in> set (pieces m) \<Longrightarrow> length (part_body a b session bp) < 2 ^ 16"
  using pieces_small [of "fst bp" "snd bp" m] by (simp add: part_body_def MULTI_PART_def)

lemma body_session_own:
  assumes "valid_addr addr" "session \<noteq> 0" "b \<in> set (request_bodies p addr session m)"
  shows "body_session b = Some (wire_session p session m)" "length m < 2 ^ 31 \<Longrightarrow> \<not> oversized b" "length b < 2 ^ 16"
  using assms length_head [of addr p session m] length_part [of _ m 2 3 session]
  by (auto simp: request_bodies_def body_session_def oversized_def unpack_packed_head unpack_part wire_session_def
        signed_of_nat signed_take_bit_int_eq_self simp del: head_body.simps split: if_splits)

lemma lpack_small: "length b = n \<Longrightarrow> n < 2 ^ 16 \<Longrightarrow> lpack b = Some (write_size n @ b)"
  by (auto simp: lpack_def)

lemma lpack_drop: "lpack b = Some f \<Longrightarrow> drop 2 f = b \<and> length b < 2 ^ 16 \<and> the (lpack b) = f"
  by (auto simp: lpack_def write_size_def split: if_splits)

lemma frames_parse:
  assumes "\<forall>f \<in> set frames. \<exists>b. lpack b = Some f"
  shows "parse_packs (concat frames) = (map (drop 2) frames, [])"
proof -
  have "concat (map (the \<circ> lpack) (map (drop 2) frames)) = concat frames"
    using assms by (induction frames) (auto dest: lpack_drop)
  moreover have "\<forall>b \<in> set (map (drop 2) frames). length b < 2 ^ 16" using assms by (auto dest!: lpack_drop)
  ultimately show ?thesis using parse_packed [of "map (drop 2) frames"] by simp
qed

definition packed_frames :: "packed_request \<Rightarrow> bytes list" where
  "packed_frames pk = pk_request pk # (case pk_parts pk of None \<Rightarrow> [] | Some ps \<Rightarrow> ps)"

lemma packed_frames_bodies:
  fixes session :: u32
  assumes "addr_of arg = Some addr" "0 < sint session" "length m < 2 ^ 32"
    "packrequest p arg (sint session) (Some (m @ r)) (int (length m)) = Some (LuaOk pk, freed)"
  shows "map (drop 2) (packed_frames pk) = request_bodies p addr session m" "freed"
proof -
  have va: "valid_addr addr" "session \<noteq> 0" using assms(1,2) valid_addr_of by auto
  have l: "drop 2 (the (lpack b)) = b" if "b \<in> set (request_bodies p addr session m)" for b
    using body_session_own(3) [OF va that] by (simp add: lpack_def write_size_def)
  from packrequest_bodies [OF assms(1,2,3), of p r] assms(4)
  have "packed_frames pk = map (the \<circ> lpack) (request_bodies p addr session m)" and f: freed
    by (auto simp: packed_frames_def request_bodies_def)
  with l show "map (drop 2) (packed_frames pk) = request_bodies p addr session m" by (simp add: map_idI)
  show freed by (rule f)
qed

text \<open>C16. Requests between nodes: when \<open>packrequest\<close> has packed a message of less than 2 GB for a numbered or named
  service, as a request or a push, and its packages travel in their order over a connection that cuts the stream
  anywhere and carries packages of other sessions between them, \<open>clusterd\<close> hands exactly that message, once, to
  that service, with the mark of a push, and gives no other answer in its session; the sender's block is freed.\<close>

theorem cluster_request_delivered:
  fixes session :: u32 and m :: bytes and p :: bool
  defines "ws \<equiv> wire_session p session m"
  assumes "addr_of arg = Some addr" "0 < sint session" "length m < 2 ^ 31"
    and "packrequest p arg (sint session) (Some (m @ r)) (int (length m)) = Some (LuaOk pk, freed)"
    and "\<forall>ev \<in> set evs. snd ev \<noteq> []" "stream_of evs fd = concat frames"
    and "\<forall>f \<in> set frames. (\<exists>b. lpack b = Some f) \<and> \<not> oversized (drop 2 f)"
    and "filter (\<lambda>f. body_session (drop 2 f) = Some ws) frames = packed_frames pk"
  shows "freed \<and> (\<exists>u out cl lr. fold_opt deliver_event evs (None, []) = Some (u, out) \<and>
    filter (\<lambda>np. np_id np = fd) out = map (mk_pack fd) (map (drop 2) frames) \<and>
    receive_all (map (drop 2) frames) (\<lambda>_. None) = Some (cl, lr) \<and>
    filter (\<lambda>ev. event_session ev = Some ws \<and> ev \<noteq> Cl_wait ws) cl = [Cl_dispatch ws (Some addr) m p])"
proof -
  have va: "valid_addr addr" "session \<noteq> 0" using assms(2,3) valid_addr_of by auto
  have l32: "length m < 2 ^ 32" using assms(4) by simp
  note own = packed_frames_bodies [OF assms(2,3) l32 assms(5)]
  let ?bodies = "map (drop 2) frames"
  from deliver_events_result [OF assms(6)] obtain u out where net: "fold_opt deliver_event evs (None, []) = Some (u, out)"
    "filter (\<lambda>np. np_id np = fd) out = map (mk_pack fd) ?bodies"
    using frames_parse [of frames] assms(7,8) by fastforce
  have ok: "large_ok (\<lambda>_. None)" "\<forall>b \<in> set ?bodies. \<not> oversized b" using assms(8) by (simp_all add: large_ok_def)
  from receive_all_ok [OF ok] obtain cl lr where rec: "receive_all ?bodies (\<lambda>_. None) = Some (cl, lr)" by blast
  have "filter (\<lambda>b. body_session b = Some ws) ?bodies = request_bodies p addr session m"
    using own(1) assms(9) by (simp add: filter_map comp_def)
  with receive_project [OF ok rec, of "\<lambda>_. None" ws] obtain lr0 where
    proj: "receive_all (request_bodies p addr session m) (\<lambda>_. None) = Some (filter (\<lambda>ev. event_session ev = Some ws) cl, lr0)" by auto
  from receive_request [OF va assms(4), of "\<lambda>_. None" p] proj
  have "filter (\<lambda>ev. ev \<noteq> Cl_wait ws) (filter (\<lambda>ev. event_session ev = Some ws) cl) = [Cl_dispatch ws (Some addr) m p]"
    by (simp add: ws_def)
  then have "filter (\<lambda>ev. event_session ev = Some ws \<and> ev \<noteq> Cl_wait ws) cl = [Cl_dispatch ws (Some addr) m p]"
    by (simp add: conj_commute)
  with net rec own(2) show ?thesis by blast
qed

theorem cluster_request_delivered_witness:
  "\<exists>pk u out cl lr. packrequest False (Arg_number 9) 3 (Some [7, 8]) 2 = Some (LuaOk pk, True) \<and>
     fold_opt deliver_event [(4, take 5 (pk_request pk)), (4, drop 5 (pk_request pk) @ [0]), (4, [1, 0x55])] (None, []) = Some (u, out) \<and>
     receive_all [drop 2 (pk_request pk), [0x55]] (\<lambda>_. None) = Some (cl, lr) \<and>
     filter (\<lambda>ev. event_session ev = Some 3 \<and> ev \<noteq> Cl_wait 3) cl = [Cl_dispatch 3 (Some (Addr_id 9)) [7, 8] False]"
proof -
  let ?b = "head_body False (Addr_id 9) 3 [7, 8]" let ?f = "the (lpack ?b)"
  let ?pk = "\<lparr>pk_request = ?f, pk_session = 4, pk_parts = None\<rparr>"
  let ?evs = "[(4, take 5 ?f), (4, drop 5 ?f @ [0]), (4, [1, 0x55])] :: (int \<times> bytes) list"
  let ?fr = "[?f, [0, 1, 0x55]]"
  have b: "?b = [0, 9, 0, 0, 0, 3, 0, 0, 0, 7, 8]" by (simp add: MULTI_PART_def fill_uint32_def)
  have "length ?b = 11" "write_size 11 = [0, 11]" unfolding b by (simp_all add: write_size_def)
  then have p: "lpack ?b = Some ([0, 11] @ ?b)" by (simp add: lpack_def del: head_body.simps)
  from p have f: "?f = [0, 11, 0, 9, 0, 0, 0, 3, 0, 0, 0, 7, 8]" unfolding b by simp
  have ws: "wire_session False 3 [7, 8] = 3" by (simp add: wire_session_def)
  have pk: "packrequest False (Arg_number 9) (sint (3 :: u32)) (Some ([7, 8] @ [])) (int (length [7 :: u8, 8])) = Some (LuaOk ?pk, True)"
    using packrequest_bodies [of "Arg_number 9" "Addr_id 9" 3 "[7, 8]" False "[]"]
    by (simp add: next_session_def MULTI_PART_def del: head_body.simps)
  have lp: "lpack (drop 2 ?f) = Some ?f" "lpack [0x55] = Some [0, 1, 0x55]"
    using p f b by (simp_all add: lpack_def write_size_def)
  have u: "lunpackrequest (drop 2 ?f) = Some (LuaOk (Unpack_request (Addr_id 9) 3 [7, 8] False))"
    unfolding f by (simp add: lunpackrequest_def unpackreq_number_def unpack_uint32_def array_get_def)
  have x: "lunpackrequest [0x55] = Some (LuaError ''Invalid req package type'')" by (simp add: lunpackrequest_def)
  have own: "filter (\<lambda>f. body_session (drop 2 f) = Some (wire_session False 3 [7, 8])) ?fr = packed_frames ?pk"
    using u x by (simp add: ws body_session_def packed_frames_def del: head_body.simps)
  have ok: "\<forall>f \<in> set ?fr. (\<exists>b. lpack b = Some f) \<and> \<not> oversized (drop 2 f)"
    using lp u x by (auto simp: oversized_def simp del: head_body.simps)
  have st: "\<forall>ev \<in> set ?evs. snd ev \<noteq> []" "stream_of ?evs 4 = concat ?fr"
    unfolding f by (simp_all add: stream_of_def)
  from cluster_request_delivered [of "Arg_number 9" "Addr_id 9" 3 "[7, 8]" False "[]" ?pk True ?evs 4 ?fr, OF _ _ _ pk st ok own]
  obtain u out cl lr where "fold_opt deliver_event ?evs (None, []) = Some (u, out)"
    "receive_all (map (drop 2) ?fr) (\<lambda>_. None) = Some (cl, lr)"
    "filter (\<lambda>ev. event_session ev = Some 3 \<and> ev \<noteq> Cl_wait 3) cl = [Cl_dispatch 3 (Some (Addr_id 9)) [7, 8] False]"
    by (auto simp: ws simp del: head_body.simps fold_opt.simps receive_all.simps)
  moreover have "packrequest False (Arg_number 9) 3 (Some [7, 8]) 2 = Some (LuaOk ?pk, True)" using pk by (simp del: head_body.simps)
  ultimately show ?thesis
    by (intro exI [of _ ?pk] exI [of _ u] exI [of _ out] exI [of _ cl] exI [of _ lr])
       (simp del: head_body.simps fold_opt.simps receive_all.simps)
qed

text \<open>A head may announce a size that is negative as an \<open>int\<close>: when the last part arrives, \<open>lconcat\<close> asks for a
  block of that size, and the allocation aborts the process.\<close>

lemma oversized_request_aborts:
  assumes "2 ^ 31 \<le> n" "n < 2 ^ 32" "lr s = None"
  shows "receive_all [1 # fill_uint32 a @ fill_uint32 s @ fill_uint32 (of_nat n), part_body 2 3 s (False, m)] lr = None"
proof -
  let ?b = "1 # fill_uint32 a @ fill_uint32 s @ fill_uint32 (of_nat n)" let ?n = "of_nat n :: u32"
  have u: "unpack_uint32 ?b (Suc 0) = Some a" by (rule unpack_at [of _ "[1]" _ "fill_uint32 s @ fill_uint32 ?n"]) simp_all
  have u5: "unpack_uint32 ?b 5 = Some s" by (rule unpack_at [of _ "1 # fill_uint32 a" _ "fill_uint32 ?n"]) simp_all
  have u9: "unpack_uint32 ?b 9 = Some ?n" by (rule unpack_at [of _ "1 # fill_uint32 a @ fill_uint32 s" _ "[]"]) simp_all
  have "lunpackrequest ?b = Some (LuaOk (Unpack_multi (Addr_id a) s ?n False))"
    by (simp add: lunpackrequest_def unpackmreq_number_def u u5 u9)
  moreover have "sint ?n < 0"
  proof -
    have "int n + 2 ^ 31 = (int n - 2 ^ 31) + 2 ^ 32" by simp
    then have "(int n + 2 ^ 31) mod 2 ^ 32 = (int n - 2 ^ 31) mod 2 ^ 32" by (simp only: mod_add_self2)
    also have "\<dots> = int n - 2 ^ 31" using assms(1,2) by (intro mod_pos_pos_trivial) simp_all
    finally show ?thesis using assms(2) by (simp add: signed_of_nat signed_take_bit_eq_take_bit_shift take_bit_eq_mod)
  qed
  ultimately show ?thesis using assms
    by (simp add: socket_data_def unpack_part settle_def gather_def lconcat_def)
qed

end
