(* ===== verification/Lua_Buffer.thy ===== *)
theory Lua_Buffer
  imports C_Strings "HOL-Library.Multiset"
begin

unbundle bit_operations_syntax

section \<open>Socket buffers of Lua services (\<open>lua-socket.c\<close>)\<close>

text \<open>
  The buffer that a Lua service keeps for a socket: the blocks that the socket layer delivered, in a
  linked list with an offset into the first, and the pool that the nodes of all its buffers come from.
  Further the parsing of addresses and the blocks that are made for sending.

  A node is an address, the chunk of the pool and the index there; a list of the buffer carries each node
  with its block and its size. The first field of the pool is the free list, the others the sizes of its
  chunks; freed blocks are logged. An argument is \<open>None\<close> when the value on the Lua stack is not a
  userdata or not a table.
\<close>

subsection \<open>State\<close>

definition LARGE_PAGE_NODE :: nat where "LARGE_PAGE_NODE = 12"

type_synonym pool_addr = "nat \<times> nat"

record buffer_node =
  bn_addr :: pool_addr
  bn_msg :: bytes
  bn_sz :: int

record socket_buffer =
  sb_size :: int
  sb_offset :: int
  sb_nodes :: "buffer_node list"

record buffer_pool =
  pl_free :: "pool_addr list"
  pl_chunks :: "nat list"
  pl_freed :: "bytes list"

type_synonym buffer_state = "socket_buffer \<times> buffer_pool"

definition lnewbuffer :: socket_buffer where
  "lnewbuffer = \<lparr>sb_size = 0, sb_offset = 0, sb_nodes = []\<rparr>"

definition new_pool :: buffer_pool where
  "new_pool = \<lparr>pl_free = [], pl_chunks = [], pl_freed = []\<rparr>"

text \<open>An \<open>int\<close> that overflows is undefined. Bytes are read inside their block, and a negative length is not
  a length.\<close>

definition int_sum :: "int \<Rightarrow> int \<Rightarrow> int option" where
  "int_sum a b = (if - (2 ^ 31) \<le> a + b \<and> a + b < 2 ^ 31 then Some (a + b) else None)"

definition sub_read :: "bytes \<Rightarrow> int \<Rightarrow> int \<Rightarrow> bytes option" where
  "sub_read m off len =
     (if 0 \<le> off \<and> 0 \<le> len \<and> off + len \<le> int (length m) then Some (take (nat len) (drop (nat off) m)) else None)"

text \<open>\<open>memcmp\<close> of two ranges is \<open>0\<close>.\<close>

definition memcmp_eq :: "bytes \<Rightarrow> int \<Rightarrow> bytes \<Rightarrow> int \<Rightarrow> bool option" where
  "memcmp_eq m off sep n = do { a \<leftarrow> sub_read m off n; b \<leftarrow> sub_read sep 0 n; Some (a = b) }"

subsection \<open>Pushing and popping\<close>

text \<open>\<open>lnewpool\<close> links the nodes of a new chunk; the table has one field more than chunks, once it has any.\<close>

definition lnewpool :: "nat \<Rightarrow> nat \<Rightarrow> pool_addr list" where
  "lnewpool chunk sz = map (Pair chunk) [0..<sz]"

definition chunk_size :: "nat \<Rightarrow> nat" where
  "chunk_size tsz = (if tsz \<le> LARGE_PAGE_NODE - 3 then push_bit tsz 8 else push_bit (LARGE_PAGE_NODE - 3) 8)"

definition get_free_node :: "buffer_pool \<Rightarrow> (pool_addr \<times> buffer_pool) option" where
  "get_free_node pl =
     (case pl_free pl of
        a # free \<Rightarrow> Some (a, pl\<lparr>pl_free := free\<rparr>)
      | [] \<Rightarrow>
          (let tsz = length (pl_chunks pl) + 1; sz = chunk_size tsz
           in (case lnewpool (length (pl_chunks pl)) sz of
                 a # free \<Rightarrow> Some (a, pl\<lparr>pl_free := free, pl_chunks := pl_chunks pl @ [sz]\<rparr>)
               | [] \<Rightarrow> None)))"

definition lpushbuffer ::
  "socket_buffer option \<Rightarrow> buffer_pool option \<Rightarrow> bytes option \<Rightarrow> int \<Rightarrow> (int \<times> buffer_state) lua_result option" where
  "lpushbuffer sb_arg pool_arg msg_arg sz =
     (case (sb_arg, msg_arg, pool_arg) of
        (None, _) \<Rightarrow> Some (LuaError ''need buffer object at param 1'')
      | (Some _, None, _) \<Rightarrow> Some (LuaError ''need message block at param 3'')
      | (Some _, Some _, None) \<Rightarrow> Some (LuaError ''table expected'')
      | (Some sb, Some msg, Some pl) \<Rightarrow>
          do { (a, pl) \<leftarrow> get_free_node pl;
               sum \<leftarrow> int_sum (sb_size sb) sz;
               Some (LuaOk (sum, sb\<lparr>sb_size := sum, sb_nodes := sb_nodes sb @ [\<lparr>bn_addr = a, bn_msg = msg, bn_sz = sz\<rparr>]\<rparr>, pl)) })"

text \<open>\<open>return_free_node\<close>: the first node goes back to the pool and its block is freed.\<close>

definition return_free_node :: "buffer_state \<Rightarrow> buffer_state option" where
  "return_free_node = (\<lambda>(sb, pl).
     (case sb_nodes sb of
        [] \<Rightarrow> None
      | n # ns \<Rightarrow> Some (sb\<lparr>sb_offset := 0, sb_nodes := ns\<rparr>,
                       pl\<lparr>pl_free := bn_addr n # pl_free pl, pl_freed := pl_freed pl @ [bn_msg n]\<rparr>)))"

text \<open>The loop of \<open>pop_lstring\<close> over the nodes.\<close>

function pop_loop :: "int \<Rightarrow> int \<Rightarrow> bytes \<Rightarrow> buffer_state \<Rightarrow> (bytes \<times> buffer_state) option" where
  "pop_loop sz skip b st =
     (case sb_nodes (fst st) of
        [] \<Rightarrow> None
      | current # _ \<Rightarrow>
          (let bytes = bn_sz current - sb_offset (fst st) in
           if bytes \<ge> sz
           then do { add \<leftarrow> (if sz > skip then sub_read (bn_msg current) (sb_offset (fst st)) (sz - skip) else Some []);
                     let st1 = ((fst st)\<lparr>sb_offset := sb_offset (fst st) + sz\<rparr>, snd st);
                     st2 \<leftarrow> (if bytes = sz then return_free_node st1 else Some st1);
                     Some (b @ add, st2) }
           else do { let real_sz = sz - skip;
                     add \<leftarrow> (if real_sz > 0
                            then sub_read (bn_msg current) (sb_offset (fst st)) (if real_sz < bytes then real_sz else bytes)
                            else Some []);
                     (case return_free_node st of
                        None \<Rightarrow> None
                      | Some st1 \<Rightarrow> if sz - bytes = 0 then Some (b @ add, st1) else pop_loop (sz - bytes) skip (b @ add) st1) }))"
  by pat_completeness auto
termination
  by (relation "measure (\<lambda>(sz, skip, b, st). length (sb_nodes (fst st)))")
     (auto simp: return_free_node_def split: prod.splits list.splits)

declare pop_loop.simps [simp del]

definition pop_lstring :: "int \<Rightarrow> int \<Rightarrow> buffer_state \<Rightarrow> (bytes \<times> buffer_state) option" where
  "pop_lstring sz skip st =
     (case sb_nodes (fst st) of
        [] \<Rightarrow> None
      | current # _ \<Rightarrow>
          (let avail = bn_sz current - sb_offset (fst st) in
           if sz < avail
           then do { str \<leftarrow> sub_read (bn_msg current) (sb_offset (fst st)) (sz - skip);
                     Some (str, (fst st)\<lparr>sb_offset := sb_offset (fst st) + sz\<rparr>, snd st) }
           else if sz = avail
           then do { str \<leftarrow> sub_read (bn_msg current) (sb_offset (fst st)) (sz - skip);
                     st1 \<leftarrow> return_free_node st; Some (str, st1) }
           else pop_loop sz skip [] st))"

text \<open>The userdata and the table that most functions need.\<close>

definition with_buffer ::
  "socket_buffer option \<Rightarrow> buffer_pool option \<Rightarrow> (buffer_state \<Rightarrow> 'a option) \<Rightarrow> 'a lua_result option" where
  "with_buffer sb_arg pool_arg f =
     (case (sb_arg, pool_arg) of
        (None, _) \<Rightarrow> Some (LuaError ''Need buffer object at param 1'')
      | (Some _, None) \<Rightarrow> Some (LuaError ''table expected'')
      | (Some sb, Some pl) \<Rightarrow> do { r \<leftarrow> f (sb, pl); Some (LuaOk r) })"

text \<open>\<open>lpopbuffer\<close>: the string, or nil, and the size that is left.\<close>

definition popbuffer :: "int \<Rightarrow> buffer_state \<Rightarrow> (bytes option \<times> int \<times> buffer_state) option" where
  "popbuffer sz st =
     (if sb_size (fst st) < sz \<or> sz = 0 then Some (None, sb_size (fst st), st)
      else do { (str, sb, pl) \<leftarrow> pop_lstring sz 0 st;
                let left = sb_size sb - sz;
                Some (Some str, left, sb\<lparr>sb_size := left\<rparr>, pl) })"

definition lpopbuffer ::
  "socket_buffer option \<Rightarrow> buffer_pool option \<Rightarrow> int \<Rightarrow> (bytes option \<times> int \<times> buffer_state) lua_result option" where
  "lpopbuffer sb pl sz = with_buffer sb pl (popbuffer sz)"

function clear_loop :: "buffer_state \<Rightarrow> buffer_state option" where
  "clear_loop st =
     (if sb_nodes (fst st) = [] then Some st
      else case return_free_node st of None \<Rightarrow> None | Some st1 \<Rightarrow> clear_loop st1)"
  by pat_completeness auto
termination
  by (relation "measure (\<lambda>st. length (sb_nodes (fst st)))") (auto simp: return_free_node_def split: prod.splits list.splits)

declare clear_loop.simps [simp del]

definition clearbuffer :: "buffer_state \<Rightarrow> buffer_state option" where
  "clearbuffer st = do { (sb, pl) \<leftarrow> clear_loop st; Some (sb\<lparr>sb_size := 0\<rparr>, pl) }"

definition lclearbuffer :: "socket_buffer option \<Rightarrow> buffer_pool option \<Rightarrow> buffer_state lua_result option" where
  "lclearbuffer sb pl = with_buffer sb pl clearbuffer"

function readall_loop :: "bytes \<Rightarrow> buffer_state \<Rightarrow> (bytes \<times> buffer_state) option" where
  "readall_loop b st =
     (case sb_nodes (fst st) of
        [] \<Rightarrow> Some (b, st)
      | current # _ \<Rightarrow>
          do { add \<leftarrow> sub_read (bn_msg current) (sb_offset (fst st)) (bn_sz current - sb_offset (fst st));
               (case return_free_node st of None \<Rightarrow> None | Some st1 \<Rightarrow> readall_loop (b @ add) st1) })"
  by pat_completeness auto
termination
  by (relation "measure (\<lambda>(b, st). length (sb_nodes (fst st)))") (auto simp: return_free_node_def split: prod.splits list.splits)

declare readall_loop.simps [simp del]

definition readall :: "buffer_state \<Rightarrow> (bytes \<times> buffer_state) option" where
  "readall st = do { (str, sb, pl) \<leftarrow> readall_loop [] st; Some (str, sb\<lparr>sb_size := 0\<rparr>, pl) }"

definition lreadall :: "socket_buffer option \<Rightarrow> buffer_pool option \<Rightarrow> (bytes \<times> buffer_state) lua_result option" where
  "lreadall sb pl = with_buffer sb pl readall"

subsection \<open>Reading lines\<close>

text \<open>\<open>check_sep\<close>: the separator stands at this place, over as many nodes as it takes.\<close>

fun check_sep :: "buffer_node list \<Rightarrow> int \<Rightarrow> bytes \<Rightarrow> bool option" where
  "check_sep [] from sep = None"
| "check_sep (node # rest) from sep =
     (let sz = bn_sz node - from; seplen = int (length sep) in
      if sz \<ge> seplen then memcmp_eq (bn_msg node) from sep seplen
      else do { same \<leftarrow> (if sz > 0 then memcmp_eq (bn_msg node) from sep sz else Some True);
                (if \<not> same then Some False
                 else do { assert_opt (sz \<ge> 0); check_sep rest 0 (drop (nat sz) sep) }) })"

text \<open>The loop of \<open>lreadline\<close>, with the number of turns that are left: the index where the separator
  stands.\<close>

primrec readline_scan :: "nat \<Rightarrow> buffer_node list \<Rightarrow> int \<Rightarrow> int \<Rightarrow> nat \<Rightarrow> bytes \<Rightarrow> nat option option" where
  "readline_scan 0 current from bytes i sep = Some None"
| "readline_scan (Suc turns) current from bytes i sep =
     do { hit \<leftarrow> check_sep current from sep;
          (if hit then Some (Some i)
           else if bytes - 1 = 0
           then (case tl current of
                   [] \<Rightarrow> Some None
                 | n # ns \<Rightarrow> readline_scan turns (n # ns) 0 (bn_sz n) (i + 1) sep)
           else readline_scan turns current (from + 1) (bytes - 1) (i + 1) sep) }"

datatype line_result = No_line | Line_found | Line bytes

text \<open>\<open>lreadline\<close>: without a table it only checks.\<close>

definition readline :: "bool \<Rightarrow> bytes \<Rightarrow> buffer_state \<Rightarrow> (line_result \<times> buffer_state) option" where
  "readline check sep st =
     (case sb_nodes (fst st) of
        [] \<Rightarrow> Some (No_line, st)
      | current # _ \<Rightarrow>
          (let from = sb_offset (fst st); seplen = int (length sep) in
           do { hit \<leftarrow> readline_scan (nat (sb_size (fst st) - seplen + 1)) (sb_nodes (fst st)) from (bn_sz current - from) 0 sep;
                (case hit of
                   None \<Rightarrow> Some (No_line, st)
                 | Some i \<Rightarrow>
                     if check then Some (Line_found, st)
                     else do { (str, sb, pl) \<leftarrow> pop_lstring (int i + seplen) seplen st;
                               Some (Line str, sb\<lparr>sb_size := sb_size sb - (int i + seplen)\<rparr>, pl) }) }))"

definition lreadline ::
  "socket_buffer option \<Rightarrow> buffer_pool option \<Rightarrow> bytes \<Rightarrow> (line_result \<times> socket_buffer \<times> buffer_pool option) lua_result option" where
  "lreadline sb_arg pool_arg sep =
     (case sb_arg of
        None \<Rightarrow> Some (LuaError ''Need buffer object at param 1'')
      | Some sb \<Rightarrow>
          (case pool_arg of
             None \<Rightarrow> do { (r, sb, _) \<leftarrow> readline True sep (sb, new_pool); Some (LuaOk (r, sb, None)) }
           | Some pl \<Rightarrow> do { (r, sb, pl) \<leftarrow> readline False sep (sb, pl); Some (LuaOk (r, sb, Some pl)) }))"

subsection \<open>Headers, blocks and addresses\<close>

text \<open>\<open>lheader\<close>: a big-endian number of one to four bytes.\<close>

definition lheader :: "bytes \<Rightarrow> nat lua_result" where
  "lheader s =
     (if length s > 4 \<or> length s < 1 then LuaError ''Invalid read''
      else LuaOk (fold (\<lambda>b sz. push_bit 8 sz OR unat b) s 0))"

text \<open>\<open>lfreepool\<close> frees what the nodes of a chunk still hold, and \<open>ldrop\<close> one block.\<close>

definition lfreepool :: "buffer_node list \<Rightarrow> nat \<Rightarrow> buffer_pool \<Rightarrow> buffer_pool" where
  "lfreepool used chunk pl = pl\<lparr>pl_freed := pl_freed pl @ map bn_msg (filter (\<lambda>n. fst (bn_addr n) = chunk) used)\<rparr>"

definition ldrop :: "bytes \<Rightarrow> buffer_pool \<Rightarrow> buffer_pool" where
  "ldrop msg pl = pl\<lparr>pl_freed := pl_freed pl @ [msg]\<rparr>"

definition lstr2p :: "bytes \<Rightarrow> bytes \<times> int" where
  "lstr2p str = (str, int (length str))"

text \<open>\<open>get_buffer\<close>: the block to send from a userdata with its size, from a table of strings, or from a
  string. A field of the table is \<open>None\<close> when it is neither a string nor a number.\<close>

datatype send_arg = Send_block bytes int | Send_table "bytes option list" | Send_string bytes | Send_other

primrec count_size :: "bytes option list \<Rightarrow> nat lua_result" where
  "count_size [] = LuaOk 0"
| "count_size (x # xs) =
     (case x of None \<Rightarrow> LuaError ''string expected''
      | Some s \<Rightarrow> (case count_size xs of LuaError e \<Rightarrow> LuaError e | LuaOk n \<Rightarrow> LuaOk (length s + n)))"

primrec concat_table :: "bytes option list \<Rightarrow> bytes \<Rightarrow> nat \<Rightarrow> bytes \<times> nat" where
  "concat_table [] ptr tlen = (ptr, tlen)"
| "concat_table (x # xs) ptr tlen =
     (case x of None \<Rightarrow> (ptr, tlen)
      | Some s \<Rightarrow> if tlen < length s then (ptr, tlen) else concat_table xs (ptr @ s) (tlen - length s))"

definition get_buffer :: "send_arg \<Rightarrow> (bytes \<times> int) lua_result" where
  "get_buffer arg =
     (case arg of
        Send_block p sz \<Rightarrow> LuaOk (p, sz)
      | Send_table xs \<Rightarrow>
          (case count_size xs of
             LuaError e \<Rightarrow> LuaError e
           | LuaOk len \<Rightarrow>
               (let (buffer, tlen) = concat_table xs [] len in
                if tlen \<noteq> 0 then LuaError ''Invalid strings table''
                else LuaOk (buffer, sint (of_nat len :: u32))))
      | Send_string str \<Rightarrow> LuaOk (str, sint (of_nat (length str) :: u32))
      | Send_other \<Rightarrow> LuaError ''string expected'')"

text \<open>\<open>strchr\<close> in a string that a zero ends, and \<open>address_port\<close>, whose port argument is \<open>None\<close> for nil. The
  host is copied between pointers that must be in order.\<close>

definition strchr :: "char \<Rightarrow> string \<Rightarrow> nat option" where
  "strchr c s =
     (let s = takeWhile (\<lambda>x. x \<noteq> CHR 0x00) s; i = length (takeWhile (\<lambda>x. x \<noteq> c) s) in if i < length s then Some i else None)"

definition address_port :: "string \<Rightarrow> int option \<Rightarrow> (string \<times> int) lua_result option" where
  "address_port addr port =
     (let invalid = LuaError (''Invalid address '' @ addr @ ''.'') in
      case port of Some p \<Rightarrow> Some (LuaOk (addr, sint (word_of_int p :: u32)))
      | None \<Rightarrow>
         (case strchr (CHR ''['') addr of
            Some h \<Rightarrow>
              (case strchr (CHR '']'') addr of
                 None \<Rightarrow> Some invalid
               | Some sep \<Rightarrow>
                   do { assert_opt (h + 1 \<le> sep);
                        let host = take (sep - (h + 1)) (drop (h + 1) addr);
                        let rest = drop (sep + 1) addr;
                        Some (case strchr (CHR '':'') rest of
                                None \<Rightarrow> invalid
                              | Some k \<Rightarrow> LuaOk (host, sint (strtoul 10 (drop (k + 1) rest)))) })
          | None \<Rightarrow>
              Some (case strchr (CHR '':'') addr of
                      None \<Rightarrow> invalid
                    | Some sep \<Rightarrow> LuaOk (take sep addr, sint (strtoul 10 (drop (sep + 1) addr))))))"

subsection \<open>The stream of a buffer\<close>

definition node_bytes :: "buffer_node list \<Rightarrow> bytes" where
  "node_bytes ns = concat (map bn_msg ns)"

definition sb_stream :: "socket_buffer \<Rightarrow> bytes" where
  "sb_stream sb = drop (nat (sb_offset sb)) (node_bytes (sb_nodes sb))"

lemma sb_stream_size [simp]: "sb_stream (sb\<lparr>sb_size := n\<rparr>) = sb_stream sb"
  by (simp add: sb_stream_def)

definition node_ok :: "buffer_node \<Rightarrow> bool" where
  "node_ok n \<longleftrightarrow> bn_sz n = int (length (bn_msg n)) \<and> bn_msg n \<noteq> []"

definition offset_ok :: "int \<Rightarrow> buffer_node list \<Rightarrow> bool" where
  "offset_ok off ns \<longleftrightarrow> 0 \<le> off \<and> (case ns of [] \<Rightarrow> off = 0 | n # _ \<Rightarrow> off < int (length (bn_msg n)))"

definition sb_wf :: "socket_buffer \<Rightarrow> bool" where
  "sb_wf sb \<longleftrightarrow> sb_size sb = int (length (sb_stream sb)) \<and> sb_size sb < 2 ^ 31 \<and>
     (\<forall>n \<in> set (sb_nodes sb). node_ok n) \<and> offset_ok (sb_offset sb) (sb_nodes sb)"

lemma node_bytes_simps [simp]: "node_bytes [] = []" "node_bytes (n # ns) = bn_msg n @ node_bytes ns"
  "node_bytes (ns @ ms) = node_bytes ns @ node_bytes ms"
  by (simp_all add: node_bytes_def)

lemma sub_read_in: "0 \<le> off \<Longrightarrow> 0 \<le> len \<Longrightarrow> off + len \<le> int (length m) \<Longrightarrow> sub_read m off len = Some (take (nat len) (drop (nat off) m))"
  by (simp add: sub_read_def)

lemma sb_stream_empty: "sb_wf sb \<Longrightarrow> sb_stream sb = [] \<longleftrightarrow> sb_nodes sb = []"
  by (cases "sb_nodes sb") (auto simp: sb_wf_def sb_stream_def offset_ok_def)

lemma return_free_node_Cons:
  "sb_nodes sb = n # ns \<Longrightarrow> return_free_node (sb, pl) =
     Some (sb\<lparr>sb_offset := 0, sb_nodes := ns\<rparr>, pl\<lparr>pl_free := bn_addr n # pl_free pl, pl_freed := pl_freed pl @ [bn_msg n]\<rparr>)"
  by (simp add: return_free_node_def)

text \<open>The first nodes leave the buffer: they are back in the pool and their blocks are freed.\<close>

definition released :: "buffer_node list \<Rightarrow> buffer_pool \<Rightarrow> buffer_pool" where
  "released ns pl = pl\<lparr>pl_free := rev (map bn_addr ns) @ pl_free pl, pl_freed := pl_freed pl @ map bn_msg ns\<rparr>"

lemma released_simps [simp]: "released [] pl = pl"
  "released ns (pl\<lparr>pl_free := bn_addr n # pl_free pl, pl_freed := pl_freed pl @ [bn_msg n]\<rparr>) = released (n # ns) pl"
  by (simp_all add: released_def)

text \<open>Taking \<open>n\<close> bytes from the front, of which the last \<open>skip\<close> are not kept.\<close>

definition advanced :: "nat \<Rightarrow> buffer_state \<Rightarrow> buffer_state \<Rightarrow> bool" where
  "advanced n st st' \<longleftrightarrow>
     (\<exists>used. sb_nodes (fst st) = used @ sb_nodes (fst st') \<and> snd st' = released used (snd st)) \<and>
     sb_stream (fst st') = drop n (sb_stream (fst st)) \<and> offset_ok (sb_offset (fst st')) (sb_nodes (fst st')) \<and>
     sb_size (fst st') = sb_size (fst st)"

lemma stream_Cons:
  assumes "sb_nodes sb = n # ns" "node_ok n" "offset_ok (sb_offset sb) (sb_nodes sb)"
  shows "sb_stream sb = drop (nat (sb_offset sb)) (bn_msg n) @ node_bytes ns"
    "nat (bn_sz n - sb_offset sb) = length (drop (nat (sb_offset sb)) (bn_msg n))"
    "0 < bn_sz n - sb_offset sb" "0 \<le> sb_offset sb"
  using assms by (auto simp: sb_stream_def node_ok_def offset_ok_def)

text \<open>Staying in the first node, and leaving it.\<close>

lemma advanced_within:
  assumes "sb_nodes sb = n # ns" "node_ok n" "offset_ok (sb_offset sb) (sb_nodes sb)" "int sz < bn_sz n - sb_offset sb"
  shows "advanced sz (sb, pl) (sb\<lparr>sb_offset := sb_offset sb + int sz\<rparr>, pl)"
proof -
  have "nat (sb_offset sb + int sz) = nat (sb_offset sb) + sz" using assms(3) by (simp add: offset_ok_def nat_add_distrib)
  then show ?thesis using assms
    by (auto simp: advanced_def sb_stream_def offset_ok_def node_ok_def drop_drop add.commute intro!: exI [of _ "[]"])
qed

lemma offset_ok_0: "\<forall>n \<in> set ns. node_ok n \<Longrightarrow> offset_ok 0 ns"
  by (cases ns) (auto simp: offset_ok_def node_ok_def)

lemma advanced_node:
  assumes "sb_nodes sb = n # ns" "\<forall>n \<in> set (sb_nodes sb). node_ok n" "offset_ok (sb_offset sb) (sb_nodes sb)"
    "int sz = bn_sz n - sb_offset sb" "sb_nodes sb1 = sb_nodes sb" "sb_size sb1 = sb_size sb"
  shows "\<exists>st'. return_free_node (sb1, pl) = Some st' \<and> advanced sz (sb, pl) st' \<and> sb_nodes (fst st') = ns \<and> sb_offset (fst st') = 0"
proof -
  have ok: "node_ok n" "\<forall>n \<in> set ns. node_ok n" using assms(1,2) by auto
  note s = stream_Cons [OF assms(1) ok(1) assms(3)]
  have "sz = length (drop (nat (sb_offset sb)) (bn_msg n))" using s(2) assms(4) by (metis nat_int)
  then have "drop sz (sb_stream sb) = node_bytes ns" using s(1) by simp
  then show ?thesis using assms(1,5,6) ok(2) return_free_node_Cons [of sb1 n ns pl]
    by (auto simp: advanced_def sb_stream_def released_def offset_ok_0 intro!: exI [of _ "[n]"])
qed

lemma advanced_trans: "advanced a st st1 \<Longrightarrow> advanced b st1 st2 \<Longrightarrow> advanced (a + b) st st2"
  by (force simp: advanced_def released_def drop_drop add.commute)

lemma pop_loop_result:
  assumes "\<forall>n \<in> set (sb_nodes sb). node_ok n" "offset_ok (sb_offset sb) (sb_nodes sb)"
    "sz \<le> length (sb_stream sb)" "sb_nodes sb \<noteq> []"
  shows "\<exists>st'. pop_loop (int sz) (int skip) b (sb, pl) = Some (b @ take (sz - skip) (sb_stream sb), st') \<and> advanced sz (sb, pl) st'"
  using assms
proof (induction "sb_nodes sb" arbitrary: sb pl sz b)
  case (Cons n ns)
  note nodes = Cons.hyps(2) [symmetric]
  have ok: "node_ok n" "\<forall>n \<in> set ns. node_ok n" using Cons.prems(1) nodes by auto
  note s = stream_Cons [OF nodes ok(1) Cons.prems(2)]
  let ?rest = "bn_sz n - sb_offset sb" let ?av = "drop (nat (sb_offset sb)) (bn_msg n)"
  have len: "bn_sz n = int (length (bn_msg n))" using ok(1) by (simp add: node_ok_def)
  have add: "(if int a > int c then sub_read (bn_msg n) (sb_offset sb) (int a - int c) else Some []) = Some (take (a - c) ?av)"
    if "int a \<le> ?rest" for a c using that s(3,4) len sub_read_in [of "sb_offset sb" "int a - int c" "bn_msg n"]
    by (auto simp: nat_minus_as_int)
  show ?case
  proof (cases "?rest \<ge> int sz")
    case True
    have take: "take (sz - skip) (sb_stream sb) = take (sz - skip) ?av" using s(1,2) True by auto
    show ?thesis
    proof (cases "?rest = int sz")
      case True
      then have eq: "int sz = ?rest" by simp
      let ?sb1 = "sb\<lparr>sb_offset := sb_offset sb + int sz\<rparr>"
      from advanced_node [OF nodes Cons.prems(1,2) eq, of ?sb1 pl] obtain st' where
        "return_free_node (?sb1, pl) = Some st'" "advanced sz (sb, pl) st'" by auto
      then show ?thesis using add [of sz skip] take True
        by (cases st') (subst pop_loop.simps, auto simp: nodes split: if_splits)
    next
      case False
      with advanced_within [OF nodes ok(1) Cons.prems(2), of sz pl] add [of sz skip] take \<open>?rest \<ge> int sz\<close> show ?thesis
        by (subst pop_loop.simps) (auto simp: nodes split: if_splits)
    qed
  next
    case False
    define k where "k = length ?av"
    have "int (nat ?rest) = ?rest" using s(3) by simp
    then have k: "?rest = int k" unfolding k_def by (simp only: s(2))
    then have k: "?rest = int k" "k < sz" using False by simp_all
    from advanced_node [OF nodes Cons.prems(1,2), of k sb pl] k obtain st1 where
      st1: "return_free_node (sb, pl) = Some st1" "advanced k (sb, pl) st1" "sb_nodes (fst st1) = ns" "sb_offset (fst st1) = 0" by auto
    have str1: "sb_stream (fst st1) = node_bytes ns" using st1(3,4) by (simp add: sb_stream_def)
    have le: "sz - k \<le> length (sb_stream (fst st1))" using Cons.prems(3) s(1) str1 by (simp add: k_def)
    have ne: "sb_nodes (fst st1) \<noteq> []" using le k(2) str1 st1(3) by auto
    have off: "offset_ok (sb_offset (fst st1)) (sb_nodes (fst st1))" using st1(3,4) ok(2) offset_ok_0 by simp
    have hy: "ns = sb_nodes (fst st1)" using st1(3) by simp
    from Cons.hyps(1) [OF hy, of "sz - k" "b @ take (sz - skip) ?av" "snd st1"] ok(2) st1(3) off le ne obtain st' where
      rec: "pop_loop (int (sz - k)) (int skip) (b @ take (sz - skip) ?av) st1 =
        Some ((b @ take (sz - skip) ?av) @ take (sz - k - skip) (node_bytes ns), st')" "advanced (sz - k) st1 st'"
      by (auto simp: str1)
    have sum: "take (sz - skip) (sb_stream sb) = take (sz - skip) ?av @ take (sz - k - skip) (node_bytes ns)"
      using s(1) by (simp add: k_def add.commute)
    have read: "(if int sz - int skip > 0 then sub_read (bn_msg n) (sb_offset sb)
        (if int sz - int skip < int k then int sz - int skip else int k) else Some []) = Some (take (sz - skip) ?av)"
      using s(4) k len sub_read_in [of "sb_offset sb" "int sz - int skip" "bn_msg n"] sub_read_in [of "sb_offset sb" "int k" "bn_msg n"]
      by (auto simp: k_def nat_minus_as_int)
    have "int sz - int k \<noteq> 0" "int (sz - k) = int sz - int k" using k(2) by auto
    with rec st1(1) read k sum advanced_trans [OF st1(2) rec(2)] show ?thesis
      by (cases st') (subst pop_loop.simps, auto simp: nodes not_le Let_def split: if_splits)
  qed
qed simp

text \<open>\<open>pop_lstring\<close> returns the front of the stream but for the skipped end, whichever of its branches it takes.\<close>

lemma pop_lstring_result:
  assumes "\<forall>n \<in> set (sb_nodes sb). node_ok n" "offset_ok (sb_offset sb) (sb_nodes sb)"
    "sz \<le> length (sb_stream sb)" "sb_nodes sb \<noteq> []" "skip \<le> sz"
  shows "\<exists>st'. pop_lstring (int sz) (int skip) (sb, pl) = Some (take (sz - skip) (sb_stream sb), st') \<and> advanced sz (sb, pl) st'"
proof -
  from assms(4) obtain n ns where nodes: "sb_nodes sb = n # ns" by (cases "sb_nodes sb") auto
  with assms(1) have ok: "node_ok n" by simp
  note s = stream_Cons [OF nodes ok assms(2)]
  let ?rest = "bn_sz n - sb_offset sb" let ?av = "drop (nat (sb_offset sb)) (bn_msg n)"
  have len: "bn_sz n = int (length (bn_msg n))" using ok by (simp add: node_ok_def)
  have read: "sub_read (bn_msg n) (sb_offset sb) (int sz - int skip) = Some (take (sz - skip) (sb_stream sb))" if "int sz \<le> ?rest"
    using that s assms(5) len sub_read_in [of "sb_offset sb" "int sz - int skip" "bn_msg n"] by (auto simp: nat_minus_as_int)
  consider "int sz < ?rest" | "int sz = ?rest" | "int sz > ?rest" by linarith
  then show ?thesis
  proof cases
    case 1
    with read advanced_within [OF nodes ok assms(2), of sz pl] show ?thesis by (simp add: pop_lstring_def nodes)
  next
    case 2
    from advanced_node [OF nodes assms(1,2) 2, of sb pl] obtain st' where
      "return_free_node (sb, pl) = Some st'" "advanced sz (sb, pl) st'" by auto
    with 2 read show ?thesis by (cases st') (simp add: pop_lstring_def nodes)
  next
    case 3
    with pop_loop_result [OF assms(1-4), of skip "[]" pl] show ?thesis by (simp add: pop_lstring_def nodes)
  qed
qed

lemma advanced_wf:
  assumes "sb_wf sb" "advanced n (sb, pl) (sb', pl')" "n \<le> length (sb_stream sb)"
  shows "sb_wf (sb'\<lparr>sb_size := sb_size sb' - int n\<rparr>)" "sb_stream (sb'\<lparr>sb_size := sz\<rparr>) = drop n (sb_stream sb)"
  using assms by (auto simp: sb_wf_def advanced_def of_nat_diff)

lemma popbuffer_result:
  assumes "sb_wf sb"
  shows "\<exists>sb' pl' used. popbuffer (int sz) (sb, pl) =
      Some (if length (sb_stream sb) < sz \<or> sz = 0 then None else Some (take sz (sb_stream sb)), int (length (sb_stream sb')), sb', pl') \<and>
    sb_wf sb' \<and> sb_stream sb' = (if length (sb_stream sb) < sz then sb_stream sb else drop sz (sb_stream sb)) \<and>
    sb_nodes sb = used @ sb_nodes sb' \<and> pl' = released used pl"
proof (cases "length (sb_stream sb) < sz \<or> sz = 0")
  case True
  with assms show ?thesis by (auto simp: popbuffer_def sb_wf_def intro!: exI [of _ sb])
next
  case False
  then have "sb_nodes sb \<noteq> []" using sb_stream_empty [OF assms] by auto
  with assms False pop_lstring_result [of sb sz 0 pl] obtain sb1 pl1 where
    p: "pop_lstring (int sz) 0 (sb, pl) = Some (take sz (sb_stream sb), sb1, pl1)" "advanced sz (sb, pl) (sb1, pl1)"
    by (force simp: sb_wf_def)
  let ?sb = "sb1\<lparr>sb_size := sb_size sb1 - int sz\<rparr>"
  have wf: "sb_wf ?sb" "sb_stream ?sb = drop sz (sb_stream sb)" using advanced_wf [OF assms p(2)] False by auto
  from p(2) obtain used where u: "sb_nodes sb = used @ sb_nodes sb1" "pl1 = released used pl" by (auto simp: advanced_def)
  have "sb_size sb1 - int sz = int (length (sb_stream ?sb))" using wf(1) by (simp add: sb_wf_def)
  with False p(1) wf u assms show ?thesis
    by (auto simp: popbuffer_def sb_wf_def Let_def intro!: exI [of _ ?sb] exI [of _ pl1] exI [of _ used])
qed

lemma clear_loop_result:
  "\<exists>sb' pl'. clear_loop (sb, pl) = Some (sb', pl') \<and> sb_nodes sb' = [] \<and> pl' = released (sb_nodes sb) pl \<and>
     (sb_nodes sb = [] \<longrightarrow> sb' = sb) \<and> (sb_nodes sb \<noteq> [] \<longrightarrow> sb_offset sb' = 0)"
proof (induction "sb_nodes sb" arbitrary: sb pl)
  case Nil
  then show ?case by (simp add: clear_loop.simps)
next
  case (Cons n ns)
  let ?sb = "sb\<lparr>sb_offset := 0, sb_nodes := ns\<rparr>"
  let ?pl = "pl\<lparr>pl_free := bn_addr n # pl_free pl, pl_freed := pl_freed pl @ [bn_msg n]\<rparr>"
  have "clear_loop (sb, pl) = clear_loop (?sb, ?pl)"
    by (simp add: clear_loop.simps [of "(sb, pl)"] Cons.hyps(2) [symmetric] return_free_node_Cons [OF Cons.hyps(2) [symmetric]])
  with Cons.hyps(1) [of ?sb ?pl] Cons.hyps(2) [symmetric] show ?case by fastforce
qed

lemma clearbuffer_result:
  assumes "sb_wf sb"
  shows "\<exists>sb'. clearbuffer (sb, pl) = Some (sb', released (sb_nodes sb) pl) \<and> sb_wf sb' \<and> sb_nodes sb' = []"
proof -
  from clear_loop_result [of sb pl] obtain sb' where c: "clear_loop (sb, pl) = Some (sb', released (sb_nodes sb) pl)" "sb_nodes sb' = []"
    "sb_offset sb' = 0" using assms by (auto simp: sb_wf_def offset_ok_def)
  then show ?thesis by (auto simp: clearbuffer_def sb_wf_def sb_stream_def offset_ok_def)
qed

lemma readall_loop_result:
  assumes "\<forall>n \<in> set (sb_nodes sb). node_ok n" "offset_ok (sb_offset sb) (sb_nodes sb)"
  shows "\<exists>sb'. readall_loop b (sb, pl) = Some (b @ sb_stream sb, sb', released (sb_nodes sb) pl) \<and> sb_nodes sb' = [] \<and> sb_offset sb' = 0"
  using assms
proof (induction "sb_nodes sb" arbitrary: sb pl b)
  case Nil
  then show ?case by (simp add: readall_loop.simps sb_stream_def offset_ok_def)
next
  case (Cons n ns)
  note nodes = Cons.hyps(2) [symmetric]
  have ok: "node_ok n" "\<forall>n \<in> set ns. node_ok n" using Cons.prems(1) nodes by auto
  note s = stream_Cons [OF nodes ok(1) Cons.prems(2)]
  let ?sb = "sb\<lparr>sb_offset := 0, sb_nodes := ns\<rparr>"
  let ?pl = "pl\<lparr>pl_free := bn_addr n # pl_free pl, pl_freed := pl_freed pl @ [bn_msg n]\<rparr>"
  let ?av = "drop (nat (sb_offset sb)) (bn_msg n)"
  have "sub_read (bn_msg n) (sb_offset sb) (bn_sz n - sb_offset sb) = Some ?av"
    using s ok(1) sub_read_in [of "sb_offset sb" "bn_sz n - sb_offset sb" "bn_msg n"] by (simp add: node_ok_def)
  then have "readall_loop b (sb, pl) = readall_loop (b @ ?av) (?sb, ?pl)"
    by (simp add: readall_loop.simps [of b "(sb, pl)"] nodes return_free_node_Cons [OF nodes])
  with Cons.hyps(1) [of ?sb "b @ ?av" ?pl] ok(2) offset_ok_0 [OF ok(2)] s(1) nodes show ?case
    by (auto simp: sb_stream_def)
qed

lemma readall_result:
  assumes "sb_wf sb"
  shows "\<exists>sb'. readall (sb, pl) = Some (sb_stream sb, sb', released (sb_nodes sb) pl) \<and> sb_wf sb' \<and> sb_nodes sb' = []"
  using readall_loop_result [of sb "[]" pl] assms by (force simp: readall_def sb_wf_def sb_stream_def offset_ok_def)

subsection \<open>The first separator\<close>

fun find_sep :: "bytes \<Rightarrow> bytes \<Rightarrow> nat option" where
  "find_sep sep s =
     (if take (length sep) s = sep then Some 0
      else case s of [] \<Rightarrow> None | _ # s' \<Rightarrow> map_option Suc (find_sep sep s'))"

declare find_sep.simps [simp del]

lemma find_sep_list [simp]:
  "find_sep sep [] = (if sep = [] then Some 0 else None)"
  "find_sep sep (c # s) = (if take (length sep) (c # s) = sep then Some 0 else map_option Suc (find_sep sep s))"
  by (subst find_sep.simps, auto)+

lemma take_length_le: "take (length sep) s = sep \<Longrightarrow> length sep \<le> length s"
  by (metis length_take min.cobounded1)

lemma find_sep_short: "length s < length sep \<Longrightarrow> find_sep sep s = None"
  using take_length_le by (induction s) fastforce+

lemma find_sep_first:
  "find_sep sep s = Some i \<longleftrightarrow> take (length sep) (drop i s) = sep \<and> i + length sep \<le> length s \<and>
     (\<forall>j < i. take (length sep) (drop j s) \<noteq> sep)"
proof (induction s arbitrary: i)
  case Nil
  then show ?case by (auto simp: find_sep.simps)
next
  case (Cons c s)
  show ?case
  proof (cases "take (length sep) (c # s) = sep")
    case True
    with take_length_le [OF True] show ?thesis by (auto intro: gr0I)
  next
    case False
    show ?thesis
    proof (cases i)
      case 0
      with False show ?thesis by simp
    next
      case (Suc k)
      have "(\<forall>j < Suc k. take (length sep) (drop j (c # s)) \<noteq> sep) \<longleftrightarrow> (\<forall>j < k. take (length sep) (drop j s) \<noteq> sep)"
        using False by (auto simp: less_Suc_eq_0_disj)
      with False Suc Cons.IH [of k] show ?thesis by simp
    qed
  qed
qed

lemma memcmp_in:
  assumes "0 \<le> from" "from + int n \<le> int (length m)" "n \<le> length sep"
  shows "memcmp_eq m from sep (int n) = Some (take n (drop (nat from) m) = take n sep)"
  using assms by (simp add: memcmp_eq_def sub_read_def)

lemma take_split:
  assumes "k \<le> length a"
  shows "take (length a) s = a \<longleftrightarrow> take k s = take k a \<and> take (length a - k) (drop k s) = drop k a"
proof
  assume eq: "take (length a) s = a"
  have "take k s = take k (take (length a) s)" "take (length a - k) (drop k s) = drop k (take (length a) s)"
    using assms by (simp_all add: drop_take min_absorb1)
  then show "take k s = take k a \<and> take (length a - k) (drop k s) = drop k a" by (simp only: eq)
next
  assume "take k s = take k a \<and> take (length a - k) (drop k s) = drop k a"
  then show "take (length a) s = a" using take_add [of k "length a - k" s] assms by simp
qed

lemma check_sep_result:
  assumes "\<forall>n \<in> set ns. node_ok n" "offset_ok off ns" "ns \<noteq> []" "length sep \<le> length (drop (nat off) (node_bytes ns))"
  shows "check_sep ns off sep = Some (take (length sep) (drop (nat off) (node_bytes ns)) = sep)"
  using assms
proof (induction ns arbitrary: off sep)
  case (Cons n ns)
  let ?av = "drop (nat off) (bn_msg n)"
  define k where "k = length ?av"
  have ok: "node_ok n" "\<forall>n \<in> set ns. node_ok n" "0 \<le> off" "off < int (length (bn_msg n))"
    using Cons.prems by (auto simp: offset_ok_def)
  then have k: "bn_sz n - off = int k" "0 < k" by (auto simp: k_def node_ok_def)
  have s: "drop (nat off) (node_bytes (n # ns)) = ?av @ node_bytes ns" using ok(4) by simp
  have le: "off + int k \<le> int (length (bn_msg n))" using k(1) ok(1) by (simp add: node_ok_def)
  show ?case
  proof (cases "length sep \<le> k")
    case True
    with le ok(3) have "memcmp_eq (bn_msg n) off sep (int (length sep)) = Some (take (length sep) ?av = take (length sep) sep)"
      by (intro memcmp_in) auto
    with True k(1) s show ?thesis by (simp add: k_def)
  next
    case False
    have cmp: "memcmp_eq (bn_msg n) off sep (int k) = Some (take k ?av = take k sep)"
      using False le ok(3) by (intro memcmp_in) auto
    have avk: "take (length sep - k) (drop k (?av @ node_bytes ns)) = take (length sep - k) (node_bytes ns)"
      "take k (?av @ node_bytes ns) = take k ?av" by (simp_all add: k_def)
    have split: "take (length sep) (?av @ node_bytes ns) = sep \<longleftrightarrow>
        take k ?av = take k sep \<and> take (length sep - k) (node_bytes ns) = drop k sep"
      using take_split [of k sep "?av @ node_bytes ns"] False unfolding avk by simp
    have ns: "ns \<noteq> []" using Cons.prems(4) False s by (auto simp: k_def)
    have "length (drop k sep) \<le> length (node_bytes ns)" using Cons.prems(4) unfolding s by (simp add: k_def)
    then have rec: "check_sep ns 0 (drop k sep) = Some (take (length sep - k) (node_bytes ns) = drop k sep)"
      using Cons.IH [OF ok(2) offset_ok_0 [OF ok(2)] ns, of "drop k sep"] by simp
    have "check_sep (n # ns) off sep = Some (take k ?av = take k sep \<and> take (length sep - k) (node_bytes ns) = drop k sep)"
      using False k(2) by (cases "take k ?av = take k sep") (simp_all only: check_sep.simps Let_def k(1) cmp, simp_all add: rec)
    then show ?thesis unfolding s split .
  qed
qed simp

lemma readline_scan_result:
  assumes "\<forall>n \<in> set ns. node_ok n" "offset_ok off ns" "ns \<noteq> []"
    "turns = length (drop (nat off) (node_bytes ns)) + 1 - length sep"
  shows "readline_scan turns ns off (bn_sz (hd ns) - off) i sep =
    Some (map_option ((+) i) (find_sep sep (drop (nat off) (node_bytes ns))))"
  using assms
proof (induction turns arbitrary: ns off i)
  case 0
  then have "length (drop (nat off) (node_bytes ns)) < length sep" by simp
  then show ?case by (simp add: find_sep_short del: length_drop)
next
  case (Suc turns)
  from Suc.prems(3) obtain n rest where ns: "ns = n # rest" by (cases ns) auto
  with Suc.prems(1,2) have ok: "node_ok n" "\<forall>n \<in> set rest. node_ok n" "0 \<le> off" "off < int (length (bn_msg n))"
    by (auto simp: offset_ok_def)
  let ?s = "drop (nat off) (node_bytes ns)"
  have check: "check_sep ns off sep = Some (take (length sep) ?s = sep)"
    using Suc.prems(4) by (intro check_sep_result Suc.prems(1-3)) simp
  show ?case
  proof (cases "take (length sep) ?s = sep")
    case True
    then have "find_sep sep ?s = Some 0" by (subst find_sep.simps) simp
    with True check show ?thesis by simp
  next
    case False
    have "nat off < length (node_bytes ns)" "nat (off + 1) = Suc (nat off)" using ok(3,4) ns by auto
    then obtain c where s: "?s = c # drop (nat (off + 1)) (node_bytes ns)"
      using Cons_nth_drop_Suc [of "nat off" "node_bytes ns"] by metis
    have f: "find_sep sep ?s = map_option Suc (find_sep sep (drop (nat (off + 1)) (node_bytes ns)))"
      using False unfolding s by simp
    have turns: "turns = length (drop (nat (off + 1)) (node_bytes ns)) + 1 - length sep" using Suc.prems(4) unfolding s by simp
    have shift: "map_option ((+) (i + 1)) (find_sep sep t) = map_option ((+) i) (map_option Suc (find_sep sep t))" for t
      by (cases "find_sep sep t") simp_all
    have cf: "check_sep ns off sep = Some False" using check False by simp
    show ?thesis
    proof (cases "bn_sz n - off - 1 = 0")
      case False
      then have off1: "offset_ok (off + 1) ns" using ok ns by (auto simp: offset_ok_def node_ok_def)
      note ih = Suc.IH [OF Suc.prems(1) off1 Suc.prems(3) turns, of "i + 1"]
      have "readline_scan (Suc turns) ns off (bn_sz (hd ns) - off) i sep =
          readline_scan turns ns (off + 1) (bn_sz (hd ns) - (off + 1)) (i + 1) sep"
        unfolding readline_scan.simps cf using False ns by (simp add: diff_diff_eq)
      then show ?thesis unfolding ih f shift .
    next
      case True
      then have rest: "drop (nat (off + 1)) (node_bytes ns) = node_bytes rest" using ok ns by (simp add: node_ok_def)
      show ?thesis
      proof (cases rest)
        case Nil
        then have "find_sep sep (node_bytes rest) = None" using False by (cases "sep = []") auto
        with Nil check False True f ns rest show ?thesis by simp
      next
        case (Cons m ms)
        have "turns = length (drop (nat 0) (node_bytes rest)) + 1 - length sep" using turns unfolding rest by simp
        note ih = Suc.IH [OF ok(2) offset_ok_0 [OF ok(2)] _ this, of "i + 1", unfolded nat_zero_as_int [symmetric] drop_0]
        have "readline_scan (Suc turns) ns off (bn_sz (hd ns) - off) i sep = readline_scan turns rest 0 (bn_sz (hd rest) - 0) (i + 1) sep"
          unfolding readline_scan.simps cf using True ns Cons by simp
        then show ?thesis using ih Cons unfolding f rest shift by simp
      qed
    qed
  qed
qed

definition first_line :: "bytes \<Rightarrow> bytes \<Rightarrow> nat option" where
  "first_line sep s = (if s = [] then None else find_sep sep s)"

lemma readline_result:
  assumes "sb_wf sb"
  shows "\<exists>sb' pl' used. readline check sep (sb, pl) = Some (case first_line sep (sb_stream sb) of None \<Rightarrow> No_line
       | Some i \<Rightarrow> if check then Line_found else Line (take i (sb_stream sb)), sb', pl') \<and>
    sb_wf sb' \<and> sb_stream sb' = (case first_line sep (sb_stream sb) of None \<Rightarrow> sb_stream sb
       | Some i \<Rightarrow> if check then sb_stream sb else drop (i + length sep) (sb_stream sb)) \<and>
    sb_nodes sb = used @ sb_nodes sb' \<and> pl' = released used pl \<and> (check \<longrightarrow> sb' = sb)"
proof (cases "sb_nodes sb")
  case Nil
  then have "sb_stream sb = []" using sb_stream_empty [OF assms] by simp
  with Nil assms show ?thesis by (auto simp: readline_def first_line_def intro!: exI [of _ sb])
next
  case (Cons n ns)
  then have ne: "sb_stream sb \<noteq> []" using sb_stream_empty [OF assms] by simp
  let ?turns = "length (sb_stream sb) + 1 - length sep"
  have t: "nat (sb_size sb - int (length sep) + 1) = ?turns" using assms by (simp add: sb_wf_def)
  have wf: "\<forall>n \<in> set (sb_nodes sb). node_ok n" "offset_ok (sb_offset sb) (sb_nodes sb)" using assms by (auto simp: sb_wf_def)
  have scan: "readline_scan ?turns (sb_nodes sb) (sb_offset sb) (bn_sz n - sb_offset sb) 0 sep = Some (find_sep sep (sb_stream sb))"
    using readline_scan_result [OF wf, of ?turns sep 0] Cons by (simp add: sb_stream_def option.map_ident cong: option.map_cong)
  show ?thesis
  proof (cases "find_sep sep (sb_stream sb)")
    case None
    with scan Cons t ne assms show ?thesis by (auto simp: readline_def first_line_def intro!: exI [of _ sb])
  next
    case (Some i)
    then have le: "i + length sep \<le> length (sb_stream sb)" using find_sep_first by blast
    show ?thesis
    proof (cases check)
      case True
      with scan Some Cons t ne assms show ?thesis by (auto simp: readline_def first_line_def intro!: exI [of _ sb])
    next
      case False
      from pop_lstring_result [OF wf le, of "length sep" pl] Cons obtain sb1 pl1 where
        p: "pop_lstring (int (i + length sep)) (int (length sep)) (sb, pl) = Some (take i (sb_stream sb), sb1, pl1)"
        "advanced (i + length sep) (sb, pl) (sb1, pl1)" by force
      let ?sb = "sb1\<lparr>sb_size := sb_size sb1 - int (i + length sep)\<rparr>"
      have wf1: "sb_wf ?sb" "sb_stream ?sb = drop (i + length sep) (sb_stream sb)" using advanced_wf [OF assms p(2) le] by simp_all
      from p(2) obtain used where "sb_nodes sb = used @ sb_nodes sb1" "pl1 = released used pl" by (auto simp: advanced_def)
      with wf1 p(1) scan Some Cons t ne False show ?thesis
        by (auto simp: readline_def first_line_def Let_def intro!: exI [of _ ?sb] exI [of _ used])
    qed
  qed
qed

lemma lnewpool_Cons: "0 < sz \<Longrightarrow> lnewpool c sz = (c, 0) # map (Pair c) [1..<sz]"
  by (simp add: lnewpool_def upt_conv_Cons)

lemma chunk_size_pos: "0 < chunk_size c"
  by (simp add: chunk_size_def push_bit_eq_mult)

lemma get_free_node_Nil:
  "pl_free pl = [] \<Longrightarrow> get_free_node pl = (let c = length (pl_chunks pl) in
     Some ((c, 0), pl\<lparr>pl_free := map (Pair c) [1..<chunk_size (c + 1)], pl_chunks := pl_chunks pl @ [chunk_size (c + 1)]\<rparr>))"
  by (simp add: get_free_node_def lnewpool_Cons [OF chunk_size_pos] Let_def)

lemma get_free_node_ok: "\<exists>a pl'. get_free_node pl = Some (a, pl')"
  by (cases "pl_free pl") (simp_all add: get_free_node_Nil Let_def, simp add: get_free_node_def)

lemma push_result:
  assumes "sb_wf sb" "data \<noteq> []" "length (sb_stream sb) + length data < 2 ^ 31"
  shows "\<exists>sb' pl' a. lpushbuffer (Some sb) (Some pl) (Some data) (int (length data)) =
      Some (LuaOk (int (length (sb_stream sb @ data)), sb', pl')) \<and> sb_wf sb' \<and> sb_stream sb' = sb_stream sb @ data \<and>
    get_free_node pl = Some (a, pl') \<and> sb_nodes sb' = sb_nodes sb @ [\<lparr>bn_addr = a, bn_msg = data, bn_sz = int (length data)\<rparr>]"
proof -
  from get_free_node_ok obtain a pl' where g: "get_free_node pl = Some (a, pl')" by blast
  let ?n = "\<lparr>bn_addr = a, bn_msg = data, bn_sz = int (length data)\<rparr>"
  let ?sb = "sb\<lparr>sb_size := int (length (sb_stream sb @ data)), sb_nodes := sb_nodes sb @ [?n]\<rparr>"
  have off: "nat (sb_offset sb) \<le> length (node_bytes (sb_nodes sb))" "offset_ok (sb_offset sb) (sb_nodes sb @ [?n])"
    using assms(1,2) by (auto simp: sb_wf_def offset_ok_def split: list.splits)
  then have str: "sb_stream ?sb = sb_stream sb @ data" by (simp add: sb_stream_def)
  have size: "sb_size sb = int (length (sb_stream sb))" using assms(1) by (simp add: sb_wf_def)
  have "sb_wf ?sb" using assms off(2) str by (auto simp: sb_wf_def node_ok_def)
  then show ?thesis using g str assms(3) size
    by (auto simp: lpushbuffer_def int_sum_def intro!: exI [of _ ?sb])
qed

subsection \<open>The buffer is a byte stream\<close>

text \<open>The calls of a service on one buffer, their answers, and what they are on a plain stream of bytes.\<close>

datatype buffer_call =
    Call_push bytes | Call_pop nat | Call_readline bytes | Call_check bytes | Call_readall | Call_clear

datatype buffer_answer = Ans_size int | Ans_pop "bytes option" int | Ans_line line_result | Ans_all bytes | Ans_done

definition buffer_call :: "buffer_call \<Rightarrow> buffer_state \<Rightarrow> (buffer_answer \<times> buffer_state) lua_result option" where
  "buffer_call c = (\<lambda>(sb, pl).
     (case c of
        Call_push data \<Rightarrow> map_option (map_lua_result (\<lambda>(n, st). (Ans_size n, st))) (lpushbuffer (Some sb) (Some pl) (Some data) (int (length data)))
      | Call_pop sz \<Rightarrow> map_option (map_lua_result (\<lambda>(r, n, st). (Ans_pop r n, st))) (lpopbuffer (Some sb) (Some pl) (int sz))
      | Call_readline sep \<Rightarrow> map_option (map_lua_result (\<lambda>(r, sb, pl). (Ans_line r, sb, the pl))) (lreadline (Some sb) (Some pl) sep)
      | Call_check sep \<Rightarrow> map_option (map_lua_result (\<lambda>(r, sb, _). (Ans_line r, sb, pl))) (lreadline (Some sb) None sep)
      | Call_readall \<Rightarrow> map_option (map_lua_result (\<lambda>(r, st). (Ans_all r, st))) (lreadall (Some sb) (Some pl))
      | Call_clear \<Rightarrow> map_option (map_lua_result (\<lambda>st. (Ans_done, st))) (lclearbuffer (Some sb) (Some pl))))"

primrec buffer_calls :: "buffer_call list \<Rightarrow> buffer_state \<Rightarrow> (buffer_answer list \<times> buffer_state) option" where
  "buffer_calls [] st = Some ([], st)"
| "buffer_calls (c # cs) st =
     do { r \<leftarrow> buffer_call c st;
          (case r of LuaError e \<Rightarrow> None
           | LuaOk (a, st) \<Rightarrow> do { (as, st) \<leftarrow> buffer_calls cs st; Some (a # as, st) }) }"

fun stream_call :: "buffer_call \<Rightarrow> bytes \<Rightarrow> buffer_answer \<times> bytes" where
  "stream_call (Call_push data) s = (Ans_size (int (length (s @ data))), s @ data)"
| "stream_call (Call_pop n) s =
     (if length s < n \<or> n = 0 then (Ans_pop None (int (length s)), s)
      else (Ans_pop (Some (take n s)) (int (length (drop n s))), drop n s))"
| "stream_call (Call_readline sep) s =
     (case first_line sep s of None \<Rightarrow> (Ans_line No_line, s)
      | Some i \<Rightarrow> (Ans_line (Line (take i s)), drop (i + length sep) s))"
| "stream_call (Call_check sep) s =
     (Ans_line (case first_line sep s of None \<Rightarrow> No_line | Some i \<Rightarrow> Line_found), s)"
| "stream_call Call_readall s = (Ans_all s, [])"
| "stream_call Call_clear s = (Ans_done, [])"

primrec stream_calls :: "buffer_call list \<Rightarrow> bytes \<Rightarrow> buffer_answer list \<times> bytes" where
  "stream_calls [] s = ([], s)"
| "stream_calls (c # cs) s = (case stream_call c s of (a, s) \<Rightarrow> case stream_calls cs s of (as, s) \<Rightarrow> (a # as, s))"

definition pushed :: "buffer_call list \<Rightarrow> bytes list" where
  "pushed cs = concat (map (\<lambda>c. case c of Call_push data \<Rightarrow> [data] | _ \<Rightarrow> []) cs)"

text \<open>Every node is in the buffer or in the pool, once, and belongs to a chunk.\<close>

definition pool_nodes :: "buffer_state \<Rightarrow> pool_addr list" where
  "pool_nodes st = map bn_addr (sb_nodes (fst st)) @ pl_free (snd st)"

definition in_chunks :: "nat list \<Rightarrow> pool_addr \<Rightarrow> bool" where
  "in_chunks chunks p \<longleftrightarrow> fst p < length chunks \<and> snd p < chunks ! fst p"

definition pool_wf :: "buffer_state \<Rightarrow> bool" where
  "pool_wf st \<longleftrightarrow> distinct (pool_nodes st) \<and>
     (\<forall>p \<in> set (pool_nodes st). in_chunks (pl_chunks (snd st)) p)"

lemma pool_wf_released:
  assumes "pool_wf (sb, pl)" "sb_nodes sb = used @ sb_nodes sb'"
  shows "pool_wf (sb', released used pl)"
proof -
  have "mset (pool_nodes (sb', released used pl)) = mset (pool_nodes (sb, pl))"
    using assms(2) by (simp add: pool_nodes_def released_def)
  then have "distinct (pool_nodes (sb', released used pl)) = distinct (pool_nodes (sb, pl))"
    "set (pool_nodes (sb', released used pl)) = set (pool_nodes (sb, pl))"
    by (rule mset_eq_imp_distinct_iff, rule mset_eq_setD)
  moreover have "pl_chunks (released used pl) = pl_chunks pl" by (simp add: released_def)
  ultimately show ?thesis using assms(1) unfolding pool_wf_def by simp
qed

lemma pool_wf_push:
  assumes "pool_wf (sb, pl)" "get_free_node pl = Some (a, pl')" "sb_nodes sb' = sb_nodes sb @ [n]" "bn_addr n = a"
  shows "pool_wf (sb', pl')" "pl_freed pl' = pl_freed pl"
proof -
  show "pl_freed pl' = pl_freed pl" using assms(2) by (auto simp: get_free_node_def Let_def split: list.splits)
  show "pool_wf (sb', pl')"
  proof (cases "pl_free pl")
    case (Cons x xs)
    with assms show ?thesis by (auto simp: get_free_node_def pool_wf_def pool_nodes_def)
  next
    case Nil
    let ?c = "length (pl_chunks pl)"
    have new: "distinct (map (Pair ?c) [1..<k])" "(?c, 0 :: nat) \<notin> Pair ?c ` {Suc 0..<k}" for k
      by (auto simp: distinct_map inj_on_def)
    have old: "\<forall>p \<in> set (map bn_addr (sb_nodes sb)). in_chunks (pl_chunks pl) p" "distinct (map bn_addr (sb_nodes sb))"
      using assms(1) Nil by (auto simp: pool_wf_def pool_nodes_def)
    from assms(2) Nil have pl': "a = (?c, 0)" "pl' = pl\<lparr>pl_free := map (Pair ?c) [1..<chunk_size (?c + 1)], pl_chunks := pl_chunks pl @ [chunk_size (?c + 1)]\<rparr>"
      by (auto simp: get_free_node_Nil Let_def)
    have fresh: "(?c, i) \<notin> bn_addr ` set (sb_nodes sb)" for i
    proof
      assume "(?c, i) \<in> bn_addr ` set (sb_nodes sb)"
      with old(1) have "in_chunks (pl_chunks pl) (?c, i)" by auto
      then show False by (simp add: in_chunks_def)
    qed
    have grow: "in_chunks (pl_chunks pl @ [sz]) p" if "in_chunks (pl_chunks pl) p" for p sz
      using that by (auto simp: in_chunks_def nth_append)
    have mine: "in_chunks (pl_chunks pl @ [sz]) (?c, i)" if "i < sz" for i sz using that by (simp add: in_chunks_def)
    have "distinct (pool_nodes (sb', pl'))"
      using fresh new old(2) assms(3,4) pl' by (auto simp: pool_nodes_def)
    moreover have "\<forall>x \<in> set (sb_nodes sb). in_chunks (pl_chunks pl @ [sz]) (bn_addr x)" for sz
      using old(1) by (auto intro: grow)
    then have "\<forall>p \<in> set (pool_nodes (sb', pl')). in_chunks (pl_chunks pl') p"
      using mine old(1) assms(3,4) pl' chunk_size_pos [of "?c + 1"] by (auto simp: pool_nodes_def)
    ultimately show ?thesis by (simp add: pool_wf_def)
  qed
qed

definition buffer_rel :: "bytes list \<Rightarrow> bytes \<Rightarrow> buffer_state \<Rightarrow> bool" where
  "buffer_rel blocks s st \<longleftrightarrow> sb_wf (fst st) \<and> sb_stream (fst st) = s \<and> pool_wf st \<and>
     pl_freed (snd st) @ map bn_msg (sb_nodes (fst st)) = blocks"

lemma buffer_rel_released:
  assumes "buffer_rel blocks s (sb, pl)" "sb_wf sb'" "sb_stream sb' = s'" "sb_nodes sb = used @ sb_nodes sb'" "pl' = released used pl"
  shows "buffer_rel blocks s' (sb', pl')"
  using assms pool_wf_released [of sb pl used sb'] by (auto simp: buffer_rel_def released_def)

lemma lpush_result:
  assumes "buffer_rel blocks s st" "data \<noteq> []" "length s + length data < 2 ^ 31"
  shows "\<exists>st'. lpushbuffer (Some (fst st)) (Some (snd st)) (Some data) (int (length data)) = Some (LuaOk (int (length (s @ data)), st')) \<and>
    buffer_rel (blocks @ [data]) (s @ data) st'"
proof -
  obtain sb pl where st: "st = (sb, pl)" by (cases st)
  from assms(1) have wf: "sb_wf sb" "sb_stream sb = s" "pool_wf (sb, pl)" "pl_freed pl @ map bn_msg (sb_nodes sb) = blocks"
    by (simp_all add: st buffer_rel_def)
  from push_result [OF wf(1) assms(2), of pl] assms(3) wf(2) obtain sb' pl' a where
    p: "lpushbuffer (Some sb) (Some pl) (Some data) (int (length data)) = Some (LuaOk (int (length (s @ data)), sb', pl'))"
    "sb_wf sb'" "sb_stream sb' = s @ data" "get_free_node pl = Some (a, pl')"
    "sb_nodes sb' = sb_nodes sb @ [\<lparr>bn_addr = a, bn_msg = data, bn_sz = int (length data)\<rparr>]" by auto
  from pool_wf_push [OF wf(3) p(4,5)] p wf(4) show ?thesis by (auto simp: st buffer_rel_def)
qed

lemma lpopbuffer_result:
  assumes "buffer_rel blocks s st"
  shows "\<exists>st'. lpopbuffer (Some (fst st)) (Some (snd st)) (int n) =
      Some (LuaOk (if length s < n \<or> n = 0 then None else Some (take n s), int (length (if length s < n then s else drop n s)), st')) \<and>
    buffer_rel blocks (if length s < n then s else drop n s) st'"
proof -
  obtain sb pl where st: "st = (sb, pl)" by (cases st)
  from assms have wf: "sb_wf sb" "sb_stream sb = s" by (simp_all add: st buffer_rel_def)
  from popbuffer_result [OF wf(1), of n pl] obtain sb' pl' used where
    p: "popbuffer (int n) (sb, pl) = Some (if length s < n \<or> n = 0 then None else Some (take n s), int (length (sb_stream sb')), sb', pl')"
    and q: "sb_wf sb'" "sb_stream sb' = (if length s < n then s else drop n s)" "sb_nodes sb = used @ sb_nodes sb'" "pl' = released used pl"
    unfolding wf(2) by blast
  from assms have "buffer_rel blocks s (sb, pl)" by (simp add: st)
  from buffer_rel_released [OF this q] p q(2) show ?thesis
    by (simp add: st lpopbuffer_def with_buffer_def)
qed

lemma buffer_call_result:
  assumes "buffer_rel blocks s (sb, pl)" "\<And>data. c = Call_push data \<Longrightarrow> data \<noteq> [] \<and> length s + length data < 2 ^ 31"
  shows "\<exists>st'. buffer_call c (sb, pl) = Some (LuaOk (fst (stream_call c s), st')) \<and>
    buffer_rel (blocks @ pushed [c]) (snd (stream_call c s)) st'"
proof -
  have wf: "sb_wf sb" "sb_stream sb = s" "pool_wf (sb, pl)" "pl_freed pl @ map bn_msg (sb_nodes sb) = blocks"
    using assms(1) by (simp_all add: buffer_rel_def)
  note rel = buffer_rel_released [OF assms(1)]
  show ?thesis
  proof (cases c)
    case (Call_push data)
    with lpush_result [OF assms(1), of data] assms(2) show ?thesis by (auto simp: buffer_call_def pushed_def)
  next
    case (Call_pop n)
    with lpopbuffer_result [OF assms(1), of n] show ?thesis by (auto simp: buffer_call_def pushed_def)
  next
    case (Call_readline sep)
    from readline_result [OF wf(1), of False sep pl, unfolded wf(2) if_False] obtain sb' pl' used where p: "readline False sep (sb, pl) =
        Some (case first_line sep s of None \<Rightarrow> No_line | Some i \<Rightarrow> Line (take i s), sb', pl')"
      "sb_wf sb'" "sb_stream sb' = (case first_line sep s of None \<Rightarrow> s | Some i \<Rightarrow> drop (i + length sep) s)"
      "sb_nodes sb = used @ sb_nodes sb'" "pl' = released used pl" by blast
    from rel [OF p(2-5)] p(1) Call_readline show ?thesis
      by (auto simp: buffer_call_def lreadline_def pushed_def split: option.splits)
  next
    case (Call_check sep)
    from readline_result [OF wf(1), of True sep new_pool, unfolded wf(2) if_True] obtain pl' where p: "readline True sep (sb, new_pool) =
        Some (case first_line sep s of None \<Rightarrow> No_line | Some i \<Rightarrow> Line_found, sb, pl')" by blast
    with assms(1) Call_check show ?thesis
      by (auto simp: buffer_call_def lreadline_def pushed_def split: option.splits)
  next
    case Call_readall
    from readall_result [OF wf(1), of pl] obtain sb' where p: "readall (sb, pl) = Some (s, sb', released (sb_nodes sb) pl)"
      "sb_wf sb'" "sb_nodes sb' = []" unfolding wf(2) by blast
    with rel [OF p(2), of "[]" "sb_nodes sb"] sb_stream_empty [OF p(2)] Call_readall show ?thesis
      by (auto simp: buffer_call_def lreadall_def with_buffer_def pushed_def)
  next
    case Call_clear
    from clearbuffer_result [OF wf(1), of pl] obtain sb' where p: "clearbuffer (sb, pl) = Some (sb', released (sb_nodes sb) pl)"
      "sb_wf sb'" "sb_nodes sb' = []" by blast
    with rel [OF p(2), of "[]" "sb_nodes sb"] sb_stream_empty [OF p(2)] Call_clear show ?thesis
      by (auto simp: buffer_call_def lclearbuffer_def with_buffer_def pushed_def)
  qed
qed



subsection \<open>Addresses\<close>

text \<open>A closing bracket before the opening one makes the length of the host negative.\<close>

lemma address_port_brackets: "address_port '']['' None = None"
  by (simp add: address_port_def strchr_def)

text \<open>A table of strings is sent as their concatenation.\<close>

lemma concat_table_all:
  "concat_table (map Some xs) ptr (length (concat xs)) = (ptr @ concat xs, 0)"
  by (induction xs arbitrary: ptr) auto

lemma get_buffer_table:
  assumes "length (concat xs) < 2 ^ 31"
  shows "get_buffer (Send_table (map Some xs)) = LuaOk (concat xs, int (length (concat xs)))"
proof -
  have "count_size (map Some xs) = LuaOk (length (concat xs))" by (induction xs) auto
  then show ?thesis using assms concat_table_all [of xs "[]"]
    by (simp add: get_buffer_def signed_of_nat signed_take_bit_int_eq_self)
qed

end
