(* ===== verification/Cluster_Link.thy ===== *)
theory Cluster_Link
  imports Cluster Lua_Buffer
begin

unbundle bit_operations_syntax

section \<open>Responses over a Lua socket (\<open>lua-cluster.c\<close>, \<open>lua-socket.c\<close>)\<close>

text \<open>
  The node that waits for responses reads them with \<open>socket.read\<close> from the buffer of its socket: two bytes
  of header, then the package, as \<open>read_response\<close> in \<open>clusterd.lua\<close> does. The packages that
  \<open>lpackresponse\<close> makes arrive whole, and the waiting coroutine gets the message.
\<close>

subsection \<open>Reading packages from a buffer\<close>

text \<open>
  What the reading coroutine waits for, and how far it gets when \<open>socket_message[1]\<close> has pushed a block: it
  is woken when the buffer holds as much as it asked for, and then takes it. The bodies that it read are
  the output.
\<close>

datatype read_required = Need_header | Need_body nat

fun need_size :: "read_required \<Rightarrow> nat" where
  "need_size Need_header = 2"
| "need_size (Need_body n) = n"

partial_function (option) read_loop ::
  "read_required \<Rightarrow> buffer_state \<Rightarrow> bytes list \<Rightarrow> (read_required \<times> buffer_state \<times> bytes list) option" where
  "read_loop need st out =
     do { r \<leftarrow> lpopbuffer (Some (fst st)) (Some (snd st)) (int (need_size need));
          (case r of
             LuaError e \<Rightarrow> None
           | LuaOk (None, _, st) \<Rightarrow> Some (need, st, out)
           | LuaOk (Some bs, _, st) \<Rightarrow>
               (case need of
                  Need_header \<Rightarrow> (case lheader bs of LuaError e \<Rightarrow> None | LuaOk sz \<Rightarrow> read_loop (Need_body sz) st out)
                | Need_body _ \<Rightarrow> read_loop Need_header st (out @ [bs]))) }"

declare read_loop.simps [code]

definition read_block :: "bytes \<Rightarrow> read_required \<times> buffer_state \<times> bytes list \<Rightarrow> (read_required \<times> buffer_state \<times> bytes list) option" where
  "read_block data = (\<lambda>(need, st, out).
     do { r \<leftarrow> lpushbuffer (Some (fst st)) (Some (snd st)) (Some data) (int (length data));
          (case r of LuaError e \<Rightarrow> None | LuaOk (sz, st) \<Rightarrow>
             if sz \<ge> int (need_size need) then read_loop need st out else Some (need, st, out)) })"

definition reader_start :: "read_required \<times> buffer_state \<times> bytes list" where
  "reader_start = (Need_header, (lnewbuffer, new_pool), [])"

lemma lheader_two: "lheader [a, b] = LuaOk (unat a * 256 + unat b)"
  using or_push_bit_8 [OF unat_byte_less [of b], of "unat a"] by (simp add: lheader_def)

text \<open>What the reader holds of a package that is not complete.\<close>

fun held :: "read_required \<Rightarrow> bytes \<Rightarrow> bytes \<Rightarrow> bool" where
  "held Need_header s rest = (rest = s \<and> length s < 2)"
| "held (Need_body n) s rest = (\<exists>a b. rest = a # b # s \<and> n = unat a * 256 + unat b \<and> length s < n)"

fun resumed :: "read_required \<Rightarrow> bytes \<Rightarrow> bytes \<Rightarrow> bool" where
  "resumed Need_header s rest = (rest = s)"
| "resumed (Need_body n) s rest = (\<exists>a b. rest = a # b # s \<and> n = unat a * 256 + unat b)"

lemma socket_read_loop_result:
  assumes "buffer_rel blocks s st" "resumed need s rest" "[] \<notin> set (fst (parse_packs rest))"
  shows "\<exists>need' st' s'. read_loop need st out = Some (need', st', out @ fst (parse_packs rest)) \<and>
    buffer_rel blocks s' st' \<and> held need' s' (snd (parse_packs rest))"
  using assms
proof (induction "2 * length rest - (case need of Need_header \<Rightarrow> 0 | Need_body n \<Rightarrow> 1)" arbitrary: need s st rest out rule: less_induct)
  case less
  show ?case
  proof (cases need)
    case Need_header
    with less.prems(2) have rest: "rest = s" by simp
    from lpopbuffer_result [OF less.prems(1), of 2] obtain k st' where
      p: "lpopbuffer (Some (fst st)) (Some (snd st)) 2 = Some (LuaOk (if length s < 2 then None else Some (take 2 s), k, st'))"
      "buffer_rel blocks (if length s < 2 then s else drop 2 s) st'" by auto
    show ?thesis
    proof (cases "length s < 2")
      case True
      with p Need_header rest show ?thesis by (subst read_loop.simps) (auto simp: parse_packs_short)
    next
      case False
      then obtain a b t where s: "s = a # b # t" using two_bytes [of s] by auto
      have eq: "read_loop need st out = read_loop (Need_body (unat a * 256 + unat b)) st' out"
        using p Need_header by (subst read_loop.simps) (simp add: s lheader_two)
      from p(2) have b: "buffer_rel blocks t st'" by (simp add: s)
      from less.hyps [of rest "Need_body (unat a * 256 + unat b)" t st'] b less.prems(3) rest s Need_header
      show ?thesis unfolding eq by auto
    qed
  next
    case (Need_body n)
    with less.prems(2) obtain a b where rest: "rest = a # b # s" and n: "n = unat a * 256 + unat b" by auto
    from lpopbuffer_result [OF less.prems(1), of n] obtain k st' where
      p: "lpopbuffer (Some (fst st)) (Some (snd st)) (int n) = Some (LuaOk (if length s < n \<or> n = 0 then None else Some (take n s), k, st'))"
      "buffer_rel blocks (if length s < n then s else drop n s) st'" by blast
    show ?thesis
    proof (cases "length s < n")
      case True
      then have "parse_packs rest = ([], rest)" using n rest by (intro parse_packs_cut) simp
      with True p Need_body rest n show ?thesis by (subst read_loop.simps) auto
    next
      case False
      have parse: "parse_packs rest = (take n s # fst (parse_packs (drop n s)), snd (parse_packs (drop n s)))"
        using parse_packs_step [of rest] False rest n by simp
      with less.prems(3) have n0: "n \<noteq> 0" and ne: "[] \<notin> set (fst (parse_packs (drop n s)))" by auto
      have eq: "read_loop need st out = read_loop Need_header st' (out @ [take n s])"
        using p(1) Need_body False n0 by (subst read_loop.simps) simp
      from p(2) False have b: "buffer_rel blocks (drop n s) st'" by simp
      from less.hyps [of "drop n s" Need_header "drop n s" st' "out @ [take n s]"] b ne rest Need_body
      show ?thesis unfolding eq parse by auto
    qed
  qed
qed

lemma read_block_result:
  assumes "buffer_rel blocks s st" "held need s rest" "[] \<notin> set (fst (parse_packs (rest @ data)))" "data \<noteq> []"
    "length s + length data < 2 ^ 31"
  shows "\<exists>need' st' s'. read_block data (need, st, out) = Some (need', st', out @ fst (parse_packs (rest @ data))) \<and>
    buffer_rel (blocks @ [data]) s' st' \<and> held need' s' (snd (parse_packs (rest @ data)))"
proof -
  from lpush_result [OF assms(1,4,5)] obtain st1 where
    p: "lpushbuffer (Some (fst st)) (Some (snd st)) (Some data) (int (length data)) = Some (LuaOk (int (length (s @ data)), st1))"
    and b: "buffer_rel (blocks @ [data]) (s @ data) st1" by blast
  have res: "resumed need (s @ data) (rest @ data)" using assms(2) by (cases need) auto
  show ?thesis
  proof (cases "length (s @ data) \<ge> need_size need")
    case True
    from socket_read_loop_result [OF b res assms(3), of out] obtain need' st' s' where
      r: "read_loop need st1 out = Some (need', st', out @ fst (parse_packs (rest @ data)))"
      "buffer_rel (blocks @ [data]) s' st'" "held need' s' (snd (parse_packs (rest @ data)))" by blast
    with p True show ?thesis by (auto simp: read_block_def)
  next
    case False
    have "parse_packs (rest @ data) = ([], rest @ data)" "held need (s @ data) (rest @ data)"
      using False assms(2) by (cases need; auto intro: parse_packs_short parse_packs_cut)+
    with p b False show ?thesis by (auto simp: read_block_def)
  qed
qed

lemma held_short: "held need s rest \<Longrightarrow> length s < 2 ^ 16"
proof (cases need)
  case (Need_body n)
  assume "held need s rest"
  with Need_body obtain a b :: u8 where "length s < unat a * 256 + unat b" by auto
  then show ?thesis using unat_byte_less [of a] unat_byte_less [of b] by simp
qed auto

lemma read_blocks_result:
  assumes "\<forall>data \<in> set datas. data \<noteq> [] \<and> length data + 2 ^ 16 \<le> 2 ^ 31" "[] \<notin> set (fst (parse_packs (concat datas)))"
  shows "\<exists>need st s. fold_opt read_block datas reader_start = Some (need, st, fst (parse_packs (concat datas))) \<and>
    buffer_rel datas s st \<and> held need s (snd (parse_packs (concat datas)))"
  using assms
proof (induction datas rule: rev_induct)
  case Nil
  have "buffer_rel [] [] (lnewbuffer, new_pool)"
    by (simp add: buffer_rel_def pool_wf_def pool_nodes_def sb_wf_def lnewbuffer_def new_pool_def sb_stream_def offset_ok_def)
  then show ?case by (auto simp: reader_start_def parse_packs_short intro!: exI [of _ "[]"])
next
  case (snoc data datas)
  let ?rest = "snd (parse_packs (concat datas))"
  have parse: "parse_packs (concat (datas @ [data])) =
      (fst (parse_packs (concat datas)) @ fst (parse_packs (?rest @ data)), snd (parse_packs (?rest @ data)))"
    using parse_packs_append [of "concat datas" data] by simp
  with snoc obtain need st s where ih: "fold_opt read_block datas reader_start = Some (need, st, fst (parse_packs (concat datas)))"
    "buffer_rel datas s st" "held need s ?rest" by auto
  have ne: "[] \<notin> set (fst (parse_packs (?rest @ data)))" using snoc.prems(2) parse by auto
  have d: "data \<noteq> []" "length s + length data < 2 ^ 31" using snoc.prems(1) held_short [OF ih(3)] by auto
  from read_block_result [OF ih(2,3) ne d] ih(1) show ?case unfolding parse by (auto simp: fold_opt_append)
qed

subsection \<open>What a response becomes\<close>

definition response_bodies :: "u32 \<Rightarrow> bool \<Rightarrow> bytes \<Rightarrow> bytes list" where
  "response_bodies session ok m =
     (if ok \<and> length m > MULTI_PART
      then (fill_uint32 session @ 2 # fill_uint32 (of_nat (length m))) # map (response_part session) (pieces m)
      else [fill_uint32 session @ (if ok then 1 else 0) # take MULTI_PART m])"

definition holds_message :: "response_arg \<Rightarrow> bytes \<Rightarrow> bool" where
  "holds_message arg m \<longleftrightarrow> arg = Resp_string m \<or> (\<exists>r. arg = Resp_block (m @ r) (int (length m)))"

fun packages_of :: "packed_response \<Rightarrow> bytes list" where
  "packages_of (One_package b) = [b]"
| "packages_of (Packages bs) = bs"

lemma block_read_take: "n \<le> length m \<Longrightarrow> block_read (m @ r) n = Some (take n m)"
  by (simp add: block_read_def)

lemma lpackresponse_bodies:
  fixes session :: u32
  assumes "holds_message arg m" "length m < 2 ^ 31"
  shows "\<exists>p. lpackresponse (sint session) ok arg = Some p \<and> packages_of p = map (the \<circ> lpack) (response_bodies session ok m)"
proof -
  let ?msg = "case arg of Resp_string s \<Rightarrow> s | Resp_block p n \<Rightarrow> p"
  let ?sz = "case arg of Resp_string s \<Rightarrow> length s | Resp_block p n \<Rightarrow> unat (word_of_int n :: u64)"
  have sz: "?sz = length m" using assms by (auto simp: holds_message_def unsigned_of_nat take_bit_nat_eq_self_iff)
  from assms(1) obtain r where msg: "?msg = m @ r" by (force simp: holds_message_def)
  show ?thesis
  proof (cases "ok \<and> length m > MULTI_PART")
    case True
    have pc: "nat (sint (of_nat (part_count (length m)) :: u32)) = part_count (length m)"
    proof -
      have "part_count (length m) < 2 ^ 31" using assms(2) by (simp add: part_count_def MULTI_PART_def)
      then show ?thesis by (simp add: signed_of_nat signed_take_bit_int_eq_self)
    qed
    have ne: "m \<noteq> []" using True by auto
    have head: "do { h \<leftarrow> fill_header 9; buf \<leftarrow> temp_buf (h # [fill_uint32 session, [2], fill_uint32 (of_nat (length m))]);
        Some (Packages (buf # map (the \<circ> lpack \<circ> response_part session) (pieces m))) } =
      Some (Packages (the (lpack (concat [fill_uint32 session, [2], fill_uint32 (of_nat (length m))])) #
        map (the \<circ> lpack \<circ> response_part session) (pieces m)))"
      by (rule temp_frame) (simp_all add: TEMP_LENGTH_def)
    with True show ?thesis unfolding lpackresponse_def Let_def sz msg pc
      by (auto simp: packresponse_parts_pieces [OF ne] response_bodies_def)
  next
    case False
    let ?n = "if \<not> ok \<and> length m > MULTI_PART then MULTI_PART else length m"
    have n: "?n \<le> length m" "take ?n m = take MULTI_PART m" "?n \<le> MULTI_PART" using False by auto
    have "do { h \<leftarrow> fill_header (?n + 5); buf \<leftarrow> temp_buf (h # [fill_uint32 session, [if ok then 1 else 0], take ?n m]); Some (One_package buf) } =
      Some (One_package (the (lpack (concat [fill_uint32 session, [if ok then 1 else 0], take ?n m]))))"
      using n(1,3) by (intro temp_frame) (simp_all add: TEMP_LENGTH_def MULTI_PART_def min_absorb2)
    with False n(2) show ?thesis unfolding lpackresponse_def Let_def sz msg
      by (simp only: block_read_take [OF n(1)] if_False Option.bind.simps response_bodies_def) simp
  qed
qed

lemma unpack_response_part:
  "lunpackresponse (response_part session p) = Some (Resp_values session True (Part_str (snd p)) (fst p))"
proof -
  have u: "unpack_uint32 (fill_uint32 session @ y) 0 = Some session" for y by (rule unpack_at [of _ "[]" _ y]) simp_all
  show ?thesis by (simp add: lunpackresponse_def response_part_def array_get_def nth_append u)
qed

lemma unpack_response_head:
  "lunpackresponse (fill_uint32 session @ 2 # fill_uint32 n) = Some (Resp_values session True (Part_int (uint n)) True)"
  "lunpackresponse (fill_uint32 session @ (if ok then 1 else 0) # m) = Some (Resp_values session ok (Part_str m) False)"
proof -
  have u: "unpack_uint32 (fill_uint32 session @ y) 0 = Some session" for y by (rule unpack_at [of _ "[]" _ y]) simp_all
  have u5: "unpack_uint32 (fill_uint32 session @ t # fill_uint32 n) 5 = Some n" for t
    by (rule unpack_at [of _ "fill_uint32 session @ [t]" _ "[]"]) simp_all
  show "lunpackresponse (fill_uint32 session @ 2 # fill_uint32 n) = Some (Resp_values session True (Part_int (uint n)) True)"
    by (simp add: lunpackresponse_def array_get_def nth_append u u5)
  show "lunpackresponse (fill_uint32 session @ (if ok then 1 else 0) # m) = Some (Resp_values session ok (Part_str m) False)"
    by (simp add: lunpackresponse_def array_get_def nth_append u)
qed

subsection \<open>Responses cross the link\<close>

primrec dispatch_all :: "bytes list \<Rightarrow> channel \<Rightarrow> (channel_event list \<times> channel) option" where
  "dispatch_all [] ch = Some ([], ch)"
| "dispatch_all (body # bodies) ch =
     do { (ev, ch) \<leftarrow> dispatch_response body ch;
          (if ev = Ch_close then Some ([ev], ch)
           else do { (evs, ch) \<leftarrow> dispatch_all bodies ch; Some (ev # evs, ch) }) }"

definition response_session :: "bytes \<Rightarrow> u32 option" where
  "response_session body = (case lunpackresponse body of Some (Resp_values s ok v pad) \<Rightarrow> Some s | _ \<Rightarrow> None)"

fun channel_session :: "channel_event \<Rightarrow> u32 option" where
  "channel_session (Ch_gather s) = Some s"
| "channel_session (Ch_wake s ok d) = Some s"
| "channel_session (Ch_unknown s) = Some s"
| "channel_session Ch_close = None"

lemma lunpackresponse_total: "\<exists>r. lunpackresponse body = Some r"
proof (cases "length body < 5")
  case True
  then show ?thesis by (simp add: lunpackresponse_def)
next
  case False
  then show ?thesis using unpack_in_range [of 0 body] unpack_in_range [of 5 body]
    by (cases "length body = 9") (auto simp: lunpackresponse_def array_get_def)
qed

definition same_session :: "u32 \<Rightarrow> channel \<Rightarrow> channel \<Rightarrow> bool" where
  "same_session s ch ch' \<longleftrightarrow> (s \<in> ch_thread ch \<longleftrightarrow> s \<in> ch_thread ch') \<and> ch_data ch s = ch_data ch' s"

lemma dispatch_response_ok:
  assumes "response_session body = Some s"
  shows "\<exists>ev ch'. dispatch_response body ch = Some (ev, ch') \<and> channel_session ev = Some s \<and>
    (\<forall>s'. s' \<noteq> s \<longrightarrow> same_session s' ch ch') \<and>
    (\<forall>ch0. same_session s ch0 ch \<longrightarrow> (\<exists>ch0'. dispatch_response body ch0 = Some (ev, ch0') \<and> same_session s ch0' ch'))"
proof -
  from assms obtain ok v pad where "lunpackresponse body = Some (Resp_values s ok v pad)"
    by (auto simp: response_session_def split: option.splits unpacked_response.splits)
  then show ?thesis by (auto simp: dispatch_response_def same_session_def)
qed

lemma dispatch_project:
  assumes "\<forall>b \<in> set bodies. response_session b \<noteq> None"
  shows "\<exists>evs ch'. dispatch_all bodies ch = Some (evs, ch') \<and>
    (\<forall>ch0. same_session s ch0 ch \<longrightarrow> (\<exists>ch0'. dispatch_all (filter (\<lambda>b. response_session b = Some s) bodies) ch0 =
       Some (filter (\<lambda>ev. channel_session ev = Some s) evs, ch0')))"
  using assms
proof (induction bodies arbitrary: ch)
  case (Cons b bs)
  from Cons.prems obtain s' where s': "response_session b = Some s'" by auto
  from dispatch_response_ok [OF s', of ch] obtain ev ch1 where d: "dispatch_response b ch = Some (ev, ch1)" "channel_session ev = Some s'"
    "\<forall>s''. s'' \<noteq> s' \<longrightarrow> same_session s'' ch ch1"
    "\<forall>ch0. same_session s' ch0 ch \<longrightarrow> (\<exists>ch0'. dispatch_response b ch0 = Some (ev, ch0') \<and> same_session s' ch0' ch1)" by blast
  from Cons.IH [of ch1] Cons.prems obtain evs ch' where ih: "dispatch_all bs ch1 = Some (evs, ch')"
    "\<forall>ch0. same_session s ch0 ch1 \<longrightarrow> (\<exists>ch0'. dispatch_all (filter (\<lambda>b. response_session b = Some s) bs) ch0 =
       Some (filter (\<lambda>ev. channel_session ev = Some s) evs, ch0'))" by auto
  have ne: "ev \<noteq> Ch_close" using d(2) by auto
  have "\<exists>ch0'. dispatch_all (filter (\<lambda>b. response_session b = Some s) (b # bs)) ch0 =
       Some (filter (\<lambda>ev. channel_session ev = Some s) (ev # evs), ch0')" if ss: "same_session s ch0 ch" for ch0
  proof (cases "s' = s")
    case True
    with d(4) ss obtain ch01 where "dispatch_response b ch0 = Some (ev, ch01)" "same_session s ch01 ch1" by blast
    with ih(2) s' True d(2) ne show ?thesis by fastforce
  next
    case False
    then have "same_session s ch0 ch1" using d(3) ss by (auto simp: same_session_def)
    with ih(2) s' False d(2) show ?thesis by auto
  qed
  with d(1) ih(1) ne show ?case by auto
qed (simp add: same_session_def)

text \<open>The packages of one response, alone.\<close>

lemma dispatch_parts:
  assumes "s \<in> ch_thread ch" "ch_data ch s = Some vs"
  shows "\<exists>evs ch'. dispatch_all (map (response_part s) (pieces m)) ch = Some (evs, ch') \<and>
    filter (\<lambda>ev. ev \<noteq> Ch_gather s) evs = [Ch_wake s True (Table (vs @ map (Part_str \<circ> snd) (pieces m)))]"
  using assms
proof (induction m arbitrary: ch vs rule: pieces_induct)
  case (small m)
  then show ?case by (simp add: dispatch_response_def unpack_response_part)
next
  case (large m)
  let ?ch = "ch\<lparr>ch_data := (ch_data ch)(s \<mapsto> vs @ [Part_str (take MULTI_PART m)])\<rparr>"
  have "dispatch_response (response_part s (True, take MULTI_PART m)) ch = Some (Ch_gather s, ?ch)"
    using large.prems by (simp add: dispatch_response_def unpack_response_part)
  moreover from large.IH [of ?ch "vs @ [Part_str (take MULTI_PART m)]"] large.prems obtain evs ch' where
    "dispatch_all (map (response_part s) (pieces (drop MULTI_PART m))) ?ch = Some (evs, ch')"
    "filter (\<lambda>ev. ev \<noteq> Ch_gather s) evs = [Ch_wake s True (Table ((vs @ [Part_str (take MULTI_PART m)]) @
       map (Part_str \<circ> snd) (pieces (drop MULTI_PART m))))]" by (auto simp del: fun_upd_apply) (auto simp: comp_def)
  ultimately show ?case using large(1) by (simp del: fun_upd_apply)
qed

lemma dispatch_own:
  assumes "s \<in> ch_thread ch" "ch_data ch s = None" "length m < 2 ^ 31"
  shows "\<exists>evs ch' d. dispatch_all (response_bodies s ok m) ch = Some (evs, ch') \<and>
    filter (\<lambda>ev. ev \<noteq> Ch_gather s) evs = [Ch_wake s ok d] \<and>
    response_message d = Some (Some (Part_str (if ok then m else take MULTI_PART m)))"
proof (cases "ok \<and> length m > MULTI_PART")
  case False
  then show ?thesis using assms(1,2) unfolding response_bodies_def
    by (auto simp: dispatch_response_def unpack_response_head response_message_def simp del: if_cancel)
next
  case True
  let ?n = "of_nat (length m) :: u32"
  let ?ch = "ch\<lparr>ch_data := (ch_data ch)(s \<mapsto> [Part_int (uint ?n)])\<rparr>"
  have n: "sint ?n = int (length m)" using assms(3) by (simp add: signed_of_nat signed_take_bit_int_eq_self)
  have c: "lconcat ([Part_int (uint ?n)] @ map (Part_str \<circ> snd) (pieces m)) = Some (Some m)"
    using concat_loop_strings [of "[]" "map snd (pieces m)" "length m"] by (simp add: lconcat_def n concat_pieces comp_def)
  have "dispatch_response (fill_uint32 s @ 2 # fill_uint32 ?n) ch = Some (Ch_gather s, ?ch)"
    using assms(1,2) by (simp add: dispatch_response_def unpack_response_head)
  moreover from dispatch_parts [of s ?ch "[Part_int (uint ?n)]" m] assms(1) obtain evs ch' where
    "dispatch_all (map (response_part s) (pieces m)) ?ch = Some (evs, ch')"
    "filter (\<lambda>ev. ev \<noteq> Ch_gather s) evs = [Ch_wake s True (Table ([Part_int (uint ?n)] @ map (Part_str \<circ> snd) (pieces m)))]" by auto
  ultimately show ?thesis using True c by (simp add: response_bodies_def response_message_def del: fun_upd_apply pieces_more)
qed

lemma response_bodies_small:
  assumes "b \<in> set (response_bodies session ok m)"
  shows "length b < 2 ^ 16"
proof (cases "ok \<and> length m > MULTI_PART")
  case True
  with assms consider "b = fill_uint32 session @ 2 # fill_uint32 (of_nat (length m))"
    | bp where "b = response_part session bp" "bp \<in> set (pieces m)" unfolding response_bodies_def by auto
  then show ?thesis
  proof cases
    case (2 bp)
    with pieces_small [of "fst bp" "snd bp" m] show ?thesis by (simp add: response_part_def MULTI_PART_def del: pieces_more)
  qed simp
next
  case False
  with assms show ?thesis by (auto simp: response_bodies_def MULTI_PART_def)
qed

text \<open>C14. Responses between nodes: when \<open>lpackresponse\<close> has packed a result of less than 2 GB, whole or in parts, and its
  packages arrive in order, among those of other sessions and cut anywhere, the reader of the Lua socket takes exactly the
  packages from its buffer, and the coroutine that waits for the session is woken once, with the success and the message;
  a failure's text is cut at 32K.\<close>

theorem cluster_response_delivered:
  fixes session :: u32
  assumes "holds_message arg m" "length m < 2 ^ 31" "lpackresponse (sint session) ok arg = Some packed"
    and "concat datas = concat frames" "\<forall>data \<in> set datas. data \<noteq> [] \<and> length data + 2 ^ 16 \<le> 2 ^ 31"
    and "\<forall>f \<in> set frames. (\<exists>b. lpack b = Some f) \<and> response_session (drop 2 f) \<noteq> None"
    and "filter (\<lambda>f. response_session (drop 2 f) = Some session) frames = packages_of packed"
    and "session \<in> ch_thread ch" "ch_data ch session = None"
  shows "\<exists>need st evs ch' d. fold_opt read_block datas reader_start = Some (need, st, map (drop 2) frames) \<and>
    dispatch_all (map (drop 2) frames) ch = Some (evs, ch') \<and>
    filter (\<lambda>ev. channel_session ev = Some session \<and> ev \<noteq> Ch_gather session) evs = [Ch_wake session ok d] \<and>
    response_message d = Some (Some (Part_str (if ok then m else take MULTI_PART m)))"
proof -
  let ?bodies = "map (drop 2) frames"
  have parse: "parse_packs (concat datas) = (?bodies, [])" using frames_parse [of frames] assms(4,6) by auto
  have "drop 2 f \<noteq> []" if "f \<in> set frames" for f
  proof
    assume "drop 2 f = []"
    then have "response_session (drop 2 f) = None" by (simp add: response_session_def lunpackresponse_def)
    with assms(6) that show False by blast
  qed
  then have "[] \<notin> set (fst (parse_packs (concat datas)))" unfolding parse by force
  from read_blocks_result [OF assms(5) this] obtain need st where
    read: "fold_opt read_block datas reader_start = Some (need, st, ?bodies)" unfolding parse by auto
  have known: "\<forall>b \<in> set ?bodies. response_session b \<noteq> None" using assms(6) by auto
  from dispatch_project [OF known, of ch session] obtain evs ch' where dis: "dispatch_all ?bodies ch = Some (evs, ch')"
    "\<exists>ch0'. dispatch_all (filter (\<lambda>b. response_session b = Some session) ?bodies) ch =
       Some (filter (\<lambda>ev. channel_session ev = Some session) evs, ch0')" by (auto simp: same_session_def)
  from lpackresponse_bodies [OF assms(1,2), of session ok] assms(3)
  have pk: "packages_of packed = map (the \<circ> lpack) (response_bodies session ok m)" by auto
  have "map (drop 2) (packages_of packed) = response_bodies session ok m"
    unfolding pk map_map by (intro map_idI) (auto simp: lpack_def write_size_def dest!: response_bodies_small)
  then have "filter (\<lambda>b. response_session b = Some session) ?bodies = response_bodies session ok m"
    using assms(7) by (simp add: filter_map comp_def)
  with dis(2) dispatch_own [OF assms(8,9,2), of ok] obtain d where
    "filter (\<lambda>ev. ev \<noteq> Ch_gather session) (filter (\<lambda>ev. channel_session ev = Some session) evs) = [Ch_wake session ok d]"
    "response_message d = Some (Some (Part_str (if ok then m else take MULTI_PART m)))" by auto
  with read dis(1) show ?thesis by (auto simp: conj_commute)
qed

theorem cluster_response_delivered_witness:
  "\<exists>packed need st evs ch'. lpackresponse 3 True (Resp_string [7, 8]) = Some packed \<and>
     fold_opt read_block [[0], [5, 9, 0, 0, 0, 1, 0], concat (map (drop 1) (packages_of packed))] reader_start =
       Some (need, st, [[9, 0, 0, 0, 1], [3, 0, 0, 0, 1, 7, 8]]) \<and>
     dispatch_all [[9, 0, 0, 0, 1], [3, 0, 0, 0, 1, 7, 8]] \<lparr>ch_thread = {3}, ch_data = \<lambda>_. None\<rparr> = Some (evs, ch') \<and>
     (\<exists>d. Ch_wake 3 True d \<in> set evs \<and> response_message d = Some (Some (Part_str [7, 8])))"
proof -
  let ?ch = "\<lparr>ch_thread = {3}, ch_data = \<lambda>_. None\<rparr>"
  let ?own = "[0, 7, 3, 0, 0, 0, 1, 7, 8] :: bytes" let ?fr = "[[0, 5, 9, 0, 0, 0, 1], ?own] :: bytes list"
  let ?datas = "[[0], [5, 9, 0, 0, 0, 1, 0], drop 1 ?own] :: bytes list"
  have pk: "lpackresponse (sint (3 :: u32)) True (Resp_string [7, 8]) = Some (One_package ?own)"
    by (simp add: lpackresponse_def MULTI_PART_def TEMP_LENGTH_def fill_header_def fill_uint32_def temp_buf_def block_read_def)
  have hold: "holds_message (Resp_string [7, 8]) [7, 8]" by (simp add: holds_message_def)
  have "write_size 5 = [0, 5]" "write_size 7 = [0, 7]" by (simp_all add: write_size_def)
  then have lp: "lpack [9, 0, 0, 0, 1] = Some [0, 5, 9, 0, 0, 0, 1]" "lpack [3, 0, 0, 0, 1, 7, 8] = Some ?own"
    using lpack_small [of "[9, 0, 0, 0, 1]" 5] lpack_small [of "[3, 0, 0, 0, 1, 7, 8]" 7] by simp_all
  have rs: "response_session [9, 0, 0, 0, 1] = Some 9" "response_session [3, 0, 0, 0, 1, 7, 8] = Some 3"
    by (simp_all add: response_session_def lunpackresponse_def unpack_uint32_def array_get_def)
  have fr: "\<forall>f \<in> set ?fr. (\<exists>b. lpack b = Some f) \<and> response_session (drop 2 f) \<noteq> None" using lp rs by (auto simp del: ex_simps)
  have own: "filter (\<lambda>f. response_session (drop 2 f) = Some 3) ?fr = packages_of (One_package ?own)" using rs by simp
  have cut: "concat ?datas = concat ?fr" "\<forall>data \<in> set ?datas. data \<noteq> [] \<and> length data + 2 ^ 16 \<le> 2 ^ 31" by simp_all
  from cluster_response_delivered [OF hold _ pk cut fr own, of ?ch] obtain need st evs ch' d where
    r: "fold_opt read_block ?datas reader_start = Some (need, st, map (drop 2) ?fr)" "dispatch_all (map (drop 2) ?fr) ?ch = Some (evs, ch')"
    "filter (\<lambda>ev. channel_session ev = Some 3 \<and> ev \<noteq> Ch_gather 3) evs = [Ch_wake 3 True d]"
    "response_message d = Some (Some (Part_str [7, 8]))" by (auto simp del: fold_opt.simps dispatch_all.simps)
  from r(3) have "Ch_wake 3 True d \<in> set evs" by (metis (no_types, lifting) filter_is_subset list.set_intros(1) subsetD)
  with r(1,2,4) pk show ?thesis
    by (intro exI [of _ "One_package ?own"] exI [of _ need] exI [of _ st] exI [of _ evs] exI [of _ ch'])
       (auto simp del: fold_opt.simps dispatch_all.simps)
qed

end
