(* ===== verification/Sproto_Pack.thy ===== *)
theory Sproto_Pack
  imports Prelude
begin

unbundle bit_operations_syntax

section \<open>The zero-packing of sproto (\<open>sproto.c\<close>)\<close>

text \<open>
  The last step of encoding a message: segments of eight bytes are replaced by a bit mask of their non-zero
  bytes and those bytes; runs of up to 256 full segments are copied behind a mark and their number. Then
  the two Lua functions of \<open>lsproto.c\<close> that call it.

  A destination is a list of bytes with arbitrary contents, of the size of the buffer; writing outside of it or
  reading outside the source is undefined. Lengths are those of an \<open>int\<close> that does not overflow.
\<close>

subsection \<open>Packing\<close>

text \<open>The loop of \<open>pack_seg\<close> over the bytes of a segment: the header, the count of non-zero bytes, and the
  bytes written while there is room.\<close>

primrec seg_loop :: "bytes \<Rightarrow> nat \<Rightarrow> u8 \<times> nat \<times> nat \<times> int \<times> bytes \<Rightarrow> (u8 \<times> nat \<times> nat \<times> int \<times> bytes) option" where
  "seg_loop [] i st = Some st"
| "seg_loop (b # bs) i st =
     (case st of (header, notzero, buffer, sz, dst) \<Rightarrow>
        if b \<noteq> 0
        then (if sz > 0
              then do { dst \<leftarrow> put_bytes buffer [b] dst;
                        seg_loop bs (i + 1) (header OR push_bit i 1, notzero + 1, buffer + 1, sz - 1, dst) }
              else seg_loop bs (i + 1) (header OR push_bit i 1, notzero + 1, buffer, sz, dst))
        else seg_loop bs (i + 1) st)"

definition pack_seg :: "bytes \<Rightarrow> nat \<Rightarrow> int \<Rightarrow> nat \<Rightarrow> bytes \<Rightarrow> (nat \<times> bytes) option" where
  "pack_seg src buffer sz n dst =
     do { (header, notzero, _, _, dst) \<leftarrow> seg_loop src 0 (0, 0, buffer + 1, sz - 1, dst);
          let notzero = (if (notzero = 7 \<or> notzero = 6) \<and> n > 0 then 8 else notzero);
          (if notzero = 8 then Some (if n > 0 then 8 else 10, dst)
           else do { dst \<leftarrow> (if sz - 1 < 0 then Some dst else put_bytes buffer [header] dst);
                     Some (notzero + 1, dst) }) }"

text \<open>Where a run of full segments started: in the source, or in the padded copy of its end.\<close>

datatype ff_src = In_src nat | In_tmp bytes

definition src_read :: "bytes \<Rightarrow> ff_src \<Rightarrow> nat \<Rightarrow> bytes option" where
  "src_read src p n =
     (case p of In_src off \<Rightarrow> if off + n \<le> length src then Some (take n (drop off src)) else None
      | In_tmp t \<Rightarrow> if n \<le> length t then Some (take n t) else None)"

definition write_ff :: "bytes \<Rightarrow> ff_src \<Rightarrow> nat \<Rightarrow> nat \<Rightarrow> bytes \<Rightarrow> bytes option" where
  "write_ff src p des n dst =
     (let align8_n = (n + 7) div 8 * 8 in
      do { bs \<leftarrow> src_read src p n;
           dst \<leftarrow> put_bytes des [0xff, of_nat (align8_n div 8 - 1)] dst;
           dst \<leftarrow> put_bytes (des + 2) bs dst;
           put_bytes (des + 2 + n) (replicate (align8_n - n) 0) dst })"

text \<open>The loop of \<open>sproto_pack\<close>: the place in the source and in the buffer, the room that is left, and the run of
  full segments.\<close>

record pack_state =
  ps_bufsz :: int
  ps_buffer :: nat
  ps_ff_src :: ff_src
  ps_ff_des :: nat
  ps_ff_n :: nat
  ps_size :: nat
  ps_dst :: bytes

definition pack_step :: "bytes \<Rightarrow> nat \<Rightarrow> pack_state \<Rightarrow> pack_state option" where
  "pack_step srcv i ps =
     (let padded = i + 8 > length srcv;
          seg = (if padded then drop i srcv @ replicate (i + 8 - length srcv) 0 else take 8 (drop i srcv));
          src = (if padded then In_tmp seg else In_src i) in
      do { (n, dst) \<leftarrow> pack_seg seg (ps_buffer ps) (ps_bufsz ps) (ps_ff_n ps) (ps_dst ps);
           let bufsz = ps_bufsz ps - int n;
           ps \<leftarrow> (if n = 10
                  then Some (ps\<lparr>ps_ff_src := src, ps_ff_des := ps_buffer ps, ps_ff_n := 1, ps_dst := dst\<rparr>)
                  else if n = 8 \<and> ps_ff_n ps > 0
                  then (if ps_ff_n ps + 1 = 256
                        then do { dst \<leftarrow> (if bufsz \<ge> 0 then write_ff srcv (ps_ff_src ps) (ps_ff_des ps) (256 * 8) dst else Some dst);
                                  Some (ps\<lparr>ps_ff_n := 0, ps_dst := dst\<rparr>) }
                        else Some (ps\<lparr>ps_ff_n := ps_ff_n ps + 1, ps_dst := dst\<rparr>))
                  else if ps_ff_n ps > 0
                  then do { dst \<leftarrow> (if bufsz \<ge> 0 then write_ff srcv (ps_ff_src ps) (ps_ff_des ps) (ps_ff_n ps * 8) dst else Some dst);
                            Some (ps\<lparr>ps_ff_n := 0, ps_dst := dst\<rparr>) }
                  else Some (ps\<lparr>ps_dst := dst\<rparr>));
           Some (ps\<lparr>ps_bufsz := bufsz, ps_buffer := ps_buffer ps + n, ps_size := ps_size ps + n\<rparr>) })"

function pack_loop :: "bytes \<Rightarrow> nat \<Rightarrow> pack_state \<Rightarrow> pack_state option" where
  "pack_loop srcv i ps =
     (if i < length srcv then do { ps \<leftarrow> pack_step srcv i ps; pack_loop srcv (i + 8) ps } else Some ps)"
  by pat_completeness auto
termination by (relation "measure (\<lambda>(srcv, i, ps). length srcv - i)") auto

declare pack_loop.simps [simp del]

definition sproto_pack :: "bytes \<Rightarrow> bytes \<Rightarrow> (nat \<times> bytes) option" where
  "sproto_pack srcv dst =
     do { ps \<leftarrow> pack_loop srcv 0 \<lparr>ps_bufsz = int (length dst), ps_buffer = 0, ps_ff_src = In_src 0, ps_ff_des = 0,
                                   ps_ff_n = 0, ps_size = 0, ps_dst = dst\<rparr>;
          dst \<leftarrow> (if ps_bufsz ps \<ge> 0
                 then (if ps_ff_n ps = 1 then write_ff srcv (ps_ff_src ps) (ps_ff_des ps) 8 (ps_dst ps)
                       else if ps_ff_n ps > 1
                       then (case ps_ff_src ps of
                               In_src off \<Rightarrow> write_ff srcv (In_src off) (ps_ff_des ps) (length srcv - off) (ps_dst ps)
                             | In_tmp t \<Rightarrow> None)
                       else Some (ps_dst ps))
                 else Some (ps_dst ps));
          Some (ps_size ps, dst) }"

subsection \<open>Unpacking\<close>

record unpack_state =
  us_src :: bytes
  us_srcsz :: int
  us_bufsz :: int
  us_buffer :: nat
  us_size :: nat
  us_dst :: bytes

text \<open>A byte is written while there is room. One bit of a header; a byte that is missing is read before the
  source is seen to have ended. \<open>Inl\<close> is the result \<open>-1\<close>.\<close>

definition put_out :: "u8 \<Rightarrow> unpack_state \<Rightarrow> unpack_state option" where
  "put_out b us =
     (if us_bufsz us > 0
      then do { dst \<leftarrow> put_bytes (us_buffer us) [b] (us_dst us);
                Some (us\<lparr>us_dst := dst, us_bufsz := us_bufsz us - 1, us_buffer := us_buffer us + 1\<rparr>) }
      else Some us)"

definition unpack_bit :: "bool \<Rightarrow> unpack_state \<Rightarrow> (unit + unpack_state) option" where
  "unpack_bit nz us =
     (if nz
      then (if us_srcsz us < 0 then Some (Inl ())
            else do { b \<leftarrow> array_get (us_src us) 0; us \<leftarrow> put_out b us;
                      Some (Inr (us\<lparr>us_src := drop 1 (us_src us), us_srcsz := us_srcsz us - 1, us_size := us_size us + 1\<rparr>)) })
      else do { us \<leftarrow> put_out 0 us; Some (Inr (us\<lparr>us_size := us_size us + 1\<rparr>)) })"

primrec unpack_bits :: "bool list \<Rightarrow> unpack_state \<Rightarrow> (unit + unpack_state) option" where
  "unpack_bits [] us = Some (Inr us)"
| "unpack_bits (nz # bits) us =
     (case unpack_bit nz us of None \<Rightarrow> None | Some (Inl u) \<Rightarrow> Some (Inl u) | Some (Inr us') \<Rightarrow> unpack_bits bits us')"

definition header_bits :: "u8 \<Rightarrow> bool list" where
  "header_bits header = map (\<lambda>i. (drop_bit i header) AND 1 \<noteq> 0) [0..<8]"

definition unpack_step :: "unpack_state \<Rightarrow> (unit + unpack_state) option" where
  "unpack_step us =
     do { header \<leftarrow> array_get (us_src us) 0;
          let us = us\<lparr>us_src := drop 1 (us_src us), us_srcsz := us_srcsz us - 1\<rparr>;
          (if header = 0xff
           then (if us_srcsz us < 0 then Some (Inl ())
                 else do { b \<leftarrow> array_get (us_src us) 0;
                           let n = (unat b + 1) * 8;
                           (if us_srcsz us < int n + 1 then Some (Inl ())
                            else do { bs \<leftarrow> (if us_bufsz us \<ge> int n then src_read (us_src us) (In_src 1) n else Some []);
                                      dst \<leftarrow> (if us_bufsz us \<ge> int n then put_bytes (us_buffer us) bs (us_dst us) else Some (us_dst us));
                                      Some (Inr (us\<lparr>us_src := drop (n + 1) (us_src us), us_srcsz := us_srcsz us - (int n + 1),
                                                    us_bufsz := us_bufsz us - int n, us_buffer := us_buffer us + n,
                                                    us_size := us_size us + n, us_dst := dst\<rparr>)) }) })
           else unpack_bits (header_bits header) us) }"

lemma put_out_srcsz: "put_out b us = Some us' \<Longrightarrow> us_srcsz us' = us_srcsz us"
  by (auto simp: put_out_def bind_eq_Some_conv split: if_splits)

lemma unpack_bit_srcsz: "unpack_bit nz us = Some (Inr us') \<Longrightarrow> us_srcsz us' \<le> us_srcsz us"
  by (auto simp: unpack_bit_def bind_eq_Some_conv split: if_splits dest!: put_out_srcsz)

lemma unpack_bits_srcsz: "unpack_bits bits us = Some (Inr us') \<Longrightarrow> us_srcsz us' \<le> us_srcsz us"
proof (induction bits arbitrary: us)
  case (Cons nz bits)
  from Cons.prems obtain us1 where "unpack_bit nz us = Some (Inr us1)" "unpack_bits bits us1 = Some (Inr us')"
    by (auto split: option.splits sum.splits)
  with Cons.IH [of us1] unpack_bit_srcsz show ?case by (meson order_trans)
qed simp

lemma unpack_step_srcsz:
  assumes "unpack_step us = Some (Inr us')"
  shows "us_srcsz us' < us_srcsz us"
proof -
  from assms obtain header where h: "array_get (us_src us) 0 = Some header" by (auto simp: unpack_step_def bind_eq_Some_conv)
  show ?thesis
  proof (cases "header = 0xff")
    case True
    have "- (uint y * 8) < 10" for y :: u8 using uint_ge_0 [of y] by linarith
    with assms h True show ?thesis by (auto simp: unpack_step_def Let_def bind_eq_Some_conv split: if_splits)
  next
    case False
    with assms h show ?thesis by (auto simp: unpack_step_def Let_def dest!: unpack_bits_srcsz)
  qed
qed

function unpack_loop :: "unpack_state \<Rightarrow> (unit + unpack_state) option" where
  "unpack_loop us =
     (if us_srcsz us > 0
      then (case unpack_step us of None \<Rightarrow> None | Some (Inl u) \<Rightarrow> Some (Inl u) | Some (Inr us') \<Rightarrow> unpack_loop us')
      else Some (Inr us))"
  by pat_completeness auto
termination
  by (relation "measure (\<lambda>us. nat (us_srcsz us))") (auto dest: unpack_step_srcsz)

declare unpack_loop.simps [simp del]

text \<open>The size, negative for a stream that cannot be unpacked, and the buffer.\<close>

definition sproto_unpack :: "bytes \<Rightarrow> bytes \<Rightarrow> (int \<times> bytes) option" where
  "sproto_unpack src dst =
     do { r \<leftarrow> unpack_loop \<lparr>us_src = src, us_srcsz = int (length src), us_bufsz = int (length dst), us_buffer = 0, us_size = 0, us_dst = dst\<rparr>;
          Some (case r of Inl _ \<Rightarrow> (- 1, dst) | Inr us \<Rightarrow> (int (us_size us), us_dst us)) }"

subsection \<open>The Lua functions\<close>

definition ENCODE_MAXSIZE :: nat where "ENCODE_MAXSIZE = 0x1000000"

text \<open>\<open>expand_buffer\<close> doubles the size of the buffer, which is not zero, until it is enough; the new buffer
  \<open>fresh n\<close> has arbitrary contents.\<close>

function expand_size :: "nat \<Rightarrow> nat \<Rightarrow> nat" where
  "expand_size osz nsz = (if 0 < osz \<and> 2 * osz < nsz then expand_size (2 * osz) nsz else 2 * osz)"
  by pat_completeness auto
termination by (relation "measure (\<lambda>(osz, nsz). nsz - osz)") auto

declare expand_size.simps [simp del]

definition expand_buffer :: "(nat \<Rightarrow> bytes) \<Rightarrow> nat \<Rightarrow> nat \<Rightarrow> bytes lua_result" where
  "expand_buffer fresh osz nsz =
     (let n = expand_size osz nsz in if n > ENCODE_MAXSIZE then LuaError ''object is too large'' else LuaOk (fresh n))"

text \<open>\<open>lpack\<close> and \<open>lunpack\<close>, with the buffer that they keep as an upvalue; the result is the string and the
  buffer that is kept.\<close>

definition pack_maxsz :: "nat \<Rightarrow> nat" where
  "pack_maxsz sz = (sz + 2047) div 2048 * 2 + sz + 2"

definition sproto_lpack :: "(nat \<Rightarrow> bytes) \<Rightarrow> bytes \<Rightarrow> bytes \<Rightarrow> (bytes \<times> bytes) lua_result option" where
  "sproto_lpack fresh upvalue src =
     (let maxsz = pack_maxsz (length src) in
      case (if length upvalue < maxsz then expand_buffer fresh (length upvalue) maxsz else LuaOk upvalue) of
        LuaError e \<Rightarrow> Some (LuaError e)
      | LuaOk output \<Rightarrow>
          do { (bytes, dst) \<leftarrow> sproto_pack src (take maxsz output);
               (if bytes > maxsz then Some (LuaError ''packing error'')
                else Some (LuaOk (take bytes dst, dst @ drop maxsz output))) })"

definition sproto_lunpack :: "(nat \<Rightarrow> bytes) \<Rightarrow> bytes \<Rightarrow> bytes \<Rightarrow> (bytes \<times> bytes) lua_result option" where
  "sproto_lunpack fresh upvalue src =
     do { (r, dst) \<leftarrow> sproto_unpack src upvalue;
          (if r < 0 then Some (LuaError ''Invalid unpack stream'')
           else if r > int (length upvalue)
           then (case expand_buffer fresh (length upvalue) (nat r) of
                   LuaError e \<Rightarrow> Some (LuaError e)
                 | LuaOk output \<Rightarrow>
                     do { (r2, dst) \<leftarrow> sproto_unpack src (take (nat r) output);
                          (if r2 < 0 then Some (LuaError ''Invalid unpack stream'')
                           else Some (LuaOk (take (nat r2) dst, dst @ drop (nat r) output))) })
           else Some (LuaOk (take (nat r) dst, dst))) }"

subsection \<open>Groups\<close>

text \<open>A packed stream is a sequence of single segments and of runs.\<close>

datatype pack_group = Seg bytes | Run bytes

fun group_raw :: "pack_group \<Rightarrow> bytes" where
  "group_raw (Seg s) = s"
| "group_raw (Run bs) = bs"

abbreviation nonzeros :: "bytes \<Rightarrow> bytes" where
  "nonzeros s \<equiv> filter (\<lambda>b. b \<noteq> 0) s"

primrec mask_from :: "nat \<Rightarrow> bytes \<Rightarrow> u8" where
  "mask_from i [] = 0"
| "mask_from i (b # bs) = (if b \<noteq> 0 then push_bit i 1 else 0) OR mask_from (i + 1) bs"

fun group_code :: "pack_group \<Rightarrow> bytes" where
  "group_code (Seg s) = mask_from 0 s # nonzeros s"
| "group_code (Run bs) = 0xff # of_nat (length bs div 8 - 1) # bs"

fun group_ok :: "pack_group \<Rightarrow> bool" where
  "group_ok (Seg s) = (length s = 8 \<and> length (nonzeros s) < 8)"
| "group_ok (Run bs) = (length bs mod 8 = 0 \<and> 0 < length bs \<and> length bs \<le> 2048)"

lemma seg_loop_result:
  assumes "buffer + nat sz \<le> length dst"
  shows "\<exists>buffer' sz' dst'. seg_loop bs i (h, nz, buffer, sz, dst) =
      Some (h OR mask_from i bs, nz + length (nonzeros bs), buffer', sz', dst') \<and>
    length dst' = length dst \<and> take buffer dst' = take buffer dst \<and>
    (int (length (nonzeros bs)) \<le> sz \<longrightarrow> take (buffer + length (nonzeros bs)) dst' = take buffer dst @ nonzeros bs)"
  using assms
proof (induction bs arbitrary: i h nz buffer sz dst)
  case (Cons b bs)
  show ?case
  proof (cases "b \<noteq> 0 \<and> sz > 0")
    case True
    let ?dst = "take buffer dst @ [b] @ drop (buffer + 1) dst"
    have room: "buffer + 1 \<le> length dst" using Cons.prems True by linarith
    then have put: "put_bytes buffer [b] dst = Some ?dst" by (simp add: put_bytes_ok)
    have len: "length ?dst = length dst" "buffer + 1 + nat (sz - 1) \<le> length ?dst" "take (Suc buffer) ?dst = take buffer dst @ [b]"
      using Cons.prems True by (auto simp: min_def)
    from Cons.IH [OF len(2), of "i + 1" "h OR push_bit i 1" "nz + 1"] obtain buffer' sz' dst' where
      ih: "seg_loop bs (i + 1) (h OR push_bit i 1, nz + 1, buffer + 1, sz - 1, ?dst) =
        Some ((h OR push_bit i 1) OR mask_from (i + 1) bs, nz + 1 + length (nonzeros bs), buffer', sz', dst')"
      "length dst' = length ?dst" "take (buffer + 1) dst' = take (buffer + 1) ?dst"
      "int (length (nonzeros bs)) \<le> sz - 1 \<longrightarrow> take (buffer + 1 + length (nonzeros bs)) dst' = take (buffer + 1) ?dst @ nonzeros bs"
      by blast
    have "take buffer dst' = take buffer dst"
      using arg_cong [OF ih(3), of "take buffer"] Cons.prems True by (simp add: min_def)
    with True put ih len show ?thesis by (auto simp: or.assoc)
  next
    case False
    then show ?thesis using Cons.IH [OF Cons.prems, of "i + 1" "h OR push_bit i 1" "nz + 1"] Cons.IH [OF Cons.prems, of "i + 1" h nz]
      by (auto simp: or.assoc)
  qed
qed simp

text \<open>The size that a segment adds, after a run or not.\<close>

definition seg_size :: "bytes \<Rightarrow> nat \<Rightarrow> nat" where
  "seg_size s n =
     (let z = length (nonzeros s) in if z = 8 \<or> n > 0 \<and> z \<ge> 6 then (if n > 0 then 8 else 10) else z + 1)"

lemma pack_seg_result:
  assumes "length s = 8" "buffer + nat sz = length dst" "1 \<le> sz"
  shows "\<exists>dst'. pack_seg s buffer sz n dst = Some (seg_size s n, dst') \<and> length dst' = length dst \<and> take buffer dst' = take buffer dst \<and>
    (\<not> (length (nonzeros s) = 8 \<or> n > 0 \<and> length (nonzeros s) \<ge> 6) \<longrightarrow> int (seg_size s n) \<le> sz \<longrightarrow>
       take (buffer + seg_size s n) dst' = take buffer dst @ group_code (Seg s))"
proof -
  let ?z = "length (nonzeros s)"
  have z: "?z \<le> 8" using length_filter_le [of _ s] assms(1) by metis
  have room: "buffer + 1 + nat (sz - 1) \<le> length dst" "buffer + 1 \<le> length dst" using assms(2,3) by linarith+
  from seg_loop_result [OF room(1), of s 0 0 0] obtain b' z' d where
    sl: "seg_loop s 0 (0, 0, buffer + 1, sz - 1, dst) = Some (mask_from 0 s, ?z, b', z', d)" "length d = length dst"
    "take (buffer + 1) d = take (buffer + 1) dst" "int ?z \<le> sz - 1 \<longrightarrow> take (buffer + 1 + ?z) d = take (buffer + 1) dst @ nonzeros s"
    by auto
  have tk: "take buffer d = take buffer dst" using arg_cong [OF sl(3), of "take buffer"] by (simp add: min_def)
  show ?thesis
  proof (cases "?z = 8 \<or> n > 0 \<and> ?z \<ge> 6")
    case True
    then have "?z = 6 \<or> ?z = 7 \<or> ?z = 8" using z by linarith
    with True sl tk show ?thesis by (auto simp: pack_seg_def seg_size_def Let_def)
  next
    case False
    let ?d = "take buffer d @ [mask_from 0 s] @ drop (buffer + 1) d"
    have len: "length ?d = length dst" using sl(2) room(2) by simp
    have small: "seg_size s n = ?z + 1" using False by (auto simp: seg_size_def Let_def)
    have "take (buffer + (?z + 1)) ?d = take buffer dst @ group_code (Seg s)" if "int (?z + 1) \<le> sz"
    proof -
      have "take (buffer + 1 + ?z) d = take (buffer + 1) dst @ nonzeros s" using sl(4) that by simp
      then have "drop (buffer + 1) (take (buffer + 1 + ?z) d) = nonzeros s" using room(2) by simp
      then have "take ?z (drop (buffer + 1) d) = nonzeros s" by (simp add: drop_take)
      then show ?thesis using tk room(2) sl(2) by (simp add: min_def)
    qed
    moreover have "pack_seg s buffer sz n dst = Some (?z + 1, ?d)"
      using sl(1,2) False z assms(3) room(2) by (auto simp: pack_seg_def Let_def put_bytes_ok)
    ultimately show ?thesis using tk len room(2) sl(2) unfolding small by (auto simp: min_def)
  qed
qed

text \<open>Writing a run fills exactly the place that was left for it.\<close>

lemma write_ff_result:
  assumes "src_read src p n = Some bs" "0 < n" "n \<le> 2048" "des + 2 + (n + 7) div 8 * 8 \<le> length dst"
  defines "pad \<equiv> bs @ replicate ((n + 7) div 8 * 8 - n) 0"
  shows "write_ff src p des n dst = Some (take des dst @ group_code (Run pad) @ drop (des + 2 + length pad) dst)"
    "length pad = (n + 7) div 8 * 8"
proof -
  let ?a = "(n + 7) div 8 * 8"
  have n: "length bs = n" using assms(1) by (auto simp: src_read_def split: ff_src.splits if_splits)
  have a: "n \<le> ?a" by linarith
  show len: "length pad = ?a" using n a by (simp add: pad_def)
  have div: "length pad div 8 - 1 = ?a div 8 - 1" using len by simp
  show "write_ff src p des n dst = Some (take des dst @ group_code (Run pad) @ drop (des + 2 + length pad) dst)"
    unfolding len using assms(1,4) n a
    by (simp add: write_ff_def Let_def put_bytes_def div pad_def len min_def) (auto simp: add.commute)
qed

lemma write_ff_run:
  assumes "start + 8 * k \<le> length src" "0 < k" "k \<le> 256" "des + 2 + 8 * k \<le> length dst"
  shows "write_ff src (In_src start) des (8 * k) dst =
    Some (take des dst @ group_code (Run (take (8 * k) (drop start src))) @ drop (des + 2 + 8 * k) dst)"
proof -
  have r: "src_read src (In_src start) (8 * k) = Some (take (8 * k) (drop start src))" using assms(1) by (simp add: src_read_def)
  have d: "(8 * k + 7) div 8 * 8 = 8 * k" by simp
  show ?thesis using write_ff_result [OF r, of des dst] assms d by (simp add: min_absorb2)
qed

subsection \<open>The loop builds groups\<close>

text \<open>The source, padded to whole segments.\<close>

definition pad8 :: "bytes \<Rightarrow> bytes" where
  "pad8 src = src @ replicate ((length src + 7) div 8 * 8 - length src) 0"

lemma length_pad8: "length (pad8 src) = (length src + 7) div 8 * 8"
proof -
  have "length src \<le> (length src + 7) div 8 * 8" by linarith
  then show ?thesis by (simp add: pad8_def)
qed

text \<open>The segment that a turn of the loop packs.\<close>

lemma pad8_segment:
  assumes "i < length src" "i mod 8 = 0"
  shows "(if i + 8 > length src then drop i src @ replicate (i + 8 - length src) 0 else take 8 (drop i src)) = take 8 (drop i (pad8 src))"
    "i + 8 \<le> length (pad8 src)" "length (nonzeros (take 8 (drop i (pad8 src)))) \<le> length src - i"
proof -
  have l: "i + 8 \<le> (length src + 7) div 8 * 8"
  proof -
    obtain j where "i = 8 * j" using assms(2) by (metis mod_0_imp_dvd dvd_def)
    moreover from this have "j + 1 \<le> (length src + 7) div 8" using div_le_mono [of "8 * (j + 1)" "length src + 7" 8] assms(1) by simp
    ultimately show ?thesis by simp
  qed
  then show "i + 8 \<le> length (pad8 src)" by (simp add: length_pad8)
  show "(if i + 8 > length src then drop i src @ replicate (i + 8 - length src) 0 else take 8 (drop i src)) = take 8 (drop i (pad8 src))"
    using l assms(1) by (auto simp: pad8_def min_def)
  have "nonzeros (replicate n 0) = []" for n by simp
  then have "length (nonzeros (take 8 (drop i (pad8 src)))) = length (nonzeros (take 8 (drop i src)))"
    using assms(1) by (simp add: pad8_def take_replicate)
  also have "\<dots> \<le> length (take 8 (drop i src))" by (rule length_filter_le)
  finally show "length (nonzeros (take 8 (drop i (pad8 src)))) \<le> length src - i" by simp
qed

definition pack_inv :: "bytes \<Rightarrow> nat \<Rightarrow> nat \<Rightarrow> pack_state \<Rightarrow> pack_group list \<Rightarrow> nat \<Rightarrow> bool" where
  "pack_inv src cap i ps gs c \<longleftrightarrow>
     length (ps_dst ps) = cap \<and> ps_buffer ps = ps_size ps \<and> ps_bufsz ps = int cap - int (ps_size ps) \<and> ps_size ps \<le> cap \<and>
     (\<forall>g \<in> set gs. group_ok g) \<and> ps_size ps \<le> pack_maxsz (length src) \<and>
     (i \<le> length src \<longrightarrow> ps_size ps \<le> i + 2 * c + (if ps_ff_n ps > 0 then 2 else 0)) \<and>
     2048 * c + 8 * ps_ff_n ps \<le> i \<and> ps_ff_n ps < 256 \<and>
     (if ps_ff_n ps = 0
      then take (ps_size ps) (ps_dst ps) = concat (map group_code gs) \<and> concat (map group_raw gs) = take i (pad8 src)
      else \<exists>start. ps_ff_src ps = In_src start \<and> start + 8 * ps_ff_n ps = i \<and> start + 8 \<le> length src \<and>
           ps_ff_des ps + 2 + 8 * ps_ff_n ps = ps_size ps \<and>
           take (ps_ff_des ps) (ps_dst ps) = concat (map group_code gs) \<and> concat (map group_raw gs) = take start (pad8 src))"

lemma maxsz_room:
  "2048 * c \<le> n \<Longrightarrow> n + 2 * c + 2 \<le> pack_maxsz n" "2048 * c < n \<Longrightarrow> n + 2 * c + 4 \<le> pack_maxsz n"
proof -
  have "c \<le> (n + 2047) div 2048" if "2048 * c \<le> n" using div_le_mono [of "2048 * c" "n + 2047" 2048] that by simp
  then show "2048 * c \<le> n \<Longrightarrow> n + 2 * c + 2 \<le> pack_maxsz n" by (simp add: pack_maxsz_def)
  have "c + 1 \<le> (n + 2047) div 2048" if "2048 * c < n" using div_le_mono [of "2048 * (c + 1)" "n + 2047" 2048] that by simp
  then show "2048 * c < n \<Longrightarrow> n + 2 * c + 4 \<le> pack_maxsz n" by (simp add: pack_maxsz_def)
qed

lemma nonzeros_le: "length s = 8 \<Longrightarrow> length (nonzeros s) \<le> 8"
  using length_filter_le [of "\<lambda>b. b \<noteq> 0" s] by simp

lemma take_two: "take (length (xs @ ys) + n) (xs @ ys @ zs) = (xs @ ys) @ take n zs"
  by simp

text \<open>A segment outside a run.\<close>

lemma pack_step_single:
  assumes "pack_inv src cap i ps gs c" "i < length src" "i mod 8 = 0" "pack_maxsz (length src) \<le> cap" "ps_ff_n ps = 0"
  shows "\<exists>ps' gs'. pack_step src i ps = Some ps' \<and> pack_inv src cap (i + 8) ps' gs' c"
proof -
  let ?s = "take 8 (drop i (pad8 src))" let ?p = "ps_size ps" let ?L = "length src"
  note seg = pad8_segment [OF assms(2,3)]
  have s8: "length ?s = 8" using seg(2) by simp
  have inv: "length (ps_dst ps) = cap" "ps_buffer ps = ?p" "ps_bufsz ps = int cap - int ?p" "?p \<le> cap" "\<forall>g \<in> set gs. group_ok g"
    "?p \<le> i + 2 * c" "2048 * c \<le> i" "take ?p (ps_dst ps) = concat (map group_code gs)" "concat (map group_raw gs) = take i (pad8 src)"
    using assms(1,2,5) by (auto simp: pack_inv_def)
  let ?n = "seg_size ?s 0"
  have n: "?n = (if length (nonzeros ?s) = 8 then 10 else length (nonzeros ?s) + 1)"
    using nonzeros_le [OF s8] by (simp_all add: seg_size_def Let_def)
  then have n1: "1 \<le> ?n" by simp
  have mx: "?L + 2 * c + 2 \<le> pack_maxsz ?L" using maxsz_room(1) [of c ?L] inv(7) assms(2) by linarith
  have room: "?p + ?n \<le> pack_maxsz ?L" "?p + ?n \<le> i + 8 + 2 * c + (if length (nonzeros ?s) = 8 then 2 else 0)"
    using mx inv(6) seg(3) n nonzeros_le [OF s8] assms(2) by auto
  have room1: "?p + nat (ps_bufsz ps) = length (ps_dst ps)" "1 \<le> ps_bufsz ps" "int ?n \<le> ps_bufsz ps"
    using inv(1,3,4) room(1) assms(4) n1 by auto
  from pack_seg_result [OF s8 room1(1,2), of 0] obtain d where
    d: "pack_seg ?s ?p (ps_bufsz ps) 0 (ps_dst ps) = Some (?n, d)" "length d = cap" "take ?p d = take ?p (ps_dst ps)"
    "length (nonzeros ?s) \<noteq> 8 \<longrightarrow> take (?p + ?n) d = take ?p (ps_dst ps) @ group_code (Seg ?s)"
    using room1(3) inv(1) by auto
  have more: "take (i + 8) (pad8 src) = take i (pad8 src) @ ?s" by (simp add: take_add)
  show ?thesis
  proof (cases "length (nonzeros ?s) = 8")
    case True
    then have n10: "?n = 10" and full: "i + 8 \<le> ?L" using n seg(3) assms(2) by auto
    let ?ps = "ps\<lparr>ps_ff_src := In_src i, ps_ff_des := ?p, ps_ff_n := 1, ps_dst := d, ps_bufsz := ps_bufsz ps - 10,
            ps_buffer := ?p + 10, ps_size := ?p + 10\<rparr>"
    have "pack_step src i ps = Some ?ps"
      using d(1) n10 full assms(5) inv(2) unfolding pack_step_def Let_def seg(1) by simp
    moreover have "pack_inv src cap (i + 8) ?ps gs c"
      unfolding pack_inv_def using d(2,3) inv n10 full room True assms(4) by auto
    ultimately show ?thesis by blast
  next
    case False
    then have n8: "?n \<noteq> 10" "?n \<le> 8" using n nonzeros_le [OF s8] by auto
    let ?ps = "ps\<lparr>ps_dst := d, ps_bufsz := ps_bufsz ps - int ?n, ps_buffer := ?p + ?n, ps_size := ?p + ?n\<rparr>"
    have step: "pack_step src i ps = Some ?ps"
      using d(1) n8(1) assms(5) inv(2) unfolding pack_step_def Let_def seg(1) by simp
    have code: "take (?p + ?n) d = concat (map group_code (gs @ [Seg ?s]))" using d(4) False inv(8) by simp
    have raw: "concat (map group_raw (gs @ [Seg ?s])) = take (i + 8) (pad8 src)" using inv(9) more by simp
    have ok: "\<forall>g \<in> set (gs @ [Seg ?s]). group_ok g" using inv(5) False s8 nonzeros_le [OF s8] by auto
    have "pack_inv src cap (i + 8) ?ps (gs @ [Seg ?s]) c"
      unfolding pack_inv_def using code raw ok inv(2,3,7) d(2) room False assms(4,5)
      by (simp del: group_code.simps map_append concat_append set_append)
    with step show ?thesis by blast
  qed
qed

text \<open>A segment after a run has started; a run of 256 segments must not end with the padded one, or the copy
  would leave the source.\<close>

lemma pack_step_run:
  assumes "pack_inv src cap i ps gs c" "i < length src" "i mod 8 = 0" "pack_maxsz (length src) \<le> cap" "ps_ff_n ps = k" "0 < k"
    "length src mod 8 < 6 \<or> length src \<le> 2040"
  shows "\<exists>ps' gs' c'. pack_step src i ps = Some ps' \<and> pack_inv src cap (i + 8) ps' gs' c'"
proof -
  let ?s = "take 8 (drop i (pad8 src))" let ?p = "ps_size ps" let ?L = "length src"
  note seg = pad8_segment [OF assms(2,3)]
  have s8: "length ?s = 8" using seg(2) by simp
  from assms obtain start where inv: "length (ps_dst ps) = cap" "ps_buffer ps = ?p" "ps_bufsz ps = int cap - int ?p" "?p \<le> cap"
    "\<forall>g \<in> set gs. group_ok g" "?p \<le> i + 2 * c + 2" "2048 * c + 8 * k \<le> i" "k < 256"
    "ps_ff_src ps = In_src start" "start + 8 * k = i" "ps_ff_des ps + 2 + 8 * k = ?p"
    "take (ps_ff_des ps) (ps_dst ps) = concat (map group_code gs)" "concat (map group_raw gs) = take start (pad8 src)" "start + 8 \<le> ?L"
    by (auto simp: pack_inv_def)
  let ?des = "ps_ff_des ps"
  let ?n = "seg_size ?s k"
  have n: "?n = (if length (nonzeros ?s) \<ge> 6 then 8 else length (nonzeros ?s) + 1)" "?n \<le> 8" "?n \<noteq> 10" "1 \<le> ?n"
    using nonzeros_le [OF s8] assms(6) by (auto simp: seg_size_def Let_def)
  have mx: "?L + 2 * c + 4 \<le> pack_maxsz ?L" using maxsz_room(2) [of c ?L] inv(7) assms(2) by linarith
  have room: "?p + ?n \<le> pack_maxsz ?L"
    using mx inv(6) seg(3) n(1) assms(2) by (auto split: if_splits)
  have pcap: "?p + ?n \<le> cap" using room assms(4) by simp
  have room1: "?p + nat (ps_bufsz ps) = length (ps_dst ps)" "1 \<le> ps_bufsz ps" "int ?n \<le> ps_bufsz ps"
    using inv(1,3,4) pcap n(4) by auto
  from pack_seg_result [OF s8 room1(1,2), of k] obtain d where
    d: "pack_seg ?s ?p (ps_bufsz ps) k (ps_dst ps) = Some (?n, d)" "length d = cap" "take ?p d = take ?p (ps_dst ps)"
    "length (nonzeros ?s) < 6 \<longrightarrow> take (?p + ?n) d = take ?p (ps_dst ps) @ group_code (Seg ?s)"
    using room1(3) inv(1) assms(6) by auto
  have tdes: "take ?des d = concat (map group_code gs)"
    using arg_cong [OF d(3), of "take ?des"] inv(11,12) by (simp add: min_def)
  have ldes: "length (concat (map group_code gs)) = ?des"
    using arg_cong [OF tdes, of length] d(2) inv(4,11) by (simp add: min_def)
  have src: "take m (drop start (pad8 src)) = take m (drop start src)" if "start + m \<le> ?L" for m
    using that by (simp add: pad8_def)
  show ?thesis
  proof (cases "length (nonzeros ?s) \<ge> 6")
    case True
    then have n8: "?n = 8" using n(1) by simp
    show ?thesis
    proof (cases "k + 1 = 256")
      case True
      let ?run = "Run (take (8 * 256) (drop start src))"
      have o: "start + 8 * 256 = i + 8" "?des + 2 + 8 * 256 = ?p + 8" using True inv(10,11) by auto
      have full: "i + 8 \<le> ?L"
      proof (rule ccontr)
        assume short: "\<not> i + 8 \<le> ?L"
        have "2040 < ?L" using o(1) assms(2) by simp
        then have "?L mod 8 < 6" using assms(7) by simp
        moreover have "?L mod 8 = (?L - i) mod 8" using assms(2,3) mod_add_left_eq [of i 8 "?L - i"] by simp
        moreover have "(?L - i) mod 8 = ?L - i" using short by simp
        ultimately show False using seg(3) \<open>length (nonzeros ?s) \<ge> 6\<close> by simp
      qed
      define D where "D = take ?des d @ group_code ?run @ drop (?p + 8) d"
      have "write_ff src (In_src start) ?des (8 * 256) d = Some (take ?des d @ group_code ?run @ drop (?des + 2 + 8 * 256) d)"
        by (rule write_ff_run) (use o d(2) pcap n8 full in simp_all)
      then have w: "write_ff src (In_src start) ?des (256 * 8) d = Some D" unfolding o(2) D_def by (simp only: mult.commute)
      let ?ps = "ps\<lparr>ps_ff_n := 0, ps_dst := D, ps_bufsz := ps_bufsz ps - 8, ps_buffer := ?p + 8, ps_size := ?p + 8\<rparr>"
      have step: "pack_step src i ps = Some ?ps"
        using d(1) w n8 assms(5,6) inv(2,3,9) True pcap unfolding pack_step_def Let_def seg(1) by simp
      have lr: "length (take (8 * 256) (drop start src)) = 2048" using o(1) full by simp
      then have len: "length (group_code ?run) = 8 * 256 + 2" by simp
      have code: "take (?p + 8) D = concat (map group_code (gs @ [?run]))" "length D = cap"
        unfolding D_def tdes o(2) [symmetric] using len ldes o(2) d(2) pcap n8 by (simp_all del: group_code.simps)
      have raw: "concat (map group_raw (gs @ [?run])) = take (i + 8) (pad8 src)"
        using inv(13) take_add [of start "8 * 256" "pad8 src"] src [of "8 * 256"] full unfolding o(1) [symmetric] by simp
      have ok: "\<forall>g \<in> set (gs @ [?run]). group_ok g" using inv(5) lr by auto
      have sizes: "?p + 8 \<le> i + 8 + 2 * (c + 1)" "?p + 8 \<le> cap" "2048 * (c + 1) \<le> i + 8" "ps_bufsz ps - 8 = int cap - int (?p + 8)"
        "?p + 8 \<le> pack_maxsz ?L" using inv(3,6,7) True pcap n8 room by simp_all
      have "pack_inv src cap (i + 8) ?ps (gs @ [?run]) (c + 1)"
        unfolding pack_inv_def using code raw ok sizes by (simp del: group_code.simps map_append concat_append set_append)
      with step show ?thesis by blast
    next
      case False
      let ?ps = "ps\<lparr>ps_ff_n := k + 1, ps_dst := d, ps_bufsz := ps_bufsz ps - 8, ps_buffer := ?p + 8, ps_size := ?p + 8\<rparr>"
      have step: "pack_step src i ps = Some ?ps"
        using d(1) n8 assms(5,6) inv(2) False unfolding pack_step_def Let_def seg(1) by simp
      have "pack_inv src cap (i + 8) ?ps gs c"
        unfolding pack_inv_def using inv d(2) tdes pcap n8 room False by (auto simp: algebra_simps)
      with step show ?thesis by blast
    qed
  next
    case False
    then have n8: "?n = length (nonzeros ?s) + 1" "?n \<le> 6" "?n \<noteq> 8" using n(1) by auto
    let ?run = "Run (take (8 * k) (drop start src))"
    define D where "D = take ?des d @ group_code ?run @ drop ?p d"
    have "write_ff src (In_src start) ?des (8 * k) d = Some D"
      using write_ff_run [of start k src ?des d] inv(4,8,10,11) d(2) assms(2,6) by (simp add: D_def)
    then have w: "write_ff src (In_src start) ?des (k * 8) d = Some D" by (simp only: mult.commute)
    let ?ps = "ps\<lparr>ps_ff_n := 0, ps_dst := D, ps_bufsz := ps_bufsz ps - int ?n, ps_buffer := ?p + ?n, ps_size := ?p + ?n\<rparr>"
    have step: "pack_step src i ps = Some ?ps"
      using d(1) w n8 n(3) assms(5,6) inv(2,3,9) room1(3) unfolding pack_step_def Let_def seg(1) by simp
    have lr: "length (take (8 * k) (drop start src)) = 8 * k" using inv(10) assms(2) by simp
    then have len: "length (group_code ?run) = 8 * k + 2" by simp
    have "drop ?p (take (?p + ?n) d) = group_code (Seg ?s)" using d(4) False inv(1,4) by simp
    then have sg: "take ?n (drop ?p d) = group_code (Seg ?s)" by (simp add: drop_take)
    have code: "take (?p + ?n) D = concat (map group_code (gs @ [?run, Seg ?s]))" "length D = cap"
    proof -
      let ?A = "concat (map group_code gs)" and ?B = "group_code ?run"
      have p: "?p = length (?A @ ?B)" using ldes len inv(11) by simp
      have "take (?p + ?n) (?A @ ?B @ drop ?p d) = (?A @ ?B) @ take ?n (drop ?p d)" unfolding p by (rule take_two)
      then show "take (?p + ?n) D = concat (map group_code (gs @ [?run, Seg ?s]))" unfolding D_def tdes sg by simp
      have "?p \<le> length d" using inv(4) d(2) by simp
      then show "length D = cap" unfolding D_def tdes using p d(2) by simp
    qed
    have raw: "concat (map group_raw (gs @ [?run, Seg ?s])) = take (i + 8) (pad8 src)"
      using inv(13) take_add [of start "8 * k" "pad8 src"] take_add [of "start + 8 * k" 8 "pad8 src"] src [of "8 * k"] assms(2)
      unfolding inv(10) [symmetric] by simp
    have ok: "\<forall>g \<in> set (gs @ [?run, Seg ?s]). group_ok g" using inv(5) lr s8 False assms(6) inv(8) by auto
    have sizes: "?p + ?n \<le> i + 8 + 2 * c" "2048 * c \<le> i + 8" "ps_bufsz ps - int ?n = int cap - int (?p + ?n)"
      using inv(3,6,7) n8(2) by simp_all
    have "pack_inv src cap (i + 8) ?ps (gs @ [?run, Seg ?s]) c"
      unfolding pack_inv_def using code raw ok sizes room pcap by (simp del: group_code.simps map_append concat_append set_append)
    with step show ?thesis by blast
  qed
qed

lemma pack_loop_result:
  assumes "pack_inv src cap i ps gs c" "i mod 8 = 0" "pack_maxsz (length src) \<le> cap" "length src mod 8 < 6 \<or> length src \<le> 2040"
    "i \<le> length (pad8 src)"
  shows "\<exists>ps' gs' c'. pack_loop src i ps = Some ps' \<and> pack_inv src cap (length (pad8 src)) ps' gs' c'"
  using assms
proof (induction "length src - i" arbitrary: i ps gs c rule: less_induct)
  case less
  show ?case
  proof (cases "i < length src")
    case True
    have "\<exists>ps1 gs1 c1. pack_step src i ps = Some ps1 \<and> pack_inv src cap (i + 8) ps1 gs1 c1"
      using pack_step_single [OF less.prems(1) True less.prems(2,3)] pack_step_run [OF less.prems(1) True less.prems(2,3) refl _ less.prems(4)]
      by (cases "ps_ff_n ps = 0") auto
    then obtain ps1 gs1 c1 where 1: "pack_step src i ps = Some ps1" "pack_inv src cap (i + 8) ps1 gs1 c1" by blast
    from less.hyps [OF _ 1(2) _ less.prems(3,4)] pad8_segment(2) [OF True less.prems(2)] True less.prems(2) 1(1) show ?thesis
      by (subst pack_loop.simps) simp
  next
    case False
    obtain j where j: "i = 8 * j" using less.prems(2) by (metis mod_0_imp_dvd dvd_def)
    have "(length src + 7) div 8 \<le> j" using div_le_mono [of "length src + 7" "8 * j + 7" 8] False j by simp
    then have "i = length (pad8 src)" using less.prems(5) j by (simp add: length_pad8)
    with less.prems(1) False show ?thesis by (subst pack_loop.simps) auto
  qed
qed

text \<open>Packing writes the groups of the padded source, within the bound of \<open>lpack\<close>.\<close>

lemma sproto_pack_result:
  assumes "pack_maxsz (length src) \<le> length dst" "length src mod 8 < 6 \<or> length src \<le> 2040"
  shows "\<exists>n dst' gs. sproto_pack src dst = Some (n, dst') \<and> length dst' = length dst \<and> n \<le> pack_maxsz (length src) \<and>
    (\<forall>g \<in> set gs. group_ok g) \<and> take n dst' = concat (map group_code gs) \<and> concat (map group_raw gs) = pad8 src"
proof -
  let ?ps0 = "\<lparr>ps_bufsz = int (length dst), ps_buffer = 0, ps_ff_src = In_src 0, ps_ff_des = 0, ps_ff_n = 0, ps_size = 0, ps_dst = dst\<rparr>"
  have "pack_inv src (length dst) 0 ?ps0 [] 0" by (simp add: pack_inv_def)
  from pack_loop_result [OF this _ assms] obtain ps gs c where
    ps: "pack_loop src 0 ?ps0 = Some ps" "pack_inv src (length dst) (length (pad8 src)) ps gs c" by auto
  let ?k = "ps_ff_n ps" let ?p = "ps_size ps"
  have inv: "length (ps_dst ps) = length dst" "ps_bufsz ps \<ge> 0" "?p \<le> length dst" "\<forall>g \<in> set gs. group_ok g" "?p \<le> pack_maxsz (length src)" "?k < 256"
    using ps(2) by (auto simp: pack_inv_def)
  show ?thesis
  proof (cases "?k = 0")
    case True
    then have "take ?p (ps_dst ps) = concat (map group_code gs)" "concat (map group_raw gs) = pad8 src"
      using ps(2) by (auto simp: pack_inv_def)
    then show ?thesis using True ps(1) inv by (auto simp: sproto_pack_def)
  next
    case False
    with ps(2) obtain start where st: "ps_ff_src ps = In_src start" "start + 8 * ?k = length (pad8 src)" "start + 8 \<le> length src"
      "ps_ff_des ps + 2 + 8 * ?k = ?p" "take (ps_ff_des ps) (ps_dst ps) = concat (map group_code gs)" "concat (map group_raw gs) = take start (pad8 src)"
      by (auto simp: pack_inv_def)
    let ?n = "length src - start" let ?des = "ps_ff_des ps"
    let ?run = "Run (drop start (pad8 src))"
    have n8: "(?n + 7) div 8 * 8 = 8 * ?k"
    proof -
      have "8 dvd start" using st(2) by (metis dvd_add_left_iff dvd_triv_left dvd_triv_right length_pad8)
      then obtain j where "start = 8 * j" by (auto simp: dvd_def)
      moreover from this have "length src + 7 = 8 * j + (?n + 7)" using st(3) by simp
      ultimately show ?thesis using st(2) by (simp add: length_pad8)
    qed
    have read: "src_read src (In_src start) ?n = Some (drop start src)" using st(3) by (simp add: src_read_def)
    have pad: "drop start src @ replicate ((?n + 7) div 8 * 8 - ?n) 0 = drop start (pad8 src)"
      using st(2,3) unfolding n8 by (simp add: pad8_def length_pad8)
    define D where "D = take ?des (ps_dst ps) @ group_code ?run @ drop ?p (ps_dst ps)"
    have lrun: "length (drop start (pad8 src)) = 8 * ?k" using st(2) by simp
    have w: "write_ff src (In_src start) ?des ?n (ps_dst ps) = Some D"
    proof -
      have "0 < ?n" "?n \<le> 2048" "?des + 2 + (?n + 7) div 8 * 8 \<le> length (ps_dst ps)"
        using st(2-4) inv(1,3,6) n8 pad8_def [of src] by auto
      from write_ff_result(1) [OF read this, unfolded pad lrun] show ?thesis unfolding D_def st(4) .
    qed
    have w1: "write_ff src (In_src start) ?des 8 (ps_dst ps) = Some D" if "?k = 1"
    proof -
      have "?n = 8" using that st(2,3) pad8_def [of src] by simp
      with w show ?thesis by simp
    qed
    have "sproto_pack src dst = Some (?p, D)"
      using ps(1) False inv(2) st(1) w w1 by (auto simp: sproto_pack_def)
    moreover have "take ?p D = concat (map group_code (gs @ [?run]))" "length D = length dst"
    proof -
      let ?A = "concat (map group_code gs)" and ?B = "group_code ?run"
      have "length ?A = ?des" using arg_cong [OF st(5), of length] st(4) inv(1,3) by (simp add: min_def)
      then have p: "?p = length (?A @ ?B)" using st(4) lrun by simp
      have "take (?p + 0) (?A @ ?B @ drop ?p (ps_dst ps)) = (?A @ ?B) @ take 0 (drop ?p (ps_dst ps))" unfolding p by (rule take_two)
      then show "take ?p D = concat (map group_code (gs @ [?run]))" unfolding D_def st(5) by simp
      show "length D = length dst" unfolding D_def st(5) using p inv(1,3) by simp
    qed
    moreover have "concat (map group_raw (gs @ [?run])) = pad8 src" using st(6) by simp
    moreover have "\<forall>g \<in> set (gs @ [?run]). group_ok g" using inv(4,6) lrun False by auto
    ultimately show ?thesis using inv(5) by blast
  qed
qed

subsection \<open>Unpacking reads the groups back\<close>

lemma bit_mask_from: "j < 8 \<Longrightarrow> bit (mask_from i s) j \<longleftrightarrow> i \<le> j \<and> j - i < length s \<and> s ! (j - i) \<noteq> 0"
proof (induction s arbitrary: i)
  case (Cons b s)
  have "bit (push_bit i 1 :: u8) j \<longleftrightarrow> j = i" using Cons.prems by (auto simp: bit_simps)
  moreover have "j - i = Suc (j - Suc i)" if "Suc i \<le> j" using that by simp
  ultimately show ?case using Cons.IH [OF Cons.prems, of "i + 1"]
    by (cases "j < i"; cases "j = i") (auto simp: bit_simps nth_Cons')
qed simp

lemma header_bits_mask: "length s = 8 \<Longrightarrow> header_bits (mask_from 0 s) = map (\<lambda>b. b \<noteq> 0) s"
proof -
  assume s: "length s = 8"
  have b: "(drop_bit i h AND 1 \<noteq> 0) = bit h i" for i and h :: u8
    unfolding bit_iff_odd_drop_bit odd_iff_mod_2_eq_one and_one_eq by simp
  show ?thesis unfolding header_bits_def b
    by (rule nth_equalityI) (use s in \<open>auto simp: bit_mask_from\<close>)
qed

lemma mask_not_full:
  assumes "length s = 8" "length (nonzeros s) < 8"
  shows "mask_from 0 s \<noteq> 0xff"
proof
  assume full: "mask_from 0 s = 0xff"
  have "\<not> (\<forall>b \<in> set s. b \<noteq> 0)"
  proof
    assume "\<forall>b \<in> set s. b \<noteq> 0"
    then have "nonzeros s = s" by (simp add: filter_id_conv)
    with assms show False by simp
  qed
  then obtain j where j: "j < 8" "s ! j = 0" using assms(1) by (auto simp: in_set_conv_nth)
  have "bit (mask 8 :: u8) j" using j(1) by (simp add: bit_mask_iff)
  moreover have "mask 8 = (0xff :: u8)" by (simp add: mask_eq_exp_minus_1)
  ultimately have "bit (mask_from 0 s) j" using full by simp
  with bit_mask_from [OF j(1), of 0 s] j(2) show False by simp
qed

text \<open>Writing stays in the buffer, and is complete while there is room.\<close>

definition out_ok :: "unpack_state \<Rightarrow> bool" where
  "out_ok us \<longleftrightarrow> (us_bufsz us > 0 \<longrightarrow> us_buffer us + nat (us_bufsz us) \<le> length (us_dst us))"

definition written :: "bytes \<Rightarrow> unpack_state \<Rightarrow> unpack_state \<Rightarrow> bool" where
  "written bs us us' \<longleftrightarrow> out_ok us' \<and> length (us_dst us') = length (us_dst us) \<and> us_size us' = us_size us + length bs \<and>
     (int (length bs) \<le> us_bufsz us \<longrightarrow>
        us_bufsz us' = us_bufsz us - int (length bs) \<and> us_buffer us' = us_buffer us + length bs \<and>
        take (us_buffer us') (us_dst us') = take (us_buffer us) (us_dst us) @ bs)"

lemma written_trans: "written a us us1 \<Longrightarrow> written b us1 us2 \<Longrightarrow> written (a @ b) us us2"
  by (auto simp: written_def)

lemma put_out_result:
  assumes "out_ok us"
  shows "\<exists>us'. put_out b us = Some us' \<and> us_src us' = us_src us \<and> us_srcsz us' = us_srcsz us \<and>
    us_size us' = us_size us \<and> written [b] us (us'\<lparr>us_size := us_size us + 1\<rparr>)"
proof (cases "us_bufsz us > 0")
  case True
  then have ok: "us_buffer us + nat (us_bufsz us) \<le> length (us_dst us)" using assms by (simp add: out_ok_def)
  have "us_buffer us + 1 \<le> length (us_dst us)" using True ok by linarith
  moreover have "us_buffer us + 1 + nat (us_bufsz us - 1) \<le> length (us_dst us)" using True ok by linarith
  ultimately show ?thesis using True by (auto simp: put_out_def put_bytes_def written_def out_ok_def min_def)
next
  case False
  with assms show ?thesis by (auto simp: put_out_def written_def out_ok_def)
qed

lemma unpack_bits_result:
  assumes "us_src us = nonzeros s @ rest" "us_srcsz us = int (length (us_src us))" "out_ok us"
  shows "\<exists>us'. unpack_bits (map (\<lambda>b. b \<noteq> 0) s) us = Some (Inr us') \<and> us_src us' = rest \<and> us_srcsz us' = int (length rest) \<and> written s us us'"
  using assms
proof (induction s arbitrary: us)
  case Nil
  then show ?case by (auto simp: written_def)
next
  case (Cons b s)
  from put_out_result [OF Cons.prems(3), of b] obtain us1 where p: "put_out b us = Some us1" "us_src us1 = us_src us"
    "us_srcsz us1 = us_srcsz us" "us_size us1 = us_size us" "written [b] us (us1\<lparr>us_size := us_size us + 1\<rparr>)" by blast
  let ?us2 = "if b \<noteq> 0 then us1\<lparr>us_src := drop 1 (us_src us1), us_srcsz := us_srcsz us1 - 1, us_size := us_size us1 + 1\<rparr>
    else us1\<lparr>us_size := us_size us1 + 1\<rparr>"
  have bit: "unpack_bit (b \<noteq> 0) us = Some (Inr ?us2)" using Cons.prems(1,2) p(1-3)
    by (cases "b = 0") (simp_all add: unpack_bit_def array_get_def)
  have us2: "us_src ?us2 = nonzeros s @ rest" "us_srcsz ?us2 = int (length (us_src ?us2))" "out_ok ?us2" "written [b] us ?us2"
    using Cons.prems(1,2) p(2-5) by (cases "b = 0"; simp add: written_def out_ok_def)+
  from Cons.IH [OF us2(1-3)] obtain us' where "unpack_bits (map (\<lambda>b. b \<noteq> 0) s) ?us2 = Some (Inr us')" "us_src us' = rest"
    "us_srcsz us' = int (length rest)" "written s ?us2 us'" by blast
  with bit written_trans [OF us2(4), of s us'] show ?case by simp
qed

lemma unpack_group_result:
  assumes "us_src us = group_code g @ rest" "us_srcsz us = int (length (us_src us))" "out_ok us" "group_ok g"
  shows "\<exists>us'. unpack_step us = Some (Inr us') \<and> us_src us' = rest \<and> us_srcsz us' = int (length rest) \<and> written (group_raw g) us us'"
proof (cases g)
  case (Seg s)
  with assms have s: "length s = 8" "length (nonzeros s) < 8" "us_src us = mask_from 0 s # nonzeros s @ rest" by simp_all
  let ?us = "us\<lparr>us_src := drop 1 (us_src us), us_srcsz := us_srcsz us - 1\<rparr>"
  have "us_src ?us = nonzeros s @ rest" "us_srcsz ?us = int (length (us_src ?us))" "out_ok ?us"
    using assms(2,3) s(3) by (simp_all add: out_ok_def)
  from unpack_bits_result [OF this] obtain us' where u: "unpack_bits (map (\<lambda>b. b \<noteq> 0) s) ?us = Some (Inr us')" "us_src us' = rest"
    "us_srcsz us' = int (length rest)" "written s ?us us'" by blast
  have "unpack_step us = Some (Inr us')"
    using u(1) s mask_not_full [OF s(1,2)] by (simp add: unpack_step_def array_get_def header_bits_mask)
  moreover have "written s us us'" using u(4) by (auto simp: written_def)
  ultimately show ?thesis using u(2,3) Seg by auto
next
  case (Run bs)
  with assms have bs: "length bs mod 8 = 0" "0 < length bs" "length bs \<le> 2048" by simp_all
  let ?n = "length bs"
  from bs(1) obtain j where "?n = 8 * j" by (metis mod_0_imp_dvd dvd_def)
  then obtain q where q: "?n = 8 * Suc q" "q < 256" using bs(2,3) by (cases j) auto
  define h where "h = (of_nat q :: u8)"
  have h: "unat h = q" using q(2) by (simp add: h_def unsigned_of_nat take_bit_nat_eq_self_iff)
  have "int (unat h) = uint h" by simp
  then have hu: "uint h = int q" using h by simp
  have n: "?n = 8 + q * 8" using q(1) by simp
  have "drop (9 + q * 8) ((h # bs) @ rest) = rest" using n by (subst drop_append) simp
  then have dr: "drop (9 + q * 8) (h # bs @ rest) = rest" by (simp only: append_Cons)
  have "?n div 8 - 1 = q" using q(1) by simp
  then have src: "us_src us = 0xff # h # bs @ rest" using assms(1) Run by (simp add: h_def)
  have sz: "us_srcsz us - 1 = int ?n + 1 + int (length rest)" using assms(2) src by simp
  let ?rest = "\<lambda>dst. us\<lparr>us_src := rest, us_srcsz := int (length rest), us_bufsz := us_bufsz us - int ?n, us_buffer := us_buffer us + ?n,
    us_size := us_size us + ?n, us_dst := dst\<rparr>"
  show ?thesis
  proof (cases "int ?n \<le> us_bufsz us")
    case True
    then have "us_buffer us + nat (us_bufsz us) \<le> length (us_dst us)" using assms(3) bs(2) unfolding out_ok_def by linarith
    then have room: "us_buffer us + ?n \<le> length (us_dst us)" using True by linarith
    let ?dst = "take (us_buffer us) (us_dst us) @ bs @ drop (us_buffer us + ?n) (us_dst us)"
    have "unpack_step us = Some (Inr (?rest ?dst))"
      using True sz room unfolding unpack_step_def by (simp add: src array_get_def Let_def src_read_def put_bytes_def h n hu dr)
    moreover have "written bs us (?rest ?dst)"
      using True room assms(3) by (auto simp: written_def out_ok_def)
    ultimately show ?thesis using Run by auto
  next
    case False
    have "unpack_step us = Some (Inr (?rest (us_dst us)))"
      using False sz unfolding unpack_step_def by (simp add: src array_get_def Let_def h n hu dr)
    moreover have "written bs us (?rest (us_dst us))" using False by (simp add: written_def out_ok_def)
    ultimately show ?thesis using Run by auto
  qed
qed

lemma unpack_loop_result:
  assumes "us_src us = concat (map group_code gs)" "us_srcsz us = int (length (us_src us))" "out_ok us" "\<forall>g \<in> set gs. group_ok g"
  shows "\<exists>us'. unpack_loop us = Some (Inr us') \<and> written (concat (map group_raw gs)) us us'"
  using assms
proof (induction gs arbitrary: us)
  case Nil
  then show ?case by (subst unpack_loop.simps) (auto simp: written_def)
next
  case (Cons g gs)
  have "us_src us = group_code g @ concat (map group_code gs)" "group_ok g" using Cons.prems(1,4) by simp_all
  from unpack_group_result [OF this(1) Cons.prems(2,3) this(2)] obtain us1 where 1: "unpack_step us = Some (Inr us1)"
    "us_src us1 = concat (map group_code gs)" "us_srcsz us1 = int (length (concat (map group_code gs)))" "written (group_raw g) us us1" by blast
  have "us_srcsz us > 0" using Cons.prems(1,2) by (cases g) auto
  then have eq: "unpack_loop us = unpack_loop us1" using 1(1) by (subst unpack_loop.simps) simp
  have "out_ok us1" "us_srcsz us1 = int (length (us_src us1))" using 1(2-4) by (simp_all add: written_def)
  with Cons.IH [of us1] 1(2) Cons.prems(4) obtain us' where "unpack_loop us1 = Some (Inr us')" "written (concat (map group_raw gs)) us1 us'" by auto
  with written_trans [OF 1(4)] show ?case unfolding eq by auto
qed

lemma sproto_unpack_result:
  assumes "\<forall>g \<in> set gs. group_ok g"
  shows "\<exists>dst'. sproto_unpack (concat (map group_code gs)) dst = Some (int (length (concat (map group_raw gs))), dst') \<and> length dst' = length dst \<and>
    (length (concat (map group_raw gs)) \<le> length dst \<longrightarrow> take (length (concat (map group_raw gs))) dst' = concat (map group_raw gs))"
proof -
  let ?src = "concat (map group_code gs)" and ?raw = "concat (map group_raw gs)"
  let ?us = "\<lparr>us_src = ?src, us_srcsz = int (length ?src), us_bufsz = int (length dst), us_buffer = 0, us_size = 0, us_dst = dst\<rparr>"
  have "out_ok ?us" by (simp add: out_ok_def)
  with unpack_loop_result [of ?us gs] assms obtain us' where u: "unpack_loop ?us = Some (Inr us')" "written ?raw ?us us'" by auto
  from u(2) have w: "length (us_dst us') = length dst" "us_size us' = length ?raw"
    "length ?raw \<le> length dst \<longrightarrow> take (length ?raw) (us_dst us') = ?raw" by (auto simp: written_def)
  show ?thesis unfolding sproto_unpack_def using u(1) w by simp
qed

lemma expand_size_enough: "0 < osz \<Longrightarrow> osz < nsz \<Longrightarrow> nsz \<le> expand_size osz nsz \<and> expand_size osz nsz < 2 * nsz"
proof (induction osz nsz rule: expand_size.induct)
  case (1 osz nsz)
  then show ?case by (cases "2 * osz < nsz") (simp_all add: expand_size.simps [of osz nsz])
qed

text \<open>C17. Zero-packing round trip: for a message of up to 8 MB, whatever the buffers hold, \<open>lpack\<close> never writes outside
  of the room it computes and never fails, its result is at most two bytes per 2 KB longer than the message (and two
  more), and \<open>lunpack\<close> of the result is the message, padded to whole segments. A message longer than 2040 bytes
  must not end with a segment of six or seven bytes.\<close>

theorem sproto_pack_roundtrip:
  assumes "length src mod 8 < 6 \<or> length src \<le> 2040" "length src \<le> 8000000"
    and "\<And>n. length (fresh n) = n" "upvalue \<noteq> []" "upvalue' \<noteq> []"
  shows "\<exists>packed kept kept'. sproto_lpack fresh upvalue src = Some (LuaOk (packed, kept)) \<and>
    length packed \<le> pack_maxsz (length src) \<and>
    sproto_lunpack fresh upvalue' packed = Some (LuaOk (pad8 src, kept'))"
proof -
  let ?mx = "pack_maxsz (length src)"
  have mx: "?mx < 2 ^ 23" "length (pad8 src) < 2 ^ 23"
  proof -
    have "(length src + 2047) div 2048 \<le> 8002047 div 2048" using assms(2) by (intro div_le_mono) simp
    then have "(length src + 2047) div 2048 \<le> 3907" by simp
    then show "?mx < 2 ^ 23" using assms(2) by (simp add: pack_maxsz_def)
    have "(length src + 7) div 8 * 8 \<le> length src + 7" by simp
    then show "length (pad8 src) < 2 ^ 23" using assms(2) by (simp add: length_pad8)
  qed
  obtain buf where out: "(if length upvalue < ?mx then expand_buffer fresh (length upvalue) ?mx else LuaOk upvalue) = LuaOk buf"
    "?mx \<le> length buf"
    using expand_size_enough [of "length upvalue" ?mx] assms(3,4) mx(1)
    by (cases "length upvalue < ?mx") (auto simp: expand_buffer_def ENCODE_MAXSIZE_def Let_def)
  from sproto_pack_result [of src "take ?mx buf"] assms(1) out(2) obtain n dst' gs where
    p: "sproto_pack src (take ?mx buf) = Some (n, dst')" "n \<le> ?mx" "\<forall>g \<in> set gs. group_ok g"
    "take n dst' = concat (map group_code gs)" "concat (map group_raw gs) = pad8 src" "length dst' = ?mx" by auto
  have lp: "sproto_lpack fresh upvalue src = Some (LuaOk (take n dst', dst' @ drop ?mx buf))"
    using p(1,2) out(1) by (simp add: sproto_lpack_def Let_def)
  have len: "length (take n dst') \<le> ?mx" using p(6) by simp
  let ?r = "length (pad8 src)"
  note un = sproto_unpack_result [OF p(3), unfolded p(5)]
  have "\<exists>kept'. sproto_lunpack fresh upvalue' (take n dst') = Some (LuaOk (pad8 src, kept'))"
  proof (cases "?r \<le> length upvalue'")
    case True
    with un [of upvalue'] show ?thesis unfolding p(4) by (auto simp: sproto_lunpack_def)
  next
    case False
    let ?fr = "fresh (expand_size (length upvalue') ?r)"
    have e: "expand_buffer fresh (length upvalue') ?r = LuaOk ?fr" "?r \<le> length ?fr"
      using expand_size_enough [of "length upvalue'" ?r] assms(3,5) mx(2) False by (auto simp: expand_buffer_def ENCODE_MAXSIZE_def Let_def)
    from un [of upvalue'] un [of "take ?r ?fr"] e False show ?thesis unfolding p(4) by (auto simp: sproto_lunpack_def)
  qed
  with lp len show ?thesis by blast
qed

theorem sproto_pack_roundtrip_witness:
  "\<exists>packed kept kept'. sproto_lpack (\<lambda>n. replicate n 7) [0, 0] [8, 0, 0, 0, 3, 0, 2, 0, 0x19] = Some (LuaOk (packed, kept)) \<and>
     length packed \<le> 13 \<and>
     sproto_lunpack (\<lambda>n. replicate n 7) [1] packed = Some (LuaOk ([8, 0, 0, 0, 3, 0, 2, 0, 0x19, 0, 0, 0, 0, 0, 0, 0], kept'))"
proof -
  let ?m = "[8, 0, 0, 0, 3, 0, 2, 0, 0x19] :: bytes"
  have m: "pad8 ?m = [8, 0, 0, 0, 3, 0, 2, 0, 0x19, 0, 0, 0, 0, 0, 0, 0]" by code_simp
  have "length ?m = 9" by simp
  then have s: "length ?m mod 8 < 6 \<or> length ?m \<le> 2040" "length ?m \<le> 8000000" "pack_maxsz (length ?m) = 13"
    by (simp_all only: pack_maxsz_def) simp_all
  from sproto_pack_roundtrip [OF s(1,2), of "\<lambda>n. replicate n 7" "[0, 0]" "[1]"] show ?thesis
    unfolding m s(3) by simp
qed

text \<open>A block that ends where a byte is missing is read one byte past its end, before the size is checked; behind a
  Lua string there is a zero byte, behind a light userdata anything.\<close>

lemma sproto_unpack_overread:
  assumes "us_src us = [1]" "us_srcsz us = 1"
  shows "unpack_step us = None"
proof -
  have "header_bits 1 = True # replicate 7 False" by (simp add: header_bits_def upt_rec numeral_eq_Suc)
  then show ?thesis using assms by (simp add: unpack_step_def array_get_def unpack_bit_def)
qed

text \<open>When the 256th segment of a run is the padded end of the source, the run is copied past the end.\<close>

lemma pack_step_overread:
  assumes "ps_ff_n ps = 255" "ps_ff_src ps = In_src start" "start + 8 * 255 = i" "i < length src" "length src < i + 8"
    "pack_seg (drop i src @ replicate (i + 8 - length src) 0) (ps_buffer ps) (ps_bufsz ps) 255 (ps_dst ps) = Some (8, dst)" "8 \<le> ps_bufsz ps"
  shows "pack_step src i ps = None"
  using assms by (simp add: pack_step_def Let_def write_ff_def src_read_def)

end
