(* ===== verification/Sha1.thy ===== *)
theory Sha1
  imports Prelude
begin

unbundle bit_operations_syntax

section \<open>SHA-1 (\<open>lsha1.c\<close>)\<close>

text \<open>
  The streaming hash function and the message authentication code of the \<open>crypt\<close> module. The unrolled rounds
  work on five variables that change their roles and expand the message in place in sixteen words; the data
  come in pieces that are gathered in a block. Beside them stands the function of the standard, on the whole
  padded message.

  The words of a block are read from memory with the low byte first. \<open>size_t\<close> has 64 bits.
\<close>

subsection \<open>The block function\<close>

definition rol :: "u32 \<Rightarrow> nat \<Rightarrow> u32" where
  "rol val bits = push_bit bits val OR drop_bit (32 - bits) val"

definition le_word :: "bytes \<Rightarrow> nat \<Rightarrow> u32" where
  "le_word bs i = ucast (bs ! i) OR push_bit 8 (ucast (bs ! (i + 1))) OR push_bit 16 (ucast (bs ! (i + 2))) OR push_bit 24 (ucast (bs ! (i + 3)))"

definition block_words :: "bytes \<Rightarrow> u32 list" where
  "block_words buffer = map (\<lambda>i. le_word buffer (4 * i)) [0..<16]"

text \<open>\<open>blk0\<close> swaps the bytes of a word and \<open>blk\<close> expands; both store the word that they give.\<close>

definition blk0 :: "nat \<Rightarrow> u32 list \<Rightarrow> u32 list" where
  "blk0 i l = l[i := (rol (l ! i) 24 AND 0xFF00FF00) OR (rol (l ! i) 8 AND 0x00FF00FF)]"

definition blk :: "nat \<Rightarrow> u32 list \<Rightarrow> u32 list" where
  "blk i l = l[i AND 15 := rol (l ! ((i + 13) AND 15) XOR l ! ((i + 8) AND 15) XOR l ! ((i + 2) AND 15) XOR l ! (i AND 15)) 1]"

text \<open>The macros \<open>R0\<close> to \<open>R4\<close> on the variables \<open>a\<close> to \<open>e\<close>, which are the places \<open>0\<close> to \<open>4\<close> of a list.\<close>

datatype sha_macro = R0 | R1 | R2 | R3 | R4

type_synonym sha_call = "sha_macro \<times> nat \<times> nat \<times> nat \<times> nat \<times> nat \<times> nat"

fun sha_round :: "sha_call \<Rightarrow> u32 list \<times> u32 list \<Rightarrow> u32 list \<times> u32 list" where
  "sha_round (R0, v, w, x, y, z, i) (r, l) =
     (let l = blk0 i l;
          r = r[z := r ! z + (((r ! w AND (r ! x XOR r ! y)) XOR r ! y) + l ! i + 0x5A827999 + rol (r ! v) 5)]
      in (r[w := rol (r ! w) 30], l))"
| "sha_round (R1, v, w, x, y, z, i) (r, l) =
     (let l = blk i l;
          r = r[z := r ! z + (((r ! w AND (r ! x XOR r ! y)) XOR r ! y) + l ! (i AND 15) + 0x5A827999 + rol (r ! v) 5)]
      in (r[w := rol (r ! w) 30], l))"
| "sha_round (R2, v, w, x, y, z, i) (r, l) =
     (let l = blk i l;
          r = r[z := r ! z + ((r ! w XOR r ! x XOR r ! y) + l ! (i AND 15) + 0x6ED9EBA1 + rol (r ! v) 5)]
      in (r[w := rol (r ! w) 30], l))"
| "sha_round (R3, v, w, x, y, z, i) (r, l) =
     (let l = blk i l;
          r = r[z := r ! z + ((((r ! w OR r ! x) AND r ! y) OR (r ! w AND r ! x)) + l ! (i AND 15) + 0x8F1BBCDC + rol (r ! v) 5)]
      in (r[w := rol (r ! w) 30], l))"
| "sha_round (R4, v, w, x, y, z, i) (r, l) =
     (let l = blk i l;
          r = r[z := r ! z + ((r ! w XOR r ! x XOR r ! y) + l ! (i AND 15) + 0xCA62C1D6 + rol (r ! v) 5)]
      in (r[w := rol (r ! w) 30], l))"

definition transform_rounds :: "sha_call list" where
  "transform_rounds =
    [(R0, 0, 1, 2, 3, 4, 0), (R0, 4, 0, 1, 2, 3, 1), (R0, 3, 4, 0, 1, 2, 2), (R0, 2, 3, 4, 0, 1, 3),
     (R0, 1, 2, 3, 4, 0, 4), (R0, 0, 1, 2, 3, 4, 5), (R0, 4, 0, 1, 2, 3, 6), (R0, 3, 4, 0, 1, 2, 7),
     (R0, 2, 3, 4, 0, 1, 8), (R0, 1, 2, 3, 4, 0, 9), (R0, 0, 1, 2, 3, 4, 10), (R0, 4, 0, 1, 2, 3, 11),
     (R0, 3, 4, 0, 1, 2, 12), (R0, 2, 3, 4, 0, 1, 13), (R0, 1, 2, 3, 4, 0, 14), (R0, 0, 1, 2, 3, 4, 15),
     (R1, 4, 0, 1, 2, 3, 16), (R1, 3, 4, 0, 1, 2, 17), (R1, 2, 3, 4, 0, 1, 18), (R1, 1, 2, 3, 4, 0, 19),
     (R2, 0, 1, 2, 3, 4, 20), (R2, 4, 0, 1, 2, 3, 21), (R2, 3, 4, 0, 1, 2, 22), (R2, 2, 3, 4, 0, 1, 23),
     (R2, 1, 2, 3, 4, 0, 24), (R2, 0, 1, 2, 3, 4, 25), (R2, 4, 0, 1, 2, 3, 26), (R2, 3, 4, 0, 1, 2, 27),
     (R2, 2, 3, 4, 0, 1, 28), (R2, 1, 2, 3, 4, 0, 29), (R2, 0, 1, 2, 3, 4, 30), (R2, 4, 0, 1, 2, 3, 31),
     (R2, 3, 4, 0, 1, 2, 32), (R2, 2, 3, 4, 0, 1, 33), (R2, 1, 2, 3, 4, 0, 34), (R2, 0, 1, 2, 3, 4, 35),
     (R2, 4, 0, 1, 2, 3, 36), (R2, 3, 4, 0, 1, 2, 37), (R2, 2, 3, 4, 0, 1, 38), (R2, 1, 2, 3, 4, 0, 39),
     (R3, 0, 1, 2, 3, 4, 40), (R3, 4, 0, 1, 2, 3, 41), (R3, 3, 4, 0, 1, 2, 42), (R3, 2, 3, 4, 0, 1, 43),
     (R3, 1, 2, 3, 4, 0, 44), (R3, 0, 1, 2, 3, 4, 45), (R3, 4, 0, 1, 2, 3, 46), (R3, 3, 4, 0, 1, 2, 47),
     (R3, 2, 3, 4, 0, 1, 48), (R3, 1, 2, 3, 4, 0, 49), (R3, 0, 1, 2, 3, 4, 50), (R3, 4, 0, 1, 2, 3, 51),
     (R3, 3, 4, 0, 1, 2, 52), (R3, 2, 3, 4, 0, 1, 53), (R3, 1, 2, 3, 4, 0, 54), (R3, 0, 1, 2, 3, 4, 55),
     (R3, 4, 0, 1, 2, 3, 56), (R3, 3, 4, 0, 1, 2, 57), (R3, 2, 3, 4, 0, 1, 58), (R3, 1, 2, 3, 4, 0, 59),
     (R4, 0, 1, 2, 3, 4, 60), (R4, 4, 0, 1, 2, 3, 61), (R4, 3, 4, 0, 1, 2, 62), (R4, 2, 3, 4, 0, 1, 63),
     (R4, 1, 2, 3, 4, 0, 64), (R4, 0, 1, 2, 3, 4, 65), (R4, 4, 0, 1, 2, 3, 66), (R4, 3, 4, 0, 1, 2, 67),
     (R4, 2, 3, 4, 0, 1, 68), (R4, 1, 2, 3, 4, 0, 69), (R4, 0, 1, 2, 3, 4, 70), (R4, 4, 0, 1, 2, 3, 71),
     (R4, 3, 4, 0, 1, 2, 72), (R4, 2, 3, 4, 0, 1, 73), (R4, 1, 2, 3, 4, 0, 74), (R4, 0, 1, 2, 3, 4, 75),
     (R4, 4, 0, 1, 2, 3, 76), (R4, 3, 4, 0, 1, 2, 77), (R4, 2, 3, 4, 0, 1, 78), (R4, 1, 2, 3, 4, 0, 79)]"

definition SHA1_Transform :: "u32 list \<Rightarrow> bytes \<Rightarrow> u32 list" where
  "SHA1_Transform state buffer =
     (let (r, l) = fold sha_round transform_rounds (state, block_words buffer) in map2 (+) state r)"

subsection \<open>Streaming\<close>

record SHA1_CTX =
  ctx_state :: "u32 list"
  ctx_count :: "u32 \<times> u32"
  ctx_buffer :: bytes

text \<open>\<open>sat_SHA1_Init\<close> leaves the buffer as it is.\<close>

definition sat_SHA1_Init :: "SHA1_CTX \<Rightarrow> SHA1_CTX" where
  "sat_SHA1_Init context =
     context\<lparr>ctx_state := [0x67452301, 0xEFCDAB89, 0x98BADCFE, 0x10325476, 0xC3D2E1F0], ctx_count := (0, 0)\<rparr>"

text \<open>The count of bits: a carry is seen by a comparison of the low word with the 64-bit number of bits that are
  added.\<close>

definition add_count :: "nat \<Rightarrow> u32 \<times> u32 \<Rightarrow> u32 \<times> u32" where
  "add_count len = (\<lambda>(lo, hi).
     (let bits = push_bit 3 (of_nat len :: u64);
          lo = lo + ucast bits;
          hi = (if (ucast lo :: u64) < bits then hi + 1 else hi)
      in (lo, hi + ucast (drop_bit 29 (of_nat len :: u64)))))"

function update_blocks :: "bytes \<Rightarrow> nat \<Rightarrow> u32 list \<Rightarrow> nat \<times> u32 list" where
  "update_blocks data i state =
     (if i + 63 < length data then update_blocks data (i + 64) (SHA1_Transform state (take 64 (drop i data))) else (i, state))"
  by pat_completeness auto
termination by (relation "measure (\<lambda>(data, i, state). length data - i)") auto

declare update_blocks.simps [simp del]

definition sat_SHA1_Update :: "bytes \<Rightarrow> SHA1_CTX \<Rightarrow> SHA1_CTX option" where
  "sat_SHA1_Update data context =
     (let len = length data;
          j = unat (drop_bit 3 (fst (ctx_count context)) AND 63);
          context = context\<lparr>ctx_count := add_count len (ctx_count context)\<rparr> in
      if j + len > 63
      then do { buffer \<leftarrow> put_bytes j (take (64 - j) data) (ctx_buffer context);
                let (i, state) = update_blocks data (64 - j) (SHA1_Transform (ctx_state context) buffer);
                buffer \<leftarrow> put_bytes 0 (drop i data) buffer;
                Some (context\<lparr>ctx_state := state, ctx_buffer := buffer\<rparr>) }
      else do { buffer \<leftarrow> put_bytes j data (ctx_buffer context);
                Some (context\<lparr>ctx_buffer := buffer\<rparr>) })"

partial_function (option) final_loop :: "SHA1_CTX \<Rightarrow> SHA1_CTX option" where
  "final_loop context =
     (if fst (ctx_count context) AND 504 \<noteq> 448
      then do { context \<leftarrow> sat_SHA1_Update [0] context; final_loop context }
      else Some context)"

declare final_loop.simps [code]

text \<open>The byte \<open>i\<close> of a word, from the high end.\<close>

definition word_byte :: "u32 \<Rightarrow> nat \<Rightarrow> u8" where
  "word_byte w i = ucast (drop_bit ((3 - (i AND 3)) * 8) w AND 255)"

definition sat_SHA1_Final :: "SHA1_CTX \<Rightarrow> (bytes \<times> SHA1_CTX) option" where
  "sat_SHA1_Final context =
     (let finalcount = map (\<lambda>i. word_byte (if i \<ge> 4 then fst (ctx_count context) else snd (ctx_count context)) i) [0..<8] in
      do { context \<leftarrow> sat_SHA1_Update [0x80] context;
           context \<leftarrow> final_loop context;
           context \<leftarrow> sat_SHA1_Update finalcount context;
           let digest = map (\<lambda>i. word_byte (ctx_state context ! (i div 4)) i) [0..<20];
           Some (digest, \<lparr>ctx_state = replicate 5 0, ctx_count = (0, 0), ctx_buffer = replicate 64 0\<rparr>) })"

text \<open>The contexts stand on the stack: \<open>ctx\<close> is what was there before.\<close>

definition lsha1 :: "SHA1_CTX \<Rightarrow> bytes \<Rightarrow> bytes option" where
  "lsha1 ctx str =
     do { ctx \<leftarrow> sat_SHA1_Update str (sat_SHA1_Init ctx);
          (digest, _) \<leftarrow> sat_SHA1_Final ctx;
          Some digest }"

definition BLOCKSIZE :: nat where "BLOCKSIZE = 64"

text \<open>\<open>xor_key\<close> goes over the words of the key; all four bytes of its argument are the same here.\<close>

definition xor_key :: "u32 \<Rightarrow> bytes \<Rightarrow> bytes" where
  "xor_key x key =
     concat (map (\<lambda>i. let w = le_word key (4 * i) XOR x
                      in [ucast w, ucast (drop_bit 8 w), ucast (drop_bit 16 w), ucast (drop_bit 24 w)]) [0..<16])"

definition lhmac_sha1 :: "SHA1_CTX \<Rightarrow> SHA1_CTX \<Rightarrow> SHA1_CTX \<Rightarrow> bytes \<Rightarrow> bytes \<Rightarrow> bytes option" where
  "lhmac_sha1 ctx ctx1 ctx2 key txt =
     do { rkey \<leftarrow> (if length key > BLOCKSIZE
                  then do { ctx \<leftarrow> sat_SHA1_Update key (sat_SHA1_Init ctx); (digest, _) \<leftarrow> sat_SHA1_Final ctx;
                            put_bytes 0 digest (replicate BLOCKSIZE 0) }
                  else put_bytes 0 key (replicate BLOCKSIZE 0));
          let rkey1 = xor_key 0x5c5c5c5c rkey;
          ctx1 \<leftarrow> sat_SHA1_Update rkey1 (sat_SHA1_Init ctx1);
          let rkey2 = xor_key (0x5c5c5c5c XOR 0x36363636) rkey1;
          ctx2 \<leftarrow> sat_SHA1_Update rkey2 (sat_SHA1_Init ctx2);
          ctx2 \<leftarrow> sat_SHA1_Update txt ctx2;
          (digest2, _) \<leftarrow> sat_SHA1_Final ctx2;
          ctx1 \<leftarrow> sat_SHA1_Update digest2 ctx1;
          (digest1, _) \<leftarrow> sat_SHA1_Final ctx1;
          Some digest1 }"

subsection \<open>The function of the standard\<close>

text \<open>FIPS 180: the message schedule of eighty words, eighty rounds on five variables, the padded message in
  blocks of sixteen words.\<close>

definition be_word :: "bytes \<Rightarrow> nat \<Rightarrow> u32" where
  "be_word bs i = push_bit 24 (ucast (bs ! i)) OR push_bit 16 (ucast (bs ! (i + 1))) OR push_bit 8 (ucast (bs ! (i + 2))) OR ucast (bs ! (i + 3))"

primrec schedule :: "u32 list \<Rightarrow> nat \<Rightarrow> u32 list" where
  "schedule m 0 = m"
| "schedule m (Suc n) =
     (let w = schedule m n; t = 16 + n in w @ [rol (w ! (t - 3) XOR w ! (t - 8) XOR w ! (t - 14) XOR w ! (t - 16)) 1])"

definition sha_f :: "nat \<Rightarrow> u32 \<Rightarrow> u32 \<Rightarrow> u32 \<Rightarrow> u32" where
  "sha_f t x y z =
     (if t < 20 then (x AND y) XOR (NOT x AND z)
      else if 40 \<le> t \<and> t < 60 then (x AND y) XOR (x AND z) XOR (y AND z)
      else x XOR y XOR z)"

definition sha_K :: "nat \<Rightarrow> u32" where
  "sha_K t = (if t < 20 then 0x5A827999 else if t < 40 then 0x6ED9EBA1 else if t < 60 then 0x8F1BBCDC else 0xCA62C1D6)"

fun sha_step :: "u32 list \<Rightarrow> nat \<Rightarrow> u32 list \<Rightarrow> u32 list" where
  "sha_step w t [a, b, c, d, e] = [rol a 5 + sha_f t b c d + e + sha_K t + w ! t, a, rol b 30, c, d]"
| "sha_step w t r = r"

definition sha_block :: "u32 list \<Rightarrow> bytes \<Rightarrow> u32 list" where
  "sha_block H block =
     (let w = schedule (map (\<lambda>i. be_word block (4 * i)) [0..<16]) 64 in map2 (+) H (fold (sha_step w) [0..<80] H))"

function sha_blocks :: "u32 list \<Rightarrow> bytes \<Rightarrow> u32 list" where
  "sha_blocks H bs = (if length bs < 64 then H else sha_blocks (sha_block H (take 64 bs)) (drop 64 bs))"
  by pat_completeness auto
termination by (relation "measure (\<lambda>(H, bs). length bs)") auto

declare sha_blocks.simps [simp del]

definition be_bytes :: "u32 \<Rightarrow> bytes" where
  "be_bytes w = [ucast (drop_bit 24 w), ucast (drop_bit 16 w), ucast (drop_bit 8 w), ucast w]"

definition bit_count :: "nat \<Rightarrow> bytes" where
  "bit_count len = be_bytes (of_nat (8 * len div 2 ^ 32)) @ be_bytes (of_nat (8 * len))"

definition sha_padded :: "bytes \<Rightarrow> bytes" where
  "sha_padded msg = msg @ [0x80] @ replicate ((119 - length msg mod 64) mod 64) 0 @ bit_count (length msg)"

definition sha_H0 :: "u32 list" where
  "sha_H0 = [0x67452301, 0xEFCDAB89, 0x98BADCFE, 0x10325476, 0xC3D2E1F0]"

definition sha1_standard :: "bytes \<Rightarrow> bytes" where
  "sha1_standard msg = concat (map be_bytes (sha_blocks sha_H0 (sha_padded msg)))"

text \<open>RFC 2104.\<close>

definition hmac_standard :: "bytes \<Rightarrow> bytes \<Rightarrow> bytes" where
  "hmac_standard key txt =
     (let k = (if length key > 64 then sha1_standard key else key);
          k = k @ replicate (64 - length k) 0
      in sha1_standard (map (\<lambda>b. b XOR 0x5c) k @ sha1_standard (map (\<lambda>b. b XOR 0x36) k @ txt)))"

subsection \<open>The rounds\<close>

lemma ch_eq: "((w AND (x XOR y)) XOR y) = ((w AND x) XOR (NOT w AND y) :: u32)"
  by (rule bit_word_eqI) (auto simp: bit_simps)

lemma maj_eq: "(((w OR x) AND y) OR (w AND x)) = ((w AND x) XOR (w AND y) XOR (x AND y) :: u32)"
  by (rule bit_word_eqI) (auto simp: bit_simps)

definition round_macro :: "nat \<Rightarrow> sha_macro" where
  "round_macro t = (if t < 16 then R0 else if t < 20 then R1 else if t < 40 then R2 else if t < 60 then R3 else R4)"

definition round_call :: "nat \<Rightarrow> sha_call" where
  "round_call t = (round_macro t, (4 * t) mod 5, (1 + 4 * t) mod 5, (2 + 4 * t) mod 5, (3 + 4 * t) mod 5, (4 + 4 * t) mod 5, t)"

text \<open>The unrolled calls are the calls by number: the variables move one place on each round.\<close>

lemma transform_rounds_eq: "transform_rounds = map round_call [0..<80]"
  unfolding transform_rounds_def round_call_def round_macro_def by code_simp

lemma sha_round_call:
  assumes "t < 80"
  shows "sha_round (round_macro t, v, w, x, y, z, t) (r, l) =
    (let l' = (if t < 16 then blk0 t l else blk t l) in
     (let r' = r[z := rol (r ! v) 5 + sha_f t (r ! w) (r ! x) (r ! y) + r ! z + sha_K t + l' ! (t mod 16)] in r'[w := rol (r' ! w) 30], l'))"
proof -
  have a: "t AND 15 = t mod 16" using take_bit_eq_mask [of 4 t] by (simp add: take_bit_eq_mod mask_eq_exp_minus_1)
  have o: "z + (f + l + K + v) = v + f + z + K + l" for z f l K v :: u32 by simp
  consider "t < 16" | "16 \<le> t" "t < 20" | "20 \<le> t" "t < 40" | "40 \<le> t" "t < 60" | "60 \<le> t" by linarith
  then show ?thesis
    by cases (simp_all add: round_macro_def sha_f_def sha_K_def ch_eq maj_eq a Let_def o)
qed

lemma swap_bytes:
  fixes a b c d :: u8
  defines "w \<equiv> (ucast a OR push_bit 8 (ucast b) OR push_bit 16 (ucast c) OR push_bit 24 (ucast d)) :: u32"
  shows "(rol w 24 AND 0xFF00FF00) OR (rol w 8 AND 0x00FF00FF) =
    push_bit 24 (ucast a) OR push_bit 16 (ucast b) OR push_bit 8 (ucast c) OR ucast d"
proof (rule bit_word_eqI)
  fix i assume "i < LENGTH(32)"
  then have "i < 32" by simp
  then have "i \<in> set [0..<32]" by simp
  moreover have "[0..<32] = [0, 1, 2, 3, 4, 5, 6, 7, 8, 9, 10, 11, 12, 13, 14, 15, 16, 17, 18, 19, 20, 21, 22, 23, 24, 25, 26, 27, 28, 29, 30, 31]"
    by code_simp
  ultimately have "i \<in> {0, 1, 2, 3, 4, 5, 6, 7, 8, 9, 10, 11, 12, 13, 14, 15, 16, 17, 18, 19, 20, 21, 22, 23, 24, 25, 26, 27, 28, 29, 30, 31}"
    by (simp only: list.set)
  moreover have "\<not> bit x n" if "8 \<le> n" for x :: u8 and n using that bit_imp_le_length [of x n] by auto
  ultimately show "bit ((rol w 24 AND 0xFF00FF00) OR (rol w 8 AND 0x00FF00FF)) i =
      bit (push_bit 24 (ucast a) OR push_bit 16 (ucast b) OR push_bit 8 (ucast c) OR ucast d :: u32) i"
    by (elim insertE) (simp_all add: w_def rol_def bit_simps)
qed

lemma length_schedule [simp]: "length (schedule m n) = length m + n"
  by (induction n) (simp_all add: Let_def)

lemma schedule_prefix: "t < length m + n \<Longrightarrow> n \<le> k \<Longrightarrow> schedule m k ! t = schedule m n ! t"
proof (induction k)
  case (Suc k)
  show ?case
  proof (cases "n = Suc k")
    case False
    then have n: "n \<le> k" using Suc.prems by simp
    then have "t < length (schedule m k)" using Suc.prems by simp
    then have "schedule m (Suc k) ! t = schedule m k ! t" unfolding schedule.simps Let_def by (rule nth_append_left)
    with Suc.IH Suc.prems n show ?thesis by simp
  qed simp
qed simp

lemma schedule_start: "t < length m \<Longrightarrow> schedule m k ! t = m ! t"
  using schedule_prefix [of t m 0 k] by simp

lemma schedule_rec:
  assumes "length m = 16" "16 \<le> t" "t < 16 + k"
  shows "schedule m k ! t = rol (schedule m k ! (t - 3) XOR schedule m k ! (t - 8) XOR schedule m k ! (t - 14) XOR schedule m k ! (t - 16)) 1"
proof -
  let ?n = "t - 16"
  have e: "schedule m k ! j = schedule m ?n ! j" if "j < t" for j
    using schedule_prefix [of j m ?n k] assms that by simp
  have "schedule m k ! t = schedule m (Suc ?n) ! t" using schedule_prefix [of t m "Suc ?n" k] assms by simp
  also have "\<dots> = rol (schedule m ?n ! (t - 3) XOR schedule m ?n ! (t - 8) XOR schedule m ?n ! (t - 14) XOR schedule m ?n ! (t - 16)) 1"
    using assms by (simp add: Let_def nth_append)
  finally show ?thesis using assms by (simp add: e)
qed

text \<open>The sixteen words hold the part of the schedule that the next rounds need, and the words of the block
  that were not used yet.\<close>

definition window :: "bytes \<Rightarrow> u32 list \<Rightarrow> nat \<Rightarrow> u32 list \<Rightarrow> bool" where
  "window buffer w t l \<longleftrightarrow> length l = 16 \<and> (\<forall>k < t. t \<le> k + 16 \<longrightarrow> l ! (k mod 16) = w ! k) \<and>
     (\<forall>k. t \<le> k \<longrightarrow> k < 16 \<longrightarrow> l ! k = le_word buffer (4 * k))"

abbreviation words_of :: "bytes \<Rightarrow> u32 list" where
  "words_of buffer \<equiv> schedule (map (\<lambda>i. be_word buffer (4 * i)) [0..<16]) 64"

lemma window_step:
  assumes "window buffer (words_of buffer) t l" "t < 80"
  defines "l' \<equiv> (if t < 16 then blk0 t l else blk t l)"
  shows "window buffer (words_of buffer) (Suc t) l'" "l' ! (t mod 16) = words_of buffer ! t"
proof -
  have len: "length l = 16" and old: "\<And>k. k < t \<Longrightarrow> t \<le> k + 16 \<Longrightarrow> l ! (k mod 16) = words_of buffer ! k"
    and new: "\<And>k. t \<le> k \<Longrightarrow> k < 16 \<Longrightarrow> l ! k = le_word buffer (4 * k)"
    using assms(1) by (auto simp: window_def)
  have a: "n AND 15 = n mod 16" for n :: nat using take_bit_eq_mask [of 4 n] by (simp add: take_bit_eq_mod mask_eq_exp_minus_1)
  have l': "l' = l[t mod 16 := words_of buffer ! t]"
  proof (cases "t < 16")
    case True
    then have "l' = l[t := be_word buffer (4 * t)]"
      using new [of t] by (simp add: l'_def blk0_def le_word_def be_word_def swap_bytes)
    then show ?thesis using True schedule_start [of t "map (\<lambda>i. be_word buffer (4 * i)) [0..<16]" 64] by simp
  next
    case False
    define j where "j = t - 16"
    have t: "t = j + 16" using False by (simp add: j_def)
    have s: "t - 3 = j + 13" "t - 8 = j + 8" "t - 14 = j + 2" "t - 16 = j" by (simp_all add: t)
    have e: "t + 13 = (j + 13) + 16" "t + 8 = (j + 8) + 16" "t + 2 = (j + 2) + 16" "t = j + 16" by (simp_all add: t)
    have m: "(t + 13) mod 16 = (t - 3) mod 16" unfolding s e(1) by (rule mod_add_self2)
    have m2: "(t + 8) mod 16 = (t - 8) mod 16" unfolding s e(2) by (rule mod_add_self2)
    have m3: "(t + 2) mod 16 = (t - 14) mod 16" unfolding s e(3) by (rule mod_add_self2)
    have m4: "t mod 16 = (t - 16) mod 16" unfolding s using mod_add_self2 [of j 16] by (simp only: t)
    have "l ! ((t + 13) mod 16) = words_of buffer ! (t - 3)" unfolding m by (rule old) (simp_all add: t)
    moreover have "l ! ((t + 8) mod 16) = words_of buffer ! (t - 8)" unfolding m2 by (rule old) (simp_all add: t)
    moreover have "l ! ((t + 2) mod 16) = words_of buffer ! (t - 14)" unfolding m3 by (rule old) (simp_all add: t)
    moreover have "l ! (t mod 16) = words_of buffer ! (t - 16)" unfolding m4 by (rule old) (simp_all add: t)
    moreover have "words_of buffer ! t = rol (words_of buffer ! (t - 3) XOR words_of buffer ! (t - 8) XOR words_of buffer ! (t - 14) XOR words_of buffer ! (t - 16)) 1"
      using False assms(2) by (intro schedule_rec) simp_all
    ultimately show ?thesis using False by (simp only: l'_def blk_def a if_False)
  qed
  have at: "l' ! (t mod 16) = words_of buffer ! t" using len by (simp add: l')
  show "l' ! (t mod 16) = words_of buffer ! t" by (rule at)
  have "l' ! (k mod 16) = words_of buffer ! k" if "k < Suc t" "Suc t \<le> k + 16" for k
  proof (cases "k = t")
    case False
    then have "k mod 16 \<noteq> t mod 16" using that mod_eq_dvd_iff_nat [of k t 16] by (auto dest!: dvd_imp_le)
    then show ?thesis using old [of k] that False by (simp add: l')
  qed (simp add: at)
  moreover have "l' ! k = le_word buffer (4 * k)" if "Suc t \<le> k" "k < 16" for k
    using that new [of k] by (simp add: l')
  ultimately show "window buffer (words_of buffer) (Suc t) l'" using len by (simp add: window_def l')
qed

lemma list_of_five: "length xs = 5 \<Longrightarrow> \<exists>A B C D E. xs = [A, B, C, D, E]"
  by (auto simp: numeral_eq_Suc length_Suc_conv)

lemma rotate_five:
  "rotate 0 [A, B, C, D, E] = [A, B, C, D, E]" "rotate (Suc 0) [A, B, C, D, E] = [B, C, D, E, A]"
  "rotate 2 [A, B, C, D, E] = [C, D, E, A, B]" "rotate 3 [A, B, C, D, E] = [D, E, A, B, C]" "rotate 4 [A, B, C, D, E] = [E, A, B, C, D]"
  by (simp_all add: rotate_def numeral_eq_Suc)

lemma rotated_round:
  fixes S :: "u32 list"
  assumes "length S = 5" "t < 80" "window buffer (words_of buffer) t l"
  shows "\<exists>l'. sha_round (round_call t) (rotate t S, l) = (rotate (Suc t) (sha_step (words_of buffer) t S), l') \<and>
    window buffer (words_of buffer) (Suc t) l'"
proof -
  from list_of_five [OF assms(1)] obtain A B C D E where S: "S = [A, B, C, D, E]" by auto
  define l' where "l' = (if t < 16 then blk0 t l else blk t l)"
  have l': "window buffer (words_of buffer) (Suc t) l'" "l' ! (t mod 16) = words_of buffer ! t"
    using window_step [OF assms(3,2)] unfolding l'_def by blast+
  define m where "m = t mod 5"
  have p: "(4 * t) mod 5 = (4 * m) mod 5" "(k + 4 * t) mod 5 = (k + 4 * m) mod 5" for k
    unfolding m_def by (simp add: mod_simps) (metis mod_add_right_eq mod_mult_right_eq)
  have r: "rotate t x = rotate m x" "rotate (Suc t) x = rotate ((Suc m) mod 5) x" if "length x = 5" for x :: "u32 list"
    using that unfolding m_def by (subst rotate_conv_mod, simp add: mod_simps)+
  have "m < 5" by (simp add: m_def)
  then have "m = 0 \<or> m = 1 \<or> m = 2 \<or> m = 3 \<or> m = 4" by linarith
  then have "sha_round (round_call t) (rotate t S, l) = (rotate (Suc t) (sha_step (words_of buffer) t S), l')"
    unfolding round_call_def sha_round_call [OF assms(2)] l'_def [symmetric] Let_def l'(2) p
    using S by (elim disjE) (simp_all add: r rotate_five)
  with l'(1) show ?thesis by blast
qed

lemma length_sha_step [simp]: "length (sha_step w t r) = length r"
  by (cases "(w, t, r)" rule: sha_step.cases) simp_all

lemma length_sha_steps [simp]: "length (fold (sha_step w) ts r) = length r"
  by (induction ts arbitrary: r) simp_all

lemma rounds_result:
  assumes "length state = 5" "t \<le> 80"
  shows "\<exists>l. fold sha_round (map round_call [0..<t]) (state, block_words buffer) = (rotate t (fold (sha_step (words_of buffer)) [0..<t] state), l) \<and>
    window buffer (words_of buffer) t l"
  using assms(2)
proof (induction t)
  case 0
  then show ?case by (simp add: window_def block_words_def)
next
  case (Suc t)
  then obtain l where l: "fold sha_round (map round_call [0..<t]) (state, block_words buffer) = (rotate t (fold (sha_step (words_of buffer)) [0..<t] state), l)"
    "window buffer (words_of buffer) t l" by auto
  from rotated_round [OF _ _ l(2), of "fold (sha_step (words_of buffer)) [0..<t] state"] assms(1) Suc.prems l(1) show ?case by auto
qed

lemma transform_is_block:
  assumes "length state = 5"
  shows "SHA1_Transform state buffer = sha_block state buffer"
proof -
  let ?S = "fold (sha_step (words_of buffer)) [0..<80] state"
  from rounds_result [OF assms, of 80 buffer] obtain l where
    "fold sha_round (map round_call [0..<80]) (state, block_words buffer) = (rotate 80 ?S, l)" by auto
  moreover have "rotate 80 ?S = ?S" using assms by (subst rotate_conv_mod) simp
  ultimately show ?thesis by (simp add: SHA1_Transform_def sha_block_def transform_rounds_eq)
qed

lemma length_sha_block [simp]: "length (sha_block H b) = length H"
  by (simp add: sha_block_def Let_def)

lemma length_sha_blocks [simp]: "length (sha_blocks H bs) = length H"
  by (induction H bs rule: sha_blocks.induct) (simp add: sha_blocks.simps)

subsection \<open>The blocks of a stream\<close>

lemma sha_blocks_short: "length p < 64 \<Longrightarrow> sha_blocks H p = H"
  by (subst sha_blocks.simps) simp

lemma sha_blocks_append: "64 dvd length a \<Longrightarrow> sha_blocks H (a @ p) = sha_blocks (sha_blocks H a) p"
proof (induction H a rule: sha_blocks.induct)
  case (1 H a)
  show ?case
  proof (cases "length a < 64")
    case True
    with 1(2) have "a = []" by (auto elim!: dvdE)
    then show ?thesis by (simp add: sha_blocks_short)
  next
    case False
    then have "64 dvd length (drop 64 a)" using 1(2) by (simp add: dvd_diff_nat)
    from 1(1) [OF False this] False show ?thesis by (subst (1 2) sha_blocks.simps) (simp add: not_less)
  qed
qed

lemma update_blocks_result:
  "length state = 5 \<Longrightarrow> i \<le> length data \<Longrightarrow>
   update_blocks data i state = (i + 64 * ((length data - i) div 64), sha_blocks state (drop i data))"
proof (induction data i state rule: update_blocks.induct)
  case (1 data i state)
  show ?case
  proof (cases "i + 63 < length data")
    case True
    define r where "r = length data - (i + 64)"
    have r: "length data - i = r + 64" "length data - (i + 64) = r" using True by (simp_all add: r_def)
    have t: "SHA1_Transform state (take 64 (drop i data)) = sha_block state (take 64 (drop i data))"
      using 1(2) by (rule transform_is_block)
    have "update_blocks data (i + 64) (SHA1_Transform state (take 64 (drop i data))) =
        (i + 64 + 64 * (r div 64), sha_blocks (sha_block state (take 64 (drop i data))) (drop (i + 64) data))"
      using 1(1) [OF True] True 1(2) unfolding r t by simp
    moreover have "sha_blocks state (drop i data) = sha_blocks (sha_block state (take 64 (drop i data))) (drop (i + 64) data)"
      using r(1) by (subst sha_blocks.simps) (simp add: add.commute)
    moreover have "(r + 64) div 64 = r div 64 + 1" by simp
    ultimately show ?thesis using True by (subst update_blocks.simps) (simp add: r(1))
  next
    case False
    then show ?thesis by (subst update_blocks.simps) (simp add: sha_blocks_short)
  qed
qed

subsection \<open>Counting bits\<close>

lemma carry_arith:
  fixes a b M :: nat
  assumes "b < M"
  shows "(a + b) div M = a div M + (if (a + b) mod M < b then 1 else 0)"
proof (cases "a mod M + b < M")
  case True
  have "a + b = a div M * M + (a mod M + b)" by simp
  then have "(a + b) div M = a div M + (a mod M + b) div M" "(a + b) mod M = (a mod M + b) mod M"
    using assms by (metis div_mult_self3 gr_implies_not0) (simp add: mod_simps)
  with True show ?thesis by simp
next
  case False
  define m where "m = a mod M"
  have m: "m < M" "M \<le> m + b" using False assms by (simp_all add: m_def)
  then obtain c where c: "m + b = M + c" using le_Suc_ex by blast
  then have "c < b" "c < M" using m assms by linarith+
  moreover have "a = a div M * M + m" "(a div M + 1) * M = a div M * M + M" by (simp_all add: m_def)
  then have "a + b = c + (a div M + 1) * M" using c by linarith
  ultimately show ?thesis by (simp del: mult_Suc add_mult_distrib)
qed

definition bits_of :: "nat \<Rightarrow> u32 \<times> u32" where
  "bits_of n = (of_nat (8 * n), of_nat (8 * n div 2 ^ 32))"

lemma add_count_exact:
  assumes "len < 2 ^ 29"
  shows "add_count len (bits_of n) = bits_of (n + len)"
proof -
  have b: "push_bit 3 (of_nat len :: u64) = of_nat (8 * len)" by (simp add: push_bit_eq_mult)
  have u: "unat (of_nat (8 * len) :: u64) = 8 * len"
    using assms by (subst unsigned_of_nat) (simp add: take_bit_nat_eq_self_iff)
  have lo: "of_nat (8 * n) + ucast (of_nat (8 * len) :: u64) = (of_nat (8 * (n + len)) :: u32)"
  proof -
    have "(ucast (of_nat (8 * len) :: u64) :: u32) = of_nat (unat (of_nat (8 * len) :: u64))" by (rule of_nat_unat [symmetric])
    then show ?thesis unfolding u by (simp add: distrib_left)
  qed
  have cmp: "(ucast (of_nat (8 * (n + len)) :: u32) :: u64) < of_nat (8 * len) \<longleftrightarrow> 8 * (n + len) mod 2 ^ 32 < 8 * len"
    using assms unfolding word_less_nat_alt unsigned_ucast_eq unsigned_of_nat by (simp add: take_bit_eq_mod del: of_nat_mult)
  have hi: "(drop_bit 29 (of_nat len :: u64)) = 0"
  proof -
    have "unat (drop_bit 29 (of_nat len :: u64)) = 0"
      using assms unfolding unat_drop_bit unsigned_of_nat by (simp add: take_bit_eq_mod)
    then show ?thesis by (simp add: unsigned_eq_0_iff)
  qed
  have "(8 * n + 8 * len) div 2 ^ 32 = 8 * n div 2 ^ 32 + (if (8 * n + 8 * len) mod 2 ^ 32 < 8 * len then 1 else 0)"
    using assms by (intro carry_arith) simp
  then show ?thesis
    unfolding bits_of_def add_count_def Let_def prod.case b lo cmp hi by (simp add: distrib_left)
qed

text \<open>A context that has hashed a message: whole blocks went into the state, the rest is in the buffer.\<close>

definition hashed :: "bytes \<Rightarrow> SHA1_CTX \<Rightarrow> bool" where
  "hashed msg ctx \<longleftrightarrow> length (ctx_buffer ctx) = 64 \<and>
     ctx_count ctx = bits_of (length msg) \<and>
     (\<exists>a p. msg = a @ p \<and> 64 dvd length a \<and> length p < 64 \<and> ctx_state ctx = sha_blocks sha_H0 a \<and> take (length p) (ctx_buffer ctx) = p)"

lemma hashed_init: "length (ctx_buffer ctx) = 64 \<Longrightarrow> hashed [] (sat_SHA1_Init ctx)"
  by (simp add: hashed_def sat_SHA1_Init_def sha_H0_def sha_blocks_short bits_of_def)

lemma count_place: "unat (drop_bit 3 (fst (bits_of n)) AND 63) = n mod 64"
proof -
  have "unat (drop_bit 3 (of_nat (8 * n) :: u32) AND 63) = (8 * n mod 2 ^ 32) div 8 mod 64"
    using unat_and_mask [of "drop_bit 3 (of_nat (8 * n) :: u32)" 6]
    by (simp add: unat_drop_bit unsigned_of_nat take_bit_eq_mod mask_eq_exp_minus_1 del: of_nat_mult)
  also have "8 * n mod 2 ^ 32 = 8 * (n mod 2 ^ 29)" using mult_mod_right [of 8 n "2 ^ 29"] by simp
  also have "8 * (n mod 2 ^ 29) div 8 mod 64 = n mod 64" by (simp add: mod_mod_cancel)
  finally show ?thesis by (simp add: bits_of_def)
qed

lemma update_hashed:
  assumes "hashed msg ctx" "length data < 2 ^ 29"
  shows "\<exists>ctx'. sat_SHA1_Update data ctx = Some ctx' \<and> hashed (msg @ data) ctx'"
proof -
  from assms(1) obtain a p where h: "length (ctx_buffer ctx) = 64" "ctx_count ctx = bits_of (length msg)"
    "msg = a @ p" "64 dvd length a" "length p < 64" "ctx_state ctx = sha_blocks sha_H0 a" "take (length p) (ctx_buffer ctx) = p"
    by (auto simp: hashed_def)
  have "length msg mod 64 = length p" using h(3-5) by (auto elim!: dvdE)
  then have j: "unat (drop_bit 3 (fst (ctx_count ctx)) AND 63) = length p" unfolding h(2) count_place .
  have c: "add_count (length data) (ctx_count ctx) = bits_of (length (msg @ data))"
    unfolding h(2) add_count_exact [OF assms(2)] by simp
  show ?thesis
  proof (cases "length p + length data > 63")
    case False
    then have "sat_SHA1_Update data ctx = Some (ctx\<lparr>ctx_count := bits_of (length (msg @ data)),
        ctx_buffer := p @ data @ drop (length p + length data) (ctx_buffer ctx)\<rparr>)"
      using h unfolding sat_SHA1_Update_def j c Let_def by (simp add: put_bytes_ok)
    moreover have "\<exists>a' p'. msg @ data = a' @ p' \<and> 64 dvd length a' \<and> length p' < 64 \<and> ctx_state ctx = sha_blocks sha_H0 a' \<and>
        take (length p') (p @ data @ drop (length p + length data) (ctx_buffer ctx)) = p'"
      using False h by (intro exI [of _ a] exI [of _ "p @ data"]) simp
    ultimately show ?thesis using h(1) False by (auto simp: hashed_def)
  next
    case True
    let ?k = "64 - length p"
    let ?d = "drop ?k data"
    let ?q = "64 * (length ?d div 64)"
    let ?b = "p @ take ?k data"
    have b: "length ?b = 64" using True h(5) by simp
    have put: "put_bytes (length p) (take ?k data) (ctx_buffer ctx) = Some ?b"
      using True h(1,5,7) by (simp add: put_bytes_ok)
    have st: "length (sha_block (sha_blocks sha_H0 a) ?b) = 5" by (simp add: sha_H0_def)
    have "length (sha_blocks sha_H0 a) = 5" by (simp add: sha_H0_def)
    note tr = transform_is_block [OF this]
    have up: "update_blocks data ?k (SHA1_Transform (sha_blocks sha_H0 a) ?b) = (?k + ?q, sha_blocks (sha_block (sha_blocks sha_H0 a) ?b) ?d)"
      unfolding tr using update_blocks_result [OF st, of ?k data] True h(5) by simp
    define r where "r = drop (?k + ?q) data"
    have "length r = length ?d mod 64"
      using True h(5) unfolding r_def by (simp add: minus_mult_div_eq_mod [symmetric])
    then have r: "length r < 64" by simp
    have "sat_SHA1_Update data ctx = Some (ctx\<lparr>ctx_count := bits_of (length (msg @ data)),
        ctx_state := sha_blocks (sha_block (sha_blocks sha_H0 a) ?b) ?d, ctx_buffer := r @ drop (length r) ?b\<rparr>)"
      using True put r h(6) b unfolding sat_SHA1_Update_def j c Let_def by (simp add: up put_bytes_ok r_def)
    moreover have "\<exists>a' p'. msg @ data = a' @ p' \<and> 64 dvd length a' \<and> length p' < 64 \<and>
        sha_blocks (sha_block (sha_blocks sha_H0 a) ?b) ?d = sha_blocks sha_H0 a' \<and> take (length p') (r @ drop (length r) ?b) = p'"
    proof (intro exI conjI)
      have "r = drop ?q ?d" unfolding r_def by (simp add: add.commute)
      then have d: "?d = take ?q ?d @ r" by (metis append_take_drop_id)
      show "msg @ data = (a @ ?b @ take ?q ?d) @ r" using d h(3) by (metis append.assoc append_take_drop_id)
      have q: "64 dvd length (take ?q ?d)" by simp
      then show "64 dvd length (a @ ?b @ take ?q ?d)" using h(4) b by simp
      have "sha_blocks (sha_block (sha_blocks sha_H0 a) ?b) ?d = sha_blocks (sha_block (sha_blocks sha_H0 a) ?b) (take ?q ?d)"
        using sha_blocks_append [OF q, of _ r] r sha_blocks_short d by metis
      also have "\<dots> = sha_blocks (sha_blocks sha_H0 a) (?b @ take ?q ?d)"
        by (subst (2) sha_blocks.simps) (use b in simp)
      finally show "sha_blocks (sha_block (sha_blocks sha_H0 a) ?b) ?d = sha_blocks sha_H0 (a @ ?b @ take ?q ?d)"
        using sha_blocks_append [OF h(4)] by simp
    qed (use r in simp_all)
    ultimately show ?thesis using b r by (auto simp: hashed_def)
  qed
qed

subsection \<open>The end of a message\<close>

lemma word_byte_eq: "word_byte w i = ucast (drop_bit ((3 - i mod 4) * 8) w)"
proof -
  have "i AND 3 = i mod 4" using take_bit_eq_mask [of 2 i] by (simp add: take_bit_eq_mod mask_eq_exp_minus_1)
  then show ?thesis by (simp add: word_byte_def byte_mask)
qed

lemma finalcount_bytes:
  "map (\<lambda>i. word_byte (if i \<ge> 4 then fst (bits_of n) else snd (bits_of n)) i) [0..<8] = bit_count n"
proof -
  have "[0..<8] = [0, 1, 2, 3, 4, 5, 6, 7]" by code_simp
  then show ?thesis by (simp add: word_byte_eq bit_count_def bits_of_def be_bytes_def)
qed

lemma digest_bytes:
  assumes "length st = 5"
  shows "map (\<lambda>i. word_byte (st ! (i div 4)) i) [0..<20] = concat (map be_bytes st)"
proof -
  from list_of_five [OF assms] obtain A B C D E where "st = [A, B, C, D, E]" by auto
  moreover have "[0..<20] = [0, 1, 2, 3, 4, 5, 6, 7, 8, 9, 10, 11, 12, 13, 14, 15, 16, 17, 18, 19]" by code_simp
  ultimately show ?thesis by (simp add: word_byte_eq be_bytes_def)
qed

text \<open>The loop of \<open>sat_SHA1_Final\<close> adds zeros until eight bytes are missing in a block.\<close>

lemma final_test: "fst (bits_of n) AND 504 = 448 \<longleftrightarrow> n mod 64 = 56"
proof -
  have "fst (bits_of n) AND 504 = push_bit 3 (of_nat n AND 63)"
    unfolding push_bit_and by (simp add: bits_of_def push_bit_eq_mult mult.commute)
  moreover have "unat (push_bit 3 (of_nat n AND 63) :: u32) = 8 * (n mod 64)"
  proof -
    have m: "unat (of_nat n AND 63 :: u32) = n mod 64"
      using unat_and_mask [of "of_nat n :: u32" 6]
      by (simp add: unsigned_of_nat take_bit_eq_mod mask_eq_exp_minus_1 mod_mod_cancel)
    have "unat (push_bit 3 (of_nat n AND 63) :: u32) = take_bit 32 (push_bit 3 (unat (of_nat n AND 63 :: u32)))"
      by (simp only: unsigned_push_bit_eq len_of_numeral_defs) simp
    also have "\<dots> = 8 * (n mod 64)"
    proof -
      have "n mod 64 < 64" by simp
      then have "n mod 64 * 8 < 512" by linarith
      then have "n mod 64 * 8 < 2 ^ 32" by simp
      then show ?thesis unfolding m push_bit_eq_mult by (simp add: take_bit_nat_eq_self mult.commute)
    qed
    finally show ?thesis .
  qed
  ultimately have "unat (fst (bits_of n) AND 504) = 8 * (n mod 64)" by simp
  moreover have "unat (448 :: u32) = 448" by simp
  ultimately show ?thesis unfolding word_unat_eq_iff by simp
qed

lemma hashed_count: "hashed msg ctx \<Longrightarrow> ctx_count ctx = bits_of (length msg)"
  by (simp add: hashed_def)

lemma zeros_missing: "r < 64 \<Longrightarrow> (120 - r) mod 64 = (if r \<le> 56 then 56 - r else 120 - r)" for r :: nat
proof (cases "r \<le> 56")
  case True
  then have "120 - r = (56 - r) + 64" by simp
  then show ?thesis using True by (simp only: mod_add_self2) simp
qed simp

lemma final_loop_hashed:
  assumes "hashed msg ctx"
  shows "\<exists>ctx'. final_loop ctx = Some ctx' \<and> hashed (msg @ replicate ((120 - length msg mod 64) mod 64) 0) ctx'"
  using assms
proof (induction "(120 - length msg mod 64) mod 64" arbitrary: msg ctx)
  case 0
  have r: "length msg mod 64 < 64" by simp
  then have "length msg mod 64 = 56" using 0(1) zeros_missing [OF r] by (simp split: if_splits)
  then have "final_loop ctx = Some ctx" using hashed_count [OF 0(2)] final_test by (subst final_loop.simps) simp
  then show ?case using 0 by auto
next
  case (Suc k)
  have r: "length msg mod 64 < 64" "length (msg @ [0 :: u8]) mod 64 < 64" by simp_all
  have n: "length msg mod 64 \<noteq> 56" "k = (120 - length (msg @ [0 :: u8]) mod 64) mod 64"
    using Suc(2) unfolding zeros_missing [OF r(1)] zeros_missing [OF r(2)] using r(1)
    by (auto simp: mod_Suc split: if_splits)
  from update_hashed [OF Suc(3), of "[0]"] obtain ctx1 where c: "sat_SHA1_Update [0] ctx = Some ctx1" "hashed (msg @ [0]) ctx1" by auto
  have "final_loop ctx = final_loop ctx1"
    using n(1) c(1) hashed_count [OF Suc(3)] final_test by (subst final_loop.simps) simp
  moreover have "(msg @ [0]) @ replicate k (0 :: u8) = msg @ replicate (Suc k) 0" by simp
  ultimately show ?case using Suc(1) [OF n(2) c(2)] n(2) Suc(2) by (metis append.assoc)
qed

lemma length_bit_count [simp]: "length (bit_count n) = 8"
  by (simp add: bit_count_def be_bytes_def)

lemma length_padded: "64 dvd length (sha_padded msg)"
proof -
  have r: "Suc (length msg) mod 64 < 64" by simp
  have "length msg mod 64 < 64" by simp
  then have e: "(119 - length msg mod 64) mod 64 = (120 - Suc (length msg) mod 64) mod 64" by (simp add: mod_Suc)
  define q where "q = Suc (length msg) div 64"
  define s where "s = Suc (length msg) mod 64"
  have "Suc (length msg) = 64 * q + s" by (simp add: q_def s_def)
  moreover have "s + (if s \<le> 56 then 56 - s else 120 - s) + 8 = (if s \<le> 56 then 64 else 128)" using r by (simp add: s_def)
  ultimately have "length (sha_padded msg) = 64 * q + (if s \<le> 56 then 64 else 128)"
    unfolding sha_padded_def e zeros_missing [OF r] unfolding s_def [symmetric] by simp
  then show ?thesis by simp
qed

lemma final_hashed:
  assumes "hashed msg ctx"
  shows "\<exists>ctx'. sat_SHA1_Final ctx = Some (sha1_standard msg, ctx')"
proof -
  from update_hashed [OF assms, of "[0x80]"] obtain ctx1 where 1: "sat_SHA1_Update [0x80] ctx = Some ctx1" "hashed (msg @ [0x80]) ctx1" by auto
  from final_loop_hashed [OF 1(2)] obtain ctx2 where 2: "final_loop ctx1 = Some ctx2"
    "hashed ((msg @ [0x80]) @ replicate ((120 - length (msg @ [0x80 :: u8]) mod 64) mod 64) 0) ctx2" by blast
  from update_hashed [OF 2(2), of "bit_count (length msg)"] obtain ctx3 where 3: "sat_SHA1_Update (bit_count (length msg)) ctx2 = Some ctx3"
    "hashed (((msg @ [0x80]) @ replicate ((120 - length (msg @ [0x80 :: u8]) mod 64) mod 64) 0) @ bit_count (length msg)) ctx3" by auto
  have "length msg mod 64 < 64" by simp
  then have "(120 - length (msg @ [0x80 :: u8]) mod 64) mod 64 = (119 - length msg mod 64) mod 64"
    by (simp add: mod_Suc)
  then have h: "hashed (sha_padded msg) ctx3" using 3(2) by (simp add: sha_padded_def)
  then obtain a p where ap: "sha_padded msg = a @ p" "64 dvd length a" "length p < 64" "ctx_state ctx3 = sha_blocks sha_H0 a"
    by (auto simp: hashed_def)
  have "64 dvd length p" using length_padded [of msg] ap(1,2) by (simp add: dvd_add_right_iff)
  then have "p = []" using ap(3) by (auto elim!: dvdE)
  then have st: "ctx_state ctx3 = sha_blocks sha_H0 (sha_padded msg)" using ap by simp
  have "length (ctx_state ctx3) = 5" unfolding st by (simp add: sha_H0_def)
  from digest_bytes [OF this] show ?thesis
    unfolding sat_SHA1_Final_def hashed_count [OF assms] finalcount_bytes Let_def
    using 1(1) 2(1) 3(1) st by (simp add: sha1_standard_def)
qed

lemma sha1_stream:
  assumes "length (ctx_buffer ctx) = 64" "length str < 2 ^ 29"
  shows "\<exists>ctx1 ctx2. sat_SHA1_Update str (sat_SHA1_Init ctx) = Some ctx1 \<and> sat_SHA1_Final ctx1 = Some (sha1_standard str, ctx2)"
  using update_hashed [OF hashed_init [OF assms(1)] assms(2)] final_hashed by force

subsection \<open>Keyed hashes\<close>

lemma xor_byte:
  fixes a b c d :: u8 and x :: u32
  defines "w \<equiv> (ucast a OR push_bit 8 (ucast b) OR push_bit 16 (ucast c) OR push_bit 24 (ucast d)) XOR x"
  shows "ucast w = a XOR ucast x" "ucast (drop_bit 8 w) = b XOR ucast (drop_bit 8 x)"
    "ucast (drop_bit 16 w) = c XOR ucast (drop_bit 16 x)" "ucast (drop_bit 24 w) = d XOR ucast (drop_bit 24 x)"
proof -
  have hi: "\<not> bit v n" if "8 \<le> n" for v :: u8 and n using that bit_imp_le_length [of v n] by auto
  show "ucast w = a XOR ucast x" by (rule bit_word_eqI) (auto simp: w_def bit_simps hi)
  show "ucast (drop_bit 8 w) = b XOR ucast (drop_bit 8 x)" by (rule bit_word_eqI) (auto simp: w_def bit_simps hi)
  show "ucast (drop_bit 16 w) = c XOR ucast (drop_bit 16 x)" by (rule bit_word_eqI) (auto simp: w_def bit_simps hi)
  show "ucast (drop_bit 24 w) = d XOR ucast (drop_bit 24 x)" by (rule bit_word_eqI) (auto simp: w_def bit_simps hi)
qed

lemma concat_words: "4 * n \<le> length bs \<Longrightarrow> concat (map (\<lambda>i. map g (take 4 (drop (4 * i) bs))) [0..<n]) = map g (take (4 * n) bs)"
proof (induction n)
  case (Suc n)
  have "4 * Suc n = 4 * n + 4" by simp
  then have "take (4 * Suc n) bs = take (4 * n) bs @ take 4 (drop (4 * n) bs)" by (simp only: take_add)
  with Suc show ?case by simp
qed simp

lemma xor_key_map:
  assumes "length key = 64" "ucast x = y" "ucast (drop_bit 8 x) = y" "ucast (drop_bit 16 x) = y" "ucast (drop_bit 24 x) = y"
  shows "xor_key x key = map (\<lambda>b. b XOR y) key"
proof -
  have "(let w = le_word key (4 * i) XOR x in [ucast w, ucast (drop_bit 8 w), ucast (drop_bit 16 w), ucast (drop_bit 24 w)]) =
      map (\<lambda>b. b XOR y) (take 4 (drop (4 * i) key))" if "i \<in> set [0..<16]" for i
  proof -
    have "4 * i + 3 < length key" using that assms(1) by simp
    then have "take 4 (drop (4 * i) key) = [key ! (4 * i), key ! (4 * i + 1), key ! (4 * i + 2), key ! (4 * i + 3)]"
      by (intro nth_equalityI) (auto simp: numeral_eq_Suc less_Suc_eq)
    then show ?thesis unfolding le_word_def Let_def xor_byte by (simp add: assms)
  qed
  then have "xor_key x key = concat (map (\<lambda>i. map (\<lambda>b. b XOR y) (take 4 (drop (4 * i) key))) [0..<16])"
    unfolding xor_key_def by (intro arg_cong [where f = concat] map_cong) simp_all
  then show ?thesis using concat_words [of 16 key] assms(1) by simp
qed

lemma length_standard [simp]: "length (sha1_standard msg) = 20"
proof -
  have "length (sha_blocks sha_H0 (sha_padded msg)) = 5" by (simp add: sha_H0_def)
  from list_of_five [OF this] obtain A B C D E where "sha_blocks sha_H0 (sha_padded msg) = [A, B, C, D, E]" by auto
  then show ?thesis by (simp add: sha1_standard_def be_bytes_def)
qed

lemma sha1_two:
  assumes "length (ctx_buffer ctx) = 64" "length a < 2 ^ 29" "length b < 2 ^ 29"
  shows "\<exists>ctx1 ctx2 ctx3. sat_SHA1_Update a (sat_SHA1_Init ctx) = Some ctx1 \<and> sat_SHA1_Update b ctx1 = Some ctx2 \<and>
    sat_SHA1_Final ctx2 = Some (sha1_standard (a @ b), ctx3)"
  using update_hashed [OF hashed_init [OF assms(1)] assms(2)] update_hashed [OF _ assms(3)] final_hashed by force

text \<open>C35. The streaming, in-place hash function is SHA-1 and the keyed hash is HMAC of the standards, for texts and keys of
  fewer than \<open>2^29\<close> bytes, whatever the contexts on the stack held before.\<close>

theorem sha1_is_standard:
  assumes "length (ctx_buffer ctx) = 64" "length (ctx_buffer ctx1) = 64" "length (ctx_buffer ctx2) = 64"
    and "length str < 2 ^ 29" "length key < 2 ^ 29"
  shows "lsha1 ctx str = Some (sha1_standard str) \<and> lhmac_sha1 ctx ctx1 ctx2 key str = Some (hmac_standard key str)"
proof
  show "lsha1 ctx str = Some (sha1_standard str)"
    using sha1_stream [OF assms(1,4)] by (auto simp: lsha1_def)
  define k where "k = (if length key > 64 then sha1_standard key else key)"
  define rkey where "rkey = k @ replicate (64 - length k) 0"
  have "length k \<le> 64" by (simp add: k_def)
  then have len: "length rkey = 64" by (simp add: rkey_def)
  have "rkey = take 0 (replicate BLOCKSIZE 0) @ k @ drop (0 + length k) (replicate BLOCKSIZE 0)" by (simp add: rkey_def BLOCKSIZE_def)
  then have put: "put_bytes 0 k (replicate BLOCKSIZE 0) = Some rkey"
    using put_bytes_ok [of 0 k "replicate BLOCKSIZE 0"] \<open>length k \<le> 64\<close> by (simp add: BLOCKSIZE_def)
  have start: "(if length key > BLOCKSIZE
      then do { ctx \<leftarrow> sat_SHA1_Update key (sat_SHA1_Init ctx); (digest, _) \<leftarrow> sat_SHA1_Final ctx; put_bytes 0 digest (replicate BLOCKSIZE 0) }
      else put_bytes 0 key (replicate BLOCKSIZE 0)) = Some rkey"
    using sha1_stream [OF assms(1,5)] put by (auto simp: k_def BLOCKSIZE_def)
  let ?o = "map (\<lambda>b. b XOR 0x5c) rkey" and ?i = "map (\<lambda>b. b XOR 0x36) rkey"
  have o: "xor_key 0x5c5c5c5c rkey = ?o" using len by (intro xor_key_map) simp_all
  have "xor_key 0x6a6a6a6a ?o = map (\<lambda>b. b XOR 0x6a) ?o" using len by (intro xor_key_map) simp_all
  then have i: "xor_key 0x6a6a6a6a ?o = ?i" by (simp add: xor.assoc)
  from sha1_two [OF assms(3) _ assms(4), of ?i] len obtain c1 c2 c3 where inner:
    "sat_SHA1_Update ?i (sat_SHA1_Init ctx2) = Some c1" "sat_SHA1_Update str c1 = Some c2" "sat_SHA1_Final c2 = Some (sha1_standard (?i @ str), c3)"
    by auto
  from sha1_two [OF assms(2), of ?o "sha1_standard (?i @ str)"] len obtain d1 d2 d3 where outer:
    "sat_SHA1_Update ?o (sat_SHA1_Init ctx1) = Some d1" "sat_SHA1_Update (sha1_standard (?i @ str)) d1 = Some d2"
    "sat_SHA1_Final d2 = Some (sha1_standard (?o @ sha1_standard (?i @ str)), d3)" by auto
  have "hmac_standard key str = sha1_standard (?o @ sha1_standard (?i @ str))"
    unfolding hmac_standard_def Let_def k_def [symmetric] rkey_def [symmetric] ..
  then show "lhmac_sha1 ctx ctx1 ctx2 key str = Some (hmac_standard key str)"
    unfolding lhmac_sha1_def start using inner outer by (simp add: o i)
qed

theorem sha1_is_standard_witness:
  "lsha1 \<lparr>ctx_state = replicate 5 1, ctx_count = (2, 3), ctx_buffer = replicate 64 7\<rparr> [97, 98, 99] = Some (sha1_standard [97, 98, 99])"
  using sha1_is_standard [of "\<lparr>ctx_state = replicate 5 1, ctx_count = (2, 3), ctx_buffer = replicate 64 7\<rparr>"
      "\<lparr>ctx_state = replicate 5 1, ctx_count = (2, 3), ctx_buffer = replicate 64 7\<rparr>"
      "\<lparr>ctx_state = replicate 5 1, ctx_count = (2, 3), ctx_buffer = replicate 64 7\<rparr>" "[97, 98, 99]" "[1]"]
  by simp

text \<open>The comparison with the 64-bit number of bits counts a carry too many from \<open>2^29\<close> bytes on.\<close>

lemma long_text_count: "add_count (2 ^ 29) (0, 0) = (0, 2)" "bits_of (2 ^ 29) = (0, 1)"
  by (simp_all add: add_count_def bits_of_def)

end
