(* ===== verification/Stm.thy ===== *)
theory Stm
  imports Prelude "HOL-Library.Multiset"
begin

section \<open>Values shared by Lua services (\<open>lua-stm.c\<close>)\<close>

text \<open>
  A writer keeps an object whose copy it replaces; readers in other services hold the object and the last
  copy that they saw. Object and copies count their references. The object is reached under a
  reader-writer lock, copies are released without it.

  A step is a call up to the next access that another thread can observe: taking the lock, what is done under
  it, giving it back, releasing a copy. What a writer does under its lock and giving it back are one step,
  because nobody else can then hold the lock (\<open>rwlock_exclusion\<close> of \<open>Locks\<close>). The addresses of copies are the
  numbers of their allocation; freed memory leaves the heap.
\<close>

subsection \<open>Objects and copies\<close>

record stm_copy =
  cp_reference :: int
  cp_sz :: u32
  cp_msg :: bytes

record stm_object =
  ob_write :: bool
  ob_read :: nat
  ob_reference :: int
  ob_copy :: "nat option"

record stm_heap =
  hp_obj :: "stm_object option"
  hp_copies :: "nat \<Rightarrow> stm_copy option"
  hp_next :: nat
  hp_freed :: "bytes list"

definition stm_newcopy :: "bytes \<Rightarrow> u32 \<Rightarrow> stm_heap \<Rightarrow> nat \<times> stm_heap" where
  "stm_newcopy msg sz h =
     (hp_next h, h\<lparr>hp_copies := (hp_copies h)(hp_next h \<mapsto> \<lparr>cp_reference = 1, cp_sz = sz, cp_msg = msg\<rparr>), hp_next := hp_next h + 1\<rparr>)"

definition stm_new :: "bytes \<Rightarrow> u32 \<Rightarrow> stm_heap \<Rightarrow> stm_heap" where
  "stm_new msg sz h =
     (let (c, h) = stm_newcopy msg sz h in h\<lparr>hp_obj := Some \<lparr>ob_write = False, ob_read = 0, ob_reference = 1, ob_copy = Some c\<rparr>\<rparr>)"

definition stm_releasecopy :: "nat option \<Rightarrow> stm_heap \<Rightarrow> stm_heap option" where
  "stm_releasecopy copy h =
     (case copy of None \<Rightarrow> Some h
      | Some c \<Rightarrow>
          do { cp \<leftarrow> hp_copies h c;
               (if cp_reference cp - 1 = 0
                then Some (h\<lparr>hp_copies := (hp_copies h)(c := None), hp_freed := hp_freed h @ [cp_msg cp]\<rparr>)
                else Some (h\<lparr>hp_copies := (hp_copies h)(c \<mapsto> cp\<lparr>cp_reference := cp_reference cp - 1\<rparr>)\<rparr>)) })"

text \<open>The lock of the object; \<open>None\<close> inside means that the caller has to wait.\<close>

definition rlock :: "stm_heap \<Rightarrow> stm_heap option option" where
  "rlock h = do { ob \<leftarrow> hp_obj h;
                  Some (if ob_write ob then None else Some (h\<lparr>hp_obj := Some (ob\<lparr>ob_read := ob_read ob + 1\<rparr>)\<rparr>)) }"

definition runlock :: "stm_heap \<Rightarrow> stm_heap option" where
  "runlock h = do { ob \<leftarrow> hp_obj h; Some (h\<lparr>hp_obj := Some (ob\<lparr>ob_read := ob_read ob - 1\<rparr>)\<rparr>) }"

definition wlock :: "stm_heap \<Rightarrow> stm_heap option option" where
  "wlock h = do { ob \<leftarrow> hp_obj h;
                  Some (if ob_write ob \<or> ob_read ob > 0 then None else Some (h\<lparr>hp_obj := Some (ob\<lparr>ob_write := True\<rparr>)\<rparr>)) }"

text \<open>What is done under the lock. The object is freed when its last reference goes.\<close>

definition release_locked :: "stm_heap \<Rightarrow> stm_heap option" where
  "release_locked h =
     do { ob \<leftarrow> hp_obj h; h \<leftarrow> stm_releasecopy (ob_copy ob) h;
          let ob = ob\<lparr>ob_copy := None, ob_reference := ob_reference ob - 1\<rparr>;
          Some (h\<lparr>hp_obj := (if ob_reference ob > 0 then Some (ob\<lparr>ob_write := False\<rparr>) else None)\<rparr>) }"

definition releasereader_locked :: "stm_heap \<Rightarrow> (bool \<times> stm_heap) option" where
  "releasereader_locked h =
     do { ob \<leftarrow> hp_obj h;
          (if ob_reference ob - 1 = 0
           then do { assert_opt (ob_copy ob = None); Some (False, h\<lparr>hp_obj := None\<rparr>) }
           else Some (True, h\<lparr>hp_obj := Some (ob\<lparr>ob_reference := ob_reference ob - 1\<rparr>)\<rparr>)) }"

definition grab_locked :: "stm_heap \<Rightarrow> (int \<times> stm_heap) option" where
  "grab_locked h = do { ob \<leftarrow> hp_obj h; Some (ob_reference ob, h\<lparr>hp_obj := Some (ob\<lparr>ob_reference := ob_reference ob + 1\<rparr>)\<rparr>) }"

definition copy_locked :: "stm_heap \<Rightarrow> (nat option \<times> stm_heap) option" where
  "copy_locked h =
     do { ob \<leftarrow> hp_obj h;
          (case ob_copy ob of None \<Rightarrow> Some (None, h)
           | Some c \<Rightarrow>
               do { cp \<leftarrow> hp_copies h c; assert_opt (cp_reference cp > 0);
                    Some (Some c, h\<lparr>hp_copies := (hp_copies h)(c \<mapsto> cp\<lparr>cp_reference := cp_reference cp + 1\<rparr>)\<rparr>) }) }"

definition update_locked :: "nat \<Rightarrow> stm_heap \<Rightarrow> (nat option \<times> stm_heap) option" where
  "update_locked copy h =
     do { ob \<leftarrow> hp_obj h; Some (ob_copy ob, h\<lparr>hp_obj := Some (ob\<lparr>ob_copy := Some copy, ob_write := False\<rparr>)\<rparr>) }"

subsection \<open>Writers and readers\<close>

text \<open>Where the service of the writer is in \<open>lupdate\<close>, \<open>lcopy\<close> or \<open>ldeletewriter\<close>, and a reader in \<open>lread\<close> or
  \<open>ldeletereader\<close>. A reader remembers its last copy and the copies that its function was called with.\<close>

datatype writer_pc =
    W_idle | W_update nat | W_updating nat | W_drop "nat option"
  | W_grabbing | W_grabbed int | W_check int | W_delete | W_deleting | W_gone

datatype reader_pc =
    R_idle | R_locked | R_copied "nat option" | R_got "nat option" | R_using
  | R_del_locked | R_del_unlock | R_del_copy | R_gone

record stm_reader =
  rd_pc :: reader_pc
  rd_last :: "nat option"
  rd_seen :: "(nat \<times> bytes) list"

text \<open>The object pointers that \<open>lcopy\<close> gave out and that no reader was made of are in transit. All messages that
  the writer handed over are remembered.\<close>

record stm_system =
  st_heap :: stm_heap
  st_writer :: writer_pc
  st_transit :: nat
  st_readers :: "stm_reader list"
  st_given :: "bytes list"

datatype writer_call = Call_update bytes u32 | Call_copy | Call_delete

datatype reader_call = Call_read | Call_release

datatype 'a outcome = Blocked | Crash | Step 'a

definition run :: "'a option \<Rightarrow> 'a outcome" where
  "run r = (case r of None \<Rightarrow> Crash | Some x \<Rightarrow> Step x)"

definition run_lock :: "'a option option \<Rightarrow> 'a outcome" where
  "run_lock r = (case r of None \<Rightarrow> Crash | Some None \<Rightarrow> Blocked | Some (Some x) \<Rightarrow> Step x)"

primrec after :: "'a outcome \<Rightarrow> ('a \<Rightarrow> 'b) \<Rightarrow> 'b outcome" where
  "after Blocked f = Blocked"
| "after Crash f = Crash"
| "after (Step x) f = Step (f x)"

definition writer_step :: "writer_call \<Rightarrow> stm_system \<Rightarrow> stm_system outcome" where
  "writer_step call s =
     (let h = st_heap s; go = (\<lambda>pc h. s\<lparr>st_heap := h, st_writer := pc\<rparr>) in
      case st_writer s of
        W_idle \<Rightarrow>
          (case call of
             Call_update msg sz \<Rightarrow>
               (let (c, h) = stm_newcopy msg sz h in Step (go (W_update c) h\<lparr>st_given := st_given s @ [msg]\<rparr>))
           | Call_copy \<Rightarrow> after (run_lock (rlock h)) (go W_grabbing)
           | Call_delete \<Rightarrow> after (run (do { ob \<leftarrow> hp_obj h; assert_opt (ob_copy ob \<noteq> None); Some h })) (go W_delete))
      | W_update c \<Rightarrow> after (run_lock (wlock h)) (go (W_updating c))
      | W_updating c \<Rightarrow> after (run (update_locked c h)) (\<lambda>(oldcopy, h). go (W_drop oldcopy) h)
      | W_drop oldcopy \<Rightarrow> after (run (stm_releasecopy oldcopy h)) (go W_idle)
      | W_grabbing \<Rightarrow> after (run (grab_locked h)) (\<lambda>(ref, h). go (W_grabbed ref) h)
      | W_grabbed ref \<Rightarrow> after (run (runlock h)) (go (W_check ref))
      | W_check ref \<Rightarrow> after (run (assert_opt (ref > 0))) (\<lambda>_. go W_idle h\<lparr>st_transit := st_transit s + 1\<rparr>)
      | W_delete \<Rightarrow> after (run_lock (wlock h)) (go W_deleting)
      | W_deleting \<Rightarrow> after (run (release_locked h)) (go W_gone)
      | W_gone \<Rightarrow> Blocked)"

definition reader_step :: "reader_call \<Rightarrow> stm_reader \<Rightarrow> stm_heap \<Rightarrow> (stm_reader \<times> stm_heap) outcome" where
  "reader_step call r h =
     (let go = (\<lambda>pc h. (r\<lparr>rd_pc := pc\<rparr>, h)) in
      case rd_pc r of
        R_idle \<Rightarrow> after (run_lock (rlock h)) (go (case call of Call_read \<Rightarrow> R_locked | Call_release \<Rightarrow> R_del_locked))
      | R_locked \<Rightarrow> after (run (copy_locked h)) (\<lambda>(ret, h). go (R_copied ret) h)
      | R_copied ret \<Rightarrow> after (run (runlock h)) (go (R_got ret))
      | R_got ret \<Rightarrow>
          (if ret = rd_last r then after (run (stm_releasecopy ret h)) (go R_idle)
           else after (run (stm_releasecopy (rd_last r) h))
                  (\<lambda>h. (r\<lparr>rd_pc := (if ret = None then R_idle else R_using), rd_last := ret\<rparr>, h)))
      | R_using \<Rightarrow>
          after (run (do { c \<leftarrow> rd_last r; cp \<leftarrow> hp_copies h c; Some (c, cp_msg cp) }))
            (\<lambda>x. (r\<lparr>rd_pc := R_idle, rd_seen := rd_seen r @ [x]\<rparr>, h))
      | R_del_locked \<Rightarrow> after (run (releasereader_locked h)) (\<lambda>(more_refs, h). go (if more_refs then R_del_unlock else R_del_copy) h)
      | R_del_unlock \<Rightarrow> after (run (runlock h)) (go R_del_copy)
      | R_del_copy \<Rightarrow> after (run (stm_releasecopy (rd_last r) h)) (\<lambda>h. (r\<lparr>rd_pc := R_gone, rd_last := None\<rparr>, h))
      | R_gone \<Rightarrow> Blocked)"

definition new_reader :: stm_reader where
  "new_reader = \<lparr>rd_pc = R_idle, rd_last = None, rd_seen = []\<rparr>"

definition lnewreader :: "stm_system \<Rightarrow> stm_system" where
  "lnewreader s = s\<lparr>st_transit := st_transit s - 1, st_readers := st_readers s @ [new_reader]\<rparr>"

definition lnewwriter :: "bytes \<Rightarrow> u32 \<Rightarrow> stm_system" where
  "lnewwriter msg sz =
     \<lparr>st_heap = stm_new msg sz \<lparr>hp_obj = None, hp_copies = (\<lambda>_. None), hp_next = 0, hp_freed = []\<rparr>,
      st_writer = W_idle, st_transit = 0, st_readers = [], st_given = [msg]\<rparr>"

inductive stm_reach :: "stm_system \<Rightarrow> bool" where
  stm_start: "stm_reach (lnewwriter msg sz)"
| stm_writer: "stm_reach s \<Longrightarrow> writer_step call s = Step s' \<Longrightarrow> stm_reach s'"
| stm_newreader: "stm_reach s \<Longrightarrow> st_transit s > 0 \<Longrightarrow> stm_reach (lnewreader s)"
| stm_reader: "stm_reach s \<Longrightarrow> i < length (st_readers s) \<Longrightarrow> reader_step call (st_readers s ! i) (st_heap s) = Step (r, h) \<Longrightarrow>
    stm_reach (s\<lparr>st_heap := h, st_readers := (st_readers s)[i := r]\<rparr>)"

subsection \<open>Counting references\<close>

definition pending :: "stm_reader \<Rightarrow> nat option" where
  "pending r = (case rd_pc r of R_copied ret \<Rightarrow> ret | R_got ret \<Rightarrow> ret | _ \<Rightarrow> None)"

abbreviation one_if :: "bool \<Rightarrow> int" where
  "one_if b \<equiv> (if b then 1 else 0)"

definition reader_holds :: "nat \<Rightarrow> stm_reader \<Rightarrow> int" where
  "reader_holds c r = one_if (rd_last r = Some c) + one_if (pending r = Some c)"

fun writer_holds :: "nat \<Rightarrow> writer_pc \<Rightarrow> int" where
  "writer_holds c (W_update n) = one_if (n = c)"
| "writer_holds c (W_updating n) = one_if (n = c)"
| "writer_holds c (W_drop old) = one_if (old = Some c)"
| "writer_holds c _ = 0"

definition object_holds :: "nat \<Rightarrow> stm_object option \<Rightarrow> int" where
  "object_holds c obj = (case obj of None \<Rightarrow> 0 | Some ob \<Rightarrow> one_if (ob_copy ob = Some c))"

definition copy_refs :: "stm_system \<Rightarrow> nat \<Rightarrow> int" where
  "copy_refs s c = object_holds c (hp_obj (st_heap s)) + writer_holds c (st_writer s) + sum_list (map (reader_holds c) (st_readers s))"

definition reader_refers :: "stm_reader \<Rightarrow> int" where
  "reader_refers r = one_if (rd_pc r \<notin> {R_del_unlock, R_del_copy, R_gone})"

fun writer_refers :: "writer_pc \<Rightarrow> int" where
  "writer_refers W_gone = 0"
| "writer_refers (W_grabbed ref) = 2"
| "writer_refers (W_check ref) = 2"
| "writer_refers _ = 1"

definition object_refs :: "stm_system \<Rightarrow> int" where
  "object_refs s = writer_refers (st_writer s) + int (st_transit s) + sum_list (map reader_refers (st_readers s))"

definition reader_locks :: "stm_reader \<Rightarrow> int" where
  "reader_locks r = one_if (rd_pc r \<in> {R_locked, R_del_locked, R_del_unlock} \<or> (\<exists>ret. rd_pc r = R_copied ret))"

fun writer_reads :: "writer_pc \<Rightarrow> bool" where
  "writer_reads W_grabbing = True"
| "writer_reads (W_grabbed ref) = True"
| "writer_reads _ = False"

fun writer_writes :: "writer_pc \<Rightarrow> bool" where
  "writer_writes (W_updating c) = True"
| "writer_writes W_deleting = True"
| "writer_writes _ = False"

text \<open>The heap of copies agrees with a count of references, and each message that was given is in a copy or was
  freed.\<close>

definition freed_of :: "nat \<Rightarrow> stm_heap \<Rightarrow> nat set" where
  "freed_of n h = {c. c < n \<and> hp_copies h c = None}"

definition copy_ok :: "int \<Rightarrow> bytes list \<Rightarrow> nat \<Rightarrow> stm_copy option \<Rightarrow> bool" where
  "copy_ok k g c copy = (case copy of None \<Rightarrow> k = 0 | Some cp \<Rightarrow> cp_reference cp = k \<and> k > 0 \<and> c < length g \<and> cp_msg cp = g ! c)"

definition copies_ok :: "(nat \<Rightarrow> int) \<Rightarrow> bytes list \<Rightarrow> stm_heap \<Rightarrow> bool" where
  "copies_ok f g h \<longleftrightarrow> (\<forall>c. copy_ok (f c) g c (hp_copies h c)) \<and> hp_next h = length g \<and>
     mset (hp_freed h) = image_mset (nth g) (mset_set (freed_of (length g) h))"

definition shift_ref :: "(nat \<Rightarrow> int) \<Rightarrow> nat option \<Rightarrow> int \<Rightarrow> nat \<Rightarrow> int" where
  "shift_ref f co d = (\<lambda>c. f c + (if co = Some c then d else 0))"

lemma copies_ok_at:
  assumes "copies_ok f g h" "f c > 0"
  shows "\<exists>cp. hp_copies h c = Some cp \<and> cp_reference cp = f c \<and> c < length g \<and> cp_msg cp = g ! c"
proof -
  have "copy_ok (f c) g c (hp_copies h c)" using assms(1) by (simp add: copies_ok_def)
  with assms(2) show ?thesis by (auto simp: copy_ok_def split: option.splits)
qed

lemma copies_ok_obj [simp]: "copies_ok f g (h\<lparr>hp_obj := x\<rparr>) = copies_ok f g h"
  by (simp add: copies_ok_def freed_of_def)

text \<open>One copy changes, and the others keep their counts.\<close>

lemma copies_ok_change:
  assumes "copies_ok f g h" "hp_copies h c \<noteq> None"
    and "copy_ok k g c x" "hp_freed h' = hp_freed h @ (if x = None then [g ! c] else [])"
    and "hp_copies h' = (hp_copies h)(c := x)" "hp_next h' = hp_next h"
  shows "copies_ok (f(c := k)) g h'"
proof -
  have c: "c < length g" using assms(1,2) by (auto simp: copies_ok_def copy_ok_def split: option.splits)
  have "freed_of (length g) h' = (if x = None then insert c (freed_of (length g) h) else freed_of (length g) h)"
    using assms(2) c by (auto simp: freed_of_def assms(5))
  moreover have "c \<notin> freed_of (length g) h" "finite (freed_of (length g) h)" using assms(2) by (auto simp: freed_of_def)
  ultimately have "mset (hp_freed h') = image_mset (nth g) (mset_set (freed_of (length g) h'))"
    using assms(1,4) by (simp add: copies_ok_def)
  then show ?thesis using assms by (simp add: copies_ok_def)
qed

lemma shift_one: "shift_ref f (Some c) d = f(c := f c + d)" "shift_ref f None d = f"
  by (auto simp: shift_ref_def)

lemma releasecopy_ok:
  assumes "copies_ok f g h" "\<And>c. co = Some c \<Longrightarrow> f c > 0"
  shows "\<exists>h'. stm_releasecopy co h = Some h' \<and> copies_ok (shift_ref f co (- 1)) g h' \<and> hp_obj h' = hp_obj h"
proof (cases co)
  case None
  then show ?thesis using assms(1) by (simp add: stm_releasecopy_def shift_one)
next
  case (Some c)
  from copies_ok_at [OF assms(1) assms(2) [OF Some]] obtain cp where
    cp: "hp_copies h c = Some cp" "cp_reference cp = f c" "c < length g" "cp_msg cp = g ! c" by blast
  let ?x = "if f c = 1 then None else Some (cp\<lparr>cp_reference := f c - 1\<rparr>)"
  let ?h = "h\<lparr>hp_copies := (hp_copies h)(c := ?x), hp_freed := hp_freed h @ (if ?x = None then [g ! c] else [])\<rparr>"
  have "stm_releasecopy co h = Some ?h" using cp Some by (simp add: stm_releasecopy_def)
  moreover have "copies_ok (f(c := f c + - 1)) g ?h"
    using assms(2) [OF Some] cp by (intro copies_ok_change [OF assms(1)]) (auto simp: copy_ok_def)
  ultimately show ?thesis using Some by (simp add: shift_one)
qed

lemma copy_locked_ok:
  assumes "copies_ok f g h" "hp_obj h = Some ob" "\<And>c. ob_copy ob = Some c \<Longrightarrow> f c > 0"
  shows "\<exists>h'. copy_locked h = Some (ob_copy ob, h') \<and> copies_ok (shift_ref f (ob_copy ob) 1) g h' \<and> hp_obj h' = hp_obj h"
proof (cases "ob_copy ob")
  case None
  then show ?thesis using assms by (simp add: copy_locked_def shift_one)
next
  case (Some c)
  from copies_ok_at [OF assms(1) assms(3) [OF Some]] obtain cp where
    cp: "hp_copies h c = Some cp" "cp_reference cp = f c" "c < length g" "cp_msg cp = g ! c" by blast
  let ?h = "h\<lparr>hp_copies := (hp_copies h)(c \<mapsto> cp\<lparr>cp_reference := f c + 1\<rparr>)\<rparr>"
  have "copy_locked h = Some (Some c, ?h)" using cp Some assms(2,3) by (simp add: copy_locked_def)
  moreover have "copies_ok (f(c := f c + 1)) g ?h"
    using assms(3) [OF Some] cp by (intro copies_ok_change [OF assms(1)]) (auto simp: copy_ok_def)
  ultimately show ?thesis using Some by (simp add: shift_one)
qed

lemma newcopy_ok:
  assumes "copies_ok f g h"
  shows "\<exists>h'. stm_newcopy msg sz h = (length g, h') \<and> copies_ok (shift_ref f (Some (length g)) 1) (g @ [msg]) h' \<and> hp_obj h' = hp_obj h"
proof -
  have none: "hp_copies h (length g) = None" "f (length g) = 0"
    using assms copies_ok_at [OF assms, of "length g"] by (auto simp: copies_ok_def copy_ok_def split: option.splits)
  have nx: "hp_next h = length g" using assms by (simp add: copies_ok_def)
  let ?h = "h\<lparr>hp_copies := (hp_copies h)(length g \<mapsto> \<lparr>cp_reference = 1, cp_sz = sz, cp_msg = msg\<rparr>), hp_next := hp_next h + 1\<rparr>"
  have fr: "freed_of (length (g @ [msg])) ?h = freed_of (length g) h" by (auto simp: freed_of_def)
  have "copy_ok (shift_ref f (Some (length g)) 1 c) (g @ [msg]) c (hp_copies ?h c)" for c
  proof -
    have "copy_ok (f c) g c (hp_copies h c)" using assms by (simp add: copies_ok_def)
    then show ?thesis using none(2)
      by (cases "c = length g") (auto simp: copy_ok_def shift_ref_def nth_append split: option.splits)
  qed
  moreover have "image_mset (nth g) (mset_set (freed_of (length g) h)) = image_mset (nth (g @ [msg])) (mset_set (freed_of (length g) h))"
    by (intro image_mset_cong) (auto simp: freed_of_def nth_append)
  ultimately have "copies_ok (shift_ref f (Some (length g)) 1) (g @ [msg]) ?h"
    using assms unfolding copies_ok_def fr by simp
  then show ?thesis using nx by (auto simp: stm_newcopy_def)
qed

subsection \<open>The invariant\<close>

text \<open>The copy that is installed, and how many were installed.\<close>

fun latest :: "writer_pc \<Rightarrow> nat \<Rightarrow> nat option" where
  "latest W_gone n = None"
| "latest (W_update c) n = Some (n - 2)"
| "latest (W_updating c) n = Some (n - 2)"
| "latest _ n = Some (n - 1)"

fun installed :: "writer_pc \<Rightarrow> nat \<Rightarrow> nat" where
  "installed (W_update c) n = n - 1"
| "installed (W_updating c) n = n - 1"
| "installed _ n = n"

fun writer_ok :: "writer_pc \<Rightarrow> nat \<Rightarrow> bool" where
  "writer_ok (W_update c) n = (n \<ge> 2 \<and> c = n - 1)"
| "writer_ok (W_updating c) n = (n \<ge> 2 \<and> c = n - 1)"
| "writer_ok (W_drop old) n = (n \<ge> 2 \<and> old = Some (n - 2))"
| "writer_ok (W_grabbed ref) n = (n \<ge> 1 \<and> ref > 0)"
| "writer_ok (W_check ref) n = (n \<ge> 1 \<and> ref > 0)"
| "writer_ok _ n = (n \<ge> 1)"

definition object_ok :: "stm_object option \<Rightarrow> writer_pc \<Rightarrow> nat \<Rightarrow> int \<Rightarrow> int \<Rightarrow> bool" where
  "object_ok obj w n refs locks \<longleftrightarrow>
     (case obj of None \<Rightarrow> refs = 0
      | Some ob \<Rightarrow> ob_reference ob = refs \<and> refs > 0 \<and> ob_write ob = writer_writes w \<and>
          int (ob_read ob) = one_if (writer_reads w) + locks \<and> (ob_write ob \<longrightarrow> ob_read ob = 0) \<and> ob_copy ob = latest w n)"

text \<open>What a reader has seen are copies in the order in which they were installed, each with its message.\<close>

definition reader_ok :: "nat \<Rightarrow> bool \<Rightarrow> bytes list \<Rightarrow> stm_reader \<Rightarrow> bool" where
  "reader_ok lim gone g r \<longleftrightarrow>
     sorted_wrt (<) (map fst (rd_seen r)) \<and> (\<forall>x \<in> set (rd_seen r). fst x < lim \<and> snd x = g ! fst x) \<and>
     (\<forall>l. rd_last r = Some l \<longrightarrow> l < lim \<and> (\<forall>x \<in> set (rd_seen r). fst x \<le> l \<and> (rd_pc r = R_using \<longrightarrow> fst x < l))) \<and>
     (\<forall>c. pending r = Some c \<longrightarrow> c < lim \<and> (\<forall>x \<in> set (rd_seen r). fst x \<le> c) \<and> (\<forall>l. rd_last r = Some l \<longrightarrow> l \<le> c)) \<and>
     (rd_last r = None \<and> rd_seen r \<noteq> [] \<longrightarrow> (gone \<or> rd_pc r = R_gone) \<and> pending r = None) \<and>
     (rd_pc r = R_using \<longrightarrow> rd_last r \<noteq> None) \<and> (rd_pc r = R_gone \<longrightarrow> rd_last r = None) \<and>
     (rd_pc r \<in> {R_copied None, R_got None} \<longrightarrow> gone)"

definition reads :: "stm_system \<Rightarrow> int" where
  "reads s = sum_list (map reader_locks (st_readers s))"

definition stm_inv :: "stm_system \<Rightarrow> bool" where
  "stm_inv s \<longleftrightarrow> copies_ok (copy_refs s) (st_given s) (st_heap s) \<and>
     object_ok (hp_obj (st_heap s)) (st_writer s) (length (st_given s)) (object_refs s) (reads s) \<and>
     (\<forall>r \<in> set (st_readers s). reader_ok (installed (st_writer s) (length (st_given s))) (st_writer s = W_gone) (st_given s) r) \<and>
     writer_ok (st_writer s) (length (st_given s))"

lemma sum_upd:
  fixes f :: "'a \<Rightarrow> int"
  assumes "i < length xs"
  shows "sum_list (map f (xs[i := x])) = sum_list (map f xs) + f x - f (xs ! i)"
  using assms by (induction xs arbitrary: i) (auto split: nat.split simp: nth_Cons')

lemma sum_part:
  fixes f :: "'a \<Rightarrow> int"
  assumes "i < length xs" "\<And>x. 0 \<le> f x"
  shows "f (xs ! i) \<le> sum_list (map f xs)"
  using assms(1)
proof (induction xs arbitrary: i)
  case (Cons a xs)
  have "0 \<le> sum_list (map f xs)" using assms(2) by (intro sum_list_nonneg) auto
  with Cons assms(2) [of a] show ?case by (cases i) (auto intro: add_increasing)
qed simp

lemma holds_nonneg: "0 \<le> reader_holds c r" "0 \<le> reader_refers r" "0 \<le> reader_locks r" "0 \<le> object_holds c obj" "0 \<le> writer_holds c w"
  by (auto simp: reader_holds_def reader_refers_def reader_locks_def object_holds_def split: option.splits) (cases w; simp)

definition put_reader :: "nat \<Rightarrow> stm_reader \<times> stm_heap \<Rightarrow> stm_system \<Rightarrow> stm_system" where
  "put_reader i = (\<lambda>(r, h) s. s\<lparr>st_heap := h, st_readers := (st_readers s)[i := r]\<rparr>)"

lemma put_reader_sel [simp]:
  "st_heap (put_reader i (r, h) s) = h" "st_writer (put_reader i (r, h) s) = st_writer s" "st_given (put_reader i (r, h) s) = st_given s"
  "st_readers (put_reader i (r, h) s) = (st_readers s)[i := r]"
  by (simp_all add: put_reader_def)

text \<open>A step of a reader keeps the invariant when it moves the counts as it changes the reader.\<close>

lemma reader_inv_step:
  assumes "stm_inv s" "i < length (st_readers s)"
    and "copies_ok (\<lambda>c. copy_refs s c + (reader_holds c r' - reader_holds c (st_readers s ! i)) +
           (object_holds c (hp_obj h') - object_holds c (hp_obj (st_heap s)))) (st_given s) h'"
    and "object_ok (hp_obj h') (st_writer s) (length (st_given s))
           (object_refs s + (reader_refers r' - reader_refers (st_readers s ! i))) (reads s + (reader_locks r' - reader_locks (st_readers s ! i)))"
    and "reader_ok (installed (st_writer s) (length (st_given s))) (st_writer s = W_gone) (st_given s) r'"
  shows "stm_inv (put_reader i (r', h') s)"
proof -
  have c: "copy_refs (put_reader i (r', h') s) = (\<lambda>c. copy_refs s c + (reader_holds c r' - reader_holds c (st_readers s ! i)) +
      (object_holds c (hp_obj h') - object_holds c (hp_obj (st_heap s))))"
    unfolding copy_refs_def put_reader_sel sum_upd [OF assms(2)] by auto
  have o: "object_refs (put_reader i (r', h') s) = object_refs s + (reader_refers r' - reader_refers (st_readers s ! i))"
    "reads (put_reader i (r', h') s) = reads s + (reader_locks r' - reader_locks (st_readers s ! i))"
    unfolding object_refs_def reads_def put_reader_sel sum_upd [OF assms(2)] by (simp_all add: put_reader_def)
  show ?thesis
    using assms unfolding stm_inv_def c o put_reader_sel by (auto dest!: set_update_subset_insert [THEN subsetD])
qed

lemma writer_refers_zero: "0 \<le> writer_refers w" "writer_refers w \<le> 0 \<longleftrightarrow> w = W_gone"
  by (cases w; simp)+

text \<open>What a step of a reader can rely on.\<close>

lemma reader_facts:
  assumes "stm_inv s" "i < length (st_readers s)"
  defines "r \<equiv> st_readers s ! i"
  shows "reader_refers r = 1 \<Longrightarrow> \<exists>ob. hp_obj (st_heap s) = Some ob"
    and "reader_locks r \<le> reads s" "reader_holds c r \<le> copy_refs s c"
    and "reader_ok (installed (st_writer s) (length (st_given s))) (st_writer s = W_gone) (st_given s) r"
proof -
  have "reader_refers r \<le> object_refs s"
    using sum_part [OF assms(2), of reader_refers] holds_nonneg(2) writer_refers_zero(1) [of "st_writer s"]
    unfolding object_refs_def r_def by (smt (verit) of_nat_0_le_iff)
  moreover have "hp_obj (st_heap s) = None \<Longrightarrow> object_refs s = 0" using assms(1) by (simp add: stm_inv_def object_ok_def)
  ultimately show "\<exists>ob. hp_obj (st_heap s) = Some ob" if "reader_refers r = 1" using that by fastforce
  show "reader_locks r \<le> reads s" using sum_part [OF assms(2), of reader_locks] holds_nonneg(3) unfolding reads_def r_def by blast
  show "reader_holds c r \<le> copy_refs s c"
    using sum_part [OF assms(2), of "reader_holds c"] holds_nonneg(1) [of c] holds_nonneg(4) [of c "hp_obj (st_heap s)"] holds_nonneg(5) [of c "st_writer s"]
    unfolding copy_refs_def r_def by (smt (verit))
  show "reader_ok (installed (st_writer s) (length (st_given s))) (st_writer s = W_gone) (st_given s) r"
    using assms(1,2) by (simp add: stm_inv_def r_def)
qed

lemma inv_copies: "stm_inv s \<Longrightarrow> copies_ok (copy_refs s) (st_given s) (st_heap s)"
  by (simp add: stm_inv_def)

lemma inv_object: "stm_inv s \<Longrightarrow> object_ok (hp_obj (st_heap s)) (st_writer s) (length (st_given s)) (object_refs s) (reads s)"
  by (simp add: stm_inv_def)

lemma copies_ok_cong: "copies_ok f g h \<Longrightarrow> (\<And>c. f c = f' c) \<Longrightarrow> copies_ok f' g h"
  by (simp add: copies_ok_def)

lemmas reader_counts = reader_refers_def reader_locks_def reader_holds_def pending_def object_holds_def

lemma idle_step:
  assumes "stm_inv s" "i < length (st_readers s)" "rd_pc (st_readers s ! i) = R_idle"
  shows "(\<exists>x. reader_step call (st_readers s ! i) (st_heap s) = Step x \<and> stm_inv (put_reader i x s)) \<or>
    reader_step call (st_readers s ! i) (st_heap s) = Blocked"
proof -
  let ?r = "st_readers s ! i" and ?h = "st_heap s"
  have "reader_refers ?r = 1" using assms(3) by (simp add: reader_refers_def)
  from reader_facts(1) [OF assms(1,2) this] obtain ob where ob: "hp_obj ?h = Some ob" by blast
  show ?thesis
  proof (cases "ob_write ob")
    case True
    then show ?thesis using assms(3) ob by (simp add: reader_step_def rlock_def run_lock_def)
  next
    case False
    let ?r' = "?r\<lparr>rd_pc := (case call of Call_read \<Rightarrow> R_locked | Call_release \<Rightarrow> R_del_locked)\<rparr>"
    let ?h' = "?h\<lparr>hp_obj := Some (ob\<lparr>ob_read := ob_read ob + 1\<rparr>)\<rparr>"
    have "reader_step call ?r ?h = Step (?r', ?h')" using assms(3) ob False by (simp add: reader_step_def rlock_def run_lock_def)
    moreover have "stm_inv (put_reader i (?r', ?h') s)"
    proof (rule reader_inv_step [OF assms(1,2)])
      show "copies_ok (\<lambda>c. copy_refs s c + (reader_holds c ?r' - reader_holds c ?r) + (object_holds c (hp_obj ?h') - object_holds c (hp_obj ?h)))
          (st_given s) ?h'"
        using inv_copies [OF assms(1)] assms(3) ob by (simp add: reader_counts split: reader_call.splits)
      show "object_ok (hp_obj ?h') (st_writer s) (length (st_given s)) (object_refs s + (reader_refers ?r' - reader_refers ?r))
          (reads s + (reader_locks ?r' - reader_locks ?r))"
        using inv_object [OF assms(1)] assms(3) ob False by (auto simp: object_ok_def reader_counts split: reader_call.splits)
      show "reader_ok (installed (st_writer s) (length (st_given s))) (st_writer s = W_gone) (st_given s) ?r'"
        using reader_facts(4) [OF assms(1,2)] assms(3) by (auto simp: reader_ok_def pending_def split: reader_call.splits)
    qed
    ultimately show ?thesis by blast
  qed
qed

lemma latest_installed: "writer_ok w n \<Longrightarrow> latest w n = Some c \<Longrightarrow> installed w n = Suc c"
  by (cases w) auto

lemma latest_None: "latest w n = None \<longleftrightarrow> w = W_gone"
  by (cases w) auto

lemma object_copy_pos:
  assumes "hp_obj (st_heap s) = Some ob" "ob_copy ob = Some c"
  shows "0 < copy_refs s c"
proof -
  have "0 \<le> sum_list (map (reader_holds c) (st_readers s))" using holds_nonneg(1) by (intro sum_list_nonneg) auto
  with holds_nonneg(5) [of c "st_writer s"] assms show ?thesis by (simp add: copy_refs_def object_holds_def)
qed

lemma locked_step:
  assumes "stm_inv s" "i < length (st_readers s)" "rd_pc (st_readers s ! i) = R_locked"
  shows "\<exists>x. reader_step call (st_readers s ! i) (st_heap s) = Step x \<and> stm_inv (put_reader i x s)"
proof -
  let ?r = "st_readers s ! i" and ?h = "st_heap s"
  have "reader_refers ?r = 1" using assms(3) by (simp add: reader_refers_def)
  from reader_facts(1) [OF assms(1,2) this] obtain ob where ob: "hp_obj ?h = Some ob" by blast
  from copy_locked_ok [OF inv_copies [OF assms(1)] ob object_copy_pos [OF ob]] obtain h' where
    h': "copy_locked ?h = Some (ob_copy ob, h')" "copies_ok (shift_ref (copy_refs s) (ob_copy ob) 1) (st_given s) h'" "hp_obj h' = hp_obj ?h" by blast
  let ?r' = "?r\<lparr>rd_pc := R_copied (ob_copy ob)\<rparr>"
  have w: "ob_copy ob = latest (st_writer s) (length (st_given s))" "writer_ok (st_writer s) (length (st_given s))"
    using inv_object [OF assms(1)] ob assms(1) by (simp_all add: object_ok_def stm_inv_def)
  have "reader_step call ?r ?h = Step (?r', h')" using assms(3) h'(1) by (simp add: reader_step_def run_def)
  moreover have "stm_inv (put_reader i (?r', h') s)"
  proof (rule reader_inv_step [OF assms(1,2)])
    show "copies_ok (\<lambda>c. copy_refs s c + (reader_holds c ?r' - reader_holds c ?r) + (object_holds c (hp_obj h') - object_holds c (hp_obj ?h)))
        (st_given s) h'"
      using h'(2) by (rule copies_ok_cong) (simp add: h'(3) shift_ref_def reader_holds_def pending_def assms(3))
    show "object_ok (hp_obj h') (st_writer s) (length (st_given s)) (object_refs s + (reader_refers ?r' - reader_refers ?r))
        (reads s + (reader_locks ?r' - reader_locks ?r))"
      using inv_object [OF assms(1)] assms(3) h'(3) by (simp add: reader_counts)
    show "reader_ok (installed (st_writer s) (length (st_given s))) (st_writer s = W_gone) (st_given s) ?r'"
      using reader_facts(4) [OF assms(1,2)] assms(3) latest_installed [OF w(2)] latest_None [of "st_writer s" "length (st_given s)"]
      unfolding w(1) by (auto simp: reader_ok_def pending_def)
  qed
  ultimately show ?thesis by blast
qed

text \<open>Giving back the read lock.\<close>

lemma runlock_step:
  assumes "stm_inv s" "i < length (st_readers s)" "reader_locks (st_readers s ! i) = 1" "hp_obj (st_heap s) = Some ob"
    and r': "r' = (st_readers s ! i)\<lparr>rd_pc := pc\<rparr>" "reader_locks r' = 0" "reader_refers r' = reader_refers (st_readers s ! i)"
      "pending r' = pending (st_readers s ! i)"
    and ok: "reader_ok (installed (st_writer s) (length (st_given s))) (st_writer s = W_gone) (st_given s) r'"
  shows "\<exists>h'. runlock (st_heap s) = Some h' \<and> stm_inv (put_reader i (r', h') s)"
proof -
  let ?r = "st_readers s ! i" and ?h = "st_heap s"
  let ?h' = "?h\<lparr>hp_obj := Some (ob\<lparr>ob_read := ob_read ob - 1\<rparr>)\<rparr>"
  have "runlock ?h = Some ?h'" using assms(4) by (simp add: runlock_def)
  moreover have "stm_inv (put_reader i (r', ?h') s)"
  proof (rule reader_inv_step [OF assms(1,2)])
    have "reader_holds c r' = reader_holds c ?r" for c using r'(4) by (simp add: reader_holds_def r'(1))
    then show "copies_ok (\<lambda>c. copy_refs s c + (reader_holds c r' - reader_holds c ?r) + (object_holds c (hp_obj ?h') - object_holds c (hp_obj ?h)))
        (st_given s) ?h'"
      using inv_copies [OF assms(1)] assms(4) by (simp add: object_holds_def)
    show "object_ok (hp_obj ?h') (st_writer s) (length (st_given s)) (object_refs s + (reader_refers r' - reader_refers ?r))
        (reads s + (reader_locks r' - reader_locks ?r))"
      using inv_object [OF assms(1)] assms(3,4) r'(2,3) reader_facts(2) [OF assms(1,2)]
      by (auto simp: object_ok_def split: if_splits)
  qed (rule ok)
  ultimately show ?thesis by blast
qed

lemma copied_step:
  assumes "stm_inv s" "i < length (st_readers s)" "rd_pc (st_readers s ! i) = R_copied ret"
  shows "\<exists>x. reader_step call (st_readers s ! i) (st_heap s) = Step x \<and> stm_inv (put_reader i x s)"
proof -
  let ?r = "st_readers s ! i"
  have "reader_refers ?r = 1" "reader_locks ?r = 1" using assms(3) by (simp_all add: reader_refers_def reader_locks_def)
  from reader_facts(1) [OF assms(1,2) this(1)] obtain ob where ob: "hp_obj (st_heap s) = Some ob" by blast
  have "\<exists>h'. runlock (st_heap s) = Some h' \<and> stm_inv (put_reader i (?r\<lparr>rd_pc := R_got ret\<rparr>, h') s)"
  proof (rule runlock_step [OF assms(1,2) _ ob])
    show "reader_ok (installed (st_writer s) (length (st_given s))) (st_writer s = W_gone) (st_given s) (?r\<lparr>rd_pc := R_got ret\<rparr>)"
      using reader_facts(4) [OF assms(1,2)] assms(3) by (auto simp: reader_ok_def pending_def)
  qed (use assms(3) in \<open>auto simp: reader_counts\<close>)
  then show ?thesis using assms(3) by (auto simp: reader_step_def run_def)
qed

text \<open>Releasing a copy that the reader holds.\<close>

lemma release_step:
  assumes "stm_inv s" "i < length (st_readers s)" "\<And>c. copy = Some c \<Longrightarrow> reader_holds c (st_readers s ! i) > 0"
    and r': "\<And>c. reader_holds c r' = reader_holds c (st_readers s ! i) - one_if (copy = Some c)"
      "reader_refers r' = reader_refers (st_readers s ! i)" "reader_locks r' = reader_locks (st_readers s ! i)"
    and ok: "reader_ok (installed (st_writer s) (length (st_given s))) (st_writer s = W_gone) (st_given s) r'"
  shows "\<exists>h'. stm_releasecopy copy (st_heap s) = Some h' \<and> stm_inv (put_reader i (r', h') s)"
proof -
  have "0 < copy_refs s c" if "copy = Some c" for c
    using assms(3) [OF that] reader_facts(3) [OF assms(1,2), of c] by linarith
  from releasecopy_ok [OF inv_copies [OF assms(1)] this] obtain h' where
    h': "stm_releasecopy copy (st_heap s) = Some h'" "copies_ok (shift_ref (copy_refs s) copy (- 1)) (st_given s) h'" "hp_obj h' = hp_obj (st_heap s)"
    by blast
  have "stm_inv (put_reader i (r', h') s)"
  proof (rule reader_inv_step [OF assms(1,2) _ _ ok])
    show "copies_ok (\<lambda>c. copy_refs s c + (reader_holds c r' - reader_holds c (st_readers s ! i)) +
        (object_holds c (hp_obj h') - object_holds c (hp_obj (st_heap s)))) (st_given s) h'"
      using h'(2) by (rule copies_ok_cong) (simp add: h'(3) shift_ref_def r'(1))
    show "object_ok (hp_obj h') (st_writer s) (length (st_given s)) (object_refs s + (reader_refers r' - reader_refers (st_readers s ! i)))
        (reads s + (reader_locks r' - reader_locks (st_readers s ! i)))"
      using inv_object [OF assms(1)] h'(3) r'(2,3) by simp
  qed
  with h'(1) show ?thesis by blast
qed

lemma got_step:
  assumes "stm_inv s" "i < length (st_readers s)" "rd_pc (st_readers s ! i) = R_got ret"
  shows "\<exists>x. reader_step call (st_readers s ! i) (st_heap s) = Step x \<and> stm_inv (put_reader i x s)"
proof -
  let ?r = "st_readers s ! i"
  note R = reader_facts(4) [OF assms(1,2)]
  show ?thesis
  proof (cases "ret = rd_last ?r")
    case True
    have "\<exists>h'. stm_releasecopy ret (st_heap s) = Some h' \<and> stm_inv (put_reader i (?r\<lparr>rd_pc := R_idle\<rparr>, h') s)"
    proof (rule release_step [OF assms(1,2)])
      show "reader_ok (installed (st_writer s) (length (st_given s))) (st_writer s = W_gone) (st_given s) (?r\<lparr>rd_pc := R_idle\<rparr>)"
        using R assms(3) by (auto simp: reader_ok_def pending_def)
    qed (use assms(3) in \<open>simp_all add: reader_counts\<close>)
    then show ?thesis using assms(3) True by (auto simp: reader_step_def run_def)
  next
    case False
    let ?r' = "?r\<lparr>rd_pc := (if ret = None then R_idle else R_using), rd_last := ret\<rparr>"
    have "\<exists>h'. stm_releasecopy (rd_last ?r) (st_heap s) = Some h' \<and> stm_inv (put_reader i (?r', h') s)"
    proof (rule release_step [OF assms(1,2)])
      have seen: "fst x < c" if "ret = Some c" "x \<in> set (rd_seen ?r)" for x c
      proof -
        have "rd_seen ?r \<noteq> []" using that(2) by auto
        then have "rd_last ?r \<noteq> None" using R that(1) assms(3) by (auto simp: reader_ok_def pending_def)
        then obtain l where l: "rd_last ?r = Some l" by blast
        then have "fst x \<le> l" "l \<le> c" using R that assms(3) by (simp_all add: reader_ok_def pending_def)
        with l False that(1) show ?thesis by (metis le_neq_implies_less order_le_less_trans)
      qed
      show "reader_ok (installed (st_writer s) (length (st_given s))) (st_writer s = W_gone) (st_given s) ?r'"
      proof (cases ret)
        case None
        then show ?thesis using R assms(3) by (auto simp: reader_ok_def pending_def)
      next
        case (Some c)
        then show ?thesis using R assms(3) seen [OF Some] by (auto simp: reader_ok_def pending_def less_imp_le)
      qed
    qed (use assms(3) in \<open>auto simp: reader_counts\<close>)
    then show ?thesis using assms(3) False by (auto simp: reader_step_def run_def)
  qed
qed

lemma using_step:
  assumes "stm_inv s" "i < length (st_readers s)" "rd_pc (st_readers s ! i) = R_using"
  shows "\<exists>x. reader_step call (st_readers s ! i) (st_heap s) = Step x \<and> stm_inv (put_reader i x s)"
proof -
  let ?r = "st_readers s ! i" and ?h = "st_heap s"
  note R = reader_facts(4) [OF assms(1,2)]
  from R assms(3) obtain c where c: "rd_last ?r = Some c" "c < installed (st_writer s) (length (st_given s))"
    "\<forall>x \<in> set (rd_seen ?r). fst x < c" by (auto simp: reader_ok_def)
  have "0 < copy_refs s c" using reader_facts(3) [OF assms(1,2), of c] c(1) by (simp add: reader_holds_def split: if_splits)
  from copies_ok_at [OF inv_copies [OF assms(1)] this] obtain cp where
    cp: "hp_copies ?h c = Some cp" "c < length (st_given s)" "cp_msg cp = st_given s ! c" by blast
  let ?r' = "?r\<lparr>rd_pc := R_idle, rd_seen := rd_seen ?r @ [(c, cp_msg cp)]\<rparr>"
  have "reader_step call ?r ?h = Step (?r', ?h)" using assms(3) c(1) cp(1) by (simp add: reader_step_def run_def)
  moreover have "stm_inv (put_reader i (?r', ?h) s)"
  proof (rule reader_inv_step [OF assms(1,2)])
    show "copies_ok (\<lambda>d. copy_refs s d + (reader_holds d ?r' - reader_holds d ?r) + (object_holds d (hp_obj ?h) - object_holds d (hp_obj ?h)))
        (st_given s) ?h"
      using inv_copies [OF assms(1)] assms(3) by (simp add: reader_counts)
    show "object_ok (hp_obj ?h) (st_writer s) (length (st_given s)) (object_refs s + (reader_refers ?r' - reader_refers ?r))
        (reads s + (reader_locks ?r' - reader_locks ?r))"
      using inv_object [OF assms(1)] assms(3) by (simp add: reader_counts)
    show "reader_ok (installed (st_writer s) (length (st_given s))) (st_writer s = W_gone) (st_given s) ?r'"
      using R assms(3) c cp(3) by (auto simp: reader_ok_def pending_def sorted_wrt_append less_imp_le)
  qed
  ultimately show ?thesis by blast
qed

lemma del_locked_step:
  assumes "stm_inv s" "i < length (st_readers s)" "rd_pc (st_readers s ! i) = R_del_locked"
  shows "\<exists>x. reader_step call (st_readers s ! i) (st_heap s) = Step x \<and> stm_inv (put_reader i x s)"
proof -
  let ?r = "st_readers s ! i" and ?h = "st_heap s"
  have refers: "reader_refers ?r = 1" using assms(3) by (simp add: reader_refers_def)
  from reader_facts(1) [OF assms(1,2) this] obtain ob where ob: "hp_obj ?h = Some ob" by blast
  have O: "ob_reference ob = object_refs s" "ob_copy ob = latest (st_writer s) (length (st_given s))"
    using inv_object [OF assms(1)] ob by (simp_all add: object_ok_def)
  have "1 \<le> sum_list (map reader_refers (st_readers s))" using sum_part [OF assms(2), of reader_refers] holds_nonneg(2) refers by auto
  then have alone: "ob_copy ob = None" if "ob_reference ob = 1"
    using that writer_refers_zero [of "st_writer s"] unfolding O object_refs_def latest_None by auto
  define last where "last \<longleftrightarrow> ob_reference ob = 1"
  let ?r' = "?r\<lparr>rd_pc := (if last then R_del_copy else R_del_unlock)\<rparr>"
  let ?h' = "?h\<lparr>hp_obj := (if last then None else Some (ob\<lparr>ob_reference := ob_reference ob - 1\<rparr>))\<rparr>"
  have "reader_step call ?r ?h = Step (?r', ?h')"
    using assms(3) ob alone by (simp add: reader_step_def releasereader_locked_def run_def last_def)
  moreover have "stm_inv (put_reader i (?r', ?h') s)"
  proof (rule reader_inv_step [OF assms(1,2)])
    show "copies_ok (\<lambda>c. copy_refs s c + (reader_holds c ?r' - reader_holds c ?r) + (object_holds c (hp_obj ?h') - object_holds c (hp_obj ?h)))
        (st_given s) ?h'"
      using inv_copies [OF assms(1)] assms(3) ob alone by (simp add: reader_counts last_def)
    show "object_ok (hp_obj ?h') (st_writer s) (length (st_given s)) (object_refs s + (reader_refers ?r' - reader_refers ?r))
        (reads s + (reader_locks ?r' - reader_locks ?r))"
      using inv_object [OF assms(1)] assms(3) ob by (auto simp: reader_counts object_ok_def last_def)
    show "reader_ok (installed (st_writer s) (length (st_given s))) (st_writer s = W_gone) (st_given s) ?r'"
      using reader_facts(4) [OF assms(1,2)] assms(3) by (auto simp: reader_ok_def pending_def)
  qed
  ultimately show ?thesis by blast
qed

lemma del_unlock_step:
  assumes "stm_inv s" "i < length (st_readers s)" "rd_pc (st_readers s ! i) = R_del_unlock"
  shows "(\<exists>x. reader_step call (st_readers s ! i) (st_heap s) = Step x \<and> stm_inv (put_reader i x s)) \<or>
    reader_step call (st_readers s ! i) (st_heap s) = Crash \<and> hp_obj (st_heap s) = None"
proof (cases "hp_obj (st_heap s)")
  case None
  then show ?thesis using assms(3) by (simp add: reader_step_def runlock_def run_def)
next
  case (Some ob)
  let ?r = "st_readers s ! i"
  have "\<exists>h'. runlock (st_heap s) = Some h' \<and> stm_inv (put_reader i (?r\<lparr>rd_pc := R_del_copy\<rparr>, h') s)"
  proof (rule runlock_step [OF assms(1,2) _ Some])
    show "reader_ok (installed (st_writer s) (length (st_given s))) (st_writer s = W_gone) (st_given s) (?r\<lparr>rd_pc := R_del_copy\<rparr>)"
      using reader_facts(4) [OF assms(1,2)] assms(3) by (auto simp: reader_ok_def pending_def)
  qed (use assms(3) in \<open>auto simp: reader_counts\<close>)
  then show ?thesis using assms(3) by (auto simp: reader_step_def run_def)
qed

lemma del_copy_step:
  assumes "stm_inv s" "i < length (st_readers s)" "rd_pc (st_readers s ! i) = R_del_copy"
  shows "\<exists>x. reader_step call (st_readers s ! i) (st_heap s) = Step x \<and> stm_inv (put_reader i x s)"
proof -
  let ?r = "st_readers s ! i"
  let ?r' = "?r\<lparr>rd_pc := R_gone, rd_last := None\<rparr>"
  have "\<exists>h'. stm_releasecopy (rd_last ?r) (st_heap s) = Some h' \<and> stm_inv (put_reader i (?r', h') s)"
  proof (rule release_step [OF assms(1,2)])
    show "reader_ok (installed (st_writer s) (length (st_given s))) (st_writer s = W_gone) (st_given s) ?r'"
      using reader_facts(4) [OF assms(1,2)] assms(3) by (auto simp: reader_ok_def pending_def)
  qed (use assms(3) in \<open>auto simp: reader_counts\<close>)
  then show ?thesis using assms(3) by (auto simp: reader_step_def run_def)
qed

lemma reader_step_inv:
  assumes "stm_inv s" "i < length (st_readers s)"
  shows "(\<exists>x. reader_step call (st_readers s ! i) (st_heap s) = Step x \<and> stm_inv (put_reader i x s)) \<or>
    reader_step call (st_readers s ! i) (st_heap s) = Blocked \<or>
    (reader_step call (st_readers s ! i) (st_heap s) = Crash \<and> rd_pc (st_readers s ! i) = R_del_unlock \<and> hp_obj (st_heap s) = None)"
proof (cases "rd_pc (st_readers s ! i)")
  case R_idle
  from idle_step [OF assms this] show ?thesis by blast
next
  case R_locked
  from locked_step [OF assms this] show ?thesis by blast
next
  case (R_copied ret)
  from copied_step [OF assms this] show ?thesis by blast
next
  case (R_got ret)
  from got_step [OF assms this] show ?thesis by blast
next
  case R_using
  from using_step [OF assms this] show ?thesis by blast
next
  case R_del_locked
  from del_locked_step [OF assms this] show ?thesis by blast
next
  case R_del_copy
  from del_copy_step [OF assms this] show ?thesis by blast
next
  case R_del_unlock
  from del_unlock_step [OF assms this] R_del_unlock show ?thesis by blast
next
  case R_gone
  then show ?thesis by (simp add: reader_step_def)
qed

subsection \<open>Steps of the writer\<close>

lemma reader_ok_mono:
  assumes "reader_ok lim gone g r" "lim \<le> lim'" "gone \<longrightarrow> gone'" "\<And>k. k < lim \<Longrightarrow> g' ! k = g ! k"
  shows "reader_ok lim' gone' g' r"
  using assms unfolding reader_ok_def by (smt (verit) order_less_le_trans)

lemma writer_inv_step:
  assumes "stm_inv s" "st_readers s' = st_readers s"
    and "copies_ok (\<lambda>c. copy_refs s c + (writer_holds c (st_writer s') - writer_holds c (st_writer s)) +
           (object_holds c (hp_obj (st_heap s')) - object_holds c (hp_obj (st_heap s)))) (st_given s') (st_heap s')"
    and "object_ok (hp_obj (st_heap s')) (st_writer s') (length (st_given s'))
           (object_refs s + writer_refers (st_writer s') - writer_refers (st_writer s) + (int (st_transit s') - int (st_transit s))) (reads s)"
    and "installed (st_writer s) (length (st_given s)) \<le> installed (st_writer s') (length (st_given s'))"
      "st_writer s = W_gone \<longrightarrow> st_writer s' = W_gone" "\<exists>more. st_given s' = st_given s @ more"
      "writer_ok (st_writer s') (length (st_given s'))"
  shows "stm_inv s'"
proof -
  have c: "copy_refs s' = (\<lambda>c. copy_refs s c + (writer_holds c (st_writer s') - writer_holds c (st_writer s)) +
           (object_holds c (hp_obj (st_heap s')) - object_holds c (hp_obj (st_heap s))))"
    unfolding copy_refs_def assms(2) by auto
  have o: "object_refs s' = object_refs s + writer_refers (st_writer s') - writer_refers (st_writer s) + (int (st_transit s') - int (st_transit s))"
    "reads s' = reads s" unfolding object_refs_def reads_def assms(2) by simp_all
  have lim: "installed w n \<le> n" for w n by (cases w) simp_all
  have "reader_ok (installed (st_writer s') (length (st_given s'))) (st_writer s' = W_gone) (st_given s') r" if "r \<in> set (st_readers s)" for r
  proof (rule reader_ok_mono [OF _ assms(5,6)])
    show "reader_ok (installed (st_writer s) (length (st_given s))) (st_writer s = W_gone) (st_given s) r"
      using assms(1) that by (simp add: stm_inv_def)
    show "st_given s' ! k = st_given s ! k" if "k < installed (st_writer s) (length (st_given s))" for k
      using assms(7) that lim [of "st_writer s" "length (st_given s)"] by (auto simp: nth_append)
  qed
  then show ?thesis using assms(3,4,8) unfolding stm_inv_def c o assms(2) by blast
qed

lemma writer_object:
  assumes "stm_inv s" "st_writer s \<noteq> W_gone"
  shows "\<exists>ob. hp_obj (st_heap s) = Some ob"
proof -
  have "0 \<le> sum_list (map reader_refers (st_readers s))" using holds_nonneg(2) by (intro sum_list_nonneg) auto
  then have "object_refs s > 0" using assms(2) writer_refers_zero [of "st_writer s"] by (auto simp: object_refs_def not_le)
  with inv_object [OF assms(1)] show ?thesis by (auto simp: object_ok_def split: option.splits)
qed

lemma inv_writer: "stm_inv s \<Longrightarrow> writer_ok (st_writer s) (length (st_given s))"
  by (simp add: stm_inv_def)

lemma update_call_step:
  assumes "stm_inv s" "st_writer s = W_idle"
  shows "\<exists>s'. writer_step (Call_update msg sz) s = Step s' \<and> stm_inv s'"
proof -
  let ?n = "length (st_given s)"
  from newcopy_ok [OF inv_copies [OF assms(1)], of msg sz] obtain h' where
    h': "stm_newcopy msg sz (st_heap s) = (?n, h')" "copies_ok (shift_ref (copy_refs s) (Some ?n) 1) (st_given s @ [msg]) h'" "hp_obj h' = hp_obj (st_heap s)"
    by blast
  let ?s = "s\<lparr>st_heap := h', st_writer := W_update ?n, st_given := st_given s @ [msg]\<rparr>"
  have "writer_step (Call_update msg sz) s = Step ?s" using assms(2) h'(1) by (simp add: writer_step_def)
  moreover have "stm_inv ?s"
  proof (rule writer_inv_step [OF assms(1)])
    show "copies_ok (\<lambda>c. copy_refs s c + (writer_holds c (st_writer ?s) - writer_holds c (st_writer s)) +
        (object_holds c (hp_obj (st_heap ?s)) - object_holds c (hp_obj (st_heap s)))) (st_given ?s) (st_heap ?s)"
      by (simp add: h'(3) assms(2), rule copies_ok_cong [OF h'(2)], simp add: shift_ref_def)
    show "object_ok (hp_obj (st_heap ?s)) (st_writer ?s) (length (st_given ?s))
        (object_refs s + writer_refers (st_writer ?s) - writer_refers (st_writer s) + (int (st_transit ?s) - int (st_transit s))) (reads s)"
      using inv_object [OF assms(1)] assms(2) h'(3) by (auto simp: object_ok_def split: option.splits)
  qed (use inv_writer [OF assms(1)] assms(2) in simp_all)
  ultimately show ?thesis by blast
qed

text \<open>A step of the writer that changes only the lock or the count of the object.\<close>

lemma object_step:
  assumes "stm_inv s" "st_writer s \<noteq> W_gone" "hp_obj (st_heap s) = Some ob" "ob_copy ob' = ob_copy ob"
    and "\<And>c. writer_holds c pc = writer_holds c (st_writer s)"
    and "object_ok (Some ob') pc (length (st_given s)) (object_refs s + writer_refers pc - writer_refers (st_writer s)) (reads s)"
    and "installed pc (length (st_given s)) = installed (st_writer s) (length (st_given s))" "writer_ok pc (length (st_given s))"
  shows "stm_inv (s\<lparr>st_heap := (st_heap s)\<lparr>hp_obj := Some ob'\<rparr>, st_writer := pc\<rparr>)"
proof (rule writer_inv_step [OF assms(1)])
  let ?s = "s\<lparr>st_heap := (st_heap s)\<lparr>hp_obj := Some ob'\<rparr>, st_writer := pc\<rparr>"
  show "copies_ok (\<lambda>c. copy_refs s c + (writer_holds c (st_writer ?s) - writer_holds c (st_writer s)) +
      (object_holds c (hp_obj (st_heap ?s)) - object_holds c (hp_obj (st_heap s)))) (st_given ?s) (st_heap ?s)"
    using inv_copies [OF assms(1)] assms(3-5) by (simp add: object_holds_def)
qed (use assms in simp_all)

lemma wlock_result:
  assumes "hp_obj h = Some ob"
  shows "run_lock (wlock h) = (if ob_write ob \<or> ob_read ob > 0 then Blocked else Step (h\<lparr>hp_obj := Some (ob\<lparr>ob_write := True\<rparr>)\<rparr>))"
  using assms by (simp add: wlock_def run_lock_def)

lemma writer_lock_step:
  assumes "stm_inv s" "st_writer s = W_update c \<or> st_writer s = W_delete"
  shows "(\<exists>s'. writer_step call s = Step s' \<and> stm_inv s') \<or> writer_step call s = Blocked"
proof -
  from writer_object [OF assms(1)] assms(2) obtain ob where ob: "hp_obj (st_heap s) = Some ob" by auto
  let ?pc = "if st_writer s = W_delete then W_deleting else W_updating c"
  let ?s = "s\<lparr>st_heap := (st_heap s)\<lparr>hp_obj := Some (ob\<lparr>ob_write := True\<rparr>)\<rparr>, st_writer := ?pc\<rparr>"
  show ?thesis
  proof (cases "ob_write ob \<or> ob_read ob > 0")
    case True
    then show ?thesis using assms(2) wlock_result [OF ob] by (auto simp: writer_step_def)
  next
    case False
    then have "writer_step call s = Step ?s" using assms(2) wlock_result [OF ob] by (auto simp: writer_step_def)
    moreover have "stm_inv ?s"
    proof (rule object_step [OF assms(1) _ ob])
      show "object_ok (Some (ob\<lparr>ob_write := True\<rparr>)) ?pc (length (st_given s)) (object_refs s + writer_refers ?pc - writer_refers (st_writer s)) (reads s)"
        using inv_object [OF assms(1)] ob assms(2) False by (auto simp: object_ok_def)
    qed (use assms(2) inv_writer [OF assms(1)] in auto)
    ultimately show ?thesis by blast
  qed
qed

lemma copy_call_step:
  assumes "stm_inv s" "st_writer s = W_idle"
  shows "(\<exists>s'. writer_step Call_copy s = Step s' \<and> stm_inv s') \<or> writer_step Call_copy s = Blocked"
proof -
  from writer_object [OF assms(1)] assms(2) obtain ob where ob: "hp_obj (st_heap s) = Some ob" by auto
  have w: "\<not> ob_write ob" using inv_object [OF assms(1)] ob assms(2) by (simp add: object_ok_def)
  let ?ob = "ob\<lparr>ob_read := ob_read ob + 1\<rparr>"
  let ?s = "s\<lparr>st_heap := (st_heap s)\<lparr>hp_obj := Some ?ob\<rparr>, st_writer := W_grabbing\<rparr>"
  have "writer_step Call_copy s = Step ?s" using assms(2) ob w by (simp add: writer_step_def rlock_def run_lock_def)
  moreover have "stm_inv ?s"
  proof (rule object_step [OF assms(1) _ ob])
    show "object_ok (Some ?ob) W_grabbing (length (st_given s)) (object_refs s + writer_refers W_grabbing - writer_refers (st_writer s)) (reads s)"
      using inv_object [OF assms(1)] ob assms(2) w by (auto simp: object_ok_def)
  qed (use assms(2) inv_writer [OF assms(1)] in auto)
  ultimately show ?thesis by blast
qed

lemma delete_call_step:
  assumes "stm_inv s" "st_writer s = W_idle"
  shows "\<exists>s'. writer_step Call_delete s = Step s' \<and> stm_inv s'"
proof -
  from writer_object [OF assms(1)] assms(2) obtain ob where ob: "hp_obj (st_heap s) = Some ob" by auto
  have "ob_copy ob \<noteq> None" using inv_object [OF assms(1)] ob assms(2) by (simp add: object_ok_def)
  then have "writer_step Call_delete s = Step (s\<lparr>st_heap := (st_heap s)\<lparr>hp_obj := Some ob\<rparr>, st_writer := W_delete\<rparr>)"
    using assms(2) ob by (simp add: writer_step_def run_def)
  moreover have "stm_inv (s\<lparr>st_heap := (st_heap s)\<lparr>hp_obj := Some ob\<rparr>, st_writer := W_delete\<rparr>)"
  proof (rule object_step [OF assms(1) _ ob])
    show "object_ok (Some ob) W_delete (length (st_given s)) (object_refs s + writer_refers W_delete - writer_refers (st_writer s)) (reads s)"
      using inv_object [OF assms(1)] ob assms(2) by (auto simp: object_ok_def)
  qed (use assms(2) inv_writer [OF assms(1)] in auto)
  ultimately show ?thesis by blast
qed

lemma grabbing_step:
  assumes "stm_inv s" "st_writer s = W_grabbing"
  shows "\<exists>s'. writer_step call s = Step s' \<and> stm_inv s'"
proof -
  from writer_object [OF assms(1)] assms(2) obtain ob where ob: "hp_obj (st_heap s) = Some ob" by auto
  let ?ob = "ob\<lparr>ob_reference := ob_reference ob + 1\<rparr>" and ?pc = "W_grabbed (ob_reference ob)"
  have "writer_step call s = Step (s\<lparr>st_heap := (st_heap s)\<lparr>hp_obj := Some ?ob\<rparr>, st_writer := ?pc\<rparr>)"
    using assms(2) ob by (simp add: writer_step_def grab_locked_def run_def)
  moreover have "stm_inv (s\<lparr>st_heap := (st_heap s)\<lparr>hp_obj := Some ?ob\<rparr>, st_writer := ?pc\<rparr>)"
  proof (rule object_step [OF assms(1) _ ob])
    show "object_ok (Some ?ob) ?pc (length (st_given s)) (object_refs s + writer_refers ?pc - writer_refers (st_writer s)) (reads s)"
      using inv_object [OF assms(1)] ob assms(2) by (auto simp: object_ok_def)
    show "writer_ok ?pc (length (st_given s))"
      using inv_object [OF assms(1)] inv_writer [OF assms(1)] ob assms(2) by (simp add: object_ok_def)
  qed (use assms(2) in auto)
  ultimately show ?thesis by blast
qed

lemma grabbed_step:
  assumes "stm_inv s" "st_writer s = W_grabbed ref"
  shows "\<exists>s'. writer_step call s = Step s' \<and> stm_inv s'"
proof -
  from writer_object [OF assms(1)] assms(2) obtain ob where ob: "hp_obj (st_heap s) = Some ob" by auto
  let ?ob = "ob\<lparr>ob_read := ob_read ob - 1\<rparr>"
  have "0 \<le> reads s" unfolding reads_def using holds_nonneg(3) by (intro sum_list_nonneg) auto
  then have r: "1 \<le> ob_read ob" using inv_object [OF assms(1)] ob assms(2) by (simp add: object_ok_def)
  have "writer_step call s = Step (s\<lparr>st_heap := (st_heap s)\<lparr>hp_obj := Some ?ob\<rparr>, st_writer := W_check ref\<rparr>)"
    using assms(2) ob by (simp add: writer_step_def runlock_def run_def)
  moreover have "stm_inv (s\<lparr>st_heap := (st_heap s)\<lparr>hp_obj := Some ?ob\<rparr>, st_writer := W_check ref\<rparr>)"
  proof (rule object_step [OF assms(1) _ ob])
    show "object_ok (Some ?ob) (W_check ref) (length (st_given s)) (object_refs s + writer_refers (W_check ref) - writer_refers (st_writer s)) (reads s)"
      using inv_object [OF assms(1)] ob assms(2) r by (auto simp: object_ok_def)
  qed (use assms(2) inv_writer [OF assms(1)] in auto)
  ultimately show ?thesis by blast
qed

lemma check_step:
  assumes "stm_inv s" "st_writer s = W_check ref"
  shows "\<exists>s'. writer_step call s = Step s' \<and> stm_inv s'"
proof -
  let ?s = "s\<lparr>st_writer := W_idle, st_transit := st_transit s + 1\<rparr>"
  have "writer_step call s = Step ?s" using assms(2) inv_writer [OF assms(1)] by (simp add: writer_step_def run_def)
  moreover have "stm_inv ?s"
  proof (rule writer_inv_step [OF assms(1)])
    show "object_ok (hp_obj (st_heap ?s)) (st_writer ?s) (length (st_given ?s))
        (object_refs s + writer_refers (st_writer ?s) - writer_refers (st_writer s) + (int (st_transit ?s) - int (st_transit s))) (reads s)"
      using inv_object [OF assms(1)] assms(2) by (simp add: object_ok_def split: option.splits)
  qed (use inv_copies [OF assms(1)] inv_writer [OF assms(1)] assms(2) in simp_all)
  ultimately show ?thesis by blast
qed

lemma updating_step:
  assumes "stm_inv s" "st_writer s = W_updating c"
  shows "\<exists>s'. writer_step call s = Step s' \<and> stm_inv s'"
proof -
  from writer_object [OF assms(1)] assms(2) obtain ob where ob: "hp_obj (st_heap s) = Some ob" by auto
  have w: "2 \<le> length (st_given s)" "c = length (st_given s) - 1" using inv_writer [OF assms(1)] assms(2) by simp_all
  have o: "ob_copy ob = Some (length (st_given s) - 2)" using inv_object [OF assms(1)] ob assms(2) by (simp add: object_ok_def)
  let ?s = "s\<lparr>st_heap := (st_heap s)\<lparr>hp_obj := Some (ob\<lparr>ob_copy := Some c, ob_write := False\<rparr>)\<rparr>, st_writer := W_drop (ob_copy ob)\<rparr>"
  have "writer_step call s = Step ?s" using assms(2) ob by (simp add: writer_step_def update_locked_def run_def)
  moreover have "stm_inv ?s"
  proof (rule writer_inv_step [OF assms(1)])
    show "copies_ok (\<lambda>c. copy_refs s c + (writer_holds c (st_writer ?s) - writer_holds c (st_writer s)) +
        (object_holds c (hp_obj (st_heap ?s)) - object_holds c (hp_obj (st_heap s)))) (st_given ?s) (st_heap ?s)"
      using inv_copies [OF assms(1)] assms(2) ob by (simp add: object_holds_def)
    show "object_ok (hp_obj (st_heap ?s)) (st_writer ?s) (length (st_given ?s))
        (object_refs s + writer_refers (st_writer ?s) - writer_refers (st_writer s) + (int (st_transit ?s) - int (st_transit s))) (reads s)"
      using inv_object [OF assms(1)] assms(2) ob w by (auto simp: object_ok_def)
  qed (use assms(2) w o in simp_all)
  ultimately show ?thesis by blast
qed

lemma drop_step:
  assumes "stm_inv s" "st_writer s = W_drop old"
  shows "\<exists>s'. writer_step call s = Step s' \<and> stm_inv s'"
proof -
  have pos: "0 < copy_refs s c" if "old = Some c" for c
  proof -
    have "0 \<le> sum_list (map (reader_holds c) (st_readers s))" using holds_nonneg(1) by (intro sum_list_nonneg) auto
    with holds_nonneg(4) [of c "hp_obj (st_heap s)"] show ?thesis using assms(2) that by (simp add: copy_refs_def)
  qed
  from releasecopy_ok [OF inv_copies [OF assms(1)] pos] obtain h' where
    h': "stm_releasecopy old (st_heap s) = Some h'" "copies_ok (shift_ref (copy_refs s) old (- 1)) (st_given s) h'" "hp_obj h' = hp_obj (st_heap s)"
    by blast
  let ?s = "s\<lparr>st_heap := h', st_writer := W_idle\<rparr>"
  have "writer_step call s = Step ?s" using assms(2) h'(1) by (simp add: writer_step_def run_def)
  moreover have "stm_inv ?s"
  proof (rule writer_inv_step [OF assms(1)])
    show "copies_ok (\<lambda>c. copy_refs s c + (writer_holds c (st_writer ?s) - writer_holds c (st_writer s)) +
        (object_holds c (hp_obj (st_heap ?s)) - object_holds c (hp_obj (st_heap s)))) (st_given ?s) (st_heap ?s)"
      by (simp add: h'(3) assms(2), rule copies_ok_cong [OF h'(2)], simp add: shift_ref_def)
    show "object_ok (hp_obj (st_heap ?s)) (st_writer ?s) (length (st_given ?s))
        (object_refs s + writer_refers (st_writer ?s) - writer_refers (st_writer s) + (int (st_transit ?s) - int (st_transit s))) (reads s)"
      using inv_object [OF assms(1)] assms(2) h'(3) by (simp add: object_ok_def split: option.splits)
  qed (use inv_writer [OF assms(1)] assms(2) in simp_all)
  ultimately show ?thesis by blast
qed

lemma deleting_step:
  assumes "stm_inv s" "st_writer s = W_deleting"
  shows "\<exists>s'. writer_step call s = Step s' \<and> stm_inv s'"
proof -
  from writer_object [OF assms(1)] assms(2) obtain ob where ob: "hp_obj (st_heap s) = Some ob" by auto
  from releasecopy_ok [OF inv_copies [OF assms(1)] object_copy_pos [OF ob]] obtain h' where
    h': "stm_releasecopy (ob_copy ob) (st_heap s) = Some h'" "copies_ok (shift_ref (copy_refs s) (ob_copy ob) (- 1)) (st_given s) h'" by blast
  let ?ob = "ob\<lparr>ob_copy := None, ob_reference := ob_reference ob - 1, ob_write := False\<rparr>"
  define obj where "obj = (if ob_reference ob - 1 > 0 then Some ?ob else None)"
  have z: "object_holds c obj = 0" for c by (simp add: obj_def object_holds_def)
  let ?s = "s\<lparr>st_heap := h'\<lparr>hp_obj := obj\<rparr>, st_writer := W_gone\<rparr>"
  have "writer_step call s = Step ?s"
    using assms(2) h'(1) ob by (simp add: writer_step_def release_locked_def run_def obj_def)
  moreover have "stm_inv ?s"
  proof (rule writer_inv_step [OF assms(1)])
    show "copies_ok (\<lambda>c. copy_refs s c + (writer_holds c (st_writer ?s) - writer_holds c (st_writer s)) +
        (object_holds c (hp_obj (st_heap ?s)) - object_holds c (hp_obj (st_heap s)))) (st_given ?s) (st_heap ?s)"
      by (simp add: assms(2) z, rule copies_ok_cong [OF h'(2)], simp add: shift_ref_def object_holds_def ob)
    show "object_ok (hp_obj (st_heap ?s)) (st_writer ?s) (length (st_given ?s))
        (object_refs s + writer_refers (st_writer ?s) - writer_refers (st_writer s) + (int (st_transit ?s) - int (st_transit s))) (reads s)"
      using inv_object [OF assms(1)] assms(2) ob by (auto simp: object_ok_def obj_def)
  qed (use inv_writer [OF assms(1)] assms(2) in simp_all)
  ultimately show ?thesis by blast
qed

lemma writer_step_inv:
  assumes "stm_inv s"
  shows "(\<exists>s'. writer_step call s = Step s' \<and> stm_inv s') \<or> writer_step call s = Blocked"
proof (cases "st_writer s")
  case W_idle
  show ?thesis
  proof (cases call)
    case (Call_update msg sz)
    from update_call_step [OF assms W_idle, of msg sz] Call_update show ?thesis by blast
  next
    case Call_copy
    from copy_call_step [OF assms W_idle] Call_copy show ?thesis by blast
  next
    case Call_delete
    from delete_call_step [OF assms W_idle] Call_delete show ?thesis by blast
  qed
next
  case (W_update c)
  from writer_lock_step [OF assms, of c call] W_update show ?thesis by blast
next
  case (W_updating c)
  from updating_step [OF assms this] show ?thesis by blast
next
  case (W_drop old)
  from drop_step [OF assms this] show ?thesis by blast
next
  case W_grabbing
  from grabbing_step [OF assms this] show ?thesis by blast
next
  case (W_grabbed ref)
  from grabbed_step [OF assms this] show ?thesis by blast
next
  case (W_check ref)
  from check_step [OF assms this] show ?thesis by blast
next
  case W_delete
  from writer_lock_step [OF assms, of 0 call] W_delete show ?thesis by blast
next
  case W_deleting
  from deleting_step [OF assms this] show ?thesis by blast
next
  case W_gone
  then show ?thesis by (simp add: writer_step_def)
qed

subsection \<open>Every interleaving\<close>

lemma start_inv: "stm_inv (lnewwriter msg sz)"
proof -
  have "freed_of (Suc 0) (st_heap (lnewwriter msg sz)) = {}"
    by (auto simp: freed_of_def lnewwriter_def stm_new_def stm_newcopy_def)
  then show ?thesis
    by (simp add: stm_inv_def copies_ok_def copy_ok_def object_ok_def reads_def object_refs_def copy_refs_def object_holds_def)
       (simp add: lnewwriter_def stm_new_def stm_newcopy_def)
qed

lemma newreader_inv:
  assumes "stm_inv s" "st_transit s > 0"
  shows "stm_inv (lnewreader s)"
proof -
  have "copy_refs (lnewreader s) = copy_refs s" "object_refs (lnewreader s) = object_refs s" "reads (lnewreader s) = reads s"
    using assms(2) by (auto simp: lnewreader_def new_reader_def copy_refs_def object_refs_def reads_def reader_counts)
  moreover have "reader_ok lim gone g new_reader" for lim gone g by (simp add: reader_ok_def new_reader_def pending_def)
  ultimately show ?thesis using assms(1) by (auto simp: stm_inv_def lnewreader_def)
qed

lemma stm_reach_inv: "stm_reach s \<Longrightarrow> stm_inv s"
proof (induction rule: stm_reach.induct)
  case (stm_start msg sz)
  show ?case by (rule start_inv)
next
  case (stm_writer s call s')
  from writer_step_inv [OF stm_writer(3), of call] stm_writer(2) show ?case by auto
next
  case (stm_newreader s)
  then show ?case by (simp add: newreader_inv)
next
  case (stm_reader s i call r h)
  from reader_step_inv [OF stm_reader(4,2), of call] stm_reader(3) have "stm_inv (put_reader i (r, h) s)" by auto
  then show ?case by (simp add: put_reader_def)
qed

lemma all_released:
  assumes "stm_inv s" "st_writer s = W_gone" "st_transit s = 0" "\<forall>r \<in> set (st_readers s). rd_pc r = R_gone"
  shows "hp_obj (st_heap s) = None" "\<forall>c. hp_copies (st_heap s) c = None" "mset (hp_freed (st_heap s)) = mset (st_given s)"
proof -
  have zero: "sum_list (map f (st_readers s)) = 0" if "\<And>r. r \<in> set (st_readers s) \<Longrightarrow> f r = 0" for f :: "stm_reader \<Rightarrow> int"
  proof -
    have "map f (st_readers s) = map (\<lambda>_. 0) (st_readers s)" using that by (intro map_cong) auto
    then show ?thesis by (simp only: sum_list_0)
  qed
  have "object_refs s = 0" using assms(2-4) zero [of reader_refers] by (simp add: object_refs_def reader_refers_def)
  then show o: "hp_obj (st_heap s) = None" using inv_object [OF assms(1)] by (auto simp: object_ok_def split: option.splits)
  have "reader_holds c r = 0" if "r \<in> set (st_readers s)" for r c
  proof -
    have "reader_ok (installed (st_writer s) (length (st_given s))) (st_writer s = W_gone) (st_given s) r" using assms(1) that by (simp add: stm_inv_def)
    then show ?thesis using assms(4) that by (auto simp: reader_ok_def reader_holds_def pending_def)
  qed
  then have "copy_refs s c = 0" for c using zero [of "reader_holds c"] o assms(2) by (simp add: copy_refs_def object_holds_def)
  then show n: "\<forall>c. hp_copies (st_heap s) c = None"
    using inv_copies [OF assms(1)] by (auto simp: copies_ok_def copy_ok_def split: option.splits)
  have "freed_of (length (st_given s)) (st_heap s) = {..<length (st_given s)}" using n by (auto simp: freed_of_def)
  then have "mset (hp_freed (st_heap s)) = image_mset (nth (st_given s)) (mset_set {..<length (st_given s)})"
    using inv_copies [OF assms(1)] by (simp add: copies_ok_def)
  also have "\<dots> = mset (map (nth (st_given s)) [0..<length (st_given s)])" by (simp add: mset_map atLeast0LessThan)
  finally show "mset (hp_freed (st_heap s)) = mset (st_given s)" by (simp add: map_nth)
qed

text \<open>C18. Shared values: at every interleaving of a writer and its readers no assertion fails and no freed memory is
  used, with one exception: a reader that is being released may give back the lock of an object that another
  reader has freed. When everyone has released the object, it and all copies are freed, and each message
  that was handed over was freed once.\<close>

theorem stm_memory_safe:
  assumes "stm_reach s"
  shows "writer_step wcall s \<noteq> Crash \<and>
    (\<forall>i < length (st_readers s). reader_step rcall (st_readers s ! i) (st_heap s) = Crash \<longrightarrow>
       rd_pc (st_readers s ! i) = R_del_unlock \<and> hp_obj (st_heap s) = None) \<and>
    (st_writer s = W_gone \<and> st_transit s = 0 \<and> (\<forall>r \<in> set (st_readers s). rd_pc r = R_gone) \<longrightarrow>
       hp_obj (st_heap s) = None \<and> (\<forall>c. hp_copies (st_heap s) c = None) \<and> mset (hp_freed (st_heap s)) = mset (st_given s))"
proof (intro conjI allI impI)
  note I = stm_reach_inv [OF assms]
  show "writer_step wcall s \<noteq> Crash" using writer_step_inv [OF I, of wcall] by auto
  show "rd_pc (st_readers s ! i) = R_del_unlock" "hp_obj (st_heap s) = None"
    if "i < length (st_readers s)" "reader_step rcall (st_readers s ! i) (st_heap s) = Crash" for i
    using reader_step_inv [OF I that(1), of rcall] that(2) by auto
qed (use all_released [OF stm_reach_inv [OF assms]] in auto)

text \<open>What a reader sees is in the order of the updates, never the same copy twice, and each with its message; a reader
  under the lock gets the latest copy.\<close>

theorem stm_readers_in_order:
  assumes "stm_reach s" "i < length (st_readers s)"
  shows "\<exists>ks. sorted_wrt (<) ks \<and> (\<forall>k \<in> set ks. k < length (st_given s)) \<and> rd_seen (st_readers s ! i) = map (\<lambda>k. (k, st_given s ! k)) ks"
    and "rd_pc (st_readers s ! i) = R_locked \<Longrightarrow>
      \<exists>h. reader_step call (st_readers s ! i) (st_heap s) = Step ((st_readers s ! i)\<lparr>rd_pc := R_copied (latest (st_writer s) (length (st_given s)))\<rparr>, h)"
proof -
  let ?r = "st_readers s ! i"
  note I = stm_reach_inv [OF assms(1)]
  have lim: "installed w n \<le> n" for w n by (cases w) simp_all
  from reader_facts(4) [OF I assms(2)] have R: "sorted_wrt (<) (map fst (rd_seen ?r))"
    "\<forall>x \<in> set (rd_seen ?r). fst x < installed (st_writer s) (length (st_given s)) \<and> snd x = st_given s ! fst x" by (simp_all add: reader_ok_def)
  have "rd_seen ?r = map (\<lambda>k. (k, st_given s ! k)) (map fst (rd_seen ?r))"
    using R(2) by (induction "rd_seen ?r") (auto intro!: map_idI [symmetric] simp: prod_eq_iff)
  moreover have "\<forall>k \<in> set (map fst (rd_seen ?r)). k < length (st_given s)"
    using R(2) lim [of "st_writer s" "length (st_given s)"] by fastforce
  ultimately show "\<exists>ks. sorted_wrt (<) ks \<and> (\<forall>k \<in> set ks. k < length (st_given s)) \<and> rd_seen ?r = map (\<lambda>k. (k, st_given s ! k)) ks"
    using R(1) by blast
  assume L: "rd_pc ?r = R_locked"
  then have "reader_refers ?r = 1" by (simp add: reader_refers_def)
  from reader_facts(1) [OF I assms(2) this] obtain ob where ob: "hp_obj (st_heap s) = Some ob" by blast
  from copy_locked_ok [OF inv_copies [OF I] ob object_copy_pos [OF ob]] obtain h where "copy_locked (st_heap s) = Some (ob_copy ob, h)" by blast
  moreover have "ob_copy ob = latest (st_writer s) (length (st_given s))" using inv_object [OF I] ob by (simp add: object_ok_def)
  ultimately show "\<exists>h. reader_step call ?r (st_heap s) = Step (?r\<lparr>rd_pc := R_copied (latest (st_writer s) (length (st_given s)))\<rparr>, h)"
    using L by (auto simp: reader_step_def run_def)
qed

text \<open>A run is a list of moves.\<close>

datatype stm_move = Move_writer writer_call | Move_new | Move_reader nat reader_call

fun make_move :: "stm_move \<Rightarrow> stm_system \<Rightarrow> stm_system option" where
  "make_move (Move_writer call) s = (case writer_step call s of Step s' \<Rightarrow> Some s' | _ \<Rightarrow> None)"
| "make_move Move_new s = (if st_transit s > 0 then Some (lnewreader s) else None)"
| "make_move (Move_reader i call) s =
     (if i < length (st_readers s)
      then (case reader_step call (st_readers s ! i) (st_heap s) of Step (r, h) \<Rightarrow> Some (put_reader i (r, h) s) | _ \<Rightarrow> None)
      else None)"

lemma stm_moves_reach: "stm_reach s \<Longrightarrow> fold_opt make_move ms s = Some s' \<Longrightarrow> stm_reach s'"
proof (induction ms arbitrary: s)
  case (Cons m ms)
  from Cons.prems(2) obtain s1 where 1: "make_move m s = Some s1" "fold_opt make_move ms s1 = Some s'" by (auto simp: bind_eq_Some_conv)
  have "stm_reach s1"
    using 1(1) Cons.prems(1)
    by (cases m) (auto simp: put_reader_def split: outcome.splits if_splits intro: stm_reach.intros)
  with Cons.IH 1(2) show ?case by blast
qed simp

text \<open>Two readers of an object without a writer are released together: both have the read lock, the first takes
  its reference off, the second takes the last one off and frees the object, and the first gives back the
  lock in freed memory.\<close>

definition race_moves :: "stm_move list" where
  "race_moves =
     replicate 4 (Move_writer Call_copy) @ [Move_new] @ replicate 4 (Move_writer Call_copy) @ [Move_new] @
     replicate 3 (Move_writer Call_delete) @
     [Move_reader 0 Call_release, Move_reader 1 Call_release, Move_reader 0 Call_release, Move_reader 1 Call_release]"

lemma race_runs:
  "(case fold_opt make_move race_moves (lnewwriter [7] 1) of None \<Rightarrow> False
    | Some s \<Rightarrow> length (st_readers s) = 2 \<and> (case reader_step Call_release (st_readers s ! 0) (st_heap s) of Crash \<Rightarrow> True | _ \<Rightarrow> False))"
  by code_simp


text \<open>A run in which a reader sees both values of a writer and everything is released.\<close>

definition full_run :: "stm_move list" where
  "full_run =
     replicate 4 (Move_writer Call_copy) @ [Move_new] @ replicate 5 (Move_reader 0 Call_read) @
     replicate 4 (Move_writer (Call_update [8] 1)) @ replicate 5 (Move_reader 0 Call_read) @
     replicate 3 (Move_writer Call_delete) @ replicate 3 (Move_reader 0 Call_release)"

lemma full_run_ends:
  "(case fold_opt make_move full_run (lnewwriter [7] 1) of None \<Rightarrow> False
    | Some s \<Rightarrow> st_writer s = W_gone \<and> st_transit s = 0 \<and> map rd_pc (st_readers s) = [R_gone] \<and>
        map rd_seen (st_readers s) = [[(0, [7]), (1, [8])]] \<and> st_given s = [[7], [8]])"
  by code_simp

theorem stm_memory_safe_witness:
  "\<exists>s. stm_reach s \<and> map rd_seen (st_readers s) = [[(0, [7]), (1, [8])]] \<and> writer_step Call_copy s \<noteq> Crash \<and>
     hp_obj (st_heap s) = None \<and> mset (hp_freed (st_heap s)) = {#[7], [8]#}"
proof -
  from full_run_ends obtain s where s: "fold_opt make_move full_run (lnewwriter [7] 1) = Some s" "st_writer s = W_gone" "st_transit s = 0"
    "map rd_pc (st_readers s) = [R_gone]" "map rd_seen (st_readers s) = [[(0, [7]), (1, [8])]]" "st_given s = [[7], [8]]"
    by (cases "fold_opt make_move full_run (lnewwriter [7] 1)") simp_all
  have reach: "stm_reach s" using stm_moves_reach [OF stm_start s(1)] .
  have "\<forall>r \<in> set (st_readers s). rd_pc r = R_gone" using s(4) by auto
  with stm_memory_safe [OF reach, of Call_copy Call_read] s(2,3,5,6) reach show ?thesis by auto
qed

end
