(* ===== verification/Multicast.thy ===== *)
theory Multicast
  imports Prelude
begin

unbundle bit_operations_syntax

section \<open>Messages to groups (\<open>lua-multicast.c\<close>)\<close>

text \<open>
  A message to a group is one block with a count of references. What services send to each other is the address of a
  cell that holds the address of the package; \<open>multicastd\<close> sets the count to the number of subscribers and
  frees the cell, and every subscriber takes one reference off. Cells and packages live in stores by address,
  freed ones leave them, and freed blocks of data are logged.
\<close>

record mc_package =
  mc_reference :: int
  mc_size :: u32
  mc_data :: bytes

record mc_heap =
  mh_cells :: "nat \<Rightarrow> nat option"
  mh_packs :: "nat \<Rightarrow> mc_package option"
  mh_next :: nat
  mh_freed :: "bytes list"

text \<open>\<open>pack\<close>: the address of the cell, and the size of a pointer.\<close>

definition mc_pack :: "bytes \<Rightarrow> u64 \<Rightarrow> mc_heap \<Rightarrow> (nat \<times> int) \<times> mc_heap" where
  "mc_pack data sz h =
     (let a = mh_next h in
      ((a, 8), h\<lparr>mh_packs := (mh_packs h)(a \<mapsto> \<lparr>mc_reference = 0, mc_size = ucast sz, mc_data = data\<rparr>),
                 mh_cells := (mh_cells h)(a \<mapsto> a), mh_next := a + 1\<rparr>))"

definition mc_packlocal :: "bytes \<Rightarrow> u64 \<Rightarrow> mc_heap \<Rightarrow> ((nat \<times> int) \<times> mc_heap) lua_result" where
  "mc_packlocal data sz h =
     (if sz \<noteq> ucast (ucast sz :: u32) then LuaError ''Size should be 32bit integer'' else LuaOk (mc_pack data sz h))"

text \<open>\<open>mc_packremote\<close> copies the message, which must have the size that is given.\<close>

definition mc_packremote :: "bytes \<Rightarrow> u64 \<Rightarrow> mc_heap \<Rightarrow> ((nat \<times> int) \<times> mc_heap) lua_result option" where
  "mc_packremote data sz h =
     (if sz \<noteq> ucast (ucast sz :: u32) then Some (LuaError ''Size should be 32bit integer'')
      else do { assert_opt (unat sz \<le> length data); Some (LuaOk (mc_pack (take (unat sz) data) sz h)) })"

definition cell_pack :: "nat \<Rightarrow> mc_heap \<Rightarrow> (nat \<times> mc_package) option" where
  "cell_pack cell h = do { a \<leftarrow> mh_cells h cell; p \<leftarrow> mh_packs h a; Some (a, p) }"

definition mc_unpacklocal :: "nat \<Rightarrow> int \<Rightarrow> mc_heap \<Rightarrow> (nat \<times> bytes \<times> int) lua_result option" where
  "mc_unpacklocal cell sz h =
     (if sz \<noteq> 8 then Some (LuaError ''Invalid multicast package size'')
      else do { (a, p) \<leftarrow> cell_pack cell h; Some (LuaOk (a, mc_data p, uint (mc_size p))) })"

definition mc_bindrefer :: "nat \<Rightarrow> int \<Rightarrow> mc_heap \<Rightarrow> (nat \<times> mc_heap) lua_result option" where
  "mc_bindrefer cell ref h =
     do { (a, p) \<leftarrow> cell_pack cell h;
          Some (if mc_reference p \<noteq> 0 then LuaError ''Can't bind a multicast package more than once''
                else LuaOk (a, h\<lparr>mh_packs := (mh_packs h)(a \<mapsto> p\<lparr>mc_reference := ref\<rparr>), mh_cells := (mh_cells h)(cell := None)\<rparr>)) }"

text \<open>\<open>mc_closelocal\<close> raises an error when it has freed a package whose count was not positive.\<close>

definition mc_closelocal :: "nat \<Rightarrow> mc_heap \<Rightarrow> (unit lua_result \<times> mc_heap) option" where
  "mc_closelocal a h =
     do { p \<leftarrow> mh_packs h a;
          let ref = mc_reference p - 1;
          Some (if ref \<le> 0
                then (if ref < 0 then LuaError ''Invalid multicast package reference'' else LuaOk (),
                      h\<lparr>mh_packs := (mh_packs h)(a := None), mh_freed := mh_freed h @ [mc_data p]\<rparr>)
                else (LuaOk (), h\<lparr>mh_packs := (mh_packs h)(a \<mapsto> p\<lparr>mc_reference := ref\<rparr>)\<rparr>)) }"

text \<open>\<open>mc_remote\<close> hands the data on; it does not free the cell.\<close>

definition mc_remote :: "nat \<Rightarrow> mc_heap \<Rightarrow> ((bytes \<times> int) \<times> mc_heap) option" where
  "mc_remote cell h = do { (a, p) \<leftarrow> cell_pack cell h; Some ((mc_data p, uint (mc_size p)), h\<lparr>mh_packs := (mh_packs h)(a := None)\<rparr>) }"

definition mc_nextid :: "u32 \<Rightarrow> u32" where
  "mc_nextid i = i + 256"

subsection \<open>Publishing (\<open>multicastd.lua\<close>)\<close>

text \<open>
  The local part of \<open>publish\<close>: for a channel without subscribers the package is closed at once; otherwise its count
  becomes the number of subscribers, and each gets the address of the package in a message of its own.
\<close>

definition publish :: "nat list \<Rightarrow> nat \<Rightarrow> mc_heap \<Rightarrow> ((nat \<times> nat) list \<times> mc_heap) option" where
  "publish subscribers cell h =
     (if subscribers = []
      then do { r \<leftarrow> mc_bindrefer cell 1 h;
                (case r of LuaError e \<Rightarrow> None
                 | LuaOk (a, h) \<Rightarrow> do { (_, h) \<leftarrow> mc_closelocal a h; Some ([], h) }) }
      else do { r \<leftarrow> mc_bindrefer cell (int (length subscribers)) h;
                (case r of LuaError e \<Rightarrow> None | LuaOk (a, h) \<Rightarrow> Some (map (\<lambda>k. (k, a)) subscribers, h)) })"

text \<open>Each subscriber reads the data and closes the package.\<close>

primrec consume :: "(nat \<times> nat) list \<Rightarrow> mc_heap \<Rightarrow> ((nat \<times> bytes) list \<times> mc_heap) option" where
  "consume [] h = Some ([], h)"
| "consume (m # ms) h =
     do { p \<leftarrow> mh_packs h (snd m);
          (r, h) \<leftarrow> mc_closelocal (snd m) h;
          assert_opt (r = LuaOk ());
          (seen, h) \<leftarrow> consume ms h;
          Some ((fst m, mc_data p) # seen, h) }"

text \<open>The channels of a node: \<open>command.NEW\<close> looks for the next number that is not taken.\<close>

partial_function (option) new_channel :: "(u32 \<Rightarrow> bool) \<Rightarrow> u32 \<Rightarrow> (u32 \<times> u32) option" where
  "new_channel taken i = (if taken i then new_channel taken (mc_nextid i) else Some (i, mc_nextid i))"

declare new_channel.simps [code]

lemma consume_all:
  assumes "mh_packs h a = Some p" "mc_reference p = int (length ks)" "ks \<noteq> []"
  shows "consume (map (\<lambda>k. (k, a)) ks) h =
    Some (map (\<lambda>k. (k, mc_data p)) ks, h\<lparr>mh_packs := (mh_packs h)(a := None), mh_freed := mh_freed h @ [mc_data p]\<rparr>)"
  using assms
proof (induction ks arbitrary: h p)
  case (Cons k ks)
  show ?case
  proof (cases "ks = []")
    case True
    then show ?thesis using Cons.prems by (simp add: mc_closelocal_def fun_upd_def)
  next
    case False
    let ?h = "h\<lparr>mh_packs := (mh_packs h)(a \<mapsto> p\<lparr>mc_reference := int (length ks)\<rparr>)\<rparr>"
    have "mc_closelocal a h = Some (LuaOk (), ?h)" using Cons.prems False by (simp add: mc_closelocal_def)
    moreover have "h\<lparr>mh_packs := (mh_packs ?h)(a := None), mh_freed := mh_freed h @ [mc_data p]\<rparr> =
        h\<lparr>mh_packs := (mh_packs h)(a := None), mh_freed := mh_freed h @ [mc_data p]\<rparr>" by simp
    ultimately show ?thesis using Cons.IH [of ?h "p\<lparr>mc_reference := int (length ks)\<rparr>"] Cons.prems False by (simp del: fun_upd_apply add: fun_upd_same)
  qed
qed simp

text \<open>A message that is packed and published is read by each subscriber, whatever the order in which they get to it, and
  its data is freed once, after the last; nothing of the package remains.\<close>

theorem publish_delivers:
  assumes "mc_packlocal data sz h = LuaOk ((cell, n), h1)" "mh_cells h (mh_next h) = None" "mh_packs h (mh_next h) = None"
  shows "\<exists>ms h2. publish ks cell h1 = Some (ms, h2) \<and> map fst ms = ks \<and> mh_cells h2 = mh_cells h \<and>
    (if ks = [] then h2 = h\<lparr>mh_next := mh_next h + 1, mh_freed := mh_freed h @ [data]\<rparr>
     else \<forall>ms'. (\<exists>ks'. ms' = map (\<lambda>k. (k, mh_next h)) ks' \<and> length ks' = length ks) \<longrightarrow>
       consume ms' h2 = Some (map (\<lambda>m. (fst m, data)) ms', h\<lparr>mh_next := mh_next h + 1, mh_freed := mh_freed h @ [data]\<rparr>))"
proof -
  let ?a = "mh_next h"
  define p where "p = \<lparr>mc_reference = 0, mc_size = ucast sz, mc_data = data\<rparr>"
  have 1: "cell = ?a" "h1 = h\<lparr>mh_packs := (mh_packs h)(?a \<mapsto> p), mh_cells := (mh_cells h)(?a \<mapsto> ?a), mh_next := ?a + 1\<rparr>"
    using assms(1) by (auto simp: mc_packlocal_def mc_pack_def Let_def p_def split: if_splits)
  have clear: "(mh_cells h)(?a := None) = mh_cells h" "(mh_packs h)(?a := None) = mh_packs h" using assms(2,3) by auto
  let ?h2 = "\<lambda>ref. h\<lparr>mh_packs := (mh_packs h)(?a \<mapsto> p\<lparr>mc_reference := ref\<rparr>), mh_next := ?a + 1\<rparr>"
  have bind: "mc_bindrefer cell ref h1 = Some (LuaOk (?a, ?h2 ref))" for ref
    by (simp add: mc_bindrefer_def cell_pack_def 1 p_def clear)
  show ?thesis
  proof (cases "ks = []")
    case True
    then have "publish ks cell h1 = Some ([], h\<lparr>mh_next := ?a + 1, mh_freed := mh_freed h @ [data]\<rparr>)"
      using clear by (simp add: publish_def bind mc_closelocal_def p_def)
    then show ?thesis using True by simp
  next
    case False
    then have "publish ks cell h1 = Some (map (\<lambda>k. (k, ?a)) ks, ?h2 (int (length ks)))" by (simp add: publish_def bind)
    moreover have "consume (map (\<lambda>k. (k, ?a)) ks') (?h2 (int (length ks))) =
        Some (map (\<lambda>k. (k, data)) ks', h\<lparr>mh_next := ?a + 1, mh_freed := mh_freed h @ [data]\<rparr>)" if "length ks' = length ks" for ks'
    proof -
      have "ks' \<noteq> []" using that False by auto
      then show ?thesis
        using consume_all [of "?h2 (int (length ks))" ?a "p\<lparr>mc_reference := int (length ks)\<rparr>" ks'] that clear by (simp add: p_def)
    qed
    ultimately show ?thesis using False by (auto simp: comp_def)
  qed
qed

text \<open>The numbers of channels keep the node in their low byte.\<close>

lemma nextid_node: "mc_nextid i AND 0xFF = i AND 0xFF"
proof -
  have "unat (i + 256) mod 2 ^ 8 = (unat i + 256) mod 2 ^ 32 mod 2 ^ 8" by (simp add: unat_word_ariths)
  also have "\<dots> = unat i mod 2 ^ 8" by (simp add: mod_mod_cancel)
  finally have "unat ((i + 256) AND mask 8) = unat (i AND mask 8)" by (simp only: unat_and_mask)
  then show ?thesis by (simp add: mc_nextid_def mask_eq_exp_minus_1 word_unat_eq_iff)
qed

text \<open>Sending a message to another node leaves its cell behind.\<close>

lemma remote_leaves_cell:
  assumes "mc_packlocal data sz h = LuaOk ((cell, n), h1)"
  shows "\<exists>h2. mc_remote cell h1 = Some ((data, uint sz), h2) \<and> mh_cells h2 cell = Some cell"
proof -
  define w where "w = (ucast sz :: u32)"
  have "sz = ucast w" using assms by (simp add: mc_packlocal_def w_def split: if_splits)
  moreover have "uint (ucast w :: u64) = uint w"
    using uint_lt2p [of w] by (simp add: unsigned_ucast_eq take_bit_int_eq_self)
  ultimately have "uint (ucast sz :: u32) = uint sz" by (simp add: w_def)
  with assms show ?thesis by (auto simp: mc_packlocal_def mc_pack_def mc_remote_def cell_pack_def Let_def split: if_splits)
qed

end
