(* ===== verification/Module.thy ===== *)
theory Module
  imports C_Strings
begin

section \<open>Loading of service modules (\<open>skynet_module.c\<close>)\<close>

text \<open>
  The table of modules, the search of a library along a path of templates, and the functions that a module
  exports. The dynamic loader is a parameter: \<open>dlopen\<close> gives a library by its file name, \<open>dlsym\<close> a function of a
  library by its name. Strings hold no zero bytes. The lock makes a query or an insertion one step.
\<close>

definition MAX_MODULE_TYPE :: nat where "MAX_MODULE_TYPE = 32"

record ('lib, 'fn) skynet_module =
  mod_name :: string
  mod_module :: "'lib option"
  mod_create :: "'fn option"
  mod_init :: "'fn option"
  mod_release :: "'fn option"
  mod_signal :: "'fn option"

record ('lib, 'fn) modules =
  ms_path :: string
  ms_m :: "('lib, 'fn) skynet_module list"

record ('lib, 'fn) loader =
  ld_dlopen :: "string \<Rightarrow> 'lib option"
  ld_dlsym :: "'lib \<Rightarrow> string \<Rightarrow> 'fn option"

subsection \<open>The search along the path\<close>

text \<open>
  One turn of the loop of \<open>_try_open\<close>: the file name that is built in the buffer of \<open>sz\<close> bytes, which was cleared, and
  the rest of the path; \<open>None\<close> inside at the end of the path. A template without a question mark ends the
  process, as does writing outside the buffer.
\<close>

definition open_turn :: "nat \<Rightarrow> string \<Rightarrow> string \<Rightarrow> (string \<times> string) option option" where
  "open_turn sz name path =
     (let path = dropWhile (\<lambda>c. c = CHR '';'') path in
      if path = [] then Some None
      else let len = length (takeWhile (\<lambda>c. c \<noteq> CHR '';'') path);
               i = length (takeWhile (\<lambda>c. c \<noteq> CHR ''?'') (take len path)) in
           do { assert_opt (i + length name \<le> sz);
                assert_opt (i < length path \<and> path ! i = CHR ''?'');
                assert_opt (i + length name + (len - i - 1) < sz);
                Some (Some (take i path @ name @ take (len - i - 1) (drop (i + 1) path), drop len path)) })"

lemma dropWhile_head: "dropWhile P xs = y # ys \<Longrightarrow> \<not> P y"
  by (induction xs) (auto split: if_splits)

lemma open_turn_shorter: "open_turn sz name path = Some (Some (f, rest)) \<Longrightarrow> length rest < length path"
proof -
  assume a: "open_turn sz name path = Some (Some (f, rest))"
  let ?p = "dropWhile (\<lambda>c. c = CHR '';'') path"
  from a have p: "?p \<noteq> []" "rest = drop (length (takeWhile (\<lambda>c. c \<noteq> CHR '';'') ?p)) ?p"
    by (auto simp: open_turn_def Let_def bind_eq_Some_conv split: if_splits)
  then obtain c cs where c: "?p = c # cs" by (meson neq_Nil_conv)
  then have "c \<noteq> CHR '';''" using dropWhile_head by fastforce
  then have "length rest < length ?p" using p(2) c by simp
  also have "\<dots> \<le> length path" by (rule length_dropWhile_le)
  finally show ?thesis .
qed

function try_open_loop :: "('lib, 'fn) loader \<Rightarrow> nat \<Rightarrow> string \<Rightarrow> string \<Rightarrow> 'lib option option" where
  "try_open_loop L sz name path =
     (case open_turn sz name path of
        None \<Rightarrow> None
      | Some None \<Rightarrow> Some None
      | Some (Some (f, rest)) \<Rightarrow>
          (case ld_dlopen L f of Some dl \<Rightarrow> Some (Some dl) | None \<Rightarrow> try_open_loop L sz name rest))"
  by pat_completeness auto
termination
  by (relation "measure (\<lambda>(L, sz, name, path). length path)") (auto dest: open_turn_shorter)

declare try_open_loop.simps [simp del]

definition try_open :: "('lib, 'fn) loader \<Rightarrow> string \<Rightarrow> string \<Rightarrow> 'lib option option" where
  "try_open L path name = try_open_loop L (length path + length name) name path"

subsection \<open>The table\<close>

definition query :: "string \<Rightarrow> ('lib, 'fn) modules \<Rightarrow> nat option" where
  "query name M = (let i = length (takeWhile (\<lambda>m. mod_name m \<noteq> name) (ms_m M)) in if i < length (ms_m M) then Some i else None)"

definition get_api :: "('lib, 'fn) loader \<Rightarrow> 'lib \<Rightarrow> string \<Rightarrow> string \<Rightarrow> 'fn option" where
  "get_api L dl name api =
     (let tmp = name @ api in ld_dlsym L dl (rev (takeWhile (\<lambda>c. c \<noteq> CHR ''.'') (rev tmp))))"

definition open_sym :: "('lib, 'fn) loader \<Rightarrow> 'lib \<Rightarrow> string \<Rightarrow> ('lib, 'fn) skynet_module \<times> bool" where
  "open_sym L dl name =
     (let m = \<lparr>mod_name = name, mod_module = Some dl, mod_create = get_api L dl name ''_create'', mod_init = get_api L dl name ''_init'',
               mod_release = get_api L dl name ''_release'', mod_signal = get_api L dl name ''_signal''\<rparr>
      in (m, mod_init m = None))"

text \<open>The result is the place of the module in the table.\<close>

definition skynet_module_query :: "('lib, 'fn) loader \<Rightarrow> string \<Rightarrow> ('lib, 'fn) modules \<Rightarrow> (nat option \<times> ('lib, 'fn) modules) option" where
  "skynet_module_query L name M =
     (case query name M of
        Some i \<Rightarrow> Some (Some i, M)
      | None \<Rightarrow>
          (if length (ms_m M) < MAX_MODULE_TYPE
           then do { dl \<leftarrow> try_open L (ms_path M) name;
                     Some (case dl of None \<Rightarrow> (None, M)
                           | Some dl \<Rightarrow>
                               (let (m, failed) = open_sym L dl name in
                                if failed then (None, M) else (Some (length (ms_m M)), M\<lparr>ms_m := ms_m M @ [m]\<rparr>))) }
           else Some (None, M)))"

definition skynet_module_insert :: "('lib, 'fn) skynet_module \<Rightarrow> ('lib, 'fn) modules \<Rightarrow> ('lib, 'fn) modules option" where
  "skynet_module_insert m M =
     do { assert_opt (query (mod_name m) M = None \<and> length (ms_m M) < MAX_MODULE_TYPE); Some (M\<lparr>ms_m := ms_m M @ [m]\<rparr>) }"

definition skynet_module_init :: "string \<Rightarrow> ('lib, 'fn) modules" where
  "skynet_module_init path = \<lparr>ms_path = path, ms_m = []\<rparr>"

text \<open>The functions of an instance: which of them is called, and the instance of a module without \<open>create\<close>. \<open>call\<close> is the
  function that is called; an \<open>init\<close> that is missing is a call of \<open>NULL\<close>.\<close>

datatype 'inst instance_of = Created 'inst | No_create

definition skynet_module_instance_create :: "('fn \<Rightarrow> 's \<Rightarrow> 'inst option \<times> 's) \<Rightarrow> ('lib, 'fn) skynet_module \<Rightarrow> 's \<Rightarrow> 'inst instance_of option \<times> 's" where
  "skynet_module_instance_create call m s =
     (case mod_create m of None \<Rightarrow> (Some No_create, s) | Some f \<Rightarrow> (let (i, s) = call f s in (map_option Created i, s)))"

definition skynet_module_instance_init :: "('fn \<Rightarrow> 's \<Rightarrow> (int \<times> 's) option) \<Rightarrow> ('lib, 'fn) skynet_module \<Rightarrow> 's \<Rightarrow> (int \<times> 's) option" where
  "skynet_module_instance_init call m s = do { f \<leftarrow> mod_init m; call f s }"

definition skynet_module_instance_release :: "('fn \<Rightarrow> 's \<Rightarrow> 's option) \<Rightarrow> ('lib, 'fn) skynet_module \<Rightarrow> 's \<Rightarrow> 's option" where
  "skynet_module_instance_release call m s = (case mod_release m of None \<Rightarrow> Some s | Some f \<Rightarrow> call f s)"

definition skynet_module_instance_signal :: "('fn \<Rightarrow> 's \<Rightarrow> 's option) \<Rightarrow> ('lib, 'fn) skynet_module \<Rightarrow> 's \<Rightarrow> 's option" where
  "skynet_module_instance_signal call m s = (case mod_signal m of None \<Rightarrow> Some s | Some f \<Rightarrow> call f s)"

subsection \<open>The search in other words\<close>

text \<open>The templates of a path are its parts between semicolons that are not empty; a template names a file when it has
  a question mark, whose first one the name replaces.\<close>

function templates :: "string \<Rightarrow> string list" where
  "templates path =
     (let p = dropWhile (\<lambda>c. c = CHR '';'') path in
      if p = [] then [] else takeWhile (\<lambda>c. c \<noteq> CHR '';'') p # templates (dropWhile (\<lambda>c. c \<noteq> CHR '';'') p))"
  by pat_completeness auto
termination
proof (relation "measure length")
  fix path p :: string
  assume p: "p = dropWhile (\<lambda>c. c = CHR '';'') path" "p \<noteq> []"
  then obtain c cs where c: "p = c # cs" by (meson neq_Nil_conv)
  then have "c \<noteq> CHR '';''" using p(1) dropWhile_head [of "\<lambda>c. c = CHR '';''" path c cs] by simp
  then have "length (dropWhile (\<lambda>c. c \<noteq> CHR '';'') p) < length p" using c length_dropWhile_le [of "\<lambda>c. c \<noteq> CHR '';''" cs] by simp
  also have "\<dots> \<le> length path" unfolding p(1) by (rule length_dropWhile_le)
  finally show "(dropWhile (\<lambda>c. c \<noteq> CHR '';'') p, path) \<in> measure length" by simp
qed simp

declare templates.simps [simp del]

definition instantiate_template :: "string \<Rightarrow> string \<Rightarrow> string option" where
  "instantiate_template name t =
     (case dropWhile (\<lambda>c. c \<noteq> CHR ''?'') t of [] \<Rightarrow> None
      | _ # rest \<Rightarrow> Some (takeWhile (\<lambda>c. c \<noteq> CHR ''?'') t @ name @ rest))"

primrec first_library :: "('lib, 'fn) loader \<Rightarrow> string \<Rightarrow> string list \<Rightarrow> 'lib option option" where
  "first_library L name [] = Some None"
| "first_library L name (t # ts) =
     do { f \<leftarrow> instantiate_template name t;
          (case ld_dlopen L f of Some dl \<Rightarrow> Some (Some dl) | None \<Rightarrow> first_library L name ts) }"

lemma open_turn_template:
  assumes "length path + length name \<le> sz"
  shows "open_turn sz name path =
    (case templates path of [] \<Rightarrow> Some None
     | t # _ \<Rightarrow> do { f \<leftarrow> instantiate_template name t;
                    Some (Some (f, dropWhile (\<lambda>c. c \<noteq> CHR '';'') (dropWhile (\<lambda>c. c = CHR '';'') path))) })"
proof -
  define p where "p = dropWhile (\<lambda>c. c = CHR '';'') path"
  show ?thesis
  proof (cases "p = []")
    case True
    then show ?thesis by (simp add: open_turn_def templates.simps [of path] p_def [symmetric])
  next
    case False
    define t where "t = takeWhile (\<lambda>c. c \<noteq> CHR '';'') p"
    define a where "a = takeWhile (\<lambda>c. c \<noteq> CHR ''?'') t"
    have tp: "take (length t) p = t" "drop (length t) p = dropWhile (\<lambda>c. c \<noteq> CHR '';'') p"
      unfolding t_def by (metis takeWhile_eq_take) (metis dropWhile_eq_drop)
    have "length p \<le> length path" unfolding p_def by (rule length_dropWhile_le)
    moreover have "length t \<le> length p" "length a \<le> length t" unfolding t_def a_def by (rule length_takeWhile_le)+
    ultimately have len: "length a \<le> length t" "length t \<le> length p" "length p + length name \<le> sz" using assms by linarith+
    have T: "templates path = t # templates (dropWhile (\<lambda>c. c \<noteq> CHR '';'') p)"
      using False by (subst templates.simps) (simp add: p_def [symmetric] t_def)
    have O: "open_turn sz name path =
        do { assert_opt (length a + length name \<le> sz); assert_opt (length a < length p \<and> p ! length a = CHR ''?'');
             assert_opt (length a + length name + (length t - length a - 1) < sz);
             Some (Some (take (length a) p @ name @ take (length t - length a - 1) (drop (length a + 1) p), dropWhile (\<lambda>c. c \<noteq> CHR '';'') p)) }"
      unfolding open_turn_def Let_def p_def [symmetric] t_def [symmetric] tp a_def [symmetric] using False by simp
    show ?thesis
    proof (cases "dropWhile (\<lambda>c. c \<noteq> CHR ''?'') t")
      case Nil
      then have at: "a = t" unfolding a_def by (metis append_Nil2 takeWhile_dropWhile_id)
      have "\<not> (length t < length p \<and> p ! length t = CHR ''?'')"
      proof
        assume b: "length t < length p \<and> p ! length t = CHR ''?''"
        then have "drop (length t) p = CHR ''?'' # drop (Suc (length t)) p" by (metis Cons_nth_drop_Suc)
        then have d: "dropWhile (\<lambda>c. c \<noteq> CHR '';'') p = CHR ''?'' # drop (Suc (length t)) p" using tp(2) by simp
        then show False using dropWhile_head by fastforce
      qed
      then show ?thesis
        unfolding O at T by (simp add: instantiate_template_def Nil assert_opt_def)
    next
      case (Cons q rest)
      then have q: "q = CHR ''?''" using dropWhile_head by fastforce
      have ta: "t = a @ q # rest" using Cons unfolding a_def by (metis takeWhile_dropWhile_id)
      then have pa: "p = a @ q # rest @ dropWhile (\<lambda>c. c \<noteq> CHR '';'') p" unfolding t_def by (metis append.assoc append_Cons takeWhile_dropWhile_id)
      have e: "length t - length a - 1 = length rest" "length t = length a + 1 + length rest" using ta by simp_all
      define r where "r = dropWhile (\<lambda>c. c \<noteq> CHR '';'') p"
      have pa': "p = a @ q # rest @ r" using pa by (simp only: r_def)
      have i: "length a < length p" unfolding pa' by simp
      have i2: "p ! length a = CHR ''?''" unfolding pa' q by (rule nth_append_length)
      have f: "take (length a) p = a" "take (length rest) (drop (length a + 1) p) = rest" unfolding pa' by simp_all
      show ?thesis
        unfolding O T e(1) f using len i i2 e(2) Cons by (simp add: instantiate_template_def a_def [symmetric] p_def [symmetric])
    qed
  qed
qed

lemma try_open_loop_spec:
  "length path + length name \<le> sz \<Longrightarrow> try_open_loop L sz name path = first_library L name (templates path)"
proof (induction path rule: templates.induct)
  case (1 path)
  let ?p = "dropWhile (\<lambda>c. c = CHR '';'') path"
  let ?rest = "dropWhile (\<lambda>c. c \<noteq> CHR '';'') ?p"
  show ?case
  proof (cases "?p = []")
    case True
    then have "templates path = []" by (subst templates.simps) simp
    then show ?thesis using open_turn_template [OF 1(2)] by (subst try_open_loop.simps) simp
  next
    case False
    define t where "t = takeWhile (\<lambda>c. c \<noteq> CHR '';'') ?p"
    have T: "templates path = t # templates ?rest" 
      by (subst templates.simps) (simp add: Let_def False t_def del: dropWhile_eq_Nil_conv)
    have "length ?rest \<le> length path" using length_dropWhile_le [of _ ?p] length_dropWhile_le [of _ path] order_trans by blast
    then have IH: "try_open_loop L sz name ?rest = first_library L name (templates ?rest)" using 1 False by simp
    have O: "open_turn sz name path = do { f \<leftarrow> instantiate_template name t; Some (Some (f, ?rest)) }"
      unfolding open_turn_template [OF 1(2)] T by simp
    show ?thesis
      unfolding T by (subst try_open_loop.simps) (simp add: O IH split: option.splits Option.bind_split)
  qed
qed

text \<open>Loading a module: the first library along the path that opens is used, whatever comes behind it; a module is put into
  the table once, with the functions of its own name, and later queries find it without the loader.\<close>

theorem module_query_loads:
  assumes "query name M = None" "length (ms_m M) < MAX_MODULE_TYPE"
  shows "skynet_module_query L name M =
    (case first_library L name (templates (ms_path M)) of
       None \<Rightarrow> None
     | Some None \<Rightarrow> Some (None, M)
     | Some (Some dl) \<Rightarrow>
         (if get_api L dl name ''_init'' = None then Some (None, M)
          else Some (Some (length (ms_m M)), M\<lparr>ms_m := ms_m M @ [fst (open_sym L dl name)]\<rparr>)))"
  using assms
  by (simp add: skynet_module_query_def try_open_def try_open_loop_spec open_sym_def Let_def split: option.splits)

text \<open>The names of a table differ, it is never larger than its bound, and a query answers with the place of the name.\<close>

definition modules_ok :: "('lib, 'fn) modules \<Rightarrow> bool" where
  "modules_ok M \<longleftrightarrow> distinct (map mod_name (ms_m M)) \<and> length (ms_m M) \<le> MAX_MODULE_TYPE"

lemma takeWhile_place:
  assumes "n = length (takeWhile P xs)"
  shows "j < n \<Longrightarrow> P (xs ! j)" "n < length xs \<Longrightarrow> \<not> P (xs ! n)"
proof -
  show "P (xs ! j)" if "j < n"
  proof -
    have "takeWhile P xs ! j \<in> set (takeWhile P xs)" using that unfolding assms by (rule nth_mem)
    then show ?thesis using that takeWhile_nth [of j P xs] by (auto simp: assms dest: set_takeWhileD)
  qed
  show "\<not> P (xs ! n)" if "n < length xs" using that nth_length_takeWhile [of P xs] by (simp add: assms)
qed

lemma query_Some: "query name M = Some i \<longleftrightarrow> i < length (ms_m M) \<and> mod_name (ms_m M ! i) = name \<and> (\<forall>j < i. mod_name (ms_m M ! j) \<noteq> name)"
proof -
  define n where "n = length (takeWhile (\<lambda>m. mod_name m \<noteq> name) (ms_m M))"
  have q: "query name M = (if n < length (ms_m M) then Some n else None)" by (simp add: query_def n_def)
  note a = takeWhile_place(1) [OF n_def] and b = takeWhile_place(2) [OF n_def]
  have le: "n \<le> length (ms_m M)" unfolding n_def by (rule length_takeWhile_le)
  show ?thesis
  proof
    assume "query name M = Some i"
    then have "i = n" "n < length (ms_m M)" by (simp_all add: q split: if_splits)
    then show "i < length (ms_m M) \<and> mod_name (ms_m M ! i) = name \<and> (\<forall>j < i. mod_name (ms_m M ! j) \<noteq> name)" using a b by blast
  next
    assume i: "i < length (ms_m M) \<and> mod_name (ms_m M ! i) = name \<and> (\<forall>j < i. mod_name (ms_m M ! j) \<noteq> name)"
    have "\<not> n < i" using b i less_trans by blast
    moreover have "\<not> i < n" using a i by blast
    ultimately have "n = i" by simp
    then show "query name M = Some i" using i by (simp add: q)
  qed
qed

lemma query_None: "query name M = None \<longleftrightarrow> name \<notin> set (map mod_name (ms_m M))"
proof -
  let ?t = "takeWhile (\<lambda>m. mod_name m \<noteq> name) (ms_m M)"
  have "query name M = None \<longleftrightarrow> length ?t = length (ms_m M)"
    using length_takeWhile_le [of "\<lambda>m. mod_name m \<noteq> name" "ms_m M"] by (auto simp: query_def Let_def split: if_splits)
  also have "\<dots> \<longleftrightarrow> ?t = ms_m M" by (metis order_refl take_all takeWhile_eq_take)
  finally show ?thesis by (auto simp: takeWhile_eq_all_conv)
qed

lemma module_query_result:
  assumes "modules_ok M" "skynet_module_query L name M = Some (r, M')"
  shows "modules_ok M' \<and> query name M' = r \<and> (\<exists>new. ms_m M' = ms_m M @ new) \<and> ms_path M' = ms_path M"
proof (cases "query name M")
  case (Some i)
  then show ?thesis using assms by (auto simp: skynet_module_query_def)
next
  case None
  show ?thesis
  proof (cases "length (ms_m M) < MAX_MODULE_TYPE")
    case True
    from None have n: "name \<notin> mod_name ` set (ms_m M)" by (simp add: query_None)
    then have n': "mod_name (ms_m M ! j) \<noteq> name" if "j < length (ms_m M)" for j using that by (metis image_eqI nth_mem)
    have "query name (M\<lparr>ms_m := ms_m M @ [m]\<rparr>) = Some (length (ms_m M))" if "mod_name m = name" for m :: "('a, 'b) skynet_module"
      using n' that by (auto simp: query_Some nth_append)
    moreover have "mod_name (fst (open_sym L dl name)) = name" for dl by (simp add: open_sym_def Let_def)
    ultimately show ?thesis
      using assms None True n unfolding module_query_loads [OF None True]
      by (auto simp: modules_ok_def split: option.splits if_splits)
  next
    case False
    then show ?thesis using assms None by (auto simp: skynet_module_query_def)
  qed
qed

end
